(* ===== verification/Roaring_Prelude.thy ===== *)
theory Roaring_Prelude
  imports Main "HOL-Library.Word"
begin

text \<open>
  Types, library functions and list lemmas that every component of the development shares.

  \<^item> \<open>low\<close> is \<open>Layout::low_type\<close> (\<open>std::uint16_t\<close>): the low sixteen bits of a key. The code widens
    such a value with \<open>static_cast<std::size_t>\<close> before it adds one to it; the widening is \<open>unat\<close>, and
    the narrowing \<open>static_cast<low_type>\<close> is \<open>of_nat\<close> (or \<open>word_of_nat\<close>), which wraps as the cast does.
  \<^item> \<open>word64\<close> is \<open>std::uint64_t\<close>, the word of a bitset.
  \<^item> \<open>std::size_t\<close> and the 32-bit counters are \<open>nat\<close>: every one of them counts values, runs or words of
    one container, so it is at most \<open>2 ^ 17\<close> and no arithmetic on it wraps.
  \<^item> A pair of a pointer and a size is a list. A read cursor that only moves forward is the suffix of the
    list it has not yet passed; an output buffer with a fill count is the list of the elements written.
    Where the code reads a buffer after it has written to it, the buffer is kept whole and is written
    with list updates.
\<close>

unbundle bit_operations_syntax

type_synonym low = "16 word"
type_synonym word64 = "64 word"

text \<open>The simplification rules the set semantics of the containers are computed with, and the rules
  that carry well-formedness from an operation's arguments to its result.\<close>

named_theorems value_sets "equations for the set of values an operation's result holds"
named_theorems wf_results "well-formedness of the results of operations"

subsection \<open>The searches of the standard library\<close>

text \<open>\<open>std::partition_point\<close>, \<open>std::lower_bound\<close> and \<open>std::upper_bound\<close> return the position of
  the first element that fails the predicate of a partitioned range, or its end.\<close>

definition partition_point :: "('a \<Rightarrow> bool) \<Rightarrow> 'a list \<Rightarrow> nat" where
  "partition_point p xs = length (takeWhile p xs)"

definition lower_bound :: "'a::linorder list \<Rightarrow> 'a \<Rightarrow> nat" where
  "lower_bound xs v = partition_point (\<lambda>x. x < v) xs"

definition upper_bound :: "'a::linorder list \<Rightarrow> 'a \<Rightarrow> nat" where
  "upper_bound xs v = partition_point (\<lambda>x. \<not> v < x) xs"

lemma partition_point_le [simp]: "partition_point p xs \<le> length xs"
  by (simp add: partition_point_def length_takeWhile_le)

lemma partition_point_stop: "partition_point p xs < length xs \<Longrightarrow> \<not> p (xs ! partition_point p xs)"
  unfolding partition_point_def by (rule nth_length_takeWhile)

lemma partition_point_before: "i < partition_point p xs \<Longrightarrow> p (xs ! i)"
  unfolding partition_point_def
  by (metis nth_mem set_takeWhileD takeWhile_nth)

lemma partition_point_unique:
  assumes "n \<le> length xs" "\<forall>i<n. p (xs ! i)" "n < length xs \<Longrightarrow> \<not> p (xs ! n)"
  shows "partition_point p xs = n"
proof (rule linorder_cases [of "partition_point p xs" n])
  assume "partition_point p xs < n"
  then show ?thesis using assms partition_point_stop [of p xs] by auto
next
  assume "n < partition_point p xs"
  then show ?thesis
    using assms partition_point_before [of n p xs] partition_point_le [of p xs] by auto
qed

lemma take_partition_point: "take (partition_point p xs) xs = takeWhile p xs"
  by (simp add: partition_point_def takeWhile_eq_take [symmetric])

lemma drop_partition_point: "drop (partition_point p xs) xs = dropWhile p xs"
  by (simp add: partition_point_def dropWhile_eq_drop [symmetric])

subsection \<open>Strictly ascending lists\<close>

abbreviation strict :: "'a::linorder list \<Rightarrow> bool" where
  "strict xs \<equiv> sorted_wrt (<) xs"

lemma strict_take [intro, simp]: "strict xs \<Longrightarrow> strict (take n xs)"
  by (metis append_take_drop_id sorted_wrt_append)

lemma strict_drop [intro, simp]: "strict xs \<Longrightarrow> strict (drop n xs)"
  by (metis append_take_drop_id sorted_wrt_append)

lemma strict_tl [intro, simp]: "strict xs \<Longrightarrow> strict (tl xs)"
  by (cases xs) auto

lemma strict_distinct: "strict xs \<Longrightarrow> distinct xs"
  by (induction xs) auto

lemma strict_sorted: "strict xs \<Longrightarrow> sorted xs"
  by (induction xs) auto

lemma strict_nth_less: "strict xs \<Longrightarrow> i < j \<Longrightarrow> j < length xs \<Longrightarrow> xs ! i < xs ! j"
  by (simp add: sorted_wrt_iff_nth_less)

lemma strict_nth_mono: "strict xs \<Longrightarrow> i \<le> j \<Longrightarrow> j < length xs \<Longrightarrow> xs ! i \<le> xs ! j"
  by (metis le_less strict_nth_less)

lemma strict_card_set: "strict xs \<Longrightarrow> card (set xs) = length xs"
  by (simp add: strict_distinct distinct_card)

lemma strict_eqI:
  assumes "strict xs" "strict ys" "set xs = set ys"
  shows "xs = ys"
  using assms by (simp add: strict_distinct strict_sorted sorted_distinct_set_unique)

lemma strict_hd_Min: "strict xs \<Longrightarrow> xs \<noteq> [] \<Longrightarrow> hd xs = Min (set xs)"
  by (cases xs) (auto intro!: Min_eqI [symmetric] simp: le_less)

lemma strict_last_Max: "strict xs \<Longrightarrow> xs \<noteq> [] \<Longrightarrow> last xs = Max (set xs)"
  by (induction xs rule: rev_induct) (auto intro!: Max_eqI [symmetric] simp: sorted_wrt_append le_less)

lemma strict_le_last: "strict xs \<Longrightarrow> x \<in> set xs \<Longrightarrow> x \<le> last xs"
  by (cases xs rule: rev_cases) (auto simp: sorted_wrt_append le_less)

lemma strict_hd_le: "strict xs \<Longrightarrow> x \<in> set xs \<Longrightarrow> hd xs \<le> x"
  by (cases xs) (auto simp: le_less)

lemma strict_filter [intro, simp]: "strict xs \<Longrightarrow> strict (filter p xs)"
  by (rule sorted_wrt_filter)

lemma in_set_drop_nth:
  assumes "x \<in> set (drop n xs)"
  shows "\<exists>i. n + i < length xs \<and> x = xs ! (n + i)"
proof -
  obtain i where "i < length (drop n xs)" "x = drop n xs ! i"
    using assms by (auto simp: in_set_conv_nth)
  then show ?thesis by (intro exI [of _ i]) auto
qed

lemma strict_take_lower_bound:
  "x \<in> set (take (lower_bound xs v) xs) \<Longrightarrow> x < v"
  by (auto simp: lower_bound_def take_partition_point dest: set_takeWhileD)

lemma strict_drop_lower_bound:
  assumes "strict xs" "x \<in> set (drop (lower_bound xs v) xs)"
  shows "v \<le> x"
proof -
  let ?n = "lower_bound xs v"
  obtain i where i: "?n + i < length xs" "x = xs ! (?n + i)"
    using in_set_drop_nth [OF assms(2)] by auto
  then have "v \<le> xs ! ?n"
    using partition_point_stop [of "\<lambda>x. x < v" xs] by (simp add: lower_bound_def)
  also have "\<dots> \<le> x"
    unfolding i(2) using assms(1) _ i(1) by (rule strict_nth_mono) simp
  finally show ?thesis .
qed

lemma lower_bound_le [simp]: "lower_bound xs v \<le> length xs"
  by (simp add: lower_bound_def)

lemma upper_bound_le [simp]: "upper_bound xs v \<le> length xs"
  by (simp add: upper_bound_def)

lemma lower_bound_mem:
  assumes "strict xs"
  shows "v \<in> set xs \<longleftrightarrow> lower_bound xs v < length xs \<and> xs ! lower_bound xs v = v"
proof
  assume v: "v \<in> set xs"
  have "v \<notin> set (take (lower_bound xs v) xs)"
    using strict_take_lower_bound by blast
  moreover have "set xs = set (take (lower_bound xs v) xs) \<union> set (drop (lower_bound xs v) xs)"
    by (simp flip: set_append)
  ultimately have "v \<in> set (drop (lower_bound xs v) xs)"
    using v by blast
  then obtain i where i: "lower_bound xs v + i < length xs" "v = xs ! (lower_bound xs v + i)"
    by (auto dest: in_set_drop_nth)
  then have "v \<le> xs ! lower_bound xs v"
    using partition_point_stop [of "\<lambda>x. x < v" xs] by (simp add: lower_bound_def)
  moreover have "xs ! lower_bound xs v < xs ! (lower_bound xs v + i)" if "0 < i"
    using assms that i(1) by (intro strict_nth_less) auto
  ultimately have "i = 0"
    using i(2) by fastforce
  with i show "lower_bound xs v < length xs \<and> xs ! lower_bound xs v = v" by simp
next
  assume "lower_bound xs v < length xs \<and> xs ! lower_bound xs v = v"
  then show "v \<in> set xs" by (metis nth_mem)
qed

lemma strict_take_upper_bound:
  "x \<in> set (take (upper_bound xs v) xs) \<Longrightarrow> x \<le> v"
  by (auto simp: upper_bound_def take_partition_point not_less dest: set_takeWhileD)

lemma strict_drop_upper_bound:
  assumes "strict xs" "x \<in> set (drop (upper_bound xs v) xs)"
  shows "v < x"
proof -
  let ?n = "upper_bound xs v"
  obtain i where i: "?n + i < length xs" "x = xs ! (?n + i)"
    using in_set_drop_nth [OF assms(2)] by auto
  then have "v < xs ! ?n"
    using partition_point_stop [of "\<lambda>x. \<not> v < x" xs] by (simp add: upper_bound_def)
  also have "\<dots> \<le> x"
    unfolding i(2) using assms(1) _ i(1) by (rule strict_nth_mono) simp
  finally show ?thesis .
qed

subsection \<open>Widening and narrowing of low values\<close>

lemma unat_low_less [simp]: "unat (x :: low) < 65536"
proof -
  have "unat x < 2 ^ LENGTH(16)" by (rule unsigned_less)
  then show ?thesis by simp
qed

lemma unat_low_le [simp]: "unat (x :: low) \<le> 65535"
  using unat_low_less [of x] by linarith

lemma unat_low_upper: "n \<le> unat (x :: low) \<Longrightarrow> n < 65536"
  using unat_low_less [of x] by linarith

lemma unat_of_nat_low [simp]: "n < 65536 \<Longrightarrow> unat (of_nat n :: low) = n"
  by (simp add: unat_of_nat take_bit_eq_mod)

text \<open>\<open>static_cast<low_type>\<close>.\<close>

definition to_low :: "nat \<Rightarrow> low" where
  "to_low n = of_nat n"

lemma unat_to_low [simp]: "n < 65536 \<Longrightarrow> unat (to_low n) = n"
  by (simp add: to_low_def)

lemma to_low_unat [simp]: "to_low (unat x) = x"
  by (simp add: to_low_def)

lemma low_eq_iff: "(x :: low) = y \<longleftrightarrow> unat x = unat y"
  by (simp add: word_unat_eq_iff)

lemmas low_order = word_less_nat_alt word_le_nat_alt low_eq_iff

lemma unat_max_low [simp]: "unat (- 1 :: low) = 65535"
  by (simp add: unsigned_minus_1_eq_mask mask_eq_exp_minus_1)

lemma unat_low_plus1: "x \<noteq> (- 1 :: low) \<Longrightarrow> unat (x + 1) = unat x + 1"
  by (metis Suc_eq_plus1 add.commute add.right_inverse unatSuc add_left_cancel)

lemma low_not_max: "x < (y :: low) \<Longrightarrow> x \<noteq> - 1"
  by (metis not_less word_order.extremum)

lemma unat_minus1_low: "x \<noteq> (0 :: low) \<Longrightarrow> unat (x - 1) = unat x - 1"
  by (rule unat_minus_one)

subsection \<open>Buffers\<close>

text \<open>\<open>memmove( buf + to, buf + from, count )\<close> on a buffer of elements.\<close>

definition memmove :: "'a list \<Rightarrow> nat \<Rightarrow> nat \<Rightarrow> nat \<Rightarrow> 'a list" where
  "memmove buf to from_i count =
     take (length buf) (take to buf @ take count (drop from_i buf) @ drop (to + count) buf)"

text \<open>(Every call stays inside the buffer; a move past its end would be cut off there.)\<close>

lemma memmove_inside:
  "to + n \<le> length buf \<Longrightarrow> from_i + n \<le> length buf \<Longrightarrow>
    memmove buf to from_i n = take to buf @ take n (drop from_i buf) @ drop (to + n) buf"
  by (simp add: memmove_def)

lemma length_memmove [simp]:
  "to + n \<le> length buf \<Longrightarrow> from_i + n \<le> length buf \<Longrightarrow> length (memmove buf to from_i n) = length buf"
  by (simp add: memmove_inside)

lemma drop_update_before: "k < i \<Longrightarrow> drop i (xs[k := x]) = drop i xs"
  by (simp add: drop_update_swap)

lemma take_Suc_update: "k < length xs \<Longrightarrow> take (Suc k) (xs[k := x]) = take k xs @ [x]"
  by (simp add: take_Suc_conv_app_nth)

lemma drop_update_same: "k \<le> i \<Longrightarrow> i < length xs \<Longrightarrow> drop i (xs[k := xs ! i]) = drop i xs"
  by (cases "k = i") (simp_all add: drop_update_before)

lemma card_Suc_interval [simp]: "card {a..b::nat} = b + 1 - a"
  by simp

subsection \<open>Sets of low values, and the number of runs of a set\<close>

text \<open>The values of a sorted array, widened. \<open>run_starts\<close> are the first values of the maximal runs
  of consecutive values of a set; their number decides the form of a container.\<close>

definition array_set :: "low list \<Rightarrow> nat set" where
  "array_set xs = unat ` set xs"

definition run_starts :: "nat set \<Rightarrow> nat set" where
  "run_starts S = {v \<in> S. v = 0 \<or> v - 1 \<notin> S}"

lemma array_set_Nil [simp]: "array_set [] = {}"
  by (simp add: array_set_def)

lemma array_set_Cons [simp]: "array_set (x # xs) = insert (unat x) (array_set xs)"
  by (simp add: array_set_def)

lemma array_set_append [simp]: "array_set (xs @ ys) = array_set xs \<union> array_set ys"
  by (simp add: array_set_def image_Un)

lemma mem_array_set [simp]: "unat x \<in> array_set xs \<longleftrightarrow> x \<in> set xs"
  by (auto simp: array_set_def dest!: low_eq_iff [THEN iffD2])

lemma array_set_bound: "v \<in> array_set xs \<Longrightarrow> v < 65536"
  by (auto simp: array_set_def)

lemma array_setE: "v \<in> array_set xs \<Longrightarrow> (\<And>x. v = unat x \<Longrightarrow> x \<in> set xs \<Longrightarrow> P) \<Longrightarrow> P"
  by (auto simp: array_set_def)

lemma finite_array_set [simp]: "finite (array_set xs)"
  by (simp add: array_set_def)

lemma array_set_empty_iff [simp]: "array_set xs = {} \<longleftrightarrow> xs = []"
  by (simp add: array_set_def)

lemma inj_unat_low: "inj_on (unat :: low \<Rightarrow> nat) A"
  by (auto simp: inj_on_def low_eq_iff)

lemma card_array_set: "strict xs \<Longrightarrow> card (array_set xs) = length xs"
  by (simp add: array_set_def card_image inj_unat_low strict_card_set)

lemma array_set_inject: "strict xs \<Longrightarrow> strict ys \<Longrightarrow> array_set xs = array_set ys \<Longrightarrow> xs = ys"
  by (rule strict_eqI) (auto simp: array_set_def inj_image_eq_iff inj_unat_low)

lemma image_unat_Int: "unat ` (A \<inter> B) = unat ` A \<inter> unat ` (B :: low set)"
  by (rule image_Int) (simp add: inj_unat_low)

lemma image_unat_Diff: "unat ` (A - B) = unat ` A - unat ` (B :: low set)"
  by (rule image_set_diff) (simp add: inj_unat_low)

lemma strict_map_unat: "strict (map unat xs) \<longleftrightarrow> strict (xs :: low list)"
  by (simp add: sorted_wrt_iff_nth_less word_less_nat_alt)

lemma map_unat_of_nat: "\<forall>x\<in>set xs. x < 65536 \<Longrightarrow> map unat (map of_nat xs :: low list) = xs"
  by (induction xs) auto

lemma map_unat_to_low: "\<forall>x\<in>set xs. x < 65536 \<Longrightarrow> map unat (map to_low xs) = xs"
  by (induction xs) auto

lemma strict_map_of_nat:
  assumes "\<forall>x\<in>set xs. x < 65536"
  shows "strict (map of_nat xs :: low list) \<longleftrightarrow> strict xs"
  by (metis assms map_unat_of_nat strict_map_unat)

lemma strict_map_to_low: "\<forall>x\<in>set xs. x < 65536 \<Longrightarrow> strict (map to_low xs) \<longleftrightarrow> strict xs"
  by (metis map_unat_to_low strict_map_unat)

lemma array_set_map_to_low: "\<forall>x\<in>set xs. x < 65536 \<Longrightarrow> array_set (map to_low xs) = set xs"
  by (metis array_set_def list.set_map map_unat_to_low)

lemma array_set_map_of_nat: "\<forall>x\<in>set xs. x < 65536 \<Longrightarrow> array_set (map of_nat xs) = set xs"
  by (metis array_set_def list.set_map map_unat_of_nat)

lemma finite_run_starts [simp]: "finite S \<Longrightarrow> finite (run_starts S)"
  by (rule finite_subset [of _ S]) (auto simp: run_starts_def)

definition sym_diff :: "'a set \<Rightarrow> 'a set \<Rightarrow> 'a set" where
  "sym_diff A B = (A - B) \<union> (B - A)"

lemma mem_sym_diff [simp]: "x \<in> sym_diff A B \<longleftrightarrow> (x \<in> A) \<noteq> (x \<in> B)"
  by (auto simp: sym_diff_def)

text \<open>What every \<open>next_after\<close> returns: the least value of the set above the given one, or nothing.\<close>

definition is_next :: "nat set \<Rightarrow> low \<Rightarrow> low option \<Rightarrow> bool" where
  "is_next S v r = (case r of
     None \<Rightarrow> \<forall>x\<in>S. x \<le> unat v
   | Some w \<Rightarrow> unat w \<in> S \<and> v < w \<and> (\<forall>x\<in>S. unat v < x \<longrightarrow> unat w \<le> x))"

lemma run_starts_empty [simp]: "run_starts {} = {}"
  by (simp add: run_starts_def)

end
