(* ===== verification/Bit_Words.thy ===== *)
theory Bit_Words
  imports Roaring_Prelude
begin

text \<open>
  The word level of a bitset: the bit-counting functions of the standard header \<open>bit\<close>, the masks the
  kernels build with shifts, and the set of values a list of 64-bit words holds. Value \<open>v\<close> is bit
  \<open>v & 63\<close> of word \<open>v >> 6\<close>.
\<close>

subsection \<open>The functions of the header \<open>bit\<close>\<close>

definition popcount :: "word64 \<Rightarrow> nat" where
  "popcount w = length (filter (bit w) [0..<64])"

definition countr_zero :: "word64 \<Rightarrow> nat" where
  "countr_zero w = length (takeWhile (\<lambda>i. \<not> bit w i) [0..<64])"

definition countl_zero :: "word64 \<Rightarrow> nat" where
  "countl_zero w = length (takeWhile (\<lambda>i. \<not> bit w (63 - i)) [0..<64])"

definition countr_one :: "word64 \<Rightarrow> nat" where
  "countr_one w = length (takeWhile (bit w) [0..<64])"

lemma bit_less_64: "bit (w :: word64) i \<Longrightarrow> i < 64"
  using bit_imp_le_length [of w i] by simp

lemma popcount_card: "popcount w = card {i. bit w i}"
proof -
  have "{i. bit w i} = set (filter (bit w) [0..<64])"
    using bit_less_64 by auto
  then show ?thesis
    by (simp only: popcount_def distinct_card distinct_filter distinct_upt)
qed

lemma finite_bits [simp]: "finite {i. bit (w :: word64) i}"
  by (rule finite_subset [of _ "{..<64}"]) (auto dest: bit_less_64)

lemma word64_eq_iff: "(v :: word64) = w \<longleftrightarrow> (\<forall>i<64. bit v i = bit w i)"
  using bit_word_eqI [of v w] by auto

lemma word64_nonzero_iff: "(w :: word64) \<noteq> 0 \<longleftrightarrow> (\<exists>i. bit w i)"
  by (metis bit_0_eq bit_less_64 bot_apply bot_bool_def word64_eq_iff)

lemma word64_all_ones_iff: "(w :: word64) = - 1 \<longleftrightarrow> (\<forall>i<64. bit w i)"
  by (simp add: word64_eq_iff bit_minus_1_iff)

lemma countr_zero_bit: "w \<noteq> 0 \<Longrightarrow> bit w (countr_zero w)"
proof -
  assume "w \<noteq> 0"
  then obtain i where i: "bit w i" by (auto simp: word64_nonzero_iff)
  then have "\<not> (\<forall>x\<in>set [0..<64]. \<not> bit w x)"
    using bit_less_64 by auto
  then have "length (takeWhile (\<lambda>i. \<not> bit w i) [0..<64]) < length [0..<64]"
    by (metis length_takeWhile_le linorder_not_less order_antisym takeWhile_eq_all_conv
        takeWhile_eq_take take_all)
  then show ?thesis
    using nth_length_takeWhile [of "\<lambda>i. \<not> bit w i" "[0..<64]"] by (simp add: countr_zero_def)
qed

lemma countr_zero_below: "i < countr_zero w \<Longrightarrow> \<not> bit w i"
proof -
  assume i: "i < countr_zero w"
  moreover have "countr_zero w \<le> 64"
    using length_takeWhile_le [of "\<lambda>i. \<not> bit w i" "[0..<64]"] by (simp add: countr_zero_def)
  ultimately have "[0..<64] ! i = i" by simp
  then show "\<not> bit w i"
    using i partition_point_before [of i "\<lambda>i. \<not> bit w i" "[0..<64]"]
    by (simp add: partition_point_def countr_zero_def)
qed

lemma countr_zero_less: "w \<noteq> 0 \<Longrightarrow> countr_zero w < 64"
  using bit_less_64 countr_zero_bit by blast

lemma countr_zero_eqI: "bit w k \<Longrightarrow> (\<And>i. i < k \<Longrightarrow> \<not> bit w i) \<Longrightarrow> countr_zero w = k"
  by (metis countr_zero_below countr_zero_bit linorder_neqE_nat word64_nonzero_iff)

lemma countr_zero_least: "w \<noteq> 0 \<Longrightarrow> bit w i \<Longrightarrow> countr_zero w \<le> i"
  using countr_zero_below not_less by blast

lemma countr_one_eq: "countr_one w = countr_zero (NOT w)"
proof -
  have "takeWhile (bit w) [0..<64] = takeWhile (\<lambda>i. \<not> bit (NOT w) i) [0..<64]"
    by (rule takeWhile_cong) (auto simp: bit_not_iff)
  then show ?thesis by (simp add: countr_one_def countr_zero_def)
qed

lemma countl_zero_bit:
  assumes "w \<noteq> 0"
  shows "countl_zero w < 64" "bit w (63 - countl_zero w)" "\<And>i. bit w i \<Longrightarrow> i \<le> 63 - countl_zero w"
proof -
  let ?p = "\<lambda>i. \<not> bit w (63 - i)"
  obtain k where k: "bit w k" "k < 64"
    using assms bit_less_64 by (auto simp: word64_nonzero_iff)
  have n: "countl_zero w = partition_point ?p [0..<64]"
    by (simp add: countl_zero_def partition_point_def)
  have below: "\<not> bit w (63 - i)" if "i < countl_zero w" for i
  proof -
    have "countl_zero w \<le> 64" unfolding n using partition_point_le [of ?p "[0..<64]"] by simp
    with that have "[0..<64] ! i = i" by simp
    with that show ?thesis using partition_point_before [of i ?p "[0..<64]"] by (simp add: n)
  qed
  show lt: "countl_zero w < 64"
  proof (rule ccontr)
    assume "\<not> countl_zero w < 64"
    then have "\<not> bit w (63 - (63 - k))" using k by (intro below) simp
    then show False using k by simp
  qed
  then show "bit w (63 - countl_zero w)"
    using partition_point_stop [of ?p "[0..<64]"] by (simp add: n)
  show "i \<le> 63 - countl_zero w" if "bit w i" for i
    using below [of "63 - i"] that bit_less_64 [OF that] lt by fastforce
qed

subsection \<open>Bit tricks: the lowest set bit and the lowest run of set bits\<close>

lemma word64_split_below:
  assumes "k < 64" "\<not> bit (w :: word64) k" "\<And>i. i < k \<Longrightarrow> \<not> bit w i"
  shows "w + 2 ^ k = w OR 2 ^ k" "w + mask k = w OR mask k" "w + mask k + 1 = w OR 2 ^ k"
proof -
  show *: "w + 2 ^ k = w OR 2 ^ k"
    using assms(2) by (intro disjunctive_add) (auto simp: bit_exp_iff)
  show "w + mask k = w OR mask k"
    using assms(3) by (intro disjunctive_add) (auto simp: bit_mask_iff)
  have "w + mask k + 1 = w + 2 ^ k" by (simp add: mask_eq_exp_minus_1)
  then show "w + mask k + 1 = w OR 2 ^ k" using * by simp
qed

text \<open>\<open>w - 1\<close> clears the lowest set bit of \<open>w\<close> and sets the bits below it.\<close>

lemma bit_minus_1_lowest:
  assumes "w \<noteq> 0"
  shows "bit (w - 1) i \<longleftrightarrow> i < countr_zero w \<or> (bit w i \<and> i \<noteq> countr_zero w)"
proof -
  let ?k = "countr_zero w"
  let ?h = "w AND NOT (2 ^ ?k)"
  have k: "?k < 64" by (rule countr_zero_less [OF assms])
  have h: "bit ?h i \<longleftrightarrow> bit w i \<and> i \<noteq> ?k" for i
    using k by (auto simp: bit_and_iff bit_not_iff bit_exp_iff dest: bit_less_64)
  have "?h + mask ?k + 1 = ?h OR 2 ^ ?k"
    using k h countr_zero_below [of _ w] by (intro word64_split_below) auto
  also have "\<dots> = w"
    using k countr_zero_bit [OF assms] by (auto simp: word64_eq_iff bit_or_iff h bit_exp_iff)
  finally have "w - 1 = ?h + mask ?k" by (simp add: algebra_simps)
  also have "\<dots> = ?h OR mask ?k"
    using k h countr_zero_below [of _ w] by (intro word64_split_below) auto
  finally show ?thesis
    using k by (auto simp: bit_or_iff h bit_mask_iff)
qed

lemma bit_clear_lowest:
  "w \<noteq> 0 \<Longrightarrow> bit (w AND (w - 1)) i \<longleftrightarrow> bit w i \<and> i \<noteq> countr_zero w"
  using countr_zero_below [of i w] by (auto simp: bit_and_iff bit_minus_1_lowest)

lemma bit_fill_below:
  "w \<noteq> 0 \<Longrightarrow> bit (w OR (w - 1)) i \<longleftrightarrow> bit w i \<or> i < countr_zero w"
  by (auto simp: bit_or_iff bit_minus_1_lowest)

text \<open>\<open>w & (w + 1)\<close> clears the set bits below the lowest clear one.\<close>

lemma bit_clear_trailing_ones:
  assumes "w \<noteq> - 1"
  shows "bit (w AND (w + 1)) i \<longleftrightarrow> bit w i \<and> countr_zero (NOT w) \<le> i"
proof -
  let ?k = "countr_zero (NOT w)"
  let ?h = "w AND NOT (mask ?k)"
  have n: "NOT w \<noteq> 0" using assms by (metis bit.compl_zero bit.double_compl)
  have k: "?k < 64" by (rule countr_zero_less [OF n])
  have low: "bit w i" if "i < ?k" for i
    using countr_zero_below [OF that] that k by (simp add: bit_not_iff)
  have nk: "\<not> bit w ?k" using countr_zero_bit [OF n] by (simp add: bit_not_iff)
  have h: "bit ?h i \<longleftrightarrow> bit w i \<and> ?k \<le> i" for i
    using k by (auto simp: bit_and_iff bit_not_iff bit_mask_iff dest: bit_less_64)
  have "w = ?h OR mask ?k"
    using low k by (auto simp: word64_eq_iff bit_or_iff h bit_mask_iff not_le)
  also have "\<dots> = ?h + mask ?k"
    using k h nk by (intro word64_split_below(2) [symmetric]) auto
  finally have "w + 1 = ?h + mask ?k + 1" by simp
  also have "\<dots> = ?h OR 2 ^ ?k"
    using k h nk by (intro word64_split_below) auto
  finally have w1: "w + 1 = ?h OR 2 ^ ?k" .
  have "bit (w + 1) i \<longleftrightarrow> (bit w i \<and> ?k \<le> i) \<or> i = ?k"
    unfolding w1 bit_or_iff h using k by (auto simp: bit_exp_iff)
  then show ?thesis
    using nk by (auto simp: bit_and_iff)
qed

subsection \<open>Masks\<close>

lemma bit_ones_from: "bit (push_bit k (- 1) :: word64) i \<longleftrightarrow> k \<le> i \<and> i < 64"
  by (auto simp: bit_simps)

lemma bit_ones_upto: "k < 64 \<Longrightarrow> bit (drop_bit (63 - k) (- 1) :: word64) i \<longleftrightarrow> i \<le> k"
  by (auto simp: bit_simps)

lemma bit_neg_exp: "k < 64 \<Longrightarrow> bit (0 - push_bit k 1 :: word64) i \<longleftrightarrow> k \<le> i \<and> i < 64"
proof -
  have "0 - push_bit k 1 = (push_bit k (- 1) :: word64)"
    by (simp add: push_bit_eq_mult)
  then show ?thesis by (simp only: bit_ones_from)
qed

lemma bit_two_exp_minus_1: "k < 64 \<Longrightarrow> bit (push_bit k 2 - 1 :: word64) i \<longleftrightarrow> i \<le> k"
proof -
  assume "k < 64"
  have "push_bit k 2 - 1 = (mask (Suc k) :: word64)"
    by (simp add: push_bit_eq_mult mask_eq_exp_minus_1 mult.commute)
  then show ?thesis
    using \<open>k < 64\<close> by (simp only: bit_mask_iff) auto
qed

lemma bit_exp_minus_1: "k \<le> 64 \<Longrightarrow> bit (push_bit k 1 - 1 :: word64) i \<longleftrightarrow> i < k"
proof -
  assume "k \<le> 64"
  have "push_bit k 1 - 1 = (mask k :: word64)"
    by (simp add: push_bit_eq_mult mask_eq_exp_minus_1)
  then show ?thesis
    using \<open>k \<le> 64\<close> by (simp only: bit_mask_iff) auto
qed

lemma bit_one_shl: "bit (push_bit k 1 :: word64) i \<longleftrightarrow> i = k \<and> k < 64"
  by (auto simp: bit_simps)

lemmas bit_masks = bit_ones_from bit_ones_upto bit_neg_exp bit_two_exp_minus_1 bit_exp_minus_1 bit_one_shl

subsection \<open>The values of a block of words\<close>

definition word_index :: "low \<Rightarrow> nat" where
  "word_index v = drop_bit 6 (unat v)"

definition bit_index :: "low \<Rightarrow> nat" where
  "bit_index v = unat v AND 63"

lemma word_index_div: "word_index v = unat v div 64"
  by (simp add: word_index_def drop_bit_eq_div)

lemma bit_index_mod: "bit_index v = unat v mod 64"
proof -
  have "unat v AND 63 = take_bit 6 (unat v)"
    by (simp add: take_bit_eq_mask mask_eq_exp_minus_1)
  then show ?thesis by (simp add: bit_index_def take_bit_eq_mod)
qed

lemma word_index_less [simp]: "word_index v < 1024"
  using div_less_iff_less_mult [of 64 "unat v" 1024] unat_low_less [of v] by (simp add: word_index_div)

lemma bit_index_less [simp]: "bit_index v < 64"
  by (simp add: bit_index_mod)

lemma index_join [simp]: "64 * word_index v + bit_index v = unat v"
  by (simp add: word_index_div bit_index_mod)

lemma index_eq_iff: "word_index u = word_index v \<and> bit_index u = bit_index v \<longleftrightarrow> u = v"
  by (metis index_join low_eq_iff)

definition bits_set :: "word64 list \<Rightarrow> nat set" where
  "bits_set ws = {v. v div 64 < length ws \<and> bit (ws ! (v div 64)) (v mod 64)}"

lemma mem_bits_set: "v \<in> bits_set ws \<longleftrightarrow> v div 64 < length ws \<and> bit (ws ! (v div 64)) (v mod 64)"
  by (simp add: bits_set_def)

lemma mem_bits_set_low:
  "length ws = 1024 \<Longrightarrow> unat (v :: low) \<in> bits_set ws \<longleftrightarrow> bit (ws ! word_index v) (bit_index v)"
  using word_index_less [of v] by (simp add: mem_bits_set word_index_div bit_index_mod)

lemma mem_bits_set_join:
  "j < 64 \<Longrightarrow> 64 * i + j \<in> bits_set ws \<longleftrightarrow> i < length ws \<and> bit (ws ! i) j"
  by (simp add: mem_bits_set)

lemma bits_set_bound: "v \<in> bits_set ws \<Longrightarrow> v < 64 * length ws"
  by (simp add: mem_bits_set) (metis mult.commute div_less_iff_less_mult zero_less_numeral)

lemma finite_bits_set [simp]: "finite (bits_set ws)"
  by (rule finite_subset [of _ "{..<64 * length ws}"]) (auto dest: bits_set_bound)

lemma bits_set_eqI:
  fixes vs ws :: "word64 list"
  assumes "length vs = length ws" "\<And>i j. i < length ws \<Longrightarrow> j < 64 \<Longrightarrow> bit (vs ! i) j = bit (ws ! i) j"
  shows "vs = ws"
  using assms by (intro nth_equalityI) (simp_all add: word64_eq_iff)

lemma bits_set_inject: "length vs = length ws \<Longrightarrow> bits_set vs = bits_set ws \<Longrightarrow> vs = ws"
  by (rule bits_set_eqI) (metis mem_bits_set_join)+

lemma bits_set_Nil [simp]: "bits_set [] = {}"
  by (simp add: bits_set_def)

lemma bits_set_snoc:
  "bits_set (ws @ [w]) = bits_set ws \<union> (\<lambda>j. 64 * length ws + j) ` {j. bit w j}"
proof (rule set_eqI)
  fix v :: nat
  have v: "v = 64 * (v div 64) + v mod 64" by simp
  show "v \<in> bits_set (ws @ [w]) \<longleftrightarrow> v \<in> bits_set ws \<union> (\<lambda>j. 64 * length ws + j) ` {j. bit w j}"
  proof (cases "v div 64 = length ws")
    case True
    then have "v = 64 * length ws + v mod 64" using v by simp
    then have "v = 64 * length ws + j \<longleftrightarrow> j = v mod 64" for j by linarith
    then have "bit w (v mod 64) \<longleftrightarrow> v \<in> (\<lambda>j. 64 * length ws + j) ` {j. bit w j}"
      by (auto simp: image_iff)
    with True show ?thesis by (auto simp: mem_bits_set)
  next
    case False
    then have "v \<notin> (\<lambda>j. 64 * length ws + j) ` {j. bit w j}"
      using bit_less_64 by auto
    with False show ?thesis by (auto simp: mem_bits_set nth_append)
  qed
qed

lemma card_bits_set: "card (bits_set ws) = sum_list (map popcount ws)"
proof (induction ws rule: rev_induct)
  case Nil
  then show ?case by simp
next
  case (snoc w ws)
  have "bits_set ws \<inter> (\<lambda>j. 64 * length ws + j) ` {j. bit w j} = {}"
    using bits_set_bound by fastforce
  moreover have "card ((\<lambda>j. 64 * length ws + j) ` {j. bit w j}) = popcount w"
    by (simp add: card_image popcount_card)
  ultimately show ?case
    using snoc.IH by (simp add: bits_set_snoc card_Un_disjoint)
qed

lemma bits_set_replicate_0 [simp]: "bits_set (replicate n 0) = {}"
  by (auto simp: bits_set_def)

lemma bits_set_empty_iff: "bits_set ws = {} \<longleftrightarrow> (\<forall>w\<in>set ws. w = 0)"
proof
  assume e: "bits_set ws = {}"
  show "\<forall>w\<in>set ws. w = 0"
  proof
    fix w assume "w \<in> set ws"
    then obtain i where "i < length ws" "w = ws ! i" by (auto simp: in_set_conv_nth)
    then have "\<not> bit w j" for j
      using e mem_bits_set_join [of j i ws] bit_less_64 [of w j] by auto
    then show "w = 0" using word64_nonzero_iff by blast
  qed
next
  assume "\<forall>w\<in>set ws. w = 0"
  then show "bits_set ws = {}" 
    by (auto simp: bits_set_def) (metis bit_0_eq bot_apply bot_bool_def nth_mem)
qed

end
