(* ===== verification/Word_Blocks.thy ===== *)
theory Word_Blocks
  imports Bit_Words
begin

text \<open>
  The kernels over a block of words (\<open>word_array<Layout>\<close>): setting, clearing and flipping a closed range,
  extracting the values, counting the bits and the runs, combining two blocks word by word. From
  \<open>containers.hpp\<close> and \<open>bitset_ops.hpp\<close>, the arms that a portable build compiles.
\<close>

subsection \<open>Operations (operations.hpp) and the size of a block (container\_layout.hpp)\<close>

datatype range_operation = Range_add | Range_remove | Range_flip

datatype set_operation = Bit_or | Bit_and | Bit_andnot | Bit_xor

definition low_domain_size :: nat where
  "low_domain_size = 2 ^ 16"

definition word_count :: nat where
  "word_count = low_domain_size div 64"

lemma word_count_1024 [simp]: "word_count = 1024"
  by (simp add: word_count_def low_domain_size_def)

lemma low_domain_size_65536 [simp]: "low_domain_size = 65536"
  by (simp add: low_domain_size_def)

subsection \<open>Extracting the values\<close>

text \<open>\<open>while ( word != 0 ) \<dots> word &= word - 1\<close>: the positions of the set bits, from the lowest.\<close>

lemma popcount_clear_lowest: "w \<noteq> 0 \<Longrightarrow> popcount (w AND (w - 1)) = popcount w - 1"
proof -
  assume w: "w \<noteq> 0"
  have "{i. bit (w AND (w - 1)) i} = {i. bit w i} - {countr_zero w}"
    using w by (auto simp: bit_clear_lowest)
  then show ?thesis
    using countr_zero_bit [OF w] by (simp add: popcount_card)
qed

lemma popcount_eq_0_iff [simp]: "popcount w = 0 \<longleftrightarrow> w = 0"
  using word64_nonzero_iff [of w] by (auto simp: popcount_card)

function word_values :: "nat \<Rightarrow> word64 \<Rightarrow> low list" where
  "word_values base w =
     (if w = 0 then []
      else of_nat (base + countr_zero w) # word_values base (w AND (w - 1)))"
  by pat_completeness auto
termination
proof (relation "measure (\<lambda>(base, w). popcount w)")
  fix base :: nat and w :: word64
  assume "w \<noteq> 0"
  then have "0 < popcount w" by (metis popcount_eq_0_iff gr0I)
  with \<open>w \<noteq> 0\<close> show "((base, w AND (w - 1)), (base, w)) \<in> measure (\<lambda>(base, w). popcount w)"
    by (simp add: popcount_clear_lowest diff_less)
qed simp

declare word_values.simps [simp del]

definition values_from_words :: "word64 list \<Rightarrow> low list" where
  "values_from_words ws = concat (map (\<lambda>i. word_values (push_bit 6 i) (ws ! i)) [0..<length ws])"

definition bit_positions :: "word64 \<Rightarrow> nat list" where
  "bit_positions w = filter (bit w) [0..<64]"

lemma strict_upt [simp]: "strict [m..<n]"
  by (simp add: sorted_wrt_iff_nth_less)

lemma set_bit_positions: "set (bit_positions w) = {i. bit w i}"
  by (auto simp: bit_positions_def dest: bit_less_64)

lemma strict_bit_positions [simp]: "strict (bit_positions w)"
  unfolding bit_positions_def by (rule strict_filter) simp

lemma bit_positions_Cons:
  assumes "w \<noteq> 0"
  shows "bit_positions w = countr_zero w # bit_positions (w AND (w - 1))"
proof (rule strict_eqI)
  show "strict (countr_zero w # bit_positions (w AND (w - 1)))"
    using assms countr_zero_least [OF assms]
    by (auto simp: set_bit_positions bit_clear_lowest le_neq_implies_less)
  show "set (bit_positions w) = set (countr_zero w # bit_positions (w AND (w - 1)))"
    using assms by (auto simp: set_bit_positions bit_clear_lowest countr_zero_bit)
qed simp

lemma word_values_eq: "word_values base w = map (\<lambda>j. of_nat (base + j)) (bit_positions w)"
proof (induction base w rule: word_values.induct)
  case (1 base w)
  show ?case
  proof (cases "w = 0")
    case True
    then show ?thesis by (subst word_values.simps) (simp add: bit_positions_def)
  next
    case False
    then show ?thesis
      using "1.IH" by (subst word_values.simps) (simp add: bit_positions_Cons)
  qed
qed

text \<open>The specification of every extraction: the set bits of a block, in ascending order.\<close>

definition bits_list :: "word64 list \<Rightarrow> nat list" where
  "bits_list ws = filter (\<lambda>v. v \<in> bits_set ws) [0..<64 * length ws]"

lemma set_bits_list [simp]: "set (bits_list ws) = bits_set ws"
  by (auto simp: bits_list_def dest: bits_set_bound)

lemma strict_bits_list [simp]: "strict (bits_list ws)"
  unfolding bits_list_def by (rule strict_filter) simp

lemma set_bits_concat:
  "set (concat (map (\<lambda>i. map ((+) (64 * i)) (bit_positions (ws ! i))) [0..<length ws])) = bits_set ws"
  by (induction ws rule: rev_induct) (auto simp: set_bit_positions bits_set_snoc nth_append)

lemma strict_bits_concat:
  "strict (concat (map (\<lambda>i. map ((+) (64 * i)) (bit_positions (ws ! i))) [0..<length ws]))"
proof (induction ws rule: rev_induct)
  case (snoc w ws)
  let ?f = "\<lambda>ws i. map ((+) (64 * i)) (bit_positions (ws ! i))"
  let ?last = "map ((+) (64 * length ws)) (bit_positions w)"
  have "map (?f (ws @ [w])) [0..<length ws] = map (?f ws) [0..<length ws]"
    by (simp add: nth_append)
  then have split: "concat (map (?f (ws @ [w])) [0..<length (ws @ [w])]) = concat (map (?f ws) [0..<length ws]) @ ?last"
    by (simp only: length_append_singleton upt_Suc_append le0 map_append concat_append) simp
  have last: "strict ?last"
    using strict_bit_positions [of w] by (simp add: sorted_wrt_map)
  have less: "\<forall>x\<in>bits_set ws. \<forall>y\<in>set ?last. x < y"
    using bits_set_bound [of _ ws] by fastforce
  show ?case
    unfolding split sorted_wrt_append set_bits_concat using snoc.IH last less by blast
qed simp

lemma bits_list_concat:
  "concat (map (\<lambda>i. map ((+) (64 * i)) (bit_positions (ws ! i))) [0..<length ws]) = bits_list ws"
  by (rule strict_eqI [OF strict_bits_concat strict_bits_list]) (simp only: set_bits_concat set_bits_list)

lemma bits_list_bound: "length ws = 1024 \<Longrightarrow> \<forall>v\<in>set (bits_list ws). v < 65536"
  using bits_set_bound [of _ ws] by auto

lemma values_from_words_eq: "values_from_words ws = map of_nat (bits_list ws)"
  unfolding bits_list_concat [symmetric] values_from_words_def
  by (simp add: map_concat word_values_eq comp_def push_bit_eq_mult mult.commute)

lemma strict_values_from_words: "length ws = 1024 \<Longrightarrow> strict (values_from_words ws)"
  unfolding values_from_words_eq by (subst strict_map_of_nat) (use bits_list_bound in auto)

lemma array_set_values_from_words: "length ws = 1024 \<Longrightarrow> array_set (values_from_words ws) = bits_set ws"
  unfolding values_from_words_eq by (subst array_set_map_of_nat) (use bits_list_bound in auto)

subsection \<open>One value: set, clear, flip, test\<close>

text \<open>\<open>words[ v >> 6 ]\<close> and \<open>std::uint64_t{ 1 } << ( v & 63 )\<close>, as every scatter and probe writes them.\<close>

definition value_mask :: "low \<Rightarrow> word64" where
  "value_mask v = push_bit (bit_index v) 1"

definition words_test :: "word64 list \<Rightarrow> low \<Rightarrow> bool" where
  "words_test ws v \<longleftrightarrow> (ws ! word_index v) AND value_mask v \<noteq> 0"

definition words_set :: "low \<Rightarrow> word64 list \<Rightarrow> word64 list" where
  "words_set v ws = ws[word_index v := (ws ! word_index v) OR value_mask v]"

definition words_clear :: "low \<Rightarrow> word64 list \<Rightarrow> word64 list" where
  "words_clear v ws = ws[word_index v := (ws ! word_index v) AND NOT (value_mask v)]"

definition words_flip :: "low \<Rightarrow> word64 list \<Rightarrow> word64 list" where
  "words_flip v ws = ws[word_index v := (ws ! word_index v) XOR value_mask v]"

lemma bit_value_mask: "bit (value_mask v) i \<longleftrightarrow> i = bit_index v"
  by (simp only: value_mask_def bit_one_shl) simp

lemma and_value_mask: "w AND value_mask v \<noteq> 0 \<longleftrightarrow> bit w (bit_index v)"
  by (auto simp: word64_nonzero_iff bit_and_iff bit_value_mask)

lemma length_words_update [simp]:
  "length (words_set v ws) = length ws" "length (words_clear v ws) = length ws"
  "length (words_flip v ws) = length ws"
  by (simp_all add: words_set_def words_clear_def words_flip_def)

lemma words_test_iff [simp]: "length ws = 1024 \<Longrightarrow> words_test ws v \<longleftrightarrow> unat v \<in> bits_set ws"
  by (simp add: words_test_def and_value_mask mem_bits_set_low)

lemma div_mod_eqD: "(u :: nat) div 64 = v div 64 \<Longrightarrow> v mod 64 = u mod 64 \<Longrightarrow> v = u"
  by (metis div_mult_mod_eq)

lemma bits_set_words_set [value_sets]:
  "length ws = 1024 \<Longrightarrow> bits_set (words_set v ws) = insert (unat v) (bits_set ws)"
  using word_index_less [of v]
  by (auto simp: bits_set_def words_set_def nth_list_update bit_or_iff bit_value_mask
      word_index_div bit_index_mod dest: div_mod_eqD)

lemma bits_set_words_clear [value_sets]:
  "length ws = 1024 \<Longrightarrow> bits_set (words_clear v ws) = bits_set ws - {unat v}"
  using word_index_less [of v]
  by (auto simp: bits_set_def words_clear_def nth_list_update bit_and_iff bit_not_iff bit_value_mask
      word_index_div bit_index_mod dest: div_mod_eqD split: if_splits)

lemma bits_set_words_flip [value_sets]:
  "length ws = 1024 \<Longrightarrow> bits_set (words_flip v ws) =
     (if unat v \<in> bits_set ws then bits_set ws - {unat v} else insert (unat v) (bits_set ws))"
  using word_index_less [of v]
  by (auto simp: bits_set_def words_flip_def nth_list_update bit_xor_iff bit_value_mask
      word_index_div bit_index_mod dest: div_mod_eqD split: if_splits)

lemma length_fold_words_set [simp]: "length (fold words_set vs ws) = length ws"
  by (induction vs arbitrary: ws) auto

lemma bits_set_fold_words_set [value_sets]:
  "length ws = 1024 \<Longrightarrow> bits_set (fold words_set vs ws) = array_set vs \<union> bits_set ws"
  by (induction vs arbitrary: ws) (auto simp: value_sets)

lemma length_fold_words_clear [simp]: "length (fold words_clear vs ws) = length ws"
  by (induction vs arbitrary: ws) auto

lemma bits_set_fold_words_clear [value_sets]:
  "length ws = 1024 \<Longrightarrow> bits_set (fold words_clear vs ws) = bits_set ws - array_set vs"
  by (induction vs arbitrary: ws) (auto simp: value_sets)

subsection \<open>A closed range of values\<close>

text \<open>Every kernel that works on a range splits it into a list of word indices with the mask of the
  range's bits in that word. \<open>covers_range b e ms\<close> is the contract of such a list; the kernels
  differ in the shifts they build the two end masks with.\<close>

definition covers_range :: "nat \<Rightarrow> nat \<Rightarrow> (nat \<times> word64) list \<Rightarrow> bool" where
  "covers_range b e ms \<longleftrightarrow> distinct (map fst ms) \<and>
     (\<forall>(i, m)\<in>set ms. \<forall>j<64. bit m j \<longleftrightarrow> b \<le> 64 * i + j \<and> 64 * i + j \<le> e) \<and>
     fst ` set ms = {b div 64..e div 64}"

definition range_masks :: "nat \<Rightarrow> nat \<Rightarrow> word64 \<Rightarrow> word64 \<Rightarrow> (nat \<times> word64) list" where
  "range_masks first_word last_word first_mask last_mask =
     (if first_word = last_word then [(first_word, first_mask AND last_mask)]
      else (first_word, first_mask) # map (\<lambda>i. (i, - 1)) [first_word + 1..<last_word] @ [(last_word, last_mask)])"

definition update_words :: "(word64 \<Rightarrow> word64 \<Rightarrow> word64) \<Rightarrow> (nat \<times> word64) list \<Rightarrow> word64 list \<Rightarrow> word64 list" where
  "update_words f ms ws = fold (\<lambda>(i, m) ws. ws[i := f (ws ! i) m]) ms ws"

lemma covers_range_masks:
  assumes "b \<le> e"
    and "\<And>j. j < 64 \<Longrightarrow> bit fm j \<longleftrightarrow> b mod 64 \<le> j"
    and "\<And>j. j < 64 \<Longrightarrow> bit lm j \<longleftrightarrow> j \<le> e mod 64"
  shows "covers_range b e (range_masks (b div 64) (e div 64) fm lm)"
proof -
  have le: "b div 64 \<le> e div 64" using assms(1) by (rule div_le_mono)
  have b: "b \<le> 64 * i + j \<longleftrightarrow> b div 64 < i \<or> (b div 64 = i \<and> b mod 64 \<le> j)" if "j < 64" for i j
    using that div_mult_mod_eq [of b 64] mod_less_divisor [of 64 b]
    by (cases "b div 64" i rule: linorder_cases) linarith+
  have e: "64 * i + j \<le> e \<longleftrightarrow> i < e div 64 \<or> (i = e div 64 \<and> j \<le> e mod 64)" if "j < 64" for i j
    using that div_mult_mod_eq [of e 64] mod_less_divisor [of 64 e]
    by (cases "e div 64" i rule: linorder_cases) linarith+
  show ?thesis
    unfolding covers_range_def range_masks_def using le
    by (auto simp: assms(2,3) b e bit_and_iff comp_def image_iff)
qed

lemma length_update_words [simp]: "length (update_words f ms ws) = length ws"
  unfolding update_words_def by (induction ms arbitrary: ws) (auto split: prod.split)

lemma nth_update_words:
  assumes "distinct (map fst ms)" "i < length ws"
  shows "update_words f ms ws ! i =
    (case map_of ms i of None \<Rightarrow> ws ! i | Some m \<Rightarrow> f (ws ! i) m)"
  using assms
proof (induction ms arbitrary: ws)
  case Nil
  then show ?case by (simp add: update_words_def)
next
  case (Cons im ms)
  obtain k m where im: "im = (k, m)" by (cases im)
  have step: "update_words f (im # ms) ws = update_words f ms (ws[k := f (ws ! k) m])"
    by (simp add: update_words_def im)
  show ?case
    using Cons.prems unfolding step
    by (subst Cons.IH) (auto simp: im nth_list_update map_of_eq_None_iff [symmetric] split: option.split)
qed

text \<open>The effect of a range kernel whose word operation acts bit by bit and leaves the bits outside
  its mask alone.\<close>

lemma bits_set_update_words:
  assumes ms: "covers_range b e ms" and len: "e < 64 * length ws"
    and f: "\<And>w m j. bit (f w m) j \<longleftrightarrow> F (bit w j) (bit m j)" and F: "\<And>x. F x False = x"
  shows "v \<in> bits_set (update_words f ms ws) \<longleftrightarrow>
    v div 64 < length ws \<and> F (v \<in> bits_set ws) (b \<le> v \<and> v \<le> e)"
proof (cases "v div 64 < length ws")
  case True
  let ?i = "v div 64" and ?j = "v mod 64"
  have v: "64 * ?i + ?j = v" by simp
  have "bit (update_words f ms ws ! ?i) ?j \<longleftrightarrow> F (bit (ws ! ?i) ?j) (b \<le> v \<and> v \<le> e)"
  proof (cases "map_of ms ?i")
    case None
    then have "?i \<notin> {b div 64..e div 64}"
      using ms unfolding covers_range_def by (metis map_of_eq_None_iff)
    then have out: "(b \<le> v \<and> v \<le> e) = False" using div_le_mono by auto
    show ?thesis
      unfolding out F using ms True None by (simp add: covers_range_def nth_update_words)
  next
    case (Some m)
    then have "(?i, m) \<in> set ms" by (rule map_of_SomeD)
    moreover have "\<forall>(i, m)\<in>set ms. \<forall>j<64. bit m j \<longleftrightarrow> b \<le> 64 * i + j \<and> 64 * i + j \<le> e"
      using ms by (simp add: covers_range_def)
    ultimately have "\<forall>j<64. bit m j \<longleftrightarrow> b \<le> 64 * ?i + j \<and> 64 * ?i + j \<le> e" by fastforce
    then have "bit m ?j \<longleftrightarrow> b \<le> v \<and> v \<le> e" using v by simp
    then show ?thesis
      using ms True Some f by (simp add: covers_range_def nth_update_words)
  qed
  then show ?thesis using True by (simp add: mem_bits_set)
qed (simp add: mem_bits_set)

text \<open>\<open>apply_range_to_words\<close> (containers.hpp).\<close>

definition apply_range_word :: "range_operation \<Rightarrow> word64 \<Rightarrow> word64 \<Rightarrow> word64" where
  "apply_range_word op word bits =
     (case op of
        Range_add \<Rightarrow> word OR bits
      | Range_remove \<Rightarrow> word AND NOT bits
      | Range_flip \<Rightarrow> word XOR bits)"

definition apply_range_to_words :: "low \<Rightarrow> low \<Rightarrow> range_operation \<Rightarrow> word64 list \<Rightarrow> word64 list" where
  "apply_range_to_words begin_v end_v op words =
    (let first_word = word_index begin_v;
         last_word = word_index end_v;
         first_bit = bit_index begin_v;
         last_bit = bit_index end_v;
         first_mask = push_bit first_bit (- 1);
         last_mask = drop_bit (63 - last_bit) (- 1)
     in if first_word = last_word
        then words[first_word := apply_range_word op (words ! first_word) (first_mask AND last_mask)]
        else let words = words[first_word := apply_range_word op (words ! first_word) first_mask];
                 words = fold (\<lambda>i ws. ws[i := apply_range_word op (ws ! i) (- 1)]) [first_word + 1..<last_word] words
             in words[last_word := apply_range_word op (words ! last_word) last_mask])"

lemma covers_shift_masks:
  "b \<le> e \<Longrightarrow> covers_range b e (range_masks (b div 64) (e div 64)
      (push_bit (b mod 64) (- 1)) (drop_bit (63 - e mod 64) (- 1)))"
  using bit_ones_from bit_ones_upto by (intro covers_range_masks) auto

lemma update_words_Cons: "update_words f ((i, m) # ms) ws = update_words f ms (ws[i := f (ws ! i) m])"
  by (simp add: update_words_def)

lemma update_words_range_masks:
  "update_words f (range_masks fw lw fm lm) ws =
    (if fw = lw then ws[fw := f (ws ! fw) (fm AND lm)]
     else let ws = ws[fw := f (ws ! fw) fm];
              ws = fold (\<lambda>i ws. ws[i := f (ws ! i) (- 1)]) [fw + 1..<lw] ws
          in ws[lw := f (ws ! lw) lm])"
  by (simp add: range_masks_def update_words_def fold_map comp_def Let_def)

lemma apply_range_to_words_update:
  "apply_range_to_words b e op ws = update_words (apply_range_word op)
     (range_masks (unat b div 64) (unat e div 64)
       (push_bit (unat b mod 64) (- 1)) (drop_bit (63 - unat e mod 64) (- 1))) ws"
  by (simp only: apply_range_to_words_def update_words_range_masks word_index_div bit_index_mod Let_def)

lemma length_apply_range_to_words [simp]: "length (apply_range_to_words b e op ws) = length ws"
  by (simp only: apply_range_to_words_update length_update_words)

definition range_effect :: "range_operation \<Rightarrow> nat set \<Rightarrow> nat set \<Rightarrow> nat set" where
  "range_effect op S R =
     (case op of Range_add \<Rightarrow> S \<union> R | Range_remove \<Rightarrow> S - R | Range_flip \<Rightarrow> (S - R) \<union> (R - S))"

lemma bits_set_apply_range [value_sets]:
  assumes "length ws = 1024" "b \<le> e"
  shows "bits_set (apply_range_to_words b e op ws) = range_effect op (bits_set ws) {unat b..unat e}"
proof (rule set_eqI)
  fix v
  let ?F = "\<lambda>x y. case op of Range_add \<Rightarrow> x \<or> y | Range_remove \<Rightarrow> x \<and> \<not> y | Range_flip \<Rightarrow> x \<noteq> y"
  have le: "unat b \<le> unat e" using assms(2) by (simp add: word_le_nat_alt)
  have e: "unat e < 64 * length ws" using assms(1) unat_low_less [of e] by simp
  have "v \<in> bits_set (apply_range_to_words b e op ws) \<longleftrightarrow>
    v div 64 < length ws \<and> ?F (v \<in> bits_set ws) (unat b \<le> v \<and> v \<le> unat e)"
    unfolding apply_range_to_words_update
    by (rule bits_set_update_words [OF covers_shift_masks [OF le] e, where F = ?F])
      (auto simp: apply_range_word_def bit_or_iff bit_and_iff bit_not_iff bit_xor_iff
        split: range_operation.split dest: bit_less_64)
  moreover have "v div 64 < 1024" if "v \<le> unat e"
    using that unat_low_less [of e] by linarith
  ultimately show "v \<in> bits_set (apply_range_to_words b e op ws) \<longleftrightarrow>
      v \<in> range_effect op (bits_set ws) {unat b..unat e}"
    using assms(1) by (auto simp: range_effect_def mem_bits_set split: range_operation.split)
qed

subsection \<open>Combining two blocks\<close>

definition combine_word :: "set_operation \<Rightarrow> word64 \<Rightarrow> word64 \<Rightarrow> word64" where
  "combine_word op a b =
     (case op of
        Bit_or \<Rightarrow> a OR b
      | Bit_and \<Rightarrow> a AND b
      | Bit_andnot \<Rightarrow> a AND NOT b
      | Bit_xor \<Rightarrow> a XOR b)"

definition combine_words :: "word64 list \<Rightarrow> word64 list \<Rightarrow> set_operation \<Rightarrow> word64 list" where
  "combine_words lhs rhs op = map (\<lambda>index. combine_word op (lhs ! index) (rhs ! index)) [0..<length lhs]"

definition set_op :: "set_operation \<Rightarrow> nat set \<Rightarrow> nat set \<Rightarrow> nat set" where
  "set_op op A B =
     (case op of Bit_or \<Rightarrow> A \<union> B | Bit_and \<Rightarrow> A \<inter> B | Bit_andnot \<Rightarrow> A - B | Bit_xor \<Rightarrow> (A - B) \<union> (B - A))"

lemma length_combine_words [simp]: "length (combine_words a b op) = length a"
  by (simp add: combine_words_def)

lemma bits_set_combine_words [value_sets]:
  "length a = length b \<Longrightarrow> bits_set (combine_words a b op) = set_op op (bits_set a) (bits_set b)"
  by (auto simp: set_op_def bits_set_def combine_words_def combine_word_def bit_or_iff bit_and_iff
      bit_not_iff bit_xor_iff split: set_operation.splits)

subsection \<open>Counting\<close>

definition popcount_words :: "word64 list \<Rightarrow> nat" where
  "popcount_words ws = fold (\<lambda>word acc. acc + popcount word) ws 0"

lemma fold_add_sum_list: "fold (\<lambda>x acc. acc + f x) xs a = a + sum_list (map f xs)" for f :: "_ \<Rightarrow> nat"
  by (induction xs arbitrary: a) auto

lemma popcount_words_card: "popcount_words ws = card (bits_set ws)"
  by (simp add: popcount_words_def fold_add_sum_list card_bits_set)

definition and_popcount_words :: "word64 list \<Rightarrow> word64 list \<Rightarrow> nat" where
  "and_popcount_words a b = fold (\<lambda>i acc. acc + popcount ((a ! i) AND (b ! i))) [0..<length a] 0"

lemma and_popcount_words_card:
  assumes "length a = length b"
  shows "and_popcount_words a b = card (bits_set a \<inter> bits_set b)"
proof -
  have "and_popcount_words a b = sum_list (map popcount (combine_words a b Bit_and))"
    by (simp add: and_popcount_words_def fold_add_sum_list combine_words_def combine_word_def comp_def)
  then show ?thesis
    using assms by (simp add: card_bits_set [symmetric] value_sets set_op_def)
qed

text \<open>\<open>run_count_from_bitset_words\<close>: a run starts at every set bit whose predecessor, across the word
  boundary too, is clear; the count saturates at \<open>cap\<close>.\<close>

fun run_count_words_from :: "word64 list \<Rightarrow> nat \<Rightarrow> nat \<Rightarrow> word64 \<Rightarrow> nat" where
  "run_count_words_from [] cap run_count previous_top = run_count"
| "run_count_words_from (word # words) cap run_count previous_top =
    (let starts = word AND NOT (push_bit 1 word OR previous_top);
         run_count = run_count + popcount starts
     in if run_count \<ge> cap then cap
        else run_count_words_from words cap run_count (drop_bit 63 word))"

definition run_count_from_bitset_words :: "word64 list \<Rightarrow> nat \<Rightarrow> nat" where
  "run_count_from_bitset_words words cap = run_count_words_from words cap 0 0"

definition top_bit :: "word64 list \<Rightarrow> word64" where
  "top_bit pre = (if pre = [] then 0 else drop_bit 63 (last pre))"

lemma bit_top_bit: "bit (top_bit pre) j \<longleftrightarrow> j = 0 \<and> pre \<noteq> [] \<and> bit (last pre) 63"
  using bit_less_64 [of "last pre" "63 + j"] by (auto simp: top_bit_def bit_drop_bit_eq)

lemma run_starts_snoc:
  assumes "starts = w AND NOT (push_bit 1 w OR top_bit pre)"
  shows "run_starts (bits_set (pre @ [w])) =
    run_starts (bits_set pre) \<union> (\<lambda>j. 64 * length pre + j) ` {j. bit starts j}"
proof (rule set_eqI)
  fix v
  let ?n = "length pre"
  have starts: "bit starts j \<longleftrightarrow> bit w j \<and> \<not> (0 < j \<and> bit w (j - 1)) \<and> \<not> (j = 0 \<and> pre \<noteq> [] \<and> bit (last pre) 63)" for j
  proof -
    have shift: "bit (push_bit 1 w) j \<longleftrightarrow> 0 < j \<and> j < 64 \<and> bit w (j - 1)"
      unfolding bit_push_bit_iff by auto
    show ?thesis
      unfolding assms bit_and_iff bit_not_iff bit_or_iff shift bit_top_bit
      using bit_less_64 [of w j] by auto
  qed
  have img: "u \<in> (\<lambda>j. 64 * ?n + j) ` A \<longleftrightarrow> 64 * ?n \<le> u \<and> u - 64 * ?n \<in> A" for u A
    by (auto simp: image_iff intro: bexI [of _ "u - 64 * ?n"])
  have last: "bit (last pre) 63 \<longleftrightarrow> 64 * ?n - 1 \<in> bits_set pre" if "pre \<noteq> []"
  proof -
    have "64 * ?n - 1 = 64 * (?n - 1) + 63" using that by (cases pre) auto
    then show ?thesis using that by (simp add: mem_bits_set_join last_conv_nth)
  qed
  have lt: "u \<notin> bits_set pre" if "64 * ?n \<le> u" for u using bits_set_bound [of u pre] that by auto
  show "v \<in> run_starts (bits_set (pre @ [w])) \<longleftrightarrow>
      v \<in> run_starts (bits_set pre) \<union> (\<lambda>j. 64 * ?n + j) ` {j. bit starts j}"
  proof (cases "v < 64 * ?n")
    case True
    have "u \<in> bits_set (pre @ [w]) \<longleftrightarrow> u \<in> bits_set pre" if "u < 64 * ?n" for u
      using that by (auto simp: bits_set_snoc)
    with True show ?thesis by (auto simp: run_starts_def img)
  next
    case False
    define j where "j = v - 64 * ?n"
    have v: "v = 64 * ?n + j" using False by (simp add: j_def)
    have u: "64 * ?n + i \<in> bits_set (pre @ [w]) \<longleftrightarrow> bit w i" for i
      using lt [of "64 * ?n + i"] by (auto simp: bits_set_snoc)
    show ?thesis
    proof (cases "j = 0")
      case True
      show ?thesis
      proof (cases "pre = []")
        case True
        with \<open>j = 0\<close> u [of 0] show ?thesis by (auto simp: run_starts_def v starts img)
      next
        case False
        then have "0 < ?n" by simp
        then have "\<not> 64 * ?n \<le> 64 * ?n - 1" by linarith
        then have "64 * ?n - 1 \<in> bits_set (pre @ [w]) \<longleftrightarrow> bit (last pre) 63"
          unfolding last [OF False] bits_set_snoc Un_iff img by blast
        with False True u [of 0] lt [of "64 * ?n"] show ?thesis
          by (auto simp: run_starts_def v starts img)
      qed
    next
      case False
      then have "v - 1 = 64 * ?n + (j - 1)" using v by simp
      then have "v \<in> run_starts (bits_set (pre @ [w])) \<longleftrightarrow> bit starts j"
        using False u [of j] u [of "j - 1"] by (simp add: run_starts_def v starts)
      then show ?thesis using lt [of v] v by (simp add: img run_starts_def)
    qed
  qed
qed

lemma card_run_starts_snoc:
  "starts = w AND NOT (push_bit 1 w OR top_bit pre) \<Longrightarrow>
    card (run_starts (bits_set (pre @ [w]))) = card (run_starts (bits_set pre)) + popcount starts"
proof -
  assume s: "starts = w AND NOT (push_bit 1 w OR top_bit pre)"
  have "run_starts (bits_set pre) \<inter> (\<lambda>j. 64 * length pre + j) ` {j. bit starts j} = {}"
    using bits_set_bound by (fastforce simp: run_starts_def)
  then show ?thesis
    unfolding run_starts_snoc [OF s] by (simp add: card_Un_disjoint card_image popcount_card)
qed

lemma card_run_starts_append: "card (run_starts (bits_set pre)) \<le> card (run_starts (bits_set (pre @ ws)))"
proof (induction ws arbitrary: pre)
  case (Cons w ws)
  have "card (run_starts (bits_set pre)) \<le> card (run_starts (bits_set (pre @ [w])))"
    by (simp only: card_run_starts_snoc [OF refl] le_add1)
  also have "\<dots> \<le> card (run_starts (bits_set ((pre @ [w]) @ ws)))" by (rule Cons.IH)
  finally show ?case by simp
qed simp

lemma run_count_words_from_eq:
  "c = card (run_starts (bits_set pre)) \<Longrightarrow> c \<le> cap \<Longrightarrow>
    run_count_words_from ws cap c (top_bit pre) = min cap (card (run_starts (bits_set (pre @ ws))))"
proof (induction ws arbitrary: pre c)
  case (Cons w ws)
  let ?s = "w AND NOT (push_bit 1 w OR top_bit pre)"
  have next_c: "c + popcount ?s = card (run_starts (bits_set (pre @ [w])))"
    using Cons.prems(1) by (simp only: card_run_starts_snoc [OF refl])
  have top: "drop_bit 63 w = top_bit (pre @ [w])" by (simp add: top_bit_def)
  show ?case
  proof (cases "cap \<le> c + popcount ?s")
    case True
    then have "cap \<le> card (run_starts (bits_set (pre @ w # ws)))"
      using card_run_starts_append [of "pre @ [w]" ws] unfolding next_c by simp
    with True show ?thesis by (simp only: run_count_words_from.simps Let_def if_True min_absorb1)
  next
    case False
    then show ?thesis
      using Cons.IH [OF next_c] by (simp only: run_count_words_from.simps Let_def if_False top) simp
  qed
qed simp

lemma run_count_from_bitset_words_eq:
  "run_count_from_bitset_words ws cap = min cap (card (run_starts (bits_set ws)))"
  using run_count_words_from_eq [of 0 "[]" cap ws]
  by (simp add: run_count_from_bitset_words_def top_bit_def)

end
