(* ===== verification/Value_Set.thy ===== *)
theory Value_Set
  imports Roaring_Prelude
begin

text \<open>
  The interface every container form offers to its callers: membership, insertion and removal of one low value,
  and insertion and removal of a sorted batch. A request sequence is the caller's side of it; the abstract
  specification serves the same requests on a plain set. The locales state the laws a form promises, and what
  a caller may conclude from them is proved once, for every form.
\<close>

subsection \<open>Requests and the abstract specification\<close>

datatype request = Contains low | Add low | Remove low | Add_sorted "low list" | Remove_sorted "low list"

text \<open>A reply is the number of values the request found, added or removed: 0 or 1 for one value.\<close>

primrec serve_set :: "request \<Rightarrow> nat set \<Rightarrow> nat \<times> nat set" where
  "serve_set (Contains v) S = (of_bool (unat v \<in> S), S)"
| "serve_set (Add v) S = (of_bool (unat v \<notin> S), insert (unat v) S)"
| "serve_set (Remove v) S = (of_bool (unat v \<in> S), S - {unat v})"
| "serve_set (Add_sorted vs) S = (card (array_set vs - S), S \<union> array_set vs)"
| "serve_set (Remove_sorted vs) S = (card (S \<inter> array_set vs), S - array_set vs)"

primrec request_ok :: "request \<Rightarrow> bool" where
  "request_ok (Contains v) = True"
| "request_ok (Add v) = True"
| "request_ok (Remove v) = True"
| "request_ok (Add_sorted vs) = strict vs"
| "request_ok (Remove_sorted vs) = strict vs"

text \<open>A form's own way to serve them, from its five operations.\<close>

primrec serve_with :: "('s \<Rightarrow> low \<Rightarrow> bool) \<Rightarrow> (low \<Rightarrow> 's \<Rightarrow> bool \<times> 's) \<Rightarrow> (low \<Rightarrow> 's \<Rightarrow> bool \<times> 's) \<Rightarrow>
    (low list \<Rightarrow> 's \<Rightarrow> nat \<times> 's) \<Rightarrow> (low list \<Rightarrow> 's \<Rightarrow> nat \<times> 's) \<Rightarrow> request \<Rightarrow> 's \<Rightarrow> nat \<times> 's" where
  "serve_with contains add remove add_sorted remove_sorted (Contains v) s = (of_bool (contains s v), s)"
| "serve_with contains add remove add_sorted remove_sorted (Add v) s = (case add v s of (b, s) \<Rightarrow> (of_bool b, s))"
| "serve_with contains add remove add_sorted remove_sorted (Remove v) s = (case remove v s of (b, s) \<Rightarrow> (of_bool b, s))"
| "serve_with contains add remove add_sorted remove_sorted (Add_sorted vs) s = add_sorted vs s"
| "serve_with contains add remove add_sorted remove_sorted (Remove_sorted vs) s = remove_sorted vs s"

text \<open>Serving a sequence of requests in order, with any way to serve one.\<close>

primrec serve_all :: "(request \<Rightarrow> 's \<Rightarrow> nat \<times> 's) \<Rightarrow> request list \<Rightarrow> 's \<Rightarrow> nat list \<times> 's" where
  "serve_all serve [] s = ([], s)"
| "serve_all serve (r # rs) s =
     (case serve r s of (n, s) \<Rightarrow> case serve_all serve rs s of (ns, s) \<Rightarrow> (n # ns, s))"

lemma serve_all_simulation:
  assumes "\<And>r s. valid s \<Longrightarrow> request_ok r \<Longrightarrow>
      valid (snd (serve r s)) \<and> (fst (serve r s), vals (snd (serve r s))) = serve_set r (vals s)"
  shows "valid s \<Longrightarrow> list_all request_ok rs \<Longrightarrow>
      valid (snd (serve_all serve rs s)) \<and>
      (fst (serve_all serve rs s), vals (snd (serve_all serve rs s))) = serve_all serve_set rs (vals s)"
proof (induction rs arbitrary: s)
  case (Cons r rs)
  obtain n s' where r: "serve r s = (n, s')" by (cases "serve r s")
  with assms [of s r] Cons.prems have s': "valid s'" "serve_set r (vals s) = (n, vals s')" by auto
  obtain ns t where rs: "serve_all serve rs s' = (ns, t)" by (cases "serve_all serve rs s'")
  with Cons.IH [OF s'(1)] Cons.prems s' r show ?case by (auto split: prod.splits)
qed simp

subsection \<open>One value at a time\<close>

locale value_set =
  fixes valid :: "'s \<Rightarrow> bool" and vals :: "'s \<Rightarrow> nat set"
    and contains :: "'s \<Rightarrow> low \<Rightarrow> bool"
    and add :: "low \<Rightarrow> 's \<Rightarrow> bool \<times> 's" and remove :: "low \<Rightarrow> 's \<Rightarrow> bool \<times> 's"
  assumes contains_iff: "valid s \<Longrightarrow> contains s v \<longleftrightarrow> unat v \<in> vals s"
    and add_inv: "valid s \<Longrightarrow> valid (snd (add v s))"
    and add_abs: "valid s \<Longrightarrow> vals (snd (add v s)) = insert (unat v) (vals s)"
    and add_reply: "valid s \<Longrightarrow> fst (add v s) \<longleftrightarrow> unat v \<notin> vals s"
    and remove_inv: "valid s \<Longrightarrow> valid (snd (remove v s))"
    and remove_abs: "valid s \<Longrightarrow> vals (snd (remove v s)) = vals s - {unat v}"
    and remove_reply: "valid s \<Longrightarrow> fst (remove v s) \<longleftrightarrow> unat v \<in> vals s"
begin

lemmas laws = contains_iff add_inv add_abs add_reply remove_inv remove_abs remove_reply

lemma contains_add: "valid s \<Longrightarrow> contains (snd (add v s)) u \<longleftrightarrow> u = v \<or> contains s u"
  by (simp add: laws low_eq_iff)

lemma contains_remove: "valid s \<Longrightarrow> contains (snd (remove v s)) u \<longleftrightarrow> u \<noteq> v \<and> contains s u"
  by (auto simp: laws low_eq_iff)

lemma second_add_refused: "valid s \<Longrightarrow> \<not> fst (add v (snd (add v s)))"
  by (simp add: laws)

lemma remove_undoes_add: "valid s \<Longrightarrow> \<not> contains s v \<Longrightarrow> vals (snd (remove v (snd (add v s)))) = vals s"
  by (simp add: laws)

lemma add_commute: "valid s \<Longrightarrow> vals (snd (add u (snd (add v s)))) = vals (snd (add v (snd (add u s))))"
  by (simp add: laws insert_commute)

lemma fold_add: "valid s \<Longrightarrow> valid (fold (\<lambda>v s. snd (add v s)) vs s) \<and>
    vals (fold (\<lambda>v s. snd (add v s)) vs s) = vals s \<union> array_set vs"
  by (induction vs arbitrary: s) (auto simp: laws)

lemma fold_remove: "valid s \<Longrightarrow> valid (fold (\<lambda>v s. snd (remove v s)) vs s) \<and>
    vals (fold (\<lambda>v s. snd (remove v s)) vs s) = vals s - array_set vs"
  by (induction vs arbitrary: s) (auto simp: laws)

lemma card_add: "valid s \<Longrightarrow> finite (vals s) \<Longrightarrow> card (vals (snd (add v s))) = card (vals s) + of_bool (fst (add v s))"
  by (simp add: laws card_insert_if)

end

subsection \<open>Sorted batches\<close>

locale batch_value_set = value_set +
  fixes add_sorted :: "low list \<Rightarrow> 'a \<Rightarrow> nat \<times> 'a" and remove_sorted :: "low list \<Rightarrow> 'a \<Rightarrow> nat \<times> 'a"
  assumes add_sorted_inv: "valid s \<Longrightarrow> strict vs \<Longrightarrow> valid (snd (add_sorted vs s))"
    and add_sorted_abs: "valid s \<Longrightarrow> strict vs \<Longrightarrow> vals (snd (add_sorted vs s)) = vals s \<union> array_set vs"
    and add_sorted_reply: "valid s \<Longrightarrow> strict vs \<Longrightarrow> fst (add_sorted vs s) = card (array_set vs - vals s)"
    and remove_sorted_inv: "valid s \<Longrightarrow> strict vs \<Longrightarrow> valid (snd (remove_sorted vs s))"
    and remove_sorted_abs: "valid s \<Longrightarrow> strict vs \<Longrightarrow> vals (snd (remove_sorted vs s)) = vals s - array_set vs"
    and remove_sorted_reply: "valid s \<Longrightarrow> strict vs \<Longrightarrow> fst (remove_sorted vs s) = card (vals s \<inter> array_set vs)"
begin

lemmas batch_laws = laws add_sorted_inv add_sorted_abs add_sorted_reply remove_sorted_inv remove_sorted_abs
  remove_sorted_reply

text \<open>A batch does what its values do one at a time.\<close>

lemma add_sorted_is_fold_add:
  "valid s \<Longrightarrow> strict vs \<Longrightarrow> vals (snd (add_sorted vs s)) = vals (fold (\<lambda>v s. snd (add v s)) vs s)"
  by (simp add: add_sorted_abs fold_add)

lemma remove_sorted_is_fold_remove:
  "valid s \<Longrightarrow> strict vs \<Longrightarrow> vals (snd (remove_sorted vs s)) = vals (fold (\<lambda>v s. snd (remove v s)) vs s)"
  by (simp add: remove_sorted_abs fold_remove)

lemma serve_refines:
  assumes "valid s" "request_ok r"
  shows "valid (snd (serve_with contains add remove add_sorted remove_sorted r s)) \<and>
    (fst (serve_with contains add remove add_sorted remove_sorted r s),
     vals (snd (serve_with contains add remove add_sorted remove_sorted r s))) = serve_set r (vals s)"
  using assms by (cases r) (simp_all add: batch_laws case_prod_beta)

theorem serve_all_refines:
  assumes "valid s" "list_all request_ok rs"
  shows "valid (snd (serve_all (serve_with contains add remove add_sorted remove_sorted) rs s)) \<and>
    (fst (serve_all (serve_with contains add remove add_sorted remove_sorted) rs s),
     vals (snd (serve_all (serve_with contains add remove add_sorted remove_sorted) rs s))) =
    serve_all serve_set rs (vals s)"
  by (rule serve_all_simulation [of valid, OF serve_refines assms])

end

end
