(* ===== verification/Runs.thy ===== *)
theory Runs
  imports Roaring_Prelude Value_Set
begin

text \<open>
  Runs: closed intervals of low values (\<open>run.hpp\<close>), the standalone run container (\<open>run_container.hpp\<close>)
  and the two appends the run kernels build their results with (\<open>containers.hpp\<close>). A run list is
  well formed when every run is non-empty and consecutive runs are separated by at least one value.
\<close>

subsection \<open>Runs and run lists\<close>

record run =
  rbegin :: low
  rend :: low

abbreviation mk_run :: "low \<Rightarrow> low \<Rightarrow> run" where
  "mk_run b e \<equiv> \<lparr>rbegin = b, rend = e\<rparr>"

definition run_set :: "run \<Rightarrow> nat set" where
  "run_set r = {unat (rbegin r)..unat (rend r)}"

definition runs_set :: "run list \<Rightarrow> nat set" where
  "runs_set rs = (\<Union>r\<in>set rs. run_set r)"

definition run_gap :: "run \<Rightarrow> run \<Rightarrow> bool" where
  "run_gap r s \<longleftrightarrow> unat (rend r) + 1 < unat (rbegin s)"

definition run_ok :: "run \<Rightarrow> bool" where
  "run_ok r \<longleftrightarrow> rbegin r \<le> rend r"

definition wf_runs :: "run list \<Rightarrow> bool" where
  "wf_runs rs \<longleftrightarrow> sorted_wrt run_gap rs \<and> (\<forall>r\<in>set rs. run_ok r)"

definition run_len :: "run \<Rightarrow> nat" where
  "run_len r = unat (rend r) - unat (rbegin r) + 1"

lemma run_ok_unat: "run_ok r \<longleftrightarrow> unat (rbegin r) \<le> unat (rend r)"
  by (simp add: run_ok_def word_le_nat_alt)

lemma run_ok_mk [simp]: "run_ok (mk_run b e) \<longleftrightarrow> b \<le> e"
  by (simp add: run_ok_def)

lemma mem_run_set [simp]: "v \<in> run_set r \<longleftrightarrow> unat (rbegin r) \<le> v \<and> v \<le> unat (rend r)"
  by (simp add: run_set_def)

lemma runs_set_Nil [simp]: "runs_set [] = {}"
  by (simp add: runs_set_def)

lemma runs_set_Cons [simp]: "runs_set (r # rs) = run_set r \<union> runs_set rs"
  by (simp add: runs_set_def)

lemma runs_set_append [simp]: "runs_set (rs @ ss) = runs_set rs \<union> runs_set ss"
  by (simp add: runs_set_def)

lemma runs_setI: "r \<in> set rs \<Longrightarrow> unat (rbegin r) \<le> v \<Longrightarrow> v \<le> unat (rend r) \<Longrightarrow> v \<in> runs_set rs"
  by (auto simp: runs_set_def)

lemma runs_setE: "v \<in> runs_set rs \<Longrightarrow>
    (\<And>r. r \<in> set rs \<Longrightarrow> unat (rbegin r) \<le> v \<Longrightarrow> v \<le> unat (rend r) \<Longrightarrow> P) \<Longrightarrow> P"
  by (auto simp: runs_set_def)

lemma runs_set_bound: "v \<in> runs_set rs \<Longrightarrow> v < 65536"
  by (erule runs_setE) (metis le_less_trans unat_low_less)

lemma finite_runs_set [simp]: "finite (runs_set rs)"
  by (simp add: runs_set_def run_set_def)

lemma wf_runs_Nil [simp]: "wf_runs []"
  by (simp add: wf_runs_def)

lemma wf_runs_Cons: "wf_runs (r # rs) \<longleftrightarrow> run_ok r \<and> (\<forall>s\<in>set rs. run_gap r s) \<and> wf_runs rs"
  by (auto simp: wf_runs_def)

lemma wf_runs_append:
  "wf_runs (rs @ ss) \<longleftrightarrow> wf_runs rs \<and> wf_runs ss \<and> (\<forall>r\<in>set rs. \<forall>s\<in>set ss. run_gap r s)"
  by (auto simp: wf_runs_def sorted_wrt_append)

lemma run_gap_trans: "run_gap r s \<Longrightarrow> run_ok s \<Longrightarrow> run_gap s t \<Longrightarrow> run_gap r t"
  by (simp add: run_gap_def run_ok_unat)

lemma wf_runs_snoc:
  "wf_runs (rs @ [r]) \<longleftrightarrow> wf_runs rs \<and> run_ok r \<and> (rs \<noteq> [] \<longrightarrow> run_gap (last rs) r)"
proof (cases rs rule: rev_cases)
  case (snoc ss s)
  have "run_gap t r" if "run_gap s r" "run_gap t s" "run_ok s" for t
    using that run_gap_trans by blast
  then show ?thesis
    unfolding snoc by (auto simp: wf_runs_append wf_runs_Cons)
qed (simp add: wf_runs_Cons)

lemma wf_runs_Cons_Cons:
  "wf_runs (r # s # rs) \<longleftrightarrow> run_ok r \<and> run_gap r s \<and> wf_runs (s # rs)"
  by (auto simp: wf_runs_Cons intro: run_gap_trans)

lemma wf_runs_drop [simp]: "wf_runs rs \<Longrightarrow> wf_runs (drop n rs)"
  by (metis append_take_drop_id wf_runs_append)

lemma wf_runs_take [simp]: "wf_runs rs \<Longrightarrow> wf_runs (take n rs)"
  by (metis append_take_drop_id wf_runs_append)

lemma wf_runs_ok: "wf_runs rs \<Longrightarrow> r \<in> set rs \<Longrightarrow> unat (rbegin r) \<le> unat (rend r)"
  by (simp add: wf_runs_def run_ok_unat)

lemma wf_runs_mem_ok: "wf_runs rs \<Longrightarrow> r \<in> set rs \<Longrightarrow> run_ok r"
  by (simp add: wf_runs_def)

lemma wf_runs_gap_nth:
  "wf_runs rs \<Longrightarrow> i < j \<Longrightarrow> j < length rs \<Longrightarrow> unat (rend (rs ! i)) + 1 < unat (rbegin (rs ! j))"
  by (simp add: wf_runs_def sorted_wrt_iff_nth_less run_gap_def)

lemma runs_set_Cons_gap: "wf_runs (r # rs) \<Longrightarrow> v \<in> runs_set rs \<Longrightarrow> unat (rend r) + 1 < v"
  by (erule runs_setE) (auto simp: wf_runs_Cons run_gap_def)

lemma card_runs_set: "wf_runs rs \<Longrightarrow> card (runs_set rs) = sum_list (map run_len rs)"
proof (induction rs)
  case (Cons r rs)
  have "run_set r \<inter> runs_set rs = {}"
    using runs_set_Cons_gap [OF Cons.prems] by fastforce
  moreover have "card (run_set r) = run_len r"
    using Cons.prems by (simp add: run_set_def run_len_def wf_runs_Cons run_ok_unat Suc_diff_le)
  ultimately show ?case
    using Cons by (simp add: card_Un_disjoint wf_runs_Cons run_set_def)
qed simp

lemma run_starts_runs_set: "wf_runs rs \<Longrightarrow> run_starts (runs_set rs) = (\<lambda>r. unat (rbegin r)) ` set rs"
proof (induction rs)
  case (Cons r rs)
  have ok: "unat (rbegin r) \<le> unat (rend r)" and rs: "wf_runs rs"
    using Cons.prems by (auto simp: wf_runs_Cons run_ok_unat)
  have gap: "v \<in> runs_set rs \<Longrightarrow> unat (rend r) + 1 < v" for v
    using Cons.prems by (rule runs_set_Cons_gap)
  have "run_starts (runs_set (r # rs)) = insert (unat (rbegin r)) (run_starts (runs_set rs))"
    using ok gap by (fastforce simp: run_starts_def)
  then show ?case using Cons.IH [OF rs] by simp
qed simp

lemma wf_runs_distinct_begin: "wf_runs rs \<Longrightarrow> distinct (map (\<lambda>r. unat (rbegin r)) rs)"
proof (induction rs)
  case (Cons r rs)
  then have "unat (rbegin r) < unat (rbegin s)" if "s \<in> set rs" for s
    using that by (auto simp: wf_runs_Cons run_gap_def run_ok_unat)
  then show ?case using Cons by (fastforce simp: wf_runs_Cons)
qed simp

lemma card_run_starts_runs_set: "wf_runs rs \<Longrightarrow> card (run_starts (runs_set rs)) = length rs"
  using distinct_card [OF wf_runs_distinct_begin] by (simp add: run_starts_runs_set)

lemma runs_set_empty_iff: "wf_runs rs \<Longrightarrow> runs_set rs = {} \<longleftrightarrow> rs = []"
  by (cases rs) (auto simp: wf_runs_Cons run_ok_unat run_set_def)

subsection \<open>The standalone run container (run\_container.hpp)\<close>

text \<open>\<open>std::int32_t\<close> indices; \<open>( low + high ) >> 1\<close> halves a non-negative sum.\<close>

function binary_search_loop :: "run list \<Rightarrow> low \<Rightarrow> int \<Rightarrow> int \<Rightarrow> int" where
  "binary_search_loop rs ikey low high =
    (if low \<le> high
     then let middleIndex = (low + high) div 2;
              middleValue = rbegin (rs ! nat middleIndex)
          in if middleValue < ikey then binary_search_loop rs ikey (middleIndex + 1) high
             else if middleValue > ikey then binary_search_loop rs ikey low (middleIndex - 1)
             else middleIndex
     else - (low + 1))"
  by pat_completeness auto
termination
  by (relation "measure (\<lambda>(rs, ikey, low, high). nat (high - low + 1))") auto

declare binary_search_loop.simps [simp del]

definition interleaved_binary_search :: "run list \<Rightarrow> int \<Rightarrow> low \<Rightarrow> int" where
  "interleaved_binary_search rs lenarray ikey = binary_search_loop rs ikey 0 (lenarray - 1)"

definition runs_contains :: "run list \<Rightarrow> low \<Rightarrow> bool" where
  "runs_contains rs v =
    (let index = interleaved_binary_search rs (int (length rs)) v
     in if index \<ge> 0 then True
        else let index = - index - 2
             in if index < 0 then False else v \<le> rend (rs ! nat index))"

text \<open>\<open>add_closed_range\<close>: the loop over the runs, with the runs kept so far and the interval the new
  one has grown to.\<close>

definition separated_before :: "run \<Rightarrow> low \<Rightarrow> bool" where
  "separated_before current next_begin \<longleftrightarrow> unat (rend current) + 1 < unat next_begin"

definition separated_after :: "low \<Rightarrow> run \<Rightarrow> bool" where
  "separated_after previous_end current \<longleftrightarrow> unat previous_end + 1 < unat (rbegin current)"

fun add_range_loop :: "low \<Rightarrow> low \<Rightarrow> run list \<Rightarrow> run list \<Rightarrow> low \<Rightarrow> low \<Rightarrow> bool \<Rightarrow> run list" where
  "add_range_loop b e [] merged new_begin new_end inserted =
     (if \<not> inserted then merged @ [mk_run new_begin new_end] else merged)"
| "add_range_loop b e (current # rs) merged new_begin new_end inserted =
     (if separated_before current b then
        add_range_loop b e rs (merged @ [current]) new_begin new_end inserted
      else if separated_after e current then
        (if \<not> inserted
         then add_range_loop b e rs (merged @ [mk_run new_begin new_end] @ [current]) new_begin new_end True
         else add_range_loop b e rs (merged @ [current]) new_begin new_end inserted)
      else add_range_loop b e rs merged (min new_begin (rbegin current)) (max new_end (rend current)) inserted)"

definition runs_add_closed_range :: "low \<Rightarrow> low \<Rightarrow> run list \<Rightarrow> run list" where
  "runs_add_closed_range b e rs = (if b > e then rs else add_range_loop b e rs [] b e False)"

fun remove_range_loop :: "low \<Rightarrow> low \<Rightarrow> run list \<Rightarrow> run list \<Rightarrow> run list" where
  "remove_range_loop b e [] updated = updated"
| "remove_range_loop b e (current # rs) updated =
     (if rend current < b \<or> e < rbegin current then
        remove_range_loop b e rs (updated @ [current])
      else
        (let updated = (if rbegin current < b then updated @ [mk_run (rbegin current) (b - 1)] else updated);
             updated = (if e < rend current \<and> e \<noteq> - 1 then updated @ [mk_run (e + 1) (rend current)] else updated)
         in remove_range_loop b e rs updated))"

definition runs_remove_closed_range :: "low \<Rightarrow> low \<Rightarrow> run list \<Rightarrow> run list" where
  "runs_remove_closed_range b e rs = (if b > e \<or> rs = [] then rs else remove_range_loop b e rs [])"

definition recalculate_cardinality :: "run list \<Rightarrow> nat" where
  "recalculate_cardinality rs =
     fold (\<lambda>current cardinality. cardinality + (unat (rend current) - unat (rbegin current) + 1)) rs 0"

text \<open>\<open>for_each\<close> calls its argument on the values of each run in turn; the values in that order.\<close>

definition run_values :: "run \<Rightarrow> low list" where
  "run_values r = map to_low [unat (rbegin r)..<unat (rend r) + 1]"

definition runs_values :: "run list \<Rightarrow> low list" where
  "runs_values rs = concat (map run_values rs)"

fun from_sorted_loop :: "low list \<Rightarrow> run list \<Rightarrow> low \<Rightarrow> low \<Rightarrow> run list" where
  "from_sorted_loop [] runs current_begin current_end = runs @ [mk_run current_begin current_end]"
| "from_sorted_loop (value_v # vs) runs current_begin current_end =
     (if value_v = current_end \<or> (current_end \<noteq> - 1 \<and> value_v = current_end + 1)
      then from_sorted_loop vs runs current_begin value_v
      else from_sorted_loop vs (runs @ [mk_run current_begin current_end]) value_v value_v)"

definition runs_from_sorted_values :: "low list \<Rightarrow> run list" where
  "runs_from_sorted_values vs =
     (case vs of [] \<Rightarrow> [] | v # vs \<Rightarrow> from_sorted_loop vs [] v v)"

record run_container =
  runs :: "run list"
  rc_cardinality :: nat

definition rc_add_closed_range :: "low \<Rightarrow> low \<Rightarrow> run_container \<Rightarrow> run_container" where
  "rc_add_closed_range b e c =
     (if b > e then c
      else let merged = runs_add_closed_range b e (runs c)
           in \<lparr>runs = merged, rc_cardinality = recalculate_cardinality merged\<rparr>)"

definition rc_remove_closed_range :: "low \<Rightarrow> low \<Rightarrow> run_container \<Rightarrow> run_container" where
  "rc_remove_closed_range b e c =
     (if b > e \<or> runs c = [] then c
      else let updated = runs_remove_closed_range b e (runs c)
           in \<lparr>runs = updated, rc_cardinality = recalculate_cardinality updated\<rparr>)"

definition rc_contains :: "run_container \<Rightarrow> low \<Rightarrow> bool" where
  "rc_contains c v = runs_contains (runs c) v"

definition rc_add :: "low \<Rightarrow> run_container \<Rightarrow> bool \<times> run_container" where
  "rc_add v c = (let previous_size = rc_cardinality c; c = rc_add_closed_range v v c
                 in (rc_cardinality c \<noteq> previous_size, c))"

definition rc_remove :: "low \<Rightarrow> run_container \<Rightarrow> bool \<times> run_container" where
  "rc_remove v c = (let previous_size = rc_cardinality c; c = rc_remove_closed_range v v c
                    in (rc_cardinality c \<noteq> previous_size, c))"

definition rc_from_sorted_values :: "low list \<Rightarrow> run_container" where
  "rc_from_sorted_values vs =
     (let rs = runs_from_sorted_values vs in \<lparr>runs = rs, rc_cardinality = recalculate_cardinality rs\<rparr>)"

text \<open>\<open>next_after\<close>: the value after \<open>value\<close>, or \<open>no_next\<close>, which is \<open>None\<close>.\<close>

definition rc_next_after :: "run_container \<Rightarrow> low \<Rightarrow> low option" where
  "rc_next_after c v =
    (let it = partition_point (\<lambda>r. rend r < v) (runs c)
     in if it = length (runs c) then None
        else if v < rbegin (runs c ! it) then Some (rbegin (runs c ! it))
        else if v < rend (runs c ! it) then Some (v + 1)
        else if it + 1 = length (runs c) then None
        else Some (rbegin (runs c ! (it + 1))))"

definition wf_rc :: "run_container \<Rightarrow> bool" where
  "wf_rc c \<longleftrightarrow> wf_runs (runs c) \<and> rc_cardinality c = card (runs_set (runs c))"

definition rc_set :: "run_container \<Rightarrow> nat set" where
  "rc_set c = runs_set (runs c)"


subsubsection \<open>The search\<close>

definition search_result :: "run list \<Rightarrow> low \<Rightarrow> int \<Rightarrow> bool" where
  "search_result rs k r \<longleftrightarrow>
     (if 0 \<le> r then nat r < length rs \<and> rbegin (rs ! nat r) = k
      else nat (- r - 1) \<le> length rs \<and> (\<forall>i<nat (- r - 1). rbegin (rs ! i) < k) \<and>
           (\<forall>i<length rs. nat (- r - 1) \<le> i \<longrightarrow> k < rbegin (rs ! i)))"

lemma wf_runs_begin_mono:
  assumes "wf_runs rs" "i < j" "j < length rs"
  shows "rbegin (rs ! i) < rbegin (rs ! j)"
proof -
  have "unat (rbegin (rs ! i)) \<le> unat (rend (rs ! i))"
    using assms by (intro wf_runs_ok [of rs]) auto
  with wf_runs_gap_nth [OF assms] show ?thesis by (simp add: word_less_nat_alt)
qed

lemma binary_search_loop_result:
  assumes "wf_runs rs" "0 \<le> low" "high < int (length rs)" "low \<le> high + 1"
    and "\<forall>i<nat low. rbegin (rs ! i) < k"
    and "\<forall>i<length rs. high < int i \<longrightarrow> k < rbegin (rs ! i)"
  shows "search_result rs k (binary_search_loop rs k low high)"
  using assms
proof (induction rs k low high rule: binary_search_loop.induct)
  case (1 rs k low high)
  show ?case
  proof (cases "low \<le> high")
    case False
    then have "high = low - 1" using 1(6) by simp
    then show ?thesis
      using 1 False by (auto simp: binary_search_loop.simps [of rs k low high] search_result_def)
  next
    case True
    let ?m = "(low + high) div 2"
    have m: "low \<le> ?m" "?m \<le> high" "nat ?m < length rs"
      using True 1(4,5) by auto
    have below: "i < nat (?m + 1) \<Longrightarrow> rbegin (rs ! i) < k" if "rbegin (rs ! nat ?m) < k" for i
    proof (cases "i = nat ?m")
      case False
      assume "i < nat (?m + 1)"
      with False have "i < nat ?m" by linarith
      with wf_runs_begin_mono [OF 1(3) this m(3)] that show ?thesis by simp
    qed (use that in simp)
    have above: "k < rbegin (rs ! i)" if "k < rbegin (rs ! nat ?m)" "i < length rs" "?m - 1 < int i" for i
    proof (cases "i = nat ?m")
      case False
      then have "nat ?m < i" using that m 1(4) by linarith
      with wf_runs_begin_mono [OF 1(3) this that(2)] that show ?thesis by simp
    qed (use that in simp)
    consider "rbegin (rs ! nat ?m) < k" | "rbegin (rs ! nat ?m) > k" | "rbegin (rs ! nat ?m) = k"
      by fastforce
    then show ?thesis
    proof cases
      case lt: 1
      have "\<forall>i<nat (?m + 1). rbegin (rs ! i) < k"
        using lt below by blast
      then have "search_result rs k (binary_search_loop rs k (?m + 1) high)"
        using m "1.prems" by (intro "1.IH"(1) [OF True refl refl lt]) simp_all
      with lt True show ?thesis by (simp add: binary_search_loop.simps [of rs k low high] Let_def)
    next
      case gt: 2
      then have ng: "\<not> rbegin (rs ! nat ?m) < k" by simp
      have "\<forall>i<length rs. ?m - 1 < int i \<longrightarrow> k < rbegin (rs ! i)"
        using gt above by blast
      with ng have "search_result rs k (binary_search_loop rs k low (?m - 1))"
        using m "1.prems" by (intro "1.IH"(2) [OF True refl refl _ gt]) simp_all
      with gt ng True show ?thesis by (simp add: binary_search_loop.simps [of rs k low high] Let_def)
    next
      case 3
      with True m "1.prems"(2) show ?thesis
        by (simp add: binary_search_loop.simps [of rs k low high] Let_def search_result_def)
    qed
  qed
qed

lemma interleaved_binary_search_result:
  "wf_runs rs \<Longrightarrow> search_result rs k (interleaved_binary_search rs (int (length rs)) k)"
  unfolding interleaved_binary_search_def by (rule binary_search_loop_result) auto

text \<open>The last run that begins at or below a value is the only one that can hold it.\<close>

lemma runs_mem_last_begin:
  assumes "wf_runs rs" "p < length rs" "rbegin (rs ! p) \<le> v"
    and "\<forall>i<length rs. p < i \<longrightarrow> v < rbegin (rs ! i)"
  shows "unat v \<in> runs_set rs \<longleftrightarrow> v \<le> rend (rs ! p)"
proof
  assume "unat v \<in> runs_set rs"
  then obtain i where i: "i < length rs" "unat (rbegin (rs ! i)) \<le> unat v" "unat v \<le> unat (rend (rs ! i))"
    by (auto elim!: runs_setE simp: in_set_conv_nth)
  then have "i \<le> p" using assms(4) by (metis not_less word_le_nat_alt)
  moreover have "unat (rend (rs ! i)) + 1 < unat (rbegin (rs ! p))" if "i < p"
    using assms(1) that assms(2) by (rule wf_runs_gap_nth)
  ultimately show "v \<le> rend (rs ! p)"
    using i assms(3) by (cases "i = p") (auto simp: word_le_nat_alt)
next
  assume "v \<le> rend (rs ! p)"
  with assms show "unat v \<in> runs_set rs"
    by (intro runs_setI [of "rs ! p"]) (auto simp: word_le_nat_alt)
qed

lemma runs_mem_before_first:
  "\<forall>i<length rs. v < rbegin (rs ! i) \<Longrightarrow> unat v \<notin> runs_set rs"
  by (auto elim!: runs_setE simp: in_set_conv_nth word_less_nat_alt) (metis not_less)

lemma runs_contains_iff:
  assumes "wf_runs rs"
  shows "runs_contains rs v \<longleftrightarrow> unat v \<in> runs_set rs"
proof -
  let ?r = "interleaved_binary_search rs (int (length rs)) v"
  have r: "search_result rs v ?r" using assms by (rule interleaved_binary_search_result)
  show ?thesis
  proof (cases "0 \<le> ?r")
    case True
    with r have "nat ?r < length rs" "rbegin (rs ! nat ?r) = v" by (auto simp: search_result_def)
    then have "unat v \<in> runs_set rs"
      using wf_runs_ok [OF assms nth_mem [of "nat ?r"]] by (intro runs_setI [of "rs ! nat ?r"]) auto
    with True show ?thesis by (simp add: runs_contains_def)
  next
    case False
    let ?p = "nat (- ?r - 1)"
    from False r have p: "?p \<le> length rs" "\<forall>i<?p. rbegin (rs ! i) < v"
      "\<forall>i<length rs. ?p \<le> i \<longrightarrow> v < rbegin (rs ! i)"
      by (auto simp: search_result_def)
    show ?thesis
    proof (cases "- ?r - 2 < 0")
      case True
      then have "?p = 0" by simp
      with p(3) have "unat v \<notin> runs_set rs" by (intro runs_mem_before_first) simp
      with True False show ?thesis by (simp add: runs_contains_def)
    next
      case nneg: False
      have "unat v \<in> runs_set rs \<longleftrightarrow> v \<le> rend (rs ! nat (- ?r - 2))"
      proof (rule runs_mem_last_begin [OF assms])
        have "nat (- ?r - 2) < ?p" using nneg by linarith
        with p(1,2) show "nat (- ?r - 2) < length rs" "rbegin (rs ! nat (- ?r - 2)) \<le> v"
          by (auto intro: less_imp_le)
        show "\<forall>i<length rs. nat (- ?r - 2) < i \<longrightarrow> v < rbegin (rs ! i)"
        proof (intro allI impI)
          fix i assume "i < length rs" "nat (- ?r - 2) < i"
          moreover then have "?p \<le> i" using nneg by linarith
          ultimately show "v < rbegin (rs ! i)" using p(3) by blast
        qed
      qed
      with nneg False show ?thesis by (simp add: runs_contains_def)
    qed
  qed
qed


subsubsection \<open>Inserting and removing a closed range\<close>

lemma sum_run_len: "fold (\<lambda>r n. n + (unat (rend r) - unat (rbegin r) + 1)) rs n = n + sum_list (map run_len rs)"
  by (induction rs arbitrary: n) (auto simp: run_len_def)

lemma recalculate_cardinality_card: "wf_runs rs \<Longrightarrow> recalculate_cardinality rs = card (runs_set rs)"
  unfolding recalculate_cardinality_def sum_run_len by (simp add: card_runs_set)

lemma add_range_loop_inserted:
  assumes "b \<le> e" "\<forall>s\<in>set rs. separated_after e s \<and> run_ok s"
  shows "add_range_loop b e rs merged nb ne True = merged @ rs"
  using assms(2)
proof (induction rs arbitrary: merged)
  case (Cons s rs)
  then have "\<not> separated_before s b"
    using assms(1) by (auto simp: separated_before_def separated_after_def run_ok_unat word_le_nat_alt)
  with Cons show ?case by simp
qed simp

definition add_range_inv :: "low \<Rightarrow> low \<Rightarrow> run list \<Rightarrow> run list \<Rightarrow> low \<Rightarrow> low \<Rightarrow> bool" where
  "add_range_inv b e rs merged nb ne \<longleftrightarrow>
     wf_runs merged \<and> wf_runs rs \<and> nb \<le> b \<and> b \<le> e \<and> e \<le> ne \<and>
     (\<forall>r\<in>set merged. unat (rend r) + 1 < unat nb) \<and> (\<forall>r\<in>set merged. \<forall>s\<in>set rs. run_gap r s) \<and>
     (nb < b \<longrightarrow> (\<forall>s\<in>set rs. b \<le> rbegin s)) \<and>
     (e < ne \<longrightarrow> (\<forall>s\<in>set rs. unat ne + 1 < unat (rbegin s)))"

lemma add_range_loop_correct:
  assumes "add_range_inv b e rs merged nb ne"
  shows "wf_runs (add_range_loop b e rs merged nb ne False) \<and>
    runs_set (add_range_loop b e rs merged nb ne False) = runs_set merged \<union> {unat nb..unat ne} \<union> runs_set rs"
  using assms
proof (induction rs arbitrary: merged nb ne)
  case Nil
  then show ?case
    by (auto simp: add_range_inv_def wf_runs_append wf_runs_Cons run_gap_def word_le_nat_alt run_set_def)
next
  case (Cons s rs)
  have s: "unat (rbegin s) \<le> unat (rend s)" and gap: "\<forall>t\<in>set rs. unat (rend s) + 1 < unat (rbegin t)"
    using Cons.prems by (auto simp: add_range_inv_def wf_runs_Cons run_ok_unat run_gap_def)
  consider (before) "separated_before s b" | (after) "\<not> separated_before s b" "separated_after e s"
    | (absorb) "\<not> separated_before s b" "\<not> separated_after e s" by blast
  then show ?case
  proof cases
    case before
    have "add_range_inv b e rs (merged @ [s]) nb ne"
      using Cons.prems before s
      by (fastforce simp: add_range_inv_def wf_runs_append wf_runs_Cons separated_before_def
          run_gap_def low_order)
    from Cons.IH [OF this] before show ?thesis by auto
  next
    case after
    have *: "\<forall>t\<in>set rs. separated_after e t \<and> run_ok t"
      using Cons.prems after s
      by (auto simp: add_range_inv_def wf_runs_Cons separated_after_def run_gap_def intro: wf_runs_mem_ok)
    have "unat ne + 1 < unat (rbegin s)"
      using Cons.prems after by (auto simp: add_range_inv_def separated_after_def low_order)
    then have "wf_runs (merged @ mk_run nb ne # s # rs)"
      using Cons.prems s gap
      by (auto simp: add_range_inv_def wf_runs_append wf_runs_Cons run_gap_def low_order)
    moreover have "b \<le> e" using Cons.prems by (simp add: add_range_inv_def)
    ultimately show ?thesis
      using after by (auto simp: add_range_loop_inserted [OF _ *] run_set_def)
  next
    case absorb
    have nb': "unat (min nb (rbegin s)) = min (unat nb) (unat (rbegin s))"
      and ne': "unat (max ne (rend s)) = max (unat ne) (unat (rend s))"
      by (auto simp: min_def max_def word_le_nat_alt)
    have "add_range_inv b e rs merged (min nb (rbegin s)) (max ne (rend s))"
      using Cons.prems absorb s gap
      unfolding add_range_inv_def
      by (fastforce simp: nb' ne' wf_runs_Cons separated_before_def separated_after_def
          run_gap_def low_order)
    moreover have "{min (unat nb) (unat (rbegin s))..max (unat ne) (unat (rend s))}
        = {unat nb..unat ne} \<union> run_set s"
      using Cons.prems absorb s
      by (auto simp: add_range_inv_def separated_before_def separated_after_def low_order)
    ultimately show ?thesis
      using Cons.IH [of merged "min nb (rbegin s)" "max ne (rend s)"] absorb
      by (auto simp: nb' ne')
  qed
qed

lemma runs_add_closed_range_correct:
  assumes "wf_runs rs"
  shows "wf_runs (runs_add_closed_range b e rs)"
    and "runs_set (runs_add_closed_range b e rs) = runs_set rs \<union> {unat b..unat e}"
proof -
  have "add_range_inv b e rs [] b e" if "b \<le> e"
    using assms that by (simp add: add_range_inv_def)
  note * = add_range_loop_correct [OF this]
  show "wf_runs (runs_add_closed_range b e rs)"
    using assms * by (simp add: runs_add_closed_range_def)
  show "runs_set (runs_add_closed_range b e rs) = runs_set rs \<union> {unat b..unat e}"
    using * by (auto simp: runs_add_closed_range_def low_order)
qed

lemma remove_range_loop_correct:
  assumes "wf_runs updated" "wf_runs rs" "b \<le> e" "\<forall>r\<in>set updated. \<forall>s\<in>set rs. run_gap r s"
  shows "wf_runs (remove_range_loop b e rs updated) \<and>
    runs_set (remove_range_loop b e rs updated) = runs_set updated \<union> (runs_set rs - {unat b..unat e})"
  using assms
proof (induction rs arbitrary: updated)
  case (Cons s rs)
  have s: "unat (rbegin s) \<le> unat (rend s)" using Cons.prems by (auto simp: wf_runs_Cons run_ok_unat)
  show ?case
  proof (cases "rend s < b \<or> e < rbegin s")
    case True
    then have "run_set s - {unat b..unat e} = run_set s" using Cons.prems(3) by (auto simp: low_order)
    moreover have "wf_runs (updated @ [s])" "\<forall>r\<in>set (updated @ [s]). \<forall>t\<in>set rs. run_gap r t"
      using Cons.prems by (auto simp: wf_runs_append wf_runs_Cons)
    ultimately show ?thesis using True Cons.IH [of "updated @ [s]"] Cons.prems
      by (auto simp: wf_runs_Cons)
  next
    case False
    define ls where "ls = (if rbegin s < b then [mk_run (rbegin s) (b - 1)] else [])"
    define us where "us = (if e < rend s \<and> e \<noteq> - 1 then [mk_run (e + 1) (rend s)] else [])"
    have b1: "rbegin s < b \<Longrightarrow> unat (b - 1) = unat b - 1" by (rule unat_minus1_low) (auto simp: low_order)
    have e1: "e \<noteq> - 1 \<Longrightarrow> unat (e + 1) = unat e + 1" by (rule unat_low_plus1)
    note e2 = low_not_max [of e "rend s"]
    have step: "remove_range_loop b e (s # rs) updated = remove_range_loop b e rs (updated @ ls @ us)"
      using False by (simp add: ls_def us_def Let_def)
    have "wf_runs (ls @ us)"
      using False Cons.prems(3) b1 e1
      by (auto simp: ls_def us_def wf_runs_append wf_runs_Cons run_gap_def low_order)
    moreover have B: "unat (rbegin s) \<le> unat (rbegin t) \<and> unat (rend t) \<le> unat (rend s)" if "t \<in> set (ls @ us)" for t
      using that False Cons.prems(3) b1 e1 by (auto simp: ls_def us_def low_order split: if_splits)
    have "run_gap r t" if "r \<in> set updated" "t \<in> set (ls @ us)" for r t
      using Cons.prems(4) B [OF that(2)] that(1) by (auto simp: run_gap_def)
    moreover have rest: "run_gap t x" if "t \<in> set (ls @ us)" "x \<in> set rs" for t x
      using Cons.prems(2) B [OF that(1)] that(2) by (auto simp: run_gap_def wf_runs_Cons)
    ultimately have inv: "wf_runs (updated @ ls @ us)"
      "\<forall>r\<in>set (updated @ ls @ us). \<forall>t\<in>set rs. run_gap r t"
      using Cons.prems(1,4) unfolding wf_runs_append [of updated] by auto
    have "runs_set (ls @ us) = run_set s - {unat b..unat e}"
      using False Cons.prems(3) b1 e1 e2 by (auto simp: ls_def us_def low_order)
    with Cons.IH [OF inv(1) _ _ inv(2)] Cons.prems show ?thesis
      unfolding step by (auto simp: wf_runs_Cons)
  qed
qed simp

lemma runs_remove_closed_range_correct:
  assumes "wf_runs rs"
  shows "wf_runs (runs_remove_closed_range b e rs)"
    and "runs_set (runs_remove_closed_range b e rs) = runs_set rs - {unat b..unat e}"
  using assms remove_range_loop_correct [of "[]" rs b e]
  by (auto simp: runs_remove_closed_range_def low_order)


subsubsection \<open>The values in order, and the runs of a sorted list\<close>

lemma run_values_set [simp]: "array_set (run_values r) = run_set r"
proof -
  have "array_set (run_values r) = set [unat (rbegin r)..<unat (rend r) + 1]"
    unfolding run_values_def by (intro array_set_map_to_low) (auto intro: unat_low_upper less_imp_le)
  then show ?thesis by (auto simp: run_set_def)
qed

lemma runs_values_set [simp]: "array_set (runs_values rs) = runs_set rs"
  by (induction rs) (auto simp: runs_values_def)

lemma run_values_bounds: "x \<in> set (run_values r) \<Longrightarrow> unat (rbegin r) \<le> unat x \<and> unat x \<le> unat (rend r)"
  using run_values_set [of r] by (metis mem_array_set mem_run_set)

lemma strict_run_values: "strict (run_values r)"
  unfolding run_values_def
  by (subst strict_map_to_low) (auto simp del: upt_Suc simp: less_Suc_eq_le intro: unat_low_upper)

lemma strict_runs_values: "wf_runs rs \<Longrightarrow> strict (runs_values rs)"
proof (induction rs)
  case (Cons r rs)
  have "x < y" if "x \<in> set (run_values r)" "y \<in> set (runs_values rs)" for x y
  proof -
    have "unat y \<in> runs_set rs" using that(2) runs_values_set [of rs] by (metis mem_array_set)
    from runs_set_Cons_gap [OF Cons.prems this] run_values_bounds [OF that(1)] show ?thesis
      by (simp add: word_less_nat_alt)
  qed
  with Cons show ?case
    by (auto simp: runs_values_def sorted_wrt_append strict_run_values wf_runs_Cons)
qed (simp add: runs_values_def)

lemma from_sorted_loop_correct:
  assumes "wf_runs (rs @ [mk_run cb ce])" "sorted (ce # vs)"
  shows "wf_runs (from_sorted_loop vs rs cb ce) \<and>
    runs_set (from_sorted_loop vs rs cb ce) = runs_set rs \<union> {unat cb..unat ce} \<union> array_set vs"
  using assms
proof (induction vs arbitrary: rs cb ce)
  case Nil
  then show ?case by (auto simp: run_set_def)
next
  case (Cons v vs)
  have cb: "unat cb \<le> unat ce" using Cons.prems by (simp add: wf_runs_snoc word_le_nat_alt)
  show ?case
  proof (cases "v = ce \<or> (ce \<noteq> - 1 \<and> v = ce + 1)")
    case True
    then have v: "unat v = unat ce \<or> unat v = unat ce + 1" by (auto simp: unat_low_plus1)
    then have "wf_runs (rs @ [mk_run cb v])"
      using Cons.prems(1) cb by (auto simp: wf_runs_snoc run_gap_def word_le_nat_alt)
    moreover have "{unat cb..unat v} = insert (unat v) {unat cb..unat ce}" using v cb by auto
    ultimately show ?thesis
      using True Cons.IH [of rs cb v] Cons.prems(2) by auto
  next
    case False
    have "ce \<le> v" using Cons.prems(2) by simp
    with False have less: "ce < v" by (metis order.not_eq_order_implies_strict)
    then have "unat (ce + 1) = unat ce + 1" by (intro unat_low_plus1 low_not_max)
    with False less low_not_max [OF less] have v: "unat ce + 1 < unat v"
      by (auto simp: low_order)
    then have "wf_runs ((rs @ [mk_run cb ce]) @ [mk_run v v])"
      using Cons.prems(1) by (subst wf_runs_snoc) (auto simp: run_gap_def)
    with False show ?thesis
      using Cons.IH [of "rs @ [mk_run cb ce]" v v] Cons.prems(2) by auto
  qed
qed

lemma runs_from_sorted_values_correct:
  assumes "sorted vs"
  shows "wf_runs (runs_from_sorted_values vs)" "runs_set (runs_from_sorted_values vs) = array_set vs"
  using assms from_sorted_loop_correct [of "[]" _ _ "tl vs"]
  by (auto simp: runs_from_sorted_values_def wf_runs_Cons split: list.splits)

subsubsection \<open>The container's operations\<close>

lemma wf_rcD: "wf_rc c \<Longrightarrow> wf_runs (runs c)" "wf_rc c \<Longrightarrow> rc_cardinality c = card (rc_set c)"
  by (simp_all add: wf_rc_def rc_set_def)

lemma rc_contains_iff: "wf_rc c \<Longrightarrow> rc_contains c v \<longleftrightarrow> unat v \<in> rc_set c"
  by (simp add: rc_contains_def rc_set_def runs_contains_iff wf_rcD)

lemma rc_add_closed_range_correct [wf_results]:
  assumes "wf_rc c"
  shows "wf_rc (rc_add_closed_range b e c)" "rc_set (rc_add_closed_range b e c) = rc_set c \<union> {unat b..unat e}"
  using assms runs_add_closed_range_correct [of "runs c" b e]
  by (auto simp: rc_add_closed_range_def wf_rc_def rc_set_def recalculate_cardinality_card low_order Let_def)

lemma rc_remove_closed_range_correct [wf_results]:
  assumes "wf_rc c"
  shows "wf_rc (rc_remove_closed_range b e c)" "rc_set (rc_remove_closed_range b e c) = rc_set c - {unat b..unat e}"
  using assms runs_remove_closed_range_correct [of "runs c" b e]
  by (auto simp: rc_remove_closed_range_def wf_rc_def rc_set_def recalculate_cardinality_card low_order Let_def)

lemma rc_add_correct:
  assumes "wf_rc c"
  shows "fst (rc_add v c) \<longleftrightarrow> unat v \<notin> rc_set c" "wf_rc (snd (rc_add v c))"
    "rc_set (snd (rc_add v c)) = insert (unat v) (rc_set c)"
  using assms rc_add_closed_range_correct [of c v v]
  by (auto simp: rc_add_def Let_def wf_rcD card_insert_if rc_set_def)

lemma rc_remove_correct:
  assumes "wf_rc c"
  shows "fst (rc_remove v c) \<longleftrightarrow> unat v \<in> rc_set c" "wf_rc (snd (rc_remove v c))"
    "rc_set (snd (rc_remove v c)) = rc_set c - {unat v}"
proof -
  let ?c = "rc_remove_closed_range v v c"
  have c: "wf_rc ?c" "rc_set ?c = rc_set c - {unat v}"
    using rc_remove_closed_range_correct [OF assms, of v v] by simp_all
  then have "rc_cardinality ?c = card (rc_set c - {unat v})" by (simp add: wf_rcD)
  moreover have "finite (rc_set c)" by (simp add: rc_set_def)
  then have "card (rc_set c - {unat v}) \<noteq> card (rc_set c) \<longleftrightarrow> unat v \<in> rc_set c"
    by (metis Diff_empty Diff_insert0 card_Diff1_less less_irrefl)
  ultimately show "fst (rc_remove v c) \<longleftrightarrow> unat v \<in> rc_set c"
    using assms by (simp add: rc_remove_def Let_def wf_rcD)
  show "wf_rc (snd (rc_remove v c))" "rc_set (snd (rc_remove v c)) = rc_set c - {unat v}"
    using c by (simp_all add: rc_remove_def Let_def)
qed

lemma rc_from_sorted_values_correct:
  "sorted vs \<Longrightarrow> wf_rc (rc_from_sorted_values vs) \<and> rc_set (rc_from_sorted_values vs) = array_set vs"
  by (simp add: rc_from_sorted_values_def wf_rc_def rc_set_def runs_from_sorted_values_correct
      recalculate_cardinality_card Let_def)

lemma next_in_runs:
  assumes "wf_runs (pre @ r # rest)" "\<forall>p\<in>set pre. rend p < v" "v \<le> rend r"
  shows "is_next (runs_set (pre @ r # rest)) v
    (if v < rbegin r then Some (rbegin r) else if v < rend r then Some (v + 1)
     else (case rest of [] \<Rightarrow> None | s # _ \<Rightarrow> Some (rbegin s)))"
proof -
  have r: "unat (rbegin r) \<le> unat (rend r)"
    using assms(1) by (simp add: wf_runs_append wf_runs_Cons run_ok_unat)
  have pre: "x \<le> unat v" if "x \<in> runs_set pre" for x
    using that assms(2) by (fastforce elim!: runs_setE simp: word_less_nat_alt)
  have rest: "unat (rend r) + 1 < x" if "x \<in> runs_set rest" for x
    using assms(1) that runs_set_Cons_gap [of r rest x] by (simp add: wf_runs_append)
  have first: "unat (rbegin s) \<le> x" if "rest = s # ss" "x \<in> runs_set rest" for x s ss
    using assms(1) that runs_set_Cons_gap [of s ss x] wf_runs_ok [of "s # ss" s]
    by (auto simp: wf_runs_append wf_runs_Cons [of r])
  have succ: "unat (v + 1) = unat v + 1" if "v < rend r"
    using that by (intro unat_low_plus1 low_not_max)
  show ?thesis
  proof (cases "v < rend r")
    case True
    with r pre rest succ show ?thesis
      by (fastforce simp: is_next_def low_order)
  next
    case False
    then have v: "unat v = unat (rend r)" using assms(3) by (simp add: low_order)
    show ?thesis
    proof (cases rest)
      case Nil
      with v r pre show ?thesis by (auto simp: is_next_def low_order dest: pre)
    next
      case (Cons s ss)
      have s: "unat (rbegin s) \<le> unat (rend s)"
        using assms(1) Cons by (simp add: wf_runs_append wf_runs_Cons run_ok_unat)
      then have "unat (rend r) + 1 < unat (rbegin s)"
        using rest [of "unat (rbegin s)"] Cons by simp
      moreover have "unat (rbegin s) \<le> x"
        if "x \<in> runs_set (pre @ r # rest)" "unat v < x" for x
        using that pre [of x] v first [OF Cons, of x] by auto
      ultimately show ?thesis
        using False v r s by (auto simp: is_next_def low_order Cons)
    qed
  qed
qed

lemma rc_next_after_correct:
  assumes "wf_rc c"
  shows "is_next (rc_set c) v (rc_next_after c v)"
proof -
  let ?p = "\<lambda>r. rend r < v"
  have wf: "wf_runs (takeWhile ?p (runs c) @ dropWhile ?p (runs c))" using assms by (simp add: wf_rcD)
  have pre: "\<forall>r\<in>set (takeWhile ?p (runs c)). ?p r" by (auto dest: set_takeWhileD)
  show ?thesis
  proof (cases "dropWhile ?p (runs c)")
    case Nil
    then have all: "takeWhile ?p (runs c) = runs c" by (metis append_Nil2 takeWhile_dropWhile_id)
    with pre have "x \<le> unat v" if "x \<in> runs_set (runs c)" for x
      using that by (fastforce elim!: runs_setE simp: word_less_nat_alt)
    moreover have "rc_next_after c v = None"
      unfolding rc_next_after_def partition_point_def all by simp
    ultimately show ?thesis
      by (simp add: is_next_def rc_set_def)
  next
    case (Cons r rest)
    define pre' where "pre' = takeWhile ?p (runs c)"
    have split: "runs c = pre' @ r # rest"
      unfolding pre'_def Cons [symmetric] by simp
    have "v \<le> rend r" using Cons by (metis hd_dropWhile list.distinct(1) list.sel(1) not_less)
    then have "is_next (runs_set (pre' @ r # rest)) v
        (if v < rbegin r then Some (rbegin r) else if v < rend r then Some (v + 1)
         else (case rest of [] \<Rightarrow> None | s # _ \<Rightarrow> Some (rbegin s)))"
      using wf pre unfolding Cons pre'_def [symmetric] by (rule next_in_runs [rotated 2])
    moreover have "partition_point ?p (pre' @ r # rest) = length pre'"
      unfolding split [symmetric] by (simp add: partition_point_def pre'_def)
    ultimately show ?thesis
      unfolding rc_next_after_def rc_set_def split Let_def
      by (cases "v < rbegin r"; cases "v < rend r"; cases rest) (simp_all add: nth_append)
  qed
qed

subsection \<open>Appending to the runs of a result (containers.hpp)\<close>

text \<open>The buffer's first \<open>n\<close> runs are the list; writing to \<open>runs[n - 1]\<close> replaces its last element.\<close>

definition append_run :: "run list \<Rightarrow> nat \<Rightarrow> nat \<Rightarrow> run list" where
  "append_run rs b e =
    (if rs \<noteq> [] \<and> unat (rend (last rs)) + 1 = b
     then butlast rs @ [(last rs)\<lparr>rend := to_low e\<rparr>]
     else rs @ [mk_run (to_low b) (to_low e)])"

definition append_run_exclusive :: "run list \<Rightarrow> nat \<Rightarrow> nat \<Rightarrow> run list" where
  "append_run_exclusive rs b e =
    (if rs = [] \<or> b > unat (rend (last rs)) + 1 then rs @ [mk_run (to_low b) (to_low e)]
     else let last_run = last rs;
              old_end = unat (rend last_run)
          in if old_end + 1 = b then butlast rs @ [last_run\<lparr>rend := to_low e\<rparr>]
             else if b = unat (rbegin last_run) then
               (if e < old_end then butlast rs @ [mk_run (to_low (e + 1)) (to_low old_end)]
                else if e > old_end then butlast rs @ [mk_run (to_low (old_end + 1)) (to_low e)]
                else butlast rs)
             else
               (let rs = butlast rs @ [last_run\<lparr>rend := to_low (b - 1)\<rparr>]
                in if e < old_end then rs @ [mk_run (to_low (e + 1)) (to_low old_end)]
                   else if e > old_end then rs @ [mk_run (to_low (old_end + 1)) (to_low e)]
                   else rs))"

lemma append_run_correct:
  assumes "wf_runs rs" "b \<le> e" "e < 65536" "rs \<noteq> [] \<Longrightarrow> unat (rend (last rs)) < b"
  shows "wf_runs (append_run rs b e)" "runs_set (append_run rs b e) = runs_set rs \<union> {b..e}"
    "append_run rs b e \<noteq> []" "unat (rend (last (append_run rs b e))) = e"
proof -
  have "wf_runs (append_run rs b e) \<and> runs_set (append_run rs b e) = runs_set rs \<union> {b..e} \<and>
    append_run rs b e \<noteq> [] \<and> unat (rend (last (append_run rs b e))) = e"
  proof (cases rs rule: rev_cases)
    case Nil
    then show ?thesis
      using assms by (auto simp: append_run_def wf_runs_Cons run_ok_unat)
  next
    case (snoc ss s)
    with assms have s: "unat (rbegin s) \<le> unat (rend s)" "unat (rend s) < b"
      by (simp_all add: wf_runs_snoc run_ok_unat)
    then show ?thesis
      using assms(1-3) unfolding snoc
      by (auto simp: append_run_def wf_runs_append wf_runs_Cons run_ok_unat run_gap_def)
  qed
  then show "wf_runs (append_run rs b e)" "runs_set (append_run rs b e) = runs_set rs \<union> {b..e}"
    "append_run rs b e \<noteq> []" "unat (rend (last (append_run rs b e))) = e" by blast+
qed

lemma append_run_exclusive_correct:
  assumes "wf_runs rs" "b \<le> e" "e < 65536" "rs \<noteq> [] \<Longrightarrow> unat (rbegin (last rs)) \<le> b"
  shows "wf_runs (append_run_exclusive rs b e)"
    "runs_set (append_run_exclusive rs b e) = sym_diff (runs_set rs) {b..e}"
proof -
  have "wf_runs (append_run_exclusive rs b e) \<and>
    (\<forall>x. x \<in> runs_set (append_run_exclusive rs b e) \<longleftrightarrow> x \<in> sym_diff (runs_set rs) {b..e})"
  proof (cases rs rule: rev_cases)
    case Nil
    then show ?thesis
      using assms by (auto simp: append_run_exclusive_def wf_runs_Cons run_ok_unat)
  next
    case (snoc ss s)
    with assms have s: "unat (rbegin s) \<le> unat (rend s)" "unat (rbegin s) \<le> b" "unat (rend s) < 65536"
      by (simp_all add: wf_runs_snoc run_ok_unat)
    have before: "\<not> v + 1 < unat (rbegin s) \<Longrightarrow> v \<notin> runs_set ss" for v
      using assms(1) unfolding snoc wf_runs_append run_gap_def by (fastforce elim!: runs_setE)
    define S where "S = runs_set ss"
    note before = before [folded S_def]
    have narrow: "unat (to_low (b - 1)) = b - 1" "e < unat (rend s) \<Longrightarrow> unat (to_low (e + 1)) = e + 1"
      "unat (rend s) < e \<Longrightarrow> unat (to_low (unat (rend s) + 1)) = unat (rend s) + 1"
      using assms(2,3) s(3) by (intro unat_to_low; linarith)+
    consider (1) "b > unat (rend s) + 1" | (2) "unat (rend s) + 1 = b"
      | (3) "b \<le> unat (rend s)" "b = unat (rbegin s)" "e < unat (rend s)"
      | (4) "b \<le> unat (rend s)" "b = unat (rbegin s)" "e > unat (rend s)"
      | (5) "b \<le> unat (rend s)" "b = unat (rbegin s)" "e = unat (rend s)"
      | (6) "b \<le> unat (rend s)" "b \<noteq> unat (rbegin s)" "e < unat (rend s)"
      | (7) "b \<le> unat (rend s)" "b \<noteq> unat (rbegin s)" "e > unat (rend s)"
      | (8) "b \<le> unat (rend s)" "b \<noteq> unat (rbegin s)" "e = unat (rend s)"
      by linarith
    then show ?thesis
      by cases (use assms(1-3) s before narrow in \<open>auto simp: snoc append_run_exclusive_def wf_runs_append
        wf_runs_Cons run_ok_unat run_gap_def Let_def S_def [symmetric]\<close>)
  qed
  then show "wf_runs (append_run_exclusive rs b e)"
    "runs_set (append_run_exclusive rs b e) = sym_diff (runs_set rs) {b..e}" by blast+
qed

subsection \<open>The interface\<close>

interpretation run_form: value_set wf_rc rc_set rc_contains rc_add rc_remove
  by unfold_locales (simp_all add: rc_contains_iff rc_add_correct rc_remove_correct)

end
