(* ===== verification/Handle.thy ===== *)
theory Handle
  imports Word_Blocks Runs
begin

text \<open>
  The container handle (\<open>container_handle.hpp\<close>): a payload in one of three forms and a header that caches
  the number of values and the least and greatest value. Only a bitset's header may be stale: its bulk word
  kernels defer the endpoint scan, and its lazy ones the count. A stale count is never above the true one.
  The payload's storage (inline or spilled, owned, shared or borrowed) does not change its elements.
\<close>

datatype payload =
    Array_payload "low list"
  | Run_payload "run list"
  | Bitset_payload "word64 list"

datatype container_kind = Array_kind | Run_kind | Bitset_kind

record container =
  payload :: payload
  cardinality :: nat
  min_end :: low
  max_end :: low
  endpoints_stale :: bool
  cardinality_stale :: bool

definition kind :: "container \<Rightarrow> container_kind" where
  "kind h = (case payload h of Array_payload _ \<Rightarrow> Array_kind | Run_payload _ \<Rightarrow> Run_kind | Bitset_payload _ \<Rightarrow> Bitset_kind)"

definition holds_array :: "container \<Rightarrow> bool" where
  "holds_array h \<longleftrightarrow> kind h = Array_kind"

definition holds_run :: "container \<Rightarrow> bool" where
  "holds_run h \<longleftrightarrow> kind h = Run_kind"

definition holds_bitset :: "container \<Rightarrow> bool" where
  "holds_bitset h \<longleftrightarrow> kind h = Bitset_kind"

text \<open>\<open>as_array\<close>, \<open>as_run\<close> and \<open>as_bitset\<close> view the payload under its kind.\<close>

definition array_values :: "container \<Rightarrow> low list" where
  "array_values h = (case payload h of Array_payload xs \<Rightarrow> xs | _ \<Rightarrow> [])"

definition run_list :: "container \<Rightarrow> run list" where
  "run_list h = (case payload h of Run_payload rs \<Rightarrow> rs | _ \<Rightarrow> [])"

definition bitset_words :: "container \<Rightarrow> word64 list" where
  "bitset_words h = (case payload h of Bitset_payload ws \<Rightarrow> ws | _ \<Rightarrow> [])"

subsection \<open>Header maintenance\<close>

definition set_cardinality :: "nat \<Rightarrow> container \<Rightarrow> container" where
  "set_cardinality n h = h\<lparr>cardinality := n, cardinality_stale := False\<rparr>"

definition mark_endpoints_stale :: "container \<Rightarrow> container" where
  "mark_endpoints_stale h = h\<lparr>endpoints_stale := True\<rparr>"

definition mark_cardinality_stale :: "container \<Rightarrow> container" where
  "mark_cardinality_stale h = h\<lparr>cardinality_stale := True\<rparr>"

definition mark_cardinality_unknown :: "container \<Rightarrow> container" where
  "mark_cardinality_unknown h = h\<lparr>cardinality := 0, cardinality_stale := True\<rparr>"

definition settle_cardinality :: "container \<Rightarrow> container" where
  "settle_cardinality h =
     (if cardinality_stale h then set_cardinality (popcount_words (bitset_words h)) h else h)"

text \<open>The addition of the signed delta is on \<open>std::uint32_t\<close>.\<close>

definition adjust_cardinality :: "int \<Rightarrow> container \<Rightarrow> container" where
  "adjust_cardinality delta h = h\<lparr>cardinality := nat ((int (cardinality h) + delta) mod 2 ^ 32)\<rparr>"

definition set_endpoints :: "low \<Rightarrow> low \<Rightarrow> container \<Rightarrow> container" where
  "set_endpoints mn mx h = h\<lparr>min_end := mn, max_end := mx, endpoints_stale := False\<rparr>"

definition set_max_value :: "low \<Rightarrow> container \<Rightarrow> container" where
  "set_max_value mx h = h\<lparr>max_end := mx\<rparr>"

text \<open>The first and the last word that is not zero; \<open>while ( w[ front ] == 0 ) ++front\<close> reads no further
  because the callers have excluded an empty block.\<close>

definition front_word :: "word64 list \<Rightarrow> nat" where
  "front_word ws = partition_point (\<lambda>w. w = 0) ws"

definition back_word :: "word64 list \<Rightarrow> nat" where
  "back_word ws = length ws - 1 - partition_point (\<lambda>w. w = 0) (rev ws)"

definition first_value :: "word64 list \<Rightarrow> low" where
  "first_value ws = to_low (front_word ws * 64 + countr_zero (ws ! front_word ws))"

definition last_value :: "word64 list \<Rightarrow> low" where
  "last_value ws = to_low (back_word ws * 64 + (63 - countl_zero (ws ! back_word ws)))"

definition ensure_endpoints :: "container \<Rightarrow> container" where
  "ensure_endpoints h =
    (if \<not> endpoints_stale h \<or> (\<not> cardinality_stale h \<and> cardinality h = 0) then h
     else let words = bitset_words h
          in if front_word words = length words then h\<lparr>min_end := 0, max_end := 0, endpoints_stale := False\<rparr>
             else h\<lparr>min_end := first_value words, max_end := last_value words, endpoints_stale := False\<rparr>)"

definition min_value :: "container \<Rightarrow> low" where
  "min_value h = min_end (ensure_endpoints h)"

definition max_value :: "container \<Rightarrow> low" where
  "max_value h = max_end (ensure_endpoints h)"

subsection \<open>Factories\<close>

definition make_array :: container where
  "make_array = \<lparr>payload = Array_payload [], cardinality = 0, min_end = 0, max_end = 0,
     endpoints_stale = False, cardinality_stale = False\<rparr>"

definition make_run :: container where
  "make_run = \<lparr>payload = Run_payload [], cardinality = 0, min_end = 0, max_end = 0,
     endpoints_stale = False, cardinality_stale = False\<rparr>"

text \<open>\<open>make_bitset_uninitialized\<close> is a block of whatever the allocation holds.\<close>

definition make_bitset_uninitialized :: "word64 list \<Rightarrow> container" where
  "make_bitset_uninitialized garbage =
     mark_endpoints_stale \<lparr>payload = Bitset_payload garbage, cardinality = 0, min_end = 0, max_end = 0,
       endpoints_stale = False, cardinality_stale = False\<rparr>"

definition make_bitset_zeroed :: container where
  "make_bitset_zeroed = make_bitset_uninitialized (replicate word_count 0)"

definition array_sync_header :: "container \<Rightarrow> container" where
  "array_sync_header h =
    (let vs = array_values h; n = length vs; h = set_cardinality n h
     in if n \<noteq> 0 then set_endpoints (hd vs) (last vs) h else h)"

definition make_array_from_sorted :: "low list \<Rightarrow> container" where
  "make_array_from_sorted vs = array_sync_header (make_array\<lparr>payload := Array_payload vs\<rparr>)"

definition make_bitset_from_words :: "word64 list \<Rightarrow> container" where
  "make_bitset_from_words words =
     mark_endpoints_stale (set_cardinality (fold (\<lambda>w c. c + popcount w) words 0) (make_bitset_uninitialized words))"

definition run_sync_header :: "container \<Rightarrow> container" where
  "run_sync_header h =
    (let rs = run_list h;
         total = fold (\<lambda>current total. total + (unat (rend current) - unat (rbegin current) + 1)) rs 0;
         h = set_cardinality total h
     in if rs \<noteq> [] then set_endpoints (rbegin (hd rs)) (rend (last rs)) h else h)"

definition bitset_sync_endpoints :: "container \<Rightarrow> container" where
  "bitset_sync_endpoints h =
    (if cardinality h = 0 then h
     else set_endpoints (first_value (bitset_words h)) (last_value (bitset_words h)) h)"

definition make_borrowed :: "payload \<Rightarrow> nat \<Rightarrow> container" where
  "make_borrowed p card_p =
    (let h = \<lparr>payload = p, cardinality = card_p, min_end = 0, max_end = 0,
              endpoints_stale = False, cardinality_stale = False\<rparr>
     in case p of
          Array_payload vs \<Rightarrow> if length vs \<noteq> 0 then set_endpoints (hd vs) (last vs) h else h
        | Run_payload rs \<Rightarrow> if length rs \<noteq> 0 then set_endpoints (rbegin (hd rs)) (rend (last rs)) h else h
        | Bitset_payload ws \<Rightarrow> mark_endpoints_stale h)"

subsection \<open>Well-formed handles and the set they hold\<close>

fun payload_set :: "payload \<Rightarrow> nat set" where
  "payload_set (Array_payload vs) = array_set vs"
| "payload_set (Run_payload rs) = runs_set rs"
| "payload_set (Bitset_payload ws) = bits_set ws"

fun wf_payload :: "payload \<Rightarrow> bool" where
  "wf_payload (Array_payload vs) = strict vs"
| "wf_payload (Run_payload rs) = wf_runs rs"
| "wf_payload (Bitset_payload ws) = (length ws = word_count)"

definition values_of :: "container \<Rightarrow> nat set" where
  "values_of h = payload_set (payload h)"

definition endpoints_ok :: "container \<Rightarrow> bool" where
  "endpoints_ok h \<longleftrightarrow> (if endpoints_stale h then holds_bitset h
     else values_of h \<noteq> {} \<longrightarrow> unat (min_end h) = Min (values_of h) \<and> unat (max_end h) = Max (values_of h))"

definition cardinality_ok :: "container \<Rightarrow> bool" where
  "cardinality_ok h \<longleftrightarrow> (if cardinality_stale h then holds_bitset h \<and> cardinality h \<le> card (values_of h)
     else cardinality h = card (values_of h))"

definition wf_container :: "container \<Rightarrow> bool" where
  "wf_container h \<longleftrightarrow> wf_payload (payload h) \<and> cardinality_ok h \<and> endpoints_ok h"

lemma values_of_simps [simp]:
  "payload h = Array_payload vs \<Longrightarrow> values_of h = array_set vs"
  "payload h = Run_payload rs \<Longrightarrow> values_of h = runs_set rs"
  "payload h = Bitset_payload ws \<Longrightarrow> values_of h = bits_set ws"
  by (simp_all add: values_of_def)

lemma payload_views [simp]:
  "payload h = Array_payload vs \<Longrightarrow> array_values h = vs"
  "payload h = Run_payload rs \<Longrightarrow> run_list h = rs"
  "payload h = Bitset_payload ws \<Longrightarrow> bitset_words h = ws"
  by (simp_all add: array_values_def run_list_def bitset_words_def)

lemma holds_simps [simp]:
  "payload h = Array_payload vs \<Longrightarrow> holds_array h" "payload h = Run_payload rs \<Longrightarrow> \<not> holds_array h"
  "payload h = Bitset_payload ws \<Longrightarrow> \<not> holds_array h" "payload h = Array_payload vs \<Longrightarrow> \<not> holds_run h"
  "payload h = Run_payload rs \<Longrightarrow> holds_run h" "payload h = Bitset_payload ws \<Longrightarrow> \<not> holds_run h"
  "payload h = Array_payload vs \<Longrightarrow> \<not> holds_bitset h" "payload h = Run_payload rs \<Longrightarrow> \<not> holds_bitset h"
  "payload h = Bitset_payload ws \<Longrightarrow> holds_bitset h"
  by (simp_all add: holds_array_def holds_run_def holds_bitset_def kind_def)

lemma holds_payload:
  "holds_array h \<longleftrightarrow> (\<exists>vs. payload h = Array_payload vs)"
  "holds_run h \<longleftrightarrow> (\<exists>rs. payload h = Run_payload rs)"
  "holds_bitset h \<longleftrightarrow> (\<exists>ws. payload h = Bitset_payload ws)"
  by (cases "payload h"; simp)+

lemma finite_values_of [simp]: "finite (values_of h)"
  by (cases "payload h") auto

lemma values_of_bound: "wf_container h \<Longrightarrow> v \<in> values_of h \<Longrightarrow> v < 65536"
  by (cases "payload h")
    (auto simp: wf_container_def word_count_def dest: array_set_bound runs_set_bound bits_set_bound)

subsection \<open>The endpoint scans\<close>

lemma front_word_correct:
  assumes "w \<in> set ws" "w \<noteq> 0"
  shows "front_word ws < length ws" "ws ! front_word ws \<noteq> 0" "\<And>j. j < front_word ws \<Longrightarrow> ws ! j = 0"
proof -
  show less: "front_word ws < length ws"
  proof (rule ccontr)
    assume "\<not> front_word ws < length ws"
    then have "length (takeWhile (\<lambda>w. w = 0) ws) = length ws"
      using length_takeWhile_le [of "\<lambda>w. w = 0" ws] by (simp add: front_word_def partition_point_def)
    then have "takeWhile (\<lambda>w. w = 0) ws = ws" by (metis takeWhile_eq_take take_all order_refl)
    with assms show False by (simp add: takeWhile_eq_all_conv)
  qed
  show "ws ! front_word ws \<noteq> 0"
    using partition_point_stop [OF less [unfolded front_word_def]] by (simp add: front_word_def)
  show "ws ! j = 0" if "j < front_word ws" for j
    using partition_point_before [OF that [unfolded front_word_def]] .
qed

lemma front_word_none: "(\<forall>w\<in>set ws. w = 0) \<Longrightarrow> front_word ws = length ws"
  by (simp add: front_word_def partition_point_def takeWhile_eq_all_conv [THEN iffD2])

lemma back_word_correct:
  assumes "w \<in> set ws" "w \<noteq> 0"
  shows "back_word ws < length ws" "ws ! back_word ws \<noteq> 0" "\<And>j. back_word ws < j \<Longrightarrow> j < length ws \<Longrightarrow> ws ! j = 0"
proof -
  let ?n = "partition_point (\<lambda>w. w = 0) (rev ws)"
  have rev: "?n < length ws" "rev ws ! ?n \<noteq> 0" "\<And>j. j < ?n \<Longrightarrow> rev ws ! j = 0"
    using front_word_correct [of w "rev ws"] assms by (simp_all add: front_word_def)
  show "back_word ws < length ws" using rev(1) by (simp add: back_word_def)
  show "ws ! back_word ws \<noteq> 0" using rev(1,2) by (simp add: back_word_def rev_nth)
  show "ws ! j = 0" if "back_word ws < j" "j < length ws" for j
    using rev(3) [of "length ws - 1 - j"] that by (simp add: back_word_def rev_nth)
qed

lemma bits_set_nonempty: "bits_set ws \<noteq> {} \<longleftrightarrow> (\<exists>w\<in>set ws. w \<noteq> 0)"
  by (simp add: bits_set_empty_iff)

lemma word_position_less:
  "length (ws :: word64 list) = 1024 \<Longrightarrow> i < length ws \<Longrightarrow> j < 64 \<Longrightarrow> i * 64 + j < 65536"
  by linarith

lemma first_value_Min:
  assumes "length ws = 1024" "bits_set ws \<noteq> {}"
  shows "unat (first_value ws) = Min (bits_set ws)"
proof -
  from assms(2) obtain w where w: "w \<in> set ws" "w \<noteq> 0" by (auto simp: bits_set_nonempty)
  let ?i = "front_word ws" and ?j = "countr_zero (ws ! front_word ws)"
  note f = front_word_correct [OF w]
  have j: "?j < 64" "bit (ws ! ?i) ?j" using f(2) by (simp_all add: countr_zero_less countr_zero_bit)
  have v: "unat (first_value ws) = 64 * ?i + ?j"
    using word_position_less [OF assms(1) f(1) j(1)] by (simp add: first_value_def mult.commute)
  have "64 * ?i + ?j \<in> bits_set ws" using f(1) j by (simp add: mem_bits_set_join)
  moreover have "64 * ?i + ?j \<le> x" if "x \<in> bits_set ws" for x
  proof -
    from that have x: "x div 64 < length ws" "bit (ws ! (x div 64)) (x mod 64)" by (auto simp: mem_bits_set)
    have "\<not> x div 64 < ?i" using f(3) x by fastforce
    moreover have "?j \<le> x mod 64" if "x div 64 = ?i" using x that f(2) countr_zero_least by metis
    ultimately show ?thesis
      using j(1) div_mult_mod_eq [of x 64] by (cases "x div 64 = ?i") linarith+
  qed
  ultimately show ?thesis unfolding v by (intro Min_eqI [symmetric]) auto
qed

lemma last_value_Max:
  assumes "length ws = 1024" "bits_set ws \<noteq> {}"
  shows "unat (last_value ws) = Max (bits_set ws)"
proof -
  from assms(2) obtain w where w: "w \<in> set ws" "w \<noteq> 0" by (auto simp: bits_set_nonempty)
  let ?i = "back_word ws" and ?j = "63 - countl_zero (ws ! back_word ws)"
  note f = back_word_correct [OF w]
  have j: "?j < 64" "bit (ws ! ?i) ?j" using countl_zero_bit [OF f(2)] by simp_all
  have v: "unat (last_value ws) = 64 * ?i + ?j"
    using word_position_less [OF assms(1) f(1) j(1)] by (simp add: last_value_def mult.commute)
  have "64 * ?i + ?j \<in> bits_set ws" using f(1) j by (simp add: mem_bits_set_join)
  moreover have "x \<le> 64 * ?i + ?j" if "x \<in> bits_set ws" for x
  proof -
    from that have x: "x div 64 < length ws" "bit (ws ! (x div 64)) (x mod 64)" by (auto simp: mem_bits_set)
    have "\<not> ?i < x div 64" using f(3) x by fastforce
    moreover have "x mod 64 \<le> ?j" if "x div 64 = ?i" using x that countl_zero_bit(3) [OF f(2)] by metis
    moreover have "x mod 64 < 64" by simp
    ultimately show ?thesis
      using div_mult_mod_eq [of x 64] by (cases "x div 64 = ?i") linarith+
  qed
  ultimately show ?thesis unfolding v by (intro Max_eqI [symmetric]) auto
qed

subsection \<open>What the header operations keep\<close>

lemma payload_header [simp]:
  "payload (set_cardinality n h) = payload h" "payload (mark_endpoints_stale h) = payload h"
  "payload (mark_cardinality_stale h) = payload h" "payload (mark_cardinality_unknown h) = payload h"
  "payload (settle_cardinality h) = payload h" "payload (adjust_cardinality d h) = payload h"
  "payload (set_endpoints a b h) = payload h" "payload (set_max_value b h) = payload h"
  "payload (ensure_endpoints h) = payload h" "payload (array_sync_header h) = payload h"
  "payload (run_sync_header h) = payload h" "payload (bitset_sync_endpoints h) = payload h"
  by (simp_all add: set_cardinality_def mark_endpoints_stale_def mark_cardinality_stale_def
      mark_cardinality_unknown_def settle_cardinality_def adjust_cardinality_def set_endpoints_def
      set_max_value_def ensure_endpoints_def array_sync_header_def run_sync_header_def
      bitset_sync_endpoints_def Let_def)

lemma payload_congs:
  assumes "payload h = payload g"
  shows "values_of h = values_of g" "kind h = kind g" "holds_array h = holds_array g" "holds_run h = holds_run g"
    "holds_bitset h = holds_bitset g" "array_values h = array_values g" "run_list h = run_list g"
    "bitset_words h = bitset_words g"
  using assms by (simp_all add: values_of_def kind_def holds_array_def holds_run_def holds_bitset_def
      array_values_def run_list_def bitset_words_def)

lemma values_of_header [simp]:
  "values_of (set_cardinality n h) = values_of h" "values_of (mark_endpoints_stale h) = values_of h"
  "values_of (mark_cardinality_stale h) = values_of h" "values_of (mark_cardinality_unknown h) = values_of h"
  "values_of (settle_cardinality h) = values_of h" "values_of (adjust_cardinality d h) = values_of h"
  "values_of (set_endpoints a b h) = values_of h" "values_of (set_max_value b h) = values_of h"
  "values_of (ensure_endpoints h) = values_of h" "values_of (array_sync_header h) = values_of h"
  "values_of (run_sync_header h) = values_of h" "values_of (bitset_sync_endpoints h) = values_of h"
  by (simp_all add: values_of_def)

lemma wf_bitset_words: "wf_container h \<Longrightarrow> holds_bitset h \<Longrightarrow> length (bitset_words h) = 1024 \<and> values_of h = bits_set (bitset_words h)"
  by (auto simp: wf_container_def holds_payload)

lemma wf_container_bitset:
  assumes p: "payload h = Bitset_payload ws"
  shows "wf_container h \<longleftrightarrow>
    length ws = 1024 \<and>
    (if cardinality_stale h then cardinality h \<le> card (bits_set ws) else cardinality h = card (bits_set ws)) \<and>
    (\<not> endpoints_stale h \<longrightarrow> bits_set ws \<noteq> {} \<longrightarrow>
       unat (min_end h) = Min (bits_set ws) \<and> unat (max_end h) = Max (bits_set ws))"
  by (simp add: wf_container_def cardinality_ok_def endpoints_ok_def p)

lemma settle_cardinality_correct [wf_results]:
  assumes "wf_container h"
  shows "wf_container (settle_cardinality h)" "\<not> cardinality_stale (settle_cardinality h)"
    "cardinality (settle_cardinality h) = card (values_of h)"
proof -
  have "wf_container (settle_cardinality h) \<and> \<not> cardinality_stale (settle_cardinality h) \<and>
    cardinality (settle_cardinality h) = card (values_of h)"
  proof (cases "cardinality_stale h")
    case True
    then have "holds_bitset h" using assms by (simp add: wf_container_def cardinality_ok_def)
    then obtain ws where "payload h = Bitset_payload ws" by (auto simp: holds_payload)
    with True assms show ?thesis
      by (simp add: wf_container_def settle_cardinality_def set_cardinality_def cardinality_ok_def
          endpoints_ok_def popcount_words_card values_of_def holds_bitset_def kind_def)
  next
    case False
    with assms show ?thesis by (simp add: settle_cardinality_def wf_container_def cardinality_ok_def)
  qed
  then show "wf_container (settle_cardinality h)" "\<not> cardinality_stale (settle_cardinality h)"
    "cardinality (settle_cardinality h) = card (values_of h)" by blast+
qed

lemma ensure_endpoints_correct:
  assumes "wf_container h"
  shows "wf_container (ensure_endpoints h)"
    and "values_of h \<noteq> {} \<Longrightarrow> \<not> endpoints_stale (ensure_endpoints h)"
    and "values_of h \<noteq> {} \<Longrightarrow> unat (min_value h) = Min (values_of h)"
    and "values_of h \<noteq> {} \<Longrightarrow> unat (max_value h) = Max (values_of h)"
proof -
  have "wf_container (ensure_endpoints h) \<and> (values_of h \<noteq> {} \<longrightarrow> \<not> endpoints_stale (ensure_endpoints h) \<and>
    unat (min_value h) = Min (values_of h) \<and> unat (max_value h) = Max (values_of h))"
  proof (cases "\<not> endpoints_stale h \<or> (\<not> cardinality_stale h \<and> cardinality h = 0)")
    case True
    then show ?thesis
      using assms by (auto simp: ensure_endpoints_def min_value_def max_value_def wf_container_def
          endpoints_ok_def cardinality_ok_def)
  next
    case False
    then have "holds_bitset h" using assms by (simp add: wf_container_def endpoints_ok_def)
    then obtain ws where ws: "payload h = Bitset_payload ws" by (auto simp: holds_payload)
    note wf = assms [unfolded wf_container_bitset [OF ws]]
    then have len: "length ws = 1024" by simp
    show ?thesis
    proof (cases "bits_set ws = {}")
      case True
      then have "front_word ws = length ws" by (intro front_word_none) (simp add: bits_set_empty_iff)
      then have "ensure_endpoints h = h\<lparr>min_end := 0, max_end := 0, endpoints_stale := False\<rparr>"
        unfolding ensure_endpoints_def if_not_P [OF False] Let_def by (simp add: ws)
      with True wf ws show ?thesis by (simp add: wf_container_bitset [where ws = ws] split: if_splits)
    next
      case nonempty: False
      then obtain w where "w \<in> set ws" "w \<noteq> 0" by (auto simp: bits_set_nonempty)
      then have "front_word ws \<noteq> length ws" using front_word_correct(1) by fastforce
      then have "ensure_endpoints h = h\<lparr>min_end := first_value ws, max_end := last_value ws, endpoints_stale := False\<rparr>"
        unfolding ensure_endpoints_def if_not_P [OF False] Let_def by (simp add: ws)
      then show ?thesis
        using first_value_Min [OF len nonempty] last_value_Max [OF len nonempty] wf ws
        by (simp add: min_value_def max_value_def wf_container_bitset [where ws = ws])
    qed
  qed
  then show "wf_container (ensure_endpoints h)"
    and "values_of h \<noteq> {} \<Longrightarrow> \<not> endpoints_stale (ensure_endpoints h)"
    and "values_of h \<noteq> {} \<Longrightarrow> unat (min_value h) = Min (values_of h)"
    and "values_of h \<noteq> {} \<Longrightarrow> unat (max_value h) = Max (values_of h)" by blast+
qed

lemma runs_set_Min_Max:
  assumes "wf_runs rs" "rs \<noteq> []"
  shows "Min (runs_set rs) = unat (rbegin (hd rs))" "Max (runs_set rs) = unat (rend (last rs))"
proof -
  obtain r rest where hd: "rs = r # rest" using assms(2) by (cases rs) auto
  have r: "unat (rbegin r) \<le> unat (rend r)" using assms(1) by (simp add: hd wf_runs_Cons run_ok_unat)
  have "unat (rbegin r) \<le> x" if "x \<in> runs_set rs" for x
  proof (cases "x \<in> run_set r")
    case False
    then have "x \<in> runs_set rest" using that by (auto simp: hd)
    from runs_set_Cons_gap [OF assms(1) [unfolded hd] this] r show ?thesis by simp
  qed simp
  moreover have "unat (rbegin r) \<in> runs_set rs" using r by (simp add: hd)
  ultimately have "Min (runs_set rs) = unat (rbegin r)" by (intro Min_eqI) simp_all
  then show "Min (runs_set rs) = unat (rbegin (hd rs))" by (simp add: hd)
next
  obtain ss s where last: "rs = ss @ [s]" using assms(2) by (cases rs rule: rev_cases) auto
  have s: "unat (rbegin s) \<le> unat (rend s)" using assms(1) by (simp add: last wf_runs_snoc run_ok_unat)
  have "x \<le> unat (rend s)" if "x \<in> runs_set rs" for x
  proof (cases "x \<in> run_set s")
    case False
    then have "x \<in> runs_set ss" using that by (auto simp: last)
    then obtain t where t: "t \<in> set ss" "x \<le> unat (rend t)" by (rule runs_setE)
    then have "run_gap t s" using assms(1) by (simp add: last wf_runs_append)
    with t s show ?thesis by (simp add: run_gap_def)
  qed simp
  moreover have "unat (rend s) \<in> runs_set rs" using s by (simp add: last)
  ultimately have "Max (runs_set rs) = unat (rend s)" by (intro Max_eqI) simp_all
  then show "Max (runs_set rs) = unat (rend (last rs))" by (simp add: last)
qed

lemma ok_no_bitset:
  assumes "\<not> holds_bitset h"
  shows "cardinality_ok h \<longleftrightarrow> \<not> cardinality_stale h \<and> cardinality h = card (values_of h)"
    "endpoints_ok h \<longleftrightarrow> \<not> endpoints_stale h \<and>
       (values_of h \<noteq> {} \<longrightarrow> unat (min_end h) = Min (values_of h) \<and> unat (max_end h) = Max (values_of h))"
  using assms by (simp_all add: cardinality_ok_def endpoints_ok_def)

lemma array_set_Min_Max:
  assumes "strict vs" "vs \<noteq> []"
  shows "Min (array_set vs) = unat (hd vs)" "Max (array_set vs) = unat (last vs)"
proof -
  have "strict (map unat vs)" "map unat vs \<noteq> []" "set (map unat vs) = array_set vs"
    using assms by (simp_all add: strict_map_unat array_set_def)
  then show "Min (array_set vs) = unat (hd vs)" "Max (array_set vs) = unat (last vs)"
    using strict_hd_Min [of "map unat vs"] strict_last_Max [of "map unat vs"] assms(2)
    by (simp_all add: hd_map last_map)
qed

lemma wf_container_array:
  assumes p: "payload h = Array_payload vs"
  shows "wf_container h \<longleftrightarrow>
    strict vs \<and> \<not> cardinality_stale h \<and> \<not> endpoints_stale h \<and> cardinality h = length vs \<and>
    (vs \<noteq> [] \<longrightarrow> min_end h = hd vs \<and> max_end h = last vs)"
proof (cases "strict vs")
  case True
  have "\<not> holds_bitset h" using p by simp
  note ok = ok_no_bitset [OF this]
  show ?thesis
  proof (cases "vs = []")
    case True
    then show ?thesis using p by (auto simp: wf_container_def ok)
  next
    case False
    note m = array_set_Min_Max [OF True False]
    show ?thesis unfolding wf_container_def ok
      using p True False by (auto simp: m card_array_set low_eq_iff)
  qed
qed (simp add: wf_container_def p)

lemma wf_container_run:
  assumes p: "payload h = Run_payload rs"
  shows "wf_container h \<longleftrightarrow>
    wf_runs rs \<and> \<not> cardinality_stale h \<and> \<not> endpoints_stale h \<and> cardinality h = card (runs_set rs) \<and>
    (rs \<noteq> [] \<longrightarrow> min_end h = rbegin (hd rs) \<and> max_end h = rend (last rs))"
proof (cases "wf_runs rs")
  case True
  have "\<not> holds_bitset h" using p by simp
  note ok = ok_no_bitset [OF this]
  show ?thesis
  proof (cases "rs = []")
    case True
    then show ?thesis using p by (auto simp: wf_container_def ok)
  next
    case False
    note m = runs_set_Min_Max [OF True False]
    show ?thesis unfolding wf_container_def ok
      using p True False by (auto simp: m low_eq_iff runs_set_empty_iff)
  qed
qed (simp add: wf_container_def p)

lemma wf_array_sync_header:
  assumes "payload h = Array_payload vs" "strict vs" "\<not> endpoints_stale h"
  shows "wf_container (array_sync_header h)"
  using assms by (subst wf_container_array [of _ vs])
    (simp_all add: array_sync_header_def Let_def set_cardinality_def set_endpoints_def)

lemma run_total: "fold (\<lambda>current total. total + (unat (rend current) - unat (rbegin current) + 1)) rs 0 = recalculate_cardinality rs"
  by (simp add: recalculate_cardinality_def)

lemma wf_run_sync_header:
  assumes "payload h = Run_payload rs" "wf_runs rs" "\<not> endpoints_stale h"
  shows "wf_container (run_sync_header h)"
proof -
  have "payload (run_sync_header h) = Run_payload rs" using assms(1) by simp
  moreover have "cardinality (run_sync_header h) = card (runs_set rs)"
    using recalculate_cardinality_card [OF assms(2)] assms(1)
    unfolding run_sync_header_def run_total
    by (cases "rs = []") (simp_all add: Let_def set_cardinality_def set_endpoints_def)
  ultimately show ?thesis
    using assms by (subst wf_container_run) (auto simp: run_sync_header_def Let_def set_cardinality_def set_endpoints_def)
qed

lemma make_array_from_sorted_correct [wf_results]:
  assumes "strict vs"
  shows "wf_container (make_array_from_sorted vs)" "values_of (make_array_from_sorted vs) = array_set vs"
    "payload (make_array_from_sorted vs) = Array_payload vs"
  unfolding make_array_from_sorted_def
  using assms by (auto intro!: wf_array_sync_header simp: make_array_def values_of_def)

lemma make_bitset_from_words_correct [wf_results]:
  assumes "length ws = 1024"
  shows "wf_container (make_bitset_from_words ws)" "values_of (make_bitset_from_words ws) = bits_set ws"
    "payload (make_bitset_from_words ws) = Bitset_payload ws"
proof -
  show p: "payload (make_bitset_from_words ws) = Bitset_payload ws"
    by (simp add: make_bitset_from_words_def make_bitset_uninitialized_def mark_endpoints_stale_def set_cardinality_def)
  then show "values_of (make_bitset_from_words ws) = bits_set ws" by simp
  show "wf_container (make_bitset_from_words ws)"
    using assms popcount_words_card [of ws] unfolding popcount_words_def
    by (subst wf_container_bitset [OF p])
      (simp add: make_bitset_from_words_def make_bitset_uninitialized_def mark_endpoints_stale_def set_cardinality_def)
qed

lemma empty_factories [wf_results]:
  "wf_container make_array" "values_of make_array = {}" "wf_container make_run" "values_of make_run = {}"
  "wf_container make_bitset_zeroed" "values_of make_bitset_zeroed = {}"
  by (simp_all add: make_array_def make_run_def make_bitset_zeroed_def make_bitset_uninitialized_def
      mark_endpoints_stale_def wf_container_def cardinality_ok_def endpoints_ok_def values_of_def
      holds_bitset_def kind_def)

lemma factory_forms [simp]:
  "holds_array make_array" "holds_run make_run" "holds_bitset make_bitset_zeroed"
  by (simp_all add: holds_array_def holds_run_def holds_bitset_def kind_def make_array_def make_run_def
      make_bitset_zeroed_def make_bitset_uninitialized_def mark_endpoints_stale_def)

end
