(* ===== verification/Arrays.thy ===== *)
theory Arrays
  imports Word_Blocks
begin

text \<open>
  The kernels on two sorted arrays (\<open>array_ops.hpp\<close>), in the portable build: the four hybrid scalar merges,
  the skewed intersection with its four-way binary search, the in-place forms, and the functions that choose
  among them. The read cursors \<open>i\<close> and \<open>j\<close> only move forward, so each is the unread suffix of its array; the
  values written so far are the list \<open>out\<close>.
\<close>

subsection \<open>One branchless step\<close>

definition advance_a :: "low list \<Rightarrow> low list \<Rightarrow> low list" where
  "advance_a xs ys = (if hd xs \<le> hd ys then tl xs else xs)"

definition advance_b :: "low list \<Rightarrow> low list \<Rightarrow> low list" where
  "advance_b xs ys = (if hd xs \<ge> hd ys then tl ys else ys)"

type_synonym merge_state = "low list \<times> low list \<times> low list"

definition merge_size :: "merge_state \<Rightarrow> nat" where
  "merge_size s = length (fst s) + length (fst (snd s))"

definition equal_blocks4 :: "low list \<Rightarrow> low list \<Rightarrow> bool" where
  "equal_blocks4 a b \<longleftrightarrow> take 4 a = take 4 b"

definition block_ready :: "low list \<Rightarrow> low list \<Rightarrow> bool" where
  "block_ready xs ys \<longleftrightarrow> 4 \<le> length xs \<and> 4 \<le> length ys"

lemma merge_size_advance_le: "merge_size (advance_a xs ys, advance_b xs ys, out') \<le> merge_size (xs, ys, out)"
  by (auto simp: merge_size_def advance_a_def advance_b_def)

lemma merge_size_advance_less:
  "xs \<noteq> [] \<Longrightarrow> ys \<noteq> [] \<Longrightarrow> merge_size (advance_a xs ys, advance_b xs ys, out') < merge_size (xs, ys, out)"
  by (cases xs; cases ys) (auto simp: merge_size_def advance_a_def advance_b_def)

lemma merge_size_steps:
  assumes "\<And>s. merge_size (step s) \<le> merge_size s"
  shows "merge_size ((step ^^ n) s) \<le> merge_size s"
  by (induction n) (auto intro: assms le_trans)

lemma merge_size_4:
  assumes "\<And>s. merge_size (step s) \<le> merge_size s" "merge_size (step s) < merge_size s"
  shows "merge_size ((step ^^ 4) s) < merge_size s"
proof -
  have "merge_size ((step ^^ 3) (step s)) \<le> merge_size (step s)"
    using assms(1) by (rule merge_size_steps)
  also have "(step ^^ 3) (step s) = (step ^^ 4) s"
    by (simp add: eval_nat_numeral)
  finally show ?thesis using assms(2) by simp
qed

subsection \<open>Intersection\<close>

definition intersect_step :: "merge_state \<Rightarrow> merge_state" where
  "intersect_step = (\<lambda>(xs, ys, out).
     (advance_a xs ys, advance_b xs ys, if hd xs = hd ys then out @ [hd xs] else out))"

lemma intersect_step_le: "merge_size (intersect_step s) \<le> merge_size s"
  by (cases s) (simp add: intersect_step_def merge_size_advance_le)

lemma intersect_step_less: "xs \<noteq> [] \<Longrightarrow> ys \<noteq> [] \<Longrightarrow> merge_size (intersect_step (xs, ys, out)) < merge_size (xs, ys, out)"
  by (simp add: intersect_step_def merge_size_advance_less)

function intersect_rest :: "merge_state \<Rightarrow> merge_state" where
  "intersect_rest (xs, ys, out) =
     (if xs \<noteq> [] \<and> ys \<noteq> [] then intersect_rest (intersect_step (xs, ys, out)) else (xs, ys, out))"
  by pat_completeness auto
termination
  by (relation "measure merge_size") (simp_all add: intersect_step_less)

function intersect_blocks :: "merge_state \<Rightarrow> merge_state" where
  "intersect_blocks (xs, ys, out) =
    (if block_ready xs ys then
       if xs ! 3 < ys ! 0 then intersect_blocks (drop 4 xs, ys, out)
       else if ys ! 3 < xs ! 0 then intersect_blocks (xs, drop 4 ys, out)
       else if equal_blocks4 xs ys then intersect_blocks (drop 4 xs, drop 4 ys, out @ take 4 xs)
       else intersect_blocks ((intersect_step ^^ 4) (xs, ys, out))
     else (xs, ys, out))"
  by pat_completeness auto
termination
proof (relation "measure merge_size", goal_cases)
  case (5 xs ys out)
  then have "merge_size (intersect_step (xs, ys, out)) < merge_size (xs, ys, out)"
    by (intro intersect_step_less) (auto simp: block_ready_def)
  then show ?case by (simp add: merge_size_4 intersect_step_le)
qed (auto simp: merge_size_def block_ready_def)

declare intersect_rest.simps [simp del] intersect_blocks.simps [simp del]

definition intersect_sorted_scalar :: "low list \<Rightarrow> low list \<Rightarrow> low list" where
  "intersect_sorted_scalar a b = (case intersect_rest (intersect_blocks (a, b, [])) of (xs, ys, out) \<Rightarrow> out)"

subsection \<open>Union\<close>

definition union_step :: "merge_state \<Rightarrow> merge_state" where
  "union_step = (\<lambda>(xs, ys, out).
     (advance_a xs ys, advance_b xs ys, out @ [if hd xs < hd ys then hd xs else hd ys]))"

lemma union_step_le: "merge_size (union_step s) \<le> merge_size s"
  by (cases s) (simp add: union_step_def merge_size_advance_le)

lemma union_step_less: "xs \<noteq> [] \<Longrightarrow> ys \<noteq> [] \<Longrightarrow> merge_size (union_step (xs, ys, out)) < merge_size (xs, ys, out)"
  by (simp add: union_step_def merge_size_advance_less)

function union_rest :: "merge_state \<Rightarrow> merge_state" where
  "union_rest (xs, ys, out) =
     (if xs \<noteq> [] \<and> ys \<noteq> [] then union_rest (union_step (xs, ys, out)) else (xs, ys, out))"
  by pat_completeness auto
termination
  by (relation "measure merge_size") (simp_all add: union_step_less)

function union_blocks :: "merge_state \<Rightarrow> merge_state" where
  "union_blocks (xs, ys, out) =
    (if block_ready xs ys then
       if xs ! 3 < ys ! 0 then union_blocks (drop 4 xs, ys, out @ take 4 xs)
       else if ys ! 3 < xs ! 0 then union_blocks (xs, drop 4 ys, out @ take 4 ys)
       else if equal_blocks4 xs ys then union_blocks (drop 4 xs, drop 4 ys, out @ take 4 xs)
       else union_blocks ((union_step ^^ 4) (xs, ys, out))
     else (xs, ys, out))"
  by pat_completeness auto
termination
proof (relation "measure merge_size", goal_cases)
  case (5 xs ys out)
  then have "merge_size (union_step (xs, ys, out)) < merge_size (xs, ys, out)"
    by (intro union_step_less) (auto simp: block_ready_def)
  then show ?case by (simp add: merge_size_4 union_step_le)
qed (auto simp: merge_size_def block_ready_def)

declare union_rest.simps [simp del] union_blocks.simps [simp del]

definition union_sorted_scalar :: "low list \<Rightarrow> low list \<Rightarrow> low list" where
  "union_sorted_scalar a b = (case union_rest (union_blocks (a, b, [])) of (xs, ys, out) \<Rightarrow> out @ xs @ ys)"

subsection \<open>Difference\<close>

definition difference_step :: "merge_state \<Rightarrow> merge_state" where
  "difference_step = (\<lambda>(xs, ys, out).
     (advance_a xs ys, advance_b xs ys, if hd xs < hd ys then out @ [hd xs] else out))"

lemma difference_step_le: "merge_size (difference_step s) \<le> merge_size s"
  by (cases s) (simp add: difference_step_def merge_size_advance_le)

lemma difference_step_less: "xs \<noteq> [] \<Longrightarrow> ys \<noteq> [] \<Longrightarrow> merge_size (difference_step (xs, ys, out)) < merge_size (xs, ys, out)"
  by (simp add: difference_step_def merge_size_advance_less)

function difference_rest :: "merge_state \<Rightarrow> merge_state" where
  "difference_rest (xs, ys, out) =
     (if xs \<noteq> [] \<and> ys \<noteq> [] then difference_rest (difference_step (xs, ys, out)) else (xs, ys, out))"
  by pat_completeness auto
termination
  by (relation "measure merge_size") (simp_all add: difference_step_less)

function difference_blocks :: "merge_state \<Rightarrow> merge_state" where
  "difference_blocks (xs, ys, out) =
    (if block_ready xs ys then
       if xs ! 3 < ys ! 0 then difference_blocks (drop 4 xs, ys, out @ take 4 xs)
       else if ys ! 3 < xs ! 0 then difference_blocks (xs, drop 4 ys, out)
       else if equal_blocks4 xs ys then difference_blocks (drop 4 xs, drop 4 ys, out)
       else difference_blocks ((difference_step ^^ 4) (xs, ys, out))
     else (xs, ys, out))"
  by pat_completeness auto
termination
proof (relation "measure merge_size", goal_cases)
  case (5 xs ys out)
  then have "merge_size (difference_step (xs, ys, out)) < merge_size (xs, ys, out)"
    by (intro difference_step_less) (auto simp: block_ready_def)
  then show ?case by (simp add: merge_size_4 difference_step_le)
qed (auto simp: merge_size_def block_ready_def)

declare difference_rest.simps [simp del] difference_blocks.simps [simp del]

definition difference_sorted_scalar :: "low list \<Rightarrow> low list \<Rightarrow> low list" where
  "difference_sorted_scalar a b = (case difference_rest (difference_blocks (a, b, [])) of (xs, ys, out) \<Rightarrow> out @ xs)"

subsection \<open>Symmetric difference\<close>

definition xor_step :: "merge_state \<Rightarrow> merge_state" where
  "xor_step = (\<lambda>(xs, ys, out).
     (advance_a xs ys, advance_b xs ys,
      if hd xs \<noteq> hd ys then out @ [if hd xs < hd ys then hd xs else hd ys] else out))"

lemma xor_step_le: "merge_size (xor_step s) \<le> merge_size s"
  by (cases s) (simp add: xor_step_def merge_size_advance_le)

lemma xor_step_less: "xs \<noteq> [] \<Longrightarrow> ys \<noteq> [] \<Longrightarrow> merge_size (xor_step (xs, ys, out)) < merge_size (xs, ys, out)"
  by (simp add: xor_step_def merge_size_advance_less)

function xor_rest :: "merge_state \<Rightarrow> merge_state" where
  "xor_rest (xs, ys, out) =
     (if xs \<noteq> [] \<and> ys \<noteq> [] then xor_rest (xor_step (xs, ys, out)) else (xs, ys, out))"
  by pat_completeness auto
termination
  by (relation "measure merge_size") (simp_all add: xor_step_less)

function xor_blocks :: "merge_state \<Rightarrow> merge_state" where
  "xor_blocks (xs, ys, out) =
    (if block_ready xs ys then
       if xs ! 3 < ys ! 0 then xor_blocks (drop 4 xs, ys, out @ take 4 xs)
       else if ys ! 3 < xs ! 0 then xor_blocks (xs, drop 4 ys, out @ take 4 ys)
       else if equal_blocks4 xs ys then xor_blocks (drop 4 xs, drop 4 ys, out)
       else xor_blocks ((xor_step ^^ 4) (xs, ys, out))
     else (xs, ys, out))"
  by pat_completeness auto
termination
proof (relation "measure merge_size", goal_cases)
  case (5 xs ys out)
  then have "merge_size (xor_step (xs, ys, out)) < merge_size (xs, ys, out)"
    by (intro xor_step_less) (auto simp: block_ready_def)
  then show ?case by (simp add: merge_size_4 xor_step_le)
qed (auto simp: merge_size_def block_ready_def)

declare xor_rest.simps [simp del] xor_blocks.simps [simp del]

definition xor_sorted_scalar :: "low list \<Rightarrow> low list \<Rightarrow> low list" where
  "xor_sorted_scalar a b = (case xor_rest (xor_blocks (a, b, [])) of (xs, ys, out) \<Rightarrow> out @ xs @ ys)"

subsection \<open>The abstract merge, and the interface of a merge kernel\<close>

text \<open>What a merge of two sorted arrays keeps: the values only the first has, those only the second has,
  and those both have.\<close>

fun merge_values :: "bool \<Rightarrow> bool \<Rightarrow> bool \<Rightarrow> low list \<Rightarrow> low list \<Rightarrow> low list" where
  "merge_values ka kb kab [] ys = (if kb then ys else [])"
| "merge_values ka kb kab (x # xs) [] = (if ka then x # xs else [])"
| "merge_values ka kb kab (x # xs) (y # ys) =
     (if x < y then (if ka then [x] else []) @ merge_values ka kb kab xs (y # ys)
      else if y < x then (if kb then [y] else []) @ merge_values ka kb kab (x # xs) ys
      else (if kab then [x] else []) @ merge_values ka kb kab xs ys)"

lemma merge_values_Nil2 [simp]: "merge_values ka kb kab xs [] = (if ka then xs else [])"
  by (cases xs) auto

lemma mem_merge_values:
  assumes "strict xs" "strict ys"
  shows "v \<in> set (merge_values ka kb kab xs ys) \<longleftrightarrow>
    (if v \<in> set xs then if v \<in> set ys then kab else ka else v \<in> set ys \<and> kb)"
  using assms
proof (induction ka kb kab xs ys rule: merge_values.induct)
  case (3 ka kb kab x xs y ys)
  have sorted: "strict xs" "strict ys" "\<forall>z\<in>set xs. x < z" "\<forall>z\<in>set ys. y < z"
    using "3.prems" by auto
  consider "x < y" | "y < x" | "x = y" by fastforce
  then show ?case
  proof cases
    case 1
    then have "x \<notin> set (y # ys)" "x \<notin> set xs" using sorted by fastforce+
    with 1 "3.IH"(1) [OF 1 sorted(1) "3.prems"(2)] show ?thesis by (cases "v = x") auto
  next
    case 2
    then have "y \<notin> set (x # xs)" "y \<notin> set ys" using sorted by fastforce+
    with 2 "3.IH"(2) [OF _ 2 "3.prems"(1) sorted(2)] show ?thesis by (cases "v = y") auto
  next
    case 3
    then have "x \<notin> set xs" "x \<notin> set ys" using sorted by fastforce+
    with 3 "3.IH"(3) [OF _ _ sorted(1,2)] show ?thesis by (cases "v = x") auto
  qed
qed auto

lemma merge_values_mem_le:
  "strict xs \<Longrightarrow> strict ys \<Longrightarrow> v \<in> set (merge_values ka kb kab xs ys) \<Longrightarrow> v \<in> set xs \<or> v \<in> set ys"
  by (simp add: mem_merge_values split: if_splits)

lemma strict_merge_values:
  assumes "strict xs" "strict ys"
  shows "strict (merge_values ka kb kab xs ys)"
  using assms
proof (induction ka kb kab xs ys rule: merge_values.induct)
  case (3 ka kb kab x xs y ys)
  have sorted: "strict xs" "strict ys" "\<forall>z\<in>set xs. x < z" "\<forall>z\<in>set ys. y < z"
    using "3.prems" by auto
  consider "x < y" | "y < x" | "x = y" by fastforce
  then show ?case
  proof cases
    case 1
    have "x < v" if "v \<in> set (merge_values ka kb kab xs (y # ys))" for v
      using merge_values_mem_le [OF sorted(1) "3.prems"(2) that] 1 sorted by auto
    with 1 "3.IH"(1) [OF 1 sorted(1) "3.prems"(2)] show ?thesis by (cases ka) auto
  next
    case 2
    have "y < v" if "v \<in> set (merge_values ka kb kab (x # xs) ys)" for v
      using merge_values_mem_le [OF "3.prems"(1) sorted(2) that] 2 sorted by auto
    with 2 "3.IH"(2) [OF _ 2 "3.prems"(1) sorted(2)] show ?thesis by (cases kb) auto
  next
    case 3
    have "x < v" if "v \<in> set (merge_values ka kb kab xs ys)" for v
      using merge_values_mem_le [OF sorted(1,2) that] 3 sorted by auto
    with 3 "3.IH"(3) [OF _ _ sorted(1,2)] show ?thesis by (cases kab) auto
  qed
qed auto

lemma merge_values_below_a:
  "\<forall>v\<in>set us. \<forall>w\<in>set ys. v < w \<Longrightarrow> ys \<noteq> [] \<Longrightarrow>
    merge_values ka kb kab (us @ xs) ys = (if ka then us else []) @ merge_values ka kb kab xs ys"
  by (induction us) (auto simp: neq_Nil_conv)

lemma merge_values_below_b:
  "\<forall>v\<in>set us. \<forall>w\<in>set xs. v < w \<Longrightarrow> xs \<noteq> [] \<Longrightarrow>
    merge_values ka kb kab xs (us @ ys) = (if kb then us else []) @ merge_values ka kb kab xs ys"
  by (induction us) (auto simp: neq_Nil_conv)

lemma merge_values_same:
  "merge_values ka kb kab (us @ xs) (us @ ys) = (if kab then us else []) @ merge_values ka kb kab xs ys"
  by (induction us) auto

lemma merge_values_advance:
  "xs \<noteq> [] \<Longrightarrow> ys \<noteq> [] \<Longrightarrow> merge_values ka kb kab xs ys =
    (if hd xs < hd ys then if ka then [hd xs] else [] else if hd ys < hd xs then if kb then [hd ys] else []
     else if kab then [hd xs] else []) @ merge_values ka kb kab (advance_a xs ys) (advance_b xs ys)"
  by (cases xs; cases ys) (auto simp: advance_a_def advance_b_def)

text \<open>A merge kernel is a loop over blocks of four followed by a loop over single values; what it does
  with a block and with a value depends on what it keeps.\<close>

locale merge_kernel =
  fixes step rest blocks :: "merge_state \<Rightarrow> merge_state"
    and ka kb kab :: bool
  assumes step: "step (xs, ys, out) = (advance_a xs ys, advance_b xs ys,
      out @ (if hd xs < hd ys then if ka then [hd xs] else [] else if hd ys < hd xs then if kb then [hd ys] else []
        else if kab then [hd xs] else []))"
    and rest: "rest (xs, ys, out) = (if xs \<noteq> [] \<and> ys \<noteq> [] then rest (step (xs, ys, out)) else (xs, ys, out))"
    and blocks: "blocks (xs, ys, out) =
      (if block_ready xs ys then
         if xs ! 3 < ys ! 0 then blocks (drop 4 xs, ys, out @ (if ka then take 4 xs else []))
         else if ys ! 3 < xs ! 0 then blocks (xs, drop 4 ys, out @ (if kb then take 4 ys else []))
         else if equal_blocks4 xs ys then blocks (drop 4 xs, drop 4 ys, out @ (if kab then take 4 xs else []))
         else blocks ((step ^^ 4) (xs, ys, out))
       else (xs, ys, out))"
begin

definition settled :: "merge_state \<Rightarrow> low list" where
  "settled s = (case s of (xs, ys, out) \<Rightarrow> out @ merge_values ka kb kab xs ys)"

definition ordered :: "merge_state \<Rightarrow> bool" where
  "ordered s = (case s of (xs, ys, out) \<Rightarrow> strict xs \<and> strict ys)"

lemma step_settled: "xs \<noteq> [] \<Longrightarrow> ys \<noteq> [] \<Longrightarrow> settled (step (xs, ys, out)) = settled (xs, ys, out)"
  by (simp add: settled_def step merge_values_advance [of xs ys])

lemma step_ordered: "ordered s \<Longrightarrow> ordered (step s)"
  by (cases s) (auto simp: ordered_def step advance_a_def advance_b_def)

lemma step_less:
  "xs \<noteq> [] \<Longrightarrow> ys \<noteq> [] \<Longrightarrow> merge_size (step (xs, ys, out)) < merge_size (xs, ys, out)"
  by (simp add: step merge_size_advance_less)

lemma step_le: "merge_size (step s) \<le> merge_size s"
  by (cases s) (simp add: step merge_size_advance_le)

lemma steps_settled:
  "n \<le> length xs \<Longrightarrow> n \<le> length ys \<Longrightarrow> settled ((step ^^ n) (xs, ys, out)) = settled (xs, ys, out)"
proof (induction n arbitrary: xs ys out)
  case (Suc n)
  have "(step ^^ Suc n) (xs, ys, out) = (step ^^ n) (step (xs, ys, out))"
    by (simp add: funpow_swap1)
  moreover have "n \<le> length (advance_a xs ys)" "n \<le> length (advance_b xs ys)"
    using Suc.prems by (auto simp: advance_a_def advance_b_def)
  ultimately have "settled ((step ^^ Suc n) (xs, ys, out)) = settled (step (xs, ys, out))"
    using Suc.IH by (simp add: step)
  also have "\<dots> = settled (xs, ys, out)"
    using Suc.prems by (intro step_settled) auto
  finally show ?case .
qed simp

lemma steps_ordered: "ordered s \<Longrightarrow> ordered ((step ^^ n) s)"
  by (induction n) (auto intro: step_ordered)

lemma rest_correct:
  "ordered s \<Longrightarrow> settled (rest s) = settled s \<and> ordered (rest s) \<and> (fst (rest s) = [] \<or> fst (snd (rest s)) = [])"
proof (induction "merge_size s" arbitrary: s rule: less_induct)
  case less
  obtain xs ys out where s: "s = (xs, ys, out)" by (cases s)
  show ?case
  proof (cases "xs \<noteq> [] \<and> ys \<noteq> []")
    case True
    then show ?thesis
      using less.hyps [of "step s"] step_less [of xs ys out] step_settled [of xs ys out]
        step_ordered [OF less.prems] rest [of xs ys out] by (simp add: s)
  qed (use less.prems in \<open>auto simp: s rest [of xs ys out]\<close>)
qed

lemma low_block:
  assumes "strict us" "strict vs" "4 \<le> length us" "vs \<noteq> []" "us ! 3 < vs ! 0"
  shows "\<forall>v\<in>set (take 4 us). \<forall>w\<in>set vs. v < w"
proof (intro ballI)
  fix v w assume "v \<in> set (take 4 us)" "w \<in> set vs"
  then obtain i j where i: "i < 4" "i < length us" "v = us ! i" and j: "j < length vs" "w = vs ! j"
    by (auto simp: in_set_conv_nth)
  have "v \<le> us ! 3" unfolding i(3) using assms i by (intro strict_nth_mono) auto
  also have "us ! 3 < vs ! 0" by fact
  also have "vs ! 0 \<le> w" unfolding j(2) using assms j by (intro strict_nth_mono) auto
  finally show "v < w" .
qed

lemma blocks_correct:
  "ordered s \<Longrightarrow> settled (blocks s) = settled s \<and> ordered (blocks s)"
proof (induction "merge_size s" arbitrary: s rule: less_induct)
  case less
  obtain xs ys out where s: "s = (xs, ys, out)" by (cases s)
  have sorted: "strict xs" "strict ys" using less.prems by (auto simp: s ordered_def)
  show ?case
  proof (cases "block_ready xs ys")
    case False
    then show ?thesis using less.prems by (simp add: s blocks [of xs ys out])
  next
    case True
    then have len: "4 \<le> length xs" "4 \<le> length ys" by (simp_all add: block_ready_def)
    then have ne: "xs \<noteq> []" "ys \<noteq> []" by auto
    consider (a) "xs ! 3 < ys ! 0" | (b) "\<not> xs ! 3 < ys ! 0" "ys ! 3 < xs ! 0"
      | (eq) "\<not> xs ! 3 < ys ! 0" "\<not> ys ! 3 < xs ! 0" "equal_blocks4 xs ys"
      | (steps) "\<not> xs ! 3 < ys ! 0" "\<not> ys ! 3 < xs ! 0" "\<not> equal_blocks4 xs ys" by blast
    then show ?thesis
    proof cases
      case a
      let ?s = "(drop 4 xs, ys, out @ (if ka then take 4 xs else []))"
      have "merge_values ka kb kab (take 4 xs @ drop 4 xs) ys =
          (if ka then take 4 xs else []) @ merge_values ka kb kab (drop 4 xs) ys"
        using low_block [OF sorted len(1) ne(2) a] ne(2) by (rule merge_values_below_a)
      then have "settled ?s = settled s" by (simp add: settled_def s)
      moreover have "merge_size ?s < merge_size s" "ordered ?s"
        using len sorted by (auto simp: merge_size_def s ordered_def)
      ultimately show ?thesis
        using less.hyps [of ?s] True a blocks [of xs ys out] by (simp add: s)
    next
      case b
      let ?s = "(xs, drop 4 ys, out @ (if kb then take 4 ys else []))"
      have "merge_values ka kb kab xs (take 4 ys @ drop 4 ys) =
          (if kb then take 4 ys else []) @ merge_values ka kb kab xs (drop 4 ys)"
        using low_block [OF sorted(2,1) len(2) ne(1) b(2)] ne(1) by (rule merge_values_below_b)
      then have "settled ?s = settled s" by (simp add: settled_def s)
      moreover have "merge_size ?s < merge_size s" "ordered ?s"
        using len sorted by (auto simp: merge_size_def s ordered_def)
      ultimately show ?thesis
        using less.hyps [of ?s] True b blocks [of xs ys out] by (simp add: s)
    next
      case eq
      let ?s = "(drop 4 xs, drop 4 ys, out @ (if kab then take 4 xs else []))"
      have "merge_values ka kb kab (take 4 xs @ drop 4 xs) (take 4 xs @ drop 4 ys) =
          (if kab then take 4 xs else []) @ merge_values ka kb kab (drop 4 xs) (drop 4 ys)"
        by (rule merge_values_same)
      moreover have "take 4 xs @ drop 4 ys = ys"
        using eq(3) by (simp add: equal_blocks4_def)
      ultimately have "settled ?s = settled s" by (simp add: settled_def s)
      moreover have "merge_size ?s < merge_size s" "ordered ?s"
        using len sorted by (auto simp: merge_size_def s ordered_def)
      ultimately show ?thesis
        using less.hyps [of ?s] True eq blocks [of xs ys out] by (simp add: s)
    next
      case steps
      let ?s = "(step ^^ 4) (xs, ys, out)"
      have "merge_size ?s < merge_size s"
        unfolding s using step_le step_less [OF ne] by (rule merge_size_4)
      then show ?thesis
        using less.hyps [of ?s] True steps blocks [of xs ys out] steps_settled [OF len, of out]
          steps_ordered [OF less.prems, of 4] by (simp add: s)
    qed
  qed
qed

lemma kernel_correct:
  assumes "strict a" "strict b" "rest (blocks (a, b, [])) = (xs, ys, out)"
  shows "out @ (if ka then xs else []) @ (if kb then ys else []) = merge_values ka kb kab a b"
proof -
  have s: "ordered (a, b, [])" using assms by (simp add: ordered_def)
  note * = rest_correct [OF blocks_correct [OF s, THEN conjunct2]] blocks_correct [OF s]
  then have "settled (xs, ys, out) = settled (a, b, [])" "xs = [] \<or> ys = []"
    using assms(3) by auto
  then show ?thesis by (auto simp: settled_def)
qed

end

interpretation intersect: merge_kernel intersect_step intersect_rest intersect_blocks False False True
proof (unfold_locales, goal_cases)
  case (1 xs ys out)
  show ?case by (auto simp: intersect_step_def)
next
  case (2 xs ys out)
  show ?case by (rule intersect_rest.simps)
next
  case (3 xs ys out)
  show ?case by (subst intersect_blocks.simps) simp
qed

interpretation union: merge_kernel union_step union_rest union_blocks True True True
proof (unfold_locales, goal_cases)
  case (1 xs ys out)
  show ?case by (auto simp: union_step_def)
next
  case (2 xs ys out)
  show ?case by (rule union_rest.simps)
next
  case (3 xs ys out)
  show ?case by (subst union_blocks.simps) simp
qed

interpretation difference: merge_kernel difference_step difference_rest difference_blocks True False False
proof (unfold_locales, goal_cases)
  case (1 xs ys out)
  show ?case by (auto simp: difference_step_def)
next
  case (2 xs ys out)
  show ?case by (rule difference_rest.simps)
next
  case (3 xs ys out)
  show ?case by (subst difference_blocks.simps) simp
qed

interpretation xor: merge_kernel xor_step xor_rest xor_blocks True True False
proof (unfold_locales, goal_cases)
  case (1 xs ys out)
  show ?case by (auto simp: xor_step_def)
next
  case (2 xs ys out)
  show ?case by (rule xor_rest.simps)
next
  case (3 xs ys out)
  show ?case by (subst xor_blocks.simps) simp
qed

lemma intersect_sorted_scalar_merge:
  "strict a \<Longrightarrow> strict b \<Longrightarrow> intersect_sorted_scalar a b = merge_values False False True a b"
  using intersect.kernel_correct [of a b]
  by (cases "intersect_rest (intersect_blocks (a, b, []))") (simp add: intersect_sorted_scalar_def)

lemma union_sorted_scalar_merge:
  "strict a \<Longrightarrow> strict b \<Longrightarrow> union_sorted_scalar a b = merge_values True True True a b"
  using union.kernel_correct [of a b]
  by (cases "union_rest (union_blocks (a, b, []))") (simp add: union_sorted_scalar_def)

lemma difference_sorted_scalar_merge:
  "strict a \<Longrightarrow> strict b \<Longrightarrow> difference_sorted_scalar a b = merge_values True False False a b"
  using difference.kernel_correct [of a b]
  by (cases "difference_rest (difference_blocks (a, b, []))") (simp add: difference_sorted_scalar_def)

lemma xor_sorted_scalar_merge:
  "strict a \<Longrightarrow> strict b \<Longrightarrow> xor_sorted_scalar a b = merge_values True True False a b"
  using xor.kernel_correct [of a b]
  by (cases "xor_rest (xor_blocks (a, b, []))") (simp add: xor_sorted_scalar_def)

lemma strict_scalar_merges [wf_results]:
  assumes "strict a" "strict b"
  shows "strict (intersect_sorted_scalar a b)" "strict (union_sorted_scalar a b)"
    "strict (difference_sorted_scalar a b)" "strict (xor_sorted_scalar a b)"
  using assms by (simp_all add: intersect_sorted_scalar_merge union_sorted_scalar_merge
    difference_sorted_scalar_merge xor_sorted_scalar_merge strict_merge_values)

lemma mem_scalar_merges:
  assumes "strict a" "strict b"
  shows "v \<in> set (intersect_sorted_scalar a b) \<longleftrightarrow> v \<in> set a \<and> v \<in> set b"
    "v \<in> set (union_sorted_scalar a b) \<longleftrightarrow> v \<in> set a \<or> v \<in> set b"
    "v \<in> set (difference_sorted_scalar a b) \<longleftrightarrow> v \<in> set a \<and> v \<notin> set b"
    "v \<in> set (xor_sorted_scalar a b) \<longleftrightarrow> (v \<in> set a) \<noteq> (v \<in> set b)"
  using assms by (simp_all add: intersect_sorted_scalar_merge union_sorted_scalar_merge
    difference_sorted_scalar_merge xor_sorted_scalar_merge mem_merge_values)

lemma array_set_eqI: "(\<And>v. v \<in> set xs \<longleftrightarrow> unat v \<in> S) \<Longrightarrow> (\<And>n. n \<in> S \<Longrightarrow> n < 65536) \<Longrightarrow> array_set xs = S"
  by (auto simp: array_set_def image_iff) (metis unat_to_low)

lemma array_set_scalar_merges [value_sets]:
  assumes "strict a" "strict b"
  shows "array_set (intersect_sorted_scalar a b) = array_set a \<inter> array_set b"
    "array_set (union_sorted_scalar a b) = array_set a \<union> array_set b"
    "array_set (difference_sorted_scalar a b) = array_set a - array_set b"
    "array_set (xor_sorted_scalar a b) = sym_diff (array_set a) (array_set b)"
  by (rule array_set_eqI; use assms in \<open>auto simp: mem_scalar_merges dest: array_set_bound\<close>)+

subsection \<open>The skewed intersection\<close>

text \<open>Four interleaved halving chains; \<open>base\<close> pointers are offsets from \<open>array\<close>.\<close>

definition halve :: "low list \<Rightarrow> low \<Rightarrow> nat \<Rightarrow> nat \<Rightarrow> nat" where
  "halve array k half base = (if array ! (base + half) < k then base + half else base)"

function search_4way_loop ::
  "low list \<Rightarrow> low \<Rightarrow> low \<Rightarrow> low \<Rightarrow> low \<Rightarrow> nat \<Rightarrow> nat \<times> nat \<times> nat \<times> nat \<Rightarrow> nat \<times> nat \<times> nat \<times> nat"
where
  "search_4way_loop array k0 k1 k2 k3 n (base0, base1, base2, base3) =
    (if n > 1
     then let half = n div 2
          in search_4way_loop array k0 k1 k2 k3 (n - half)
               (halve array k0 half base0, halve array k1 half base1,
                halve array k2 half base2, halve array k3 half base3)
     else (base0, base1, base2, base3))"
  by pat_completeness auto
termination
  by (relation "measure (\<lambda>(array, k0, k1, k2, k3, n, bs). n)") auto

declare search_4way_loop.simps [simp del]

definition binary_search_4way ::
  "low list \<Rightarrow> low \<Rightarrow> low \<Rightarrow> low \<Rightarrow> low \<Rightarrow> nat \<times> nat \<times> nat \<times> nat"
where
  "binary_search_4way array k0 k1 k2 k3 =
    (if array = [] then (0, 0, 0, 0)
     else case search_4way_loop array k0 k1 k2 k3 (length array) (0, 0, 0, 0) of
       (base0, base1, base2, base3) \<Rightarrow>
         (base0 + of_bool (array ! base0 < k0), base1 + of_bool (array ! base1 < k1),
          base2 + of_bool (array ! base2 < k2), base3 + of_bool (array ! base3 < k3)))"

definition matches_at :: "low list \<Rightarrow> nat \<Rightarrow> low \<Rightarrow> bool" where
  "matches_at window r k \<longleftrightarrow> r < length window \<and> window ! r = k"

function skewed_blocks :: "low list \<times> low list \<times> low list \<Rightarrow> low list \<times> low list \<times> low list" where
  "skewed_blocks (small, window, out) =
    (if 4 \<le> length small \<and> window \<noteq> []
     then let k0 = small ! 0; k1 = small ! 1; k2 = small ! 2; k3 = small ! 3
          in case binary_search_4way window k0 k1 k2 k3 of (r0, r1, r2, r3) \<Rightarrow>
               skewed_blocks
                 (drop 4 small,
                  drop (r3 + of_bool (matches_at window r3 k3)) window,
                  out @ (if matches_at window r0 k0 then [k0] else [])
                      @ (if matches_at window r1 k1 then [k1] else [])
                      @ (if matches_at window r2 k2 then [k2] else [])
                      @ (if matches_at window r3 k3 then [k3] else []))
     else (small, window, out))"
  by pat_completeness auto
termination
  by (relation "measure (\<lambda>(small, window, out). length small)") auto

fun skewed_rest :: "low list \<times> low list \<times> low list \<Rightarrow> low list" where
  "skewed_rest ([], window, out) = out"
| "skewed_rest (value_s # small, window, out) =
    (if window \<noteq> []
     then let window = drop (lower_bound window value_s) window
          in if window \<noteq> [] \<and> hd window = value_s
             then skewed_rest (small, tl window, out @ [value_s])
             else skewed_rest (small, window, out)
     else out)"

declare skewed_blocks.simps [simp del]

definition intersect_array_array_skewed :: "low list \<Rightarrow> low list \<Rightarrow> low list" where
  "intersect_array_array_skewed small large = skewed_rest (skewed_blocks (small, large, []))"

text \<open>One halving chain ends at the last position whose value is below the key, or at the first one.\<close>

fun halving :: "low list \<Rightarrow> low \<Rightarrow> nat \<Rightarrow> nat \<Rightarrow> nat" where
  "halving array k n base =
    (if n > 1 then halving array k (n - n div 2) (halve array k (n div 2) base) else base)"

declare halving.simps [simp del]

lemma search_4way_loop_chains:
  "search_4way_loop array k0 k1 k2 k3 n (b0, b1, b2, b3) =
    (halving array k0 n b0, halving array k1 n b1, halving array k2 n b2, halving array k3 n b3)"
proof (induction n arbitrary: b0 b1 b2 b3 rule: less_induct)
  case (less n)
  then show ?case
    by (simp add: search_4way_loop.simps [of array k0 k1 k2 k3 n] halving.simps [of array _ n] Let_def)
qed

lemma halving_correct:
  assumes "strict array" "0 < n" "base + n \<le> length array"
    and "\<forall>i<base. array ! i < k" "\<forall>i<length array. base + n \<le> i \<longrightarrow> k \<le> array ! i"
  shows "halving array k n base + of_bool (array ! halving array k n base < k) = lower_bound array k"
  using assms(2-)
proof (induction n arbitrary: base rule: less_induct)
  case (less n)
  show ?case
  proof (cases "n > 1")
    case False
    with less.prems have n: "n = 1" by simp
    have "lower_bound array k = base + of_bool (array ! base < k)"
      unfolding lower_bound_def
    proof (rule partition_point_unique)
      show "base + of_bool (array ! base < k) \<le> length array" using less.prems n by auto
      show "\<forall>i<base + of_bool (array ! base < k). array ! i < k"
        using less.prems by (auto simp: less_Suc_eq)
      show "\<not> array ! (base + of_bool (array ! base < k)) < k"
        if "base + of_bool (array ! base < k) < length array"
        using less.prems that n by (cases "array ! base < k") (auto simp: not_less)
    qed
    moreover have "halving array k n base = base"
      using False by (simp add: halving.simps [of array k n])
    ultimately show ?thesis by simp
  next
    case True
    let ?h = "n div 2"
    have h: "0 < ?h" "?h < n" "n - ?h < n" "0 < n - ?h" using True by auto
    have "halving array k (n - ?h) (halve array k ?h base)
        + of_bool (array ! halving array k (n - ?h) (halve array k ?h base) < k) = lower_bound array k"
    proof (rule less.IH)
      show "halve array k ?h base + (n - ?h) \<le> length array"
        using less.prems h by (auto simp: halve_def)
      show "\<forall>i<halve array k ?h base. array ! i < k"
      proof (intro allI impI)
        fix i assume i: "i < halve array k ?h base"
        show "array ! i < k"
        proof (cases "array ! (base + ?h) < k")
          case True
          then have "array ! i < array ! (base + ?h)"
            using i less.prems h assms(1) by (intro strict_nth_less) (auto simp: halve_def)
          with True show ?thesis by simp
        qed (use i less.prems in \<open>simp add: halve_def\<close>)
      qed
      show "\<forall>i<length array. halve array k ?h base + (n - ?h) \<le> i \<longrightarrow> k \<le> array ! i"
      proof (intro allI impI)
        fix i assume i: "i < length array" "halve array k ?h base + (n - ?h) \<le> i"
        show "k \<le> array ! i"
        proof (cases "array ! (base + ?h) < k")
          case False
          then have "base + ?h \<le> i" using i by (simp add: halve_def)
          then have "array ! (base + ?h) \<le> array ! i" using assms(1) i by (intro strict_nth_mono) auto
          with False show ?thesis by simp
        qed (use i less.prems h in \<open>simp add: halve_def\<close>)
      qed
    qed (use h in auto)
    with True show ?thesis by (simp add: halving.simps [of array k n])
  qed
qed

lemma binary_search_4way_lower_bounds:
  assumes "strict array"
  shows "binary_search_4way array k0 k1 k2 k3 =
    (lower_bound array k0, lower_bound array k1, lower_bound array k2, lower_bound array k3)"
proof (cases "array = []")
  case True
  then show ?thesis by (simp add: binary_search_4way_def lower_bound_def partition_point_def)
next
  case False
  then show ?thesis
    using halving_correct [OF assms, of "length array" 0]
    by (simp add: binary_search_4way_def search_4way_loop_chains)
qed

lemma matches_at_lower_bound: "strict window \<Longrightarrow> matches_at window (lower_bound window k) k \<longleftrightarrow> k \<in> set window"
  by (simp add: matches_at_def lower_bound_mem)

text \<open>The part of the large array that a search passes holds nothing above the key.\<close>

lemma mem_after_search:
  assumes "strict window" "k < x"
  shows "x \<in> set (drop (lower_bound window k + of_bool (matches_at window (lower_bound window k) k)) window)
    \<longleftrightarrow> x \<in> set window"
proof -
  let ?n = "lower_bound window k + of_bool (matches_at window (lower_bound window k) k)"
  have "x \<notin> set (take ?n window)"
  proof
    assume "x \<in> set (take ?n window)"
    then obtain i where i: "i < ?n" "i < length window" "x = window ! i"
      by (auto simp: in_set_conv_nth)
    show False
    proof (cases "i < lower_bound window k")
      case True
      then show False using partition_point_before [of i "\<lambda>x. x < k" window] i assms(2)
        by (simp add: lower_bound_def)
    next
      case False
      with i have "matches_at window (lower_bound window k) k" "i = lower_bound window k"
        by (auto split: if_splits simp: of_bool_def)
      with i assms(2) show False by (simp add: matches_at_def)
    qed
  qed
  then show ?thesis by (metis Un_iff append_take_drop_id set_append)
qed

lemma filter_mem_cong: "(\<And>x. x \<in> set xs \<Longrightarrow> x \<in> A \<longleftrightarrow> x \<in> B) \<Longrightarrow> filter (\<lambda>x. x \<in> A) xs = filter (\<lambda>x. x \<in> B) xs"
  by (rule filter_cong) auto

lemma skewed_rest_correct:
  "strict small \<Longrightarrow> strict window \<Longrightarrow>
    skewed_rest (small, window, out) = out @ filter (\<lambda>v. v \<in> set window) small"
proof (induction "(small, window, out)" arbitrary: small window out rule: skewed_rest.induct)
  case (2 v small window out)
  show ?case
  proof (cases "window = []")
    case False
    let ?n = "lower_bound window v" and ?w = "drop (lower_bound window v) window"
    have hd: "?w \<noteq> [] \<and> hd ?w = v \<longleftrightarrow> v \<in> set window"
      using lower_bound_mem [OF "2.prems"(2), of v] by (auto simp: hd_drop_conv_nth)
    have rest: "filter (\<lambda>x. x \<in> set (if v \<in> set window then tl ?w else ?w)) small = filter (\<lambda>x. x \<in> set window) small"
    proof (rule filter_mem_cong)
      fix x assume "x \<in> set small"
      then have "v < x" using "2.prems"(1) by simp
      from mem_after_search [OF "2.prems"(2) this]
      show "x \<in> set (if v \<in> set window then tl ?w else ?w) \<longleftrightarrow> x \<in> set window"
        using matches_at_lower_bound [OF "2.prems"(2), of v]
        by (cases "v \<in> set window") (simp_all add: tl_drop drop_Suc)
    qed
    show ?thesis
    proof (cases "v \<in> set window")
      case True
      with hd have "?w \<noteq> [] \<and> hd ?w = v" by blast
      with True False rest "2.hyps"(1) [OF False refl] "2.prems" show ?thesis by (simp add: Let_def)
    next
      case notin: False
      with hd have stop: "\<not> (?w \<noteq> [] \<and> hd ?w = v)" by blast
      then have "skewed_rest (v # small, window, out) = skewed_rest (small, ?w, out)"
        unfolding skewed_rest.simps Let_def if_not_P [OF stop] using False by simp
      with notin rest "2.hyps"(2) [OF False refl stop] "2.prems" show ?thesis by simp
    qed
  qed simp
qed simp

lemma skewed_blocks_correct:
  "strict small \<Longrightarrow> strict window \<Longrightarrow> skewed_blocks (small, window, out) = (small', window', out') \<Longrightarrow>
    strict small' \<and> strict window' \<and>
    out' @ filter (\<lambda>v. v \<in> set window') small' = out @ filter (\<lambda>v. v \<in> set window) small"
proof (induction "length small" arbitrary: small window out rule: less_induct)
  case less
  show ?case
  proof (cases "4 \<le> length small \<and> window \<noteq> []")
    case False
    then show ?thesis using less.prems by (auto simp: skewed_blocks.simps [of small])
  next
    case True
    then obtain k0 k1 k2 k3 rest where small: "small = k0 # k1 # k2 # k3 # rest"
      by (auto simp: numeral_eq_Suc Suc_le_length_iff)
    let ?d = "lower_bound window k3 + of_bool (matches_at window (lower_bound window k3) k3)"
    let ?out = "out @ filter (\<lambda>v. v \<in> set window) [k0, k1, k2, k3]"
    have sorted: "strict rest" "strict (drop ?d window)" "\<forall>x\<in>set rest. k3 < x"
      using less.prems by (auto simp: small)
    have step: "skewed_blocks (small, window, out) = skewed_blocks (rest, drop ?d window, ?out)"
      using True less.prems(2) unfolding small skewed_blocks.simps [of "k0 # k1 # k2 # k3 # rest"]
      by (simp add: binary_search_4way_lower_bounds matches_at_lower_bound Let_def)
    have "filter (\<lambda>v. v \<in> set (drop ?d window)) rest = filter (\<lambda>v. v \<in> set window) rest"
      using mem_after_search [OF less.prems(2)] sorted(3) by (intro filter_mem_cong) blast
    moreover have "length rest < length small" by (simp add: small)
    ultimately show ?thesis
      using less.hyps [of rest "drop ?d window" ?out] sorted(1,2) less.prems(3) unfolding step
      by (simp add: small)
  qed
qed

lemma intersect_array_array_skewed_filter:
  assumes "strict small" "strict large"
  shows "intersect_array_array_skewed small large = filter (\<lambda>v. v \<in> set large) small"
proof -
  obtain s w out where eq: "skewed_blocks (small, large, []) = (s, w, out)" by (cases "skewed_blocks (small, large, [])")
  from skewed_blocks_correct [OF assms eq] show ?thesis
    by (simp add: intersect_array_array_skewed_def eq skewed_rest_correct)
qed

subsection \<open>Choosing a kernel\<close>

definition kSkewedIntersectRatioThreshold :: nat where
  "kSkewedIntersectRatioThreshold = 64"

text \<open>An exclusive-or goes through \<open>xor_array_array_to_vector\<close>: the last arm asserts a difference.\<close>

definition combine_array_array :: "low list \<Rightarrow> low list \<Rightarrow> set_operation \<Rightarrow> low list" where
  "combine_array_array lhs rhs op =
    (if op = Bit_or then union_sorted_scalar lhs rhs
     else if op = Bit_and then
       (let sa = length lhs; sb = length rhs; lo = min sa sb; hi = max sa sb
        in if lo * kSkewedIntersectRatioThreshold < hi then
             (if sa \<le> sb then intersect_array_array_skewed lhs rhs
              else intersect_array_array_skewed rhs lhs)
           else intersect_sorted_scalar lhs rhs)
     else difference_sorted_scalar lhs rhs)"

definition union_array_array_to_vector :: "low list \<Rightarrow> low list \<Rightarrow> low list" where
  "union_array_array_to_vector lhs rhs = union_sorted_scalar lhs rhs"

definition difference_array_array_to_vector :: "low list \<Rightarrow> low list \<Rightarrow> low list" where
  "difference_array_array_to_vector lhs rhs = difference_sorted_scalar lhs rhs"

definition xor_array_array_to_vector :: "low list \<Rightarrow> low list \<Rightarrow> low list" where
  "xor_array_array_to_vector lhs rhs = xor_sorted_scalar lhs rhs"

lemma array_set_filter_mem: "array_set (filter (\<lambda>v. v \<in> set ys) xs) = array_set xs \<inter> array_set ys"
  by (auto simp: array_set_def image_iff) (metis low_eq_iff)

lemma combine_array_array_correct:
  assumes "strict lhs" "strict rhs" "op \<noteq> Bit_xor"
  shows "strict (combine_array_array lhs rhs op)"
    "array_set (combine_array_array lhs rhs op) = set_op op (array_set lhs) (array_set rhs)"
proof -
  have "strict (combine_array_array lhs rhs op) \<and>
    array_set (combine_array_array lhs rhs op) = set_op op (array_set lhs) (array_set rhs)"
  proof (cases op)
    case Bit_and
    then show ?thesis
      using assms by (simp add: combine_array_array_def intersect_array_array_skewed_filter Int_commute
        array_set_filter_mem strict_scalar_merges array_set_scalar_merges set_op_def Let_def)
  qed (use assms in \<open>simp_all add: combine_array_array_def strict_scalar_merges array_set_scalar_merges set_op_def\<close>)
  then show "strict (combine_array_array lhs rhs op)"
    "array_set (combine_array_array lhs rhs op) = set_op op (array_set lhs) (array_set rhs)" by blast+
qed

lemma to_vector_correct [wf_results]:
  assumes "strict lhs" "strict rhs"
  shows "strict (union_array_array_to_vector lhs rhs)" "strict (difference_array_array_to_vector lhs rhs)"
    "strict (xor_array_array_to_vector lhs rhs)"
  using assms by (simp_all add: union_array_array_to_vector_def difference_array_array_to_vector_def
      xor_array_array_to_vector_def wf_results)

lemma array_set_to_vector [value_sets]:
  assumes "strict lhs" "strict rhs"
  shows "array_set (union_array_array_to_vector lhs rhs) = array_set lhs \<union> array_set rhs"
    "array_set (difference_array_array_to_vector lhs rhs) = array_set lhs - array_set rhs"
    "array_set (xor_array_array_to_vector lhs rhs) = sym_diff (array_set lhs) (array_set rhs)"
  using assms by (simp_all add: union_array_array_to_vector_def difference_array_array_to_vector_def
      xor_array_array_to_vector_def value_sets)

end
