(* ===== verification/Arrays_Inplace.thy ===== *)
theory Arrays_Inplace
  imports Arrays
begin

text \<open>
  The in-place forms of the array kernels (\<open>array_ops.hpp\<close>). The left array's payload is one buffer that
  is read and written through cursors; the lemmas show that no write reaches a value that is still to be
  read, so that each in-place form leaves what the kernel into a fresh buffer writes.
\<close>

subsection \<open>Union, backwards\<close>

function union_backwards :: "low list \<Rightarrow> low list \<times> nat \<times> nat \<times> nat \<Rightarrow> low list \<times> nat \<times> nat \<times> nat" where
  "union_backwards b (a, i, j, k) =
    (if i > 0 \<and> j > 0 then
       if a ! (i - 1) > b ! (j - 1) then union_backwards b (a[k - 1 := a ! (i - 1)], i - 1, j, k - 1)
       else if b ! (j - 1) > a ! (i - 1) then union_backwards b (a[k - 1 := b ! (j - 1)], i, j - 1, k - 1)
       else union_backwards b (a[k - 1 := a ! (i - 1)], i - 1, j - 1, k - 1)
     else (a, i, j, k))"
  by pat_completeness auto
termination
  by (relation "measure (\<lambda>(b, a, i, j, k). i + j)") auto

declare union_backwards.simps [simp del]

fun copy_backwards :: "low list \<Rightarrow> low list \<Rightarrow> nat \<Rightarrow> nat \<Rightarrow> low list \<times> nat" where
  "copy_backwards b a 0 k = (a, k)"
| "copy_backwards b a (Suc j) k = copy_backwards b (a[k - 1 := b ! j]) j (k - 1)"

text \<open>\<open>fresh\<close> are the slots that \<open>resize_uninitialized\<close> adds; \<open>same_buffer\<close> is the test of the two data
  pointers for a self-union.\<close>

definition union_array_array_inplace :: "bool \<Rightarrow> low list \<Rightarrow> low list \<Rightarrow> low list \<Rightarrow> low list" where
  "union_array_array_inplace same_buffer fresh lhs rhs =
    (let la = length lhs; lb = length rhs; total = la + lb
     in if same_buffer then lhs
        else case union_backwards rhs (lhs @ fresh, la, lb, total) of (a, i, j, k) \<Rightarrow>
          (case copy_backwards rhs a j k of (a, k) \<Rightarrow>
             let a = (if k \<noteq> i then memmove a i k (total - k) else a)
             in take (i + (total - k)) a))"

definition union_inv :: "low list \<Rightarrow> low list \<Rightarrow> low list \<times> nat \<times> nat \<times> nat \<Rightarrow> bool" where
  "union_inv lhs b s = (case s of (a, i, j, k) \<Rightarrow>
     length a = length lhs + length b \<and> i \<le> length lhs \<and> j \<le> length b \<and> i + j \<le> k \<and> k \<le> length a \<and>
     take i a = take i lhs \<and> strict (take i lhs @ drop k a) \<and> strict (take j b @ drop k a) \<and>
     set (take i lhs) \<union> set (take j b) \<union> set (drop k a) = set lhs \<union> set b)"

lemma take_pred: "0 < i \<Longrightarrow> i \<le> length xs \<Longrightarrow> take i xs = take (i - 1) xs @ [xs ! (i - 1)]"
  by (metis One_nat_def Suc_pred diff_less less_le_trans take_Suc_conv_app_nth zero_less_one)

lemma drop_pred_update: "0 < k \<Longrightarrow> k \<le> length a \<Longrightarrow> drop (k - 1) (a[k - 1 := x]) = x # drop k a"
  by (cases k) (simp_all add: Cons_nth_drop_Suc [symmetric] drop_update_before)

lemma strict_take_last:
  assumes "strict (take i xs @ D)" "0 < i" "i \<le> length xs"
  shows "strict (take (i - 1) xs @ xs ! (i - 1) # D)" "\<forall>v\<in>set (take i xs). v \<le> xs ! (i - 1)"
    "\<forall>v\<in>set D. xs ! (i - 1) < v"
  using assms(1) unfolding take_pred [OF assms(2,3)] by (auto simp: sorted_wrt_append)

lemma strict_insert_between:
  "strict (us @ D) \<Longrightarrow> \<forall>v\<in>set us. v < x \<Longrightarrow> \<forall>v\<in>set D. x < v \<Longrightarrow> strict (us @ x # D)"
  by (simp add: sorted_wrt_append)

lemma union_inv_write:
  assumes "union_inv lhs b (a, i, j, k)" "0 < k"
    and "i' \<le> i" "j' \<le> j" "i' + j' \<le> k - 1"
    and "strict (take i' lhs @ x # drop k a)" "strict (take j' b @ x # drop k a)"
    and "set (take i' lhs) \<union> set (take j' b) \<union> insert x (set (drop k a)) = set lhs \<union> set b"
  shows "union_inv lhs b (a[k - 1 := x], i', j', k - 1)"
proof -
  have I: "length a = length lhs + length b" "i \<le> length lhs" "j \<le> length b" "k \<le> length a"
    "take i a = take i lhs"
    using assms(1) by (auto simp: union_inv_def)
  have "take i' (a[k - 1 := x]) = take i' (take i a)" using assms(3,5) by (simp add: min_def)
  also have "\<dots> = take i' lhs" unfolding I(5) using assms(3) by (simp add: min_def)
  finally show ?thesis
    using I assms(3-8) drop_pred_update [OF assms(2) I(4), of x] by (simp add: union_inv_def)
qed

lemma union_inv_take_a:
  assumes "union_inv lhs b (a, i, j, k)" "0 < i" "j = 0 \<or> b ! (j - 1) < lhs ! (i - 1)"
  shows "union_inv lhs b (a[k - 1 := lhs ! (i - 1)], i - 1, j, k - 1)"
proof (rule union_inv_write [OF assms(1)])
  have I: "i \<le> length lhs" "j \<le> length b" "i + j \<le> k" "strict (take i lhs @ drop k a)"
    "strict (take j b @ drop k a)" "set (take i lhs) \<union> set (take j b) \<union> set (drop k a) = set lhs \<union> set b"
    using assms(1) by (auto simp: union_inv_def)
  note l = strict_take_last [OF I(4) assms(2) I(1)]
  show "0 < k" "i - 1 \<le> i" "j \<le> j" "i - 1 + j \<le> k - 1" using I assms(2) by auto
  show "strict (take (i - 1) lhs @ lhs ! (i - 1) # drop k a)" by fact
  have "\<forall>v\<in>set (take j b). v < lhs ! (i - 1)"
    using assms(3) strict_take_last(2) [OF I(5) _ I(2)] by (cases "j = 0") fastforce+
  then show "strict (take j b @ lhs ! (i - 1) # drop k a)"
    using I(5) l(3) by (intro strict_insert_between)
  show "set (take (i - 1) lhs) \<union> set (take j b) \<union> insert (lhs ! (i - 1)) (set (drop k a)) = set lhs \<union> set b"
    using I(6) unfolding take_pred [OF assms(2) I(1)] by auto
qed

lemma union_inv_take_b:
  assumes "union_inv lhs b (a, i, j, k)" "0 < j" "i = 0 \<or> lhs ! (i - 1) < b ! (j - 1)"
  shows "union_inv lhs b (a[k - 1 := b ! (j - 1)], i, j - 1, k - 1)"
proof (rule union_inv_write [OF assms(1)])
  have I: "i \<le> length lhs" "j \<le> length b" "i + j \<le> k" "strict (take i lhs @ drop k a)"
    "strict (take j b @ drop k a)" "set (take i lhs) \<union> set (take j b) \<union> set (drop k a) = set lhs \<union> set b"
    using assms(1) by (auto simp: union_inv_def)
  note l = strict_take_last [OF I(5) assms(2) I(2)]
  show "0 < k" "i \<le> i" "j - 1 \<le> j" "i + (j - 1) \<le> k - 1" using I assms(2) by auto
  show "strict (take (j - 1) b @ b ! (j - 1) # drop k a)" by fact
  have "\<forall>v\<in>set (take i lhs). v < b ! (j - 1)"
    using assms(3) strict_take_last(2) [OF I(4) _ I(1)] by (cases "i = 0") fastforce+
  then show "strict (take i lhs @ b ! (j - 1) # drop k a)"
    using I(4) l(3) by (intro strict_insert_between)
  show "set (take i lhs) \<union> set (take (j - 1) b) \<union> insert (b ! (j - 1)) (set (drop k a)) = set lhs \<union> set b"
    using I(6) unfolding take_pred [OF assms(2) I(2)] by auto
qed

lemma union_inv_take_both:
  assumes "union_inv lhs b (a, i, j, k)" "0 < i" "0 < j" "lhs ! (i - 1) = b ! (j - 1)"
  shows "union_inv lhs b (a[k - 1 := lhs ! (i - 1)], i - 1, j - 1, k - 1)"
proof (rule union_inv_write [OF assms(1)])
  have I: "i \<le> length lhs" "j \<le> length b" "i + j \<le> k" "strict (take i lhs @ drop k a)"
    "strict (take j b @ drop k a)" "set (take i lhs) \<union> set (take j b) \<union> set (drop k a) = set lhs \<union> set b"
    using assms(1) by (auto simp: union_inv_def)
  show "0 < k" "i - 1 \<le> i" "j - 1 \<le> j" "i - 1 + (j - 1) \<le> k - 1" using I assms(2,3) by auto
  show "strict (take (i - 1) lhs @ lhs ! (i - 1) # drop k a)"
    using strict_take_last [OF I(4) assms(2) I(1)] by simp
  show "strict (take (j - 1) b @ lhs ! (i - 1) # drop k a)"
    unfolding assms(4) using strict_take_last [OF I(5) assms(3) I(2)] by simp
  show "set (take (i - 1) lhs) \<union> set (take (j - 1) b) \<union> insert (lhs ! (i - 1)) (set (drop k a)) = set lhs \<union> set b"
    using I(6) assms(4) unfolding take_pred [OF assms(2) I(1)] take_pred [OF assms(3) I(2)] by auto
qed

lemma union_inv_read:
  assumes "union_inv lhs b (a, i, j, k)" "0 < i"
  shows "a ! (i - 1) = lhs ! (i - 1)"
proof -
  have "take i a = take i lhs" using assms by (simp add: union_inv_def)
  then have "take i a ! (i - 1) = take i lhs ! (i - 1)" by simp
  with assms(2) show ?thesis by simp
qed

lemma union_backwards_inv:
  "union_inv lhs b (a, i, j, k) \<Longrightarrow>
    union_inv lhs b (union_backwards b (a, i, j, k)) \<and>
    (case union_backwards b (a, i, j, k) of (a', i', j', k') \<Rightarrow> i' = 0 \<or> j' = 0)"
proof (induction "i + j" arbitrary: a i j k rule: less_induct)
  case less
  show ?case
  proof (cases "i > 0 \<and> j > 0")
    case False
    then show ?thesis using less.prems by (auto simp: union_backwards.simps [of b a i j k])
  next
    case True
    note read = union_inv_read [OF less.prems] 
    consider (a) "lhs ! (i - 1) > b ! (j - 1)" | (b) "b ! (j - 1) > lhs ! (i - 1)"
      | (both) "lhs ! (i - 1) = b ! (j - 1)" by fastforce
    then show ?thesis
    proof cases
      case a
      from less.hyps [OF _ union_inv_take_a [OF less.prems]] True a read
      show ?thesis by (simp add: union_backwards.simps [of b a i j k])
    next
      case b
      then have nb: "\<not> b ! (j - 1) < lhs ! (i - 1)" by simp
      from less.hyps [OF _ union_inv_take_b [OF less.prems]] True b nb read
      show ?thesis by (simp add: union_backwards.simps [of _ a i j k])
    next
      case both
      from less.hyps [OF _ union_inv_take_both [OF less.prems]] True both read
      show ?thesis by (simp add: union_backwards.simps [of b a i j k])
    qed
  qed
qed

lemma copy_backwards_inv:
  "union_inv lhs b (a, i, j, k) \<Longrightarrow> i = 0 \<or> j = 0 \<Longrightarrow>
    (case copy_backwards b a j k of (a', k') \<Rightarrow> union_inv lhs b (a', i, 0, k'))"
proof (induction j arbitrary: a k)
  case (Suc j)
  then have "union_inv lhs b (a[k - 1 := b ! j], i, j, k - 1)"
    using union_inv_take_b [OF Suc.prems(1)] by simp
  with Suc show ?case by simp
qed simp

lemma union_inv_finish:
  assumes "union_inv lhs rhs (a, i, 0, k)" "strict lhs" "strict rhs"
  shows "take i lhs @ drop k a = union_sorted_scalar lhs rhs"
proof (rule strict_eqI)
  have "set (union_sorted_scalar lhs rhs) = set lhs \<union> set rhs"
    using mem_scalar_merges(2) [OF assms(2,3)] by blast
  then show "set (take i lhs @ drop k a) = set (union_sorted_scalar lhs rhs)"
    using assms(1) by (auto simp: union_inv_def)
qed (use assms in \<open>auto simp: strict_scalar_merges union_inv_def\<close>)

lemma union_inv_close:
  assumes "union_inv lhs rhs (a, i, 0, k)"
  shows "take (i + (length a - k)) (if k \<noteq> i then memmove a i k (length a - k) else a) = take i lhs @ drop k a"
proof -
  have I: "i \<le> k" "k \<le> length a" "take i a = take i lhs" using assms by (auto simp: union_inv_def)
  show ?thesis
  proof (cases "k = i")
    case True
    then show ?thesis using I(2) by (simp flip: I(3))
  next
    case False
    have "length (take i a) = i" using I(1,2) by simp
    then have "take (i + (length a - k)) (memmove a i k (length a - k)) = take i a @ drop k a"
      using I(1,2) by (simp add: memmove_inside)
    with False I(3) show ?thesis by simp
  qed
qed

lemma union_array_array_inplace_eq:
  assumes "strict lhs" "strict rhs" "length fresh = length rhs"
  shows "union_array_array_inplace False fresh lhs rhs = union_sorted_scalar lhs rhs"
proof -
  let ?s = "(lhs @ fresh, length lhs, length rhs, length lhs + length rhs)"
  have "union_inv lhs rhs ?s" using assms by (simp add: union_inv_def)
  from union_backwards_inv [OF this]
  obtain a i j k where eq: "union_backwards rhs ?s = (a, i, j, k)" and
    inv: "union_inv lhs rhs (a, i, j, k)" "i = 0 \<or> j = 0"
    by (cases "union_backwards rhs ?s") auto
  obtain a' k' where eq': "copy_backwards rhs a j k = (a', k')" by (cases "copy_backwards rhs a j k")
  with copy_backwards_inv [OF inv] have inv': "union_inv lhs rhs (a', i, 0, k')" by simp
  then have len: "length a' = length lhs + length rhs" by (simp add: union_inv_def)
  have "union_array_array_inplace False fresh lhs rhs = take i lhs @ drop k' a'"
    using union_inv_close [OF inv'] unfolding len
    by (simp only: union_array_array_inplace_def Let_def eq eq' prod.case if_False)
  then show ?thesis using union_inv_finish [OF inv' assms(1,2)] by simp
qed

subsection \<open>Intersection and difference, forwards\<close>

text \<open>The state of the two forward kernels when \<open>out\<close> is \<open>a\<close>: the buffer, the read cursor \<open>i\<close>, the write
  cursor \<open>k\<close> and the unread values of \<open>b\<close>.\<close>

type_synonym inplace_state = "low list \<times> nat \<times> nat \<times> low list"

definition inplace_size :: "inplace_state \<Rightarrow> nat" where
  "inplace_size s = (case s of (buf, i, k, ys) \<Rightarrow> (length buf - i) + length ys)"

definition intersect_inplace_step :: "inplace_state \<Rightarrow> inplace_state" where
  "intersect_inplace_step = (\<lambda>(buf, i, k, ys).
     let x = buf ! i; y = hd ys
     in (buf[k := x], i + of_bool (x \<le> y), k + of_bool (x = y), if x \<ge> y then tl ys else ys))"

definition difference_inplace_step :: "inplace_state \<Rightarrow> inplace_state" where
  "difference_inplace_step = (\<lambda>(buf, i, k, ys).
     let x = buf ! i; y = hd ys
     in (buf[k := x], i + of_bool (x \<le> y), k + of_bool (x < y), if x \<ge> y then tl ys else ys))"

lemma inplace_step_le:
  "inplace_size (intersect_inplace_step s) \<le> inplace_size s" "inplace_size (difference_inplace_step s) \<le> inplace_size s"
  by (auto simp: inplace_size_def intersect_inplace_step_def difference_inplace_step_def Let_def split: prod.splits)

lemma inplace_step_less:
  assumes "i < length buf" "ys \<noteq> []"
  shows "inplace_size (intersect_inplace_step (buf, i, k, ys)) < inplace_size (buf, i, k, ys)"
    "inplace_size (difference_inplace_step (buf, i, k, ys)) < inplace_size (buf, i, k, ys)"
  using assms by (auto simp: inplace_size_def intersect_inplace_step_def difference_inplace_step_def Let_def neq_Nil_conv)

lemma inplace_size_4:
  assumes "\<And>s. inplace_size (step s) \<le> inplace_size s" "inplace_size (step s) < inplace_size s"
  shows "inplace_size ((step ^^ 4) s) < inplace_size s"
proof -
  have "inplace_size (step (step (step (step s)))) \<le> inplace_size (step s)"
    using assms(1) by (meson le_trans)
  then show ?thesis using assms(2) by (simp add: eval_nat_numeral)
qed

definition inplace_block_ready :: "low list \<Rightarrow> nat \<Rightarrow> low list \<Rightarrow> bool" where
  "inplace_block_ready buf i ys \<longleftrightarrow> i + 4 \<le> length buf \<and> 4 \<le> length ys"

function intersect_inplace_rest :: "inplace_state \<Rightarrow> inplace_state" where
  "intersect_inplace_rest (buf, i, k, ys) =
     (if i < length buf \<and> ys \<noteq> [] then intersect_inplace_rest (intersect_inplace_step (buf, i, k, ys))
      else (buf, i, k, ys))"
  by pat_completeness auto
termination
  by (relation "measure inplace_size") (simp_all add: inplace_step_less)

function intersect_inplace_blocks :: "inplace_state \<Rightarrow> inplace_state" where
  "intersect_inplace_blocks (buf, i, k, ys) =
    (if inplace_block_ready buf i ys then
       if buf ! (i + 3) < ys ! 0 then intersect_inplace_blocks (buf, i + 4, k, ys)
       else if ys ! 3 < buf ! i then intersect_inplace_blocks (buf, i, k, drop 4 ys)
       else if equal_blocks4 (drop i buf) ys then
         intersect_inplace_blocks (memmove buf k i 4, i + 4, k + 4, drop 4 ys)
       else intersect_inplace_blocks ((intersect_inplace_step ^^ 4) (buf, i, k, ys))
     else (buf, i, k, ys))"
  by pat_completeness auto
termination
proof (relation "measure inplace_size", goal_cases)
  case (5 buf i k ys)
  then have "inplace_size (intersect_inplace_step (buf, i, k, ys)) < inplace_size (buf, i, k, ys)"
    by (intro inplace_step_less) (auto simp: inplace_block_ready_def)
  then show ?case by (simp add: inplace_size_4 inplace_step_le)
qed (auto simp: inplace_size_def inplace_block_ready_def memmove_def)

function difference_inplace_rest :: "inplace_state \<Rightarrow> inplace_state" where
  "difference_inplace_rest (buf, i, k, ys) =
     (if i < length buf \<and> ys \<noteq> [] then difference_inplace_rest (difference_inplace_step (buf, i, k, ys))
      else (buf, i, k, ys))"
  by pat_completeness auto
termination
  by (relation "measure inplace_size") (simp_all add: inplace_step_less)

function difference_inplace_blocks :: "inplace_state \<Rightarrow> inplace_state" where
  "difference_inplace_blocks (buf, i, k, ys) =
    (if inplace_block_ready buf i ys then
       if buf ! (i + 3) < ys ! 0 then difference_inplace_blocks (memmove buf k i 4, i + 4, k + 4, ys)
       else if ys ! 3 < buf ! i then difference_inplace_blocks (buf, i, k, drop 4 ys)
       else if equal_blocks4 (drop i buf) ys then difference_inplace_blocks (buf, i + 4, k, drop 4 ys)
       else difference_inplace_blocks ((difference_inplace_step ^^ 4) (buf, i, k, ys))
     else (buf, i, k, ys))"
  by pat_completeness auto
termination
proof (relation "measure inplace_size", goal_cases)
  case (5 buf i k ys)
  then have "inplace_size (difference_inplace_step (buf, i, k, ys)) < inplace_size (buf, i, k, ys)"
    by (intro inplace_step_less) (auto simp: inplace_block_ready_def)
  then show ?case by (simp add: inplace_size_4 inplace_step_le)
qed (auto simp: inplace_size_def inplace_block_ready_def memmove_def)

declare intersect_inplace_rest.simps [simp del] intersect_inplace_blocks.simps [simp del]
  difference_inplace_rest.simps [simp del] difference_inplace_blocks.simps [simp del]

definition intersect_sorted_inplace :: "low list \<Rightarrow> low list \<Rightarrow> low list" where
  "intersect_sorted_inplace a b =
     (case intersect_inplace_rest (intersect_inplace_blocks (a, 0, 0, b)) of (buf, i, k, ys) \<Rightarrow> take k buf)"

definition difference_array_array_inplace :: "low list \<Rightarrow> low list \<Rightarrow> low list" where
  "difference_array_array_inplace a b =
     (case difference_inplace_rest (difference_inplace_blocks (a, 0, 0, b)) of (buf, i, k, ys) \<Rightarrow>
        take (k + (length buf - i)) (memmove buf k i (length buf - i)))"

text \<open>A forward kernel refines the one into a fresh buffer: the unread suffix and the values written are
  the same, because the write cursor never passes the read cursor.\<close>

definition inplace_refines :: "inplace_state \<Rightarrow> merge_state \<Rightarrow> bool" where
  "inplace_refines s t = (case (s, t) of ((buf, i, k, ys), (xs, ys', out)) \<Rightarrow>
     xs = drop i buf \<and> ys = ys' \<and> out = take k buf \<and> k \<le> i \<and> i \<le> length buf)"

lemma inplace_write:
  assumes "k \<le> i" "i < length buf"
  shows "take (k + of_bool c) (buf[k := buf ! i]) = take k buf @ (if c then [hd (drop i buf)] else [])"
    "drop (i + of_bool d) (buf[k := buf ! i]) = (if d then tl (drop i buf) else drop i buf)"
  using assms by (auto simp: take_Suc_update hd_drop_conv_nth drop_update_same drop_update_before tl_drop drop_Suc [symmetric])

lemma intersect_step_refines:
  assumes "inplace_refines s t" "fst t \<noteq> []"
  shows "inplace_refines (intersect_inplace_step s) (intersect_step t)"
proof -
  obtain buf i k ys where s: "s = (buf, i, k, ys)" by (cases s)
  with assms have t: "t = (drop i buf, ys, take k buf)" and b: "k \<le> i" "i < length buf"
    by (auto simp: inplace_refines_def split: prod.splits)
  show ?thesis
    using b by (auto simp: s t inplace_refines_def intersect_inplace_step_def intersect_step_def
        advance_a_def advance_b_def Let_def inplace_write hd_drop_conv_nth)
qed

lemma difference_step_refines:
  assumes "inplace_refines s t" "fst t \<noteq> []"
  shows "inplace_refines (difference_inplace_step s) (difference_step t)"
proof -
  obtain buf i k ys where s: "s = (buf, i, k, ys)" by (cases s)
  with assms have t: "t = (drop i buf, ys, take k buf)" and b: "k \<le> i" "i < length buf"
    by (auto simp: inplace_refines_def split: prod.splits)
  show ?thesis
    using b by (auto simp: s t inplace_refines_def difference_inplace_step_def difference_step_def
        advance_a_def advance_b_def Let_def inplace_write hd_drop_conv_nth)
qed

lemma merge_kernel_4_steps:
  assumes step: "\<And>s t. inplace_refines s t \<Longrightarrow> fst t \<noteq> [] \<Longrightarrow> inplace_refines (istep s) (mstep t)"
    and len: "\<And>t. length (fst t) \<le> length (fst (mstep t)) + 1"
    and "inplace_refines s t" "n \<le> length (fst t)"
  shows "inplace_refines ((istep ^^ n) s) ((mstep ^^ n) t) \<and> length (fst t) \<le> length (fst ((mstep ^^ n) t)) + n"
  using assms(3,4)
proof (induction n)
  case (Suc n)
  then have IH: "inplace_refines ((istep ^^ n) s) ((mstep ^^ n) t)" "length (fst t) \<le> length (fst ((mstep ^^ n) t)) + n"
    by auto
  then have "fst ((mstep ^^ n) t) \<noteq> []" using Suc.prems(2) by auto
  from step [OF IH(1) this] IH(2) len [of "(mstep ^^ n) t"] show ?case by simp
qed simp

lemma merge_step_length:
  "length (fst t) \<le> length (fst (intersect_step t)) + 1" "length (fst t) \<le> length (fst (difference_step t)) + 1"
  by (cases t; auto simp: intersect_step_def difference_step_def advance_a_def)+

lemma memmove_refines:
  assumes "k \<le> i" "i + 4 \<le> length buf"
  shows "drop (i + 4) (memmove buf k i 4) = drop 4 (drop i buf)"
    "take (k + 4) (memmove buf k i 4) = take k buf @ take 4 (drop i buf)"
    "length (memmove buf k i 4) = length buf"
  using assms by (simp_all add: memmove_inside add.commute)

lemma intersect_blocks_refines:
  "inplace_refines s t \<Longrightarrow> inplace_refines (intersect_inplace_blocks s) (intersect_blocks t)"
proof (induction "merge_size t" arbitrary: s t rule: less_induct)
  case less
  obtain buf i k ys where s: "s = (buf, i, k, ys)" by (cases s)
  with less.prems have t: "t = (drop i buf, ys, take k buf)" and b: "k \<le> i" "i \<le> length buf"
    by (auto simp: inplace_refines_def split: prod.splits)
  note unf = intersect_inplace_blocks.simps [of buf i k ys] intersect_blocks.simps [of "drop i buf" ys "take k buf"]
  show ?case
  proof (cases "inplace_block_ready buf i ys")
    case False
    then have "\<not> block_ready (drop i buf) ys" by (auto simp: block_ready_def inplace_block_ready_def)
    with False less.prems show ?thesis by (simp add: s t unf)
  next
    case True
    then have len: "i + 4 \<le> length buf" "4 \<le> length ys" by (auto simp: inplace_block_ready_def)
    then have ready: "block_ready (drop i buf) ys" by (auto simp: block_ready_def)
    have nth: "drop i buf ! 3 = buf ! (i + 3)" "drop i buf ! 0 = buf ! i" using len by simp_all
    have ne: "drop i buf \<noteq> []" "ys \<noteq> []" using len by auto
    consider "buf ! (i + 3) < ys ! 0" | "\<not> buf ! (i + 3) < ys ! 0" "ys ! 3 < buf ! i"
      | "\<not> buf ! (i + 3) < ys ! 0" "\<not> ys ! 3 < buf ! i" "equal_blocks4 (drop i buf) ys"
      | "\<not> buf ! (i + 3) < ys ! 0" "\<not> ys ! 3 < buf ! i" "\<not> equal_blocks4 (drop i buf) ys" by blast
    then show ?thesis
    proof cases
      case 1
      have "inplace_refines (buf, i + 4, k, ys) (drop 4 (drop i buf), ys, take k buf)"
        using b len by (simp add: inplace_refines_def add.commute)
      from less.hyps [OF _ this] 1 True ready len show ?thesis
        by (simp add: s t unf nth merge_size_def)
    next
      case 2
      have "inplace_refines (buf, i, k, drop 4 ys) (drop i buf, drop 4 ys, take k buf)"
        using b len by (simp add: inplace_refines_def)
      from less.hyps [OF _ this] 2 True ready len show ?thesis
        by (simp add: s t unf nth merge_size_def)
    next
      case 3
      have "inplace_refines (memmove buf k i 4, i + 4, k + 4, drop 4 ys)
          (drop 4 (drop i buf), drop 4 ys, take k buf @ take 4 (drop i buf))"
        using b(1) len(1) by (simp add: inplace_refines_def memmove_refines)
      from less.hyps [OF _ this] 3 True ready len show ?thesis
        by (simp add: s t unf nth merge_size_def)
    next
      case 4
      have "inplace_refines ((intersect_inplace_step ^^ 4) s) ((intersect_step ^^ 4) t)"
        using merge_kernel_4_steps [where n = 4, OF intersect_step_refines merge_step_length(1) less.prems] len
        by (simp add: t)
      moreover have "merge_size ((intersect_step ^^ 4) t) < merge_size t"
        unfolding t using intersect_step_le intersect_step_less [OF ne] by (rule merge_size_4)
      ultimately show ?thesis
        using less.hyps [of "(intersect_step ^^ 4) t"] 4 True ready by (simp add: s t unf nth)
    qed
  qed
qed

lemma difference_blocks_refines:
  "inplace_refines s t \<Longrightarrow> inplace_refines (difference_inplace_blocks s) (difference_blocks t)"
proof (induction "merge_size t" arbitrary: s t rule: less_induct)
  case less
  obtain buf i k ys where s: "s = (buf, i, k, ys)" by (cases s)
  with less.prems have t: "t = (drop i buf, ys, take k buf)" and b: "k \<le> i" "i \<le> length buf"
    by (auto simp: inplace_refines_def split: prod.splits)
  note unf = difference_inplace_blocks.simps [of buf i k ys] difference_blocks.simps [of "drop i buf" ys "take k buf"]
  show ?case
  proof (cases "inplace_block_ready buf i ys")
    case False
    then have "\<not> block_ready (drop i buf) ys" by (auto simp: block_ready_def inplace_block_ready_def)
    with False less.prems show ?thesis by (simp add: s t unf)
  next
    case True
    then have len: "i + 4 \<le> length buf" "4 \<le> length ys" by (auto simp: inplace_block_ready_def)
    then have ready: "block_ready (drop i buf) ys" by (auto simp: block_ready_def)
    have nth: "drop i buf ! 3 = buf ! (i + 3)" "drop i buf ! 0 = buf ! i" using len by simp_all
    have ne: "drop i buf \<noteq> []" "ys \<noteq> []" using len by auto
    consider "buf ! (i + 3) < ys ! 0" | "\<not> buf ! (i + 3) < ys ! 0" "ys ! 3 < buf ! i"
      | "\<not> buf ! (i + 3) < ys ! 0" "\<not> ys ! 3 < buf ! i" "equal_blocks4 (drop i buf) ys"
      | "\<not> buf ! (i + 3) < ys ! 0" "\<not> ys ! 3 < buf ! i" "\<not> equal_blocks4 (drop i buf) ys" by blast
    then show ?thesis
    proof cases
      case 1
      have "inplace_refines (memmove buf k i 4, i + 4, k + 4, ys)
          (drop 4 (drop i buf), ys, take k buf @ take 4 (drop i buf))"
        using b(1) len(1) by (simp add: inplace_refines_def memmove_refines)
      from less.hyps [OF _ this] 1 True ready len show ?thesis
        by (simp add: s t unf nth merge_size_def)
    next
      case 2
      have "inplace_refines (buf, i, k, drop 4 ys) (drop i buf, drop 4 ys, take k buf)"
        using b len by (simp add: inplace_refines_def)
      from less.hyps [OF _ this] 2 True ready len show ?thesis
        by (simp add: s t unf nth merge_size_def)
    next
      case 3
      have "inplace_refines (buf, i + 4, k, drop 4 ys) (drop 4 (drop i buf), drop 4 ys, take k buf)"
        using b len by (simp add: inplace_refines_def add.commute)
      from less.hyps [OF _ this] 3 True ready len show ?thesis
        by (simp add: s t unf nth merge_size_def)
    next
      case 4
      have "inplace_refines ((difference_inplace_step ^^ 4) s) ((difference_step ^^ 4) t)"
        using merge_kernel_4_steps [where n = 4, OF difference_step_refines merge_step_length(2) less.prems] len
        by (simp add: t)
      moreover have "merge_size ((difference_step ^^ 4) t) < merge_size t"
        unfolding t using difference_step_le difference_step_less [OF ne] by (rule merge_size_4)
      ultimately show ?thesis
        using less.hyps [of "(difference_step ^^ 4) t"] 4 True ready by (simp add: s t unf nth)
    qed
  qed
qed

lemma intersect_rest_refines:
  "inplace_refines s t \<Longrightarrow> inplace_refines (intersect_inplace_rest s) (intersect_rest t)"
proof (induction "merge_size t" arbitrary: s t rule: less_induct)
  case less
  obtain buf i k ys where s: "s = (buf, i, k, ys)" by (cases s)
  with less.prems have t: "t = (drop i buf, ys, take k buf)" and b: "k \<le> i" "i \<le> length buf"
    by (auto simp: inplace_refines_def split: prod.splits)
  show ?case
  proof (cases "i < length buf \<and> ys \<noteq> []")
    case False
    then show ?thesis
      using less.prems by (auto simp: s t intersect_inplace_rest.simps [of buf] intersect_rest.simps [of _ ys])
  next
    case True
    then have "merge_size (intersect_step t) < merge_size t" by (simp add: t intersect_step_less)
    from less.hyps [OF this intersect_step_refines [OF less.prems]] True show ?thesis
      by (simp add: s t intersect_inplace_rest.simps [of buf] intersect_rest.simps [of _ ys])
  qed
qed

lemma difference_rest_refines:
  "inplace_refines s t \<Longrightarrow> inplace_refines (difference_inplace_rest s) (difference_rest t)"
proof (induction "merge_size t" arbitrary: s t rule: less_induct)
  case less
  obtain buf i k ys where s: "s = (buf, i, k, ys)" by (cases s)
  with less.prems have t: "t = (drop i buf, ys, take k buf)" and b: "k \<le> i" "i \<le> length buf"
    by (auto simp: inplace_refines_def split: prod.splits)
  show ?case
  proof (cases "i < length buf \<and> ys \<noteq> []")
    case False
    then show ?thesis
      using less.prems by (auto simp: s t difference_inplace_rest.simps [of buf] difference_rest.simps [of _ ys])
  next
    case True
    then have "merge_size (difference_step t) < merge_size t" by (simp add: t difference_step_less)
    from less.hyps [OF this difference_step_refines [OF less.prems]] True show ?thesis
      by (simp add: s t difference_inplace_rest.simps [of buf] difference_rest.simps [of _ ys])
  qed
qed

lemma intersect_sorted_inplace_eq: "intersect_sorted_inplace a b = intersect_sorted_scalar a b"
proof -
  have "inplace_refines (a, 0, 0, b) (a, b, [])" by (simp add: inplace_refines_def)
  from intersect_rest_refines [OF intersect_blocks_refines [OF this]] show ?thesis
    by (auto simp: intersect_sorted_inplace_def intersect_sorted_scalar_def inplace_refines_def split: prod.splits)
qed

lemma difference_array_array_inplace_eq: "difference_array_array_inplace a b = difference_sorted_scalar a b"
proof -
  have "inplace_refines (a, 0, 0, b) (a, b, [])" by (simp add: inplace_refines_def)
  from difference_rest_refines [OF difference_blocks_refines [OF this]] show ?thesis
    by (auto simp: difference_array_array_inplace_def difference_sorted_scalar_def inplace_refines_def memmove_inside
        split: prod.splits)
qed

subsection \<open>The skewed intersection, in place\<close>

text \<open>With the small array in the buffer the keys are read before the writes; with the large array in the
  buffer each test reads the buffer after the writes of the tests before it. \<open>emit\<close> is \<open>*out++ = k\<close>
  under its test.\<close>

definition emit :: "bool \<Rightarrow> low \<Rightarrow> low list \<times> nat \<Rightarrow> low list \<times> nat" where
  "emit c key s = (if c then ((fst s)[snd s := key], snd s + 1) else s)"

function skewed_small_blocks :: "low list \<times> nat \<times> nat \<times> low list \<Rightarrow> low list \<times> nat \<times> nat \<times> low list" where
  "skewed_small_blocks (buf, idx_s, k, window) =
    (if idx_s + 4 \<le> length buf \<and> window \<noteq> []
     then let k0 = buf ! idx_s; k1 = buf ! (idx_s + 1); k2 = buf ! (idx_s + 2); k3 = buf ! (idx_s + 3)
          in case binary_search_4way window k0 k1 k2 k3 of (r0, r1, r2, r3) \<Rightarrow>
            (case emit (matches_at window r3 k3) k3 (emit (matches_at window r2 k2) k2
                  (emit (matches_at window r1 k1) k1 (emit (matches_at window r0 k0) k0 (buf, k)))) of
               (buf, k) \<Rightarrow> skewed_small_blocks
                 (buf, idx_s + 4, k, drop (r3 + of_bool (matches_at window r3 k3)) window))
     else (buf, idx_s, k, window))"
  by pat_completeness auto
termination
  by (relation "measure (\<lambda>(buf, s, k, w). length buf - s)") (auto simp: emit_def split: if_splits)

function skewed_small_rest :: "low list \<times> nat \<times> nat \<times> low list \<Rightarrow> low list \<times> nat" where
  "skewed_small_rest (buf, idx_s, k, window) =
    (if idx_s < length buf \<and> window \<noteq> []
     then let v = buf ! idx_s; window = drop (lower_bound window v) window
          in if window \<noteq> [] \<and> hd window = v
             then skewed_small_rest (buf[k := v], idx_s + 1, k + 1, tl window)
             else skewed_small_rest (buf, idx_s + 1, k, window)
     else (buf, k))"
  by pat_completeness auto
termination
  by (relation "measure (\<lambda>(buf, s, k, w). length buf - s)") auto

function skewed_large_blocks :: "low list \<times> nat \<times> nat \<times> low list \<Rightarrow> low list \<times> nat \<times> nat \<times> low list" where
  "skewed_large_blocks (buf, idx_l, k, small) =
    (if 4 \<le> length small \<and> idx_l < length buf
     then let k0 = small ! 0; k1 = small ! 1; k2 = small ! 2; k3 = small ! 3
          in case binary_search_4way (drop idx_l buf) k0 k1 k2 k3 of (r0, r1, r2, r3) \<Rightarrow>
            (let s0 = emit (matches_at (drop idx_l buf) r0 k0) k0 (buf, k);
                 s1 = emit (matches_at (drop idx_l (fst s0)) r1 k1) k1 s0;
                 s2 = emit (matches_at (drop idx_l (fst s1)) r2 k2) k2 s1;
                 s3 = emit (matches_at (drop idx_l (fst s2)) r3 k3) k3 s2
             in skewed_large_blocks
                  (fst s3, idx_l + r3 + of_bool (matches_at (drop idx_l (fst s3)) r3 k3), snd s3, drop 4 small))
     else (buf, idx_l, k, small))"
  by pat_completeness auto
termination
  by (relation "measure (\<lambda>(buf, l, k, small). length small)") auto

fun skewed_large_rest :: "low list \<Rightarrow> nat \<Rightarrow> nat \<Rightarrow> low list \<Rightarrow> low list \<times> nat" where
  "skewed_large_rest buf idx_l k [] = (buf, k)"
| "skewed_large_rest buf idx_l k (v # small) =
    (if idx_l < length buf
     then let it = idx_l + lower_bound (drop idx_l buf) v
          in if it \<noteq> length buf \<and> buf ! it = v
             then skewed_large_rest (buf[k := v]) (it + 1) (k + 1) small
             else skewed_large_rest buf it k small
     else (buf, k))"

declare skewed_small_blocks.simps [simp del] skewed_small_rest.simps [simp del] skewed_large_blocks.simps [simp del]

definition skewed_small_inplace :: "low list \<Rightarrow> low list \<Rightarrow> low list" where
  "skewed_small_inplace small large =
     (case skewed_small_rest (skewed_small_blocks (small, 0, 0, large)) of (buf, k) \<Rightarrow> take k buf)"

definition skewed_large_inplace :: "low list \<Rightarrow> low list \<Rightarrow> low list" where
  "skewed_large_inplace small large =
     (case skewed_large_blocks (large, 0, 0, small) of (buf, idx_l, k, small) \<Rightarrow>
        (case skewed_large_rest buf idx_l k small of (buf, k) \<Rightarrow> take k buf))"

definition intersect_array_array_inplace :: "low list \<Rightarrow> low list \<Rightarrow> low list" where
  "intersect_array_array_inplace a b =
    (let sa = length a; sb = length b; lo = min sa sb; hi = max sa sb
     in if lo * kSkewedIntersectRatioThreshold < hi then
          (if sa \<le> sb then skewed_small_inplace a b else skewed_large_inplace b a)
        else intersect_sorted_inplace a b)"

lemma emit_facts:
  assumes "emit c x (buf, k) = (buf', k')" "k < length buf"
  shows "take k' buf' = take k buf @ (if c then [x] else [])" "k' = k + of_bool c" "length buf' = length buf"
    "\<And>n. k < n \<Longrightarrow> drop n buf' = drop n buf"
  using assms by (auto simp: emit_def take_Suc_update drop_update_before split: if_splits)

lemma skewed_small_blocks_refines:
  assumes "k \<le> s" "s \<le> length buf" "skewed_small_blocks (buf, s, k, window) = (buf', s', k', window')"
  shows "skewed_blocks (drop s buf, window, take k buf) = (drop s' buf', window', take k' buf') \<and> k' \<le> s' \<and> s' \<le> length buf'"
  using assms
proof (induction "length buf - s" arbitrary: buf s k window rule: less_induct)
  case less
  show ?case
  proof (cases "s + 4 \<le> length buf \<and> window \<noteq> []")
    case False
    then have "\<not> (4 \<le> length (drop s buf) \<and> window \<noteq> [])" by auto
    with False less.prems show ?thesis
      by (auto simp: skewed_small_blocks.simps [of buf] skewed_blocks.simps [of "drop s buf"])
  next
    case True
    define k0 k1 k2 k3 where ks: "k0 = buf ! s" "k1 = buf ! (s + 1)" "k2 = buf ! (s + 2)" "k3 = buf ! (s + 3)"
    obtain r0 r1 r2 r3 where bs: "binary_search_4way window k0 k1 k2 k3 = (r0, r1, r2, r3)"
      by (cases "binary_search_4way window k0 k1 k2 k3")
    obtain b0 n0 where e0: "emit (matches_at window r0 k0) k0 (buf, k) = (b0, n0)" by fastforce
    obtain b1 n1 where e1: "emit (matches_at window r1 k1) k1 (b0, n0) = (b1, n1)" by fastforce
    obtain b2 n2 where e2: "emit (matches_at window r2 k2) k2 (b1, n1) = (b2, n2)" by fastforce
    obtain b3 n3 where e3: "emit (matches_at window r3 k3) k3 (b2, n2) = (b3, n3)" by fastforce
    have len: "s + 4 \<le> length buf" using True by simp
    note f0 = emit_facts [OF e0]
    have n0: "n0 \<le> s + 1" "length b0 = length buf" using f0(2,3) len less.prems(1) by auto
    note f1 = emit_facts [OF e1]
    have n1: "n1 \<le> s + 2" "length b1 = length buf" using f1(2,3) len n0 by auto
    note f2 = emit_facts [OF e2]
    have n2: "n2 \<le> s + 3" "length b2 = length buf" using f2(2,3) len n1 by auto
    note f3 = emit_facts [OF e3]
    have n3: "n3 \<le> s + 4" "length b3 = length buf" using f3(2,3) len n2 by auto
    have drop: "drop (s + 4) b3 = drop 4 (drop s buf)"
      using f0(4) f1(4) f2(4) f3(4) len n0 n1 n2 less.prems(1) by (simp add: add.commute)
    let ?w = "drop (r3 + of_bool (matches_at window r3 k3)) window"
    have step: "skewed_small_blocks (buf, s, k, window) = skewed_small_blocks (b3, s + 4, n3, ?w)"
      unfolding skewed_small_blocks.simps [of buf] if_P [OF True] Let_def ks [symmetric] bs prod.case e0 e1 e2 e3 ..
    have nth: "drop s buf ! 0 = k0" "drop s buf ! 1 = k1" "drop s buf ! 2 = k2" "drop s buf ! 3 = k3"
      using len by (simp_all add: ks)
    have out: "take n3 b3 = take k buf @ (if matches_at window r0 k0 then [k0] else [])
        @ (if matches_at window r1 k1 then [k1] else []) @ (if matches_at window r2 k2 then [k2] else [])
        @ (if matches_at window r3 k3 then [k3] else [])"
      using f0(1) f1(1) f2(1) f3(1) len n0 n1 n2 less.prems(1) by simp
    have ready: "4 \<le> length (drop s buf) \<and> window \<noteq> []" using True by auto
    have step': "skewed_blocks (drop s buf, window, take k buf) = skewed_blocks (drop 4 (drop s buf), ?w, take n3 b3)"
      unfolding skewed_blocks.simps [of "drop s buf"] if_P [OF ready] Let_def nth bs prod.case out ..
    have "length b3 - (s + 4) < length buf - s" "s + 4 \<le> length b3" using len n3 by auto
    from less.hyps [OF this(1) n3(1) this(2)] less.prems(3) show ?thesis
      unfolding step step' drop by blast
  qed
qed

lemma skewed_small_rest_refines:
  assumes "k \<le> s" "s \<le> length buf" "skewed_small_rest (buf, s, k, window) = (buf', k')"
  shows "skewed_rest (drop s buf, window, take k buf) = take k' buf'"
  using assms
proof (induction "length buf - s" arbitrary: buf s k window rule: less_induct)
  case less
  show ?case
  proof (cases "s < length buf \<and> window \<noteq> []")
    case False
    then show ?thesis using less.prems by (cases "drop s buf") (auto simp: skewed_small_rest.simps [of buf])
  next
    case True
    define v where "v = buf ! s"
    let ?w = "drop (lower_bound window v) window"
    have d: "drop s buf = v # drop (s + 1) buf" using True by (simp add: v_def Cons_nth_drop_Suc)
    have shorter: "length (buf[k := v]) - (s + 1) < length buf - s" "length buf - (s + 1) < length buf - s"
      using True by auto
    show ?thesis
    proof (cases "?w \<noteq> [] \<and> hd ?w = v")
      case hit: True
      have "skewed_small_rest (buf[k := v], s + 1, k + 1, tl ?w) = (buf', k')"
        using less.prems(3) True hit by (simp add: skewed_small_rest.simps [of buf] Let_def v_def [symmetric] del: drop_eq_Nil)
      from less.hyps [OF shorter(1) _ _ this] True less.prems(1)
      have "skewed_rest (drop (s + 1) buf, tl ?w, take k buf @ [v]) = take k' buf'"
        by (simp add: drop_update_before take_Suc_update)
      with True hit show ?thesis by (simp add: d Let_def del: drop_eq_Nil)
    next
      case miss: False
      have "skewed_small_rest (buf, s + 1, k, ?w) = (buf', k')"
        using less.prems(3) True
        unfolding skewed_small_rest.simps [of buf s k window] v_def [symmetric] Let_def if_not_P [OF miss] by simp
      from less.hyps [OF shorter(2) _ _ this] True less.prems(1)
      have "skewed_rest (drop (s + 1) buf, ?w, take k buf) = take k' buf'" by simp
      with True show ?thesis unfolding d skewed_rest.simps Let_def if_not_P [OF miss] by simp
    qed
  qed
qed

lemma skewed_small_inplace_eq: "skewed_small_inplace small large = intersect_array_array_skewed small large"
proof -
  obtain buf s k w where eq: "skewed_small_blocks (small, 0, 0, large) = (buf, s, k, w)"
    by (cases "skewed_small_blocks (small, 0, 0, large)")
  obtain buf' k' where eq': "skewed_small_rest (buf, s, k, w) = (buf', k')" by fastforce
  from skewed_small_blocks_refines [OF _ _ eq] have *: "skewed_blocks (small, large, []) = (drop s buf, w, take k buf)"
    "k \<le> s" "s \<le> length buf" by auto
  from skewed_small_rest_refines [OF *(2,3) eq'] show ?thesis
    by (simp add: skewed_small_inplace_def eq eq' intersect_array_array_skewed_def *(1))
qed

text \<open>One test of the large in-place form: the values that earlier tests have written lie below the
  position the test reads.\<close>

lemma matches_at_drop_cong:
  assumes "drop (l + r) buf' = drop (l + r) buf" "length buf' = length buf" "r \<le> j"
  shows "matches_at (drop l buf') j key = matches_at (drop l buf) j key"
proof -
  have "buf' ! (l + j) = buf ! (l + j)" if "l + j < length buf"
  proof -
    have "drop (l + r) buf' ! (j - r) = drop (l + r) buf ! (j - r)" by (simp add: assms(1))
    with that assms(2,3) show ?thesis by simp
  qed
  with assms(2) show ?thesis by (auto simp: matches_at_def)
qed

lemma emit_large:
  assumes "drop (l + r) buf' = drop (l + r) buf" "length buf' = length buf" "k \<le> l + r" "r \<le> j"
    and "emit (matches_at (drop l buf') j key) key (buf', k) = (buf'', k')"
  defines "m \<equiv> matches_at (drop l buf) j key"
  shows "take k' buf'' = take k buf' @ (if m then [key] else [])"
    "drop (l + (j + of_bool m)) buf'' = drop (l + (j + of_bool m)) buf"
    "length buf'' = length buf" "k' \<le> l + (j + of_bool m)"
    "matches_at (drop l buf'') j key = m"
proof -
  have m: "matches_at (drop l buf') j key = m"
    unfolding m_def using assms(1,2,4) by (rule matches_at_drop_cong)
  have dd: "drop (l + i) buf' = drop (l + i) buf" if "r \<le> i" for i
  proof -
    have "drop (i - r) (drop (l + r) buf') = drop (i - r) (drop (l + r) buf)" by (simp add: assms(1))
    with that show ?thesis by (simp add: add.commute)
  qed
  have all: "take k' buf'' = take k buf' @ (if m then [key] else []) \<and>
    drop (l + (j + of_bool m)) buf'' = drop (l + (j + of_bool m)) buf \<and> length buf'' = length buf \<and>
    k' \<le> l + (j + of_bool m) \<and> matches_at (drop l buf'') j key = m"
  proof (cases m)
    case False
    with assms(5) m have "buf'' = buf'" "k' = k" by (simp_all add: emit_def)
    with False m assms(2-4) dd [of j] show ?thesis by simp
  next
    case True
    with m have at: "l + j < length buf" "buf' ! (l + j) = key"
      using assms(2) by (auto simp: matches_at_def)
    from True assms(5) m have eq: "buf'' = buf'[k := key]" "k' = k + 1" by (simp_all add: emit_def)
    have "buf'' ! (l + j) = key" using at assms(2-4) by (cases "k = l + j") (simp_all add: eq)
    then have "matches_at (drop l buf'') j key" using at assms(2) by (simp add: matches_at_def eq)
    moreover have "drop (l + (j + 1)) buf'' = drop (l + (j + 1)) buf"
      using assms(3,4) dd [of "j + 1"] unfolding eq by (subst drop_update_before) auto
    moreover have "take k' buf'' = take k buf' @ [key]"
      using at assms(2-4) unfolding eq by (simp add: take_Suc_update)
    ultimately show ?thesis using True assms(2-4) by (simp add: eq)
  qed
  then show "take k' buf'' = take k buf' @ (if m then [key] else [])"
    "drop (l + (j + of_bool m)) buf'' = drop (l + (j + of_bool m)) buf"
    "length buf'' = length buf" "k' \<le> l + (j + of_bool m)"
    "matches_at (drop l buf'') j key = m" by blast+
qed

lemma lower_bound_after:
  assumes "strict window" "k < k'"
  shows "lower_bound window k + of_bool (matches_at window (lower_bound window k) k) \<le> lower_bound window k'"
proof -
  have "window ! i < k'" if "i < lower_bound window k" for i
    using partition_point_before [of i "\<lambda>x. x < k" window] that assms(2) by (simp add: lower_bound_def)
  moreover have "window ! lower_bound window k < k'" if "matches_at window (lower_bound window k) k"
    using that assms(2) by (simp add: matches_at_def)
  ultimately have below: "window ! i < k'" if "i < lower_bound window k + of_bool (matches_at window (lower_bound window k) k)" for i
    using that by (cases "i = lower_bound window k") (auto split: if_splits simp: of_bool_def)
  show ?thesis
  proof (rule ccontr)
    assume "\<not> ?thesis"
    then have *: "lower_bound window k' < lower_bound window k + of_bool (matches_at window (lower_bound window k) k)" by simp
    moreover have "lower_bound window k + of_bool (matches_at window (lower_bound window k) k) \<le> length window"
      by (auto simp: matches_at_def Suc_le_eq)
    ultimately have "\<not> window ! lower_bound window k' < k'"
      using partition_point_stop [of "\<lambda>x. x < k'" window] by (simp add: lower_bound_def)
    with below [OF *] show False by simp
  qed
qed

lemma skewed_large_blocks_refines:
  assumes "strict small" "strict (drop l buf)" "k \<le> l" "l \<le> length buf"
    and "skewed_large_blocks (buf, l, k, small) = (buf', l', k', small')"
  shows "skewed_blocks (small, drop l buf, take k buf) = (small', drop l' buf', take k' buf') \<and>
    strict small' \<and> strict (drop l' buf') \<and> k' \<le> l' \<and> l' \<le> length buf'"
  using assms
proof (induction "length small" arbitrary: buf l k small rule: less_induct)
  case less
  show ?case
  proof (cases "4 \<le> length small \<and> l < length buf")
    case False
    then have "\<not> (4 \<le> length small \<and> drop l buf \<noteq> [])" by auto
    with False less.prems show ?thesis
      by (auto simp: skewed_large_blocks.simps [of buf] skewed_blocks.simps [of small])
  next
    case True
    define w where "w = drop l buf"
    have w: "strict w" using less.prems(2) by (simp add: w_def)
    define k0 k1 k2 k3 where ks: "k0 = small ! 0" "k1 = small ! 1" "k2 = small ! 2" "k3 = small ! 3"
    have less_ks: "k0 < k1" "k1 < k2" "k2 < k3"
      using True less.prems(1) unfolding ks by (auto intro!: strict_nth_less)
    define r0 r1 r2 r3 where rs: "r0 = lower_bound w k0" "r1 = lower_bound w k1" "r2 = lower_bound w k2" "r3 = lower_bound w k3"
    have bs: "binary_search_4way w k0 k1 k2 k3 = (r0, r1, r2, r3)"
      using w by (simp add: binary_search_4way_lower_bounds rs)
    note after = lower_bound_after [OF w less_ks(1), folded rs] lower_bound_after [OF w less_ks(2), folded rs]
      lower_bound_after [OF w less_ks(3), folded rs]
    obtain b0 n0 where e0: "emit (matches_at (drop l buf) r0 k0) k0 (buf, k) = (b0, n0)" by fastforce
    obtain b1 n1 where e1: "emit (matches_at (drop l b0) r1 k1) k1 (b0, n0) = (b1, n1)" by fastforce
    obtain b2 n2 where e2: "emit (matches_at (drop l b1) r2 k2) k2 (b1, n1) = (b2, n2)" by fastforce
    obtain b3 n3 where e3: "emit (matches_at (drop l b2) r3 k3) k3 (b2, n2) = (b3, n3)" by fastforce
    have kl: "k \<le> l + 0" using less.prems(3) by simp
    note f0 = emit_large [OF refl refl kl le0 e0, folded w_def]
    note f1 = emit_large [OF f0(2-4) after(1) e1, folded w_def]
    note f2 = emit_large [OF f1(2-4) after(2) e2, folded w_def]
    note f3 = emit_large [OF f2(2-4) after(3) e3, folded w_def]
    let ?d = "r3 + of_bool (matches_at w r3 k3)"
    have step: "skewed_large_blocks (buf, l, k, small) = skewed_large_blocks (b3, l + ?d, n3, drop 4 small)"
      unfolding skewed_large_blocks.simps [of buf] if_P [OF True] Let_def ks [symmetric] bs [unfolded w_def] prod.case
        e0 e1 e2 e3 fst_conv snd_conv f3(5) by (simp add: add.assoc)
    have dd: "drop (l + ?d) b3 = drop ?d w" unfolding f3(2) by (simp add: w_def add.commute)
    have ready: "4 \<le> length small \<and> w \<noteq> []" using True by (simp add: w_def)
    have step': "skewed_blocks (small, w, take k buf) = skewed_blocks (drop 4 small, drop (l + ?d) b3, take n3 b3)"
      unfolding skewed_blocks.simps [of small] if_P [OF ready] Let_def ks [symmetric] bs prod.case dd f0(1) f1(1) f2(1) f3(1)
      by (simp only: append_assoc)
    have "?d \<le> length w" by (auto simp: matches_at_def rs Suc_le_eq)
    then have bound: "l + ?d \<le> length b3" using f3(3) less.prems(4) by (simp add: w_def)
    have "strict (drop (l + ?d) b3)" unfolding dd using w by simp
    moreover have "length (drop 4 small) < length small" "strict (drop 4 small)" using True less.prems(1) by auto
    ultimately show ?thesis
      using less.hyps [of "drop 4 small" "l + ?d" b3 n3] f3(4) bound less.prems(5)
      unfolding step w_def [symmetric] step' by blast
  qed
qed

lemma skewed_large_rest_refines:
  assumes "strict small" "strict (drop l buf)" "k \<le> l" "l \<le> length buf"
  shows "(case skewed_large_rest buf l k small of (buf', k') \<Rightarrow> take k' buf')
    = skewed_rest (small, drop l buf, take k buf)"
  using assms
proof (induction small arbitrary: buf l k)
  case (Cons v small)
  show ?case
  proof (cases "l < length buf")
    case True
    let ?n = "lower_bound (drop l buf) v"
    have n: "?n \<le> length buf - l" using lower_bound_le [of "drop l buf" v] by simp
    have eq: "(l + ?n \<noteq> length buf \<and> buf ! (l + ?n) = v) = (drop ?n (drop l buf) \<noteq> [] \<and> hd (drop ?n (drop l buf)) = v)"
      using n True by (auto simp: hd_drop_conv_nth add.commute)
    have strict: "strict (drop (l + ?n) buf)" "strict (drop (l + ?n + 1) buf)"
      using Cons.prems(2) strict_drop [of "drop l buf" ?n] strict_drop [of "drop l buf" "?n + 1"]
      by (simp_all add: add.commute)
    show ?thesis
    proof (cases "l + ?n \<noteq> length buf \<and> buf ! (l + ?n) = v")
      case hit: True
      then have lt: "l + ?n < length buf" using n True by linarith
      have "drop (l + ?n + 1) (buf[k := v]) = drop (l + ?n + 1) buf"
        using Cons.prems(3) by (intro drop_update_before) simp
      then have "(case skewed_large_rest (buf[k := v]) (l + ?n + 1) (k + 1) small of (buf', k') \<Rightarrow> take k' buf')
          = skewed_rest (small, drop (l + ?n + 1) buf, take k buf @ [v])"
        using Cons.IH [of "l + ?n + 1" "buf[k := v]" "k + 1"] Cons.prems lt strict(2)
        by (simp add: take_Suc_update)
      moreover have "tl (drop ?n (drop l buf)) = drop (l + ?n + 1) buf"
        by (simp add: tl_drop drop_Suc add.commute)
      moreover have "skewed_rest (v # small, drop l buf, take k buf) =
          skewed_rest (small, tl (drop ?n (drop l buf)), take k buf @ [v])"
        unfolding skewed_rest.simps Let_def using True hit eq by auto
      ultimately show ?thesis
        unfolding skewed_large_rest.simps Let_def if_P [OF True] if_P [OF hit] by simp
    next
      case miss: False
      have "(case skewed_large_rest buf (l + ?n) k small of (buf', k') \<Rightarrow> take k' buf')
          = skewed_rest (small, drop (l + ?n) buf, take k buf)"
        using Cons.IH [of "l + ?n" buf k] Cons.prems n strict(1) by simp
      moreover have "skewed_rest (v # small, drop l buf, take k buf) = skewed_rest (small, drop ?n (drop l buf), take k buf)"
        unfolding skewed_rest.simps Let_def if_not_P [OF miss [unfolded eq]] using True by simp
      moreover have "drop ?n (drop l buf) = drop (l + ?n) buf" by (simp add: add.commute)
      ultimately show ?thesis
        unfolding skewed_large_rest.simps Let_def if_P [OF True] if_not_P [OF miss] by simp
    qed
  qed simp
qed simp

lemma skewed_large_inplace_eq:
  assumes "strict small" "strict large"
  shows "skewed_large_inplace small large = intersect_array_array_skewed small large"
proof -
  obtain buf l k s where eq: "skewed_large_blocks (large, 0, 0, small) = (buf, l, k, s)"
    by (cases "skewed_large_blocks (large, 0, 0, small)")
  from skewed_large_blocks_refines [OF assms(1) _ _ _ eq] assms(2)
  have *: "skewed_blocks (small, large, []) = (s, drop l buf, take k buf)"
    "strict s" "strict (drop l buf)" "k \<le> l" "l \<le> length buf" by auto
  from skewed_large_rest_refines [OF *(2-)] show ?thesis
    by (simp add: skewed_large_inplace_def eq intersect_array_array_skewed_def *(1))
qed

lemma intersect_array_array_inplace_eq:
  assumes "strict a" "strict b"
  shows "intersect_array_array_inplace a b = intersect_sorted_scalar a b"
proof -
  have "filter (\<lambda>v. v \<in> set y) x = intersect_sorted_scalar a b"
    if "x = a \<and> y = b \<or> x = b \<and> y = a" for x y
    using that assms by (intro strict_eqI) (auto simp: mem_scalar_merges strict_scalar_merges)
  then show ?thesis
    using assms by (auto simp: intersect_array_array_inplace_def Let_def skewed_small_inplace_eq
        skewed_large_inplace_eq intersect_array_array_skewed_filter intersect_sorted_inplace_eq)
qed

end
