(* ===== verification/Array_Refs.thy ===== *)
theory Array_Refs
  imports Handle Arrays_Inplace Value_Set
begin

text \<open>
  The array views of a container handle (\<open>container_handle.hpp\<close>): membership by block search, insertion
  and removal of one value, and the group forms that merge a sorted batch into the payload in place.
\<close>

subsection \<open>Membership: the block search\<close>

text \<open>The linear scans of \<open>sorted_array_contains\<close>: the first value not below the needle decides.\<close>

fun scan_contains :: "low list \<Rightarrow> low \<Rightarrow> bool" where
  "scan_contains [] v = False"
| "scan_contains (x # xs) v = (if x \<ge> v then x = v else scan_contains xs v)"

definition gap :: nat where
  "gap = 16"

function quarter_loop :: "low list \<Rightarrow> low \<Rightarrow> nat \<Rightarrow> nat \<Rightarrow> nat \<times> nat" where
  "quarter_loop carr v base n =
    (if n > 3
     then let quarter = n div 4;
              k1 = carr ! ((base + quarter + 1) * gap - 1);
              k2 = carr ! ((base + 2 * quarter + 1) * gap - 1);
              k3 = carr ! ((base + 3 * quarter + 1) * gap - 1);
              c1 = k1 < v; c2 = k2 < v; c3 = k3 < v
          in quarter_loop carr v (base + (of_bool c1 + of_bool c2 + of_bool c3) * quarter) (n - 3 * quarter)
     else (base, n))"
  by pat_completeness auto
termination
  by (relation "measure (\<lambda>(carr, v, base, n). n)") auto

function half_loop :: "low list \<Rightarrow> low \<Rightarrow> nat \<Rightarrow> nat \<Rightarrow> nat" where
  "half_loop carr v base n =
    (if n > 1
     then let half = n div 2
          in half_loop carr v (if carr ! ((base + half + 1) * gap - 1) < v then base + half else base) (n - half)
     else base)"
  by pat_completeness auto
termination
  by (relation "measure (\<lambda>(carr, v, base, n). n)") auto

declare quarter_loop.simps [simp del] half_loop.simps [simp del]

definition sorted_array_contains :: "low list \<Rightarrow> low \<Rightarrow> bool" where
  "sorted_array_contains carr v =
    (let card_n = length carr
     in if card_n < gap then scan_contains carr v
        else let num_blocks = card_n div gap
             in case quarter_loop carr v 0 num_blocks of (base, n) \<Rightarrow>
               (let base = half_loop carr v base n;
                    lo = (if carr ! ((base + 1) * gap - 1) < v then base + 1 else base)
                in if lo < num_blocks then scan_contains (take gap (drop (lo * gap) carr)) v
                   else scan_contains (drop (num_blocks * gap) carr) v))"

lemma scan_contains_iff: "strict xs \<Longrightarrow> scan_contains xs v \<longleftrightarrow> v \<in> set xs"
  by (induction xs) auto

text \<open>The last value of each whole block; the search runs over these.\<close>

definition block_keys :: "low list \<Rightarrow> low list" where
  "block_keys carr = map (\<lambda>i. carr ! ((i + 1) * gap - 1)) [0..<length carr div gap]"

lemma length_block_keys [simp]: "length (block_keys carr) = length carr div gap"
  by (simp add: block_keys_def)

lemma nth_block_keys: "i < length carr div gap \<Longrightarrow> block_keys carr ! i = carr ! ((i + 1) * gap - 1)"
  by (simp add: block_keys_def)

lemma block_end_less: "i < n div gap \<Longrightarrow> (i + 1) * gap - 1 < n"
  unfolding gap_def by (cases n) (auto simp: Suc_le_eq [symmetric] less_eq_div_iff_mult_less_eq intro: le_less_trans)

lemma strict_block_keys:
  assumes "strict carr"
  shows "strict (block_keys carr)"
proof -
  have "carr ! ((i + 1) * gap - 1) < carr ! ((j + 1) * gap - 1)" if "i < j" "j < length carr div gap" for i j
  proof (rule strict_nth_less [OF assms])
    show "(i + 1) * gap - 1 < (j + 1) * gap - 1" using that(1) by (simp add: gap_def)
    show "(j + 1) * gap - 1 < length carr" using that(2) by (rule block_end_less)
  qed
  then show ?thesis by (simp add: sorted_wrt_iff_nth_less nth_block_keys)
qed

lemma half_loop_halving:
  "base + n \<le> length carr div gap \<Longrightarrow> half_loop carr v base n = halving (block_keys carr) v n base"
proof (induction carr v base n rule: half_loop.induct)
  case (1 carr v base n)
  show ?case
  proof (cases "n > 1")
    case True
    let ?base = "halve (block_keys carr) v (n div 2) base"
    have "(if carr ! ((base + n div 2 + 1) * gap - 1) < v then base + n div 2 else base) = ?base"
      using True "1.prems" by (simp add: halve_def nth_block_keys)
    moreover have "half_loop carr v ?base (n - n div 2) = halving (block_keys carr) v (n - n div 2) ?base"
      using "1.IH" [OF True refl] "1.prems" unfolding calculation
      by (cases "block_keys carr ! (base + n div 2) < v") (simp_all add: halve_def)
    ultimately show ?thesis
      using True by (simp only: half_loop.simps [of carr v base n] halving.simps [of _ _ n] Let_def if_True)
  qed (simp add: half_loop.simps [of carr v base n] halving.simps [of _ _ n])
qed

lemma halving_less: "0 < n \<Longrightarrow> halving array k n base < base + n"
proof (induction n arbitrary: base rule: less_induct)
  case (less n)
  show ?case
  proof (cases "n > 1")
    case True
    then have "halving array k (n - n div 2) (halve array k (n div 2) base) < halve array k (n div 2) base + (n - n div 2)"
      by (intro less.IH) auto
    moreover have "halve array k (n div 2) base + (n - n div 2) \<le> base + n" by (auto simp: halve_def)
    moreover have "halving array k n base = halving array k (n - n div 2) (halve array k (n div 2) base)"
      using True by (subst halving.simps) simp
    ultimately show ?thesis by simp
  next
    case False
    then have "halving array k n base = base" by (subst halving.simps) simp
    with less.prems show ?thesis by simp
  qed
qed

lemma quarter_loop_bracket:
  assumes "strict carr" "0 < n" "base + n \<le> length carr div gap"
    and "\<forall>i<base. block_keys carr ! i < v" "\<forall>i<length carr div gap. base + n \<le> i \<longrightarrow> v \<le> block_keys carr ! i"
    and "quarter_loop carr v base n = (base', n')"
  shows "0 < n' \<and> base' + n' \<le> length carr div gap \<and> (\<forall>i<base'. block_keys carr ! i < v) \<and>
    (\<forall>i<length carr div gap. base' + n' \<le> i \<longrightarrow> v \<le> block_keys carr ! i)"
  using assms(2-)
proof (induction n arbitrary: base rule: less_induct)
  case (less n)
  show ?case
  proof (cases "n > 3")
    case False
    with less.prems show ?thesis by (simp add: quarter_loop.simps [of carr v base n])
  next
    case True
    let ?q = "n div 4" and ?K = "block_keys carr"
    have q: "0 < ?q" "4 * ?q \<le> n" using True by auto
    have K: "?K ! (base + j * ?q) = carr ! ((base + j * ?q + 1) * gap - 1)" if "j \<le> 3" for j
    proof -
      have "j * ?q \<le> 3 * ?q" using that by (rule mult_le_mono1)
      then show ?thesis using q less.prems(2) by (intro nth_block_keys) linarith
    qed
    have mono: "?K ! i \<le> ?K ! j" if "i \<le> j" "j < length carr div gap" for i j
      using strict_block_keys [OF assms(1)] that by (intro strict_nth_mono) auto
    define t :: nat where "t = of_bool (?K ! (base + 1 * ?q) < v) + of_bool (?K ! (base + 2 * ?q) < v) + of_bool (?K ! (base + 3 * ?q) < v)"
    have step: "quarter_loop carr v base n = quarter_loop carr v (base + t * ?q) (n - 3 * ?q)"
      using True K [of 1] K [of 2] K [of 3] by (simp add: quarter_loop.simps [of carr v base n] t_def Let_def)
    have t: "t \<le> 3" by (simp add: t_def)
    have in_range: "base + 3 * ?q < length carr div gap" using q less.prems(2) by linarith
    have c: "?K ! (base + 3 * ?q) < v \<Longrightarrow> ?K ! (base + 2 * ?q) < v" "?K ! (base + 2 * ?q) < v \<Longrightarrow> ?K ! (base + 1 * ?q) < v"
      using mono [of "base + 2 * ?q" "base + 3 * ?q"] mono [of "base + 1 * ?q" "base + 2 * ?q"] in_range by auto
    have ts: "t = 0 \<and> \<not> ?K ! (base + 1 * ?q) < v \<or> t = 1 \<and> ?K ! (base + 1 * ?q) < v \<and> \<not> ?K ! (base + 2 * ?q) < v \<or>
        t = 2 \<and> ?K ! (base + 2 * ?q) < v \<and> \<not> ?K ! (base + 3 * ?q) < v \<or> t = 3 \<and> ?K ! (base + 3 * ?q) < v"
      using c by (auto simp: t_def of_bool_def)
    have hit: "?K ! (base + t * ?q) < v" if "0 < t"
      using that ts by auto
    have miss: "v \<le> ?K ! (base + u * ?q)" if "t < 3" "u = t + 1" for u
    proof -
      have "t = 0 \<and> u = 1 \<or> t = 1 \<and> u = 2 \<or> t = 2 \<and> u = 3" using that by auto
      then show ?thesis using ts by (auto simp: not_less)
    qed
    have tq: "t * ?q \<le> 3 * ?q" "(t + 1) * ?q = t * ?q + ?q" using t by (auto intro: mult_le_mono1)
    have below: "\<forall>i<base + t * ?q. ?K ! i < v"
    proof (intro allI impI)
      fix i assume i: "i < base + t * ?q"
      show "?K ! i < v"
      proof (cases "t = 0")
        case False
        have "?K ! i \<le> ?K ! (base + t * ?q)" using i tq in_range by (intro mono) linarith+
        also have "\<dots> < v" using False hit by simp
        finally show ?thesis .
      qed (use i less.prems(3) in simp)
    qed
    have above: "\<forall>i<length carr div gap. base + t * ?q + (n - 3 * ?q) \<le> i \<longrightarrow> v \<le> ?K ! i"
    proof (intro allI impI)
      fix i assume i: "i < length carr div gap" "base + t * ?q + (n - 3 * ?q) \<le> i"
      show "v \<le> ?K ! i"
      proof (cases "t < 3")
        case True
        have "v \<le> ?K ! (base + (t + 1) * ?q)" using True refl by (rule miss)
        also have "\<dots> \<le> ?K ! i" using i q tq by (intro mono) linarith+
        finally show ?thesis .
      next
        case False
        then have "t = 3" using t by simp
        with i q less.prems(4) show ?thesis by simp
      qed
    qed
    have "n - 3 * ?q < n" "0 < n - 3 * ?q" "base + t * ?q + (n - 3 * ?q) \<le> length carr div gap"
      using q tq less.prems(2) by linarith+
    from less.IH [OF this(1,2) this(3) below above] less.prems(5) show ?thesis unfolding step by blast
  qed
qed

lemma sorted_array_contains_iff:
  assumes "strict carr"
  shows "sorted_array_contains carr v \<longleftrightarrow> v \<in> set carr"
proof (cases "length carr < gap")
  case True
  then show ?thesis using assms by (simp add: sorted_array_contains_def scan_contains_iff)
next
  case False
  let ?nb = "length carr div gap" and ?K = "block_keys carr"
  have nb: "0 < ?nb" using False by (simp add: gap_def)
  obtain base n where q: "quarter_loop carr v 0 ?nb = (base, n)" by (cases "quarter_loop carr v 0 ?nb")
  have b: "0 < n" "base + n \<le> ?nb" "\<forall>i<base. ?K ! i < v" "\<forall>i<?nb. base + n \<le> i \<longrightarrow> v \<le> ?K ! i"
    using quarter_loop_bracket [OF assms nb _ _ _ q] by auto
  let ?h = "half_loop carr v base n"
  have h: "?h + of_bool (?K ! ?h < v) = lower_bound ?K v"
    unfolding half_loop_halving [OF b(2)]
    by (rule halving_correct) (use strict_block_keys [OF assms] b in auto)
  have "?h < ?nb" using halving_less [OF b(1), of ?K v base] b(2) by (simp add: half_loop_halving)
  then have lo: "(if carr ! ((?h + 1) * gap - 1) < v then ?h + 1 else ?h) = lower_bound ?K v"
    unfolding nth_block_keys [OF \<open>?h < ?nb\<close>, symmetric] using h by (auto split: if_splits)
  define lo where "lo = lower_bound ?K v"
  have passed: "v \<notin> set (take (lo * gap) carr)"
  proof
    assume "v \<in> set (take (lo * gap) carr)"
    then obtain i where i: "i < lo * gap" "i < length carr" "v = carr ! i" by (auto simp: in_set_conv_nth)
    have "i div gap < lo" using i(1) by (simp add: gap_def less_mult_imp_div_less)
    then have k: "i div gap < ?nb" "?K ! (i div gap) < v"
      using lower_bound_le [of ?K v] partition_point_before [of "i div gap" "\<lambda>x. x < v" ?K]
      by (simp_all add: lo_def lower_bound_def)
    have "carr ! i \<le> carr ! ((i div gap + 1) * gap - 1)"
      using assms block_end_less [OF k(1)] by (intro strict_nth_mono) (simp_all add: gap_def)
    with k i(3) show False by (simp add: nth_block_keys)
  qed
  have split: "v \<in> set carr \<longleftrightarrow> v \<in> set (drop (lo * gap) carr)"
    using passed by (metis Un_iff append_take_drop_id set_append)
  show ?thesis
  proof (cases "lo < ?nb")
    case True
    then have key: "v \<le> carr ! ((lo + 1) * gap - 1)"
      using partition_point_stop [of "\<lambda>x. x < v" ?K] by (simp add: lo_def lower_bound_def nth_block_keys not_less)
    have "v \<notin> set (drop ((lo + 1) * gap) carr)"
    proof
      assume "v \<in> set (drop ((lo + 1) * gap) carr)"
      then obtain i where i: "(lo + 1) * gap + i < length carr" "v = carr ! ((lo + 1) * gap + i)"
        by (auto dest: in_set_drop_nth)
      have "carr ! ((lo + 1) * gap - 1) < v"
        unfolding i(2) using assms i(1) by (intro strict_nth_less) (simp_all add: gap_def)
      with key show False by simp
    qed
    moreover have "drop (lo * gap) carr = take gap (drop (lo * gap) carr) @ drop ((lo + 1) * gap) carr"
      by (metis append_take_drop_id drop_drop mult.commute mult_Suc_right Suc_eq_plus1 add.commute)
    ultimately have "v \<in> set carr \<longleftrightarrow> v \<in> set (take gap (drop (lo * gap) carr))"
      unfolding split by (metis Un_iff set_append)
    then show ?thesis
      using assms False True lo q by (simp add: sorted_array_contains_def Let_def lo_def [symmetric] scan_contains_iff)
  next
    case False
    then have "lo = ?nb" using lower_bound_le [of ?K v] by (simp add: lo_def)
    then show ?thesis
      using assms \<open>\<not> length carr < gap\<close> lo q split
      by (simp add: sorted_array_contains_def Let_def lo_def [symmetric] scan_contains_iff)
  qed
qed

definition array_contains :: "container \<Rightarrow> low \<Rightarrow> bool" where
  "array_contains h v = sorted_array_contains (array_values h) v"

text \<open>\<open>next_after\<close> with the cursor of a walk: the value returned and the cursor left.\<close>

definition array_next_after :: "container \<Rightarrow> low \<Rightarrow> nat \<Rightarrow> low option \<times> nat" where
  "array_next_after h v position =
    (let next_p = position + 1
     in if next_p = length (array_values h) then (None, position) else (Some (array_values h ! next_p), next_p))"

subsection \<open>One value\<close>

definition set_array_values :: "low list \<Rightarrow> container \<Rightarrow> container" where
  "set_array_values vs h = h\<lparr>payload := Array_payload vs\<rparr>"

text \<open>\<open>capacity\<close> is the room of the payload's current storage: an argument, since the result does not
  depend on it.\<close>

definition array_try_append :: "nat \<Rightarrow> low \<Rightarrow> container \<Rightarrow> bool \<times> container" where
  "array_try_append capacity v h =
    (let vs = array_values h; n = length vs
     in if n \<noteq> 0 \<and> last vs < v \<and> n < capacity
        then (True, set_max_value v (set_cardinality (n + 1) (set_array_values (vs @ [v]) h)))
        else (False, h))"

text \<open>The slot that \<open>resize_uninitialized\<close> adds is overwritten before it is read; it is written as 0.\<close>

definition array_add_out_of_order :: "low \<Rightarrow> container \<Rightarrow> bool \<times> container" where
  "array_add_out_of_order v h =
    (let vs = array_values h; n = length vs
     in if n = 0 \<or> last vs < v then
          (let h = set_cardinality (n + 1) (set_array_values (vs @ [v]) h)
           in (True, if n = 0 then set_endpoints v v h else set_max_value v h))
        else
          (let loc = lower_bound vs v
           in if loc \<noteq> n \<and> vs ! loc = v then (False, h)
              else let data = vs @ [0];
                       data = memmove data (loc + 1) loc (n - loc);
                       data = data[loc := v]
                   in (True, array_sync_header (set_array_values data h))))"

definition array_add :: "nat \<Rightarrow> low \<Rightarrow> container \<Rightarrow> bool \<times> container" where
  "array_add capacity v h =
    (case array_try_append capacity v h of (appended, h) \<Rightarrow>
       if appended then (True, h) else array_add_out_of_order v h)"

definition array_remove :: "low \<Rightarrow> container \<Rightarrow> bool \<times> container" where
  "array_remove v h =
    (let vs = array_values h; n = length vs
     in if n = 0 \<or> last vs < v then (False, h)
        else let loc = lower_bound vs v
             in if loc = n \<or> vs ! loc \<noteq> v then (False, h)
                else let data = memmove vs loc (loc + 1) (n - loc - 1)
                     in (True, array_sync_header (set_array_values (take (n - 1) data) h)))"

subsection \<open>A sorted batch\<close>

text \<open>\<open>add_sorted\<close>: \<open>held\<close> values at the front of \<open>data\<close> are not yet moved, those from \<open>out\<close> on are merged.
  The gallop probes \<open>known_above - step\<close> for doubling steps while the probe is inside the buffer.\<close>

function gallop_down :: "low list \<Rightarrow> low \<Rightarrow> nat \<Rightarrow> nat \<Rightarrow> nat \<times> nat" where
  "gallop_down data v known_above step =
    (if 0 < step \<and> step \<le> known_above \<and> v < data ! (known_above - step)
     then gallop_down data v (known_above - step) (step * 2)
     else (known_above, step))"
  by pat_completeness auto
termination
  by (relation "measure (\<lambda>(data, v, known_above, step). known_above)") auto

declare gallop_down.simps [simp del]

definition above_position :: "low list \<Rightarrow> nat \<Rightarrow> low \<Rightarrow> nat" where
  "above_position data held v =
    (if held \<noteq> 0 \<and> v < data ! (held - 1)
     then case gallop_down data v (held - 1) 1 of (known_above, step) \<Rightarrow>
            (let lo = (if step \<le> known_above then known_above - step + 1 else 0)
             in lo + upper_bound (take (known_above - lo) (drop lo data)) v)
     else held)"

function shift_up :: "low \<Rightarrow> low list \<Rightarrow> nat \<Rightarrow> nat \<Rightarrow> low list \<times> nat \<times> nat" where
  "shift_up v data held out =
    (if held \<noteq> 0 \<and> v < data ! (held - 1)
     then shift_up v (data[out - 1 := data ! (held - 1)]) (held - 1) (out - 1)
     else (data, held, out))"
  by pat_completeness auto
termination
  by (relation "measure (\<lambda>(v, data, held, out). held)") auto

declare shift_up.simps [simp del]

definition add_sorted_step :: "bool \<Rightarrow> low \<Rightarrow> low list \<times> nat \<times> nat \<Rightarrow> low list \<times> nat \<times> nat" where
  "add_sorted_step skewed v s =
    (case s of (data, held, out) \<Rightarrow>
      (case (if skewed
             then (let above = above_position data held v; block = held - above; out = out - block
                   in (memmove data out above block, above, out))
             else shift_up v data held out) of (data, held, out) \<Rightarrow>
        (let held = (if held \<noteq> 0 \<and> data ! (held - 1) = v then held - 1 else held)
         in (data[out - 1 := v], held, out - 1))))"

definition array_add_sorted :: "low list \<Rightarrow> container \<Rightarrow> nat \<times> container" where
  "array_add_sorted sorted_values h =
    (let vs = array_values h; n = length vs
     in if sorted_values = [] then (0, h)
        else if n = 0 \<or> last vs < hd sorted_values
        then (length sorted_values, array_sync_header (set_array_values (vs @ sorted_values) h))
        else
          let incoming = length sorted_values;
              skewed = incoming * kSkewedIntersectRatioThreshold < n;
              data = vs @ replicate incoming 0
          in case fold (add_sorted_step skewed) (rev sorted_values) (data, n, n + incoming) of
               (data, held, out) \<Rightarrow>
                 (let added = incoming - (out - held);
                      data = (if out \<noteq> held
                              then take (n + added) (memmove data held out (n + incoming - out)) else data)
                  in (added, array_sync_header (set_array_values data h))))"

text \<open>\<open>remove_sorted\<close>: values before \<open>dst\<close> are kept, those from \<open>src\<close> on are not yet read.\<close>

function gallop_up :: "low list \<Rightarrow> low \<Rightarrow> nat \<Rightarrow> nat \<Rightarrow> nat \<times> nat" where
  "gallop_up data v known_below step =
    (if 0 < step \<and> step < length data - known_below \<and> data ! (known_below + step) < v
     then gallop_up data v (known_below + step) (step * 2)
     else (known_below, step))"
  by pat_completeness auto
termination
  by (relation "measure (\<lambda>(data, v, known_below, step). length data - known_below)") auto

declare gallop_up.simps [simp del]

definition at_position :: "low list \<Rightarrow> nat \<Rightarrow> low \<Rightarrow> nat" where
  "at_position data src v =
    (if data ! src < v
     then case gallop_up data v src 1 of (known_below, step) \<Rightarrow>
            known_below + 1 + lower_bound (take (min step (length data - known_below) - 1) (drop (known_below + 1) data)) v
     else src)"

definition remove_step :: "low \<Rightarrow> low list \<times> nat \<times> nat \<Rightarrow> low list \<times> nat \<times> nat" where
  "remove_step v s =
    (case s of (data, dst, src) \<Rightarrow>
      (let at = at_position data src v;
           data = (if dst \<noteq> src then memmove data dst src (at - src) else data);
           dst = dst + (at - src);
           src = at;
           src = (if src \<noteq> length data \<and> data ! src = v then src + 1 else src)
       in (data, dst, src)))"

primrec remove_skewed :: "low list \<Rightarrow> low list \<times> nat \<times> nat \<Rightarrow> low list \<times> nat \<times> nat" where
  "remove_skewed [] s = s"
| "remove_skewed (v # rm) s =
    (if snd (snd s) = length (fst s) then s else remove_skewed rm (remove_step v s))"

function remove_merge :: "low list \<Rightarrow> low list \<times> nat \<times> nat \<Rightarrow> low list \<times> nat \<times> nat" where
  "remove_merge rm (data, dst, src) =
    (if src < length data \<and> rm \<noteq> [] then
       if data ! src < hd rm then remove_merge rm (data[dst := data ! src], dst + 1, src + 1)
       else if data ! src = hd rm then remove_merge (tl rm) (data, dst, src + 1)
       else remove_merge (tl rm) (data, dst, src)
     else (data, dst, src))"
  by pat_completeness auto
termination
  by (relation "measure (\<lambda>(rm, data, dst, src). length rm + (length data - src))") (auto simp: neq_Nil_conv)

declare remove_merge.simps [simp del]

definition array_remove_sorted :: "low list \<Rightarrow> container \<Rightarrow> nat \<times> container" where
  "array_remove_sorted sorted_values h =
    (let vs = array_values h; n = length vs
     in if n = 0 \<or> sorted_values = [] \<or> last vs < hd sorted_values then (0, h)
        else
          let src = lower_bound vs (hd sorted_values)
          in case (if length sorted_values * kSkewedIntersectRatioThreshold < n
                   then remove_skewed sorted_values (vs, src, src)
                   else remove_merge sorted_values (vs, src, src)) of
               (data, dst, src) \<Rightarrow>
                 (let removed = src - dst
                  in if removed \<noteq> 0
                     then (removed, array_sync_header (set_array_values
                             (take (n - removed) (memmove data dst src (n - src))) h))
                     else (removed, set_array_values data h)))"

subsection \<open>Correctness: one value\<close>

lemma wf_arrayE:
  assumes "wf_container h" "holds_array h"
  obtains vs where "payload h = Array_payload vs" "strict vs" "\<not> endpoints_stale h" "\<not> cardinality_stale h"
    "array_values h = vs" "values_of h = array_set vs" "vs \<noteq> [] \<Longrightarrow> min_end h = hd vs"
proof -
  from assms(2) obtain vs where p: "payload h = Array_payload vs" by (auto simp: holds_payload)
  with assms(1) show ?thesis using wf_container_array [OF p] by (intro that [of vs]) auto
qed

lemma set_array_values_simps [simp]:
  "payload (set_array_values vs h) = Array_payload vs" "array_values (set_array_values vs h) = vs"
  "values_of (set_array_values vs h) = array_set vs" "holds_array (set_array_values vs h)"
  "endpoints_stale (set_array_values vs h) = endpoints_stale h"
  "cardinality_stale (set_array_values vs h) = cardinality_stale h"
  "min_end (set_array_values vs h) = min_end h"
  by (simp_all add: set_array_values_def array_values_def values_of_def holds_array_def kind_def)

lemma wf_sync_set_array:
  assumes "strict vs" "\<not> endpoints_stale h"
  shows "wf_container (array_sync_header (set_array_values vs h))"
    "values_of (array_sync_header (set_array_values vs h)) = array_set vs"
    "holds_array (array_sync_header (set_array_values vs h))"
  using assms by (auto intro!: wf_array_sync_header simp: holds_payload)

lemma array_contains_correct:
  "wf_container h \<Longrightarrow> holds_array h \<Longrightarrow> array_contains h v \<longleftrightarrow> unat v \<in> values_of h"
  by (erule wf_arrayE) (simp_all add: array_contains_def sorted_array_contains_iff)

lemma wf_append_header:
  assumes "payload h = Array_payload vs" "wf_container h" "vs = [] \<or> last vs < v"
  shows "vs \<noteq> [] \<Longrightarrow> wf_container (set_max_value v (set_cardinality (length vs + 1) (set_array_values (vs @ [v]) h)))"
    and "vs = [] \<Longrightarrow> wf_container (set_endpoints v v (set_cardinality (length vs + 1) (set_array_values (vs @ [v]) h)))"
proof -
  have s: "strict (vs @ [v])"
  proof -
    have "strict vs" using assms(1,2) by (simp add: wf_container_def)
    moreover have "x < v" if "x \<in> set vs" for x
    proof -
      have "x \<le> last vs" using strict_last_Max [OF \<open>strict vs\<close>] that by (cases "vs = []") auto
      with assms(3) that show ?thesis by (cases "vs = []") auto
    qed
    ultimately show ?thesis by (simp add: sorted_wrt_append)
  qed
  then show "vs \<noteq> [] \<Longrightarrow> wf_container (set_max_value v (set_cardinality (length vs + 1) (set_array_values (vs @ [v]) h)))"
    and "vs = [] \<Longrightarrow> wf_container (set_endpoints v v (set_cardinality (length vs + 1) (set_array_values (vs @ [v]) h)))"
    using assms(2) unfolding wf_container_array [OF assms(1)]
    by (subst wf_container_array, simp, simp add: set_max_value_def set_endpoints_def set_cardinality_def)+
qed

lemma insert_at_lower_bound:
  assumes "strict vs" "v \<notin> set vs"
  defines "k \<equiv> lower_bound vs v"
  shows "strict (take k vs @ v # drop k vs)"
proof -
  have "x < v" if "x \<in> set (take k vs)" for x
    using that unfolding k_def by (rule strict_take_lower_bound)
  moreover have "v < x" if "x \<in> set (drop k vs)" for x
  proof -
    have "v \<le> x" using assms(1) that unfolding k_def by (rule strict_drop_lower_bound)
    moreover have "x \<noteq> v" using that assms(2) by (auto dest: in_set_dropD)
    ultimately show ?thesis by simp
  qed
  moreover have "strict (take k vs @ drop k vs)" using assms(1) by simp
  ultimately show ?thesis by (intro strict_insert_between) auto
qed

lemma array_add_out_of_order_correct:
  assumes "wf_container h" "holds_array h"
  shows "wf_container (snd (array_add_out_of_order v h)) \<and> holds_array (snd (array_add_out_of_order v h)) \<and>
    values_of (snd (array_add_out_of_order v h)) = insert (unat v) (values_of h) \<and>
    (fst (array_add_out_of_order v h) \<longleftrightarrow> unat v \<notin> values_of h)"
proof -
  obtain vs where p: "payload h = Array_payload vs" and strict: "strict vs" and stale: "\<not> endpoints_stale h"
    and vs [simp]: "array_values h = vs" "values_of h = array_set vs"
    using assms by (rule wf_arrayE)
  let ?k = "lower_bound vs v"
  show ?thesis
  proof (cases "vs = [] \<or> last vs < v")
    case True
    have "v \<notin> set vs" using True strict_last_Max [OF strict] by (cases "vs = []") fastforce+
    then show ?thesis
      using True wf_append_header [OF p assms(1) True]
      by (cases "vs = []") (auto simp: array_add_out_of_order_def Let_def holds_payload)
  next
    case False
    have mem: "?k \<noteq> length vs \<and> vs ! ?k = v \<longleftrightarrow> v \<in> set vs"
      using lower_bound_mem [OF strict, of v] by (simp add: nat_less_le)
    show ?thesis
    proof (cases "v \<in> set vs")
      case True
      with False mem assms show ?thesis by (simp add: array_add_out_of_order_def Let_def insert_absorb)
    next
      case notin: False
      have k: "?k \<le> length vs" by simp
      have "(memmove (vs @ [0]) (?k + 1) ?k (length vs - ?k))[?k := v] = take ?k vs @ v # drop ?k vs"
      proof (cases "?k = length vs")
        case True
        then show ?thesis by (simp add: memmove_def)
      next
        case False
        then have lt: "?k < length vs" by (simp add: nat_less_le)
        then have "memmove (vs @ [0]) (?k + 1) ?k (length vs - ?k) = take ?k vs @ vs ! ?k # drop ?k vs"
          by (simp add: memmove_inside take_Suc_conv_app_nth)
        then show ?thesis using lt by (simp add: list_update_append)
      qed
      then have "array_add_out_of_order v h = (True, array_sync_header (set_array_values (take ?k vs @ v # drop ?k vs) h))"
        using False mem notin by (auto simp: array_add_out_of_order_def Let_def)
      moreover have "array_set (take ?k vs @ v # drop ?k vs) = insert (unat v) (array_set vs)"
        using array_set_append [of "take ?k vs" "drop ?k vs"] by auto
      ultimately show ?thesis
        using wf_sync_set_array [OF insert_at_lower_bound [OF strict notin] stale] notin by simp
    qed
  qed
qed

lemma array_add_correct:
  assumes "wf_container h" "holds_array h"
  shows "wf_container (snd (array_add cap v h))" "holds_array (snd (array_add cap v h))"
    "values_of (snd (array_add cap v h)) = insert (unat v) (values_of h)"
    "fst (array_add cap v h) \<longleftrightarrow> unat v \<notin> values_of h"
proof -
  obtain vs where p: "payload h = Array_payload vs" and strict: "strict vs" and stale: "\<not> endpoints_stale h"
    and vs [simp]: "array_values h = vs" "values_of h = array_set vs"
    using assms by (rule wf_arrayE)
  have "wf_container (snd (array_add cap v h)) \<and> holds_array (snd (array_add cap v h)) \<and>
    values_of (snd (array_add cap v h)) = insert (unat v) (values_of h) \<and>
    (fst (array_add cap v h) \<longleftrightarrow> unat v \<notin> values_of h)"
  proof (cases "vs \<noteq> [] \<and> last vs < v \<and> length vs < cap")
    case True
    then have "v \<notin> set vs" using strict_last_Max [OF strict] by fastforce
    then show ?thesis
      using True wf_append_header(1) [OF p assms(1), of v]
      by (auto simp: array_add_def array_try_append_def Let_def holds_payload)
  next
    case False
    then have "array_add cap v h = array_add_out_of_order v h"
      by (auto simp: array_add_def array_try_append_def Let_def)
    then show ?thesis using array_add_out_of_order_correct [OF assms, of v] by simp
  qed
  then show "wf_container (snd (array_add cap v h))" "holds_array (snd (array_add cap v h))"
    "values_of (snd (array_add cap v h)) = insert (unat v) (values_of h)"
    "fst (array_add cap v h) \<longleftrightarrow> unat v \<notin> values_of h" by blast+
qed

lemma array_remove_correct:
  assumes "wf_container h" "holds_array h"
  shows "wf_container (snd (array_remove v h))" "holds_array (snd (array_remove v h))"
    "values_of (snd (array_remove v h)) = values_of h - {unat v}"
    "fst (array_remove v h) \<longleftrightarrow> unat v \<in> values_of h"
proof -
  obtain vs where p: "payload h = Array_payload vs" and strict: "strict vs" and stale: "\<not> endpoints_stale h"
    and vs [simp]: "array_values h = vs" "values_of h = array_set vs"
    using assms by (rule wf_arrayE)
  let ?k = "lower_bound vs v"
  have "wf_container (snd (array_remove v h)) \<and> holds_array (snd (array_remove v h)) \<and>
    values_of (snd (array_remove v h)) = values_of h - {unat v} \<and> (fst (array_remove v h) \<longleftrightarrow> unat v \<in> values_of h)"
  proof (cases "v \<in> set vs")
    case False
    then have "?k = length vs \<or> vs ! ?k \<noteq> v" using lower_bound_mem [OF strict, of v] lower_bound_le [of vs v] by auto
    then have "array_remove v h = (False, h)" by (auto simp: array_remove_def Let_def)
    with False assms show ?thesis by simp
  next
    case True
    then have k: "?k < length vs" "vs ! ?k = v" using lower_bound_mem [OF strict, of v] by auto
    have "v \<le> last vs" using strict_last_Max [OF strict] True by (cases "vs = []") auto
    then have step: "array_remove v h = (True, array_sync_header (set_array_values
        (take (length vs - 1) (memmove vs ?k (?k + 1) (length vs - ?k - 1))) h))"
      using True k by (auto simp: array_remove_def Let_def)
    have eq: "take (length vs - 1) (memmove vs ?k (?k + 1) (length vs - ?k - 1)) = take ?k vs @ drop (?k + 1) vs"
      using k(1) by (simp add: memmove_inside)
    have vs_split: "vs = take ?k vs @ v # drop (?k + 1) vs"
      using id_take_nth_drop [OF k(1)] unfolding k(2) Suc_eq_plus1 .
    then have "strict (take ?k vs @ v # drop (?k + 1) vs)" using strict by (rule subst)
    then have s: "strict (take ?k vs @ drop (?k + 1) vs)" "v \<notin> set (take ?k vs @ drop (?k + 1) vs)"
      by (auto simp: sorted_wrt_append)
    have "set vs = insert v (set (take ?k vs @ drop (?k + 1) vs))"
      using arg_cong [OF vs_split, of set] by auto
    with s(2) have "array_set (take ?k vs @ drop (?k + 1) vs) = array_set vs - {unat v}"
      using mem_array_set [of v "take ?k vs @ drop (?k + 1) vs"] by (simp add: array_set_def)
    then show ?thesis
      using wf_sync_set_array [OF s(1) stale] True unfolding step eq by simp
  qed
  then show "wf_container (snd (array_remove v h))" "holds_array (snd (array_remove v h))"
    "values_of (snd (array_remove v h)) = values_of h - {unat v}"
    "fst (array_remove v h) \<longleftrightarrow> unat v \<in> values_of h" by blast+
qed

subsection \<open>Correctness: a sorted batch\<close>

lemma gallop_down_bracket:
  assumes "gallop_down data v ka step = (ka', step')" "0 < step" "v < data ! ka"
  shows "ka' \<le> ka" "v < data ! ka'" "0 < step'" "step' \<le> ka' \<Longrightarrow> \<not> v < data ! (ka' - step')"
proof -
  have "ka' \<le> ka \<and> v < data ! ka' \<and> 0 < step' \<and> (step' \<le> ka' \<longrightarrow> \<not> v < data ! (ka' - step'))"
    using assms
  proof (induction data v ka step rule: gallop_down.induct)
    case (1 data v ka step)
    show ?case
    proof (cases "0 < step \<and> step \<le> ka \<and> v < data ! (ka - step)")
      case True
      then have "gallop_down data v (ka - step) (step * 2) = (ka', step')"
        using "1.prems"(1) by (simp add: gallop_down.simps [of data v ka step])
      from "1.IH" [OF True this] True show ?thesis by auto
    next
      case False
      with "1.prems" show ?thesis by (auto simp: gallop_down.simps [of data v ka step])
    qed
  qed
  then show "ka' \<le> ka" "v < data ! ka'" "0 < step'" "step' \<le> ka' \<Longrightarrow> \<not> v < data ! (ka' - step')" by auto
qed

lemma above_position_correct:
  fixes v :: low
  assumes "strict (take held data)" "held \<le> length data"
  defines "p \<equiv> above_position data held v"
  shows "p \<le> held" "p = 0 \<or> data ! (p - 1) \<le> v" "\<forall>i. p \<le> i \<and> i < held \<longrightarrow> v < data ! i"
proof -
  have mono: "data ! i \<le> data ! j" if "i \<le> j" "j < held" for i j
    using strict_nth_mono [OF assms(1), of i j] that assms(2) by simp
  have "p \<le> held \<and> (p = 0 \<or> data ! (p - 1) \<le> v) \<and> (\<forall>i. p \<le> i \<and> i < held \<longrightarrow> v < data ! i)"
  proof (cases "held \<noteq> 0 \<and> v < data ! (held - 1)")
    case False
    then show ?thesis by (auto simp: p_def above_position_def not_less)
  next
    case True
    obtain ka step where g: "gallop_down data v (held - 1) 1 = (ka, step)" by fastforce
    note b = gallop_down_bracket [OF g _ conjunct2 [OF True]]
    define lo where "lo = (if step \<le> ka then ka - step + 1 else 0)"
    define u where "u = upper_bound (take (ka - lo) (drop lo data)) v"
    have p: "p = lo + u"
      unfolding p_def above_position_def if_P [OF True] g prod.case Let_def lo_def [symmetric] u_def ..
    have ka: "ka < held" "lo \<le> ka" using b(1,3) True by (auto simp: lo_def)
    have u: "u \<le> ka - lo" unfolding u_def by (rule order_trans [OF upper_bound_le]) simp
    have nth: "take (ka - lo) (drop lo data) ! i = data ! (lo + i)" if "i < ka - lo" for i
      using that ka assms(2) by simp
    have le: "p = 0 \<or> data ! (p - 1) \<le> v"
    proof (cases "u = 0")
      case True
      then show ?thesis using b(4) by (auto simp: p lo_def not_less)
    next
      case False
      then have "\<not> v < take (ka - lo) (drop lo data) ! (u - 1)"
        using partition_point_before [of "u - 1" "\<lambda>x. \<not> v < x" "take (ka - lo) (drop lo data)"]
        by (simp add: u_def upper_bound_def)
      then show ?thesis using nth [of "u - 1"] u False by (simp add: p not_less)
    qed
    have gt: "v < data ! p"
    proof (cases "u = ka - lo")
      case True
      then show ?thesis using b(2) ka by (simp add: p)
    next
      case False
      then have ul: "u < ka - lo" using u by simp
      then have "v < take (ka - lo) (drop lo data) ! u"
        using partition_point_stop [of "\<lambda>x. \<not> v < x" "take (ka - lo) (drop lo data)"] ka assms(2)
        by (simp add: u_def upper_bound_def)
      then show ?thesis using nth [OF ul] by (simp add: p)
    qed
    have "v < data ! i" if "p \<le> i" "i < held" for i
      using gt mono [OF that] by simp
    then show ?thesis using le ka u by (auto simp: p)
  qed
  then show "p \<le> held" "p = 0 \<or> data ! (p - 1) \<le> v" "\<forall>i. p \<le> i \<and> i < held \<longrightarrow> v < data ! i" by blast+
qed

lemma shift_up_inv:
  assumes "union_inv lhs b (data, held, j, out)" "0 < j" "shift_up (b ! (j - 1)) data held out = (data', held', out')"
  shows "union_inv lhs b (data', held', j, out') \<and> (held' = 0 \<or> lhs ! (held' - 1) \<le> b ! (j - 1))"
  using assms
proof (induction "b ! (j - 1)" data held out rule: shift_up.induct)
  case (1 data held out)
  show ?case
  proof (cases "held \<noteq> 0 \<and> b ! (j - 1) < data ! (held - 1)")
    case True
    then have read: "data ! (held - 1) = lhs ! (held - 1)" using union_inv_read [OF "1.prems"(1)] by simp
    have "union_inv lhs b (data[out - 1 := data ! (held - 1)], held - 1, j, out - 1)"
      unfolding read using True read by (intro union_inv_take_a [OF "1.prems"(1)]) auto
    moreover have "shift_up (b ! (j - 1)) (data[out - 1 := data ! (held - 1)]) (held - 1) (out - 1) = (data', held', out')"
      using "1.prems"(3) True by (simp add: shift_up.simps [of _ data])
    ultimately show ?thesis using "1.hyps" [OF True _ assms(2)] by blast
  next
    case False
    then have "data' = data" "held' = held" "out' = out"
      using "1.prems"(3) unfolding shift_up.simps [of _ data held] if_not_P [OF False] by simp_all
    moreover have "held = 0 \<or> lhs ! (held - 1) \<le> b ! (j - 1)"
      using False union_inv_read [OF "1.prems"(1)] by (cases "held = 0") auto
    ultimately show ?thesis using "1.prems"(1) by simp
  qed
qed

lemma block_up_inv:
  assumes inv: "union_inv lhs b (data, held, j, out)" and j: "0 < j"
  defines "p \<equiv> above_position data held (b ! (j - 1))"
  shows "union_inv lhs b (memmove data (out - (held - p)) p (held - p), p, j, out - (held - p)) \<and>
    (p = 0 \<or> lhs ! (p - 1) \<le> b ! (j - 1))"
proof -
  let ?v = "b ! (j - 1)" and ?data = "memmove data (out - (held - p)) p (held - p)"
  have I: "length data = length lhs + length b" "held \<le> length lhs" "j \<le> length b" "held + j \<le> out" "out \<le> length data"
    "take held data = take held lhs" "strict (take held lhs @ drop out data)" "strict (take j b @ drop out data)"
    "set (take held lhs) \<union> set (take j b) \<union> set (drop out data) = set lhs \<union> set b"
    using inv by (auto simp: union_inv_def)
  have "strict (take held data)" using I(6,7) by (simp add: sorted_wrt_append)
  note p = above_position_correct [OF this, of ?v, folded p_def]
  have p: "p \<le> held" "p = 0 \<or> data ! (p - 1) \<le> ?v" "\<forall>i. p \<le> i \<and> i < held \<longrightarrow> ?v < data ! i"
    using p I(1,2) by auto
  have tk: "take p lhs = take p data" using I(6) p(1) by (metis min.absorb1 take_take)
  have block: "take (held - p) (drop p data) = drop p (take held lhs)" using I(6) by (metis drop_take)
  have dp: "drop (out - (held - p)) ?data = drop p (take held lhs) @ drop out data"
    using I(1,2,4,5) p(1) by (subst memmove_inside) (auto simp: block [symmetric])
  have tp: "take p ?data = take p lhs" using I(1,2,4,5) p(1) by (subst memmove_inside) (auto simp: tk)
  have whole: "take held lhs = take p lhs @ drop p (take held lhs)"
    using p(1) by (metis append_take_drop_id min.absorb1 take_take)
  have s1: "strict (take p lhs @ drop p (take held lhs) @ drop out data)"
    using I(7) by (subst (asm) whole) simp
  have v: "\<forall>x\<in>set (take j b). x \<le> ?v" using strict_take_last(2) [OF I(8) j I(3)] .
  have above: "?v < x" if "x \<in> set (drop p (take held lhs))" for x
  proof -
    from that obtain i where i: "p + i < length (take held lhs)" "x = take held lhs ! (p + i)"
      by (auto dest: in_set_drop_nth)
    then have x: "x = data ! (p + i)" unfolding I(6) [symmetric] by simp
    have "p \<le> p + i \<and> p + i < held" using i(1) by simp
    then show ?thesis using p(3) unfolding x by blast
  qed
  have s2: "strict (take j b @ drop p (take held lhs) @ drop out data)"
    using s1 I(8) v above unfolding sorted_wrt_append by (auto intro: le_less_trans)
  have s3: "set (take p lhs) \<union> set (take j b) \<union> set (drop p (take held lhs) @ drop out data) = set lhs \<union> set b"
    unfolding I(9) [symmetric] using arg_cong [OF whole, of set] by auto
  have "union_inv lhs b (?data, p, j, out - (held - p))"
    unfolding union_inv_def prod.case dp tp using I(1-5) p(1) s1 s2 s3 by (simp, linarith)
  moreover have "p = 0 \<or> lhs ! (p - 1) \<le> ?v"
    using p(1,2) union_inv_read [OF inv] I(6) by (metis diff_less nth_take order.strict_trans2 zero_less_one not_gr_zero)
  ultimately show ?thesis by blast
qed

lemma add_sorted_step_inv:
  assumes "union_inv lhs b (data, held, j, out)" "0 < j"
    "add_sorted_step skewed (b ! (j - 1)) (data, held, out) = (data', held', out')"
  shows "union_inv lhs b (data', held', j - 1, out')"
proof -
  let ?v = "b ! (j - 1)"
  obtain d h k where m: "(if skewed then (let above = above_position data held ?v; block = held - above; out = out - block
      in (memmove data out above block, above, out)) else shift_up ?v data held out) = (d, h, k)" by (metis prod_cases3)
  have inv: "union_inv lhs b (d, h, j, k)" "h = 0 \<or> lhs ! (h - 1) \<le> ?v"
    using m block_up_inv [OF assms(1,2)] shift_up_inv [OF assms(1,2), of d h k]
    by (auto simp: Let_def split: if_splits)
  have eq: "data' = d[k - 1 := ?v]" "out' = k - 1" "held' = (if h \<noteq> 0 \<and> d ! (h - 1) = ?v then h - 1 else h)"
    using assms(3) unfolding add_sorted_step_def prod.case m by (auto simp: Let_def)
  show ?thesis
  proof (cases "h \<noteq> 0 \<and> d ! (h - 1) = ?v")
    case True
    then have "lhs ! (h - 1) = ?v" using union_inv_read [OF inv(1)] by simp
    then show ?thesis using union_inv_take_both [OF inv(1)] True assms(2) by (simp add: eq)
  next
    case False
    then have "h = 0 \<or> lhs ! (h - 1) < ?v" using inv(2) union_inv_read [OF inv(1)]
      by (cases "h = 0") (auto simp: le_less)
    from union_inv_take_b [OF inv(1) assms(2) this] show ?thesis unfolding eq if_not_P [OF False] .
  qed
qed

lemma add_sorted_fold_inv:
  "union_inv lhs b (data, held, j, out) \<Longrightarrow>
    (case fold (add_sorted_step skewed) (rev (take j b)) (data, held, out) of (data', held', out') \<Rightarrow>
      union_inv lhs b (data', held', 0, out'))"
proof (induction j arbitrary: data held out)
  case (Suc j)
  then have "j < length b" by (simp add: union_inv_def)
  then have rev: "rev (take (Suc j) b) = b ! j # rev (take j b)" by (simp add: take_Suc_conv_app_nth)
  obtain d h k where step: "add_sorted_step skewed (b ! j) (data, held, out) = (d, h, k)" by (metis prod_cases3)
  then have "union_inv lhs b (d, h, j, k)" using add_sorted_step_inv [OF Suc.prems] by simp
  from Suc.IH [OF this] show ?case by (simp add: rev step)
qed simp

lemma array_add_sorted_correct:
  assumes "wf_container h" "holds_array h" "strict batch"
  shows "wf_container (snd (array_add_sorted batch h))" "holds_array (snd (array_add_sorted batch h))"
    "values_of (snd (array_add_sorted batch h)) = values_of h \<union> array_set batch"
    "fst (array_add_sorted batch h) = card (array_set batch - values_of h)"
proof -
  obtain vs where p: "payload h = Array_payload vs" and strict: "strict vs" and stale: "\<not> endpoints_stale h"
    and vs [simp]: "array_values h = vs" "values_of h = array_set vs"
    using assms(1,2) by (rule wf_arrayE)
  have card_new: "card (array_set batch - array_set vs) = length ys - length vs"
    if "strict ys" "array_set ys = array_set vs \<union> array_set batch" for ys
  proof -
    have "card (array_set ys) = card (array_set vs) + card (array_set batch - array_set vs)"
      unfolding that(2) by (subst Un_Diff_cancel [symmetric], rule card_Un_disjoint) auto
    then show ?thesis using that(1) strict by (simp add: card_array_set)
  qed
  have "wf_container (snd (array_add_sorted batch h)) \<and> holds_array (snd (array_add_sorted batch h)) \<and>
    values_of (snd (array_add_sorted batch h)) = values_of h \<union> array_set batch \<and>
    fst (array_add_sorted batch h) = card (array_set batch - values_of h)"
  proof (cases "batch = []")
    case True
    with assms show ?thesis by (simp add: array_add_sorted_def)
  next
    case ne: False
    show ?thesis
    proof (cases "vs = [] \<or> last vs < hd batch")
      case True
      have "x < y" if "x \<in> set vs" "y \<in> set batch" for x y
      proof -
        have "x \<le> last vs" using strict_last_Max [OF strict] that by (cases "vs = []") auto
        also have "last vs < hd batch" using True that by auto
        also have "hd batch \<le> y" using strict_hd_Min [OF assms(3) ne] that by simp
        finally show ?thesis .
      qed
      then have s: "strict (vs @ batch)" using strict assms(3) by (simp add: sorted_wrt_append)
      have "array_add_sorted batch h = (length batch, array_sync_header (set_array_values (vs @ batch) h))"
        using True ne by (auto simp: array_add_sorted_def Let_def)
      then show ?thesis
        using wf_sync_set_array [OF s stale] card_new [OF s] by simp
    next
      case False
      let ?n = "length vs" and ?m = "length batch"
      let ?sk = "?m * kSkewedIntersectRatioThreshold < ?n"
      have "union_inv vs batch (vs @ replicate ?m 0, ?n, ?m, ?n + ?m)"
        using strict assms(3) by (simp add: union_inv_def)
      from add_sorted_fold_inv [OF this, of ?sk]
      obtain d k out where f: "fold (add_sorted_step ?sk) (rev batch) (vs @ replicate ?m 0, ?n, ?n + ?m) = (d, k, out)"
        and inv: "union_inv vs batch (d, k, 0, out)" by (auto split: prod.splits)
      let ?u = "union_sorted_scalar vs batch"
      have fin: "take k vs @ drop out d = ?u" using inv strict assms(3) by (rule union_inv_finish)
      have I: "length d = ?n + ?m" "k \<le> out" "out \<le> length d" "k \<le> ?n"
        using inv by (auto simp: union_inv_def)
      have "length ?u = k + (?n + ?m - out)" unfolding fin [symmetric] using I by simp
      moreover have "?n \<le> length ?u"
        using strict assms(3) card_array_set [OF strict] card_array_set [of ?u]
        by (metis array_set_scalar_merges(2) card_mono finite_Un finite_array_set strict_scalar_merges(2) sup_ge1)
      ultimately have added: "?m - (out - k) = length ?u - ?n" "k + (length d - out) = ?n + (?m - (out - k))"
        using I by linarith+
      have close: "take (?n + (?m - (out - k))) (if out \<noteq> k then memmove d k out (?n + ?m - out) else d) = ?u"
        using union_inv_close [OF inv] unfolding fin I(1) [symmetric] added(2) .
      have whole: "(if out \<noteq> k then take (?n + (?m - (out - k))) (memmove d k out (?n + ?m - out)) else d) = ?u"
      proof (cases "out = k")
        case True
        with close I(1) show ?thesis by simp
      next
        case False
        with close show ?thesis by (simp only: if_True not_False_eq_True)
      qed
      have "array_add_sorted batch h = (?m - (out - k), array_sync_header (set_array_values ?u h))"
        using ne False unfolding array_add_sorted_def Let_def vs f prod.case whole by auto
      then show ?thesis
        using wf_sync_set_array [OF strict_scalar_merges(2) stale, OF strict assms(3)]
          card_new [OF strict_scalar_merges(2) array_set_scalar_merges(2), OF strict assms(3) strict assms(3)]
        by (simp add: added(1) array_set_scalar_merges(2) [OF strict assms(3)])
    qed
  qed
  then show "wf_container (snd (array_add_sorted batch h))" "holds_array (snd (array_add_sorted batch h))"
    "values_of (snd (array_add_sorted batch h)) = values_of h \<union> array_set batch"
    "fst (array_add_sorted batch h) = card (array_set batch - values_of h)" by blast+
qed

lemma gallop_up_bracket:
  assumes "gallop_up data v kb step = (kb', step')" "0 < step" "kb < length data" "data ! kb < v"
  shows "kb \<le> kb'" "kb' < length data" "data ! kb' < v" "0 < step'"
    "step' < length data - kb' \<Longrightarrow> v \<le> data ! (kb' + step')"
proof -
  have "kb \<le> kb' \<and> kb' < length data \<and> data ! kb' < v \<and> 0 < step' \<and>
      (step' < length data - kb' \<longrightarrow> v \<le> data ! (kb' + step'))"
    using assms
  proof (induction data v kb step rule: gallop_up.induct)
    case (1 data v kb step)
    show ?case
    proof (cases "0 < step \<and> step < length data - kb \<and> data ! (kb + step) < v")
      case True
      then have "gallop_up data v (kb + step) (step * 2) = (kb', step')"
        using "1.prems"(1) by (simp add: gallop_up.simps [of data v kb step])
      moreover have "kb + step < length data" using True by linarith
      ultimately show ?thesis using "1.IH" [OF True] True by auto
    next
      case False
      then have "kb' = kb" "step' = step"
        using "1.prems"(1) unfolding gallop_up.simps [of data v kb step] if_not_P [OF False] by simp_all
      with False "1.prems" show ?thesis by auto
    qed
  qed
  then show "kb \<le> kb'" "kb' < length data" "data ! kb' < v" "0 < step'"
    "step' < length data - kb' \<Longrightarrow> v \<le> data ! (kb' + step')" by auto
qed

lemma at_position_correct:
  fixes v :: low
  assumes "strict (drop src data)" "src < length data"
  defines "a \<equiv> at_position data src v"
  shows "src \<le> a" "a \<le> length data" "\<forall>i. src \<le> i \<and> i < a \<longrightarrow> data ! i < v" "a < length data \<Longrightarrow> v \<le> data ! a"
proof -
  have mono: "data ! i \<le> data ! j" if "src \<le> i" "i \<le> j" "j < length data" for i j
    using strict_nth_mono [OF assms(1), of "i - src" "j - src"] that by simp
  have "src \<le> a \<and> a \<le> length data \<and> (\<forall>i. src \<le> i \<and> i < a \<longrightarrow> data ! i < v) \<and> (a < length data \<longrightarrow> v \<le> data ! a)"
  proof (cases "data ! src < v")
    case False
    then show ?thesis using assms(2) by (auto simp: a_def at_position_def not_less)
  next
    case True
    obtain kb step where g: "gallop_up data v src 1 = (kb, step)" by fastforce
    note b = gallop_up_bracket [OF g _ assms(2) True]
    let ?m = "min step (length data - kb) - 1"
    define u where "u = lower_bound (take ?m (drop (kb + 1) data)) v"
    have a: "a = kb + 1 + u" unfolding a_def at_position_def if_P [OF True] g prod.case u_def ..
    have u: "u \<le> ?m" unfolding u_def by (rule order_trans [OF lower_bound_le]) simp
    have nth: "take ?m (drop (kb + 1) data) ! i = data ! (kb + 1 + i)" if "i < ?m" for i
      using that by simp
    have len: "length (take ?m (drop (kb + 1) data)) = ?m" by simp
    have below: "data ! i < v" if "src \<le> i" "i < a" for i
    proof (cases "u = 0")
      case True
      then have "data ! i \<le> data ! kb" using that b(1,2) by (intro mono) (auto simp: a)
      with b(3) show ?thesis by simp
    next
      case False
      then have "take ?m (drop (kb + 1) data) ! (u - 1) < v"
        using partition_point_before [of "u - 1" "\<lambda>x. x < v" "take ?m (drop (kb + 1) data)"]
        by (simp add: u_def lower_bound_def)
      then have "data ! (kb + u) < v" using nth [of "u - 1"] u False by simp
      moreover have "data ! i \<le> data ! (kb + u)" using that u b(2) by (intro mono) (auto simp: a)
      ultimately show ?thesis by simp
    qed
    have "v \<le> data ! a" if "a < length data"
    proof (cases "u < ?m")
      case True
      have "\<not> take ?m (drop (kb + 1) data) ! u < v"
        unfolding u_def lower_bound_def
        by (rule partition_point_stop) (use True len in \<open>simp only: u_def lower_bound_def\<close>)
      then show ?thesis using nth [OF True] by (simp add: a)
    next
      case False
      then have "u = ?m" using u by simp
      with that b(2,4) have "step < length data - kb" "a = kb + step" by (auto simp: a)
      with b(4) b(5) show ?thesis by simp
    qed
    moreover have "src \<le> a" "a \<le> length data" using b(1,2) u by (simp_all add: a)
    ultimately show ?thesis using below by blast
  qed
  then show "src \<le> a" "a \<le> length data" "\<forall>i. src \<le> i \<and> i < a \<longrightarrow> data ! i < v" "a < length data \<Longrightarrow> v \<le> data ! a"
    by blast+
qed

definition removal_inv :: "low list \<Rightarrow> low list \<Rightarrow> low list \<Rightarrow> low list \<times> nat \<times> nat \<Rightarrow> bool" where
  "removal_inv old batch rm s = (case s of (data, dst, src) \<Rightarrow>
     length data = length old \<and> dst \<le> src \<and> src \<le> length old \<and> drop src data = drop src old \<and>
     strict (take dst data @ drop src old) \<and>
     set (take dst data) \<union> (set (drop src old) - set rm) = set old - set batch)"

lemma removal_keep:
  assumes "removal_inv old batch rm (data, dst, src)" "src \<le> a" "a \<le> length data"
    and "\<forall>i. src \<le> i \<and> i < a \<longrightarrow> data ! i \<notin> set rm"
    and "length data' = length data" "take (dst + (a - src)) data' = take dst data @ take (a - src) (drop src data)"
    and "drop a data' = drop a data"
  shows "removal_inv old batch rm (data', dst + (a - src), a)"
proof -
  have I: "length data = length old" "dst \<le> src" "src \<le> length old" "drop src data = drop src old"
    "strict (take dst data @ drop src old)"
    "set (take dst data) \<union> (set (drop src old) - set rm) = set old - set batch"
    using assms(1) by (auto simp: removal_inv_def)
  have split: "drop src old = take (a - src) (drop src data) @ drop a old"
  proof -
    have "drop (a - src) (drop src old) = drop a old" using assms(2) by simp
    then show ?thesis unfolding I(4) by (metis append_take_drop_id)
  qed
  have "drop a data = drop a old"
    using I(4) assms(2) by (metis drop_drop le_add_diff_inverse2)
  moreover have "set (take (a - src) (drop src data)) \<inter> set rm = {}"
  proof -
    have "x \<notin> set rm" if "x \<in> set (take (a - src) (drop src data))" for x
    proof -
      from that obtain i where "i < a - src" "x = data ! (src + i)" by (auto simp: in_set_conv_nth)
      with assms(4) show ?thesis by auto
    qed
    then show ?thesis by blast
  qed
  moreover define B where "B = take (a - src) (drop src data)"
  moreover have "set (take dst data) \<union> (set B \<union> set (drop a old) - set rm) = set old - set batch"
    using I(6) unfolding split B_def by simp
  moreover have "strict ((take dst data @ B) @ drop a old)"
    using I(5) unfolding split B_def by simp
  ultimately have "strict ((take dst data @ B) @ drop a old)" "drop a data' = drop a old"
    "set (take dst data @ B) \<union> (set (drop a old) - set rm) = set old - set batch"
    using assms(7) by auto
  moreover have "take (dst + (a - src)) data' = take dst data @ B" using assms(6) by (simp add: B_def)
  ultimately show ?thesis using I(1,2) assms(2,3,5) by (simp add: removal_inv_def)
qed

lemma removal_skip:
  assumes "removal_inv old batch (v # rm) (data, dst, src)"
    and "\<forall>x\<in>set (drop src data). v < x"
  shows "removal_inv old batch rm (data, dst, src)"
proof -
  have I: "drop src data = drop src old" using assms(1) by (simp add: removal_inv_def)
  have "v \<notin> set (drop src old)" using assms(2) unfolding I by auto
  then have "set (drop src old) - set (v # rm) = set (drop src old) - set rm" by simp
  with assms(1) show ?thesis unfolding removal_inv_def by simp
qed

lemma removal_drop:
  assumes "removal_inv old batch (v # rm) (data, dst, src)" "src < length data" "data ! src = v"
  shows "removal_inv old batch rm (data, dst, src + 1)"
proof -
  have I: "length data = length old" "dst \<le> src" "src \<le> length old" "drop src data = drop src old"
    "strict (take dst data @ drop src old)"
    "set (take dst data) \<union> (set (drop src old) - set (v # rm)) = set old - set batch"
    using assms(1) by (auto simp: removal_inv_def)
  have dd: "drop (src + 1) data = drop (src + 1) old"
    using arg_cong [OF I(4), of tl] by (simp add: tl_drop drop_Suc)
  have d: "drop src old = v # drop (src + 1) old"
    using I(4) Cons_nth_drop_Suc [OF assms(2)] assms(3) dd by simp
  have s: "strict (take dst data @ drop (src + 1) old)" "v \<notin> set (drop (src + 1) old)"
    using I(5) unfolding d by (auto simp: sorted_wrt_append)
  have "set (take dst data) \<union> (set (drop (src + 1) old) - set rm) = set old - set batch"
    unfolding I(6) [symmetric] d using s(2) by auto
  then show ?thesis using I(1,2) assms(2) s(1) dd by (simp add: removal_inv_def)
qed

lemma removal_strict_suffix: "removal_inv old batch rm (data, dst, src) \<Longrightarrow> strict (drop src data)"
  by (simp add: removal_inv_def sorted_wrt_append)

lemma remove_merge_inv:
  assumes "removal_inv old batch rm s" "strict rm"
  shows "\<exists>rm'. removal_inv old batch rm' (remove_merge rm s) \<and>
    (rm' = [] \<or> snd (snd (remove_merge rm s)) = length old)"
proof -
  obtain data dst src where s: "s = (data, dst, src)" by (metis prod_cases3)
  show ?thesis using assms unfolding s
  proof (induction rm "(data, dst, src)" arbitrary: data dst src rule: remove_merge.induct)
    case (1 rm data dst src)
    note inv = "1.prems"(1)
    have len: "length data = length old" "dst \<le> src" using inv by (auto simp: removal_inv_def)
    show ?case
    proof (cases "src < length data \<and> rm \<noteq> []")
      case False
      with inv show ?thesis
        by (intro exI [of _ rm]) (auto simp: remove_merge.simps [of rm data] removal_inv_def)
    next
      case True
      then obtain v rm' where rm: "rm = v # rm'" by (cases rm) auto
      consider (less) "data ! src < v" | (eq) "data ! src = v" | (gt) "v < data ! src" by fastforce
      then show ?thesis
      proof cases
        case less
        have "removal_inv old batch rm (data[dst := data ! src], dst + (src + 1 - src), src + 1)"
        proof (rule removal_keep [OF inv])
          show "\<forall>i. src \<le> i \<and> i < src + 1 \<longrightarrow> data ! i \<notin> set rm"
            using less "1.prems"(2) by (auto simp: rm less_Suc_eq)
          show "take (dst + (src + 1 - src)) (data[dst := data ! src]) = take dst data @ take (src + 1 - src) (drop src data)"
            using True len by (simp add: take_Suc_update take_Suc hd_drop_conv_nth)
          show "drop (src + 1) (data[dst := data ! src]) = drop (src + 1) data"
            using len by (intro drop_update_before) simp
        qed (use True in auto)
        moreover have "remove_merge rm (data, dst, src) = remove_merge rm (data[dst := data ! src], dst + 1, src + 1)"
          using True less by (subst remove_merge.simps) (simp add: rm)
        ultimately show ?thesis
          using "1.hyps"(1) [OF True _ _ "1.prems"(2)] less by (simp add: rm)
      next
        case eq
        have "removal_inv old batch rm' (data, dst, src + 1)"
          using inv True eq by (intro removal_drop) (simp_all add: rm)
        moreover have "remove_merge rm (data, dst, src) = remove_merge rm' (data, dst, src + 1)"
          using True eq by (subst remove_merge.simps) (simp add: rm)
        ultimately show ?thesis
          using "1.hyps"(2) [OF True] eq "1.prems"(2) by (simp add: rm)
      next
        case gt
        have "v < x" if "x \<in> set (drop src data)" for x
        proof -
          have "hd (drop src data) \<le> x" using removal_strict_suffix [OF inv] that by (rule strict_hd_le)
          with gt True show ?thesis by (simp add: hd_drop_conv_nth)
        qed
        then have "removal_inv old batch rm' (data, dst, src)"
          by (intro removal_skip [OF inv [unfolded rm]]) blast
        moreover have "remove_merge rm (data, dst, src) = remove_merge rm' (data, dst, src)"
          using True gt by (subst remove_merge.simps) (auto simp: rm)
        ultimately show ?thesis
          using "1.hyps"(3) [OF True] gt "1.prems"(2) by (auto simp: rm)
      qed
    qed
  qed
qed

lemma remove_step_inv:
  assumes inv: "removal_inv old batch (v # rm) (data, dst, src)" and "strict (v # rm)" "src < length data"
  shows "removal_inv old batch rm (remove_step v (data, dst, src))"
proof -
  let ?a = "at_position data src v"
  let ?data = "if dst \<noteq> src then memmove data dst src (?a - src) else data"
  have len: "length data = length old" "dst \<le> src" using inv by (auto simp: removal_inv_def)
  note a = at_position_correct [OF removal_strict_suffix [OF inv] assms(3), of v]
  have keep: "removal_inv old batch (v # rm) (?data, dst + (?a - src), ?a)"
  proof (rule removal_keep [OF inv a(1,2)])
    show "\<forall>i. src \<le> i \<and> i < ?a \<longrightarrow> data ! i \<notin> set (v # rm)"
      using a(3) assms(2) by fastforce
    show "length ?data = length data" using a(1,2) len by simp
    show "take (dst + (?a - src)) ?data = take dst data @ take (?a - src) (drop src data)"
    proof (cases "dst = src")
      case True
      then show ?thesis by (simp add: take_add)
    next
      case False
      have "length (take dst data) = dst" using len assms(3) by simp
      then show ?thesis using False a(1,2) len by (simp add: memmove_inside)
    qed
    show "drop ?a ?data = drop ?a data"
    proof (cases "dst = src")
      case False
      have "length (take dst data) = dst" using len assms(3) by simp
      moreover have "dst + (?a - src) \<le> ?a" using len a(1) by simp
      ultimately show ?thesis using False a(1,2) len by (simp add: memmove_inside)
    qed simp
  qed
  have at: "?data ! ?a = data ! ?a" if "?a < length data"
  proof -
    have "drop ?a ?data = drop ?a data"
    proof (cases "dst = src")
      case False
      have "length (take dst data) = dst" using len assms(3) by simp
      moreover have "dst + (?a - src) \<le> ?a" using len a(1) by simp
      ultimately show ?thesis using False a(1,2) len by (simp add: memmove_inside)
    qed simp
    moreover have "?a < length ?data" using that a(1,2) len by simp
    ultimately show ?thesis using that by (metis hd_drop_conv_nth)
  qed
  have lend: "length ?data = length data" using a(1,2) len by simp
  have step: "remove_step v (data, dst, src) =
      (?data, dst + (?a - src), if ?a \<noteq> length ?data \<and> ?data ! ?a = v then ?a + 1 else ?a)"
    by (simp add: remove_step_def Let_def)
  show ?thesis
  proof (cases "?a \<noteq> length ?data \<and> ?data ! ?a = v")
    case True
    then have "?a < length ?data" using a(2) lend by simp
    from removal_drop [OF keep this] True show ?thesis unfolding step if_P [OF True] by blast
  next
    case False
    have "v < x" if "x \<in> set (drop ?a ?data)" for x
    proof -
      from that obtain i where i: "?a + i < length ?data" "x = ?data ! (?a + i)" by (auto dest: in_set_drop_nth)
      then have al: "?a < length data" using lend by simp
      with False lend have "data ! ?a \<noteq> v" using at by auto
      with a(4) [OF al] have "v < ?data ! ?a" unfolding at [OF al] by simp
      also have "\<dots> \<le> x"
        using strict_nth_mono [OF removal_strict_suffix [OF keep], of 0 i] i by simp
      finally show ?thesis .
    qed
    from removal_skip [OF keep] this show ?thesis unfolding step if_not_P [OF False] by blast
  qed
qed

lemma remove_skewed_inv:
  "removal_inv old batch rm s \<Longrightarrow> strict rm \<Longrightarrow>
    \<exists>rm'. removal_inv old batch rm' (remove_skewed rm s) \<and>
      (rm' = [] \<or> snd (snd (remove_skewed rm s)) = length old)"
proof (induction rm arbitrary: s)
  case (Cons v rm)
  obtain data dst src where s: "s = (data, dst, src)" by (metis prod_cases3)
  show ?case
  proof (cases "src = length data")
    case True
    then have "length data = length old" using Cons.prems(1) by (simp add: s removal_inv_def)
    with True Cons.prems(1) show ?thesis by (intro exI [of _ "v # rm"]) (simp add: s)
  next
    case False
    then have "src < length data" using Cons.prems(1) by (simp add: s removal_inv_def)
    then have "removal_inv old batch rm (remove_step v s)"
      using Cons.prems unfolding s by (intro remove_step_inv)
    from Cons.IH [OF this] Cons.prems(2) False show ?thesis by (simp add: s)
  qed
qed auto

lemma array_remove_sorted_correct:
  assumes "wf_container h" "holds_array h" "strict batch"
  shows "wf_container (snd (array_remove_sorted batch h))" "holds_array (snd (array_remove_sorted batch h))"
    "values_of (snd (array_remove_sorted batch h)) = values_of h - array_set batch"
    "fst (array_remove_sorted batch h) = card (values_of h \<inter> array_set batch)"
proof -
  obtain vs where p: "payload h = Array_payload vs" and strict: "strict vs" and stale: "\<not> endpoints_stale h"
    and vs [simp]: "array_values h = vs" "values_of h = array_set vs"
    using assms(1,2) by (rule wf_arrayE)
  have diff: "array_set ys = array_set vs - array_set batch" if "set ys = set vs - set batch" for ys
    unfolding array_set_def that by (rule image_unat_Diff)
  have card: "card (array_set vs \<inter> array_set batch) = length vs - length ys"
    if "strict ys" "set ys = set vs - set batch" for ys
  proof -
    have "card (array_set vs) = card (array_set vs \<inter> array_set batch) + card (array_set vs - array_set batch)"
      by (metis Un_Diff_Int Int_commute card_Un_disjoint Diff_disjoint finite_array_set finite_Diff finite_Int
          add.commute Int_Diff Int_Diff_disjoint)
    then show ?thesis using that strict by (simp add: card_array_set flip: diff [OF that(2)])
  qed
  have "wf_container (snd (array_remove_sorted batch h)) \<and> holds_array (snd (array_remove_sorted batch h)) \<and>
    values_of (snd (array_remove_sorted batch h)) = values_of h - array_set batch \<and>
    fst (array_remove_sorted batch h) = card (values_of h \<inter> array_set batch)"
  proof (cases "vs = [] \<or> batch = [] \<or> last vs < hd batch")
    case True
    have "array_set vs \<inter> array_set batch = {}"
    proof (cases "vs = [] \<or> batch = []")
      case False
      have "x < y" if "x \<in> set vs" "y \<in> set batch" for x y
      proof -
        have "x \<le> last vs" using strict that(1) by (rule strict_le_last)
        also have "last vs < hd batch" using True False by blast
        also have "hd batch \<le> y" using assms(3) that(2) by (rule strict_hd_le)
        finally show ?thesis .
      qed
      then have "set vs \<inter> set batch = {}" by fastforce
      then show ?thesis by (simp add: array_set_def flip: image_unat_Int)
    qed auto
    moreover have "array_remove_sorted batch h = (0, h)"
      using True by (auto simp: array_remove_sorted_def Let_def)
    ultimately show ?thesis using assms(1,2) by (simp add: Diff_triv)
  next
    case False
    let ?src = "lower_bound vs (hd batch)" and ?n = "length vs"
    have "set (take ?src vs) \<inter> set batch = {}"
    proof -
      have "x \<notin> set batch" if "x \<in> set (take ?src vs)" for x
      proof -
        have "x < hd batch" using that by (rule strict_take_lower_bound)
        moreover have "hd batch \<le> y" if "y \<in> set batch" for y
          using strict_hd_Min [OF assms(3)] that by (cases "batch = []") auto
        ultimately show ?thesis by fastforce
      qed
      then show ?thesis by blast
    qed
    moreover have "set vs = set (take ?src vs) \<union> set (drop ?src vs)" by (simp flip: set_append)
    ultimately have start: "removal_inv vs batch batch (vs, ?src, ?src)"
      using strict by (auto simp: removal_inv_def)
    define r where "r = (if length batch * kSkewedIntersectRatioThreshold < ?n
      then remove_skewed batch (vs, ?src, ?src) else remove_merge batch (vs, ?src, ?src))"
    obtain d dst src where r: "r = (d, dst, src)" by (metis prod_cases3)
    obtain rm' where inv: "removal_inv vs batch rm' (d, dst, src)" and fin: "rm' = [] \<or> src = ?n"
      using remove_skewed_inv [OF start assms(3)] remove_merge_inv [OF start assms(3)] r
      by (auto simp: r_def split: if_splits)
    let ?ys = "take dst d @ drop src vs"
    have I: "length d = ?n" "dst \<le> src" "src \<le> ?n" "drop src d = drop src vs" "strict ?ys"
      using inv by (auto simp: removal_inv_def)
    have ys: "set ?ys = set vs - set batch"
      using inv fin unfolding removal_inv_def by (elim disjE) simp_all
    have lens: "length ?ys = ?n - (src - dst)" using I by simp
    have "array_remove_sorted batch h = (src - dst, if src - dst \<noteq> 0
        then array_sync_header (set_array_values (take (?n - (src - dst)) (memmove d dst src (?n - src))) h)
        else set_array_values d h)"
      using False r by (auto simp: array_remove_sorted_def Let_def r_def)
    moreover have "take (?n - (src - dst)) (memmove d dst src (?n - src)) = ?ys"
    proof -
      have "length (take dst d) = dst" using I by simp
      then show ?thesis using I by (simp add: memmove_inside)
    qed
    moreover have "h = set_array_values vs h" using p by (simp add: set_array_values_def)
    moreover have "d = vs" if "src - dst = 0"
    proof -
      have "dst = src" using that I(2) by simp
      then have "d = ?ys" using I(1,4) by (metis append_take_drop_id)
      moreover have "length ?ys = ?n" using lens that by simp
      then have "card (set vs) = card (set vs - set batch)"
        using strict_card_set [OF I(5)] strict_card_set [OF strict] ys by simp
      then have "set vs - set batch = set vs" by (intro card_subset_eq) auto
      then have "?ys = vs" using ys I(5) strict by (intro strict_eqI) auto
      ultimately show ?thesis by simp
    qed
    ultimately have "snd (array_remove_sorted batch h) =
        (if src - dst \<noteq> 0 then array_sync_header (set_array_values ?ys h) else h)"
      and f: "fst (array_remove_sorted batch h) = src - dst" by auto
    moreover have "?ys = vs" if "src - dst = 0"
      using \<open>src - dst = 0 \<Longrightarrow> d = vs\<close> [OF that] that I by (metis append_take_drop_id diff_is_0_eq le_antisym)
    moreover have "src - dst = card (array_set vs \<inter> array_set batch)"
      unfolding card [OF I(5) ys] lens using I by simp
    ultimately show ?thesis
      using wf_sync_set_array [OF I(5) stale] diff [OF ys] assms(1,2)
      by (cases "src - dst = 0") auto
  qed
  then show "wf_container (snd (array_remove_sorted batch h))" "holds_array (snd (array_remove_sorted batch h))"
    "values_of (snd (array_remove_sorted batch h)) = values_of h - array_set batch"
    "fst (array_remove_sorted batch h) = card (values_of h \<inter> array_set batch)" by blast+
qed

subsection \<open>The interface\<close>

text \<open>An array container of any payload capacity is a set of values under its five operations.\<close>

interpretation array_form: batch_value_set "\<lambda>h. wf_container h \<and> holds_array h" values_of array_contains
  "array_add capacity" array_remove array_add_sorted array_remove_sorted for capacity
  by unfold_locales
    (simp_all add: array_contains_correct array_add_correct array_remove_correct array_add_sorted_correct
      array_remove_sorted_correct)

end
