(* ===== verification/Bitset_Refs.thy ===== *)
theory Bitset_Refs
  imports Handle Value_Set
begin

text \<open>
  The bitset views of a container handle (\<open>container_handle.hpp\<close>): membership, the walk over the values,
  and insertion and removal of one value or of a sorted batch with the header's count and endpoints.
\<close>

definition bitset_contains :: "container \<Rightarrow> low \<Rightarrow> bool" where
  "bitset_contains h v = words_test (bitset_words h) v"

definition bitset_first :: "container \<Rightarrow> low" where
  "bitset_first h = first_value (bitset_words h)"

definition bitset_last :: "container \<Rightarrow> low" where
  "bitset_last h = last_value (bitset_words h)"

definition consumed_mask :: "nat \<Rightarrow> word64" where
  "consumed_mask bit_i = (if bit_i = 63 then - 1 else push_bit (bit_i + 1) 1 - 1)"

definition bitset_next_after :: "container \<Rightarrow> low \<Rightarrow> low option" where
  "bitset_next_after h v =
    (let words = bitset_words h; wi = word_index v
     in if wi \<ge> length words then None
        else let word = (words ! wi) AND NOT (consumed_mask (bit_index v))
             in if word \<noteq> 0 then Some (to_low (push_bit 6 wi + countr_zero word))
                else let wi = wi + 1 + front_word (drop (wi + 1) words)
                     in if wi < length words then Some (to_low (push_bit 6 wi + countr_zero (words ! wi))) else None)"

text \<open>\<open>for_each\<close> calls its argument on these values in turn.\<close>

definition bitset_values :: "container \<Rightarrow> low list" where
  "bitset_values h = values_from_words (bitset_words h)"

definition set_bitset_words :: "word64 list \<Rightarrow> container \<Rightarrow> container" where
  "set_bitset_words ws h = h\<lparr>payload := Bitset_payload ws\<rparr>"

definition bitset_add :: "low \<Rightarrow> container \<Rightarrow> bool \<times> container" where
  "bitset_add v h =
    (let words = bitset_words h
     in if words_test words v then (False, h)
        else (True, mark_endpoints_stale (adjust_cardinality 1 (set_bitset_words (words_set v words) h))))"

definition bitset_add_sorted :: "low list \<Rightarrow> container \<Rightarrow> nat \<times> container" where
  "bitset_add_sorted sorted_values h =
    (case fold (\<lambda>v (additions, words). (additions + of_bool (\<not> words_test words v), words_set v words))
           sorted_values (0, bitset_words h) of
       (additions, words) \<Rightarrow>
         let h = set_bitset_words words h
         in if additions = 0 then (0, h)
            else let was_empty = (\<not> cardinality_stale h \<and> cardinality h = 0);
                     h = adjust_cardinality (int additions) h
                 in (additions,
                     if was_empty then set_endpoints (hd sorted_values) (last sorted_values) h
                     else if \<not> endpoints_stale h then
                       set_endpoints (min (min_value h) (hd sorted_values)) (max (max_value h) (last sorted_values)) h
                     else h))"

definition bitset_remove_sorted :: "low list \<Rightarrow> container \<Rightarrow> nat \<times> container" where
  "bitset_remove_sorted sorted_values h =
    (let h = settle_cardinality h
     in case fold (\<lambda>v (removals, words). (removals + of_bool (words_test words v), words_clear v words))
              sorted_values (0, bitset_words h) of
          (removals, words) \<Rightarrow>
            let h = set_bitset_words words h
            in if removals \<noteq> 0 then
                 (let h = adjust_cardinality (- int removals) h
                  in (removals,
                      if \<not> endpoints_stale h \<and> (hd sorted_values \<le> min_value h \<or> last sorted_values \<ge> max_value h)
                      then mark_endpoints_stale h else h))
               else (removals, h))"

definition bitset_remove :: "low \<Rightarrow> container \<Rightarrow> bool \<times> container" where
  "bitset_remove v h =
    (if \<not> words_test (bitset_words h) v then (False, h)
     else let h = settle_cardinality h;
              h = set_bitset_words (words_clear v (bitset_words h)) h;
              h = adjust_cardinality (- 1) h
          in (True, if \<not> endpoints_stale h \<and> (v = min_value h \<or> v = max_value h) then mark_endpoints_stale h else h))"

subsection \<open>Correctness\<close>

lemma wf_bitsetE:
  assumes "wf_container h" "holds_bitset h"
  obtains ws where "payload h = Bitset_payload ws" "length ws = 1024" "bitset_words h = ws" "values_of h = bits_set ws"
    "cardinality_stale h \<longrightarrow> cardinality h \<le> card (bits_set ws)" "\<not> cardinality_stale h \<longrightarrow> cardinality h = card (bits_set ws)"
    "\<not> endpoints_stale h \<longrightarrow> bits_set ws \<noteq> {} \<longrightarrow> unat (min_end h) = Min (bits_set ws) \<and> unat (max_end h) = Max (bits_set ws)"
proof -
  from assms(2) obtain ws where p: "payload h = Bitset_payload ws" by (auto simp: holds_payload)
  with assms(1) show ?thesis using wf_container_bitset [OF p] by (intro that [of ws]) auto
qed

lemma set_bitset_words_simps [simp]:
  "payload (set_bitset_words ws h) = Bitset_payload ws" "bitset_words (set_bitset_words ws h) = ws"
  "values_of (set_bitset_words ws h) = bits_set ws" "holds_bitset (set_bitset_words ws h)"
  "cardinality (set_bitset_words ws h) = cardinality h" "cardinality_stale (set_bitset_words ws h) = cardinality_stale h"
  "endpoints_stale (set_bitset_words ws h) = endpoints_stale h" "min_end (set_bitset_words ws h) = min_end h"
  "max_end (set_bitset_words ws h) = max_end h"
  by (simp_all add: set_bitset_words_def bitset_words_def values_of_def holds_bitset_def kind_def)

lemma header_fields [simp]:
  "cardinality_stale (adjust_cardinality d h) = cardinality_stale h"
  "endpoints_stale (adjust_cardinality d h) = endpoints_stale h"
  "min_end (adjust_cardinality d h) = min_end h" "max_end (adjust_cardinality d h) = max_end h"
  "cardinality (mark_endpoints_stale h) = cardinality h"
  "cardinality_stale (mark_endpoints_stale h) = cardinality_stale h"
  "endpoints_stale (mark_endpoints_stale h)"
  "cardinality (set_endpoints a b h) = cardinality h"
  "cardinality_stale (set_endpoints a b h) = cardinality_stale h"
  "\<not> endpoints_stale (set_endpoints a b h)" "min_end (set_endpoints a b h) = a" "max_end (set_endpoints a b h) = b"
  "endpoints_stale (settle_cardinality h) = endpoints_stale h"
  "min_end (settle_cardinality h) = min_end h" "max_end (settle_cardinality h) = max_end h"
  "min_end (set_cardinality n h) = min_end h" "max_end (set_cardinality n h) = max_end h"
  "endpoints_stale (set_cardinality n h) = endpoints_stale h"
  by (simp_all add: adjust_cardinality_def mark_endpoints_stale_def set_endpoints_def settle_cardinality_def
      set_cardinality_def)

lemma valid_endpoints:
  "\<not> endpoints_stale h \<Longrightarrow> min_value h = min_end h" "\<not> endpoints_stale h \<Longrightarrow> max_value h = max_end h"
  by (simp_all add: min_value_def max_value_def ensure_endpoints_def)

lemma bits_set_65536: "length ws = 1024 \<Longrightarrow> v \<in> bits_set ws \<Longrightarrow> v < 65536"
  using bits_set_bound [of v ws] by simp

lemma card_bits_le:
  assumes "length ws = 1024"
  shows "card (bits_set ws) \<le> 65536"
proof -
  have "bits_set ws \<subseteq> {..<65536}" using bits_set_65536 [OF assms] by auto
  from card_mono [OF _ this] show ?thesis by simp
qed

text \<open>The 32-bit sum does not wrap: a count is at most 65536.\<close>

lemma adjust_cardinality_exact:
  assumes "0 \<le> int (cardinality h) + d" "int (cardinality h) + d \<le> 65536"
  shows "cardinality (adjust_cardinality d h) = nat (int (cardinality h) + d)"
  using assms by (simp add: adjust_cardinality_def)

lemma bitset_contains_correct:
  "wf_container h \<Longrightarrow> holds_bitset h \<Longrightarrow> bitset_contains h v \<longleftrightarrow> unat v \<in> values_of h"
  by (erule wf_bitsetE) (auto simp: bitset_contains_def)

lemma bitset_first_last_correct:
  assumes "wf_container h" "holds_bitset h" "values_of h \<noteq> {}"
  shows "unat (bitset_first h) = Min (values_of h)" "unat (bitset_last h) = Max (values_of h)"
proof -
  obtain ws where "length ws = 1024" "bitset_words h = ws" "values_of h = bits_set ws"
    using assms(1,2) by (rule wf_bitsetE)
  with assms(3) show "unat (bitset_first h) = Min (values_of h)" "unat (bitset_last h) = Max (values_of h)"
    by (simp_all add: bitset_first_def bitset_last_def first_value_Min last_value_Max)
qed

lemma bitset_values_correct:
  assumes "wf_container h" "holds_bitset h"
  shows "strict (bitset_values h)" "array_set (bitset_values h) = values_of h"
proof -
  obtain ws where "length ws = 1024" "bitset_words h = ws" "values_of h = bits_set ws"
    using assms by (rule wf_bitsetE)
  then show "strict (bitset_values h)" "array_set (bitset_values h) = values_of h"
    by (simp_all add: bitset_values_def strict_values_from_words array_set_values_from_words)
qed

lemma bit_consumed_mask: "b < 64 \<Longrightarrow> bit (consumed_mask b) j \<longleftrightarrow> j \<le> b \<and> j < 64"
proof (cases "b = 63")
  case False
  assume "b < 64"
  then have "bit (push_bit (b + 1) 1 - 1 :: word64) j \<longleftrightarrow> j < b + 1" by (intro bit_exp_minus_1) simp
  then show ?thesis using False \<open>b < 64\<close> unfolding consumed_mask_def if_not_P [OF False] by linarith
qed (auto simp: consumed_mask_def bit_minus_1_iff)

lemma is_next_bits:
  assumes len: "length ws = 1024" and i: "i < length ws" "j < 64" "bit (ws ! i) j"
    and above: "unat v < 64 * i + j"
    and none: "\<And>x. x \<in> bits_set ws \<Longrightarrow> unat v < x \<Longrightarrow> 64 * i + j \<le> x"
  shows "is_next (bits_set ws) v (Some (to_low (push_bit 6 i + j)))"
proof -
  have n: "unat (to_low (push_bit 6 i + j)) = 64 * i + j"
    using word_position_less [OF len i(1,2)] by (simp add: push_bit_eq_mult mult.commute)
  have "64 * i + j \<in> bits_set ws" using i by (simp add: mem_bits_set_join)
  with above none show ?thesis by (simp add: is_next_def n word_less_nat_alt)
qed

lemma position_le: "i \<le> x div 64 \<Longrightarrow> (x div 64 = i \<Longrightarrow> j \<le> x mod 64) \<Longrightarrow> j < 64 \<Longrightarrow> 64 * i + j \<le> x"
  for x :: nat
  using div_mult_mod_eq [of x 64] by (cases "x div 64 = i") linarith+

lemma bitset_next_after_correct:
  assumes "wf_container h" "holds_bitset h"
  shows "is_next (values_of h) v (bitset_next_after h v)"
proof -
  obtain ws where len: "length ws = 1024" and ws [simp]: "bitset_words h = ws" "values_of h = bits_set ws"
    using assms by (rule wf_bitsetE)
  let ?i = "word_index v" and ?b = "bit_index v"
  define w where "w = (ws ! ?i) AND NOT (consumed_mask ?b)"
  have i: "?i < length ws" using len by simp
  have bit_w: "bit w j \<longleftrightarrow> bit (ws ! ?i) j \<and> ?b < j" for j
    using bit_less_64 [of "ws ! ?i" j] by (auto simp: w_def bit_and_iff bit_not_iff bit_consumed_mask)
  have v: "unat v = 64 * ?i + ?b" by simp
  have above: "?i < x div 64 \<or> x div 64 = ?i \<and> bit w (x mod 64)" if "x \<in> bits_set ws" "unat v < x" for x
  proof -
    have "?i \<le> x div 64" using that(2) unfolding word_index_div by (intro div_le_mono) simp
    moreover have "bit w (x mod 64)" if "x div 64 = ?i"
    proof -
      have "x = 64 * ?i + x mod 64" using that by (metis mult_div_mod_eq)
      then have "?b < x mod 64" using \<open>unat v < x\<close> v by linarith
      then show ?thesis using \<open>x \<in> bits_set ws\<close> that by (simp add: bit_w mem_bits_set)
    qed
    ultimately show ?thesis by linarith
  qed
  show ?thesis
  proof (cases "w = 0")
    case False
    let ?j = "countr_zero w"
    have j: "?j < 64" "bit w ?j" using False by (simp_all add: countr_zero_less countr_zero_bit)
    have "is_next (bits_set ws) v (Some (to_low (push_bit 6 ?i + ?j)))"
    proof (rule is_next_bits [OF len i j(1)])
      show "bit (ws ! ?i) ?j" using j(2) by (simp add: bit_w)
      show "unat v < 64 * ?i + ?j" using j(2) unfolding v bit_w by (metis nat_add_left_cancel_less)
      show "64 * ?i + ?j \<le> x" if "x \<in> bits_set ws" "unat v < x" for x
      proof -
        consider "?i < x div 64" | "x div 64 = ?i" "bit w (x mod 64)" using above \<open>x \<in> bits_set ws\<close> \<open>unat v < x\<close> by blast
        then show ?thesis
        proof cases
          case 1
          then show ?thesis using j(1) div_mult_mod_eq [of x 64] by linarith
        next
          case 2
          then show ?thesis using countr_zero_least [OF False 2(2)] div_mult_mod_eq [of x 64] by linarith
        qed
      qed
    qed
    with False i show ?thesis by (simp add: bitset_next_after_def Let_def w_def [symmetric])
  next
    case True
    then have later: "?i < x div 64" if "x \<in> bits_set ws" "unat v < x" for x
      using above [OF that] by auto
    let ?rest = "drop (?i + 1) ws"
    let ?k = "?i + 1 + front_word ?rest"
    show ?thesis
    proof (cases "\<exists>w\<in>set ?rest. w \<noteq> 0")
      case False
      have "\<not> unat v < x" if "x \<in> bits_set ws" for x
      proof
        assume "unat v < x"
        from later [OF that this] that have "ws ! (x div 64) \<in> set ?rest" "bit (ws ! (x div 64)) (x mod 64)"
          by (auto simp: mem_bits_set in_set_conv_nth intro!: exI [of _ "x div 64 - ?i - 1"])
        with False show False by fastforce
      qed
      moreover have "front_word ?rest = length ?rest" using False by (intro front_word_none) blast
      then have "\<not> ?k < length ws" using i by simp
      ultimately show ?thesis
        using True i by (auto simp: bitset_next_after_def Let_def w_def [symmetric] is_next_def not_less)
    next
      case nz: True
      then obtain u where u: "u \<in> set ?rest" "u \<noteq> 0" by blast
      note f = front_word_correct [OF u]
      have k: "?k < length ws" "ws ! ?k \<noteq> 0" using f(1,2) by simp_all
      let ?j = "countr_zero (ws ! ?k)"
      have j: "?j < 64" "bit (ws ! ?k) ?j" using k(2) by (simp_all add: countr_zero_less countr_zero_bit)
      have "is_next (bits_set ws) v (Some (to_low (push_bit 6 ?k + ?j)))"
      proof (rule is_next_bits [OF len k(1) j])
        have "64 * ?i + ?b < 64 * (?i + 1)" by (simp only: distrib_left mult_1_right add_less_cancel_left bit_index_less)
        also have "\<dots> \<le> 64 * ?k" by (intro mult_le_mono2) simp
        finally show "unat v < 64 * ?k + ?j" unfolding v by (rule trans_less_add1)
        show "64 * ?k + ?j \<le> x" if "x \<in> bits_set ws" "unat v < x" for x
        proof -
          have x: "?i < x div 64" "x div 64 < length ws" "bit (ws ! (x div 64)) (x mod 64)"
            using later [OF that] that(1) by (auto simp: mem_bits_set)
          have "\<not> x div 64 < ?k"
          proof
            assume "x div 64 < ?k"
            then have "?rest ! (x div 64 - ?i - 1) = 0" using x(1) by (intro f(3)) linarith
            moreover have "?rest ! (x div 64 - ?i - 1) = ws ! (x div 64)" using x(1,2) by simp
            ultimately show False using x(3) by simp
          qed
          moreover have "?j \<le> x mod 64" if "x div 64 = ?k" using x(3) that k(2) countr_zero_least by metis
          ultimately show ?thesis using j(1) by (intro position_le) simp_all
        qed
      qed
      with True i k(1) show ?thesis by (simp add: bitset_next_after_def Let_def w_def [symmetric])
    qed
  qed
qed

lemma bitset_add_correct:
  assumes "wf_container h" "holds_bitset h"
  shows "wf_container (snd (bitset_add v h))" "holds_bitset (snd (bitset_add v h))"
    "values_of (snd (bitset_add v h)) = insert (unat v) (values_of h)"
    "fst (bitset_add v h) \<longleftrightarrow> unat v \<notin> values_of h"
proof -
  obtain ws where len: "length ws = 1024" and ws [simp]: "bitset_words h = ws" "values_of h = bits_set ws"
    and c: "cardinality_stale h \<longrightarrow> cardinality h \<le> card (bits_set ws)"
      "\<not> cardinality_stale h \<longrightarrow> cardinality h = card (bits_set ws)"
    using assms by (rule wf_bitsetE)
  have "wf_container (snd (bitset_add v h)) \<and> holds_bitset (snd (bitset_add v h)) \<and>
    values_of (snd (bitset_add v h)) = insert (unat v) (values_of h) \<and>
    (fst (bitset_add v h) \<longleftrightarrow> unat v \<notin> values_of h)"
  proof (cases "unat v \<in> bits_set ws")
    case True
    with assms len show ?thesis by (simp add: bitset_add_def Let_def insert_absorb)
  next
    case False
    let ?h = "mark_endpoints_stale (adjust_cardinality 1 (set_bitset_words (words_set v ws) h))"
    have res: "bitset_add v h = (True, ?h)" using False len by (simp add: bitset_add_def Let_def)
    have p: "payload ?h = Bitset_payload (words_set v ws)" by simp
    have set: "bits_set (words_set v ws) = insert (unat v) (bits_set ws)" using len by (simp add: bits_set_words_set)
    have le: "cardinality h \<le> card (bits_set ws)" using c by (cases "cardinality_stale h") auto
    then have "int (cardinality h) + 1 \<le> 65536 + 1" using card_bits_le [OF len] by linarith
    then have "cardinality ?h = cardinality h + 1"
      using card_bits_le [of "words_set v ws"] len le False set
      by (simp add: adjust_cardinality_def nat_add_distrib mod_pos_pos_trivial)
    moreover have "card (bits_set (words_set v ws)) = card (bits_set ws) + 1"
      using False by (simp add: set)
    ultimately have "wf_container ?h"
      unfolding wf_container_bitset [OF p] using c len by simp
    then show ?thesis using False p by (simp add: res set holds_payload)
  qed
  then show "wf_container (snd (bitset_add v h))" "holds_bitset (snd (bitset_add v h))"
    "values_of (snd (bitset_add v h)) = insert (unat v) (values_of h)"
    "fst (bitset_add v h) \<longleftrightarrow> unat v \<notin> values_of h" by blast+
qed

lemma add_sorted_bits:
  "length ws = 1024 \<Longrightarrow>
    fold (\<lambda>v (n, ws). (n + of_bool (\<not> words_test ws v), words_set v ws)) vs (n, ws) =
      (n + card (array_set vs - bits_set ws), fold words_set vs ws)"
proof (induction vs arbitrary: n ws)
  case (Cons v vs)
  have eq: "array_set (v # vs) - bits_set ws =
      (if unat v \<in> bits_set ws then {} else {unat v}) \<union> (array_set vs - insert (unat v) (bits_set ws))"
    by auto
  have "card (array_set (v # vs) - bits_set ws) =
      of_bool (unat v \<notin> bits_set ws) + card (array_set vs - insert (unat v) (bits_set ws))"
    unfolding eq by (subst card_Un_disjoint) auto
  then show ?case using Cons by (simp add: bits_set_words_set)
qed simp

lemma remove_sorted_bits:
  "length ws = 1024 \<Longrightarrow>
    fold (\<lambda>v (n, ws). (n + of_bool (words_test ws v), words_clear v ws)) vs (n, ws) =
      (n + card (bits_set ws \<inter> array_set vs), fold words_clear vs ws)"
proof (induction vs arbitrary: n ws)
  case (Cons v vs)
  have eq: "bits_set ws \<inter> array_set (v # vs) =
      (if unat v \<in> bits_set ws then {unat v} else {}) \<union> ((bits_set ws - {unat v}) \<inter> array_set vs)"
    by auto
  have "card (bits_set ws \<inter> array_set (v # vs)) =
      of_bool (unat v \<in> bits_set ws) + card ((bits_set ws - {unat v}) \<inter> array_set vs)"
    unfolding eq by (subst card_Un_disjoint) auto
  then show ?case using Cons by (simp add: bits_set_words_clear)
qed simp

text \<open>A bitset in the middle of a lazy fold may have lost every bit while its count is stale. Reading its
  endpoints then stores two zeros as valid, which the batch's endpoints must not be merged with: the
  hypothesis excludes that state.\<close>

lemma bitset_add_sorted_correct:
  assumes "wf_container h" "holds_bitset h" "strict batch"
    and settled: "cardinality_stale h \<Longrightarrow> endpoints_stale h \<or> values_of h \<noteq> {}"
  shows "wf_container (snd (bitset_add_sorted batch h))" "holds_bitset (snd (bitset_add_sorted batch h))"
    "values_of (snd (bitset_add_sorted batch h)) = values_of h \<union> array_set batch"
    "fst (bitset_add_sorted batch h) = card (array_set batch - values_of h)"
proof -
  obtain ws where len: "length ws = 1024" and p: "payload h = Bitset_payload ws"
    and ws [simp]: "bitset_words h = ws" "values_of h = bits_set ws"
    and c: "cardinality_stale h \<longrightarrow> cardinality h \<le> card (bits_set ws)"
      "\<not> cardinality_stale h \<longrightarrow> cardinality h = card (bits_set ws)"
    and e: "\<not> endpoints_stale h \<longrightarrow> bits_set ws \<noteq> {} \<longrightarrow>
      unat (min_end h) = Min (bits_set ws) \<and> unat (max_end h) = Max (bits_set ws)"
    using assms(1,2) by (rule wf_bitsetE)
  define n where "n = card (array_set batch - bits_set ws)"
  define ws' where "ws' = fold words_set batch ws"
  have ws': "length ws' = 1024" "bits_set ws' = array_set batch \<union> bits_set ws"
    using len by (simp_all add: ws'_def bits_set_fold_words_set)
  have fold: "fold (\<lambda>v (additions, words). (additions + of_bool (\<not> words_test words v), words_set v words))
      batch (0, ws) = (n, ws')"
    using add_sorted_bits [OF len, of batch 0] by (simp add: n_def ws'_def)
  have card: "card (bits_set ws') = card (bits_set ws) + n"
    unfolding ws'(2) n_def by (subst Un_commute, subst Un_Diff_cancel [symmetric], rule card_Un_disjoint) auto
  have "wf_container (snd (bitset_add_sorted batch h)) \<and> holds_bitset (snd (bitset_add_sorted batch h)) \<and>
    values_of (snd (bitset_add_sorted batch h)) = values_of h \<union> array_set batch \<and>
    fst (bitset_add_sorted batch h) = n"
  proof (cases "n = 0")
    case True
    then have sub: "array_set batch \<subseteq> bits_set ws" by (simp add: n_def)
    then have "bits_set ws' = bits_set ws" using ws'(2) by blast
    then have "ws' = ws" using bits_set_inject [of ws' ws] len ws'(1) by simp
    moreover have "set_bitset_words ws h = h" using p by (simp add: set_bitset_words_def)
    ultimately have "bitset_add_sorted batch h = (0, h)"
      unfolding bitset_add_sorted_def ws fold prod.case Let_def using True by simp
    with assms sub True show ?thesis by auto
  next
    case False
    then have ne: "batch \<noteq> []" by (auto simp: n_def)
    let ?h = "adjust_cardinality (int n) (set_bitset_words ws' h)"
    have p': "payload ?h = Bitset_payload ws'" by simp
    have le: "cardinality h \<le> card (bits_set ws)" using c by (cases "cardinality_stale h") auto
    have card': "cardinality ?h = cardinality h + n"
      using card_bits_le [OF ws'(1)] card le
      by (simp add: adjust_cardinality_def mod_pos_pos_trivial)
    define g where "g = (if \<not> cardinality_stale h \<and> cardinality h = 0 then set_endpoints (hd batch) (last batch) ?h
      else if \<not> endpoints_stale h
      then set_endpoints (min (min_value ?h) (hd batch)) (max (max_value ?h) (last batch)) ?h else ?h)"
    have res: "bitset_add_sorted batch h = (n, g)"
      unfolding bitset_add_sorted_def ws fold prod.case Let_def g_def using False by simp
    have ends: "Min (array_set batch) = unat (hd batch)" "Max (array_set batch) = unat (last batch)"
      using array_set_Min_Max [OF assms(3) ne] by auto
    have pg: "payload g = Bitset_payload ws'" by (simp add: g_def)
    have cg: "cardinality g = cardinality h + n" "cardinality_stale g = cardinality_stale h"
      using card' by (simp_all add: g_def)
    have mm: "unat (min a b) = min (unat a) (unat b)" "unat (max a b) = max (unat a) (unat b)" for a b :: low
      by (auto simp: min_def max_def word_le_nat_alt)
    have eg: "unat (min_end g) = Min (bits_set ws') \<and> unat (max_end g) = Max (bits_set ws')" if "\<not> endpoints_stale g"
    proof (cases "bits_set ws = {}")
      case True
      show ?thesis
      proof (cases "\<not> cardinality_stale h \<and> cardinality h = 0")
        case True
        then show ?thesis using ends \<open>bits_set ws = {}\<close> by (simp add: g_def ws'(2))
      next
        case False
        with True c have "cardinality_stale h" by auto
        with settled True have "endpoints_stale h" by simp
        with that False show ?thesis by (auto simp: g_def)
      qed
    next
      case nonempty: False
      then have nz: "\<not> (\<not> cardinality_stale h \<and> cardinality h = 0)" using c by auto
      with that have "\<not> endpoints_stale h" by (auto simp: g_def split: if_splits)
      moreover from this have "min_value ?h = min_end h" "max_value ?h = max_end h"
        by (simp_all add: min_value_def max_value_def ensure_endpoints_def)
      ultimately show ?thesis
        using nz e ends ne nonempty by (auto simp: g_def ws'(2) mm Min_Un Max_Un min.commute max.commute)
    qed
    have "wf_container g"
      unfolding wf_container_bitset [OF pg] using ws'(1) cg c card eg by auto
    then show ?thesis using pg ws'(2) by (auto simp: res holds_payload)
  qed
  then show "wf_container (snd (bitset_add_sorted batch h))" "holds_bitset (snd (bitset_add_sorted batch h))"
    "values_of (snd (bitset_add_sorted batch h)) = values_of h \<union> array_set batch"
    "fst (bitset_add_sorted batch h) = card (array_set batch - values_of h)" by (simp_all add: n_def)
qed

text \<open>What the two removals leave: the count is settled first, and the endpoints are given up only when a
  removed value may have been one.\<close>

lemma wf_after_removal:
  assumes "wf_container h" "holds_bitset h" "length ws' = 1024"
    and "bits_set ws' = values_of h - R" "n = card (values_of h \<inter> R)" "0 < n"
    and "\<not> endpoints_stale h \<Longrightarrow> \<not> stale \<Longrightarrow> unat (min_end h) \<notin> R \<and> unat (max_end h) \<notin> R"
  defines "g \<equiv> adjust_cardinality (- int n) (set_bitset_words ws' (settle_cardinality h))"
  shows "wf_container (if stale then mark_endpoints_stale g else g)"
proof -
  have fin: "finite (values_of h)" by simp
  have card: "card (values_of h) = n + card (bits_set ws')"
  proof -
    have "values_of h = (values_of h \<inter> R) \<union> (values_of h - R)" by blast
    then have "card (values_of h) = card (values_of h \<inter> R) + card (values_of h - R)"
      using card_Un_disjoint [of "values_of h \<inter> R" "values_of h - R"] by auto
    then show ?thesis using assms(4,5) by simp
  qed
  have le: "card (values_of h) \<le> 65536"
    using wf_bitset_words [OF assms(1,2)] card_bits_le by auto
  note s = settle_cardinality_correct [OF assms(1)]
  let ?g = "if stale then mark_endpoints_stale g else g"
  have p: "payload ?g = Bitset_payload ws'" by (simp add: g_def)
  have c: "cardinality ?g = card (bits_set ws')" "\<not> cardinality_stale ?g"
  proof -
    have "cardinality g = nat ((int (card (values_of h)) - int n) mod 2 ^ 32)"
      by (simp add: g_def adjust_cardinality_def s(3))
    also have "\<dots> = card (bits_set ws')" using card le by (simp add: mod_pos_pos_trivial)
    finally show "cardinality ?g = card (bits_set ws')" by simp
    show "\<not> cardinality_stale ?g" using s(2) by (simp add: g_def)
  qed
  have e: "unat (min_end g) = Min (bits_set ws') \<and> unat (max_end g) = Max (bits_set ws')"
    if "\<not> endpoints_stale h" "\<not> stale" "bits_set ws' \<noteq> {}"
  proof -
    have ne: "values_of h \<noteq> {}" using that(3) assms(4) by blast
    then have m: "unat (min_end h) = Min (values_of h)" "unat (max_end h) = Max (values_of h)"
      using assms(1) that(1) by (simp_all add: wf_container_def endpoints_ok_def)
    have "Min (values_of h) \<in> bits_set ws'" "Max (values_of h) \<in> bits_set ws'"
      using m assms(7) [OF that(1,2)] ne unfolding assms(4) by (metis DiffI Min_in Max_in fin)+
    moreover have "Min (values_of h) \<le> x \<and> x \<le> Max (values_of h)" if "x \<in> bits_set ws'" for x
      using that fin unfolding assms(4) by simp
    ultimately have "Min (bits_set ws') = Min (values_of h)" "Max (bits_set ws') = Max (values_of h)"
      by (auto intro: Min_eqI Max_eqI)
    with m show ?thesis by (simp add: g_def)
  qed
  show ?thesis
    unfolding wf_container_bitset [OF p] using assms(3) c e by (auto simp: g_def)
qed

lemma bitset_remove_sorted_correct:
  assumes "wf_container h" "holds_bitset h" "strict batch"
  shows "wf_container (snd (bitset_remove_sorted batch h))" "holds_bitset (snd (bitset_remove_sorted batch h))"
    "values_of (snd (bitset_remove_sorted batch h)) = values_of h - array_set batch"
    "fst (bitset_remove_sorted batch h) = card (values_of h \<inter> array_set batch)"
proof -
  obtain ws where len: "length ws = 1024" and p: "payload h = Bitset_payload ws"
    and ws [simp]: "bitset_words h = ws" "values_of h = bits_set ws"
    using assms(1,2) by (rule wf_bitsetE)
  define n where "n = card (bits_set ws \<inter> array_set batch)"
  define ws' where "ws' = fold words_clear batch ws"
  have ws': "length ws' = 1024" "bits_set ws' = bits_set ws - array_set batch"
    using len by (simp_all add: ws'_def bits_set_fold_words_clear)
  have fold: "fold (\<lambda>v (removals, words). (removals + of_bool (words_test words v), words_clear v words))
      batch (0, ws) = (n, ws')"
    using remove_sorted_bits [OF len, of batch 0] by (simp add: n_def ws'_def)
  have w: "bitset_words (settle_cardinality h) = ws" using p by simp
  let ?g = "adjust_cardinality (- int n) (set_bitset_words ws' (settle_cardinality h))"
  let ?st = "\<not> endpoints_stale h \<and> (hd batch \<le> min_end h \<or> last batch \<ge> max_end h)"
  have res: "bitset_remove_sorted batch h =
      (n, if n \<noteq> 0 then if ?st then mark_endpoints_stale ?g else ?g else set_bitset_words ws' (settle_cardinality h))"
    unfolding bitset_remove_sorted_def Let_def w fold prod.case by (cases "endpoints_stale h") (simp_all add: valid_endpoints)
  have "wf_container (snd (bitset_remove_sorted batch h)) \<and> holds_bitset (snd (bitset_remove_sorted batch h)) \<and>
    values_of (snd (bitset_remove_sorted batch h)) = values_of h - array_set batch"
  proof (cases "n = 0")
    case True
    then have disj: "bits_set ws \<inter> array_set batch = {}" by (simp add: n_def)
    then have "bits_set ws' = bits_set ws" using ws'(2) by blast
    then have "ws' = ws" using bits_set_inject [of ws' ws] len ws'(1) by simp
    moreover have "set_bitset_words ws (settle_cardinality h) = settle_cardinality h"
      using p by (simp add: set_bitset_words_def settle_cardinality_def set_cardinality_def)
    ultimately show ?thesis
      using res True assms(2) disj settle_cardinality_correct(1) [OF assms(1)]
      by (simp add: Diff_triv holds_payload)
  next
    case False
    then have "batch \<noteq> []" by (auto simp: n_def)
    then have out: "unat (min_end h) \<notin> array_set batch \<and> unat (max_end h) \<notin> array_set batch"
      if "\<not> endpoints_stale h" "\<not> ?st"
      using that strict_hd_le [OF assms(3)] strict_le_last [OF assms(3)] by auto
    have "wf_container (if ?st then mark_endpoints_stale ?g else ?g)"
    proof (rule wf_after_removal [OF assms(1,2) ws'(1)])
      show "bits_set ws' = values_of h - array_set batch" using ws'(2) by simp
      show "n = card (values_of h \<inter> array_set batch)" by (simp add: n_def)
      show "0 < n" using False by simp
    qed (rule out)
    then show ?thesis using False ws'(2) by (simp add: res holds_payload)
  qed
  then show "wf_container (snd (bitset_remove_sorted batch h))" "holds_bitset (snd (bitset_remove_sorted batch h))"
    "values_of (snd (bitset_remove_sorted batch h)) = values_of h - array_set batch"
    "fst (bitset_remove_sorted batch h) = card (values_of h \<inter> array_set batch)"
    by (simp_all add: res n_def)
qed

lemma bitset_remove_correct:
  assumes "wf_container h" "holds_bitset h"
  shows "wf_container (snd (bitset_remove v h))" "holds_bitset (snd (bitset_remove v h))"
    "values_of (snd (bitset_remove v h)) = values_of h - {unat v}"
    "fst (bitset_remove v h) \<longleftrightarrow> unat v \<in> values_of h"
proof -
  obtain ws where len: "length ws = 1024" and p: "payload h = Bitset_payload ws"
    and ws [simp]: "bitset_words h = ws" "values_of h = bits_set ws"
    using assms by (rule wf_bitsetE)
  have "wf_container (snd (bitset_remove v h)) \<and> holds_bitset (snd (bitset_remove v h)) \<and>
    values_of (snd (bitset_remove v h)) = values_of h - {unat v} \<and> (fst (bitset_remove v h) \<longleftrightarrow> unat v \<in> values_of h)"
  proof (cases "unat v \<in> bits_set ws")
    case False
    with assms len show ?thesis by (simp add: bitset_remove_def)
  next
    case True
    let ?g = "adjust_cardinality (- 1) (set_bitset_words (words_clear v ws) (settle_cardinality h))"
    let ?st = "\<not> endpoints_stale h \<and> (v = min_end h \<or> v = max_end h)"
    have w: "bitset_words (settle_cardinality h) = ws" using p by simp
    have res: "bitset_remove v h = (True, if ?st then mark_endpoints_stale ?g else ?g)"
      using True len unfolding bitset_remove_def Let_def w by (cases "endpoints_stale h") (simp_all add: valid_endpoints)
    have "wf_container (if ?st then mark_endpoints_stale ?g else ?g)"
    proof (rule wf_after_removal [OF assms, of "words_clear v ws" "{unat v}" 1, unfolded of_nat_1])
      show "length (words_clear v ws) = 1024" using len by simp
      show "bits_set (words_clear v ws) = values_of h - {unat v}" using len by (simp add: bits_set_words_clear)
      show "1 = card (values_of h \<inter> {unat v})" using True by simp
      show "0 < (1::nat)" by simp
      show "unat (min_end h) \<notin> {unat v} \<and> unat (max_end h) \<notin> {unat v}"
        if "\<not> endpoints_stale h" "\<not> ?st"
        using that by (auto simp: low_eq_iff)
    qed
    then show ?thesis using True len by (simp add: res bits_set_words_clear holds_payload)
  qed
  then show "wf_container (snd (bitset_remove v h))" "holds_bitset (snd (bitset_remove v h))"
    "values_of (snd (bitset_remove v h)) = values_of h - {unat v}"
    "fst (bitset_remove v h) \<longleftrightarrow> unat v \<in> values_of h" by blast+
qed

subsection \<open>The interface\<close>

text \<open>The state \<open>bitset_add_sorted_correct\<close> excludes does not come back: the five operations keep out of it.\<close>

definition settled_bitset :: "container \<Rightarrow> bool" where
  "settled_bitset h \<longleftrightarrow> wf_container h \<and> holds_bitset h \<and>
     (cardinality_stale h \<longrightarrow> endpoints_stale h \<or> values_of h \<noteq> {})"

lemma settled_bitset_add: "settled_bitset h \<Longrightarrow> settled_bitset (snd (bitset_add v h))"
  by (simp add: settled_bitset_def bitset_add_correct)

lemma not_stale_after_remove:
  "wf_container h \<Longrightarrow> fst (bitset_remove v h) \<Longrightarrow> \<not> cardinality_stale (snd (bitset_remove v h))"
  using settle_cardinality_correct(2) [of h] by (auto simp: bitset_remove_def Let_def split: if_splits)

lemma not_stale_after_remove_sorted:
  "wf_container h \<Longrightarrow> \<not> cardinality_stale (snd (bitset_remove_sorted vs h))"
  using settle_cardinality_correct(2) [of h] by (auto simp: bitset_remove_sorted_def Let_def split: prod.splits)

lemma bitset_remove_refused: "\<not> fst (bitset_remove v h) \<Longrightarrow> snd (bitset_remove v h) = h"
  by (auto simp: bitset_remove_def Let_def split: if_splits)

lemma settled_bitset_remove: "settled_bitset h \<Longrightarrow> settled_bitset (snd (bitset_remove v h))"
  using not_stale_after_remove [of h v] bitset_remove_refused [of v h] bitset_remove_correct(1,2) [of h v]
  by (cases "fst (bitset_remove v h)") (simp_all add: settled_bitset_def)

lemma bitset_add_sorted_flags:
  "cardinality_stale (snd (bitset_add_sorted vs h)) = cardinality_stale h"
  "endpoints_stale h \<Longrightarrow> vs = [] \<Longrightarrow> endpoints_stale (snd (bitset_add_sorted vs h))"
  by (simp_all add: bitset_add_sorted_def Let_def case_prod_beta)

lemma settled_bitset_add_sorted:
  assumes "settled_bitset h" "strict vs"
  shows "settled_bitset (snd (bitset_add_sorted vs h))"
proof -
  from assms(1) have h: "wf_container h" "holds_bitset h"
    and settled: "cardinality_stale h \<Longrightarrow> endpoints_stale h \<or> values_of h \<noteq> {}"
    by (auto simp: settled_bitset_def)
  note correct = bitset_add_sorted_correct [OF h assms(2) settled]
  have "endpoints_stale (snd (bitset_add_sorted vs h)) \<or> values_of (snd (bitset_add_sorted vs h)) \<noteq> {}"
    if "cardinality_stale h"
  proof (cases "vs = []")
    case True
    then show ?thesis using settled [OF that] correct(3) bitset_add_sorted_flags(2) [of h vs] by auto
  next
    case False
    then show ?thesis using correct(3) by simp
  qed
  then show ?thesis using correct(1,2) by (auto simp: settled_bitset_def bitset_add_sorted_flags(1))
qed

lemma settled_bitset_remove_sorted:
  "settled_bitset h \<Longrightarrow> strict vs \<Longrightarrow> settled_bitset (snd (bitset_remove_sorted vs h))"
  by (simp add: settled_bitset_def bitset_remove_sorted_correct not_stale_after_remove_sorted)

interpretation bitset_form: batch_value_set settled_bitset values_of bitset_contains bitset_add bitset_remove
  bitset_add_sorted bitset_remove_sorted
  by unfold_locales
    (simp_all add: settled_bitset_add settled_bitset_remove settled_bitset_add_sorted settled_bitset_remove_sorted,
     simp_all add: settled_bitset_def bitset_contains_correct bitset_add_correct bitset_remove_correct
      bitset_add_sorted_correct bitset_remove_sorted_correct)

end
