(* ===== verification/Run_Refs.thy ===== *)
theory Run_Refs
  imports Handle Value_Set
begin

text \<open>
  The run views of a container handle (\<open>container_handle.hpp\<close>): membership, the walk over the values, insertion
  and removal of one value, of a range and of a sorted batch. The range operations are those of the standalone
  run container on the payload's list; the batch insertion merges in place.
\<close>

definition run_contains :: "container \<Rightarrow> low \<Rightarrow> bool" where
  "run_contains h v = runs_contains (run_list h) v"

definition run_first :: "container \<Rightarrow> low" where
  "run_first h = rbegin (hd (run_list h))"

definition run_last :: "container \<Rightarrow> low" where
  "run_last h = rend (last (run_list h))"

text \<open>The cursor is the position of the run that holds the value of the previous step.\<close>

definition run_next_after :: "container \<Rightarrow> low \<Rightarrow> nat \<Rightarrow> low option \<times> nat" where
  "run_next_after h v position =
    (let rs = run_list h
     in if v < rend (rs ! position) then (Some (v + 1), position)
        else let next_p = position + 1
             in if next_p = length rs then (None, position) else (Some (rbegin (rs ! next_p)), next_p))"

definition set_run_list :: "run list \<Rightarrow> container \<Rightarrow> container" where
  "set_run_list rs h = h\<lparr>payload := Run_payload rs\<rparr>"

definition run_add_closed_range :: "low \<Rightarrow> low \<Rightarrow> container \<Rightarrow> container" where
  "run_add_closed_range b e h =
     (if b > e then h else run_sync_header (set_run_list (runs_add_closed_range b e (run_list h)) h))"

definition run_remove_closed_range :: "low \<Rightarrow> low \<Rightarrow> container \<Rightarrow> container" where
  "run_remove_closed_range b e h =
     (if b > e \<or> run_list h = [] then h
      else run_sync_header (set_run_list (runs_remove_closed_range b e (run_list h)) h))"

definition run_add :: "low \<Rightarrow> container \<Rightarrow> bool \<times> container" where
  "run_add v h = (let previous_size = cardinality h; h = run_add_closed_range v v h
                  in (cardinality h \<noteq> previous_size, h))"

definition run_remove :: "low \<Rightarrow> container \<Rightarrow> bool \<times> container" where
  "run_remove v h = (let previous_size = cardinality h; h = run_remove_closed_range v v h
                     in (cardinality h \<noteq> previous_size, h))"

definition run_from_sorted_values :: "low list \<Rightarrow> container \<Rightarrow> container" where
  "run_from_sorted_values vs h = run_sync_header (set_run_list (runs_from_sorted_values vs) h)"

subsection \<open>Correctness\<close>

lemma wf_runE:
  assumes "wf_container h" "holds_run h"
  obtains rs where "payload h = Run_payload rs" "wf_runs rs" "run_list h = rs" "values_of h = runs_set rs"
    "\<not> endpoints_stale h" "\<not> cardinality_stale h" "cardinality h = card (runs_set rs)"
    "rs \<noteq> [] \<Longrightarrow> min_end h = rbegin (hd rs) \<and> max_end h = rend (last rs)"
proof -
  from assms(2) obtain rs where p: "payload h = Run_payload rs" by (auto simp: holds_payload)
  with assms(1) show ?thesis using wf_container_run [OF p] by (intro that [of rs]) auto
qed

lemma set_run_list_simps [simp]:
  "payload (set_run_list rs h) = Run_payload rs" "run_list (set_run_list rs h) = rs"
  "values_of (set_run_list rs h) = runs_set rs" "holds_run (set_run_list rs h)"
  "endpoints_stale (set_run_list rs h) = endpoints_stale h"
  "cardinality_stale (set_run_list rs h) = cardinality_stale h"
  "cardinality (set_run_list rs h) = cardinality h"
  by (simp_all add: set_run_list_def run_list_def values_of_def holds_run_def kind_def)

lemma holds_run_sync [simp]: "holds_run (run_sync_header h) = holds_run h"
  by (rule payload_congs) simp

lemma wf_set_run_list:
  assumes "wf_runs rs" "\<not> endpoints_stale h"
  shows "wf_container (run_sync_header (set_run_list rs h))"
  using assms by (intro wf_run_sync_header [of _ rs]) simp_all

lemma run_contains_correct: "wf_container h \<Longrightarrow> holds_run h \<Longrightarrow> run_contains h v \<longleftrightarrow> unat v \<in> values_of h"
  by (erule wf_runE) (simp_all add: run_contains_def runs_contains_iff)

lemma run_first_last_correct:
  assumes "wf_container h" "holds_run h" "values_of h \<noteq> {}"
  shows "unat (run_first h) = Min (values_of h)" "unat (run_last h) = Max (values_of h)"
proof -
  obtain rs where "wf_runs rs" "run_list h = rs" "values_of h = runs_set rs" using assms(1,2) by (rule wf_runE)
  with assms(3) show "unat (run_first h) = Min (values_of h)" "unat (run_last h) = Max (values_of h)"
    by (simp_all add: run_first_def run_last_def runs_set_Min_Max runs_set_empty_iff)
qed

lemma run_add_closed_range_correct:
  assumes "wf_container h" "holds_run h"
  shows "wf_container (run_add_closed_range b e h)" "holds_run (run_add_closed_range b e h)"
    "values_of (run_add_closed_range b e h) = values_of h \<union> {unat b..unat e}"
proof -
  obtain rs where "wf_runs rs" "run_list h = rs" "values_of h = runs_set rs" "\<not> endpoints_stale h"
    using assms by (rule wf_runE)
  with assms show "wf_container (run_add_closed_range b e h)" "holds_run (run_add_closed_range b e h)"
    "values_of (run_add_closed_range b e h) = values_of h \<union> {unat b..unat e}"
    by (simp_all add: run_add_closed_range_def runs_add_closed_range_correct wf_set_run_list word_less_nat_alt)
qed

lemma run_remove_closed_range_correct:
  assumes "wf_container h" "holds_run h"
  shows "wf_container (run_remove_closed_range b e h)" "holds_run (run_remove_closed_range b e h)"
    "values_of (run_remove_closed_range b e h) = values_of h - {unat b..unat e}"
proof -
  obtain rs where "wf_runs rs" "run_list h = rs" "values_of h = runs_set rs" "\<not> endpoints_stale h"
    using assms by (rule wf_runE)
  with assms show "wf_container (run_remove_closed_range b e h)" "holds_run (run_remove_closed_range b e h)"
    "values_of (run_remove_closed_range b e h) = values_of h - {unat b..unat e}"
    by (simp_all add: run_remove_closed_range_def runs_remove_closed_range_correct wf_set_run_list word_less_nat_alt)
qed

lemma run_cardinality: "wf_container h \<Longrightarrow> holds_run h \<Longrightarrow> cardinality h = card (values_of h)"
  by (erule wf_runE) simp_all

lemma run_add_correct:
  assumes "wf_container h" "holds_run h"
  shows "wf_container (snd (run_add v h))" "holds_run (snd (run_add v h))"
    "values_of (snd (run_add v h)) = insert (unat v) (values_of h)"
    "fst (run_add v h) \<longleftrightarrow> unat v \<notin> values_of h"
  using run_add_closed_range_correct [OF assms, of v v] run_cardinality [OF assms]
  by (simp_all add: run_add_def Let_def run_cardinality card_insert_if)

lemma run_remove_correct:
  assumes "wf_container h" "holds_run h"
  shows "wf_container (snd (run_remove v h))" "holds_run (snd (run_remove v h))"
    "values_of (snd (run_remove v h)) = values_of h - {unat v}"
    "fst (run_remove v h) \<longleftrightarrow> unat v \<in> values_of h"
proof -
  note c = run_remove_closed_range_correct [OF assms, of v v]
  show "wf_container (snd (run_remove v h))" "holds_run (snd (run_remove v h))"
    "values_of (snd (run_remove v h)) = values_of h - {unat v}"
    using c by (simp_all add: run_remove_def Let_def)
  have "card (values_of h - {unat v}) \<noteq> card (values_of h) \<longleftrightarrow> unat v \<in> values_of h"
    using card_Diff1_less [of "values_of h" "unat v"] by (cases "unat v \<in> values_of h") auto
  then show "fst (run_remove v h) \<longleftrightarrow> unat v \<in> values_of h"
    using c run_cardinality [OF assms] by (simp add: run_remove_def Let_def run_cardinality)
qed

lemma run_from_sorted_values_correct:
  assumes "strict vs" "\<not> endpoints_stale h"
  shows "wf_container (run_from_sorted_values vs h)" "holds_run (run_from_sorted_values vs h)"
    "values_of (run_from_sorted_values vs h) = array_set vs"
  using assms by (simp_all add: run_from_sorted_values_def wf_set_run_list runs_from_sorted_values_correct strict_sorted)

lemma run_next_after_correct:
  assumes "wf_container h" "holds_run h" "position < length (run_list h)"
    and at: "rbegin (run_list h ! position) \<le> v" "v \<le> rend (run_list h ! position)"
  shows "is_next (values_of h) v (fst (run_next_after h v position))"
    and "fst (run_next_after h v position) = Some w \<Longrightarrow> snd (run_next_after h v position) < length (run_list h) \<and>
      rbegin (run_list h ! snd (run_next_after h v position)) \<le> w \<and>
      w \<le> rend (run_list h ! snd (run_next_after h v position))"
proof -
  obtain rs where rs: "run_list h = rs" "wf_runs rs" "values_of h = runs_set rs"
    using assms(1,2) by (rule wf_runE)
  let ?r = "rs ! position" and ?pre = "take position rs" and ?rest = "drop (Suc position) rs"
  have split: "rs = ?pre @ ?r # ?rest" using assms(3) rs(1) by (simp add: id_take_nth_drop)
  have pre: "\<forall>p\<in>set ?pre. rend p < v"
  proof
    fix p assume "p \<in> set ?pre"
    then obtain i where i: "i < position" "p = rs ! i" using assms(3) rs(1) by (auto simp: in_set_conv_nth)
    have "unat (rend p) + 1 < unat (rbegin ?r)" using wf_runs_gap_nth [OF rs(2) i(1)] assms(3) rs(1) i(2) by simp
    then show "rend p < v" using at(1) rs(1) by (simp add: word_less_nat_alt word_le_nat_alt)
  qed
  have not_before: "\<not> v < rbegin ?r" using at(1) rs(1) by simp
  have "is_next (runs_set rs) v (if v < rend ?r then Some (v + 1) else case ?rest of [] \<Rightarrow> None | s # _ \<Rightarrow> Some (rbegin s))"
    using next_in_runs [of ?pre ?r ?rest v, folded split] rs(2) pre at(2) not_before rs(1) by simp
  moreover have "(case ?rest of [] \<Rightarrow> None | s # _ \<Rightarrow> Some (rbegin s)) =
      (if Suc position = length rs then None else Some (rbegin (rs ! Suc position)))"
    using assms(3) rs(1) by (cases "Suc position < length rs") (simp_all add: Cons_nth_drop_Suc [symmetric])
  ultimately show "is_next (values_of h) v (fst (run_next_after h v position))"
    using rs by (cases "v < rend ?r"; cases "Suc position = length rs") (simp_all add: run_next_after_def Let_def)
  show "snd (run_next_after h v position) < length (run_list h) \<and>
      rbegin (run_list h ! snd (run_next_after h v position)) \<le> w \<and>
      w \<le> rend (run_list h ! snd (run_next_after h v position))"
    if "fst (run_next_after h v position) = Some w"
  proof (cases "v < rend ?r")
    case True
    then have "unat (v + 1) = unat v + 1" by (intro unat_low_plus1 low_not_max)
    then show ?thesis using that True assms(3) at rs(1)
      by (auto simp: run_next_after_def Let_def word_le_nat_alt word_less_nat_alt)
  next
    case False
    then show ?thesis using that assms(3) rs wf_runs_ok [OF rs(2) nth_mem, of "position + 1"]
      by (auto simp: run_next_after_def Let_def word_le_nat_alt split: if_splits)
  qed
qed

subsection \<open>The interface\<close>

interpretation run_view: value_set "\<lambda>h. wf_container h \<and> holds_run h" values_of run_contains run_add run_remove
  by unfold_locales (simp_all add: run_contains_correct run_add_correct run_remove_correct)

end
