(* ===== verification/Run_Batch.thy ===== *)
theory Run_Batch
  imports Run_Refs
begin

text \<open>
  The batch insertion into a run container (\<open>run_ref::add_sorted\<close>): one forward merge of the batch's maximal
  consecutive groups into the run list. The number of runs the batch opens is counted first and decides where
  the result is written: into the payload itself, whose suffix is first moved up by that number, or into a new
  block. The buffer is kept whole, so that a write that overtook a read would be seen.
\<close>

function gallop_loop :: "('a \<Rightarrow> bool) \<Rightarrow> 'a list \<Rightarrow> nat \<Rightarrow> nat \<Rightarrow> nat" where
  "gallop_loop p xs first step =
    (if first < length xs \<and> p (xs ! first) then
       let first = first + 1; remaining = length xs - first
       in if remaining \<le> step then first + partition_point p (drop first xs)
          else if \<not> p (xs ! (first + step - 1)) then first + partition_point p (take (step - 1) (drop first xs))
          else gallop_loop p xs (first + step) (step * 2)
     else first)"
  by pat_completeness auto
termination
  by (relation "measure (\<lambda>(p, xs, first, step). length xs - first)") auto

declare gallop_loop.simps [simp del]

definition gallop_partition_point :: "('a \<Rightarrow> bool) \<Rightarrow> 'a list \<Rightarrow> nat" where
  "gallop_partition_point p xs = gallop_loop p xs 0 1"

text \<open>The maximal groups of consecutive values of the batch, as pairs of the first and the last value.\<close>

fun group_tail :: "nat \<Rightarrow> low list \<Rightarrow> nat \<times> low list" where
  "group_tail e [] = (e, [])"
| "group_tail e (v # vs) = (if unat v = e + 1 then group_tail (unat v) vs else (e, v # vs))"

lemma length_group_tail: "length (snd (group_tail e vs)) \<le> length vs"
  by (induction e vs rule: group_tail.induct) (auto simp: le_Suc_eq)

function batch_groups :: "low list \<Rightarrow> (nat \<times> nat) list" where
  "batch_groups [] = []"
| "batch_groups (v # vs) = (unat v, fst (group_tail (unat v) vs)) # batch_groups (snd (group_tail (unat v) vs))"
  by pat_completeness auto
termination
  by (relation "measure length") (simp_all add: length_group_tail le_imp_less_Suc)

primrec count_breaks :: "low \<Rightarrow> low list \<Rightarrow> nat \<Rightarrow> nat" where
  "count_breaks prev [] groups = groups"
| "count_breaks prev (v # vs) groups = count_breaks v vs (groups + of_bool (unat v \<noteq> unat prev + 1))"

definition group_count :: "low list \<Rightarrow> nat" where
  "group_count vs = count_breaks (hd vs) (tl vs) 1"

primrec count_opened :: "run list \<Rightarrow> nat \<Rightarrow> (nat \<times> nat) list \<Rightarrow> nat \<Rightarrow> nat \<Rightarrow> nat" where
  "count_opened rs stop_after [] cursor opened = opened"
| "count_opened rs stop_after (g # gs) cursor opened =
    (if opened \<le> stop_after then
       let cursor = cursor + gallop_partition_point (\<lambda>r. unat (rend r) < fst g) (drop cursor rs)
       in count_opened rs stop_after gs cursor
            (opened + of_bool (\<not> (cursor \<noteq> length rs \<and> unat (rbegin (rs ! cursor)) \<le> fst g \<and> snd g \<le> unat (rend (rs ! cursor)))))
     else opened)"

definition overlap :: "nat \<Rightarrow> nat \<Rightarrow> run \<Rightarrow> nat" where
  "overlap b e current =
    (let low = max b (unat (rbegin current)); high = min e (unat (rend current))
     in if high \<ge> low then high - low + 1 else 0)"

text \<open>The state of the group being merged: how many of its values were present, and the run it grows into.\<close>

definition absorb :: "nat \<Rightarrow> nat \<Rightarrow> run \<Rightarrow> nat \<times> nat \<times> nat \<Rightarrow> nat \<times> nat \<times> nat" where
  "absorb group_begin group_end current s =
    (case s of (already_present, merged_begin, merged_end) \<Rightarrow>
      (already_present + overlap group_begin group_end current,
       min merged_begin (unat (rbegin current)), max merged_end (unat (rend current))))"

fun absorb_loop :: "nat \<Rightarrow> nat \<Rightarrow> run list \<Rightarrow> nat \<Rightarrow> nat \<times> nat \<times> nat \<Rightarrow> nat \<times> nat \<times> nat \<times> nat" where
  "absorb_loop gb ge [] read s = (read, s)"
| "absorb_loop gb ge (r # rs) read s =
    (if unat (rbegin r) \<le> snd (snd s) + 1 then absorb_loop gb ge rs (read + 1) (absorb gb ge r s) else (read, s))"

text \<open>\<open>source\<close> is the payload above the gap, or the old payload when the result goes to a new block.\<close>

definition merge_source :: "bool \<Rightarrow> nat \<Rightarrow> run list \<Rightarrow> run list \<Rightarrow> run list" where
  "merge_source in_place opened rs data = (if in_place then drop opened data else rs)"

text \<open>\<open>memmove( data + to, block )\<close>: the block is read before any of it is written.\<close>

definition write_block :: "'a list \<Rightarrow> nat \<Rightarrow> 'a list \<Rightarrow> 'a list" where
  "write_block data to block = take to data @ block @ drop (to + length block) data"

type_synonym merge_progress = "run list \<times> nat \<times> nat \<times> nat"

definition merge_group :: "(run list \<Rightarrow> run list) \<Rightarrow> nat \<times> nat \<Rightarrow> merge_progress \<Rightarrow> merge_progress" where
  "merge_group source g s =
    (case g of (group_begin, group_end) \<Rightarrow> case s of (data, write, read, added) \<Rightarrow>
      let n = gallop_partition_point (\<lambda>r. unat (rend r) + 1 < group_begin) (drop read (source data));
          data = write_block data write (take n (drop read (source data)));
          write = write + n; read = read + n;
          touches = (write \<noteq> 0 \<and> unat (rend (data ! (write - 1))) + 1 \<ge> group_begin);
          m = (if touches then absorb group_begin group_end (data ! (write - 1)) (0, group_begin, group_end)
               else (0, group_begin, group_end));
          write = (if touches then write - 1 else write)
      in case absorb_loop group_begin group_end (drop read (source data)) read m of
           (read, already_present, merged_begin, merged_end) \<Rightarrow>
             (data[write := mk_run (to_low merged_begin) (to_low merged_end)], write + 1, read,
              added + (group_end - group_begin + 1 - already_present)))"

definition run_add_sorted :: "nat \<Rightarrow> bool \<Rightarrow> low list \<Rightarrow> container \<Rightarrow> nat \<times> container" where
  "run_add_sorted capacity unshared sorted_values h =
    (if sorted_values = [] then (0, h)
     else
       let rs = run_list h; run_count = length rs;
           batch_front = hd sorted_values; batch_back = last sorted_values;
           first_touched = partition_point (\<lambda>r. unat (rend r) + 1 < unat batch_front) rs
       in if first_touched \<noteq> run_count \<and> rbegin (rs ! first_touched) \<le> batch_front \<and>
             batch_back \<le> rend (rs ! first_touched)
          then (0, h)
          else
            let groups = group_count sorted_values;
                stop_after = (if run_count + groups \<le> capacity * 2 then capacity - run_count else 2 ^ 32 - 1);
                opened = count_opened rs stop_after (batch_groups sorted_values) first_touched 0
            in if opened = 0 then (0, h)
               else
                 let suffix_count = run_count - first_touched;
                     fits = run_count + opened \<le> capacity;
                     in_place = (fits \<and> unshared);
                     slots = run_count + (if \<not> fits \<and> opened > stop_after then groups else opened);
                     data = (if in_place
                             then memmove (rs @ replicate opened (mk_run 0 0)) (first_touched + opened) first_touched suffix_count
                             else take first_touched rs @ replicate (slots - first_touched) (mk_run 0 0));
                     source = merge_source in_place opened rs
                 in case fold (merge_group source) (batch_groups sorted_values) (data, first_touched, first_touched, 0) of
                      (data, write, read, added) \<Rightarrow>
                        let data = write_block data write (take (run_count - read) (drop read (source data)));
                            write = write + (run_count - read);
                            h = adjust_cardinality (int added) (set_run_list (take write data) h)
                        in (added, set_endpoints (rbegin (data ! 0)) (rend (data ! (write - 1))) h))"

subsection \<open>The galloping search\<close>

lemma partition_point_skip:
  assumes "k \<le> length xs" "\<forall>i<k. p (xs ! i)"
  shows "partition_point p xs = k + partition_point p (drop k xs)"
proof -
  have "\<And>x. x \<in> set (take k xs) \<Longrightarrow> p x" using assms by (auto simp: in_set_conv_nth)
  then have "takeWhile p (take k xs @ drop k xs) = take k xs @ takeWhile p (drop k xs)"
    by (rule takeWhile_append2)
  with assms(1) show ?thesis by (simp add: partition_point_def)
qed

lemma partition_point_cut:
  assumes "m < length xs" "\<not> p (xs ! m)"
  shows "partition_point p (take m xs) = partition_point p xs"
proof (rule partition_point_unique [symmetric])
  have le: "partition_point p (take m xs) \<le> m" using partition_point_le [of p "take m xs"] assms(1) by simp
  then show "partition_point p (take m xs) \<le> length xs" using assms(1) by simp
  show "\<forall>i<partition_point p (take m xs). p (xs ! i)"
    using partition_point_before [of _ p "take m xs"] le by fastforce
  show "\<not> p (xs ! partition_point p (take m xs))"
    using partition_point_stop [of p "take m xs"] le assms by (cases "partition_point p (take m xs) = m") auto
qed

lemma gallop_loop_correct:
  "\<forall>i j. i \<le> j \<longrightarrow> j < length xs \<longrightarrow> p (xs ! j) \<longrightarrow> p (xs ! i) \<Longrightarrow> first \<le> length xs \<Longrightarrow>
    \<forall>i<first. p (xs ! i) \<Longrightarrow> 0 < step \<Longrightarrow> gallop_loop p xs first step = partition_point p xs"
proof (induction p xs first step rule: gallop_loop.induct)
  case (1 p xs first step)
  show ?case
  proof (cases "first < length xs \<and> p (xs ! first)")
    case False
    then have "partition_point p xs = first" using "1.prems" by (intro partition_point_unique) auto
    then show ?thesis unfolding gallop_loop.simps [of p xs first step] if_not_P [OF False] by simp
  next
    case True
    then have skip: "partition_point p xs = first + 1 + partition_point p (drop (first + 1) xs)"
      using "1.prems"(3) by (intro partition_point_skip) (auto simp: less_Suc_eq)
    have unfold: "gallop_loop p xs first step =
      (if length xs - (first + 1) \<le> step then first + 1 + partition_point p (drop (first + 1) xs)
       else if \<not> p (xs ! (first + 1 + step - 1)) then first + 1 + partition_point p (take (step - 1) (drop (first + 1) xs))
       else gallop_loop p xs (first + 1 + step) (step * 2))"
      unfolding gallop_loop.simps [of p xs first step] if_P [OF True] Let_def by (rule refl)
    consider (last) "length xs - (first + 1) \<le> step"
      | (within) "\<not> length xs - (first + 1) \<le> step" "\<not> p (xs ! (first + 1 + step - 1))"
      | (beyond) "\<not> length xs - (first + 1) \<le> step" "\<not> \<not> p (xs ! (first + 1 + step - 1))" by blast
    then show ?thesis
    proof cases
      case last
      show ?thesis unfolding unfold if_P [OF last] skip by (rule refl)
    next
      case within
      have "partition_point p (take (step - 1) (drop (first + 1) xs)) = partition_point p (drop (first + 1) xs)"
        using within \<open>0 < step\<close> by (intro partition_point_cut) auto
      then show ?thesis unfolding unfold if_not_P [OF within(1)] if_P [OF within(2)] skip by simp
    next
      case beyond
      have "\<forall>i<first + 1 + step. p (xs ! i)"
        using "1.prems"(1) beyond \<open>0 < step\<close> by (auto simp: less_Suc_eq_le)
      then have "gallop_loop p xs (first + 1 + step) (step * 2) = partition_point p xs"
        using beyond \<open>0 < step\<close> by (intro "1.IH" [OF True refl refl beyond "1.prems"(1)]) simp_all
      then show ?thesis unfolding unfold if_not_P [OF beyond(1)] if_not_P [OF beyond(2)] .
    qed
  qed
qed

text \<open>The end of a run's successor is above its own, so every separation test of the merge is monotone.\<close>

lemma gallop_runs:
  assumes "wf_runs rs" "\<And>r s. unat (rend r) \<le> unat (rend s) \<Longrightarrow> p s \<Longrightarrow> p r"
  shows "gallop_partition_point p rs = partition_point p rs"
  unfolding gallop_partition_point_def
proof (rule gallop_loop_correct)
  have "unat (rend (rs ! i)) \<le> unat (rend (rs ! j))" if "i \<le> j" "j < length rs" for i j
  proof (cases "i = j")
    case False
    then have "unat (rend (rs ! i)) + 1 < unat (rbegin (rs ! j))"
      using that by (intro wf_runs_gap_nth [OF assms(1)]) auto
    then show ?thesis using wf_runs_ok [OF assms(1) nth_mem [OF that(2)]] by linarith
  qed simp
  then show "\<forall>i j. i \<le> j \<longrightarrow> j < length rs \<longrightarrow> p (rs ! j) \<longrightarrow> p (rs ! i)" using assms(2) by blast
qed simp_all

subsection \<open>The groups of a batch\<close>

definition groups_ok :: "(nat \<times> nat) list \<Rightarrow> bool" where
  "groups_ok gs \<longleftrightarrow> sorted_wrt (\<lambda>g g'. snd g + 1 < fst g') gs \<and> (\<forall>g\<in>set gs. fst g \<le> snd g \<and> snd g < 65536)"

definition groups_set :: "(nat \<times> nat) list \<Rightarrow> nat set" where
  "groups_set gs = (\<Union>g\<in>set gs. {fst g..snd g})"

lemma groups_simps [simp]:
  "groups_ok []" "groups_set [] = {}" "groups_set (g # gs) = {fst g..snd g} \<union> groups_set gs"
  "groups_ok (g # gs) \<longleftrightarrow> fst g \<le> snd g \<and> snd g < 65536 \<and> (\<forall>g'\<in>set gs. snd g + 1 < fst g') \<and> groups_ok gs"
  by (auto simp: groups_ok_def groups_set_def)

lemma group_tail_correct:
  assumes "strict (v # vs)" "group_tail (unat v) vs = (e, rest)"
  shows "unat v \<le> e \<and> e < 65536 \<and> array_set (v # vs) = {unat v..e} \<union> array_set rest \<and> strict rest \<and>
    (\<forall>x\<in>set rest. e + 1 < unat x)"
  using assms
proof (induction vs arbitrary: v)
  case (Cons w ws)
  have less: "unat v < unat w" using Cons.prems(1) by (simp add: word_less_nat_alt)
  have ws: "strict (w # ws)" using Cons.prems(1) by simp
  then have above: "\<forall>x\<in>set ws. unat w < unat x" by (simp add: word_less_nat_alt)
  show ?case
  proof (cases "unat w = unat v + 1")
    case True
    with Cons.prems(2) have "group_tail (unat w) ws = (e, rest)" by simp
    from Cons.IH [OF ws this] True show ?thesis by auto
  next
    case False
    with Cons.prems(2) have "e = unat v" "rest = w # ws" by auto
    with False less ws above show ?thesis by auto
  qed
qed auto

lemma batch_groups_correct:
  "strict vs \<Longrightarrow> groups_ok (batch_groups vs) \<and> groups_set (batch_groups vs) = array_set vs \<and>
    (\<forall>g\<in>set (batch_groups vs). fst g \<in> array_set vs)"
proof (induction vs rule: batch_groups.induct)
  case (2 v vs)
  obtain e rest where t: "group_tail (unat v) vs = (e, rest)" by (cases "group_tail (unat v) vs")
  note g = group_tail_correct [OF "2.prems" t]
  from 2 t g have IH: "groups_ok (batch_groups rest)" "groups_set (batch_groups rest) = array_set rest"
    "\<forall>g\<in>set (batch_groups rest). fst g \<in> array_set rest" by simp_all
  have "e + 1 < fst g'" if "g' \<in> set (batch_groups rest)" for g'
    using IH(3) that g by (fastforce elim!: array_setE)
  with IH g t show ?case by auto
qed simp

lemma count_breaks: "count_breaks v vs n = n + length (batch_groups (snd (group_tail (unat v) vs)))"
  by (induction vs arbitrary: v n) simp_all

lemma group_count: "vs \<noteq> [] \<Longrightarrow> group_count vs = length (batch_groups vs)"
  by (cases vs) (simp_all add: group_count_def count_breaks)

subsection \<open>One group, on lists\<close>

text \<open>\<open>out\<close> is the output written so far and \<open>rest\<close> the runs not yet read.\<close>

definition join_group :: "nat \<times> nat \<Rightarrow> run list \<times> run list \<times> nat \<Rightarrow> run list \<times> run list \<times> nat" where
  "join_group g s =
    (case g of (gb, ge) \<Rightarrow> case s of (out, rest, added) \<Rightarrow>
      let sep = \<lambda>r. unat (rend r) + 1 < gb;
          out = out @ takeWhile sep rest; rest = dropWhile sep rest;
          touches = (out \<noteq> [] \<and> unat (rend (last out)) + 1 \<ge> gb);
          m = (if touches then absorb gb ge (last out) (0, gb, ge) else (0, gb, ge));
          out = (if touches then butlast out else out)
      in case absorb_loop gb ge rest 0 m of
           (n, already, mb, me) \<Rightarrow> (out @ [mk_run (to_low mb) (to_low me)], drop n rest, added + (ge - gb + 1 - already)))"

lemma overlap_card: "overlap b e r = card ({b..e} \<inter> run_set r)"
  by (auto simp: overlap_def Let_def run_set_def)

text \<open>What has been absorbed: the run that grows is its values and the group's, without a gap.\<close>

definition absorbed :: "nat \<Rightarrow> nat \<Rightarrow> nat set \<Rightarrow> nat \<times> nat \<times> nat \<Rightarrow> bool" where
  "absorbed gb ge A s \<longleftrightarrow> gb \<le> ge \<and> finite A \<and> {fst (snd s)..snd (snd s)} = A \<union> {gb..ge} \<and> fst s = card ({gb..ge} \<inter> A)"

lemma absorbed_bounds: "absorbed gb ge A (al, mb, me) \<Longrightarrow> mb \<le> gb \<and> ge \<le> me"
proof -
  assume a: "absorbed gb ge A (al, mb, me)"
  then have "gb \<in> {mb..me}" "ge \<in> {mb..me}" by (auto simp: absorbed_def)
  then show ?thesis by simp
qed

lemma absorb_run:
  assumes "absorbed gb ge A s" "A \<inter> run_set r = {}" "unat (rbegin r) \<le> unat (rend r)"
    and "unat (rbegin r) \<le> snd (snd s) + 1" "gb \<le> unat (rend r) + 1"
  shows "absorbed gb ge (A \<union> run_set r) (absorb gb ge r s)"
proof -
  obtain al mb me where s: "s = (al, mb, me)" by (cases s)
  note a = assms(1) [unfolded s] and b = absorbed_bounds [OF assms(1) [unfolded s]]
  from a have "gb \<le> ge" by (simp add: absorbed_def)
  have "{min mb (unat (rbegin r))..max me (unat (rend r))} = {mb..me} \<union> run_set r"
    using assms(3-5) b \<open>gb \<le> ge\<close> unfolding s run_set_def by (auto simp: min_def max_def)
  moreover have "{mb..me} = A \<union> {gb..ge}" using a by (simp add: absorbed_def)
  moreover have "card ({gb..ge} \<inter> (A \<union> run_set r)) = card ({gb..ge} \<inter> A) + card ({gb..ge} \<inter> run_set r)"
    using assms(2) by (subst Int_Un_distrib, subst card_Un_disjoint) auto
  ultimately show ?thesis using a by (auto simp: s absorb_def absorbed_def overlap_card run_set_def)
qed

lemma absorb_loop_correct:
  assumes "absorbed gb ge A s" "wf_runs rs" "\<forall>r\<in>set rs. gb \<le> unat (rend r) + 1"
    and "\<forall>a\<in>A. \<forall>r\<in>set rs. a + 1 < unat (rbegin r)" "absorb_loop gb ge rs read s = (read', s')"
  shows "\<exists>n\<le>length rs. read' = read + n \<and> absorbed gb ge (A \<union> runs_set (take n rs)) s' \<and>
    (\<forall>r\<in>set (drop n rs). snd (snd s') + 1 < unat (rbegin r)) \<and>
    (rs \<noteq> [] \<and> unat (rbegin (hd rs)) \<le> snd (snd s) + 1 \<longrightarrow> 0 < n)"
  using assms
proof (induction rs arbitrary: A s read)
  case (Cons r rs)
  have r: "unat (rbegin r) \<le> unat (rend r)" and rs: "wf_runs rs" and gap: "\<forall>q\<in>set rs. unat (rend r) + 1 < unat (rbegin q)"
    using Cons.prems(2) by (auto simp: wf_runs_Cons run_ok_unat run_gap_def)
  show ?case
  proof (cases "unat (rbegin r) \<le> snd (snd s) + 1")
    case False
    with Cons.prems(5) have "read' = read" "s' = s" by simp_all
    moreover have "\<forall>q\<in>set (r # rs). snd (snd s) + 1 < unat (rbegin q)" using False gap r by fastforce
    ultimately show ?thesis using Cons.prems(1) False by (intro exI [of _ 0]) simp
  next
    case True
    have "A \<inter> run_set r = {}" using Cons.prems(4) by fastforce
    then have a: "absorbed gb ge (A \<union> run_set r) (absorb gb ge r s)"
      using Cons.prems(3) by (intro absorb_run [OF Cons.prems(1) _ r True]) simp_all
    have "\<forall>a\<in>A \<union> run_set r. \<forall>q\<in>set rs. a + 1 < unat (rbegin q)"
      using Cons.prems(4) gap by fastforce
    from Cons.IH [OF a rs _ this, of "read + 1"] Cons.prems(3,5) True
    obtain n where "n \<le> length rs" "read' = read + 1 + n" "absorbed gb ge (A \<union> run_set r \<union> runs_set (take n rs)) s'"
      "\<forall>r\<in>set (drop n rs). snd (snd s') + 1 < unat (rbegin r)" by auto
    then show ?thesis by (intro exI [of _ "Suc n"]) (simp add: Un_assoc)
  qed
qed simp

text \<open>Before a group that starts at \<open>gb\<close>: no output run but the last can touch it, and none begins above it.\<close>

definition ready_for :: "nat \<Rightarrow> run list \<Rightarrow> bool" where
  "ready_for gb out \<longleftrightarrow> (\<forall>r\<in>set (butlast out). unat (rend r) + 1 < gb) \<and> (\<forall>r\<in>set out. unat (rbegin r) \<le> gb)"

lemma ready_for_mono: "ready_for gb out \<Longrightarrow> gb \<le> gb' \<Longrightarrow> ready_for gb' out"
  by (fastforce simp: ready_for_def)

lemma ready_after_block:
  assumes "wf_runs (out @ rest)" "ready_for gb out"
  defines "sep \<equiv> \<lambda>r. unat (rend r) + 1 < gb"
  shows "ready_for gb (out @ takeWhile sep rest)"
    and "\<forall>r\<in>set (dropWhile sep rest). gb \<le> unat (rend r) + 1"
proof -
  let ?B = "takeWhile sep rest"
  have wf: "wf_runs out" "wf_runs rest" "\<forall>r\<in>set out. \<forall>q\<in>set rest. run_gap r q"
    using assms(1) by (auto simp: wf_runs_append)
  have B: "sep r" "r \<in> set rest" "unat (rbegin r) \<le> unat (rend r)" if "r \<in> set ?B" for r
    using that wf_runs_ok [OF wf(2)] by (auto dest: set_takeWhileD)
  show "ready_for gb (out @ ?B)"
  proof (cases "?B = []")
    case False
    have "unat (rend r) + 1 < gb" if "r \<in> set out" for r
    proof -
      have "run_gap r (last ?B)" using wf(3) that B(2) False by simp
      then show ?thesis using B(1,3) [of "last ?B"] False by (simp add: run_gap_def sep_def)
    qed
    then show ?thesis
      using assms(2) B False by (fastforce simp: ready_for_def sep_def butlast_append dest: in_set_butlastD)
  qed (use assms(2) in simp)
  show "\<forall>r\<in>set (dropWhile sep rest). gb \<le> unat (rend r) + 1"
  proof (cases "dropWhile sep rest")
    case (Cons q qs)
    have "wf_runs (dropWhile sep rest)" unfolding dropWhile_eq_drop using wf(2) by (rule wf_runs_drop)
    then have "wf_runs (q # qs)" by (simp only: Cons)
    moreover have "\<not> sep q" using Cons by (simp add: dropWhile_eq_Cons_conv)
    ultimately show ?thesis
      unfolding Cons by (fastforce simp: wf_runs_Cons run_gap_def run_ok_unat sep_def dest: wf_runs_mem_ok)
  next
    case Nil
    show ?thesis unfolding Nil by simp
  qed
qed

lemma join_group_correct:
  assumes wf: "wf_runs (out @ rest)" and g: "gb \<le> ge" "ge < 65536" and ready: "ready_for gb out"
    and res: "join_group (gb, ge) (out, rest, added) = (out', rest', added')"
  shows "wf_runs (out' @ rest')" "runs_set (out' @ rest') = runs_set (out @ rest) \<union> {gb..ge}"
    "added' = added + card ({gb..ge} - runs_set (out @ rest))" "ready_for gb out'" "out' \<noteq> []"
    "length out' + length rest' \<le> length out + length rest + of_bool (gb \<notin> runs_set (out @ rest))"
proof -
  define sep where "sep = (\<lambda>r :: run. unat (rend r) + 1 < gb)"
  define Out where "Out = out @ takeWhile sep rest"
  define R where "R = dropWhile sep rest"
  have all: "out @ rest = Out @ R" by (simp add: Out_def R_def)
  note ready' = ready_after_block [OF wf ready, folded sep_def Out_def R_def]
  have wfO: "wf_runs Out" "wf_runs R" "\<forall>r\<in>set Out. \<forall>q\<in>set R. run_gap r q"
    using wf unfolding all by (auto simp: wf_runs_append)
  define touches where "touches = (Out \<noteq> [] \<and> unat (rend (last Out)) + 1 \<ge> gb)"
  define P where "P = (if touches then butlast Out else Out)"
  define A where "A = (if touches then run_set (last Out) else {})"
  define m where "m = (if touches then absorb gb ge (last Out) (0, gb, ge) else (0, gb, ge))"
  have start: "absorbed gb ge {} (0, gb, ge)" using g by (simp add: absorbed_def)
  have split: "touches \<Longrightarrow> P @ [last Out] = Out" "\<not> touches \<Longrightarrow> P = Out"
    by (auto simp: P_def touches_def)
  have setO: "runs_set Out = runs_set P \<union> A"
  proof (cases touches)
    case True
    have "runs_set (P @ [last Out]) = runs_set P \<union> A" using True by (simp add: A_def)
    then show ?thesis unfolding split(1) [OF True] .
  qed (simp add: split A_def)
  have last_ok: "last Out \<in> set Out" if touches using that by (simp add: touches_def)
  have m: "absorbed gb ge A m"
  proof (cases touches)
    case True
    have "unat (rbegin (last Out)) \<le> ge + 1" using last_ok [OF True] ready'(1) g by (auto simp: ready_for_def)
    then have "absorbed gb ge ({} \<union> run_set (last Out)) (absorb gb ge (last Out) (0, gb, ge))"
      using True wf_runs_ok [OF wfO(1) last_ok [OF True]] by (intro absorb_run [OF start]) (simp_all add: touches_def)
    then show ?thesis using True by (simp add: A_def m_def)
  qed (simp add: A_def m_def start)
  have AR: "\<forall>a\<in>A. \<forall>q\<in>set R. a + 1 < unat (rbegin q)"
  proof (intro ballI)
    fix a q assume a: "a \<in> A" and q: "q \<in> set R"
    from a have t: touches and "a \<le> unat (rend (last Out))" by (auto simp: A_def split: if_splits)
    moreover have "run_gap (last Out) q" using wfO(3) last_ok [OF t] q by blast
    ultimately show "a + 1 < unat (rbegin q)" by (simp add: run_gap_def)
  qed
  obtain n al mb me where loop: "absorb_loop gb ge R 0 m = (n, al, mb, me)" by (metis prod_cases4)
  from absorb_loop_correct [OF m wfO(2) ready'(2) AR loop]
  have n: "n \<le> length R" and C: "absorbed gb ge (A \<union> runs_set (take n R)) (al, mb, me)"
    and after: "\<forall>r\<in>set (drop n R). me + 1 < unat (rbegin r)"
    and pos: "R \<noteq> [] \<Longrightarrow> unat (rbegin (hd R)) \<le> snd (snd m) + 1 \<Longrightarrow> 0 < n" by auto
  have res': "out' = P @ [mk_run (to_low mb) (to_low me)]" "rest' = drop n R" "added' = added + (ge - gb + 1 - al)"
    using res loop unfolding join_group_def prod.case Let_def sep_def [symmetric] Out_def [symmetric] R_def [symmetric]
      touches_def [symmetric] P_def [symmetric] m_def [symmetric] by simp_all
  define D where "D = A \<union> runs_set (take n R)"
  have interval: "{mb..me} = D \<union> {gb..ge}" and al: "al = card ({gb..ge} \<inter> D)"
    using C by (simp_all add: absorbed_def D_def)
  have b: "mb \<le> gb" "ge \<le> me" using absorbed_bounds [OF C] by auto
  have "me \<in> D \<union> {gb..ge}" "mb \<in> D \<union> {gb..ge}" using b g unfolding interval [symmetric] by simp_all
  moreover have "x < 65536" if "x \<in> D" for x using that by (auto simp: D_def A_def split: if_splits dest: runs_set_bound unat_low_upper)
  ultimately have low: "unat (to_low mb) = mb" "unat (to_low me) = me" and mb: "mb \<in> D \<union> {gb..ge}"
    using g b by (auto intro!: unat_to_low)
  have wfP: "wf_runs P" "touches \<Longrightarrow> \<forall>p\<in>set P. run_gap p (last Out)"
  proof -
    have "wf_runs P \<and> (touches \<longrightarrow> (\<forall>p\<in>set P. run_gap p (last Out)))"
    proof (cases touches)
      case True
      have "wf_runs (P @ [last Out])" unfolding split(1) [OF True] by (rule wfO(1))
      then show ?thesis by (simp add: wf_runs_append)
    qed (use wfO(1) split in simp)
    then show "wf_runs P" "touches \<Longrightarrow> \<forall>p\<in>set P. run_gap p (last Out)" by blast+
  qed
  have setP: "set P \<subseteq> set Out" unfolding P_def by (auto dest: in_set_butlastD)
  have Pgb: "unat (rend p) + 1 < gb" if "p \<in> set P" for p
  proof (cases touches)
    case True
    then show ?thesis using that ready'(1) by (simp add: P_def ready_for_def)
  next
    case False
    then have p: "p \<in> set Out" using that by (simp add: P_def)
    then have "Out \<noteq> []" by auto
    have "p \<in> set (butlast Out @ [last Out])" using p unfolding append_butlast_last_id [OF \<open>Out \<noteq> []\<close>] .
    then have "p \<in> set (butlast Out) \<or> p = last Out" unfolding set_append by auto
    then show ?thesis using ready'(1) False \<open>Out \<noteq> []\<close> by (auto simp: ready_for_def touches_def)
  qed
  have Pmb: "unat (rend p) + 1 < mb" if "p \<in> set P" for p
  proof -
    consider "gb \<le> mb" | "mb \<in> A" | "mb \<in> runs_set (take n R)" using mb by (auto simp: D_def)
    then show ?thesis
    proof cases
      case 1
      then show ?thesis using Pgb [OF that] by simp
    next
      case 2
      then show ?thesis using wfP(2) that by (auto simp: A_def run_gap_def split: if_splits)
    next
      case 3
      then obtain q where "q \<in> set R" "unat (rbegin q) \<le> mb" by (auto elim!: runs_setE dest: in_set_takeD)
      then show ?thesis using wfO(3) setP that by (fastforce simp: run_gap_def)
    qed
  qed
  have "\<forall>p\<in>set P. \<forall>q\<in>set (drop n R). run_gap p q" using wfO(3) setP by (blast dest: in_set_dropD)
  then have "wf_runs (P @ [mk_run (to_low mb) (to_low me)] @ drop n R)"
    unfolding wf_runs_append
    using wfP(1) wfO(2) Pmb after b g low by (auto simp: wf_runs_Cons run_gap_def run_ok_unat)
  then show "wf_runs (out' @ rest')" by (simp add: res')
  have "runs_set R = runs_set (take n R) \<union> runs_set (drop n R)" by (metis append_take_drop_id runs_set_append)
  moreover have "run_set (mk_run (to_low mb) (to_low me)) = D \<union> {gb..ge}" by (simp add: run_set_def low interval)
  ultimately show "runs_set (out' @ rest') = runs_set (out @ rest) \<union> {gb..ge}"
    unfolding all by (auto simp: res' setO D_def)
  have "{gb..ge} \<inter> runs_set P = {}" using Pgb by (fastforce elim!: runs_setE)
  moreover have "{gb..ge} \<inter> runs_set (drop n R) = {}" using after b by (fastforce elim!: runs_setE)
  ultimately have "{gb..ge} \<inter> D = {gb..ge} \<inter> runs_set (out @ rest)"
    unfolding all using \<open>runs_set R = _\<close> by (auto simp: setO D_def)
  moreover have "ge - gb + 1 - card ({gb..ge} \<inter> runs_set (out @ rest)) = card ({gb..ge} - runs_set (out @ rest))"
    using card_Diff_subset_Int [of "{gb..ge}" "runs_set (out @ rest)"] g by simp
  ultimately show "added' = added + card ({gb..ge} - runs_set (out @ rest))" by (simp add: res' al)
  show "ready_for gb out'" using Pgb setP ready'(1) b low by (auto simp: res' ready_for_def)
  show "out' \<noteq> []" by (simp add: res')
  have len: "length out + length rest = length Out + length R" by (metis all length_append)
  show "length out' + length rest' \<le> length out + length rest + of_bool (gb \<notin> runs_set (out @ rest))"
  proof (cases "touches \<or> gb \<notin> runs_set (out @ rest)")
    case True
    moreover have "length P + of_bool touches = length Out"
    proof (cases touches)
      case True
      then have "length P + 1 = length Out" using split(1) [OF True] by (metis length_append_singleton Suc_eq_plus1)
      with True show ?thesis by simp
    qed (simp add: split(2))
    ultimately show ?thesis unfolding len using n by (cases touches) (auto simp: res')
  next
    case False
    then have "P = Out" and mem: "gb \<in> runs_set (Out @ R)" using split(2) by (auto simp: all)
    have "gb \<notin> runs_set Out"
    proof
      assume "gb \<in> runs_set Out"
      then obtain p where "p \<in> set P" "gb \<le> unat (rend p)" using \<open>P = Out\<close> by (auto elim!: runs_setE)
      with Pgb [of p] show False by simp
    qed
    with mem have "gb \<in> runs_set R" by simp
    then obtain q where q: "q \<in> set R" "unat (rbegin q) \<le> gb" by (rule runs_setE)
    then have "R \<noteq> []" by auto
    then have "unat (rbegin (hd R)) \<le> unat (rbegin q)"
      using q(1) wfO(2) by (cases R) (auto simp: wf_runs_Cons run_gap_def run_ok_unat)
    then have "0 < n" using pos \<open>R \<noteq> []\<close> q(2) False g by (simp add: m_def)
    then show ?thesis unfolding len using n False by (simp add: res' split(2))
  qed
qed

subsection \<open>The buffer holds what the lists hold\<close>

lemma absorb_loop_from:
  "absorb_loop gb ge rs read s = (read + fst (absorb_loop gb ge rs 0 s), snd (absorb_loop gb ge rs 0 s))"
proof (induction rs arbitrary: read s)
  case (Cons r rs)
  show ?case using Cons.IH [of "read + 1"] Cons.IH [of 1] by simp
qed simp

lemma absorb_loop_le: "fst (absorb_loop gb ge rs read s) \<le> read + length rs"
proof (induction rs arbitrary: read s)
  case (Cons r rs)
  show ?case using Cons.IH [of "read + 1"] by simp
qed simp

lemma length_write_block [simp]: "to + length b \<le> length data \<Longrightarrow> length (write_block data to b) = length data"
  by (simp add: write_block_def)

lemma take_write_block: "to + length b \<le> length data \<Longrightarrow> take (to + length b) (write_block data to b) = take to data @ b"
  by (simp add: write_block_def)

lemma drop_write_block: "to + length b \<le> length data \<Longrightarrow> to + length b \<le> k \<Longrightarrow> drop k (write_block data to b) = drop k data"
  by (simp add: write_block_def)

text \<open>A source of \<open>count\<close> runs behind a gap of \<open>gap\<close> slots: a buffer that agrees above the gap and the runs read
  so far gives the same runs to read.\<close>

definition source_behind :: "nat \<Rightarrow> nat \<Rightarrow> (run list \<Rightarrow> run list) \<Rightarrow> bool" where
  "source_behind gap_n count source \<longleftrightarrow>
     (\<forall>data. length data = gap_n + count \<longrightarrow> length (source data) = count) \<and>
     (\<forall>data data' read. length data = gap_n + count \<longrightarrow> length data' = gap_n + count \<longrightarrow>
        drop (gap_n + read) data' = drop (gap_n + read) data \<longrightarrow> drop read (source data') = drop read (source data))"

fun buffer_holds :: "nat \<Rightarrow> nat \<Rightarrow> (run list \<Rightarrow> run list) \<Rightarrow> merge_progress \<Rightarrow> run list \<times> run list \<times> nat \<Rightarrow> bool" where
  "buffer_holds gap_n count source (data, write, read, added) (out, rest, added') \<longleftrightarrow>
     added = added' \<and> length data = gap_n + count \<and> write \<le> gap_n + read \<and> take write data = out \<and> read \<le> count \<and>
     drop read (source data) = rest"

lemma buffer_lengths:
  assumes "source_behind gap_n count source" "buffer_holds gap_n count source (data, write, read, added) (out, rest, added')"
  shows "length out = write" "length rest = count - read"
proof -
  from assms(2) have h: "length data = gap_n + count" "write \<le> gap_n + read" "take write data = out" "read \<le> count"
    "drop read (source data) = rest" by simp_all
  have "length (source data) = count" using assms(1) h(1) unfolding source_behind_def by blast
  then show "length rest = count - read" unfolding h(5) [symmetric] by simp
  show "length out = write" unfolding h(3) [symmetric] using h(1,2,4) by simp
qed

lemma merge_group_buffer:
  assumes src: "source_behind gap_n count source"
    and holds: "buffer_holds gap_n count source s l" and wf: "wf_runs (fst (snd l))"
    and room: "length (fst (join_group g l)) + length (fst (snd (join_group g l))) \<le> gap_n + count"
  shows "buffer_holds gap_n count source (merge_group source g s) (join_group g l)"
proof -
  obtain gb ge data wr rd added out rest where
    s: "g = (gb, ge)" "s = (data, wr, rd, added)" "l = (out, rest, added)"
    using holds by (cases g; cases s; cases l) auto
  have h: "length data = gap_n + count" "wr \<le> gap_n + rd" "take wr data = out" "rd \<le> count" "drop rd (source data) = rest"
    using holds by (simp_all add: s)
  have lens: "length out = wr" "length rest = count - rd" using buffer_lengths [OF src holds [unfolded s]] by simp_all
  have again: "drop r (source data') = drop r (source data'')"
    if "length data' = gap_n + count" "length data'' = gap_n + count" "drop (gap_n + r) data' = drop (gap_n + r) data''"
    for data' data'' r
    using src that unfolding source_behind_def by blast
  define sep where "sep = (\<lambda>r :: run. unat (rend r) + 1 < gb)"
  define n where "n = partition_point sep rest"
  have gallop: "gallop_partition_point sep (drop rd (source data)) = n"
    unfolding n_def h(5) using wf s(3) by (intro gallop_runs) (simp_all add: sep_def)
  have n: "n \<le> count - rd" "take n rest = takeWhile sep rest" "drop n rest = dropWhile sep rest"
    unfolding n_def lens(2) [symmetric] by (simp_all add: take_partition_point drop_partition_point)
  define data1 where "data1 = write_block data wr (take n (drop rd (source data)))"
  have block: "length (take n (drop rd (source data))) = n" using n(1) lens unfolding h(5) by simp
  have fits: "wr + n \<le> gap_n + (rd + n)" "gap_n + (rd + n) \<le> gap_n + count" using h(2,4) n(1) by linarith+
  then have fits': "wr + length (take n (drop rd (source data))) \<le> length data" unfolding block h(1) by linarith
  have data1: "length data1 = gap_n + count" "take (wr + n) data1 = out @ takeWhile sep rest"
    "drop (gap_n + (rd + n)) data1 = drop (gap_n + (rd + n)) data"
    using fits h take_write_block [OF fits'] drop_write_block [OF fits', of "gap_n + (rd + n)"] fits'
    unfolding block by (simp_all add: data1_def n(2) [symmetric])
  have rest1: "drop (rd + n) (source data1) = dropWhile sep rest"
  proof -
    have "drop (rd + n) (source data) = drop n (drop rd (source data))" by (simp add: add.commute)
    also have "\<dots> = dropWhile sep rest" unfolding h(5) by (rule n(3))
    finally show ?thesis unfolding again [OF data1(1) h(1) data1(3)] .
  qed
  define Out where "Out = out @ takeWhile sep rest"
  have Out: "take (wr + n) data1 = Out" "length Out = wr + n"
  proof -
    show "take (wr + n) data1 = Out" unfolding Out_def by (rule data1(2))
    then have "length Out = min (gap_n + count) (wr + n)" by (metis data1(1) length_take)
    then show "length Out = wr + n" using fits by linarith
  qed
  have last: "data1 ! (wr + n - 1) = last Out" if "wr + n \<noteq> 0"
  proof -
    have "last Out = Out ! (wr + n - 1)" using that Out(2) by (subst last_conv_nth) auto
    then show ?thesis using that unfolding Out(1) [symmetric] by simp
  qed
  define touches where "touches = (Out \<noteq> [] \<and> unat (rend (last Out)) + 1 \<ge> gb)"
  have touches': "(wr + n \<noteq> 0 \<and> unat (rend (data1 ! (wr + n - 1))) + 1 \<ge> gb) = touches"
    using last Out(2) by (cases "wr + n = 0") (auto simp: touches_def)
  define m where "m = (if touches then absorb gb ge (last Out) (0, gb, ge) else (0, gb, ge))"
  have m': "(if touches then absorb gb ge (data1 ! (wr + n - 1)) (0, gb, ge) else (0, gb, ge)) = m"
  proof (cases touches)
    case True
    then have "wr + n \<noteq> 0" using Out(2) by (auto simp: touches_def)
    from last [OF this] show ?thesis by (simp only: m_def True if_True)
  qed (simp add: m_def)
  define w where "w = (if touches then wr + n - 1 else wr + n)"
  obtain k al mb me where loop: "absorb_loop gb ge (dropWhile sep rest) 0 m = (k, al, mb, me)" by (metis prod_cases4)
  have loop': "absorb_loop gb ge (dropWhile sep rest) (rd + n) m = (rd + n + k, al, mb, me)"
    by (subst absorb_loop_from) (simp add: loop)
  have res: "merge_group source g s =
      (data1[w := mk_run (to_low mb) (to_low me)], w + 1, rd + n + k, added + (ge - gb + 1 - al))"
    unfolding s merge_group_def prod.case Let_def sep_def [symmetric]
    by (simp only: gallop data1_def [symmetric] touches' m' w_def [symmetric] rest1 loop' prod.case)
  define P where "P = (if touches then butlast Out else Out)"
  have P: "take w data1 = P" "w \<le> wr + n"
  proof -
    show "w \<le> wr + n" by (simp add: w_def)
    have "take w data1 = take w Out" unfolding Out(1) [symmetric] using \<open>w \<le> wr + n\<close> by (simp add: min_def)
    also have "\<dots> = P" using Out(2) by (auto simp: w_def P_def butlast_conv_take)
    finally show "take w data1 = P" .
  qed
  have join: "join_group g l = (P @ [mk_run (to_low mb) (to_low me)], drop k (dropWhile sep rest), added + (ge - gb + 1 - al))"
    unfolding s join_group_def prod.case Let_def sep_def [symmetric] Out_def [symmetric]
    by (simp only: touches_def [symmetric] m_def [symmetric] P_def [symmetric] loop prod.case)
  have "length P = w" using P Out(2) data1(1) fits by (metis length_take min.absorb2 order.trans)
  moreover have k: "k \<le> length (dropWhile sep rest)"
    using absorb_loop_le [of gb ge "dropWhile sep rest" 0 m] by (simp add: loop)
  ultimately have room': "w + 1 + (length (dropWhile sep rest) - k) \<le> gap_n + count" using room unfolding join by simp
  have "length (dropWhile sep rest) = count - rd - n" using n lens by (metis length_drop)
  with room' k fits n(1) have w: "w < gap_n + (rd + n + k)" "rd + n + k \<le> count" by linarith+
  have "drop (gap_n + (rd + n + k)) (data1[w := mk_run (to_low mb) (to_low me)]) = drop (gap_n + (rd + n + k)) data1"
    using w(1) by (rule drop_update_before)
  then have "drop (rd + n + k) (source (data1[w := mk_run (to_low mb) (to_low me)])) = drop (rd + n + k) (source data1)"
    by (intro again) (simp_all add: data1(1))
  also have "\<dots> = drop k (dropWhile sep rest)" unfolding rest1 [symmetric] by (simp add: add.commute)
  finally have rest2: "drop (rd + n + k) (source (data1[w := mk_run (to_low mb) (to_low me)])) = drop k (dropWhile sep rest)" .
  have "w < length data1" using w data1(1) by linarith
  from take_Suc_update [OF this] have "take (w + 1) (data1[w := mk_run (to_low mb) (to_low me)]) = P @ [mk_run (to_low mb) (to_low me)]"
    unfolding P(1) by simp
  with rest2 w show ?thesis unfolding res join by (simp add: data1(1))
qed

subsection \<open>All groups\<close>

text \<open>A group whose first value is already held opens no run, so the room the batch needs is the number of the
  others.\<close>

lemma merge_groups_buffer:
  assumes src: "source_behind gap_n count source"
  shows "buffer_holds gap_n count source s (out, rest, added) \<Longrightarrow> wf_runs (out @ rest) \<Longrightarrow> groups_ok gs \<Longrightarrow>
    (gs \<noteq> [] \<Longrightarrow> ready_for (fst (hd gs)) out) \<Longrightarrow> S \<subseteq> runs_set (out @ rest) \<Longrightarrow>
    length out + length rest + length (filter (\<lambda>g. fst g \<notin> S) gs) \<le> gap_n + count \<Longrightarrow>
    \<exists>out' rest' added'. buffer_holds gap_n count source (fold (merge_group source) gs s) (out', rest', added') \<and>
      wf_runs (out' @ rest') \<and> runs_set (out' @ rest') = runs_set (out @ rest) \<union> groups_set gs \<and>
      added' = added + card (groups_set gs - runs_set (out @ rest)) \<and> (gs \<noteq> [] \<longrightarrow> out' \<noteq> [])"
proof (induction gs arbitrary: s out rest added)
  case (Cons g gs)
  obtain gb ge where g: "g = (gb, ge)" by (cases g)
  obtain out' rest' added' where j: "join_group (gb, ge) (out, rest, added) = (out', rest', added')"
    by (metis prod_cases3)
  from Cons.prems(3) have ok: "gb \<le> ge" "ge < 65536" "groups_ok gs" and later: "\<forall>g'\<in>set gs. ge + 1 < fst g'"
    by (simp_all add: g)
  have ready: "ready_for gb out" using Cons.prems(4) by (simp add: g)
  note r = join_group_correct [OF Cons.prems(2) ok(1,2) ready j]
  have "of_bool (gb \<notin> runs_set (out @ rest)) + length (filter (\<lambda>g. fst g \<notin> S) gs) \<le> length (filter (\<lambda>g. fst g \<notin> S) (g # gs))"
    using Cons.prems(5) by (auto simp: g)
  then have len: "length out' + length rest' + length (filter (\<lambda>g. fst g \<notin> S) gs) \<le> gap_n + count"
    using r(6) Cons.prems(6) by linarith
  have holds: "buffer_holds gap_n count source (merge_group source g s) (out', rest', added')"
    using merge_group_buffer [OF src Cons.prems(1), of "(gb, ge)"] Cons.prems(2) len
    unfolding j g by (simp add: wf_runs_append)
  have ready': "ready_for (fst (hd gs)) out'" if "gs \<noteq> []"
  proof (rule ready_for_mono [OF r(4)])
    have "ge + 1 < fst (hd gs)" using later that by simp
    then show "gb \<le> fst (hd gs)" using ok(1) by simp
  qed
  from Cons.IH [OF holds r(1) ok(3) ready' _ len] Cons.prems(5) r(2)
  obtain out'' rest'' added'' where IH:
    "buffer_holds gap_n count source (fold (merge_group source) gs (merge_group source g s)) (out'', rest'', added'')"
    "wf_runs (out'' @ rest'')" "runs_set (out'' @ rest'') = runs_set (out' @ rest') \<union> groups_set gs"
    "added'' = added' + card (groups_set gs - runs_set (out' @ rest'))" "gs \<noteq> [] \<longrightarrow> out'' \<noteq> []" by blast
  have "card (groups_set (g # gs) - runs_set (out @ rest)) =
      card ({gb..ge} - runs_set (out @ rest)) + card (groups_set gs - runs_set (out' @ rest'))"
  proof -
    have "groups_set (g # gs) - runs_set (out @ rest) =
        ({gb..ge} - runs_set (out @ rest)) \<union> (groups_set gs - runs_set (out' @ rest'))"
      unfolding r(2) by (auto simp: g)
    moreover have "finite (groups_set gs)" by (simp add: groups_set_def)
    ultimately show ?thesis unfolding r(2) by (simp, subst card_Un_disjoint) auto
  qed
  with IH r(2,3) have "added'' = added + card (groups_set (g # gs) - runs_set (out @ rest))"
    "runs_set (out'' @ rest'') = runs_set (out @ rest) \<union> groups_set (g # gs)" by (auto simp: g)
  moreover have "out'' \<noteq> []"
  proof (cases "gs = []")
    case True
    then show ?thesis using IH(1) holds r(5) by (cases "merge_group source g s") auto
  qed (use IH(5) in simp)
  ultimately show ?case using IH(1,2) by (intro exI [of _ out''] exI [of _ rest''] exI [of _ added'']) simp
qed auto

subsection \<open>The count of opened runs\<close>

definition inside_run :: "run list \<Rightarrow> nat \<times> nat \<Rightarrow> bool" where
  "inside_run rs g \<longleftrightarrow> (\<exists>r\<in>set rs. unat (rbegin r) \<le> fst g \<and> snd g \<le> unat (rend r))"

lemma first_reaching_run:
  assumes "wf_runs rs" "gb \<le> ge"
  defines "c \<equiv> partition_point (\<lambda>r. unat (rend r) < gb) rs"
  shows "c \<noteq> length rs \<and> unat (rbegin (rs ! c)) \<le> gb \<and> ge \<le> unat (rend (rs ! c)) \<longleftrightarrow> inside_run rs (gb, ge)"
proof
  show "c \<noteq> length rs \<and> unat (rbegin (rs ! c)) \<le> gb \<and> ge \<le> unat (rend (rs ! c)) \<Longrightarrow> inside_run rs (gb, ge)"
    using partition_point_le [of _ rs] unfolding inside_run_def c_def
    by (metis fst_conv snd_conv le_neq_implies_less nth_mem)
  assume "inside_run rs (gb, ge)"
  then obtain j where j: "j < length rs" "unat (rbegin (rs ! j)) \<le> gb" "ge \<le> unat (rend (rs ! j))"
    by (auto simp: inside_run_def in_set_conv_nth)
  have "\<not> j < c"
    using partition_point_before [of j "\<lambda>r. unat (rend r) < gb" rs] j(3) assms(2) by (auto simp: c_def)
  moreover have "\<not> c < j"
  proof
    assume less: "c < j"
    then have "unat (rend (rs ! c)) + 1 < unat (rbegin (rs ! j))" using assms(1) j(1) by (intro wf_runs_gap_nth)
    moreover have "\<not> unat (rend (rs ! c)) < gb"
      using partition_point_stop [of "\<lambda>r. unat (rend r) < gb" rs] less j(1) by (simp add: c_def)
    ultimately show False using j(2) by simp
  qed
  ultimately have "c = j" by simp
  with j show "c \<noteq> length rs \<and> unat (rbegin (rs ! c)) \<le> gb \<and> ge \<le> unat (rend (rs ! c))" by simp
qed

lemma count_opened_exact:
  assumes wf: "wf_runs rs"
  shows "groups_ok gs \<Longrightarrow> cursor \<le> length rs \<Longrightarrow> (gs \<noteq> [] \<longrightarrow> (\<forall>i<cursor. unat (rend (rs ! i)) < fst (hd gs))) \<Longrightarrow>
    count_opened rs stop gs cursor opened \<le> stop \<Longrightarrow>
    count_opened rs stop gs cursor opened = opened + length (filter (\<lambda>g. \<not> inside_run rs g) gs)"
proof (induction gs arbitrary: cursor opened)
  case (Cons g gs)
  obtain gb ge where g: "g = (gb, ge)" by (cases g)
  let ?p = "\<lambda>r. unat (rend r) < gb"
  have le: "opened \<le> stop" using Cons.prems(4) by (auto split: if_splits)
  have "gallop_partition_point ?p (drop cursor rs) = partition_point ?p (drop cursor rs)"
    using wf by (intro gallop_runs) auto
  moreover have skip: "partition_point ?p rs = cursor + partition_point ?p (drop cursor rs)"
    using Cons.prems(2,3) by (intro partition_point_skip) (simp_all add: g)
  moreover define c where "c = partition_point ?p rs"
  ultimately have c: "cursor + gallop_partition_point ?p (drop cursor rs) = c" by simp
  have next_g: "gs \<noteq> [] \<longrightarrow> (\<forall>i<c. unat (rend (rs ! i)) < fst (hd gs))"
  proof (intro impI allI)
    fix i assume "gs \<noteq> []" "i < c"
    then have "unat (rend (rs ! i)) < gb" "ge + 1 < fst (hd gs)" "gb \<le> ge"
      using partition_point_before [of i ?p rs] Cons.prems(1) by (simp_all add: c_def g)
    then show "unat (rend (rs ! i)) < fst (hd gs)" by simp
  qed
  have test: "(c \<noteq> length rs \<and> unat (rbegin (rs ! c)) \<le> gb \<and> ge \<le> unat (rend (rs ! c))) = inside_run rs g"
    unfolding c_def g using Cons.prems(1) by (intro first_reaching_run [OF wf]) (simp add: g)
  have step: "count_opened rs stop (g # gs) cursor opened = count_opened rs stop gs c (opened + of_bool (\<not> inside_run rs g))"
    unfolding count_opened.simps Let_def if_P [OF le] test [symmetric] by (simp only: g fst_conv snd_conv c)
  have "count_opened rs stop gs c (opened + of_bool (\<not> inside_run rs g)) =
      opened + of_bool (\<not> inside_run rs g) + length (filter (\<lambda>g. \<not> inside_run rs g) gs)"
    using Cons.prems(1,4) next_g unfolding step by (intro Cons.IH) (simp_all add: c_def)
  then show ?case unfolding step by simp
qed simp

lemma count_opened_le: "count_opened rs stop gs cursor opened \<le> opened + length gs"
proof (induction gs arbitrary: cursor opened)
  case (Cons g gs)
  have "count_opened rs stop gs c (opened + of_bool b) \<le> opened + Suc (length gs)" for c b
    using Cons.IH [of c "opened + of_bool b"] by (cases b) simp_all
  then show ?case by (simp add: Let_def)
qed simp

lemma inside_run_mem: "inside_run rs g \<Longrightarrow> fst g \<le> snd g \<Longrightarrow> {fst g..snd g} \<subseteq> runs_set rs"
  by (fastforce simp: inside_run_def intro: runs_setI)

lemma length_batch_groups: "length (batch_groups vs) \<le> length vs"
proof (induction vs rule: batch_groups.induct)
  case (2 v vs)
  then show ?case using length_group_tail [of "unat v" vs] by simp
qed simp

lemma length_strict_low: "strict (vs :: low list) \<Longrightarrow> length vs \<le> 65536"
proof -
  assume "strict vs"
  then have "length vs = card (array_set vs)" by (simp add: card_array_set)
  also have "\<dots> \<le> card {..<65536::nat}" by (rule card_mono) (auto dest: array_set_bound)
  finally show ?thesis by simp
qed

text \<open>The two ways to lay the buffer out.\<close>

lemma source_behind_in_place: "source_behind opened (length rs) (merge_source True opened rs)"
  unfolding source_behind_def merge_source_def by (auto simp: add.commute)

lemma source_behind_copy: "source_behind n (length rs) (merge_source False opened rs)"
  unfolding source_behind_def merge_source_def by simp

lemma buffer_in_place:
  assumes "k \<le> length rs"
  shows "buffer_holds opened (length rs) (merge_source True opened rs)
    (memmove (rs @ replicate opened b) (k + opened) k (length rs - k), k, k, 0) (take k rs, drop k rs, 0)"
proof -
  have "memmove (rs @ replicate opened b) (k + opened) k (length rs - k) =
      take (k + opened) (rs @ replicate opened b) @ drop k rs"
    using assms by (subst memmove_inside) auto
  then show ?thesis using assms by (simp add: merge_source_def add.commute)
qed

lemma buffer_copy:
  assumes "k \<le> length rs"
  shows "buffer_holds n (length rs) (merge_source False opened rs)
    (take k rs @ replicate (n + length rs - k) b, k, k, 0) (take k rs, drop k rs, 0)"
  using assms by (simp add: merge_source_def)

text \<open>The runs after the last group follow what was written.\<close>

lemma buffer_finish:
  assumes "source_behind gap_n count source" "buffer_holds gap_n count source (data, write, read, added) (out, rest, added')"
  shows "take (write + (count - read)) (write_block data write (take (count - read) (drop read (source data)))) = out @ rest"
proof -
  note l = buffer_lengths [OF assms]
  from assms(2) have h: "length data = gap_n + count" "write \<le> gap_n + read" "take write data = out" "read \<le> count"
    "drop read (source data) = rest" by simp_all
  have "take (count - read) rest = rest" using l by simp
  then show ?thesis unfolding h(5) using take_write_block [of "write" rest data] l h(1-4) by simp
qed

lemma run_add_sorted_merge:
  assumes wf: "wf_runs rs" and batch: "strict batch" "batch \<noteq> []"
    and src: "source_behind gap_n (length rs) source"
    and k: "k = partition_point (\<lambda>r. unat (rend r) + 1 < unat (hd batch)) rs"
    and holds: "buffer_holds gap_n (length rs) source (data, k, k, 0) (take k rs, drop k rs, 0)"
    and room: "length (filter (\<lambda>g. \<not> inside_run rs g) (batch_groups batch)) \<le> gap_n"
    and res: "fold (merge_group source) (batch_groups batch) (data, k, k, 0) = (data', write, read, added)"
  defines "final \<equiv> write_block data' write (take (length rs - read) (drop read (source data')))"
  shows "wf_runs (take (write + (length rs - read)) final)"
    "runs_set (take (write + (length rs - read)) final) = runs_set rs \<union> array_set batch"
    "added = card (array_set batch - runs_set rs)" "take (write + (length rs - read)) final \<noteq> []"
    "final ! 0 = hd (take (write + (length rs - read)) final)"
    "final ! (write + (length rs - read) - 1) = last (take (write + (length rs - read)) final)"
proof -
  note g = batch_groups_correct [OF batch(1)]
  obtain v vs where b: "batch = v # vs" using batch(2) by (cases batch) auto
  have ready: "ready_for (fst (hd (batch_groups batch))) (take k rs)"
  proof -
    have "unat (rend r) + 1 < unat v" if "r \<in> set (take k rs)" for r
      using that unfolding k take_partition_point by (auto simp: b dest: set_takeWhileD)
    then show ?thesis using wf_runs_ok [OF wf] unfolding ready_for_def b
      by (fastforce dest: in_set_butlastD in_set_takeD)
  qed
  have "length (filter (\<lambda>g. fst g \<notin> runs_set rs) gs) \<le> length (filter (\<lambda>g. \<not> inside_run rs g) gs)"
    if "\<forall>g\<in>set gs. fst g \<le> snd g" for gs
    using that by (induction gs) (auto dest!: inside_run_mem)
  moreover have "\<forall>g\<in>set (batch_groups batch). fst g \<le> snd g" using g by (simp add: groups_ok_def)
  ultimately have "length (filter (\<lambda>g. fst g \<notin> runs_set rs) (batch_groups batch)) \<le> gap_n"
    using room by (meson order.trans)
  then have len: "length (take k rs) + length (drop k rs) + length (filter (\<lambda>g. fst g \<notin> runs_set rs) (batch_groups batch))
      \<le> gap_n + length rs" by simp
  from merge_groups_buffer [OF src holds _ _ ready _ len] wf g res
  obtain out rest where out: "buffer_holds gap_n (length rs) source (data', write, read, added) (out, rest, added)"
    "wf_runs (out @ rest)" "runs_set (out @ rest) = runs_set rs \<union> array_set batch"
    "added = card (array_set batch - runs_set rs)" "out \<noteq> []"
    by (auto simp: b)
  have final: "take (write + (length rs - read)) final = out @ rest"
    unfolding final_def by (rule buffer_finish [OF src out(1)])
  show "wf_runs (take (write + (length rs - read)) final)"
    "runs_set (take (write + (length rs - read)) final) = runs_set rs \<union> array_set batch"
    "added = card (array_set batch - runs_set rs)" "take (write + (length rs - read)) final \<noteq> []"
    unfolding final using out by simp_all
  note l = buffer_lengths [OF src out(1)]
  have n: "write + (length rs - read) = length (out @ rest)" using l by simp
  have "final ! i = (out @ rest) ! i" if "i < write + (length rs - read)" for i
  proof -
    have "take (write + (length rs - read)) final ! i = final ! i" using that by (rule nth_take)
    then show ?thesis by (simp only: final)
  qed
  moreover have pos: "0 < write + (length rs - read)" using n out(5) by simp
  ultimately have nth: "final ! 0 = (out @ rest) ! 0"
    "final ! (write + (length rs - read) - 1) = (out @ rest) ! (length (out @ rest) - 1)"
    by (simp_all add: n)
  have "hd (out @ rest) = (out @ rest) ! 0" "last (out @ rest) = (out @ rest) ! (length (out @ rest) - 1)"
    using out(5) by (simp_all add: hd_conv_nth last_conv_nth)
  then show "final ! 0 = hd (take (write + (length rs - read)) final)"
    "final ! (write + (length rs - read) - 1) = last (take (write + (length rs - read)) final)"
    unfolding final by (simp_all only: nth)
qed

text \<open>Storing the merged list: the header's count moves by the values added and its endpoints are those of the
  list.\<close>

lemma wf_after_merge:
  assumes "wf_container h" "holds_run h" "wf_runs rs'" "rs' \<noteq> []" "runs_set rs' = values_of h \<union> B" "n = card (B - values_of h)"
  defines "g \<equiv> set_endpoints (rbegin (hd rs')) (rend (last rs')) (adjust_cardinality (int n) (set_run_list rs' h))"
  shows "wf_container g" "holds_run g" "values_of g = values_of h \<union> B"
proof -
  obtain rs where h: "values_of h = runs_set rs" "\<not> cardinality_stale h" "cardinality h = card (runs_set rs)"
    using assms(1,2) by (rule wf_runE)
  have p: "payload g = Run_payload rs'" by (simp add: g_def)
  then show "holds_run g" "values_of g = values_of h \<union> B" using assms(5) by (simp_all add: holds_payload)
  have "finite (runs_set rs')" by simp
  then have finB: "finite B" unfolding assms(5) by simp
  have "card (runs_set rs') = card (runs_set rs) + n"
    unfolding assms(5,6) h(1) using finB by (subst Un_Diff_cancel [symmetric], subst card_Un_disjoint) auto
  moreover have "card (runs_set rs') \<le> card {..<65536::nat}" by (rule card_mono) (auto dest: runs_set_bound)
  ultimately have "cardinality g = card (runs_set rs')"
    using h(3) by (simp add: g_def adjust_cardinality_def set_endpoints_def nat_add_distrib)
  moreover have "cardinality_stale g = cardinality_stale h" "\<not> endpoints_stale g"
    "min_end g = rbegin (hd rs')" "max_end g = rend (last rs')"
    by (simp_all add: g_def set_endpoints_def adjust_cardinality_def)
  ultimately show "wf_container g" unfolding wf_container_run [OF p] using assms(3) h(2) by simp
qed

theorem run_add_sorted_correct:
  assumes "wf_container h" "holds_run h" "strict batch" "length (run_list h) \<le> capacity"
  shows "wf_container (snd (run_add_sorted capacity unshared batch h))"
    "holds_run (snd (run_add_sorted capacity unshared batch h))"
    "values_of (snd (run_add_sorted capacity unshared batch h)) = values_of h \<union> array_set batch"
    "fst (run_add_sorted capacity unshared batch h) = card (array_set batch - values_of h)"
proof -
  obtain rs where rs: "run_list h = rs" "wf_runs rs" "values_of h = runs_set rs" using assms(1,2) by (rule wf_runE)
  let ?r = "run_add_sorted capacity unshared batch h"
  have "wf_container (snd ?r) \<and> holds_run (snd ?r) \<and> values_of (snd ?r) = values_of h \<union> array_set batch \<and>
    fst ?r = card (array_set batch - values_of h)"
  proof -
    have unchanged: ?thesis if "?r = (0, h)" "array_set batch \<subseteq> runs_set rs"
      using that assms(1,2) rs(3) by (auto simp: Un_absorb2 Diff_eq_empty_iff [THEN iffD2])
    define k where "k = partition_point (\<lambda>r. unat (rend r) + 1 < unat (hd batch)) rs"
    define covered where "covered = (k \<noteq> length rs \<and> rbegin (rs ! k) \<le> hd batch \<and> last batch \<le> rend (rs ! k))"
    define groups where "groups = group_count batch"
    define stop where "stop = (if length rs + groups \<le> capacity * 2 then capacity - length rs else 2 ^ 32 - 1)"
    define opened where "opened = count_opened rs stop (batch_groups batch) k 0"
    define fits where "fits = (length rs + opened \<le> capacity)"
    define in_place where "in_place = (fits \<and> unshared)"
    define gap_n where "gap_n = (if \<not> fits \<and> opened > stop then groups else opened)"
    define data where "data = (if in_place
      then memmove (rs @ replicate opened (mk_run 0 0)) (k + opened) k (length rs - k)
      else take k rs @ replicate (length rs + gap_n - k) (mk_run 0 0))"
    define source where "source = merge_source in_place opened rs"
    have kle: "k \<le> length rs" by (simp add: k_def)
    have before: "\<forall>i<k. unat (rend (rs ! i)) < fst (hd (batch_groups batch))" if ne: "batch \<noteq> []"
    proof (intro allI impI)
      fix i assume "i < k"
      then have "unat (rend (rs ! i)) + 1 < unat (hd batch)" unfolding k_def by (rule partition_point_before)
      then show "unat (rend (rs ! i)) < fst (hd (batch_groups batch))" using ne by (cases batch) simp_all
    qed
    have exact: "opened = length (filter (\<lambda>g. \<not> inside_run rs g) (batch_groups batch))"
      if "batch \<noteq> []" "opened \<le> stop"
      using batch_groups_correct [OF assms(3)] kle before [OF that(1)] that(2)
        count_opened_exact [OF rs(2), of "batch_groups batch" k stop 0] unfolding opened_def by simp
    consider (empty) "batch = []" | (covered) "batch \<noteq> []" covered | (none) "batch \<noteq> []" "\<not> covered" "opened = 0"
      | (merge) "batch \<noteq> []" "\<not> covered" "opened \<noteq> 0" by blast
    then show ?thesis
    proof cases
      case empty
      show ?thesis by (rule unchanged) (simp_all add: run_add_sorted_def empty)
    next
      case covered
      have "array_set batch \<subseteq> runs_set rs"
      proof
        fix x assume "x \<in> array_set batch"
        then obtain v where v: "x = unat v" "v \<in> set batch" by (rule array_setE)
        have k: "k < length rs" "rbegin (rs ! k) \<le> v" "v \<le> rend (rs ! k)"
          using covered(2) kle strict_hd_le [OF assms(3) v(2)] strict_le_last [OF assms(3) v(2)] by (auto simp: covered_def)
        then show "x \<in> runs_set rs" unfolding v(1) by (intro runs_setI [OF nth_mem]) (simp_all add: word_le_nat_alt)
      qed
      moreover have "?r = (0, h)"
        unfolding run_add_sorted_def if_not_P [OF covered(1)] Let_def rs(1) k_def [symmetric]
        using covered(2) by (simp add: covered_def)
      ultimately show ?thesis by (rule unchanged [rotated])
    next
      case none
      note g = batch_groups_correct [OF assms(3)]
      have "\<forall>g\<in>set (batch_groups batch). inside_run rs g" using exact none(1,3) by (simp add: filter_empty_conv)
      then have "groups_set (batch_groups batch) \<subseteq> runs_set rs"
        using g inside_run_mem [of rs] unfolding groups_set_def groups_ok_def by blast
      then have "array_set batch \<subseteq> runs_set rs" using g by simp
      moreover have "?r = (0, h)"
        unfolding run_add_sorted_def if_not_P [OF none(1)] Let_def rs(1) k_def [symmetric] groups_def [symmetric]
          stop_def [symmetric] opened_def [symmetric] using none(3) by simp
      ultimately show ?thesis by (rule unchanged [rotated])
    next
      case merge
      have few: "opened \<le> length (batch_groups batch)" unfolding opened_def using count_opened_le [of rs stop _ k 0] by simp
      have "length (batch_groups batch) \<le> 65536"
        using length_batch_groups [of batch] length_strict_low [OF assms(3)] by simp
      then have fits_stop: "opened \<le> stop" if fits using that few by (auto simp: fits_def stop_def)
      have room: "length (filter (\<lambda>g. \<not> inside_run rs g) (batch_groups batch)) \<le> gap_n"
      proof (cases "\<not> fits \<and> opened > stop")
        case True
        then show ?thesis using group_count [OF merge(1)] by (simp add: gap_n_def groups_def)
      next
        case False
        then have "opened \<le> stop" using fits_stop by auto
        then show ?thesis using exact [OF merge(1)] False by (simp add: gap_n_def)
      qed
      have src: "source_behind gap_n (length rs) source"
        and holds: "buffer_holds gap_n (length rs) source (data, k, k, 0) (take k rs, drop k rs, 0)"
      proof -
        have "source_behind gap_n (length rs) source \<and>
          buffer_holds gap_n (length rs) source (data, k, k, 0) (take k rs, drop k rs, 0)"
        proof (cases in_place)
          case True
          then have "gap_n = opened" by (simp add: in_place_def gap_n_def)
          then show ?thesis unfolding source_def data_def if_P [OF True] using True
            by (simp only: simp_thms source_behind_in_place buffer_in_place [OF kle])
        next
          case False
          then show ?thesis unfolding source_def data_def if_not_P [OF False] using False buffer_copy [OF kle, of gap_n]
            by (simp only: simp_thms source_behind_copy add.commute)
        qed
        then show "source_behind gap_n (length rs) source"
          "buffer_holds gap_n (length rs) source (data, k, k, 0) (take k rs, drop k rs, 0)" by blast+
      qed
      obtain data' wr rd added where f: "fold (merge_group source) (batch_groups batch) (data, k, k, 0) = (data', wr, rd, added)"
        by (metis prod_cases4)
      note m = run_add_sorted_merge [OF rs(2) assms(3) merge(1) src k_def holds room f]
      define final where "final = write_block data' wr (take (length rs - rd) (drop rd (source data')))"
      have slots: "length rs + (if \<not> fits \<and> opened > stop then groups else opened) - k = length rs + gap_n - k"
        by (simp add: gap_n_def)
      have "?r = (added, set_endpoints (rbegin (final ! 0)) (rend (final ! (wr + (length rs - rd) - 1)))
          (adjust_cardinality (int added) (set_run_list (take (wr + (length rs - rd)) final) h)))"
        unfolding run_add_sorted_def if_not_P [OF merge(1)] Let_def rs(1) k_def [symmetric] covered_def [symmetric]
          if_not_P [OF merge(2)] groups_def [symmetric] stop_def [symmetric] opened_def [symmetric]
          if_not_P [OF merge(3)] fits_def [symmetric] in_place_def [symmetric] slots data_def [symmetric]
          source_def [symmetric] f prod.case final_def [symmetric] by (rule refl)
      also have "\<dots> = (added, set_endpoints (rbegin (hd (take (wr + (length rs - rd)) final)))
          (rend (last (take (wr + (length rs - rd)) final)))
          (adjust_cardinality (int added) (set_run_list (take (wr + (length rs - rd)) final) h)))"
        using m(5,6) unfolding final_def by simp
      finally have r: "?r = \<dots>" .
      show ?thesis
        using wf_after_merge [OF assms(1,2) m(1,4), folded final_def, of "array_set batch" added] m(2,3)
        unfolding r rs(3) final_def by simp
    qed
  qed
  then show "wf_container (snd ?r)" "holds_run (snd ?r)" "values_of (snd ?r) = values_of h \<union> array_set batch"
    "fst ?r = card (array_set batch - values_of h)" by blast+
qed

end
