(* ===== verification/Containers.thy ===== *)
theory Containers
  imports Array_Refs Bitset_Refs Run_Batch
begin

text \<open>
  The operations of a container of any form (\<open>containers.hpp\<close>, first part): each switches on the kind and calls
  the view of that kind. The payload's capacity, and whether it is shared, are the allocator's: they decide how
  a result is stored and are arguments here.
\<close>

definition container_size :: "container \<Rightarrow> nat" where
  "container_size h = cardinality h"

definition array_container_contains :: "container \<Rightarrow> low \<Rightarrow> bool" where
  "array_container_contains h v = array_contains h v"

definition container_contains :: "container \<Rightarrow> low \<Rightarrow> bool" where
  "container_contains h v =
    (case kind h of
       Array_kind \<Rightarrow> array_container_contains h v
     | Run_kind \<Rightarrow> run_contains h v
     | Bitset_kind \<Rightarrow> bitset_contains h v)"

definition container_add :: "nat \<Rightarrow> low \<Rightarrow> container \<Rightarrow> bool \<times> container" where
  "container_add capacity v h =
    (case kind h of
       Array_kind \<Rightarrow> array_add capacity v h
     | Run_kind \<Rightarrow> run_add v h
     | Bitset_kind \<Rightarrow> bitset_add v h)"

definition container_add_sorted :: "nat \<Rightarrow> bool \<Rightarrow> low list \<Rightarrow> container \<Rightarrow> nat \<times> container" where
  "container_add_sorted capacity unshared sorted_values h =
    (case kind h of
       Array_kind \<Rightarrow> array_add_sorted sorted_values h
     | Run_kind \<Rightarrow> run_add_sorted capacity unshared sorted_values h
     | Bitset_kind \<Rightarrow> bitset_add_sorted sorted_values h)"

definition container_remove :: "low \<Rightarrow> container \<Rightarrow> bool \<times> container" where
  "container_remove v h =
    (case kind h of
       Array_kind \<Rightarrow> array_remove v h
     | Run_kind \<Rightarrow> run_remove v h
     | Bitset_kind \<Rightarrow> bitset_remove v h)"

definition container_first :: "container \<Rightarrow> low" where
  "container_first h =
    (case kind h of
       Array_kind \<Rightarrow> hd (array_values h)
     | Run_kind \<Rightarrow> run_first h
     | Bitset_kind \<Rightarrow> bitset_first h)"

definition container_last :: "container \<Rightarrow> low" where
  "container_last h =
    (case kind h of
       Array_kind \<Rightarrow> last (array_values h)
     | Run_kind \<Rightarrow> run_last h
     | Bitset_kind \<Rightarrow> bitset_last h)"

text \<open>The cursor \<open>position\<close> is an index of the array or of the run list; a bitset does not use it.\<close>

definition container_next_after :: "container \<Rightarrow> low \<Rightarrow> nat \<Rightarrow> low option \<times> nat" where
  "container_next_after h v position =
    (case kind h of
       Array_kind \<Rightarrow> array_next_after h v position
     | Run_kind \<Rightarrow> run_next_after h v position
     | Bitset_kind \<Rightarrow> (bitset_next_after h v, position))"

text \<open>\<open>container_for_each\<close> calls its argument on these values in turn.\<close>

definition container_values :: "container \<Rightarrow> low list" where
  "container_values h =
    (case kind h of
       Array_kind \<Rightarrow> array_values h
     | Run_kind \<Rightarrow> runs_values (run_list h)
     | Bitset_kind \<Rightarrow> bitset_values h)"

definition container_byte_size :: "container \<Rightarrow> nat" where
  "container_byte_size h =
    (case kind h of
       Array_kind \<Rightarrow> length (array_values h) * 2
     | Run_kind \<Rightarrow> length (run_list h) * 4
     | Bitset_kind \<Rightarrow> word_count * 8)"

subsection \<open>Correctness\<close>

text \<open>A container is of exactly one form, and every operation is proved form by form.\<close>

lemma kind_holds:
  "kind h = Array_kind \<longleftrightarrow> holds_array h" "kind h = Run_kind \<longleftrightarrow> holds_run h" "kind h = Bitset_kind \<longleftrightarrow> holds_bitset h"
  by (simp_all add: holds_array_def holds_run_def holds_bitset_def)

lemmas kind_of = kind_holds [THEN iffD2]

lemma form_cases [case_names array run bitset]:
  "(holds_array h \<Longrightarrow> kind h = Array_kind \<Longrightarrow> P) \<Longrightarrow> (holds_run h \<Longrightarrow> kind h = Run_kind \<Longrightarrow> P) \<Longrightarrow>
    (holds_bitset h \<Longrightarrow> kind h = Bitset_kind \<Longrightarrow> P) \<Longrightarrow> P"
  by (cases "kind h") (simp_all add: kind_holds)

lemma container_contains_correct: "wf_container h \<Longrightarrow> container_contains h v \<longleftrightarrow> unat v \<in> values_of h"
  by (cases h rule: form_cases)
    (simp_all add: container_contains_def array_container_contains_def array_contains_correct run_contains_correct
      bitset_contains_correct)

lemma container_add_correct:
  assumes "wf_container h"
  shows "wf_container (snd (container_add capacity v h))"
    "values_of (snd (container_add capacity v h)) = insert (unat v) (values_of h)"
    "fst (container_add capacity v h) \<longleftrightarrow> unat v \<notin> values_of h"
    "kind (snd (container_add capacity v h)) = kind h"
proof -
  have "wf_container (snd (container_add capacity v h)) \<and>
    values_of (snd (container_add capacity v h)) = insert (unat v) (values_of h) \<and>
    (fst (container_add capacity v h) \<longleftrightarrow> unat v \<notin> values_of h) \<and> kind (snd (container_add capacity v h)) = kind h"
    using assms by (cases h rule: form_cases)
      (simp_all add: container_add_def array_add_correct run_add_correct bitset_add_correct kind_of)
  then show "wf_container (snd (container_add capacity v h))"
    "values_of (snd (container_add capacity v h)) = insert (unat v) (values_of h)"
    "fst (container_add capacity v h) \<longleftrightarrow> unat v \<notin> values_of h"
    "kind (snd (container_add capacity v h)) = kind h" by blast+
qed

lemma container_remove_correct:
  assumes "wf_container h"
  shows "wf_container (snd (container_remove v h))" "values_of (snd (container_remove v h)) = values_of h - {unat v}"
    "fst (container_remove v h) \<longleftrightarrow> unat v \<in> values_of h" "kind (snd (container_remove v h)) = kind h"
proof -
  have "wf_container (snd (container_remove v h)) \<and>
    values_of (snd (container_remove v h)) = values_of h - {unat v} \<and>
    (fst (container_remove v h) \<longleftrightarrow> unat v \<in> values_of h) \<and> kind (snd (container_remove v h)) = kind h"
    using assms by (cases h rule: form_cases)
      (simp_all add: container_remove_def array_remove_correct run_remove_correct bitset_remove_correct kind_of)
  then show "wf_container (snd (container_remove v h))" "values_of (snd (container_remove v h)) = values_of h - {unat v}"
    "fst (container_remove v h) \<longleftrightarrow> unat v \<in> values_of h" "kind (snd (container_remove v h)) = kind h" by blast+
qed

text \<open>What the batch insertion needs of its container: room for the runs it holds, and no bitset that lost its last
  value in a lazy fold.\<close>

definition batch_ready :: "nat \<Rightarrow> container \<Rightarrow> bool" where
  "batch_ready capacity h \<longleftrightarrow> wf_container h \<and> (holds_run h \<longrightarrow> length (run_list h) \<le> capacity) \<and>
     (cardinality_stale h \<longrightarrow> endpoints_stale h \<or> values_of h \<noteq> {})"

lemma container_add_sorted_correct:
  assumes "batch_ready capacity h" "strict vs"
  shows "wf_container (snd (container_add_sorted capacity unshared vs h))"
    "values_of (snd (container_add_sorted capacity unshared vs h)) = values_of h \<union> array_set vs"
    "fst (container_add_sorted capacity unshared vs h) = card (array_set vs - values_of h)"
    "kind (snd (container_add_sorted capacity unshared vs h)) = kind h"
proof -
  have "wf_container (snd (container_add_sorted capacity unshared vs h)) \<and>
    values_of (snd (container_add_sorted capacity unshared vs h)) = values_of h \<union> array_set vs \<and>
    fst (container_add_sorted capacity unshared vs h) = card (array_set vs - values_of h) \<and>
    kind (snd (container_add_sorted capacity unshared vs h)) = kind h"
    using assms by (cases h rule: form_cases)
      (simp_all add: batch_ready_def container_add_sorted_def array_add_sorted_correct run_add_sorted_correct
        bitset_add_sorted_correct kind_of)
  then show "wf_container (snd (container_add_sorted capacity unshared vs h))"
    "values_of (snd (container_add_sorted capacity unshared vs h)) = values_of h \<union> array_set vs"
    "fst (container_add_sorted capacity unshared vs h) = card (array_set vs - values_of h)"
    "kind (snd (container_add_sorted capacity unshared vs h)) = kind h" by blast+
qed

lemma container_first_last_correct:
  assumes "wf_container h" "values_of h \<noteq> {}"
  shows "unat (container_first h) = Min (values_of h)" "unat (container_last h) = Max (values_of h)"
proof -
  have "unat (container_first h) = Min (values_of h) \<and> unat (container_last h) = Max (values_of h)"
  proof (cases h rule: form_cases)
    case array
    then obtain vs where "strict vs" "array_values h = vs" "values_of h = array_set vs"
      using assms(1) by (auto elim: wf_arrayE)
    with array assms(2) show ?thesis by (simp add: container_first_def container_last_def array_set_Min_Max)
  qed (use assms in \<open>simp_all add: container_first_def container_last_def run_first_last_correct bitset_first_last_correct\<close>)
  then show "unat (container_first h) = Min (values_of h)" "unat (container_last h) = Max (values_of h)" by blast+
qed

lemma container_values_correct [wf_results]:
  assumes "wf_container h"
  shows "strict (container_values h)" "array_set (container_values h) = values_of h"
proof -
  have "strict (container_values h) \<and> array_set (container_values h) = values_of h"
  proof (cases h rule: form_cases)
    case array
    then show ?thesis using assms by (auto simp: container_values_def elim: wf_arrayE)
  next
    case run
    obtain rs where "wf_runs rs" "run_list h = rs" "values_of h = runs_set rs" using assms run(1) by (rule wf_runE)
    then show ?thesis using run by (simp add: container_values_def strict_runs_values)
  next
    case bitset
    then show ?thesis using assms by (simp add: container_values_def bitset_values_correct)
  qed
  then show "strict (container_values h)" "array_set (container_values h) = values_of h" by blast+
qed

lemma length_container_values: "wf_container h \<Longrightarrow> length (container_values h) = card (values_of h)"
  using container_values_correct card_array_set by metis

lemma exact_cardinality: "wf_container h \<Longrightarrow> \<not> cardinality_stale h \<Longrightarrow> cardinality h = card (values_of h)"
  by (simp add: wf_container_def cardinality_ok_def)

subsection \<open>The walk\<close>

text \<open>The cursor of a walk names the place that holds the value.\<close>

definition cursor_at :: "container \<Rightarrow> low \<Rightarrow> nat \<Rightarrow> bool" where
  "cursor_at h v position =
    (case kind h of
       Array_kind \<Rightarrow> position < length (array_values h) \<and> array_values h ! position = v
     | Run_kind \<Rightarrow> position < length (run_list h) \<and> rbegin (run_list h ! position) \<le> v \<and> v \<le> rend (run_list h ! position)
     | Bitset_kind \<Rightarrow> True)"

lemma array_next_after_correct:
  assumes "wf_container h" "holds_array h" "position < length (array_values h)" "array_values h ! position = v"
  shows "is_next (values_of h) v (fst (array_next_after h v position))"
proof -
  obtain vs where vs: "strict vs" "array_values h = vs" "values_of h = array_set vs" using assms(1,2) by (rule wf_arrayE)
  have up: "u \<le> v \<or> position + 1 < length vs \<and> vs ! (position + 1) \<le> u" if u: "u \<in> set vs" for u
  proof -
    obtain i where i: "i < length vs" "u = vs ! i" using u by (auto simp: in_set_conv_nth)
    show ?thesis
    proof (cases "i \<le> position")
      case True
      then show ?thesis using strict_nth_mono [OF vs(1) True] assms(3,4) i vs(2) by auto
    next
      case False
      then show ?thesis using strict_nth_mono [OF vs(1), of "position + 1" i] i by auto
    qed
  qed
  show ?thesis
  proof (cases "position + 1 = length vs")
    case True
    then show ?thesis
      using up by (auto simp: array_next_after_def Let_def vs is_next_def word_le_nat_alt elim!: array_setE)
  next
    case False
    then have less: "position + 1 < length vs" using assms(3) vs(2) by simp
    have "v < vs ! (position + 1)" using strict_nth_less [OF vs(1), of position "position + 1"] less assms(4) vs(2) by simp
    then show ?thesis
      using False less up by (fastforce simp: array_next_after_def Let_def vs is_next_def word_le_nat_alt word_less_nat_alt
          elim!: array_setE)
  qed
qed

lemma container_next_after_correct:
  assumes "wf_container h" "cursor_at h v position"
  shows "is_next (values_of h) v (fst (container_next_after h v position))"
    and "fst (container_next_after h v position) = Some w \<Longrightarrow> cursor_at h w (snd (container_next_after h v position))"
proof -
  have "is_next (values_of h) v (fst (container_next_after h v position)) \<and>
    (\<forall>w. fst (container_next_after h v position) = Some w \<longrightarrow> cursor_at h w (snd (container_next_after h v position)))"
  proof (cases h rule: form_cases)
    case array
    then show ?thesis
      using assms array_next_after_correct [OF assms(1) array(1), of position v]
      by (auto simp: container_next_after_def cursor_at_def array_next_after_def Let_def)
  next
    case run
    with assms(2) have at: "position < length (run_list h)" "rbegin (run_list h ! position) \<le> v"
      "v \<le> rend (run_list h ! position)" by (simp_all add: cursor_at_def)
    show ?thesis
      using run_next_after_correct [OF assms(1) run(1) at] run(2) by (simp add: container_next_after_def cursor_at_def)
  next
    case bitset
    then show ?thesis using assms by (simp add: container_next_after_def cursor_at_def bitset_next_after_correct)
  qed
  then show "is_next (values_of h) v (fst (container_next_after h v position))"
    and "fst (container_next_after h v position) = Some w \<Longrightarrow> cursor_at h w (snd (container_next_after h v position))"
    by blast+
qed

subsection \<open>The interface\<close>

text \<open>A container of any form is a set of values; its form does not change under one-value operations.\<close>

interpretation any_form: value_set wf_container values_of container_contains "container_add capacity" container_remove
  for capacity
  by unfold_locales (simp_all add: container_contains_correct container_add_correct container_remove_correct)

end
