(* ===== verification/Container_Forms.thy ===== *)
theory Container_Forms
  imports Containers
begin

text \<open>
  Building a container and choosing its form (\<open>containers.hpp\<close>, middle part): from sorted values, from the words
  of a bitset and from runs. A form is chosen by serialized size from the number of values and the number of
  runs, and the run count is capped where it can no longer decide. \<open>eager\<close> is the run selection policy.
\<close>

subsection \<open>Payloads of a size given in advance\<close>

text \<open>\<open>resize_uninitialized( n )\<close> and a fill from the front: a slot that is not written holds whatever it held.\<close>

definition fill_payload :: "nat \<Rightarrow> 'a \<Rightarrow> 'a list \<Rightarrow> 'a list" where
  "fill_payload n blank vs = take n vs @ replicate (n - length vs) blank"

lemma fill_payload_exact [simp]: "n = length vs \<Longrightarrow> fill_payload n blank vs = vs"
  by (simp add: fill_payload_def)

definition run_fill :: "run \<Rightarrow> low list" where
  "run_fill r = map (\<lambda>i. to_low (unat (rbegin r) + i)) [0..<unat (rend r) - unat (rbegin r) + 1]"

definition array_handle_from_container :: "container \<Rightarrow> container" where
  "array_handle_from_container h =
    (let out = (if holds_run h then concat (map run_fill (run_list h)) else container_values h)
     in array_sync_header (set_array_values (fill_payload (container_size h) 0 out) make_array))"

definition sorted_values_from_container :: "container \<Rightarrow> low list" where
  "sorted_values_from_container h = container_values h"

subsection \<open>Counting the runs of sorted values\<close>

text \<open>The count stops at a byte limit: \<open>None\<close> when the runs would take that many bytes.\<close>

fun push_runs_capped :: "low list \<Rightarrow> nat \<Rightarrow> low \<Rightarrow> low \<Rightarrow> run_container \<Rightarrow> run_container option" where
  "push_runs_capped vs byte_limit current_begin current_end result =
    (let pushed = \<lparr>runs = runs result @ [mk_run current_begin current_end],
                   rc_cardinality = rc_cardinality result + (unat current_end - unat current_begin + 1)\<rparr>
     in case vs of
          [] \<Rightarrow> if length (runs pushed) * 4 \<ge> byte_limit then None else Some pushed
        | v # vs \<Rightarrow>
            if v = current_end \<or> (current_end \<noteq> - 1 \<and> v = current_end + 1)
            then push_runs_capped vs byte_limit current_begin v result
            else if length (runs pushed) * 4 \<ge> byte_limit then None
            else push_runs_capped vs byte_limit v v pushed)"

declare push_runs_capped.simps [simp del]

definition try_make_run_from_sorted_values_capped :: "low list \<Rightarrow> nat \<Rightarrow> run_container option" where
  "try_make_run_from_sorted_values_capped vs byte_limit =
    (case vs of [] \<Rightarrow> Some \<lparr>runs = [], rc_cardinality = 0\<rparr>
     | v # vs \<Rightarrow> push_runs_capped vs byte_limit v v \<lparr>runs = [], rc_cardinality = 0\<rparr>)"

function count_run_blocks :: "low list \<Rightarrow> nat \<Rightarrow> nat \<Rightarrow> nat \<Rightarrow> nat" where
  "count_run_blocks vs cap index run_count =
    (if index < length vs \<and> run_count < cap then
       let block = min (cap - run_count) 256;
           block_end = min (index + block) (length vs)
       in count_run_blocks vs cap block_end
            (fold (\<lambda>i n. n + of_bool (vs ! i \<noteq> vs ! (i - 1) + 1)) [index..<block_end] run_count)
     else run_count)"
  by pat_completeness auto
termination
  by (relation "measure (\<lambda>(vs, cap, index, run_count). length vs - index)") auto

declare count_run_blocks.simps [simp del]

definition run_count_from_sorted_values :: "low list \<Rightarrow> nat \<Rightarrow> nat" where
  "run_count_from_sorted_values vs cap = (if vs = [] then 0 else min (count_run_blocks vs cap 1 1) cap)"

subsection \<open>Builders\<close>

text \<open>\<open>reuse\<close> is a retired container whose payload may be taken over; an empty array handle stands for none.\<close>

definition zeroed_bitset :: "container \<Rightarrow> container" where
  "zeroed_bitset reuse =
    (if holds_bitset reuse then set_bitset_words (replicate word_count 0) reuse else make_bitset_zeroed)"

definition bitset_handle_from_sorted_values :: "low list \<Rightarrow> container \<Rightarrow> container" where
  "bitset_handle_from_sorted_values vs reuse =
    (let result = zeroed_bitset reuse;
         result = set_bitset_words (fold words_set vs (bitset_words result)) result;
         result = set_cardinality (length vs) result
     in if vs \<noteq> [] then set_endpoints (hd vs) (last vs) result else result)"

definition bitset_handle_from_array_union :: "low list \<Rightarrow> low list \<Rightarrow> container \<Rightarrow> container" where
  "bitset_handle_from_array_union lhs rhs reuse =
    (let result = zeroed_bitset reuse; words = fold words_set lhs (bitset_words result)
     in case fold (\<lambda>v (n, words). (n + of_bool (\<not> words_test words v), words_set v words)) rhs (length lhs, words) of
          (n, words) \<Rightarrow>
            set_endpoints (min (hd lhs) (hd rhs)) (max (last lhs) (last rhs))
              (set_cardinality n (set_bitset_words words result)))"

definition handle_from_run_container :: "run_container \<Rightarrow> container" where
  "handle_from_run_container c =
    (let result = set_cardinality (rc_cardinality c) (set_run_list (runs c) make_run)
     in if runs c \<noteq> [] then set_endpoints (rbegin (hd (runs c))) (rend (last (runs c))) result else result)"

definition container_is_known_full :: "container \<Rightarrow> bool" where
  "container_is_known_full h =
    (if cardinality h \<noteq> low_domain_size then False
     else if holds_run h then
       length (run_list h) = 1 \<and> rbegin (hd (run_list h)) = 0 \<and> rend (hd (run_list h)) = - 1
     else holds_bitset h \<or> holds_array h)"

definition run_handle_from_sorted_values :: "low list \<Rightarrow> container" where
  "run_handle_from_sorted_values vs = run_from_sorted_values vs make_run"

definition bitset_bytes :: nat where
  "bitset_bytes = word_count * 8"

definition choose_container_kind :: "bool \<Rightarrow> nat \<Rightarrow> nat \<Rightarrow> (nat \<Rightarrow> nat) \<Rightarrow> container_kind" where
  "choose_container_kind eager n bitset_threshold count_runs =
    (let can_consider_run = (eager \<and> n \<ge> 64);
         array_bytes = n * 2;
         run_count_cap = max array_bytes bitset_bytes div 4 + 1;
         run_bytes = (if can_consider_run then count_runs run_count_cap * 4 else 2 ^ 64 - 1)
     in if n \<ge> bitset_threshold \<and> bitset_bytes \<le> run_bytes then Bitset_kind
        else if can_consider_run \<and> run_bytes < array_bytes then Run_kind
        else Array_kind)"

definition choose_sorted_container_kind :: "bool \<Rightarrow> low list \<Rightarrow> nat \<Rightarrow> container_kind" where
  "choose_sorted_container_kind eager vs bitset_threshold =
     choose_container_kind eager (length vs) bitset_threshold (run_count_from_sorted_values vs)"

definition make_container_from_sorted_values :: "bool \<Rightarrow> low list \<Rightarrow> nat \<Rightarrow> container" where
  "make_container_from_sorted_values eager vs bitset_threshold =
    (if vs = [] then make_array
     else case choose_sorted_container_kind eager vs bitset_threshold of
            Bitset_kind \<Rightarrow> bitset_handle_from_sorted_values vs make_array
          | Run_kind \<Rightarrow> run_handle_from_sorted_values vs
          | Array_kind \<Rightarrow> make_array_from_sorted vs)"

definition make_container_from_filled_array :: "bool \<Rightarrow> container \<Rightarrow> nat \<Rightarrow> container" where
  "make_container_from_filled_array eager filled_array bitset_threshold =
    (let vs = array_values filled_array
     in if vs = [] then make_array
        else case choose_sorted_container_kind eager vs bitset_threshold of
               Bitset_kind \<Rightarrow> bitset_handle_from_sorted_values vs make_array
             | Run_kind \<Rightarrow> run_handle_from_sorted_values vs
             | Array_kind \<Rightarrow> filled_array)"

definition words_from_container :: "container \<Rightarrow> word64 list" where
  "words_from_container h =
    (if holds_bitset h then bitset_words h else fold words_set (container_values h) (replicate word_count 0))"

definition make_bitset_container_from_words :: "word64 list \<Rightarrow> container" where
  "make_bitset_container_from_words words =
    (let n = fold (\<lambda>word acc. acc + popcount word) words 0
     in if n = 0 then make_array else set_cardinality n (make_bitset_uninitialized words))"

definition make_container_from_words :: "bool \<Rightarrow> word64 list \<Rightarrow> nat \<Rightarrow> container" where
  "make_container_from_words eager words bitset_threshold =
    (let n = fold (\<lambda>word acc. acc + popcount word) words 0;
         array_bytes = n * 2
     in if n = 0 then make_array
        else if n \<ge> bitset_threshold \<and> bitset_bytes \<le> array_bytes
        then set_cardinality n (make_bitset_uninitialized words)
        else make_container_from_sorted_values eager (values_from_words words) bitset_threshold)"

definition is_bitset_cardinality :: "nat \<Rightarrow> nat \<Rightarrow> bool" where
  "is_bitset_cardinality n bitset_threshold \<longleftrightarrow> n \<ge> bitset_threshold \<and> bitset_bytes \<le> n * 2"

definition choose_run_container_kind :: "nat \<Rightarrow> nat \<Rightarrow> nat \<Rightarrow> container_kind" where
  "choose_run_container_kind n run_count bitset_threshold =
    (let array_bytes = n * 2;
         run_bytes = run_count * 4 + 2;
         bitset_wins = is_bitset_cardinality n bitset_threshold
     in if run_bytes \<le> array_bytes \<and> \<not> (bitset_wins \<and> bitset_bytes < run_bytes) then Run_kind
        else if bitset_wins then Bitset_kind else Array_kind)"

definition words_of_runs :: "run list \<Rightarrow> word64 list" where
  "words_of_runs rs = fold (\<lambda>r words. apply_range_to_words (rbegin r) (rend r) Range_add words) rs (replicate word_count 0)"

definition make_container_from_runs :: "run_container \<Rightarrow> nat \<Rightarrow> container" where
  "make_container_from_runs c bitset_threshold =
    (if rc_cardinality c = 0 then make_array
     else case choose_run_container_kind (rc_cardinality c) (length (runs c)) bitset_threshold of
            Bitset_kind \<Rightarrow> make_container_from_words True (words_of_runs (runs c)) bitset_threshold
          | Run_kind \<Rightarrow> handle_from_run_container c
          | Array_kind \<Rightarrow>
              array_sync_header (set_array_values (fill_payload (rc_cardinality c) 0 (runs_values (runs c))) make_array))"

definition bitset_handle_from_runs :: "run list \<Rightarrow> container" where
  "bitset_handle_from_runs rs = make_bitset_container_from_words (words_of_runs rs)"

definition settle_run_result :: "container \<Rightarrow> nat \<Rightarrow> container" where
  "settle_run_result result bitset_threshold =
    (let rs = run_list result
     in case choose_run_container_kind (cardinality result) (length rs) bitset_threshold of
          Run_kind \<Rightarrow> result
        | Array_kind \<Rightarrow> array_handle_from_container result
        | Bitset_kind \<Rightarrow> bitset_handle_from_runs rs)"

definition run_serialized_bytes :: "nat \<Rightarrow> nat" where
  "run_serialized_bytes run_count = run_count * 4 + 2"

definition run_count_cap :: "nat \<Rightarrow> nat" where
  "run_count_cap bytes = bytes div 4 + 1"

subsection \<open>The run counts are exact up to their cap\<close>

lemma run_starts_insert_above:
  assumes "\<forall>y\<in>S. y < x"
  shows "run_starts (insert x S) = run_starts S \<union> (if x = 0 \<or> x - 1 \<notin> S then {x} else {})"
  using assms by (auto simp: run_starts_def)

definition breaks :: "low list \<Rightarrow> nat \<Rightarrow> nat" where
  "breaks vs k = length (filter (\<lambda>i. vs ! i \<noteq> vs ! (i - 1) + 1) [1..<k])"

lemma breaks_append: "k \<le> length vs \<Longrightarrow> breaks (vs @ ws) k = breaks vs k"
  unfolding breaks_def by (intro arg_cong [where f = length] filter_cong) (auto simp: nth_append)

lemma card_run_starts_breaks:
  "strict vs \<Longrightarrow> vs \<noteq> [] \<Longrightarrow> card (run_starts (array_set vs)) = 1 + breaks vs (length vs)"
proof (induction vs rule: rev_induct)
  case (snoc v vs)
  show ?case
  proof (cases "vs = []")
    case True
    have "run_starts {unat v} = {unat v}" by (auto simp: run_starts_def)
    with True show ?thesis by (simp add: breaks_def)
  next
    case False
    have strict: "strict vs" and above: "\<forall>x\<in>set vs. x < v" using snoc.prems by (auto simp: sorted_wrt_append)
    let ?l = "last vs"
    have l: "?l < v" using above False by simp
    have plus: "unat (?l + 1) = unat ?l + 1" using l by (intro unat_low_plus1 low_not_max)
    have pos: "0 < unat v" using l by (simp add: word_less_nat_alt)
    have mem: "unat v - 1 \<in> array_set vs \<longleftrightarrow> v = ?l + 1"
    proof
      assume "unat v - 1 \<in> array_set vs"
      then obtain x where x: "x \<in> set vs" "unat x = unat v - 1" by (auto elim!: array_setE)
      have "unat x \<le> unat ?l" using strict_le_last [OF strict x(1)] by (simp add: word_le_nat_alt)
      then show "v = ?l + 1" using x(2) l pos plus by (simp add: low_eq_iff word_less_nat_alt)
    next
      assume "v = ?l + 1"
      then have "unat v - 1 = unat ?l" using plus by simp
      then show "unat v - 1 \<in> array_set vs" using False by simp
    qed
    have below: "\<forall>y\<in>array_set vs. y < unat v" using above by (auto simp: array_set_def word_less_nat_alt)
    have "run_starts (array_set (vs @ [v])) = run_starts (array_set vs) \<union> (if v = ?l + 1 then {} else {unat v})"
      using run_starts_insert_above [OF below] pos mem by simp
    moreover have "unat v \<notin> run_starts (array_set vs)" using below by (auto simp: run_starts_def)
    ultimately have "card (run_starts (array_set (vs @ [v]))) = card (run_starts (array_set vs)) + of_bool (v \<noteq> ?l + 1)"
      by simp
    moreover have "breaks (vs @ [v]) (length (vs @ [v])) = breaks vs (length vs) + of_bool (v \<noteq> ?l + 1)"
      using False breaks_append [of "length vs" vs "[v]"]
      by (simp add: breaks_def nth_append last_conv_nth Suc_le_eq)
    ultimately show ?thesis using snoc.IH [OF strict False] by simp
  qed
qed simp

lemma fold_breaks:
  "a \<le> b \<Longrightarrow> 1 \<le> a \<Longrightarrow> fold (\<lambda>i n. n + of_bool (vs ! i \<noteq> vs ! (i - 1) + 1)) [a..<b] (1 + breaks vs a) = 1 + breaks vs b"
proof (induction b)
  case (Suc b)
  show ?case
  proof (cases "a = Suc b")
    case False
    then have "a \<le> b" using Suc.prems by simp
    with Suc show ?thesis by (simp add: breaks_def)
  qed simp
qed simp

lemma breaks_mono: "a \<le> b \<Longrightarrow> breaks vs a \<le> breaks vs b"
  by (induction b) (auto simp: breaks_def le_Suc_eq)

lemma count_run_blocks_min:
  "1 \<le> index \<Longrightarrow> index \<le> length vs \<Longrightarrow> run_count = 1 + breaks vs index \<Longrightarrow>
    min (count_run_blocks vs cap index run_count) cap = min (1 + breaks vs (length vs)) cap"
proof (induction vs cap index run_count rule: count_run_blocks.induct)
  case (1 vs cap index run_count)
  show ?case
  proof (cases "index < length vs \<and> run_count < cap")
    case True
    let ?e = "min (index + min (cap - run_count) 256) (length vs)"
    have e: "1 \<le> ?e" "?e \<le> length vs" "index \<le> ?e" using True "1.prems"(1) by auto
    have "min (count_run_blocks vs cap ?e (fold (\<lambda>i n. n + of_bool (vs ! i \<noteq> vs ! (i - 1) + 1)) [index..<?e] run_count)) cap =
        min (1 + breaks vs (length vs)) cap"
      using fold_breaks [OF e(3) "1.prems"(1)] "1.prems"(3) by (intro "1.IH" [OF True refl refl e(1,2)]) simp
    then show ?thesis unfolding count_run_blocks.simps [of vs cap index run_count] if_P [OF True] Let_def .
  next
    case False
    then show ?thesis
      using breaks_mono [of index "length vs" vs] "1.prems"
      unfolding count_run_blocks.simps [of vs cap index run_count] if_not_P [OF False] by auto
  qed
qed

lemma run_count_from_sorted_values_eq:
  "strict vs \<Longrightarrow> run_count_from_sorted_values vs cap = min cap (card (run_starts (array_set vs)))"
  using count_run_blocks_min [of 1 vs 1 cap]
  by (cases "vs = []") (simp_all add: run_count_from_sorted_values_def card_run_starts_breaks breaks_def min.commute Suc_leI)

text \<open>A decision made with the capped count is the one made with the true count.\<close>

lemma choose_container_kind_cap:
  assumes "\<And>cap. count_runs cap = min cap r"
  shows "choose_container_kind eager n threshold count_runs = choose_container_kind eager n threshold (\<lambda>_. r)"
proof -
  let ?cap = "max (n * 2) bitset_bytes div 4 + 1"
  have "k < (k div 4 + 1) * 4" for k :: nat by simp
  then have "max (n * 2) bitset_bytes < ?cap * 4" .
  then have "(bitset_bytes \<le> min ?cap r * 4) = (bitset_bytes \<le> r * 4)" "(min ?cap r * 4 < n * 2) = (r * 4 < n * 2)"
    by (auto simp: min_def)
  then show ?thesis by (auto simp: choose_container_kind_def Let_def assms)
qed

lemma choose_sorted_container_kind_eq:
  "strict vs \<Longrightarrow> choose_sorted_container_kind eager vs threshold =
    choose_container_kind eager (length vs) threshold (\<lambda>_. card (run_starts (array_set vs)))"
  unfolding choose_sorted_container_kind_def
  by (rule choose_container_kind_cap) (simp add: run_count_from_sorted_values_eq)

subsection \<open>The builders\<close>

text \<open>Every builder is proved to give a well-formed container with the set it was built from; its form is read off
  the payload.\<close>

definition holds_set :: "nat set \<Rightarrow> container \<Rightarrow> bool" where
  "holds_set S h \<longleftrightarrow> wf_container h \<and> values_of h = S"

lemma holds_setI [intro]: "wf_container h \<Longrightarrow> values_of h = S \<Longrightarrow> holds_set S h"
  by (simp add: holds_set_def)

lemma holds_setD: "holds_set S h \<Longrightarrow> wf_container h" "holds_set S h \<Longrightarrow> values_of h = S"
  by (simp_all add: holds_set_def)

lemma holds_make_array: "S = {} \<Longrightarrow> holds_set S make_array"
  by (simp add: holds_set_def empty_factories)

lemma holds_make_array_from_sorted: "strict vs \<Longrightarrow> holds_set (array_set vs) (make_array_from_sorted vs)"
  by (intro holds_setI make_array_from_sorted_correct)

lemma holds_filled_array:
  assumes "strict vs"
  shows "holds_set (array_set vs) (array_sync_header (set_array_values vs make_array))"
    "payload (array_sync_header (set_array_values vs make_array)) = Array_payload vs"
  using holds_make_array_from_sorted [OF assms]
  by (simp_all add: make_array_from_sorted_def set_array_values_def)

lemma run_fill: "run_ok r \<Longrightarrow> run_fill r = run_values r"
proof -
  assume "run_ok r"
  then have "unat (rbegin r) \<le> unat (rend r)" by (simp add: run_ok_unat)
  then have "(unat (rend r) - unat (rbegin r) + 1) + unat (rbegin r) = unat (rend r) + 1" by simp
  with map_add_upt [of "unat (rbegin r)" "unat (rend r) - unat (rbegin r) + 1"]
  have "[unat (rbegin r)..<unat (rend r) + 1] = map (\<lambda>i. i + unat (rbegin r)) [0..<unat (rend r) - unat (rbegin r) + 1]"
    by metis
  then show ?thesis unfolding run_fill_def run_values_def by (simp add: comp_def add.commute del: upt_Suc)
qed

lemma array_handle_from_container_correct:
  assumes "wf_container h" "\<not> cardinality_stale h"
  shows "holds_set (values_of h) (array_handle_from_container h)"
    "payload (array_handle_from_container h) = Array_payload (container_values h)"
proof -
  have "concat (map run_fill (run_list h)) = container_values h" if run: "holds_run h"
  proof -
    obtain rs where "wf_runs rs" "run_list h = rs" using assms(1) run by (rule wf_runE)
    then show ?thesis using run
      by (simp add: container_values_def runs_values_def kind_of run_fill wf_runs_mem_ok cong: map_cong)
  qed
  then have eq: "array_handle_from_container h = array_sync_header (set_array_values (container_values h) make_array)"
    using exact_cardinality [OF assms] length_container_values [OF assms(1)]
    by (cases "holds_run h") (simp_all add: array_handle_from_container_def container_size_def Let_def)
  show "holds_set (values_of h) (array_handle_from_container h)"
    "payload (array_handle_from_container h) = Array_payload (container_values h)"
    using holds_filled_array [OF container_values_correct(1) [OF assms(1)]] container_values_correct(2) [OF assms(1)]
    by (simp_all add: eq)
qed

lemma zeroed_bitset_simps [simp]:
  "bitset_words (zeroed_bitset reuse) = replicate 1024 0" "holds_bitset (zeroed_bitset reuse)"
  by (simp_all add: zeroed_bitset_def make_bitset_zeroed_def make_bitset_uninitialized_def mark_endpoints_stale_def bitset_words_def)

lemma bits_set_zeros [simp]: "bits_set (replicate n 0) = {}"
  by (auto simp: mem_bits_set)

lemma wf_counted_bitset:
  assumes "payload h = Bitset_payload ws" "length ws = 1024" "n = card (bits_set ws)"
    and "\<not> endpoints_stale h \<longrightarrow> bits_set ws = {} \<or> unat (min_end h) = Min (bits_set ws) \<and> unat (max_end h) = Max (bits_set ws)"
  shows "wf_container (set_cardinality n h)"
  using assms by (subst wf_container_bitset [of _ ws]) (auto simp: set_cardinality_def)

lemma bitset_handle_from_sorted_values_correct:
  assumes "strict vs"
  shows "holds_set (array_set vs) (bitset_handle_from_sorted_values vs reuse)"
    "payload (bitset_handle_from_sorted_values vs reuse) = Bitset_payload (fold words_set vs (replicate 1024 0))"
proof -
  let ?ws = "fold words_set vs (replicate 1024 0)"
  have ws: "bits_set ?ws = array_set vs" "length ?ws = 1024" by (simp_all add: bits_set_fold_words_set)
  show p: "payload (bitset_handle_from_sorted_values vs reuse) = Bitset_payload ?ws"
    by (simp add: bitset_handle_from_sorted_values_def Let_def)
  have "wf_container (bitset_handle_from_sorted_values vs reuse)"
  proof (subst wf_container_bitset [OF p])
    show "length ?ws = 1024 \<and>
      (if cardinality_stale (bitset_handle_from_sorted_values vs reuse)
       then cardinality (bitset_handle_from_sorted_values vs reuse) \<le> card (bits_set ?ws)
       else cardinality (bitset_handle_from_sorted_values vs reuse) = card (bits_set ?ws)) \<and>
      (\<not> endpoints_stale (bitset_handle_from_sorted_values vs reuse) \<longrightarrow> bits_set ?ws \<noteq> {} \<longrightarrow>
       unat (min_end (bitset_handle_from_sorted_values vs reuse)) = Min (bits_set ?ws) \<and>
       unat (max_end (bitset_handle_from_sorted_values vs reuse)) = Max (bits_set ?ws))"
      unfolding ws using assms by (cases "vs = []")
        (simp_all add: bitset_handle_from_sorted_values_def Let_def set_cardinality_def card_array_set array_set_Min_Max)
  qed
  then show "holds_set (array_set vs) (bitset_handle_from_sorted_values vs reuse)"
    using p ws by (intro holds_setI) simp_all
qed

lemma bitset_handle_from_array_union_correct:
  assumes "strict a" "strict b" "a \<noteq> []" "b \<noteq> []"
  shows "holds_set (array_set a \<union> array_set b) (bitset_handle_from_array_union a b reuse)"
    "holds_bitset (bitset_handle_from_array_union a b reuse)"
proof -
  let ?wa = "fold words_set a (replicate 1024 0)"
  let ?ws = "fold words_set b ?wa"
  have ws: "bits_set ?ws = array_set a \<union> array_set b" "length ?ws = 1024" "length ?wa = 1024"
    by (auto simp: bits_set_fold_words_set)
  let ?n = "length a + card (array_set b - bits_set ?wa)"
  have n: "?n = card (bits_set ?ws)"
  proof -
    have "card (array_set a \<union> (array_set b - array_set a)) = card (array_set a) + card (array_set b - array_set a)"
      by (rule card_Un_disjoint) auto
    then show ?thesis using assms(1) by (simp add: ws bits_set_fold_words_set card_array_set)
  qed
  have fold: "fold (\<lambda>v (n, words). (n + of_bool (\<not> words_test words v), words_set v words)) b (length a, ?wa) = (?n, ?ws)"
    by (rule add_sorted_bits [OF ws(3)])
  have res: "bitset_handle_from_array_union a b reuse =
      set_endpoints (min (hd a) (hd b)) (max (last a) (last b)) (set_cardinality ?n (set_bitset_words ?ws (zeroed_bitset reuse)))"
    by (simp add: bitset_handle_from_array_union_def Let_def fold)
  have p: "payload (bitset_handle_from_array_union a b reuse) = Bitset_payload ?ws" by (simp add: res)
  have mm: "unat (min x y) = min (unat x) (unat y)" "unat (max x y) = max (unat x) (unat y)" for x y :: low
    by (auto simp: min_def max_def word_le_nat_alt)
  have "wf_container (bitset_handle_from_array_union a b reuse)"
    unfolding wf_container_bitset [OF p] using n ws(2) assms
    by (simp add: res set_cardinality_def ws(1) mm Min_Un Max_Un array_set_Min_Max)
  then show "holds_set (array_set a \<union> array_set b) (bitset_handle_from_array_union a b reuse)"
    "holds_bitset (bitset_handle_from_array_union a b reuse)"
    using p ws(1) by (auto simp: holds_set_def holds_payload)
qed

lemma handle_from_run_container_correct:
  assumes "wf_rc c"
  shows "holds_set (rc_set c) (handle_from_run_container c)" "payload (handle_from_run_container c) = Run_payload (runs c)"
proof -
  show p: "payload (handle_from_run_container c) = Run_payload (runs c)"
    by (simp add: handle_from_run_container_def Let_def)
  have "wf_container (handle_from_run_container c)"
    unfolding wf_container_run [OF p] using assms
    by (auto simp: handle_from_run_container_def Let_def wf_rc_def set_cardinality_def set_endpoints_def make_run_def set_run_list_def)
  then show "holds_set (rc_set c) (handle_from_run_container c)" using p by (intro holds_setI) (simp_all add: rc_set_def)
qed

lemma run_handle_from_sorted_values_correct:
  assumes "strict vs"
  shows "holds_set (array_set vs) (run_handle_from_sorted_values vs)" "holds_run (run_handle_from_sorted_values vs)"
  using run_from_sorted_values_correct [OF assms, of make_run]
  by (simp_all add: run_handle_from_sorted_values_def holds_set_def make_run_def)

lemma make_container_from_sorted_values_correct:
  "strict vs \<Longrightarrow> holds_set (array_set vs) (make_container_from_sorted_values eager vs threshold)"
  by (simp add: make_container_from_sorted_values_def holds_make_array bitset_handle_from_sorted_values_correct
      run_handle_from_sorted_values_correct holds_make_array_from_sorted split: container_kind.split)

lemma make_container_from_filled_array_correct:
  assumes "wf_container h" "holds_array h"
  shows "holds_set (values_of h) (make_container_from_filled_array eager h threshold)"
proof -
  obtain vs where "strict vs" "array_values h = vs" "values_of h = array_set vs" using assms by (rule wf_arrayE)
  then show ?thesis using assms(1)
    by (simp add: make_container_from_filled_array_def Let_def holds_make_array bitset_handle_from_sorted_values_correct
        run_handle_from_sorted_values_correct holds_setI split: container_kind.split)
qed

lemma words_from_container_correct:
  assumes "wf_container h"
  shows "length (words_from_container h) = 1024" "bits_set (words_from_container h) = values_of h"
  using assms container_values_correct [OF assms] wf_bitset_words [OF assms]
  by (auto simp: words_from_container_def bits_set_fold_words_set)

lemma fold_popcount: "fold (\<lambda>word acc. acc + popcount word) words 0 = card (bits_set words)"
  using popcount_words_card [of words] by (simp add: popcount_words_def)

lemma wf_uninitialized_counted:
  assumes "length ws = 1024"
  shows "holds_set (bits_set ws) (set_cardinality (card (bits_set ws)) (make_bitset_uninitialized ws))"
    "payload (set_cardinality n (make_bitset_uninitialized ws)) = Bitset_payload ws"
proof -
  show p: "payload (set_cardinality n (make_bitset_uninitialized ws)) = Bitset_payload ws" for n
    by (simp add: make_bitset_uninitialized_def)
  show "holds_set (bits_set ws) (set_cardinality (card (bits_set ws)) (make_bitset_uninitialized ws))"
    using assms p by (intro holds_setI wf_counted_bitset [of _ ws])
      (simp_all add: make_bitset_uninitialized_def mark_endpoints_stale_def)
qed

lemma make_bitset_container_from_words_correct:
  "length ws = 1024 \<Longrightarrow> holds_set (bits_set ws) (make_bitset_container_from_words ws)"
  by (auto simp: make_bitset_container_from_words_def Let_def fold_popcount wf_uninitialized_counted intro!: holds_make_array)

lemma make_container_from_words_correct:
  assumes "length ws = 1024"
  shows "holds_set (bits_set ws) (make_container_from_words eager ws threshold)"
  using make_container_from_sorted_values_correct [OF strict_values_from_words [OF assms], of eager threshold] assms
  by (auto simp: make_container_from_words_def Let_def fold_popcount wf_uninitialized_counted
      array_set_values_from_words intro!: holds_make_array)

lemma bits_set_words_of_runs:
  assumes "wf_runs rs"
  shows "length (words_of_runs rs) = 1024" "bits_set (words_of_runs rs) = runs_set rs"
proof -
  have "length ws = 1024 \<Longrightarrow> \<forall>r\<in>set rs. rbegin r \<le> rend r \<Longrightarrow>
    length (fold (\<lambda>r words. apply_range_to_words (rbegin r) (rend r) Range_add words) rs ws) = 1024 \<and>
    bits_set (fold (\<lambda>r words. apply_range_to_words (rbegin r) (rend r) Range_add words) rs ws) = bits_set ws \<union> runs_set rs" for ws
    by (induction rs arbitrary: ws) (auto simp: bits_set_apply_range range_effect_def run_set_def)
  from this [of "replicate 1024 0"] assms
  show "length (words_of_runs rs) = 1024" "bits_set (words_of_runs rs) = runs_set rs"
    by (simp_all add: words_of_runs_def wf_runs_def run_ok_def)
qed

lemma bitset_handle_from_runs_correct: "wf_runs rs \<Longrightarrow> holds_set (runs_set rs) (bitset_handle_from_runs rs)"
  using make_bitset_container_from_words_correct [of "words_of_runs rs"]
  by (simp add: bitset_handle_from_runs_def bits_set_words_of_runs)

lemma make_container_from_runs_correct:
  assumes "wf_rc c"
  shows "holds_set (rc_set c) (make_container_from_runs c threshold)"
proof -
  have wf: "wf_runs (runs c)" and n: "rc_cardinality c = card (runs_set (runs c))" using assms by (simp_all add: wf_rc_def)
  have len: "length (runs_values (runs c)) = rc_cardinality c"
    using card_array_set [OF strict_runs_values [OF wf]] n by simp
  show ?thesis
    using holds_filled_array(1) [OF strict_runs_values [OF wf]] handle_from_run_container_correct(1) [OF assms]
      make_container_from_words_correct [of "words_of_runs (runs c)" True threshold] n
    by (auto simp: make_container_from_runs_def rc_set_def len bits_set_words_of_runs [OF wf]
        intro!: holds_make_array split: container_kind.split)
qed

lemma settle_run_result_correct:
  assumes "wf_container h" "holds_run h"
  shows "holds_set (values_of h) (settle_run_result h threshold)"
proof -
  obtain rs where "run_list h = rs" "wf_runs rs" "values_of h = runs_set rs" "\<not> cardinality_stale h"
    using assms by (rule wf_runE)
  then show ?thesis
    using assms(1) array_handle_from_container_correct(1) [OF assms(1)] bitset_handle_from_runs_correct [of rs]
    by (auto simp: settle_run_result_def Let_def split: container_kind.split)
qed

end
