(* ===== verification/Counted_Runs.thy ===== *)
theory Counted_Runs
  imports Container_Forms
begin

text \<open>
  Writing the runs of a set whose run count is known (\<open>containers.hpp\<close>, \<open>run_handle_from_counted_*\<close>): from sorted
  values, and from the words of a bitset a word at a time. The second walks the words with two loops that skip
  empty and full words, and finds the ends of a run with the bit tricks \<open>w | ( w - 1 )\<close> and \<open>w & ( w + 1 )\<close>.
\<close>

subsection \<open>From sorted values\<close>

fun counted_values_loop :: "low list \<Rightarrow> run list \<Rightarrow> low \<Rightarrow> low \<Rightarrow> run list" where
  "counted_values_loop [] out begin_v previous = out @ [mk_run begin_v previous]"
| "counted_values_loop (v # vs) out begin_v previous =
    (if v \<noteq> previous + 1 then counted_values_loop vs (out @ [mk_run begin_v previous]) v v
     else counted_values_loop vs out begin_v v)"

definition run_handle_from_counted_values :: "low list \<Rightarrow> nat \<Rightarrow> container" where
  "run_handle_from_counted_values vs run_count =
    (let out = counted_values_loop (tl vs) [] (hd vs) (hd vs);
         result = set_run_list (fill_payload run_count (mk_run 0 0) out) make_run
     in set_endpoints (hd vs) (last vs) (set_cardinality (length vs) result))"

lemma counted_values_loop_eq:
  "strict (previous # vs) \<Longrightarrow> counted_values_loop vs out begin_v previous = from_sorted_loop vs out begin_v previous"
proof (induction vs arbitrary: out begin_v previous)
  case (Cons v vs)
  then have "previous \<noteq> - 1" "v \<noteq> previous" using low_not_max [of previous v] by auto
  with Cons show ?case by (cases "v = previous + 1") auto
qed simp

lemma wf_built_run:
  assumes "wf_runs rs" "rs \<noteq> []" "n = card (runs_set rs)" "b = rbegin (hd rs)" "e = rend (last rs)"
  shows "holds_set (runs_set rs) (set_endpoints b e (set_cardinality n (set_run_list rs make_run)))"
    "payload (set_endpoints b e (set_cardinality n (set_run_list rs make_run))) = Run_payload rs"
proof -
  show p: "payload (set_endpoints b e (set_cardinality n (set_run_list rs make_run))) = Run_payload rs" by simp
  have "wf_container (set_endpoints b e (set_cardinality n (set_run_list rs make_run)))"
    unfolding wf_container_run [OF p] using assms
    by (simp add: set_cardinality_def set_endpoints_def make_run_def set_run_list_def)
  then show "holds_set (runs_set rs) (set_endpoints b e (set_cardinality n (set_run_list rs make_run)))"
    using p by (intro holds_setI) simp_all
qed

lemma runs_ends:
  assumes "wf_runs rs" "runs_set rs = array_set vs" "strict vs" "vs \<noteq> []"
  shows "rs \<noteq> []" "rbegin (hd rs) = hd vs" "rend (last rs) = last vs"
proof -
  show rs: "rs \<noteq> []" using assms(2,4) by (metis array_set_empty_iff runs_set_Nil)
  show "rbegin (hd rs) = hd vs" "rend (last rs) = last vs"
    using runs_set_Min_Max [OF assms(1) rs] array_set_Min_Max [OF assms(3,4)] assms(2) by (simp_all add: low_eq_iff)
qed

lemma run_handle_from_counted_values_correct:
  assumes "strict vs" "vs \<noteq> []" "run_count = card (run_starts (array_set vs))"
  shows "holds_set (array_set vs) (run_handle_from_counted_values vs run_count)"
    "holds_run (run_handle_from_counted_values vs run_count)"
    "length (run_list (run_handle_from_counted_values vs run_count)) = run_count"
proof -
  let ?rs = "counted_values_loop (tl vs) [] (hd vs) (hd vs)"
  have "?rs = runs_from_sorted_values vs"
    using assms(1,2) by (cases vs) (simp_all add: runs_from_sorted_values_def counted_values_loop_eq)
  then have rs: "wf_runs ?rs" "runs_set ?rs = array_set vs"
    using runs_from_sorted_values_correct [OF strict_sorted [OF assms(1)]] by simp_all
  note ends = runs_ends [OF rs assms(1,2)]
  have len: "length ?rs = run_count" using card_run_starts_runs_set [OF rs(1)] rs(2) assms(3) by simp
  then have fill: "fill_payload run_count (mk_run 0 0) ?rs = ?rs" by simp
  show "holds_set (array_set vs) (run_handle_from_counted_values vs run_count)"
    "holds_run (run_handle_from_counted_values vs run_count)"
    "length (run_list (run_handle_from_counted_values vs run_count)) = run_count"
    using wf_built_run [OF rs(1) ends(1), of "length vs" "hd vs" "last vs"] ends rs(2) assms(1) len
    unfolding run_handle_from_counted_values_def Let_def fill by (auto simp: card_array_set)
qed

subsection \<open>From the words of a bitset\<close>

text \<open>\<open>while ( word == c && word_index < last_word ) word = words[ ++word_index ]\<close>.\<close>

function skip_words :: "word64 \<Rightarrow> word64 list \<Rightarrow> nat \<Rightarrow> word64 \<Rightarrow> nat \<times> word64" where
  "skip_words c words i w =
    (if w = c \<and> i < length words - 1
     then skip_words c words (i + 1) (words ! (i + 1)) else (i, w))"
  by pat_completeness auto
termination
  by (relation "measure (\<lambda>(c, words, i, w). length words - i)") auto

declare skip_words.simps [simp del]

text \<open>Where the skip stops, and what it has passed.\<close>

definition skipped :: "word64 \<Rightarrow> word64 list \<Rightarrow> nat \<Rightarrow> word64 \<Rightarrow> nat \<Rightarrow> word64 \<Rightarrow> bool" where
  "skipped c words i w i' w' \<longleftrightarrow> i \<le> i' \<and> i' < length words \<and> (i' = i \<longrightarrow> w' = w) \<and>
     (i < i' \<longrightarrow> w = c \<and> w' = words ! i') \<and> (\<forall>k. i < k \<longrightarrow> k < i' \<longrightarrow> words ! k = c) \<and>
     (w' = c \<longrightarrow> i' = length words - 1)"

lemma skipped_parts:
  assumes "skipped c words i w i' w'"
  shows "i \<le> i'" "i' < length words" "i' = i \<Longrightarrow> w' = w" "i < i' \<Longrightarrow> w = c" "i < i' \<Longrightarrow> words ! i' = w'"
    "i < k \<Longrightarrow> k < i' \<Longrightarrow> words ! k = c" "w' = c \<Longrightarrow> i' = length words - 1"
  using assms unfolding skipped_def by blast+

lemma skip_words_skipped:
  "skip_words c words i w = (i', w') \<Longrightarrow> i < length words \<Longrightarrow> skipped c words i w i' w'"
proof (induction c words i w rule: skip_words.induct)
  case (1 c words i w)
  show ?case
  proof (cases "w = c \<and> i < length words - 1")
    case True
    have "skip_words c words (i + 1) (words ! (i + 1)) = (i', w')"
      using "1.prems"(1) unfolding skip_words.simps [of c words i] if_P [OF True] .
    then have ih: "skipped c words (i + 1) (words ! (i + 1)) i' w'" by (rule "1.IH" [OF True]) (use True in linarith)
    have "words ! k = c" if "i < k" "k < i'" for k
    proof (cases "k = i + 1")
      case True
      then show ?thesis using skipped_parts(4) [OF ih] that by simp
    next
      case False
      with that have "i + 1 < k" by simp
      then show ?thesis using skipped_parts(6) [OF ih] that by blast
    qed
    moreover have "w' = words ! i'"
    proof (cases "i' = i + 1")
      case True
      then show ?thesis using skipped_parts(3) [OF ih] by simp
    next
      case False
      then show ?thesis using skipped_parts(1,5) [OF ih] by simp
    qed
    moreover have "i < i'" "i \<le> i'" "i' \<noteq> i" using skipped_parts(1) [OF ih] by simp_all
    moreover have "w = c" using True by blast
    ultimately show ?thesis using skipped_parts(2,7) [OF ih] unfolding skipped_def by blast
  next
    case False
    then have eq: "i' = i" "w' = w"
      using "1.prems"(1) unfolding skip_words.simps [of c words i] if_not_P [OF False] by simp_all
    have "w = c \<longrightarrow> i = length words - 1" using False "1.prems"(2) by linarith
    with "1.prems"(2) show ?thesis unfolding skipped_def eq by simp
  qed
qed

lemma popcount_drops:
  assumes "w \<noteq> 0" "w OR (w - 1) \<noteq> - 1"
  shows "popcount ((w OR (w - 1)) AND ((w OR (w - 1)) + 1)) < popcount w"
proof -
  define f where "f = w OR (w - 1)"
  have f: "bit f i \<longleftrightarrow> bit w i \<or> i < countr_zero w" for i unfolding f_def by (rule bit_fill_below [OF assms(1)])
  have "bit f i" if "i \<le> countr_zero w" for i
    using that countr_zero_bit [OF assms(1)] by (cases "i = countr_zero w") (auto simp: f)
  then have less: "countr_zero w < countr_zero (NOT f)"
    using countr_zero_bit [of "NOT f"] assms(2) unfolding f_def [symmetric]
    by (metis bit.compl_zero bit.double_compl bit_not_iff not_le)
  have g: "bit (f AND (f + 1)) i \<longleftrightarrow> bit f i \<and> countr_zero (NOT f) \<le> i" for i
    using assms(2) unfolding f_def [symmetric] by (rule bit_clear_trailing_ones)
  have "bit w i" if "bit (f AND (f + 1)) i" for i using that less f [of i] g [of i] by linarith
  moreover have "\<not> bit (f AND (f + 1)) (countr_zero w)" using less g by simp
  ultimately have "{i. bit (f AND (f + 1)) i} \<subset> {i. bit w i}"
    using countr_zero_bit [OF assms(1)] by auto
  then show ?thesis unfolding popcount_card f_def [symmetric] by (intro psubset_card_mono) simp_all
qed

lemma skip_words_same:
  "length words \<le> i \<Longrightarrow> skip_words c words i w = (i, w)"
  unfolding skip_words.simps [of c words i] by (rule if_not_P) linarith

lemma skip_words_cases:
  assumes "skip_words c words i w = (i', w')"
  shows "i' = i \<and> w' = w \<or> i < i' \<and> i < length words"
proof (cases "i < length words")
  case True
  have "skipped c words i w i' w'" by (rule skip_words_skipped [OF assms True])
  then have "i \<le> i'" "i' = i \<longrightarrow> w' = w" unfolding skipped_def by blast+
  with True show ?thesis by linarith
next
  case False
  then show ?thesis using assms skip_words_same [of words i c w] by simp
qed

text \<open>The outer loop ends: a word is left behind, or loses its lowest run.\<close>

function counted_words_loop :: "word64 list \<Rightarrow> nat \<Rightarrow> word64 \<Rightarrow> run list \<Rightarrow> run list" where
  "counted_words_loop words i w out =
    (let (i, w) = skip_words 0 words i w
     in if w = 0 then out
        else let begin_v = i * 64 + countr_zero w;
                 (i, filled) = skip_words (- 1) words i (w OR (w - 1))
             in if filled = - 1 then out @ [mk_run (to_low begin_v) (- 1)]
                else let end_v = i * 64 + countr_zero (NOT filled)
                     in counted_words_loop words i (filled AND (filled + 1))
                          (out @ [mk_run (to_low begin_v) (to_low (end_v - 1))]))"
  by pat_completeness auto

termination
proof (relation "measures [\<lambda>(words, i, w, out). length words - i, \<lambda>(words, i, w, out). popcount w]", simp)
  fix words :: "word64 list" and i w out p i1 w1 begin_v q i2 f end_v
  assume p: "p = skip_words 0 words i w" "(i1, w1) = p" "w1 \<noteq> 0"
    and q: "q = skip_words (- 1) words i1 (w1 OR (w1 - 1))" "(i2, f) = q" "f \<noteq> - 1"
  have "i1 = i \<and> w1 = w \<or> i < i1 \<and> i < length words" by (rule skip_words_cases) (use p in simp)
  moreover have "i2 = i1 \<and> f = w1 OR (w1 - 1) \<or> i1 < i2 \<and> i1 < length words" by (rule skip_words_cases) (use q in simp)
  ultimately have "length words - i2 < length words - i \<or> i2 = i \<and> popcount (f AND (f + 1)) < popcount w"
    using popcount_drops [of w] p(3) q(3) by fastforce
  then show "((words, i2, f AND (f + 1), out @ [mk_run (to_low begin_v) (to_low (end_v - 1))]), words, i, w, out)
      \<in> measures [\<lambda>(words, i, w, out). length words - i, \<lambda>(words, i, w, out). popcount w]"
    by auto
qed

declare counted_words_loop.simps [simp del]

definition run_handle_from_counted_words :: "word64 list \<Rightarrow> nat \<Rightarrow> nat \<Rightarrow> container" where
  "run_handle_from_counted_words words run_count n =
    (let out = counted_words_loop words 0 (words ! 0) [];
         result = set_run_list (fill_payload run_count (mk_run 0 0) out) make_run
     in set_endpoints (rbegin (hd (run_list result))) (rend (run_list result ! (length out - 1))) (set_cardinality n result))"

subsubsection \<open>The values still ahead\<close>

text \<open>The values of the words from \<open>word_index\<close> on, with \<open>word\<close> in the place of the word there.\<close>

definition ahead :: "word64 list \<Rightarrow> nat \<Rightarrow> word64 \<Rightarrow> nat set" where
  "ahead words i w = {v \<in> bits_set (words[i := w]). 64 * i \<le> v}"

lemma mem_ahead:
  "v \<in> ahead words i w \<longleftrightarrow> i \<le> v div 64 \<and> v div 64 < length words \<and>
    (if v div 64 = i then bit w (v mod 64) else bit (words ! (v div 64)) (v mod 64))"
proof -
  have "64 * i \<le> v \<longleftrightarrow> i \<le> v div 64" by (simp add: less_eq_div_iff_mult_less_eq mult.commute)
  then show ?thesis by (auto simp: ahead_def mem_bits_set nth_list_update)
qed

lemma ahead_start: "words \<noteq> [] \<Longrightarrow> ahead words 0 (words ! 0) = bits_set words"
  by (simp add: ahead_def)

lemma skip_empty_words:
  assumes "skip_words 0 words i w = (i', w')" "i < length words"
  shows "ahead words i' w' = ahead words i w"
proof (rule set_eqI)
  fix v :: nat
  have s: "skipped 0 words i w i' w'" by (rule skip_words_skipped [OF assms])
  define q where "q = v div 64"
  consider "i' = i" | "i < i'" "q < i" | "i < i'" "q = i" | "i < i'" "i < q" "q < i'" | "i < i'" "q = i'" | "i < i'" "i' < q"
    using s unfolding skipped_def by linarith
  then show "v \<in> ahead words i' w' \<longleftrightarrow> v \<in> ahead words i w"
    unfolding mem_ahead q_def [symmetric] using skipped_parts [OF s] by cases simp_all
qed

lemma skip_full_words:
  assumes "skip_words (- 1) words i w = (i', w')" "i < length words"
  shows "v \<in> ahead words i w \<longleftrightarrow> 64 * i \<le> v \<and> v < 64 * i' \<or> v \<in> ahead words i' w'"
proof -
  have s: "skipped (- 1) words i w i' w'" by (rule skip_words_skipped [OF assms])
  define q where "q = v div 64"
  have v: "64 * i \<le> v \<longleftrightarrow> i \<le> q" "v < 64 * i' \<longleftrightarrow> q < i'"
    by (simp_all add: q_def less_eq_div_iff_mult_less_eq div_less_iff_less_mult mult.commute)
  have ones: "bit (- 1 :: word64) (v mod 64)" by (simp add: bit_minus_1_iff)
  consider "i' = i" | "i < i'" "q < i" | "i < i'" "q = i" | "i < i'" "i < q" "q < i'" | "i < i'" "q = i'" | "i < i'" "i' < q"
    using s unfolding skipped_def by linarith
  then show ?thesis
    unfolding mem_ahead v q_def [symmetric] using skipped_parts [OF s] ones by cases auto
qed

text \<open>One run: its first value is the lowest set bit, and it ends before the lowest clear bit of the filled word.\<close>

lemma ahead_empty: "i = length words - 1 \<Longrightarrow> ahead words i 0 = {}"
proof (rule equals0I)
  fix v assume i: "i = length words - 1" and v: "v \<in> ahead words i 0"
  then have "i \<le> v div 64" "v div 64 < length words" by (simp_all add: mem_ahead)
  with i have "v div 64 = i" by linarith
  with v show False by (simp add: mem_ahead)
qed

lemma ahead_split:
  assumes "i < length words" "j < 64"
  shows "64 * i + j \<in> ahead words i w \<longleftrightarrow> bit w j"
  using assms by (simp add: mem_ahead)

lemma ahead_cases:
  assumes "v \<in> ahead words i w"
  obtains j where "v = 64 * i + j" "j < 64" "bit w j" | "64 * (i + 1) \<le> v" "\<And>u. v \<in> ahead words i u"
proof (cases "v div 64 = i")
  case True
  then have "v = 64 * i + v mod 64" by (metis mult_div_mod_eq)
  with True assms show ?thesis by (intro that(1) [of "v mod 64"]) (simp_all add: mem_ahead)
next
  case False
  with assms have "i + 1 \<le> v div 64" by (simp add: mem_ahead)
  then have "64 * (i + 1) \<le> v" by (simp add: less_eq_div_iff_mult_less_eq mult.commute)
  moreover have "v \<in> ahead words i u" for u using assms False by (simp add: mem_ahead)
  ultimately show ?thesis by (rule that(2))
qed

lemma ahead_lowest:
  assumes "i < length words" "w \<noteq> 0"
  shows "64 * i + countr_zero w \<in> ahead words i w" "v \<in> ahead words i w \<Longrightarrow> 64 * i + countr_zero w \<le> v"
proof -
  show "64 * i + countr_zero w \<in> ahead words i w"
    using assms by (simp add: ahead_split countr_zero_less countr_zero_bit)
  show "64 * i + countr_zero w \<le> v" if "v \<in> ahead words i w"
    using that
  proof (cases rule: ahead_cases)
    case (1 j)
    then show ?thesis using countr_zero_least [OF assms(2)] by simp
  next
    case 2
    then show ?thesis using countr_zero_less [OF assms(2)] by simp
  qed
qed

lemma ahead_fill:
  assumes "i < length words" "w \<noteq> 0"
  shows "v \<in> ahead words i (w OR (w - 1)) \<longleftrightarrow> v \<in> ahead words i w \<or> 64 * i \<le> v \<and> v < 64 * i + countr_zero w"
proof (cases "v div 64 = i")
  case True
  then have v: "v = 64 * i + v mod 64" by (metis mult_div_mod_eq)
  have "64 * i + v mod 64 \<in> ahead words i (w OR (w - 1)) \<longleftrightarrow>
    64 * i + v mod 64 \<in> ahead words i w \<or> v mod 64 < countr_zero w"
    using assms by (simp add: ahead_split bit_fill_below)
  with v show ?thesis by (metis add_less_cancel_left le_add1)
next
  case False
  then have "\<not> (64 * i \<le> v \<and> v < 64 * i + countr_zero w)"
    using countr_zero_less [OF assms(2)] by (auto simp: less_eq_div_iff_mult_less_eq [symmetric] mult.commute)
  with False show ?thesis by (auto simp: mem_ahead)
qed

lemma ahead_ones:
  "i = length words - 1 \<Longrightarrow> i < length words \<Longrightarrow> v \<in> ahead words i (- 1) \<longleftrightarrow> 64 * i \<le> v \<and> v < 64 * length words"
  by (auto simp: mem_ahead bit_minus_1_iff less_eq_div_iff_mult_less_eq div_less_iff_less_mult mult.commute)

lemma ahead_trailing:
  assumes "i < length words" "f \<noteq> - 1"
  defines "e \<equiv> 64 * i + countr_zero (NOT f)"
  shows "v \<in> ahead words i f \<longleftrightarrow> 64 * i \<le> v \<and> v < e \<or> v \<in> ahead words i (f AND (f + 1))"
    "v \<in> ahead words i (f AND (f + 1)) \<Longrightarrow> e < v"
proof -
  have n: "NOT f \<noteq> 0" using assms(2) by (metis bit.compl_zero bit.double_compl)
  have k: "countr_zero (NOT f) < 64" by (rule countr_zero_less [OF n])
  have below: "bit f j" if "j < countr_zero (NOT f)" for j
    using countr_zero_below [OF that] that k by (simp add: bit_not_iff)
  have stop: "\<not> bit f (countr_zero (NOT f))" using countr_zero_bit [OF n] by (simp add: bit_not_iff)
  note keep = bit_clear_trailing_ones [OF assms(2)]
  show "e < v" if "v \<in> ahead words i (f AND (f + 1))"
    using that
  proof (cases rule: ahead_cases)
    case (1 j)
    then show ?thesis using keep [of j] stop by (cases "j = countr_zero (NOT f)") (simp_all add: e_def)
  next
    case 2
    then show ?thesis using k by (simp add: e_def)
  qed
  show "v \<in> ahead words i f \<longleftrightarrow> 64 * i \<le> v \<and> v < e \<or> v \<in> ahead words i (f AND (f + 1))"
  proof (cases "v div 64 = i")
    case True
    then have v: "v = 64 * i + v mod 64" by (metis mult_div_mod_eq)
    have "64 * i + v mod 64 \<in> ahead words i f \<longleftrightarrow>
      v mod 64 < countr_zero (NOT f) \<or> 64 * i + v mod 64 \<in> ahead words i (f AND (f + 1))"
      using assms(1) below by (auto simp: ahead_split keep)
    with v show ?thesis unfolding e_def by (metis add_less_cancel_left le_add1)
  next
    case False
    then have "\<not> (64 * i \<le> v \<and> v < e)"
      using k by (auto simp: e_def less_eq_div_iff_mult_less_eq [symmetric] mult.commute)
    with False show ?thesis by (auto simp: mem_ahead)
  qed
qed

lemma counted_words_loop_correct:
  assumes "i < length words" "length words = 1024" "wf_runs out"
    and "\<And>v. v \<in> ahead words i w \<Longrightarrow> out \<noteq> [] \<Longrightarrow> unat (rend (last out)) + 1 < v"
  shows "wf_runs (counted_words_loop words i w out) \<and>
    runs_set (counted_words_loop words i w out) = runs_set out \<union> ahead words i w"
  using assms
proof (induction words i w out rule: counted_words_loop.induct)
  case (1 words i w out)
  obtain i1 w1 where skip1: "skip_words 0 words i w = (i1, w1)" by (cases "skip_words 0 words i w")
  note p1 = skipped_parts [OF skip_words_skipped [OF skip1 "1.prems"(1)]]
  have a1: "ahead words i1 w1 = ahead words i w" by (rule skip_empty_words [OF skip1 "1.prems"(1)])
  show ?case
  proof (cases "w1 = 0")
    case True
    then have "ahead words i w = {}" using a1 ahead_empty p1(7) by metis
    with True "1.prems"(3) show ?thesis by (simp add: counted_words_loop.simps [of words i] skip1)
  next
    case w1: False
    define b where "b = 64 * i1 + countr_zero w1"
    obtain i2 f where skip2: "skip_words (- 1) words i1 (w1 OR (w1 - 1)) = (i2, f)" by fastforce
    note p2 = skipped_parts [OF skip_words_skipped [OF skip2 p1(2)]]
    have b: "b \<in> ahead words i w" "\<And>v. v \<in> ahead words i w \<Longrightarrow> b \<le> v" "64 * i1 \<le> b"
      using ahead_lowest [OF p1(2) w1] by (simp_all add: a1 b_def)
    have fill: "v \<in> ahead words i w \<or> 64 * i1 \<le> v \<and> v < b \<longleftrightarrow> 64 * i1 \<le> v \<and> v < 64 * i2 \<or> v \<in> ahead words i2 f" for v
      using ahead_fill [OF p1(2) w1, of v] skip_full_words [OF skip2 p1(2), of v] by (simp add: a1 b_def)
    have bound: "v < 65536" if "v \<in> ahead words i w" for v
      using that bits_set_bound [of v "words[i := w]"] "1.prems"(2) by (simp add: ahead_def)
    have b_low: "unat (to_low b) = b" using bound [OF b(1)] by simp
    have gap: "out \<noteq> [] \<Longrightarrow> unat (rend (last out)) + 1 < b" using "1.prems"(4) b(1) by blast
    show ?thesis
    proof (cases "f = - 1")
      case True
      then have f: "v \<in> ahead words i2 f \<longleftrightarrow> 64 * i2 \<le> v \<and> v < 65536" for v
        using ahead_ones [OF p2(7) p2(2)] "1.prems"(2) by simp
      have "v \<in> ahead words i w" if "b \<le> v" "v < 65536" for v using fill [of v] f [of v] b(3) that by auto
      then have "ahead words i w = {b..65535}" using b(2) bound by fastforce
      moreover have "counted_words_loop words i w out = out @ [mk_run (to_low b) (- 1)]"
        using True w1 by (simp add: counted_words_loop.simps [of words i] skip1 skip2 b_def mult.commute)
      ultimately show ?thesis
        using "1.prems"(3) gap b_low bound [OF b(1)] by (auto simp: wf_runs_snoc run_gap_def run_set_def)
    next
      case False
      define e where "e = 64 * i2 + countr_zero (NOT f)"
      note t = ahead_trailing [OF p2(2) False, folded e_def]
      have e: "64 * i2 \<le> e" "64 * i1 \<le> e" using p2(1) by (simp_all add: e_def)
      have "b \<noteq> e" using fill [of e] t [of e] b(1,3) e by auto
      then have be: "b < e" using fill [of e] t [of e] e by (metis linorder_neqE_nat not_le order_less_irrefl)
      have ahead: "v \<in> ahead words i w \<longleftrightarrow> b \<le> v \<and> v < e \<or> v \<in> ahead words i2 (f AND (f + 1))" for v
        using fill [of v] t [of v] b(2) [of v] b(3) e be by auto
      have "b \<le> e - 1" "e - 1 < e" using be by simp_all
      then have e_low: "unat (to_low (e - 1)) = e - 1" using bound [of "e - 1"] ahead [of "e - 1"] by simp
      let ?out = "out @ [mk_run (to_low b) (to_low (e - 1))]"
      have wf: "wf_runs ?out"
        using "1.prems"(3) gap b_low e_low be by (auto simp: wf_runs_snoc run_gap_def word_le_nat_alt)
      have loop: "counted_words_loop words i w out = counted_words_loop words i2 (f AND (f + 1)) ?out"
        using w1 False by (simp add: counted_words_loop.simps [of words i] skip1 skip2 b_def e_def mult.commute)
      have "wf_runs (counted_words_loop words i2 (f AND (f + 1)) ?out) \<and>
        runs_set (counted_words_loop words i2 (f AND (f + 1)) ?out) = runs_set ?out \<union> ahead words i2 (f AND (f + 1))"
      proof (rule "1.IH" [OF refl skip1 [symmetric] w1 _ refl skip2 [symmetric] False _ p2(2) "1.prems"(2) wf])
        show "b = i1 * 64 + countr_zero w1" "e = i2 * 64 + countr_zero (NOT f)" by (simp_all add: b_def e_def)
        show "unat (rend (last ?out)) + 1 < v" if "v \<in> ahead words i2 (f AND (f + 1))" for v
          using t(2) [OF that] e_low be by simp
      qed
      moreover have "runs_set ?out \<union> ahead words i2 (f AND (f + 1)) = runs_set out \<union> ahead words i w"
      proof -
        have "ahead words i w = {b..e - 1} \<union> ahead words i2 (f AND (f + 1))"
        proof (rule set_eqI)
          fix v
          have "v \<in> {b..e - 1} \<longleftrightarrow> b \<le> v \<and> v < e" using be by (simp add: le_diff_conv less_eq_Suc_le) linarith
          then show "v \<in> ahead words i w \<longleftrightarrow> v \<in> {b..e - 1} \<union> ahead words i2 (f AND (f + 1))" using ahead [of v] by blast
        qed
        then show ?thesis using b_low e_low by (simp add: run_set_def Un_assoc)
      qed
      ultimately show ?thesis unfolding loop by simp
    qed
  qed
qed

lemma run_handle_from_counted_words_correct:
  assumes "length words = 1024" "bits_set words \<noteq> {}"
    and "run_count = card (run_starts (bits_set words))" "n = card (bits_set words)"
  shows "holds_set (bits_set words) (run_handle_from_counted_words words run_count n)"
    "holds_run (run_handle_from_counted_words words run_count n)"
    "length (run_list (run_handle_from_counted_words words run_count n)) = run_count"
proof -
  let ?rs = "counted_words_loop words 0 (words ! 0) []"
  have ne: "words \<noteq> []" using assms(1) by auto
  have rs: "wf_runs ?rs" "runs_set ?rs = bits_set words"
    using counted_words_loop_correct [of 0 words "[]" "words ! 0"] assms(1) ne by (simp_all add: ahead_start)
  have rs_ne: "?rs \<noteq> []" using rs(2) assms(2) by (metis runs_set_Nil)
  have len: "length ?rs = run_count" using card_run_starts_runs_set [OF rs(1)] rs(2) assms(3) by simp
  then have fill: "fill_payload run_count (mk_run 0 0) ?rs = ?rs" by simp
  have "run_list (set_run_list ?rs make_run) = ?rs" by simp
  then have "run_handle_from_counted_words words run_count n =
      set_endpoints (rbegin (hd ?rs)) (rend (last ?rs)) (set_cardinality n (set_run_list ?rs make_run))"
    unfolding run_handle_from_counted_words_def Let_def fill using rs_ne by (simp add: last_conv_nth)
  then show "holds_set (bits_set words) (run_handle_from_counted_words words run_count n)"
    "holds_run (run_handle_from_counted_words words run_count n)"
    "length (run_list (run_handle_from_counted_words words run_count n)) = run_count"
    using wf_built_run [OF rs(1) rs_ne, of n] assms(4) len rs(2) by auto
qed

end
