(* ===== verification/Container_Optimize.thy ===== *)
theory Container_Optimize
  imports Counted_Runs
begin

text \<open>
  Compaction (\<open>containers.hpp\<close>, \<open>optimize_*\<close>): the form of a container is chosen again from its number of values
  and its number of runs, by serialized size. The run count is read from the values or the words and stops at a
  cap from which runs can no longer win. Also the fullness test and the capped run builder.
\<close>

subsection \<open>The operations\<close>

text \<open>The portable arm; the vector decoder of the other arm writes the same values.\<close>

definition array_from_bitset :: "word64 list \<Rightarrow> nat \<Rightarrow> container" where
  "array_from_bitset words n =
     array_sync_header (set_array_values (fill_payload n 0 (values_from_words words)) make_array)"

definition optimize_container_for_storage :: "bool \<Rightarrow> container \<Rightarrow> nat \<Rightarrow> container" where
  "optimize_container_for_storage eager h bitset_threshold =
    (if holds_run h then
       (if cardinality h = 0 then make_array
        else if eager then settle_run_result h bitset_threshold
        else if cardinality h \<ge> bitset_threshold then bitset_handle_from_runs (run_list h)
        else array_handle_from_container h)
     else if holds_array h then
       (let vs = array_values h
        in if vs = [] then make_array
           else let array_bytes = length vs * 2;
                    bitset_allowed = (length vs \<ge> bitset_threshold);
                    cap = run_count_cap (if bitset_allowed then max array_bytes bitset_bytes else array_bytes);
                    run_count = (if eager then run_count_from_sorted_values vs cap else cap);
                    run_bytes = run_serialized_bytes run_count
                in if bitset_allowed \<and> bitset_bytes \<le> run_bytes then bitset_handle_from_sorted_values vs make_array
                   else if run_bytes < array_bytes then run_handle_from_counted_values vs run_count
                   else h)
     else
       (let n = cardinality h
        in if n = 0 then make_array
           else let words = bitset_words h;
                    array_bytes = n * 2;
                    holds_as_bitset = (n \<ge> bitset_threshold \<and> bitset_bytes \<le> array_bytes);
                    cap = run_count_cap (if holds_as_bitset then bitset_bytes else array_bytes);
                    run_count = (if eager then run_count_from_bitset_words words cap else cap);
                    run_bytes = run_serialized_bytes run_count
                in if holds_as_bitset \<and> bitset_bytes \<le> run_bytes then h
                   else if run_bytes < array_bytes then run_handle_from_counted_words words run_count n
                   else array_from_bitset words n))"

definition optimize_bitset_run_only :: "container \<Rightarrow> container" where
  "optimize_bitset_run_only h =
    (let n = cardinality h; words = bitset_words h;
         array_bytes = n * 2; kept_bytes = min bitset_bytes array_bytes;
         run_count = run_count_from_bitset_words words (run_count_cap kept_bytes);
         run_bytes = run_serialized_bytes run_count
     in if kept_bytes \<le> run_bytes then h else run_handle_from_counted_words words run_count n)"

definition optimize_container_keep_bitsets :: "bool \<Rightarrow> container \<Rightarrow> nat \<Rightarrow> container" where
  "optimize_container_keep_bitsets eager h bitset_threshold =
    (if holds_bitset h then h else optimize_container_for_storage eager h bitset_threshold)"

subsection \<open>A capped count decides as the true one\<close>

text \<open>The lazy policy counts nothing and takes the cap itself, which never wins.\<close>

lemma capped_decision:
  assumes "b \<le> bytes"
  shows "b \<le> run_serialized_bytes (if eager then min (run_count_cap bytes) r else run_count_cap bytes) \<longleftrightarrow>
      (eager \<longrightarrow> b \<le> run_serialized_bytes r)"
    "run_serialized_bytes (if eager then min (run_count_cap bytes) r else run_count_cap bytes) < b \<longleftrightarrow>
      eager \<and> run_serialized_bytes r < b"
    "run_serialized_bytes r < b \<Longrightarrow> min (run_count_cap bytes) r = r"
proof -
  have "bytes < (bytes div 4 + 1) * 4" by simp
  then have cap: "b < (bytes div 4 + 1) * 4" using assms by linarith
  then show "b \<le> run_serialized_bytes (if eager then min (run_count_cap bytes) r else run_count_cap bytes) \<longleftrightarrow>
      (eager \<longrightarrow> b \<le> run_serialized_bytes r)"
    "run_serialized_bytes (if eager then min (run_count_cap bytes) r else run_count_cap bytes) < b \<longleftrightarrow>
      eager \<and> run_serialized_bytes r < b"
    unfolding run_serialized_bytes_def run_count_cap_def min_def by auto
  show "min (run_count_cap bytes) r = r" if "run_serialized_bytes r < b"
    using cap that unfolding run_serialized_bytes_def run_count_cap_def by (simp add: min_def)
qed

lemma array_from_bitset_correct:
  assumes "length ws = 1024" "n = card (bits_set ws)"
  shows "holds_set (bits_set ws) (array_from_bitset ws n)"
    "payload (array_from_bitset ws n) = Array_payload (values_from_words ws)"
proof -
  note vs = strict_values_from_words [OF assms(1)] array_set_values_from_words [OF assms(1)]
  have "length (values_from_words ws) = n" using card_array_set [OF vs(1)] vs(2) assms(2) by simp
  then show "holds_set (bits_set ws) (array_from_bitset ws n)"
    "payload (array_from_bitset ws n) = Array_payload (values_from_words ws)"
    using holds_filled_array [OF vs(1)] vs(2) by (simp_all add: array_from_bitset_def)
qed

lemma bitset_blockE:
  assumes "wf_container h" "holds_bitset h"
  obtains ws where "payload h = Bitset_payload ws" "length ws = 1024" "bitset_words h = ws" "values_of h = bits_set ws"
  using assms wf_bitset_words [OF assms] by (auto simp: holds_payload)

subsection \<open>The serialized size\<close>

definition serialized_bytes :: "container \<Rightarrow> nat" where
  "serialized_bytes h =
    (case kind h of
       Array_kind \<Rightarrow> card (values_of h) * 2
     | Run_kind \<Rightarrow> run_serialized_bytes (card (run_starts (values_of h)))
     | Bitset_kind \<Rightarrow> bitset_bytes)"

text \<open>The least size of a set, in the forms the threshold allows.\<close>

definition least_bytes :: "nat \<Rightarrow> nat set \<Rightarrow> nat" where
  "least_bytes bitset_threshold S =
    (let b = min (card S * 2) (run_serialized_bytes (card (run_starts S)))
     in if card S \<ge> bitset_threshold then min bitset_bytes b else b)"

lemma serialized_bytes_simps:
  "payload h = Array_payload vs \<Longrightarrow> serialized_bytes h = card (values_of h) * 2"
  "payload h = Run_payload rs \<Longrightarrow> serialized_bytes h = run_serialized_bytes (card (run_starts (values_of h)))"
  "payload h = Bitset_payload ws \<Longrightarrow> serialized_bytes h = bitset_bytes"
  by (simp_all add: serialized_bytes_def kind_def)

lemma serialized_kinds:
  assumes "holds_set S h"
  shows "holds_array h \<Longrightarrow> serialized_bytes h = card S * 2"
    "holds_run h \<Longrightarrow> serialized_bytes h = run_serialized_bytes (card (run_starts S))"
    "holds_bitset h \<Longrightarrow> serialized_bytes h = bitset_bytes"
  using holds_setD(2) [OF assms] by (simp_all add: serialized_bytes_def kind_of)

lemma card_bits_set_pos: "bits_set ws \<noteq> {} \<Longrightarrow> card (bits_set ws) \<noteq> 0"
  by (simp add: card_eq_0_iff)

lemma bitset_handle_from_runs_kind:
  assumes "wf_runs rs" "rs \<noteq> []"
  shows "holds_bitset (bitset_handle_from_runs rs)"
proof -
  have "bits_set (words_of_runs rs) \<noteq> {}" using assms by (simp add: bits_set_words_of_runs runs_set_empty_iff)
  then show ?thesis
    using wf_uninitialized_counted(2) [OF bits_set_words_of_runs(1) [OF assms(1)]] card_bits_set_pos
    by (simp add: bitset_handle_from_runs_def make_bitset_container_from_words_def Let_def fold_popcount)
qed

lemma empty_container: "holds_set {} h \<Longrightarrow> S = {} \<Longrightarrow> holds_set S h"
  by simp

lemma settle_run_result_least:
  assumes "wf_container h" "holds_run h" "values_of h \<noteq> {}" "4096 \<le> threshold"
  shows "serialized_bytes (settle_run_result h threshold) = least_bytes threshold (values_of h)"
proof -
  obtain rs where rs: "run_list h = rs" "wf_runs rs" "values_of h = runs_set rs" "\<not> cardinality_stale h"
    using assms(1,2) by (rule wf_runE)
  have n: "cardinality h = card (values_of h)" using exact_cardinality [OF assms(1) rs(4)] .
  have r: "length rs = card (run_starts (values_of h))" using card_run_starts_runs_set [OF rs(2)] rs(3) by simp
  have ne: "rs \<noteq> []" using assms(3) rs(3) by auto
  note arr = array_handle_from_container_correct [OF assms(1) rs(4)]
  have sz: "serialized_bytes (array_handle_from_container h) = card (values_of h) * 2"
    "serialized_bytes (bitset_handle_from_runs rs) = bitset_bytes"
    "serialized_bytes h = run_serialized_bytes (length rs)"
    using serialized_kinds(1) [OF arr(1)] arr(2) serialized_kinds(3) [OF bitset_handle_from_runs_correct [OF rs(2)]]
      bitset_handle_from_runs_kind [OF rs(2) ne] serialized_kinds(2) [OF holds_setI [OF assms(1) refl] assms(2)] r
    by simp_all
  show ?thesis
    using assms(4)
    by (auto simp: settle_run_result_def Let_def rs(1) choose_run_container_kind_def is_bitset_cardinality_def sz n r
        least_bytes_def run_serialized_bytes_def bitset_bytes_def)
qed

subsection \<open>Compaction keeps the set\<close>

lemma array_values_nonempty:
  assumes "wf_container h" "holds_array h"
  shows "array_values h = [] \<longleftrightarrow> values_of h = {}"
  using wf_arrayE [OF assms] by (metis array_set_empty_iff)

text \<open>The three arms, each with what its run count decides.\<close>

lemma optimize_run:
  assumes "wf_container h" "holds_run h"
  shows "optimize_container_for_storage eager h threshold =
    (if values_of h = {} then make_array
     else if eager then settle_run_result h threshold
     else if card (values_of h) \<ge> threshold then bitset_handle_from_runs (run_list h)
     else array_handle_from_container h)"
proof -
  obtain rs where "\<not> cardinality_stale h" using assms by (rule wf_runE)
  with assms exact_cardinality [OF assms(1)] show ?thesis by (simp add: optimize_container_for_storage_def card_eq_0_iff)
qed

lemma optimize_array:
  assumes "wf_container h" "holds_array h"
  defines "n \<equiv> card (values_of h)" and "r \<equiv> card (run_starts (values_of h))"
  shows "optimize_container_for_storage eager h threshold =
    (if values_of h = {} then make_array
     else if n \<ge> threshold \<and> (eager \<longrightarrow> bitset_bytes \<le> run_serialized_bytes r)
     then bitset_handle_from_sorted_values (array_values h) make_array
     else if eager \<and> run_serialized_bytes r < n * 2 then run_handle_from_counted_values (array_values h) r
     else h)"
proof -
  obtain vs where vs: "strict vs" "array_values h = vs" "values_of h = array_set vs" using assms(1,2) by (rule wf_arrayE)
  have n: "length vs = n" using card_array_set [OF vs(1)] vs(3) by (simp add: n_def)
  have nr: "\<not> holds_run h" using assms(2) by (auto simp: holds_payload)
  have count: "run_count_from_sorted_values vs cap = min cap r" for cap
    using run_count_from_sorted_values_eq [OF vs(1)] vs(3) by (simp add: r_def)
  define bytes where "bytes = (if n \<ge> threshold then max (n * 2) bitset_bytes else n * 2)"
  have b: "n \<ge> threshold \<Longrightarrow> bitset_bytes \<le> bytes" "n * 2 \<le> bytes" by (simp_all add: bytes_def)
  show ?thesis
    unfolding optimize_container_for_storage_def vs(2,3) Let_def n count bytes_def [symmetric]
    using nr assms(2) b capped_decision(3) [of "n * 2" bytes r]
    by (auto simp: capped_decision)
qed

lemma optimize_bitset:
  assumes "wf_container h" "holds_bitset h" "\<not> cardinality_stale h"
  defines "n \<equiv> card (values_of h)" and "r \<equiv> card (run_starts (values_of h))"
  shows "optimize_container_for_storage eager h threshold =
    (if values_of h = {} then make_array
     else if n \<ge> threshold \<and> bitset_bytes \<le> n * 2 \<and> (eager \<longrightarrow> bitset_bytes \<le> run_serialized_bytes r) then h
     else if eager \<and> run_serialized_bytes r < n * 2 then run_handle_from_counted_words (bitset_words h) r n
     else array_from_bitset (bitset_words h) n)"
proof -
  obtain ws where ws: "payload h = Bitset_payload ws" "bitset_words h = ws" "values_of h = bits_set ws"
    using assms(1,2) by (rule bitset_blockE)
  have n: "cardinality h = n" using exact_cardinality [OF assms(1,3)] by (simp add: n_def)
  have n0: "n = 0 \<longleftrightarrow> values_of h = {}" by (simp add: n_def card_eq_0_iff)
  have forms: "\<not> holds_run h" "\<not> holds_array h" using ws(1) by simp_all
  have count: "run_count_from_bitset_words ws cap = min cap r" for cap
    using run_count_from_bitset_words_eq [of ws cap] ws(3) by (simp add: r_def)
  show ?thesis
  proof (cases "n \<ge> threshold \<and> bitset_bytes \<le> n * 2")
    case True
    then have yes: "(n \<ge> threshold \<and> bitset_bytes \<le> n * 2) = True" by simp
    have "\<not> bitset_bytes \<le> run_serialized_bytes r \<Longrightarrow> run_serialized_bytes r < n * 2" using True by linarith
    then show ?thesis
      unfolding optimize_container_for_storage_def ws(2) Let_def n count yes n0
      using forms True capped_decision(3) [of bitset_bytes bitset_bytes r]
      by (auto simp: capped_decision)
  next
    case False
    then have no: "(n \<ge> threshold \<and> bitset_bytes \<le> n * 2) = False" by simp
    show ?thesis
      unfolding optimize_container_for_storage_def ws(2) Let_def n count no n0
      using forms False capped_decision(3) [of "n * 2" "n * 2" r]
      by (auto simp: capped_decision)
  qed
qed

lemma forms_distinct: "holds_array h \<Longrightarrow> \<not> holds_run h \<and> \<not> holds_bitset h" "holds_run h \<Longrightarrow> \<not> holds_bitset h"
  by (auto simp: holds_payload)

theorem optimize_container_for_storage_correct:
  assumes "wf_container h" "\<not> cardinality_stale h"
  shows "holds_set (values_of h) (optimize_container_for_storage eager h threshold)"
proof (cases h rule: form_cases)
  case run
  obtain rs where rs: "run_list h = rs" "wf_runs rs" "values_of h = runs_set rs" using assms(1) run(1) by (rule wf_runE)
  show ?thesis
    using settle_run_result_correct [OF assms(1) run(1)] bitset_handle_from_runs_correct [OF rs(2)]
      array_handle_from_container_correct(1) [OF assms]
    by (simp add: optimize_run [OF assms(1) run(1)] holds_make_array rs)
next
  case array
  obtain vs where vs: "strict vs" "array_values h = vs" "values_of h = array_set vs" using assms(1) array(1) by (rule wf_arrayE)
  show ?thesis
    using bitset_handle_from_sorted_values_correct(1) [OF vs(1)] run_handle_from_counted_values_correct(1) [OF vs(1)]
      holds_setI [OF assms(1) refl]
    by (simp add: optimize_array [OF assms(1) array(1)] holds_make_array vs)
next
  case bitset
  obtain ws where ws: "length ws = 1024" "bitset_words h = ws" "values_of h = bits_set ws"
    using assms(1) bitset(1) by (rule bitset_blockE)
  show ?thesis
    using run_handle_from_counted_words_correct(1) [OF ws(1)] array_from_bitset_correct(1) [OF ws(1)]
      holds_setI [OF assms(1) refl]
    by (simp add: optimize_bitset [OF assms(1) bitset(1) assms(2)] holds_make_array ws)
qed

text \<open>From the byte-parity threshold on, the eager result is as small as the set allows, whatever the form it came
  in.\<close>

theorem optimize_container_for_storage_least:
  assumes "wf_container h" "\<not> cardinality_stale h" "values_of h \<noteq> {}" "4096 \<le> threshold"
  shows "serialized_bytes (optimize_container_for_storage True h threshold) = least_bytes threshold (values_of h)"
proof (cases h rule: form_cases)
  case run
  then show ?thesis using settle_run_result_least [OF assms(1) run(1) assms(3,4)] assms(3)
    by (simp add: optimize_run [OF assms(1)])
next
  case array
  obtain vs where vs: "strict vs" "array_values h = vs" "values_of h = array_set vs" using assms(1) array(1) by (rule wf_arrayE)
  have "vs \<noteq> []" using assms(3) vs(3) by auto
  note run = run_handle_from_counted_values_correct [OF vs(1) this refl]
  note bitset = bitset_handle_from_sorted_values_correct [OF vs(1), of make_array]
  show ?thesis
    using assms(4) serialized_kinds(2) [OF run(1,2)] serialized_kinds(3) [OF bitset(1)] bitset(2)
      serialized_kinds(1) [OF holds_setI [OF assms(1) refl] array(1)] \<open>vs \<noteq> []\<close>
    by (auto simp: optimize_array [OF assms(1) array(1)] vs least_bytes_def Let_def bitset_bytes_def)
next
  case bitset
  obtain ws where ws: "length ws = 1024" "bitset_words h = ws" "values_of h = bits_set ws"
    using assms(1) bitset(1) by (rule bitset_blockE)
  note run = run_handle_from_counted_words_correct [OF ws(1) assms(3) [unfolded ws(3)] refl refl]
  note array = array_from_bitset_correct [OF ws(1) refl]
  show ?thesis
    using assms(3,4) serialized_kinds(2) [OF run(1,2)] serialized_kinds(1) [OF array(1)] array(2)
      serialized_kinds(3) [OF holds_setI [OF assms(1) refl] bitset(1)]
    by (auto simp: optimize_bitset [OF assms(1) bitset(1) assms(2)] ws least_bytes_def Let_def bitset_bytes_def)
qed

lemma optimize_bitset_run_only_correct:
  assumes "wf_container h" "holds_bitset h" "\<not> cardinality_stale h"
  shows "holds_set (values_of h) (optimize_bitset_run_only h)" "\<not> holds_array (optimize_bitset_run_only h)"
proof -
  let ?r = "card (run_starts (values_of h))" and ?n = "card (values_of h)"
  let ?kept = "min bitset_bytes (?n * 2)"
  obtain ws where ws: "length ws = 1024" "bitset_words h = ws" "values_of h = bits_set ws"
    using assms(1,2) by (rule bitset_blockE)
  have "optimize_bitset_run_only h =
    (if ?kept \<le> run_serialized_bytes ?r then h else run_handle_from_counted_words ws ?r ?n)"
    using run_count_from_bitset_words_eq [of ws] capped_decision(3) [of ?kept ?kept ?r, unfolded not_le [symmetric]]
      capped_decision(1) [of ?kept ?kept True ?r]
    by (simp add: optimize_bitset_run_only_def Let_def exact_cardinality [OF assms(1,3)] ws(2) flip: ws(3))
  moreover have "?n \<noteq> 0" if "\<not> ?kept \<le> run_serialized_bytes ?r" using that by auto
  ultimately have "holds_set (values_of h) (optimize_bitset_run_only h) \<and> \<not> holds_array (optimize_bitset_run_only h)"
    using run_handle_from_counted_words_correct [OF ws(1) _ refl refl] holds_setI [OF assms(1) refl] forms_distinct assms(2) ws(3)
    by (auto simp: card_eq_0_iff)
  then show "holds_set (values_of h) (optimize_bitset_run_only h)" "\<not> holds_array (optimize_bitset_run_only h)" by blast+
qed

lemma optimize_container_keep_bitsets_correct:
  assumes "wf_container h" "\<not> cardinality_stale h"
  shows "holds_set (values_of h) (optimize_container_keep_bitsets eager h threshold)"
  using optimize_container_for_storage_correct [OF assms] holds_setI [OF assms(1) refl]
  by (simp add: optimize_container_keep_bitsets_def)

subsection \<open>The fullness test\<close>

lemma full_iff_card: "S \<subseteq> {..<65536} \<Longrightarrow> S = {..<65536} \<longleftrightarrow> card S = 65536" for S :: "nat set"
  using card_subset_eq [of "{..<65536}" S] by auto

lemma wf_runs_full:
  assumes "wf_runs rs" "runs_set rs = {..<65536}"
  shows "length rs = 1 \<and> rbegin (hd rs) = 0 \<and> rend (hd rs) = - 1"
proof -
  have "run_starts {..<65536} = {0}" by (auto simp: run_starts_def)
  then have len: "length rs = 1" using card_run_starts_runs_set [OF assms(1)] assms(2) by simp
  then obtain r where r: "rs = [r]" by (auto simp: length_Suc_conv)
  then have "{unat (rbegin r)..unat (rend r)} = {..<65536}" using assms(2) by (simp add: run_set_def)
  moreover have "{..<65536} = {0..65535::nat}" by auto
  ultimately have "unat (rbegin r) = 0" "unat (rend r) = 65535" by (simp_all add: atLeastatMost_subset_iff)
  then show ?thesis using len r unat_max_low by (simp add: low_eq_iff)
qed

lemma container_is_known_full_correct:
  assumes "wf_container h"
  shows "container_is_known_full h \<Longrightarrow> values_of h = {..<65536}"
    and "\<not> cardinality_stale h \<Longrightarrow> values_of h = {..<65536} \<Longrightarrow> container_is_known_full h"
proof -
  have sub: "values_of h \<subseteq> {..<65536}" using values_of_bound [OF assms] by blast
  have le: "card (values_of h) \<le> 65536" using card_mono [OF _ sub] by simp
  have "cardinality h \<le> card (values_of h)" using assms by (auto simp: wf_container_def cardinality_ok_def split: if_splits)
  then show "values_of h = {..<65536}" if "container_is_known_full h"
    using that le full_iff_card [OF sub] by (simp add: container_is_known_full_def split: if_splits)
  show "container_is_known_full h" if "\<not> cardinality_stale h" "values_of h = {..<65536}"
  proof (cases h rule: form_cases)
    case run
    obtain rs where "run_list h = rs" "wf_runs rs" "values_of h = runs_set rs" using assms run(1) by (rule wf_runE)
    moreover have "cardinality h = 65536" using exact_cardinality [OF assms that(1)] that(2) by simp
    ultimately show ?thesis using wf_runs_full [of rs] that(2) run(1) by (simp add: container_is_known_full_def)
  qed (use exact_cardinality [OF assms that(1)] that(2) forms_distinct in \<open>auto simp: container_is_known_full_def\<close>)
qed

text \<open>A stale count is at most the true one, so a stale full bitset is known to be full only when its count already says so.\<close>

lemma container_is_known_full_iff:
  assumes "wf_container h"
  shows "container_is_known_full h \<longleftrightarrow> values_of h = {..<65536} \<and> (cardinality_stale h \<longrightarrow> cardinality h = 65536)"
proof (cases "cardinality_stale h")
  case False
  then show ?thesis using container_is_known_full_correct [OF assms] by blast
next
  case True
  then have "holds_bitset h" using assms by (cases h rule: form_cases) (auto elim: wf_arrayE wf_runE)
  then show ?thesis using True container_is_known_full_correct(1) [OF assms] forms_distinct [of h]
    by (auto simp: container_is_known_full_def)
qed

subsection \<open>The capped run builder\<close>

lemma from_sorted_loop_append: "from_sorted_loop vs out cb ce = out @ from_sorted_loop vs [] cb ce"
proof (induction vs arbitrary: out cb ce)
  case (Cons v vs)
  show ?case
  proof (cases "v = ce \<or> (ce \<noteq> - 1 \<and> v = ce + 1)")
    case True
    then show ?thesis using Cons.IH [of out cb v] by simp
  next
    case False
    then show ?thesis using Cons.IH [of "out @ [mk_run cb ce]" v v] Cons.IH [of "[mk_run cb ce]" v v] by auto
  qed
qed simp

lemma push_runs_capped_eq:
  "push_runs_capped vs limit cb ce c =
    (let rs = from_sorted_loop vs [] cb ce
     in if limit \<le> (length (runs c) + length rs) * 4 then None
        else Some \<lparr>runs = runs c @ rs, rc_cardinality = rc_cardinality c + sum_list (map run_len rs)\<rparr>)"
proof (induction vs arbitrary: cb ce c)
  case Nil
  show ?case by (simp add: push_runs_capped.simps [of "[]"] Let_def run_len_def)
next
  case (Cons v vs)
  show ?case
  proof (cases "v = ce \<or> (ce \<noteq> - 1 \<and> v = ce + 1)")
    case True
    then show ?thesis using Cons.IH [of cb v c] by (simp add: push_runs_capped.simps [of "v # vs"])
  next
    case False
    then show ?thesis
      using Cons.IH [of v v "\<lparr>runs = runs c @ [mk_run cb ce], rc_cardinality = rc_cardinality c + run_len (mk_run cb ce)\<rparr>"]
        from_sorted_loop_append [of vs "[mk_run cb ce]" v v]
      by (auto simp: push_runs_capped.simps [of "v # vs"] Let_def run_len_def)
  qed
qed

lemma try_make_run_from_sorted_values_capped_correct:
  assumes "sorted vs"
  shows "try_make_run_from_sorted_values_capped vs limit =
    (let rs = runs_from_sorted_values vs
     in if vs \<noteq> [] \<and> limit \<le> length rs * 4 then None else Some \<lparr>runs = rs, rc_cardinality = card (array_set vs)\<rparr>)"
proof -
  note rs = runs_from_sorted_values_correct [OF assms]
  have "card (array_set vs) = sum_list (map run_len (runs_from_sorted_values vs))"
    using card_runs_set [OF rs(1)] rs(2) by simp
  then show ?thesis
    by (cases vs) (simp_all add: try_make_run_from_sorted_values_capped_def push_runs_capped_eq Let_def runs_from_sorted_values_def)
qed

end
