(* ===== verification/Container_Ranges.thy ===== *)
theory Container_Ranges
  imports Container_Optimize
begin

text \<open>
  Adding, removing and flipping a closed range of one container (\<open>containers.hpp\<close>, last part). A flip has a kernel
  for each form, and each decides the form of its result.
\<close>

subsection \<open>The operations\<close>

text \<open>The gaps between the values of the range, from the first value not yet decided.\<close>

fun flip_gaps_loop :: "low list \<Rightarrow> nat \<Rightarrow> run list \<Rightarrow> nat \<times> run list" where
  "flip_gaps_loop [] next_v rs = (next_v, rs)"
| "flip_gaps_loop (v # vs) next_v rs =
    flip_gaps_loop vs (unat v + 1) (if unat v > next_v then append_run rs next_v (unat v - 1) else rs)"

text \<open>The values of the range that are not in the array, in order; the array's values of the range are \<open>vs\<close>.\<close>

function flip_values_loop :: "nat \<Rightarrow> nat \<Rightarrow> low list \<Rightarrow> low list" where
  "flip_values_loop v e vs =
    (if v \<le> e then
       (case vs of
          [] \<Rightarrow> to_low v # flip_values_loop (v + 1) e []
        | x # xs \<Rightarrow> if v \<noteq> unat x then to_low v # flip_values_loop (v + 1) e vs else flip_values_loop (v + 1) e xs)
     else [])"
  by pat_completeness auto
termination
  by (relation "measure (\<lambda>(v, e, vs). e + 1 - v)") auto

declare flip_values_loop.simps [simp del]

definition flip_array_runs :: "low list \<Rightarrow> low list \<Rightarrow> low list \<Rightarrow> low \<Rightarrow> low \<Rightarrow> run list" where
  "flip_array_runs before inside after b e =
    (let rs = fold (\<lambda>v rs. append_run rs (unat v) (unat v)) before [];
         (next_v, rs) = flip_gaps_loop inside (unat b) rs;
         rs = (if next_v \<le> unat e then append_run rs next_v (unat e) else rs)
     in fold (\<lambda>v rs. append_run rs (unat v) (unat v)) after rs)"

definition flip_array_range :: "container \<Rightarrow> low \<Rightarrow> low \<Rightarrow> nat \<Rightarrow> container" where
  "flip_array_range h b e bitset_threshold =
    (let vs = array_values h; n = length vs;
         first_i = lower_bound vs b;
         last_i = first_i + upper_bound (drop first_i vs) e;
         before = take first_i vs; inside = take (last_i - first_i) (drop first_i vs); after = drop last_i vs;
         in_range = last_i - first_i;
         span = unat e - unat b + 1;
         new_n = n - in_range + (span - in_range)
     in if span > n \<and> is_bitset_cardinality (span - n) bitset_threshold \<and> (n + 1) * 4 + 2 < bitset_bytes then
          run_sync_header (set_run_list (flip_array_runs before inside after b e) make_run)
        else if is_bitset_cardinality new_n bitset_threshold then
          (if b = 0 \<and> unat e = low_domain_size - 1 then
             mark_endpoints_stale (set_cardinality new_n
               (make_bitset_uninitialized (fold words_clear vs (replicate word_count (- 1)))))
           else
             let result = bitset_handle_from_sorted_values vs make_array
             in mark_endpoints_stale (set_cardinality new_n
                  (set_bitset_words (apply_range_to_words b e Range_flip (bitset_words result)) result)))
        else if new_n = 0 then make_array
        else array_sync_header (set_array_values
               (fill_payload new_n 0 (before @ flip_values_loop (unat b) (unat e) inside @ after)) make_array))"

definition flip_run_range :: "container \<Rightarrow> low \<Rightarrow> low \<Rightarrow> nat \<Rightarrow> container" where
  "flip_run_range h b e bitset_threshold =
    (let source = run_list h;
         before = takeWhile (\<lambda>r. rbegin r < b) source;
         rs = append_run_exclusive before (unat b) (unat e);
         rs = fold (\<lambda>r rs. append_run_exclusive rs (unat (rbegin r)) (unat (rend r))) (drop (length before) source) rs
     in if rs = [] then make_array
        else settle_run_result (run_sync_header (set_run_list rs make_run)) bitset_threshold)"

definition flip_bitset_range :: "container \<Rightarrow> low \<Rightarrow> low \<Rightarrow> nat \<Rightarrow> container" where
  "flip_bitset_range h b e bitset_threshold =
    (let words = apply_range_to_words b e Range_flip (bitset_words h);
         n = fold (\<lambda>word acc. acc + popcount word) words 0
     in if n = 0 then make_array
        else if \<not> is_bitset_cardinality n bitset_threshold then make_array_from_sorted (values_from_words words)
        else mark_endpoints_stale (set_cardinality n (set_bitset_words words h)))"

definition apply_range_to_container :: "bool \<Rightarrow> container \<Rightarrow> low \<Rightarrow> low \<Rightarrow> range_operation \<Rightarrow> nat \<Rightarrow> container" where
  "apply_range_to_container eager h b e op bitset_threshold =
    (if op = Range_remove \<and> cardinality h \<noteq> 0 \<and> kind h = Run_kind then
       (let rs = run_list h; first_i = partition_point (\<lambda>r. rend r < b) rs
        in if first_i = length rs \<or> rbegin (rs ! first_i) > e then h
           else let h = run_remove_closed_range b e h
                in if cardinality h = 0 then make_array else settle_run_result h bitset_threshold)
     else if op \<noteq> Range_flip then
       make_container_from_words eager (apply_range_to_words b e op (words_from_container h)) bitset_threshold
     else if cardinality h = 0 then
       (if unat e - unat b < 2 then make_array_from_sorted (take (if b = e then 1 else 2) [b, e])
        else run_sync_header (set_run_list [mk_run b e] make_run))
     else case kind h of
            Array_kind \<Rightarrow> flip_array_range h b e bitset_threshold
          | Run_kind \<Rightarrow> flip_run_range h b e bitset_threshold
          | Bitset_kind \<Rightarrow> flip_bitset_range h b e bitset_threshold)"

subsection \<open>Building runs from the left\<close>

definition runs_below :: "run list \<Rightarrow> nat \<Rightarrow> bool" where
  "runs_below rs k \<longleftrightarrow> wf_runs rs \<and> (rs \<noteq> [] \<longrightarrow> unat (rend (last rs)) < k)"

lemma runs_below_Nil [simp]: "runs_below [] k"
  by (simp add: runs_below_def)

lemma runs_below_mono: "runs_below rs k \<Longrightarrow> k \<le> m \<Longrightarrow> runs_below rs m"
  by (auto simp: runs_below_def)

lemma append_run_below:
  assumes "runs_below rs b" "b \<le> e" "e < 65536"
  shows "runs_below (append_run rs b e) (e + 1)" "runs_set (append_run rs b e) = runs_set rs \<union> {b..e}"
    "length (append_run rs b e) \<le> length rs + 1"
proof -
  have wf: "wf_runs rs" and last: "rs \<noteq> [] \<Longrightarrow> unat (rend (last rs)) < b" using assms(1) by (auto simp: runs_below_def)
  note a = append_run_correct [OF wf assms(2,3) last]
  show "runs_below (append_run rs b e) (e + 1)" using a by (simp add: runs_below_def)
  show "runs_set (append_run rs b e) = runs_set rs \<union> {b..e}" using a by simp
  show "length (append_run rs b e) \<le> length rs + 1" by (simp add: append_run_def)
qed

lemma append_values_below:
  assumes "strict vs" "\<And>v. v \<in> set vs \<Longrightarrow> k \<le> unat v" "runs_below rs k"
  shows "runs_below (fold (\<lambda>v rs. append_run rs (unat v) (unat v)) vs rs) (if vs = [] then k else unat (last vs) + 1) \<and>
    runs_set (fold (\<lambda>v rs. append_run rs (unat v) (unat v)) vs rs) = runs_set rs \<union> array_set vs \<and>
    length (fold (\<lambda>v rs. append_run rs (unat v) (unat v)) vs rs) \<le> length rs + length vs"
  using assms
proof (induction vs arbitrary: rs k)
  case (Cons v vs)
  have v: "runs_below rs (unat v)" using Cons.prems(2) [of v] runs_below_mono [OF Cons.prems(3)] by simp
  note a = append_run_below [OF v order_refl unat_low_less]
  have "unat v + 1 \<le> unat u" if "u \<in> set vs" for u using Cons.prems(1) that by (auto simp: word_less_nat_alt Suc_le_eq)
  from Cons.IH [OF _ this a(1)] Cons.prems(1) a(2,3) show ?case by (auto simp: Un_assoc)
qed simp

lemma flip_gaps_loop_correct:
  assumes "strict vs" "\<And>v. v \<in> set vs \<Longrightarrow> k \<le> unat v" "runs_below rs k" "flip_gaps_loop vs k rs = (k', rs')"
  shows "runs_below rs' k' \<and> runs_set rs' = runs_set rs \<union> ({k..<k'} - array_set vs) \<and> length rs' \<le> length rs + length vs \<and>
    k' = (if vs = [] then k else unat (last vs) + 1)"
  using assms
proof (induction vs arbitrary: rs k)
  case (Cons v vs)
  let ?rs = "if unat v > k then append_run rs k (unat v - 1) else rs"
  have v: "k \<le> unat v" using Cons.prems(2) by simp
  have "unat v - 1 < 65536" using unat_low_less [of v] by linarith
  then have "runs_below ?rs (unat v + 1) \<and> runs_set ?rs = runs_set rs \<union> {k..<unat v} \<and> length ?rs \<le> length rs + 1"
    using append_run_below [OF Cons.prems(3), of "unat v - 1"] v runs_below_mono [OF Cons.prems(3), of "unat v + 1"]
      runs_below_mono [of "append_run rs k (unat v - 1)" "unat v - 1 + 1" "unat v + 1"]
    by (auto simp: set_eq_iff)
  then have rs: "runs_below ?rs (unat v + 1)" "runs_set ?rs = runs_set rs \<union> {k..<unat v}" "length ?rs \<le> length rs + 1"
    by blast+
  have above: "unat v + 1 \<le> unat u" if "u \<in> set vs" for u using Cons.prems(1) that by (auto simp: word_less_nat_alt Suc_le_eq)
  have loop: "flip_gaps_loop vs (unat v + 1) ?rs = (k', rs')" using Cons.prems(4) by simp
  have ih: "runs_below rs' k'" "runs_set rs' = runs_set ?rs \<union> ({unat v + 1..<k'} - array_set vs)"
    "length rs' \<le> length ?rs + length vs" "k' = (if vs = [] then unat v + 1 else unat (last vs) + 1)"
    using Cons.IH [OF _ above rs(1) loop] Cons.prems(1) by auto
  have "unat v < k'" using ih(4) above last_in_set [of vs] by (fastforce split: if_splits)
  have "u \<notin> array_set vs" if "u \<le> unat v" for u using above that by (fastforce elim!: array_setE)
  then have "{k..<unat v} \<union> ({unat v + 1..<k'} - array_set vs) = {k..<k'} - array_set (v # vs)"
    using \<open>unat v < k'\<close> v by (auto simp: not_less)
  then show ?case using ih rs by (auto simp: Un_assoc)
qed simp

subsection \<open>The values a range splits\<close>

lemma range_split:
  assumes "strict vs" "b \<le> e"
  defines "i \<equiv> lower_bound vs b"
  defines "j \<equiv> i + upper_bound (drop i vs) e"
  defines "before \<equiv> take i vs" and "inside \<equiv> take (j - i) (drop i vs)" and "after \<equiv> drop j vs"
  shows "vs = before @ inside @ after" "strict before" "strict inside" "strict after"
    "v \<in> set before \<Longrightarrow> v < b" "v \<in> set inside \<Longrightarrow> b \<le> v \<and> v \<le> e" "v \<in> set after \<Longrightarrow> e < v"
    "j - i = length inside" "length vs - (j - i) = length before + length after"
    "array_set inside = array_set vs \<inter> {unat b..unat e}" "array_set before \<union> array_set after = array_set vs - {unat b..unat e}"
proof -
  have "i \<le> length vs" "upper_bound (drop i vs) e \<le> length vs - i"
    using upper_bound_le [of "drop i vs" e] by (simp_all add: i_def)
  then have j: "j \<le> length vs" "i \<le> length vs" unfolding j_def by linarith+
  have after_eq: "after = drop (j - i) (drop i vs)" by (simp add: after_def j_def add.commute)
  show split: "vs = before @ inside @ after" unfolding before_def inside_def after_eq by (simp only: append_take_drop_id)
  show st: "strict before" "strict inside" "strict after" using assms(1) by (simp_all add: before_def inside_def after_def)
  have b: "u < b" if "u \<in> set before" for u using that strict_take_lower_bound by (auto simp: before_def i_def)
  have m: "b \<le> u \<and> u \<le> e" if u: "u \<in> set inside" for u
  proof
    have "u \<in> set (drop i vs)" using u by (auto simp: inside_def dest: in_set_takeD)
    then show "b \<le> u" using strict_drop_lower_bound [OF assms(1)] by (simp add: i_def)
    show "u \<le> e" using u strict_take_upper_bound [of u "drop i vs" e] by (simp add: inside_def j_def)
  qed
  have a: "e < u" if u: "u \<in> set after" for u
    using strict_drop_upper_bound [of "drop i vs" u e] u assms(1) by (simp add: after_eq j_def)
  show "v \<in> set before \<Longrightarrow> v < b" "v \<in> set inside \<Longrightarrow> b \<le> v \<and> v \<le> e" "v \<in> set after \<Longrightarrow> e < v"
    using b m a by blast+
  show len: "j - i = length inside" using j by (simp add: inside_def)
  then show "length vs - (j - i) = length before + length after" using arg_cong [OF split, of length] by simp
  have "array_set vs = array_set before \<union> array_set inside \<union> array_set after" by (subst split) auto
  then show "array_set inside = array_set vs \<inter> {unat b..unat e}" "array_set before \<union> array_set after = array_set vs - {unat b..unat e}"
    using b m a assms(2) by (auto simp: array_set_def low_order) fastforce+
qed

lemma flip_effect: "range_effect Range_flip S R = (S - R) \<union> (R - S)"
  by (auto simp: range_effect_def)

lemma flip_array_runs_correct:
  assumes "strict before" "strict inside" "strict after" "b \<le> e"
    and "\<And>v. v \<in> set before \<Longrightarrow> v < b" "\<And>v. v \<in> set inside \<Longrightarrow> b \<le> v \<and> v \<le> e" "\<And>v. v \<in> set after \<Longrightarrow> e < v"
  shows "wf_runs (flip_array_runs before inside after b e)"
    "runs_set (flip_array_runs before inside after b e) = array_set before \<union> ({unat b..unat e} - array_set inside) \<union> array_set after"
    "length (flip_array_runs before inside after b e) \<le> length before + length inside + 1 + length after"
proof -
  let ?add = "fold (\<lambda>v rs. append_run rs (unat v) (unat v))"
  obtain k rs where gaps: "flip_gaps_loop inside (unat b) (?add before []) = (k, rs)" by fastforce
  have be: "unat b \<le> unat e" using assms(4) by (simp add: word_le_nat_alt)
  have below: "(if before = [] then 0 else unat (last before) + 1) \<le> unat b"
    using assms(5) [of "last before"] by (auto simp: word_less_nat_alt)
  have 1: "runs_below (?add before []) (unat b)" "runs_set (?add before []) = array_set before"
    "length (?add before []) \<le> length before"
    using append_values_below [OF assms(1), of 0 "[]"] below runs_below_mono by auto
  have inside: "unat b \<le> unat v" "unat v \<le> unat e" if "v \<in> set inside" for v using assms(6) [OF that] by (simp_all add: word_le_nat_alt)
  have 2: "runs_below rs k" "runs_set rs = array_set before \<union> ({unat b..<k} - array_set inside)"
    "length rs \<le> length before + length inside" "k = (if inside = [] then unat b else unat (last inside) + 1)"
    using flip_gaps_loop_correct [OF assms(2) inside(1) 1(1) gaps] 1(2,3) by auto
  have k: "k \<le> unat e + 1" using 2(4) be inside(2) [of "last inside"] by auto
  have last: "u \<notin> array_set inside" if "k \<le> u" for u
    using 2(4) that strict_le_last [OF assms(2)] by (fastforce elim!: array_setE simp: word_le_nat_alt split: if_splits)
  let ?rs = "if k \<le> unat e then append_run rs k (unat e) else rs"
  have mid: "{unat b..<k} - array_set inside \<union> (if k \<le> unat e then {k..unat e} else {}) = {unat b..unat e} - array_set inside"
    using k last 2(4) inside(1) [of "last inside"] be by (auto simp: not_le split: if_splits)
  have 3: "runs_below ?rs (unat e + 1)" "length ?rs \<le> length before + length inside + 1"
    "runs_set ?rs = runs_set rs \<union> (if k \<le> unat e then {k..unat e} else {})"
    using append_run_below [OF 2(1), of "unat e"] 2(3) runs_below_mono [OF 2(1) k] by auto
  have set3: "runs_set ?rs = array_set before \<union> ({unat b..unat e} - array_set inside)"
    unfolding 3(3) 2(2) Un_assoc mid ..
  have after: "unat e + 1 \<le> unat v" if "v \<in> set after" for v using assms(7) [OF that] by (simp add: word_less_nat_alt Suc_le_eq)
  have eq: "flip_array_runs before inside after b e = ?add after ?rs"
    by (simp add: flip_array_runs_def gaps Let_def)
  show "wf_runs (flip_array_runs before inside after b e)"
    "runs_set (flip_array_runs before inside after b e) = array_set before \<union> ({unat b..unat e} - array_set inside) \<union> array_set after"
    "length (flip_array_runs before inside after b e) \<le> length before + length inside + 1 + length after"
    using append_values_below [OF assms(3) after 3(1)] 3(2) unfolding eq set3 by (auto simp: runs_below_def)
qed

lemma flip_values_loop_eq:
  assumes "strict vs" "\<And>x. x \<in> set vs \<Longrightarrow> v \<le> unat x \<and> unat x \<le> e" "e < 65536"
  shows "flip_values_loop v e vs = map to_low (filter (\<lambda>x. x \<notin> array_set vs) [v..<e + 1])"
  using assms
proof (induction v e vs rule: flip_values_loop.induct)
  case (1 v e vs)
  show ?case
  proof (cases "v \<le> e")
    case False
    then show ?thesis by (simp add: flip_values_loop.simps [of v])
  next
    case True
    then have upt: "[v..<e + 1] = v # [v + 1..<e + 1]" by (simp add: upt_rec)
    show ?thesis
    proof (cases vs)
      case Nil
      then show ?thesis using "1.IH"(1) [OF True Nil] "1.prems" True upt
        by (simp add: flip_values_loop.simps [of v] del: upt_Suc)
    next
      case (Cons x xs)
      show ?thesis
      proof (cases "v = unat x")
        case True
        have above: "v + 1 \<le> unat u \<and> unat u \<le> e" if "u \<in> set xs" for u
          using that "1.prems"(1,2) True by (auto simp: Cons word_less_nat_alt Suc_le_eq)
        have "filter (\<lambda>u. u \<notin> array_set vs) [v + 1..<e + 1] = filter (\<lambda>u. u \<notin> array_set xs) [v + 1..<e + 1]"
          by (rule filter_cong) (auto simp: Cons True)
        then show ?thesis
          using "1.IH"(3) [OF \<open>v \<le> e\<close> Cons] True above "1.prems" \<open>v \<le> e\<close> upt
          by (simp add: flip_values_loop.simps [of "unat x"] Cons del: upt_Suc)
      next
        case False
        have above: "v + 1 \<le> unat u \<and> unat u \<le> e" if "u \<in> set vs" for u
          using that "1.prems"(1) "1.prems"(2) [of u] "1.prems"(2) [of x] False by (auto simp: Cons word_less_nat_alt)
        then have "v \<notin> array_set vs" by (fastforce elim!: array_setE)
        then show ?thesis
          using "1.IH"(2) [OF \<open>v \<le> e\<close> Cons False] above "1.prems" \<open>v \<le> e\<close> upt False
          by (simp add: flip_values_loop.simps [of v] Cons del: upt_Suc)
      qed
    qed
  qed
qed

subsection \<open>A flip of each form\<close>

lemma card_flip:
  assumes "finite S" "b \<le> e"
  shows "card ((S - {b..e}) \<union> ({b..e} - S)) = card S - card (S \<inter> {b..e}) + (e - b + 1 - card (S \<inter> {b..e}))"
proof -
  have "card ((S - {b..e}) \<union> ({b..e} - S)) = card (S - {b..e}) + card ({b..e} - S)"
    using assms(1) by (intro card_Un_disjoint) auto
  also have "card (S - {b..e}) = card S - card (S \<inter> {b..e})" using card_Diff_subset_Int [of S "{b..e}"] assms(1) by simp
  also have "card ({b..e} - S) = e - b + 1 - card (S \<inter> {b..e})"
    using card_Diff_subset_Int [of "{b..e}" S] assms by (simp add: Int_commute Suc_diff_le)
  finally show ?thesis .
qed

lemma wf_flipped_bitset:
  assumes "payload h = Bitset_payload ws" "length ws = 1024" "n = card (bits_set ws)"
  shows "holds_set (bits_set ws) (mark_endpoints_stale (set_cardinality n h))"
proof -
  have p: "payload (mark_endpoints_stale (set_cardinality n h)) = Bitset_payload ws" using assms(1) by simp
  have "wf_container (mark_endpoints_stale (set_cardinality n h))"
    unfolding wf_container_bitset [OF p] using assms(2,3) by (simp add: mark_endpoints_stale_def set_cardinality_def)
  with p show ?thesis by (intro holds_setI) simp_all
qed

lemma holds_built_runs: "wf_runs rs \<Longrightarrow> holds_set (runs_set rs) (run_sync_header (set_run_list rs make_run))"
  by (intro holds_setI wf_set_run_list) (simp_all add: make_run_def)

lemma bits_set_ones: "bits_set (replicate 1024 (- 1)) = {..<65536}"
  by (auto simp: mem_bits_set bit_minus_1_iff div_less_iff_less_mult)

lemma strict_around:
  fixes b e :: low
  assumes "strict before" "strict inside" "strict after"
    and "\<And>v. v \<in> set before \<Longrightarrow> v < b" "\<And>v. v \<in> set inside \<Longrightarrow> b \<le> v \<and> v \<le> e" "\<And>v. v \<in> set after \<Longrightarrow> e < v" "b \<le> e"
  shows "strict (before @ inside @ after)"
proof -
  have "v < u" if "v \<in> set before" "u \<in> set inside" for v u using assms(4) [OF that(1)] assms(5) [OF that(2)] by (blast intro: order_less_le_trans)
  moreover have "v < u" if "v \<in> set inside" "u \<in> set after" for v u using assms(6) [OF that(2)] assms(5) [OF that(1)] by (blast intro: order_le_less_trans)
  moreover have "v < u" if "v \<in> set before" "u \<in> set after" for v u
    using assms(4) [OF that(1)] assms(6) [OF that(2)] assms(7) by (blast intro: order_less_le_trans order_less_trans)
  ultimately show ?thesis using assms(1-3) by (auto simp: sorted_wrt_append)
qed

lemma flip_array_range_correct:
  assumes "wf_container h" "holds_array h" "b \<le> e"
  shows "holds_set (range_effect Range_flip (values_of h) {unat b..unat e}) (flip_array_range h b e threshold)"
proof -
  obtain vs where vs: "strict vs" "array_values h = vs" "values_of h = array_set vs" using assms(1,2) by (rule wf_arrayE)
  define i where "i = lower_bound vs b"
  define j where "j = i + upper_bound (drop i vs) e"
  define before where "before = take i vs"
  define inside where "inside = take (j - i) (drop i vs)"
  define after where "after = drop j vs"
  note split = range_split [OF vs(1) assms(3), folded i_def, folded j_def, folded before_def inside_def after_def]
  let ?R = "{unat b..unat e}"
  let ?S = "range_effect Range_flip (array_set vs) ?R"
  define new_n where "new_n = length vs - (j - i) + ((unat e - unat b + 1) - (j - i))"
  have be: "unat b \<le> unat e" using assms(3) by (simp add: word_le_nat_alt)
  have S: "?S = array_set before \<union> (?R - array_set inside) \<union> array_set after"
    unfolding flip_effect using split(10,11) by blast
  have "card (array_set vs \<inter> ?R) = length inside" using split(3,10) card_array_set by metis
  then have new_n: "new_n = card ?S"
    using card_flip [OF _ be, of "array_set vs"] split(8) card_array_set [OF vs(1)] by (simp add: new_n_def flip_effect)
  have runs: "holds_set ?S (run_sync_header (set_run_list (flip_array_runs before inside after b e) make_run))"
    using flip_array_runs_correct [OF split(2-4) assms(3) split(5-7)] holds_built_runs unfolding S by metis
  have whole: "holds_set ?S (mark_endpoints_stale (set_cardinality new_n
      (make_bitset_uninitialized (fold words_clear vs (replicate word_count (- 1))))))"
    if "b = 0" "unat e = low_domain_size - 1"
  proof -
    let ?ws = "fold words_clear vs (replicate word_count (- 1))"
    have "bits_set ?ws = ?S"
      using that by (auto simp: bits_set_fold_words_clear bits_set_ones flip_effect dest: array_set_bound)
    moreover have "payload (make_bitset_uninitialized ?ws) = Bitset_payload ?ws" by (simp add: make_bitset_uninitialized_def)
    ultimately show ?thesis using wf_flipped_bitset [of "make_bitset_uninitialized ?ws" ?ws new_n] new_n by simp
  qed
  have part: "holds_set ?S (mark_endpoints_stale (set_cardinality new_n
      (set_bitset_words (apply_range_to_words b e Range_flip (bitset_words (bitset_handle_from_sorted_values vs make_array)))
        (bitset_handle_from_sorted_values vs make_array))))"
  proof -
    let ?ws = "fold words_set vs (replicate 1024 0)"
    have "bits_set (apply_range_to_words b e Range_flip ?ws) = ?S"
      using assms(3) by (simp add: bits_set_apply_range bits_set_fold_words_set)
    then show ?thesis
      using wf_flipped_bitset [of "set_bitset_words (apply_range_to_words b e Range_flip ?ws) (bitset_handle_from_sorted_values vs make_array)"
          "apply_range_to_words b e Range_flip ?ws" new_n]
        new_n bitset_handle_from_sorted_values_correct(2) [OF vs(1), of make_array] by simp
  qed
  have array: "holds_set ?S (array_sync_header (set_array_values
      (fill_payload new_n 0 (before @ flip_values_loop (unat b) (unat e) inside @ after)) make_array))"
  proof -
    have in_range: "unat b \<le> unat x \<and> unat x \<le> unat e" if "x \<in> set inside" for x
      using split(6) [OF that] by (simp add: word_le_nat_alt)
    let ?mid = "filter (\<lambda>x. x \<notin> array_set inside) [unat b..<unat e + 1]"
    have mid: "flip_values_loop (unat b) (unat e) inside = map to_low ?mid"
      by (rule flip_values_loop_eq [OF split(3) in_range unat_low_less])
    have "x < 65536" if "x \<le> unat e" for x using that unat_low_less [of e] by linarith
    then have bound: "\<forall>x\<in>set ?mid. x < 65536" by auto
    have mid_set: "array_set (map to_low ?mid) = ?R - array_set inside"
      using array_set_map_to_low [OF bound] by auto
    have mid_strict: "strict (map to_low ?mid)" unfolding strict_map_to_low [OF bound] by (rule strict_filter) (simp del: upt_Suc)
    have mid_mem: "b \<le> x \<and> x \<le> e" if "x \<in> set (map to_low ?mid)" for x
      using that mid_set mem_array_set [of x "map to_low ?mid"] by (auto simp: word_le_nat_alt simp del: mem_array_set)
    let ?out = "before @ map to_low ?mid @ after"
    have strict: "strict ?out"
      by (rule strict_around [OF split(2) mid_strict split(4) split(5) mid_mem split(7) assms(3)])
    have set: "array_set ?out = ?S" using mid_set by (simp add: S Un_assoc)
    have "length ?out = new_n" using card_array_set [OF strict] set new_n by simp
    then show ?thesis unfolding mid using holds_filled_array(1) [OF strict] set by simp
  qed
  have "new_n = 0 \<Longrightarrow> ?S = {}" using new_n by (simp add: card_eq_0_iff flip_effect)
  then show ?thesis
    unfolding flip_array_range_def Let_def vs(2,3) i_def [symmetric] j_def [symmetric] before_def [symmetric]
      inside_def [symmetric] after_def [symmetric] new_n_def [symmetric]
    using runs whole part array holds_make_array [of ?S] by presburger
qed

lemma append_run_exclusive_last:
  assumes "wf_runs rs" "b \<le> e" "e < 65536" "rs \<noteq> [] \<Longrightarrow> unat (rbegin (last rs)) \<le> b" "append_run_exclusive rs b e \<noteq> []"
  shows "unat (rbegin (last (append_run_exclusive rs b e))) \<le> e + 1"
    "unat (rbegin (last (append_run_exclusive rs b e))) \<le> (if rs = [] then b else max b (unat (rend (last rs)) + 1))"
proof -
  let ?r = "append_run_exclusive rs b e"
  have "unat (rbegin (last ?r)) \<le> e + 1 \<and>
    unat (rbegin (last ?r)) \<le> (if rs = [] then b else max b (unat (rend (last rs)) + 1))"
  proof (cases rs rule: rev_cases)
    case Nil
    then show ?thesis using assms(2,3) by (simp add: append_run_exclusive_def)
  next
    case (snoc ss s)
    have s: "unat (rbegin s) \<le> unat (rend s)" "unat (rbegin s) \<le> b" "unat (rend s) < 65536"
      using assms(1,4) by (simp_all add: snoc wf_runs_snoc run_ok_unat)
    have narrow: "e < unat (rend s) \<Longrightarrow> unat (to_low (e + 1)) = e + 1"
      "unat (rend s) < e \<Longrightarrow> unat (to_low (unat (rend s) + 1)) = unat (rend s) + 1" "unat (to_low b) = b"
      using assms(2,3) s(3) by (intro unat_to_low; linarith)+
    have ss: "ss \<noteq> [] \<Longrightarrow> unat (rbegin (last ss)) \<le> unat (rbegin s)"
      using assms(1) wf_runs_ok [of ss "last ss"] by (auto simp: snoc wf_runs_snoc run_gap_def)
    consider "b > unat (rend s) + 1" | "unat (rend s) + 1 = b"
      | "b \<le> unat (rend s)" "b = unat (rbegin s)" "e < unat (rend s)" | "b \<le> unat (rend s)" "b = unat (rbegin s)" "e > unat (rend s)"
      | "b \<le> unat (rend s)" "b = unat (rbegin s)" "e = unat (rend s)" | "b \<le> unat (rend s)" "b \<noteq> unat (rbegin s)" "e < unat (rend s)"
      | "b \<le> unat (rend s)" "b \<noteq> unat (rbegin s)" "e > unat (rend s)" | "b \<le> unat (rend s)" "b \<noteq> unat (rbegin s)" "e = unat (rend s)"
      by linarith
    then show ?thesis
      by cases (use assms(2,3,5) s narrow ss in \<open>auto simp: snoc append_run_exclusive_def Let_def\<close>)
  qed
  then show "unat (rbegin (last ?r)) \<le> e + 1"
    "unat (rbegin (last ?r)) \<le> (if rs = [] then b else max b (unat (rend (last rs)) + 1))" by blast+
qed

lemma append_run_exclusive_length: "length (append_run_exclusive rs b e) \<le> length rs + 1"
  by (cases rs rule: rev_cases) (simp_all add: append_run_exclusive_def Let_def)

lemma append_runs_exclusive_correct:
  assumes "wf_runs rs" "wf_runs ss" "rs \<noteq> [] \<Longrightarrow> ss \<noteq> [] \<Longrightarrow> unat (rbegin (last rs)) \<le> unat (rbegin (hd ss))"
  shows "wf_runs (fold (\<lambda>r rs. append_run_exclusive rs (unat (rbegin r)) (unat (rend r))) ss rs) \<and>
    runs_set (fold (\<lambda>r rs. append_run_exclusive rs (unat (rbegin r)) (unat (rend r))) ss rs) = sym_diff (runs_set rs) (runs_set ss) \<and>
    length (fold (\<lambda>r rs. append_run_exclusive rs (unat (rbegin r)) (unat (rend r))) ss rs) \<le> length rs + length ss"
  using assms
proof (induction ss arbitrary: rs)
  case (Cons s ss)
  let ?rs = "append_run_exclusive rs (unat (rbegin s)) (unat (rend s))"
  have ok: "unat (rbegin s) \<le> unat (rend s)" and ss: "wf_runs ss" using Cons.prems(2) by (simp_all add: wf_runs_Cons run_ok_unat)
  have before: "rs \<noteq> [] \<Longrightarrow> unat (rbegin (last rs)) \<le> unat (rbegin s)" using Cons.prems(3) by simp
  note a = append_run_exclusive_correct [OF Cons.prems(1) ok unat_low_less before]
  have "unat (rbegin (last ?rs)) \<le> unat (rbegin (hd ss))" if "?rs \<noteq> []" "ss \<noteq> []"
    using append_run_exclusive_last(1) [OF Cons.prems(1) ok unat_low_less before that(1)] Cons.prems(2) that(2)
    by (cases ss) (auto simp: wf_runs_Cons run_gap_def)
  note ih = Cons.IH [OF a(1) ss this]
  have "run_set s \<inter> runs_set ss = {}" using runs_set_Cons_gap [OF Cons.prems(2)] by (fastforce simp: run_set_def)
  then have "sym_diff (sym_diff (runs_set rs) (run_set s)) (runs_set ss) = sym_diff (runs_set rs) (run_set s \<union> runs_set ss)"
    by (auto simp: sym_diff_def)
  moreover have "runs_set ?rs = sym_diff (runs_set rs) (run_set s)" using a(2) by (simp add: run_set_def)
  ultimately show ?case
    using ih append_run_exclusive_length [of rs "unat (rbegin s)" "unat (rend s)"] by simp
qed (auto simp: sym_diff_def)

lemma takeWhile_begin_split:
  fixes b :: low and rs :: "run list"
  defines "before \<equiv> takeWhile (\<lambda>r. rbegin r < b) rs"
  shows "rs = before @ drop (length before) rs" "r \<in> set before \<Longrightarrow> rbegin r < b"
    "drop (length before) rs \<noteq> [] \<Longrightarrow> b \<le> rbegin (hd (drop (length before) rs))"
proof -
  show "rs = before @ drop (length before) rs"
    unfolding before_def by (metis dropWhile_eq_drop takeWhile_dropWhile_id)
  show "r \<in> set before \<Longrightarrow> rbegin r < b" unfolding before_def by (auto dest: set_takeWhileD)
  show "b \<le> rbegin (hd (drop (length before) rs))" if "drop (length before) rs \<noteq> []"
    using that hd_dropWhile [of "\<lambda>r. rbegin r < b" rs] by (simp add: before_def dropWhile_eq_drop [symmetric] not_less)
qed

lemma flip_run_range_correct:
  assumes "wf_container h" "holds_run h" "b \<le> e"
  shows "holds_set (range_effect Range_flip (values_of h) {unat b..unat e}) (flip_run_range h b e threshold)"
proof -
  obtain rs where rs: "run_list h = rs" "wf_runs rs" "values_of h = runs_set rs" using assms(1,2) by (rule wf_runE)
  define before where "before = takeWhile (\<lambda>r. rbegin r < b) rs"
  define rest where "rest = drop (length before) rs"
  define mid where "mid = append_run_exclusive before (unat b) (unat e)"
  define out where "out = fold (\<lambda>r rs. append_run_exclusive rs (unat (rbegin r)) (unat (rend r))) rest mid"
  note split = takeWhile_begin_split [where b = b and rs = rs, folded before_def, folded rest_def]
  have be: "unat b \<le> unat e" using assms(3) by (simp add: word_le_nat_alt)
  have wf: "wf_runs before" "wf_runs rest" "\<And>r s. r \<in> set before \<Longrightarrow> s \<in> set rest \<Longrightarrow> run_gap r s"
    using rs(2) split(1) wf_runs_append by metis+
  have last: "before \<noteq> [] \<Longrightarrow> unat (rbegin (last before)) \<le> unat b"
    using split(2) [of "last before"] by (simp add: word_less_nat_alt)
  note m = append_run_exclusive_correct [OF wf(1) be unat_low_less last, folded mid_def]
  have next_run: "unat (rbegin (last mid)) \<le> unat (rbegin (hd rest))" if "mid \<noteq> []" "rest \<noteq> []"
  proof -
    have "unat b \<le> unat (rbegin (hd rest))" using split(3) that(2) by (simp add: word_le_nat_alt)
    moreover have "unat (rend (last before)) + 1 < unat (rbegin (hd rest))" if "before \<noteq> []"
      using wf(3) [of "last before" "hd rest"] that \<open>rest \<noteq> []\<close> by (simp add: run_gap_def)
    ultimately show ?thesis
      using append_run_exclusive_last(2) [OF wf(1) be unat_low_less last] that(1)
      unfolding mid_def [symmetric] by (auto split: if_splits)
  qed
  have o: "wf_runs out" "runs_set out = sym_diff (runs_set mid) (runs_set rest)"
    using append_runs_exclusive_correct [OF m(1) wf(2) next_run] by (simp_all add: out_def)
  have "runs_set before \<inter> runs_set rest = {}"
  proof -
    have "x \<noteq> y" if "x \<in> runs_set before" "y \<in> runs_set rest" for x y
      using that wf(3) by (fastforce elim!: runs_setE simp: run_gap_def)
    then show ?thesis by blast
  qed
  moreover have "runs_set rs = runs_set before \<union> runs_set rest" using split(1) runs_set_append by metis
  ultimately have set: "runs_set out = range_effect Range_flip (runs_set rs) {unat b..unat e}"
    using o(2) m(2) unfolding flip_effect mid_def [symmetric] sym_diff_def by blast
  have eq: "flip_run_range h b e threshold =
    (if out = [] then make_array else settle_run_result (run_sync_header (set_run_list out make_run)) threshold)"
    by (simp add: flip_run_range_def Let_def rs(1) before_def rest_def mid_def out_def)
  have built: "holds_set (runs_set out) (run_sync_header (set_run_list out make_run))" by (rule holds_built_runs [OF o(1)])
  show ?thesis
    using settle_run_result_correct [OF holds_setD(1) [OF built], of threshold] holds_setD(2) [OF built]
    unfolding eq rs(3) set [symmetric] by (auto intro: holds_make_array)
qed

lemma flip_bitset_range_correct:
  assumes "wf_container h" "holds_bitset h" "b \<le> e"
  shows "holds_set (range_effect Range_flip (values_of h) {unat b..unat e}) (flip_bitset_range h b e threshold)"
proof -
  obtain ws where ws: "length ws = 1024" "bitset_words h = ws" "values_of h = bits_set ws"
    using assms(1,2) by (rule bitset_blockE)
  let ?ws = "apply_range_to_words b e Range_flip ws"
  have bits: "bits_set ?ws = range_effect Range_flip (bits_set ws) {unat b..unat e}"
    using assms(3) ws(1) by (simp add: bits_set_apply_range)
  have len: "length ?ws = 1024" using ws(1) by simp
  have p: "payload (set_bitset_words ?ws h) = Bitset_payload ?ws" by simp
  show ?thesis
    using wf_flipped_bitset [OF p len refl] holds_make_array_from_sorted [OF strict_values_from_words [OF len]]
      array_set_values_from_words [OF len]
    by (auto simp: flip_bitset_range_def Let_def ws fold_popcount simp flip: bits intro!: holds_make_array)
qed

subsection \<open>A range applied to a container of any form\<close>

theorem apply_range_to_container_correct:
  assumes "wf_container h" "\<not> cardinality_stale h" "b \<le> e"
  shows "holds_set (range_effect op (values_of h) {unat b..unat e}) (apply_range_to_container eager h b e op threshold)"
proof -
  let ?R = "{unat b..unat e}"
  have be: "unat b \<le> unat e" using assms(3) by (simp add: word_le_nat_alt)
  have empty: "cardinality h = 0 \<longleftrightarrow> values_of h = {}"
    using exact_cardinality [OF assms(1,2)] by (simp add: card_eq_0_iff)
  consider (clip) "op = Range_remove" "values_of h \<noteq> {}" "holds_run h"
    | (words) "\<not> (op = Range_remove \<and> values_of h \<noteq> {} \<and> holds_run h)" "op \<noteq> Range_flip"
    | (ones) "op = Range_flip" "values_of h = {}" | (flip) "op = Range_flip" "values_of h \<noteq> {}" by blast
  then show ?thesis
  proof cases
    case clip
    obtain rs where rs: "run_list h = rs" "wf_runs rs" "values_of h = runs_set rs" using assms(1) clip(3) by (rule wf_runE)
    define i where "i = partition_point (\<lambda>r. rend r < b) rs"
    note c = run_remove_closed_range_correct [OF assms(1) clip(3), of b e]
    have eq: "apply_range_to_container eager h b e op threshold =
      (if i = length rs \<or> rbegin (rs ! i) > e then h
       else if values_of h - ?R = {} then make_array else settle_run_result (run_remove_closed_range b e h) threshold)"
      using clip empty run_cardinality [OF c(1,2)] c(3)
      by (simp add: apply_range_to_container_def kind_holds rs(1) i_def [symmetric] Let_def card_eq_0_iff)
    have effect: "range_effect op (values_of h) ?R = values_of h - ?R" using clip(1) by (simp add: range_effect_def)
    show ?thesis
    proof (cases "i = length rs \<or> rbegin (rs ! i) > e")
      case True
      have "runs_set rs \<inter> ?R = {}"
      proof -
        have "\<not> (unat b \<le> x \<and> x \<le> unat e)" if x: "x \<in> runs_set rs" for x
        proof -
          obtain r where r: "r \<in> set rs" "unat (rbegin r) \<le> x" "x \<le> unat (rend r)" using x by (rule runs_setE)
          then obtain k where k: "k < length rs" "r = rs ! k" by (auto simp: in_set_conv_nth)
          show ?thesis
          proof (cases "k < i")
            case True
            then show ?thesis using partition_point_before [OF True [unfolded i_def]] r k by (auto simp: word_less_nat_alt)
          next
            case False
            then have "rbegin (rs ! i) > e" using \<open>i = length rs \<or> rbegin (rs ! i) > e\<close> k(1) by simp
            moreover have "unat (rbegin (rs ! i)) \<le> unat (rbegin r)"
              using wf_runs_gap_nth [OF rs(2), of i k] wf_runs_ok [OF rs(2), of "rs ! i"] False k
              by (cases "i = k") auto
            ultimately show ?thesis using r(2) by (simp add: word_less_nat_alt)
          qed
        qed
        then show ?thesis by auto
      qed
      then show ?thesis unfolding effect eq if_P [OF True] using assms(1) rs(3) by (intro holds_setI) auto
    next
      case False
      then show ?thesis
        unfolding effect eq if_not_P [OF False]
        using settle_run_result_correct [OF c(1,2), of threshold] c(3) by (simp add: holds_make_array)
    qed
  next
    case words
    have "apply_range_to_container eager h b e op threshold =
      make_container_from_words eager (apply_range_to_words b e op (words_from_container h)) threshold"
      using words empty by (simp add: apply_range_to_container_def kind_holds) blast
    then show ?thesis
      using make_container_from_words_correct [of "apply_range_to_words b e op (words_from_container h)" eager threshold]
        words_from_container_correct [OF assms(1)] assms(3) by (simp add: bits_set_apply_range)
  next
    case ones
    have effect: "range_effect op (values_of h) ?R = ?R" using ones by (simp add: range_effect_def)
    have "?R = array_set (take (if b = e then 1 else 2) [b, e])" if "unat e - unat b < 2"
      using that be by (auto simp: low_eq_iff)
    moreover have "strict (take (if b = e then 1 else 2) [b, e])" using assms(3) by (simp add: less_le)
    ultimately have pair: "unat e - unat b < 2 \<Longrightarrow> holds_set ?R (make_array_from_sorted (take (if b = e then 1 else 2) [b, e]))"
      using holds_make_array_from_sorted by metis
    have run: "holds_set ?R (run_sync_header (set_run_list [mk_run b e] make_run))"
      using holds_built_runs [of "[mk_run b e]"] assms(3) by (simp add: wf_runs_Cons run_set_def)
    show ?thesis
      unfolding effect using pair run ones empty by (simp add: apply_range_to_container_def)
  next
    case flip
    then show ?thesis
      using flip_array_range_correct [OF assms(1) _ assms(3)] flip_run_range_correct [OF assms(1) _ assms(3)]
        flip_bitset_range_correct [OF assms(1) _ assms(3)] empty
      by (cases h rule: form_cases) (simp_all add: apply_range_to_container_def)
  qed
qed

text \<open>The runs of an array flip are built in a buffer of \<open>cardinality + 1\<close> runs, and are the form that
  \<open>choose_run_container_kind\<close> gives the result: the arm settles nothing because it need not.\<close>

lemma flip_array_runs_settled:
  assumes "n < span" "is_bitset_cardinality (span - n) threshold" "(n + 1) * 4 + 2 < bitset_bytes"
    and "run_count \<le> n + 1" "span - n \<le> new_n"
  shows "choose_run_container_kind new_n run_count threshold = Run_kind"
  using assms by (simp add: choose_run_container_kind_def Let_def is_bitset_cardinality_def bitset_bytes_def)

end
