(* ===== verification/Container_Steps.thy ===== *)
theory Container_Steps
  imports Container_Optimize Container_Ranges
begin

text \<open>
  The life of a container: the operations a bitmap applies to it, one after the other, as a labelled step
  relation. The label carries the reply. What the environment chooses (the capacity of the buffer, whether the
  storage is shared, the selection policy, the bitset threshold) is left open in the rules. A count or an
  extremum is read after \<open>settle_cardinality\<close>, so the steps that need an exact count have it as their guard.
\<close>

datatype event =
    Insert low
  | Erase low
  | Insert_sorted "low list"
  | Over_range range_operation low low
  | Settle
  | Compact

inductive step :: "container \<Rightarrow> event \<Rightarrow> nat \<Rightarrow> container \<Rightarrow> bool" where
  insert_step: "container_add capacity v h = (reply, h') \<Longrightarrow> step h (Insert v) (of_bool reply) h'"
| erase_step: "container_remove v h = (reply, h') \<Longrightarrow> step h (Erase v) (of_bool reply) h'"
| insert_sorted_step: "batch_ready capacity h \<Longrightarrow> strict vs \<Longrightarrow> container_add_sorted capacity unshared vs h = (n, h') \<Longrightarrow>
    step h (Insert_sorted vs) n h'"
| range_step: "\<not> cardinality_stale h \<Longrightarrow> b \<le> e \<Longrightarrow> apply_range_to_container eager h b e op threshold = h' \<Longrightarrow>
    step h (Over_range op b e) 0 h'"
| settle_step: "settle_cardinality h = h' \<Longrightarrow> step h Settle 0 h'"
| compact_step: "\<not> cardinality_stale h \<Longrightarrow> optimize_container_for_storage eager h threshold = h' \<Longrightarrow> step h Compact 0 h'"

inductive_cases step_insertE: "step h (Insert v) r h'"
inductive_cases step_eraseE: "step h (Erase v) r h'"
inductive_cases step_insert_sortedE: "step h (Insert_sorted vs) r h'"
inductive_cases step_rangeE: "step h (Over_range op b e) r h'"
inductive_cases step_settleE: "step h Settle r h'"
inductive_cases step_compactE: "step h Compact r h'"

inductive trace :: "container \<Rightarrow> (event \<times> nat) list \<Rightarrow> container \<Rightarrow> bool" where
  trace_stop: "trace h [] h"
| trace_step: "step h e r h' \<Longrightarrow> trace h' es h'' \<Longrightarrow> trace h ((e, r) # es) h''"

inductive_simps trace_Nil: "trace h [] h'"
inductive_simps trace_Cons: "trace h (er # es) h'"

definition reachable :: "container \<Rightarrow> bool" where
  "reachable h \<longleftrightarrow> (\<exists>es. trace make_array es h)"

text \<open>The abstract service: a set of values, and what each event replies and leaves.\<close>

fun event_on_set :: "event \<Rightarrow> nat set \<Rightarrow> nat \<times> nat set" where
  "event_on_set (Insert v) S = (of_bool (unat v \<notin> S), insert (unat v) S)"
| "event_on_set (Erase v) S = (of_bool (unat v \<in> S), S - {unat v})"
| "event_on_set (Insert_sorted vs) S = (card (array_set vs - S), S \<union> array_set vs)"
| "event_on_set (Over_range op b e) S = (0, range_effect op S {unat b..unat e})"
| "event_on_set Settle S = (0, S)"
| "event_on_set Compact S = (0, S)"

fun events_on_set :: "(event \<times> nat) list \<Rightarrow> nat set \<Rightarrow> nat list \<times> nat set" where
  "events_on_set [] S = ([], S)"
| "events_on_set ((e, r) # es) S =
    (case event_on_set e S of (r', S') \<Rightarrow> case events_on_set es S' of (rs, S'') \<Rightarrow> (r' # rs, S''))"

lemma step_refines:
  assumes "step h e r h'" "wf_container h"
  shows "wf_container h' \<and> event_on_set e (values_of h) = (r, values_of h')"
  using assms
proof (cases rule: step.cases)
  case (insert_step capacity v reply)
  then show ?thesis using container_add_correct [OF assms(2), of capacity v] by simp
next
  case (erase_step v reply)
  then show ?thesis using container_remove_correct [OF assms(2), of v] by simp
next
  case (insert_sorted_step capacity vs unshared)
  then show ?thesis using container_add_sorted_correct [OF insert_sorted_step(2,3), of unshared] by simp
next
  case (range_step b e eager op threshold)
  then show ?thesis
    using apply_range_to_container_correct [OF assms(2), of b e op eager threshold] by (simp add: holds_set_def)
next
  case settle_step
  then show ?thesis using settle_cardinality_correct(1) [OF assms(2)] values_of_header(5) [of h] by simp
next
  case (compact_step eager threshold)
  then show ?thesis
    using optimize_container_for_storage_correct [OF assms(2), of eager threshold] by (simp add: holds_set_def)
qed

lemma trace_refines:
  "trace h es h' \<Longrightarrow> wf_container h \<Longrightarrow>
    wf_container h' \<and> events_on_set es (values_of h) = (map snd es, values_of h')"
proof (induction rule: trace.induct)
  case (trace_step h e r h' es h'')
  with step_refines [OF trace_step.hyps(1) trace_step.prems] show ?case by simp
qed simp

lemma reachable_wf: "reachable h \<Longrightarrow> wf_container h"
  using trace_refines empty_factories by (fastforce simp: reachable_def)

lemma trace_append: "trace h es h' \<Longrightarrow> trace h' es' h'' \<Longrightarrow> trace h (es @ es') h''"
  by (induction rule: trace.induct) (auto intro: trace.intros)

lemma reachable_step: "reachable h \<Longrightarrow> step h e r h' \<Longrightarrow> reachable h'"
  unfolding reachable_def by (meson trace_append trace_step trace_stop)

end
