(* ===== verification/Layout.thy ===== *)
theory Layout
  imports Container_Optimize
begin

text \<open>
  Keys (\<open>container_layout.hpp\<close>) and the container of one chunk's keys (\<open>containers.hpp\<close>,
  \<open>make_container_from_sorted_keys\<close>). A key is a chunk number above sixteen low bits. The layout is modelled for
  32-bit keys, whose chunk numbers are sixteen bits, and for 64-bit ones, whose chunk numbers are kept in 64 bits.
\<close>

type_synonym key32 = "32 word"
type_synonym key64 = "64 word"

definition low_bits :: nat where
  "low_bits = 16"

definition low_mask32 :: key32 where
  "low_mask32 = push_bit low_bits 1 - 1"

definition chunk_key32 :: "key32 \<Rightarrow> 16 word" where
  "chunk_key32 v = ucast (drop_bit low_bits v)"

definition low_key32 :: "key32 \<Rightarrow> low" where
  "low_key32 v = ucast (v AND low_mask32)"

definition compose32 :: "16 word \<Rightarrow> low \<Rightarrow> key32" where
  "compose32 chunk v = push_bit low_bits (ucast chunk) OR ucast v"

definition low_mask64 :: key64 where
  "low_mask64 = push_bit low_bits 1 - 1"

definition chunk_key64 :: "key64 \<Rightarrow> key64" where
  "chunk_key64 v = drop_bit low_bits v"

definition low_key64 :: "key64 \<Rightarrow> low" where
  "low_key64 v = ucast (v AND low_mask64)"

definition compose64 :: "key64 \<Rightarrow> low \<Rightarrow> key64" where
  "compose64 chunk v = push_bit low_bits chunk OR ucast v"

subsection \<open>Splitting and composing are inverse\<close>

lemma masks: "low_mask32 = mask 16" "low_mask64 = mask 16"
  by (simp_all add: low_mask32_def low_mask64_def low_bits_def mask_eq_exp_minus_1 push_bit_eq_mult)

lemma compose_split32: "compose32 (chunk_key32 v) (low_key32 v) = v"
  by (rule bit_word_eqI)
    (auto simp: compose32_def chunk_key32_def low_key32_def masks low_bits_def bit_simps not_less)

lemma split_compose32: "chunk_key32 (compose32 c l) = c" "low_key32 (compose32 c l) = l"
  by (rule bit_word_eqI, auto simp: compose32_def chunk_key32_def low_key32_def masks low_bits_def bit_simps
      dest: bit_imp_le_length)+

lemma compose_split64: "compose64 (chunk_key64 v) (low_key64 v) = v"
proof (rule bit_word_eqI)
  fix n
  show "bit (compose64 (chunk_key64 v) (low_key64 v)) n \<longleftrightarrow> bit v n" if "n < LENGTH(64)"
    using that by (cases "n < 16") (auto simp: compose64_def chunk_key64_def low_key64_def masks low_bits_def bit_simps)
qed

lemma split_compose64:
  "low_key64 (compose64 c l) = l" "c < 2 ^ 48 \<Longrightarrow> chunk_key64 (compose64 c l) = c"
proof -
  show "low_key64 (compose64 c l) = l"
    by (rule bit_word_eqI, auto simp: compose64_def low_key64_def masks low_bits_def bit_simps dest: bit_imp_le_length)
  assume "c < 2 ^ 48"
  then have small: "unat c < 2 ^ 48" by (simp add: word_less_nat_alt)
  have "n < 48" if "bit c n" for n
  proof (rule ccontr)
    assume "\<not> n < 48"
    then have "(2 :: nat) ^ 48 \<le> 2 ^ n" by (intro power_increasing) simp_all
    then have "unat c div 2 ^ n = 0" using small by (intro div_less) linarith
    moreover have "bit (unat c) n" using that by (simp add: bit_unsigned_iff)
    ultimately show False by (simp add: bit_iff_odd)
  qed
  then show "chunk_key64 (compose64 c l) = c"
    by (intro bit_word_eqI) (auto simp: compose64_def chunk_key64_def low_bits_def bit_simps dest: bit_imp_le_length)
qed

lemma unat_split32: "unat v = unat (chunk_key32 v) * 65536 + unat (low_key32 v)"
proof -
  have "unat (chunk_key32 v) = unat v div 65536"
  proof -
    have "unat v < 2 ^ LENGTH(32)" by (rule unsigned_less)
    then have "unat v div 65536 < 65536" by (simp add: div_less_iff_less_mult)
    then show ?thesis
      by (simp add: chunk_key32_def low_bits_def unsigned_ucast_eq drop_bit_eq_div unat_div_distrib take_bit_eq_mod)
  qed
  moreover have "unat (low_key32 v) = unat v mod 65536"
    by (simp add: low_key32_def masks unsigned_ucast_eq unsigned_and_eq take_bit_eq_mod unat_mod_distrib flip: take_bit_eq_mask)
  ultimately show ?thesis by (simp add: div_mult_mod_eq)
qed

text \<open>The keys are ordered by chunk and then by low value.\<close>

lemma key_order32:
  "v < w \<longleftrightarrow> chunk_key32 v < chunk_key32 w \<or> chunk_key32 v = chunk_key32 w \<and> low_key32 v < low_key32 w"
proof -
  define a b c d where "a = unat (chunk_key32 v)" and "b = unat (low_key32 v)" and "c = unat (chunk_key32 w)"
    and "d = unat (low_key32 w)"
  have "b < 65536" "d < 65536" by (simp_all add: b_def d_def)
  then have "a * 65536 + b < c * 65536 + d \<longleftrightarrow> a < c \<or> a = c \<and> b < d" by linarith
  then show ?thesis
    using unat_split32 [of v] unat_split32 [of w] by (simp add: a_def b_def c_def d_def word_less_nat_alt low_eq_iff)
qed

subsection \<open>One chunk's keys\<close>

text \<open>The keys of a chunk are ascending and may repeat. The counts are taken on the differences of neighbours.\<close>

definition count_steps :: "key32 list \<Rightarrow> nat \<times> nat" where
  "count_steps keys =
     fold (\<lambda>i (repeats, run_count).
         (repeats + of_bool (keys ! i - keys ! (i - 1) = 0), run_count + of_bool (keys ! i - keys ! (i - 1) > 1)))
       [1..<length keys] (0, 1)"

definition make_container_from_sorted_keys :: "bool \<Rightarrow> key32 list \<Rightarrow> nat \<Rightarrow> container" where
  "make_container_from_sorted_keys eager keys bitset_threshold =
    (let size = length keys;
         front = low_key32 (hd keys); back = low_key32 (last keys);
         (repeats, run_count) = count_steps keys;
         distinct_n = size - repeats
     in if size \<ge> bitset_threshold \<and>
           choose_container_kind eager distinct_n bitset_threshold (\<lambda>cap. min run_count cap) = Bitset_kind
        then let result = make_bitset_zeroed
             in set_endpoints front back (set_cardinality distinct_n
                  (set_bitset_words (fold (\<lambda>k. words_set (low_key32 k)) keys (bitset_words result)) result))
        else let out = map low_key32 keys;
                 repeats = fold (\<lambda>i n. n + of_bool (keys ! i = keys ! (i - 1))) [1..<size] (0 :: nat);
                 out = (if repeats \<noteq> 0 then remdups_adj out else out)
             in make_container_from_filled_array eager (array_sync_header (set_array_values out make_array)) bitset_threshold)"

definition one_chunk :: "16 word \<Rightarrow> key32 list \<Rightarrow> bool" where
  "one_chunk c keys \<longleftrightarrow> keys \<noteq> [] \<and> sorted keys \<and> (\<forall>k\<in>set keys. chunk_key32 k = c)"

lemma one_chunk_low:
  assumes "one_chunk c keys" "j \<in> set keys" "k \<in> set keys" "j \<le> k"
  shows "unat k - unat j = unat (low_key32 k) - unat (low_key32 j)" "low_key32 j \<le> low_key32 k" "low_key32 j = low_key32 k \<longleftrightarrow> j = k"
    "unat (k - j) = unat (low_key32 k) - unat (low_key32 j)"
proof -
  have "chunk_key32 j = chunk_key32 k" using assms(1-3) unfolding one_chunk_def by metis
  then have eq: "unat k = unat (chunk_key32 j) * 65536 + unat (low_key32 k)"
    "unat j = unat (chunk_key32 j) * 65536 + unat (low_key32 j)"
    using unat_split32 [of k] unat_split32 [of j] by simp_all
  then show diff: "unat k - unat j = unat (low_key32 k) - unat (low_key32 j)" by simp
  show "low_key32 j \<le> low_key32 k" using eq assms(4) by (simp add: word_le_nat_alt)
  show "low_key32 j = low_key32 k \<longleftrightarrow> j = k" using eq by (auto simp: word_unat_eq_iff)
  show "unat (k - j) = unat (low_key32 k) - unat (low_key32 j)" using diff assms(4) by (simp add: unat_sub)
qed

lemma one_chunk_butlast: "one_chunk c (keys @ [k]) \<Longrightarrow> keys \<noteq> [] \<Longrightarrow> one_chunk c keys"
  by (auto simp: one_chunk_def sorted_append)

lemma sorted_lows:
  assumes "one_chunk c keys"
  shows "sorted (map low_key32 keys)"
  unfolding sorted_wrt_map
proof (rule sorted_wrt_mono_rel [of keys "(\<le>)"])
  show "low_key32 j \<le> low_key32 k" if "j \<in> set keys" "k \<in> set keys" "j \<le> k" for j k
    by (rule one_chunk_low(2) [OF assms that])
  show "sorted keys" using assms by (simp add: one_chunk_def)
qed

lemma fold_upt_cong:
  "(\<And>i x. a \<le> i \<Longrightarrow> i < b \<Longrightarrow> f i x = g i x) \<Longrightarrow> fold f [a..<b] s = fold g [a..<b] s"
  by (rule fold_cong) auto

lemma count_steps_snoc:
  assumes "keys \<noteq> []"
  shows "count_steps (keys @ [k]) = (case count_steps keys of (repeats, run_count) \<Rightarrow>
    (repeats + of_bool (k - last keys = 0), run_count + of_bool (k - last keys > 1)))"
proof -
  let ?f = "\<lambda>ks i (repeats, run_count). (repeats + of_bool (ks ! i - ks ! (i - 1) = (0 :: key32)), run_count + of_bool (ks ! i - ks ! (i - 1) > 1))"
  have "fold (?f (keys @ [k])) [1..<length keys] (0 :: nat, 1 :: nat) = fold (?f keys) [1..<length keys] (0, 1)"
    by (rule fold_upt_cong) (auto simp: nth_append)
  moreover have "[1..<length (keys @ [k])] = [1..<length keys] @ [length keys]" using assms by (simp add: Suc_le_eq)
  ultimately show ?thesis
    using assms by (auto simp: count_steps_def nth_append last_conv_nth split: prod.split)
qed

lemma count_steps_correct:
  "one_chunk c keys \<Longrightarrow>
    fst (count_steps keys) + card (array_set (map low_key32 keys)) = length keys \<and>
    snd (count_steps keys) = card (run_starts (array_set (map low_key32 keys)))"
proof (induction keys rule: rev_induct)
  case (snoc k keys)
  show ?case
  proof (cases "keys = []")
    case True
    have "run_starts {unat (low_key32 k)} = {unat (low_key32 k)}" by (auto simp: run_starts_def)
    with True show ?thesis by (simp add: count_steps_def)
  next
    case False
    let ?l = "last keys" and ?S = "array_set (map low_key32 keys)"
    have le: "?l \<le> k" using snoc.prems False by (simp add: one_chunk_def sorted_append)
    note low = one_chunk_low [OF snoc.prems _ _ le]
    have l: "unat (low_key32 ?l) \<in> ?S" using False by simp
    have max: "x \<le> unat (low_key32 ?l)" if x: "x \<in> ?S" for x
    proof -
      obtain j where j: "j \<in> set keys" "x = unat (low_key32 j)" using x by (auto simp: array_set_def)
      have "j \<le> ?l" using j(1) snoc.prems False by (cases keys rule: rev_cases) (auto simp: one_chunk_def sorted_append)
      then show ?thesis using one_chunk_low(2) [OF snoc.prems, of j ?l] j False by (simp add: word_le_nat_alt)
    qed
    have ih: "fst (count_steps keys) + card ?S = length keys" "snd (count_steps keys) = card (run_starts ?S)"
      using snoc.IH one_chunk_butlast [OF snoc.prems False] by simp_all
    have zero: "k - ?l = 0 \<longleftrightarrow> low_key32 k = low_key32 ?l" using low(3) False by auto
    have one: "k - ?l > 1 \<longleftrightarrow> unat (low_key32 k) > unat (low_key32 ?l) + 1"
      using low(4) False by (auto simp: word_less_nat_alt)
    show ?thesis
    proof (cases "low_key32 k = low_key32 ?l")
      case True
      then have "insert (unat (low_key32 k)) ?S = ?S" using l by auto
      then show ?thesis using ih True zero one False by (auto simp: count_steps_snoc split: prod.split)
    next
      case ne: False
      have less: "unat (low_key32 ?l) < unat (low_key32 k)" using low(2) False ne by (simp add: low_order)
      have above: "\<forall>y\<in>?S. y < unat (low_key32 k)" using max less by fastforce
      then have notin: "unat (low_key32 k) \<notin> ?S" by blast
      have mem: "unat (low_key32 k) - 1 \<in> ?S \<longleftrightarrow> unat (low_key32 k) = unat (low_key32 ?l) + 1"
        using max [of "unat (low_key32 k) - 1"] less l by auto
      have "run_starts (insert (unat (low_key32 k)) ?S) = run_starts ?S \<union> (if k - ?l > 1 then {unat (low_key32 k)} else {})"
        using run_starts_insert_above [OF above] mem less one by auto
      moreover have "unat (low_key32 k) \<notin> run_starts ?S" using notin by (simp add: run_starts_def)
      ultimately have "card (run_starts (insert (unat (low_key32 k)) ?S)) = card (run_starts ?S) + of_bool (k - ?l > 1)" by simp
      then show ?thesis
        using ih notin zero ne False by (auto simp: count_steps_snoc split: prod.split)
    qed
  qed
qed (simp add: one_chunk_def)

lemma strict_remdups_adj: "sorted xs \<Longrightarrow> strict (remdups_adj xs)" for xs :: "'a :: linorder list"
  by (induction xs rule: remdups_adj.induct) (auto simp: le_less)

lemma array_set_remdups_adj [simp]: "array_set (remdups_adj xs) = array_set xs"
  by (simp add: array_set_def)

lemma fold_repeats_zero:
  "fold (\<lambda>i n. n + of_bool (P i)) is (m :: nat) = 0 \<longleftrightarrow> m = 0 \<and> (\<forall>i\<in>set is. \<not> P i)"
  by (induction "is" arbitrary: m) auto

lemma hd_last_remdups_adj: "xs \<noteq> [] \<Longrightarrow> hd (remdups_adj xs) = hd xs \<and> last (remdups_adj xs) = last xs"
  by (induction xs rule: remdups_adj.induct) auto

text \<open>The copied low halves, compacted only when a key repeats.\<close>

lemma compacted_lows:
  assumes "one_chunk c keys"
  shows "(if fold (\<lambda>i n. n + of_bool (keys ! i = keys ! (i - 1))) [1..<length keys] (0 :: nat) = 0
      then map low_key32 keys else remdups_adj (map low_key32 keys)) = remdups_adj (map low_key32 keys)"
proof (cases "fold (\<lambda>i n. n + of_bool (keys ! i = keys ! (i - 1))) [1..<length keys] (0 :: nat) = 0")
  case True
  then have diff: "keys ! i \<noteq> keys ! (i - 1)" if "1 \<le> i" "i < length keys" for i
    using that unfolding fold_repeats_zero by simp
  have "map low_key32 keys ! i \<noteq> map low_key32 keys ! Suc i" if "Suc i < length (map low_key32 keys)" for i
  proof -
    have "keys ! i \<le> keys ! Suc i" using assms that by (auto simp: one_chunk_def sorted_nth_mono)
    then show ?thesis using one_chunk_low(3) [OF assms, of "keys ! i" "keys ! Suc i"] diff [of "Suc i"] that by simp
  qed
  then have "distinct_adj (map low_key32 keys)" by (simp add: distinct_adj_conv_nth)
  then have "remdups_adj (map low_key32 keys) = map low_key32 keys" by (simp add: distinct_adj_altdef)
  with True show ?thesis by simp
qed simp

text \<open>The container is the very one that the chunk's distinct low values give.\<close>

theorem make_container_from_sorted_keys_eq:
  assumes "one_chunk c keys"
  shows "make_container_from_sorted_keys eager keys threshold =
    make_container_from_sorted_values eager (remdups_adj (map low_key32 keys)) threshold"
proof -
  define lows where "lows = map low_key32 keys"
  define vs where "vs = remdups_adj lows"
  have ne: "keys \<noteq> []" "lows \<noteq> []" "vs \<noteq> []" using assms by (auto simp: one_chunk_def lows_def vs_def)
  have strict: "strict vs" unfolding vs_def lows_def by (rule strict_remdups_adj [OF sorted_lows [OF assms]])
  have set: "array_set vs = array_set lows" by (simp add: vs_def)
  have n: "length vs = card (array_set lows)" using card_array_set [OF strict] set by simp
  obtain repeats r where counts: "count_steps keys = (repeats, r)" by fastforce
  have c: "length keys - repeats = length vs" "r = card (run_starts (array_set vs))"
    using count_steps_correct [OF assms] n set by (auto simp: counts lows_def)
  have le: "length vs \<le> length keys" using remdups_adj_length [of lows] by (simp add: vs_def lows_def)
  have kind: "choose_container_kind eager (length keys - repeats) threshold (\<lambda>cap. min r cap) =
    choose_sorted_container_kind eager vs threshold"
    unfolding choose_sorted_container_kind_eq [OF strict] c
    by (rule choose_container_kind_cap) (simp add: min.commute)
  have bitset_kind: "threshold \<le> length vs" if "choose_sorted_container_kind eager vs threshold = Bitset_kind"
    using that by (auto simp: choose_sorted_container_kind_def choose_container_kind_def Let_def split: if_splits)
  have ends: "low_key32 (hd keys) = hd vs" "low_key32 (last keys) = last vs"
    using hd_last_remdups_adj [OF ne(2)] ne(1) by (simp_all add: vs_def lows_def hd_map last_map)
  have bits: "fold (\<lambda>k. words_set (low_key32 k)) keys (replicate 1024 0) = fold words_set vs (replicate 1024 0)"
  proof -
    have "fold (\<lambda>k. words_set (low_key32 k)) keys (replicate 1024 0) = fold words_set lows (replicate 1024 0)"
      by (simp add: lows_def fold_map comp_def)
    also have "\<dots> = fold words_set vs (replicate 1024 0)"
      by (rule bits_set_inject) (simp_all add: bits_set_fold_words_set set)
    finally show ?thesis .
  qed
  have zeroed: "zeroed_bitset make_array = make_bitset_zeroed"
    by (simp add: zeroed_bitset_def forms_distinct)
  have words0: "bitset_words make_bitset_zeroed = replicate 1024 0"
    using zeroed_bitset_simps(1) [of make_array] by (simp add: zeroed)
  have out: "(if fold (\<lambda>i n. n + of_bool (keys ! i = keys ! (i - 1))) [1..<length keys] (0 :: nat) \<noteq> 0
      then remdups_adj lows else lows) = vs"
    using compacted_lows [OF assms] by (simp add: vs_def lows_def split: if_split_asm)
  have array: "array_sync_header (set_array_values vs make_array) = make_array_from_sorted vs"
    by (simp add: make_array_from_sorted_def set_array_values_def)
  have views: "array_values (make_array_from_sorted vs) = vs" using make_array_from_sorted_correct(3) [OF strict] by simp
  have "make_container_from_sorted_keys eager keys threshold =
    (if threshold \<le> length keys \<and> choose_sorted_container_kind eager vs threshold = Bitset_kind
     then set_endpoints (hd vs) (last vs) (set_cardinality (length vs)
       (set_bitset_words (fold words_set vs (replicate 1024 0)) make_bitset_zeroed))
     else make_container_from_filled_array eager (make_array_from_sorted vs) threshold)"
    unfolding make_container_from_sorted_keys_def counts Let_def prod.case c(1) kind [unfolded c(1)]
      lows_def [symmetric] out array words0 bits ends ..
  moreover have "make_container_from_filled_array eager (make_array_from_sorted vs) threshold =
      make_container_from_sorted_values eager vs threshold"
    using ne(3) by (simp add: make_container_from_filled_array_def make_container_from_sorted_values_def Let_def views)
  moreover have "bitset_handle_from_sorted_values vs make_array =
      set_endpoints (hd vs) (last vs) (set_cardinality (length vs)
        (set_bitset_words (fold words_set vs (replicate 1024 0)) make_bitset_zeroed))"
    using ne(3) by (simp add: bitset_handle_from_sorted_values_def zeroed words0 Let_def)
  ultimately show ?thesis
    using bitset_kind le ne(3) unfolding vs_def [symmetric] lows_def [symmetric]
    by (auto simp: make_container_from_sorted_values_def)
qed

lemma make_container_from_sorted_keys_correct:
  assumes "one_chunk c keys"
  shows "holds_set ((\<lambda>k. unat (low_key32 k)) ` set keys) (make_container_from_sorted_keys eager keys threshold)"
proof -
  have "array_set (remdups_adj (map low_key32 keys)) = (\<lambda>k. unat (low_key32 k)) ` set keys"
    by (simp add: array_set_def image_image)
  then show ?thesis
    using make_container_from_sorted_values_correct [OF strict_remdups_adj [OF sorted_lows [OF assms]], of eager threshold]
    by (simp add: make_container_from_sorted_keys_eq [OF assms])
qed

end
