(* ===== verification/Gallop.thy ===== *)
theory Gallop
  imports Container_Ranges Layout
begin

text \<open>
  The forward searches the run kernels share (\<open>array_ops.hpp\<close>): the first element of a sorted list from a given
  index on that is not below a bound, found by a few compares, by strides or by a doubling gallop with a binary
  search of the last window. They all are \<open>seek\<close>, the plain scan, on a list the bound splits.
\<close>

definition seek :: "('a \<Rightarrow> bool) \<Rightarrow> 'a list \<Rightarrow> nat \<Rightarrow> nat" where
  "seek below xs lo = lo + partition_point below (drop lo xs)"

lemma exp_progress: "x < n \<Longrightarrow> n - (x + 2 ^ k) < n - x" for n :: nat
  by (intro diff_less_mono2) simp_all

text \<open>\<open>step\<close> doubles: it is \<open>1 << k\<close>.\<close>

function gallop_double :: "('a \<Rightarrow> bool) \<Rightarrow> 'a list \<Rightarrow> nat \<Rightarrow> nat \<Rightarrow> nat \<times> nat" where
  "gallop_double below xs lo k =
    (if lo + push_bit k 1 < length xs \<and> below (xs ! (lo + push_bit k 1))
     then gallop_double below xs (lo + push_bit k 1) (k + 1) else (lo, push_bit k 1))"
  by pat_completeness auto
termination
  by (relation "measure (\<lambda>(below, xs, lo, k). length xs - lo)") (auto simp: push_bit_eq_mult intro!: exp_progress)

declare gallop_double.simps [simp del]

definition gallop_forward :: "('a \<Rightarrow> bool) \<Rightarrow> 'a list \<Rightarrow> nat \<Rightarrow> nat" where
  "gallop_forward below xs lo =
    (if lo = length xs \<or> \<not> below (xs ! lo) then lo
     else if lo + 1 \<ge> length xs \<or> \<not> below (xs ! (lo + 1)) then lo + 1
     else if lo + 2 \<ge> length xs \<or> \<not> below (xs ! (lo + 2)) then lo + 2
     else if lo + 3 \<ge> length xs \<or> \<not> below (xs ! (lo + 3)) then lo + 3
     else let (lo, step) = gallop_double below xs (lo + 3) 0;
              window_end = min (lo + step) (length xs);
              lo = lo + 1
          in lo + partition_point below (take (window_end - lo) (drop lo xs)))"

definition linear_run_steps :: nat where "linear_run_steps = 16"
definition runs_per_stride :: nat where "runs_per_stride = 8"
definition strides_before_doubling :: nat where "strides_before_doubling = 2"

text \<open>A scan \<open>while ( index < size && runs[ index ].end < value ) ++index\<close> is \<open>seek\<close> itself. \<open>below\<close> tests a run
  against the value.\<close>

function stride_double :: "('a \<Rightarrow> bool) \<Rightarrow> 'a list \<Rightarrow> nat \<Rightarrow> nat \<Rightarrow> nat \<times> nat" where
  "stride_double below xs index k =
    (if length xs - index > push_bit k 1 \<and> below (xs ! (index + push_bit k 1 - 1))
     then stride_double below xs (index + push_bit k 1) (k + 1) else (index, push_bit k 1))"
  by pat_completeness auto
termination
  by (relation "measure (\<lambda>(below, xs, index, k). length xs - index)") (auto simp: push_bit_eq_mult intro!: exp_progress)

declare stride_double.simps [simp del]

fun stride_blocks :: "nat \<Rightarrow> ('a \<Rightarrow> bool) \<Rightarrow> 'a list \<Rightarrow> nat \<Rightarrow> nat" where
  "stride_blocks 0 below xs index =
    (let (index, step) = stride_double below xs index 4
     in index + partition_point below (take (min (index + step) (length xs) - index) (drop index xs)))"
| "stride_blocks (Suc strides) below xs index =
    (if length xs - index < runs_per_stride then seek below xs index
     else if \<not> below (xs ! (index + runs_per_stride - 1)) then seek below xs index
     else stride_blocks strides below xs (index + runs_per_stride))"

definition stride_to_run_reaching :: "('a \<Rightarrow> bool) \<Rightarrow> 'a list \<Rightarrow> nat \<Rightarrow> nat" where
  "stride_to_run_reaching below xs index = stride_blocks strides_before_doubling below xs index"

function run_reaching_loop :: "('a \<Rightarrow> bool) \<Rightarrow> 'a list \<Rightarrow> nat \<Rightarrow> nat \<Rightarrow> nat" where
  "run_reaching_loop below xs index steps =
    (if index < length xs \<and> below (xs ! index) then
       (if index + 1 = length xs then length xs
        else if steps + 1 = linear_run_steps then stride_to_run_reaching below xs (index + 1)
        else run_reaching_loop below xs (index + 1) (steps + 1))
     else index)"
  by pat_completeness auto
termination
  by (relation "measure (\<lambda>(below, xs, index, steps). length xs - index)") auto

declare run_reaching_loop.simps [simp del]

definition run_reaching :: "('a \<Rightarrow> bool) \<Rightarrow> 'a list \<Rightarrow> nat \<Rightarrow> nat" where
  "run_reaching below xs index = run_reaching_loop below xs index 0"

subsection \<open>Every search is the plain scan\<close>

text \<open>A sorted list is split by every bound: what is below comes first.\<close>

locale ordered_search =
  fixes ok :: "'a list \<Rightarrow> bool" and below :: "'k \<Rightarrow> 'a \<Rightarrow> bool"
  assumes split: "ok xs \<Longrightarrow> i \<le> j \<Longrightarrow> j < length xs \<Longrightarrow> below b (xs ! j) \<Longrightarrow> below b (xs ! i)"

lemma seek_parts:
  "lo \<le> length xs \<Longrightarrow> seek p xs lo \<le> length xs"
  "lo \<le> seek p xs lo"
  "lo \<le> i \<Longrightarrow> i < seek p xs lo \<Longrightarrow> p (xs ! i)"
  "lo \<le> length xs \<Longrightarrow> seek p xs lo < length xs \<Longrightarrow> \<not> p (xs ! seek p xs lo)"
proof -
  let ?n = "partition_point p (drop lo xs)"
  have n: "?n \<le> length xs - lo" using partition_point_le [of p "drop lo xs"] by simp
  then show "lo \<le> length xs \<Longrightarrow> seek p xs lo \<le> length xs" "lo \<le> seek p xs lo" by (simp_all add: seek_def)
  show "p (xs ! i)" if "lo \<le> i" "i < seek p xs lo"
  proof -
    have i: "i - lo < ?n" using that by (simp add: seek_def)
    have "p (drop lo xs ! (i - lo))" by (rule partition_point_before [OF i])
    moreover have "lo \<le> length xs" using i n by linarith
    ultimately show ?thesis using that(1) by simp
  qed
  show "\<not> p (xs ! seek p xs lo)" if "lo \<le> length xs" "seek p xs lo < length xs"
    using partition_point_stop [of p "drop lo xs"] that by (simp add: seek_def)
qed

lemma seek_unique:
  assumes "lo \<le> k" "k \<le> length xs" "\<And>i. lo \<le> i \<Longrightarrow> i < k \<Longrightarrow> p (xs ! i)" "k < length xs \<Longrightarrow> \<not> p (xs ! k)"
  shows "seek p xs lo = k"
proof -
  have "partition_point p (drop lo xs) = k - lo"
    using assms by (intro partition_point_unique) auto
  then show ?thesis using assms(1) by (simp add: seek_def)
qed

lemma window_search:
  assumes "lo \<le> window_end" "window_end \<le> length xs" "window_end < length xs \<Longrightarrow> \<not> p (xs ! window_end)"
  shows "lo + partition_point p (take (window_end - lo) (drop lo xs)) = seek p xs lo"
proof (rule sym, rule seek_unique)
  let ?ys = "take (window_end - lo) (drop lo xs)"
  have len: "length ?ys = window_end - lo" using assms(1,2) by simp
  have le: "partition_point p ?ys \<le> window_end - lo" using partition_point_le [of p ?ys] len by simp
  show "lo \<le> lo + partition_point p ?ys" "lo + partition_point p ?ys \<le> length xs" using le assms by linarith+
  show "p (xs ! i)" if "lo \<le> i" "i < lo + partition_point p ?ys" for i
  proof -
    have i: "i - lo < partition_point p ?ys" using that by simp
    then have "p (?ys ! (i - lo))" by (rule partition_point_before)
    then show ?thesis using i le that(1) assms by simp
  qed
  show "\<not> p (xs ! (lo + partition_point p ?ys))" if "lo + partition_point p ?ys < length xs"
  proof (cases "partition_point p ?ys < window_end - lo")
    case True
    then have "\<not> p (?ys ! partition_point p ?ys)" using partition_point_stop [of p ?ys] len by simp
    then show ?thesis using True assms by simp
  next
    case False
    then have "lo + partition_point p ?ys = window_end" using le assms(1) by linarith
    then show ?thesis using assms(3) that by simp
  qed
qed

context ordered_search
begin

lemma seek_from:
  assumes "ok xs" "lo \<le> m" "m \<le> length xs" "lo < m \<Longrightarrow> below b (xs ! (m - 1))"
  shows "seek (below b) xs m = seek (below b) xs lo"
proof (rule sym, rule seek_unique)
  show "lo \<le> seek (below b) xs m" "seek (below b) xs m \<le> length xs"
    using seek_parts(1) [of m xs "below b"] seek_parts(2) [of m "below b" xs] assms(2,3) by linarith+
  show "below b (xs ! i)" if "lo \<le> i" "i < seek (below b) xs m" for i
  proof (cases "i < m")
    case True
    then have "i \<le> m - 1" "m - 1 < length xs" "lo < m" using that assms(2,3) by linarith+
    then show ?thesis using split [OF assms(1)] assms(4) by blast
  next
    case False
    then show ?thesis using seek_parts(3) [of m i "below b" xs] that by simp
  qed
  show "seek (below b) xs m < length xs \<Longrightarrow> \<not> below b (xs ! seek (below b) xs m)"
    using seek_parts(4) assms(3) by blast
qed

lemma seek_stop: "lo \<le> length xs \<Longrightarrow> lo = length xs \<or> \<not> below b (xs ! lo) \<Longrightarrow> seek (below b) xs lo = lo"
  by (rule seek_unique) auto

lemma gallop_double_correct:
  assumes "ok xs" "lo < length xs" "below b (xs ! lo)" "gallop_double (below b) xs lo k = (lo', step)"
  shows "lo \<le> lo' \<and> lo' < length xs \<and> below b (xs ! lo') \<and> 0 < step \<and>
    (lo' + step < length xs \<longrightarrow> \<not> below b (xs ! (lo' + step)))"
  using assms
proof (induction "below b" xs lo k rule: gallop_double.induct)
  case (1 xs lo k)
  show ?case
  proof (cases "lo + push_bit k 1 < length xs \<and> below b (xs ! (lo + push_bit k 1))")
    case True
    then have "gallop_double (below b) xs (lo + push_bit k 1) (k + 1) = (lo', step)"
      using "1.prems"(4) unfolding gallop_double.simps [of _ xs lo] if_P [OF True] by simp
    then show ?thesis using "1.hyps" [OF True "1.prems"(1)] True by simp
  next
    case False
    then have "lo' = lo" "step = push_bit k 1"
      using "1.prems"(4) unfolding gallop_double.simps [of _ xs lo] if_not_P [OF False] by simp_all
    then show ?thesis using False "1.prems"(2,3) by (auto simp: push_bit_eq_mult)
  qed
qed

lemma gallop_forward_seek:
  assumes "ok xs" "lo \<le> length xs"
  shows "gallop_forward (below b) xs lo = seek (below b) xs lo"
proof -
  have stop: "seek (below b) xs lo = lo + n"
    if "n = 0 \<or> below b (xs ! (lo + n - 1))" "lo + n \<le> length xs" "lo + n \<ge> length xs \<or> \<not> below b (xs ! (lo + n))" for n
    using seek_from [of xs lo "lo + n" b] seek_stop [where lo = "lo + n" and xs = xs and b = b] that assms by auto
  consider (0) "lo = length xs \<or> \<not> below b (xs ! lo)"
    | (1) "lo < length xs" "below b (xs ! lo)" "lo + 1 \<ge> length xs \<or> \<not> below b (xs ! (lo + 1))"
    | (2) "lo + 1 < length xs" "below b (xs ! lo)" "below b (xs ! (lo + 1))" "lo + 2 \<ge> length xs \<or> \<not> below b (xs ! (lo + 2))"
    | (3) "lo + 2 < length xs" "below b (xs ! lo)" "below b (xs ! (lo + 1))" "below b (xs ! (lo + 2))"
        "lo + 3 \<ge> length xs \<or> \<not> below b (xs ! (lo + 3))"
    | (4) "lo + 3 < length xs" "below b (xs ! lo)" "below b (xs ! (lo + 1))" "below b (xs ! (lo + 2))" "below b (xs ! (lo + 3))"
    using assms(2) by linarith
  then show ?thesis
  proof cases
    case 0
    then show ?thesis using stop [of 0] assms(2) by (auto simp: gallop_forward_def)
  next
    case 1
    then show ?thesis using stop [of 1] by (auto simp: gallop_forward_def)
  next
    case 2
    then show ?thesis using stop [of 2] by (auto simp: gallop_forward_def)
  next
    case 3
    then show ?thesis using stop [of 3] by (auto simp: gallop_forward_def)
  next
    case 4
    obtain lo' step where g: "gallop_double (below b) xs (lo + 3) 0 = (lo', step)" by fastforce
    note d = gallop_double_correct [OF assms(1) 4(1,5) g]
    have "gallop_forward (below b) xs lo =
      lo' + 1 + partition_point (below b) (take (min (lo' + step) (length xs) - (lo' + 1)) (drop (lo' + 1) xs))"
      using 4 by (simp add: gallop_forward_def g Let_def)
    also have "\<dots> = seek (below b) xs (lo' + 1)" by (rule window_search) (use d in \<open>auto simp: min_def\<close>)
    also have "\<dots> = seek (below b) xs lo" by (rule seek_from) (use d assms in auto)
    finally show ?thesis .
  qed
qed

lemma stride_double_correct:
  assumes "stride_double (below b) xs index k = (index', step)" "index \<le> length xs"
  shows "index \<le> index' \<and> index' \<le> length xs \<and> (index < index' \<longrightarrow> below b (xs ! (index' - 1))) \<and>
    (index' + step < length xs \<longrightarrow> \<not> below b (xs ! (index' + step - 1)) \<and> 0 < step)"
  using assms
proof (induction "below b" xs index k rule: stride_double.induct)
  case (1 xs index k)
  have pos: "0 < (push_bit k 1 :: nat)" by (simp add: push_bit_eq_mult)
  show ?case
  proof (cases "length xs - index > push_bit k 1 \<and> below b (xs ! (index + push_bit k 1 - 1))")
    case True
    then have "stride_double (below b) xs (index + push_bit k 1) (k + 1) = (index', step)"
      using "1.prems"(1) unfolding stride_double.simps [of _ xs index] if_P [OF True] by simp
    moreover have le: "index + push_bit k 1 \<le> length xs" using True by linarith
    ultimately have ih: "index + push_bit k 1 \<le> index' \<and> index' \<le> length xs \<and>
      (index + push_bit k 1 < index' \<longrightarrow> below b (xs ! (index' - 1))) \<and>
      (index' + step < length xs \<longrightarrow> \<not> below b (xs ! (index' + step - 1)) \<and> 0 < step)"
      by (rule "1.hyps" [OF True])
    show ?thesis
    proof (cases "index' = index + push_bit k 1")
      case True
      then show ?thesis using ih \<open>length xs - index > push_bit k 1 \<and> below b (xs ! (index + push_bit k 1 - 1))\<close> by simp
    next
      case False
      then show ?thesis using ih by auto
    qed
  next
    case False
    then have "index' = index" "step = push_bit k 1"
      using "1.prems"(1) unfolding stride_double.simps [of _ xs index] if_not_P [OF False] by simp_all
    then show ?thesis using False "1.prems"(2) pos by auto
  qed
qed

lemma stride_blocks_seek:
  "ok xs \<Longrightarrow> index \<le> length xs \<Longrightarrow> stride_blocks strides (below b) xs index = seek (below b) xs index"
proof (induction strides arbitrary: index)
  case 0
  obtain index' step where d: "stride_double (below b) xs index 4 = (index', step)" by fastforce
  note c = stride_double_correct [OF d 0(2)]
  let ?m = "min (index' + step) (length xs)"
  have "stride_blocks 0 (below b) xs index =
    index' + partition_point (below b) (take (?m - index') (drop index' xs))" by (simp add: d Let_def)
  also have "\<dots> = seek (below b) xs index'"
  proof (rule window_search)
    show "index' \<le> ?m" "?m \<le> length xs" using c by simp_all
    show "\<not> below b (xs ! ?m)" if less: "?m < length xs"
    proof
      assume "below b (xs ! ?m)"
      then have "below b (xs ! (?m - 1))" by (rule split [OF 0(1) diff_le_self less])
      with c less show False by (simp add: min_def split: if_splits)
    qed
  qed
  also have "\<dots> = seek (below b) xs index" by (rule seek_from [OF 0(1)]) (use c in auto)
  finally show ?case .
next
  case (Suc strides)
  show ?case
  proof (cases "length xs - index < runs_per_stride \<or> \<not> below b (xs ! (index + runs_per_stride - 1))")
    case False
    then have inside: "index + runs_per_stride \<le> length xs" using Suc(3) by linarith
    have "stride_blocks (Suc strides) (below b) xs index = stride_blocks strides (below b) xs (index + runs_per_stride)"
      using False by simp
    also have "\<dots> = seek (below b) xs (index + runs_per_stride)"
      by (rule Suc(1) [OF Suc(2) inside])
    also have "\<dots> = seek (below b) xs index" by (rule seek_from [OF Suc(2)]) (use False inside in auto)
    finally show ?thesis .
  qed auto
qed

lemma stride_to_run_reaching_seek:
  "ok xs \<Longrightarrow> index \<le> length xs \<Longrightarrow> stride_to_run_reaching (below b) xs index = seek (below b) xs index"
  by (simp add: stride_to_run_reaching_def stride_blocks_seek)

lemma run_reaching_loop_seek:
  "ok xs \<Longrightarrow> index \<le> length xs \<Longrightarrow> run_reaching_loop (below b) xs index steps = seek (below b) xs index"
proof (induction "below b" xs index steps rule: run_reaching_loop.induct)
  case (1 xs index steps)
  show ?case
  proof (cases "index < length xs \<and> below b (xs ! index)")
    case True
    have from_next: "seek (below b) xs (index + 1) = seek (below b) xs index"
      by (rule seek_from [OF "1.prems"(1)]) (use True in auto)
    consider "index + 1 = length xs" | "index + 1 \<noteq> length xs" "steps + 1 = linear_run_steps"
      | "index + 1 \<noteq> length xs" "steps + 1 \<noteq> linear_run_steps" by blast
    then show ?thesis
    proof cases
      case 1
      then have "seek (below b) xs (index + 1) = length xs" by (simp add: seek_stop)
      then show ?thesis
        unfolding run_reaching_loop.simps [of _ xs index] if_P [OF True] if_P [OF 1] using from_next by simp
    next
      case 2
      then show ?thesis
        unfolding run_reaching_loop.simps [of _ xs index] if_P [OF True] if_not_P [OF 2(1)] if_P [OF 2(2)]
        using from_next "1.prems"(1) True by (simp add: stride_to_run_reaching_seek)
    next
      case 3
      then show ?thesis
        unfolding run_reaching_loop.simps [of _ xs index] if_P [OF True] if_not_P [OF 3(1)] if_not_P [OF 3(2)]
        using from_next "1.hyps" [OF True 3 "1.prems"(1)] True by simp
    qed
  next
    case False
    then show ?thesis
      unfolding run_reaching_loop.simps [of _ xs index] if_not_P [OF False] using "1.prems"(2) by (intro seek_stop [symmetric]) auto
  qed
qed

lemma run_reaching_seek: "ok xs \<Longrightarrow> index \<le> length xs \<Longrightarrow> run_reaching (below b) xs index = seek (below b) xs index"
  by (simp add: run_reaching_def run_reaching_loop_seek)

end

subsection \<open>The lists the kernels search\<close>

lemma wf_runs_end_mono: "wf_runs rs \<Longrightarrow> i \<le> j \<Longrightarrow> j < length rs \<Longrightarrow> unat (rend (rs ! i)) \<le> unat (rend (rs ! j))"
  using wf_runs_gap_nth [of rs i j] wf_runs_ok [of rs "rs ! j"] by (cases "i = j") auto

text \<open>A run list by the ends of its runs, against a low value and against a limit past the domain; an array from
  below and from above.\<close>

interpretation run_ends: ordered_search wf_runs "\<lambda>v r. rend r < v"
proof unfold_locales
  show "rend (rs ! i) < b" if "wf_runs rs" "i \<le> j" "j < length rs" "rend (rs ! j) < b" for rs i j b
    using wf_runs_end_mono [OF that(1-3)] that(4) by (simp add: word_less_nat_alt)
qed

interpretation run_limits: ordered_search wf_runs "\<lambda>limit r. unat (rend r) < limit"
proof unfold_locales
  show "unat (rend (rs ! i)) < b" if "wf_runs rs" "i \<le> j" "j < length rs" "unat (rend (rs ! j)) < b" for rs i j b
    using wf_runs_end_mono [OF that(1-3)] that(4) by simp
qed

interpretation array_from: ordered_search strict "\<lambda>v x. x < v"
  by unfold_locales (metis strict_nth_mono order_le_less_trans)

interpretation array_past: ordered_search strict "\<lambda>v x. x \<le> v"
  by unfold_locales (metis strict_nth_mono order_trans)

end
