(* ===== verification/Array_Filters.thy ===== *)
theory Array_Filters
  imports Gallop
begin

text \<open>
  An array filtered by a run list or by a bitset (\<open>array_ops.hpp\<close>, last part): the values inside for an
  intersection, the values outside for a difference, into another buffer or in the array's own. The run filters
  cross a stretch of values in one of three forms, chosen from the number of values to a run.
\<close>

subsection \<open>Array and runs\<close>

datatype stretch_form = Per_value | Stepped | Whole

definition values_per_run_for_stretch_copy :: nat where "values_per_run_for_stretch_copy = 16"
definition values_per_run_for_difference_steps :: nat where "values_per_run_for_difference_steps = 8"
definition values_per_run_for_difference_whole :: nat where "values_per_run_for_difference_whole = 32"
definition covered_steps_before_gallop :: nat where "covered_steps_before_gallop = 8"

definition gallop_past_covered :: "low list \<Rightarrow> nat \<Rightarrow> low \<Rightarrow> nat" where
  "gallop_past_covered keys index e = gallop_forward (\<lambda>x. x \<le> e) keys index"

text \<open>\<open>while ( ++ap < card && keys[ ap ] <= end )\<close>, left by the gallop after the eighth step.\<close>

function step_covered :: "low list \<Rightarrow> nat \<Rightarrow> low \<Rightarrow> nat \<Rightarrow> nat" where
  "step_covered keys ap e steps =
    (if ap + 1 < length keys \<and> keys ! (ap + 1) \<le> e then
       (if steps + 1 = covered_steps_before_gallop then gallop_past_covered keys (ap + 1) e
        else step_covered keys (ap + 1) e (steps + 1))
     else ap + 1)"
  by pat_completeness auto
termination
  by (relation "measure (\<lambda>(keys, ap, e, steps). length keys - ap)") auto

declare step_covered.simps [simp del]

text \<open>\<open>do out[ written++ ] = keys[ ap++ ] while ( ap < card && p( keys[ ap ] ) )\<close> moves \<open>ap\<close> to
  \<open>seek p keys (ap + 1)\<close>; the values it passes are written.\<close>

definition passed :: "'a list \<Rightarrow> nat \<Rightarrow> nat \<Rightarrow> 'a list" where
  "passed keys ap ap' = take (ap' - ap) (drop ap keys)"

text \<open>The loop returns for sorted runs only (a search in unsorted ones may not move), so it is a partial function:
  \<open>None\<close> is a loop that never ends.\<close>

partial_function (option) filter_run_loop ::
  "bool \<Rightarrow> stretch_form \<Rightarrow> low list \<Rightarrow> run list \<Rightarrow> nat \<Rightarrow> nat \<Rightarrow> low list \<Rightarrow> low list option" where
  "filter_run_loop keep form keys rs ap run_ix out =
    (if ap < length keys then
       (let v = keys ! ap; run_ix = run_reaching (\<lambda>r. rend r < v) rs run_ix
        in if run_ix = length rs then Some (out @ (if keep then [] else drop ap keys))
           else let r = rs ! run_ix
                in if v \<ge> rbegin r then
                     (if keep then
                        (if form = Whole then
                           (let ap' = seek (\<lambda>x. unat x < unat (rend r) + 1) keys (ap + 1)
                            in filter_run_loop keep form keys rs ap' run_ix (out @ passed keys ap ap'))
                         else filter_run_loop keep form keys rs (ap + 1) run_ix (out @ [v]))
                      else if form \<noteq> Stepped then
                        filter_run_loop keep form keys rs (gallop_forward (\<lambda>x. x \<le> rend r) keys ap) run_ix out
                      else filter_run_loop keep form keys rs (step_covered keys ap (rend r) 0) run_ix out)
                   else if keep then
                     filter_run_loop keep form keys rs (gallop_forward (\<lambda>x. x < rbegin r) keys ap) run_ix out
                   else if form = Whole then
                     (let stretch_end = gallop_forward (\<lambda>x. x < rbegin r) keys ap
                      in filter_run_loop keep form keys rs stretch_end run_ix (out @ passed keys ap stretch_end))
                   else if form = Stepped then
                     (let ap' = seek (\<lambda>x. x < rbegin r) keys (ap + 1)
                      in filter_run_loop keep form keys rs ap' run_ix (out @ passed keys ap ap'))
                   else filter_run_loop keep form keys rs (ap + 1) run_ix (out @ [v]))
     else Some out)"

definition filter_array_run_into_with :: "bool \<Rightarrow> stretch_form \<Rightarrow> low list \<Rightarrow> run list \<Rightarrow> low list option" where
  "filter_array_run_into_with keep form keys rs =
    (if rs = [] then Some (if keep then [] else keys) else filter_run_loop keep form keys rs 0 0 [])"

definition filter_array_run_into :: "bool \<Rightarrow> low list \<Rightarrow> run list \<Rightarrow> low list option" where
  "filter_array_run_into keep keys rs =
    (let n = length keys; m = length rs
     in if keep then
          (if n \<ge> m * values_per_run_for_stretch_copy then filter_array_run_into_with keep Whole keys rs
           else filter_array_run_into_with keep Per_value keys rs)
        else if n \<ge> m * values_per_run_for_difference_whole then filter_array_run_into_with keep Whole keys rs
        else if n \<ge> m * values_per_run_for_difference_steps then filter_array_run_into_with keep Stepped keys rs
        else filter_array_run_into_with keep Per_value keys rs)"

definition intersect_array_run :: "low list \<Rightarrow> run list \<Rightarrow> low list option" where
  "intersect_array_run keys rs = filter_array_run_into True keys rs"

definition difference_array_run :: "low list \<Rightarrow> run list \<Rightarrow> low list option" where
  "difference_array_run keys rs = filter_array_run_into False keys rs"

subsubsection \<open>Stretches\<close>

lemma passed_mem:
  assumes "strict keys" "ap \<le> ap'" "ap' \<le> length keys" "x \<in> set (passed keys ap ap')"
  shows "\<exists>i. ap \<le> i \<and> i < ap' \<and> x = keys ! i"
proof -
  obtain j where j: "j < length (passed keys ap ap')" "x = passed keys ap ap' ! j" using assms(4) by (auto simp: in_set_conv_nth)
  then have "j < ap' - ap" "x = keys ! (ap + j)" using assms(2,3) by (simp_all add: passed_def)
  then show ?thesis by (intro exI [of _ "ap + j"]) simp
qed

lemma filter_drop_passed:
  assumes "ap \<le> ap'" "\<And>x. x \<in> set (passed keys ap ap') \<Longrightarrow> P x = b"
  shows "filter P (drop ap keys) = (if b then passed keys ap ap' else []) @ filter P (drop ap' keys)"
proof -
  have "drop ap keys = passed keys ap ap' @ drop ap' keys"
  proof -
    have "drop (ap' - ap) (drop ap keys) = drop ap' keys" using assms(1) by simp
    then show ?thesis using append_take_drop_id [of "ap' - ap" "drop ap keys"] unfolding passed_def by argo
  qed
  moreover have "filter P (passed keys ap ap') = (if b then passed keys ap ap' else [])"
  proof (cases b)
    case True
    then have "\<forall>x\<in>set (passed keys ap ap'). P x" using assms(2) by blast
    then have "filter P (passed keys ap ap') = passed keys ap ap'" by (rule filter_True)
    with True show ?thesis by (simp only: if_True)
  next
    case False
    then have "\<forall>x\<in>set (passed keys ap ap'). \<not> P x" using assms(2) by blast
    then have "filter P (passed keys ap ap') = []" by (rule filter_False)
    with False show ?thesis by (simp only: if_False)
  qed
  ultimately show ?thesis by (simp only: filter_append)
qed

lemma passed_single: "ap < length keys \<Longrightarrow> passed keys ap (ap + 1) = [keys ! ap]"
  by (simp add: passed_def Cons_nth_drop_Suc [symmetric])

text \<open>A cursor on the runs: the runs before it end below the value.\<close>

definition run_cursor :: "run list \<Rightarrow> nat \<Rightarrow> low \<Rightarrow> bool" where
  "run_cursor rs i v \<longleftrightarrow> i \<le> length rs \<and> (\<forall>k<i. rend (rs ! k) < v)"

lemma run_cursor_mono: "run_cursor rs i v \<Longrightarrow> v \<le> w \<Longrightarrow> run_cursor rs i w"
  by (auto simp: run_cursor_def intro: order_less_le_trans)

lemma run_reaching_cursor:
  assumes "wf_runs rs" "run_cursor rs i v"
  defines "i' \<equiv> run_reaching (\<lambda>r. rend r < v) rs i"
  shows "run_cursor rs i' v" "i' < length rs \<Longrightarrow> v \<le> rend (rs ! i')" "i \<le> i'"
proof -
  have i: "i \<le> length rs" using assms(2) by (simp add: run_cursor_def)
  have i': "i' = seek (\<lambda>r. rend r < v) rs i" unfolding i'_def by (rule run_ends.run_reaching_seek [OF assms(1) i])
  note s = seek_parts [where p = "\<lambda>r. rend r < v" and xs = rs and lo = i, folded i']
  show "i \<le> i'" by (rule s(2))
  have "rend (rs ! k) < v" if "k < i'" for k
    using assms(2) s(3) [of k] that by (cases "k < i") (auto simp: run_cursor_def)
  then show "run_cursor rs i' v" using s(1) [OF i] by (simp add: run_cursor_def)
  show "v \<le> rend (rs ! i')" if "i' < length rs" using s(4) [OF i that] by simp
qed

lemma cursor_mem:
  assumes "wf_runs rs" "run_cursor rs i v" "v \<le> x"
  shows "i = length rs \<Longrightarrow> unat x \<notin> runs_set rs"
    "i < length rs \<Longrightarrow> rbegin (rs ! i) \<le> x \<Longrightarrow> x \<le> rend (rs ! i) \<Longrightarrow> unat x \<in> runs_set rs"
    "i < length rs \<Longrightarrow> x < rbegin (rs ! i) \<Longrightarrow> unat x \<notin> runs_set rs"
proof -
  have before: "\<not> unat x \<le> unat (rend (rs ! k))" if "k < i" for k
    using assms(2,3) that by (auto simp: run_cursor_def word_less_nat_alt word_le_nat_alt)
  show "unat x \<notin> runs_set rs" if "i = length rs"
    using before that by (auto elim!: runs_setE simp: in_set_conv_nth)
  show "unat x \<in> runs_set rs" if "i < length rs" "rbegin (rs ! i) \<le> x" "x \<le> rend (rs ! i)"
    using that by (intro runs_setI [of "rs ! i"]) (simp_all add: word_le_nat_alt)
  show "unat x \<notin> runs_set rs" if i: "i < length rs" "x < rbegin (rs ! i)"
  proof
    assume "unat x \<in> runs_set rs"
    then obtain r where "r \<in> set rs" "unat (rbegin r) \<le> unat x" "unat x \<le> unat (rend r)" by (rule runs_setE)
    then obtain k where k: "k < length rs" "unat (rbegin (rs ! k)) \<le> unat x" "unat x \<le> unat (rend (rs ! k))"
      by (auto simp: in_set_conv_nth)
    then have "\<not> k < i" using before by blast
    moreover have "k \<noteq> i" using k(2) i(2) by (auto simp: word_less_nat_alt)
    ultimately have "i < k" by simp
    then have "unat (rend (rs ! i)) + 1 < unat (rbegin (rs ! k))" using wf_runs_gap_nth [OF assms(1)] k(1) by blast
    moreover have "unat x < unat (rend (rs ! i))"
      using i(2) wf_runs_ok [OF assms(1), of "rs ! i"] i(1) by (simp add: word_less_nat_alt)
    ultimately show False using k(2) by simp
  qed
qed

text \<open>The two stretches: the values the run covers, and the values before it.\<close>

lemma covered_stretch:
  assumes "wf_runs rs" "strict keys" "ap < length keys" "run_cursor rs i (keys ! ap)" "i < length rs"
    and "rbegin (rs ! i) \<le> keys ! ap" "ap \<le> m" "m \<le> length keys" "\<And>k. ap \<le> k \<Longrightarrow> k < m \<Longrightarrow> keys ! k \<le> rend (rs ! i)"
    and "x \<in> set (passed keys ap m)"
  shows "unat x \<in> runs_set rs"
proof -
  obtain k where k: "ap \<le> k" "k < m" "x = keys ! k" using passed_mem [OF assms(2,7,8,10)] by blast
  then have "keys ! ap \<le> x" using strict_nth_mono [OF assms(2)] assms(8) by simp
  then show ?thesis using cursor_mem(2) [OF assms(1,4) _ assms(5)] assms(6) assms(9) [OF k(1,2)] k(3) by simp
qed

lemma gap_stretch:
  assumes "wf_runs rs" "strict keys" "ap < length keys" "run_cursor rs i (keys ! ap)" "i < length rs"
    and "ap \<le> m" "m \<le> length keys" "\<And>k. ap \<le> k \<Longrightarrow> k < m \<Longrightarrow> keys ! k < rbegin (rs ! i)" "x \<in> set (passed keys ap m)"
  shows "unat x \<notin> runs_set rs"
proof -
  obtain k where k: "ap \<le> k" "k < m" "x = keys ! k" using passed_mem [OF assms(2,6,7,9)] by blast
  then have "keys ! ap \<le> x" using strict_nth_mono [OF assms(2)] assms(7) by simp
  then show ?thesis using cursor_mem(3) [OF assms(1,4) _ assms(5)] assms(8) [OF k(1,2)] k(3) by simp
qed

lemma seek_moves:
  assumes "ap < length xs" "p (xs ! ap)"
  shows "ap < seek p xs ap" "seek p xs ap \<le> length xs" "ap \<le> k \<Longrightarrow> k < seek p xs ap \<Longrightarrow> p (xs ! k)"
proof -
  show "ap < seek p xs ap"
    using seek_parts(2) [of ap p xs] seek_parts(4) [of ap xs p] assms by (cases "seek p xs ap = ap") auto
  show "seek p xs ap \<le> length xs" using seek_parts(1) [of ap xs p] assms(1) by simp
  show "p (xs ! k)" if "ap \<le> k" "k < seek p xs ap" by (rule seek_parts(3) [OF that])
qed

lemma do_while:
  assumes "ap < length xs" "p (xs ! ap)"
  shows "ap < seek p xs (ap + 1)" "seek p xs (ap + 1) \<le> length xs" "ap \<le> k \<Longrightarrow> k < seek p xs (ap + 1) \<Longrightarrow> p (xs ! k)"
proof -
  show "ap < seek p xs (ap + 1)" using seek_parts(2) [of "ap + 1" p xs] by simp
  show "seek p xs (ap + 1) \<le> length xs" using seek_parts(1) [of "ap + 1" xs p] assms(1) by simp
  show "p (xs ! k)" if "ap \<le> k" "k < seek p xs (ap + 1)"
    using seek_parts(3) [of "ap + 1" k p xs] that assms(2) by (cases "k = ap") simp_all
qed

lemma step_covered_correct:
  assumes "strict keys" "ap < length keys" "keys ! ap \<le> e"
  shows "ap < step_covered keys ap e steps" "step_covered keys ap e steps \<le> length keys"
    "ap \<le> k \<Longrightarrow> k < step_covered keys ap e steps \<Longrightarrow> keys ! k \<le> e"
proof -
  have "ap < step_covered keys ap e steps \<and> step_covered keys ap e steps \<le> length keys \<and>
    (\<forall>k. ap \<le> k \<longrightarrow> k < step_covered keys ap e steps \<longrightarrow> keys ! k \<le> e)"
    using assms
  proof (induction keys ap e steps rule: step_covered.induct)
    case (1 keys ap e steps)
    show ?case
    proof (cases "ap + 1 < length keys \<and> keys ! (ap + 1) \<le> e")
      case True
      show ?thesis
      proof (cases "steps + 1 = covered_steps_before_gallop")
        case gallop: True
        have eq: "step_covered keys ap e steps = gallop_forward (\<lambda>x. x \<le> e) keys (ap + 1)"
          unfolding step_covered.simps [of keys ap] if_P [OF True] if_P [OF gallop] gallop_past_covered_def ..
        have le: "ap + 1 \<le> length keys" using True by simp
        have eq': "step_covered keys ap e steps = seek (\<lambda>x. x \<le> e) keys (ap + 1)"
          unfolding eq by (rule array_past.gallop_forward_seek [OF "1.prems"(1) le])
        have "keys ! k \<le> e" if "ap \<le> k" "k < seek (\<lambda>x. x \<le> e) keys (ap + 1)" for k
          using seek_parts(3) [of "ap + 1" k "\<lambda>x. x \<le> e" keys] that "1.prems"(3) by (cases "k = ap") simp_all
        then show ?thesis
          unfolding eq' using seek_parts(1,2) [where p = "\<lambda>x. x \<le> e" and xs = keys and lo = "ap + 1"] le by auto
      next
        case False
        then have "step_covered keys ap e steps = step_covered keys (ap + 1) e (steps + 1)"
          unfolding step_covered.simps [of keys ap e steps] if_P [OF True] by simp
        moreover have ih: "ap + 1 < step_covered keys (ap + 1) e (steps + 1)"
          "step_covered keys (ap + 1) e (steps + 1) \<le> length keys"
          "\<And>k. ap + 1 \<le> k \<Longrightarrow> k < step_covered keys (ap + 1) e (steps + 1) \<Longrightarrow> keys ! k \<le> e"
          using "1.IH" [OF True False "1.prems"(1)] True by blast+
        moreover have "keys ! k \<le> e" if "ap \<le> k" "k < step_covered keys (ap + 1) e (steps + 1)" for k
          using ih(3) [of k] that "1.prems"(3) by (cases "k = ap") simp_all
        ultimately show ?thesis by simp
      qed
    next
      case False
      have "step_covered keys ap e steps = ap + 1" unfolding step_covered.simps [of keys ap] if_not_P [OF False] ..
      then show ?thesis using "1.prems"(2,3) by (auto simp: less_Suc_eq)
    qed
  qed
  then show "ap < step_covered keys ap e steps" "step_covered keys ap e steps \<le> length keys"
    "ap \<le> k \<Longrightarrow> k < step_covered keys ap e steps \<Longrightarrow> keys ! k \<le> e" by blast+
qed

lemma filter_run_loop_correct:
  assumes "wf_runs rs" "strict keys"
  shows "ap \<le> length keys \<Longrightarrow> (ap < length keys \<Longrightarrow> run_cursor rs i (keys ! ap)) \<Longrightarrow>
    filter_run_loop keep form keys rs ap i out = Some (out @ filter (\<lambda>v. (unat v \<in> runs_set rs) = keep) (drop ap keys))"
proof (induction "length keys - ap" arbitrary: ap i out rule: less_induct)
  case less
  let ?P = "\<lambda>v. (unat v \<in> runs_set rs) = keep"
  note unfold = filter_run_loop.simps [of keep form keys rs ap i out]
  show ?case
  proof (cases "ap < length keys")
    case False
    then show ?thesis using less.prems(1) unfolding unfold by simp
  next
    case ap: True
    define v where "v = keys ! ap"
    define j where "j = run_reaching (\<lambda>r. rend r < v) rs i"
    note c = run_reaching_cursor [OF assms(1) less.prems(2) [OF ap, folded v_def], folded j_def]
    have up: "v \<le> x" if x: "x \<in> set (drop ap keys)" for x
    proof -
      obtain k where "ap + k < length keys" "x = keys ! (ap + k)" using in_set_drop_nth [OF x] by blast
      then show ?thesis using strict_nth_mono [OF assms(2)] by (simp add: v_def)
    qed
    have go: "filter_run_loop keep form keys rs m j (out @ (if b = keep then passed keys ap m else [])) =
        Some (out @ filter ?P (drop ap keys))"
      if "ap < m" "m \<le> length keys" "\<And>x. x \<in> set (passed keys ap m) \<Longrightarrow> (unat x \<in> runs_set rs) = b" for m b
    proof -
      have "filter_run_loop keep form keys rs m j (out @ (if b = keep then passed keys ap m else [])) =
          Some ((out @ (if b = keep then passed keys ap m else [])) @ filter ?P (drop m keys))"
      proof (rule less.hyps)
        show "length keys - m < length keys - ap" using that(1,2) by linarith
        show "run_cursor rs j (keys ! m)" if "m < length keys"
          using run_cursor_mono [OF c(1)] strict_nth_mono [OF assms(2), of ap m] \<open>ap < m\<close> that by (simp add: v_def)
      qed (rule that(2))
      moreover have "filter ?P (drop ap keys) = (if b = keep then passed keys ap m else []) @ filter ?P (drop m keys)"
      proof (rule filter_drop_passed)
        show "ap \<le> m" using that(1) by simp
        show "((unat x \<in> runs_set rs) = keep) = (b = keep)" if "x \<in> set (passed keys ap m)" for x
          using \<open>\<And>x. x \<in> set (passed keys ap m) \<Longrightarrow> (unat x \<in> runs_set rs) = b\<close> [OF that] by blast
      qed
      ultimately show ?thesis by (simp only: append_assoc)
    qed
    show ?thesis
    proof (cases "j = length rs")
      case True
      then have "unat x \<notin> runs_set rs" if "x \<in> set (drop ap keys)" for x using cursor_mem(1) [OF assms(1) c(1) up [OF that]] by blast
      then have "filter ?P (drop ap keys) = (if keep then [] else drop ap keys)" by (auto simp: filter_empty_conv filter_id_conv)
      then show ?thesis unfolding unfold using ap True by (simp add: Let_def flip: v_def j_def)
    next
      case False
      then have j: "j < length rs" using c(1) by (simp add: run_cursor_def)
      have end_j: "v \<le> rend (rs ! j)" by (rule c(2) [OF j])
      note cur = c(1) [unfolded v_def]
      have ap1: "ap < ap + 1" "ap + 1 \<le> length keys" using ap by simp_all
      have only: "k = ap" if "ap \<le> k" "k < ap + 1" for k using that by simp
      have single: "passed keys ap (ap + 1) = [v]" using passed_single [OF ap] by (simp add: v_def)
      note unf = unfold [unfolded Let_def, folded v_def, folded j_def, unfolded if_P [OF ap] if_not_P [OF False]]
      show ?thesis
      proof (cases "rbegin (rs ! j) \<le> v")
        case inside: True
        have covered: "(unat x \<in> runs_set rs) = True"
          if "ap < m" "m \<le> length keys" "\<And>k. ap \<le> k \<Longrightarrow> k < m \<Longrightarrow> keys ! k \<le> rend (rs ! j)" "x \<in> set (passed keys ap m)" for x m
          using covered_stretch [OF assms ap cur j inside [unfolded v_def] less_imp_le [OF that(1)] that(2,3,4)] by blast
        let ?below = "\<lambda>x. x \<le> rend (rs ! j)"
        have at: "keys ! ap \<le> rend (rs ! j)" using end_j by (simp add: v_def)
        show ?thesis
        proof (cases keep)
          case keep: True
          show ?thesis
          proof (cases "form = Whole")
            case True
            have same: "(\<lambda>x :: low. unat x < unat (rend (rs ! j)) + 1) = ?below" by (auto simp: fun_eq_iff word_le_nat_alt)
            note s = do_while [where p = ?below, OF ap at]
            show ?thesis unfolding unf same using go [OF s(1,2) covered [OF s(1,2)], OF s(3)] inside keep True by simp
          next
            case False
            have "filter_run_loop keep form keys rs (ap + 1) j (out @ (if True = keep then passed keys ap (ap + 1) else [])) =
              Some (out @ filter ?P (drop ap keys))"
              by (rule go [OF ap1 covered [OF ap1]]) (use at only in blast)+
            then show ?thesis unfolding unf using inside keep False by (simp add: single [simplified])
          qed
        next
          case drop: False
          show ?thesis
          proof (cases "form = Stepped")
            case True
            note s = step_covered_correct [where steps = 0, OF assms(2) ap at]
            show ?thesis unfolding unf using go [OF s(1,2) covered [OF s(1,2)], OF s(3)] inside drop True by simp
          next
            case False
            have g: "gallop_forward ?below keys ap = seek ?below keys ap"
              by (rule array_past.gallop_forward_seek [OF assms(2) less_imp_le [OF ap]])
            note s = seek_moves [where p = ?below, OF ap at, folded g]
            show ?thesis unfolding unf using go [OF s(1,2) covered [OF s(1,2)], OF s(3)] inside drop False by simp
          qed
        qed
      next
        case gap: False
        have outside: "(unat x \<in> runs_set rs) = False"
          if "ap < m" "m \<le> length keys" "\<And>k. ap \<le> k \<Longrightarrow> k < m \<Longrightarrow> keys ! k < rbegin (rs ! j)" "x \<in> set (passed keys ap m)" for x m
          using gap_stretch [OF assms ap cur j less_imp_le [OF that(1)] that(2,3,4)] by blast
        let ?below = "\<lambda>x. x < rbegin (rs ! j)"
        have at: "keys ! ap < rbegin (rs ! j)" using gap by (simp add: v_def)
        have g: "gallop_forward ?below keys ap = seek ?below keys ap"
          by (rule array_from.gallop_forward_seek [OF assms(2) less_imp_le [OF ap]])
        note s = seek_moves [where p = ?below, OF ap at, folded g]
        note gallop = go [OF s(1,2) outside [OF s(1,2)], OF s(3)]
        note d = do_while [where p = ?below, OF ap at]
        note scan = go [OF d(1,2) outside [OF d(1,2)], OF d(3)]
        have "filter_run_loop keep form keys rs (ap + 1) j (out @ (if False = keep then passed keys ap (ap + 1) else [])) =
          Some (out @ filter ?P (drop ap keys))"
          by (rule go [OF ap1 outside [OF ap1]]) (use at only in blast)+
        then have one: "\<not> keep \<Longrightarrow> filter_run_loop keep form keys rs (ap + 1) j (out @ [v]) = Some (out @ filter ?P (drop ap keys))"
          by (simp add: single [simplified])
        show ?thesis unfolding unf using gap gallop scan one by (cases keep; cases form) simp_all
      qed
    qed
  qed
qed

theorem filter_array_run_into_with_correct:
  assumes "wf_runs rs" "strict keys"
  shows "filter_array_run_into_with keep form keys rs = Some (filter (\<lambda>v. (unat v \<in> runs_set rs) = keep) keys)"
  using filter_run_loop_correct [OF assms, of 0 0 keep form "[]"]
  by (cases "rs = []") (simp_all add: filter_array_run_into_with_def run_cursor_def filter_False)

lemma filter_array_run_into_correct:
  assumes "wf_runs rs" "strict keys"
  shows "filter_array_run_into keep keys rs = Some (filter (\<lambda>v. (unat v \<in> runs_set rs) = keep) keys)"
  by (simp add: filter_array_run_into_def Let_def filter_array_run_into_with_correct [OF assms])

lemma array_set_filter: "array_set (filter (\<lambda>v. (unat v \<in> S) = keep) keys) = (if keep then array_set keys \<inter> S else array_set keys - S)"
  by (auto simp: array_set_def)

lemma intersect_array_run_correct:
  assumes "wf_runs rs" "strict keys"
  obtains vs where "intersect_array_run keys rs = Some vs" "strict vs" "array_set vs = array_set keys \<inter> runs_set rs"
  using filter_array_run_into_correct [OF assms, of True] assms(2) array_set_filter [of "runs_set rs" True keys]
  by (auto simp: intersect_array_run_def intro: that)

lemma difference_array_run_correct:
  assumes "wf_runs rs" "strict keys"
  obtains vs where "difference_array_run keys rs = Some vs" "strict vs" "array_set vs = array_set keys - runs_set rs"
  using filter_array_run_into_correct [OF assms, of False] assms(2) array_set_filter [of "runs_set rs" False keys]
  by (auto simp: difference_array_run_def intro: that)

subsection \<open>In the array's own buffer\<close>

text \<open>\<open>do base[ out++ ] = base[ in++ ] while ( in < card && base[ in ] < stretch_end )\<close>.\<close>

function copy_stretch :: "nat \<Rightarrow> nat \<Rightarrow> nat \<Rightarrow> low list \<Rightarrow> nat \<times> nat \<times> low list" where
  "copy_stretch stretch_end i out buf =
    (let buf = buf[out := buf ! i]
     in if i + 1 < length buf \<and> unat (buf ! (i + 1)) < stretch_end then copy_stretch stretch_end (i + 1) (out + 1) buf
        else (i + 1, out + 1, buf))"
  by pat_completeness auto
termination
  by (relation "measure (\<lambda>(e, i, out, buf). length buf - i)") auto

declare copy_stretch.simps [simp del]

definition finish_filter :: "bool \<Rightarrow> nat \<Rightarrow> nat \<Rightarrow> low list \<Rightarrow> low list" where
  "finish_filter keep i out buf =
    (let n = length buf - i
     in if \<not> keep then take (out + n) (memmove buf out i n) else take out buf)"

partial_function (option) filter_run_inplace_loop ::
  "bool \<Rightarrow> bool \<Rightarrow> run list \<Rightarrow> nat \<Rightarrow> nat \<Rightarrow> nat \<Rightarrow> low list \<Rightarrow> low list option" where
  "filter_run_inplace_loop keep long_stretches rs i run_ix out buf =
    (if i < length buf then
       (let v = buf ! i; run_ix = run_reaching (\<lambda>r. rend r < v) rs run_ix
        in if run_ix = length rs then Some (finish_filter keep i out buf)
           else let r = rs ! run_ix; in_run = (v \<ge> rbegin r)
                in if in_run = keep then
                     (if long_stretches then
                        (case copy_stretch (if keep then unat (rend r) + 1 else unat (rbegin r)) i out buf of
                           (i, out, buf) \<Rightarrow> filter_run_inplace_loop keep long_stretches rs i run_ix out buf)
                      else filter_run_inplace_loop keep long_stretches rs (i + 1) run_ix (out + 1) (buf[out := v]))
                   else if in_run then
                     filter_run_inplace_loop keep long_stretches rs (gallop_forward (\<lambda>x. x \<le> rend r) buf i) run_ix out buf
                   else
                     filter_run_inplace_loop keep long_stretches rs (gallop_forward (\<lambda>x. x < rbegin r) buf i) run_ix out buf)
     else Some (finish_filter keep i out buf))"

definition filter_array_run_inplace_with :: "bool \<Rightarrow> bool \<Rightarrow> low list \<Rightarrow> run list \<Rightarrow> low list option" where
  "filter_array_run_inplace_with keep long_stretches base rs =
    (if rs = [] then Some (finish_filter keep 0 0 base) else filter_run_inplace_loop keep long_stretches rs 0 0 0 base)"

definition filter_array_run_inplace :: "bool \<Rightarrow> low list \<Rightarrow> run list \<Rightarrow> low list option" where
  "filter_array_run_inplace keep base rs =
    (if length base \<ge> length rs * values_per_run_for_stretch_copy then filter_array_run_inplace_with keep True base rs
     else filter_array_run_inplace_with keep False base rs)"

text \<open>The searches read nothing before their start, so what was written there does not matter.\<close>

lemma nth_same_drop: "drop lo xs = drop lo ys \<Longrightarrow> lo \<le> i \<Longrightarrow> i < length xs \<Longrightarrow> xs ! i = ys ! i"
proof -
  assume a: "drop lo xs = drop lo ys" "lo \<le> i" "i < length xs"
  have "length xs - lo = length ys - lo" using arg_cong [OF a(1), of length] by (simp only: length_drop)
  then have "lo \<le> length ys" using a(2,3) by linarith
  then have "ys ! i = drop lo ys ! (i - lo)" using a(2) by simp
  moreover have "xs ! i = drop lo xs ! (i - lo)" using a(2,3) by simp
  ultimately show ?thesis using a(1) by simp
qed

lemma gallop_double_suffix:
  "drop lo xs = drop lo ys \<Longrightarrow> length xs = length ys \<Longrightarrow> gallop_double p xs lo k = gallop_double p ys lo k"
proof (induction p xs lo k rule: gallop_double.induct)
  case (1 p xs lo k)
  have same: "xs ! (lo + push_bit k 1) = ys ! (lo + push_bit k 1)" if "lo + push_bit k 1 < length xs"
    using nth_same_drop [OF "1.prems"(1) _ that] by simp
  show ?case
  proof (cases "lo + push_bit k 1 < length xs \<and> p (xs ! (lo + push_bit k 1))")
    case True
    then have True': "lo + push_bit k 1 < length ys \<and> p (ys ! (lo + push_bit k 1))" using same "1.prems"(2) by simp
    have "drop (lo + push_bit k 1) xs = drop (lo + push_bit k 1) ys"
      using arg_cong [OF "1.prems"(1), of "drop (push_bit k 1)"] by (simp add: add.commute)
    then show ?thesis
      unfolding gallop_double.simps [of p xs lo] gallop_double.simps [of p ys lo] if_P [OF True] if_P [OF True']
      by (rule "1.IH" [OF True _ "1.prems"(2)])
  next
    case False
    then have False': "\<not> (lo + push_bit k 1 < length ys \<and> p (ys ! (lo + push_bit k 1)))" using same "1.prems"(2) by auto
    show ?thesis
      unfolding gallop_double.simps [of p xs lo] gallop_double.simps [of p ys lo] if_not_P [OF False] if_not_P [OF False'] ..
  qed
qed

lemma gallop_double_start: "gallop_double p xs lo k = (lo', step) \<Longrightarrow> lo \<le> lo'"
proof (induction p xs lo k rule: gallop_double.induct)
  case (1 p xs lo k)
  show ?case
  proof (cases "lo + push_bit k 1 < length xs \<and> p (xs ! (lo + push_bit k 1))")
    case True
    then have "gallop_double p xs (lo + push_bit k 1) (k + 1) = (lo', step)"
      using "1.prems" unfolding gallop_double.simps [of p xs lo] if_P [OF True] by simp
    from "1.IH" [OF True this] show ?thesis by simp
  next
    case False
    then show ?thesis using "1.prems" unfolding gallop_double.simps [of p xs lo] if_not_P [OF False] by simp
  qed
qed

lemma gallop_forward_suffix:
  assumes "drop lo xs = drop lo ys" "length xs = length ys" "lo \<le> length xs"
  shows "gallop_forward p xs lo = gallop_forward p ys lo"
proof -
  have at: "xs ! (lo + n) = ys ! (lo + n)" if "lo + n < length xs" for n
    using nth_same_drop [OF assms(1) _ that] by simp
  have d: "drop (lo + 3) xs = drop (lo + 3) ys"
    using arg_cong [OF assms(1), of "drop 3"] by (simp add: add.commute)
  obtain lo' step where g: "gallop_double p xs (lo + 3) 0 = (lo', step)" by fastforce
  have g': "gallop_double p ys (lo + 3) 0 = (lo', step)" using gallop_double_suffix [OF d assms(2)] g by simp
  have "drop (lo' + 1) xs = drop (lo' + 1 - lo) (drop lo xs)" "drop (lo' + 1) ys = drop (lo' + 1 - lo) (drop lo ys)"
    using gallop_double_start [OF g] by simp_all
  then have d': "drop (lo' + 1) xs = drop (lo' + 1) ys" using assms(1) by simp
  show ?thesis
    unfolding gallop_forward_def g g' Let_def prod.case d' assms(2)
    using at [of 0] at [of 1] at [of 2] at [of 3] assms(2,3) by (auto simp: not_le)
qed

text \<open>The buffer holds the kept values before \<open>out\<close> and the array's own values from \<open>i\<close> on.\<close>

definition compacting :: "low list \<Rightarrow> nat \<Rightarrow> nat \<Rightarrow> low list \<Rightarrow> bool" where
  "compacting keys i out buf \<longleftrightarrow> length buf = length keys \<and> out \<le> i \<and> i \<le> length keys \<and> drop i buf = drop i keys"

lemma compacting_nth: "compacting keys i out buf \<Longrightarrow> i \<le> k \<Longrightarrow> k < length keys \<Longrightarrow> buf ! k = keys ! k"
  unfolding compacting_def by (metis nth_same_drop)

lemma compacting_skip: "compacting keys i out buf \<Longrightarrow> i \<le> m \<Longrightarrow> m \<le> length keys \<Longrightarrow> compacting keys m out buf"
proof -
  assume c: "compacting keys i out buf" "i \<le> m" "m \<le> length keys"
  have "drop (m - i) (drop i buf) = drop (m - i) (drop i keys)" using c(1) by (simp add: compacting_def)
  then have "drop m buf = drop m keys" unfolding drop_drop using c(2) by simp
  with c show ?thesis by (simp add: compacting_def)
qed

lemma compacting_write:
  assumes "compacting keys i out buf" "i < length keys"
  shows "compacting keys (i + 1) (out + 1) (buf[out := buf ! i])"
    "take (out + 1) (buf[out := buf ! i]) = take out buf @ [keys ! i]"
proof -
  have "drop (i + 1) buf = drop (i + 1) keys"
    using compacting_skip [OF assms(1), of "i + 1"] assms(2) by (simp add: compacting_def)
  then show "compacting keys (i + 1) (out + 1) (buf[out := buf ! i])"
    using assms by (simp add: compacting_def drop_update_before)
  have "out < length buf" using assms by (simp add: compacting_def)
  then show "take (out + 1) (buf[out := buf ! i]) = take out buf @ [keys ! i]"
    using compacting_nth [OF assms(1) order_refl assms(2)] take_Suc_update [of out buf "buf ! i"] by simp
qed

lemma finish_filter_correct:
  assumes "compacting keys i out buf"
  shows "finish_filter keep i out buf = take out buf @ (if keep then [] else drop i keys)"
  using assms by (auto simp: compacting_def finish_filter_def Let_def memmove_inside)

lemma passed_Cons:
  "ap < length keys \<Longrightarrow> ap < m \<Longrightarrow> passed keys ap m = keys ! ap # passed keys (ap + 1) m"
  by (simp add: passed_def Cons_nth_drop_Suc [symmetric] take_Cons')

lemma copy_stretch_correct:
  fixes bound :: nat
  assumes "compacting keys i out buf" "i < length keys"
  defines "m \<equiv> seek (\<lambda>x. unat x < bound) keys (i + 1)"
  obtains buf' where "copy_stretch bound i out buf = (m, out + (m - i), buf')" "compacting keys m (out + (m - i)) buf'"
    "take (out + (m - i)) buf' = take out buf @ passed keys i m"
proof -
  let ?p = "\<lambda>x :: low. unat x < bound"
  have "\<exists>buf'. copy_stretch bound i out buf = (m, out + (m - i), buf') \<and> compacting keys m (out + (m - i)) buf' \<and>
    take (out + (m - i)) buf' = take out buf @ passed keys i m"
    using assms(1,2) unfolding m_def
  proof (induction bound i out buf rule: copy_stretch.induct)
    case (1 bound i out buf)
    let ?buf = "buf[out := buf ! i]" and ?p = "\<lambda>x :: low. unat x < bound"
    note w = compacting_write [OF "1.prems"]
    have len: "length ?buf = length keys" using "1.prems"(1) by (simp add: compacting_def)
    have at: "i + 1 < length keys \<Longrightarrow> ?buf ! (i + 1) = keys ! (i + 1)" using compacting_nth [OF w(1)] by simp
    show ?case
    proof (cases "i + 1 < length keys \<and> ?p (keys ! (i + 1))")
      case True
      then have go: "i + 1 < length ?buf \<and> unat (?buf ! (i + 1)) < bound" using at len by simp
      let ?m = "seek ?p keys (i + 1 + 1)"
      have m: "seek ?p keys (i + 1) = ?m"
      proof (rule seek_unique)
        show "i + 1 \<le> ?m" "?m \<le> length keys"
          using seek_parts(1) [of "i + 1 + 1" keys ?p] seek_parts(2) [of "i + 1 + 1" ?p keys] True by simp_all
        show "?p (keys ! k)" if "i + 1 \<le> k" "k < ?m" for k
          using do_while(3) [where p = ?p and xs = keys and ap = "i + 1"] True that by blast
        show "?m < length keys \<Longrightarrow> \<not> ?p (keys ! ?m)" using seek_parts(4) [of "i + 1 + 1" keys ?p] True by simp
      qed
      have less: "i + 1 < ?m" using seek_parts(2) [of "i + 1 + 1" ?p keys] by simp
      obtain buf' where b: "copy_stretch bound (i + 1) (out + 1) ?buf = (?m, out + 1 + (?m - (i + 1)), buf')"
        "compacting keys ?m (out + 1 + (?m - (i + 1))) buf'"
        "take (out + 1 + (?m - (i + 1))) buf' = take (out + 1) ?buf @ passed keys (i + 1) ?m"
        using "1.IH" [OF refl go w(1)] True by blast
      have shift: "out + 1 + (?m - (i + 1)) = out + (?m - i)" using less by simp
      have "copy_stretch bound i out buf = copy_stretch bound (i + 1) (out + 1) ?buf"
        unfolding copy_stretch.simps [of bound i out buf] Let_def if_P [OF go] ..
      then show ?thesis
        using b less "1.prems"(2) w(2) passed_Cons [of i keys ?m] unfolding m shift by auto
    next
      case False
      then have stop: "\<not> (i + 1 < length ?buf \<and> unat (?buf ! (i + 1)) < bound)" using at len by auto
      have m: "seek ?p keys (i + 1) = i + 1" by (rule seek_unique) (use False "1.prems"(2) in auto)
      have "copy_stretch bound i out buf = (i + 1, out + 1, ?buf)"
        unfolding copy_stretch.simps [of bound i out buf] Let_def if_not_P [OF stop] ..
      then show ?thesis using w passed_single [OF "1.prems"(2)] unfolding m by simp
    qed
  qed
  then show ?thesis using that by blast
qed

lemma filter_run_inplace_loop_correct:
  assumes "wf_runs rs" "strict keys"
  shows "compacting keys i out buf \<Longrightarrow> (i < length keys \<Longrightarrow> run_cursor rs ri (keys ! i)) \<Longrightarrow>
    filter_run_inplace_loop keep long rs i ri out buf =
      Some (take out buf @ filter (\<lambda>v. (unat v \<in> runs_set rs) = keep) (drop i keys))"
proof (induction "length keys - i" arbitrary: i ri out buf rule: less_induct)
  case less
  let ?P = "\<lambda>v. (unat v \<in> runs_set rs) = keep"
  note unfold = filter_run_inplace_loop.simps [of keep long rs i ri out buf]
  note buf = less.prems(1)
  have len: "length buf = length keys" "i \<le> length keys" using buf by (simp_all add: compacting_def)
  show ?case
  proof (cases "i < length keys")
    case False
    then show ?thesis using len finish_filter_correct [OF buf, of keep] unfolding unfold by simp
  next
    case i: True
    define v where "v = keys ! i"
    define j where "j = run_reaching (\<lambda>r. rend r < v) rs ri"
    have bi: "buf ! i = v" using compacting_nth [OF buf order_refl i] by (simp add: v_def)
    have ib: "i < length buf" using i len by simp
    note c = run_reaching_cursor [OF assms(1) less.prems(2) [OF i, folded v_def], folded j_def]
    note cur = c(1) [unfolded v_def]
    have up: "v \<le> x" if x: "x \<in> set (drop i keys)" for x
    proof -
      obtain k where "i + k < length keys" "x = keys ! (i + k)" using in_set_drop_nth [OF x] by blast
      then show ?thesis using strict_nth_mono [OF assms(2)] by (simp add: v_def)
    qed
    have go: "filter_run_inplace_loop keep long rs m j out' buf' = Some (take out buf @ filter ?P (drop i keys))"
      if "i < m" "m \<le> length keys" "compacting keys m out' buf'"
        and written: "take out' buf' = take out buf @ (if b = keep then passed keys i m else [])"
        and mem: "\<And>x. x \<in> set (passed keys i m) \<Longrightarrow> (unat x \<in> runs_set rs) = b" for m b out' buf'
    proof -
      have "filter_run_inplace_loop keep long rs m j out' buf' = Some (take out' buf' @ filter ?P (drop m keys))"
      proof (rule less.hyps)
        show "length keys - m < length keys - i" using that(1,2) by linarith
        show "run_cursor rs j (keys ! m)" if "m < length keys"
          using run_cursor_mono [OF c(1)] strict_nth_mono [OF assms(2), of i m] \<open>i < m\<close> that by (simp add: v_def)
      qed (rule that(3))
      moreover have "filter ?P (drop i keys) = (if b = keep then passed keys i m else []) @ filter ?P (drop m keys)"
      proof (rule filter_drop_passed)
        show "i \<le> m" using that(1) by simp
        show "((unat x \<in> runs_set rs) = keep) = (b = keep)" if "x \<in> set (passed keys i m)" for x
          using mem [OF that] by blast
      qed
      ultimately show ?thesis unfolding written by (simp only: append_assoc)
    qed
    show ?thesis
    proof (cases "j = length rs")
      case True
      then have "unat x \<notin> runs_set rs" if "x \<in> set (drop i keys)" for x using cursor_mem(1) [OF assms(1) c(1) up [OF that]] by blast
      then have "filter ?P (drop i keys) = (if keep then [] else drop i keys)" by (auto simp: filter_empty_conv filter_id_conv)
      then show ?thesis
        unfolding unfold if_P [OF ib] Let_def bi j_def [symmetric] if_P [OF True] by (simp add: finish_filter_correct [OF buf])
    next
      case False
      then have j: "j < length rs" using c(1) by (simp add: run_cursor_def)
      define r where "r = rs ! j"
      have end_j: "v \<le> rend r" using c(2) [OF j] by (simp add: r_def)
      note unf = unfold [unfolded Let_def if_P [OF ib] bi j_def [symmetric] if_not_P [OF False], folded r_def]
      define b where "b = (rbegin r \<le> v)"
      define p where "p = (\<lambda>x. if b then x \<le> rend r else x < rbegin r)"
      have at: "p (keys ! i)" using end_j by (simp add: p_def b_def v_def [symmetric] not_le)
      have mem: "(unat x \<in> runs_set rs) = b"
        if "i < m" "m \<le> length keys" "\<And>k. i \<le> k \<Longrightarrow> k < m \<Longrightarrow> p (keys ! k)" "x \<in> set (passed keys i m)" for x m
      proof (cases b)
        case True
        then have "rbegin (rs ! j) \<le> keys ! i" "\<And>k. i \<le> k \<Longrightarrow> k < m \<Longrightarrow> keys ! k \<le> rend (rs ! j)"
          using that(3) by (simp_all add: b_def p_def v_def r_def)
        from covered_stretch [OF assms i cur j this(1) less_imp_le [OF that(1)] that(2) this(2) that(4)] show ?thesis
          using True by blast
      next
        case False
        then have "\<And>k. i \<le> k \<Longrightarrow> k < m \<Longrightarrow> keys ! k < rbegin (rs ! j)" using that(3) by (simp add: p_def r_def)
        from gap_stretch [OF assms i cur j less_imp_le [OF that(1)] that(2) this that(4)] show ?thesis using False by blast
      qed
      show ?thesis
      proof (cases "b = keep")
        case kept: True
        show ?thesis
        proof (cases long)
          case True
          define stop where "stop = (if keep then unat (rend r) + 1 else unat (rbegin r))"
          have p: "p = (\<lambda>x. unat x < stop)"
            using kept by (auto simp: p_def stop_def fun_eq_iff word_le_nat_alt word_less_nat_alt)
          define m where "m = seek p keys (i + 1)"
          obtain buf' where cp: "copy_stretch stop i out buf = (m, out + (m - i), buf')"
            "compacting keys m (out + (m - i)) buf'" "take (out + (m - i)) buf' = take out buf @ passed keys i m"
            using copy_stretch_correct [OF buf i, of stop] unfolding m_def p by blast
          note d = do_while [where p = p, OF i at, folded m_def]
          have "filter_run_inplace_loop keep long rs m j (out + (m - i)) buf' = Some (take out buf @ filter ?P (drop i keys))"
            by (rule go [OF d(1,2) cp(2) _ mem [OF d(1,2,3)]]) (use cp(3) kept in simp_all)
          then show ?thesis
            unfolding unf b_def [symmetric] if_P [OF kept] if_P [OF True] stop_def [symmetric] cp(1) prod.case .
        next
          case False
          note w = compacting_write [OF buf i]
          have i1: "i < i + 1" "i + 1 \<le> length keys" using i by simp_all
          have only: "p (keys ! k)" if "i \<le> k" "k < i + 1" for k using at that by (cases "k = i") simp_all
          have "filter_run_inplace_loop keep long rs (i + 1) j (out + 1) (buf[out := v]) =
            Some (take out buf @ filter ?P (drop i keys))"
            by (rule go [OF i1 w(1) [unfolded bi] _ mem [OF i1 only]])
              (use w(2) bi passed_single [OF i] kept in \<open>simp_all add: v_def\<close>)
          then show ?thesis unfolding unf b_def [symmetric] if_P [OF kept] using False by simp
        qed
      next
        case skip: False
        have same: "drop i buf = drop i keys" using buf by (simp add: compacting_def)
        have g: "gallop_forward p buf i = seek p keys i"
        proof -
          have "gallop_forward p buf i = gallop_forward p keys i"
            by (rule gallop_forward_suffix [OF same len(1)]) (use ib in simp)
          also have "gallop_forward p keys i = seek p keys i"
            using array_past.gallop_forward_seek [OF assms(2) len(2), of "rend r"]
              array_from.gallop_forward_seek [OF assms(2) len(2), of "rbegin r"]
            unfolding p_def by (cases b) simp_all
          finally show ?thesis .
        qed
        note s = seek_moves [where p = p, OF i at]
        have nothing_new: "take out buf = take out buf @ (if b = keep then passed keys i (seek p keys i) else [])" using skip by simp
        have "filter_run_inplace_loop keep long rs (gallop_forward p buf i) j out buf = Some (take out buf @ filter ?P (drop i keys))"
          unfolding g
          by (rule go [OF s(1,2) compacting_skip [OF buf less_imp_le [OF s(1)] s(2)] nothing_new mem [OF s(1,2,3)]]) simp_all
        then show ?thesis
          unfolding unf b_def [symmetric] if_not_P [OF skip] by (cases b) (simp_all add: p_def)
      qed
    qed
  qed
qed

theorem filter_array_run_inplace_correct:
  assumes "wf_runs rs" "strict keys"
  shows "filter_array_run_inplace keep keys rs = Some (filter (\<lambda>v. (unat v \<in> runs_set rs) = keep) keys)"
proof -
  have start: "compacting keys 0 0 keys" by (simp add: compacting_def)
  have "filter_array_run_inplace_with keep long keys rs = Some (filter (\<lambda>v. (unat v \<in> runs_set rs) = keep) keys)" for long
    using filter_run_inplace_loop_correct [OF assms start, of 0 keep long] finish_filter_correct [OF start, of keep]
    by (cases "rs = []") (auto simp: filter_array_run_inplace_with_def run_cursor_def filter_False)
  then show ?thesis by (simp add: filter_array_run_inplace_def)
qed

lemma filter_array_run_inplace_eq_into:
  "wf_runs rs \<Longrightarrow> strict keys \<Longrightarrow> filter_array_run_inplace keep keys rs = filter_array_run_into keep keys rs"
  by (simp add: filter_array_run_inplace_correct filter_array_run_into_correct)

end
