(* ===== verification/Array_Bitset.thy ===== *)
theory Array_Bitset
  imports Array_Filters
begin

text \<open>
  A sorted array filtered by a bitset (\<open>array_ops.hpp\<close>, \<open>filter_array_bitset*\<close>): the flat probe into a fresh
  buffer, the walk over word spans of the other arm, the compaction in the array's own buffer, and
  \<open>combine_bitset_array_words\<close>, the four operations of a bitset with an array. Each keeps the values the
  bitset does or does not hold.
\<close>

subsection \<open>The operations\<close>

text \<open>\<open>keep_matches\<close> specializes the advance: the bit is set, or it is not.\<close>

definition probe_advance :: "bool \<Rightarrow> word64 list \<Rightarrow> low \<Rightarrow> nat" where
  "probe_advance keep_matches words v =
    (if keep_matches then of_bool ((words ! word_index v) AND value_mask v \<noteq> 0)
     else of_bool ((words ! word_index v) AND value_mask v = 0))"

text \<open>The flat probe stores every value and moves the cursor past the survivors. \<open>result\<close> is what the resized
  vector holds before the loop.\<close>

fun probe_loop :: "bool \<Rightarrow> word64 list \<Rightarrow> low list \<Rightarrow> nat \<Rightarrow> low list \<Rightarrow> low list" where
  "probe_loop keep_matches words [] kept result = take kept result"
| "probe_loop keep_matches words (v # keys) kept result =
     probe_loop keep_matches words keys (kept + probe_advance keep_matches words v) (result[kept := v])"

definition filter_array_bitset_into :: "low list \<Rightarrow> word64 list \<Rightarrow> bool \<Rightarrow> low list \<Rightarrow> low list" where
  "filter_array_bitset_into keys words keep_matches result =
    (if keys = [] then result else probe_loop keep_matches words keys 0 result)"

definition filter_array_bitset :: "low list \<Rightarrow> word64 list \<Rightarrow> bool \<Rightarrow> low list" where
  "filter_array_bitset keys words keep_matches =
    filter_array_bitset_into keys words keep_matches (replicate (length keys) 0)"

text \<open>The other arm's intersection: the keys of one word at a time, all dropped, all kept, or tested.\<close>

function span_walk :: "word64 list \<Rightarrow> low list \<Rightarrow> nat \<Rightarrow> low list \<Rightarrow> low list" where
  "span_walk words keys i out =
    (if i < length keys then
       (let wi = word_index (keys ! i); word = words ! wi; next_base = push_bit 6 (wi + 1);
            j = seek (\<lambda>x. unat x < next_base) keys (i + 1)
        in if word = 0 then span_walk words keys j out
           else if word = - 1 then span_walk words keys j (out @ passed keys i j)
           else span_walk words keys j (out @ filter (\<lambda>v. drop_bit (bit_index v) word AND 1 \<noteq> 0) (passed keys i j)))
     else out)"
  by pat_completeness auto
termination
proof (relation "measure (\<lambda>(words, keys, i, out). length keys - i)", goal_cases)
  case (2 words keys i out wi word next_base j)
  then show ?case using seek_parts(2) [of "i + 1" "\<lambda>x. unat x < next_base" keys] by simp
next
  case (3 words keys i out wi word next_base j)
  then show ?case using seek_parts(2) [of "i + 1" "\<lambda>x. unat x < next_base" keys] by simp
next
  case (4 words keys i out wi word next_base j)
  then show ?case using seek_parts(2) [of "i + 1" "\<lambda>x. unat x < next_base" keys] by simp
qed simp

declare span_walk.simps [simp del]

text \<open>In the array's own buffer: the survivor is stored behind the value being read.\<close>

function probe_inplace_loop :: "bool \<Rightarrow> word64 list \<Rightarrow> nat \<Rightarrow> nat \<Rightarrow> low list \<Rightarrow> low list" where
  "probe_inplace_loop keep_matches words i kept base =
    (if i < length base then
       (let v = base ! i
        in probe_inplace_loop keep_matches words (i + 1) (kept + probe_advance keep_matches words v) (base[kept := v]))
     else take kept base)"
  by pat_completeness auto
termination
  by (relation "measure (\<lambda>(k, words, i, kept, base). length base - i)") auto

declare probe_inplace_loop.simps [simp del]

definition filter_array_bitset_inplace :: "low list \<Rightarrow> word64 list \<Rightarrow> bool \<Rightarrow> low list" where
  "filter_array_bitset_inplace base words keep_matches = probe_inplace_loop keep_matches words 0 0 base"

definition combine_bit :: "set_operation \<Rightarrow> word64 list \<Rightarrow> low \<Rightarrow> word64 list \<Rightarrow> word64 list" where
  "combine_bit op bitset v words =
    (let i = word_index v; mask = value_mask v
     in case op of
          Bit_or \<Rightarrow> words[i := words ! i OR mask]
        | Bit_and \<Rightarrow> words[i := words ! i OR (bitset ! i AND mask)]
        | Bit_andnot \<Rightarrow> words[i := words ! i AND NOT mask]
        | Bit_xor \<Rightarrow> words[i := words ! i XOR mask])"

definition combine_bitset_array_words :: "word64 list \<Rightarrow> low list \<Rightarrow> set_operation \<Rightarrow> word64 list" where
  "combine_bitset_array_words bitset values op =
    (let words = (if op = Bit_and then replicate (length bitset) 0 else bitset)
     in fold (combine_bit op bitset) values words)"

subsection \<open>The filters keep what the bitset holds\<close>

lemma probe_advance_eq:
  "length words = 1024 \<Longrightarrow> probe_advance keep words v = of_bool ((unat v \<in> bits_set words) = keep)"
  by (simp add: probe_advance_def words_test_iff [unfolded words_test_def])

lemma probe_loop_correct:
  assumes "length words = 1024"
  shows "kept + length keys \<le> length result \<Longrightarrow>
    probe_loop keep words keys kept result = take kept result @ filter (\<lambda>v. (unat v \<in> bits_set words) = keep) keys"
proof (induction keys arbitrary: kept result)
  case (Cons v keys)
  have "take (Suc kept) (result[kept := v]) = take kept result @ [v]"
    using Cons.prems by (intro take_Suc_update) simp
  with Cons show ?case by (simp add: probe_advance_eq [OF assms])
qed simp

theorem filter_array_bitset_into_correct:
  assumes "length words = 1024" "length result = length keys"
  shows "filter_array_bitset_into keys words keep result = filter (\<lambda>v. (unat v \<in> bits_set words) = keep) keys"
  using probe_loop_correct [OF assms(1), of 0 keys result keep] assms(2)
  by (auto simp: filter_array_bitset_into_def)

lemma filter_array_bitset_correct:
  "length words = 1024 \<Longrightarrow> filter_array_bitset keys words keep = filter (\<lambda>v. (unat v \<in> bits_set words) = keep) keys"
  by (simp add: filter_array_bitset_def filter_array_bitset_into_correct)

lemma probe_inplace_loop_correct:
  assumes "length words = 1024"
  shows "compacting keys i kept base \<Longrightarrow> probe_inplace_loop keep words i kept base =
    take kept base @ filter (\<lambda>v. (unat v \<in> bits_set words) = keep) (drop i keys)"
proof (induction "length keys - i" arbitrary: i kept base rule: less_induct)
  case less
  let ?P = "\<lambda>v. (unat v \<in> bits_set words) = keep"
  have len: "length base = length keys" "i \<le> length keys" using less.prems by (simp_all add: compacting_def)
  show ?case
  proof (cases "i < length keys")
    case i: True
    then have ib: "i < length base" using len by simp
    let ?v = "keys ! i"
    have v: "base ! i = ?v" by (rule compacting_nth [OF less.prems order_refl i])
    note w = compacting_write [OF less.prems i, unfolded v]
    have smaller: "length keys - (i + 1) < length keys - i" using i by linarith
    have step: "compacting keys (i + 1) (kept + of_bool (?P ?v)) (base[kept := ?v])"
      using w(1) by (cases "?P ?v") (auto simp: compacting_def)
    have written: "take (kept + of_bool (?P ?v)) (base[kept := ?v]) = take kept base @ (if ?P ?v then [?v] else [])"
      using w(2) by simp
    have drop: "drop i keys = ?v # drop (i + 1) keys" using Cons_nth_drop_Suc [OF i] by simp
    have "probe_inplace_loop keep words i kept base =
        probe_inplace_loop keep words (i + 1) (kept + of_bool (?P ?v)) (base[kept := ?v])"
      unfolding probe_inplace_loop.simps [of keep words i kept base] if_P [OF ib] Let_def v probe_advance_eq [OF assms] ..
    also have "\<dots> = (take kept base @ (if ?P ?v then [?v] else [])) @ filter ?P (drop (i + 1) keys)"
      using less.hyps [OF smaller step] unfolding written .
    also have "\<dots> = take kept base @ filter ?P (drop i keys)" unfolding drop by simp
    finally show ?thesis .
  next
    case False
    then show ?thesis using len unfolding probe_inplace_loop.simps [of keep words i] by simp
  qed
qed

theorem filter_array_bitset_inplace_correct:
  assumes "length words = 1024"
  shows "filter_array_bitset_inplace keys words keep = filter (\<lambda>v. (unat v \<in> bits_set words) = keep) keys"
  using probe_inplace_loop_correct [OF assms, of keys 0 0 keys keep]
  by (simp add: filter_array_bitset_inplace_def compacting_def)

text \<open>A span holds the keys of one word.\<close>

lemma word_index_next_base: "word_index v \<le> wi \<longleftrightarrow> unat v < push_bit 6 (wi + 1)"
proof -
  have "n div 64 \<le> wi \<longleftrightarrow> n < 64 * (wi + 1)" for n :: nat
    using div_less_iff_less_mult [of 64 n "wi + 1"] by (simp add: less_Suc_eq_le mult.commute)
  then show ?thesis by (simp add: word_index_div push_bit_eq_mult mult.commute)
qed

lemma drop_bit_and_one: "drop_bit n w AND 1 \<noteq> 0 \<longleftrightarrow> bit w n" for w :: word64
  by (simp add: bit_iff_odd_drop_bit and_one_eq even_iff_mod_2_eq_zero)

lemma span_walk_correct:
  assumes "length words = 1024" "strict keys"
  shows "i \<le> length keys \<Longrightarrow> span_walk words keys i out = out @ filter (\<lambda>v. unat v \<in> bits_set words) (drop i keys)"
proof (induction "length keys - i" arbitrary: i out rule: less_induct)
  case less
  let ?P = "\<lambda>v. unat v \<in> bits_set words"
  show ?case
  proof (cases "i < length keys")
    case i: True
    define wi where "wi = word_index (keys ! i)"
    define p where "p = (\<lambda>x :: low. unat x < push_bit 6 (wi + 1))"
    define j where "j = seek p keys (i + 1)"
    have at: "p (keys ! i)" unfolding p_def word_index_next_base [symmetric] by (simp add: wi_def)
    note s = do_while [where p = p, OF i at, folded j_def]
    have member: "?P v \<longleftrightarrow> bit (words ! wi) (bit_index v)" if v: "v \<in> set (passed keys i j)" for v
    proof -
      obtain k where k: "i \<le> k" "k < j" "v = keys ! k" using passed_mem [OF assms(2) less_imp_le [OF s(1)] s(2) v] by blast
      have "word_index v \<le> wi" using s(3) [OF k(1,2)] unfolding k(3) p_def word_index_next_base [symmetric] .
      moreover have "keys ! i \<le> v" using strict_nth_mono [OF assms(2)] k s(2) by simp
      then have "wi \<le> word_index v" by (simp add: wi_def word_index_div word_le_nat_alt div_le_mono)
      ultimately show ?thesis using mem_bits_set_low [OF assms(1), of v] by simp
    qed
    have split: "drop i keys = passed keys i j @ drop j keys"
      unfolding passed_def using append_take_drop_id [of "j - i" "drop i keys"] s(1) by simp
    have smaller: "length keys - j < length keys - i" using s(1) i by linarith
    note unf = span_walk.simps [of words keys i out, unfolded Let_def if_P [OF i], folded wi_def, folded p_def, folded j_def]
    note go = less.hyps [OF smaller s(2)]
    have tested: "filter (\<lambda>v. drop_bit (bit_index v) (words ! wi) AND 1 \<noteq> 0) (passed keys i j) = filter ?P (passed keys i j)"
      using member by (intro filter_cong) (simp_all add: drop_bit_and_one)
    show ?thesis
    proof (cases "words ! wi = 0")
      case True
      then have "filter ?P (passed keys i j) = []" using member by (simp add: filter_empty_conv)
      then show ?thesis unfolding unf if_P [OF True] go split by simp
    next
      case False
      note unf = unf [unfolded if_not_P [OF False]]
      show ?thesis
      proof (cases "words ! wi = - 1")
        case True
        then have "filter ?P (passed keys i j) = passed keys i j" using member by (simp add: filter_id_conv)
        then show ?thesis unfolding unf if_P [OF True] go split by simp
      next
        case False
        then show ?thesis unfolding unf if_not_P [OF False] go split tested by simp
      qed
    qed
  next
    case False
    then show ?thesis using less.prems unfolding span_walk.simps [of words keys i] by simp
  qed
qed

lemma span_walk_eq_probe:
  "length words = 1024 \<Longrightarrow> strict keys \<Longrightarrow> span_walk words keys 0 [] = filter_array_bitset keys words True"
  by (simp add: span_walk_correct filter_array_bitset_correct)

lemma length_combine_bit [simp]: "length (combine_bit op bitset v words) = length words"
  by (simp add: combine_bit_def Let_def split: set_operation.splits)

lemma length_fold_combine_bit [simp]: "length (fold (combine_bit op bitset) vs words) = length words"
  by (induction vs arbitrary: words) simp_all

lemma combine_bit_update:
  "combine_bit Bit_or bitset v words = words_set v words"
  "combine_bit Bit_andnot bitset v words = words_clear v words"
  "combine_bit Bit_xor bitset v words = words_flip v words"
  by (simp_all add: combine_bit_def Let_def words_set_def words_clear_def words_flip_def)

lemma bits_set_combine_and:
  assumes "length words = 1024" "length bitset = 1024"
  shows "bits_set (combine_bit Bit_and bitset v words) = bits_set words \<union> (bits_set bitset \<inter> {unat v})"
proof -
  have "combine_bit Bit_and bitset v words = (if unat v \<in> bits_set bitset then words_set v words else words)"
    using word_index_less [of v] assms
    by (intro bits_set_eqI)
      (auto simp: combine_bit_def Let_def words_set_def nth_list_update bit_or_iff bit_and_iff bit_value_mask mem_bits_set_low)
  then show ?thesis by (auto simp: bits_set_words_set assms)
qed

theorem combine_bitset_array_words_correct:
  assumes "length bitset = 1024" "strict vs"
  shows "bits_set (combine_bitset_array_words bitset vs op) = set_op op (bits_set bitset) (array_set vs)"
    "length (combine_bitset_array_words bitset vs op) = 1024"
proof -
  show "length (combine_bitset_array_words bitset vs op) = 1024" by (simp add: combine_bitset_array_words_def assms)
  have or: "bits_set (fold (combine_bit Bit_or bitset) vs ws) = bits_set ws \<union> array_set vs" if "length ws = 1024" for ws
    using that by (induction vs arbitrary: ws) (auto simp: combine_bit_update value_sets)
  have andnot: "bits_set (fold (combine_bit Bit_andnot bitset) vs ws) = bits_set ws - array_set vs" if "length ws = 1024" for ws
    using that by (induction vs arbitrary: ws) (auto simp: combine_bit_update value_sets)
  have "and": "bits_set (fold (combine_bit Bit_and bitset) vs ws) = bits_set ws \<union> (bits_set bitset \<inter> array_set vs)"
    if "length ws = 1024" for ws
    using that by (induction vs arbitrary: ws) (auto simp: bits_set_combine_and assms value_sets)
  have xor: "bits_set (fold (combine_bit Bit_xor bitset) vs ws) = (bits_set ws - array_set vs) \<union> (array_set vs - bits_set ws)"
    if "length ws = 1024" for ws
    using that assms(2)
  proof (induction vs arbitrary: ws)
    case (Cons v vs)
    have "unat v \<notin> array_set vs" using Cons.prems(2) by (auto simp: array_set_def low_eq_iff [symmetric])
    then show ?case
      using Cons.IH [of "words_flip v ws"] Cons.prems by (auto simp: combine_bit_update bits_set_words_flip value_sets)
  qed (simp add: array_set_def)
  show "bits_set (combine_bitset_array_words bitset vs op) = set_op op (bits_set bitset) (array_set vs)"
    by (cases op) (auto simp: combine_bitset_array_words_def set_op_def or andnot "and" xor assms)
qed

end
