(* ===== verification/Run_Intersect.thy ===== *)
theory Run_Intersect
  imports Array_Filters
begin

text \<open>
  The intersection of two run lists (\<open>run_ops.hpp\<close>): the merge that gallops over the runs below the other list's
  current run, its form for lists of very different lengths, which copies the runs inside one long run in one
  piece, and the merge that only counts. Each returns the intersection, with no run touching the next, in a buffer
  of the two lists' lengths together.
\<close>

subsection \<open>The operations\<close>

text \<open>\<open>source.size()\<close> is the header's count.\<close>

definition run_container_from :: "container \<Rightarrow> run_container" where
  "run_container_from source = \<lparr>runs = fold (\<lambda>current rs. rs @ [current]) (run_list source) [], rc_cardinality = cardinality source\<rparr>"

definition run_is_full :: "run list \<Rightarrow> bool" where
  "run_is_full rs \<longleftrightarrow> length rs = 1 \<and> rbegin (hd rs) = 0 \<and> rend (hd rs) = - 1"

definition next_run_reaching :: "run list \<Rightarrow> nat \<Rightarrow> nat \<Rightarrow> nat" where
  "next_run_reaching rs index limit = gallop_forward (\<lambda>r. unat (rend r) < limit) rs (index + 1)"

definition skewed_run_lists_ratio :: nat where
  "skewed_run_lists_ratio = 16"

text \<open>What is written so far: the runs of \<open>out\<close>, and the values they cover.\<close>

type_synonym run_intersection = "run list \<times> nat"

definition put_run :: "nat \<Rightarrow> nat \<Rightarrow> run_intersection \<Rightarrow> run_intersection" where
  "put_run begin_v earliest_end result =
    (fst result @ [mk_run (to_low begin_v) (to_low (earliest_end - 1))], snd result + (earliest_end - begin_v))"

definition copy_runs_inside :: "run list \<Rightarrow> nat \<Rightarrow> nat \<Rightarrow> run_intersection \<Rightarrow> nat \<times> run_intersection" where
  "copy_runs_inside rs index limit result =
    (let stop = gallop_forward (\<lambda>r. unat (rend r) < limit) rs (index + 1);
         piece = take (stop - index) (drop index rs);
         covered = fold (\<lambda>r covered. covered + (unat (rend r) - unat (rbegin r) + 1)) piece 0
     in (stop, (fst result @ piece, snd result + covered)))"

text \<open>The list that ends first moves on; in the skewed form the runs that also end inside are copied.\<close>

definition move_inside :: "bool \<Rightarrow> run list \<Rightarrow> nat \<Rightarrow> nat \<Rightarrow> run_intersection \<Rightarrow> nat \<times> run_intersection" where
  "move_inside skewed_lists rs index limit result =
    (if skewed_lists \<and> index < length rs \<and> unat (rend (rs ! index)) < limit then copy_runs_inside rs index limit result
     else (index, result))"

lemma gallop_double_ge: "gallop_double p xs lo k = (lo', step) \<Longrightarrow> lo \<le> lo'"
  by (rule gallop_double_start)

lemma gallop_forward_ge: "lo \<le> gallop_forward p xs lo"
proof -
  obtain lo' step where "gallop_double p xs (lo + 3) 0 = (lo', step)" by fastforce
  moreover from this have "lo + 3 \<le> lo'" by (rule gallop_double_start)
  ultimately show ?thesis by (simp add: gallop_forward_def Let_def)
qed

lemma next_run_reaching_ge: "index < next_run_reaching rs index limit"
  using gallop_forward_ge [of "index + 1"] by (simp add: next_run_reaching_def Suc_le_eq)

lemma move_inside_ge: "index \<le> fst (move_inside skewed_lists rs index limit result)"
  using gallop_forward_ge [of "index + 1" "\<lambda>r. unat (rend r) < limit" rs]
  by (auto simp: move_inside_def copy_runs_inside_def Let_def)

text \<open>One pass of the loop. The bounds of the two current runs are read again where the loop reloads them.\<close>

definition intersect_runs_step :: "bool \<Rightarrow> run list \<Rightarrow> run list \<Rightarrow> nat \<Rightarrow> nat \<Rightarrow> run_intersection \<Rightarrow> nat \<times> nat \<times> run_intersection" where
  "intersect_runs_step skewed_lists ls rs li ri result =
    (let start = unat (rbegin (ls ! li)); end_v = unat (rend (ls ! li)) + 1;
         xstart = unat (rbegin (rs ! ri)); xend = unat (rend (rs ! ri)) + 1
     in if end_v \<le> xstart then (next_run_reaching ls li xstart, ri, result)
        else if xend \<le> start then (li, next_run_reaching rs ri start, result)
        else let begin_v = max start xstart
             in if end_v = xend then (li + 1, ri + 1, put_run begin_v end_v result)
                else if end_v < xend then
                  (let moved = move_inside skewed_lists ls (li + 1) xend (put_run begin_v end_v result)
                   in (fst moved, ri, snd moved))
                else
                  (let moved = move_inside skewed_lists rs (ri + 1) end_v (put_run begin_v xend result)
                   in (li, fst moved, snd moved)))"

lemma intersect_runs_step_moves:
  assumes "intersect_runs_step skewed_lists ls rs li ri result = (li', ri', result')"
  shows "li \<le> li' \<and> ri \<le> ri' \<and> (li < li' \<or> ri < ri')"
proof -
  have moved: "index < fst (move_inside skewed_lists qs (Suc index) limit r)" for index qs limit r
    using move_inside_ge [of "Suc index"] by (simp add: Suc_le_eq)
  have moved': "index < i" if "move_inside skewed_lists qs (Suc index) limit r = (i, t)" for index qs limit r i t
    using moved [of index qs limit r] that by simp
  show ?thesis using assms unfolding intersect_runs_step_def Let_def
    by (auto split: if_splits simp: next_run_reaching_ge moved less_imp_le dest!: moved')
qed

function intersect_runs_loop :: "bool \<Rightarrow> run list \<Rightarrow> run list \<Rightarrow> nat \<Rightarrow> nat \<Rightarrow> run_intersection \<Rightarrow> run_intersection" where
  "intersect_runs_loop skewed_lists ls rs li ri result =
    (if li < length ls \<and> ri < length rs then
       (case intersect_runs_step skewed_lists ls rs li ri result of
          (li, ri, result) \<Rightarrow> intersect_runs_loop skewed_lists ls rs li ri result)
     else result)"
  by pat_completeness auto
termination
proof (relation "measure (\<lambda>(s, ls, rs, li, ri, res). (length ls - li) + (length rs - ri))", goal_cases)
  case (2 skewed_lists ls rs li ri result li' rest ri' result')
  then have "intersect_runs_step skewed_lists ls rs li ri result = (li', ri', result')" by simp
  from intersect_runs_step_moves [OF this] 2(1) show ?case by auto
qed simp

declare intersect_runs_loop.simps [simp del]

lemma intersect_runs_loop_unfold:
  "intersect_runs_loop skewed_lists ls rs li ri result =
    (if li < length ls \<and> ri < length rs then
       (let start = unat (rbegin (ls ! li)); end_v = unat (rend (ls ! li)) + 1;
            xstart = unat (rbegin (rs ! ri)); xend = unat (rend (rs ! ri)) + 1
        in if end_v \<le> xstart then
             intersect_runs_loop skewed_lists ls rs (next_run_reaching ls li xstart) ri result
           else if xend \<le> start then
             intersect_runs_loop skewed_lists ls rs li (next_run_reaching rs ri start) result
           else let begin_v = max start xstart
                in if end_v = xend then
                     intersect_runs_loop skewed_lists ls rs (li + 1) (ri + 1) (put_run begin_v end_v result)
                   else if end_v < xend then
                     (let moved = move_inside skewed_lists ls (li + 1) xend (put_run begin_v end_v result)
                      in intersect_runs_loop skewed_lists ls rs (fst moved) ri (snd moved))
                   else
                     (let moved = move_inside skewed_lists rs (ri + 1) end_v (put_run begin_v xend result)
                      in intersect_runs_loop skewed_lists ls rs li (fst moved) (snd moved)))
     else result)"
  by (simp only: intersect_runs_loop.simps [of skewed_lists ls rs li ri] intersect_runs_step_def Let_def if_distrib [of "case_prod _"] prod.case)

definition intersect_runs_merge :: "bool \<Rightarrow> run list \<Rightarrow> run list \<Rightarrow> run_intersection" where
  "intersect_runs_merge skewed_lists ls rs =
    (if ls = [] \<or> rs = [] then ([], 0) else intersect_runs_loop skewed_lists ls rs 0 0 ([], 0))"

definition intersect_runs :: "run list \<Rightarrow> run list \<Rightarrow> run_intersection" where
  "intersect_runs ls rs =
    (if length ls \<ge> skewed_run_lists_ratio * length rs \<or> length rs \<ge> skewed_run_lists_ratio * length ls
     then intersect_runs_merge True ls rs else intersect_runs_merge False ls rs)"

text \<open>The counting merge.\<close>

function intersect_count_loop :: "run list \<Rightarrow> run list \<Rightarrow> nat \<Rightarrow> nat \<Rightarrow> nat \<Rightarrow> nat" where
  "intersect_count_loop ls rs li ri n =
    (if li < length ls \<and> ri < length rs then
       (let start = unat (rbegin (ls ! li)); end_v = unat (rend (ls ! li)) + 1;
            xstart = unat (rbegin (rs ! ri)); xend = unat (rend (rs ! ri)) + 1
        in if end_v \<le> xstart then intersect_count_loop ls rs (next_run_reaching ls li xstart) ri n
           else if xend \<le> start then intersect_count_loop ls rs li (next_run_reaching rs ri start) n
           else intersect_count_loop ls rs (if end_v \<le> xend then li + 1 else li) (if xend \<le> end_v then ri + 1 else ri)
                  (n + (min end_v xend - max start xstart)))
     else n)"
  by pat_completeness auto
termination
proof (relation "measure (\<lambda>(ls, rs, li, ri, n). (length ls - li) + (length rs - ri))", goal_cases)
  case (2 ls rs li ri n start end_v xstart xend)
  then show ?case using next_run_reaching_ge [of li ls xstart] by (auto simp: case_prod_beta)
next
  case (3 ls rs li ri n start end_v xstart xend)
  then show ?case using next_run_reaching_ge [of ri rs start] by (auto simp: case_prod_beta)
next
  case (4 ls rs li ri n start end_v xstart xend)
  then show ?case by (cases "end_v \<le> xend") auto
qed simp

declare intersect_count_loop.simps [simp del]

definition intersect_runs_cardinality :: "run list \<Rightarrow> run list \<Rightarrow> nat" where
  "intersect_runs_cardinality ls rs = (if ls = [] \<or> rs = [] then 0 else intersect_count_loop ls rs 0 0 0)"

text \<open>\<open>resize_uninitialized\<close> to the two lengths and then to the runs written.\<close>

definition intersect_run_run_into :: "run list \<Rightarrow> run list \<Rightarrow> nat \<times> run list" where
  "intersect_run_run_into ls rs = (let merged = intersect_runs ls rs in (snd merged, fst merged))"

definition intersect_run_run :: "container \<Rightarrow> container \<Rightarrow> run_container" where
  "intersect_run_run lhs rhs =
    (if run_list lhs = [] \<or> run_list rhs = [] then \<lparr>runs = [], rc_cardinality = 0\<rparr>
     else if run_is_full (run_list lhs) then run_container_from rhs
     else if run_is_full (run_list rhs) then run_container_from lhs
     else case intersect_run_run_into (run_list lhs) (run_list rhs) of
            (n, rs) \<Rightarrow> \<lparr>runs = rs, rc_cardinality = n\<rparr>)"

subsection \<open>The runs from an index on\<close>

lemma runs_from_Cons: "i < length xs \<Longrightarrow> runs_set (drop i xs) = run_set (xs ! i) \<union> runs_set (drop (i + 1) xs)"
  by (simp add: Cons_nth_drop_Suc [symmetric])

lemma runs_from_after:
  assumes "wf_runs xs" "i < length xs" "x \<in> runs_set (drop (i + 1) xs)"
  shows "unat (rend (xs ! i)) + 1 < x"
proof -
  have "wf_runs (xs ! i # drop (i + 1) xs)" using wf_runs_drop [OF assms(1), of i] assms(2) by (simp add: Cons_nth_drop_Suc)
  then show ?thesis using assms(3) by (rule runs_set_Cons_gap)
qed

lemma runs_from_begin:
  assumes "wf_runs xs" "i < length xs" "x \<in> runs_set (drop i xs)"
  shows "unat (rbegin (xs ! i)) \<le> x"
  using runs_from_after [OF assms(1,2), of x] assms wf_runs_ok [OF assms(1), of "xs ! i"]
  by (auto simp: runs_from_Cons)

lemma runs_from_split: "i \<le> m \<Longrightarrow> runs_set (drop i xs) = runs_set (take (m - i) (drop i xs)) \<union> runs_set (drop m xs)"
  using append_take_drop_id [of "m - i" "drop i xs"] by (metis add.commute drop_drop le_add_diff_inverse runs_set_append)

lemma runs_from_mono: "i \<le> m \<Longrightarrow> runs_set (drop m xs) \<subseteq> runs_set (drop i xs)"
  using runs_from_split [of i m xs] by blast

lemma taken_below:
  assumes "x \<in> runs_set (take (m - i) (drop i xs))" "m \<le> length xs"
    and "\<And>k. i \<le> k \<Longrightarrow> k < m \<Longrightarrow> unat (rend (xs ! k)) < limit"
  shows "x < limit"
proof -
  obtain r where r: "r \<in> set (take (m - i) (drop i xs))" "x \<le> unat (rend r)" using assms(1) by (rule runs_setE)
  then obtain k where "k < m - i" "r = xs ! (i + k)" using assms(2) by (auto simp: in_set_conv_nth)
  then show ?thesis using assms(3) [of "i + k"] r(2) by (simp add: less_diff_conv add.commute)
qed

lemma skip_below:
  assumes "i \<le> m" "m \<le> length xs" "\<And>k. i \<le> k \<Longrightarrow> k < m \<Longrightarrow> unat (rend (xs ! k)) < limit"
    and "\<And>y. y \<in> Y \<Longrightarrow> limit \<le> y"
  shows "runs_set (drop i xs) \<inter> Y = runs_set (drop m xs) \<inter> Y"
  using taken_below [OF _ assms(2,3)] assms(4) runs_from_split [OF assms(1), of xs] by fastforce

lemma next_run_reaching_parts:
  assumes "wf_runs xs" "i < length xs" "unat (rend (xs ! i)) < limit"
  shows "next_run_reaching xs i limit \<le> length xs"
    "i \<le> k \<Longrightarrow> k < next_run_reaching xs i limit \<Longrightarrow> unat (rend (xs ! k)) < limit"
proof -
  have g: "next_run_reaching xs i limit = seek (\<lambda>r. unat (rend r) < limit) xs (i + 1)"
    unfolding next_run_reaching_def by (rule run_limits.gallop_forward_seek [OF assms(1)]) (use assms(2) in simp)
  note d = do_while [where p = "\<lambda>r. unat (rend r) < limit", OF assms(2,3), folded g]
  show "next_run_reaching xs i limit \<le> length xs" by (rule d(2))
  show "i \<le> k \<Longrightarrow> k < next_run_reaching xs i limit \<Longrightarrow> unat (rend (xs ! k)) < limit" by (rule d(3))
qed

subsection \<open>The merge\<close>

text \<open>What is built: runs that are counted, and lie below every value still to come by more than one.\<close>

definition built :: "run_intersection \<Rightarrow> nat set \<Rightarrow> bool" where
  "built result rest \<longleftrightarrow> wf_runs (fst result) \<and> snd result = sum_list (map run_len (fst result)) \<and>
    (fst result \<noteq> [] \<longrightarrow> (\<forall>x\<in>rest. unat (rend (last (fst result))) + 1 < x))"

lemma built_put_run:
  assumes "built result S" "b \<in> S" "b < e" "e \<le> 65536" "\<And>x. x \<in> T \<Longrightarrow> e < x"
  shows "built (put_run b e result) T" "runs_set (fst (put_run b e result)) = runs_set (fst result) \<union> {b..<e}"
    "length (fst (put_run b e result)) = length (fst result) + 1"
proof -
  have u: "unat (to_low b) = b" "unat (to_low (e - 1)) = e - 1" using assms(3,4) by (simp_all add: unat_to_low)
  then have ok: "run_ok (mk_run (to_low b) (to_low (e - 1)))" using assms(3) by (simp add: run_ok_unat)
  show "built (put_run b e result) T"
    using assms ok u by (auto simp: built_def put_run_def wf_runs_snoc run_gap_def run_len_def)
  have "{b..e - 1} = {b..<e}" using assms(3) by auto
  then show "runs_set (fst (put_run b e result)) = runs_set (fst result) \<union> {b..<e}"
    using u by (simp add: put_run_def run_set_def)
  show "length (fst (put_run b e result)) = length (fst result) + 1" by (simp add: put_run_def)
qed

lemma last_below_rest:
  assumes "wf_runs rs" "rs \<noteq> []" "\<And>x y. x \<in> runs_set rs \<Longrightarrow> y \<in> S \<Longrightarrow> x + 1 < y" "y \<in> S"
  shows "unat (rend (last rs)) + 1 < y"
  using assms wf_runs_ok [OF assms(1), of "last rs"] by (intro assms(3) runs_setI [of "last rs"]) simp_all

lemma move_inside_correct:
  assumes "wf_runs xs" "index \<le> length xs" "built result (runs_set (drop index xs) \<inter> Y)"
    and inside: "\<And>x. x \<in> runs_set (drop index xs) \<Longrightarrow> x < limit \<Longrightarrow> x \<in> Y"
    and moved: "move_inside skewed xs index limit result = (m, result')"
  shows "index \<le> m" "m \<le> length xs" "built result' (runs_set (drop m xs) \<inter> Y)"
    "runs_set (fst result') \<union> (runs_set (drop m xs) \<inter> Y) = runs_set (fst result) \<union> (runs_set (drop index xs) \<inter> Y)"
    "length (fst result') = length (fst result) + (m - index)"
proof -
  let ?rest = "\<lambda>m. runs_set (drop m xs) \<inter> Y"
  have "index \<le> m \<and> m \<le> length xs \<and> built result' (?rest m) \<and>
    runs_set (fst result') \<union> ?rest m = runs_set (fst result) \<union> ?rest index \<and>
    length (fst result') = length (fst result) + (m - index)"
  proof (cases "skewed \<and> index < length xs \<and> unat (rend (xs ! index)) < limit")
    case False
    then show ?thesis using moved assms(2,3) by (auto simp: move_inside_def)
  next
    case True
    let ?piece = "take (m - index) (drop index xs)"
    have m: "m = next_run_reaching xs index limit"
      and result': "result' = (fst result @ ?piece, snd result + sum_list (map run_len ?piece))"
      using True moved sum_run_len [of ?piece 0]
      by (auto simp: move_inside_def copy_runs_inside_def next_run_reaching_def Let_def add.commute)
    note n = next_run_reaching_parts [OF assms(1), of index limit, folded m]
    have im: "index < m" unfolding m by (rule next_run_reaching_ge)
    have ml: "m \<le> length xs" using n(1) True by blast
    have below: "x < limit" if "x \<in> runs_set ?piece" for x
      by (rule taken_below [OF that ml]) (use n(2) True in blast)
    note split = runs_from_split [OF less_imp_le [OF im], of xs]
    have piece_Y: "runs_set ?piece \<subseteq> Y" using below inside split by blast
    have wf: "wf_runs ?piece" and ne: "?piece \<noteq> []" using assms(1) im ml by simp_all
    have "drop index xs = ?piece @ drop m xs" using append_take_drop_id [of "m - index" "drop index xs"] im by simp
    then have both: "wf_runs (?piece @ drop m xs)" using wf_runs_drop [OF assms(1), of index] by simp
    have gap: "unat (rend (last ?piece)) + 1 < y" if y: "y \<in> ?rest m" for y
    proof -
      obtain s where "s \<in> set (drop m xs)" "unat (rbegin s) \<le> y" using y by (elim IntE runs_setE)
      moreover have "last ?piece \<in> set ?piece" using ne by (rule last_in_set)
      ultimately show ?thesis using both unfolding wf_runs_append run_gap_def by fastforce
    qed
    have joined: "wf_runs (fst result @ ?piece)"
    proof (cases "fst result = []")
      case False
      have "run_gap r s" if "r \<in> set (fst result)" "s \<in> set ?piece" for r s
      proof -
        have s: "unat (rbegin s) \<in> ?rest index"
        proof -
          have "unat (rbegin s) \<in> runs_set ?piece" using that(2) wf_runs_ok [OF wf that(2)] by (auto intro: runs_setI)
          then show ?thesis using piece_Y split by blast
        qed
        have wfr: "wf_runs (fst result)" using assms(3) by (simp add: built_def)
        have "unat (rend r) \<le> unat (rend (last (fst result)))"
          using that(1) wf_runs_end_mono [OF wfr] by (fastforce simp: in_set_conv_nth last_conv_nth False)
        moreover have "unat (rend (last (fst result))) + 1 < unat (rbegin s)" using assms(3) s False by (auto simp: built_def)
        ultimately show ?thesis by (simp add: run_gap_def)
      qed
      then show ?thesis using assms(3) wf unfolding wf_runs_append by (simp add: built_def)
    qed (use wf in simp)
    have "built result' (?rest m)"
      using joined ne gap assms(3) by (auto simp: result' built_def)
    moreover have "runs_set (fst result') \<union> ?rest m = runs_set (fst result) \<union> ?rest index"
      using piece_Y split by (auto simp: result')
    ultimately show ?thesis using im ml by (simp add: result')
  qed
  then show "index \<le> m" "m \<le> length xs" "built result' (?rest m)"
    "runs_set (fst result') \<union> ?rest m = runs_set (fst result) \<union> ?rest index"
    "length (fst result') = length (fst result) + (m - index)" by blast+
qed

text \<open>One of the two current runs ends first; what it shares with the other is the next run of the result.\<close>

lemma meet_step:
  assumes "wf_runs ls" "wf_runs rs" "li < length ls" "ri < length rs"
  defines "s \<equiv> unat (rbegin (ls ! li))" and "e \<equiv> unat (rend (ls ! li)) + 1"
    and "xs \<equiv> unat (rbegin (rs ! ri))" and "xe \<equiv> unat (rend (rs ! ri)) + 1"
  assumes meet: "xs < e" "s < xe"
  shows "e < xe \<Longrightarrow> runs_set (drop li ls) \<inter> runs_set (drop ri rs) =
      {max s xs..<e} \<union> (runs_set (drop (li + 1) ls) \<inter> runs_set (drop ri rs))"
    "e = xe \<Longrightarrow> runs_set (drop li ls) \<inter> runs_set (drop ri rs) =
      {max s xs..<e} \<union> (runs_set (drop (li + 1) ls) \<inter> runs_set (drop (ri + 1) rs))"
    "max s xs < e" "max s xs < xe" "max s xs \<in> runs_set (drop li ls) \<inter> runs_set (drop ri rs)"
    "x \<in> runs_set (drop (li + 1) ls) \<Longrightarrow> e < x" "x \<in> runs_set (drop (ri + 1) rs) \<Longrightarrow> xe < x"
    "x \<in> runs_set (drop (li + 1) ls) \<Longrightarrow> x < xe \<Longrightarrow> x \<in> runs_set (drop ri rs)"
proof -
  let ?L = "runs_set (drop (li + 1) ls)" and ?R = "runs_set (drop (ri + 1) rs)"
  have l: "runs_set (drop li ls) = {s..<e} \<union> ?L" unfolding runs_from_Cons [OF assms(3)] by (auto simp: s_def e_def)
  have r: "runs_set (drop ri rs) = {xs..<xe} \<union> ?R" unfolding runs_from_Cons [OF assms(4)] by (auto simp: xs_def xe_def)
  have L: "e < x" if "x \<in> ?L" for x using runs_from_after [OF assms(1,3) that] by (simp add: e_def)
  have R: "xe < x" if "x \<in> ?R" for x using runs_from_after [OF assms(2,4) that] by (simp add: xe_def)
  have se: "s < e" "xs < xe"
    using wf_runs_ok [OF assms(1), of "ls ! li"] wf_runs_ok [OF assms(2), of "rs ! ri"] assms(3,4)
    by (simp_all add: s_def e_def xs_def xe_def)
  show "max s xs < e" "max s xs < xe" using meet se by simp_all
  then show "max s xs \<in> runs_set (drop li ls) \<inter> runs_set (drop ri rs)" unfolding l r by simp
  show "e < x" if "x \<in> ?L" using L [OF that] .
  show "xe < x" if "x \<in> ?R" using R [OF that] .
  show "x \<in> runs_set (drop ri rs)" if "x \<in> ?L" "x < xe" using L [OF that(1)] that(2) meet(1) unfolding r by simp
  show "runs_set (drop li ls) \<inter> runs_set (drop ri rs) = {max s xs..<e} \<union> (?L \<inter> runs_set (drop ri rs))" if "e < xe"
    using L R that unfolding l r by fastforce
  show "runs_set (drop li ls) \<inter> runs_set (drop ri rs) = {max s xs..<e} \<union> (?L \<inter> ?R)" if "e = xe"
    using L R that unfolding l r by fastforce
qed

text \<open>A merge from a state gives what is built and the rest's intersection, within the room for both rests.\<close>

definition merged :: "run_intersection \<Rightarrow> nat set \<Rightarrow> nat \<Rightarrow> run_intersection \<Rightarrow> bool" where
  "merged result rest room final \<longleftrightarrow> built final {} \<and> runs_set (fst final) = runs_set (fst result) \<union> rest \<and>
    (length (fst final) \<le> length (fst result) \<or> length (fst final) < length (fst result) + room)"

lemma mergedI_end: "built result S \<Longrightarrow> S = {} \<Longrightarrow> merged result S room result"
  by (simp add: merged_def)

lemma merged_step:
  assumes "merged result' S' room' final" "runs_set (fst result') \<union> S' = runs_set (fst result) \<union> S"
    and "length (fst result') + room' \<le> length (fst result) + room"
    and "length (fst result') < length (fst result) + room \<or> length (fst result') \<le> length (fst result)"
  shows "merged result S room final"
  using assms unfolding merged_def by (elim conjE) (simp, linarith)

lemma intersect_runs_loop_correct:
  assumes "wf_runs ls" "wf_runs rs"
  shows "li \<le> length ls \<Longrightarrow> ri \<le> length rs \<Longrightarrow> built result (runs_set (drop li ls) \<inter> runs_set (drop ri rs)) \<Longrightarrow>
    merged result (runs_set (drop li ls) \<inter> runs_set (drop ri rs)) ((length ls - li) + (length rs - ri))
      (intersect_runs_loop skewed ls rs li ri result)"
proof (induction "(length ls - li) + (length rs - ri)" arbitrary: li ri result rule: less_induct)
  case less
  let ?S = "\<lambda>li ri. runs_set (drop li ls) \<inter> runs_set (drop ri rs)"
  let ?room = "\<lambda>li ri. (length ls - li) + (length rs - ri)"
  note unf = intersect_runs_loop_unfold [of skewed ls rs li ri result, unfolded Let_def]
  note ih = less.hyps
  show ?case
  proof (cases "li < length ls \<and> ri < length rs")
    case False
    then have "?S li ri = {}" using less.prems(1,2) by (auto simp: not_less)
    then show ?thesis unfolding unf if_not_P [OF False] using less.prems(3) by (intro mergedI_end)
  next
    case both: True
    then have li: "li < length ls" and ri: "ri < length rs" by blast+
    define s where "s = unat (rbegin (ls ! li))"
    define e where "e = unat (rend (ls ! li)) + 1"
    define x where "x = unat (rbegin (rs ! ri))"
    define xe where "xe = unat (rend (rs ! ri)) + 1"
    note unf = unf [unfolded if_P [OF both], folded s_def e_def x_def xe_def]
    have bounds: "e \<le> 65536" "xe \<le> 65536" using unat_low_less [of "rend (ls ! li)"] unat_low_less [of "rend (rs ! ri)"]
      by (simp_all add: e_def xe_def)
    show ?thesis
    proof (cases "e \<le> x")
      case True
      let ?m = "next_run_reaching ls li x"
      note n = next_run_reaching_parts [OF assms(1) li, of x]
      have below: "unat (rend (ls ! li)) < x" using True by (simp add: e_def)
      have same: "?S li ri = ?S ?m ri"
        using skip_below [OF less_imp_le [OF next_run_reaching_ge] n(1) [OF below] n(2) [OF below], of "runs_set (drop ri rs)"]
          runs_from_begin [OF assms(2) ri] by (simp add: x_def)
      have "merged result (?S ?m ri) (?room ?m ri) (intersect_runs_loop skewed ls rs ?m ri result)"
        using next_run_reaching_ge [of li ls x] li less.prems(2,3) n(1) [OF below] unfolding same by (intro ih) linarith+
      then show ?thesis
        unfolding unf if_P [OF True] same
        by (rule merged_step) (use next_run_reaching_ge [of li ls x] in auto)
    next
      case e: False
      note unf = unf [unfolded if_not_P [OF e]]
      show ?thesis
      proof (cases "xe \<le> s")
        case True
        let ?m = "next_run_reaching rs ri s"
        note n = next_run_reaching_parts [OF assms(2) ri, of s]
        have below: "unat (rend (rs ! ri)) < s" using True by (simp add: xe_def)
        have same: "?S li ri = ?S li ?m"
          using skip_below [OF less_imp_le [OF next_run_reaching_ge] n(1) [OF below] n(2) [OF below], of "runs_set (drop li ls)"]
            runs_from_begin [OF assms(1) li] by (simp add: s_def Int_commute)
        have "merged result (?S li ?m) (?room li ?m) (intersect_runs_loop skewed ls rs li ?m result)"
          using next_run_reaching_ge [of ri rs s] ri less.prems(1,3) n(1) [OF below] unfolding same by (intro ih) linarith+
        then show ?thesis
          unfolding unf if_P [OF True] same
          by (rule merged_step) (use next_run_reaching_ge [of ri rs s] in auto)
      next
        case xe: False
        note unf = unf [unfolded if_not_P [OF xe]]
        define b where "b = max s x"
        have xl: "x < e" and sx: "s < xe" using e xe by simp_all
        note meet = meet_step [OF assms li ri, folded s_def e_def x_def xe_def, OF xl sx, folded b_def]
        note meet' = meet_step [OF assms(2,1) ri li, folded s_def e_def x_def xe_def, OF sx xl, unfolded max.commute [of x s], folded b_def]
        show ?thesis
        proof (cases "e = xe")
          case True
          note p = built_put_run [OF less.prems(3) meet(5,3) bounds(1), of "?S (li + 1) (ri + 1)"]
          have p1: "built (put_run b e result) (?S (li + 1) (ri + 1))" using p(1) meet(6) by blast
          have "merged (put_run b e result) (?S (li + 1) (ri + 1)) (?room (li + 1) (ri + 1))
              (intersect_runs_loop skewed ls rs (li + 1) (ri + 1) (put_run b e result))"
            using li ri p1 by (intro ih) linarith+
          then show ?thesis
            unfolding unf if_P [OF True] b_def [symmetric] meet(2) [OF True]
            by (rule merged_step) (use p(2,3) meet(6) li ri in auto)
        next
          case ne: False
          note unf = unf [unfolded if_not_P [OF ne], folded b_def]
          show ?thesis
          proof (cases "e < xe")
            case True
            note p = built_put_run [OF less.prems(3) meet(5,3) bounds(1), of "?S (li + 1) ri"]
            have p1: "built (put_run b e result) (?S (li + 1) ri)" using p(1) meet(6) by blast
            obtain m r where mr: "move_inside skewed ls (li + 1) xe (put_run b e result) = (m, r)" by (rule prod.exhaust)
            have l1: "li + 1 \<le> length ls" using li by simp
            note mv = move_inside_correct [OF assms(1) l1 p1 meet(8) mr]
            have "merged r (?S m ri) (?room m ri) (intersect_runs_loop skewed ls rs m ri r)"
              using li ri mv(1,2,3) by (intro ih) linarith+
            then show ?thesis
              unfolding unf if_P [OF True] mr fst_conv snd_conv meet(1) [OF True]
              by (rule merged_step) (use p(2,3) meet(6) mv li ri in \<open>auto simp: Un_assoc\<close>)
          next
            case False
            then have xee: "xe < e" using ne by simp
            have flip: "?S li ri = {b..<xe} \<union> ?S li (ri + 1)" using meet'(1) [OF xee] by (simp add: Int_commute)
            note p = built_put_run [OF less.prems(3) meet(5,4) bounds(2), of "?S li (ri + 1)"]
            have p1: "built (put_run b xe result) (?S li (ri + 1))" using p(1) meet(7) by blast
            then have p1': "built (put_run b xe result) (runs_set (drop (ri + 1) rs) \<inter> runs_set (drop li ls))" by (simp add: Int_commute)
            obtain m r where mr: "move_inside skewed rs (ri + 1) e (put_run b xe result) = (m, r)" by (rule prod.exhaust)
            have r1: "ri + 1 \<le> length rs" using ri by simp
            note mv = move_inside_correct [OF assms(2) r1 p1' meet'(8) mr, unfolded Int_commute [of "runs_set (drop _ rs)"]]
            have "merged r (?S li m) (?room li m) (intersect_runs_loop skewed ls rs li m r)"
              using li ri mv(1,2,3) by (intro ih) linarith+
            then show ?thesis
              unfolding unf if_not_P [OF False] mr fst_conv snd_conv flip
              by (rule merged_step) (use p(2,3) meet(7) mv li ri in \<open>auto simp: Un_assoc\<close>)
          qed
        qed
      qed
    qed
  qed
qed

lemma built_start: "built ([], 0) S"
  by (simp add: built_def)

theorem intersect_runs_correct:
  assumes "wf_runs ls" "wf_runs rs"
  shows "wf_runs (fst (intersect_runs ls rs))" "runs_set (fst (intersect_runs ls rs)) = runs_set ls \<inter> runs_set rs"
    "snd (intersect_runs ls rs) = card (runs_set ls \<inter> runs_set rs)"
    "fst (intersect_runs ls rs) \<noteq> [] \<Longrightarrow> length (fst (intersect_runs ls rs)) < length ls + length rs"
proof -
  have m: "merged ([], 0) (runs_set ls \<inter> runs_set rs) (length ls + length rs) (intersect_runs_merge skewed ls rs)" for skewed
  proof (cases "ls = [] \<or> rs = []")
    case True
    then show ?thesis using mergedI_end [OF built_start] by (auto simp: intersect_runs_merge_def)
  next
    case False
    then show ?thesis
      using intersect_runs_loop_correct [OF assms, of 0 0 "([], 0)" skewed] built_start by (simp add: intersect_runs_merge_def)
  qed
  then have "merged ([], 0) (runs_set ls \<inter> runs_set rs) (length ls + length rs) (intersect_runs ls rs)"
    by (simp add: intersect_runs_def)
  then have r: "wf_runs (fst (intersect_runs ls rs))" "runs_set (fst (intersect_runs ls rs)) = runs_set ls \<inter> runs_set rs"
    "fst (intersect_runs ls rs) \<noteq> [] \<Longrightarrow> length (fst (intersect_runs ls rs)) < length ls + length rs"
    and n: "snd (intersect_runs ls rs) = sum_list (map run_len (fst (intersect_runs ls rs)))"
    by (auto simp: merged_def built_def)
  show "wf_runs (fst (intersect_runs ls rs))" "runs_set (fst (intersect_runs ls rs)) = runs_set ls \<inter> runs_set rs"
    "fst (intersect_runs ls rs) \<noteq> [] \<Longrightarrow> length (fst (intersect_runs ls rs)) < length ls + length rs" by (fact r)+
  show "snd (intersect_runs ls rs) = card (runs_set ls \<inter> runs_set rs)"
    using card_runs_set [OF r(1)] n by (simp add: r(2))
qed

text \<open>The counting merge is the plain merge without the stores.\<close>

lemma intersect_count_loop_eq: "intersect_count_loop ls rs li ri n = snd (intersect_runs_loop False ls rs li ri (out, n))"
proof (induction ls rs li ri n arbitrary: out rule: intersect_count_loop.induct)
  case (1 ls rs li ri n)
  show ?case
  proof (cases "li < length ls \<and> ri < length rs")
    case False
    then show ?thesis unfolding intersect_count_loop.simps [of ls rs li ri n] intersect_runs_loop_unfold [of False ls rs li ri "(out, n)"]
        if_not_P [OF False] by simp
  next
    case True
    note unf = intersect_count_loop.simps [of ls rs li ri n] intersect_runs_loop_unfold [of False ls rs li ri "(out, n)"]
    note ih = "1.IH" [OF True refl refl refl refl]
    let ?s = "unat (rbegin (ls ! li))" and ?e = "unat (rend (ls ! li)) + 1"
    let ?x = "unat (rbegin (rs ! ri))" and ?xe = "unat (rend (rs ! ri)) + 1"
    consider (skip_left) "?e \<le> ?x" | (skip_right) "\<not> ?e \<le> ?x" "?xe \<le> ?s"
      | (left) "\<not> ?e \<le> ?x" "\<not> ?xe \<le> ?s" "?e < ?xe" | (both) "\<not> ?e \<le> ?x" "\<not> ?xe \<le> ?s" "?e = ?xe"
      | (right) "\<not> ?e \<le> ?x" "\<not> ?xe \<le> ?s" "?xe < ?e" by linarith
    then show ?thesis
    proof cases
      case skip_left
      then show ?thesis unfolding unf if_P [OF True] Let_def if_P [OF skip_left] by (rule ih(1))
    next
      case skip_right
      then show ?thesis unfolding unf if_P [OF True] Let_def if_not_P [OF skip_right(1)] if_P [OF skip_right(2)] by (rule ih(2))
    next
      case left
      then show ?thesis using ih(3) [OF left(1,2)]
        unfolding unf if_P [OF True] Let_def if_not_P [OF left(1)] if_not_P [OF left(2)]
        by (simp add: move_inside_def put_run_def)
    next
      case both
      then show ?thesis using ih(3) [OF both(1,2)]
        unfolding unf if_P [OF True] Let_def if_not_P [OF both(1)] if_not_P [OF both(2)]
        by (simp add: put_run_def)
    next
      case right
      then show ?thesis using ih(3) [OF right(1,2)]
        unfolding unf if_P [OF True] Let_def if_not_P [OF right(1)] if_not_P [OF right(2)]
        by (simp add: move_inside_def put_run_def)
    qed
  qed
qed

theorem intersect_runs_cardinality_correct:
  assumes "wf_runs ls" "wf_runs rs"
  shows "intersect_runs_cardinality ls rs = card (runs_set ls \<inter> runs_set rs)"
proof (cases "ls = [] \<or> rs = []")
  case True
  then show ?thesis by (auto simp: intersect_runs_cardinality_def)
next
  case False
  let ?r = "intersect_runs_loop False ls rs 0 0 ([], 0)"
  have "merged ([], 0) (runs_set ls \<inter> runs_set rs) (length ls + length rs) ?r"
    using intersect_runs_loop_correct [OF assms, of 0 0 "([], 0)" False] built_start by simp
  then have "snd ?r = card (runs_set ls \<inter> runs_set rs)"
    using card_runs_set [of "fst ?r"] by (auto simp: merged_def built_def)
  then show ?thesis using False intersect_count_loop_eq [of ls rs 0 0 0 "[]"] by (simp add: intersect_runs_cardinality_def)
qed

lemma fold_snoc: "fold (\<lambda>x xs. xs @ [x]) ys acc = acc @ ys"
  by (induction ys arbitrary: acc) simp_all

lemma run_container_from_correct:
  assumes "wf_container h" "holds_run h"
  shows "wf_rc (run_container_from h)" "rc_set (run_container_from h) = values_of h"
  using assms by (auto simp: run_container_from_def fold_snoc wf_rc_def rc_set_def elim: wf_runE)

lemma run_is_full_set:
  assumes "run_is_full rs"
  shows "runs_set rs = {..<65536}"
proof -
  have "rs = [mk_run 0 (- 1)]" using assms by (cases rs) (auto simp: run_is_full_def)
  moreover have "unat (- 1 :: low) = 65535" by simp
  ultimately show ?thesis by (auto simp: run_set_def)
qed

theorem intersect_run_run_correct:
  assumes "wf_container g" "holds_run g" "wf_container h" "holds_run h"
  shows "wf_rc (intersect_run_run g h)" "rc_set (intersect_run_run g h) = values_of g \<inter> values_of h"
proof -
  obtain ls where ls: "wf_runs ls" "run_list g = ls" "values_of g = runs_set ls" using assms(1,2) by (rule wf_runE)
  obtain rs where rs: "wf_runs rs" "run_list h = rs" "values_of h = runs_set rs" using assms(3,4) by (rule wf_runE)
  note i = intersect_runs_correct [OF ls(1) rs(1)]
  have "wf_rc (intersect_run_run g h) \<and> rc_set (intersect_run_run g h) = values_of g \<inter> values_of h"
  proof (cases "ls = [] \<or> rs = []")
    case True
    then show ?thesis by (auto simp: intersect_run_run_def ls(2,3) rs(2,3) wf_rc_def rc_set_def)
  next
    case ne: False
    have sub: "runs_set ls \<subseteq> {..<65536}" "runs_set rs \<subseteq> {..<65536}" using runs_set_bound by blast+
    show ?thesis
    proof (cases "run_is_full ls")
      case True
      then have "intersect_run_run g h = run_container_from h" using ne by (simp add: intersect_run_run_def ls(2) rs(2))
      then show ?thesis
        using run_container_from_correct [OF assms(3,4)] run_is_full_set [OF True] sub(2) by (auto simp: ls(3) rs(3))
    next
      case l: False
      show ?thesis
      proof (cases "run_is_full rs")
        case True
        then have "intersect_run_run g h = run_container_from g" using ne l by (simp add: intersect_run_run_def ls(2) rs(2))
        then show ?thesis
          using run_container_from_correct [OF assms(1,2)] run_is_full_set [OF True] sub(1) by (auto simp: ls(3) rs(3))
      next
        case False
        then show ?thesis using ne l i
          by (simp add: intersect_run_run_def ls(2,3) rs(2,3) intersect_run_run_into_def wf_rc_def rc_set_def)
      qed
    qed
  qed
  then show "wf_rc (intersect_run_run g h)" "rc_set (intersect_run_run g h) = values_of g \<inter> values_of h" by blast+
qed

end
