(* ===== verification/Run_Merge.thy ===== *)
theory Run_Merge
  imports Run_Intersect Container_Ranges
begin

text \<open>
  The unions and symmetric differences of run lists with run lists and with arrays (\<open>run_ops.hpp\<close>): one merge by
  begin, each run appended to what is built so far, joined with it or exclusive-or-ed into it.
\<close>

subsection \<open>The operations\<close>

text \<open>The merge loop of all four: the side whose front is to come first is put, then what one side has left.\<close>

fun merge_by :: "('a \<Rightarrow> 'b \<Rightarrow> bool) \<Rightarrow> ('a \<Rightarrow> 's \<Rightarrow> 's) \<Rightarrow> ('b \<Rightarrow> 's \<Rightarrow> 's) \<Rightarrow> 'a list \<Rightarrow> 'b list \<Rightarrow> 's \<Rightarrow> 's" where
  "merge_by left_first put_left put_right (l # ls) (r # rs) result =
    (if left_first l r then merge_by left_first put_left put_right ls (r # rs) (put_left l result)
     else merge_by left_first put_left put_right (l # ls) rs (put_right r result))"
| "merge_by left_first put_left put_right ls [] result = fold put_left ls result"
| "merge_by left_first put_left put_right [] rs result = fold put_right rs result"

definition union_append :: "low \<Rightarrow> low \<Rightarrow> run_container \<Rightarrow> run_container" where
  "union_append b e result =
    (if runs result = [] then
       \<lparr>runs = runs result @ [mk_run b e], rc_cardinality = rc_cardinality result + (unat e - unat b + 1)\<rparr>
     else let current = last (runs result)
          in if unat (rend current) + 1 < unat b then
               \<lparr>runs = runs result @ [mk_run b e], rc_cardinality = rc_cardinality result + (unat e - unat b + 1)\<rparr>
             else if e > rend current then
               \<lparr>runs = butlast (runs result) @ [current\<lparr>rend := e\<rparr>],
                rc_cardinality = rc_cardinality result + (unat e - unat (rend current))\<rparr>
             else result)"

definition union_run_run :: "run list \<Rightarrow> run list \<Rightarrow> run_container" where
  "union_run_run lhs rhs =
    merge_by (\<lambda>l r. rbegin l < rbegin r) (\<lambda>l. union_append (rbegin l) (rend l)) (\<lambda>r. union_append (rbegin r) (rend r))
      lhs rhs \<lparr>runs = [], rc_cardinality = 0\<rparr>"

definition union_run_array :: "run list \<Rightarrow> low list \<Rightarrow> run_container" where
  "union_run_array lhs values =
    merge_by (\<lambda>r v. rbegin r \<le> v) (\<lambda>r. union_append (rbegin r) (rend r)) (\<lambda>v. union_append v v)
      lhs values \<lparr>runs = [], rc_cardinality = 0\<rparr>"

definition xor_runs :: "run list \<Rightarrow> run list \<Rightarrow> run list" where
  "xor_runs lhs rhs =
    merge_by (\<lambda>l r. rbegin l \<le> rbegin r) (\<lambda>l out. append_run_exclusive out (unat (rbegin l)) (unat (rend l)))
      (\<lambda>r out. append_run_exclusive out (unat (rbegin r)) (unat (rend r))) lhs rhs []"

definition xor_values_runs :: "low list \<Rightarrow> run list \<Rightarrow> run list" where
  "xor_values_runs values rs =
    merge_by (\<lambda>v r. \<not> rbegin r \<le> v) (\<lambda>v out. append_run_exclusive out (unat v) (unat v))
      (\<lambda>r out. append_run_exclusive out (unat (rbegin r)) (unat (rend r))) values rs []"

subsection \<open>A value is a run of one\<close>

lemma merge_by_runs:
  assumes "\<And>l r. first l r \<longleftrightarrow> first' (A l) (B r)" "\<And>l. f l = h (A l)" "\<And>r. g r = h (B r)"
  shows "merge_by first f g ls rs s = merge_by first' h h (map A ls) (map B rs) s"
proof -
  have fold_A: "fold f xs s = fold h (map A xs) s" for xs s by (induction xs arbitrary: s) (simp_all add: assms)
  have fold_B: "fold g xs s = fold h (map B xs) s" for xs s by (induction xs arbitrary: s) (simp_all add: assms)
  have nil: "merge_by first f g [] rs s = merge_by first' h h [] (map B rs) s" for rs s
    using fold_B [of rs s] by (cases rs) simp_all
  show ?thesis
  proof (induction ls arbitrary: rs s)
    case Nil
    then show ?case using nil by simp
  next
    case outer: (Cons l ls)
    show ?case
    proof (induction rs arbitrary: s)
      case Nil
      then show ?case using fold_A [of "l # ls" s] by simp
    next
      case (Cons r rs)
      then show ?case using outer.IH [of "r # rs" "f l s"] by (simp add: assms)
    qed
  qed
qed

text \<open>The inputs of a merge: runs that begin after the one before has ended (they may touch).\<close>

definition ascending :: "run list \<Rightarrow> bool" where
  "ascending rs \<longleftrightarrow> sorted_wrt (\<lambda>r s. rend r < rbegin s) rs \<and> (\<forall>r\<in>set rs. run_ok r)"

lemma ascending_Nil [simp]: "ascending []"
  by (simp add: ascending_def)

lemma ascending_Cons: "ascending (r # rs) \<longleftrightarrow> run_ok r \<and> (\<forall>s\<in>set rs. rend r < rbegin s) \<and> ascending rs"
  by (auto simp: ascending_def)

lemma ascending_wf_runs: "wf_runs rs \<Longrightarrow> ascending rs"
  by (induction rs) (auto simp: ascending_Cons wf_runs_Cons run_gap_def word_less_nat_alt)

lemma ascending_values: "strict vs \<Longrightarrow> ascending (map (\<lambda>v. mk_run v v) vs)"
  by (induction vs) (auto simp: ascending_Cons)

lemma runs_set_values: "runs_set (map (\<lambda>v. mk_run v v) vs) = array_set vs"
  by (induction vs) (auto simp: run_set_def array_set_def)

lemma ascending_begin: "ascending (r # rs) \<Longrightarrow> s \<in> set rs \<Longrightarrow> rbegin r \<le> rbegin s"
  unfolding ascending_Cons run_ok_def by (meson less_imp_le order_trans)

lemma ascending_disjoint: "ascending (r # rs) \<Longrightarrow> run_set r \<inter> runs_set rs = {}"
  unfolding ascending_Cons by (fastforce simp: run_set_def word_less_nat_alt elim!: runs_setE)

definition by_begin :: "(run \<Rightarrow> run \<Rightarrow> bool) \<Rightarrow> bool" where
  "by_begin first \<longleftrightarrow> (\<forall>l r. if first l r then rbegin l \<le> rbegin r else rbegin r \<le> rbegin l)"

text \<open>Any invariant of the merge that a put keeps holds at its end. \<open>I result ls rs\<close> may depend on what is left.\<close>

lemma merge_by_invariant:
  assumes "by_begin first" "ascending ls" "ascending rs" "I s ls rs"
    and left: "\<And>s l ls rs. ascending (l # ls) \<Longrightarrow> ascending rs \<Longrightarrow> \<forall>r\<in>set rs. rbegin l \<le> rbegin r \<Longrightarrow> I s (l # ls) rs \<Longrightarrow> I (h l s) ls rs"
    and right: "\<And>s r ls rs. ascending ls \<Longrightarrow> ascending (r # rs) \<Longrightarrow> \<forall>l\<in>set ls. rbegin r \<le> rbegin l \<Longrightarrow> I s ls (r # rs) \<Longrightarrow> I (h r s) ls rs"
  shows "I (merge_by first h h ls rs s) [] []"
proof -
  have fold_left: "I (fold h ls s) [] []" if "ascending ls" "I s ls []" for ls s
    using that
  proof (induction ls arbitrary: s)
    case (Cons l ls)
    have "I (h l s) ls []" by (rule left [OF Cons.prems(1) ascending_Nil _ Cons.prems(2)]) simp
    then show ?case using Cons.IH Cons.prems(1) by (simp add: ascending_Cons)
  qed simp
  have fold_right: "I (fold h rs s) [] []" if "ascending rs" "I s [] rs" for rs s
    using that
  proof (induction rs arbitrary: s)
    case (Cons r rs)
    have "I (h r s) [] rs" by (rule right [OF ascending_Nil Cons.prems(1) _ Cons.prems(2)]) simp
    then show ?case using Cons.IH Cons.prems(1) by (simp add: ascending_Cons)
  qed simp
  show ?thesis
    using assms(2-4)
  proof (induction ls arbitrary: rs s)
    case Nil
    then show ?case using fold_right [of rs s] by (cases rs) simp_all
  next
    case outer: (Cons l ls)
    show ?case
      using outer.prems(2,3)
    proof (induction rs arbitrary: s)
      case Nil
      then show ?case using fold_left [OF outer.prems(1), of s] by simp
    next
      case (Cons r rs)
      show ?case
      proof (cases "first l r")
        case True
        then have "rbegin l \<le> rbegin r" using assms(1) by (auto simp: by_begin_def split: if_splits)
        then have "\<forall>q\<in>set (r # rs). rbegin l \<le> rbegin q" using ascending_begin [OF Cons.prems(1)] by (auto intro: order_trans)
        then have "I (h l s) ls (r # rs)" by (rule left [OF outer.prems(1) Cons.prems(1) _ Cons.prems(2)])
        moreover have "ascending ls" using outer.prems(1) by (simp add: ascending_Cons)
        ultimately show ?thesis using outer.IH [OF _ Cons.prems(1)] True by simp
      next
        case False
        then have "rbegin r \<le> rbegin l" using assms(1) by (auto simp: by_begin_def split: if_splits)
        then have "\<forall>q\<in>set (l # ls). rbegin r \<le> rbegin q" using ascending_begin [OF outer.prems(1)] by (auto intro: order_trans)
        then have "I (h r s) (l # ls) rs" by (rule right [OF outer.prems(1) Cons.prems(1) _ Cons.prems(2)])
        moreover have "ascending rs" using Cons.prems(1) by (simp add: ascending_Cons)
        ultimately show ?thesis using Cons.IH False by simp
      qed
    qed
  qed
qed

subsection \<open>The unions\<close>

lemma union_append_correct:
  assumes "wf_rc c" "b \<le> e" "runs c \<noteq> [] \<Longrightarrow> rbegin (last (runs c)) \<le> b"
  shows "wf_rc (union_append b e c)" "rc_set (union_append b e c) = rc_set c \<union> {unat b..unat e}"
    "runs (union_append b e c) \<noteq> []" "rbegin (last (runs (union_append b e c))) \<le> b"
proof -
  have be: "unat b \<le> unat e" using assms(2) by (simp add: word_le_nat_alt)
  have "wf_runs (runs (union_append b e c)) \<and> rc_cardinality (union_append b e c) = sum_list (map run_len (runs (union_append b e c))) \<and>
    rc_set (union_append b e c) = rc_set c \<union> {unat b..unat e} \<and>
    runs (union_append b e c) \<noteq> [] \<and> rbegin (last (runs (union_append b e c))) \<le> b"
  proof (cases "runs c" rule: rev_cases)
    case Nil
    then show ?thesis using assms(1,2) by (auto simp: union_append_def wf_rc_def rc_set_def wf_runs_Cons run_len_def run_set_def)
  next
    case (snoc ss s)
    have n: "rc_cardinality c = sum_list (map run_len ss) + run_len s" and wf: "wf_runs (ss @ [s])"
      using assms(1) card_runs_set [of "ss @ [s]"] by (simp_all add: wf_rc_def snoc)
    have s: "unat (rbegin s) \<le> unat (rend s)" "unat (rbegin s) \<le> unat b"
      using wf assms(3) by (simp_all add: snoc wf_runs_snoc run_ok_unat word_le_nat_alt)
    consider "unat (rend s) + 1 < unat b" | "\<not> unat (rend s) + 1 < unat b" "rend s < e" | "\<not> unat (rend s) + 1 < unat b" "\<not> rend s < e"
      by blast
    then show ?thesis
      by cases (use wf n s be in \<open>auto simp: union_append_def snoc rc_set_def run_len_def run_set_def wf_runs_append wf_runs_Cons
        run_ok_unat run_gap_def word_le_nat_alt word_less_nat_alt\<close>)
  qed
  then show "wf_rc (union_append b e c)" "rc_set (union_append b e c) = rc_set c \<union> {unat b..unat e}"
    "runs (union_append b e c) \<noteq> []" "rbegin (last (runs (union_append b e c))) \<le> b"
    using card_runs_set [of "runs (union_append b e c)"] by (auto simp: wf_rc_def rc_set_def)
qed

definition union_ready :: "nat set \<Rightarrow> run_container \<Rightarrow> run list \<Rightarrow> run list \<Rightarrow> bool" where
  "union_ready S c ls rs \<longleftrightarrow> wf_rc c \<and> rc_set c \<union> runs_set ls \<union> runs_set rs = S \<and>
    (runs c \<noteq> [] \<longrightarrow> (\<forall>x\<in>set ls \<union> set rs. rbegin (last (runs c)) \<le> rbegin x))"

lemma union_ready_put:
  assumes "ascending (l # ls)" "\<forall>r\<in>set rs. rbegin l \<le> rbegin r" "union_ready S c (l # ls) rs"
  shows "union_ready S (union_append (rbegin l) (rend l) c) ls rs"
proof -
  have ok: "rbegin l \<le> rend l" using assms(1) by (simp add: ascending_Cons run_ok_def)
  have wf: "wf_rc c" and at: "runs c \<noteq> [] \<Longrightarrow> rbegin (last (runs c)) \<le> rbegin l"
    and S: "rc_set c \<union> (run_set l \<union> runs_set ls) \<union> runs_set rs = S"
    using assms(3) by (simp_all add: union_ready_def)
  note a = union_append_correct [OF wf ok at]
  have "rbegin l \<le> rbegin x" if "x \<in> set ls \<union> set rs" for x using ascending_begin [OF assms(1)] assms(2) that by blast
  then show ?thesis using a S by (auto simp: union_ready_def run_set_def intro: order_trans)
qed

lemma union_merge_correct:
  assumes "by_begin first" "ascending ls" "ascending rs"
  shows "wf_rc (merge_by first (\<lambda>r. union_append (rbegin r) (rend r)) (\<lambda>r. union_append (rbegin r) (rend r)) ls rs \<lparr>runs = [], rc_cardinality = 0\<rparr>)"
    "rc_set (merge_by first (\<lambda>r. union_append (rbegin r) (rend r)) (\<lambda>r. union_append (rbegin r) (rend r)) ls rs \<lparr>runs = [], rc_cardinality = 0\<rparr>)
      = runs_set ls \<union> runs_set rs"
proof -
  let ?S = "runs_set ls \<union> runs_set rs"
  have "union_ready ?S (merge_by first (\<lambda>r. union_append (rbegin r) (rend r)) (\<lambda>r. union_append (rbegin r) (rend r)) ls rs \<lparr>runs = [], rc_cardinality = 0\<rparr>) [] []"
  proof (rule merge_by_invariant [where I = "union_ready ?S", OF assms])
    show "union_ready ?S \<lparr>runs = [], rc_cardinality = 0\<rparr> ls rs" by (simp add: union_ready_def wf_rc_def rc_set_def)
    show "union_ready ?S (union_append (rbegin l) (rend l) s) ls rs"
      if "ascending (l # ls)" "\<forall>r\<in>set rs. rbegin l \<le> rbegin r" "union_ready ?S s (l # ls) rs" for s l ls rs
      by (rule union_ready_put [OF that])
    have swap: "union_ready T c as bs = union_ready T c bs as" for T c as bs
      by (simp add: union_ready_def Un_commute Un_left_commute Un_assoc)
    show "union_ready ?S (union_append (rbegin r) (rend r) s) ls rs"
      if "ascending (r # rs)" "\<forall>l\<in>set ls. rbegin r \<le> rbegin l" "union_ready ?S s ls (r # rs)" for s r ls rs
      using union_ready_put [OF that(1,2), of ?S s] that(3) by (simp add: swap [of _ _ ls])
  qed
  then show "wf_rc (merge_by first (\<lambda>r. union_append (rbegin r) (rend r)) (\<lambda>r. union_append (rbegin r) (rend r)) ls rs \<lparr>runs = [], rc_cardinality = 0\<rparr>)"
    "rc_set (merge_by first (\<lambda>r. union_append (rbegin r) (rend r)) (\<lambda>r. union_append (rbegin r) (rend r)) ls rs \<lparr>runs = [], rc_cardinality = 0\<rparr>) = ?S"
    by (simp_all add: union_ready_def)
qed

theorem union_run_run_correct:
  assumes "wf_runs ls" "wf_runs rs"
  shows "wf_rc (union_run_run ls rs)" "rc_set (union_run_run ls rs) = runs_set ls \<union> runs_set rs"
proof -
  have first: "by_begin (\<lambda>l r. rbegin l < rbegin r)" by (auto simp: by_begin_def)
  note u = union_merge_correct [OF first ascending_wf_runs [OF assms(1)] ascending_wf_runs [OF assms(2)]]
  show "wf_rc (union_run_run ls rs)" "rc_set (union_run_run ls rs) = runs_set ls \<union> runs_set rs"
    using u by (simp_all add: union_run_run_def)
qed

theorem union_run_array_correct:
  assumes "wf_runs ls" "strict vs"
  shows "wf_rc (union_run_array ls vs)" "rc_set (union_run_array ls vs) = runs_set ls \<union> array_set vs"
proof -
  have eq: "union_run_array ls vs = merge_by (\<lambda>r q. rbegin r \<le> rbegin q) (\<lambda>r. union_append (rbegin r) (rend r))
      (\<lambda>r. union_append (rbegin r) (rend r)) (map (\<lambda>r. r) ls) (map (\<lambda>v. mk_run v v) vs) \<lparr>runs = [], rc_cardinality = 0\<rparr>"
    unfolding union_run_array_def by (rule merge_by_runs) simp_all
  have first: "by_begin (\<lambda>r q. rbegin r \<le> rbegin q)" by (auto simp: by_begin_def)
  note u = union_merge_correct [OF first ascending_wf_runs [OF assms(1)] ascending_values [OF assms(2)]]
  show "wf_rc (union_run_array ls vs)" "rc_set (union_run_array ls vs) = runs_set ls \<union> array_set vs"
    using u by (simp_all add: eq runs_set_values)
qed

subsection \<open>The symmetric differences\<close>

lemma append_run_exclusive_end:
  assumes "wf_runs rs" "b \<le> e" "e < 65536" "rs \<noteq> [] \<Longrightarrow> unat (rbegin (last rs)) \<le> b" "append_run_exclusive rs b e \<noteq> []"
  shows "unat (rend (last (append_run_exclusive rs b e))) \<le> e \<or>
    rs \<noteq> [] \<and> unat (rend (last (append_run_exclusive rs b e))) \<le> unat (rend (last rs))"
proof (cases rs rule: rev_cases)
  case Nil
  then show ?thesis using assms(2,3) by (simp add: append_run_exclusive_def)
next
  case (snoc ss s)
  have s: "unat (rbegin s) \<le> unat (rend s)" "unat (rbegin s) \<le> b" "unat (rend s) < 65536"
    using assms(1,4) by (simp_all add: snoc wf_runs_snoc run_ok_unat)
  have narrow: "unat (to_low e) = e" "unat (to_low (b - 1)) = b - 1" using assms(2,3) by (intro unat_to_low; linarith)+
  have ss: "ss \<noteq> [] \<Longrightarrow> unat (rend (last ss)) \<le> unat (rend s)"
    using assms(1) s by (auto simp: snoc wf_runs_snoc run_gap_def)
  show ?thesis
    using assms(2,5) s narrow ss by (auto simp: snoc append_run_exclusive_def Let_def split: if_splits)
qed

text \<open>The last run built begins below all that is left, and ends below all that is left of one side.\<close>

definition xor_ready :: "nat set \<Rightarrow> run list \<Rightarrow> run list \<Rightarrow> run list \<Rightarrow> bool" where
  "xor_ready S out ls rs \<longleftrightarrow> wf_runs out \<and> sym_diff (runs_set out) (sym_diff (runs_set ls) (runs_set rs)) = S \<and>
    (out \<noteq> [] \<longrightarrow> (\<forall>x\<in>set ls \<union> set rs. rbegin (last out) \<le> rbegin x) \<and>
      ((\<forall>x\<in>set ls. rend (last out) < rbegin x) \<or> (\<forall>x\<in>set rs. rend (last out) < rbegin x)))"

lemma sym_diff_put: "A \<inter> B = {} \<Longrightarrow> sym_diff (sym_diff X A) (sym_diff B C) = sym_diff X (sym_diff (A \<union> B) C)"
  by (auto simp: sym_diff_def)

lemma xor_ready_put:
  assumes "ascending (l # ls)" "\<forall>r\<in>set rs. rbegin l \<le> rbegin r" "xor_ready S out (l # ls) rs"
  shows "xor_ready S (append_run_exclusive out (unat (rbegin l)) (unat (rend l))) ls rs"
proof -
  let ?b = "unat (rbegin l)" and ?e = "unat (rend l)"
  let ?new = "append_run_exclusive out ?b ?e"
  have be: "?b \<le> ?e" using assms(1) by (simp add: ascending_Cons run_ok_unat)
  have wf: "wf_runs out" and S: "sym_diff (runs_set out) (sym_diff (run_set l \<union> runs_set ls) (runs_set rs)) = S"
    and at: "out \<noteq> [] \<Longrightarrow> unat (rbegin (last out)) \<le> ?b"
    and one: "out \<noteq> [] \<Longrightarrow> (unat (rend (last out)) < ?b) \<or> (\<forall>x\<in>set rs. unat (rend (last out)) < unat (rbegin x))"
    using assms(3) by (auto simp: xor_ready_def word_le_nat_alt word_less_nat_alt)
  have a: "wf_runs ?new" "runs_set ?new = sym_diff (runs_set out) {?b..?e}"
    using append_run_exclusive_correct [OF wf be unat_low_less at] by blast+
  have ls: "?e < unat (rbegin x)" if "x \<in> set ls" for x using assms(1) that by (simp add: ascending_Cons word_less_nat_alt)
  have rs: "?b \<le> unat (rbegin x)" if "x \<in> set rs" for x using assms(2) that by (simp add: word_le_nat_alt)
  have set: "sym_diff (runs_set ?new) (sym_diff (runs_set ls) (runs_set rs)) = S"
    using sym_diff_put [OF ascending_disjoint [OF assms(1)], of "runs_set out" "runs_set rs"] S a(2) by (simp add: run_set_def)
  have "(\<forall>x\<in>set ls \<union> set rs. unat (rbegin (last ?new)) \<le> unat (rbegin x)) \<and>
    ((\<forall>x\<in>set ls. unat (rend (last ?new)) < unat (rbegin x)) \<or> (\<forall>x\<in>set rs. unat (rend (last ?new)) < unat (rbegin x)))"
    if ne: "?new \<noteq> []"
  proof -
    have last: "unat (rbegin (last ?new)) \<le> ?e + 1"
      "unat (rbegin (last ?new)) \<le> (if out = [] then ?b else max ?b (unat (rend (last out)) + 1))"
      "unat (rend (last ?new)) \<le> ?e \<or> out \<noteq> [] \<and> unat (rend (last ?new)) \<le> unat (rend (last out))"
      using append_run_exclusive_last [OF wf be unat_low_less at ne] append_run_exclusive_end [OF wf be unat_low_less at ne] by blast+
    have left: "unat (rbegin (last ?new)) \<le> unat (rbegin x)" if "x \<in> set ls" for x using last(1) ls [OF that] by simp
    show ?thesis
    proof (cases "out \<noteq> [] \<and> (\<exists>x\<in>set rs. unat (rbegin x) \<le> unat (rend (last out)))")
      case True
      then have before: "unat (rend (last out)) < ?b" using one by (auto simp: not_less [symmetric])
      then have "unat (rbegin (last ?new)) \<le> ?b" using last(2) be by (auto split: if_splits)
      moreover have "unat (rend (last ?new)) \<le> ?e" using last(3) before be by linarith
      ultimately show ?thesis using left ls rs by (meson UnE le_trans le_less_trans)
    next
      case False
      have right: "unat (rbegin (last ?new)) \<le> unat (rbegin x)" if "x \<in> set rs" for x
      proof (cases "out = []")
        case True
        then show ?thesis using last(2) rs [OF that] by simp
      next
        case out: False
        then have "unat (rend (last out)) < unat (rbegin x)" using False that by (meson not_less)
        then show ?thesis using last(2) rs [OF that] out by simp
      qed
      have "(\<forall>x\<in>set ls. unat (rend (last ?new)) < unat (rbegin x)) \<or> (\<forall>x\<in>set rs. unat (rend (last ?new)) < unat (rbegin x))"
      proof (cases "unat (rend (last ?new)) \<le> ?e")
        case True
        then show ?thesis using ls by (meson le_less_trans)
      next
        case out: False
        then have "out \<noteq> []" "unat (rend (last ?new)) \<le> unat (rend (last out))" using last(3) by blast+
        then show ?thesis using False by (meson le_less_trans not_less)
      qed
      then show ?thesis using left right by blast
    qed
  qed
  then show ?thesis using a(1) set unfolding xor_ready_def word_le_nat_alt word_less_nat_alt by blast
qed

lemma xor_merge_correct:
  assumes "by_begin first" "ascending ls" "ascending rs"
  defines "h \<equiv> \<lambda>r out. append_run_exclusive out (unat (rbegin r)) (unat (rend r))"
  shows "wf_runs (merge_by first h h ls rs [])"
    "runs_set (merge_by first h h ls rs []) = sym_diff (runs_set ls) (runs_set rs)"
    "length (merge_by first h h ls rs []) \<le> length ls + length rs"
proof -
  let ?S = "sym_diff (runs_set ls) (runs_set rs)"
  have swap: "xor_ready T c as bs = xor_ready T c bs as" for T c as bs
    by (auto simp: xor_ready_def sym_diff_def)
  have "xor_ready ?S (merge_by first h h ls rs []) [] []"
  proof (rule merge_by_invariant [where I = "xor_ready ?S", OF assms(1-3)])
    show "xor_ready ?S [] ls rs" by (simp add: xor_ready_def sym_diff_def)
    show "xor_ready ?S (h l s) ls rs"
      if "ascending (l # ls)" "\<forall>r\<in>set rs. rbegin l \<le> rbegin r" "xor_ready ?S s (l # ls) rs" for s l ls rs
      unfolding h_def by (rule xor_ready_put [OF that])
    show "xor_ready ?S (h r s) ls rs"
      if "ascending (r # rs)" "\<forall>l\<in>set ls. rbegin r \<le> rbegin l" "xor_ready ?S s ls (r # rs)" for s r ls rs
      unfolding h_def using xor_ready_put [OF that(1,2), of ?S s] that(3) by (simp add: swap [of _ _ ls])
  qed
  then show "wf_runs (merge_by first h h ls rs [])" "runs_set (merge_by first h h ls rs []) = ?S"
    by (simp_all add: xor_ready_def sym_diff_def)
  have "length (merge_by first h h ls rs []) + length ([] :: run list) + length ([] :: run list) \<le> length ls + length rs"
  proof (rule merge_by_invariant [where I = "\<lambda>out ls' rs'. length out + length ls' + length rs' \<le> length ls + length rs", OF assms(1-3)])
    show "length (h l s) + length ls' + length rs' \<le> length ls + length rs"
      if "length s + length (l # ls') + length rs' \<le> length ls + length rs" for s l ls' rs'
      using append_run_exclusive_length [of s "unat (rbegin l)" "unat (rend l)"] that by (simp add: h_def)
    show "length (h r s) + length ls' + length rs' \<le> length ls + length rs"
      if "length s + length ls' + length (r # rs') \<le> length ls + length rs" for s r ls' rs'
      using append_run_exclusive_length [of s "unat (rbegin r)" "unat (rend r)"] that by (simp add: h_def)
  qed simp
  then show "length (merge_by first h h ls rs []) \<le> length ls + length rs" by simp
qed

theorem xor_runs_correct:
  assumes "wf_runs ls" "wf_runs rs"
  shows "wf_runs (xor_runs ls rs)" "runs_set (xor_runs ls rs) = sym_diff (runs_set ls) (runs_set rs)"
    "length (xor_runs ls rs) \<le> length ls + length rs"
proof -
  have first: "by_begin (\<lambda>l r. rbegin l \<le> rbegin r)" by (auto simp: by_begin_def)
  note x = xor_merge_correct [OF first ascending_wf_runs [OF assms(1)] ascending_wf_runs [OF assms(2)]]
  show "wf_runs (xor_runs ls rs)" "runs_set (xor_runs ls rs) = sym_diff (runs_set ls) (runs_set rs)"
    "length (xor_runs ls rs) \<le> length ls + length rs"
    using x by (simp_all add: xor_runs_def)
qed

theorem xor_values_runs_correct:
  assumes "strict vs" "wf_runs rs"
  shows "wf_runs (xor_values_runs vs rs)" "runs_set (xor_values_runs vs rs) = sym_diff (array_set vs) (runs_set rs)"
    "length (xor_values_runs vs rs) \<le> length vs + length rs"
proof -
  let ?h = "\<lambda>r out. append_run_exclusive out (unat (rbegin r)) (unat (rend r))"
  have eq: "xor_values_runs vs rs = merge_by (\<lambda>q r. \<not> rbegin r \<le> rbegin q) ?h ?h (map (\<lambda>v. mk_run v v) vs) (map (\<lambda>r. r) rs) []"
    unfolding xor_values_runs_def by (rule merge_by_runs) simp_all
  have first: "by_begin (\<lambda>q r. \<not> rbegin r \<le> rbegin q)" by (auto simp: by_begin_def)
  note x = xor_merge_correct [OF first ascending_values [OF assms(1)] ascending_wf_runs [OF assms(2)]]
  show "wf_runs (xor_values_runs vs rs)" "runs_set (xor_values_runs vs rs) = sym_diff (array_set vs) (runs_set rs)"
    "length (xor_values_runs vs rs) \<le> length vs + length rs"
    using x by (simp_all add: eq runs_set_values)
qed

end
