(* ===== verification/Run_Difference.thy ===== *)
theory Run_Difference
  imports Run_Merge
begin

text \<open>
  A run list minus a run list and minus sorted values (\<open>run_ops.hpp\<close>): each run is cut by what is taken out of it,
  and the pieces are settled to the smallest form.
\<close>

subsection \<open>The operations\<close>

text \<open>The inner loop: the pieces of one run from \<open>current_begin\<close> on, \<open>scan\<close> the runs taken out.\<close>

fun cut_by_runs :: "low \<Rightarrow> low \<Rightarrow> run list \<Rightarrow> run list" where
  "cut_by_runs current_begin left_end (s # scan) =
    (if rbegin s \<le> left_end then
       (if current_begin < rbegin s then [mk_run current_begin (rbegin s - 1)] else []) @
       (if rend s = - 1 \<or> rend s \<ge> left_end then [] else cut_by_runs (rend s + 1) left_end scan)
     else if current_begin \<le> left_end then [mk_run current_begin left_end] else [])"
| "cut_by_runs current_begin left_end [] =
    (if current_begin \<le> left_end then [mk_run current_begin left_end] else [])"

fun difference_runs_loop :: "run list \<Rightarrow> run list \<Rightarrow> run list \<Rightarrow> run list" where
  "difference_runs_loop (left # lhs) ri out =
    (let ri = dropWhile (\<lambda>r. rend r < rbegin left) ri
     in difference_runs_loop lhs ri (out @ cut_by_runs (rbegin left) (rend left) ri))"
| "difference_runs_loop [] ri out = out"

definition difference_run_run :: "run list \<Rightarrow> run list \<Rightarrow> nat \<Rightarrow> container" where
  "difference_run_run lhs rhs bitset_threshold =
    (let out = difference_runs_loop lhs rhs []
     in if out = [] then make_array
        else settle_run_result (run_sync_header (set_run_list out make_run)) bitset_threshold)"

text \<open>The pieces of one run, and the values left for the next.\<close>

fun cut_by_values :: "low \<Rightarrow> low \<Rightarrow> low list \<Rightarrow> run list \<times> low list" where
  "cut_by_values current_begin run_end (v # scan) =
    (if v \<le> run_end then
       let piece = (if current_begin < v then [mk_run current_begin (v - 1)] else [])
       in if v = - 1 then (piece, v # scan)
          else case cut_by_values (v + 1) run_end scan of (pieces, value_it) \<Rightarrow> (piece @ pieces, value_it)
     else (if current_begin \<le> run_end then [mk_run current_begin run_end] else [], v # scan))"
| "cut_by_values current_begin run_end [] =
    (if current_begin \<le> run_end then [mk_run current_begin run_end] else [], [])"

fun difference_values_loop :: "run list \<Rightarrow> low list \<Rightarrow> run list \<Rightarrow> run list" where
  "difference_values_loop (r # lhs) value_it out =
    (case cut_by_values (rbegin r) (rend r) (dropWhile (\<lambda>v. v < rbegin r) value_it) of
       (pieces, value_it) \<Rightarrow> difference_values_loop lhs value_it (out @ pieces))"
| "difference_values_loop [] value_it out = out"

definition difference_run_values :: "run list \<Rightarrow> low list \<Rightarrow> nat \<Rightarrow> container" where
  "difference_run_values lhs values bitset_threshold =
    (let out = difference_values_loop lhs values []
     in if out = [] then make_array
        else settle_run_result (run_sync_header (set_run_list out make_run)) bitset_threshold)"

definition difference_run_array :: "run list \<Rightarrow> low list \<Rightarrow> nat \<Rightarrow> container" where
  "difference_run_array lhs values bitset_threshold = difference_run_values lhs values bitset_threshold"

subsection \<open>The pieces of one run\<close>

lemma wf_runs_append_sets:
  assumes "wf_runs ps" "wf_runs qs" "\<And>x y. x \<in> runs_set ps \<Longrightarrow> y \<in> runs_set qs \<Longrightarrow> x + 1 < y"
  shows "wf_runs (ps @ qs)"
  unfolding wf_runs_append
proof (intro conjI ballI assms(1,2))
  fix r s assume rs: "r \<in> set ps" "s \<in> set qs"
  have "unat (rend r) \<in> runs_set ps" "unat (rbegin s) \<in> runs_set qs"
    using rs wf_runs_ok [OF assms(1) rs(1)] wf_runs_ok [OF assms(2) rs(2)] by (auto intro: runs_setI)
  then show "run_gap r s" unfolding run_gap_def by (rule assms(3))
qed

lemma piece_before:
  assumes "cb < (b :: low)"
  shows "wf_runs [mk_run cb (b - 1)]" "runs_set [mk_run cb (b - 1)] = {unat cb..<unat b}"
proof -
  have "b \<noteq> 0" using assms by auto
  then have u: "unat (b - 1) = unat b - 1" by (rule unat_minus1_low)
  have less: "unat cb < unat b" using assms by (simp add: word_less_nat_alt)
  then show "wf_runs [mk_run cb (b - 1)]" using u by (simp add: wf_runs_Cons run_ok_unat)
  show "runs_set [mk_run cb (b - 1)] = {unat cb..<unat b}" using u less by (auto simp: run_set_def)
qed

lemma piece_left:
  "wf_runs (if cb \<le> e then [mk_run cb e] else [])"
  "runs_set (if cb \<le> e then [mk_run cb e] else []) = {unat cb..unat e}"
  by (auto simp: wf_runs_Cons run_set_def word_le_nat_alt)

lemma holds_settled_runs:
  assumes "wf_runs rs"
  shows "holds_set (runs_set rs) (settle_run_result (run_sync_header (set_run_list rs make_run)) threshold)"
proof -
  let ?h = "run_sync_header (set_run_list rs make_run)"
  have "wf_container ?h" by (rule wf_set_run_list [OF assms]) (simp add: make_run_def)
  moreover have "holds_run ?h" "values_of ?h = runs_set rs"
    by (simp_all add: holds_run_def kind_def values_of_def set_run_list_def run_sync_header_def Let_def)
  ultimately show ?thesis using settle_run_result_correct [of ?h threshold] by simp
qed

text \<open>A cut: what is before the cut, and what the rest of the loop makes of what is behind it.\<close>

lemma cut_join:
  fixes cb :: low
  assumes "wf_runs qs" "runs_set qs = {c..unat e} - T" "unat b < c" "b \<le> e"
  defines "ps \<equiv> if cb < b then [mk_run cb (b - 1)] else []"
  shows "wf_runs (ps @ qs)" "runs_set (ps @ qs) = {unat cb..<unat b} \<union> ({c..unat e} - T)"
proof -
  have ps: "wf_runs ps" "runs_set ps = {unat cb..<unat b}"
    using piece_before [of cb b] by (auto simp: ps_def word_less_nat_alt)
  show "wf_runs (ps @ qs)" by (rule wf_runs_append_sets [OF ps(1) assms(1)]) (use ps(2) assms(2,3) in auto)
  show "runs_set (ps @ qs) = {unat cb..<unat b} \<union> ({c..unat e} - T)" using ps(2) assms(2) by simp
qed

lemma cut_by_runs_correct:
  "wf_runs scan \<Longrightarrow> cb \<le> e \<Longrightarrow> \<forall>s\<in>set scan. cb \<le> rend s \<Longrightarrow>
    wf_runs (cut_by_runs cb e scan) \<and> runs_set (cut_by_runs cb e scan) = {unat cb..unat e} - runs_set scan"
proof (induction scan arbitrary: cb)
  case Nil
  then show ?case using piece_left [of cb e] by simp
next
  case (Cons s scan)
  have s: "unat (rbegin s) \<le> unat (rend s)" "wf_runs scan" "unat cb \<le> unat (rend s)"
    using Cons.prems by (simp_all add: wf_runs_Cons run_ok_unat word_le_nat_alt)
  have after: "unat (rend s) + 1 < y" if "y \<in> runs_set scan" for y by (rule runs_set_Cons_gap [OF Cons.prems(1) that])
  show ?case
  proof (cases "rbegin s \<le> e")
    case False
    then have out: "{unat cb..unat e} \<inter> runs_set (s # scan) = {}"
      using after s(1) by (force simp: not_le word_less_nat_alt run_set_def)
    show ?thesis using False Cons.prems(2) out piece_left [of cb e] by (simp add: Diff_triv)
  next
    case True
    let ?pre = "if cb < rbegin s then [mk_run cb (rbegin s - 1)] else []"
    have pre: "wf_runs ?pre" "runs_set ?pre = {unat cb..<unat (rbegin s)}"
      using piece_before [of cb "rbegin s"] by (auto simp: word_less_nat_alt)
    have be: "unat (rbegin s) \<le> unat e" using True by (simp add: word_le_nat_alt)
    show ?thesis
    proof (cases "rend s = - 1 \<or> rend s \<ge> e")
      case stop: True
      then have "unat e \<le> unat (rend s)" using unat_low_le [of e] by (auto simp: word_le_nat_alt)
      then have "{unat cb..unat e} - runs_set (s # scan) = {unat cb..<unat (rbegin s)}"
        using after be by (force simp: run_set_def)
      moreover have "cut_by_runs cb e (s # scan) = ?pre" using True stop by simp
      ultimately show ?thesis using pre by simp
    next
      case False
      have u: "unat (rend s + 1) = unat (rend s) + 1" using False by (intro unat_low_plus1) simp
      have le: "rend s + 1 \<le> e" using False u by (simp add: word_le_nat_alt word_less_nat_alt not_le)
      have all: "\<forall>q\<in>set scan. rend s + 1 \<le> rend q"
        using Cons.prems(1) wf_runs_ok [OF s(2)] by (fastforce simp: wf_runs_Cons run_gap_def word_le_nat_alt u)
      note ih = Cons.IH [OF s(2) le all, unfolded u]
      note j = cut_join [OF conjunct1 [OF ih] conjunct2 [OF ih] _ True, of cb]
      have "{unat cb..unat e} - runs_set (s # scan) = {unat cb..<unat (rbegin s)} \<union> ({unat (rend s) + 1..unat e} - runs_set scan)"
        using after be s(1,3) by (force simp: run_set_def)
      moreover have "cut_by_runs cb e (s # scan) = ?pre @ cut_by_runs (rend s + 1) e scan" using True False by simp
      ultimately show ?thesis using j s(1) by simp
    qed
  qed
qed

lemma ends_reach:
  assumes "wf_runs (dropWhile (\<lambda>r. rend r < b) rs)"
  shows "\<forall>s\<in>set (dropWhile (\<lambda>r. rend r < b) rs). b \<le> rend s"
proof (cases "dropWhile (\<lambda>r. rend r < b) rs")
  case (Cons q qs)
  then have q: "b \<le> rend q" by (simp add: dropWhile_eq_Cons_conv not_less)
  have "b \<le> rend s" if "s \<in> set qs" for s
    using assms wf_runs_ok [OF assms, of s] q that unfolding Cons
    by (fastforce simp: wf_runs_Cons run_gap_def word_le_nat_alt)
  then show ?thesis using q Cons by simp
next
  case Nil
  then show ?thesis unfolding Nil by simp
qed

lemma runs_set_dropped:
  assumes "x \<in> runs_set rs" "unat b \<le> x"
  shows "x \<in> runs_set (dropWhile (\<lambda>r. rend r < b) rs)"
proof -
  have "x \<notin> runs_set (takeWhile (\<lambda>r. rend r < b) rs)"
    using assms(2) by (auto simp: word_less_nat_alt dest!: set_takeWhileD elim!: runs_setE)
  moreover have "x \<in> runs_set (takeWhile (\<lambda>r. rend r < b) rs @ dropWhile (\<lambda>r. rend r < b) rs)" using assms(1) by simp
  ultimately show ?thesis unfolding runs_set_append by blast
qed

lemma difference_runs_loop_correct:
  "wf_runs lhs \<Longrightarrow> wf_runs ri \<Longrightarrow> wf_runs out \<Longrightarrow> (\<And>x y. x \<in> runs_set out \<Longrightarrow> y \<in> runs_set lhs \<Longrightarrow> x + 1 < y) \<Longrightarrow>
    wf_runs (difference_runs_loop lhs ri out) \<and>
    runs_set (difference_runs_loop lhs ri out) = runs_set out \<union> (runs_set lhs - runs_set ri)"
proof (induction lhs arbitrary: ri out)
  case (Cons l lhs)
  let ?ri = "dropWhile (\<lambda>r. rend r < rbegin l) ri"
  let ?cut = "cut_by_runs (rbegin l) (rend l) ?ri"
  have l: "rbegin l \<le> rend l" "wf_runs lhs" using Cons.prems(1) by (simp_all add: wf_runs_Cons run_ok_def)
  have after: "unat (rend l) + 1 < y" if "y \<in> runs_set lhs" for y by (rule runs_set_Cons_gap [OF Cons.prems(1) that])
  have wf: "wf_runs ?ri" using wf_runs_drop [OF Cons.prems(2)] by (simp add: dropWhile_eq_drop)
  note ends = ends_reach [OF wf]
  have dropped: "x \<notin> runs_set ri" if "x \<notin> runs_set ?ri" "unat (rbegin l) \<le> x" for x
    using runs_set_dropped [OF _ that(2)] that(1) by blast
  note c = cut_by_runs_correct [OF wf l(1) ends]
  have sub: "runs_set ?ri \<subseteq> runs_set ri" by (auto simp: runs_set_def dest: set_dropWhileD)
  have cut: "runs_set ?cut = run_set l - runs_set ri"
    using c dropped sub by (auto simp: run_set_def)
  have wf_out: "wf_runs (out @ ?cut)"
    by (rule wf_runs_append_sets [OF Cons.prems(3) conjunct1 [OF c]]) (use cut Cons.prems(4) in auto)
  have before: "x + 1 < y" if "x \<in> runs_set (out @ ?cut)" "y \<in> runs_set lhs" for x y
    using that Cons.prems(4) [of x y] after [of y] cut by (auto simp: run_set_def)
  have later: "runs_set lhs - runs_set ?ri = runs_set lhs - runs_set ri"
    using dropped sub after l(1) by (force simp: word_le_nat_alt)
  show ?case
    using Cons.IH [OF l(2) wf wf_out before] cut later by (auto simp: Let_def)
qed simp

theorem difference_run_run_correct:
  assumes "wf_runs lhs" "wf_runs rhs"
  shows "holds_set (runs_set lhs - runs_set rhs) (difference_run_run lhs rhs threshold)"
proof -
  have d: "wf_runs (difference_runs_loop lhs rhs [])" "runs_set (difference_runs_loop lhs rhs []) = runs_set lhs - runs_set rhs"
    using difference_runs_loop_correct [OF assms, of "[]"] by simp_all
  show ?thesis
    using holds_settled_runs [OF d(1), of threshold] holds_make_array [of "runs_set lhs - runs_set rhs"] d(2)
    by (auto simp: difference_run_run_def Let_def)
qed

subsection \<open>Values taken out of runs\<close>

lemma cut_by_values_correct:
  "strict scan \<Longrightarrow> \<forall>v\<in>set scan. cb \<le> v \<Longrightarrow> cut_by_values cb e scan = (ps, rest) \<Longrightarrow>
    wf_runs ps \<and> runs_set ps = {unat cb..unat e} - array_set scan \<and>
    strict rest \<and> set rest \<subseteq> set scan \<and> (\<forall>v\<in>set scan. e < v \<longrightarrow> v \<in> set rest)"
proof (induction scan arbitrary: cb ps)
  case Nil
  then show ?case using piece_left [of cb e] by auto
next
  case (Cons v scan)
  have v: "cb \<le> v" "strict scan" and above: "\<And>w. w \<in> set scan \<Longrightarrow> v < w" using Cons.prems(1,2) by simp_all
  show ?case
  proof (cases "v \<le> e")
    case False
    then have "{unat cb..unat e} \<inter> array_set (v # scan) = {}"
      using above by (fastforce simp: array_set_def word_le_nat_alt word_less_nat_alt)
    then show ?thesis using False Cons.prems(1,3) piece_left [of cb e] by (auto simp: Diff_triv)
  next
    case True
    let ?pre = "if cb < v then [mk_run cb (v - 1)] else []"
    have pre: "wf_runs ?pre" "runs_set ?pre = {unat cb..<unat v}"
      using piece_before [of cb v] by (auto simp: word_less_nat_alt)
    show ?thesis
    proof (cases "v = - 1")
      case last: True
      then have "scan = []" using above low_not_max by (cases scan) auto
      moreover have "unat v = unat e" using last True by (simp add: word_le_nat_alt le_antisym)
      then have "{unat cb..<unat v} = {unat cb..unat e} - {unat v}" by auto
      moreover have "ps = ?pre" "rest = v # scan" using Cons.prems(3) True last by (auto simp: Let_def)
      ultimately show ?thesis using pre by simp
    next
      case False
      then have u: "unat (v + 1) = unat v + 1" by (rule unat_low_plus1)
      obtain qs where qs: "cut_by_values (v + 1) e scan = (qs, rest)" "ps = ?pre @ qs"
        using Cons.prems(3) True False by (auto simp: Let_def split: prod.splits)
      have all: "\<forall>w\<in>set scan. v + 1 \<le> w" using above u by (fastforce simp: word_le_nat_alt word_less_nat_alt)
      have ih: "wf_runs qs" "runs_set qs = {unat v + 1..unat e} - array_set scan" "strict rest" "set rest \<subseteq> set scan"
        "\<forall>w\<in>set scan. e < w \<longrightarrow> w \<in> set rest"
        using Cons.IH [OF v(2) all qs(1)] by (simp_all add: u)
      note j = cut_join [OF ih(1,2) less_add_one True, of cb]
      have "y \<notin> array_set scan" if "y < unat v" for y
        using above that by (fastforce simp: array_set_def word_less_nat_alt)
      moreover have "unat cb \<le> unat v" "unat v \<le> unat e" using v(1) True by (simp_all add: word_le_nat_alt)
      moreover have "array_set (v # scan) = insert (unat v) (array_set scan)" by (simp add: array_set_def)
      ultimately have "{unat cb..unat e} - array_set (v # scan) = {unat cb..<unat v} \<union> ({unat v + 1..unat e} - array_set scan)"
        by (auto simp: not_less Suc_le_eq order.order_iff_strict)
      then have "runs_set ps = {unat cb..unat e} - array_set (v # scan)" unfolding qs(2) j(2) by simp
      moreover have "wf_runs ps" unfolding qs(2) by (rule j(1))
      moreover have "set rest \<subseteq> set (v # scan)" using ih(4) by auto
      moreover have "\<forall>w\<in>set (v # scan). e < w \<longrightarrow> w \<in> set rest" using ih(5) True by (simp add: not_less [symmetric])
      ultimately show ?thesis using ih(3) by blast
    qed
  qed
qed

lemma difference_values_loop_correct:
  "wf_runs lhs \<Longrightarrow> strict vs \<Longrightarrow> wf_runs out \<Longrightarrow> (\<And>x y. x \<in> runs_set out \<Longrightarrow> y \<in> runs_set lhs \<Longrightarrow> x + 1 < y) \<Longrightarrow>
    wf_runs (difference_values_loop lhs vs out) \<and>
    runs_set (difference_values_loop lhs vs out) = runs_set out \<union> (runs_set lhs - array_set vs)"
proof (induction lhs arbitrary: vs out)
  case (Cons l lhs)
  let ?it = "dropWhile (\<lambda>v. v < rbegin l) vs"
  obtain ps rest where c: "cut_by_values (rbegin l) (rend l) ?it = (ps, rest)" by fastforce
  have l: "unat (rbegin l) \<le> unat (rend l)" "wf_runs lhs" using Cons.prems(1) by (simp_all add: wf_runs_Cons run_ok_unat)
  have after: "unat (rend l) + 1 < y" if "y \<in> runs_set lhs" for y by (rule runs_set_Cons_gap [OF Cons.prems(1) that])
  have it: "strict ?it" using strict_drop [OF Cons.prems(2)] by (simp add: dropWhile_eq_drop)
  have kept: "v \<in> set ?it \<longleftrightarrow> v \<in> set vs \<and> rbegin l \<le> v" for v
    using Cons.prems(2) by (induction vs) (auto simp: not_less)
  note p = cut_by_values_correct [OF it _ c]
  have p: "wf_runs ps" "runs_set ps = run_set l - array_set ?it" "strict rest" "set rest \<subseteq> set ?it"
    "\<forall>v\<in>set ?it. rend l < v \<longrightarrow> v \<in> set rest"
    using p kept by (simp_all add: run_set_def)
  have cut: "runs_set ps = run_set l - array_set vs"
    unfolding p(2) using kept by (auto simp: array_set_def run_set_def word_le_nat_alt)
  have later: "runs_set lhs - array_set rest = runs_set lhs - array_set vs"
  proof -
    have "y \<in> array_set rest \<longleftrightarrow> y \<in> array_set vs" if y: "y \<in> runs_set lhs" for y
    proof
      assume "y \<in> array_set vs"
      then obtain v where v: "v \<in> set vs" "y = unat v" by (auto simp: array_set_def)
      then have "rend l < v" "rbegin l \<le> v" using after [OF y] l(1) by (simp_all add: word_le_nat_alt word_less_nat_alt)
      then show "y \<in> array_set rest" using p(5) kept v by (auto simp: array_set_def)
    qed (use p(4) kept in \<open>auto simp: array_set_def\<close>)
    then show ?thesis by blast
  qed
  have wf_out: "wf_runs (out @ ps)"
    by (rule wf_runs_append_sets [OF Cons.prems(3) p(1)]) (use cut Cons.prems(4) in auto)
  have before: "x + 1 < y" if "x \<in> runs_set (out @ ps)" "y \<in> runs_set lhs" for x y
    using that Cons.prems(4) [of x y] after [of y] cut by (auto simp: run_set_def)
  show ?case
    using Cons.IH [OF l(2) p(3) wf_out before] cut later by (auto simp: c)
qed simp

theorem difference_run_values_correct:
  assumes "wf_runs lhs" "strict vs"
  shows "holds_set (runs_set lhs - array_set vs) (difference_run_values lhs vs threshold)"
proof -
  have d: "wf_runs (difference_values_loop lhs vs [])" "runs_set (difference_values_loop lhs vs []) = runs_set lhs - array_set vs"
    using difference_values_loop_correct [OF assms, of "[]"] by simp_all
  show ?thesis
    using holds_settled_runs [OF d(1), of threshold] holds_make_array [of "runs_set lhs - array_set vs"] d(2)
    by (auto simp: difference_run_values_def Let_def)
qed

end
