(* ===== verification/Survivor_Scan.thy ===== *)
theory Survivor_Scan
  imports Run_Difference
begin

text \<open>
  The survivors of a run container after a bitset is taken out of it, as a stream of words and of stretches of full
  words (\<open>run_ops.hpp\<close>, \<open>scan_run_bitset_difference\<close>). The stream is the list of the calls the scan makes to its
  sink, in order; the sinks are in the next theory.
\<close>

subsection \<open>The scan\<close>

text \<open>\<open>sink.word( index, survivors )\<close> and \<open>sink.ones( first index, count )\<close>.\<close>

datatype sink_call = Word nat word64 | Ones nat nat

text \<open>The word still pending, which the next run may add to, and the calls made.\<close>

type_synonym scan_state = "(nat \<times> word64) option \<times> sink_call list"

definition flush_pending :: "scan_state \<Rightarrow> scan_state" where
  "flush_pending s = (case fst s of None \<Rightarrow> s | Some (index, pending) \<Rightarrow> (None, snd s @ [Word index pending]))"

definition put_word :: "nat \<Rightarrow> word64 \<Rightarrow> scan_state \<Rightarrow> scan_state" where
  "put_word index survivors s =
    (case fst s of
       Some (pending_index, pending) \<Rightarrow>
         if index = pending_index then (Some (pending_index, pending OR survivors), snd s)
         else (Some (index, survivors), snd (flush_pending s))
     | None \<Rightarrow> (Some (index, survivors), snd s))"

definition call_sink :: "sink_call \<Rightarrow> scan_state \<Rightarrow> scan_state" where
  "call_sink c s = (let s = flush_pending s in (fst s, snd s @ [c]))"

text \<open>A stretch of zero words or of full words is crossed four words at a time, then one by one.\<close>

definition four_words :: "(word64 \<Rightarrow> word64 \<Rightarrow> word64) \<Rightarrow> word64 list \<Rightarrow> nat \<Rightarrow> word64" where
  "four_words f bits i = f (f (f (bits ! i) (bits ! (i + 1))) (bits ! (i + 2))) (bits ! (i + 3))"

function cross_fours :: "bool \<Rightarrow> word64 list \<Rightarrow> nat \<Rightarrow> nat \<Rightarrow> nat" where
  "cross_fours full bits last_word end_i =
    (if end_i + 4 \<le> last_word \<and> (if full then four_words (AND) bits end_i = - 1 else four_words (OR) bits end_i = 0)
     then cross_fours full bits last_word (end_i + 4) else end_i)"
  by pat_completeness auto
termination
  by (relation "measure (\<lambda>(full, bits, last_word, end_i). last_word - end_i)") auto

declare cross_fours.simps [simp del]

function cross_ones :: "word64 \<Rightarrow> word64 list \<Rightarrow> nat \<Rightarrow> nat \<Rightarrow> nat" where
  "cross_ones c bits last_word end_i =
    (if end_i < last_word \<and> bits ! end_i = c then cross_ones c bits last_word (end_i + 1) else end_i)"
  by pat_completeness auto
termination
  by (relation "measure (\<lambda>(c, bits, last_word, end_i). last_word - end_i)") auto

declare cross_ones.simps [simp del]

lemma cross_fours_ge: "end_i \<le> cross_fours full bits last_word end_i"
proof (induction full bits last_word end_i rule: cross_fours.induct)
  case (1 full bits last_word end_i)
  then show ?case
    by (subst cross_fours.simps) (auto intro: order_trans [of end_i "end_i + 4"])
qed

lemma cross_ones_ge: "end_i \<le> cross_ones c bits last_word end_i"
proof (induction c bits last_word end_i rule: cross_ones.induct)
  case (1 c bits last_word end_i)
  then show ?case
    by (subst cross_ones.simps) (auto intro: Suc_leD)
qed

definition stretch_end :: "bool \<Rightarrow> word64 list \<Rightarrow> nat \<Rightarrow> nat \<Rightarrow> nat" where
  "stretch_end full bits last_word index =
    cross_ones (if full then - 1 else 0) bits last_word (cross_fours full bits last_word (index + 1))"

lemma stretch_end_ge: "index < stretch_end full bits last_word index"
  using cross_fours_ge [of "index + 1"] cross_ones_ge order_trans Suc_le_eq unfolding stretch_end_def by (metis Suc_eq_plus1)

function scan_middle :: "word64 list \<Rightarrow> nat \<Rightarrow> nat \<Rightarrow> scan_state \<Rightarrow> scan_state" where
  "scan_middle bits last_word index s =
    (if index < last_word then
       (let word = bits ! index
        in if word \<noteq> 0 \<and> word \<noteq> - 1 then scan_middle bits last_word (index + 1) (call_sink (Word index (NOT word)) s)
           else let end_i = stretch_end (word \<noteq> 0) bits last_word index
                in scan_middle bits last_word end_i (if word = 0 then call_sink (Ones index (end_i - index)) s else s))
     else s)"
  by pat_completeness auto
termination
proof (relation "measure (\<lambda>(bits, last_word, index, s). last_word - index)", goal_cases)
  case (3 bits last_word index s word end_i)
  then show ?case using stretch_end_ge [of index "word \<noteq> 0" bits last_word] by auto
qed auto

declare scan_middle.simps [simp del]

definition scan_run :: "word64 list \<Rightarrow> run \<Rightarrow> scan_state \<Rightarrow> scan_state" where
  "scan_run bits current s =
    (let first_word = word_index (rbegin current);
         last_word = word_index (rend current);
         first_mask = push_bit (bit_index (rbegin current)) (- 1);
         last_mask = drop_bit (63 - bit_index (rend current)) (- 1)
     in if first_word = last_word then put_word first_word (first_mask AND last_mask AND NOT (bits ! first_word)) s
        else put_word last_word (last_mask AND NOT (bits ! last_word))
               (scan_middle bits last_word (first_word + 1) (put_word first_word (first_mask AND NOT (bits ! first_word)) s)))"

definition scan_run_bitset_difference :: "run list \<Rightarrow> word64 list \<Rightarrow> sink_call list" where
  "scan_run_bitset_difference lhs bits = snd (flush_pending (fold (scan_run bits) lhs (None, [])))"

subsection \<open>What the calls report\<close>

fun call_set :: "sink_call \<Rightarrow> nat set" where
  "call_set (Word i w) = {v. v div 64 = i \<and> bit w (v mod 64)}"
| "call_set (Ones i n) = {v. i \<le> v div 64 \<and> v div 64 < i + n}"

fun first_index :: "sink_call \<Rightarrow> nat" where
  "first_index (Word i w) = i"
| "first_index (Ones i n) = i"

fun end_index :: "sink_call \<Rightarrow> nat" where
  "end_index (Word i w) = i + 1"
| "end_index (Ones i n) = i + n"

definition calls_set :: "sink_call list \<Rightarrow> nat set" where
  "calls_set cs = (\<Union>c\<in>set cs. call_set c)"

text \<open>The calls ascend, and each reports at least one word.\<close>

definition calls_ok :: "sink_call list \<Rightarrow> bool" where
  "calls_ok cs \<longleftrightarrow> sorted_wrt (\<lambda>c d. end_index c \<le> first_index d) cs \<and> (\<forall>c\<in>set cs. first_index c < end_index c)"

lemma calls_set_simps [simp]:
  "calls_set [] = {}" "calls_set (c # cs) = call_set c \<union> calls_set cs" "calls_set (cs @ ds) = calls_set cs \<union> calls_set ds"
  by (simp_all add: calls_set_def)

lemma calls_ok_snoc:
  "calls_ok (cs @ [c]) \<longleftrightarrow> calls_ok cs \<and> (\<forall>d\<in>set cs. end_index d \<le> first_index c) \<and> first_index c < end_index c"
  by (auto simp: calls_ok_def sorted_wrt_append)

lemma call_set_bounds: "v \<in> call_set c \<Longrightarrow> first_index c \<le> v div 64 \<and> v div 64 < end_index c"
  by (cases c) auto

text \<open>A scan state at word \<open>k\<close>: the calls made end at or below it, and so does the pending word.\<close>

definition scan_at :: "nat \<Rightarrow> nat set \<Rightarrow> scan_state \<Rightarrow> bool" where
  "scan_at k S s \<longleftrightarrow> calls_ok (snd s) \<and> (\<forall>c\<in>set (snd s). end_index c \<le> k) \<and>
    (case fst s of None \<Rightarrow> calls_set (snd s) = S
     | Some (i, w) \<Rightarrow> (\<forall>c\<in>set (snd s). end_index c \<le> i) \<and> i \<le> k \<and> calls_set (snd s) \<union> call_set (Word i w) = S)"

lemma scan_at_mono: "scan_at k S s \<Longrightarrow> k \<le> k' \<Longrightarrow> scan_at k' S s"
  by (auto simp: scan_at_def split: option.splits)

lemma scan_at_put:
  assumes "scan_at k S s" "k \<le> i"
  shows "scan_at i (S \<union> call_set (Word i w)) (put_word i w s)"
proof (cases "fst s")
  case None
  then show ?thesis using assms by (auto simp: scan_at_def put_word_def)
next
  case (Some p)
  obtain j u where p: "p = (j, u)" by fastforce
  show ?thesis
  proof (cases "i = j")
    case True
    then show ?thesis using assms Some p by (auto simp: scan_at_def put_word_def bit_or_iff)
  next
    case False
    then show ?thesis using assms Some p by (auto simp: scan_at_def put_word_def flush_pending_def calls_ok_snoc)
  qed
qed

text \<open>Ready for a call at word \<open>k\<close>: the pending word is before it.\<close>

definition ready_at :: "nat \<Rightarrow> nat set \<Rightarrow> scan_state \<Rightarrow> bool" where
  "ready_at k S s \<longleftrightarrow> scan_at k S s \<and> (\<forall>i w. fst s = Some (i, w) \<longrightarrow> i < k)"

lemma ready_at_mono: "ready_at k S s \<Longrightarrow> k \<le> k' \<Longrightarrow> ready_at k' S s"
  unfolding ready_at_def using scan_at_mono by fastforce

lemma scan_at_ready: "scan_at k S s \<Longrightarrow> k < k' \<Longrightarrow> ready_at k' S s"
  using scan_at_mono [of k S s k'] by (fastforce simp: ready_at_def scan_at_def split: option.splits)

lemma ready_at_flush:
  assumes "ready_at k S s"
  shows "calls_ok (snd (flush_pending s))" "\<forall>c\<in>set (snd (flush_pending s)). end_index c \<le> k"
    "calls_set (snd (flush_pending s)) = S" "fst (flush_pending s) = None"
  using assms by (auto simp: ready_at_def scan_at_def flush_pending_def calls_ok_snoc Suc_le_eq split: option.splits)

lemma ready_at_call:
  assumes "ready_at k S s" "first_index c = k" "first_index c < end_index c"
  shows "ready_at (end_index c) (S \<union> call_set c) (call_sink c s)"
  using ready_at_flush [OF assms(1)] assms(2,3)
  by (fastforce simp: ready_at_def scan_at_def call_sink_def Let_def calls_ok_snoc)

subsection \<open>The stretches\<close>

lemma four_words_full: "four_words (AND) bits i = - 1 \<Longrightarrow> k < 4 \<Longrightarrow> bits ! (i + k) = - 1"
proof -
  assume a: "four_words (AND) bits i = - 1" "k < 4"
  have "bit (bits ! (i + k)) j" if "j < 64" for j
  proof -
    have "bit (four_words (AND) bits i) j" using a(1) that by (simp add: bit_minus_1_iff)
    moreover have "k = 0 \<or> k = 1 \<or> k = 2 \<or> k = 3" using a(2) by linarith
    ultimately show ?thesis by (auto simp: four_words_def bit_and_iff)
  qed
  then show ?thesis by (simp add: word64_all_ones_iff)
qed

lemma four_words_empty: "four_words (OR) bits i = 0 \<Longrightarrow> k < 4 \<Longrightarrow> bits ! (i + k) = 0"
proof -
  assume a: "four_words (OR) bits i = 0" "k < 4"
  have "\<not> bit (bits ! (i + k)) j" for j
  proof -
    have "\<not> bit (four_words (OR) bits i) j" using a(1) by simp
    moreover have "k = 0 \<or> k = 1 \<or> k = 2 \<or> k = 3" using a(2) by linarith
    ultimately show ?thesis by (auto simp: four_words_def bit_or_iff)
  qed
  then show ?thesis using word64_nonzero_iff by blast
qed

lemma cross_fours_correct:
  "end_i \<le> last_word \<Longrightarrow> cross_fours full bits last_word end_i \<le> last_word \<and>
    (\<forall>k. end_i \<le> k \<longrightarrow> k < cross_fours full bits last_word end_i \<longrightarrow> bits ! k = (if full then - 1 else 0))"
proof (induction full bits last_word end_i rule: cross_fours.induct)
  case (1 full bits last_word end_i)
  show ?case
  proof (cases "end_i + 4 \<le> last_word \<and> (if full then four_words (AND) bits end_i = - 1 else four_words (OR) bits end_i = 0)")
    case True
    have four: "bits ! k = (if full then - 1 else 0)" if "end_i \<le> k" "k < end_i + 4" for k
      using four_words_full [of bits end_i "k - end_i"] four_words_empty [of bits end_i "k - end_i"] True that by (auto split: if_splits)
    note ih = "1.IH" [OF True]
    have "cross_fours full bits last_word end_i = cross_fours full bits last_word (end_i + 4)"
      unfolding cross_fours.simps [of full bits last_word end_i] if_P [OF True] ..
    then show ?thesis using ih True four by (metis not_less)
  next
    case False
    then have "cross_fours full bits last_word end_i = end_i"
      unfolding cross_fours.simps [of full bits last_word end_i] by (rule if_not_P)
    then show ?thesis using "1.prems" by simp
  qed
qed

lemma cross_ones_correct:
  "end_i \<le> last_word \<Longrightarrow> cross_ones c bits last_word end_i \<le> last_word \<and>
    (\<forall>k. end_i \<le> k \<longrightarrow> k < cross_ones c bits last_word end_i \<longrightarrow> bits ! k = c)"
proof (induction c bits last_word end_i rule: cross_ones.induct)
  case (1 c bits last_word end_i)
  show ?case
  proof (cases "end_i < last_word \<and> bits ! end_i = c")
    case True
    have eq: "cross_ones c bits last_word end_i = cross_ones c bits last_word (end_i + 1)"
      unfolding cross_ones.simps [of c bits last_word end_i] if_P [OF True] ..
    have ih: "cross_ones c bits last_word (end_i + 1) \<le> last_word"
      "\<And>k. end_i + 1 \<le> k \<Longrightarrow> k < cross_ones c bits last_word (end_i + 1) \<Longrightarrow> bits ! k = c"
      using "1.IH" [OF True] True by simp_all
    have "bits ! k = c" if "end_i \<le> k" "k < cross_ones c bits last_word (end_i + 1)" for k
      using ih(2) [of k] that True by (cases "k = end_i") simp_all
    then show ?thesis unfolding eq using ih(1) by blast
  next
    case False
    then have "cross_ones c bits last_word end_i = end_i"
      unfolding cross_ones.simps [of c bits last_word end_i] by (rule if_not_P)
    then show ?thesis using "1.prems" by simp
  qed
qed

lemma stretch_end_correct:
  assumes "index < last_word" "bits ! index = (if full then - 1 else 0)"
  shows "stretch_end full bits last_word index \<le> last_word"
    "index \<le> k \<Longrightarrow> k < stretch_end full bits last_word index \<Longrightarrow> bits ! k = (if full then - 1 else 0)"
proof -
  have f: "cross_fours full bits last_word (index + 1) \<le> last_word"
    "\<And>k. index + 1 \<le> k \<Longrightarrow> k < cross_fours full bits last_word (index + 1) \<Longrightarrow> bits ! k = (if full then - 1 else 0)"
    using cross_fours_correct [of "index + 1" last_word full bits] assms(1) by simp_all
  note o = cross_ones_correct [OF f(1), of "if full then - 1 else 0" bits, folded stretch_end_def]
  show "stretch_end full bits last_word index \<le> last_word" using o by blast
  show "bits ! k = (if full then - 1 else 0)" if "index \<le> k" "k < stretch_end full bits last_word index"
  proof (cases "k = index")
    case False
    show ?thesis
    proof (cases "k < cross_fours full bits last_word (index + 1)")
      case True
      then show ?thesis using f(2) [of k] that False by simp
    next
      case False
      then show ?thesis using conjunct2 [OF o] that(2) by (simp add: not_less)
    qed
  qed (use assms(2) in simp)
qed

subsection \<open>The scan reports the survivors\<close>

definition clear_words :: "word64 list \<Rightarrow> nat \<Rightarrow> nat \<Rightarrow> nat set" where
  "clear_words bits i k = {v. i \<le> v div 64 \<and> v div 64 < k \<and> \<not> bit (bits ! (v div 64)) (v mod 64)}"

lemma clear_words_split: "i \<le> m \<Longrightarrow> m \<le> k \<Longrightarrow> clear_words bits i k = clear_words bits i m \<union> clear_words bits m k"
  by (auto simp: clear_words_def)

lemma clear_words_same: "clear_words bits k k = {}"
  by (auto simp: clear_words_def)

lemma scan_middle_correct:
  "index \<le> last_word \<Longrightarrow> ready_at index S s \<Longrightarrow>
    ready_at last_word (S \<union> clear_words bits index last_word) (scan_middle bits last_word index s)"
proof (induction bits last_word index s arbitrary: S rule: scan_middle.induct)
  case (1 bits last_word index s)
  note unf = scan_middle.simps [of bits last_word index s, unfolded Let_def]
  show ?case
  proof (cases "index < last_word")
    case False
    then have "scan_middle bits last_word index s = s" "index = last_word" using "1.prems"(1) unfolding unf by simp_all
    then show ?thesis using "1.prems"(2) by (simp add: clear_words_same)
  next
    case True
    note unf = unf [unfolded if_P [OF True]]
    let ?w = "bits ! index"
    show ?thesis
    proof (cases "?w \<noteq> 0 \<and> ?w \<noteq> - 1")
      case mixed: True
      have "call_set (Word index (NOT ?w)) = clear_words bits index (index + 1)"
        by (auto simp: clear_words_def bit_not_iff less_Suc_eq_le)
      then have "ready_at (index + 1) (S \<union> clear_words bits index (index + 1)) (call_sink (Word index (NOT ?w)) s)"
        using ready_at_call [OF "1.prems"(2), of "Word index (NOT ?w)"] by simp
      from "1.IH"(1) [OF True refl mixed _ this] True
      show ?thesis unfolding unf if_P [OF mixed] by (simp add: clear_words_split [of index "index + 1" last_word] Un_assoc)
    next
      case False
      let ?e = "stretch_end (?w \<noteq> 0) bits last_word index"
      have c: "?w = (if ?w \<noteq> 0 then - 1 else 0)" using False by auto
      note e = stretch_end_correct [OF True c]
      have ie: "index < ?e" by (rule stretch_end_ge)
      have split: "clear_words bits index last_word = clear_words bits index ?e \<union> clear_words bits ?e last_word"
        by (rule clear_words_split) (use ie e(1) in simp_all)
      have ready: "ready_at ?e (S \<union> clear_words bits index ?e) (if ?w = 0 then call_sink (Ones index (?e - index)) s else s)"
      proof (cases "?w = 0")
        case True
        have "clear_words bits index ?e = call_set (Ones index (?e - index))"
          using e(2) True ie by (auto simp: clear_words_def)
        then show ?thesis using ready_at_call [OF "1.prems"(2), of "Ones index (?e - index)"] True ie by simp
      next
        case nz: False
        have "clear_words bits index ?e = {}" using e(2) nz by (auto simp: clear_words_def bit_minus_1_iff)
        then show ?thesis using ready_at_mono [OF "1.prems"(2), of ?e] nz ie by simp
      qed
      show ?thesis unfolding unf if_not_P [OF False] split Un_assoc [symmetric]
        by (rule "1.IH"(2) [OF True refl False refl e(1) ready])
    qed
  qed
qed

lemma digits_le:
  fixes i j v :: nat
  assumes "j < 64"
  shows "64 * i + j \<le> v \<longleftrightarrow> i < v div 64 \<or> i = v div 64 \<and> j \<le> v mod 64"
    "v \<le> 64 * i + j \<longleftrightarrow> v div 64 < i \<or> v div 64 = i \<and> v mod 64 \<le> j"
proof -
  define q where "q = v div 64"
  define m where "m = v mod 64"
  have "v = 64 * q + m" "m < 64" by (simp_all add: q_def m_def)
  then show "64 * i + j \<le> v \<longleftrightarrow> i < v div 64 \<or> i = v div 64 \<and> j \<le> v mod 64"
    "v \<le> 64 * i + j \<longleftrightarrow> v div 64 < i \<or> v div 64 = i \<and> v mod 64 \<le> j"
    using assms unfolding q_def [symmetric] m_def [symmetric] by linarith+
qed

text \<open>The survivors of one run, word by word.\<close>

lemma run_mask_bits:
  "bit (push_bit (bit_index b) (- 1) :: word64) j \<longleftrightarrow> bit_index b \<le> j \<and> j < 64"
  "bit (drop_bit (63 - bit_index e) (- 1) :: word64) j \<longleftrightarrow> j \<le> bit_index e"
  by (rule bit_ones_from, rule bit_ones_upto, simp)

lemma mem_run_survivors:
  assumes "length bits = 1024"
  shows "v \<in> run_set r - bits_set bits \<longleftrightarrow>
    (word_index (rbegin r) < v div 64 \<or> word_index (rbegin r) = v div 64 \<and> bit_index (rbegin r) \<le> v mod 64) \<and>
    (v div 64 < word_index (rend r) \<or> v div 64 = word_index (rend r) \<and> v mod 64 \<le> bit_index (rend r)) \<and>
    \<not> bit (bits ! (v div 64)) (v mod 64)"
proof -
  have "unat (rbegin r) \<le> v \<longleftrightarrow> word_index (rbegin r) < v div 64 \<or> word_index (rbegin r) = v div 64 \<and> bit_index (rbegin r) \<le> v mod 64"
    using digits_le(1) [of "bit_index (rbegin r)" "word_index (rbegin r)" v] by simp
  moreover have "v \<le> unat (rend r) \<longleftrightarrow> v div 64 < word_index (rend r) \<or> v div 64 = word_index (rend r) \<and> v mod 64 \<le> bit_index (rend r)"
    using digits_le(2) [of "bit_index (rend r)" v "word_index (rend r)"] by simp
  moreover have "v div 64 < 1024" if "v div 64 < word_index (rend r) \<or> v div 64 = word_index (rend r) \<and> v mod 64 \<le> bit_index (rend r)"
    using that word_index_less [of "rend r"] by linarith
  ultimately show ?thesis using assms unfolding Diff_iff mem_run_set mem_bits_set by auto
qed

lemma scan_run_correct:
  assumes "scan_at k S s" "k \<le> word_index (rbegin r)" "run_ok r" "length bits = 1024"
  shows "scan_at (word_index (rend r)) (S \<union> (run_set r - bits_set bits)) (scan_run bits r s)"
proof -
  define fw where "fw = word_index (rbegin r)"
  define lw where "lw = word_index (rend r)"
  define fm :: word64 where "fm = push_bit (bit_index (rbegin r)) (- 1)"
  define lm :: word64 where "lm = drop_bit (63 - bit_index (rend r)) (- 1)"
  have le: "unat (rbegin r) \<le> unat (rend r)" using assms(3) by (simp add: run_ok_unat)
  then have fl: "fw \<le> lw" by (simp add: fw_def lw_def word_index_div div_le_mono)
  have lw: "lw < 1024" by (simp add: lw_def)
  have masks: "bit fm j \<longleftrightarrow> bit_index (rbegin r) \<le> j \<and> j < 64" "bit lm j \<longleftrightarrow> j \<le> bit_index (rend r)" for j
    unfolding fm_def lm_def by (rule run_mask_bits)+
  note mem = mem_run_survivors [OF assms(4), of _ r, folded fw_def lw_def]
  note unf = scan_run_def [of bits r s, folded fw_def lw_def, folded fm_def lm_def, unfolded Let_def, folded fw_def lw_def fm_def lm_def]
  show ?thesis
  proof (cases "fw = lw")
    case True
    have "run_set r - bits_set bits = call_set (Word fw (fm AND lm AND NOT (bits ! fw)))"
      unfolding set_eq_iff mem by (auto simp: True bit_and_iff bit_not_iff masks)
    then show ?thesis
      using scan_at_put [OF assms(1,2) [folded fw_def], of "fm AND lm AND NOT (bits ! fw)"] True
      unfolding unf by (simp add: lw_def [symmetric])
  next
    case False
    let ?first = "fm AND NOT (bits ! fw)" and ?last = "lm AND NOT (bits ! lw)"
    have first: "ready_at (fw + 1) (S \<union> call_set (Word fw ?first)) (put_word fw ?first s)"
      by (rule scan_at_ready [OF scan_at_put [OF assms(1,2) [folded fw_def]]]) simp
    have "ready_at lw (S \<union> call_set (Word fw ?first) \<union> clear_words bits (fw + 1) lw) (scan_middle bits lw (fw + 1) (put_word fw ?first s))"
      by (rule scan_middle_correct [OF _ first]) (use fl False in simp)
    then have "scan_at lw (S \<union> call_set (Word fw ?first) \<union> clear_words bits (fw + 1) lw) (scan_middle bits lw (fw + 1) (put_word fw ?first s))"
      by (simp add: ready_at_def)
    from scan_at_put [OF this order_refl, of ?last]
    have "scan_at lw (S \<union> call_set (Word fw ?first) \<union> clear_words bits (fw + 1) lw \<union> call_set (Word lw ?last)) (scan_run bits r s)"
      unfolding unf if_not_P [OF False] .
    moreover have "run_set r - bits_set bits = call_set (Word fw ?first) \<union> clear_words bits (fw + 1) lw \<union> call_set (Word lw ?last)"
      unfolding set_eq_iff mem using fl False
      by (auto simp: clear_words_def bit_and_iff bit_not_iff masks Suc_le_eq)
    ultimately show ?thesis by (simp add: Un_assoc lw_def [symmetric])
  qed
qed

theorem scan_run_bitset_difference_correct:
  assumes "wf_runs rs" "length bits = 1024"
  shows "calls_ok (scan_run_bitset_difference rs bits)" "calls_set (scan_run_bitset_difference rs bits) = runs_set rs - bits_set bits"
    "\<forall>c\<in>set (scan_run_bitset_difference rs bits). end_index c \<le> 1024"
proof -
  have fold: "\<exists>k\<le>1023. scan_at k (S \<union> (runs_set rs - bits_set bits)) (fold (scan_run bits) rs s)"
    if "wf_runs rs" "scan_at k S s" "k \<le> 1023" "rs \<noteq> [] \<Longrightarrow> k \<le> word_index (rbegin (hd rs))" for k S s rs
    using that
  proof (induction rs arbitrary: k S s)
    case (Cons r rs)
    have r: "run_ok r" "wf_runs rs" using Cons.prems(1) by (simp_all add: wf_runs_Cons)
    have at: "k \<le> word_index (rbegin r)" using Cons.prems(4) by simp
    note step = scan_run_correct [OF Cons.prems(2) at r(1) assms(2)]
    have bound: "word_index (rend r) \<le> 1023" using word_index_less [of "rend r"] by linarith
    have "word_index (rend r) \<le> word_index (rbegin (hd rs))" if "rs \<noteq> []"
      using Cons.prems(1) that by (cases rs) (auto simp: wf_runs_Cons run_gap_def word_index_div intro!: div_le_mono)
    from Cons.IH [OF r(2) step bound this] show ?case by (simp add: Un_assoc Un_Diff)
  qed auto
  have start: "scan_at 0 {} (None, [])" by (simp add: scan_at_def calls_ok_def)
  obtain k where k: "k \<le> 1023" "scan_at k (runs_set rs - bits_set bits) (fold (scan_run bits) rs (None, []))"
    using fold [OF assms(1) start] by auto
  have "ready_at 1024 (runs_set rs - bits_set bits) (fold (scan_run bits) rs (None, []))"
    by (rule scan_at_ready [OF k(2)]) (use k(1) in simp)
  from ready_at_flush [OF this] show "calls_ok (scan_run_bitset_difference rs bits)"
    "calls_set (scan_run_bitset_difference rs bits) = runs_set rs - bits_set bits"
    "\<forall>c\<in>set (scan_run_bitset_difference rs bits). end_index c \<le> 1024"
    by (simp_all add: scan_run_bitset_difference_def)
qed

end
