(* ===== verification/Survivor_Sinks.thy ===== *)
theory Survivor_Sinks
  imports Survivor_Scan Container_Optimize
begin

text \<open>
  The consumers of the survivor stream (\<open>run_ops.hpp\<close>): the counter of values and runs, the writers of runs and of
  array values, and the run minus bitset difference that counts first and then writes the smallest form.
\<close>

subsection \<open>The sinks\<close>

text \<open>A sink answers whether the scan goes on.\<close>

fun feed :: "('s \<Rightarrow> sink_call \<Rightarrow> bool \<times> 's) \<Rightarrow> sink_call list \<Rightarrow> 's \<Rightarrow> bool \<times> 's" where
  "feed sink [] s = (True, s)"
| "feed sink (c # cs) s = (case sink s c of (go_on, s) \<Rightarrow> if go_on then feed sink cs s else (False, s))"

text \<open>\<open>last_index\<close> starts at \<open>~0\<close>, whose successor is 0: it is \<open>-1\<close> here.\<close>

record run_survivor_counter =
  run_limit :: nat
  survivors :: nat
  survivor_runs :: nat
  last_index :: int
  last_top :: word64

definition carry_into :: "run_survivor_counter \<Rightarrow> nat \<Rightarrow> word64" where
  "carry_into c index = (if int index = last_index c + 1 then last_top c else 0)"

fun counter_sink :: "run_survivor_counter \<Rightarrow> sink_call \<Rightarrow> bool \<times> run_survivor_counter" where
  "counter_sink c (Word index w) =
    (let starts = w AND NOT (push_bit 1 w OR carry_into c index);
         c = c\<lparr>survivor_runs := survivor_runs c + popcount starts, survivors := survivors c + popcount w,
               last_index := int index, last_top := drop_bit 63 w\<rparr>
     in (survivor_runs c \<le> run_limit c, c))"
| "counter_sink c (Ones index n) =
    (let c = c\<lparr>survivor_runs := survivor_runs c + (if carry_into c index = 0 then 1 else 0),
               survivors := survivors c + n * 64, last_index := int (index + n) - 1, last_top := 1\<rparr>
     in (survivor_runs c \<le> run_limit c, c))"

record run_survivor_writer =
  written :: "run list"
  is_open :: bool
  open_begin :: nat
  writer_last :: int

definition close_at :: "int \<Rightarrow> run_survivor_writer \<Rightarrow> run_survivor_writer" where
  "close_at end_v s = s\<lparr>written := written s @ [mk_run (to_low (open_begin s)) (to_low (nat end_v))], is_open := False\<rparr>"

definition leave_open_run_if_not_adjacent :: "nat \<Rightarrow> run_survivor_writer \<Rightarrow> run_survivor_writer" where
  "leave_open_run_if_not_adjacent index s =
    (if is_open s \<and> int index \<noteq> writer_last s + 1 then close_at (writer_last s * 64 + 63) s else s)"

text \<open>The runs of one word; a run that reaches its top bit stays open.\<close>

lemma countr_one_parts:
  "j < countr_one w \<Longrightarrow> bit w j" "countr_one w < 64 \<Longrightarrow> \<not> bit w (countr_one w)" "countr_one w \<le> 64"
proof -
  let ?t = "takeWhile (bit w) [0..<64]"
  have n: "countr_one w = length ?t" by (simp add: countr_one_def)
  show "countr_one w \<le> 64" using length_takeWhile_le [of "bit w" "[0..<64]"] n by simp
  show "bit w j" if "j < countr_one w"
  proof -
    have "?t ! j = j" using that n length_takeWhile_le [of "bit w" "[0..<64]"] by (simp add: takeWhile_nth)
    moreover have "?t ! j \<in> set ?t" using that n by (intro nth_mem) simp
    ultimately show ?thesis by (auto dest: set_takeWhileD)
  qed
  show "\<not> bit w (countr_one w)" if "countr_one w < 64"
    using nth_length_takeWhile [of "bit w" "[0..<64]"] that unfolding n by simp
qed

lemma leave_lowest_run:
  assumes "w \<noteq> 0"
  defines "s \<equiv> countr_zero w" and "n \<equiv> countr_one (drop_bit (countr_zero w) w)"
  shows "0 < n" "s + n \<le> 64" "\<And>i. s \<le> i \<Longrightarrow> i < s + n \<Longrightarrow> bit w i" "s + n < 64 \<Longrightarrow> \<not> bit w (s + n)"
proof -
  let ?d = "drop_bit s w"
  have d: "bit ?d i \<longleftrightarrow> bit w (s + i)" for i by (simp add: bit_drop_bit_eq)
  have n: "n = countr_one ?d" by (simp add: n_def s_def)
  have b0: "bit w s" unfolding s_def by (rule countr_zero_bit [OF assms(1)])
  have in_run: "bit ?d i" if "i < n" for i using countr_one_parts(1) that unfolding n .
  have stop: "\<not> bit ?d n" if "n < 64" using countr_one_parts(2) that unfolding n .
  show "0 < n" using stop b0 d [of 0] by (cases "n = 0") auto
  then have "bit ?d (n - 1)" by (intro in_run) simp
  then have "s + (n - 1) < 64" unfolding d by (rule bit_less_64)
  with \<open>0 < n\<close> show sn: "s + n \<le> 64" by simp
  show "bit w i" if "s \<le> i" "i < s + n" for i using in_run [of "i - s"] that unfolding d by simp
  show "\<not> bit w (s + n)" if "s + n < 64" using stop that unfolding d by simp
qed

function word_runs_loop :: "nat \<Rightarrow> word64 \<Rightarrow> run_survivor_writer \<Rightarrow> run_survivor_writer" where
  "word_runs_loop base w s =
    (if w \<noteq> 0 then
       (let start = countr_zero w; n = countr_one (drop_bit start w)
        in if start + n = 64 then s\<lparr>is_open := True, open_begin := base + start\<rparr>
           else word_runs_loop base (w AND push_bit (start + n) (- 1))
                  (s\<lparr>written := written s @ [mk_run (to_low (base + start)) (to_low (base + start + n - 1))]\<rparr>))
     else s)"
  by pat_completeness auto
termination
proof (relation "measure (\<lambda>(base, w, s). popcount w)", goal_cases)
  case (2 base w s start n)
  then have nz: "w \<noteq> 0" and sn: "start = countr_zero w" "n = countr_one (drop_bit start w)" by simp_all
  note l = leave_lowest_run [OF nz, folded sn(1), folded sn(2)]
  have "{i. bit (w AND push_bit (start + n) (- 1)) i} \<subseteq> {i. bit w i}" by (auto simp: bit_and_iff)
  moreover have "start \<notin> {i. bit (w AND push_bit (start + n) (- 1)) i}"
    using l(1) unfolding bit_and_iff bit_ones_from by simp
  moreover have "start \<in> {i. bit w i}" using l(1) l(3) [of start] by simp
  ultimately have "{i. bit (w AND push_bit (start + n) (- 1)) i} \<subset> {i. bit w i}" by blast
  then show ?case by (simp add: popcount_card psubset_card_mono)
qed simp

declare word_runs_loop.simps [simp del]

fun writer_sink :: "run_survivor_writer \<Rightarrow> sink_call \<Rightarrow> bool \<times> run_survivor_writer" where
  "writer_sink s (Word index w) =
    (let s = leave_open_run_if_not_adjacent index s; base = index * 64
     in if is_open s then
          (let lead = countr_one w
           in if lead = 64 then (True, s\<lparr>writer_last := int index\<rparr>)
              else (True, (word_runs_loop base (w AND push_bit lead (- 1)) (close_at (int base + int lead - 1) s))
                     \<lparr>writer_last := int index\<rparr>))
        else (True, (word_runs_loop base w s)\<lparr>writer_last := int index\<rparr>))"
| "writer_sink s (Ones index n) =
    (let s = leave_open_run_if_not_adjacent index s;
         s = (if \<not> is_open s then s\<lparr>is_open := True, open_begin := index * 64\<rparr> else s)
     in (True, s\<lparr>writer_last := int (index + n) - 1\<rparr>))"

definition finish_writer :: "run_survivor_writer \<Rightarrow> run_survivor_writer" where
  "finish_writer s = (if is_open s then close_at (writer_last s * 64 + 63) s else s)"

text \<open>The array writer's state is what it has written.\<close>

fun array_sink :: "low list \<Rightarrow> sink_call \<Rightarrow> bool \<times> low list" where
  "array_sink out (Word index w) = (True, out @ word_values (index * 64) w)"
| "array_sink out (Ones index n) = (True, out @ map to_low [index * 64..<(index + n) * 64])"

subsection \<open>The difference\<close>

text \<open>The survivors as words. \<open>out\<close> is what the uninitialized payload holds.\<close>

definition fill_words :: "nat \<Rightarrow> nat \<Rightarrow> word64 list \<Rightarrow> word64 list" where
  "fill_words i k out = fold (\<lambda>index out. out[index := 0]) [i..<k] out"

definition write_run_words :: "word64 list \<Rightarrow> run \<Rightarrow> nat \<times> word64 list \<Rightarrow> nat \<times> word64 list" where
  "write_run_words bits current s =
    (let next_word = fst s; out = snd s;
         first_word = word_index (rbegin current);
         last_word = word_index (rend current);
         first_mask = push_bit (bit_index (rbegin current)) (- 1);
         last_mask = drop_bit (63 - bit_index (rend current)) (- 1);
         first = first_mask AND (if first_word = last_word then last_mask else - 1) AND NOT (bits ! first_word);
         out = (if first_word < next_word then out[first_word := out ! first_word OR first]
                else (fill_words next_word first_word out)[first_word := first]);
         out = (if first_word \<noteq> last_word then
                  (fold (\<lambda>index out. out[index := NOT (bits ! index)]) [first_word + 1..<last_word] out)
                    [last_word := last_mask AND NOT (bits ! last_word)]
                else out)
     in (last_word + 1, out))"

definition survivor_words :: "run list \<Rightarrow> word64 list \<Rightarrow> word64 list \<Rightarrow> word64 list" where
  "survivor_words lhs bits out =
    (case fold (write_run_words bits) lhs (0, out) of (next_word, out) \<Rightarrow> fill_words next_word word_count out)"

definition difference_run_bitset :: "run list \<Rightarrow> word64 list \<Rightarrow> nat \<Rightarrow> word64 list \<Rightarrow> container" where
  "difference_run_bitset lhs bits bitset_threshold uninitialized =
    (let run_limit = bitset_bytes div 4;
         (counted, counter) = feed counter_sink (scan_run_bitset_difference lhs bits)
           \<lparr>run_limit = run_limit, survivors = 0, survivor_runs = 0, last_index = - 1, last_top = 0\<rparr>
     in if counted \<and> survivors counter = 0 then make_array
        else let kind = (if counted then choose_run_container_kind (survivors counter) (survivor_runs counter) bitset_threshold
                         else Bitset_kind)
             in case kind of
                  Array_kind \<Rightarrow>
                    array_sync_header (set_array_values (fill_payload (survivors counter) 0
                      (snd (feed array_sink (scan_run_bitset_difference lhs bits) []))) make_array)
                | Run_kind \<Rightarrow>
                    run_sync_header (set_run_list (fill_payload (survivor_runs counter) (mk_run 0 0)
                      (written (finish_writer (snd (feed writer_sink (scan_run_bitset_difference lhs bits)
                        \<lparr>written = [], is_open = False, open_begin = 0, writer_last = - 1\<rparr>))))) make_run)
                | Bitset_kind \<Rightarrow>
                    (let words = survivor_words lhs bits uninitialized;
                         n = (if counted then survivors counter else popcount_words words)
                     in if n = 0 then make_array
                        else if \<not> is_bitset_cardinality n bitset_threshold then array_from_bitset words n
                        else mark_endpoints_stale (set_cardinality n (make_bitset_uninitialized words))))"

subsection \<open>The counter\<close>

text \<open>The calls up to a word: their values lie below it.\<close>

lemma calls_before:
  assumes "calls_ok (c # cs)"
  shows "calls_ok cs" "\<forall>d\<in>set cs. end_index c \<le> first_index d" "first_index c < end_index c"
  using assms by (auto simp: calls_ok_def)

lemma call_set_finite [simp]: "finite (call_set c)"
proof -
  have "call_set c \<subseteq> {..<64 * end_index c}"
    using call_set_bounds [of _ c] by (auto simp: div_less_iff_less_mult mult.commute)
  then show ?thesis by (rule finite_subset) simp
qed

lemma word_call_image: "call_set (Word i w) = (\<lambda>j. 64 * i + j) ` {j. bit w j}"
proof (intro equalityI subsetI)
  fix v assume "v \<in> call_set (Word i w)"
  then have "v = 64 * i + v mod 64" "bit w (v mod 64)" by auto
  then show "v \<in> (\<lambda>j. 64 * i + j) ` {j. bit w j}" by blast
next
  fix v assume "v \<in> (\<lambda>j. 64 * i + j) ` {j. bit w j}"
  then obtain j where "v = 64 * i + j" "bit w j" by blast
  then show "v \<in> call_set (Word i w)" using bit_less_64 [of w j] by simp
qed

lemma card_word_call: "card (call_set (Word i w)) = popcount w"
  unfolding word_call_image popcount_card by (rule card_image) (simp add: inj_on_def)

lemma ones_call_interval: "call_set (Ones i n) = {64 * i..<64 * (i + n)}"
  by (auto simp: less_eq_div_iff_mult_less_eq div_less_iff_less_mult mult.commute)

text \<open>The state of the counter after the values \<open>S\<close>, all below word \<open>k\<close>.\<close>

definition counted_to :: "nat \<Rightarrow> nat set \<Rightarrow> run_survivor_counter \<Rightarrow> bool" where
  "counted_to k S c \<longleftrightarrow> finite S \<and> (\<forall>v\<in>S. v < 64 * k) \<and> last_index c + 1 \<le> int k \<and> - 1 \<le> last_index c \<and>
    (\<forall>v\<in>S. int (v div 64) \<le> last_index c) \<and>
    survivors c = card S \<and> survivor_runs c = card (run_starts S) \<and>
    last_top c = of_bool (0 \<le> last_index c \<and> nat (64 * last_index c + 63) \<in> S)"

lemma run_starts_before:
  assumes "\<And>v x. v \<in> S \<Longrightarrow> x \<in> T \<Longrightarrow> v < x"
  shows "run_starts (S \<union> T) = run_starts S \<union> {x \<in> run_starts T. x = 0 \<or> x - 1 \<notin> S}"
proof -
  have "x - 1 \<notin> T" if "x \<in> S" "x \<noteq> 0" for x using assms [OF that(1), of "x - 1"] by auto
  moreover have "x \<notin> S" if "x \<in> T" for x using assms [of x x] that by auto
  ultimately show ?thesis by (auto simp: run_starts_def)
qed

lemma counter_carry:
  assumes "counted_to k S c" "k \<le> i"
  shows "carry_into c i = of_bool (0 < i \<and> 64 * i - 1 \<in> S)"
proof (cases "int i = last_index c + 1")
  case True
  then have "nat (64 * last_index c + 63) = 64 * i - 1" "0 \<le> last_index c \<longleftrightarrow> 0 < i" by linarith+
  then show ?thesis using assms True by (simp add: counted_to_def carry_into_def)
next
  case False
  have "64 * i - 1 \<notin> S" if "0 < i"
  proof
    assume "64 * i - 1 \<in> S"
    moreover have "(64 * i - 1) div 64 = i - 1" using that by (intro div_nat_eqI) auto
    ultimately have "int (i - 1) \<le> last_index c" using assms(1) by (auto simp: counted_to_def)
    then show False using False assms that by (auto simp: counted_to_def)
  qed
  then show ?thesis using False by (auto simp: carry_into_def)
qed

lemma word_run_starts:
  fixes w :: word64
  assumes "\<And>v. v \<in> S \<Longrightarrow> v < 64 * i"
  defines "starts \<equiv> w AND NOT (push_bit 1 w OR of_bool (0 < i \<and> 64 * i - 1 \<in> S))"
  shows "{x \<in> run_starts (call_set (Word i w)). x = 0 \<or> x - 1 \<notin> S} = call_set (Word i starts)"
proof (rule set_eqI)
  fix v :: nat
  define j where "j = v mod 64"
  have shift: "bit (push_bit 1 w) j \<longleftrightarrow> 0 < j \<and> bit w (j - 1)"
    unfolding bit_push_bit_iff j_def by auto
  have one: "bit (of_bool b :: word64) j \<longleftrightarrow> b \<and> j = 0" for b by (cases b) (auto simp: bit_1_iff)
  have starts: "bit starts j \<longleftrightarrow> bit w j \<and> \<not> (0 < j \<and> bit w (j - 1)) \<and> \<not> (j = 0 \<and> 0 < i \<and> 64 * i - 1 \<in> S)"
    unfolding starts_def bit_and_iff bit_not_iff bit_or_iff shift one using bit_less_64 [of w j] by auto
  show "v \<in> {x \<in> run_starts (call_set (Word i w)). x = 0 \<or> x - 1 \<notin> S} \<longleftrightarrow> v \<in> call_set (Word i starts)"
  proof (cases "v div 64 = i")
    case False
    then show ?thesis by (auto simp: run_starts_def)
  next
    case True
    then have v: "v = 64 * i + j" by (auto simp: j_def)
    have j: "j < 64" by (simp add: j_def)
    have in_call: "v \<in> call_set (Word i u) \<longleftrightarrow> bit u j" for u using True by (simp add: j_def)
    have lhs: "v \<in> {x \<in> run_starts (call_set (Word i w)). x = 0 \<or> x - 1 \<notin> S} \<longleftrightarrow>
        bit w j \<and> (v = 0 \<or> v - 1 \<notin> call_set (Word i w)) \<and> (v = 0 \<or> v - 1 \<notin> S)"
      unfolding run_starts_def mem_Collect_eq in_call by blast
    have "bit w j \<and> (v = 0 \<or> v - 1 \<notin> call_set (Word i w)) \<and> (v = 0 \<or> v - 1 \<notin> S) \<longleftrightarrow> bit starts j"
    proof (cases "j = 0")
      case zero: True
      have "v - 1 \<notin> call_set (Word i w)" if "0 < i"
      proof -
        have "(64 * i - 1) div 64 = i - 1" using that by (intro div_nat_eqI) auto
        moreover have "i - 1 \<noteq> i" using that by simp
        ultimately show ?thesis using v zero by simp
      qed
      then show ?thesis unfolding starts using v zero by (cases "i = 0") simp_all
    next
      case pos: False
      then have v1: "v - 1 = 64 * i + (j - 1)" using v by simp
      have "v - 1 \<in> call_set (Word i w) \<longleftrightarrow> bit w (j - 1)" unfolding v1 using j by simp
      moreover have "v - 1 \<notin> S" using assms(1) [of "v - 1"] v pos by auto
      ultimately show ?thesis unfolding starts using v pos by simp
    qed
    then show ?thesis unfolding lhs in_call .
  qed
qed

text \<open>A full stretch starts a run unless the word before it ended set.\<close>

lemma ones_run_starts:
  assumes "\<And>v. v \<in> S \<Longrightarrow> v < 64 * i" "0 < n"
  shows "{x \<in> run_starts (call_set (Ones i n)). x = 0 \<or> x - 1 \<notin> S} = (if 0 < i \<and> 64 * i - 1 \<in> S then {} else {64 * i})"
proof -
  have "run_starts {64 * i..<64 * (i + n)} = {64 * i}" using assms(2) by (auto simp: run_starts_def)
  then show ?thesis unfolding ones_call_interval by auto
qed

lemma counter_step:
  assumes "counted_to k S c" "k \<le> first_index a" "first_index a < end_index a"
  shows "counted_to (end_index a) (S \<union> call_set a) (snd (counter_sink c a))"
    "run_limit (snd (counter_sink c a)) = run_limit c"
    "fst (counter_sink c a) \<longleftrightarrow> survivor_runs (snd (counter_sink c a)) \<le> run_limit c"
proof -
  show "run_limit (snd (counter_sink c a)) = run_limit c" "fst (counter_sink c a) \<longleftrightarrow> survivor_runs (snd (counter_sink c a)) \<le> run_limit c"
    by (cases a; simp add: Let_def)+
  define i where "i = first_index a"
  have S: "finite S" "survivors c = card S" "survivor_runs c = card (run_starts S)" using assms(1) by (simp_all add: counted_to_def)
  have below: "v < 64 * i" if "v \<in> S" for v
    using assms(1,2) that by (fastforce simp: counted_to_def i_def)
  have above: "64 * i \<le> x" if "x \<in> call_set a" for x
    using call_set_bounds [OF that] by (simp add: i_def less_eq_div_iff_mult_less_eq mult.commute)
  have below_end: "v div 64 < end_index a" if "v \<in> S \<union> call_set a" for v
  proof (cases "v \<in> S")
    case True
    then have "v div 64 < i" using below [of v] by (simp add: div_less_iff_less_mult mult.commute)
    then show ?thesis using assms(3) by (simp add: i_def)
  qed (use that call_set_bounds in blast)
  have disjoint: "S \<inter> call_set a = {}" using below above by fastforce
  have card: "card (S \<union> call_set a) = survivors c + card (call_set a)" using S disjoint by (simp add: card_Un_disjoint)
  let ?new = "{x \<in> run_starts (call_set a). x = 0 \<or> x - 1 \<notin> S}"
  have starts: "run_starts (S \<union> call_set a) = run_starts S \<union> ?new"
    by (rule run_starts_before) (use below above in fastforce)
  have "run_starts S \<inter> ?new = {}" using disjoint by (auto simp: run_starts_def)
  moreover have "finite ?new" by (rule finite_subset [of _ "call_set a"]) (auto simp: run_starts_def)
  ultimately have run_card: "card (run_starts (S \<union> call_set a)) = survivor_runs c + card ?new"
    unfolding starts using S by (simp add: card_Un_disjoint finite_run_starts)
  have carry: "carry_into c i = of_bool (0 < i \<and> 64 * i - 1 \<in> S)"
    by (rule counter_carry [OF assms(1)]) (use assms(2) in \<open>simp add: i_def\<close>)
  have bound: "v < 64 * end_index a" if "v \<in> S \<union> call_set a" for v
    using below_end [OF that] by (simp add: div_less_iff_less_mult mult.commute)
  show "counted_to (end_index a) (S \<union> call_set a) (snd (counter_sink c a))"
  proof (cases a)
    case (Word j w)
    have [simp]: "j = i" by (simp add: i_def Word)
    let ?starts = "w AND NOT (push_bit 1 w OR carry_into c i)"
    have "?new = call_set (Word i ?starts)"
      unfolding Word carry \<open>j = i\<close> by (rule word_run_starts) (rule below)
    then have "card ?new = popcount ?starts" by (simp only: card_word_call)
    moreover have "drop_bit 63 w = of_bool (64 * i + 63 \<in> S \<union> call_set a)"
    proof -
      have "64 * i + 63 \<notin> S" using below [of "64 * i + 63"] by auto
      moreover have "(drop_bit 63 w :: word64) = of_bool (bit w 63)"
      proof (rule bit_word_eqI)
        fix n
        show "bit (drop_bit 63 w) n \<longleftrightarrow> bit (of_bool (bit w 63) :: word64) n"
          using bit_less_64 [of w "63 + n"] by (cases n) (auto simp: bit_drop_bit_eq bit_1_iff)
      qed
      ultimately show ?thesis by (simp add: Word)
    qed
    moreover have "nat (64 * int i + 63) = 64 * i + 63" by simp
    ultimately show ?thesis
      using S bound below_end run_card card card_word_call [of i w] call_set_finite [of "Word i w"] unfolding counted_to_def
      by (simp add: Word Let_def less_Suc_eq_le)
  next
    case (Ones j n)
    have [simp]: "j = i" by (simp add: i_def Ones)
    have n: "0 < n" using assms(3) by (simp add: Ones)
    have "card ?new = (if carry_into c i = 0 then 1 else 0)"
      using ones_run_starts [OF below n] unfolding Ones carry \<open>j = i\<close> by simp
    moreover have "card (call_set a) = n * 64" unfolding Ones ones_call_interval by (simp add: algebra_simps)
    moreover have "nat (64 * (int (i + n) - 1) + 63) = 64 * (i + n) - 1"
    proof -
      have "64 * (int (i + n) - 1) + 63 = int (64 * (i + n) - 1)" using n by (simp add: of_nat_diff)
      then show ?thesis by (simp only: nat_int)
    qed
    moreover have "64 * (i + n) - 1 \<in> call_set a" unfolding Ones ones_call_interval using n by auto
    ultimately have counts: "survivors c + n * 64 = card (S \<union> call_set a)"
      "survivor_runs c + (if carry_into c i = 0 then 1 else 0) = card (run_starts (S \<union> call_set a))"
      and top: "nat (64 * (int (i + n) - 1) + 63) \<in> S \<union> call_set a"
      using run_card card by simp_all
    have e: "end_index a = i + n" by (simp add: Ones)
    define d where "d = snd (counter_sink c a)"
    have d: "survivors d = survivors c + n * 64" "survivor_runs d = survivor_runs c + (if carry_into c i = 0 then 1 else 0)"
      "last_index d = int (i + n) - 1" "last_top d = 1"
      by (simp_all add: d_def Ones Let_def)
    have fin: "finite (S \<union> call_set a)" using S(1) by simp
    have "int (v div 64) \<le> int (i + n) - 1" if "v \<in> S \<union> call_set a" for v using below_end [OF that] e by linarith
    then have "counted_to (end_index a) (S \<union> call_set a) d"
      unfolding counted_to_def d counts e using fin bound [unfolded e] top n by simp
    then show ?thesis unfolding d_def .
  qed
qed

lemma feed_counter:
  "calls_ok cs \<Longrightarrow> (\<And>a. a \<in> set cs \<Longrightarrow> k \<le> first_index a) \<Longrightarrow> counted_to k S c \<Longrightarrow> survivor_runs c \<le> run_limit c \<Longrightarrow>
    feed counter_sink cs c = (counted, c') \<Longrightarrow>
    (counted \<longleftrightarrow> card (run_starts (S \<union> calls_set cs)) \<le> run_limit c) \<and>
    (counted \<longrightarrow> survivors c' = card (S \<union> calls_set cs) \<and> survivor_runs c' = card (run_starts (S \<union> calls_set cs)))"
proof (induction cs arbitrary: k S c)
  case Nil
  then show ?case by (simp add: counted_to_def)
next
  case (Cons a cs)
  obtain go_on d where d: "counter_sink c a = (go_on, d)" by (rule prod.exhaust)
  note ok = calls_before [OF Cons.prems(1)]
  have k: "k \<le> first_index a" using Cons.prems(2) by simp
  note step = counter_step [OF Cons.prems(3) k ok(3), unfolded d fst_conv snd_conv]
  have above: "end_index a \<le> first_index b" if "b \<in> set cs" for b using ok(2) that by blast
  show ?case
  proof (cases go_on)
    case True
    then have "feed counter_sink cs d = (counted, c')" using Cons.prems(5) d by simp
    from Cons.IH [OF ok(1) above step(1) _ this] True step show ?thesis by (simp add: Un_assoc)
  next
    case False
    then have "\<not> counted" using Cons.prems(5) d by simp
    moreover have "run_limit c < card (run_starts (S \<union> call_set a))"
      using False step(1,3) by (simp add: counted_to_def)
    moreover have "card (run_starts (S \<union> call_set a)) \<le> card (run_starts (S \<union> call_set a \<union> calls_set cs))"
    proof (rule card_mono)
      have "finite (calls_set cs)" by (simp add: calls_set_def)
      then show "finite (run_starts (S \<union> call_set a \<union> calls_set cs))"
        using step(1) by (intro finite_run_starts) (auto simp: counted_to_def)
      have "v < x" if v: "v \<in> S \<union> call_set a" and x: "x \<in> calls_set cs" for v x
      proof -
        obtain b where b: "b \<in> set cs" "x \<in> call_set b" using x by (auto simp: calls_set_def)
        have "v < 64 * end_index a" using step(1) v by (auto simp: counted_to_def)
        moreover have "64 * end_index a \<le> x"
          using call_set_bounds [OF b(2)] above [OF b(1)] by (simp add: less_eq_div_iff_mult_less_eq mult.commute)
        ultimately show ?thesis by simp
      qed
      then show "run_starts (S \<union> call_set a) \<subseteq> run_starts (S \<union> call_set a \<union> calls_set cs)"
        using run_starts_before [of "S \<union> call_set a" "calls_set cs"] by blast
    qed
    ultimately show ?thesis by (simp add: Un_assoc)
  qed
qed

subsection \<open>The run writer\<close>

text \<open>What is written before word \<open>i\<close>; an open run reaches up to it.\<close>

definition prepared :: "nat \<Rightarrow> nat set \<Rightarrow> run_survivor_writer \<Rightarrow> bool" where
  "prepared i S s \<longleftrightarrow> wf_runs (written s) \<and>
    (if is_open s then open_begin s < 64 * i \<and> (\<forall>x\<in>runs_set (written s). x + 1 < open_begin s) \<and>
       runs_set (written s) \<union> {open_begin s..<64 * i} = S
     else (\<forall>x\<in>runs_set (written s). x + 1 < 64 * i) \<and> runs_set (written s) = S)"

lemma wf_snoc_run:
  assumes "wf_runs rs" "b \<le> e" "e < 65536" "\<And>x. x \<in> runs_set rs \<Longrightarrow> x + 1 < b"
  shows "wf_runs (rs @ [mk_run (to_low b) (to_low e)])" "runs_set (rs @ [mk_run (to_low b) (to_low e)]) = runs_set rs \<union> {b..e}"
proof -
  have u: "unat (to_low b) = b" "unat (to_low e) = e" using assms(2,3) by (simp_all add: unat_to_low)
  then show "runs_set (rs @ [mk_run (to_low b) (to_low e)]) = runs_set rs \<union> {b..e}" by (simp add: run_set_def)
  show "wf_runs (rs @ [mk_run (to_low b) (to_low e)])"
  proof (rule wf_runs_append_sets [OF assms(1)])
    show "wf_runs [mk_run (to_low b) (to_low e)]" using assms(2) u by (simp add: wf_runs_Cons run_ok_unat)
    show "x + 1 < y" if "x \<in> runs_set rs" "y \<in> runs_set [mk_run (to_low b) (to_low e)]" for x y
      using assms(4) [OF that(1)] that(2) u by (simp add: run_set_def)
  qed
qed

lemma close_at_correct:
  assumes "prepared i S s" "is_open s" "64 * i \<le> e + 1" "e < 65536"
  shows "wf_runs (written (close_at (int e) s))" "runs_set (written (close_at (int e) s)) = S \<union> {64 * i..e}"
    "\<not> is_open (close_at (int e) s)"
proof -
  have s: "wf_runs (written s)" "open_begin s < 64 * i" "\<And>x. x \<in> runs_set (written s) \<Longrightarrow> x + 1 < open_begin s"
    "runs_set (written s) \<union> {open_begin s..<64 * i} = S"
    using assms(1,2) by (auto simp: prepared_def)
  have le: "open_begin s \<le> e" using s(2) assms(3) by simp
  note w = wf_snoc_run [OF s(1) le assms(4) s(3)]
  show "wf_runs (written (close_at (int e) s))" using w(1) by (simp add: close_at_def)
  have "{open_begin s..e} = {open_begin s..<64 * i} \<union> {64 * i..e}" using s(2) assms(3) by auto
  then show "runs_set (written (close_at (int e) s)) = S \<union> {64 * i..e}"
    using w(2) s(4) by (auto simp: close_at_def)
  show "\<not> is_open (close_at (int e) s)" by (simp add: close_at_def)
qed

lemma leave_open_correct:
  assumes "prepared k S s" "writer_last s = int k - 1" "k \<le> i" "i < 1024"
  shows "prepared i S (leave_open_run_if_not_adjacent i s)"
proof (cases "is_open s \<and> int i \<noteq> writer_last s + 1")
  case True
  then have ki: "k < i" "0 < k" using assms by (auto simp: prepared_def intro: Nat.gr0I)
  then have at: "writer_last s * 64 + 63 = int (64 * k - 1)" using assms(2) by linarith
  have "64 * k \<le> 64 * k - 1 + 1" "64 * k - 1 < 65536" using ki assms(4) by linarith+
  note c = close_at_correct [OF assms(1) conjunct1 [OF True] this]
  have "{64 * k..64 * k - 1} = {}" using ki by auto
  moreover have "x + 1 < 64 * i" if "x \<in> S" for x
    using that assms(1) True ki by (auto simp: prepared_def)
  ultimately show ?thesis using c True by (auto simp: leave_open_run_if_not_adjacent_def at prepared_def)
next
  case False
  then have "\<not> is_open s \<or> i = k" using assms(2) by auto
  moreover have "leave_open_run_if_not_adjacent i s = s" using False by (auto simp: leave_open_run_if_not_adjacent_def)
  ultimately show ?thesis using assms(1,3) by (fastforce simp: prepared_def)
qed

lemma word_runs_loop_correct:
  "i < 1024 \<Longrightarrow> \<not> is_open s \<Longrightarrow> wf_runs (written s) \<Longrightarrow> (\<And>x j. x \<in> runs_set (written s) \<Longrightarrow> bit w j \<Longrightarrow> x + 1 < 64 * i + j) \<Longrightarrow>
    (\<And>x. x \<in> runs_set (written s) \<Longrightarrow> x + 1 < 64 * (i + 1)) \<Longrightarrow>
    prepared (i + 1) (runs_set (written s) \<union> call_set (Word i w)) (word_runs_loop (64 * i) w s) \<and>
    writer_last (word_runs_loop (64 * i) w s) = writer_last s"
proof (induction "popcount w" arbitrary: w s rule: less_induct)
  case less
  note unf = word_runs_loop.simps [of "64 * i" w s, unfolded Let_def]
  show ?case
  proof (cases "w \<noteq> 0")
    case False
    then have none: "call_set (Word i w) = {}" by auto
    show ?thesis using less.prems(2,3,5) unfolding unf if_not_P [OF False] none Un_empty_right
      by (simp add: prepared_def)
  next
    case True
    define a where "a = countr_zero w"
    define n where "n = countr_one (drop_bit a w)"
    note l = leave_lowest_run [OF True, folded a_def, folded n_def]
    note unf = unf [unfolded if_P [OF True], folded a_def, folded n_def]
    have least: "a \<le> j" if "bit w j" for j unfolding a_def by (rule countr_zero_least [OF True that])
    have ba: "bit w a" using l(1) l(3) [of a] by simp
    have a64: "a < 64" by (rule bit_less_64 [OF ba])
    show ?thesis
    proof (cases "a + n = 64")
      case top: True
      have "call_set (Word i w) = {64 * i + a..<64 * (i + 1)}"
      proof (rule set_eqI)
        fix v
        have "v \<in> call_set (Word i w) \<longleftrightarrow> v div 64 = i \<and> a \<le> v mod 64"
          using least l(3) [of "v mod 64"] top by auto
        also have "\<dots> \<longleftrightarrow> v \<in> {64 * i + a..<64 * (i + 1)}"
          using digits_le(1) [OF a64, of i v] div_less_iff_less_mult [of 64 v "i + 1"] by (auto simp: mult.commute)
        finally show "v \<in> call_set (Word i w) \<longleftrightarrow> v \<in> {64 * i + a..<64 * (i + 1)}" .
      qed
      then show ?thesis
        using less.prems(3) less.prems(4) [OF _ ba] a64 unfolding unf if_P [OF top] by (auto simp: prepared_def)
    next
      case False
      have an: "a + n < 64" using False l(2) by simp
      let ?w = "w AND push_bit (a + n) (- 1)"
      let ?s = "s\<lparr>written := written s @ [mk_run (to_low (64 * i + a)) (to_low (64 * i + a + n - 1))]\<rparr>"
      have rest: "bit ?w j \<longleftrightarrow> bit w j \<and> a + n < j" for j
        using l(4) [OF an] bit_less_64 [of w j] unfolding bit_and_iff bit_ones_from by (auto simp: le_less)
      have smaller: "popcount ?w < popcount w"
      proof -
        have "{j. bit ?w j} \<subset> {j. bit w j}" using rest ba by auto
        then show ?thesis by (simp add: popcount_card psubset_card_mono)
      qed
      have le: "64 * i + a \<le> 64 * i + a + n - 1" "64 * i + a + n - 1 < 65536" using l(1) an less.prems(1) by linarith+
      note piece = wf_snoc_run [OF less.prems(3) le less.prems(4) [OF _ ba]]
      have w: "wf_runs (written ?s)" "runs_set (written ?s) = runs_set (written s) \<union> {64 * i + a..64 * i + a + n - 1}"
        using piece by simp_all
      have prem1: "x + 1 < 64 * i + j" if "x \<in> runs_set (written ?s)" "bit ?w j" for x j
      proof -
        have "bit w j" "a + n < j" using that(2) unfolding rest by simp_all
        then show ?thesis using that(1) less.prems(4) [of x j] l(1) unfolding w(2) by auto
      qed
      have prem2: "x + 1 < 64 * (i + 1)" if "x \<in> runs_set (written ?s)" for x
        using that less.prems(5) [of x] an l(1) unfolding w(2) by auto
      have split: "call_set (Word i w) = {64 * i + a..64 * i + a + n - 1} \<union> call_set (Word i ?w)"
      proof (rule set_eqI)
        fix v
        have "v \<in> call_set (Word i w) \<longleftrightarrow> v div 64 = i \<and> (a \<le> v mod 64 \<and> v mod 64 \<le> a + n - 1 \<or> bit ?w (v mod 64))"
        proof -
          have "bit w j \<longleftrightarrow> a \<le> j \<and> j \<le> a + n - 1 \<or> bit w j \<and> a + n < j" for j
          proof (cases "j < a + n")
            case True
            then show ?thesis using least [of j] l(3) [of j] by auto
          next
            case False
            then show ?thesis using l(1) l(4) [OF an] by (cases "j = a + n") auto
          qed
          then show ?thesis unfolding rest by auto
        qed
        moreover have "v \<in> {64 * i + a..64 * i + a + n - 1} \<longleftrightarrow> v div 64 = i \<and> a \<le> v mod 64 \<and> v mod 64 \<le> a + n - 1"
        proof -
          have eq: "64 * i + a + n - 1 = 64 * i + (a + n - 1)" using l(1) by simp
          have "a + n - 1 < 64" using an by simp
          then show ?thesis using digits_le(1) [OF a64, of i v] digits_le(2) [of "a + n - 1" v i] unfolding eq by auto
        qed
        ultimately show "v \<in> call_set (Word i w) \<longleftrightarrow> v \<in> {64 * i + a..64 * i + a + n - 1} \<union> call_set (Word i ?w)" by auto
      qed
      have "prepared (i + 1) (runs_set (written ?s) \<union> call_set (Word i ?w)) (word_runs_loop (64 * i) ?w ?s) \<and>
        writer_last (word_runs_loop (64 * i) ?w ?s) = writer_last ?s"
        by (rule less.hyps [OF smaller less.prems(1) _ w(1) prem1 prem2]) (use less.prems(2) in simp_all)
      then show ?thesis unfolding unf if_not_P [OF False] split w(2) by (simp add: Un_assoc)
    qed
  qed
qed

text \<open>One call: the writer is ready for the word after it.\<close>

lemma prepared_mono: "prepared i S s \<Longrightarrow> \<not> is_open s \<Longrightarrow> i \<le> k \<Longrightarrow> prepared k S s"
  by (fastforce simp: prepared_def)

lemma leading_ones:
  assumes "countr_one w < 64"
  shows "bit (w AND push_bit (countr_one w) (- 1)) j \<longleftrightarrow> bit w j \<and> countr_one w < j"
    "bit w j \<longleftrightarrow> j < countr_one w \<or> bit w j \<and> countr_one w < j"
proof -
  have off: "\<not> bit w (countr_one w)" by (rule countr_one_parts(2) [OF assms])
  then show "bit (w AND push_bit (countr_one w) (- 1)) j \<longleftrightarrow> bit w j \<and> countr_one w < j"
    unfolding bit_and_iff bit_ones_from using bit_less_64 [of w j] by (cases "j = countr_one w") auto
  show "bit w j \<longleftrightarrow> j < countr_one w \<or> bit w j \<and> countr_one w < j"
    using off countr_one_parts(1) [of j w] by (cases j "countr_one w" rule: linorder_cases) simp_all
qed

lemma writer_step:
  assumes "prepared k S s" "writer_last s = int k - 1" "k \<le> first_index a" "first_index a < end_index a" "end_index a \<le> 1024"
  shows "prepared (end_index a) (S \<union> call_set a) (snd (writer_sink s a)) \<and>
    writer_last (snd (writer_sink s a)) = int (end_index a) - 1 \<and> fst (writer_sink s a)"
proof (cases a)
  case (Ones i n)
  have n: "0 < n" "i < 1024" "k \<le> i" using assms(3,4,5) by (simp_all add: Ones)
  let ?s = "leave_open_run_if_not_adjacent i s"
  have p: "prepared i S ?s" by (rule leave_open_correct [OF assms(1,2) n(3,2)])
  show ?thesis
  proof (cases "is_open ?s")
    case True
    have "{open_begin ?s..<64 * (i + n)} = {open_begin ?s..<64 * i} \<union> {64 * i..<64 * (i + n)}"
      using p True by (auto simp: prepared_def)
    then show ?thesis using p True unfolding Ones ones_call_interval by (auto simp: prepared_def Let_def)
  next
    case False
    then show ?thesis using p n unfolding Ones ones_call_interval by (auto simp: prepared_def Let_def mult.commute)
  qed
next
  case (Word i w)
  have n: "i < 1024" "k \<le> i" using assms(3,5) by (simp_all add: Word)
  let ?s = "leave_open_run_if_not_adjacent i s"
  have p: "prepared i S ?s" by (rule leave_open_correct [OF assms(1,2) n(2,1)])
  have last: "prepared j T (t\<lparr>writer_last := l\<rparr>) \<longleftrightarrow> prepared j T t" for j T t l by (simp add: prepared_def)
  show ?thesis
  proof (cases "is_open ?s")
    case False
    have w: "wf_runs (written ?s)" "runs_set (written ?s) = S" "\<And>x. x \<in> runs_set (written ?s) \<Longrightarrow> x + 1 < 64 * i"
      using p False by (auto simp: prepared_def)
    have "x + 1 < 64 * i + j" "x + 1 < 64 * (i + 1)" if "x \<in> runs_set (written ?s)" for x j using w(3) [OF that] by simp_all
    from word_runs_loop_correct [OF n(1) False w(1) this, of w]
    have loop: "prepared (i + 1) (S \<union> call_set (Word i w)) (word_runs_loop (64 * i) w ?s)" unfolding w(2) by blast
    show ?thesis using False loop unfolding Word by (simp add: Let_def last mult.commute del: call_set.simps)
  next
    case opened: True
    show ?thesis
    proof (cases "countr_one w = 64")
      case True
      have "bit w j" if "j < 64" for j using countr_one_parts(1) [of j w] that True by simp
      then have "call_set (Word i w) = call_set (Ones i 1)" by auto
      then have set: "call_set (Word i w) = {64 * i..<64 * (i + 1)}" unfolding ones_call_interval .
      have "{open_begin ?s..<64 * (i + 1)} = {open_begin ?s..<64 * i} \<union> {64 * i..<64 * (i + 1)}"
        using p opened by (auto simp: prepared_def)
      then have "prepared (i + 1) (S \<union> {64 * i..<64 * (i + 1)}) ?s" using p opened by (auto simp: prepared_def)
      then show ?thesis using opened True unfolding Word set by (simp add: Let_def last)
    next
      case False
      define lead where "lead = countr_one w"
      have l: "lead < 64" using False countr_one_parts(3) [of w] by (simp add: lead_def)
      let ?w = "w AND push_bit lead (- 1)"
      have "0 < i" using p opened by (auto simp: prepared_def intro: Nat.gr0I)
      then have e: "int (64 * i) + int lead - 1 = int (64 * i + lead - 1)" "64 * i \<le> 64 * i + lead - 1 + 1" "64 * i + lead - 1 < 65536"
        using n(1) l by linarith+
      let ?c = "close_at (int (64 * i + lead - 1)) ?s"
      note c = close_at_correct [OF p opened e(2,3)]
      have "{64 * i..64 * i + lead - 1} = {64 * i..<64 * i + lead}" using \<open>0 < i\<close> by auto
      note set = c(2) [unfolded this]
      have S: "x < 64 * i" if "x \<in> S" for x using that p opened by (fastforce simp: prepared_def)
      have rest: "bit ?w j \<longleftrightarrow> bit w j \<and> lead < j" for j using l unfolding lead_def by (rule leading_ones(1))
      have bits: "bit w j \<longleftrightarrow> j < lead \<or> bit ?w j" for j
        unfolding rest using l unfolding lead_def by (rule leading_ones(2))
      have above: "lead < j" if "bit ?w j" for j using that unfolding rest by (rule conjunct2)
      have "x + 1 < 64 * i + j" if "x \<in> runs_set (written ?c)" "bit ?w j" for x j
        using that(1) above [OF that(2)] S [of x] unfolding set by auto
      moreover have "x + 1 < 64 * (i + 1)" if "x \<in> runs_set (written ?c)" for x
        using that l S [of x] unfolding set by auto
      ultimately have loop: "prepared (i + 1) (runs_set (written ?c) \<union> call_set (Word i ?w)) (word_runs_loop (64 * i) ?w ?c)"
        using word_runs_loop_correct [OF n(1) c(3) c(1)] by blast
      have "call_set (Word i w) = {64 * i..<64 * i + lead} \<union> call_set (Word i ?w)"
      proof (rule set_eqI)
        fix v
        have "v \<in> {64 * i..<64 * i + lead} \<longleftrightarrow> v div 64 = i \<and> v mod 64 < lead"
        proof (cases "lead = 0")
          case False
          then have "{64 * i..<64 * i + lead} = {64 * i + 0..64 * i + (lead - 1)}" by auto
          then show ?thesis using digits_le(1) [of 0 i v] digits_le(2) [of "lead - 1" v i] l False
            by (auto simp: less_eq_Suc_le [symmetric])
        qed simp
        then show "v \<in> call_set (Word i w) \<longleftrightarrow> v \<in> {64 * i..<64 * i + lead} \<union> call_set (Word i ?w)"
          using bits [of "v mod 64"] by auto
      qed
      then have "prepared (i + 1) (S \<union> call_set (Word i w)) (word_runs_loop (64 * i) ?w ?c)"
        using loop unfolding set by (simp only: Un_assoc)
      moreover have "writer_sink s (Word i w) = (True, (word_runs_loop (64 * i) ?w ?c)\<lparr>writer_last := int i\<rparr>)"
        using opened False unfolding writer_sink.simps Let_def lead_def [symmetric] e(1) [symmetric] mult.commute [of i 64]
        by (simp only: if_True if_False)
      ultimately show ?thesis unfolding Word by (simp add: last del: call_set.simps writer_sink.simps)
    qed
  qed
qed

lemma feed_writer:
  "calls_ok cs \<Longrightarrow> (\<And>a. a \<in> set cs \<Longrightarrow> k \<le> first_index a \<and> end_index a \<le> 1024) \<Longrightarrow> k \<le> 1024 \<Longrightarrow> prepared k S s \<Longrightarrow>
    writer_last s = int k - 1 \<Longrightarrow>
    \<exists>j\<le>1024. prepared j (S \<union> calls_set cs) (snd (feed writer_sink cs s)) \<and> writer_last (snd (feed writer_sink cs s)) = int j - 1"
proof (induction cs arbitrary: k S s)
  case (Cons a cs)
  obtain go_on t where t: "writer_sink s a = (go_on, t)" by (rule prod.exhaust)
  note ok = calls_before [OF Cons.prems(1)]
  have a: "k \<le> first_index a" "end_index a \<le> 1024" using Cons.prems(2) by simp_all
  have t': "prepared (end_index a) (S \<union> call_set a) t" "writer_last t = int (end_index a) - 1" go_on
    using writer_step [OF Cons.prems(4,5) a(1) ok(3) a(2)] by (simp_all add: t)
  have rest: "end_index a \<le> first_index b \<and> end_index b \<le> 1024" if "b \<in> set cs" for b
    using ok(2) Cons.prems(2) that by simp
  have "feed writer_sink (a # cs) s = feed writer_sink cs t" using t t'(3) by simp
  then show ?case using Cons.IH [OF ok(1) rest a(2) t'(1,2)] by (simp add: Un_assoc)
qed auto

lemma finish_writer_correct:
  assumes "prepared i S s" "writer_last s = int i - 1" "i \<le> 1024"
  shows "wf_runs (written (finish_writer s))" "runs_set (written (finish_writer s)) = S"
proof -
  have "wf_runs (written (finish_writer s)) \<and> runs_set (written (finish_writer s)) = S"
  proof (cases "is_open s")
    case True
    then have "0 < i" using assms(1) by (auto simp: prepared_def intro: Nat.gr0I)
    then have e: "writer_last s * 64 + 63 = int (64 * i - 1)" "64 * i \<le> 64 * i - 1 + 1" "64 * i - 1 < 65536"
      using assms(2,3) by linarith+
    have "{64 * i..64 * i - 1} = {}" using \<open>0 < i\<close> by auto
    then show ?thesis using close_at_correct(1,2) [OF assms(1) True e(2,3)] True by (simp add: finish_writer_def e(1))
  qed (use assms(1) in \<open>simp add: finish_writer_def prepared_def\<close>)
  then show "wf_runs (written (finish_writer s))" "runs_set (written (finish_writer s)) = S" by blast+
qed

text \<open>The writer turns the survivors into the runs of their set.\<close>

lemma written_runs_correct:
  assumes "calls_ok cs" "\<forall>c\<in>set cs. end_index c \<le> 1024"
  defines "s \<equiv> snd (feed writer_sink cs \<lparr>written = [], is_open = False, open_begin = 0, writer_last = - 1\<rparr>)"
  shows "wf_runs (written (finish_writer s))" "runs_set (written (finish_writer s)) = calls_set cs"
    "length (written (finish_writer s)) = card (run_starts (calls_set cs))"
proof -
  obtain j where "j \<le> 1024" "prepared j (calls_set cs) s" "writer_last s = int j - 1"
    using feed_writer [OF assms(1), of 0 "{}" "\<lparr>written = [], is_open = False, open_begin = 0, writer_last = - 1\<rparr>"] assms(2)
    unfolding s_def [symmetric] by (auto simp: prepared_def)
  then show w: "wf_runs (written (finish_writer s))" "runs_set (written (finish_writer s)) = calls_set cs"
    using finish_writer_correct by blast+
  show "length (written (finish_writer s)) = card (run_starts (calls_set cs))"
    using card_run_starts_runs_set [OF w(1)] w(2) by simp
qed

subsection \<open>The array writer\<close>

lemma array_step:
  assumes "strict out" "\<And>v. v \<in> array_set out \<Longrightarrow> v < 64 * first_index a" "end_index a \<le> 1024"
  shows "strict (snd (array_sink out a)) \<and> array_set (snd (array_sink out a)) = array_set out \<union> call_set a \<and> fst (array_sink out a)"
proof -
  have append: "strict (out @ map to_low vs) \<and> array_set (out @ map to_low vs) = array_set out \<union> set vs"
    if vs: "strict vs" "\<And>v. v \<in> set vs \<Longrightarrow> 64 * first_index a \<le> v \<and> v < 65536" for vs
  proof -
    have m: "strict (map to_low vs)" "array_set (map to_low vs) = set vs"
      using vs strict_map_of_nat [of vs] array_set_map_of_nat [of vs] by (simp_all add: to_low_def comp_def cong: map_cong)
    have "x < y" if "x \<in> set out" "y \<in> set (map to_low vs)" for x y
    proof -
      have "unat x < 64 * first_index a" using assms(2) [of "unat x"] that(1) by (auto simp: array_set_def)
      moreover have "unat y \<in> set vs" using that(2) m(2) by (auto simp: array_set_def)
      ultimately show ?thesis using vs(2) [of "unat y"] by (simp add: word_less_nat_alt)
    qed
    then show ?thesis using assms(1) m unfolding array_set_def set_append image_Un by (simp add: sorted_wrt_append)
  qed
  show ?thesis
  proof (cases a)
    case (Word i w)
    let ?vs = "map ((+) (64 * i)) (bit_positions w)"
    have "strict ?vs" using strict_bit_positions [of w] by (simp add: sorted_wrt_map)
    moreover have "64 * first_index a \<le> v \<and> v < 65536" if "v \<in> set ?vs" for v
      using that assms(3) bit_less_64 [of w] by (fastforce simp: Word set_bit_positions)
    moreover have "set ?vs = call_set a" unfolding Word word_call_image by (simp add: set_bit_positions)
    moreover have "word_values (i * 64) w = map to_low ?vs" by (simp add: word_values_eq to_low_def mult.commute)
    ultimately show ?thesis using append [of ?vs] by (simp add: Word del: call_set.simps)
  next
    case (Ones i n)
    let ?vs = "[i * 64..<(i + n) * 64]"
    have "set ?vs = call_set a" unfolding Ones ones_call_interval by (auto simp: mult.commute)
    moreover have "64 * first_index a \<le> v \<and> v < 65536" if "v \<in> set ?vs" for v
      using that assms(3) by (simp add: Ones)
    ultimately show ?thesis using append [of ?vs] by (simp add: Ones del: call_set.simps)
  qed
qed

lemma feed_array:
  "calls_ok cs \<Longrightarrow> (\<And>a v. a \<in> set cs \<Longrightarrow> v \<in> array_set out \<Longrightarrow> v < 64 * first_index a) \<Longrightarrow> \<forall>c\<in>set cs. end_index c \<le> 1024 \<Longrightarrow> strict out \<Longrightarrow>
    strict (snd (feed array_sink cs out)) \<and> array_set (snd (feed array_sink cs out)) = array_set out \<union> calls_set cs"
proof (induction cs arbitrary: out)
  case (Cons a cs)
  obtain go_on t where t: "array_sink out a = (go_on, t)" by (rule prod.exhaust)
  note ok = calls_before [OF Cons.prems(1)]
  have "strict t \<and> array_set t = array_set out \<union> call_set a \<and> go_on"
    using array_step [OF Cons.prems(4), of a] Cons.prems(2,3) by (simp add: t)
  then have t': "strict t" "array_set t = array_set out \<union> call_set a" go_on by blast+
  have before: "v < 64 * first_index b" if "b \<in> set cs" "v \<in> array_set t" for b v
  proof (cases "v \<in> array_set out")
    case True
    then show ?thesis using Cons.prems(2) that(1) by simp
  next
    case False
    then have "v div 64 < end_index a" using that(2) t'(2) call_set_bounds by blast
    then have "v div 64 < first_index b" using ok(2) that(1) by (meson less_le_trans)
    then show ?thesis by (simp add: div_less_iff_less_mult mult.commute)
  qed
  have "feed array_sink (a # cs) out = feed array_sink cs t" using t t'(3) by simp
  moreover have "\<forall>c\<in>set cs. end_index c \<le> 1024" using Cons.prems(3) by simp
  ultimately show ?case using Cons.IH [OF ok(1) before _ t'(1)] t'(2) by (simp add: Un_assoc)
qed simp

subsection \<open>The survivors as words\<close>

lemma fold_fill:
  "length (fold (\<lambda>i out. out[i := f i]) [a..<b] out) = length out"
  "j < length out \<Longrightarrow> fold (\<lambda>i out. out[i := f i]) [a..<b] out ! j = (if a \<le> j \<and> j < b then f j else out ! j)"
  by (induction b) (auto simp: nth_list_update less_Suc_eq)

text \<open>The values of the words already settled.\<close>

definition settled_below :: "nat \<Rightarrow> word64 list \<Rightarrow> nat set" where
  "settled_below k out = {v. v div 64 < k \<and> bit (out ! (v div 64)) (v mod 64)}"

lemma write_run_words_correct:
  assumes "length out = 1024" "length bits = 1024" "run_ok r" "k \<le> word_index (rbegin r) + 1"
    "write_run_words bits r (k, out) = (k', out')"
  shows "k' = word_index (rend r) + 1" "length out' = 1024"
    "settled_below k' out' = settled_below k out \<union> (run_set r - bits_set bits)"
proof -
  define fw where "fw = word_index (rbegin r)"
  define lw where "lw = word_index (rend r)"
  define fm :: word64 where "fm = push_bit (bit_index (rbegin r)) (- 1)"
  define lm :: word64 where "lm = drop_bit (63 - bit_index (rend r)) (- 1)"
  have le: "unat (rbegin r) \<le> unat (rend r)" using assms(3) by (simp add: run_ok_unat)
  then have fl: "fw \<le> lw" by (simp add: fw_def lw_def word_index_div div_le_mono)
  have lw: "lw < 1024" by (simp add: lw_def)
  have masks: "bit fm j \<longleftrightarrow> bit_index (rbegin r) \<le> j \<and> j < 64" "bit lm j \<longleftrightarrow> j \<le> bit_index (rend r)" for j
    unfolding fm_def lm_def by (rule run_mask_bits)+
  note mem = mem_run_survivors [OF assms(2), of _ r, folded fw_def lw_def]
  define first where "first = fm AND (if fw = lw then lm else - 1) AND NOT (bits ! fw)"
  define a where "a = (if fw < k then out[fw := out ! fw OR first] else (fill_words k fw out)[fw := first])"
  define b where "b = (if fw \<noteq> lw then (fold (\<lambda>i out. out[i := NOT (bits ! i)]) [fw + 1..<lw] a)[lw := lm AND NOT (bits ! lw)] else a)"
  have "write_run_words bits r (k, out) = (lw + 1, b)"
    unfolding write_run_words_def Let_def fst_conv snd_conv b_def a_def first_def fw_def lw_def fm_def lm_def by (rule refl)
  then have r: "k' = lw + 1" "out' = b" using assms(5) by simp_all
  have a: "length a = 1024" "j < 1024 \<Longrightarrow> a ! j =
      (if j = fw then (if fw < k then out ! fw OR first else first) else if k \<le> j \<and> j < fw then 0 else out ! j)" for j
    using assms(1) fold_fill [where f = "\<lambda>_. 0" and a = k and b = fw and out = out] by (auto simp: a_def fill_words_def nth_list_update)
  have b: "length b = 1024" "j < 1024 \<Longrightarrow> b ! j =
      (if fw \<noteq> lw \<and> j = lw then lm AND NOT (bits ! lw) else if fw < j \<and> j < lw then NOT (bits ! j) else a ! j)" for j
    using a(1) fold_fill [where f = "\<lambda>i. NOT (bits ! i)" and a = "fw + 1" and b = lw and out = a] by (auto simp: b_def nth_list_update)
  show "k' = word_index (rend r) + 1" "length out' = 1024" using r b(1) by (simp_all add: lw_def)
  have kf: "k \<le> fw + 1" using assms(4) by (simp add: fw_def)
  have "v \<in> settled_below (lw + 1) b \<longleftrightarrow> v \<in> settled_below k out \<or> v \<in> run_set r - bits_set bits" for v
  proof (cases "v div 64 < lw + 1")
    case False
    then show ?thesis using kf fl unfolding mem by (auto simp: settled_below_def)
  next
    case True
    have m: "v mod 64 < 64" by simp
    have bv: "v \<in> settled_below (lw + 1) b \<longleftrightarrow> bit (b ! (v div 64)) (v mod 64)" using True by (simp add: settled_below_def)
    consider "v div 64 < fw" | "v div 64 = fw" | "fw < v div 64" "v div 64 < lw" | "fw < v div 64" "v div 64 = lw"
      using True by linarith
    then show ?thesis
    proof cases
      case 1
      then show ?thesis using fl lw kf a(2) [of "v div 64"] b(2) [of "v div 64"] unfolding bv mem by (auto simp: settled_below_def)
    next
      case 2
      then show ?thesis using fl lw kf a(2) [of fw] b(2) [of fw] m unfolding bv mem
        by (auto simp: settled_below_def first_def bit_and_iff bit_or_iff bit_not_iff masks split: if_splits)
    next
      case 3
      then show ?thesis using lw kf b(2) [of "v div 64"] m unfolding bv mem by (auto simp: settled_below_def bit_not_iff)
    next
      case 4
      then show ?thesis using lw kf b(2) [of lw] m unfolding bv mem by (auto simp: settled_below_def bit_and_iff bit_not_iff masks)
    qed
  qed
  then show "settled_below k' out' = settled_below k out \<union> (run_set r - bits_set bits)" unfolding r by blast
qed

lemma survivor_words_correct:
  assumes "wf_runs lhs" "length bits = 1024" "length out = 1024"
  shows "length (survivor_words lhs bits out) = 1024" "bits_set (survivor_words lhs bits out) = runs_set lhs - bits_set bits"
proof -
  have fold: "length out' = 1024 \<and> k' \<le> 1024 \<and> settled_below k' out' = settled_below k out \<union> (runs_set rs - bits_set bits)"
    if "wf_runs rs" "length out = 1024" "k \<le> 1024" "rs \<noteq> [] \<Longrightarrow> k \<le> word_index (rbegin (hd rs)) + 1"
      "fold (write_run_words bits) rs (k, out) = (k', out')" for rs k out k' out'
    using that
  proof (induction rs arbitrary: k out)
    case (Cons r rs)
    obtain j t where t: "write_run_words bits r (k, out) = (j, t)" by (rule prod.exhaust)
    have r: "run_ok r" "wf_runs rs" using Cons.prems(1) by (simp_all add: wf_runs_Cons)
    have at: "k \<le> word_index (rbegin r) + 1" using Cons.prems(4) by simp
    note w = write_run_words_correct [OF Cons.prems(2) assms(2) r(1) at t]
    have j: "j \<le> 1024" using w(1) word_index_less [of "rend r"] by linarith
    have next_run: "j \<le> word_index (rbegin (hd rs)) + 1" if "rs \<noteq> []"
      unfolding w(1) using Cons.prems(1) that
      by (cases rs) (auto simp: wf_runs_Cons run_gap_def word_index_div intro!: div_le_mono)
    have "fold (write_run_words bits) rs (j, t) = (k', out')" using Cons.prems(5) t by simp
    from Cons.IH [OF r(2) w(2) j next_run this] show ?case unfolding w(3) by (simp add: Un_assoc Un_Diff)
  qed auto
  obtain k out' where f: "fold (write_run_words bits) lhs (0, out) = (k, out')" by (rule prod.exhaust)
  have o: "length out' = 1024" "k \<le> 1024" "settled_below k out' = runs_set lhs - bits_set bits"
    using fold [OF assms(1,3) _ _ f] by (simp_all add: settled_below_def)
  have s: "survivor_words lhs bits out = fill_words k 1024 out'" by (simp add: survivor_words_def f word_count_def)
  show "length (survivor_words lhs bits out) = 1024" unfolding s using o(1) by (simp add: fill_words_def fold_fill)
  have "v \<in> bits_set (survivor_words lhs bits out) \<longleftrightarrow> v \<in> settled_below k out'" for v
    using o(1,2) fold_fill [where f = "\<lambda>_. 0" and a = k and b = 1024 and out = out']
    unfolding s mem_bits_set fill_words_def by (auto simp: settled_below_def split: if_splits)
  then show "bits_set (survivor_words lhs bits out) = runs_set lhs - bits_set bits" using o(3) by blast
qed

subsection \<open>Run minus bitset\<close>

theorem run_survivor_count:
  assumes "wf_runs lhs" "length bits = 1024"
    "feed counter_sink (scan_run_bitset_difference lhs bits)
       \<lparr>run_limit = limit, survivors = 0, survivor_runs = 0, last_index = - 1, last_top = 0\<rparr> = (counted, counter)"
  shows "counted \<longleftrightarrow> card (run_starts (runs_set lhs - bits_set bits)) \<le> limit"
    "counted \<Longrightarrow> survivors counter = card (runs_set lhs - bits_set bits)"
    "counted \<Longrightarrow> survivor_runs counter = card (run_starts (runs_set lhs - bits_set bits))"
proof -
  let ?start = "\<lparr>run_limit = limit, survivors = 0, survivor_runs = 0, last_index = - 1, last_top = 0\<rparr>"
  note scan = scan_run_bitset_difference_correct [OF assms(1,2)]
  have "counted_to 0 {} ?start" by (simp add: counted_to_def run_starts_def)
  from feed_counter [OF scan(1) _ this _ assms(3)] show
    "counted \<longleftrightarrow> card (run_starts (runs_set lhs - bits_set bits)) \<le> limit"
    "counted \<Longrightarrow> survivors counter = card (runs_set lhs - bits_set bits)"
    "counted \<Longrightarrow> survivor_runs counter = card (run_starts (runs_set lhs - bits_set bits))"
    using scan(2) by simp_all
qed

theorem difference_run_bitset_correct:
  assumes "wf_runs lhs" "length bits = 1024" "length uninitialized = 1024"
  shows "holds_set (runs_set lhs - bits_set bits) (difference_run_bitset lhs bits threshold uninitialized)"
proof -
  let ?S = "runs_set lhs - bits_set bits"
  let ?cs = "scan_run_bitset_difference lhs bits"
  note scan = scan_run_bitset_difference_correct [OF assms(1,2)]
  define start where "start = \<lparr>run_limit = bitset_bytes div 4, survivors = 0, survivor_runs = 0, last_index = - 1, last_top = 0\<rparr>"
  obtain counted c where c: "feed counter_sink ?cs start = (counted, c)" by (rule prod.exhaust)
  have counts: "survivors c = card ?S" "survivor_runs c = card (run_starts ?S)" if counted
    using run_survivor_count(2,3) [OF assms(1,2) c [unfolded start_def] that] .
  have fin: "finite ?S" by simp
  let ?words = "survivor_words lhs bits uninitialized"
  note words = survivor_words_correct [OF assms]
  let ?runs = "written (finish_writer (snd (feed writer_sink ?cs \<lparr>written = [], is_open = False, open_begin = 0, writer_last = - 1\<rparr>)))"
  note runs = written_runs_correct [OF scan(1,3), unfolded scan(2)]
  let ?vs = "snd (feed array_sink ?cs [])"
  have vals: "strict ?vs" "array_set ?vs = ?S" using feed_array [OF scan(1), of "[]"] scan(2,3) by simp_all
  have n: "(if counted then survivors c else popcount_words ?words) = card ?S" using counts words(2) by (simp add: popcount_words_card)
  have empty: "holds_set ?S make_array" if "card ?S = 0" using that fin by (intro holds_make_array) simp
  define kind where "kind = (if counted then choose_run_container_kind (survivors c) (survivor_runs c) threshold else Bitset_kind)"
  have unf: "difference_run_bitset lhs bits threshold uninitialized =
    (if counted \<and> survivors c = 0 then make_array
     else case kind of
       Array_kind \<Rightarrow> array_sync_header (set_array_values (fill_payload (survivors c) 0 ?vs) make_array)
     | Run_kind \<Rightarrow> run_sync_header (set_run_list (fill_payload (survivor_runs c) (mk_run 0 0) ?runs) make_run)
     | Bitset_kind \<Rightarrow> if card ?S = 0 then make_array
         else if \<not> is_bitset_cardinality (card ?S) threshold then array_from_bitset ?words (card ?S)
         else mark_endpoints_stale (set_cardinality (card ?S) (make_bitset_uninitialized ?words)))"
    unfolding difference_run_bitset_def Let_def start_def [symmetric] c prod.case kind_def n ..
  show ?thesis
  proof (cases "counted \<and> survivors c = 0")
    case True
    then show ?thesis unfolding unf using empty counts by simp
  next
    case False
    note unf = unf [unfolded if_not_P [OF False]]
    show ?thesis
    proof (cases kind)
      case Array_kind
      then have counted by (auto simp: kind_def split: if_splits)
      then have "survivors c = length ?vs" using counts(1) vals card_array_set [OF vals(1)] by simp
      then show ?thesis unfolding unf Array_kind using holds_filled_array(1) [OF vals(1)] vals(2) by simp
    next
      case Run_kind
      then have counted by (auto simp: kind_def split: if_splits)
      then have "survivor_runs c = length ?runs" using counts(2) runs(3) by simp
      then show ?thesis unfolding unf Run_kind using holds_built_runs [OF runs(1)] runs(2) by simp
    next
      case Bitset_kind
      have "payload (make_bitset_uninitialized ?words) = Bitset_payload ?words" by (simp add: make_bitset_uninitialized_def)
      from wf_flipped_bitset [OF this words(1) refl] array_from_bitset_correct(1) [OF words(1) refl] empty
      show ?thesis unfolding unf Bitset_kind words(2) by simp
    qed
  qed
qed

end
