(* ===== verification/Bitset_Ops.thy ===== *)
theory Bitset_Ops
  imports Array_Bitset Container_Ranges
begin

text \<open>
  The kernels on whole bitset payloads (\<open>bitset_ops.hpp\<close>, portable arms): the combination of two blocks into a
  result or in place, the scatter, flip and clearing of an array's values, and the application of a run list's words
  under masks. A kernel either keeps the header's count exact or, when it is lazy, leaves it stale or unknown for
  its caller to repair; all mark the endpoints stale.
\<close>

subsection \<open>The operations\<close>

definition settle_stale_cardinality :: "container \<Rightarrow> container" where
  "settle_stale_cardinality lhs =
    (if cardinality_stale lhs then set_cardinality (popcount_words (bitset_words lhs)) lhs else lhs)"

text \<open>Every word of \<open>out\<close>, a retired payload or an uninitialized one, is written.\<close>

definition combine_bitset_bitset :: "word64 list \<Rightarrow> word64 list \<Rightarrow> set_operation \<Rightarrow> word64 list \<Rightarrow> container" where
  "combine_bitset_bitset a b op out =
    (let result = fold (\<lambda>i (out, n). let r = combine_word op (a ! i) (b ! i) in (out[i := r], n + popcount r))
           [0..<length a] (out, 0)
     in if snd result = 0 then make_array
        else set_cardinality (snd result) (make_bitset_uninitialized (fst result)))"

definition combine_bitset_bitset_inplace :: "container \<Rightarrow> word64 list \<Rightarrow> set_operation \<Rightarrow> container" where
  "combine_bitset_bitset_inplace lhs b op =
    (if op = Bit_or \<and> cardinality lhs = word_count * 64 then lhs
     else let result = fold (\<lambda>i (a, n). let r = combine_word op (a ! i) (b ! i) in (a[i := r], n + popcount r))
                [0..<length (bitset_words lhs)] (bitset_words lhs, 0)
          in mark_endpoints_stale (set_cardinality (snd result) (set_bitset_words (fst result) lhs)))"

definition or_bitset_bitset_inplace_bulk :: "container \<Rightarrow> word64 list \<Rightarrow> container" where
  "or_bitset_bitset_inplace_bulk lhs b = combine_bitset_bitset_inplace lhs b Bit_or"

definition or_bitset_bitset_inplace_lazy :: "container \<Rightarrow> word64 list \<Rightarrow> container" where
  "or_bitset_bitset_inplace_lazy lhs b =
    mark_endpoints_stale (mark_cardinality_stale (set_bitset_words
      (fold (\<lambda>i a. a[i := a ! i OR b ! i]) [0..<word_count] (bitset_words lhs)) lhs))"

definition xor_bitset_bitset_inplace_lazy :: "container \<Rightarrow> word64 list \<Rightarrow> container" where
  "xor_bitset_bitset_inplace_lazy lhs b =
    mark_endpoints_stale (mark_cardinality_unknown (set_bitset_words
      (fold (\<lambda>i a. a[i := a ! i XOR b ! i]) [0..<word_count] (bitset_words lhs)) lhs))"

definition difference_bitset_array_inplace :: "container \<Rightarrow> low list \<Rightarrow> container" where
  "difference_bitset_array_inplace lhs values =
    (let lhs = settle_stale_cardinality lhs
     in case fold (\<lambda>v (removed, words). (removed + of_bool (words_test words v), words_clear v words))
               values (0, bitset_words lhs) of
          (removed, words) \<Rightarrow>
            mark_endpoints_stale (adjust_cardinality (- int removed) (set_bitset_words words lhs)))"

text \<open>The values of one word gathered in a mask, then the word stored once.\<close>

fun scatter_groups :: "low list \<Rightarrow> nat \<times> word64 list \<Rightarrow> nat \<times> word64 list" where
  "scatter_groups [] s = s"
| "scatter_groups (v # vs) s =
    (let i = word_index v;
         group = takeWhile (\<lambda>u. word_index u = i) vs;
         mask = fold (\<lambda>u mask. mask OR value_mask u) (v # group) 0;
         words = snd s
     in scatter_groups (drop (length group) vs)
          (fst s + popcount (mask AND NOT (words ! i)), words[i := words ! i OR mask]))"

definition scatter_grouping_span_ratio :: nat where
  "scatter_grouping_span_ratio = 16"

definition or_array_into_bitset_inplace :: "bool \<Rightarrow> container \<Rightarrow> low list \<Rightarrow> container" where
  "or_array_into_bitset_inplace lazy lhs values =
    (if values = [] then lhs
     else let lhs = (if lazy then lhs else settle_stale_cardinality lhs);
              span = unat (last values) - unat (hd values) + 1;
              (gained, words) =
                (if span \<le> scatter_grouping_span_ratio * length values then scatter_groups values (0, bitset_words lhs)
                 else fold (\<lambda>v (gained, words). (gained + of_bool (\<not> words_test words v), words_set v words))
                        values (0, bitset_words lhs));
              lhs = set_bitset_words words lhs
          in mark_endpoints_stale (if lazy then mark_cardinality_stale lhs else adjust_cardinality (int gained) lhs))"

definition xor_array_into_bitset_inplace :: "bool \<Rightarrow> container \<Rightarrow> low list \<Rightarrow> container" where
  "xor_array_into_bitset_inplace lazy lhs values =
    (let lhs = (if lazy then lhs else settle_stale_cardinality lhs)
     in case fold (\<lambda>v (delta, words). (delta + 1 - 2 * of_bool (words_test words v) :: int, words_flip v words))
               values (0, bitset_words lhs) of
          (delta, words) \<Rightarrow>
            mark_endpoints_stale (if lazy then mark_cardinality_unknown (set_bitset_words words lhs)
              else set_cardinality (nat ((int (cardinality lhs) + delta) mod 2 ^ 32)) (set_bitset_words words lhs)))"

definition run_word_masks :: "run \<Rightarrow> (nat \<times> word64) list" where
  "run_word_masks current =
    range_masks (word_index (rbegin current)) (word_index (rend current))
      (0 - push_bit (bit_index (rbegin current)) 1) (push_bit (bit_index (rend current)) 2 - 1)"

definition for_each_run_word_mask :: "run list \<Rightarrow> (nat \<Rightarrow> word64 \<Rightarrow> 's \<Rightarrow> 's) \<Rightarrow> 's \<Rightarrow> 's" where
  "for_each_run_word_mask rs apply_f s =
    fold (\<lambda>current s. fold (\<lambda>(index, mask) s. apply_f index mask s) (run_word_masks current) s) rs s"

definition xor_runs_into_bitset_inplace :: "bool \<Rightarrow> container \<Rightarrow> run list \<Rightarrow> container" where
  "xor_runs_into_bitset_inplace lazy lhs rs =
    (let words = for_each_run_word_mask rs (\<lambda>index mask words. words[index := words ! index XOR mask]) (bitset_words lhs);
         lhs = set_bitset_words words lhs
     in mark_endpoints_stale (if lazy then mark_cardinality_unknown lhs else set_cardinality (popcount_words words) lhs))"

definition apply_runs_to_bitset_inplace :: "bool \<Rightarrow> container \<Rightarrow> run list \<Rightarrow> container" where
  "apply_runs_to_bitset_inplace set_bits lhs rs =
    (let lhs = settle_stale_cardinality lhs
     in case for_each_run_word_mask rs
               (\<lambda>index mask (changed, words).
                  if set_bits then (changed + popcount (mask AND NOT (words ! index)), words[index := words ! index OR mask])
                  else (changed + popcount (mask AND words ! index), words[index := words ! index AND NOT mask]))
               (0, bitset_words lhs) of
          (changed, words) \<Rightarrow>
            mark_endpoints_stale (adjust_cardinality (if set_bits then int changed else - int changed)
              (set_bitset_words words lhs)))"

text \<open>\<open>source.size()\<close> is the header's count, which the caller has settled.\<close>

definition clone_bitset_words :: "container \<Rightarrow> container" where
  "clone_bitset_words source =
    mark_endpoints_stale (set_cardinality (cardinality source)
      (make_bitset_uninitialized (bitset_words source)))"

subsection \<open>What the loops over words leave\<close>

lemma write_next: "k < length a \<Longrightarrow> length ys = k \<Longrightarrow> (ys @ drop k a)[k := x] = (ys @ [x]) @ drop (Suc k) a"
  by (simp add: list_update_append Cons_nth_drop_Suc [symmetric])

lemma fold_words_of_index:
  assumes "length out = n"
  shows "fold (\<lambda>i (out, c). let r = f i in (out[i := r], c + popcount r)) [0..<n] (out, 0) =
    (map f [0..<n], sum_list (map popcount (map f [0..<n])))"
proof -
  have "fold (\<lambda>i (out, c). let r = f i in (out[i := r], c + popcount r)) [0..<k] (out, 0) =
      (map f [0..<k] @ drop k out, sum_list (map popcount (map f [0..<k])))" if "k \<le> n" for k
    using that by (induction k) (simp_all add: Let_def write_next assms)
  then show ?thesis using assms by simp
qed

lemma nth_rest: "k < length a \<Longrightarrow> length ys = k \<Longrightarrow> (ys @ drop k a) ! k = a ! k"
  by (simp add: nth_append)

lemma fold_words_in_place:
  "fold (\<lambda>i (a, c). let r = f (a ! i) (b ! i) in (a[i := r], c + popcount r)) [0..<length a] (a, 0) =
    (map (\<lambda>i. f (a ! i) (b ! i)) [0..<length a], sum_list (map popcount (map (\<lambda>i. f (a ! i) (b ! i)) [0..<length a])))"
proof -
  have "fold (\<lambda>i (a', c). let r = f (a' ! i) (b ! i) in (a'[i := r], c + popcount r)) [0..<k] (a, 0) =
      (map (\<lambda>i. f (a ! i) (b ! i)) [0..<k] @ drop k a, sum_list (map popcount (map (\<lambda>i. f (a ! i) (b ! i)) [0..<k])))"
    if "k \<le> length a" for k
    using that by (induction k) (simp_all add: Let_def write_next nth_rest)
  then show ?thesis by simp
qed

lemma fold_words_plain:
  "fold (\<lambda>i a. a[i := f (a ! i) (b ! i)]) [0..<length a] a = map (\<lambda>i. f (a ! i) (b ! i)) [0..<length a]"
proof -
  have "fold (\<lambda>i a'. a'[i := f (a' ! i) (b ! i)]) [0..<k] a = map (\<lambda>i. f (a ! i) (b ! i)) [0..<k] @ drop k a"
    if "k \<le> length a" for k
    using that by (induction k) (simp_all add: write_next nth_rest)
  then show ?thesis by simp
qed

lemma combined_count: "sum_list (map popcount (combine_words a b op)) = card (bits_set (combine_words a b op))"
  by (rule card_bits_set [symmetric])

lemma settle_stale_cardinality_eq: "settle_stale_cardinality = settle_cardinality"
  by (simp add: fun_eq_iff settle_stale_cardinality_def settle_cardinality_def)

text \<open>The header after a kernel that counted exactly.\<close>

lemma counted_bitset:
  assumes "payload h = Bitset_payload ws" "length ws = 1024"
  shows "holds_set (bits_set ws) (mark_endpoints_stale (set_cardinality (card (bits_set ws)) h)) \<and>
    payload (mark_endpoints_stale (set_cardinality (card (bits_set ws)) h)) = Bitset_payload ws \<and>
    \<not> cardinality_stale (mark_endpoints_stale (set_cardinality (card (bits_set ws)) h))"
  using wf_flipped_bitset [OF assms refl] assms(1) by (simp add: set_cardinality_def)

lemma adjust_settled:
  assumes "\<not> cardinality_stale h" "int (cardinality h) + d = int n" "n \<le> 65536"
  shows "adjust_cardinality d h = set_cardinality n h"
  using assms by (cases h) (simp add: adjust_cardinality_def set_cardinality_def)

definition leaves_bitset :: "nat set \<Rightarrow> container \<Rightarrow> bool" where
  "leaves_bitset S h \<longleftrightarrow> holds_set S h \<and> holds_bitset h"

lemma leaves_counted:
  assumes "length ws = 1024" "n = card (bits_set ws)" "S = bits_set ws"
  shows "leaves_bitset S (mark_endpoints_stale (set_cardinality n (set_bitset_words ws h)))"
    "\<not> cardinality_stale (mark_endpoints_stale (set_cardinality n (set_bitset_words ws h)))"
  using counted_bitset [of "set_bitset_words ws h" ws] assms by (simp_all add: leaves_bitset_def)

lemma leaves_adjusted:
  assumes "\<not> cardinality_stale h" "length ws = 1024" "int (cardinality h) + d = int (card (bits_set ws))" "S = bits_set ws"
  shows "leaves_bitset S (mark_endpoints_stale (adjust_cardinality d (set_bitset_words ws h)))"
    "\<not> cardinality_stale (mark_endpoints_stale (adjust_cardinality d (set_bitset_words ws h)))"
proof -
  have "adjust_cardinality d (set_bitset_words ws h) = set_cardinality (card (bits_set ws)) (set_bitset_words ws h)"
    by (rule adjust_settled) (use assms card_bits_le [OF assms(2)] in simp_all)
  then show "leaves_bitset S (mark_endpoints_stale (adjust_cardinality d (set_bitset_words ws h)))"
    "\<not> cardinality_stale (mark_endpoints_stale (adjust_cardinality d (set_bitset_words ws h)))"
    using leaves_counted [OF assms(2) refl assms(4)] by simp_all
qed

text \<open>A lazy kernel that only adds keeps its count below the true one; one that may clear makes it zero.\<close>

lemma leaves_lazy:
  assumes "wf_container h" "holds_bitset h" "length ws = 1024" "S = bits_set ws"
  shows "values_of h \<subseteq> S \<Longrightarrow> leaves_bitset S (mark_endpoints_stale (mark_cardinality_stale (set_bitset_words ws h)))"
    "leaves_bitset S (mark_endpoints_stale (mark_cardinality_unknown (set_bitset_words ws h)))"
proof -
  obtain vs where vs: "values_of h = bits_set vs" "cardinality h \<le> card (bits_set vs)"
  proof (rule wf_bitsetE [OF assms(1,2)])
    fix vs
    assume "values_of h = bits_set vs" "cardinality_stale h \<longrightarrow> cardinality h \<le> card (bits_set vs)"
      "\<not> cardinality_stale h \<longrightarrow> cardinality h = card (bits_set vs)"
    then show thesis by (intro that [of vs]) (cases "cardinality_stale h"; simp)+
  qed
  have "cardinality h \<le> card (bits_set ws)" if "values_of h \<subseteq> S"
    using vs that card_mono [of "bits_set ws" "bits_set vs"] assms(4) by simp
  then show "values_of h \<subseteq> S \<Longrightarrow> leaves_bitset S (mark_endpoints_stale (mark_cardinality_stale (set_bitset_words ws h)))"
    using assms(3,4) by (simp add: leaves_bitset_def holds_set_def mark_cardinality_stale_def mark_endpoints_stale_def
        set_bitset_words_def wf_container_bitset [of _ ws] values_of_def holds_bitset_def kind_def)
  show "leaves_bitset S (mark_endpoints_stale (mark_cardinality_unknown (set_bitset_words ws h)))"
    using assms(3,4) by (simp add: leaves_bitset_def holds_set_def mark_cardinality_unknown_def mark_endpoints_stale_def
        set_bitset_words_def wf_container_bitset [of _ ws] values_of_def holds_bitset_def kind_def)
qed

subsection \<open>Two blocks\<close>

theorem combine_bitset_bitset_correct:
  assumes "length a = 1024" "length b = 1024" "length out = 1024"
  shows "holds_set (set_op op (bits_set a) (bits_set b)) (combine_bitset_bitset a b op out)"
    "\<not> cardinality_stale (combine_bitset_bitset a b op out)"
proof -
  let ?w = "combine_words a b op"
  have w: "length ?w = 1024" "bits_set ?w = set_op op (bits_set a) (bits_set b)" using assms by (simp_all add: value_sets)
  have f: "fold (\<lambda>i (out, n). let r = combine_word op (a ! i) (b ! i) in (out[i := r], n + popcount r)) [0..<length a] (out, 0)
      = (?w, card (bits_set ?w))"
    using fold_words_of_index [of out "length a" "\<lambda>i. combine_word op (a ! i) (b ! i)"] assms
    unfolding combine_words_def [of a b op, symmetric] combined_count by simp
  have eq: "combine_bitset_bitset a b op out =
      (if card (bits_set ?w) = 0 then make_array else set_cardinality (card (bits_set ?w)) (make_bitset_uninitialized ?w))"
    unfolding combine_bitset_bitset_def f by (simp add: Let_def)
  show "holds_set (set_op op (bits_set a) (bits_set b)) (combine_bitset_bitset a b op out)"
    using wf_uninitialized_counted(1) [OF w(1)] holds_make_array [of "bits_set ?w"] unfolding eq w(2) [symmetric] by auto
  show "\<not> cardinality_stale (combine_bitset_bitset a b op out)"
    unfolding eq by (simp add: make_array_def set_cardinality_def)
qed

lemma bits_set_full: "length ws = 1024 \<Longrightarrow> 65536 \<le> card (bits_set ws) \<Longrightarrow> bits_set ws = {..<65536}"
  using bits_set_65536 [of ws] by (intro card_seteq) auto

theorem combine_bitset_bitset_inplace_correct:
  assumes "wf_container h" "holds_bitset h" "length b = 1024"
  shows "leaves_bitset (set_op op (values_of h) (bits_set b)) (combine_bitset_bitset_inplace h b op)"
proof -
  obtain ws where ws: "payload h = Bitset_payload ws" "length ws = 1024" "bitset_words h = ws" "values_of h = bits_set ws"
    "cardinality h \<le> card (bits_set ws)"
    using assms(1,2) by (rule wf_bitsetE) auto
  show ?thesis
  proof (cases "op = Bit_or \<and> cardinality h = word_count * 64")
    case True
    then have "bits_set ws = {..<65536}" using ws(2,5) by (intro bits_set_full) simp_all
    moreover have "bits_set b \<subseteq> {..<65536}" using bits_set_65536 [OF assms(3)] by auto
    ultimately have "set_op op (values_of h) (bits_set b) = values_of h" using True ws(4) by (auto simp: set_op_def)
    then show ?thesis using True assms(1,2) by (simp add: combine_bitset_bitset_inplace_def leaves_bitset_def holds_set_def)
  next
    case False
    let ?w = "combine_words ws b op"
    have f: "fold (\<lambda>i (a, n). let r = combine_word op (a ! i) (b ! i) in (a[i := r], n + popcount r)) [0..<length ws] (ws, 0)
        = (?w, card (bits_set ?w))"
      using fold_words_in_place [of "combine_word op" b ws] by (simp add: combine_words_def [symmetric] combined_count)
    have "set_op op (values_of h) (bits_set b) = bits_set ?w" using ws assms(3) by (simp add: value_sets)
    from leaves_counted(1) [OF _ refl this, of h] show ?thesis
      using ws(2,4) unfolding combine_bitset_bitset_inplace_def if_not_P [OF False] ws(3) f by (simp add: Let_def)
  qed
qed

lemma or_bitset_bitset_inplace_bulk_correct:
  "wf_container h \<Longrightarrow> holds_bitset h \<Longrightarrow> length b = 1024 \<Longrightarrow>
    leaves_bitset (values_of h \<union> bits_set b) (or_bitset_bitset_inplace_bulk h b)"
  using combine_bitset_bitset_inplace_correct [of h b Bit_or] by (simp add: or_bitset_bitset_inplace_bulk_def set_op_def)

lemma lazy_combinations_correct:
  assumes "wf_container h" "holds_bitset h" "length b = 1024"
  shows "leaves_bitset (values_of h \<union> bits_set b) (or_bitset_bitset_inplace_lazy h b)"
    "leaves_bitset (sym_diff (values_of h) (bits_set b)) (xor_bitset_bitset_inplace_lazy h b)"
proof -
  obtain ws where ws: "length ws = 1024" "bitset_words h = ws" "values_of h = bits_set ws"
    using assms(1,2) by (rule wf_bitsetE)
  have eq: "fold (\<lambda>i a. a[i := a ! i OR b ! i]) [0..<1024] ws = combine_words ws b Bit_or"
    "fold (\<lambda>i a. a[i := a ! i XOR b ! i]) [0..<1024] ws = combine_words ws b Bit_xor"
    using fold_words_plain [of "(OR)" b ws] fold_words_plain [of "(XOR)" b ws] ws(1)
    by (simp_all add: combine_words_def combine_word_def)
  have "bits_set (combine_words ws b Bit_or) = values_of h \<union> bits_set b"
    "bits_set (combine_words ws b Bit_xor) = sym_diff (values_of h) (bits_set b)"
    using ws assms(3) by (simp_all add: value_sets set_op_def sym_diff_def)
  then show "leaves_bitset (values_of h \<union> bits_set b) (or_bitset_bitset_inplace_lazy h b)"
    "leaves_bitset (sym_diff (values_of h) (bits_set b)) (xor_bitset_bitset_inplace_lazy h b)"
    using leaves_lazy [OF assms(1,2), of "combine_words ws b Bit_or"] leaves_lazy [OF assms(1,2), of "combine_words ws b Bit_xor"] ws
    by (simp_all add: or_bitset_bitset_inplace_lazy_def xor_bitset_bitset_inplace_lazy_def eq)
qed

subsection \<open>An array into a block\<close>

lemma difference_bitset_array_inplace_correct:
  assumes "wf_container h" "holds_bitset h"
  shows "leaves_bitset (values_of h - array_set vs) (difference_bitset_array_inplace h vs)"
proof -
  obtain ws where ws: "payload h = Bitset_payload ws" "length ws = 1024" "bitset_words h = ws" "values_of h = bits_set ws"
    using assms by (rule wf_bitsetE)
  note settled = settle_cardinality_correct [OF assms(1)]
  have words: "bitset_words (settle_cardinality h) = ws" using ws(1) by simp
  have out: "bits_set (fold words_clear vs ws) = bits_set ws - array_set vs" using ws(2) by (simp add: value_sets)
  have "int (card (bits_set ws)) = int (card (bits_set ws \<inter> array_set vs)) + int (card (bits_set ws - array_set vs))"
    using card_Int_Diff [of "bits_set ws" "array_set vs"] by simp
  then have count: "int (cardinality (settle_cardinality h)) + - int (card (bits_set ws \<inter> array_set vs))
      = int (card (bits_set (fold words_clear vs ws)))"
    unfolding settled(3) ws(4) out by simp
  show ?thesis
    using leaves_adjusted(1) [OF settled(2) _ count] ws out
    unfolding difference_bitset_array_inplace_def settle_stale_cardinality_eq Let_def words remove_sorted_bits [OF ws(2)]
    by simp
qed

lemma gather_mask:
  "(\<And>u. u \<in> set us \<Longrightarrow> word_index u = i) \<Longrightarrow> i < length ws \<Longrightarrow>
    fold words_set us (ws[i := ws ! i OR m]) = ws[i := ws ! i OR fold (\<lambda>u mask. mask OR value_mask u) us m]"
proof (induction us arbitrary: m)
  case (Cons u us)
  have "words_set u (ws[i := ws ! i OR m]) = ws[i := ws ! i OR (m OR value_mask u)]"
    using Cons.prems by (simp add: words_set_def or.assoc)
  then show ?case using Cons by simp
qed simp

lemma popcount_or: "popcount (w OR m) = popcount w + popcount (m AND NOT w)" for w m :: word64
proof -
  have "{i. bit (w OR m) i} = {i. bit w i} \<union> {i. bit (m AND NOT w) i}"
    by (auto simp: bit_or_iff bit_and_iff bit_not_iff dest: bit_less_64)
  moreover have "{i. bit w i} \<inter> {i. bit (m AND NOT w) i} = {}" by (auto simp: bit_and_iff bit_not_iff)
  ultimately show ?thesis unfolding popcount_card by (simp add: card_Un_disjoint)
qed

lemma popcount_andnot: "popcount w = popcount (w AND NOT m) + popcount (m AND w)" for w m :: word64
proof -
  have "{i. bit w i} = {i. bit (w AND NOT m) i} \<union> {i. bit (m AND w) i}"
    by (auto simp: bit_and_iff bit_not_iff dest: bit_less_64)
  moreover have "{i. bit (w AND NOT m) i} \<inter> {i. bit (m AND w) i} = {}" by (auto simp: bit_and_iff bit_not_iff)
  ultimately show ?thesis unfolding popcount_card by (simp add: card_Un_disjoint)
qed

lemma card_bits_update:
  assumes "i < length ws"
  shows "card (bits_set (ws[i := x])) + popcount (ws ! i) = card (bits_set ws) + popcount x"
  using assms elem_le_sum_list [of i "map popcount ws"] unfolding card_bits_set
  by (simp add: map_update sum_list_update)

lemma scatter_groups_correct:
  "length (snd s) = 1024 \<Longrightarrow>
    snd (scatter_groups vs s) = fold words_set vs (snd s) \<and>
    fst (scatter_groups vs s) + card (bits_set (snd s)) = fst s + card (bits_set (fold words_set vs (snd s)))"
proof (induction vs s rule: scatter_groups.induct)
  case (2 v vs s)
  define i where "i = word_index v"
  define group where "group = takeWhile (\<lambda>u. word_index u = i) vs"
  define mask where "mask = fold (\<lambda>u mask. mask OR value_mask u) (v # group) 0"
  let ?ws = "snd s" and ?ws' = "(snd s)[i := snd s ! i OR mask]"
  have i: "i < length ?ws" using "2.prems" by (simp add: i_def)
  have rest: "vs = group @ drop (length group) vs"
    unfolding group_def using takeWhile_dropWhile_id [of "\<lambda>u. word_index u = i" vs] by (simp add: dropWhile_eq_drop)
  have same: "word_index u = i" if "u \<in> set (v # group)" for u
    using that by (auto simp: group_def i_def dest: set_takeWhileD)
  have gathered: "fold words_set (v # group) ?ws = ?ws'"
    using gather_mask [where us = "v # group" and i = i and ws = ?ws and m = 0] same i by (simp add: mask_def)
  have all: "fold words_set (v # vs) ?ws = fold words_set (drop (length group) vs) ?ws'"
    using gathered by (subst rest) simp
  have count: "popcount (mask AND NOT (?ws ! i)) + card (bits_set ?ws) = card (bits_set ?ws')"
    using card_bits_update [OF i, of "?ws ! i OR mask"] popcount_or [of "?ws ! i" mask] by simp
  have step: "scatter_groups (v # vs) s =
      scatter_groups (drop (length group) vs) (fst s + popcount (mask AND NOT (?ws ! i)), ?ws')"
    unfolding scatter_groups.simps Let_def i_def [symmetric] group_def [symmetric] mask_def [symmetric] by (rule refl)
  have "snd (scatter_groups (drop (length group) vs) (fst s + popcount (mask AND NOT (?ws ! i)), ?ws')) =
      fold words_set (drop (length group) vs) ?ws' \<and>
    fst (scatter_groups (drop (length group) vs) (fst s + popcount (mask AND NOT (?ws ! i)), ?ws')) + card (bits_set ?ws') =
      fst s + popcount (mask AND NOT (?ws ! i)) + card (bits_set (fold words_set (drop (length group) vs) ?ws'))"
    using "2.IH" [OF i_def group_def mask_def refl] "2.prems" by simp
  then show ?case unfolding step all using count by simp
qed simp

theorem or_array_into_bitset_inplace_correct:
  assumes "wf_container h" "holds_bitset h"
  shows "leaves_bitset (values_of h \<union> array_set vs) (or_array_into_bitset_inplace lazy h vs)"
    "\<not> lazy \<Longrightarrow> vs \<noteq> [] \<Longrightarrow> \<not> cardinality_stale (or_array_into_bitset_inplace lazy h vs)"
proof -
  obtain ws where ws: "payload h = Bitset_payload ws" "length ws = 1024" "bitset_words h = ws" "values_of h = bits_set ws"
    using assms by (rule wf_bitsetE)
  note settled = settle_cardinality_correct [OF assms(1)]
  have words: "bitset_words (settle_cardinality h) = ws" using ws(1) by simp
  let ?w = "fold words_set vs ws"
  have w: "length ?w = 1024" "bits_set ?w = bits_set ws \<union> array_set vs" using ws(2) by (auto simp: value_sets)
  define scattered where "scattered = (if unat (last vs) - unat (hd vs) + 1 \<le> scatter_grouping_span_ratio * length vs
      then scatter_groups vs (0, ws)
      else fold (\<lambda>v (gained, words). (gained + of_bool (\<not> words_test words v), words_set v words)) vs (0, ws))"
  have gained: "snd scattered = ?w" "fst scattered + card (bits_set ws) = card (bits_set ?w)"
  proof -
    have "card (array_set vs - bits_set ws) + card (bits_set ws) = card (bits_set ws \<union> array_set vs)"
      using card_Un_disjoint [of "array_set vs - bits_set ws" "bits_set ws"] by (simp add: Un_commute Diff_disjoint Int_commute)
    then show "snd scattered = ?w" "fst scattered + card (bits_set ws) = card (bits_set ?w)"
      using scatter_groups_correct [of "(0, ws)" vs] ws(2) add_sorted_bits [OF ws(2), of vs 0] w(2)
      by (simp_all add: scattered_def)
  qed
  have unf: "or_array_into_bitset_inplace lazy h vs =
    (if vs = [] then h
     else mark_endpoints_stale (if lazy then mark_cardinality_stale (set_bitset_words ?w h)
       else adjust_cardinality (int (fst scattered)) (set_bitset_words ?w (settle_cardinality h))))"
    using gained(1) words ws(3)
    by (auto simp: or_array_into_bitset_inplace_def settle_stale_cardinality_eq Let_def scattered_def split: prod.splits)
  have count: "int (cardinality (settle_cardinality h)) + int (fst scattered) = int (card (bits_set ?w))"
    unfolding settled(3) ws(4) using gained(2) by simp
  have S: "values_of h \<union> array_set vs = bits_set ?w" using w(2) ws(4) by simp
  note a = leaves_adjusted [OF settled(2) w(1) count S]
  note l = leaves_lazy(1) [OF assms w(1) S]
  show "leaves_bitset (values_of h \<union> array_set vs) (or_array_into_bitset_inplace lazy h vs)"
    using a(1) l assms by (auto simp: unf leaves_bitset_def holds_set_def)
  show "\<not> lazy \<Longrightarrow> vs \<noteq> [] \<Longrightarrow> \<not> cardinality_stale (or_array_into_bitset_inplace lazy h vs)"
    unfolding unf using a(2) by simp
qed

subsection \<open>Flips\<close>

lemma flip_bits:
  "length ws = 1024 \<Longrightarrow> strict vs \<Longrightarrow>
    fold (\<lambda>v (delta, words). (delta + 1 - 2 * of_bool (words_test words v) :: int, words_flip v words)) vs (d, ws) =
      (d + int (card (bits_set (fold words_flip vs ws))) - int (card (bits_set ws)), fold words_flip vs ws) \<and>
    bits_set (fold words_flip vs ws) = sym_diff (bits_set ws) (array_set vs) \<and> length (fold words_flip vs ws) = 1024"
proof (induction vs arbitrary: d ws)
  case (Cons v vs)
  have v: "unat v \<notin> array_set vs" "strict vs" using Cons.prems(2) by (auto simp: array_set_def low_eq_iff [symmetric])
  have flipped: "bits_set (words_flip v ws) = (if unat v \<in> bits_set ws then bits_set ws - {unat v} else insert (unat v) (bits_set ws))"
    "length (words_flip v ws) = 1024"
    using Cons.prems(1) by (simp_all add: bits_set_words_flip)
  have "0 < card (bits_set ws)" if "unat v \<in> bits_set ws" using that by (auto simp: card_gt_0_iff)
  then have count: "int (card (bits_set (words_flip v ws))) = int (card (bits_set ws)) + 1 - 2 * of_bool (unat v \<in> bits_set ws)"
    using flipped(1) by (auto simp: of_nat_diff)
  have "sym_diff (bits_set (words_flip v ws)) (array_set vs) = sym_diff (bits_set ws) (array_set (v # vs))"
    using v(1) unfolding flipped(1) by (auto simp: set_eq_iff)
  then show ?case using Cons.IH [OF flipped(2) v(2)] count Cons.prems(1) by (auto simp: sym_diff_def)
qed (simp add: sym_diff_def array_set_def)

theorem xor_array_into_bitset_inplace_correct:
  assumes "wf_container h" "holds_bitset h" "strict vs"
  shows "leaves_bitset (sym_diff (values_of h) (array_set vs)) (xor_array_into_bitset_inplace lazy h vs)"
    "\<not> lazy \<Longrightarrow> \<not> cardinality_stale (xor_array_into_bitset_inplace lazy h vs)"
proof -
  obtain ws where ws: "payload h = Bitset_payload ws" "length ws = 1024" "bitset_words h = ws" "values_of h = bits_set ws"
    using assms(1,2) by (rule wf_bitsetE)
  note settled = settle_cardinality_correct [OF assms(1)]
  have words: "bitset_words (settle_cardinality h) = ws" using ws(1) by simp
  let ?w = "fold words_flip vs ws"
  note f = flip_bits [OF ws(2) assms(3)]
  have w: "bits_set ?w = sym_diff (bits_set ws) (array_set vs)" "length ?w = 1024" using f by blast+
  have "card (bits_set ?w) \<le> 65536" by (rule card_bits_le [OF w(2)])
  then have n: "nat ((int (cardinality (settle_cardinality h)) + (0 + int (card (bits_set ?w)) - int (card (bits_set ws)))) mod 2 ^ 32)
      = card (bits_set ?w)"
    unfolding settled(3) ws(4) by simp
  have unf: "xor_array_into_bitset_inplace lazy h vs =
    mark_endpoints_stale (if lazy then mark_cardinality_unknown (set_bitset_words ?w h)
      else set_cardinality (card (bits_set ?w)) (set_bitset_words ?w (settle_cardinality h)))"
    using f n words ws(3) by (simp add: xor_array_into_bitset_inplace_def settle_stale_cardinality_eq Let_def)
  have S: "sym_diff (values_of h) (array_set vs) = bits_set ?w" using w(1) ws(4) by simp
  show "leaves_bitset (sym_diff (values_of h) (array_set vs)) (xor_array_into_bitset_inplace lazy h vs)"
    using leaves_counted(1) [OF w(2) refl S] leaves_lazy(2) [OF assms(1,2) w(2) S] by (simp add: unf)
  show "\<not> lazy \<Longrightarrow> \<not> cardinality_stale (xor_array_into_bitset_inplace lazy h vs)"
    unfolding unf using leaves_counted(2) [OF w(2) refl S] by simp
qed

subsection \<open>The words of a run list\<close>

lemma run_word_masks_cover:
  assumes "run_ok r"
  shows "covers_range (unat (rbegin r)) (unat (rend r)) (run_word_masks r)"
  unfolding run_word_masks_def word_index_div
proof (rule covers_range_masks)
  show "unat (rbegin r) \<le> unat (rend r)" using assms by (simp add: run_ok_unat)
  fix j :: nat
  assume "j < 64"
  then show "bit (0 - push_bit (bit_index (rbegin r)) 1 :: word64) j \<longleftrightarrow> unat (rbegin r) mod 64 \<le> j"
    unfolding bit_neg_exp [OF bit_index_less] by (simp add: bit_index_mod)
  show "bit (push_bit (bit_index (rend r)) 2 - 1 :: word64) j \<longleftrightarrow> j \<le> unat (rend r) mod 64"
    unfolding bit_two_exp_minus_1 [OF bit_index_less] by (simp add: bit_index_mod)
qed

lemma run_words_update:
  assumes "run_ok r" "length ws = 1024"
  shows "bits_set (update_words (XOR) (run_word_masks r) ws) = sym_diff (bits_set ws) (run_set r)"
    "bits_set (update_words (OR) (run_word_masks r) ws) = bits_set ws \<union> run_set r"
    "bits_set (update_words (\<lambda>w m. w AND NOT m) (run_word_masks r) ws) = bits_set ws - run_set r"
proof -
  have e: "unat (rend r) < 64 * length ws" using assms(2) unat_low_less [of "rend r"] by simp
  have below: "v div 64 < 1024" if "v \<le> unat (rend r)" for v using that unat_low_less [of "rend r"] by linarith
  note u = bits_set_update_words [OF run_word_masks_cover [OF assms(1)] e]
  have "v \<in> bits_set (update_words (XOR) (run_word_masks r) ws) \<longleftrightarrow>
      v div 64 < length ws \<and> (v \<in> bits_set ws) \<noteq> (unat (rbegin r) \<le> v \<and> v \<le> unat (rend r))" for v
    by (rule u [where F = "\<lambda>x y. x \<noteq> y"]) (simp_all add: bit_xor_iff)
  then show "bits_set (update_words (XOR) (run_word_masks r) ws) = sym_diff (bits_set ws) (run_set r)"
    using below assms(2) by (auto simp: set_eq_iff run_set_def mem_bits_set)
  have "v \<in> bits_set (update_words (OR) (run_word_masks r) ws) \<longleftrightarrow>
      v div 64 < length ws \<and> ((v \<in> bits_set ws) \<or> (unat (rbegin r) \<le> v \<and> v \<le> unat (rend r)))" for v
    by (rule u [where F = "\<lambda>x y. x \<or> y"]) (simp_all add: bit_or_iff)
  then show "bits_set (update_words (OR) (run_word_masks r) ws) = bits_set ws \<union> run_set r"
    using below assms(2) by (auto simp: set_eq_iff run_set_def mem_bits_set)
  have "v \<in> bits_set (update_words (\<lambda>w m. w AND NOT m) (run_word_masks r) ws) \<longleftrightarrow>
      v div 64 < length ws \<and> ((v \<in> bits_set ws) \<and> \<not> (unat (rbegin r) \<le> v \<and> v \<le> unat (rend r)))" for v
    by (rule u [where F = "\<lambda>x y. x \<and> \<not> y"]) (auto simp: bit_and_iff bit_not_iff dest: bit_less_64)
  then show "bits_set (update_words (\<lambda>w m. w AND NOT m) (run_word_masks r) ws) = bits_set ws - run_set r"
    by (auto simp: set_eq_iff run_set_def mem_bits_set)
qed

lemma update_words_eta: "update_words f ms = fold (\<lambda>(i, m) ws. ws[i := f (ws ! i) m]) ms"
  by (simp add: fun_eq_iff update_words_def)

lemma run_words_loop:
  assumes "wf_runs rs" "length ws = 1024"
  shows "length (fold (\<lambda>r. update_words f (run_word_masks r)) rs ws) = 1024"
    "bits_set (fold (\<lambda>r. update_words (XOR) (run_word_masks r)) rs ws) = sym_diff (bits_set ws) (runs_set rs)"
    "bits_set (fold (\<lambda>r. update_words (OR) (run_word_masks r)) rs ws) = bits_set ws \<union> runs_set rs"
    "bits_set (fold (\<lambda>r. update_words (\<lambda>w m. w AND NOT m) (run_word_masks r)) rs ws) = bits_set ws - runs_set rs"
proof -
  show "length (fold (\<lambda>r. update_words f (run_word_masks r)) rs ws) = 1024"
    using assms(2) by (induction rs arbitrary: ws) simp_all
  show "bits_set (fold (\<lambda>r. update_words (OR) (run_word_masks r)) rs ws) = bits_set ws \<union> runs_set rs"
    using assms by (induction rs arbitrary: ws) (auto simp: wf_runs_Cons run_words_update(2))
  show "bits_set (fold (\<lambda>r. update_words (\<lambda>w m. w AND NOT m) (run_word_masks r)) rs ws) = bits_set ws - runs_set rs"
    using assms by (induction rs arbitrary: ws) (auto simp: wf_runs_Cons run_words_update(3))
  show "bits_set (fold (\<lambda>r. update_words (XOR) (run_word_masks r)) rs ws) = sym_diff (bits_set ws) (runs_set rs)"
    using assms
  proof (induction rs arbitrary: ws)
    case (Cons r rs)
    have "run_set r \<inter> runs_set rs = {}" using runs_set_Cons_gap [OF Cons.prems(1)] by (fastforce simp: run_set_def)
    then show ?case using Cons by (auto simp: wf_runs_Cons run_words_update(1))
  qed (simp add: sym_diff_def)
qed

theorem xor_runs_into_bitset_inplace_correct:
  assumes "wf_container h" "holds_bitset h" "wf_runs rs"
  shows "leaves_bitset (sym_diff (values_of h) (runs_set rs)) (xor_runs_into_bitset_inplace lazy h rs)"
    "\<not> lazy \<Longrightarrow> \<not> cardinality_stale (xor_runs_into_bitset_inplace lazy h rs)"
proof -
  obtain ws where ws: "length ws = 1024" "bitset_words h = ws" "values_of h = bits_set ws"
    using assms(1,2) by (rule wf_bitsetE)
  let ?w = "fold (\<lambda>r. update_words (XOR) (run_word_masks r)) rs ws"
  note w = run_words_loop(1) [OF assms(3) ws(1), of "(XOR)"] run_words_loop(2) [OF assms(3) ws(1)]
  have unf: "xor_runs_into_bitset_inplace lazy h rs =
    mark_endpoints_stale (if lazy then mark_cardinality_unknown (set_bitset_words ?w h)
      else set_cardinality (card (bits_set ?w)) (set_bitset_words ?w h))"
    by (simp add: xor_runs_into_bitset_inplace_def for_each_run_word_mask_def update_words_eta Let_def ws(2)
        popcount_words_card)
  have S: "sym_diff (values_of h) (runs_set rs) = bits_set ?w" using w(2) ws(3) by simp
  show "leaves_bitset (sym_diff (values_of h) (runs_set rs)) (xor_runs_into_bitset_inplace lazy h rs)"
    using leaves_counted(1) [OF w(1) refl S] leaves_lazy(2) [OF assms(1,2) w(1) S] by (simp add: unf)
  show "\<not> lazy \<Longrightarrow> \<not> cardinality_stale (xor_runs_into_bitset_inplace lazy h rs)"
    unfolding unf using leaves_counted(2) [OF w(1) refl S] by simp
qed

text \<open>A kernel that counts what it changes knows the new count.\<close>

lemma counted_words:
  fixes f :: "word64 \<Rightarrow> word64 \<Rightarrow> word64" and g :: "word64 \<Rightarrow> word64 \<Rightarrow> nat"
  assumes "\<And>w m. int (popcount (f w m)) = int (popcount w) + d * int (g w m)"
  shows "\<forall>i\<in>fst ` set ms. i < length ws \<Longrightarrow>
    fold (\<lambda>(i, m) (c, ws). (c + g (ws ! i) m, ws[i := f (ws ! i) m])) ms (c, ws) = (c', ws') \<Longrightarrow>
    ws' = update_words f ms ws \<and> int (card (bits_set ws')) = int (card (bits_set ws)) + d * (int c' - int c)"
proof (induction ms arbitrary: c ws)
  case (Cons p ms)
  obtain i m where p: "p = (i, m)" by fastforce
  have i: "i < length ws" using Cons.prems(1) by (simp add: p)
  have "card (bits_set (ws[i := f (ws ! i) m])) + popcount (ws ! i) = card (bits_set ws) + popcount (f (ws ! i) m)"
    by (rule card_bits_update [OF i])
  then have step: "int (card (bits_set (ws[i := f (ws ! i) m]))) = int (card (bits_set ws)) + d * int (g (ws ! i) m)"
    using assms [of "ws ! i" m] by linarith
  have below: "\<forall>j\<in>fst ` set ms. j < length (ws[i := f (ws ! i) m])" using Cons.prems(1) by simp
  have rest: "fold (\<lambda>(i, m) (c, ws). (c + g (ws ! i) m, ws[i := f (ws ! i) m])) ms (c + g (ws ! i) m, ws[i := f (ws ! i) m]) = (c', ws')"
    using Cons.prems(2) by (simp add: p)
  note ih = Cons.IH [OF below rest]
  then have "ws' = update_words f (p # ms) ws" by (simp add: p update_words_Cons)
  moreover have "int (card (bits_set ws')) = int (card (bits_set ws)) + d * (int c' - int c)"
    using conjunct2 [OF ih] step by (simp add: algebra_simps)
  ultimately show ?case by blast
qed (simp add: update_words_def)

lemma counted_run_words:
  fixes f :: "word64 \<Rightarrow> word64 \<Rightarrow> word64" and g :: "word64 \<Rightarrow> word64 \<Rightarrow> nat"
  assumes "\<And>w m. int (popcount (f w m)) = int (popcount w) + d * int (g w m)"
  shows "wf_runs rs \<Longrightarrow> length ws = 1024 \<Longrightarrow>
    for_each_run_word_mask rs (\<lambda>i m (c, ws). (c + g (ws ! i) m, ws[i := f (ws ! i) m])) (c, ws) = (c', ws') \<Longrightarrow>
    ws' = fold (\<lambda>r. update_words f (run_word_masks r)) rs ws \<and>
    int (card (bits_set ws')) = int (card (bits_set ws)) + d * (int c' - int c)"
proof (induction rs arbitrary: c ws)
  case (Cons r rs)
  let ?step = "\<lambda>(i, m) (c, ws). (c + g (ws ! i) m, ws[i := f (ws ! i) m])"
  have r: "run_ok r" "wf_runs rs" using Cons.prems(1) by (simp_all add: wf_runs_Cons)
  have "fst ` set (run_word_masks r) = {word_index (rbegin r)..word_index (rend r)}"
    using run_word_masks_cover [OF r(1)] by (simp add: covers_range_def word_index_div)
  then have below: "\<forall>i\<in>fst ` set (run_word_masks r). i < length ws"
    using Cons.prems(2) word_index_less [of "rend r"] by (auto intro: le_less_trans)
  obtain b vs where b: "fold ?step (run_word_masks r) (c, ws) = (b, vs)" by (rule prod.exhaust)
  note one = counted_words [OF assms below b]
  have "for_each_run_word_mask rs (\<lambda>i m (c, ws). (c + g (ws ! i) m, ws[i := f (ws ! i) m])) (b, vs) = (c', ws')"
    using Cons.prems(3) b by (simp add: for_each_run_word_mask_def)
  moreover have "length vs = 1024" using one Cons.prems(2) by simp
  ultimately have ih: "ws' = fold (\<lambda>r. update_words f (run_word_masks r)) rs vs"
      "int (card (bits_set ws')) = int (card (bits_set vs)) + d * (int c' - int b)"
    using Cons.IH [OF r(2)] by blast+
  have "int (card (bits_set ws')) = int (card (bits_set ws)) + d * (int c' - int c)"
    using ih(2) conjunct2 [OF one] by (simp add: algebra_simps)
  then show ?case using ih(1) conjunct1 [OF one] by simp
qed (simp add: for_each_run_word_mask_def)

theorem apply_runs_to_bitset_inplace_correct:
  assumes "wf_container h" "holds_bitset h" "wf_runs rs"
  shows "leaves_bitset (if set_bits then values_of h \<union> runs_set rs else values_of h - runs_set rs)
      (apply_runs_to_bitset_inplace set_bits h rs)"
    "\<not> cardinality_stale (apply_runs_to_bitset_inplace set_bits h rs)"
proof -
  obtain ws where ws: "payload h = Bitset_payload ws" "length ws = 1024" "values_of h = bits_set ws"
    using assms(1,2) by (rule wf_bitsetE)
  note settled = settle_cardinality_correct [OF assms(1)]
  have words: "bitset_words (settle_cardinality h) = ws" using ws(1) by simp
  define step where "step = (\<lambda>index mask (changed, words).
      if set_bits then (changed + popcount (mask AND NOT (words ! index)), words[index := words ! index OR mask])
      else (changed + popcount (mask AND words ! index), words[index := words ! index AND NOT mask]))"
  obtain c w where cw: "for_each_run_word_mask rs step (0, ws) = (c, w)" by (rule prod.exhaust)
  let ?d = "if set_bits then 1 else - 1 :: int" and ?S = "if set_bits then values_of h \<union> runs_set rs else values_of h - runs_set rs"
  have w: "length w = 1024 \<and> bits_set w = ?S \<and> int (card (bits_set w)) = int (card (bits_set ws)) + ?d * int c"
  proof (cases set_bits)
    case True
    have s: "step = (\<lambda>i m (c, ws). (c + popcount (m AND NOT (ws ! i)), ws[i := ws ! i OR m]))"
      using True by (auto simp: step_def fun_eq_iff)
    have "int (popcount (u OR m)) = int (popcount u) + 1 * int (popcount (m AND NOT u))" for u m :: word64
      by (simp add: popcount_or)
    note c = counted_run_words [where f = "(OR)" and g = "\<lambda>u m. popcount (m AND NOT u)", OF this assms(3) ws(2) cw [unfolded s]]
    then have "bits_set w = bits_set ws \<union> runs_set rs" "length w = 1024"
      using run_words_loop(1) [OF assms(3) ws(2), of "(OR)"] run_words_loop(3) [OF assms(3) ws(2)] by simp_all
    then show ?thesis using conjunct2 [OF c] True ws(3) by simp
  next
    case False
    have s: "step = (\<lambda>i m (c, ws). (c + popcount (m AND ws ! i), ws[i := ws ! i AND NOT m]))"
      using False by (auto simp: step_def fun_eq_iff)
    have "int (popcount (u AND NOT m)) = int (popcount u) + - 1 * int (popcount (m AND u))" for u m :: word64
      using popcount_andnot [of u m] by simp
    note c = counted_run_words [where f = "\<lambda>u m. u AND NOT m" and g = "\<lambda>u m. popcount (m AND u)", OF this assms(3) ws(2) cw [unfolded s]]
    then have "bits_set w = bits_set ws - runs_set rs" "length w = 1024"
      using run_words_loop(1) [OF assms(3) ws(2), of "\<lambda>u m. u AND NOT m"] run_words_loop(4) [OF assms(3) ws(2)] by simp_all
    then show ?thesis using conjunct2 [OF c] False ws(3) by simp
  qed
  have unf: "apply_runs_to_bitset_inplace set_bits h rs =
    mark_endpoints_stale (adjust_cardinality (?d * int c) (set_bitset_words w (settle_cardinality h)))"
    using cw unfolding apply_runs_to_bitset_inplace_def settle_stale_cardinality_eq Let_def words step_def [symmetric] by simp
  have count: "int (cardinality (settle_cardinality h)) + ?d * int c = int (card (bits_set w))"
    unfolding settled(3) ws(3) conjunct2 [OF conjunct2 [OF w]] by (rule refl)
  have len: "length w = 1024" and S: "?S = bits_set w" using w by simp_all
  show "leaves_bitset ?S (apply_runs_to_bitset_inplace set_bits h rs)"
    "\<not> cardinality_stale (apply_runs_to_bitset_inplace set_bits h rs)"
    unfolding unf by (rule leaves_adjusted [OF settled(2) len count S])+
qed

lemma clone_bitset_words_correct:
  assumes "wf_container h" "holds_bitset h" "\<not> cardinality_stale h"
  shows "leaves_bitset (values_of h) (clone_bitset_words h)" "\<not> cardinality_stale (clone_bitset_words h)"
proof -
  obtain ws where ws: "length ws = 1024" "bitset_words h = ws" "values_of h = bits_set ws"
    "\<not> cardinality_stale h \<longrightarrow> cardinality h = card (bits_set ws)"
    using assms(1,2) by (rule wf_bitsetE)
  have p: "payload (make_bitset_uninitialized ws) = Bitset_payload ws" by (simp add: make_bitset_uninitialized_def)
  show "leaves_bitset (values_of h) (clone_bitset_words h)" "\<not> cardinality_stale (clone_bitset_words h)"
    using counted_bitset [OF p ws(1)] ws(2,3,4) assms(3) by (simp_all add: clone_bitset_words_def leaves_bitset_def)
qed

end
