(* ===== verification/Exact_Counts.thy ===== *)
theory Exact_Counts
  imports Bitset_Ops Survivor_Sinks
begin

text \<open>
  The containers a factory returns carry an exact count: no factory leaves \<open>cardinality_stale\<close> set, so the header's
  count of a result is the size of its set of values (\<open>containers.hpp\<close>, \<open>run_ops.hpp\<close>, \<open>bitset_ops.hpp\<close>).
\<close>

definition exact :: "nat set \<Rightarrow> container \<Rightarrow> bool" where
  "exact S h \<longleftrightarrow> holds_set S h \<and> \<not> cardinality_stale h"

lemma exactI: "holds_set S h \<Longrightarrow> \<not> cardinality_stale h \<Longrightarrow> exact S h"
  by (simp add: exact_def)

lemma exact_wf: "exact S h \<Longrightarrow> wf_container h" "exact S h \<Longrightarrow> values_of h = S" "exact S h \<Longrightarrow> \<not> cardinality_stale h"
  by (simp_all add: exact_def holds_set_def)

lemma exact_count: "exact S h \<Longrightarrow> cardinality h = card S"
  using settle_cardinality_correct(3) [of h] by (simp add: exact_def holds_set_def settle_cardinality_def)

lemma exact_size: "exact S h \<Longrightarrow> container_size h = card S"
  by (simp add: container_size_def exact_count)

subsection \<open>No factory leaves a stale count\<close>

named_theorems counted \<open>the results whose count is not stale\<close>

lemma counted_headers [counted]:
  "\<not> cardinality_stale (set_cardinality n h)" "\<not> cardinality_stale make_array" "\<not> cardinality_stale make_run"
  "\<not> cardinality_stale make_bitset_zeroed" "\<not> cardinality_stale (make_bitset_uninitialized ws)"
  "cardinality_stale (set_endpoints b e h) = cardinality_stale h"
  "cardinality_stale (mark_endpoints_stale h) = cardinality_stale h"
  "cardinality_stale (set_bitset_words ws h) = cardinality_stale h"
  by (simp_all add: set_cardinality_def make_array_def make_run_def make_bitset_zeroed_def make_bitset_uninitialized_def
      set_endpoints_def mark_endpoints_stale_def set_bitset_words_def)

lemma counted_factories [counted]:
  "\<not> cardinality_stale (array_sync_header h)" "\<not> cardinality_stale (run_sync_header h)"
  "\<not> cardinality_stale (make_array_from_sorted vs)" "\<not> cardinality_stale (array_handle_from_container h)"
  "\<not> cardinality_stale (array_from_bitset ws n)" "\<not> cardinality_stale (bitset_handle_from_sorted_values vs reuse)"
  "\<not> cardinality_stale (handle_from_run_container c)" "\<not> cardinality_stale (make_bitset_container_from_words ws)"
  by (simp_all add: array_sync_header_def run_sync_header_def make_array_from_sorted_def array_handle_from_container_def
      array_from_bitset_def bitset_handle_from_sorted_values_def handle_from_run_container_def
      make_bitset_container_from_words_def Let_def counted_headers)

lemma counted_run_handle [counted]: "\<not> cardinality_stale (run_handle_from_sorted_values vs)"
  by (simp add: run_handle_from_sorted_values_def run_from_sorted_values_def counted)

lemma counted_choices [counted]:
  "\<not> cardinality_stale (make_container_from_sorted_values eager vs threshold)"
  "\<not> cardinality_stale (make_container_from_words eager ws threshold)"
  "\<not> cardinality_stale (bitset_handle_from_runs rs)"
  by (simp_all add: make_container_from_sorted_values_def make_container_from_words_def bitset_handle_from_runs_def
      Let_def counted split: container_kind.split)

lemma counted_runs [counted]: "\<not> cardinality_stale (make_container_from_runs c threshold)"
  by (simp add: make_container_from_runs_def Let_def counted split: container_kind.split)

lemma counted_settle_run [counted]: "\<not> cardinality_stale h \<Longrightarrow> \<not> cardinality_stale (settle_run_result h threshold)"
  by (simp add: settle_run_result_def Let_def counted split: container_kind.split)

lemma counted_filled [counted]:
  "\<not> cardinality_stale h \<Longrightarrow> \<not> cardinality_stale (make_container_from_filled_array eager h threshold)"
  by (simp add: make_container_from_filled_array_def Let_def counted split: container_kind.split)

lemma counted_run_differences [counted]:
  "\<not> cardinality_stale (difference_run_run lhs rhs threshold)"
  "\<not> cardinality_stale (difference_run_values lhs vs threshold)"
  "\<not> cardinality_stale (difference_run_bitset lhs bits threshold fresh)"
  by (auto simp: difference_run_run_def difference_run_values_def difference_run_bitset_def Let_def counted
      split: container_kind.split prod.split)

lemma counted_combined [counted]: "\<not> cardinality_stale (combine_bitset_bitset a b op out)"
  by (simp add: combine_bitset_bitset_def Let_def counted)

end
