(* ===== verification/Container_Ops.thy ===== *)
theory Container_Ops
  imports Exact_Counts
begin

text \<open>
  The set operations of two containers (\<open>container_ops.hpp\<close>): union, intersection and difference dispatched on the
  two forms, the removal of a sorted batch, and the exclusive-or with its own rules for the form of the result. The
  filters of an array by runs are partial in the model, so a combination is \<open>None\<close> when one does not return;
  the theorems show it always returns.
\<close>

subsection \<open>Union, intersection and difference\<close>

definition combine_run_word :: "set_operation \<Rightarrow> word64 \<Rightarrow> word64 \<Rightarrow> word64" where
  "combine_run_word run_op bits part = (if run_op = Bit_and then bits AND part else NOT bits AND part)"

definition run_mask_at :: "run \<Rightarrow> nat \<Rightarrow> word64" where
  "run_mask_at current index =
    (let part = - 1;
         part = (if index = word_index (rbegin current) then part AND push_bit (bit_index (rbegin current)) (- 1) else part)
     in if index = word_index (rend current) \<and> bit_index (rend current) \<noteq> 63
        then part AND (push_bit (bit_index (rend current) + 1) 1 - 1) else part)"

definition combine_run_bitset_words :: "run list \<Rightarrow> word64 list \<Rightarrow> set_operation \<Rightarrow> word64 list" where
  "combine_run_bitset_words rs bitset run_op =
    (if run_op = Bit_or then fold (\<lambda>r words. apply_range_to_words (rbegin r) (rend r) Range_add words) rs bitset
     else fold (\<lambda>r words. fold (\<lambda>i words. words[i := words ! i OR combine_run_word run_op (bitset ! i) (run_mask_at r i)])
                   [word_index (rbegin r)..<word_index (rend r) + 1] words)
            rs (replicate word_count 0))"

definition filter_into_container :: "bool \<Rightarrow> low list \<Rightarrow> word64 list \<Rightarrow> bool \<Rightarrow> nat \<Rightarrow> container" where
  "filter_into_container eager values words keep_matches bitset_threshold =
    (let out = filter_array_bitset values words keep_matches
     in if out = [] then make_array
        else make_container_from_filled_array eager (array_sync_header (set_array_values out make_array)) bitset_threshold)"

definition make_container_from_sorted_vector :: "bool \<Rightarrow> low list \<Rightarrow> nat \<Rightarrow> container" where
  "make_container_from_sorted_vector eager sorted_values bitset_threshold =
    make_container_from_sorted_values eager sorted_values bitset_threshold"

text \<open>\<open>eager\<close> is the run selection policy, \<open>fresh\<close> what a newly allocated block of words holds.\<close>

definition combine_containers ::
  "bool \<Rightarrow> word64 list \<Rightarrow> container \<Rightarrow> container \<Rightarrow> nat \<Rightarrow> set_operation \<Rightarrow> container option" where
  "combine_containers eager fresh lhs rhs bitset_threshold op =
    (let from_values = (\<lambda>vs. make_container_from_sorted_vector eager vs bitset_threshold);
         as_words = Some (make_container_from_words True
           (combine_words (words_from_container lhs) (words_from_container rhs) op) bitset_threshold)
     in case (payload lhs, payload rhs) of
       (Array_payload l, Array_payload r) \<Rightarrow> Some (from_values (combine_array_array l r op))
     | (Array_payload l, Run_payload r) \<Rightarrow>
         (if op = Bit_or then Some (make_container_from_runs (union_run_array r l) bitset_threshold)
          else if op = Bit_and then map_option from_values (intersect_array_run l r)
          else if op = Bit_andnot then map_option from_values (difference_array_run l r) else as_words)
     | (Run_payload l, Array_payload r) \<Rightarrow>
         (if op = Bit_or then Some (make_container_from_runs (union_run_array l r) bitset_threshold)
          else if op = Bit_and then map_option from_values (intersect_array_run r l)
          else if op = Bit_andnot then Some (difference_run_array l r bitset_threshold) else as_words)
     | (Array_payload l, Bitset_payload r) \<Rightarrow>
         (if op = Bit_or then Some (make_bitset_container_from_words (combine_bitset_array_words r l op))
          else if op = Bit_and then Some (filter_into_container eager l r True bitset_threshold)
          else if op = Bit_andnot then Some (filter_into_container eager l r False bitset_threshold) else as_words)
     | (Bitset_payload l, Array_payload r) \<Rightarrow>
         (if op = Bit_or \<or> op = Bit_andnot
          then Some (make_bitset_container_from_words (combine_bitset_array_words l r op))
          else Some (filter_into_container eager r l True bitset_threshold))
     | (Run_payload l, Bitset_payload r) \<Rightarrow>
         (if op = Bit_andnot then Some (difference_run_bitset l r bitset_threshold fresh)
          else Some (make_bitset_container_from_words (combine_run_bitset_words l r op)))
     | (Bitset_payload l, Run_payload r) \<Rightarrow>
         (if op = Bit_andnot
          then Some (make_bitset_container_from_words
                 (fold (\<lambda>current words. apply_range_to_words (rbegin current) (rend current) Range_remove words) r l))
          else Some (make_bitset_container_from_words (combine_run_bitset_words r l op)))
     | (Bitset_payload l, Bitset_payload r) \<Rightarrow> Some (combine_bitset_bitset l r op fresh)
     | (Run_payload l, Run_payload r) \<Rightarrow>
         (if op = Bit_and then Some (make_container_from_runs (intersect_run_run lhs rhs) bitset_threshold)
          else if op = Bit_or then Some (make_container_from_runs (union_run_run l r) bitset_threshold)
          else if op = Bit_andnot then Some (difference_run_run l r bitset_threshold) else as_words))"

definition container_remove_sorted :: "low list \<Rightarrow> nat \<Rightarrow> container \<Rightarrow> nat \<times> container" where
  "container_remove_sorted sorted_values bitset_threshold h =
    (case kind h of
       Array_kind \<Rightarrow> array_remove_sorted sorted_values h
     | Bitset_kind \<Rightarrow> bitset_remove_sorted sorted_values h
     | Run_kind \<Rightarrow>
         (let rs = run_list h
          in if rs = [] \<or> last sorted_values < rbegin (hd rs) \<or> rend (last rs) < hd sorted_values then (0, h)
             else let before = container_size h;
                      result = difference_run_values rs sorted_values bitset_threshold
                  in (before - container_size result, result)))"

subsection \<open>Exclusive-or\<close>

definition settle_xor_bitset :: "container \<Rightarrow> nat \<Rightarrow> container" where
  "settle_xor_bitset result array_limit =
    (if cardinality result = 0 then make_array
     else if cardinality result \<le> array_limit then array_from_bitset (bitset_words result) (cardinality result)
     else result)"

definition xor_array_array :: "low list \<Rightarrow> low list \<Rightarrow> nat \<Rightarrow> container" where
  "xor_array_array lhs rhs array_limit =
    (if length lhs + length rhs \<le> array_limit then
       (let values = xor_array_array_to_vector lhs rhs
        in if values = [] then make_array else array_sync_header (set_array_values values make_array))
     else settle_xor_bitset (xor_array_into_bitset_inplace False (bitset_handle_from_sorted_values lhs make_array) rhs) array_limit)"

definition xor_array_bitset :: "low list \<Rightarrow> container \<Rightarrow> nat \<Rightarrow> container" where
  "xor_array_bitset values bitset array_limit =
    settle_xor_bitset (xor_array_into_bitset_inplace False (clone_bitset_words bitset) values) array_limit"

definition xor_run_bitset :: "run list \<Rightarrow> container \<Rightarrow> nat \<Rightarrow> container" where
  "xor_run_bitset rs bitset array_limit =
    settle_xor_bitset (xor_runs_into_bitset_inplace False (clone_bitset_words bitset) rs) array_limit"

definition xor_into_run_result :: "run list \<Rightarrow> nat \<Rightarrow> container" where
  "xor_into_run_result filled array_limit =
    (if filled = [] then make_array
     else settle_run_result (run_sync_header (set_run_list filled make_run)) (array_limit + 1))"

definition xor_run_run :: "run list \<Rightarrow> run list \<Rightarrow> nat \<Rightarrow> container" where
  "xor_run_run lhs rhs array_limit = xor_into_run_result (xor_runs lhs rhs) array_limit"

definition few_values :: nat where
  "few_values = 32"

definition xor_array_run :: "low list \<Rightarrow> container \<Rightarrow> nat \<Rightarrow> container" where
  "xor_array_run values run_handle array_limit =
    (let rs = run_list run_handle
     in if length values < few_values then xor_into_run_result (xor_values_runs values rs) array_limit
        else if cardinality run_handle \<le> array_limit
        then xor_array_array (array_values (array_handle_from_container run_handle)) values array_limit
        else let words = fold (\<lambda>current words. apply_range_to_words (rbegin current) (rend current) Range_add words) rs
                   (bitset_words make_bitset_zeroed);
                 result = set_cardinality (cardinality run_handle) (set_bitset_words words make_bitset_zeroed)
             in settle_xor_bitset (xor_array_into_bitset_inplace False result values) array_limit)"

definition xor_containers :: "word64 list \<Rightarrow> container \<Rightarrow> container \<Rightarrow> nat \<Rightarrow> container" where
  "xor_containers fresh lhs rhs array_limit =
    (if cardinality lhs = 0 then rhs
     else if cardinality rhs = 0 then lhs
     else case (payload lhs, payload rhs) of
       (Array_payload l, Array_payload r) \<Rightarrow> xor_array_array l r array_limit
     | (Array_payload l, Bitset_payload r) \<Rightarrow> xor_array_bitset l rhs array_limit
     | (Bitset_payload l, Array_payload r) \<Rightarrow> xor_array_bitset r lhs array_limit
     | (Run_payload l, Bitset_payload r) \<Rightarrow> xor_run_bitset l rhs array_limit
     | (Bitset_payload l, Run_payload r) \<Rightarrow> xor_run_bitset r lhs array_limit
     | (Array_payload l, Run_payload r) \<Rightarrow> xor_array_run l rhs array_limit
     | (Run_payload l, Array_payload r) \<Rightarrow> xor_array_run r lhs array_limit
     | (Run_payload l, Run_payload r) \<Rightarrow> xor_run_run l r array_limit
     | (Bitset_payload l, Bitset_payload r) \<Rightarrow> settle_xor_bitset (combine_bitset_bitset l r Bit_xor fresh) array_limit)"

subsection \<open>A run list against a block\<close>

lemma bit_run_mask_at:
  assumes "rbegin r \<le> rend r" "word_index (rbegin r) \<le> i" "i \<le> word_index (rend r)" "j < 64"
  shows "bit (run_mask_at r i) j \<longleftrightarrow> unat (rbegin r) \<le> 64 * i + j \<and> 64 * i + j \<le> unat (rend r)"
proof -
  have b: "unat (rbegin r) \<le> 64 * i + j \<longleftrightarrow> (i = word_index (rbegin r) \<longrightarrow> bit_index (rbegin r) \<le> j)"
    using assms(2,4) div_mult_mod_eq [of "unat (rbegin r)" 64] mod_less_divisor [of 64 "unat (rbegin r)"]
    unfolding word_index_div bit_index_mod by (cases "i = unat (rbegin r) div 64"; linarith)
  have e: "64 * i + j \<le> unat (rend r) \<longleftrightarrow> (i = word_index (rend r) \<longrightarrow> j \<le> bit_index (rend r))"
    using assms(3,4) div_mult_mod_eq [of "unat (rend r)" 64] mod_less_divisor [of 64 "unat (rend r)"]
    unfolding word_index_div bit_index_mod by (cases "i = unat (rend r) div 64"; linarith)
  have ones: "bit (- 1 :: word64) j" using assms(4) by simp
  have last: "bit_index (rend r) = 63 \<Longrightarrow> j \<le> bit_index (rend r)" using assms(4) by simp
  have low: "bit (push_bit k 1 - 1 :: word64) j \<longleftrightarrow> j < k" for k
    using assms(4) by (simp add: push_bit_eq_mult mask_eq_exp_minus_1 [symmetric] bit_mask_iff)
  show ?thesis
    unfolding run_mask_at_def b e Let_def using last ones assms(4)
    by (auto simp only: bit_and_iff bit_ones_from low less_Suc_eq_le
        Suc_eq_plus1 [symmetric] split: if_splits)
qed

lemma nth_fold_or_words:
  "b \<le> length ws \<Longrightarrow> length (fold (\<lambda>i words. words[i := words ! i OR g i]) [a..<b] ws) = length ws \<and>
    (\<forall>i. fold (\<lambda>i words. words[i := words ! i OR g i]) [a..<b] ws ! i =
       (if a \<le> i \<and> i < b then ws ! i OR g i else ws ! i))" for g :: "nat \<Rightarrow> word64"
proof (induction b)
  case (Suc b)
  then show ?case by (cases "a \<le> b") (auto simp: nth_list_update less_Suc_eq)
qed simp

lemma bits_set_fold_or:
  assumes "b \<le> length ws"
  shows "v \<in> bits_set (fold (\<lambda>i words. words[i := words ! i OR g i]) [a..<b] ws) \<longleftrightarrow>
    v \<in> bits_set ws \<or> (a \<le> v div 64 \<and> v div 64 < b \<and> bit (g (v div 64)) (v mod 64))"
  using nth_fold_or_words [OF assms, of g a] assms by (auto simp: mem_bits_set bit_or_iff)

lemma combine_run_step:
  assumes "length bitset = 1024" "length ws = 1024" "rbegin r \<le> rend r" "op = Bit_and \<or> op = Bit_andnot"
  shows "bits_set (fold (\<lambda>i words. words[i := words ! i OR combine_run_word op (bitset ! i) (run_mask_at r i)])
      [word_index (rbegin r)..<word_index (rend r) + 1] ws) = bits_set ws \<union> set_op op (run_set r) (bits_set bitset)"
proof (intro set_eqI)
  fix v :: nat
  let ?i = "v div 64" and ?j = "v mod 64"
  have bound: "word_index (rend r) + 1 \<le> length ws" using word_index_less [of "rend r"] assms(2) by linarith
  have hit: "bit (combine_run_word op (bitset ! ?i) (run_mask_at r ?i)) ?j \<longleftrightarrow>
      v \<in> set_op op (run_set r) (bits_set bitset)" if "word_index (rbegin r) \<le> ?i" "?i \<le> word_index (rend r)"
  proof -
    have "?i < 1024" using that bound assms(2) by simp
    then show ?thesis
      using bit_run_mask_at [OF assms(3) that, of ?j] assms(1,4)
      by (auto simp: combine_run_word_def bit_and_iff bit_not_iff mem_bits_set set_op_def run_set_def)
  qed
  have miss: "v \<notin> set_op op (run_set r) (bits_set bitset)" if "\<not> (word_index (rbegin r) \<le> ?i \<and> ?i \<le> word_index (rend r))"
    using that assms(4) div_le_mono [of "unat (rbegin r)" v 64] div_le_mono [of v "unat (rend r)" 64]
    by (auto simp: set_op_def run_set_def word_index_div)
  show "v \<in> bits_set (fold (\<lambda>i words. words[i := words ! i OR combine_run_word op (bitset ! i) (run_mask_at r i)])
      [word_index (rbegin r)..<word_index (rend r) + 1] ws) \<longleftrightarrow> v \<in> bits_set ws \<union> set_op op (run_set r) (bits_set bitset)"
    unfolding bits_set_fold_or [OF bound] using hit miss by (auto simp: less_Suc_eq_le)
qed

lemma combine_run_bitset_words_correct:
  assumes "wf_runs rs" "length bitset = 1024" "op \<noteq> Bit_xor"
  shows "length (combine_run_bitset_words rs bitset op) = 1024"
    "bits_set (combine_run_bitset_words rs bitset op) = set_op op (runs_set rs) (bits_set bitset)"
proof -
  have ordered: "\<forall>r\<in>set rs. rbegin r \<le> rend r" using assms(1) by (simp add: wf_runs_def run_ok_def)
  have added: "length (fold (\<lambda>r words. apply_range_to_words (rbegin r) (rend r) Range_add words) rs ws) = 1024 \<and>
      bits_set (fold (\<lambda>r words. apply_range_to_words (rbegin r) (rend r) Range_add words) rs ws) = bits_set ws \<union> runs_set rs"
    if "length ws = 1024" for ws
    using ordered that
    by (induction rs arbitrary: ws) (auto simp: bits_set_apply_range range_effect_def run_set_def)
  have combined: "length (fold (\<lambda>r words. fold (\<lambda>i words. words[i := words ! i OR combine_run_word op (bitset ! i) (run_mask_at r i)])
        [word_index (rbegin r)..<word_index (rend r) + 1] words) rs ws) = 1024 \<and>
      bits_set (fold (\<lambda>r words. fold (\<lambda>i words. words[i := words ! i OR combine_run_word op (bitset ! i) (run_mask_at r i)])
        [word_index (rbegin r)..<word_index (rend r) + 1] words) rs ws) = bits_set ws \<union> set_op op (runs_set rs) (bits_set bitset)"
    if "length ws = 1024" "op = Bit_and \<or> op = Bit_andnot" for ws
    using ordered that(1)
  proof (induction rs arbitrary: ws)
    case (Cons r rs)
    let ?ws = "fold (\<lambda>i words. words[i := words ! i OR combine_run_word op (bitset ! i) (run_mask_at r i)])
        [word_index (rbegin r)..<word_index (rend r) + 1] ws"
    have "word_index (rend r) + 1 \<le> length ws" using word_index_less [of "rend r"] Cons.prems(2) by linarith
    then have len: "length ?ws = 1024" using nth_fold_or_words Cons.prems(2) by simp
    have "bits_set ?ws = bits_set ws \<union> set_op op (run_set r) (bits_set bitset)"
      using combine_run_step [OF assms(2) Cons.prems(2) _ that(2)] Cons.prems(1) by simp
    moreover have "set_op op (run_set r \<union> runs_set rs) (bits_set bitset) =
        set_op op (run_set r) (bits_set bitset) \<union> set_op op (runs_set rs) (bits_set bitset)"
      using that(2) by (auto simp: set_op_def)
    ultimately show ?case using Cons.IH [OF _ len] Cons.prems(1) by (simp add: Un_assoc)
  qed (use that in \<open>auto simp: set_op_def\<close>)
  show "length (combine_run_bitset_words rs bitset op) = 1024"
    using added [OF assms(2)] combined [of "replicate 1024 0"] assms(3)
    by (cases op) (simp_all add: combine_run_bitset_words_def)
  show "bits_set (combine_run_bitset_words rs bitset op) = set_op op (runs_set rs) (bits_set bitset)"
    using added [OF assms(2)] combined [of "replicate 1024 0"] assms(3)
    by (cases op) (auto simp: combine_run_bitset_words_def set_op_def Un_commute)
qed

subsection \<open>The combinations are those of sets\<close>

lemma remove_runs_from_words:
  assumes "wf_runs rs" "length ws = 1024"
  shows "length (fold (\<lambda>r words. apply_range_to_words (rbegin r) (rend r) Range_remove words) rs ws) = 1024"
    "bits_set (fold (\<lambda>r words. apply_range_to_words (rbegin r) (rend r) Range_remove words) rs ws) = bits_set ws - runs_set rs"
proof -
  have "\<forall>r\<in>set rs. rbegin r \<le> rend r" using assms(1) by (simp add: wf_runs_def run_ok_def)
  then have "length (fold (\<lambda>r words. apply_range_to_words (rbegin r) (rend r) Range_remove words) rs ws) = 1024 \<and>
      bits_set (fold (\<lambda>r words. apply_range_to_words (rbegin r) (rend r) Range_remove words) rs ws) = bits_set ws - runs_set rs"
    using assms(2)
    by (induction rs arbitrary: ws) (auto simp: bits_set_apply_range range_effect_def run_set_def)
  then show "length (fold (\<lambda>r words. apply_range_to_words (rbegin r) (rend r) Range_remove words) rs ws) = 1024"
    "bits_set (fold (\<lambda>r words. apply_range_to_words (rbegin r) (rend r) Range_remove words) rs ws) = bits_set ws - runs_set rs"
    by simp_all
qed

lemma filter_into_container_correct:
  assumes "strict vs" "length ws = 1024"
  shows "holds_set {v \<in> array_set vs. (v \<in> bits_set ws) = keep} (filter_into_container eager vs ws keep threshold)"
proof -
  let ?out = "filter (\<lambda>v. (unat v \<in> bits_set ws) = keep) vs"
  have out: "strict ?out" "array_set ?out = {v \<in> array_set vs. (v \<in> bits_set ws) = keep}"
    using assms(1) by (auto simp: array_set_def sorted_wrt_filter)
  show ?thesis
  proof (cases "?out = []")
    case True
    then show ?thesis
      using out(2) holds_make_array [of "{v \<in> array_set vs. (v \<in> bits_set ws) = keep}"]
      unfolding filter_into_container_def filter_array_bitset_correct [OF assms(2)] True by (simp add: array_set_def)
  next
    case False
    note filled = holds_filled_array [OF out(1)]
    have "holds_array (array_sync_header (set_array_values ?out make_array))"
      using filled(2) by (simp add: holds_array_def kind_def)
    then show ?thesis
      using False filled(1) out(2) make_container_from_filled_array_correct [of "array_sync_header (set_array_values ?out make_array)" eager threshold]
      unfolding filter_into_container_def filter_array_bitset_correct [OF assms(2)]
      by (simp add: holds_set_def)
  qed
qed

lemma payload_wf:
  assumes "wf_container h"
  shows "payload h = Array_payload vs \<Longrightarrow> strict vs \<and> values_of h = array_set vs \<and> holds_array h"
    "payload h = Run_payload rs \<Longrightarrow> wf_runs rs \<and> values_of h = runs_set rs \<and> holds_run h \<and> run_list h = rs"
    "payload h = Bitset_payload ws \<Longrightarrow> length ws = 1024 \<and> values_of h = bits_set ws \<and> holds_bitset h \<and> bitset_words h = ws"
  using assms by (auto simp: wf_container_def values_of_def holds_array_def holds_run_def holds_bitset_def kind_def
      run_list_def bitset_words_def)

lemma combine_containers_set:
  assumes "wf_container lhs" "wf_container rhs" "length fresh = 1024" "op \<noteq> Bit_xor"
  shows "\<exists>h. combine_containers eager fresh lhs rhs threshold op = Some h \<and> holds_set (set_op op (values_of lhs) (values_of rhs)) h"
proof -
  note [simp] = combine_containers_def make_container_from_sorted_vector_def set_op_def
  note l = payload_wf [OF assms(1)] and r = payload_wf [OF assms(2)]
  note sorted = make_container_from_sorted_values_correct
  note returned = intersect_array_run_correct difference_array_run_correct
  consider (or) "op = Bit_or" | (and_) "op = Bit_and" | (andnot) "op = Bit_andnot" using assms(4) by (cases op) auto
  note op_cases = this
  show ?thesis
  proof (cases "payload lhs")
    case pl: (Array_payload vs)
    show ?thesis
    proof (cases "payload rhs")
      case pr: (Array_payload us)
      then show ?thesis
        using combine_array_array_correct [of vs us op] sorted [of "combine_array_array vs us op" eager threshold]
          l(1) [OF pl] r(1) [OF pr] assms(4) pl by simp
    next
      case pr: (Run_payload rs)
      obtain both where "intersect_array_run vs rs = Some both" "strict both" "array_set both = array_set vs \<inter> runs_set rs"
        using intersect_array_run_correct l(1) [OF pl] r(2) [OF pr] by metis
      moreover obtain left where "difference_array_run vs rs = Some left" "strict left" "array_set left = array_set vs - runs_set rs"
        using difference_array_run_correct l(1) [OF pl] r(2) [OF pr] by metis
      moreover note union_run_array_correct [of rs vs] make_container_from_runs_correct [of "union_run_array rs vs" threshold]
      ultimately show ?thesis
        using sorted [of both eager threshold] sorted [of left eager threshold] l(1) [OF pl] r(2) [OF pr] pl pr assms(4)
        by (cases rule: op_cases) (simp_all add: Un_commute)
    next
      case pr: (Bitset_payload ws)
      note filtered = filter_into_container_correct [of vs ws _ eager threshold]
      have "{v \<in> array_set vs. (v \<in> bits_set ws) = True} = array_set vs \<inter> bits_set ws"
        "{v \<in> array_set vs. (v \<in> bits_set ws) = False} = array_set vs - bits_set ws" by auto
      moreover note make_bitset_container_from_words_correct [of "combine_bitset_array_words ws vs op"]
        combine_bitset_array_words_correct [of ws vs op]
      ultimately show ?thesis
        using filtered [of True] filtered [of False] l(1) [OF pl] r(3) [OF pr] pl pr assms(4)
        by (cases rule: op_cases) (simp_all add: Un_commute)
    qed
  next
    case pl: (Run_payload ss)
    show ?thesis
    proof (cases "payload rhs")
      case pr: (Array_payload vs)
      obtain both where "intersect_array_run vs ss = Some both" "strict both" "array_set both = array_set vs \<inter> runs_set ss"
        using intersect_array_run_correct l(2) [OF pl] r(1) [OF pr] by metis
      moreover note union_run_array_correct [of ss vs] make_container_from_runs_correct [of "union_run_array ss vs" threshold]
        difference_run_values_correct [of ss vs threshold]
      ultimately show ?thesis
        using sorted [of both eager threshold] l(2) [OF pl] r(1) [OF pr] pl pr assms(4)
        by (cases rule: op_cases) (simp_all add: Int_commute difference_run_array_def)
    next
      case pr: (Run_payload rs)
      note intersect_run_run_correct [OF assms(1) _ assms(2)] union_run_run_correct [of ss rs]
        make_container_from_runs_correct [of "intersect_run_run lhs rhs" threshold]
        make_container_from_runs_correct [of "union_run_run ss rs" threshold] difference_run_run_correct [of ss rs threshold]
      then show ?thesis
        using l(2) [OF pl] r(2) [OF pr] pl pr assms(4) by (cases rule: op_cases) simp_all
    next
      case pr: (Bitset_payload ws)
      note combine_run_bitset_words_correct [of ss ws op] difference_run_bitset_correct [of ss ws fresh threshold]
        make_bitset_container_from_words_correct [of "combine_run_bitset_words ss ws op"]
      then show ?thesis
        using l(2) [OF pl] r(3) [OF pr] pl pr assms(3,4) by (cases rule: op_cases) simp_all
    qed
  next
    case pl: (Bitset_payload ws)
    show ?thesis
    proof (cases "payload rhs")
      case pr: (Array_payload vs)
      have "{v \<in> array_set vs. (v \<in> bits_set ws) = True} = bits_set ws \<inter> array_set vs" by auto
      moreover note filter_into_container_correct [of vs ws True eager threshold]
        make_bitset_container_from_words_correct [of "combine_bitset_array_words ws vs op"]
        combine_bitset_array_words_correct [of ws vs op]
      ultimately show ?thesis
        using l(3) [OF pl] r(1) [OF pr] pl pr assms(4) by (cases rule: op_cases) simp_all
    next
      case pr: (Run_payload rs)
      note combine_run_bitset_words_correct [of rs ws op] remove_runs_from_words [of rs ws]
        make_bitset_container_from_words_correct [of "combine_run_bitset_words rs ws op"]
        make_bitset_container_from_words_correct
          [of "fold (\<lambda>r words. apply_range_to_words (rbegin r) (rend r) Range_remove words) rs ws"]
      then show ?thesis
        using l(3) [OF pl] r(2) [OF pr] pl pr assms(4)
        by (cases rule: op_cases) (simp_all add: Un_commute Int_commute)
    next
      case pr: (Bitset_payload us)
      then show ?thesis
        using combine_bitset_bitset_correct(1) [of ws us fresh op] l(3) [OF pl] r(3) [OF pr] pl assms(3) by simp
    qed
  qed
qed

lemma counted_filter [counted]: "\<not> cardinality_stale (filter_into_container eager vs ws keep threshold)"
  by (simp add: filter_into_container_def Let_def counted)

lemma counted_combination:
  assumes "combine_containers eager fresh lhs rhs threshold op = Some h"
  shows "\<not> cardinality_stale h"
  using assms
  by (auto simp: combine_containers_def make_container_from_sorted_vector_def difference_run_array_def Let_def counted
      split: payload.splits if_splits)

text \<open>Every combination returns, and its container is well formed, exactly counted and holds the set operation.\<close>

theorem combine_containers_correct:
  assumes "wf_container lhs" "wf_container rhs" "length fresh = 1024" "op \<noteq> Bit_xor"
  shows "\<exists>h. combine_containers eager fresh lhs rhs threshold op = Some h \<and> exact (set_op op (values_of lhs) (values_of rhs)) h"
proof -
  obtain h where "combine_containers eager fresh lhs rhs threshold op = Some h"
    "holds_set (set_op op (values_of lhs) (values_of rhs)) h" using combine_containers_set [OF assms] by auto
  then show ?thesis using counted_combination by (auto simp: exact_def)
qed

subsection \<open>The removal of a sorted batch\<close>

theorem container_remove_sorted_correct:
  assumes "wf_container h" "strict vs" "vs \<noteq> []"
  shows "wf_container (snd (container_remove_sorted vs threshold h)) \<and>
    values_of (snd (container_remove_sorted vs threshold h)) = values_of h - array_set vs \<and>
    fst (container_remove_sorted vs threshold h) = card (values_of h \<inter> array_set vs)"
proof (cases h rule: form_cases)
  case array
  then show ?thesis using array_remove_sorted_correct [OF assms(1) _ assms(2)] by (simp add: container_remove_sorted_def)
next
  case bitset
  then show ?thesis using bitset_remove_sorted_correct [OF assms(1) _ assms(2)] by (simp add: container_remove_sorted_def)
next
  case run
  obtain rs where rs: "wf_runs rs" "run_list h = rs" "values_of h = runs_set rs" "cardinality h = card (runs_set rs)"
    using assms(1) run(1) by (rule wf_runE)
  show ?thesis
  proof (cases "rs = [] \<or> last vs < rbegin (hd rs) \<or> rend (last rs) < hd vs")
    case True
    have "runs_set rs \<inter> array_set vs = {}"
    proof (cases "rs = []")
      case False
      have "unat (rbegin (hd rs)) \<le> v" "v \<le> unat (rend (last rs))" if "v \<in> runs_set rs" for v
        using that Min_le [of "runs_set rs" v] Max_ge [of "runs_set rs" v] runs_set_Min_Max [OF rs(1) False] by simp_all
      moreover have "unat (hd vs) \<le> v" "v \<le> unat (last vs)" if "v \<in> array_set vs" for v
        using that Min_le [of "array_set vs" v] Max_ge [of "array_set vs" v] array_set_Min_Max [OF assms(2,3)] by simp_all
      ultimately show ?thesis using True False unfolding word_less_nat_alt by fastforce
    qed simp
    then show ?thesis using True assms(1) rs run(2) by (auto simp: container_remove_sorted_def Let_def)
  next
    case False
    let ?r = "difference_run_values rs vs threshold"
    have r: "exact (runs_set rs - array_set vs) ?r"
      using difference_run_values_correct [OF rs(1) assms(2)] by (simp add: exact_def counted)
    have "card (runs_set rs) - card (runs_set rs - array_set vs) = card (runs_set rs \<inter> array_set vs)"
      using card_Int_Diff [of "runs_set rs" "array_set vs"] by simp
    then show ?thesis
      using r exact_size [OF r] False rs run(2) exact_wf [OF r]
      by (simp add: container_remove_sorted_def Let_def container_size_def)
  qed
qed

subsection \<open>Exclusive-or is the symmetric difference\<close>

lemma settle_xor_bitset_correct:
  assumes "exact S h" "holds_bitset h \<or> S = {}"
  shows "exact S (settle_xor_bitset h limit)"
proof -
  have "finite (values_of h)" using finite_values_of exact_wf(1) [OF assms(1)] by blast
  then have fin: "finite S" using exact_wf(2) [OF assms(1)] by simp
  have n: "cardinality h = card S" using assms(1) by (rule exact_count)
  show ?thesis
  proof (cases "S = {}")
    case True
    then show ?thesis using n by (simp add: settle_xor_bitset_def exact_def counted holds_make_array)
  next
    case False
    then have "holds_bitset h" using assms(2) by simp
    with exact_wf(1) [OF assms(1)] obtain ws where "length ws = 1024" "bitset_words h = ws" "values_of h = bits_set ws"
      by (rule wf_bitsetE)
    then show ?thesis
      using False fin n assms(1) exact_wf(2) [OF assms(1)] array_from_bitset_correct(1) [of ws "cardinality h"]
      by (auto simp: settle_xor_bitset_def exact_def counted)
  qed
qed

text \<open>A bitset the loops filled, settled.\<close>

lemma settle_left_bitset:
  assumes "leaves_bitset S h" "\<not> cardinality_stale h"
  shows "exact S (settle_xor_bitset h limit)"
  using assms by (intro settle_xor_bitset_correct) (simp_all add: exact_def leaves_bitset_def)

lemma xor_array_array_correct:
  assumes "strict ls" "strict rs"
  shows "exact (sym_diff (array_set ls) (array_set rs)) (xor_array_array ls rs limit)"
proof (cases "length ls + length rs \<le> limit")
  case True
  let ?x = "xor_array_array_to_vector ls rs"
  have x: "strict ?x" "array_set ?x = sym_diff (array_set ls) (array_set rs)"
    using strict_scalar_merges [OF assms] array_set_scalar_merges [OF assms] by (simp_all add: xor_array_array_to_vector_def)
  have "sym_diff (array_set ls) (array_set rs) = {}" if "?x = []" using x(2) that by (simp add: array_set_def)
  then show ?thesis
    using True holds_filled_array(1) [OF x(1)] x(2) holds_make_array
    by (auto simp: xor_array_array_def Let_def exact_def counted)
next
  case False
  let ?b = "bitset_handle_from_sorted_values ls make_array"
  note b = bitset_handle_from_sorted_values_correct [OF assms(1), of make_array]
  then have "wf_container ?b" "holds_bitset ?b" "values_of ?b = array_set ls"
    by (simp_all add: holds_set_def holds_bitset_def kind_def)
  from settle_left_bitset [OF xor_array_into_bitset_inplace_correct [OF this(1,2) assms(2), where lazy = False]] this(3)
  show ?thesis using False by (simp add: xor_array_array_def)
qed

lemma xor_into_clone_correct:
  assumes "wf_container h" "holds_bitset h" "\<not> cardinality_stale h"
  shows "strict vs \<Longrightarrow> exact (sym_diff (values_of h) (array_set vs)) (xor_array_bitset vs h limit)"
    "wf_runs rs \<Longrightarrow> exact (sym_diff (values_of h) (runs_set rs)) (xor_run_bitset rs h limit)"
proof -
  have c: "wf_container (clone_bitset_words h)" "holds_bitset (clone_bitset_words h)" "values_of (clone_bitset_words h) = values_of h"
    using clone_bitset_words_correct(1) [OF assms] by (simp_all add: leaves_bitset_def holds_set_def)
  show "exact (sym_diff (values_of h) (array_set vs)) (xor_array_bitset vs h limit)" if "strict vs"
    using settle_left_bitset [OF xor_array_into_bitset_inplace_correct [OF c(1,2) that, where lazy = False]] c(3)
    by (simp add: xor_array_bitset_def)
  show "exact (sym_diff (values_of h) (runs_set rs)) (xor_run_bitset rs h limit)" if "wf_runs rs"
    using settle_left_bitset [OF xor_runs_into_bitset_inplace_correct [OF c(1,2) that, where lazy = False]] c(3)
    by (simp add: xor_run_bitset_def)
qed

lemma xor_into_run_result_correct:
  assumes "wf_runs rs"
  shows "exact (runs_set rs) (xor_into_run_result rs limit)"
  using holds_settled_runs [OF assms] holds_make_array
  by (auto simp: xor_into_run_result_def exact_def counted)

lemma xor_run_run_correct:
  assumes "wf_runs ls" "wf_runs rs"
  shows "exact (sym_diff (runs_set ls) (runs_set rs)) (xor_run_run ls rs limit)"
  using xor_into_run_result_correct [OF xor_runs_correct(1) [OF assms], of limit] xor_runs_correct(2) [OF assms]
  by (simp add: xor_run_run_def)

lemma xor_array_run_correct:
  assumes "wf_container h" "holds_run h" "strict vs"
  shows "exact (sym_diff (array_set vs) (values_of h)) (xor_array_run vs h limit)"
proof -
  obtain rs where rs: "wf_runs rs" "run_list h = rs" "values_of h = runs_set rs" "\<not> cardinality_stale h"
      "cardinality h = card (runs_set rs)"
    using assms(1,2) by (rule wf_runE)
  consider (few) "length vs < few_values" | (fits) "\<not> length vs < few_values" "cardinality h \<le> limit"
    | (wide) "\<not> length vs < few_values" "\<not> cardinality h \<le> limit" by blast
  then show ?thesis
  proof cases
    case few
    then show ?thesis
      using xor_into_run_result_correct [OF xor_values_runs_correct(1) [OF assms(3) rs(1)]]
        xor_values_runs_correct(2) [OF assms(3) rs(1)] rs(2,3) by (simp add: xor_array_run_def)
  next
    case fits
    have "array_values (array_handle_from_container h) = container_values h"
      using array_handle_from_container_correct(2) [OF assms(1) rs(4)] by (simp add: array_values_def)
    moreover have "sym_diff (values_of h) (array_set vs) = sym_diff (array_set vs) (values_of h)" by auto
    ultimately show ?thesis
      using fits xor_array_array_correct [OF container_values_correct(1) [OF assms(1)] assms(3)]
        container_values_correct(2) [OF assms(1)] by (simp add: xor_array_run_def Let_def)
  next
    case wide
    let ?ws = "fold (\<lambda>current words. apply_range_to_words (rbegin current) (rend current) Range_add words) rs
        (bitset_words make_bitset_zeroed)"
    let ?b = "set_cardinality (cardinality h) (set_bitset_words ?ws make_bitset_zeroed)"
    have z: "bitset_words make_bitset_zeroed = replicate 1024 0"
      by (simp add: make_bitset_zeroed_def make_bitset_uninitialized_def mark_endpoints_stale_def bitset_words_def)
    have "wf_runs rs" "length (bitset_words make_bitset_zeroed) = 1024" using rs(1) z by simp_all
    then have ws: "length ?ws = 1024" "bits_set ?ws = runs_set rs"
      using combine_run_bitset_words_correct [of rs "bitset_words make_bitset_zeroed" Bit_or] z
      by (simp_all add: combine_run_bitset_words_def set_op_def)
    have "set_bitset_words ?ws make_bitset_zeroed = make_bitset_uninitialized ?ws"
      by (simp add: make_bitset_zeroed_def make_bitset_uninitialized_def mark_endpoints_stale_def set_bitset_words_def)
    then have b: "wf_container ?b" "holds_bitset ?b" "values_of ?b = bits_set ?ws"
      using wf_uninitialized_counted [OF ws(1)] rs(5) ws(2)
      by (simp_all add: holds_set_def holds_bitset_def kind_def)
    have "sym_diff (values_of ?b) (array_set vs) = sym_diff (array_set vs) (values_of h)" using b(3) ws(2) rs(3) by auto
    then show ?thesis
      using settle_left_bitset [OF xor_array_into_bitset_inplace_correct [OF b(1,2) assms(3), where lazy = False]] wide rs(2)
      by (simp add: xor_array_run_def Let_def)
  qed
qed

lemma sym_diff_commute: "sym_diff A B = sym_diff B A"
  by auto

theorem xor_containers_correct:
  assumes "wf_container lhs" "wf_container rhs" "\<not> cardinality_stale lhs" "\<not> cardinality_stale rhs" "length fresh = 1024"
  shows "exact (sym_diff (values_of lhs) (values_of rhs)) (xor_containers fresh lhs rhs limit)"
proof -
  have n: "cardinality lhs = card (values_of lhs)" "cardinality rhs = card (values_of rhs)"
    using assms(1-4) by (auto intro!: exact_count simp: exact_def holds_set_def)
  note l = payload_wf [OF assms(1)] and r = payload_wf [OF assms(2)]
  consider (left) "values_of lhs = {}" | (right) "values_of lhs \<noteq> {}" "values_of rhs = {}"
    | (both) "values_of lhs \<noteq> {}" "values_of rhs \<noteq> {}" by blast
  then show ?thesis
  proof cases
    case left
    then show ?thesis using assms n by (simp add: xor_containers_def exact_def holds_set_def sym_diff_def)
  next
    case right
    then show ?thesis using assms n by (simp add: xor_containers_def exact_def holds_set_def sym_diff_def)
  next
    case both
    then have unf: "xor_containers fresh lhs rhs limit = (case (payload lhs, payload rhs) of
       (Array_payload l, Array_payload r) \<Rightarrow> xor_array_array l r limit
     | (Array_payload l, Bitset_payload r) \<Rightarrow> xor_array_bitset l rhs limit
     | (Bitset_payload l, Array_payload r) \<Rightarrow> xor_array_bitset r lhs limit
     | (Run_payload l, Bitset_payload r) \<Rightarrow> xor_run_bitset l rhs limit
     | (Bitset_payload l, Run_payload r) \<Rightarrow> xor_run_bitset r lhs limit
     | (Array_payload l, Run_payload r) \<Rightarrow> xor_array_run l rhs limit
     | (Run_payload l, Array_payload r) \<Rightarrow> xor_array_run r lhs limit
     | (Run_payload l, Run_payload r) \<Rightarrow> xor_run_run l r limit
     | (Bitset_payload l, Bitset_payload r) \<Rightarrow> settle_xor_bitset (combine_bitset_bitset l r Bit_xor fresh) limit)"
      using n by (simp add: xor_containers_def)
    show ?thesis
    proof (cases "payload lhs")
      case pl: (Array_payload vs)
      note l = l(1) [OF pl]
      show ?thesis
        using l r xor_array_array_correct [of vs _ limit] xor_array_run_correct [OF assms(2), of vs limit]
          xor_into_clone_correct(1) [OF assms(2) _ assms(4), of vs limit]
        by (cases "payload rhs") (simp_all add: unf pl sym_diff_commute)
    next
      case pl: (Run_payload rs)
      note l = l(2) [OF pl]
      show ?thesis
        using l r xor_array_run_correct [OF assms(1), of _ limit] xor_into_clone_correct(2) [OF assms(2) _ assms(4), of rs limit]
          xor_run_run_correct [of rs _ limit]
        by (cases "payload rhs") (simp_all add: unf pl sym_diff_commute)
    next
      case pl: (Bitset_payload ws)
      note l = l(3) [OF pl]
      show ?thesis
      proof (cases "payload rhs")
        case pr: (Bitset_payload us)
        let ?c = "combine_bitset_bitset ws us Bit_xor fresh"
        have e: "exact (sym_diff (values_of lhs) (values_of rhs)) ?c"
          using combine_bitset_bitset_correct [of ws us fresh Bit_xor] l r(3) [OF pr] assms(5)
          by (simp add: exact_def set_op_def sym_diff_def)
        have "holds_bitset ?c \<or> ?c = make_array"
          by (simp add: combine_bitset_bitset_def Let_def holds_bitset_def kind_def make_bitset_uninitialized_def
              mark_endpoints_stale_def set_cardinality_def)
        then have "holds_bitset ?c \<or> sym_diff (values_of lhs) (values_of rhs) = {}"
          using exact_wf(2) [OF e] empty_factories by metis
        from settle_xor_bitset_correct [OF e this] show ?thesis by (simp add: unf pl pr)
      qed (use l r xor_into_clone_correct [OF assms(1) _ assms(3), of _ limit] in \<open>simp_all add: unf pl sym_diff_commute\<close>)
    qed
  qed
qed

end
