(* ===== verification/Container_Counts.thy ===== *)
theory Container_Counts
  imports Container_Ops
begin

text \<open>
  What two containers have in common, without their intersection (\<open>container_ops.hpp\<close>): whether they meet, and in
  how many values.
\<close>

subsection \<open>Meeting\<close>

fun arrays_meet :: "low list \<Rightarrow> low list \<Rightarrow> bool" where
  "arrays_meet (l # ls) (r # rs) =
    (if l < r then arrays_meet ls (r # rs) else if r < l then arrays_meet (l # ls) rs else True)"
| "arrays_meet _ _ = False"

fun runs_meet :: "run list \<Rightarrow> run list \<Rightarrow> bool" where
  "runs_meet (l # ls) (r # rs) =
    (if rend l < rbegin r then runs_meet ls (r # rs) else if rend r < rbegin l then runs_meet (l # ls) rs else True)"
| "runs_meet _ _ = False"

definition run_meets_words :: "run list \<Rightarrow> word64 list \<Rightarrow> bool" where
  "run_meets_words rs words =
    list_ex (\<lambda>r. list_ex (\<lambda>index.
        let word = words ! index
        in word \<noteq> 0 \<and>
           (let word = (if index = word_index (rbegin r) then word AND push_bit (bit_index (rbegin r)) (- 1) else word);
                word = (if index = word_index (rend r) \<and> bit_index (rend r) \<noteq> 63
                        then word AND (push_bit (bit_index (rend r) + 1) 1 - 1) else word)
            in word \<noteq> 0)) [word_index (rbegin r)..<word_index (rend r) + 1]) rs"

definition container_intersects :: "container \<Rightarrow> container \<Rightarrow> bool" where
  "container_intersects lhs rhs =
    (case (payload lhs, payload rhs) of
       (Array_payload l, Array_payload r) \<Rightarrow> arrays_meet l r
     | (Array_payload l, _) \<Rightarrow> list_ex (\<lambda>v. container_contains rhs v) l
     | (_, Array_payload r) \<Rightarrow> list_ex (\<lambda>v. container_contains lhs v) r
     | (Run_payload l, Run_payload r) \<Rightarrow> runs_meet l r
     | (Run_payload l, Bitset_payload r) \<Rightarrow> run_meets_words l r
     | (Bitset_payload l, Run_payload r) \<Rightarrow> run_meets_words r l
     | (Bitset_payload l, Bitset_payload r) \<Rightarrow> list_ex (\<lambda>index. l ! index AND r ! index \<noteq> 0) [0..<length l])"

subsection \<open>Counting\<close>

definition bits_in_range :: "word64 list \<Rightarrow> nat \<Rightarrow> nat \<Rightarrow> nat" where
  "bits_in_range words b e =
    (let first_word = b div 64; last_word = e div 64;
         first_mask = push_bit (b mod 64) (- 1);
         last_mask = drop_bit (63 - e mod 64) (- 1)
     in if first_word = last_word then popcount (words ! first_word AND first_mask AND last_mask)
        else let count = popcount (words ! first_word AND first_mask);
                 count = count + popcount_words (take (last_word - first_word - 1) (drop (first_word + 1) words))
             in count + popcount (words ! last_word AND last_mask))"

fun count_few_runs :: "low list \<Rightarrow> nat \<Rightarrow> run list \<Rightarrow> nat \<Rightarrow> nat" where
  "count_few_runs keys ap [] count = count"
| "count_few_runs keys ap (r # rs) count =
    (let ap = gallop_forward (\<lambda>x. x < rbegin r) keys ap
     in if ap = length keys then count
        else let past = gallop_forward (\<lambda>x. x \<le> rend r) keys ap
             in count_few_runs keys past rs (count + (past - ap)))"

partial_function (option) count_array_walk :: "low list \<Rightarrow> run list \<Rightarrow> nat \<Rightarrow> nat \<Rightarrow> nat \<Rightarrow> nat option" where
  "count_array_walk keys rs ap run_ix count =
    (if ap < length keys then
       (let v = keys ! ap; run_ix = run_reaching (\<lambda>r. rend r < v) rs run_ix
        in if run_ix = length rs then Some count
           else if v \<ge> rbegin (rs ! run_ix) then count_array_walk keys rs (ap + 1) run_ix (count + 1)
           else count_array_walk keys rs (gallop_forward (\<lambda>x. x < rbegin (rs ! run_ix)) keys ap) run_ix count)
     else Some count)"

definition count_array_run :: "low list \<Rightarrow> run list \<Rightarrow> nat option" where
  "count_array_run keys rs =
    (if rs = [] then Some 0
     else if length rs * 16 \<le> length keys then Some (count_few_runs keys 0 rs 0)
     else count_array_walk keys rs 0 0 0)"

definition count_array_bitset :: "low list \<Rightarrow> word64 list \<Rightarrow> nat" where
  "count_array_bitset keys words =
    fold (\<lambda>v count. count + unat (drop_bit (bit_index v) (words ! word_index v) AND 1)) keys 0"

text \<open>Two arrays are not a counted pair.\<close>

definition container_intersect_cardinality :: "container \<Rightarrow> container \<Rightarrow> nat option" where
  "container_intersect_cardinality lhs rhs =
    (case (payload lhs, payload rhs) of
       (Array_payload _, Array_payload _) \<Rightarrow> Some 0
     | (Array_payload l, Run_payload r) \<Rightarrow> count_array_run l r
     | (Run_payload l, Array_payload r) \<Rightarrow> count_array_run r l
     | (Array_payload l, Bitset_payload r) \<Rightarrow> Some (count_array_bitset l r)
     | (Bitset_payload l, Array_payload r) \<Rightarrow> Some (count_array_bitset r l)
     | (Run_payload l, Run_payload r) \<Rightarrow> Some (intersect_runs_cardinality l r)
     | (Run_payload l, Bitset_payload r) \<Rightarrow>
         Some (fold (\<lambda>current count. count + bits_in_range r (unat (rbegin current)) (unat (rend current))) l 0)
     | (Bitset_payload l, Run_payload r) \<Rightarrow>
         Some (fold (\<lambda>current count. count + bits_in_range l (unat (rbegin current)) (unat (rend current))) r 0)
     | (Bitset_payload l, Bitset_payload r) \<Rightarrow> Some (and_popcount_words l r))"

subsection \<open>Two containers meet when their sets do\<close>

lemma arrays_meet_correct: "strict ls \<Longrightarrow> strict rs \<Longrightarrow> arrays_meet ls rs \<longleftrightarrow> array_set ls \<inter> array_set rs \<noteq> {}"
proof (induction ls rs rule: arrays_meet.induct)
  case (1 l ls r rs)
  have Int: "array_set xs \<inter> array_set ys \<noteq> {} \<longleftrightarrow> set xs \<inter> set ys \<noteq> {}" for xs ys :: "low list"
    unfolding array_set_def image_Int [OF inj_unat_low, symmetric] by simp
  from this show ?case
    using "1.IH" "1.prems" unfolding Int
    by (cases l r rule: linorder_cases) auto
qed (auto simp: array_set_def)

lemma run_before_runs:
  assumes "wf_runs (r # rs)" "rend l < rbegin r" "run_ok l"
  shows "run_set l \<inter> runs_set (r # rs) = {}"
proof -
  have "unat (rbegin r) \<le> v" if "v \<in> runs_set (r # rs)" for v
    using that runs_set_Cons_gap [OF assms(1), of v] assms(1)
    by (auto simp: run_set_def wf_runs_Cons run_ok_unat)
  then show ?thesis using assms(2) by (fastforce simp: run_set_def word_less_nat_alt)
qed

lemma runs_meet_correct: "wf_runs ls \<Longrightarrow> wf_runs rs \<Longrightarrow> runs_meet ls rs \<longleftrightarrow> runs_set ls \<inter> runs_set rs \<noteq> {}"
proof (induction ls rs rule: runs_meet.induct)
  case (1 l ls r rs)
  have ok: "run_ok l" "run_ok r" "wf_runs ls" "wf_runs rs" using "1.prems" by (simp_all add: wf_runs_Cons)
  consider (lt) "rend l < rbegin r" | (gt) "\<not> rend l < rbegin r" "rend r < rbegin l"
    | (meet) "\<not> rend l < rbegin r" "\<not> rend r < rbegin l" by blast
  then show ?case
  proof cases
    case lt
    then show ?thesis using "1.IH"(1) run_before_runs [OF "1.prems"(2) lt ok(1)] "1.prems" ok by auto
  next
    case gt
    then show ?thesis using "1.IH"(2) run_before_runs [OF "1.prems"(1) gt(2) ok(2)] "1.prems" ok by auto
  next
    case meet
    then have "max (unat (rbegin l)) (unat (rbegin r)) \<in> run_set l \<inter> run_set r"
      using ok(1,2) by (auto simp: run_set_def run_ok_unat word_less_nat_alt)
    then have "runs_set (l # ls) \<inter> runs_set (r # rs) \<noteq> {}" unfolding runs_set_Cons by blast
    then show ?thesis using meet by simp
  qed
qed auto

lemma word_meets: "w \<noteq> 0 \<longleftrightarrow> (\<exists>j<64. bit w j)" for w :: word64
  by (metis bit_eqI bit_less_64 bit_0_eq bot_apply bot_bool_def)

lemma run_meets_words_correct:
  assumes "wf_runs rs" "length ws = 1024"
  shows "run_meets_words rs ws \<longleftrightarrow> runs_set rs \<inter> bits_set ws \<noteq> {}"
proof -
  have one: "(\<exists>i\<in>{word_index (rbegin r)..word_index (rend r)}. ws ! i AND run_mask_at r i \<noteq> 0) \<longleftrightarrow> run_set r \<inter> bits_set ws \<noteq> {}"
    if r: "run_ok r" for r
  proof
    assume "\<exists>i\<in>{word_index (rbegin r)..word_index (rend r)}. ws ! i AND run_mask_at r i \<noteq> 0"
    then obtain i j where ij: "word_index (rbegin r) \<le> i" "i \<le> word_index (rend r)" "j < 64" "bit (ws ! i) j" "bit (run_mask_at r i) j"
      by (auto simp: word_meets bit_and_iff)
    have "i < 1024" using ij(2) word_index_less [of "rend r"] by linarith
    then have "64 * i + j \<in> run_set r \<inter> bits_set ws"
      using ij bit_run_mask_at [of r i j] r assms(2) by (simp add: run_ok_def run_set_def mem_bits_set_join)
    then show "run_set r \<inter> bits_set ws \<noteq> {}" by blast
  next
    assume "run_set r \<inter> bits_set ws \<noteq> {}"
    then obtain v where v: "v \<in> run_set r" "v \<in> bits_set ws" by blast
    have i: "word_index (rbegin r) \<le> v div 64" "v div 64 \<le> word_index (rend r)"
      using v(1) by (auto simp: run_set_def word_index_div intro: div_le_mono)
    have "bit (run_mask_at r (v div 64)) (v mod 64)"
      using bit_run_mask_at [OF _ i, of "v mod 64"] v(1) r by (simp add: run_ok_def run_set_def)
    then have "ws ! (v div 64) AND run_mask_at r (v div 64) \<noteq> 0"
      unfolding word_meets using v(2) by (intro exI [of _ "v mod 64"]) (simp add: mem_bits_set bit_and_iff)
    then show "\<exists>i\<in>{word_index (rbegin r)..word_index (rend r)}. ws ! i AND run_mask_at r i \<noteq> 0" using i by auto
  qed
  have masked: "(let word = ws ! i in word \<noteq> 0 \<and>
           (let word = (if i = word_index (rbegin r) then word AND push_bit (bit_index (rbegin r)) (- 1) else word);
                word = (if i = word_index (rend r) \<and> bit_index (rend r) \<noteq> 63
                        then word AND (push_bit (bit_index (rend r) + 1) 1 - 1) else word)
            in word \<noteq> 0)) \<longleftrightarrow> ws ! i AND run_mask_at r i \<noteq> 0" for r i
    by (auto simp: run_mask_at_def Let_def and.assoc)
  have upto: "set [i..<j + 1] = {i..j}" for i j :: nat by auto
  have "run_meets_words rs ws \<longleftrightarrow>
      (\<exists>r\<in>set rs. \<exists>i\<in>{word_index (rbegin r)..word_index (rend r)}. ws ! i AND run_mask_at r i \<noteq> 0)"
    unfolding run_meets_words_def masked list_ex_iff upto by (rule refl)
  also have "\<dots> \<longleftrightarrow> (\<exists>r\<in>set rs. run_set r \<inter> bits_set ws \<noteq> {})"
    using one assms(1) by (intro bex_cong) (auto simp: wf_runs_def)
  also have "\<dots> \<longleftrightarrow> runs_set rs \<inter> bits_set ws \<noteq> {}" by (auto simp: runs_set_def)
  finally show ?thesis .
qed

theorem container_intersects_correct:
  assumes "wf_container lhs" "wf_container rhs"
  shows "container_intersects lhs rhs \<longleftrightarrow> values_of lhs \<inter> values_of rhs \<noteq> {}"
proof -
  note l = payload_wf [OF assms(1)] and r = payload_wf [OF assms(2)]
  have tests: "list_ex (\<lambda>v. container_contains rhs v) vs \<longleftrightarrow> array_set vs \<inter> values_of rhs \<noteq> {}"
    "list_ex (\<lambda>v. container_contains lhs v) vs \<longleftrightarrow> values_of lhs \<inter> array_set vs \<noteq> {}" for vs
    using assms by (auto simp: container_contains_correct list_ex_iff array_set_def)
  have words: "list_ex (\<lambda>i. ws ! i AND us ! i \<noteq> 0) [0..<1024] \<longleftrightarrow> bits_set ws \<inter> bits_set us \<noteq> {}"
    if "length ws = 1024" "length us = 1024" for ws us :: "word64 list"
  proof
    assume "list_ex (\<lambda>i. ws ! i AND us ! i \<noteq> 0) [0..<1024]"
    then obtain i j where "i < 1024" "j < 64" "bit (ws ! i) j" "bit (us ! i) j"
      by (auto simp: list_ex_iff word_meets bit_and_iff)
    then have "64 * i + j \<in> bits_set ws \<inter> bits_set us" using that by (simp add: mem_bits_set_join)
    then show "bits_set ws \<inter> bits_set us \<noteq> {}" by blast
  next
    assume "bits_set ws \<inter> bits_set us \<noteq> {}"
    then obtain v where "v \<in> bits_set ws" "v \<in> bits_set us" by blast
    then have "v div 64 < 1024" "ws ! (v div 64) AND us ! (v div 64) \<noteq> 0"
      unfolding word_meets using that by (auto simp: mem_bits_set bit_and_iff intro!: exI [of _ "v mod 64"])
    then show "list_ex (\<lambda>i. ws ! i AND us ! i \<noteq> 0) [0..<1024]" by (auto simp: list_ex_iff)
  qed
  have swap: "values_of rhs \<inter> values_of lhs = values_of lhs \<inter> values_of rhs" by blast
  show ?thesis
    using l r tests arrays_meet_correct runs_meet_correct run_meets_words_correct words swap
    by (cases "payload lhs"; cases "payload rhs") (simp_all add: container_intersects_def)
qed

subsection \<open>The count is that of the intersection\<close>

lemma card_filter_runs: "strict keys \<Longrightarrow> length (filter (\<lambda>v. unat v \<in> S) keys) = card (array_set keys \<inter> S)"
proof -
  assume "strict keys"
  then have "card (array_set (filter (\<lambda>v. unat v \<in> S) keys)) = length (filter (\<lambda>v. unat v \<in> S) keys)"
    by (intro card_array_set) (simp add: sorted_wrt_filter)
  moreover have "array_set (filter (\<lambda>v. unat v \<in> S) keys) = array_set keys \<inter> S" by (auto simp: array_set_def)
  ultimately show ?thesis by simp
qed

lemma count_array_walk_filter:
  assumes "strict keys"
  shows "ap \<le> length keys \<Longrightarrow>
    count_array_walk keys rs ap i (n + length out) = map_option (\<lambda>vs. n + length vs) (filter_run_loop True Per_value keys rs ap i out)"
proof (induction "length keys - ap" arbitrary: ap i out rule: less_induct)
  case less
  note unf = count_array_walk.simps [of keys rs ap i] filter_run_loop.simps [of True Per_value keys rs ap i]
  define v where "v = keys ! ap"
  define j where "j = run_reaching (\<lambda>r. rend r < v) rs i"
  show ?case
  proof (cases "ap < length keys \<and> j \<noteq> length rs")
    case False
    then show ?thesis unfolding unf Let_def v_def [symmetric] j_def [symmetric] by auto
  next
    case True
    then have ap: "ap < length keys" and j: "j \<noteq> length rs" by simp_all
    note unf = unf [unfolded Let_def, folded v_def, folded j_def, unfolded if_P [OF ap] if_not_P [OF j]]
    show ?thesis
    proof (cases "rbegin (rs ! j) \<le> v")
      case inside: True
      have "count_array_walk keys rs (ap + 1) j (n + length (out @ [v])) =
          map_option (\<lambda>vs. n + length vs) (filter_run_loop True Per_value keys rs (ap + 1) j (out @ [v]))"
        using ap by (intro less.hyps) auto
      then show ?thesis unfolding unf if_P [OF inside] by simp
    next
      case outside: False
      let ?m = "gallop_forward (\<lambda>x. x < rbegin (rs ! j)) keys ap"
      have m: "?m = seek (\<lambda>x. x < rbegin (rs ! j)) keys ap"
        by (rule array_from.gallop_forward_seek [OF assms less.prems])
      have below: "keys ! ap < rbegin (rs ! j)" using outside by (simp only: v_def not_le)
      have "ap < ?m" "?m \<le> length keys" unfolding m by (rule seek_moves [where p = "\<lambda>x. x < rbegin (rs ! j)", OF ap below])+
      then have "count_array_walk keys rs ?m j (n + length out) =
          map_option (\<lambda>vs. n + length vs) (filter_run_loop True Per_value keys rs ?m j out)"
        using ap by (intro less.hyps) auto
      then show ?thesis unfolding unf if_not_P [OF outside] by (simp only: if_True)
    qed
  qed
qed

lemma count_few_runs_correct:
  assumes "strict keys" "wf_runs rs" "ap \<le> length keys"
  shows "count_few_runs keys ap rs count = count + length (filter (\<lambda>v. unat v \<in> runs_set rs) (drop ap keys))"
  using assms(2,3)
proof (induction rs arbitrary: ap count)
  case (Cons r rs)
  define m where "m = gallop_forward (\<lambda>x. x < rbegin r) keys ap"
  define q where "q = gallop_forward (\<lambda>x. x \<le> rend r) keys m"
  have m: "m = seek (\<lambda>x. x < rbegin r) keys ap"
    unfolding m_def by (rule array_from.gallop_forward_seek [OF assms(1) Cons.prems(2)])
  note ms = seek_parts [where p = "\<lambda>x. x < rbegin r" and xs = keys and lo = ap, folded m]
  have m_le: "m \<le> length keys" by (rule ms(1) [OF Cons.prems(2)])
  have q: "q = seek (\<lambda>x. x \<le> rend r) keys m"
    unfolding q_def by (rule array_past.gallop_forward_seek [OF assms(1) m_le])
  note qs = seek_parts [where p = "\<lambda>x. x \<le> rend r" and xs = keys and lo = m, folded q]
  have q_le: "q \<le> length keys" by (rule qs(1) [OF m_le])
  have r: "run_ok r" "wf_runs rs" using Cons.prems(1) by (simp_all add: wf_runs_Cons)
  have gap: "unat (rend r) + 1 < y" if "y \<in> runs_set rs" for y by (rule runs_set_Cons_gap [OF Cons.prems(1) that])
  let ?P = "\<lambda>v. unat v \<in> runs_set (r # rs)"
  have "(unat x \<in> runs_set (r # rs)) = False" if x: "x \<in> set (passed keys ap m)" for x
  proof -
    obtain k where "ap \<le> k" "k < m" "x = keys ! k" using passed_mem [OF assms(1) ms(2) m_le x] by blast
    then have "unat x < unat (rbegin r)" using ms(3) by (simp add: word_less_nat_alt)
    then show ?thesis using gap [of "unat x"] r(1) by (auto simp: run_set_def run_ok_unat)
  qed
  then have before: "filter ?P (drop ap keys) = filter ?P (drop m keys)"
    using filter_drop_passed [OF ms(2), of keys ?P False] by simp
  show ?case
  proof (cases "m = length keys")
    case True
    then show ?thesis using before by (simp add: Let_def flip: m_def)
  next
    case False
    have lower: "rbegin r \<le> x" if x: "x \<in> set (drop m keys)" for x
    proof -
      obtain k where k: "m + k < length keys" "x = keys ! (m + k)" using in_set_drop_nth [OF x] by blast
      have "rbegin r \<le> keys ! m" using ms(4) [OF Cons.prems(2)] False m_le by simp
      also have "\<dots> \<le> x" using strict_nth_mono [OF assms(1), of m "m + k"] k by simp
      finally show ?thesis .
    qed
    have "(unat x \<in> runs_set (r # rs)) = True" if x: "x \<in> set (passed keys m q)" for x
    proof -
      obtain k where k: "m \<le> k" "k < q" "x = keys ! k" using passed_mem [OF assms(1) qs(2) q_le x] by blast
      then have "x \<le> rend r" using qs(3) by simp
      moreover have "rbegin r \<le> x" using lower x by (auto simp: passed_def dest: in_set_takeD)
      ultimately show ?thesis by (simp add: run_set_def word_le_nat_alt)
    qed
    then have inside: "filter ?P (drop m keys) = passed keys m q @ filter ?P (drop q keys)"
      using filter_drop_passed [OF qs(2), of keys ?P True] by simp
    have "?P x = (unat x \<in> runs_set rs)" if x: "x \<in> set (drop q keys)" for x
    proof -
      obtain k where k: "q + k < length keys" "x = keys ! (q + k)" using in_set_drop_nth [OF x] by blast
      have "rend r < keys ! q" using qs(4) [OF m_le] k(1) by simp
      also have "\<dots> \<le> x" using strict_nth_mono [OF assms(1), of q "q + k"] k by simp
      finally show ?thesis by (simp add: run_set_def word_less_nat_alt)
    qed
    then have after: "filter ?P (drop q keys) = filter (\<lambda>v. unat v \<in> runs_set rs) (drop q keys)" by (rule filter_cong [OF refl])
    have "count_few_runs keys ap (r # rs) count = count_few_runs keys q rs (count + (q - m))"
      using False by (simp add: Let_def flip: m_def q_def)
    also have "\<dots> = count + (q - m) + length (filter (\<lambda>v. unat v \<in> runs_set rs) (drop q keys))"
      by (rule Cons.IH [OF r(2) q_le])
    also have "\<dots> = count + length (filter ?P (drop ap keys))"
      unfolding before inside after using q_le qs(2) by (simp add: passed_def)
    finally show ?thesis .
  qed
qed simp

lemma count_array_run_correct:
  assumes "strict keys" "wf_runs rs"
  shows "count_array_run keys rs = Some (card (array_set keys \<inter> runs_set rs))"
proof (cases "rs = []")
  case False
  have few: "count_few_runs keys 0 rs 0 = card (array_set keys \<inter> runs_set rs)"
    using count_few_runs_correct [OF assms, of 0 0] card_filter_runs [OF assms(1)] by simp
  have "filter_run_loop True Per_value keys rs 0 0 [] = Some (filter (\<lambda>v. unat v \<in> runs_set rs) keys)"
    using filter_run_loop_correct [OF assms(2,1), of 0 0 True Per_value "[]"] by (simp add: run_cursor_def)
  then have "count_array_walk keys rs 0 0 0 = Some (card (array_set keys \<inter> runs_set rs))"
    using count_array_walk_filter [OF assms(1), of 0 rs 0 0 "[]"] card_filter_runs [OF assms(1)] by simp
  then show ?thesis using few False by (simp add: count_array_run_def)
qed (simp add: count_array_run_def)

lemma count_array_bitset_correct:
  assumes "strict keys" "length words = 1024"
  shows "count_array_bitset keys words = card (array_set keys \<inter> bits_set words)"
proof -
  have "unat (drop_bit (bit_index v) (words ! word_index v) AND 1) = of_bool (unat v \<in> bits_set words)" for v
    using assms(2) by (simp add: mem_bits_set_low bit_iff_and_drop_bit_eq_1 [of _ "bit_index v"])
      (simp add: and_one_eq odd_iff_mod_2_eq_one)
  then have "count_array_bitset keys words = length (filter (\<lambda>v. unat v \<in> bits_set words) keys)"
    unfolding count_array_bitset_def fold_add_sum_list by (induction keys) simp_all
  then show ?thesis using card_filter_runs [OF assms(1)] by simp
qed

text \<open>A range's bits counted word by word under masks that cover it.\<close>

lemma popcount_masks:
  assumes "covers_range b e ms" "e < 64 * length words"
  shows "sum_list (map (\<lambda>(i, m). popcount (words ! i AND m)) ms) = card (bits_set words \<inter> {b..e})"
proof -
  let ?part = "\<lambda>(i, m). (\<lambda>j. 64 * i + j) ` {j. bit (words ! i AND m) j}"
  have ms: "distinct (map fst ms)" "fst ` set ms = {b div 64..e div 64}"
    "\<And>i m j. (i, m) \<in> set ms \<Longrightarrow> j < 64 \<Longrightarrow> bit m j \<longleftrightarrow> b \<le> 64 * i + j \<and> 64 * i + j \<le> e"
    using assms(1) by (auto simp: covers_range_def)
  have len: "i < length words" if "(i, m) \<in> set ms" for i m
  proof -
    have "i \<le> e div 64" using ms(2) that by (metis atLeastAtMost_iff fst_conv image_eqI)
    then show ?thesis using assms(2) by (simp add: less_mult_imp_div_less mult.commute order_le_less_trans)
  qed
  have parts: "bits_set words \<inter> {b..e} = (\<Union>p\<in>set ms. ?part p)"
  proof (intro set_eqI iffI)
    fix v assume v: "v \<in> bits_set words \<inter> {b..e}"
    then have "v div 64 \<in> fst ` set ms" unfolding ms(2) by (auto intro: div_le_mono)
    then obtain m where m: "(v div 64, m) \<in> set ms" by auto
    then have "bit m (v mod 64)" using ms(3) [OF m, of "v mod 64"] v by simp
    then have "v \<in> ?part (v div 64, m)"
      using v by (auto simp: mem_bits_set bit_and_iff image_iff intro!: exI [of _ "v mod 64"])
    then show "v \<in> (\<Union>p\<in>set ms. ?part p)" using m by blast
  next
    fix v assume "v \<in> (\<Union>p\<in>set ms. ?part p)"
    then obtain i m j where "(i, m) \<in> set ms" "bit (words ! i) j" "bit m j" "v = 64 * i + j" by (auto simp: bit_and_iff)
    then show "v \<in> bits_set words \<inter> {b..e}"
      using ms(3) [of i m j] len [of i m] bit_less_64 [of m j] by (simp add: mem_bits_set_join)
  qed
  have "card (\<Union>p\<in>set ms. ?part p) = (\<Sum>p\<in>set ms. card (?part p))"
  proof (rule card_UN_disjoint)
    show "\<forall>p\<in>set ms. \<forall>q\<in>set ms. p \<noteq> q \<longrightarrow> ?part p \<inter> ?part q = {}"
    proof (intro ballI impI)
      fix p q assume pq: "p \<in> set ms" "q \<in> set ms" "p \<noteq> q"
      then have "fst p \<noteq> fst q" using ms(1) by (metis distinct_map inj_onD)
      then show "?part p \<inter> ?part q = {}"
        by (cases p; cases q) (auto simp: bit_and_iff dest!: bit_less_64)
    qed
  qed (auto simp: finite_bits)
  also have "\<dots> = (\<Sum>p\<in>set ms. popcount (words ! fst p AND snd p))"
    by (rule sum.cong) (auto simp: popcount_card card_image inj_on_def)
  also have "\<dots> = sum_list (map (\<lambda>p. popcount (words ! fst p AND snd p)) ms)"
    using ms(1) by (intro sum_list_distinct_conv_sum_set [symmetric]) (simp add: distinct_map)
  finally show ?thesis unfolding parts by (simp add: case_prod_unfold)
qed

lemma bits_in_range_correct:
  assumes "b \<le> e" "e < 64 * length words"
  shows "bits_in_range words b e = card (bits_set words \<inter> {b..e})"
proof -
  have "e div 64 < length words" using assms(2) by (simp add: less_mult_imp_div_less mult.commute)
  then have "take (e div 64 - b div 64 - 1) (drop (b div 64 + 1) words) = map (\<lambda>i. words ! i) [b div 64 + 1..<e div 64]"
    by (intro nth_equalityI) (auto simp: nth_drop nth_upt)
  then have "bits_in_range words b e = sum_list (map (\<lambda>(i, m). popcount (words ! i AND m))
      (range_masks (b div 64) (e div 64) (push_bit (b mod 64) (- 1)) (drop_bit (63 - e mod 64) (- 1))))"
    by (simp add: bits_in_range_def range_masks_def popcount_words_def fold_add_sum_list comp_def Let_def and.assoc)
  then show ?thesis using popcount_masks [OF covers_shift_masks [OF assms(1)] assms(2)] by simp
qed

lemma count_runs_bitset_correct:
  assumes "wf_runs rs" "length words = 1024"
  shows "fold (\<lambda>r count. count + bits_in_range words (unat (rbegin r)) (unat (rend r))) rs 0 = card (runs_set rs \<inter> bits_set words)"
  unfolding fold_add_sum_list using assms(1)
proof (induction rs)
  case (Cons r rs)
  have r: "run_ok r" "wf_runs rs" using Cons.prems by (simp_all add: wf_runs_Cons)
  have "unat (rend r) < 64 * length words" using assms(2) unat_low_less [of "rend r"] by simp
  then have "bits_in_range words (unat (rbegin r)) (unat (rend r)) = card (run_set r \<inter> bits_set words)"
    using bits_in_range_correct [of "unat (rbegin r)" "unat (rend r)" words] r(1)
    by (simp add: run_ok_unat run_set_def Int_commute)
  moreover have "run_set r \<inter> runs_set rs = {}"
    using runs_set_Cons_gap [OF Cons.prems] by (fastforce simp: run_set_def)
  then have "card ((run_set r \<inter> bits_set words) \<union> (runs_set rs \<inter> bits_set words)) =
      card (run_set r \<inter> bits_set words) + card (runs_set rs \<inter> bits_set words)"
    by (intro card_Un_disjoint) (auto simp: finite_runs_set)
  moreover have "runs_set (r # rs) \<inter> bits_set words = (run_set r \<inter> bits_set words) \<union> (runs_set rs \<inter> bits_set words)"
    by auto
  ultimately show ?case using Cons.IH [OF r(2)] by simp
qed simp

theorem container_intersect_cardinality_correct:
  assumes "wf_container lhs" "wf_container rhs"
  shows "container_intersect_cardinality lhs rhs =
    Some (if holds_array lhs \<and> holds_array rhs then 0 else card (values_of lhs \<inter> values_of rhs))"
proof -
  note l = payload_wf [OF assms(1)] and r = payload_wf [OF assms(2)]
  have swap: "values_of rhs \<inter> values_of lhs = values_of lhs \<inter> values_of rhs" by blast
  have forms: "holds_array h \<longleftrightarrow> (\<exists>vs. payload h = Array_payload vs)" for h
    by (auto simp: holds_array_def kind_def split: payload.splits)
  show ?thesis
    using l r count_array_run_correct count_array_bitset_correct intersect_runs_cardinality_correct
      count_runs_bitset_correct and_popcount_words_card swap
    by (cases "payload lhs"; cases "payload rhs") (simp_all add: container_intersect_cardinality_def forms)
qed

end
