(* ===== verification/Container_Decode.thy ===== *)
theory Container_Decode
  imports Container_Ops Layout
begin

text \<open>
  The values of a container written into a caller's buffer as full 32-bit keys (\<open>container_decode_into\<close> of
  \<open>container_ops.hpp\<close>, \<open>extract_setbits_uint32\<close> of \<open>bitset_ops.hpp\<close>). The buffer is a list and the output pointer an
  index into it. A store past its end is \<open>None\<close>, so that a result is also the safety of the stores: the byte-wise
  decoder writes eight lanes at a time, most of them garbage the next store covers.
\<close>

subsection \<open>Stores\<close>

definition store_lanes :: "nat \<Rightarrow> key32 list \<Rightarrow> key32 list \<Rightarrow> key32 list option" where
  "store_lanes out vs buf =
    (if out + length vs \<le> length buf then Some (take out buf @ vs @ drop (out + length vs) buf) else None)"

definition setbit_decode_entry :: "8 word \<Rightarrow> nat list" where
  "setbit_decode_entry value =
    fst (fold (\<lambda>b (table, pos). if value AND push_bit b 1 \<noteq> 0 then (table[pos := b], pos + 1) else (table, pos))
           [0..<8] (replicate 8 0, 0))"

text \<open>All eight base lanes hold the same number.\<close>

definition decode_byte :: "word64 \<Rightarrow> nat \<Rightarrow> key32 list \<times> nat \<times> key32 \<Rightarrow> (key32 list \<times> nat \<times> key32) option" where
  "decode_byte word byte_index s =
    (case s of (buf, out, base_lane) \<Rightarrow>
       let byte = ucast (drop_bit (8 * byte_index) word) :: 8 word;
           lanes = map (\<lambda>p. base_lane + of_nat p) (setbit_decode_entry byte)
       in map_option (\<lambda>buf. (buf, out + popcount (ucast byte), base_lane + 8)) (store_lanes out lanes buf))"

definition decode_word :: "word64 \<Rightarrow> key32 list \<times> nat \<times> key32 \<Rightarrow> (key32 list \<times> nat \<times> key32) option" where
  "decode_word word s = fold (\<lambda>byte_index s. Option.bind s (decode_byte word byte_index)) [0..<8] (Some s)"

text \<open>The words left where the buffer has fewer than 64 entries to spare, with the state there.\<close>

fun decode_words :: "word64 list \<Rightarrow> key32 list \<times> nat \<times> key32 \<Rightarrow> (word64 list \<times> key32 list \<times> nat \<times> key32) option" where
  "decode_words [] s = Some ([], s)"
| "decode_words (word # words) (buf, out, base_lane) =
    (if out + 64 \<le> length buf then
       (if word = 0 then decode_words words (buf, out, base_lane + 64)
        else Option.bind (decode_word word (buf, out, base_lane)) (decode_words words))
     else Some (word # words, buf, out, base_lane))"

function scalar_word :: "key32 \<Rightarrow> word64 \<Rightarrow> key32 list \<Rightarrow> nat \<Rightarrow> key32 list \<times> nat" where
  "scalar_word value_base word buf out =
    (if word \<noteq> 0 \<and> out < length buf
     then scalar_word value_base (word AND (word - 1)) (buf[out := value_base + of_nat (countr_zero word)]) (out + 1)
     else (buf, out))"
  by pat_completeness auto
termination
  by (relation "measure (\<lambda>(value_base, word, buf, out). length buf - out)") auto

declare scalar_word.simps [simp del]

fun scalar_words :: "word64 list \<Rightarrow> key32 \<Rightarrow> key32 list \<Rightarrow> nat \<Rightarrow> key32 list \<times> nat" where
  "scalar_words [] value_base buf out = (buf, out)"
| "scalar_words (word # words) value_base buf out =
    (if out < length buf then
       (let (buf, out) = scalar_word value_base word buf out in scalar_words words (value_base + 64) buf out)
     else (buf, out))"

definition extract_setbits_uint32 :: "word64 list \<Rightarrow> key32 list \<Rightarrow> nat \<Rightarrow> key32 \<Rightarrow> (key32 list \<times> nat) option" where
  "extract_setbits_uint32 words buf out base =
    map_option (\<lambda>(rest, buf, out, base_lanes). scalar_words rest (base + of_nat ((length words - length rest) * 64)) buf out)
      (decode_words words (buf, out, base))"

definition decode_run :: "key32 \<Rightarrow> run \<Rightarrow> key32 list \<times> nat \<Rightarrow> (key32 list \<times> nat) option" where
  "decode_run base r s =
    (case s of (buf, out) \<Rightarrow>
       let first = base + ucast (rbegin r); count = unat (rend r) - unat (rbegin r) + 1
       in map_option (\<lambda>buf. (buf, out + count)) (store_lanes out (map (\<lambda>i. first + of_nat i) [0..<count]) buf))"

definition container_decode_into :: "container \<Rightarrow> 16 word \<Rightarrow> key32 list \<Rightarrow> nat \<Rightarrow> (key32 list \<times> nat) option" where
  "container_decode_into h chunk buf out =
    (let base = compose32 chunk 0
     in case kind h of
          Array_kind \<Rightarrow>
            (let source = array_values h; count = length source
             in map_option (\<lambda>buf. (buf, out + count)) (store_lanes out (map (\<lambda>v. base + ucast v) source) buf))
        | Run_kind \<Rightarrow> fold (\<lambda>r s. Option.bind s (decode_run base r)) (run_list h) (Some (buf, out))
        | Bitset_kind \<Rightarrow> extract_setbits_uint32 (bitset_words h) buf out base)"

subsection \<open>What a sequence of stores leaves\<close>

text \<open>\<open>writes out vs buf buf'\<close>: \<open>vs\<close> stands in \<open>buf'\<close> from index \<open>out\<close>, nothing before it changed, and the
  buffer kept its length.\<close>

definition writes :: "nat \<Rightarrow> key32 list \<Rightarrow> key32 list \<Rightarrow> key32 list \<Rightarrow> bool" where
  "writes out vs buf buf' \<longleftrightarrow> out + length vs \<le> length buf \<and> length buf' = length buf \<and>
     take (out + length vs) buf' = take out buf @ vs"

lemma writes_Nil: "out \<le> length buf \<Longrightarrow> writes out [] buf buf"
  by (simp add: writes_def)

lemma writes_append:
  assumes "writes out vs a b" "writes (out + length vs) us b c"
  shows "writes out (vs @ us) a c"
  using assms by (simp add: writes_def add.assoc)

lemma writes_store:
  assumes "out + length vs \<le> length buf"
  shows "\<exists>buf'. store_lanes out vs buf = Some buf' \<and> writes out vs buf buf'"
  using assms by (simp add: store_lanes_def writes_def)

lemma writes_prefix: "writes out (vs @ us) a b \<Longrightarrow> writes out vs a b"
  unfolding writes_def
  by (auto simp: take_add [symmetric] dest: arg_cong [where f = "take (out + length vs)"])

subsection \<open>Eight lanes at a time\<close>

lemma decode_entry:
  "setbit_decode_entry byte = filter (bit byte) [0..<8] @ replicate (8 - length (filter (bit byte) [0..<8])) 0"
proof -
  have test: "byte AND 2 ^ b \<noteq> 0 \<longleftrightarrow> bit byte b" for b
    by (simp add: and_exp_eq_0_iff_not_bit)
  have "fold (\<lambda>b (table, pos). if byte AND push_bit b 1 \<noteq> 0 then (table[pos := b], pos + 1) else (table, pos))
      [0..<k] (replicate 8 0, 0) =
      (filter (bit byte) [0..<k] @ replicate (8 - length (filter (bit byte) [0..<k])) 0, length (filter (bit byte) [0..<k]))"
    if "k \<le> 8" for k
    using that
  proof (induction k)
    case (Suc k)
    have "length (filter (bit byte) [0..<k]) \<le> k" using length_filter_le [of "bit byte" "[0..<k]"] by simp
    then have "length (filter (bit byte) [0..<k]) < 8" using Suc.prems by simp
    then have "(replicate (8 - length (filter (bit byte) [0..<k])) 0)[0 := k] =
        k # replicate (8 - length (filter (bit byte) [0..<k]) - 1) (0 :: nat)"
      by (cases "8 - length (filter (bit byte) [0..<k])") simp_all
    then show ?case using Suc by (simp add: test [simplified] push_bit_eq_mult and_exp_eq_0_iff_not_bit list_update_append)
  qed simp
  from this [of 8] show ?thesis by (simp add: setbit_decode_entry_def)
qed

lemma decode_byte_correct:
  fixes word :: word64
  assumes "i < 8" "out + 8 \<le> length buf"
  defines "ps \<equiv> filter (\<lambda>p. bit word (8 * i + p)) [0..<8]"
  shows "\<exists>buf'. decode_byte word i (buf, out, lane) = Some (buf', out + length ps, lane + 8) \<and>
    writes out (map (\<lambda>p. lane + of_nat p) ps) buf buf'"
proof -
  define byte where "byte = (ucast (drop_bit (8 * i) word) :: 8 word)"
  have bit: "bit byte p \<longleftrightarrow> p < 8 \<and> bit word (8 * i + p)" for p
    by (auto simp: byte_def bit_ucast_iff bit_drop_bit_eq)
  have ps: "filter (bit byte) [0..<8] = ps" unfolding ps_def by (rule filter_cong) (simp_all add: bit)
  have le: "length ps \<le> 8" using length_filter_le [of "\<lambda>p. bit word (8 * i + p)" "[0..<8]"] by (simp add: ps_def)
  have "{j. bit (ucast byte :: word64) j} = set ps" by (auto simp: ps_def bit_ucast_iff bit)
  moreover have "distinct ps" by (simp add: ps_def)
  ultimately have pop: "popcount (ucast byte) = length ps" by (simp add: popcount_card distinct_card)
  let ?lanes = "map (\<lambda>p. lane + of_nat p) (setbit_decode_entry byte)"
  have lanes: "?lanes = map (\<lambda>p. lane + of_nat p) ps @ replicate (8 - length ps) lane"
    by (simp add: decode_entry ps)
  then have "length ?lanes = 8" using le by simp
  then obtain buf' where b: "store_lanes out ?lanes buf = Some buf'" "writes out ?lanes buf buf'"
    using writes_store assms(2) by metis
  from b(2) have "writes out (map (\<lambda>p. lane + of_nat p) ps) buf buf'" unfolding lanes by (rule writes_prefix)
  then show ?thesis using b(1) pop by (simp add: decode_byte_def Let_def byte_def)
qed

lemma decode_word_correct:
  assumes "out + 64 \<le> length buf"
  shows "\<exists>buf'. decode_word word (buf, out, lane) = Some (buf', out + length (bit_positions word), lane + 64) \<and>
    writes out (map (\<lambda>p. lane + of_nat p) (bit_positions word)) buf buf'"
proof -
  let ?ps = "\<lambda>k. filter (bit word) [0..<8 * k]"
  have "\<exists>buf'. fold (\<lambda>i s. Option.bind s (decode_byte word i)) [0..<k] (Some (buf, out, lane)) =
        Some (buf', out + length (?ps k), lane + of_nat (8 * k)) \<and> writes out (map (\<lambda>p. lane + of_nat p) (?ps k)) buf buf'"
    if "k \<le> 8" for k
    using that
  proof (induction k)
    case 0
    then show ?case using assms by (simp add: writes_Nil)
  next
    case (Suc k)
    then obtain b where b: "fold (\<lambda>i s. Option.bind s (decode_byte word i)) [0..<k] (Some (buf, out, lane)) =
        Some (b, out + length (?ps k), lane + of_nat (8 * k))" "writes out (map (\<lambda>p. lane + of_nat p) (?ps k)) buf b" by auto
    have "length (?ps k) \<le> 8 * k" using length_filter_le [of "bit word" "[0..<8 * k]"] by simp
    then have room: "out + length (?ps k) + 8 \<le> length b" using Suc.prems assms b(2) by (simp add: writes_def)
    define qs where "qs = filter (\<lambda>p. bit word (8 * k + p)) [0..<8]"
    have "[0..<8 * Suc k] = [0..<8 * k] @ map ((+) (8 * k)) [0..<8]"
      by (rule nth_equalityI) (auto simp: nth_append nth_upt)
    then have ps: "?ps (Suc k) = ?ps k @ map ((+) (8 * k)) qs" by (simp add: filter_map comp_def qs_def)
    obtain c where c: "decode_byte word k (b, out + length (?ps k), lane + of_nat (8 * k)) =
        Some (c, out + length (?ps k) + length qs, lane + of_nat (8 * k) + 8)"
      "writes (out + length (?ps k)) (map (\<lambda>p. lane + of_nat (8 * k) + of_nat p) qs) b c"
      using decode_byte_correct [of k "out + length (?ps k)" b word "lane + of_nat (8 * k)"] Suc.prems room
      by (auto simp: qs_def)
    have "writes out (map (\<lambda>p. lane + of_nat p) (?ps k) @ map (\<lambda>p. lane + of_nat (8 * k) + of_nat p) qs) buf c"
      using writes_append [OF b(2)] c(2) by simp
    moreover have "map (\<lambda>p. lane + of_nat p) (?ps (Suc k)) =
        map (\<lambda>p. lane + of_nat p) (?ps k) @ map (\<lambda>p. lane + of_nat (8 * k) + of_nat p) qs"
      unfolding ps by (simp add: comp_def algebra_simps)
    ultimately show ?case using b(1) c(1) ps by (simp add: algebra_simps comp_def)
  qed
  from this [of 8] show ?thesis by (simp add: decode_word_def bit_positions_def)
qed

subsection \<open>All the words\<close>

definition word_keys :: "key32 \<Rightarrow> word64 list \<Rightarrow> key32 list" where
  "word_keys base ws = map (\<lambda>v. base + of_nat v) (bits_list ws)"

lemma bits_list_Cons: "bits_list (w # ws) = bit_positions w @ map ((+) 64) (bits_list ws)"
proof -
  have "[0..<length (w # ws)] = 0 # map Suc [0..<length ws]"
    unfolding map_Suc_upt length_Cons by (rule upt_conv_Cons) simp
  moreover have "(+) (64 * Suc i) = (\<lambda>x. 64 + (64 * i + x))" for i :: nat by auto
  moreover have "map ((+) (64 * 0)) ps = ps" for ps :: "nat list" by (induction ps) simp_all
  ultimately show ?thesis
    unfolding bits_list_concat [symmetric] by (simp only: list.map map_map comp_def nth_Cons_0 nth_Cons_Suc concat.simps map_concat)
qed

lemma word_keys_Cons: "word_keys base (w # ws) = map (\<lambda>p. base + of_nat p) (bit_positions w) @ word_keys (base + 64) ws"
  by (simp add: word_keys_def bits_list_Cons comp_def algebra_simps)

lemma decode_words_correct:
  assumes "out + length (word_keys base ws) \<le> length buf"
  shows "\<exists>rest done buf'. ws = done @ rest \<and>
    decode_words ws (buf, out, base) = Some (rest, buf', out + length (word_keys base done), base + of_nat (64 * length done)) \<and>
    writes out (word_keys base done) buf buf'"
  using assms
proof (induction ws arbitrary: buf out base)
  case Nil
  then show ?case by (auto simp: word_keys_def bits_list_def writes_Nil)
next
  case (Cons w ws)
  show ?case
  proof (cases "out + 64 \<le> length buf")
    case False
    then show ?thesis
      using Cons.prems by (intro exI [of _ "w # ws"] exI [of _ "[]"] exI [of _ buf])
        (auto simp: word_keys_def bits_list_def writes_Nil)
  next
    case True
    have "\<exists>b. (if w = 0 then decode_words ws (buf, out, base + 64)
        else Option.bind (decode_word w (buf, out, base)) (decode_words ws)) =
        decode_words ws (b, out + length (bit_positions w), base + 64) \<and>
      writes out (map (\<lambda>p. base + of_nat p) (bit_positions w)) buf b"
    proof (cases "w = 0")
      case True
      then show ?thesis using Cons.prems by (auto simp: bit_positions_def writes_Nil)
    next
      case False
      then show ?thesis using decode_word_correct [OF True, of w base] by auto
    qed
    then obtain b where b: "decode_words (w # ws) (buf, out, base) = decode_words ws (b, out + length (bit_positions w), base + 64)"
      "writes out (map (\<lambda>p. base + of_nat p) (bit_positions w)) buf b" using True by auto
    have "out + length (bit_positions w) + length (word_keys (base + 64) ws) \<le> length b"
      using Cons.prems b(2) by (simp add: word_keys_Cons writes_def)
    from Cons.IH [OF this] obtain rest don c where c: "ws = don @ rest"
      "decode_words ws (b, out + length (bit_positions w), base + 64) =
        Some (rest, c, out + length (bit_positions w) + length (word_keys (base + 64) don), base + 64 + of_nat (64 * length don))"
      "writes (out + length (bit_positions w)) (word_keys (base + 64) don) b c" by blast
    have "writes out (word_keys base (w # don)) buf c"
      using writes_append [OF b(2)] c(3) by (simp add: word_keys_Cons)
    then show ?thesis
      using b(1) c(1,2) by (intro exI [of _ rest] exI [of _ "w # don"] exI [of _ c]) (simp add: word_keys_Cons algebra_simps)
  qed
qed

lemma scalar_word_correct:
  assumes "out + length (bit_positions w) \<le> length buf"
  shows "\<exists>buf'. scalar_word base w buf out = (buf', out + length (bit_positions w)) \<and>
    writes out (map (\<lambda>p. base + of_nat p) (bit_positions w)) buf buf'"
  using assms
proof (induction base w buf out rule: scalar_word.induct)
  case (1 base w buf out)
  show ?case
  proof (cases "w = 0")
    case True
    then show ?thesis using "1.prems" by (subst scalar_word.simps) (auto simp: bit_positions_def writes_Nil)
  next
    case False
    note ps = bit_positions_Cons [OF False]
    then have go: "w \<noteq> 0 \<and> out < length buf" using False "1.prems" by simp
    let ?b = "buf[out := base + of_nat (countr_zero w)]"
    have one: "writes out [base + of_nat (countr_zero w)] buf ?b"
      using go by (auto simp: writes_def take_Suc_conv_app_nth)
    obtain c where c: "scalar_word base (w AND (w - 1)) ?b (out + 1) = (c, out + 1 + length (bit_positions (w AND (w - 1))))"
      "writes (out + 1) (map (\<lambda>p. base + of_nat p) (bit_positions (w AND (w - 1)))) ?b c"
      using "1.IH" [OF go] "1.prems" ps by auto
    have "writes out ([base + of_nat (countr_zero w)] @ map (\<lambda>p. base + of_nat p) (bit_positions (w AND (w - 1)))) buf c"
      using writes_append [OF one] c(2) by simp
    then show ?thesis using c(1) go ps by (subst scalar_word.simps) simp
  qed
qed

lemma scalar_words_correct:
  assumes "out + length (word_keys base ws) \<le> length buf"
  shows "\<exists>buf'. scalar_words ws base buf out = (buf', out + length (word_keys base ws)) \<and> writes out (word_keys base ws) buf buf'"
  using assms
proof (induction ws arbitrary: base buf out)
  case Nil
  then show ?case by (simp add: word_keys_def bits_list_def writes_Nil)
next
  case (Cons w ws)
  show ?case
  proof (cases "out < length buf")
    case False
    then have "word_keys base (w # ws) = []" using Cons.prems by (cases "word_keys base (w # ws)") simp_all
    then show ?thesis using False Cons.prems by (simp add: writes_Nil)
  next
    case True
    have "out + length (bit_positions w) \<le> length buf" using Cons.prems by (simp add: word_keys_Cons)
    from scalar_word_correct [OF this] obtain b where b: "scalar_word base w buf out = (b, out + length (bit_positions w))"
      "writes out (map (\<lambda>p. base + of_nat p) (bit_positions w)) buf b" by blast
    have "out + length (bit_positions w) + length (word_keys (base + 64) ws) \<le> length b"
      using Cons.prems b(2) by (simp add: word_keys_Cons writes_def)
    from Cons.IH [OF this] obtain c where c:
      "scalar_words ws (base + 64) b (out + length (bit_positions w)) =
        (c, out + length (bit_positions w) + length (word_keys (base + 64) ws))"
      "writes (out + length (bit_positions w)) (word_keys (base + 64) ws) b c" by blast
    show ?thesis using writes_append [OF b(2)] b(1) c True by (simp add: word_keys_Cons add.assoc)
  qed
qed

lemma extract_setbits_uint32_correct:
  assumes "out + length (word_keys base ws) \<le> length buf"
  shows "\<exists>buf'. extract_setbits_uint32 ws buf out base = Some (buf', out + length (word_keys base ws)) \<and>
    writes out (word_keys base ws) buf buf'"
proof -
  obtain rest don b where b: "ws = don @ rest"
    "decode_words ws (buf, out, base) = Some (rest, b, out + length (word_keys base don), base + of_nat (64 * length don))"
    "writes out (word_keys base don) buf b" using decode_words_correct [OF assms] by blast
  have split: "word_keys base (don @ rest) = word_keys base don @ word_keys (base + of_nat (length don * 64)) rest" for don
    by (induction don arbitrary: base) (simp_all add: word_keys_Cons algebra_simps, simp add: word_keys_def bits_list_def)
  have "out + length (word_keys base don) + length (word_keys (base + of_nat (length don * 64)) rest) \<le> length b"
    using assms b(1,3) split by (simp add: writes_def)
  from scalar_words_correct [OF this] obtain c where c:
    "scalar_words rest (base + of_nat (length don * 64)) b (out + length (word_keys base don)) =
      (c, out + length (word_keys base don) + length (word_keys (base + of_nat (length don * 64)) rest))"
    "writes (out + length (word_keys base don)) (word_keys (base + of_nat (length don * 64)) rest) b c" by blast
  show ?thesis
    using writes_append [OF b(3) c(2)] b(1,2) c(1) split by (simp add: extract_setbits_uint32_def add.assoc)
qed

subsection \<open>The container\<close>

lemma compose_add: "compose32 c 0 + ucast v = compose32 c v"
proof -
  have "compose32 c 0 = push_bit 16 (ucast c)" by (simp add: compose32_def low_bits_def)
  moreover have "push_bit 16 (ucast c) AND (ucast v :: key32) = 0"
    by (rule bit_word_eqI) (auto simp: bit_simps dest: bit_imp_le_length)
  ultimately show ?thesis by (simp add: compose32_def low_bits_def disjunctive_add_eq_or)
qed

lemma compose_add_nat: "n < 65536 \<Longrightarrow> compose32 c 0 + of_nat n = compose32 c (of_nat n)"
  using compose_add [of c "of_nat n"] by (simp add: unsigned_of_nat take_bit_nat_eq_self)

theorem container_decode_into_correct:
  assumes "wf_container h" "out + card (values_of h) \<le> length buf"
  shows "\<exists>buf'. container_decode_into h chunk buf out = Some (buf', out + card (values_of h)) \<and>
    writes out (map (compose32 chunk) (container_values h)) buf buf'"
proof -
  have n: "card (values_of h) = length (container_values h)"
    using card_array_set container_values_correct [OF assms(1)] by metis
  show ?thesis
  proof (cases h rule: form_cases)
    case array
    then have v: "container_values h = array_values h" by (simp add: container_values_def)
    show ?thesis
      using writes_store [of out "map (\<lambda>v. compose32 chunk 0 + ucast v) (array_values h)" buf] assms(2) n v array
      by (auto simp: container_decode_into_def Let_def compose_add)
  next
    case bitset
    obtain ws where ws: "length ws = 1024" "bitset_words h = ws" using assms(1) bitset(1) by (rule wf_bitsetE)
    have "container_values h = map of_nat (bits_list ws)"
      using bitset ws by (simp add: container_values_def bitset_values_def values_from_words_eq)
    moreover have "word_keys (compose32 chunk 0) ws = map (compose32 chunk) (map of_nat (bits_list ws))"
      using bits_list_bound [OF ws(1)] by (simp add: word_keys_def compose_add_nat)
    ultimately show ?thesis
      using extract_setbits_uint32_correct [of out "compose32 chunk 0" ws buf] assms(2) n ws bitset
      by (simp add: container_decode_into_def Let_def)
  next
    case run
    obtain rs where rs: "wf_runs rs" "run_list h = rs" using assms(1) run(1) by (rule wf_runE)
    have v: "container_values h = runs_values rs" using run rs by (simp add: container_values_def)
    have "\<exists>buf'. fold (\<lambda>r s. Option.bind s (decode_run (compose32 chunk 0) r)) rs (Some (buf, out)) =
        Some (buf', out + length (runs_values rs)) \<and> writes out (map (compose32 chunk) (runs_values rs)) buf buf'"
      if "wf_runs rs" "out + length (runs_values rs) \<le> length buf" for rs buf out
      using that
    proof (induction rs arbitrary: buf out)
      case Nil
      then show ?case by (simp add: runs_values_def writes_Nil)
    next
      case (Cons r rs)
      have r: "run_ok r" "wf_runs rs" using Cons.prems(1) by (simp_all add: wf_runs_Cons)
      let ?n = "unat (rend r) - unat (rbegin r) + 1"
      have keys: "map (\<lambda>i. compose32 chunk 0 + ucast (rbegin r) + of_nat i) [0..<?n] = map (compose32 chunk) (run_values r)"
        (is "?keys = _")
      proof -
        have "unat (rbegin r) + i < 65536" if "i < ?n" for i
          using that r(1) unat_low_less [of "rend r"] unfolding run_ok_unat by linarith
        then have "?keys = map (compose32 chunk) (run_fill r)"
          using compose_add_nat [of "unat (rbegin r) + _" chunk] by (simp add: run_fill_def to_low_def add.assoc del: upt_Suc)
        then show ?thesis by (simp only: run_fill [OF r(1)])
      qed
      then have len: "length (run_values r) = ?n" by (metis length_map length_upt minus_nat.diff_0)
      have all: "runs_values (r # rs) = run_values r @ runs_values rs" by (simp add: runs_values_def)
      obtain b where b: "store_lanes out (map (compose32 chunk) (run_values r)) buf = Some b"
        "writes out (map (compose32 chunk) (run_values r)) buf b"
        using writes_store [of out "map (compose32 chunk) (run_values r)" buf] Cons.prems(2) all by auto
      have "decode_run (compose32 chunk 0) r (buf, out) = Some (b, out + length (run_values r))"
        using b(1) keys len by (simp add: decode_run_def Let_def)
      moreover have "out + length (run_values r) + length (runs_values rs) \<le> length b"
        using Cons.prems(2) b(2) all by (simp add: writes_def)
      from Cons.IH [OF r(2) this] obtain c where
        "fold (\<lambda>r s. Option.bind s (decode_run (compose32 chunk 0) r)) rs (Some (b, out + length (run_values r))) =
          Some (c, out + length (run_values r) + length (runs_values rs))"
        "writes (out + length (run_values r)) (map (compose32 chunk) (runs_values rs)) b c" by blast
      ultimately show ?case using writes_append [OF b(2)] all by (simp add: add.assoc)
    qed
    from this [OF rs(1)] show ?thesis
      using run rs(2) assms(2) n v by (simp add: container_decode_into_def Let_def)
  qed
qed

end
