(* ===== verification/Wire.thy ===== *)
theory Wire
  imports Exact_Counts Layout
begin

text \<open>
  The bytes of the portable format (\<open>serialization.hpp\<close>, namespace \<open>detail\<close>): numbers stored in little-endian order
  as the \<open>memcpy\<close> of a little-endian machine does, and readers that take bytes from the front of what is left.
\<close>

type_synonym byte = "8 word"

definition put_le :: "nat \<Rightarrow> 'a::len word \<Rightarrow> byte list" where
  "put_le n v = map (\<lambda>i. ucast (drop_bit (8 * i) v)) [0..<n]"

definition get_le :: "nat \<Rightarrow> byte list \<Rightarrow> 'a::len word" where
  "get_le n bs = fold (\<lambda>i v. v OR push_bit (8 * i) (ucast (bs ! i))) [0..<n] 0"

definition portable_put16 :: "16 word \<Rightarrow> byte list" where
  "portable_put16 v = put_le 2 v"

definition portable_put32 :: "32 word \<Rightarrow> byte list" where
  "portable_put32 v = put_le 4 v"

definition portable_get16 :: "byte list \<Rightarrow> 16 word" where
  "portable_get16 bs = get_le 2 bs"

definition portable_get32 :: "byte list \<Rightarrow> 32 word" where
  "portable_get32 bs = get_le 4 bs"

text \<open>The check \<open>available() < n\<close> and the advance of the cursor.\<close>

definition take_bytes :: "nat \<Rightarrow> byte list \<Rightarrow> (byte list \<times> byte list) option" where
  "take_bytes n bs = (if length bs < n then None else Some (take n bs, drop n bs))"

subsection \<open>Numbers come back\<close>

lemma length_put_le [simp]: "length (put_le n v) = n"
  by (simp add: put_le_def)

lemma length_portable_put [simp]: "length (portable_put16 v) = 2" "length (portable_put32 w) = 4"
  by (simp_all add: portable_put16_def portable_put32_def)

lemma bit_get_le:
  "bit (get_le n bs :: 'a::len word) k \<longleftrightarrow> k < LENGTH('a) \<and> k div 8 < n \<and> bit (bs ! (k div 8)) (k mod 8)"
proof -
  have "bit (fold (\<lambda>i v. v OR push_bit (8 * i) (ucast (bs ! i))) [0..<n] (0 :: 'a word)) k \<longleftrightarrow>
      k < LENGTH('a) \<and> k div 8 < n \<and> bit (bs ! (k div 8)) (k mod 8)"
  proof (induction n)
    case (Suc n)
    have "bit (push_bit (8 * n) (ucast (bs ! n) :: 'a word)) k \<longleftrightarrow>
        k < LENGTH('a) \<and> k div 8 = n \<and> bit (bs ! n) (k mod 8)"
    proof (cases "k div 8 = n")
      case True
      then have k: "k = 8 * n + k mod 8" by (metis mult_div_mod_eq)
      then have "8 * n \<le> k" "k - 8 * n = k mod 8" by linarith+
      then show ?thesis using True by (auto simp: bit_push_bit_iff bit_ucast_iff)
    next
      case False
      have "\<not> bit (bs ! n) (k - 8 * n)" if "8 * n \<le> k"
      proof -
        have "8 \<le> k - 8 * n" using False that by (metis div_nat_eqI le_add_diff_inverse less_diff_conv2 linorder_not_less mult.commute mult_Suc_right add.commute)
        then show ?thesis using bit_imp_le_length [of "bs ! n" "k - 8 * n"] by auto
      qed
      then show ?thesis using False by (auto simp: bit_push_bit_iff bit_ucast_iff)
    qed
    then show ?case using Suc.IH by (auto simp: bit_or_iff less_Suc_eq)
  qed simp
  then show ?thesis by (simp add: get_le_def)
qed

lemma get_put_le: "LENGTH('a) \<le> 8 * n \<Longrightarrow> get_le n (put_le n v @ r) = (v :: 'a::len word)"
proof (rule bit_word_eqI)
  fix k assume n: "LENGTH('a) \<le> 8 * n" and k: "k < LENGTH('a)"
  then have "k div 8 < n" by linarith
  then show "bit (get_le n (put_le n v @ r) :: 'a word) k \<longleftrightarrow> bit v k"
    using k by (simp add: bit_get_le put_le_def nth_append bit_ucast_iff bit_drop_bit_eq)
qed

lemma get_put16 [simp]: "portable_get16 (portable_put16 v @ r) = v" "portable_get16 (portable_put16 v) = v"
  using get_put_le [of 2 v r] get_put_le [of 2 v "[]"] by (simp_all add: portable_get16_def portable_put16_def)

lemma get_put32 [simp]: "portable_get32 (portable_put32 v @ r) = v" "portable_get32 (portable_put32 v) = v"
  using get_put_le [of 4 v r] get_put_le [of 4 v "[]"] by (simp_all add: portable_get32_def portable_put32_def)

lemma put_get_le:
  assumes "8 * n \<le> LENGTH('a)" "n \<le> length bs"
  shows "put_le n (get_le n bs :: 'a::len word) = take n bs"
proof (rule nth_equalityI)
  fix i assume "i < length (put_le n (get_le n bs :: 'a word))"
  then have i: "i < n" by simp
  have "bit (ucast (drop_bit (8 * i) (get_le n bs :: 'a word)) :: byte) k \<longleftrightarrow> bit (bs ! i) k" if "k < 8" for k
    using that i assms by (simp add: bit_ucast_iff bit_drop_bit_eq bit_get_le)
  then have "(ucast (drop_bit (8 * i) (get_le n bs :: 'a word)) :: byte) = bs ! i" by (intro bit_word_eqI) simp
  then show "put_le n (get_le n bs :: 'a word) ! i = take n bs ! i" using i by (simp add: put_le_def)
qed (use assms in simp)

text \<open>A number depends on its own bytes only.\<close>

lemma get_le_append: "n \<le> length bs \<Longrightarrow> get_le n (bs @ r) = (get_le n bs :: 'a::len word)"
  unfolding get_le_def by (rule fold_cong) (auto simp: nth_append)

lemma get_le_take: "n \<le> m \<Longrightarrow> get_le n (take m bs) = (get_le n bs :: 'a::len word)"
  unfolding get_le_def by (rule fold_cong) auto

subsection \<open>Readers\<close>

text \<open>\<open>reads f\<close>: when \<open>f\<close> accepts its input, it used a prefix of it, and accepts that prefix with the same result
  whatever follows. This is what makes a reader compositional, and a truncated input different from a whole one.\<close>

definition reads :: "(byte list \<Rightarrow> ('a \<times> byte list) option) \<Rightarrow> bool" where
  "reads f \<longleftrightarrow> (\<forall>bs r rest. f bs = Some (r, rest) \<longrightarrow> (\<exists>used. bs = used @ rest \<and> (\<forall>more. f (used @ more) = Some (r, more))))"

lemma readsE:
  assumes "reads f" "f bs = Some (r, rest)"
  obtains used where "bs = used @ rest" "\<And>more. f (used @ more) = Some (r, more)"
  using assms unfolding reads_def by blast

lemma readsI: "(\<And>bs r rest. f bs = Some (r, rest) \<Longrightarrow> \<exists>used. bs = used @ rest \<and> (\<forall>more. f (used @ more) = Some (r, more))) \<Longrightarrow> reads f"
  unfolding reads_def by blast

lemma reads_take [intro]: "reads (take_bytes n)"
proof (rule readsI)
  fix bs r rest assume "take_bytes n bs = Some (r, rest)"
  then have "n \<le> length bs" "r = take n bs" "rest = drop n bs" by (auto simp: take_bytes_def split: if_splits)
  then show "\<exists>used. bs = used @ rest \<and> (\<forall>more. take_bytes n (used @ more) = Some (r, more))"
    by (intro exI [of _ "take n bs"]) (simp add: take_bytes_def)
qed

lemma reads_return [intro]: "reads (\<lambda>bs. Some (r, bs))"
  by (rule readsI) (auto intro: exI [of _ "[]"])

lemma reads_fail [intro]: "reads (\<lambda>bs. None)"
  by (rule readsI) simp

lemma reads_bind [intro]:
  assumes "reads f" "\<And>r. reads (g r)"
  shows "reads (\<lambda>bs. Option.bind (f bs) (\<lambda>(r, bs). g r bs))"
proof (rule readsI)
  fix bs r rest assume "Option.bind (f bs) (\<lambda>(r, bs). g r bs) = Some (r, rest)"
  then obtain q mid where fg: "f bs = Some (q, mid)" "g q mid = Some (r, rest)" by (auto simp: bind_eq_Some_conv)
  obtain a where a: "bs = a @ mid" "\<And>more. f (a @ more) = Some (q, more)" using readsE [OF assms(1) fg(1)] by blast
  obtain b where b: "mid = b @ rest" "\<And>more. g q (b @ more) = Some (r, more)" using readsE [OF assms(2) fg(2)] by blast
  show "\<exists>used. bs = used @ rest \<and> (\<forall>more. Option.bind (f (used @ more)) (\<lambda>(r, bs). g r bs) = Some (r, more))"
    using a b by (intro exI [of _ "a @ b"]) simp
qed

lemma reads_if [intro]: "reads f \<Longrightarrow> reads g \<Longrightarrow> reads (\<lambda>bs. if c then f bs else g bs)"
  by (cases c) simp_all

text \<open>Bytes that were just put in front are taken back whole.\<close>

lemma take_bytes_append: "length a = n \<Longrightarrow> take_bytes n (a @ b) = Some (a, b)"
  by (simp add: take_bytes_def)

end
