(* ===== verification/Portable.thy ===== *)
theory Portable
  imports Wire
begin

text \<open>
  The standard portable format of a bitmap (\<open>serialization.hpp\<close>, second part): the plan of its size, the writer and
  the reader, for 32-bit keys and, in buckets of their high halves, for 64-bit ones. The chunk table is the list of
  its slots in order, each a chunk key and a container. The writer's cursors into the header regions (flags,
  descriptive pairs, offsets, payloads) are lists that grow together; the reader takes bytes from the front of what
  is left, and \<open>None\<close> is its rejection.
\<close>

subsection \<open>Constants\<close>

definition portable_cookie_no_run :: key32 where "portable_cookie_no_run = 12346"
definition portable_cookie_with_run :: key32 where "portable_cookie_with_run = 12347"
definition portable_no_offset_threshold :: nat where "portable_no_offset_threshold = 4"
definition portable_array_max_cardinality :: nat where "portable_array_max_cardinality = 4096"
definition portable_bitset_bytes :: nat where "portable_bitset_bytes = 8192"

subsection \<open>One container\<close>

datatype portable_kind = Wire_array | Wire_bitset | Wire_run

record portable_wire =
  wire_kind :: portable_kind
  wire_cardinality :: nat
  wire_bytes :: nat

definition portable_wire_of :: "container \<Rightarrow> portable_wire" where
  "portable_wire_of h =
    (if holds_run h then \<lparr>wire_kind = Wire_run, wire_cardinality = cardinality h, wire_bytes = 2 + length (run_list h) * 2 * 2\<rparr>
     else if cardinality h > portable_array_max_cardinality
     then \<lparr>wire_kind = Wire_bitset, wire_cardinality = cardinality h, wire_bytes = portable_bitset_bytes\<rparr>
     else \<lparr>wire_kind = Wire_array, wire_cardinality = cardinality h, wire_bytes = cardinality h * 2\<rparr>)"

definition portable_write_container :: "container \<Rightarrow> portable_wire \<Rightarrow> byte list" where
  "portable_write_container h wire =
    (case wire_kind wire of
       Wire_run \<Rightarrow>
         portable_put16 (of_nat (length (run_list h))) @
         concat (map (\<lambda>r. portable_put16 (rbegin r) @ portable_put16 (rend r - rbegin r)) (run_list h))
     | Wire_array \<Rightarrow>
         (if holds_array h then take (wire_bytes wire) (concat (map portable_put16 (array_values h)))
          else concat (map portable_put16 (values_from_words (bitset_words h))))
     | Wire_bitset \<Rightarrow>
         (if holds_bitset h then take portable_bitset_bytes (concat (map (put_le 8) (bitset_words h)))
          else fold (\<lambda>v out. out[unat (drop_bit 3 v) := out ! unat (drop_bit 3 v) OR push_bit (unat (v AND 7)) 1])
                 (array_values h) (replicate portable_bitset_bytes 0)))"

subsection \<open>The plan and the writer\<close>

record portable_plan =
  containers :: nat
  has_run :: bool
  header_bytes :: nat
  payload_bytes :: nat

definition portable_plan_for :: "(16 word \<times> container) list \<Rightarrow> portable_plan" where
  "portable_plan_for slots =
    (let plan = fold (\<lambda>(_, slot) plan. plan\<lparr>containers := containers plan + 1, has_run := has_run plan \<or> holds_run slot,
                  payload_bytes := payload_bytes plan + wire_bytes (portable_wire_of slot)\<rparr>)
           slots \<lparr>containers = 0, has_run = False, header_bytes = 0, payload_bytes = 0\<rparr>;
         n = containers plan
     in plan\<lparr>header_bytes := (if has_run plan
               then 4 + (n + 7) div 8 + 4 * n + (if n \<ge> portable_no_offset_threshold then 4 * n else 0)
               else 8 + 8 * n)\<rparr>)"

text \<open>The state of the writer's loop: the run flags, the descriptive pairs, the offsets and the payloads so far.\<close>

type_synonym writer_state = "byte list \<times> byte list \<times> byte list \<times> byte list"

definition portable_write_slot :: "nat \<Rightarrow> nat \<times> 16 word \<times> container \<Rightarrow> writer_state \<Rightarrow> writer_state" where
  "portable_write_slot header entry s =
    (case (entry, s) of ((position, key, slot), flags, descriptive, offsets, written_payload) \<Rightarrow>
       let wire = portable_wire_of slot
       in (if holds_run slot then flags[position div 8 := flags ! (position div 8) OR push_bit (position mod 8) 1] else flags,
           descriptive @ portable_put16 key @ portable_put16 (of_nat (wire_cardinality wire - 1)),
           offsets @ portable_put32 (of_nat (header + length written_payload)),
           written_payload @ portable_write_container slot wire))"

definition portable_write_32 :: "(16 word \<times> container) list \<Rightarrow> byte list" where
  "portable_write_32 slots =
    (let count = length slots;
         with_runs = list_ex (\<lambda>(_, slot). holds_run slot) slots;
         with_offsets = (\<not> with_runs \<or> count \<ge> portable_no_offset_threshold);
         flag_bytes = (if with_runs then (count + 7) div 8 else 0);
         cookie = (if with_runs then portable_put32 (portable_cookie_with_run OR push_bit 16 (of_nat count - 1))
                   else portable_put32 portable_cookie_no_run @ portable_put32 (of_nat count));
         header = length cookie + flag_bytes + 4 * count + (if with_offsets then 4 * count else 0)
     in case fold (portable_write_slot header) (enumerate 0 slots) (replicate flag_bytes 0, [], [], []) of
          (flags, descriptive, offsets, written_payload) \<Rightarrow>
            cookie @ flags @ descriptive @ (if with_offsets then offsets else []) @ written_payload)"

definition portable_size_in_bytes :: "(16 word \<times> container) list \<Rightarrow> nat" where
  "portable_size_in_bytes slots = header_bytes (portable_plan_for slots) + payload_bytes (portable_plan_for slots)"

definition portable_serialize :: "(16 word \<times> container) list \<Rightarrow> byte list" where
  "portable_serialize slots = portable_write_32 slots"

subsection \<open>The reader\<close>

definition strictly_ascending :: "byte list \<Rightarrow> nat \<Rightarrow> bool" where
  "strictly_ascending values count =
    (if count < 2 then True
     else fold (\<lambda>i unordered. unordered OR of_bool (portable_get16 (drop (i * 2) values) \<ge> portable_get16 (drop ((i + 1) * 2) values)))
            [0..<count - 1] (0 :: key32) = 0)"

text \<open>The loop over the runs of a payload that holds enough bytes: the values covered, the end of the previous run, and the
  runs written, adjacent ones joined.\<close>

fun portable_read_runs :: "nat \<Rightarrow> byte list \<Rightarrow> nat \<Rightarrow> int \<Rightarrow> run list \<Rightarrow> (nat \<times> run list) option" where
  "portable_read_runs 0 p covered previous_end dst = Some (covered, dst)"
| "portable_read_runs (Suc r) p covered previous_end dst =
    (let b = uint (portable_get16 p); run_end = b + uint (portable_get16 (drop 2 p))
     in if run_end > 65535 \<or> b \<le> previous_end then None
        else portable_read_runs r (drop 4 p) ((covered + nat (run_end - b + 1)) mod 2 ^ 32) run_end
          (if b = previous_end + 1 \<and> dst \<noteq> [] then butlast dst @ [(last dst)\<lparr>rend := of_int run_end\<rparr>]
           else dst @ [mk_run (of_int b) (of_int run_end)]))"

definition portable_run_container :: "nat \<Rightarrow> nat \<Rightarrow> byte list \<Rightarrow> container option" where
  "portable_run_container n run_count run_bytes =
    (case portable_read_runs run_count run_bytes 0 (- 1) [] of
       None \<Rightarrow> None
     | Some (covered, dst) \<Rightarrow>
         if covered \<noteq> n then None
         else Some (set_endpoints (rbegin (hd dst)) (rend (last dst)) (set_cardinality n (set_run_list dst make_run))))"

definition portable_read_run :: "nat \<Rightarrow> byte list \<Rightarrow> (container \<times> byte list) option" where
  "portable_read_run n p =
    Option.bind (take_bytes 2 p) (\<lambda>(count_bytes, p).
      let run_count = unat (portable_get16 count_bytes)
      in if run_count = 0 then None
         else Option.bind (take_bytes (run_count * 4) p) (\<lambda>(run_bytes, p).
           case portable_run_container n run_count run_bytes of None \<Rightarrow> None | Some h \<Rightarrow> Some (h, p)))"

definition portable_read_bitset :: "nat \<Rightarrow> byte list \<Rightarrow> (container \<times> byte list) option" where
  "portable_read_bitset n p =
    Option.bind (take_bytes portable_bitset_bytes p) (\<lambda>(payload, p).
      let words = map (\<lambda>i. get_le 8 (drop (8 * i) payload)) [0..<word_count]
      in if popcount_words words \<noteq> n then None
         else Some (set_cardinality n (make_bitset_uninitialized words), p))"

definition portable_read_array :: "nat \<Rightarrow> byte list \<Rightarrow> (container \<times> byte list) option" where
  "portable_read_array n p =
    Option.bind (take_bytes (n * 2) p) (\<lambda>(payload, p).
      if \<not> strictly_ascending payload n then None
      else Some (array_sync_header (set_array_values (map (\<lambda>i. portable_get16 (drop (i * 2) payload)) [0..<n]) make_array), p))"

definition portable_read_container :: "bool \<Rightarrow> nat \<Rightarrow> byte list \<Rightarrow> (container \<times> byte list) option" where
  "portable_read_container is_run n p =
    (if is_run then portable_read_run n p
     else if n > portable_array_max_cardinality then portable_read_bitset n p else portable_read_array n p)"

fun portable_read_slots ::
  "bool \<Rightarrow> byte list \<Rightarrow> byte list \<Rightarrow> nat list \<Rightarrow> int \<Rightarrow> byte list \<Rightarrow> ((16 word \<times> container) list \<times> byte list) option" where
  "portable_read_slots with_runs run_flags descriptive [] previous_key p = Some ([], p)"
| "portable_read_slots with_runs run_flags descriptive (k # ks) previous_key p =
    (let key = portable_get16 (drop (4 * k) descriptive)
     in if uint key \<le> previous_key then None
        else let n = unat (portable_get16 (drop (4 * k + 2) descriptive)) + 1;
                 is_run = (with_runs \<and> drop_bit (k mod 8) (run_flags ! (k div 8)) AND 1 \<noteq> 0)
             in Option.bind (portable_read_container is_run n p) (\<lambda>(container, p).
                  Option.bind (portable_read_slots with_runs run_flags descriptive ks (uint key) p) (\<lambda>(slots, p).
                    Some ((key, container) # slots, p))))"

definition portable_read_body :: "bool \<Rightarrow> nat \<Rightarrow> byte list \<Rightarrow> ((16 word \<times> container) list \<times> byte list) option" where
  "portable_read_body with_runs count p =
    Option.bind (if with_runs then take_bytes ((count + 7) div 8) p else Some ([], p)) (\<lambda>(run_flags, p).
      Option.bind (take_bytes (count * 4) p) (\<lambda>(descriptive, p).
        Option.bind (if \<not> with_runs \<or> count \<ge> portable_no_offset_threshold then take_bytes (count * 4) p else Some ([], p))
          (\<lambda>(_, p). portable_read_slots with_runs run_flags descriptive [0..<count] (- 1) p)))"

definition portable_read_32 :: "byte list \<Rightarrow> ((16 word \<times> container) list \<times> byte list) option" where
  "portable_read_32 p =
    Option.bind (take_bytes 4 p) (\<lambda>(cookie_bytes, p).
      let cookie = portable_get32 cookie_bytes
      in if cookie AND 0xFFFF = portable_cookie_with_run then portable_read_body True (unat (drop_bit 16 cookie) + 1) p
         else if cookie = portable_cookie_no_run then
           Option.bind (take_bytes 4 p) (\<lambda>(count_bytes, p).
             let count = unat (portable_get32 count_bytes)
             in if count > 65536 then None else portable_read_body False count p)
         else None)"

text \<open>The slots and the number of values, \<open>size_\<close>.\<close>

definition portable_deserialize :: "byte list \<Rightarrow> ((16 word \<times> container) list \<times> nat) option" where
  "portable_deserialize bytes =
    map_option (\<lambda>(slots, _). (slots, fold (\<lambda>(_, slot) total. total + cardinality slot) slots 0)) (portable_read_32 bytes)"

end
