(* ===== verification/Portable_Read.thy ===== *)
theory Portable_Read
  imports Portable
begin

text \<open>
  What the portable reader accepts: it uses a prefix of its input and looks no further, and every table it returns is
  well formed, whatever the bytes were: keys in strictly ascending order, containers that keep their invariant, are
  counted exactly and hold at least one value.
\<close>

subsection \<open>The reader uses a prefix\<close>

lemma reads_option_case:
  assumes "\<And>r. reads (f r)"
  shows "reads (\<lambda>bs. case x of None \<Rightarrow> None | Some r \<Rightarrow> f r bs)"
  using assms by (cases x) auto

lemma reads_case_prod: "(\<And>a b. reads (f a b)) \<Longrightarrow> reads (\<lambda>bs. case x of (a, b) \<Rightarrow> f a b bs)"
  by (cases x) simp

lemma reads_read_run: "reads (portable_read_run n)"
  unfolding portable_read_run_def Let_def
  by (intro reads_bind reads_if reads_option_case reads_case_prod reads_take reads_fail reads_return)

lemma reads_read_bitset: "reads (portable_read_bitset n)"
  unfolding portable_read_bitset_def Let_def by (intro reads_bind reads_if reads_take reads_fail reads_return)

lemma reads_read_array: "reads (portable_read_array n)"
  unfolding portable_read_array_def by (intro reads_bind reads_if reads_take reads_fail reads_return)

lemma reads_read_container: "reads (portable_read_container is_run n)"
  unfolding portable_read_container_def
  by (intro reads_if reads_read_run reads_read_bitset reads_read_array)

lemma reads_read_slots: "reads (portable_read_slots with_runs run_flags descriptive ks previous_key)"
proof (induction ks arbitrary: previous_key)
  case Nil
  then show ?case by (simp add: reads_return)
next
  case (Cons k ks)
  show ?case
    unfolding portable_read_slots.simps Let_def
    by (intro reads_if reads_bind reads_fail reads_read_container reads_return Cons.IH)
qed

lemma reads_read_body: "reads (portable_read_body with_runs count)"
  unfolding portable_read_body_def by (intro reads_bind reads_if reads_take reads_return reads_read_slots)

theorem reads_read_32: "reads portable_read_32"
  unfolding portable_read_32_def Let_def
  by (intro reads_bind reads_if reads_take reads_fail reads_read_body)

subsection \<open>An accepted container is well formed\<close>

definition slot_ok :: "container \<Rightarrow> bool" where
  "slot_ok h \<longleftrightarrow> wf_container h \<and> \<not> cardinality_stale h \<and> values_of h \<noteq> {}"

lemma slot_okI: "exact S h \<Longrightarrow> S \<noteq> {} \<Longrightarrow> slot_ok h"
  by (auto simp: slot_ok_def exact_def holds_set_def)

lemma strictly_ascending_iff:
  "strictly_ascending bs n \<longleftrightarrow> strict (map (\<lambda>i. portable_get16 (drop (i * 2) bs)) [0..<n])"
proof -
  let ?v = "\<lambda>i. portable_get16 (drop (i * 2) bs)"
  have none: "fold (\<lambda>i u. u OR of_bool (?v i \<ge> ?v (i + 1))) is (u :: key32) = 0 \<longleftrightarrow> u = 0 \<and> (\<forall>i\<in>set is. ?v i < ?v (i + 1))" for "is" u
    by (induction "is" arbitrary: u) (auto simp: or_eq_0_iff not_le)
  have "strict (map ?v [0..<n]) \<longleftrightarrow> (\<forall>i<n - 1. ?v i < ?v (i + 1))"
    unfolding sorted_wrt_iff_nth_Suc_transp [OF transp_on_less] by auto
  moreover have "strict (map ?v [0..<n])" if "n < 2" using that by (cases n) auto
  ultimately show ?thesis unfolding strictly_ascending_def none by auto
qed

lemma read_array_ok:
  assumes "portable_read_array n p = Some (h, p')" "0 < n"
  shows "slot_ok h \<and> cardinality h = n"
proof -
  obtain payload where pl: "take_bytes (n * 2) p = Some (payload, p')" "strictly_ascending payload n"
    "h = array_sync_header (set_array_values (map (\<lambda>i. portable_get16 (drop (i * 2) payload)) [0..<n]) make_array)"
    using assms(1) by (auto simp: portable_read_array_def bind_eq_Some_conv split: if_splits)
  let ?vs = "map (\<lambda>i. portable_get16 (drop (i * 2) payload)) [0..<n]"
  have "strict ?vs" using pl(2) by (simp only: strictly_ascending_iff)
  define vs where "vs = ?vs"
  have vs: "strict vs" using \<open>strict ?vs\<close> by (simp only: vs_def)
  have n: "card (array_set vs) = n" using card_array_set [OF vs] by (simp add: vs_def)
  then have ne: "array_set vs \<noteq> {}" using assms(2) by auto
  have h: "exact (array_set vs) h"
    using holds_filled_array(1) [OF vs] unfolding pl(3) vs_def [symmetric] by (simp add: exact_def counted)
  show ?thesis using slot_okI [OF h ne] exact_count [OF h] n by simp
qed

lemma read_bitset_ok:
  assumes "portable_read_bitset n p = Some (h, p')" "0 < n"
  shows "slot_ok h \<and> cardinality h = n"
proof -
  obtain payload where pl: "popcount_words (map (\<lambda>i. get_le 8 (drop (8 * i) payload)) [0..<word_count]) = n"
    "h = set_cardinality n (make_bitset_uninitialized (map (\<lambda>i. get_le 8 (drop (8 * i) payload)) [0..<word_count]))"
    using assms(1) by (auto simp: portable_read_bitset_def bind_eq_Some_conv Let_def split: if_splits)
  define ws :: "word64 list" where "ws = map (\<lambda>i. get_le 8 (drop (8 * i) payload)) [0..<word_count]"
  have n: "n = card (bits_set ws)" using pl(1) by (simp only: ws_def popcount_words_card)
  have len: "length ws = 1024" by (simp add: ws_def)
  have "exact (bits_set ws) h"
    using wf_uninitialized_counted(1) [OF len] unfolding pl(2) ws_def [symmetric] n by (simp add: exact_def counted)
  then have h: "exact (bits_set ws) h" .
  have ne: "bits_set ws \<noteq> {}" using n assms(2) by auto
  show ?thesis using slot_okI [OF h ne] exact_count [OF h] n by simp
qed

text \<open>The runs written so far, the last one ending at \<open>previous_end\<close>.\<close>

definition runs_read :: "run list \<Rightarrow> nat \<Rightarrow> int \<Rightarrow> bool" where
  "runs_read dst covered previous_end \<longleftrightarrow> wf_runs dst \<and> covered = card (runs_set dst) \<and>
     (if dst = [] then previous_end = - 1 else previous_end = int (unat (rend (last dst))))"

lemma runs_read_step:
  assumes "runs_read dst covered pe" "pe < b" "b \<le> e" "e \<le> 65535" "0 \<le> b"
  defines "dst' \<equiv> (if b = pe + 1 \<and> dst \<noteq> [] then butlast dst @ [(last dst)\<lparr>rend := of_int e\<rparr>] else dst @ [mk_run (of_int b) (of_int e)])"
  shows "runs_read dst' ((covered + nat (e - b + 1)) mod 2 ^ 32) e" "dst' \<noteq> []"
    "runs_set dst' = runs_set dst \<union> {nat b..nat e}"
proof -
  have u: "unat (of_int b :: low) = nat b" "unat (of_int e :: low) = nat e"
    using assms(3-5) by (simp_all add: unat_eq_nat_uint uint_word_of_int_eq take_bit_int_eq_self)
  show ne: "dst' \<noteq> []" by (simp add: dst'_def)
  have dst: "wf_runs dst" "covered = card (runs_set dst)"
    "dst \<noteq> [] \<Longrightarrow> pe = int (unat (rend (last dst)))" "dst = [] \<Longrightarrow> pe = - 1"
    using assms(1) by (auto simp: runs_read_def split: if_splits)
  have new: "wf_runs dst' \<and> runs_set dst' = runs_set dst \<union> {nat b..nat e} \<and> rend (last dst') = of_int e"
  proof (cases "b = pe + 1 \<and> dst \<noteq> []")
    case True
    obtain ds d where ds: "dst = ds @ [d]" using True by (cases dst rule: rev_cases) auto
    have d': "dst' = ds @ [d\<lparr>rend := of_int e\<rparr>]" using True by (simp add: dst'_def ds)
    have "b = int (unat (rend d) + 1)" using dst(3) True by (simp add: ds)
    then have d: "unat (rbegin d) \<le> unat (rend d)" "nat b = unat (rend d) + 1" "wf_runs ds" "ds \<noteq> [] \<Longrightarrow> run_gap (last ds) d"
      using dst(1) by (simp_all only: nat_int) (simp_all add: ds wf_runs_snoc run_ok_unat)
    have "wf_runs dst'" using d u(2) assms(3,5) by (simp add: d' wf_runs_snoc run_ok_unat run_gap_def)
    moreover have "run_set (d\<lparr>rend := of_int e\<rparr>) = run_set d \<union> {nat b..nat e}"
      using d(1,2) u(2) assms(3,5) by (auto simp: run_set_def)
    ultimately show ?thesis by (simp add: d' ds Un_assoc)
  next
    case False
    have d': "dst' = dst @ [mk_run (of_int b) (of_int e)]" unfolding dst'_def if_not_P [OF False] by (rule refl)
    have "run_gap (last dst) (mk_run (of_int b) (of_int e))" if "dst \<noteq> []"
    proof -
      have "int (unat (rend (last dst)) + 1) < b" using dst(3) [OF that] False that assms(2) by linarith
      then show ?thesis by (simp only: run_gap_def run.simps u(1) zless_nat_eq_int_zless)
    qed
    then have "wf_runs dst'" using dst(1) u assms(3,5) by (simp add: d' wf_runs_snoc run_ok_unat)
    then show ?thesis using u by (simp add: d' run_set_def)
  qed
  then show "runs_set dst' = runs_set dst \<union> {nat b..nat e}" by blast
  have "v < nat b" if "v \<in> runs_set dst" for v
  proof -
    have "dst \<noteq> []" using that by auto
    then have "v \<le> unat (rend (last dst))" "int (unat (rend (last dst))) < b"
      using Max_ge [of "runs_set dst" v] runs_set_Min_Max(2) [OF dst(1)] that dst(3) assms(2) by simp_all
    then show ?thesis by linarith
  qed
  then have "runs_set dst \<inter> {nat b..nat e} = {}" by fastforce
  then have n: "card (runs_set dst') = covered + nat (e - b + 1)"
    using new dst(2) assms(3-5) card_Un_disjoint [of "runs_set dst" "{nat b..nat e}"] by (simp add: nat_diff_distrib)
  have "runs_set dst' \<subseteq> {..<65536}" using runs_set_bound by auto
  then have "card (runs_set dst') \<le> 65536" using card_mono [of "{..<65536 :: nat}"] by fastforce
  then show "runs_read dst' ((covered + nat (e - b + 1)) mod 2 ^ 32) e"
    using new ne n u(2) assms(3,5) by (simp add: runs_read_def)
qed

lemma read_runs_ok:
  "portable_read_runs k p covered pe dst = Some (covered', dst') \<Longrightarrow> runs_read dst covered pe \<Longrightarrow>
    wf_runs dst' \<and> covered' = card (runs_set dst') \<and> (0 < k \<or> dst \<noteq> [] \<longrightarrow> dst' \<noteq> [])"
proof (induction k p covered pe dst rule: portable_read_runs.induct)
  case (1 p covered pe dst)
  then show ?case by (auto simp: runs_read_def)
next
  case (2 r p covered pe dst)
  define b where "b = uint (portable_get16 p)"
  define e where "e = b + uint (portable_get16 (drop 2 p))"
  have be: "0 \<le> b" "b \<le> e" by (simp_all add: b_def e_def)
  have ok: "\<not> (e > 65535 \<or> b \<le> pe)"
    using "2.prems"(1) by (auto simp: Let_def b_def e_def split: if_splits)
  then have lim: "pe < b" "e \<le> 65535" by simp_all
  note step = runs_read_step [OF "2.prems"(2) lim(1) be(2) lim(2) be(1)]
  show ?case
    using "2.IH" [OF b_def e_def ok _ step(1)] "2.prems"(1) step(2)
    unfolding portable_read_runs.simps Let_def b_def [symmetric] e_def [symmetric] if_not_P [OF ok] by blast
qed

lemma run_containerE:
  assumes "portable_run_container n k bs = Some h"
  obtains dst where "portable_read_runs k bs 0 (- 1) [] = Some (n, dst)"
    "h = set_endpoints (rbegin (hd dst)) (rend (last dst)) (set_cardinality n (set_run_list dst make_run))"
proof (cases "portable_read_runs k bs 0 (- 1) []")
  case None
  then show ?thesis using assms by (simp add: portable_run_container_def)
next
  case (Some r)
  then show ?thesis
    using assms that by (cases r) (simp add: portable_run_container_def split: if_split_asm)
qed

lemma read_run_ok:
  assumes "portable_read_run n p = Some (h, p')" "0 < n"
  shows "slot_ok h \<and> cardinality h = n"
proof -
  obtain payload k where "portable_run_container n k payload = Some h" and k: "k \<noteq> 0"
    using assms(1) by (auto simp: portable_read_run_def bind_eq_Some_conv Let_def split: if_split_asm option.split_asm)
  from this(1) obtain dst where pl: "portable_read_runs k payload 0 (- 1) [] = Some (n, dst)"
    "h = set_endpoints (rbegin (hd dst)) (rend (last dst)) (set_cardinality n (set_run_list dst make_run))"
    by (rule run_containerE)
  have "runs_read [] 0 (- 1)" by (simp add: runs_read_def)
  from read_runs_ok [OF pl(1) this] k have dst: "wf_runs dst" "n = card (runs_set dst)" "dst \<noteq> []" by auto
  let ?c = "\<lparr>runs = dst, rc_cardinality = n\<rparr>"
  have "h = handle_from_run_container ?c" using dst(3) by (simp add: pl(2) handle_from_run_container_def Let_def)
  moreover have "wf_rc ?c" using dst by (simp add: wf_rc_def)
  ultimately have h: "exact (runs_set dst) h" using handle_from_run_container_correct(1) [of ?c] by (simp add: exact_def rc_set_def counted)
  have ne: "runs_set dst \<noteq> {}" using dst(2) assms(2) by auto
  show ?thesis using slot_okI [OF h ne] exact_count [OF h] dst(2) by simp
qed

lemma read_container_ok: "portable_read_container is_run n p = Some (h, p') \<Longrightarrow> 0 < n \<Longrightarrow> slot_ok h \<and> cardinality h = n"
  using read_run_ok read_bitset_ok read_array_ok unfolding portable_read_container_def by (auto split: if_splits)

subsection \<open>An accepted table is well formed\<close>

definition table_ok :: "('k::linorder \<times> container) list \<Rightarrow> bool" where
  "table_ok slots \<longleftrightarrow> strict (map fst slots) \<and> (\<forall>(_, h)\<in>set slots. slot_ok h)"

lemma read_slots_ok:
  "portable_read_slots with_runs run_flags descriptive ks previous_key p = Some (slots, p') \<Longrightarrow>
    table_ok slots \<and> (\<forall>(key, _)\<in>set slots. previous_key < uint key) \<and> length slots = length ks"
proof (induction ks arbitrary: previous_key p slots)
  case Nil
  then show ?case by (simp add: table_ok_def)
next
  case (Cons k ks)
  define key where "key = portable_get16 (drop (4 * k) descriptive)"
  obtain is_run n h q rest where step: "\<not> uint key \<le> previous_key"
    "portable_read_container is_run (n + 1) p = Some (h, q)"
    "portable_read_slots with_runs run_flags descriptive ks (uint key) q = Some (rest, p')" "slots = (key, h) # rest"
    using Cons.prems by (auto simp: key_def Let_def bind_eq_Some_conv split: if_splits)
  have "slot_ok h" using read_container_ok [OF step(2)] by simp
  moreover have "key < x" if "x \<in> fst ` set rest" for x
    using that Cons.IH [OF step(3)] by (auto simp: word_less_def)
  ultimately show ?case
    using Cons.IH [OF step(3)] step(1,4) by (fastforce simp: table_ok_def)
qed

lemma read_body_ok: "portable_read_body with_runs count p = Some (slots, p') \<Longrightarrow> table_ok slots \<and> length slots = count"
  using read_slots_ok by (fastforce simp: portable_read_body_def bind_eq_Some_conv split: if_splits)

lemma high_half: "unat (drop_bit 16 (w :: key32)) < 65536"
proof -
  have "unat (drop_bit 16 w) = unat w div 65536" unfolding unat_drop_bit_eq by (simp add: drop_bit_eq_div)
  moreover have "unat w < 65536 * 65536" using unsigned_less [of w, where 'a = nat] by simp
  ultimately show ?thesis by (simp add: less_mult_imp_div_less)
qed

theorem portable_read_32_ok:
  assumes "portable_read_32 p = Some (slots, p')"
  shows "table_ok slots \<and> length slots \<le> 65536"
proof -
  obtain with_runs count q where "portable_read_body with_runs count q = Some (slots, p')" "count \<le> 65536"
  proof -
    obtain a q where a: "take_bytes 4 p = Some (a, q)" using assms by (auto simp: portable_read_32_def bind_eq_Some_conv)
    show thesis
    proof (cases "portable_get32 a AND 0xFFFF = portable_cookie_with_run")
      case True
      then show ?thesis
        using assms a high_half [of "portable_get32 a"] by (intro that [of True "unat (drop_bit 16 (portable_get32 a)) + 1" q])
          (simp_all add: portable_read_32_def Let_def)
    next
      case False
      then obtain b r where "take_bytes 4 q = Some (b, r)" "portable_read_body False (unat (portable_get32 b)) r = Some (slots, p')"
        "\<not> 65536 < unat (portable_get32 b)"
        using assms a by (auto simp: portable_read_32_def Let_def bind_eq_Some_conv split: if_split_asm)
      then show ?thesis unfolding not_less by (intro that [of False "unat (portable_get32 b)" r])
    qed
  qed
  then show ?thesis using read_body_ok by blast
qed

end
