(* ===== verification/Portable_Roundtrip.thy ===== *)
theory Portable_Roundtrip
  imports Portable_Read
begin

text \<open>
  The portable writer against its reader: every container, and every table, comes back with the same keys and values
  from the bytes it was written to, the bytes are as many as the plan says, and no proper prefix of them is accepted.
\<close>

subsection \<open>Blocks of bytes\<close>

lemma length_blocks: "(\<And>x. length (f x) = n) \<Longrightarrow> length (concat (map f xs)) = n * length xs"
  by (induction xs) simp_all

lemma drop_blocks: "(\<And>x. length (f x) = n) \<Longrightarrow> i \<le> length xs \<Longrightarrow> drop (n * i) (concat (map f xs) @ r) = concat (map f (drop i xs)) @ r"
proof (induction xs arbitrary: i)
  case (Cons x xs)
  then show ?case by (cases i) simp_all
qed simp

lemma nth_blocks:
  assumes "\<And>x. length (f x) = n" "i < n * length xs"
  shows "concat (map f xs) ! i = f (xs ! (i div n)) ! (i mod n)"
proof -
  have n: "0 < n" using assms(2) by (cases n) simp_all
  have j: "i div n < length xs" using assms(2) by (simp add: less_mult_imp_div_less mult.commute)
  have "n * (i div n) \<le> length (concat (map f xs))" "n * (i div n) + i mod n = i"
    using j length_blocks [of f n xs, OF assms(1)] by simp_all
  then have "concat (map f xs) ! i = drop (n * (i div n)) (concat (map f xs) @ []) ! (i mod n)" by simp
  also have "\<dots> = concat (map f (drop (i div n) xs)) ! (i mod n)"
    using drop_blocks [of f n "i div n" xs "[]", OF assms(1)] j by simp
  also have "\<dots> = f (xs ! (i div n)) ! (i mod n)"
    using assms(1) n by (simp add: Cons_nth_drop_Suc [OF j, symmetric] nth_append)
  finally show ?thesis .
qed

lemma get16_block: "i < length vs \<Longrightarrow> portable_get16 (drop (i * 2) (concat (map portable_put16 vs) @ r)) = vs ! i"
  using drop_blocks [of portable_put16 2 i vs r] by (simp add: Cons_nth_drop_Suc [symmetric] mult.commute)

subsection \<open>One container comes back\<close>

lemma slot_okE:
  assumes "slot_ok h"
  obtains "wf_container h" "\<not> cardinality_stale h" "cardinality h = card (values_of h)" "0 < cardinality h"
    "cardinality h \<le> 65536" "cardinality h = length (container_values h)"
proof -
  have h: "wf_container h" "\<not> cardinality_stale h" "values_of h \<noteq> {}" using assms by (simp_all add: slot_ok_def)
  have n: "cardinality h = card (values_of h)" by (rule exact_cardinality [OF h(1,2)])
  have "values_of h \<subseteq> {..<65536}"
    using container_values_correct(2) [OF h(1)] array_set_bound by (metis lessThan_iff subsetI)
  then have le: "cardinality h \<le> 65536" using card_mono [of "{..<65536 :: nat}" "values_of h"] n by simp
  have len: "cardinality h = length (container_values h)"
    using n card_array_set [OF container_values_correct(1) [OF h(1)]] container_values_correct(2) [OF h(1)] by simp
  have "0 < cardinality h" using h(3) n by (simp add: card_gt_0_iff)
  then show ?thesis by (rule that [OF h(1,2) n _ le len])
qed

lemma array_payload_back:
  assumes "strict vs" "vs \<noteq> []"
  shows "\<exists>h. portable_read_array (length vs) (concat (map portable_put16 vs) @ r) = Some (h, r) \<and> slot_ok h \<and>
    values_of h = array_set vs \<and> \<not> holds_run h"
proof -
  let ?b = "concat (map portable_put16 vs)"
  have "length ?b = length vs * 2" using length_blocks [of portable_put16 2 vs] by simp
  then have t: "take_bytes (length vs * 2) (?b @ r) = Some (?b, r)" by (rule take_bytes_append)
  have values_again: "map (\<lambda>i. portable_get16 (drop (i * 2) ?b)) [0..<length vs] = vs"
    using get16_block [of _ vs "[]"] by (intro nth_equalityI) simp_all
  have "strictly_ascending ?b (length vs)" unfolding strictly_ascending_iff values_again by (rule assms(1))
  then have "portable_read_array (length vs) (?b @ r) = Some (array_sync_header (set_array_values vs make_array), r)"
    by (simp add: portable_read_array_def t values_again)
  moreover have "slot_ok (array_sync_header (set_array_values vs make_array))"
    using holds_filled_array(1) [OF assms(1)] assms(2) by (intro slot_okI [of "array_set vs"]) (simp_all add: exact_def counted)
  ultimately show ?thesis
    using holds_filled_array [OF assms(1)] unfolding holds_set_def holds_run_def kind_def by simp
qed

lemma word_byte: "8 * (v div 64) + (v mod 64) div 8 = v div 8" "v mod 64 mod 8 = v mod 8" for v :: nat
  using mod_mult2_eq [of v 8 8] div_mult2_eq [of v 8 8] by simp_all

lemma bitset_payload_back:
  assumes "length b = 8192" "\<And>i k. i < 8192 \<Longrightarrow> k < 8 \<Longrightarrow> bit (b ! i) k \<longleftrightarrow> 8 * i + k \<in> S" "S \<subseteq> {..<65536}" "S \<noteq> {}"
  shows "\<exists>h. portable_read_bitset (card S) (b @ r) = Some (h, r) \<and> slot_ok h \<and> values_of h = S \<and> \<not> holds_run h"
proof -
  define ws :: "word64 list" where "ws = map (\<lambda>i. get_le 8 (drop (8 * i) b)) [0..<word_count]"
  have len: "length ws = 1024" by (simp add: ws_def)
  have "v \<in> bits_set ws \<longleftrightarrow> v \<in> S" for v
  proof (cases "v < 65536")
    case True
    then have i: "v div 64 < 1024" by simp
    note at = word_byte [of v]
    have "v mod 64 div 8 < 8" by (simp add: div_less_iff_less_mult)
    note i = i this
    have "v div 8 < 8192" using True by simp
    then have "8 * (v div 64) + (v mod 64) div 8 < length b" using at(1) assms(1) by simp
    then have "drop (8 * (v div 64)) b ! ((v mod 64) div 8) = b ! (v div 8)" using at(1) by simp
    then show ?thesis
      using i assms(2) [of "v div 8" "v mod 8"] \<open>v div 8 < 8192\<close> at(2)
      by (simp add: mem_bits_set len) (simp add: ws_def bit_get_le)
  next
    case False
    then show ?thesis using assms(3) bits_set_65536 [OF len] by auto
  qed
  then have S: "bits_set ws = S" by blast
  have ws_again: "map (\<lambda>i. get_le 8 (drop (8 * i) b)) [0..<1024] = ws" by (simp add: ws_def)
  have "take_bytes portable_bitset_bytes (b @ r) = Some (b, r)"
    using assms(1) by (intro take_bytes_append) (simp add: portable_bitset_bytes_def)
  then have "portable_read_bitset (card S) (b @ r) = Some (set_cardinality (card S) (make_bitset_uninitialized ws), r)"
    using S ws_again by (simp add: portable_read_bitset_def Let_def popcount_words_card)
  moreover have "exact S (set_cardinality (card S) (make_bitset_uninitialized ws))"
    using wf_uninitialized_counted(1) [OF len] S by (simp add: exact_def counted)
  moreover have "\<not> holds_run (set_cardinality (card S) (make_bitset_uninitialized ws))"
    using wf_uninitialized_counted(2) [OF len] by (simp add: holds_run_def kind_def)
  ultimately show ?thesis using slot_okI [OF _ assms(4)] exact_wf(2) by blast
qed

lemma bits_of_words:
  assumes "length ws = 1024" "i < 8192" "k < 8"
  shows "bit (concat (map (put_le 8) ws) ! i) k \<longleftrightarrow> 8 * i + k \<in> bits_set ws"
proof -
  have "concat (map (put_le 8) ws) ! i = ucast (drop_bit (8 * (i mod 8)) (ws ! (i div 8)))"
    using nth_blocks [of "put_le 8" 8 i ws] assms(1,2) by (simp add: put_le_def)
  moreover have "(8 * i + k) div 64 = i div 8" "(8 * i + k) mod 64 = 8 * (i mod 8) + k"
    using div_mult2_eq [of "8 * i + k" 8 8] mod_mult2_eq [of "8 * i + k" 8 8] assms(3) by simp_all
  moreover have "i div 8 < 1024" using assms(2) by (simp add: div_less_iff_less_mult)
  ultimately show ?thesis
    using assms by (simp add: bit_ucast_iff bit_drop_bit_eq mem_bits_set)
qed

lemma scatter_bytes:
  "length out = 8192 \<Longrightarrow> i < 8192 \<Longrightarrow> k < 8 \<Longrightarrow>
    bit (fold (\<lambda>v out. out[unat (drop_bit 3 v) := out ! unat (drop_bit 3 v) OR push_bit (unat (v AND 7)) 1]) vs out ! i) k \<longleftrightarrow>
    bit (out ! i) k \<or> 8 * i + k \<in> array_set vs"
  for out :: "byte list" and vs :: "low list"
proof (induction vs arbitrary: out)
  case (Cons v vs)
  have parts: "unat (drop_bit 3 v) = unat v div 8" "unat (v AND 7) = unat v mod 8"
  proof -
    show "unat (drop_bit 3 v) = unat v div 8" unfolding unat_drop_bit_eq by (simp add: drop_bit_eq_div)
    have "v AND 7 = take_bit 3 v" by (simp add: take_bit_eq_mask mask_eq_exp_minus_1)
    then show "unat (v AND 7) = unat v mod 8" by (simp add: unsigned_take_bit_eq take_bit_eq_mod unat_mod_distrib)
  qed
  have one: "bit (push_bit (unat v mod 8) (1 :: byte)) k \<longleftrightarrow> k = unat v mod 8"
    using Cons.prems(3) unfolding bit_push_bit_iff bit_1_iff by auto
  let ?out = "out[unat v div 8 := out ! (unat v div 8) OR push_bit (unat v mod 8) 1]"
  have "bit (?out ! i) k \<longleftrightarrow> bit (out ! i) k \<or> (i = unat v div 8 \<and> k = unat v mod 8)"
    using Cons.prems(1,2) one by (cases "i = unat v div 8") (simp_all add: bit_or_iff del: push_bit_of_1)
  moreover have "unat v = 8 * i + k \<longleftrightarrow> i = unat v div 8 \<and> k = unat v mod 8" using Cons.prems(3) by auto
  ultimately show ?case
    using Cons.IH [of ?out] Cons.prems unfolding fold.simps parts o_apply array_set_Cons by auto
qed simp

lemma read_runs_again:
  "runs_read dst covered pe \<Longrightarrow> wf_runs (dst @ rs) \<Longrightarrow>
    \<exists>covered'. portable_read_runs (length rs)
      (concat (map (\<lambda>r. portable_put16 (rbegin r) @ portable_put16 (rend r - rbegin r)) rs) @ q) covered pe dst =
      Some (covered', dst @ rs)"
proof (induction rs arbitrary: dst covered pe)
  case (Cons r rs)
  let ?p = "concat (map (\<lambda>r. portable_put16 (rbegin r) @ portable_put16 (rend r - rbegin r)) (r # rs)) @ q"
  define b where "b = uint (rbegin r)"
  define e where "e = b + uint (rend r - rbegin r)"
  have ok: "rbegin r \<le> rend r" using Cons.prems(2) by (simp add: wf_runs_append wf_runs_Cons run_ok_def)
  have e: "e = uint (rend r)" using ok by (simp add: e_def b_def uint_minus_simple_alt word_le_def uint_sub_if')
  have fields: "uint (portable_get16 ?p) = b" "b + uint (portable_get16 (drop 2 ?p)) = e" "drop 4 ?p =
      concat (map (\<lambda>r. portable_put16 (rbegin r) @ portable_put16 (rend r - rbegin r)) rs) @ q"
    by (simp_all add: b_def e_def)
  have low: "0 \<le> b" "b \<le> e" "e \<le> 65535" using uint_lt2p [of "rend r"] by (simp_all add: b_def e_def e [symmetric])
  have before: "pe < b \<and> (dst \<noteq> [] \<longrightarrow> b \<noteq> pe + 1)"
  proof (cases "dst = []")
    case True
    then show ?thesis using Cons.prems(1) low by (simp add: runs_read_def)
  next
    case False
    then have "run_gap (last dst) r" using Cons.prems(2) by (simp add: wf_runs_append)
    moreover have "pe = int (unat (rend (last dst)))" using False Cons.prems(1) by (simp add: runs_read_def)
    moreover have "b = int (unat (rbegin r))" by (simp add: b_def)
    ultimately show ?thesis unfolding run_gap_def by linarith
  qed
  have dst': "(if b = pe + 1 \<and> dst \<noteq> [] then butlast dst @ [(last dst)\<lparr>rend := of_int e\<rparr>] else dst @ [mk_run (of_int b) (of_int e)])
      = dst @ [r]"
    using before by (auto simp: b_def e)
  note step = runs_read_step(1) [OF Cons.prems(1) conjunct1 [OF before] low(2,3,1), unfolded dst']
  obtain c where c: "portable_read_runs (length rs)
      (concat (map (\<lambda>r. portable_put16 (rbegin r) @ portable_put16 (rend r - rbegin r)) rs) @ q)
      ((covered + nat (e - b + 1)) mod 2 ^ 32) e (dst @ [r]) = Some (c, (dst @ [r]) @ rs)"
    using Cons.IH [OF step] Cons.prems(2) by auto
  have "\<not> (e > 65535 \<or> b \<le> pe)" using before low by simp
  then have "portable_read_runs (length (r # rs)) ?p covered pe dst = Some (c, dst @ r # rs)"
    using c unfolding list.size(4) add_Suc_right add_0_right portable_read_runs.simps Let_def fields dst' by simp
  then show ?case by blast
qed simp

lemma run_payload_back:
  assumes "wf_runs rs" "rs \<noteq> []"
  shows "\<exists>h. portable_read_run (card (runs_set rs)) (portable_put16 (of_nat (length rs)) @
      concat (map (\<lambda>r. portable_put16 (rbegin r) @ portable_put16 (rend r - rbegin r)) rs) @ q) = Some (h, q) \<and>
    slot_ok h \<and> values_of h = runs_set rs \<and> holds_run h"
proof -
  let ?b = "concat (map (\<lambda>r. portable_put16 (rbegin r) @ portable_put16 (rend r - rbegin r)) rs)"
  have "length rs < 65536"
  proof -
    have "run_starts (runs_set rs) \<subseteq> {..<65536} - {0} \<or> run_starts (runs_set rs) \<subseteq> {..<65536} - {1}"
      using runs_set_bound by (auto simp: run_starts_def)
    then have "card (run_starts (runs_set rs)) \<le> 65535"
      using card_mono [of "{..<65536} - {0 :: nat}"] card_mono [of "{..<65536} - {1 :: nat}"] by auto
    then show ?thesis by (simp add: card_run_starts_runs_set [OF assms(1)])
  qed
  then have n: "unat (of_nat (length rs) :: 16 word) = length rs" by (simp add: unat_of_nat take_bit_nat_eq_self)
  have "length ?b = length rs * 4"
    using length_blocks [of "\<lambda>r. portable_put16 (rbegin r) @ portable_put16 (rend r - rbegin r)" 4 rs] by simp
  then have t: "take_bytes (length rs * 4) (?b @ q) = Some (?b, q)" by (rule take_bytes_append)
  have start: "runs_read [] 0 (- 1)" by (simp add: runs_read_def)
  obtain c where c: "portable_read_runs (length rs) ?b 0 (- 1) [] = Some (c, rs)"
    using read_runs_again [OF start, of rs "[]"] assms(1) by auto
  have card: "c = card (runs_set rs)" using read_runs_ok [OF c start] by simp
  let ?c = "\<lparr>runs = rs, rc_cardinality = card (runs_set rs)\<rparr>"
  have h: "set_endpoints (rbegin (hd rs)) (rend (last rs)) (set_cardinality (card (runs_set rs)) (set_run_list rs make_run)) =
      handle_from_run_container ?c" using assms(2) by (simp add: handle_from_run_container_def Let_def)
  have t2: "take_bytes 2 (portable_put16 (of_nat (length rs)) @ ?b @ q) = Some (portable_put16 (of_nat (length rs)), ?b @ q)"
    by (rule take_bytes_append) simp
  have "portable_read_run (card (runs_set rs)) (portable_put16 (of_nat (length rs)) @ ?b @ q) = Some (handle_from_run_container ?c, q)"
    using c card assms(2) by (simp add: portable_read_run_def t2 Let_def n t portable_run_container_def h)
  moreover have "wf_rc ?c" using assms(1) by (simp add: wf_rc_def)
  note made = handle_from_run_container_correct [OF this]
  moreover have "slot_ok (handle_from_run_container ?c)"
    using made(1) assms by (intro slot_okI [of "runs_set rs"]) (simp_all add: exact_def counted rc_set_def runs_set_empty_iff)
  ultimately show ?thesis by (simp add: holds_set_def rc_set_def holds_run_def kind_def)
qed

definition same_slot :: "container \<Rightarrow> container \<Rightarrow> bool" where
  "same_slot h h' \<longleftrightarrow> slot_ok h' \<and> values_of h' = values_of h \<and> (holds_run h' \<longleftrightarrow> holds_run h)"

lemma container_bytes:
  assumes "slot_ok h"
  shows "length (portable_write_container h (portable_wire_of h)) = wire_bytes (portable_wire_of h)"
    "\<exists>h'. portable_read_container (holds_run h) (cardinality h) (portable_write_container h (portable_wire_of h) @ r) = Some (h', r) \<and>
       same_slot h h'"
proof -
  let ?w = "portable_write_container h (portable_wire_of h)"
  note wf = slot_okE [OF assms]
  have h: "wf_container h" "cardinality h = card (values_of h)" "0 < cardinality h" "cardinality h = length (container_values h)"
    using wf by blast+
  have vs: "strict (container_values h)" "array_set (container_values h) = values_of h" "container_values h \<noteq> []"
    using container_values_correct [OF h(1)] h(3,4) by auto
  consider (run) "holds_run h" | (array) "\<not> holds_run h" "cardinality h \<le> portable_array_max_cardinality"
    | (bitset) "\<not> holds_run h" "cardinality h > portable_array_max_cardinality" by linarith
  then have "length ?w = wire_bytes (portable_wire_of h) \<and>
    (\<exists>h'. portable_read_container (holds_run h) (cardinality h) (?w @ r) = Some (h', r) \<and> same_slot h h')"
  proof cases
    case run
    obtain rs where rs: "wf_runs rs" "run_list h = rs" "values_of h = runs_set rs" using h(1) run by (rule wf_runE)
    have ne: "rs \<noteq> []" using rs(3) assms by (auto simp: slot_ok_def)
    have w: "?w = portable_put16 (of_nat (length rs)) @ concat (map (\<lambda>r. portable_put16 (rbegin r) @ portable_put16 (rend r - rbegin r)) rs)"
      using run rs(2) by (simp add: portable_write_container_def portable_wire_of_def)
    then have "length ?w = wire_bytes (portable_wire_of h)"
      using run rs(2) length_blocks [of "\<lambda>r. portable_put16 (rbegin r) @ portable_put16 (rend r - rbegin r)" 4 rs]
      by (simp add: portable_wire_of_def)
    then show ?thesis
      using run_payload_back [OF rs(1) ne, of r] run rs(3) h(2)
      unfolding w by (simp add: portable_read_container_def same_slot_def)
  next
    case array
    have w: "?w = concat (map portable_put16 (container_values h))"
    proof (cases h rule: form_cases)
      case array
      then have "array_values h = container_values h" by (simp add: container_values_def)
      then show ?thesis
        using \<open>\<not> holds_run h\<close> \<open>cardinality h \<le> portable_array_max_cardinality\<close> array h(4)
          length_blocks [of portable_put16 2 "container_values h"]
        by (simp add: portable_write_container_def portable_wire_of_def mult.commute)
    next
      case bitset
      then have "values_from_words (bitset_words h) = container_values h" "\<not> holds_array h"
        by (simp_all add: container_values_def bitset_values_def holds_array_def)
      then show ?thesis
        using \<open>\<not> holds_run h\<close> \<open>cardinality h \<le> portable_array_max_cardinality\<close>
        by (simp add: portable_write_container_def portable_wire_of_def)
    qed (use array in simp)
    have "length ?w = wire_bytes (portable_wire_of h)"
      using array h(4) length_blocks [of portable_put16 2 "container_values h"] unfolding w
      by (simp add: portable_wire_of_def mult.commute)
    moreover note array_payload_back [OF vs(1,3), of r]
    ultimately show ?thesis
      using array vs(2) unfolding w h(4) by (simp add: portable_read_container_def same_slot_def h(4) [symmetric])
  next
    case bitset
    have limit: "\<not> cardinality h \<le> portable_array_max_cardinality" using bitset(2) by simp
    have w: "length ?w = 8192 \<and> (\<forall>i<8192. \<forall>k<8. bit (?w ! i) k \<longleftrightarrow> 8 * i + k \<in> values_of h)"
    proof (cases h rule: form_cases)
      case array
      have "array_values h = container_values h" using array by (simp add: container_values_def)
      moreover have "\<not> holds_bitset h" using array by (simp add: holds_bitset_def)
      moreover have "length (fold (\<lambda>v out. out[unat (drop_bit 3 v) := out ! unat (drop_bit 3 v) OR push_bit (unat (v AND 7)) 1]) us out) = length out"
        for us :: "low list" and out :: "byte list" by (induction us arbitrary: out) simp_all
      ultimately show ?thesis
        using bitset vs(2) scatter_bytes [of "replicate 8192 0" _ _ "container_values h"]
        by (simp add: portable_write_container_def portable_wire_of_def portable_bitset_bytes_def)
    next
      case bitset
      obtain ws where ws: "length ws = 1024" "bitset_words h = ws" "values_of h = bits_set ws"
        using h(1) bitset(1) by (rule wf_bitsetE)
      have "length (concat (map (put_le 8) ws)) = 8192" using length_blocks [of "put_le 8" 8 ws] ws(1) by simp
      then have "?w = concat (map (put_le 8) ws)"
        using \<open>\<not> holds_run h\<close> \<open>cardinality h > portable_array_max_cardinality\<close> bitset ws(2)
        by (simp add: portable_write_container_def portable_wire_of_def portable_bitset_bytes_def)
      then show ?thesis using bits_of_words [OF ws(1)] \<open>length (concat (map (put_le 8) ws)) = 8192\<close> ws(3) by simp
    qed (use bitset in simp)
    have sub: "values_of h \<subseteq> {..<65536}" using vs(2) array_set_bound by (metis lessThan_iff subsetI)
    have ne: "values_of h \<noteq> {}" using assms by (simp add: slot_ok_def)
    have "wire_bytes (portable_wire_of h) = 8192" using bitset by (simp add: portable_wire_of_def portable_bitset_bytes_def)
    then show ?thesis
      using bitset w bitset_payload_back [OF _ _ sub ne, of ?w r] h(2)
      by (auto simp: portable_read_container_def same_slot_def)
  qed
  then show "length ?w = wire_bytes (portable_wire_of h)"
    "\<exists>h'. portable_read_container (holds_run h) (cardinality h) (?w @ r) = Some (h', r) \<and> same_slot h h'" by blast+
qed

subsection \<open>What the writer's loop leaves\<close>

definition slot_pair :: "16 word \<times> container \<Rightarrow> byte list" where
  "slot_pair entry = portable_put16 (fst entry) @ portable_put16 (of_nat (wire_cardinality (portable_wire_of (snd entry)) - 1))"

definition slot_payload :: "16 word \<times> container \<Rightarrow> byte list" where
  "slot_payload entry = portable_write_container (snd entry) (portable_wire_of (snd entry))"

definition flag_at :: "byte list \<Rightarrow> nat \<Rightarrow> bool" where
  "flag_at flags j \<longleftrightarrow> j div 8 < length flags \<and> bit (flags ! (j div 8)) (j mod 8)"

lemma wire_cardinality [simp]: "wire_cardinality (portable_wire_of h) = cardinality h"
  by (simp add: portable_wire_of_def)

lemma flag_update:
  assumes "k div 8 < length fl"
  shows "flag_at (fl[k div 8 := fl ! (k div 8) OR push_bit (k mod 8) 1]) j \<longleftrightarrow> flag_at fl j \<or> j = k"
proof (cases "j div 8 = k div 8")
  case True
  have "bit (push_bit (k mod 8) (1 :: byte)) (j mod 8) \<longleftrightarrow> j mod 8 = k mod 8"
    unfolding bit_push_bit_iff bit_1_iff by auto
  moreover have "j mod 8 = k mod 8 \<longleftrightarrow> j = k" using True by (metis div_mult_mod_eq)
  ultimately show ?thesis using True assms by (simp add: flag_at_def bit_or_iff del: push_bit_of_1)
next
  case False
  then show ?thesis by (auto simp: flag_at_def)
qed

lemma writer_loop:
  assumes "with_runs \<Longrightarrow> k + length slots \<le> 8 * length fl" "\<forall>h\<in>snd ` set slots. holds_run h \<longrightarrow> with_runs"
  shows "\<exists>fl' o'. fold (portable_write_slot header) (enumerate k slots) (fl, d, off, p) =
      (fl', d @ concat (map slot_pair slots), o', p @ concat (map slot_payload slots)) \<and>
    length fl' = length fl \<and> length o' = length off + 4 * length slots \<and>
    (\<forall>j. flag_at fl' j \<longleftrightarrow> flag_at fl j \<or> (k \<le> j \<and> j < k + length slots \<and> holds_run (snd (slots ! (j - k)))))"
  using assms
proof (induction slots arbitrary: k fl d off p)
  case (Cons entry slots)
  obtain key h where entry: "entry = (key, h)" by (cases entry)
  define fl1 where "fl1 = (if holds_run h then fl[k div 8 := fl ! (k div 8) OR push_bit (k mod 8) 1] else fl)"
  have f1: "length fl1 = length fl" "flag_at fl1 j \<longleftrightarrow> flag_at fl j \<or> (j = k \<and> holds_run h)" for j
  proof -
    show "length fl1 = length fl" by (simp add: fl1_def)
    have "k div 8 < length fl" if "holds_run h"
      using Cons.prems that by (simp add: entry div_less_iff_less_mult)
    then show "flag_at fl1 j \<longleftrightarrow> flag_at fl j \<or> (j = k \<and> holds_run h)" using flag_update by (simp add: fl1_def)
  qed
  have one: "portable_write_slot header (k, entry) (fl, d, off, p) =
      (fl1, d @ slot_pair entry, off @ portable_put32 (of_nat (header + length p)), p @ slot_payload entry)"
    by (simp add: portable_write_slot_def entry slot_pair_def slot_payload_def fl1_def Let_def)
  have "with_runs \<Longrightarrow> Suc k + length slots \<le> 8 * length fl1" using Cons.prems(1) f1(1) by simp
  moreover have "\<forall>h\<in>snd ` set slots. holds_run h \<longrightarrow> with_runs" using Cons.prems(2) by auto
  ultimately obtain fl' o' where r: "fold (portable_write_slot header) (enumerate (Suc k) slots)
      (fl1, d @ slot_pair entry, off @ portable_put32 (of_nat (header + length p)), p @ slot_payload entry) =
      (fl', (d @ slot_pair entry) @ concat (map slot_pair slots), o', (p @ slot_payload entry) @ concat (map slot_payload slots))"
    "length fl' = length fl1" "length o' = length (off @ portable_put32 (of_nat (header + length p))) + 4 * length slots"
    "\<forall>j. flag_at fl' j \<longleftrightarrow> flag_at fl1 j \<or> (Suc k \<le> j \<and> j < Suc k + length slots \<and> holds_run (snd (slots ! (j - Suc k))))"
    using Cons.IH [of "Suc k" fl1] by blast
  have at: "k \<le> j \<and> j < k + length (entry # slots) \<and> holds_run (snd ((entry # slots) ! (j - k))) \<longleftrightarrow>
      (j = k \<and> holds_run h) \<or> (Suc k \<le> j \<and> j < Suc k + length slots \<and> holds_run (snd (slots ! (j - Suc k))))" for j
    by (cases j k rule: linorder_cases) (simp_all add: entry nth_Cons' Suc_le_eq)
  show ?case
    unfolding at using one r f1 by (intro exI [of _ fl'] exI [of _ o']) (auto simp: enumerate_simps)
qed auto

subsection \<open>The table comes back\<close>

definition same_table :: "('k \<times> container) list \<Rightarrow> ('k \<times> container) list \<Rightarrow> bool" where
  "same_table slots slots' \<longleftrightarrow> list_all2 (\<lambda>(key, h) (key', h'). key' = key \<and> same_slot h h') slots slots'"

lemma same_table_forms:
  "same_table slots slots' \<Longrightarrow>
    map (\<lambda>(key, h). (key, values_of h, holds_run h)) slots' = map (\<lambda>(key, h). (key, values_of h, holds_run h)) slots"
  unfolding same_table_def by (induction rule: list_all2_induct) (auto simp: same_slot_def)

text \<open>The total the reader keeps is the number of values.\<close>

lemma total_of_slots:
  assumes "table_ok slots"
  shows "fold (\<lambda>(_, slot) total. total + cardinality slot) slots t = t + (\<Sum>(_, h)\<leftarrow>slots. card (values_of h))"
  using assms
proof (induction slots arbitrary: t)
  case (Cons entry slots)
  obtain key h where e: "entry = (key, h)" by (cases entry)
  have "cardinality h = card (values_of h)"
    using Cons.prems e by (auto simp: table_ok_def slot_ok_def wf_container_def cardinality_ok_def)
  then show ?case using Cons.IH [of "t + cardinality h"] Cons.prems e by (simp add: table_ok_def)
qed simp

lemma length_slot_pair [simp]: "length (slot_pair entry) = 4"
  by (simp add: slot_pair_def)

lemma pair_fields:
  assumes "slot_ok h"
  shows "portable_get16 (drop (4 * length pre) (concat (map slot_pair (pre @ (key, h) # us)))) = key"
    "unat (portable_get16 (drop (4 * length pre + 2) (concat (map slot_pair (pre @ (key, h) # us))))) + 1 = cardinality h"
proof -
  have d: "drop (4 * length pre) (concat (map slot_pair (pre @ (key, h) # us))) = slot_pair (key, h) @ concat (map slot_pair us)"
    using drop_blocks [of slot_pair 4 "length pre" "pre @ (key, h) # us" "[]"] by simp
  show "portable_get16 (drop (4 * length pre) (concat (map slot_pair (pre @ (key, h) # us)))) = key"
    unfolding d by (simp add: slot_pair_def)
  have "drop (4 * length pre + 2) (concat (map slot_pair (pre @ (key, h) # us))) = drop 2 (slot_pair (key, h) @ concat (map slot_pair us))"
    unfolding d [symmetric] drop_drop by (simp add: add.commute)
  also have "\<dots> = portable_put16 (of_nat (cardinality h - 1)) @ concat (map slot_pair us)" by (simp add: slot_pair_def)
  finally have g: "portable_get16 (drop (4 * length pre + 2) (concat (map slot_pair (pre @ (key, h) # us)))) = of_nat (cardinality h - 1)"
    by (simp only: get_put16)
  have n: "0 < cardinality h" "cardinality h \<le> 65536" using slot_okE [OF assms] by blast+
  then have "unat (of_nat m :: 16 word) = m" if "m < 65536" for m
    using that by (simp add: unat_of_nat take_bit_nat_eq_self)
  from this [of "cardinality h - 1"] n show "unat (portable_get16 (drop (4 * length pre + 2) (concat (map slot_pair (pre @ (key, h) # us))))) + 1 = cardinality h"
    unfolding g using n(1) by linarith
qed

lemma read_slots_back:
  assumes "\<And>j. j < length (pre @ us) \<Longrightarrow> (with_runs \<and> drop_bit (j mod 8) (flags ! (j div 8)) AND 1 \<noteq> 0) \<longleftrightarrow> holds_run (snd ((pre @ us) ! j))"
    and "table_ok us" "\<forall>(key, _)\<in>set us. previous_key < uint key"
  shows "\<exists>us'. portable_read_slots with_runs flags (concat (map slot_pair (pre @ us))) [length pre..<length (pre @ us)] previous_key
      (concat (map slot_payload us) @ r) = Some (us', r) \<and> same_table us us'"
  using assms
proof (induction us arbitrary: pre previous_key)
  case Nil
  then show ?case by (simp add: same_table_def)
next
  case (Cons entry us)
  obtain key h where entry: "entry = (key, h)" by (cases entry)
  let ?all = "pre @ entry # us"
  have h: "slot_ok h" using Cons.prems(2) by (simp add: table_ok_def entry)
  note fields = pair_fields [OF h, of pre key us, folded entry]
  have upt: "[length pre..<length ?all] = length pre # [length (pre @ [entry])..<length ((pre @ [entry]) @ us)]"
    by (subst upt_conv_Cons) (simp_all del: upt_Suc)
  have key: "\<not> uint key \<le> previous_key" using Cons.prems(3) by (simp add: entry)
  have is_run: "(with_runs \<and> drop_bit (length pre mod 8) (flags ! (length pre div 8)) AND 1 \<noteq> 0) = holds_run h"
    using Cons.prems(1) [of "length pre"] by (simp add: entry nth_append)
  obtain h' where h': "portable_read_container (holds_run h) (cardinality h)
      (slot_payload entry @ concat (map slot_payload us) @ r) = Some (h', concat (map slot_payload us) @ r)" "same_slot h h'"
    using container_bytes(2) [OF h, of "concat (map slot_payload us) @ r"] by (auto simp: slot_payload_def entry)
  have tab: "table_ok us" using Cons.prems(2) by (simp add: table_ok_def)
  have up: "\<forall>(key', _)\<in>set us. uint key < uint key'"
    using Cons.prems(2) by (auto simp: table_ok_def entry word_less_def)
  have flags: "(with_runs \<and> drop_bit (j mod 8) (flags ! (j div 8)) AND 1 \<noteq> 0) \<longleftrightarrow> holds_run (snd (((pre @ [entry]) @ us) ! j))"
    if "j < length ((pre @ [entry]) @ us)" for j using Cons.prems(1) [of j] that by simp
  obtain us' where us': "portable_read_slots with_runs flags (concat (map slot_pair ((pre @ [entry]) @ us)))
      [length (pre @ [entry])..<length ((pre @ [entry]) @ us)] (uint key) (concat (map slot_payload us) @ r) = Some (us', r)"
      "same_table us us'"
    using Cons.IH [OF flags tab up] by blast
  have "portable_read_slots with_runs flags (concat (map slot_pair ?all)) [length pre..<length ?all] previous_key
      (concat (map slot_payload (entry # us)) @ r) = Some ((key, h') # us', r)"
    unfolding upt portable_read_slots.simps Let_def fields if_not_P [OF key] is_run
    using h'(1) us'(1) by simp
  then show ?case using h'(2) us'(2) by (auto simp: same_table_def entry)
qed

lemma flag_bit: "drop_bit k (w :: byte) AND 1 \<noteq> 0 \<longleftrightarrow> bit w k"
  by (simp add: bit_iff_odd_drop_bit and_one_eq odd_iff_mod_2_eq_one)

lemma plan_of_slots:
  "portable_plan_for slots =
    (let n = length slots; with_runs = list_ex (\<lambda>(_, h). holds_run h) slots
     in \<lparr>containers = n, has_run = with_runs,
          header_bytes = (if with_runs then 4 + (n + 7) div 8 + 4 * n + (if n \<ge> portable_no_offset_threshold then 4 * n else 0) else 8 + 8 * n),
          payload_bytes = sum_list (map (\<lambda>(_, h). wire_bytes (portable_wire_of h)) slots)\<rparr>)"
proof -
  have "fold (\<lambda>(_, slot) plan. plan\<lparr>containers := containers plan + 1, has_run := has_run plan \<or> holds_run slot,
          payload_bytes := payload_bytes plan + wire_bytes (portable_wire_of slot)\<rparr>) slots
        \<lparr>containers = n, has_run = b, header_bytes = 0, payload_bytes = p\<rparr> =
      \<lparr>containers = n + length slots, has_run = b \<or> list_ex (\<lambda>(_, h). holds_run h) slots, header_bytes = 0,
        payload_bytes = p + sum_list (map (\<lambda>(_, h). wire_bytes (portable_wire_of h)) slots)\<rparr>" for n b p
    by (induction slots arbitrary: n b p) auto
  then show ?thesis by (simp add: portable_plan_for_def Let_def)
qed

lemma strict_keys_bound: "strict (xs :: 16 word list) \<Longrightarrow> length xs \<le> 65536"
proof -
  assume "strict xs"
  then have "length xs = card (unat ` set xs)" using card_array_set [of xs] by (simp add: array_set_def)
  moreover have "unat ` set xs \<subseteq> {..<65536}" using unat_low_less by auto
  ultimately show ?thesis using card_mono [of "{..<65536 :: nat}" "unat ` set xs"] by simp
qed

text \<open>The written bytes: cookie, flags, pairs, offsets and payloads.\<close>

lemma written_parts:
  assumes "table_ok slots"
  defines "with_runs \<equiv> list_ex (\<lambda>(_, h). holds_run h) slots" and "n \<equiv> length slots"
  obtains flags offsets where
    "portable_write_32 slots =
      (if with_runs then portable_put32 (portable_cookie_with_run OR push_bit 16 (of_nat n - 1))
       else portable_put32 portable_cookie_no_run @ portable_put32 (of_nat n)) @
      flags @ concat (map slot_pair slots) @ offsets @ concat (map slot_payload slots)"
    "length flags = (if with_runs then (n + 7) div 8 else 0)"
    "length offsets = (if \<not> with_runs \<or> n \<ge> portable_no_offset_threshold then 4 * n else 0)"
    "\<And>j. j < n \<Longrightarrow> (with_runs \<and> drop_bit (j mod 8) (flags ! (j div 8)) AND 1 \<noteq> 0) \<longleftrightarrow> holds_run (snd (slots ! j))"
proof -
  define cookie where "cookie = (if with_runs then portable_put32 (portable_cookie_with_run OR push_bit 16 (of_nat n - 1))
       else portable_put32 portable_cookie_no_run @ portable_put32 (of_nat n))"
  define offs where "offs \<longleftrightarrow> \<not> with_runs \<or> n \<ge> portable_no_offset_threshold"
  define fb where "fb = (if with_runs then (n + 7) div 8 else 0)"
  define header_size where "header_size = length cookie + fb + 4 * n + (if offs then 4 * n else 0)"
  have "n \<le> 8 * ((n + 7) div 8)" by linarith
  then have room: "with_runs \<Longrightarrow> 0 + length slots \<le> 8 * length (replicate fb (0 :: byte))" by (simp add: fb_def n_def)
  have mem: "\<forall>h\<in>snd ` set slots. holds_run h \<longrightarrow> with_runs" by (auto simp: with_runs_def list_ex_iff)
  obtain flags o' where w: "fold (portable_write_slot header_size) (enumerate 0 slots) (replicate fb 0, [], [], []) =
      (flags, concat (map slot_pair slots), o', concat (map slot_payload slots))"
    "length flags = fb" "length o' = 4 * n"
    "\<forall>j. flag_at flags j \<longleftrightarrow> flag_at (replicate fb 0) j \<or> (j < n \<and> holds_run (snd (slots ! j)))"
    using writer_loop [OF room mem, where header = header_size and d = "[]" and off = "[]" and p = "[]"] by (auto simp: n_def)
  have none: "\<not> flag_at (replicate fb 0) j" for j by (auto simp: flag_at_def)
  have "(with_runs \<and> drop_bit (j mod 8) (flags ! (j div 8)) AND 1 \<noteq> 0) \<longleftrightarrow> holds_run (snd (slots ! j))" if j: "j < n" for j
  proof (cases with_runs)
    case True
    have "j div 8 < length flags" using j True w(2) by (simp add: fb_def)
    moreover have "flag_at flags j \<longleftrightarrow> holds_run (snd (slots ! j))" using w(4) none j by blast
    ultimately show ?thesis using True by (simp add: flag_bit flag_at_def)
  next
    case False
    then show ?thesis using j mem by (auto simp: n_def)
  qed
  moreover have "portable_write_32 slots = cookie @ flags @ concat (map slot_pair slots) @ (if offs then o' else []) @ concat (map slot_payload slots)"
    unfolding portable_write_32_def Let_def with_runs_def [symmetric] n_def [symmetric] offs_def [symmetric] fb_def [symmetric]
      cookie_def [symmetric] header_size_def [symmetric] w(1) by simp
  ultimately show thesis
    using that [of flags "if offs then o' else []"] w(2,3) by (simp add: cookie_def fb_def offs_def)
qed

theorem portable_size_is_written:
  assumes "table_ok slots"
  shows "length (portable_write_32 slots) = portable_size_in_bytes slots"
proof -
  obtain flags offsets where w: "portable_write_32 slots =
      (if list_ex (\<lambda>(_, h). holds_run h) slots then portable_put32 (portable_cookie_with_run OR push_bit 16 (of_nat (length slots) - 1))
       else portable_put32 portable_cookie_no_run @ portable_put32 (of_nat (length slots))) @
      flags @ concat (map slot_pair slots) @ offsets @ concat (map slot_payload slots)"
    "length flags = (if list_ex (\<lambda>(_, h). holds_run h) slots then (length slots + 7) div 8 else 0)"
    "length offsets = (if \<not> list_ex (\<lambda>(_, h). holds_run h) slots \<or> length slots \<ge> portable_no_offset_threshold then 4 * length slots else 0)"
    using written_parts [OF assms] by metis
  have "length (concat (map slot_payload slots)) = sum_list (map (\<lambda>(_, h). wire_bytes (portable_wire_of h)) slots)"
    using assms container_bytes(1) by (induction slots) (auto simp: table_ok_def slot_payload_def)
  then show ?thesis
    unfolding w(1) using w(2,3) length_blocks [of slot_pair 4 slots]
    by (simp add: portable_size_in_bytes_def plan_of_slots Let_def)
qed

lemma cookie_halves:
  assumes "0 < n" "n \<le> 65536"
  shows "(portable_cookie_with_run OR push_bit 16 (of_nat n - 1)) AND 0xFFFF = portable_cookie_with_run"
    "unat (drop_bit 16 (portable_cookie_with_run OR push_bit 16 (of_nat n - 1))) + 1 = n"
proof -
  define m where "m = n - 1"
  have m: "m < 65536" "of_nat n - 1 = (of_nat m :: key32)" "n = m + 1" using assms by (simp_all add: m_def of_nat_diff)
  have c: "portable_cookie_with_run = take_bit 16 portable_cookie_with_run" "drop_bit 16 portable_cookie_with_run = 0"
    by (simp_all add: portable_cookie_with_run_def)
  have mask: "0xFFFF = (mask 16 :: key32)" by (simp add: mask_eq_exp_minus_1)
  show "(portable_cookie_with_run OR push_bit 16 (of_nat n - 1)) AND 0xFFFF = portable_cookie_with_run"
    unfolding mask take_bit_eq_mask [symmetric] take_bit_or c(1) [symmetric] by (simp add: take_bit_push_bit)
  have "drop_bit 16 (push_bit 16 (of_nat m :: key32)) = of_nat m"
  proof (rule bit_word_eqI)
    fix k assume "k < LENGTH(32)"
    moreover have "\<not> bit (of_nat m :: key32) k" if "16 \<le> k"
    proof -
      have "m < 2 ^ k" using m(1) power_increasing [OF that, of "2 :: nat"] by simp
      then have "\<not> bit m k" by (simp add: bit_iff_odd)
      then show ?thesis by (simp add: bit_of_nat_iff)
    qed
    ultimately show "bit (drop_bit 16 (push_bit 16 (of_nat m :: key32))) k \<longleftrightarrow> bit (of_nat m :: key32) k"
      by (cases "16 \<le> k") (auto simp: bit_drop_bit_eq bit_push_bit_iff)
  qed
  then show "unat (drop_bit 16 (portable_cookie_with_run OR push_bit 16 (of_nat n - 1))) + 1 = n"
    using m by (simp only: drop_bit_or c(2) or.left_neutral) (simp add: unat_of_nat take_bit_nat_eq_self)
qed

theorem portable_roundtrip:
  assumes "table_ok slots"
  shows "\<exists>slots'. portable_read_32 (portable_write_32 slots @ r) = Some (slots', r) \<and> same_table slots slots'"
proof -
  define with_runs where "with_runs = list_ex (\<lambda>(_, h). holds_run h) slots"
  define n where "n = length slots"
  obtain flags offsets where w: "portable_write_32 slots =
      (if with_runs then portable_put32 (portable_cookie_with_run OR push_bit 16 (of_nat n - 1))
       else portable_put32 portable_cookie_no_run @ portable_put32 (of_nat n)) @
      flags @ concat (map slot_pair slots) @ offsets @ concat (map slot_payload slots)"
    "length flags = (if with_runs then (n + 7) div 8 else 0)"
    "length offsets = (if \<not> with_runs \<or> n \<ge> portable_no_offset_threshold then 4 * n else 0)"
    "\<And>j. j < n \<Longrightarrow> (with_runs \<and> drop_bit (j mod 8) (flags ! (j div 8)) AND 1 \<noteq> 0) \<longleftrightarrow> holds_run (snd (slots ! j))"
    using written_parts [OF assms] unfolding with_runs_def n_def by blast
  have n: "n \<le> 65536" using strict_keys_bound [of "map fst slots"] assms by (simp add: n_def table_ok_def)
  let ?body = "flags @ concat (map slot_pair slots) @ offsets @ concat (map slot_payload slots) @ r"
  have flags: "(with_runs \<and> drop_bit (j mod 8) (flags ! (j div 8)) AND 1 \<noteq> 0) \<longleftrightarrow> holds_run (snd (([] @ slots) ! j))"
    if "j < length ([] @ slots)" for j using w(4) [of j] that unfolding n_def append_Nil by blast
  have first: "\<forall>(key, _)\<in>set slots. - 1 < uint key"
  proof -
    have "- 1 < uint k" for k :: "16 word" using uint_ge_0 [of k] by linarith
    then show ?thesis by blast
  qed
  obtain slots' where s: "portable_read_slots with_runs flags (concat (map slot_pair slots)) [0..<n] (- 1)
      (concat (map slot_payload slots) @ r) = Some (slots', r)" "same_table slots slots'"
    using read_slots_back [OF flags assms first] unfolding n_def append_Nil list.size(3) by blast
  have pairs: "length (concat (map slot_pair slots)) = n * 4" using length_blocks [of slot_pair 4 slots] by (simp add: n_def)
  have body: "portable_read_body with_runs n ?body = Some (slots', r)"
    using w(2,3) s(1) pairs
    by (auto simp: portable_read_body_def take_bytes_append mult.commute split: if_splits)
  have "portable_read_32 (portable_write_32 slots @ r) = portable_read_body with_runs n ?body"
  proof (cases with_runs)
    case True
    then have "0 < n" by (auto simp: with_runs_def n_def)
    from cookie_halves [OF this n] show ?thesis
      using True unfolding portable_read_32_def w(1) by (simp add: take_bytes_append Let_def)
  next
    case False
    have "unat (of_nat n :: key32) = n" using n by (simp add: unat_of_nat take_bit_nat_eq_self)
    moreover have "portable_cookie_no_run AND 0xFFFF \<noteq> portable_cookie_with_run"
      by (simp add: portable_cookie_no_run_def portable_cookie_with_run_def)
    ultimately show ?thesis
      using False n unfolding portable_read_32_def w(1) by (simp add: take_bytes_append Let_def)
  qed
  then show ?thesis using body s(2) by simp
qed

text \<open>A proper prefix of a serialized bitmap is rejected.\<close>

theorem portable_truncation_rejected:
  assumes "table_ok slots" "portable_write_32 slots = bs @ lost" "lost \<noteq> []"
  shows "portable_read_32 bs = None"
proof (rule ccontr)
  assume "portable_read_32 bs \<noteq> None"
  then obtain t rest where "portable_read_32 bs = Some (t, rest)" by auto
  then obtain used where used: "bs = used @ rest" "\<And>more. portable_read_32 (used @ more) = Some (t, more)"
    using readsE [OF reads_read_32] by metis
  have "portable_read_32 (portable_write_32 slots) = Some (t, rest @ lost)" unfolding assms(2) used(1) using used(2) by simp
  then show False using portable_roundtrip [OF assms(1), of "[]"] assms(3) by auto
qed

end
