(* ===== verification/Portable64.thy ===== *)
theory Portable64
  imports Portable_Roundtrip
begin

text \<open>
  The portable format of bitmaps with 64-bit keys (\<open>serialization.hpp\<close>): the chunks in buckets that share the high 32
  bits of the key, each bucket a 32-bit bitmap behind its high half, all behind the number of buckets. A chunk key
  is a 64-bit number below \<open>2 ^ 48\<close>.
\<close>

definition portable_put64 :: "64 word \<Rightarrow> byte list" where
  "portable_put64 v = put_le 8 v"

definition portable_get64 :: "byte list \<Rightarrow> 64 word" where
  "portable_get64 bs = get_le 8 bs"

text \<open>The runs of chunks with the same high half, in key order; the 32-bit writer takes the low half of each key.\<close>

fun portable_buckets :: "(key64 \<times> container) list \<Rightarrow> (key64 \<times> (key64 \<times> container) list) list" where
  "portable_buckets [] = []"
| "portable_buckets (entry # slots) =
    (let high = drop_bit 16 (fst entry);
         same = takeWhile (\<lambda>entry. drop_bit 16 (fst entry) = high) slots
     in (high, entry # same) # portable_buckets (drop (length same) slots))"

definition low_slots :: "(key64 \<times> container) list \<Rightarrow> (16 word \<times> container) list" where
  "low_slots slots = map (\<lambda>(key, slot). (ucast key, slot)) slots"

definition portable_serialize_64 :: "(key64 \<times> container) list \<Rightarrow> byte list" where
  "portable_serialize_64 slots =
    portable_put64 (of_nat (length (portable_buckets slots))) @
    concat (map (\<lambda>(high, bucket). portable_put32 (ucast high) @ portable_write_32 (low_slots bucket)) (portable_buckets slots))"

definition portable_size_in_bytes_64 :: "(key64 \<times> container) list \<Rightarrow> nat" where
  "portable_size_in_bytes_64 slots =
    fold (\<lambda>(_, bucket) total.
           let plan = portable_plan_for (low_slots bucket)
           in if containers plan \<noteq> 0 then total + 4 + header_bytes plan + payload_bytes plan else total)
         (portable_buckets slots) 8"

fun portable_read_buckets :: "nat \<Rightarrow> int \<Rightarrow> byte list \<Rightarrow> ((key64 \<times> container) list \<times> byte list) option" where
  "portable_read_buckets 0 previous_high p = Some ([], p)"
| "portable_read_buckets (Suc n) previous_high p =
    Option.bind (take_bytes 4 p) (\<lambda>(high_bytes, p).
      let high = portable_get32 high_bytes
      in if uint high \<le> previous_high then None
         else Option.bind (portable_read_32 p) (\<lambda>(slots, p).
           Option.bind (portable_read_buckets n (uint high) p) (\<lambda>(rest, p).
             Some (map (\<lambda>(key, slot). (push_bit 16 (ucast high) OR ucast key, slot)) slots @ rest, p))))"

definition portable_read_64 :: "byte list \<Rightarrow> ((key64 \<times> container) list \<times> byte list) option" where
  "portable_read_64 bytes =
    Option.bind (take_bytes 8 bytes) (\<lambda>(count_bytes, p).
      let buckets = unat (portable_get64 count_bytes)
      in if buckets > 2 ^ 32 - 1 \<or> buckets > length p div 12 then None
         else portable_read_buckets buckets (- 1) p)"

definition portable_deserialize_64 :: "byte list \<Rightarrow> ((key64 \<times> container) list \<times> nat) option" where
  "portable_deserialize_64 bytes =
    map_option (\<lambda>(slots, _). (slots, fold (\<lambda>(_, slot) total. total + cardinality slot) slots 0)) (portable_read_64 bytes)"

subsection \<open>What the reader accepts\<close>

lemma reads_read_buckets: "reads (portable_read_buckets n previous_high)"
proof (induction n arbitrary: previous_high)
  case 0
  have "portable_read_buckets 0 previous_high = (\<lambda>p. Some ([], p))" by (rule ext) simp
  then show ?case by (simp only: reads_return)
next
  case (Suc n)
  show ?case
    unfolding portable_read_buckets.simps Let_def
    by (intro reads_bind reads_if reads_take reads_fail reads_read_32 reads_return Suc.IH)
qed

definition chunk_of :: "key32 \<Rightarrow> 16 word \<Rightarrow> key64" where
  "chunk_of high key = push_bit 16 (ucast high) OR ucast key"

lemma chunk_bound: "unat (high :: key32) * 65536 + unat (key :: 16 word) < 2 ^ 48"
proof -
  have "unat high < 4294967296" using unsigned_less [of high, where 'a = nat] by simp
  moreover have "unat key < 65536" by simp
  moreover have "(2 :: nat) ^ 48 = 281474976710656" by simp
  ultimately show ?thesis by linarith
qed

lemma unat_chunk_of: "unat (chunk_of high key) = unat high * 65536 + unat key"
proof -
  have "push_bit 16 (ucast high) AND (ucast key :: key64) = 0"
    by (rule bit_word_eqI) (auto simp: bit_simps dest: bit_imp_le_length)
  then have c: "chunk_of high key = push_bit 16 (ucast high) + ucast key"
    by (simp add: chunk_of_def disjunctive_add_eq_or)
  have h: "unat high < 2 ^ 32" "unat key < 2 ^ 16" using unsigned_less [of high, where 'a = nat] unat_low_less [of key] by simp_all
  have "unat (push_bit 16 (ucast high) :: key64) = unat high * 65536"
    using h(1) by (simp add: push_bit_eq_mult unat_mult_lem [THEN iffD1] unsigned_ucast_eq take_bit_nat_eq_self)
  moreover have "unat key < 2 ^ 64" by (rule less_le_trans [OF h(2)]) simp
  then have "unat (ucast key :: key64) = unat key" by (simp add: unsigned_ucast_eq take_bit_nat_eq_self)
  moreover have "unat high * 65536 + unat key < 2 ^ 64"
    by (rule less_trans [OF chunk_bound [of high key]]) simp
  ultimately show ?thesis unfolding c by (subst unat_add_lem [THEN iffD1]) simp_all
qed

lemma read_buckets_ok:
  "portable_read_buckets n previous_high p = Some (slots, p') \<Longrightarrow>
    table_ok slots \<and> (\<forall>(key, _)\<in>set slots. previous_high < int (unat key div 65536) \<and> unat key < 2 ^ 48)"
proof (induction n arbitrary: previous_high p slots)
  case 0
  then show ?case by (simp add: table_ok_def)
next
  case (Suc n)
  obtain a q b r rest where s: "take_bytes 4 p = Some (a, q)" "\<not> uint (portable_get32 a) \<le> previous_high"
    "portable_read_32 q = Some (b, r)" "portable_read_buckets n (uint (portable_get32 a)) r = Some (rest, p')"
    "slots = map (\<lambda>(key, slot). (chunk_of (portable_get32 a) key, slot)) b @ rest"
    using Suc.prems by (auto simp: Let_def bind_eq_Some_conv chunk_of_def split: if_split_asm)
  define high where "high = portable_get32 a"
  define mine where "mine = map (\<lambda>(key, slot). (chunk_of high key, slot)) b"
  have b: "table_ok b" using portable_read_32_ok [OF s(3)] by simp
  have chunk: "unat (chunk_of high key) div 65536 = unat high" "unat (chunk_of high key) < 2 ^ 48" for key
    using chunk_bound [of high key] unfolding unat_chunk_of by simp_all
  have "map fst mine = map (chunk_of high) (map fst b)" by (simp add: mine_def case_prod_unfold comp_def)
  moreover have "strict (map (chunk_of high) (map fst b))"
    using b by (simp add: table_ok_def sorted_wrt_map word_less_nat_alt unat_chunk_of)
  ultimately have "strict (map fst mine)" by (simp only:)
  moreover have "\<forall>(_, h)\<in>set mine. slot_ok h" using b by (auto simp: table_ok_def mine_def)
  ultimately have mine: "table_ok mine" by (simp only: table_ok_def)
  have in_mine: "unat key div 65536 = unat high \<and> unat key < 2 ^ 48" if "(key, h) \<in> set mine" for key h
    using that chunk by (auto simp: mine_def)
  note ih = Suc.IH [OF s(4), folded high_def]
  have "k < k'" if "k \<in> set (map fst mine)" "k' \<in> set (map fst rest)" for k k'
  proof -
    have "unat k div 65536 = unat high" using that(1) in_mine by auto
    moreover have "uint high < int (unat k' div 65536)" using that(2) ih by auto
    then have "int (unat high) < int (unat k' div 65536)" by (simp only: uint_nat)
    ultimately have "unat k div 65536 < unat k' div 65536" by (simp only: of_nat_less_iff)
    then have "\<not> unat k' \<le> unat k" using div_le_mono [of "unat k'" "unat k" 65536] by linarith
    then show ?thesis by (simp add: word_less_nat_alt)
  qed
  then have "table_ok (mine @ rest)"
    using mine ih by (auto simp: table_ok_def sorted_wrt_append)
  moreover have "previous_high < uint high" using s(2) by (simp add: high_def)
  then have "previous_high < int (unat key div 65536) \<and> unat key < 2 ^ 48" if "(key, h) \<in> set (mine @ rest)" for key h
    using that in_mine [of key h] ih by fastforce
  moreover have "slots = mine @ rest" by (simp add: s(5) mine_def high_def)
  ultimately show ?case by blast
qed

theorem portable_read_64_ok: "portable_read_64 p = Some (slots, p') \<Longrightarrow> table_ok slots \<and> (\<forall>(key, _)\<in>set slots. unat key < 2 ^ 48)"
  using read_buckets_ok by (fastforce simp: portable_read_64_def Let_def bind_eq_Some_conv split: if_split_asm)

subsection \<open>Buckets\<close>

lemma drop_takeWhile: "drop (length (takeWhile P xs)) xs = dropWhile P xs"
  by (simp add: dropWhile_eq_drop)

lemma high_half_mono: "k \<le> k' \<Longrightarrow> drop_bit 16 k \<le> drop_bit 16 k'" for k k' :: key64
  unfolding word_le_nat_alt unat_drop_bit_eq by (simp add: drop_bit_eq_div div_le_mono)

lemma table_ok_append: "table_ok (a @ b) \<Longrightarrow> table_ok a" "table_ok (a @ b) \<Longrightarrow> table_ok b"
  by (auto simp: table_ok_def sorted_wrt_append)

lemma buckets_ok:
  assumes "table_ok slots"
  shows "concat (map snd (portable_buckets slots)) = slots \<and>
    (\<forall>(high, bucket)\<in>set (portable_buckets slots). bucket \<noteq> [] \<and> (\<forall>(key, _)\<in>set bucket. drop_bit 16 key = high)) \<and>
    strict (map fst (portable_buckets slots)) \<and>
    (slots \<noteq> [] \<longrightarrow> (\<forall>high\<in>fst ` set (portable_buckets slots). drop_bit 16 (fst (hd slots)) \<le> high))"
  using assms
proof (induction slots rule: portable_buckets.induct)
  case (2 entry slots)
  define high where "high = drop_bit 16 (fst entry)"
  define same where "same = takeWhile (\<lambda>entry. drop_bit 16 (fst entry) = high) slots"
  define rest where "rest = dropWhile (\<lambda>entry. drop_bit 16 (fst entry) = high) slots"
  have split: "slots = same @ rest" by (simp add: same_def rest_def)
  have drop: "drop (length same) slots = rest" by (simp add: same_def rest_def drop_takeWhile)
  have b: "portable_buckets (entry # slots) = (high, entry # same) # portable_buckets rest"
    by (simp add: Let_def drop [symmetric] same_def [symmetric] high_def [symmetric])
  have sorted: "table_ok ((entry # same) @ rest)" using "2.prems" split by simp
  note ih = "2.IH" [OF high_def same_def, unfolded drop, OF table_ok_append(2) [OF sorted]]
  have in_same: "drop_bit 16 (fst e) = high" if "e \<in> set (entry # same)" for e
    using that by (auto simp: same_def high_def dest: set_takeWhileD)
  then have mine: "\<forall>(key, _)\<in>set (entry # same). drop_bit 16 key = high" by fastforce
  have above: "high < h" if "h \<in> fst ` set (portable_buckets rest)" for h
  proof -
    have ne: "rest \<noteq> []" using that by auto
    then have "drop_bit 16 (fst (hd rest)) \<noteq> high" unfolding rest_def by (rule hd_dropWhile)
    moreover have "fst entry < fst (hd rest)"
      using sorted ne by (cases rest) (auto simp: table_ok_def)
    then have "high \<le> drop_bit 16 (fst (hd rest))" unfolding high_def by (intro high_half_mono) simp
    moreover have "drop_bit 16 (fst (hd rest)) \<le> h" using ih ne that by blast
    ultimately show ?thesis by simp
  qed
  show ?case
    unfolding b using ih mine above split by (auto simp: high_def [symmetric] less_imp_le)
qed simp

lemma low_slots_ok:
  assumes "table_ok bucket" "\<forall>(key, _)\<in>set bucket. drop_bit 16 key = high" "\<forall>(key, _)\<in>set bucket. unat key < 2 ^ 48"
  shows "table_ok (low_slots bucket)" "\<forall>(key, _)\<in>set bucket. chunk_of (ucast high) (ucast key) = key"
proof -
  have split: "unat key = unat high * 65536 + unat (ucast key :: 16 word)" if "(key, h) \<in> set bucket" for key h
  proof -
    have "high = drop_bit 16 key" using assms(2) that by auto
    then have "unat high = unat key div 65536" by (simp only: unat_drop_bit_eq) (simp add: drop_bit_eq_div)
    moreover have "unat (ucast key :: 16 word) = unat key mod 65536" by (simp add: unsigned_ucast_eq take_bit_eq_mod)
    ultimately show ?thesis by simp
  qed
  show "\<forall>(key, _)\<in>set bucket. chunk_of (ucast high) (ucast key) = key"
  proof (intro ballI, clarify)
    fix key h assume k: "(key, h) \<in> set bucket"
    have "unat high < 2 ^ 32" using split [OF k] assms(3) k by fastforce
    then have "unat (ucast high :: key32) = unat high" by (simp add: unsigned_ucast_eq take_bit_nat_eq_self)
    then show "chunk_of (ucast high) (ucast key) = key"
      using split [OF k] by (simp add: word_unat_eq_iff unat_chunk_of)
  qed
  have "sorted_wrt (\<lambda>x y. fst x < fst y) bucket" using assms(1) by (simp add: table_ok_def sorted_wrt_map)
  then have "sorted_wrt (\<lambda>x y. (ucast (fst x) :: 16 word) < ucast (fst y)) bucket"
  proof (rule sorted_wrt_mono_rel [rotated])
    fix x y assume x: "x \<in> set bucket" and y: "y \<in> set bucket" and less: "fst x < fst y"
    show "(ucast (fst x) :: 16 word) < ucast (fst y)"
      using split [of "fst x" "snd x"] split [of "fst y" "snd y"] x y less
      unfolding word_less_nat_alt prod.collapse by linarith
  qed
  then have "strict (map fst (low_slots bucket))"
    by (simp add: low_slots_def sorted_wrt_map case_prod_unfold)
  then show "table_ok (low_slots bucket)" using assms(1) by (auto simp: table_ok_def low_slots_def)
qed

subsection \<open>The table comes back\<close>

lemma same_table_append: "same_table a a' \<Longrightarrow> same_table b b' \<Longrightarrow> same_table (a @ b) (a' @ b')"
  unfolding same_table_def by (rule list_all2_appendI)

lemma same_table_lift:
  assumes "same_table (low_slots bucket) b" "\<forall>(key, _)\<in>set bucket. f (ucast key) = key"
  shows "same_table bucket (map (\<lambda>(key, slot). (f key, slot)) b)"
proof -
  have "list_all2 (\<lambda>x y. fst y = ucast (fst x) \<and> same_slot (snd x) (snd y)) bucket b"
    using assms(1) by (simp add: same_table_def low_slots_def list_all2_map1 case_prod_unfold)
  then show ?thesis
    unfolding same_table_def list_all2_map2
    by (rule list.rel_mono_strong) (use assms(2) in \<open>auto simp: case_prod_unfold\<close>)
qed

definition bucket_bytes :: "key64 \<times> (key64 \<times> container) list \<Rightarrow> byte list" where
  "bucket_bytes b = portable_put32 (ucast (fst b)) @ portable_write_32 (low_slots (snd b))"

lemma read_buckets_back:
  assumes "strict (map fst buckets)" "\<forall>b\<in>set buckets. previous_high < int (unat (fst b))"
    "\<forall>(high, bucket)\<in>set buckets. table_ok bucket \<and> unat high < 2 ^ 32 \<and>
       (\<forall>(key, _)\<in>set bucket. drop_bit 16 key = high \<and> unat key < 2 ^ 48)"
  shows "\<exists>slots'. portable_read_buckets (length buckets) previous_high (concat (map bucket_bytes buckets) @ r) = Some (slots', r) \<and>
    same_table (concat (map snd buckets)) slots'"
  using assms
proof (induction buckets arbitrary: previous_high)
  case Nil
  then show ?case by (simp add: same_table_def)
next
  case (Cons b buckets)
  obtain high bucket where b: "b = (high, bucket)" by (cases b)
  let ?h = "ucast high :: key32"
  have h: "unat ?h = unat high" using Cons.prems(3) by (simp add: b unsigned_ucast_eq take_bit_nat_eq_self)
  have "table_ok bucket" "\<forall>(key, _)\<in>set bucket. drop_bit 16 key = high" "\<forall>(key, _)\<in>set bucket. unat key < 2 ^ 48"
    using Cons.prems(3) by (auto simp: b)
  note low = low_slots_ok [OF this]
  obtain t where t: "portable_read_32 (portable_write_32 (low_slots bucket) @ concat (map bucket_bytes buckets) @ r) =
      Some (t, concat (map bucket_bytes buckets) @ r)" "same_table (low_slots bucket) t"
    using portable_roundtrip [OF low(1)] by blast
  have u: "uint ?h = int (unat high)" using h uint_nat [of ?h] by (simp only:)
  have "\<forall>b'\<in>set buckets. uint ?h < int (unat (fst b'))"
    using Cons.prems(1) unfolding u of_nat_less_iff by (auto simp: b word_less_nat_alt)
  moreover have "strict (map fst buckets)" using Cons.prems(1) by simp
  moreover have "\<forall>(high, bucket)\<in>set buckets. table_ok bucket \<and> unat high < 2 ^ 32 \<and>
       (\<forall>(key, _)\<in>set bucket. drop_bit 16 key = high \<and> unat key < 2 ^ 48)" using Cons.prems(3) by simp
  ultimately obtain rest where rest: "portable_read_buckets (length buckets) (uint ?h) (concat (map bucket_bytes buckets) @ r) =
      Some (rest, r)" "same_table (concat (map snd buckets)) rest" using Cons.IH by blast
  have above: "\<not> uint ?h \<le> previous_high" using Cons.prems(2) unfolding u by (simp add: b)
  let ?mine = "map (\<lambda>(key, slot). (chunk_of ?h key, slot)) t"
  have "portable_read_buckets (length (b # buckets)) previous_high (concat (map bucket_bytes (b # buckets)) @ r) = Some (?mine @ rest, r)"
    using above t(1) rest(1) by (simp add: bucket_bytes_def b take_bytes_append Let_def chunk_of_def)
  moreover have "same_table (concat (map snd (b # buckets))) (?mine @ rest)"
    using same_table_append [OF same_table_lift [OF t(2) low(2)] rest(2)] by (simp add: b)
  ultimately show ?case by blast
qed

lemma get_put64: "portable_get64 (portable_put64 v) = v"
  using get_put_le [of 8 v "[]"] by (simp add: portable_get64_def portable_put64_def)

theorem portable_roundtrip_64:
  assumes "table_ok slots" "\<forall>(key, _)\<in>set slots. unat key < 2 ^ 48" and n: "length (portable_buckets slots) \<le> 2 ^ 32 - 1"
  shows "\<exists>slots'. portable_read_64 (portable_serialize_64 slots @ r) = Some (slots', r) \<and> same_table slots slots'"
proof -
  let ?b = "portable_buckets slots"
  note ok = buckets_ok [OF assms(1)]
  have all: "concat (map snd ?b) = slots" using ok by blast
  have bucket: "table_ok bucket \<and> unat high < 2 ^ 32 \<and> (\<forall>(key, _)\<in>set bucket. drop_bit 16 key = high \<and> unat key < 2 ^ 48)"
    if mem: "(high, bucket) \<in> set ?b" for high bucket
  proof -
    have keys: "\<forall>(key, _)\<in>set bucket. drop_bit 16 key = high" "bucket \<noteq> []" using ok mem by auto
    obtain us vs where parts: "?b = us @ (high, bucket) # vs" using split_list [OF mem] by blast
    have slots: "slots = concat (map snd us) @ bucket @ concat (map snd vs)" using all unfolding parts by simp
    then have sub: "table_ok bucket" using assms(1) table_ok_append by metis
    have small: "\<forall>(key, _)\<in>set bucket. unat key < 2 ^ 48" using assms(2) unfolding slots by auto
    obtain key h where k: "(key, h) \<in> set bucket" using keys(2) by (cases bucket) auto
    have "high = drop_bit 16 key" using keys(1) k by auto
    then have "unat high = unat key div 65536" by (simp only: unat_drop_bit_eq) (simp add: drop_bit_eq_div)
    moreover have "unat key < 2 ^ 48" using small k by auto
    ultimately have "unat high < 2 ^ 32" by (simp add: less_mult_imp_div_less)
    then show ?thesis using keys(1) sub small by fastforce
  qed
  have distinct: "strict (map fst ?b)" using ok by blast
  have neg: "\<forall>b\<in>set ?b. - 1 < int (unat (fst b))" by (intro ballI) linarith
  have all_buckets: "\<forall>(high, bucket)\<in>set ?b. table_ok bucket \<and> unat high < 2 ^ 32 \<and>
      (\<forall>(key, _)\<in>set bucket. drop_bit 16 key = high \<and> unat key < 2 ^ 48)" using bucket by blast
  obtain slots' where s: "portable_read_buckets (length ?b) (- 1) (concat (map bucket_bytes ?b) @ r) = Some (slots', r)"
    "same_table slots slots'"
    using read_buckets_back [OF distinct neg all_buckets, of r] unfolding all by blast
  have long: "12 \<le> length (bucket_bytes b)" if "b \<in> set ?b" for b
  proof -
    have "table_ok (snd b)" "\<forall>(key, _)\<in>set (snd b). drop_bit 16 key = fst b" "\<forall>(key, _)\<in>set (snd b). unat key < 2 ^ 48"
      using bucket [of "fst b" "snd b"] that by auto
    from portable_size_is_written [OF low_slots_ok(1) [OF this]] show ?thesis
      by (simp add: bucket_bytes_def portable_size_in_bytes_def plan_of_slots Let_def list_ex_iff low_slots_def)
        (cases "snd b"; auto)
  qed
  then have "12 * length bs \<le> length (concat (map bucket_bytes bs))" if "set bs \<subseteq> set ?b" for bs
    using that by (induction bs) (auto intro: add_mono)
  from this [OF order_refl] have len: "12 * length ?b \<le> length (concat (map bucket_bytes ?b) @ r)" by simp
  then have room: "\<not> length (concat (map bucket_bytes ?b) @ r) div 12 < length ?b"
    by (simp add: not_less less_eq_div_iff_mult_less_eq mult.commute)
  have w: "portable_serialize_64 slots = portable_put64 (of_nat (length ?b)) @ concat (map bucket_bytes ?b)"
    unfolding portable_serialize_64_def bucket_bytes_def [abs_def] case_prod_unfold by (rule refl)
  have c: "unat (of_nat (length ?b) :: 64 word) = length ?b" using n by (simp add: unat_of_nat take_bit_nat_eq_self)
  have "portable_read_64 (portable_serialize_64 slots @ r) = portable_read_buckets (length ?b) (- 1) (concat (map bucket_bytes ?b) @ r)"
    using n room unfolding portable_read_64_def w
    by (simp add: take_bytes_append portable_put64_def [of "of_nat _"] get_put64 [unfolded portable_put64_def] c Let_def)
  then show ?thesis using s by auto
qed

theorem portable_size_is_written_64:
  assumes "table_ok slots" "\<forall>(key, _)\<in>set slots. unat key < 2 ^ 48"
  shows "length (portable_serialize_64 slots) = portable_size_in_bytes_64 slots"
proof -
  have one: "length (portable_put32 (ucast high) @ portable_write_32 (low_slots bucket)) =
      4 + header_bytes (portable_plan_for (low_slots bucket)) + payload_bytes (portable_plan_for (low_slots bucket)) \<and>
      containers (portable_plan_for (low_slots bucket)) \<noteq> 0" if mem: "(high, bucket) \<in> set (portable_buckets slots)" for high bucket
  proof -
    note ok = buckets_ok [OF assms(1)]
    have keys: "\<forall>(key, _)\<in>set bucket. drop_bit 16 key = high" "bucket \<noteq> []" using ok mem by auto
    obtain us vs where parts: "portable_buckets slots = us @ (high, bucket) # vs" using split_list [OF mem] by blast
    have slots: "slots = concat (map snd us) @ bucket @ concat (map snd vs)" using ok unfolding parts by auto
    then have "table_ok bucket" using assms(1) table_ok_append by metis
    moreover have "\<forall>(key, _)\<in>set bucket. unat key < 2 ^ 48" using assms(2) unfolding slots by auto
    ultimately show ?thesis
      using portable_size_is_written [OF low_slots_ok(1) [OF _ keys(1)]] keys(2)
      by (simp add: portable_size_in_bytes_def) (simp add: plan_of_slots Let_def low_slots_def)
  qed
  have "fold (\<lambda>(_, bucket) total.
           let plan = portable_plan_for (low_slots bucket)
           in if containers plan \<noteq> 0 then total + 4 + header_bytes plan + payload_bytes plan else total) bs t =
      t + length (concat (map (\<lambda>(high, bucket). portable_put32 (ucast high) @ portable_write_32 (low_slots bucket)) bs))"
    if "set bs \<subseteq> set (portable_buckets slots)" for bs :: "(key64 \<times> (key64 \<times> container) list) list" and t
    using that
  proof (induction bs arbitrary: t)
    case (Cons b bs)
    then show ?case using one [of "fst b" "snd b"] by (cases b) (simp add: Let_def)
  qed simp
  from this [OF order_refl] show ?thesis
    by (simp add: portable_size_in_bytes_64_def portable_serialize_64_def portable_put64_def)
qed

text \<open>More input never turns an accepted one into a rejected one, so a truncated bitmap is not accepted.\<close>

lemma read_64_more:
  assumes "portable_read_64 bs = Some (slots, rest)"
  shows "portable_read_64 (bs @ extra) = Some (slots, rest @ extra)"
proof -
  obtain a p where a: "take_bytes 8 bs = Some (a, p)" using assms by (auto simp: portable_read_64_def bind_eq_Some_conv)
  let ?n = "unat (portable_get64 a)"
  have c: "\<not> (?n > 2 ^ 32 - 1 \<or> ?n > length p div 12)" "portable_read_buckets ?n (- 1) p = Some (slots, rest)"
    using assms a by (auto simp: portable_read_64_def Let_def split: if_split_asm)
  obtain used where u: "p = used @ rest" "\<And>extra. portable_read_buckets ?n (- 1) (used @ extra) = Some (slots, extra)"
    using readsE [OF reads_read_buckets c(2)] by blast
  have "take_bytes 8 (bs @ extra) = Some (a, p @ extra)" using a by (auto simp: take_bytes_def split: if_split_asm)
  moreover have "length p div 12 \<le> length (p @ extra) div 12" by (rule div_le_mono) simp
  then have "\<not> (?n > 2 ^ 32 - 1 \<or> ?n > length (p @ extra) div 12)" using c(1) by linarith
  moreover have "portable_read_buckets ?n (- 1) (p @ extra) = Some (slots, rest @ extra)" using u by simp
  ultimately show ?thesis unfolding portable_read_64_def by (simp add: Let_def)
qed

theorem portable_truncation_rejected_64:
  assumes "table_ok slots" "\<forall>(key, _)\<in>set slots. unat key < 2 ^ 48" "length (portable_buckets slots) \<le> 2 ^ 32 - 1"
    and "portable_serialize_64 slots = bs @ lost" "lost \<noteq> []"
  shows "portable_read_64 bs = None"
proof (rule ccontr)
  assume "portable_read_64 bs \<noteq> None"
  then obtain t rest where "portable_read_64 bs = Some (t, rest)" by auto
  from read_64_more [OF this, of lost] have "portable_read_64 (portable_serialize_64 slots) = Some (t, rest @ lost)"
    by (simp only: assms(4))
  then show False using portable_roundtrip_64 [OF assms(1-3), of "[]"] assms(5) by auto
qed

end
