(* ===== verification/Chunk_Store.thy ===== *)
theory Chunk_Store
  imports Portable_Read
begin

text \<open>
  The sorted chunk table of a bitmap (\<open>chunk_array.hpp\<close>) and the store that holds it (\<open>chunk_store.hpp\<close>), under value
  semantics. The two parallel arrays of keys and handles are one list of entries; a cursor is an index and \<open>end()\<close> is
  the size. The capacity decides when a table moves to a new block of memory. Callers keep addresses of slots across
  calls, so the blocks are told apart: \<open>slots_block\<close> numbers the stretches during which one block was the live table,
  an address is the number of its block and an index, and it points at a slot only as long as the table has not left
  that block and still holds the index. The generation by which a caller finds an address stale is a counter of its own,
  advanced where the code advances it. The pool of parked payloads and the shared blocks of a counted policy are not
  modelled.
\<close>

type_synonym slot_pointer = "(nat \<times> nat) option"

record 'k chunk_store =
  entries :: "('k \<times> container) list"
  table_capacity :: nat
  generation :: "32 word"
  slots_block :: nat

definition keys_of :: "'k chunk_store \<Rightarrow> 'k list" where
  "keys_of t = map fst (entries t)"

definition table_size :: "'k chunk_store \<Rightarrow> nat" where
  "table_size t = length (entries t)"

definition key_at :: "'k chunk_store \<Rightarrow> nat \<Rightarrow> 'k" where
  "key_at t at = fst (entries t ! at)"

definition slot_at :: "'k chunk_store \<Rightarrow> nat \<Rightarrow> container" where
  "slot_at t at = snd (entries t ! at)"

definition set_slot :: "nat \<Rightarrow> container \<Rightarrow> 'k chunk_store \<Rightarrow> 'k chunk_store" where
  "set_slot at h t = t\<lparr>entries := (entries t)[at := (key_at t at, h)]\<rparr>"

definition empty_store :: "'k chunk_store" where
  "empty_store = \<lparr>entries = [], table_capacity = 0, generation = 0, slots_block = 0\<rparr>"

text \<open>The address of a slot, and the slot an address points at: none when it is null or dangles.\<close>

definition slot_address :: "'k chunk_store \<Rightarrow> nat \<Rightarrow> slot_pointer" where
  "slot_address t at = Some (slots_block t, at)"

definition pointed_at :: "'k chunk_store \<Rightarrow> slot_pointer \<Rightarrow> nat option" where
  "pointed_at t p = (case p of None \<Rightarrow> None
     | Some (block, at) \<Rightarrow> if block = slots_block t \<and> at < table_size t then Some at else None)"

definition advance :: "'k chunk_store \<Rightarrow> 'k chunk_store" where
  "advance t = t\<lparr>generation := generation t + 1\<rparr>"

subsection \<open>Searches\<close>

definition shortcut_min_chunks :: nat where "shortcut_min_chunks = 5"
definition window_min_keys :: nat where "window_min_keys = 3"
definition window_max_keys :: nat where "window_max_keys = 16"
definition resident_keys_bytes :: nat where "resident_keys_bytes = 2 * 64"

function find_halving :: "'k::linorder list \<Rightarrow> 'k \<Rightarrow> nat \<Rightarrow> nat \<Rightarrow> nat" where
  "find_halving keys key base n =
    (if n > 1 then
       let half = n div 2
       in find_halving keys key (if keys ! (base + half) \<le> key then base + half else base) (n - half)
     else base)"
  by pat_completeness auto
termination by (relation "measure (\<lambda>(_, _, _, n). n)") auto

declare find_halving.simps [simp del]

definition table_find :: "nat \<Rightarrow> 'k::linorder list \<Rightarrow> 'k \<Rightarrow> nat" where
  "table_find key_bytes keys key =
    (let n = length keys;
         halve = (let base = find_halving keys key 0 n in if keys ! base = key then base else n)
     in if n > window_max_keys then
          (if keys ! (n - 1) = key then n - 1
           else if n * key_bytes > resident_keys_bytes then
             (let at = lower_bound keys key in if at = n \<or> keys ! at \<noteq> key then n else at)
           else halve)
        else if n < window_min_keys then (if n = 0 then n else halve)
        else if n \<ge> shortcut_min_chunks \<and> keys ! (n - 1) = key then n - 1
        else halve)"

text \<open>The search of a walk that only moves forward: it gallops from where it stands and halves the last step.\<close>

function gallop_keys :: "'k::linorder list \<Rightarrow> 'k \<Rightarrow> nat \<Rightarrow> nat \<Rightarrow> nat \<times> nat" where
  "gallop_keys keys key low step =
    (if 0 < step \<and> low + step < length keys \<and> keys ! (low + step) < key
     then gallop_keys keys key (low + step) (step * 2) else (low, step))"
  by pat_completeness auto
termination by (relation "measure (\<lambda>(keys, _, low, _). length keys - low)") auto

declare gallop_keys.simps [simp del]

function bisect_keys :: "'k::linorder list \<Rightarrow> 'k \<Rightarrow> nat \<Rightarrow> nat \<Rightarrow> nat" where
  "bisect_keys keys key low high =
    (if low + 1 < high then
       let mid = low + (high - low) div 2
       in if keys ! mid < key then bisect_keys keys key mid high else bisect_keys keys key low mid
     else high)"
  by pat_completeness auto
termination by (relation "measure (\<lambda>(_, _, low, high). high - low)") auto

declare bisect_keys.simps [simp del]

definition lower_bound_from :: "'k::linorder list \<Rightarrow> 'k \<Rightarrow> nat \<Rightarrow> nat" where
  "lower_bound_from keys key from =
    (let n = length keys
     in if from \<ge> n \<or> \<not> keys ! from < key then (if from < n then from else n)
        else case gallop_keys keys key from 1 of (low, step) \<Rightarrow> bisect_keys keys key low (min (low + step) n))"

subsection \<open>Changes\<close>

definition grown_capacity :: "nat \<Rightarrow> nat \<Rightarrow> nat" where
  "grown_capacity required capacity =
    max required (max (if capacity < 1024 then capacity * 2 else capacity + capacity div 4) 4)"

text \<open>Both arrays move to a fresh block.\<close>

definition relocate :: "nat \<Rightarrow> 'k chunk_store \<Rightarrow> 'k chunk_store" where
  "relocate capacity t = t\<lparr>table_capacity := capacity, slots_block := slots_block t + 1\<rparr>"

lemma relocate_fields [simp]:
  "entries (relocate n t) = entries t" "generation (relocate n t) = generation t"
  "table_capacity (relocate n t) = n" "slots_block (relocate n t) = slots_block t + 1" "table_size (relocate n t) = table_size t"
  by (simp_all add: relocate_def table_size_def)

definition grow :: "nat \<Rightarrow> 'k chunk_store \<Rightarrow> 'k chunk_store" where
  "grow required t = relocate (grown_capacity required (table_capacity t)) t"

lemma grow_fields [simp]:
  "entries (grow n t) = entries t" "generation (grow n t) = generation t" "slots_block (grow n t) = slots_block t + 1"
  "table_size (grow n t) = table_size t"
  by (simp_all add: grow_def)

definition chunk_push_back :: "'k \<Rightarrow> container \<Rightarrow> 'k chunk_store \<Rightarrow> 'k chunk_store" where
  "chunk_push_back key h t =
    (if table_size t = table_capacity t
     then advance ((grow (table_size t + 1) t)\<lparr>entries := entries t @ [(key, h)]\<rparr>)
     else t\<lparr>entries := entries t @ [(key, h)]\<rparr>)"

definition chunk_insert :: "nat \<Rightarrow> 'k \<Rightarrow> container \<Rightarrow> 'k chunk_store \<Rightarrow> 'k chunk_store" where
  "chunk_insert at key h t =
    advance ((if table_size t = table_capacity t then grow (table_size t + 1) t else t)
      \<lparr>entries := take at (entries t) @ (key, h) # drop at (entries t)\<rparr>)"

definition chunk_erase :: "nat \<Rightarrow> 'k chunk_store \<Rightarrow> 'k chunk_store" where
  "chunk_erase at t = advance (t\<lparr>entries := take at (entries t) @ drop (at + 1) (entries t)\<rparr>)"

definition chunk_reserve :: "nat \<Rightarrow> 'k chunk_store \<Rightarrow> 'k chunk_store" where
  "chunk_reserve count t = (if count > table_capacity t then advance (relocate count t) else t)"

definition chunk_shrink_to_fit :: "'k chunk_store \<Rightarrow> 'k chunk_store" where
  "chunk_shrink_to_fit t = advance (if table_size t = 0 \<or> table_size t < table_capacity t then relocate (table_size t) t else t)"

definition chunk_clear :: "'k chunk_store \<Rightarrow> 'k chunk_store" where
  "chunk_clear t = advance (t\<lparr>entries := []\<rparr>)"

text \<open>The entries of \<open>other\<close> that are wanted and absent, placed from the back. \<open>end_i\<close> entries are still in place and
  \<open>placed\<close> is what stands behind the gap, in its final place.\<close>

fun insert_absent_loop ::
  "('k::linorder \<times> container) list \<Rightarrow> (container \<Rightarrow> bool) \<Rightarrow> nat \<Rightarrow> ('k \<times> container) list \<Rightarrow> nat \<Rightarrow> ('k \<times> container) list
    \<Rightarrow> nat \<times> ('k \<times> container) list" where
  "insert_absent_loop mine wanted total_n [] end_i placed = (end_i, placed)"
| "insert_absent_loop mine wanted total_n ((key, h) # others) end_i placed =
    (if \<not> total_n - length placed > end_i then (end_i, placed)
     else let index = lower_bound (map fst (take end_i mine)) key
          in if (index < end_i \<and> fst (mine ! index) = key) \<or> \<not> wanted h
             then insert_absent_loop mine wanted total_n others end_i placed
             else insert_absent_loop mine wanted total_n others index ((key, h) # drop index (take end_i mine) @ placed))"

definition insert_absent_from ::
  "('k::linorder \<times> container) list \<Rightarrow> nat \<Rightarrow> (container \<Rightarrow> bool) \<Rightarrow> 'k chunk_store \<Rightarrow> 'k chunk_store" where
  "insert_absent_from other count wanted t =
    advance (if count = 0 then t
     else let total_n = table_size t + count
          in case insert_absent_loop (entries t) wanted total_n (rev other) (table_size t) [] of
               (end_i, placed) \<Rightarrow> (if total_n > table_capacity t then grow total_n t else t)
                 \<lparr>entries := take end_i (entries t) @ placed\<rparr>)"

text \<open>The rewrite of a table behind the walk that consumes it: how many entries have been written.\<close>

definition rewrite_keep :: "nat \<Rightarrow> nat \<times> ('k \<times> container) list \<Rightarrow> nat \<times> ('k \<times> container) list" where
  "rewrite_keep from s = (case s of (write_i, table) \<Rightarrow>
     (write_i + 1, if write_i \<noteq> from then table[write_i := table ! from] else table))"

definition rewrite_put :: "'k \<Rightarrow> container \<Rightarrow> nat \<times> ('k \<times> container) list \<Rightarrow> nat \<times> ('k \<times> container) list" where
  "rewrite_put key h s = (case s of (write_i, table) \<Rightarrow> (write_i + 1, table[write_i := (key, h)]))"

definition rewrite_finish :: "nat \<times> ('k \<times> container) list \<Rightarrow> 'k chunk_store \<Rightarrow> 'k chunk_store" where
  "rewrite_finish s t = (case s of (write_i, table) \<Rightarrow> advance (t\<lparr>entries := take write_i table\<rparr>))"

text \<open>The structural check: what is wrong with the table, if anything.\<close>

definition chunk_validate :: "'k::linorder chunk_store \<Rightarrow> string option" where
  "chunk_validate t =
    (if \<not> list_all (\<lambda>i. keys_of t ! (i - 1) < keys_of t ! i) [1..<table_size t] then Some ''chunk keys are not strictly ascending''
     else if table_size t \<le> table_capacity t then None else Some ''the size exceeds the capacity'')"

subsection \<open>The generation guards the slot addresses\<close>

text \<open>A change of the table advances the generation once, or leaves every address that pointed at a slot pointing at the
  slot of the same key.\<close>

definition guards_addresses :: "'k chunk_store \<Rightarrow> 'k chunk_store \<Rightarrow> bool" where
  "guards_addresses t t' \<longleftrightarrow> generation t' = generation t + 1 \<or>
    (generation t' = generation t \<and>
     (\<forall>p at. pointed_at t p = Some at \<longrightarrow> pointed_at t' p = Some at \<and> key_at t' at = key_at t at))"

lemma pointed_at_iff: "pointed_at t p = Some at \<longleftrightarrow> p = slot_address t at \<and> at < table_size t"
  by (auto simp: pointed_at_def slot_address_def split: option.splits prod.splits if_splits)

lemma advance_guards: "generation t' = generation t \<Longrightarrow> guards_addresses t (advance t')"
  by (simp add: guards_addresses_def advance_def)

lemma in_place_guards:
  assumes "generation t' = generation t" "slots_block t' = slots_block t" "table_size t \<le> table_size t'"
    and "\<And>i. i < table_size t \<Longrightarrow> key_at t' i = key_at t i"
  shows "guards_addresses t t'"
  using assms by (auto simp: guards_addresses_def pointed_at_iff slot_address_def)

lemma guards_refl: "guards_addresses t t"
  by (rule in_place_guards) simp_all

lemma push_back_guards: "guards_addresses t (chunk_push_back key h t)"
proof (cases "table_size t = table_capacity t")
  case True
  then show ?thesis by (simp add: chunk_push_back_def advance_guards)
next
  case False
  then show ?thesis by (intro in_place_guards) (simp_all add: chunk_push_back_def table_size_def key_at_def nth_append)
qed

lemma insert_guards: "guards_addresses t (chunk_insert at key h t)"
  by (simp add: chunk_insert_def advance_guards)

lemma erase_guards: "guards_addresses t (chunk_erase at t)"
  by (simp add: chunk_erase_def advance_guards)

lemma reserve_guards: "guards_addresses t (chunk_reserve count t)"
  by (cases "count > table_capacity t") (simp_all add: chunk_reserve_def advance_guards in_place_guards)

lemma set_slot_guards: "guards_addresses t (set_slot at h t)"
proof (rule in_place_guards)
  show "key_at (set_slot at h t) i = key_at t i" if "i < table_size t" for i
    using that by (cases "i = at") (simp_all add: set_slot_def key_at_def table_size_def)
qed (simp_all add: set_slot_def table_size_def)

lemma insert_absent_guards: "guards_addresses t (insert_absent_from other count wanted t)"
  unfolding insert_absent_from_def by (rule advance_guards) (simp add: Let_def split: prod.split)

lemma rewrite_guards: "guards_addresses t (rewrite_finish s t)"
  by (simp add: rewrite_finish_def advance_guards split: prod.split)

lemma whole_table_guards: "guards_addresses t (chunk_shrink_to_fit t)" "guards_addresses t (chunk_clear t)"
  by (simp_all add: chunk_shrink_to_fit_def chunk_clear_def advance_guards)

subsection \<open>The searches find the key\<close>

lemma find_halving_range: "0 < n \<Longrightarrow> find_halving keys key base n < base + n \<and> base \<le> find_halving keys key base n"
proof (induction keys key base n rule: find_halving.induct)
  case (1 keys key base n)
  show ?case
  proof (cases "n > 1")
    case True
    let ?b = "if keys ! (base + n div 2) \<le> key then base + n div 2 else base"
    have "find_halving keys key ?b (n - n div 2) < ?b + (n - n div 2) \<and> ?b \<le> find_halving keys key ?b (n - n div 2)"
      using "1.IH" [OF True refl] True by simp
    moreover have "find_halving keys key base n = find_halving keys key ?b (n - n div 2)"
      using True by (subst find_halving.simps) (simp add: Let_def)
    ultimately show ?thesis by (cases "keys ! (base + n div 2) \<le> key") (simp_all, linarith+)
  qed (use 1 in \<open>simp add: find_halving.simps\<close>)
qed

lemma find_halving_correct:
  assumes "strict keys" "i < n" "base + n \<le> length keys" "keys ! (base + i) = key"
  shows "find_halving keys key base n = base + i"
  using assms
proof (induction keys key base n arbitrary: i rule: find_halving.induct)
  case (1 keys key base n)
  show ?case
  proof (cases "n > 1")
    case True
    have le: "keys ! (base + n div 2) \<le> key \<longleftrightarrow> n div 2 \<le> i"
    proof -
      have "keys ! (base + i) < keys ! (base + n div 2)" if "i < n div 2"
        by (rule sorted_wrt_nth_less [OF "1.prems"(1)]) (use that "1.prems"(3) True in linarith)+
      moreover have "keys ! (base + n div 2) < keys ! (base + i)" if "n div 2 < i"
        by (rule sorted_wrt_nth_less [OF "1.prems"(1)]) (use that "1.prems"(2,3) in linarith)+
      ultimately show ?thesis using "1.prems"(4) by (cases "i < n div 2"; cases "n div 2 < i") (auto simp: not_less)
    qed
    have step: "find_halving keys key base n =
        find_halving keys key (if keys ! (base + n div 2) \<le> key then base + n div 2 else base) (n - n div 2)"
      using True by (subst find_halving.simps) (simp add: Let_def)
    show ?thesis
    proof (cases "n div 2 \<le> i")
      case up: True
      have at: "base + n div 2 + (i - n div 2) = base + i" using up by simp
      have "find_halving keys key (base + n div 2) (n - n div 2) = base + n div 2 + (i - n div 2)"
        using "1.IH" [OF True refl "1.prems"(1), of "i - n div 2"] "1.prems" up le True by (simp add: at)
      then show ?thesis using step le up by simp
    next
      case False
      have "find_halving keys key base (n - n div 2) = base + i"
        using "1.IH" [OF True refl "1.prems"(1), of i] "1.prems" False le True by simp
      then show ?thesis using step le False by simp
    qed
  qed (use "1.prems" in \<open>simp add: find_halving.simps\<close>)
qed

lemma find_halving_key:
  assumes "strict keys" "key \<in> set keys"
  shows "keys ! find_halving keys key 0 (length keys) = key"
proof -
  obtain i where "i < length keys" "keys ! i = key" using assms(2) by (auto simp: in_set_conv_nth)
  then show ?thesis using find_halving_correct [OF assms(1), of i "length keys" 0 key] by simp
qed

lemma last_key: "keys \<noteq> [] \<Longrightarrow> keys ! (length keys - Suc 0) \<in> set keys"
  by simp

theorem table_find_correct:
  assumes "strict keys"
  shows "if key \<in> set keys then table_find key_bytes keys key < length keys \<and> keys ! table_find key_bytes keys key = key
    else table_find key_bytes keys key = length keys"
proof (cases "keys = []")
  case False
  define base where "base = find_halving keys key 0 (length keys)"
  have base: "base < length keys" "key \<in> set keys \<Longrightarrow> keys ! base = key"
    using find_halving_range [of "length keys" keys key 0] find_halving_key [OF assms, of key] False
    by (simp_all add: base_def)
  have low: "key \<in> set keys \<longleftrightarrow> lower_bound keys key < length keys \<and> keys ! lower_bound keys key = key"
    by (rule lower_bound_mem [OF assms])
  show ?thesis
  proof (cases "key \<in> set keys")
    case True
    then show ?thesis
      using base low False by (simp add: table_find_def Let_def base_def [symmetric])
  next
    case no: False
    then have "keys ! base \<noteq> key" "keys ! (length keys - 1) \<noteq> key" using base(1) last_key [OF False] nth_mem by auto
    then show ?thesis
      using no low False lower_bound_le [of keys key] by (auto simp: table_find_def Let_def base_def [symmetric])
  qed
qed (simp add: table_find_def Let_def window_max_keys_def window_min_keys_def)

text \<open>The forward search agrees with the search of the whole table.\<close>

lemma below_lower_bound:
  assumes "strict keys" "i < length keys"
  shows "keys ! i < key \<longleftrightarrow> i < lower_bound keys key"
proof
  assume less: "keys ! i < key"
  show "i < lower_bound keys key"
  proof (rule ccontr)
    assume "\<not> i < lower_bound keys key"
    then have "keys ! i \<in> set (drop (lower_bound keys key) keys)"
      using assms(2) by (auto simp: in_set_conv_nth intro: exI [of _ "i - lower_bound keys key"])
    then show False using strict_drop_lower_bound [OF assms(1)] less by fastforce
  qed
next
  assume "i < lower_bound keys key"
  then show "keys ! i < key" using partition_point_before [of i "\<lambda>x. x < key" keys] by (simp add: lower_bound_def)
qed

lemma gallop_keys_bounds:
  assumes "gallop_keys keys key low step = (low', step')" "strict keys" "low < length keys" "keys ! low < key" "0 < step"
  shows "low' < lower_bound keys key \<and> lower_bound keys key \<le> min (low' + step') (length keys) \<and> 0 < step'"
  using assms
proof (induction keys key low step rule: gallop_keys.induct)
  case (1 keys key low step)
  show ?case
  proof (cases "low + step < length keys \<and> keys ! (low + step) < key")
    case True
    then have c: "0 < step \<and> low + step < length keys \<and> keys ! (low + step) < key" using "1.prems"(5) by simp
    then have "gallop_keys keys key (low + step) (step * 2) = (low', step')"
      using "1.prems"(1) by (simp add: gallop_keys.simps [of keys key low step])
    from "1.IH" [OF c this "1.prems"(2)] c show ?thesis by simp
  next
    case False
    then have e: "low' = low" "step' = step" using "1.prems"(1) by (auto simp: gallop_keys.simps [of keys key low step])
    have "lower_bound keys key \<le> low + step" if "low + step < length keys"
      using False that below_lower_bound [OF "1.prems"(2) that] by fastforce
    moreover have "low < lower_bound keys key" using below_lower_bound [OF "1.prems"(2,3)] "1.prems"(4) by blast
    moreover have "lower_bound keys key \<le> min (low + step) (length keys)"
      using calculation(1) lower_bound_le [of keys key] by (cases "low + step < length keys") simp_all
    ultimately show ?thesis using "1.prems"(5) unfolding e by blast
  qed
qed

lemma bisect_keys_correct:
  assumes "strict keys" "low < lower_bound keys key" "lower_bound keys key \<le> high" "high \<le> length keys"
  shows "bisect_keys keys key low high = lower_bound keys key"
  using assms
proof (induction keys key low high rule: bisect_keys.induct)
  case (1 keys key low high)
  show ?case
  proof (cases "low + 1 < high")
    case True
    define mid where "mid = low + (high - low) div 2"
    have mid: "mid < length keys" using True "1.prems"(4) unfolding mid_def by linarith
    have step: "bisect_keys keys key low high = (if keys ! mid < key then bisect_keys keys key mid high else bisect_keys keys key low mid)"
      using True by (subst bisect_keys.simps) (simp add: mid_def Let_def)
    show ?thesis
    proof (cases "keys ! mid < key")
      case less: True
      then have "mid < lower_bound keys key" using below_lower_bound [OF "1.prems"(1) mid] by simp
      with "1.IH"(1) [OF True mid_def less "1.prems"(1)] "1.prems"(3,4) less show ?thesis unfolding step by simp
    next
      case False
      then have "lower_bound keys key \<le> mid" using below_lower_bound [OF "1.prems"(1) mid] by simp
      with "1.IH"(2) [OF True mid_def False "1.prems"(1,2)] mid False show ?thesis unfolding step by simp
    qed
  qed (use "1.prems" in \<open>simp add: bisect_keys.simps\<close>)
qed

theorem lower_bound_from_correct:
  assumes "strict keys"
  shows "lower_bound_from keys key from = max (min from (length keys)) (lower_bound keys key)"
proof (cases "from < length keys \<and> keys ! from < key")
  case True
  obtain low step where g: "gallop_keys keys key from 1 = (low, step)" by fastforce
  from gallop_keys_bounds [OF g assms] True
  have b: "low < lower_bound keys key" "lower_bound keys key \<le> min (low + step) (length keys)" by auto
  have "bisect_keys keys key low (min (low + step) (length keys)) = lower_bound keys key"
    by (rule bisect_keys_correct [OF assms b]) simp
  moreover have "from < lower_bound keys key" using True below_lower_bound [OF assms] by blast
  ultimately show ?thesis using True g by (simp add: lower_bound_from_def Let_def)
next
  case False
  then have "lower_bound keys key \<le> from" if "from < length keys" using below_lower_bound [OF assms that] that by simp
  moreover have "lower_bound_from keys key from = (if from < length keys then from else length keys)"
    using False by (auto simp: lower_bound_from_def Let_def)
  ultimately show ?thesis using lower_bound_le [of keys key] by (cases "from < length keys") (simp_all add: max.absorb1)
qed

subsection \<open>Insertion from the back\<close>

definition absent_in :: "('k \<times> container) list \<Rightarrow> (container \<Rightarrow> bool) \<Rightarrow> ('k \<times> container) list \<Rightarrow> ('k \<times> container) list" where
  "absent_in mine wanted other = filter (\<lambda>(key, h). key \<notin> fst ` set mine \<and> wanted h) other"

lemma absent_in_simps [simp]:
  "absent_in mine wanted [] = []"
  "absent_in mine wanted ((key, h) # other) =
    (if key \<notin> fst ` set mine \<and> wanted h then (key, h) # absent_in mine wanted other else absent_in mine wanted other)"
  by (simp_all add: absent_in_def)

lemma insert_absent_loop_correct:
  assumes "strict (map fst (take end_i mine @ placed))" "set (drop end_i mine) \<subseteq> set placed" "strict (map fst mine)"
    and "sorted_wrt (>) (map fst others)" "\<forall>k\<in>fst ` set others. \<forall>p\<in>fst ` set placed. k < p"
    and "end_i \<le> length mine" "total_n = end_i + length placed + length (absent_in mine wanted others)"
  shows "case insert_absent_loop mine wanted total_n others end_i placed of (end', placed') \<Rightarrow>
    strict (map fst (take end' mine @ placed')) \<and>
    set (take end' mine @ placed') = set (take end_i mine @ placed) \<union> set (absent_in mine wanted others)"
  using assms
proof (induction mine wanted total_n others end_i placed rule: insert_absent_loop.induct)
  case (2 mine wanted total_n key h others end_i placed)
  let ?keys = "map fst (take end_i mine)"
  define index where "index = lower_bound ?keys key"
  have sorted: "strict ?keys" using "2.prems"(1) by (simp add: sorted_wrt_append)
  have split: "take end_i mine = take index mine @ drop index (take end_i mine)"
  proof -
    have "index \<le> end_i" using lower_bound_le [of ?keys key] "2.prems"(6) by (simp add: index_def)
    then have "take index mine = take index (take end_i mine)" by (simp add: min_absorb1)
    then show ?thesis by (simp only: append_take_drop_id)
  qed
  have absent: "key \<notin> fst ` set placed" using "2.prems"(5) by auto
  have mem: "key \<in> fst ` set mine \<longleftrightarrow> key \<in> set ?keys"
  proof -
    have "set mine = set (take end_i mine) \<union> set (drop end_i mine)" by (metis append_take_drop_id set_append)
    then show ?thesis using "2.prems"(2) absent by auto
  qed
  have found: "key \<in> set ?keys \<longleftrightarrow> index < end_i \<and> fst (mine ! index) = key"
    using lower_bound_mem [OF sorted, of key] "2.prems"(6) by (auto simp: index_def)
  have rest: "sorted_wrt (>) (map fst others)" "\<forall>k\<in>fst ` set others. k < key"
    using "2.prems"(4) by auto
  show ?case
  proof (cases "total_n - length placed > end_i")
    case False
    then have none: "absent_in mine wanted ((key, h) # others) = []" using "2.prems"(7) by simp
    show ?thesis using False "2.prems"(1) unfolding none by simp
  next
    case True
    then have go: "\<not> \<not> total_n - length placed > end_i" by simp
    show ?thesis
    proof (cases "key \<in> set ?keys \<or> \<not> wanted h")
      case skip: True
      then have "(index < end_i \<and> fst (mine ! index) = key) \<or> \<not> wanted h" using found by blast
      note c = this [unfolded index_def]
      have a: "absent_in mine wanted ((key, h) # others) = absent_in mine wanted others" using skip mem by auto
      have "total_n = end_i + length placed + length (absent_in mine wanted others)" using "2.prems"(7) a by simp
      moreover have "\<forall>k\<in>fst ` set others. \<forall>p\<in>fst ` set placed. k < p" using "2.prems"(5) by auto
      ultimately show ?thesis
        using "2.IH"(1) [OF go refl c "2.prems"(1-3) rest(1)] "2.prems"(6) go c unfolding a by (simp add: Let_def)
    next
      case False
      then have "\<not> ((index < end_i \<and> fst (mine ! index) = key) \<or> \<not> wanted h)" using found by blast
      note c = this [unfolded index_def]
      let ?placed = "(key, h) # drop index (take end_i mine) @ placed"
      have a: "absent_in mine wanted ((key, h) # others) = (key, h) # absent_in mine wanted others" using False mem by auto
      have below: "k < key" if "k \<in> fst ` set (take index mine)" for k
      proof -
        have "index \<le> end_i" using lower_bound_le [of ?keys key] "2.prems"(6) by (simp add: index_def)
        then have "map fst (take index mine) = take index ?keys" by (simp add: take_map min_absorb1)
        then have "k \<in> set (take index ?keys)" using that by (metis set_map)
        then show ?thesis using strict_take_lower_bound by (simp only: index_def)
      qed
      have above: "key < k" if "k \<in> fst ` set (drop index (take end_i mine))" for k
      proof -
        have "k \<in> set (drop index ?keys)" using that by (simp add: drop_map)
        then have "key \<le> k" using strict_drop_lower_bound [OF sorted] by (simp add: index_def)
        moreover have "k \<in> set ?keys" using \<open>k \<in> set (drop index ?keys)\<close> by (rule in_set_dropD)
        ultimately show ?thesis using False by (metis order_le_imp_less_or_eq)
      qed
      have "strict (map fst ((take index mine @ drop index (take end_i mine)) @ placed))" using "2.prems"(1) split by simp
      then have s: "strict (map fst (take index mine @ ?placed))"
        using below above "2.prems"(5) by (auto simp: sorted_wrt_append)
      have d: "set (drop index mine) \<subseteq> set ?placed"
      proof -
        have "drop index mine = drop index (take end_i mine) @ drop end_i mine"
          using split by (metis append_assoc append_take_drop_id same_append_eq)
        then show ?thesis using "2.prems"(2) by auto
      qed
      have l: "\<forall>k\<in>fst ` set others. \<forall>p\<in>fst ` set ?placed. k < p"
        using rest(2) above "2.prems"(5) by (auto dest: less_trans)
      have le: "index \<le> length mine" using lower_bound_le [of ?keys key] "2.prems"(6) by (simp add: index_def)
      have len: "index + length (drop index (take end_i mine)) = end_i"
        using lower_bound_le [of ?keys key] "2.prems"(6) by (simp add: index_def)
      have t: "total_n = index + length ?placed + length (absent_in mine wanted others)"
        using "2.prems"(7) len unfolding a by simp
      have "insert_absent_loop mine wanted total_n ((key, h) # others) end_i placed =
          insert_absent_loop mine wanted total_n others index ?placed"
        unfolding insert_absent_loop.simps Let_def if_not_P [OF go] if_not_P [OF c] index_def by (rule refl)
      moreover have "set (take index mine @ ?placed) = set (take end_i mine @ placed) \<union> {(key, h)}"
        using arg_cong [OF split, of set] by auto
      ultimately show ?thesis
        using "2.IH"(2) [OF go refl c, folded index_def, OF s d "2.prems"(3) rest(1) l le t]
        unfolding a by (auto split: prod.split)
    qed
  qed
qed simp

theorem insert_absent_correct:
  assumes "strict (keys_of t)" "strict (map fst other)" "count = length (absent_in (entries t) wanted other)"
  shows "strict (keys_of (insert_absent_from other count wanted t)) \<and>
    set (entries (insert_absent_from other count wanted t)) = set (entries t) \<union> set (absent_in (entries t) wanted other)"
proof (cases "count = 0")
  case True
  then show ?thesis using assms by (simp add: insert_absent_from_def advance_def keys_of_def)
next
  case False
  have rev: "absent_in (entries t) wanted (rev other) = rev (absent_in (entries t) wanted other)"
    by (simp add: absent_in_def rev_filter)
  have desc: "sorted_wrt (>) (map fst (rev other))" using assms(2) by (simp add: rev_map [symmetric] sorted_wrt_rev)
  obtain e p where l: "insert_absent_loop (entries t) wanted (table_size t + count) (rev other) (table_size t) [] = (e, p)"
    by fastforce
  have ok: "strict (map fst (take e (entries t) @ p)) \<and>
      set (take e (entries t) @ p) = set (entries t) \<union> set (absent_in (entries t) wanted other)"
    using insert_absent_loop_correct [of "table_size t" "entries t" "[]" "rev other" "table_size t + count" wanted, unfolded l]
      assms(1,3) desc by (simp add: keys_of_def table_size_def rev)
  have "entries (insert_absent_from other count wanted t) = take e (entries t) @ p"
    using False by (simp add: insert_absent_from_def l Let_def advance_def)
  then show ?thesis using ok by (simp only: keys_of_def)
qed

end
