(* ===== verification/Key_Sets.thy ===== *)
theory Key_Sets
  imports Chunk_Store
begin

text \<open>
  What a chunk table stands for: the set of 32-bit keys whose low half is in the container of their chunk. An operation
  on a bitmap is shown correct chunk by chunk: the values of each chunk afterwards, and the size kept beside the table.
\<close>

definition chunk_values :: "('k \<times> container) list \<Rightarrow> 'k \<Rightarrow> nat set" where
  "chunk_values slots c = (case map_of slots c of None \<Rightarrow> {} | Some h \<Rightarrow> values_of h)"

definition table_set :: "(16 word \<times> container) list \<Rightarrow> key32 set" where
  "table_set slots = {v. unat (low_key32 v) \<in> chunk_values slots (chunk_key32 v)}"

text \<open>The low halves a set of keys has in one chunk.\<close>

definition lows :: "key32 set \<Rightarrow> 16 word \<Rightarrow> nat set" where
  "lows S c = (\<lambda>v. unat (low_key32 v)) ` {v \<in> S. chunk_key32 v = c}"

lemma lows_iff: "n \<in> lows S c \<longleftrightarrow> (\<exists>v\<in>S. chunk_key32 v = c \<and> unat (low_key32 v) = n)"
  by (auto simp: lows_def)

lemma in_lows: "unat l \<in> lows S c \<longleftrightarrow> compose32 c l \<in> S"
proof
  assume "unat l \<in> lows S c"
  then obtain v where "v \<in> S" "chunk_key32 v = c" "low_key32 v = l" by (auto simp: lows_iff word_unat_eq_iff)
  then show "compose32 c l \<in> S" using compose_split32 [of v] by simp
qed (auto simp: lows_iff split_compose32 intro: bexI [of _ "compose32 c l"])

lemma lows_bound: "lows S c \<subseteq> {..<65536}"
  by (auto simp: lows_def)

lemma lows_chunk: "unat (low_key32 v) \<in> lows S (chunk_key32 v) \<longleftrightarrow> v \<in> S"
  by (simp add: in_lows compose_split32)

lemma lows_eqI: "(\<And>l. compose32 c l \<in> S \<longleftrightarrow> unat l \<in> T) \<Longrightarrow> T \<subseteq> {..<65536} \<Longrightarrow> lows S c = T"
proof (rule set_eqI)
  fix n assume iff: "\<And>l. compose32 c l \<in> S \<longleftrightarrow> unat l \<in> T" and T: "T \<subseteq> {..<65536}"
  show "n \<in> lows S c \<longleftrightarrow> n \<in> T"
  proof (cases "n < 65536")
    case True
    then have n: "unat (of_nat n :: low) = n" by (simp add: unat_of_nat take_bit_nat_eq_self)
    show ?thesis using iff [of "of_nat n"] in_lows [of "of_nat n" S c] by (simp add: n)
  qed (use T lows_bound [of S c] in auto)
qed

text \<open>Set operations act on each chunk separately.\<close>

lemma lows_set_ops:
  "lows (A \<union> B) c = lows A c \<union> lows B c" "lows (A \<inter> B) c = lows A c \<inter> lows B c" "lows (A - B) c = lows A c - lows B c"
  "lows {} c = {}"
proof -
  show "lows (A \<inter> B) c = lows A c \<inter> lows B c" "lows (A - B) c = lows A c - lows B c"
    by (rule lows_eqI; use lows_bound [of A c] in \<open>auto simp: in_lows\<close>)+
qed (auto simp: lows_def)

lemma lows_insert: "lows (insert v S) c = (if chunk_key32 v = c then insert (unat (low_key32 v)) (lows S c) else lows S c)"
  by (auto simp: lows_def)

lemma lows_remove: "lows (S - {v}) c = (if chunk_key32 v = c then lows S c - {unat (low_key32 v)} else lows S c)"
  unfolding lows_set_ops(3) using lows_insert [of v "{}" c] by (simp add: lows_set_ops)

lemma set_of_lows: "(\<And>c. lows A c = lows B c) \<Longrightarrow> A = B"
  by (metis lows_chunk set_eqI)

subsection \<open>Sizes\<close>

lemma card_lows: "card (lows S c) = card {v \<in> S. chunk_key32 v = c}"
  unfolding lows_def
proof (rule card_image)
  show "inj_on (\<lambda>v. unat (low_key32 v)) {v \<in> S. chunk_key32 v = c}"
    by (rule inj_onI) (metis (mono_tags, lifting) compose_split32 mem_Collect_eq word_unat_eq_iff)
qed

lemma card_by_chunk: "card S = card (lows S c) + card {v \<in> S. chunk_key32 v \<noteq> c}"
proof -
  have "S = {v \<in> S. chunk_key32 v = c} \<union> {v \<in> S. chunk_key32 v \<noteq> c}" by auto
  then have "card S = card {v \<in> S. chunk_key32 v = c} + card {v \<in> S. chunk_key32 v \<noteq> c}"
    by (subst (1) \<open>S = _\<close>, subst card_Un_disjoint) auto
  then show ?thesis by (simp add: card_lows)
qed

text \<open>A change of one chunk changes the size by the change of that chunk.\<close>

lemma card_change:
  assumes "\<And>c'. c' \<noteq> c \<Longrightarrow> lows S' c' = lows S c'"
  shows "card S' + card (lows S c) = card S + card (lows S' c)"
proof -
  have "v \<in> S' \<longleftrightarrow> v \<in> S" if "chunk_key32 v \<noteq> c" for v
    using assms [OF that] lows_chunk [of v S'] lows_chunk [of v S] by simp
  then have "{v \<in> S'. chunk_key32 v \<noteq> c} = {v \<in> S. chunk_key32 v \<noteq> c}" by auto
  then show ?thesis using card_by_chunk [of S c] card_by_chunk [of S' c] by simp
qed

subsection \<open>The keys of a table\<close>

lemma slot_ok_facts:
  assumes "slot_ok h"
  shows "wf_container h" "\<not> cardinality_stale h" "values_of h \<noteq> {}" "values_of h \<subseteq> {..<65536}" "container_size h = card (values_of h)"
    "0 < container_size h"
proof -
  show w: "wf_container h" "\<not> cardinality_stale h" "values_of h \<noteq> {}" using assms by (simp_all add: slot_ok_def)
  show b: "values_of h \<subseteq> {..<65536}" using values_of_bound [OF w(1)] by auto
  show c: "container_size h = card (values_of h)" using w by (simp add: container_size_def exact_cardinality)
  show "0 < container_size h" using w(3) finite_subset [OF b] by (simp add: c card_gt_0_iff)
qed

lemma slot_ok_exact: "slot_ok h \<longleftrightarrow> exact (values_of h) h \<and> values_of h \<noteq> {}"
  by (auto simp: slot_ok_def exact_def holds_set_def)

lemma table_okD: "table_ok slots \<Longrightarrow> (c, h) \<in> set slots \<Longrightarrow> slot_ok h"
  by (auto simp: table_ok_def)

lemma table_distinct: "table_ok slots \<Longrightarrow> distinct (map fst slots)"
  by (simp add: table_ok_def strict_distinct)

lemma chunk_values_mem: "table_ok slots \<Longrightarrow> (c, h) \<in> set slots \<Longrightarrow> chunk_values slots c = values_of h"
  by (simp add: chunk_values_def map_of_is_SomeI [OF table_distinct])

lemma chunk_values_none: "c \<notin> fst ` set slots \<Longrightarrow> chunk_values slots c = {}"
  by (simp add: chunk_values_def map_of_eq_None_iff [THEN iffD2])

lemma chunk_values_empty: "table_ok slots \<Longrightarrow> chunk_values slots c = {} \<longleftrightarrow> c \<notin> fst ` set slots"
proof
  assume ok: "table_ok slots" and e: "chunk_values slots c = {}"
  show "c \<notin> fst ` set slots"
  proof
    assume "c \<in> fst ` set slots"
    then obtain h where "(c, h) \<in> set slots" by auto
    with slot_ok_facts(3) [OF table_okD [OF ok this]] chunk_values_mem [OF ok this] e show False by simp
  qed
qed (rule chunk_values_none)

lemma chunk_values_bound: "table_ok slots \<Longrightarrow> chunk_values slots c \<subseteq> {..<65536}"
proof (cases "map_of slots c")
  case (Some h)
  assume "table_ok slots"
  from slot_ok_facts(4) [OF table_okD [OF this map_of_SomeD [OF Some]]] show ?thesis by (simp add: chunk_values_def Some)
qed (simp add: chunk_values_def)

lemma lows_table: "table_ok slots \<Longrightarrow> lows (table_set slots) c = chunk_values slots c"
  by (rule lows_eqI) (simp_all add: table_set_def split_compose32 chunk_values_bound)

lemma table_set_eqI:
  assumes "table_ok slots" "\<And>c. chunk_values slots c = lows S c"
  shows "table_set slots = S"
  by (rule set_of_lows) (simp add: lows_table assms)

text \<open>Tables with the same entries have the same values, in whatever way they were put together.\<close>

lemma map_of_mem: "distinct (map fst slots) \<Longrightarrow> map_of slots c = Some h \<longleftrightarrow> (c, h) \<in> set slots"
  using map_of_is_SomeI map_of_SomeD by metis

lemma chunk_values_cong:
  assumes "distinct (map fst slots)" "distinct (map fst slots')" "set slots = set slots'"
  shows "chunk_values slots c = chunk_values slots' c"
proof -
  have "map_of slots c = map_of slots' c"
    using assms map_of_mem by (metis not_Some_eq)
  then show ?thesis by (simp add: chunk_values_def)
qed

lemma chunk_values_Nil [simp]: "chunk_values [] c = {}"
  by (simp add: chunk_values_def)

lemma chunk_values_append: "chunk_values (us @ vs) c = (if c \<in> fst ` set us then chunk_values us c else chunk_values vs c)"
proof (cases "map_of us c")
  case None
  moreover from this have "c \<notin> fst ` set us" by (simp only: map_of_eq_None_iff) simp
  ultimately show ?thesis by (simp add: chunk_values_def map_add_def)
next
  case (Some h)
  then have "c \<in> fst ` set us" by (metis map_of_eq_None_iff option.distinct(1))
  then show ?thesis using Some by (simp add: chunk_values_def map_add_def)
qed

lemma chunk_values_Cons: "chunk_values ((c, h) # vs) c' = (if c' = c then values_of h else chunk_values vs c')"
  by (simp add: chunk_values_def)

lemma chunk_values_split:
  "c \<notin> fst ` set us \<Longrightarrow> chunk_values (us @ (c, h) # vs) c' = (if c' = c then values_of h else chunk_values (us @ vs) c')"
  by (simp add: chunk_values_append chunk_values_Cons)

lemma table_ok_Nil [simp]: "table_ok []"
  by (simp add: table_ok_def)

lemma table_ok_Cons: "table_ok ((c, h) # vs) \<longleftrightarrow> slot_ok h \<and> table_ok vs \<and> (\<forall>k\<in>fst ` set vs. c < k)"
  by (auto simp: table_ok_def)

lemma table_ok_append_iff:
  "table_ok (us @ vs) \<longleftrightarrow> table_ok us \<and> table_ok vs \<and> (\<forall>j\<in>fst ` set us. \<forall>k\<in>fst ` set vs. j < k)"
  by (auto simp: table_ok_def sorted_wrt_append)

lemma table_ok_middle:
  "table_ok (us @ (c, h) # vs) \<longleftrightarrow> slot_ok h \<and> table_ok (us @ vs) \<and> (\<forall>j\<in>fst ` set us. j < c) \<and> (\<forall>k\<in>fst ` set vs. c < k)"
  by (auto simp: table_ok_append_iff table_ok_Cons)

subsection \<open>One entry changed\<close>

lemma entry_split: "at < table_size t \<Longrightarrow> entries t = take at (entries t) @ (key_at t at, slot_at t at) # drop (Suc at) (entries t)"
  by (simp add: table_size_def key_at_def slot_at_def id_take_nth_drop [symmetric])

lemma slot_at_ok:
  assumes "table_ok (entries t)" "at < table_size t"
  shows "slot_ok (slot_at t at)" "chunk_values (entries t) (key_at t at) = values_of (slot_at t at)"
proof -
  have m: "(key_at t at, slot_at t at) \<in> set (entries t)" using assms(2) by (simp add: key_at_def slot_at_def table_size_def)
  from table_okD [OF assms(1) m] chunk_values_mem [OF assms(1) m]
  show "slot_ok (slot_at t at)" "chunk_values (entries t) (key_at t at) = values_of (slot_at t at)" .
qed

lemma set_slot_ok:
  assumes "table_ok (entries t)" "at < table_size t"
  shows "slot_ok h \<Longrightarrow> table_ok (entries (set_slot at h t))"
    "chunk_values (entries (set_slot at h t)) c = (if c = key_at t at then values_of h else chunk_values (entries t) c)"
proof -
  note split = entry_split [OF assms(2)]
  have e: "entries (set_slot at h t) = take at (entries t) @ (key_at t at, h) # drop (Suc at) (entries t)"
    using assms(2) by (simp add: set_slot_def table_size_def upd_conv_take_nth_drop)
  have ok: "table_ok (take at (entries t) @ (key_at t at, slot_at t at) # drop (Suc at) (entries t))" using assms(1) split by simp
  then show "slot_ok h \<Longrightarrow> table_ok (entries (set_slot at h t))" unfolding e table_ok_middle by blast
  have "key_at t at \<notin> fst ` set (take at (entries t))" using ok unfolding table_ok_middle by blast
  then show "chunk_values (entries (set_slot at h t)) c = (if c = key_at t at then values_of h else chunk_values (entries t) c)"
    unfolding e by (subst (3) split) (simp add: chunk_values_split)
qed

lemma chunk_erase_ok:
  assumes "table_ok (entries t)" "at < table_size t"
  shows "table_ok (entries (chunk_erase at t))"
    "chunk_values (entries (chunk_erase at t)) c = (if c = key_at t at then {} else chunk_values (entries t) c)"
proof -
  note split = entry_split [OF assms(2)]
  have e: "entries (chunk_erase at t) = take at (entries t) @ drop (Suc at) (entries t)"
    by (simp add: chunk_erase_def advance_def)
  have ok: "table_ok (take at (entries t) @ (key_at t at, slot_at t at) # drop (Suc at) (entries t))" using assms(1) split by simp
  then show "table_ok (entries (chunk_erase at t))" unfolding e table_ok_middle by blast
  have "key_at t at \<notin> fst ` set (take at (entries t))" "key_at t at \<notin> fst ` set (take at (entries t) @ drop (Suc at) (entries t))"
    using ok unfolding table_ok_middle by fastforce+
  then show "chunk_values (entries (chunk_erase at t)) c = (if c = key_at t at then {} else chunk_values (entries t) c)"
    unfolding e by (subst (3) split) (simp add: chunk_values_split chunk_values_none)
qed

lemma chunk_insert_ok:
  assumes "table_ok (entries t)" "key \<notin> set (keys_of t)" "at = lower_bound (keys_of t) key" "slot_ok h"
  shows "table_ok (entries (chunk_insert at key h t))"
    "chunk_values (entries (chunk_insert at key h t)) c = (if c = key then values_of h else chunk_values (entries t) c)"
proof -
  have e: "entries (chunk_insert at key h t) = take at (entries t) @ (key, h) # drop at (entries t)"
    by (simp add: chunk_insert_def advance_def)
  have sorted: "strict (keys_of t)" using assms(1) by (simp add: table_ok_def keys_of_def)
  have "j < key" if "j \<in> fst ` set (take at (entries t))" for j
    using that strict_take_lower_bound [of j "keys_of t" key] assms(3) by (auto simp: keys_of_def take_map)
  moreover have "key < k" if "k \<in> fst ` set (drop at (entries t))" for k
  proof -
    have "k \<in> set (drop at (keys_of t))" using that by (simp add: keys_of_def drop_map)
    then have "key \<le> k" "k \<noteq> key"
      using strict_drop_lower_bound [OF sorted] assms(2,3) by (auto dest: in_set_dropD)
    then show ?thesis by simp
  qed
  ultimately show "table_ok (entries (chunk_insert at key h t))" unfolding e table_ok_middle using assms(1,4) by simp
  have "key \<notin> fst ` set (take at (entries t))" using assms(2) by (auto simp: keys_of_def dest: in_set_takeD)
  then show "chunk_values (entries (chunk_insert at key h t)) c = (if c = key then values_of h else chunk_values (entries t) c)"
    unfolding e by (simp add: chunk_values_split)
qed

lemma entries_push_back [simp]: "entries (chunk_push_back key h t) = entries t @ [(key, h)]"
  by (simp add: chunk_push_back_def advance_def)

lemma chunk_push_back_ok:
  assumes "table_ok (entries t)" "\<forall>k\<in>set (keys_of t). k < key"
  shows "slot_ok h \<Longrightarrow> table_ok (entries (chunk_push_back key h t))"
    "chunk_values (entries (chunk_push_back key h t)) c = (if c = key then values_of h else chunk_values (entries t) c)"
proof -
  show "slot_ok h \<Longrightarrow> table_ok (entries (chunk_push_back key h t))" using assms by (auto simp: table_ok_middle keys_of_def)
  have "key \<notin> fst ` set (entries t)" using assms(2) by (auto simp: keys_of_def)
  then show "chunk_values (entries (chunk_push_back key h t)) c = (if c = key then values_of h else chunk_values (entries t) c)"
    by (simp add: chunk_values_split)
qed

end
