(* ===== verification/Exact_Updates.thy ===== *)
theory Exact_Updates
  imports Container_Ops Container_Decode
begin

text \<open>
  The updates of one container (\<open>containers.hpp\<close>, \<open>container_ops.hpp\<close>) keep an exact count: what a finished bitmap
  holds in its slots stays so under every update that the bitmap makes.
\<close>

lemma count_stale_bitset: "wf_container h \<Longrightarrow> \<not> holds_bitset h \<Longrightarrow> \<not> cardinality_stale h"
  by (auto simp: wf_container_def cardinality_ok_def)

lemma kind_not_stale: "wf_container h' \<Longrightarrow> kind h' = kind h \<Longrightarrow> kind h \<noteq> Bitset_kind \<Longrightarrow> \<not> cardinality_stale h'"
  by (rule count_stale_bitset) (simp_all add: holds_bitset_def)

lemma counted_adjust [counted]: "cardinality_stale (adjust_cardinality d h) = cardinality_stale h"
  by (simp add: adjust_cardinality_def)

lemma counted_payloads [counted]:
  "cardinality_stale (set_array_values vs h) = cardinality_stale h" "cardinality_stale (set_run_list rs h) = cardinality_stale h"
  by (simp_all add: set_array_values_def set_run_list_def)

lemma counted_runs_of [counted]:
  "\<not> cardinality_stale (run_handle_from_counted_values vs n)" "\<not> cardinality_stale (run_handle_from_counted_words ws n c)"
  by (simp_all add: run_handle_from_counted_values_def run_handle_from_counted_words_def Let_def counted)

lemma counted_array_removal [counted]: "\<not> cardinality_stale h \<Longrightarrow> \<not> cardinality_stale (snd (array_remove_sorted vs h))"
  by (simp add: array_remove_sorted_def Let_def counted split: prod.split)

lemma counted_settle [counted]: "\<not> cardinality_stale (settle_cardinality h)"
  by (simp add: settle_cardinality_def counted)

lemma counted_bitset_updates [counted]:
  "cardinality_stale (snd (bitset_add v h)) = cardinality_stale h"
  "\<not> cardinality_stale h \<Longrightarrow> \<not> cardinality_stale (snd (bitset_remove v h))"
  "cardinality_stale (snd (bitset_add_sorted vs h)) = cardinality_stale h"
  "\<not> cardinality_stale (snd (bitset_remove_sorted vs h))"
  by (auto simp: bitset_add_def bitset_remove_def bitset_add_sorted_def bitset_remove_sorted_def Let_def counted
      split: prod.split)

lemma exact_add:
  assumes "exact S h"
  shows "exact (insert (unat v) S) (snd (container_add capacity v h))" "fst (container_add capacity v h) \<longleftrightarrow> unat v \<notin> S"
proof -
  note h = exact_wf [OF assms]
  have "\<not> cardinality_stale (snd (container_add capacity v h))"
  proof (cases "kind h")
    case Bitset_kind
    then show ?thesis using h(3) by (simp add: container_add_def counted)
  qed (rule kind_not_stale [OF container_add_correct(1,4) [OF h(1)]]; simp)+
  then show "exact (insert (unat v) S) (snd (container_add capacity v h))"
    using container_add_correct(1,2) [OF h(1)] h(2) by (simp add: exact_def holds_set_def)
  show "fst (container_add capacity v h) \<longleftrightarrow> unat v \<notin> S" using container_add_correct(3) [OF h(1)] h(2) by simp
qed

lemma exact_remove:
  assumes "exact S h"
  shows "exact (S - {unat v}) (snd (container_remove v h))" "fst (container_remove v h) \<longleftrightarrow> unat v \<in> S"
proof -
  note h = exact_wf [OF assms]
  have "\<not> cardinality_stale (snd (container_remove v h))"
  proof (cases "kind h")
    case Bitset_kind
    then show ?thesis using h(3) by (simp add: container_remove_def counted)
  qed (rule kind_not_stale [OF container_remove_correct(1,4) [OF h(1)]]; simp)+
  then show "exact (S - {unat v}) (snd (container_remove v h))"
    using container_remove_correct(1,2) [OF h(1)] h(2) by (simp add: exact_def holds_set_def)
  show "fst (container_remove v h) \<longleftrightarrow> unat v \<in> S" using container_remove_correct(3) [OF h(1)] h(2) by simp
qed

lemma exact_add_sorted:
  assumes "exact S h" "holds_run h \<Longrightarrow> length (run_list h) \<le> capacity" "strict vs"
  shows "exact (S \<union> array_set vs) (snd (container_add_sorted capacity unshared vs h))"
    "fst (container_add_sorted capacity unshared vs h) = card (array_set vs - S)"
proof -
  note h = exact_wf [OF assms(1)]
  have ready: "batch_ready capacity h" using h assms(2) by (simp add: batch_ready_def)
  note c = container_add_sorted_correct [OF ready assms(3), of unshared]
  have "\<not> cardinality_stale (snd (container_add_sorted capacity unshared vs h))"
  proof (cases "kind h")
    case Bitset_kind
    then show ?thesis using h(3) by (simp add: container_add_sorted_def counted)
  qed (rule kind_not_stale [OF c(1,4)]; simp)+
  then show "exact (S \<union> array_set vs) (snd (container_add_sorted capacity unshared vs h))"
    using c(1,2) h(2) by (simp add: exact_def holds_set_def)
  show "fst (container_add_sorted capacity unshared vs h) = card (array_set vs - S)" using c(3) h(2) by simp
qed

lemma exact_remove_sorted:
  assumes "exact S h" "strict vs" "vs \<noteq> []"
  shows "exact (S - array_set vs) (snd (container_remove_sorted vs threshold h))"
    "fst (container_remove_sorted vs threshold h) = card (S \<inter> array_set vs)"
proof -
  note h = exact_wf [OF assms(1)]
  note c = container_remove_sorted_correct [OF h(1) assms(2,3), of threshold]
  have "\<not> cardinality_stale (snd (container_remove_sorted vs threshold h))"
  proof (cases "kind h")
    case Array_kind
    then show ?thesis using h(3) by (simp add: container_remove_sorted_def counted)
  next
    case Run_kind
    then show ?thesis using h(3) by (simp add: container_remove_sorted_def Let_def counted)
  qed (simp add: container_remove_sorted_def counted)
  then show "exact (S - array_set vs) (snd (container_remove_sorted vs threshold h))" using c h(2) by (simp add: exact_def holds_set_def)
  show "fst (container_remove_sorted vs threshold h) = card (S \<inter> array_set vs)" using c h(2) by simp
qed

lemma exact_optimize:
  assumes "exact S h"
  shows "exact S (optimize_container_for_storage eager h threshold)"
proof -
  note h = exact_wf [OF assms]
  have "\<not> cardinality_stale (optimize_container_for_storage eager h threshold)"
    using h(3) by (simp add: optimize_container_for_storage_def Let_def counted)
  then show ?thesis using optimize_container_for_storage_correct [OF h(1,3), of eager threshold] h(2) by (simp add: exact_def)
qed

lemma counted_flips [counted]:
  "\<not> cardinality_stale (flip_array_range h b e threshold)"
  "\<not> cardinality_stale (flip_run_range h b e threshold)"
  "\<not> cardinality_stale (flip_bitset_range h b e threshold)"
  by (simp_all add: flip_array_range_def flip_run_range_def flip_bitset_range_def Let_def counted)

lemma exact_range:
  assumes "exact S h" "b \<le> e"
  shows "exact (range_effect op S {unat b..unat e}) (apply_range_to_container eager h b e op threshold)"
proof -
  note h = exact_wf [OF assms(1)]
  have "\<not> cardinality_stale (run_remove_closed_range b e h)" if "kind h = Run_kind"
    using that h(3) by (simp add: run_remove_closed_range_def counted)
  then have "\<not> cardinality_stale (apply_range_to_container eager h b e op threshold)"
    using h(3) by (auto simp: apply_range_to_container_def Let_def counted split: container_kind.split)
  then show ?thesis using apply_range_to_container_correct [OF h(1,3) assms(2), of op eager threshold] h(2) by (simp add: exact_def)
qed

lemma exact_empty: "exact {} make_array"
  by (simp add: exact_def holds_set_def empty_factories counted)

lemma exact_sorted_values: "strict vs \<Longrightarrow> exact (array_set vs) (make_container_from_sorted_values eager vs threshold)"
  by (simp add: exact_def make_container_from_sorted_values_correct counted)

lemma exact_bitset_of_values: "strict vs \<Longrightarrow> exact (array_set vs) (bitset_handle_from_sorted_values vs reuse)"
  by (simp add: exact_def bitset_handle_from_sorted_values_correct counted)

end
