(* ===== verification/Bitmap.thy ===== *)
theory Bitmap
  imports Key_Sets Exact_Updates
begin

text \<open>
  A bitmap of 32-bit keys (\<open>bitmap.hpp\<close>): its chunk table and its size, under value semantics. Membership, single
  updates, and the bulk forms that keep a context: the position and the address of the slot they last worked on, good
  as long as the generation of the table is the one it was taken at. The bulk forms return \<open>None\<close> where the code would
  follow an address that points at no slot of the table. \<open>capacity\<close> is the room of the array a value is appended
  to, \<open>fits\<close> whether a handle has an inline buffer.
\<close>

subsection \<open>State\<close>

record bitmap =
  chunks :: "16 word chunk_store"
  total_size :: nat

definition empty_bitmap :: bitmap where
  "empty_bitmap = \<lparr>chunks = empty_store, total_size = 0\<rparr>"

definition array_to_bitset_threshold :: nat where
  "array_to_bitset_threshold = (if low_domain_size \<ge> 1024 then low_domain_size div 16 else 64)"

definition bitmap_empty :: "bitmap \<Rightarrow> bool" where
  "bitmap_empty b = (total_size b = 0)"

definition bitmap_clear :: "bitmap \<Rightarrow> bitmap" where
  "bitmap_clear b = b\<lparr>chunks := chunk_clear (chunks b), total_size := 0\<rparr>"

text \<open>The chunk a context holds; with a null slot nothing is cached.\<close>

record bulk_context =
  ctx_chunk :: "16 word"
  ctx_at :: nat
  ctx_slot :: slot_pointer
  ctx_generation :: "32 word"
  payload_private :: bool

definition no_context :: bulk_context where
  "no_context = \<lparr>ctx_chunk = 0, ctx_at = 0, ctx_slot = None, ctx_generation = 0, payload_private = False\<rparr>"

definition context_reset :: "bulk_context \<Rightarrow> bulk_context" where
  "context_reset ctx = ctx\<lparr>ctx_slot := None, payload_private := False\<rparr>"

subsection \<open>Membership\<close>

definition bitmap_contains :: "bitmap \<Rightarrow> key32 \<Rightarrow> bool" where
  "bitmap_contains b v =
    (let chunk = chunk_key32 v; at = table_find 2 (keys_of (chunks b)) chunk
     in if at = table_size (chunks b) then False else container_contains (slot_at (chunks b) at) (low_key32 v))"

definition try_adjacent_chunk :: "bitmap \<Rightarrow> 16 word \<Rightarrow> nat \<Rightarrow> nat option" where
  "try_adjacent_chunk b chunk at =
    (let t = chunks b; current_key = key_at t at
     in if chunk > current_key then
          (if at + 1 \<noteq> table_size t \<and> key_at t (at + 1) = chunk then Some (at + 1) else None)
        else if chunk < current_key \<and> at \<noteq> 0 then (if key_at t (at - 1) = chunk then Some (at - 1) else None)
        else None)"

definition contains_searched :: "bulk_context \<Rightarrow> bitmap \<Rightarrow> key32 \<Rightarrow> bool \<times> bulk_context" where
  "contains_searched ctx b v =
    (let t = chunks b; chunk = chunk_key32 v; at = lower_bound (keys_of t) chunk
     in if at = table_size t \<or> key_at t at \<noteq> chunk then (False, context_reset ctx)
        else (container_contains (slot_at t at) (low_key32 v),
              \<lparr>ctx_chunk = chunk, ctx_at = at, ctx_slot = slot_address t at, ctx_generation = generation t, payload_private = False\<rparr>))"

definition contains_bulk :: "bulk_context \<Rightarrow> bitmap \<Rightarrow> key32 \<Rightarrow> (bool \<times> bulk_context) option" where
  "contains_bulk ctx b v =
    (let t = chunks b; chunk = chunk_key32 v
     in if ctx_slot ctx \<noteq> None \<and> ctx_generation ctx = generation t then
          (if ctx_chunk ctx = chunk then
             (case pointed_at t (ctx_slot ctx) of None \<Rightarrow> None
              | Some at \<Rightarrow> Some (container_contains (slot_at t at) (low_key32 v), ctx))
           else if \<not> ctx_at ctx < table_size t then None
           else case try_adjacent_chunk b chunk (ctx_at ctx) of
                  Some at \<Rightarrow> Some (container_contains (slot_at t at) (low_key32 v),
                    ctx\<lparr>ctx_chunk := chunk, ctx_at := at, ctx_slot := slot_address t at, payload_private := False\<rparr>)
                | None \<Rightarrow> Some (contains_searched ctx b v))
        else Some (contains_searched ctx b v))"

subsection \<open>Single updates\<close>

definition promote_array :: "container \<Rightarrow> container" where
  "promote_array slot = bitset_handle_from_sorted_values (array_values slot) make_array"

definition promote_if_needed :: "container \<Rightarrow> container" where
  "promote_if_needed slot =
    (if holds_array slot \<and> length (array_values slot) \<ge> array_to_bitset_threshold then promote_array slot else slot)"

text \<open>The slot of the chunk, found or made: its position, whether it is new, and the table.\<close>

definition add_locate :: "bool \<Rightarrow> nat \<Rightarrow> key32 \<Rightarrow> 16 word chunk_store \<Rightarrow> nat \<times> bool \<times> 16 word chunk_store" where
  "add_locate fits capacity v t =
    (let chunk = chunk_key32 v;
         with_value = (if fits then make_array else snd (container_add capacity (low_key32 v) make_array));
         append = (table_size t, True, chunk_push_back chunk with_value t)
     in if entries t = [] then append
        else let last_i = table_size t - 1; last_chunk = key_at t last_i
             in if chunk = last_chunk then (last_i, False, t)
                else if chunk > last_chunk then append
                else let at = lower_bound (keys_of t) chunk
                     in if key_at t at \<noteq> chunk then (at, True, chunk_insert at chunk with_value t) else (at, False, t))"

definition add_impl :: "bool \<Rightarrow> nat \<Rightarrow> key32 \<Rightarrow> bulk_context option \<Rightarrow> bitmap \<Rightarrow> bool \<times> bulk_context option \<times> bitmap" where
  "add_impl fits capacity v ctx b =
    (case add_locate fits capacity v (chunks b) of (at, new_chunk, t) \<Rightarrow>
       let ctx = map_option (\<lambda>_. \<lparr>ctx_chunk = chunk_key32 v, ctx_at = at, ctx_slot = slot_address t at,
                    ctx_generation = generation t, payload_private = True\<rparr>) ctx;
           (added, slot) = (if fits \<or> \<not> new_chunk then container_add capacity (low_key32 v) (slot_at t at)
                            else (True, slot_at t at))
       in if \<not> added then (False, ctx, b\<lparr>chunks := set_slot at slot t\<rparr>)
          else (True, ctx, b\<lparr>chunks := set_slot at (promote_if_needed slot) t, total_size := total_size b + 1\<rparr>))"

definition bitmap_add :: "bool \<Rightarrow> nat \<Rightarrow> key32 \<Rightarrow> bitmap \<Rightarrow> bool \<times> bitmap" where
  "bitmap_add fits capacity v b = (case add_impl fits capacity v None b of (added, _, b) \<Rightarrow> (added, b))"

definition add_bulk :: "bool \<Rightarrow> nat \<Rightarrow> bulk_context \<Rightarrow> key32 \<Rightarrow> bitmap \<Rightarrow> (bool \<times> bulk_context \<times> bitmap) option" where
  "add_bulk fits capacity ctx v b =
    (let t = chunks b; chunk = chunk_key32 v
     in if ctx_slot ctx \<noteq> None \<and> ctx_generation ctx = generation t \<and> ctx_chunk ctx = chunk then
          (case pointed_at t (ctx_slot ctx) of None \<Rightarrow> None
           | Some at \<Rightarrow> let slot = slot_at t at; low_v = low_key32 v
               in if payload_private ctx \<and> holds_array slot \<and> fst (array_try_append capacity low_v slot) then
                    Some (True, ctx, b\<lparr>chunks := set_slot at (promote_if_needed (snd (array_try_append capacity low_v slot))) t,
                                       total_size := total_size b + 1\<rparr>)
                  else case container_add capacity low_v slot of (added, slot) \<Rightarrow>
                    if \<not> added then Some (False, ctx, b\<lparr>chunks := set_slot at slot t\<rparr>)
                    else Some (True, ctx\<lparr>payload_private := True\<rparr>,
                          b\<lparr>chunks := set_slot at (promote_if_needed slot) t, total_size := total_size b + 1\<rparr>))
        else case add_impl fits capacity v (Some ctx) b of (added, ctx', b) \<Rightarrow>
          Some (added, (case ctx' of None \<Rightarrow> ctx | Some ctx \<Rightarrow> ctx), b))"

definition bitmap_remove :: "key32 \<Rightarrow> bitmap \<Rightarrow> bool \<times> bitmap" where
  "bitmap_remove v b =
    (let t = chunks b; chunk = chunk_key32 v; at = lower_bound (keys_of t) chunk
     in if at = table_size t \<or> key_at t at \<noteq> chunk then (False, b)
        else case container_remove (low_key32 v) (slot_at t at) of (removed, slot) \<Rightarrow>
          if \<not> removed then (False, b\<lparr>chunks := set_slot at slot t\<rparr>)
          else let t = set_slot at slot t
               in (True, b\<lparr>total_size := total_size b - 1, chunks := (if container_size slot = 0 then chunk_erase at t else t)\<rparr>))"

subsection \<open>What a bitmap stands for\<close>

definition bitmap_ok :: "key32 set \<Rightarrow> bitmap \<Rightarrow> bool" where
  "bitmap_ok S b \<longleftrightarrow> table_ok (entries (chunks b)) \<and> table_set (entries (chunks b)) = S \<and> total_size b = card S"

lemma bitmap_okD:
  assumes "bitmap_ok S b"
  shows "table_ok (entries (chunks b))" "table_set (entries (chunks b)) = S" "total_size b = card S"
    "chunk_values (entries (chunks b)) c = lows S c" "strict (keys_of (chunks b))"
  using assms lows_table [of "entries (chunks b)" c] by (auto simp: bitmap_ok_def keys_of_def table_ok_def)

lemma bitmap_okI:
  assumes "table_ok (entries (chunks b))" "\<And>c. chunk_values (entries (chunks b)) c = lows S c" "total_size b = card S"
  shows "bitmap_ok S b"
  using assms table_set_eqI [OF assms(1,2)] by (simp add: bitmap_ok_def)

lemma empty_bitmap_ok: "bitmap_ok {} empty_bitmap"
  by (rule bitmap_okI) (simp_all add: empty_bitmap_def empty_store_def lows_set_ops)

lemma clear_ok: "bitmap_ok {} (bitmap_clear b)"
  by (rule bitmap_okI) (simp_all add: bitmap_clear_def chunk_clear_def advance_def lows_set_ops)

text \<open>A step that changes one chunk.\<close>

lemma one_chunk_step:
  assumes "bitmap_ok S b" "table_ok (entries t)"
    and "\<And>c'. chunk_values (entries t) c' = (if c' = c then lows S' c else chunk_values (entries (chunks b)) c')"
    and "\<And>c'. c' \<noteq> c \<Longrightarrow> lows S' c' = lows S c'"
    and "n + card (lows S c) = card S + card (lows S' c)"
  shows "bitmap_ok S' (b\<lparr>chunks := t, total_size := n\<rparr>)"
proof (rule bitmap_okI)
  show "chunk_values (entries (chunks (b\<lparr>chunks := t, total_size := n\<rparr>))) c' = lows S' c'" for c'
    using assms(3,4) bitmap_okD(4) [OF assms(1)] by simp
  show "total_size (b\<lparr>chunks := t, total_size := n\<rparr>) = card S'" using card_change [of c S' S] assms(4,5) by simp
qed (use assms(2) in simp)

text \<open>The position of a chunk.\<close>

lemma found_chunk:
  assumes "bitmap_ok S b" "at < table_size (chunks b)" "key_at (chunks b) at = c"
  shows "exact (lows S c) (slot_at (chunks b) at)" "lows S c \<noteq> {}"
proof -
  have "exact (chunk_values (entries (chunks b)) c) (slot_at (chunks b) at)" "chunk_values (entries (chunks b)) c \<noteq> {}"
    using slot_at_ok [OF bitmap_okD(1) [OF assms(1)] assms(2)] assms(3) by (simp_all add: slot_ok_exact)
  then show "exact (lows S c) (slot_at (chunks b) at)" "lows S c \<noteq> {}" by (simp_all add: bitmap_okD(4) [OF assms(1)])
qed

lemma absent_chunk:
  assumes "bitmap_ok S b" "c \<notin> set (keys_of (chunks b))"
  shows "lows S c = {}"
proof -
  have "c \<notin> fst ` set (entries (chunks b))" using assms(2) by (simp add: keys_of_def)
  then have "chunk_values (entries (chunks b)) c = {}" by (rule chunk_values_none)
  then show ?thesis by (simp add: bitmap_okD(4) [OF assms(1)])
qed

lemma key_at_nth: "at < table_size t \<Longrightarrow> key_at t at = keys_of t ! at"
  by (simp add: key_at_def keys_of_def table_size_def)

lemma length_keys [simp]: "length (keys_of t) = table_size t"
  by (simp add: keys_of_def table_size_def)

lemma lower_bound_cases:
  assumes "strict (keys_of t)"
  obtains (found) "lower_bound (keys_of t) c < table_size t" "key_at t (lower_bound (keys_of t) c) = c"
  | (absent) "c \<notin> set (keys_of t)" "lower_bound (keys_of t) c = table_size t \<or> key_at t (lower_bound (keys_of t) c) \<noteq> c"
proof (cases "c \<in> set (keys_of t)")
  case True
  then show ?thesis using lower_bound_mem [OF assms, of c] that(1) key_at_nth [of "lower_bound (keys_of t) c" t] by simp
next
  case False
  moreover have "lower_bound (keys_of t) c = table_size t \<or> key_at t (lower_bound (keys_of t) c) \<noteq> c"
    using False lower_bound_mem [OF assms, of c] lower_bound_le [of "keys_of t" c] key_at_nth [of "lower_bound (keys_of t) c" t]
    by (simp add: le_less) metis
  ultimately show ?thesis by (rule that(2))
qed

theorem bitmap_contains_correct:
  assumes "bitmap_ok S b"
  shows "bitmap_contains b v \<longleftrightarrow> v \<in> S"
proof -
  let ?k = "keys_of (chunks b)" and ?c = "chunk_key32 v"
  have f: "if ?c \<in> set ?k then table_find 2 ?k ?c < length ?k \<and> ?k ! table_find 2 ?k ?c = ?c
      else table_find 2 ?k ?c = length ?k"
    by (rule table_find_correct [OF bitmap_okD(5) [OF assms]])
  show ?thesis
  proof (cases "?c \<in> set ?k")
    case True
    then have at: "table_find 2 ?k ?c < table_size (chunks b)" "key_at (chunks b) (table_find 2 ?k ?c) = ?c"
      using f by (simp_all add: key_at_nth)
    note e = found_chunk(1) [OF assms at]
    show ?thesis
      using at(1) container_contains_correct [OF exact_wf(1) [OF e], of "low_key32 v"] exact_wf(2) [OF e] lows_chunk [of v S]
      by (simp add: bitmap_contains_def Let_def)
  next
    case False
    then have "bitmap_contains b v = False" using f by (simp add: bitmap_contains_def Let_def)
    moreover have "v \<notin> S" using absent_chunk [OF assms False] lows_chunk [of v S] by simp
    ultimately show ?thesis by simp
  qed
qed

end
