(* ===== verification/Bitmap_Updates.thy ===== *)
theory Bitmap_Updates
  imports Bitmap
begin

text \<open>
  The single updates of a bitmap (\<open>bitmap.hpp\<close>) add and remove one key of its set, through every way the slot of the
  chunk is found or made, and the bulk forms agree with them as long as their context is current. A context is
  current when its generation is the table's; it then stands on the entry of its chunk.
\<close>

lemma exact_promote: "exact T h \<Longrightarrow> exact T (promote_if_needed h)"
proof -
  assume h: "exact T h"
  show ?thesis
  proof (cases "holds_array h")
    case True
    then obtain vs where p: "payload h = Array_payload vs" using holds_payload(1) by blast
    have "wf_payload (payload h)" using exact_wf(1) [OF h] by (simp add: wf_container_def)
    then have "strict vs" "T = array_set vs" using exact_wf(2) [OF h] by (auto simp: p values_of_def)
    then show ?thesis
      using h exact_bitset_of_values [of vs make_array] by (simp add: promote_if_needed_def promote_array_def p array_values_def)
  qed (simp add: promote_if_needed_def h)
qed

lemma slot_ok_of_exact: "exact T h \<Longrightarrow> T \<noteq> {} \<Longrightarrow> slot_ok h"
  by (rule slot_okI)

lemma slot_of_exact: "exact T h \<Longrightarrow> values_of h = T"
  by (rule exact_wf(2))

subsection \<open>The slot of the chunk\<close>

lemma set_slot_size [simp]: "table_size (set_slot at h t) = table_size t"
  by (simp add: set_slot_def table_size_def)

lemma set_slot_generation [simp]: "generation (set_slot at h t) = generation t"
  by (simp add: set_slot_def)

lemma set_slot_block [simp]: "slots_block (set_slot at h t) = slots_block t"
  by (simp add: set_slot_def)

lemma set_slot_keys [simp]: "keys_of (set_slot at h t) = keys_of t"
  unfolding keys_of_def set_slot_def key_at_def by (simp add: map_update [symmetric]) (metis list_update_id map_update fst_conv)

lemma set_slot_key_at [simp]: "key_at (set_slot at h t) i = key_at t i"
  by (cases "at < length (entries t)"; cases "i = at") (simp_all add: set_slot_def key_at_def list_update_beyond)

lemma pushed_entry:
  "table_size (chunk_push_back c h t) = table_size t + 1" "key_at (chunk_push_back c h t) (table_size t) = c"
  "slot_at (chunk_push_back c h t) (table_size t) = h"
  "entries (set_slot (table_size t) h' (chunk_push_back c h t)) = entries (chunk_push_back c h' t)"
  by (simp_all add: table_size_def key_at_def slot_at_def set_slot_def)

lemma inserted_entry:
  assumes "at \<le> table_size t"
  shows "table_size (chunk_insert at c h t) = table_size t + 1" "key_at (chunk_insert at c h t) at = c"
  "slot_at (chunk_insert at c h t) at = h"
  "entries (set_slot at h' (chunk_insert at c h t)) = entries (chunk_insert at c h' t)"
  using assms by (simp_all add: table_size_def key_at_def slot_at_def set_slot_def chunk_insert_def advance_def nth_append
      list_update_append min_absorb2)

text \<open>\<open>located S b c found\<close>: the entry where the chunk is, or where it has been made with nothing in it but what is put
  there.\<close>

definition located :: "key32 set \<Rightarrow> bitmap \<Rightarrow> 16 word \<Rightarrow> nat \<Rightarrow> bool \<Rightarrow> 16 word chunk_store \<Rightarrow> container \<Rightarrow> bool" where
  "located S b c at new t with_value \<longleftrightarrow>
    at < table_size t \<and> key_at t at = c \<and>
    (if new then lows S c = {} \<and> slot_at t at = with_value else t = chunks b) \<and>
    (\<forall>h. slot_ok h \<longrightarrow> table_ok (entries (set_slot at h t)) \<and>
       (\<forall>c'. chunk_values (entries (set_slot at h t)) c' = (if c' = c then values_of h else chunk_values (entries (chunks b)) c')))"

lemma located_found:
  assumes "bitmap_ok S b" "at < table_size (chunks b)" "key_at (chunks b) at = c"
  shows "located S b c at False (chunks b) w"
  using set_slot_ok [OF bitmap_okD(1) [OF assms(1)] assms(2)] assms by (simp add: located_def)

lemma located_appended:
  assumes "bitmap_ok S b" "\<forall>k\<in>set (keys_of (chunks b)). k < c"
  shows "located S b c (table_size (chunks b)) True (chunk_push_back c w (chunks b)) w"
proof -
  have "lows S c = {}" using absent_chunk [OF assms(1)] assms(2) by blast
  then show ?thesis
    using chunk_push_back_ok [OF bitmap_okD(1) [OF assms(1)] assms(2)]
    unfolding located_def pushed_entry by simp
qed

lemma located_inserted:
  assumes "bitmap_ok S b" "c \<notin> set (keys_of (chunks b))"
  shows "located S b c (lower_bound (keys_of (chunks b)) c) True (chunk_insert (lower_bound (keys_of (chunks b)) c) c w (chunks b)) w"
proof -
  have le: "lower_bound (keys_of (chunks b)) c \<le> table_size (chunks b)" using lower_bound_le [of "keys_of (chunks b)" c] by simp
  have "lows S c = {}" using absent_chunk [OF assms] .
  then show ?thesis
    using chunk_insert_ok [OF bitmap_okD(1) [OF assms(1)] assms(2) refl]
    unfolding located_def inserted_entry [OF le] using le by simp
qed

lemma add_locate_correct:
  assumes "bitmap_ok S b" "add_locate fits capacity v (chunks b) = (at, new, t)"
  shows "located S b (chunk_key32 v) at new t (if fits then make_array else snd (container_add capacity (low_key32 v) make_array))"
proof -
  let ?t = "chunks b" and ?c = "chunk_key32 v"
  let ?w = "if fits then make_array else snd (container_add capacity (low_key32 v) make_array)"
  have strict: "strict (keys_of ?t)" by (rule bitmap_okD(5) [OF assms(1)])
  show ?thesis
  proof (cases "entries ?t = []")
    case True
    then have "(at, new, t) = (table_size ?t, True, chunk_push_back ?c ?w ?t)" using assms(2) by (simp add: add_locate_def Let_def)
    moreover have "\<forall>k\<in>set (keys_of ?t). k < ?c" using True by (simp add: keys_of_def)
    ultimately show ?thesis using located_appended [OF assms(1)] by simp
  next
    case False
    define last_i where "last_i = table_size ?t - 1"
    have last: "last_i < table_size ?t" using False by (simp add: last_i_def table_size_def)
    have below: "k \<le> key_at ?t last_i" if k: "k \<in> set (keys_of ?t)" for k
    proof -
      obtain i where i: "i < table_size ?t" "k = keys_of ?t ! i" using k by (auto simp: in_set_conv_nth)
      then have "i < last_i \<or> i = last_i" by (auto simp: last_i_def)
      then show ?thesis
      proof
        assume "i < last_i"
        from sorted_wrt_nth_less [OF strict this] last show ?thesis by (simp add: i key_at_nth less_imp_le)
      qed (simp add: i key_at_nth last)
    qed
    consider "?c = key_at ?t last_i" | "key_at ?t last_i < ?c" | "?c < key_at ?t last_i" by fastforce
    then show ?thesis
    proof cases
      case 1
      then have "add_locate fits capacity v ?t = (last_i, False, ?t)" using False by (simp add: add_locate_def Let_def last_i_def)
      then have "at = last_i" "\<not> new" "t = ?t" using assms(2) by simp_all
      then show ?thesis using located_found [OF assms(1) last 1 [symmetric]] by simp
    next
      case 2
      then have "?c \<noteq> key_at ?t last_i" by simp
      then have "add_locate fits capacity v ?t = (table_size ?t, True, chunk_push_back ?c ?w ?t)"
        using False 2 by (simp add: add_locate_def Let_def last_i_def)
      then have "(at, new, t) = (table_size ?t, True, chunk_push_back ?c ?w ?t)" using assms(2) by simp
      moreover have "\<forall>k\<in>set (keys_of ?t). k < ?c" using below 2 by fastforce
      ultimately show ?thesis using located_appended [OF assms(1)] by simp
    next
      case 3
      let ?at = "lower_bound (keys_of ?t) ?c"
      have r: "(at, new, t) = (if key_at ?t ?at \<noteq> ?c then (?at, True, chunk_insert ?at ?c ?w ?t) else (?at, False, ?t))"
      proof -
        have "?c \<noteq> key_at ?t last_i" "\<not> key_at ?t last_i < ?c" using 3 by simp_all
        then have "add_locate fits capacity v ?t =
            (if key_at ?t ?at \<noteq> ?c then (?at, True, chunk_insert ?at ?c ?w ?t) else (?at, False, ?t))"
          using False by (simp add: add_locate_def Let_def last_i_def)
        then show ?thesis using assms(2) by simp
      qed
      have "?at \<noteq> table_size ?t"
      proof
        assume "?at = table_size ?t"
        then have "key_at ?t last_i < ?c"
          using below_lower_bound [OF strict, of last_i ?c] last by (simp add: key_at_nth)
        then show False using 3 by simp
      qed
      then have at: "?at < table_size ?t" using lower_bound_le [of "keys_of ?t" ?c] by simp
      show ?thesis
      proof (cases "key_at ?t ?at = ?c")
        case True
        then show ?thesis using r located_found [OF assms(1) at True] by simp
      next
        case False
        then have "?c \<notin> set (keys_of ?t)" using lower_bound_mem [OF strict, of ?c] at by (simp add: key_at_nth)
        then show ?thesis using r located_inserted [OF assms(1)] False by simp
      qed
    qed
  qed
qed

subsection \<open>One key more\<close>

lemma lows_insert_other: "c \<noteq> chunk_key32 v \<Longrightarrow> lows (insert v S) c = lows S c"
  by (simp add: lows_insert)

lemma put_key:
  assumes "bitmap_ok S b" "located S b (chunk_key32 v) at new t w" "exact (insert (unat (low_key32 v)) (lows S (chunk_key32 v))) h"
    and "n = size_of (card S) (v \<in> S)" "size_of = (\<lambda>n old. if old then n else n + 1)"
  shows "bitmap_ok (insert v S) (b\<lparr>chunks := set_slot at h t, total_size := n\<rparr>)"
proof (rule one_chunk_step [OF assms(1)])
  let ?c = "chunk_key32 v"
  have l: "lows (insert v S) ?c = insert (unat (low_key32 v)) (lows S ?c)" by (simp add: lows_insert)
  have ok: "slot_ok h" using assms(3) by (rule slot_ok_of_exact) simp
  then show "table_ok (entries (set_slot at h t))" using assms(2) by (simp add: located_def)
  show "chunk_values (entries (set_slot at h t)) c' = (if c' = ?c then lows (insert v S) ?c else chunk_values (entries (chunks b)) c')" for c'
    using assms(2) ok slot_of_exact [OF assms(3)] by (simp add: located_def l)
  show "lows (insert v S) c' = lows S c'" if "c' \<noteq> ?c" for c' using that by (simp add: lows_insert)
  have "finite (lows S ?c)" by (rule finite_subset [OF lows_bound]) simp
  then show "n + card (lows S ?c) = card S + card (lows (insert v S) ?c)"
    using assms(4,5) lows_chunk [of v S] by (simp add: l card_insert_if)
qed

theorem add_impl_correct:
  assumes "bitmap_ok S b"
  shows "fst (add_impl fits capacity v ctx b) \<longleftrightarrow> v \<notin> S" "bitmap_ok (insert v S) (snd (snd (add_impl fits capacity v ctx b)))"
proof -
  let ?c = "chunk_key32 v" and ?l = "low_key32 v"
  obtain at new t where loc: "add_locate fits capacity v (chunks b) = (at, new, t)" by (metis prod_cases3)
  define w where "w = (if fits then make_array else snd (container_add capacity ?l make_array))"
  have l: "located S b ?c at new t w" using add_locate_correct [OF assms loc] by (simp add: w_def)
  obtain added slot where s: "(if fits \<or> \<not> new then container_add capacity ?l (slot_at t at) else (True, slot_at t at)) = (added, slot)"
    by fastforce
  have "exact (insert (unat ?l) (lows S ?c)) slot \<and> (added \<longleftrightarrow> v \<notin> S)"
  proof (cases new)
    case True
    then have e: "lows S ?c = {}" "slot_at t at = w" using l by (simp_all add: located_def)
    then have "v \<notin> S" using lows_chunk [of v S] by simp
    then show ?thesis using s True e exact_add [OF exact_empty, where v = ?l and capacity = capacity]
      by (cases fits) (auto simp: w_def prod_eq_iff)
  next
    case False
    then have "t = chunks b" "at < table_size (chunks b)" "key_at (chunks b) at = ?c" using l by (auto simp: located_def)
    then have "exact (lows S ?c) (slot_at t at)" using found_chunk(1) [OF assms] by simp
    from exact_add [OF this, where v = ?l and capacity = capacity] show ?thesis using s False lows_chunk [of v S] by (auto simp: prod_eq_iff)
  qed
  then have e: "exact (insert (unat ?l) (lows S ?c)) slot" and added: "added \<longleftrightarrow> v \<notin> S" by blast+
  show "fst (add_impl fits capacity v ctx b) \<longleftrightarrow> v \<notin> S" using added by (simp add: add_impl_def loc s Let_def)
  show "bitmap_ok (insert v S) (snd (snd (add_impl fits capacity v ctx b)))"
  proof (cases added)
    case True
    then show ?thesis
      using put_key [OF assms l exact_promote [OF e] _ refl, of "card S + 1"] added bitmap_okD(3) [OF assms]
      by (simp add: add_impl_def loc s Let_def)
  next
    case False
    then show ?thesis
      using put_key [OF assms l e _ refl, of "card S"] added bitmap_okD(3) [OF assms]
      by (simp add: add_impl_def loc s Let_def) (metis (mono_tags) bitmap.surjective bitmap.update_convs)
  qed
qed

theorem bitmap_add_correct:
  assumes "bitmap_ok S b"
  shows "fst (bitmap_add fits capacity v b) \<longleftrightarrow> v \<notin> S" "bitmap_ok (insert v S) (snd (bitmap_add fits capacity v b))"
  using add_impl_correct [OF assms, where fits = fits and capacity = capacity and v = v and ctx = None]
  by (simp_all add: bitmap_add_def case_prod_unfold)

subsection \<open>One key less\<close>

theorem bitmap_remove_correct:
  assumes "bitmap_ok S b"
  shows "fst (bitmap_remove v b) \<longleftrightarrow> v \<in> S" "bitmap_ok (S - {v}) (snd (bitmap_remove v b))"
proof -
  let ?c = "chunk_key32 v" and ?l = "low_key32 v" and ?t = "chunks b"
  let ?at = "lower_bound (keys_of ?t) ?c"
  have "(fst (bitmap_remove v b) \<longleftrightarrow> v \<in> S) \<and> bitmap_ok (S - {v}) (snd (bitmap_remove v b))"
    using bitmap_okD(5) [OF assms]
  proof (cases rule: lower_bound_cases [where c = ?c])
    case absent
    then have "v \<notin> S" using absent_chunk [OF assms absent(1)] lows_chunk [of v S] by simp
    then show ?thesis using absent(2) assms by (simp add: bitmap_remove_def Let_def)
  next
    case found
    note slot = found_chunk(1) [OF assms found]
    obtain removed h where r: "container_remove ?l (slot_at ?t ?at) = (removed, h)" by fastforce
    have h: "exact (lows S ?c - {unat ?l}) h" "removed \<longleftrightarrow> v \<in> S"
      using exact_remove [OF slot, where v = ?l] lows_chunk [of v S] by (simp_all add: r)
    have l: "lows (S - {v}) ?c = lows S ?c - {unat ?l}" by (simp add: lows_remove)
    have other: "lows (S - {v}) c' = lows S c'" if "c' \<noteq> ?c" for c' using that by (simp add: lows_remove)
    have fin: "finite (lows S ?c)" by (rule finite_subset [OF lows_bound]) simp
    let ?t' = "set_slot ?at h ?t"
    have put: "chunk_values (entries ?t') c' = (if c' = ?c then lows (S - {v}) ?c else chunk_values (entries ?t) c')" for c'
      using set_slot_ok(2) [OF bitmap_okD(1) [OF assms] found(1)] slot_of_exact [OF h(1)] found(2) by (simp add: l)
    show ?thesis
    proof (cases removed)
      case False
      then have "v \<notin> S" using h(2) by simp
      then have same: "S - {v} = S" by simp
      have "lows S ?c - {unat ?l} \<noteq> {}" unfolding l [symmetric] same by (rule found_chunk(2) [OF assms found])
      then have ok: "slot_ok h" by (rule slot_ok_of_exact [OF h(1)])
      have "bitmap_ok (S - {v}) (b\<lparr>chunks := ?t', total_size := total_size b\<rparr>)"
        by (rule one_chunk_step [OF assms set_slot_ok(1) [OF bitmap_okD(1) [OF assms] found(1) ok] put other])
          (simp_all add: bitmap_okD(3) [OF assms] same)
      moreover have "b\<lparr>chunks := ?t', total_size := total_size b\<rparr> = b\<lparr>chunks := ?t'\<rparr>" by simp
      ultimately show ?thesis
        using False found r \<open>v \<notin> S\<close> by (simp add: bitmap_remove_def Let_def)
    next
      case True
      then have v: "v \<in> S" using h(2) by simp
      then have in_c: "unat ?l \<in> lows S ?c" using lows_chunk [of v S] by simp
      have n: "total_size b - 1 + card (lows S ?c) = card S + card (lows (S - {v}) ?c)"
      proof -
        have "0 < card S" using v by (simp add: card_gt_0_iff)  (use finite_subset [OF subset_UNIV] in auto)
        moreover have "card (lows S ?c) = card (lows (S - {v}) ?c) + 1"
          using in_c fin by (simp add: l card_gt_0_iff Suc_leI) (metis card_gt_0_iff empty_iff Suc_pred)
        ultimately show ?thesis by (simp add: bitmap_okD(3) [OF assms])
      qed
      define u where "u = (if container_size h = 0 then chunk_erase ?at ?t' else ?t')"
      have size: "container_size h = card (lows S ?c - {unat ?l})" by (rule exact_size [OF h(1)])
      have u: "table_ok (entries u) \<and> (\<forall>c'. chunk_values (entries u) c' =
          (if c' = ?c then lows (S - {v}) ?c else chunk_values (entries ?t) c'))"
      proof (cases "container_size h = 0")
        case zero: True
        then have none: "lows (S - {v}) ?c = {}" using size fin by (simp add: l)
        have e: "entries (chunk_erase ?at ?t') = entries (chunk_erase ?at ?t)"
          by (simp add: chunk_erase_def advance_def set_slot_def take_update_cancel drop_update_cancel)
        show ?thesis
          using chunk_erase_ok [OF bitmap_okD(1) [OF assms] found(1)] found(2) zero none by (simp add: u_def e)
      next
        case False
        then have "lows S ?c - {unat ?l} \<noteq> {}" using size by (metis card.empty)
        from slot_ok_of_exact [OF h(1) this] have ok: "slot_ok h" .
        show ?thesis using set_slot_ok(1) [OF bitmap_okD(1) [OF assms] found(1) ok] put False by (simp add: u_def)
      qed
      have "bitmap_ok (S - {v}) (b\<lparr>chunks := u, total_size := total_size b - 1\<rparr>)"
        by (rule one_chunk_step [OF assms _ _ other n]) (use u in simp_all)
      moreover have "snd (bitmap_remove v b) = b\<lparr>chunks := u, total_size := total_size b - 1\<rparr>" "fst (bitmap_remove v b)"
        using True found r by (simp_all add: bitmap_remove_def Let_def u_def)
      ultimately show ?thesis using v by simp
    qed
  qed
  then show "fst (bitmap_remove v b) \<longleftrightarrow> v \<in> S" "bitmap_ok (S - {v}) (snd (bitmap_remove v b))" by blast+
qed

end
