(* ===== verification/Bitmap_Contexts.thy ===== *)
theory Bitmap_Contexts
  imports Bitmap_Updates
begin

text \<open>
  Bulk contexts (\<open>bitmap.hpp\<close>, \<open>add_bulk\<close> and \<open>contains_bulk\<close>): a cached slot address is followed only when the
  generation it was taken at is still the table's. As long as the generation has not moved, neither has the block of the
  table nor the entries in it, so the address still points at the slot of its chunk. The generation has 32 bits and
  advances by at most one in an operation, so a stale context is found stale for \<open>2 ^ 32\<close> operations. A session mixes
  bulk calls on one context with plain ones; it is \<open>None\<close> when some call follows an address that points at no slot.
\<close>

subsection \<open>Sessions\<close>

datatype bulk_op = Plain_add key32 | Plain_remove key32 | Plain_contains key32 | Bulk_add key32 | Bulk_contains key32

fun bulk_call :: "bool \<Rightarrow> nat \<Rightarrow> bulk_op \<Rightarrow> bulk_context \<Rightarrow> bitmap \<Rightarrow> (bool \<times> bulk_context \<times> bitmap) option" where
  "bulk_call fits capacity (Plain_add v) ctx b = (case bitmap_add fits capacity v b of (r, b) \<Rightarrow> Some (r, ctx, b))"
| "bulk_call fits capacity (Plain_remove v) ctx b = (case bitmap_remove v b of (r, b) \<Rightarrow> Some (r, ctx, b))"
| "bulk_call fits capacity (Plain_contains v) ctx b = Some (bitmap_contains b v, ctx, b)"
| "bulk_call fits capacity (Bulk_add v) ctx b = add_bulk fits capacity ctx v b"
| "bulk_call fits capacity (Bulk_contains v) ctx b = map_option (\<lambda>(r, ctx). (r, ctx, b)) (contains_bulk ctx b v)"

fun bulk_session :: "bool \<Rightarrow> nat \<Rightarrow> bulk_op list \<Rightarrow> bulk_context \<Rightarrow> bitmap \<Rightarrow> (bool list \<times> bulk_context \<times> bitmap) option" where
  "bulk_session fits capacity [] ctx b = Some ([], ctx, b)"
| "bulk_session fits capacity (op # ops) ctx b =
    (case bulk_call fits capacity op ctx b of None \<Rightarrow> None
     | Some (r, ctx, b) \<Rightarrow> map_option (\<lambda>(rs, ctx, b). (r # rs, ctx, b)) (bulk_session fits capacity ops ctx b))"

fun bulk_op_on_set :: "bulk_op \<Rightarrow> key32 set \<Rightarrow> bool \<times> key32 set" where
  "bulk_op_on_set (Plain_add v) S = (v \<notin> S, insert v S)"
| "bulk_op_on_set (Plain_remove v) S = (v \<in> S, S - {v})"
| "bulk_op_on_set (Plain_contains v) S = (v \<in> S, S)"
| "bulk_op_on_set (Bulk_add v) S = (v \<notin> S, insert v S)"
| "bulk_op_on_set (Bulk_contains v) S = (v \<in> S, S)"

fun bulk_ops_on_set :: "bulk_op list \<Rightarrow> key32 set \<Rightarrow> bool list \<times> key32 set" where
  "bulk_ops_on_set [] S = ([], S)"
| "bulk_ops_on_set (op # ops) S =
    (case bulk_op_on_set op S of (r, S) \<Rightarrow> case bulk_ops_on_set ops S of (rs, S) \<Rightarrow> (r # rs, S))"

subsection \<open>Contexts that stand on their chunk\<close>

definition stands :: "bulk_context \<Rightarrow> 16 word chunk_store \<Rightarrow> bool" where
  "stands ctx t \<longleftrightarrow>
    ctx_slot ctx = slot_address t (ctx_at ctx) \<and> ctx_at ctx < table_size t \<and> key_at t (ctx_at ctx) = ctx_chunk ctx"

lemma stands_pointed: "stands ctx t \<Longrightarrow> pointed_at t (ctx_slot ctx) = Some (ctx_at ctx)"
  by (simp add: stands_def slot_address_def pointed_at_def)

text \<open>\<open>n\<close> restructurings since the context was filled.\<close>

definition tracked :: "nat \<Rightarrow> bulk_context \<Rightarrow> bitmap \<Rightarrow> bool" where
  "tracked n ctx b \<longleftrightarrow> (ctx_slot ctx \<noteq> None \<longrightarrow>
     generation (chunks b) = ctx_generation ctx + of_nat n \<and> (n = 0 \<longrightarrow> stands ctx (chunks b)))"

definition usable :: "bulk_context \<Rightarrow> bitmap \<Rightarrow> bool" where
  "usable ctx b \<longleftrightarrow> (ctx_slot ctx \<noteq> None \<and> ctx_generation ctx = generation (chunks b) \<longrightarrow> stands ctx (chunks b))"

lemma tracked_usable:
  assumes "tracked n ctx b" "n < 2 ^ 32"
  shows "usable ctx b"
proof -
  have "n = 0" if "ctx_slot ctx \<noteq> None" "ctx_generation ctx = generation (chunks b)"
  proof -
    have "(of_nat n :: 32 word) = 0" using assms(1) that by (simp add: tracked_def)
    then show ?thesis using assms(2) by (simp add: word_of_nat_eq_0_iff) (metis dvd_imp_le linorder_not_less not_gr_zero)
  qed
  moreover have "stands ctx (chunks b)" if "ctx_slot ctx \<noteq> None" "n = 0" using assms(1) that by (simp add: tracked_def)
  ultimately show ?thesis unfolding usable_def by blast
qed

text \<open>What an operation does to the table, as a context sees it.\<close>

definition moves_on :: "bitmap \<Rightarrow> bitmap \<Rightarrow> bool" where
  "moves_on b b' \<longleftrightarrow> guards_addresses (chunks b) (chunks b')"

lemma stands_guarded:
  assumes "stands ctx t" "guards_addresses t t'" "generation t' \<noteq> generation t + 1"
  shows "stands ctx t'"
proof -
  have "pointed_at t (ctx_slot ctx) = Some (ctx_at ctx)" by (rule stands_pointed [OF assms(1)])
  then have "pointed_at t' (ctx_slot ctx) = Some (ctx_at ctx) \<and> key_at t' (ctx_at ctx) = key_at t (ctx_at ctx)"
    using assms(2,3) by (simp add: guards_addresses_def)
  then show ?thesis using assms(1) by (simp add: stands_def pointed_at_iff)
qed

lemma moves_on_tracked:
  assumes "tracked n ctx b" "moves_on b b'"
  shows "\<exists>m\<le>n + 1. tracked m ctx b'"
proof -
  have "tracked n ctx b' \<or> tracked (n + 1) ctx b'"
  proof (cases "generation (chunks b') = generation (chunks b) + 1")
    case True
    then show ?thesis using assms(1) by (auto simp: tracked_def ac_simps)
  next
    case False
    then show ?thesis using assms stands_guarded [OF _ _ False] by (auto simp: tracked_def moves_on_def guards_addresses_def)
  qed
  moreover have "n \<le> n + 1" "n + 1 \<le> n + 1" by simp_all
  ultimately show ?thesis by blast
qed

lemma guards_set_slot:
  assumes "guards_addresses t t'"
  shows "guards_addresses t (set_slot at h t')"
  using assms by (auto simp: guards_addresses_def pointed_at_iff slot_address_def)

lemma add_locate_moves:
  assumes "add_locate fits capacity v t = (at, new, t')"
  shows "guards_addresses t t'"
  using assms push_back_guards [of t] insert_guards [of t] guards_refl [of t]
  unfolding add_locate_def by (auto simp: Let_def split: if_splits)

lemma add_impl_moves: "moves_on b (snd (snd (add_impl fits capacity v ctx b)))"
proof -
  obtain at new t where "add_locate fits capacity v (chunks b) = (at, new, t)" by (metis prod_cases3)
  with guards_set_slot [OF add_locate_moves [OF this]] show ?thesis
    by (auto simp: add_impl_def moves_on_def Let_def split: prod.split if_split)
qed

lemma remove_moves: "moves_on b (snd (bitmap_remove v b))"
  using set_slot_guards guards_refl [of "chunks b"]
  by (auto simp: bitmap_remove_def moves_on_def Let_def chunk_erase_def advance_guards split: prod.split)

subsection \<open>Bulk membership\<close>

lemma contains_slot:
  assumes "bitmap_ok S b" "at < table_size (chunks b)" "key_at (chunks b) at = chunk_key32 v"
  shows "container_contains (slot_at (chunks b) at) (low_key32 v) \<longleftrightarrow> v \<in> S"
proof -
  note e = found_chunk(1) [OF assms]
  show ?thesis using container_contains_correct [OF exact_wf(1) [OF e], of "low_key32 v"] exact_wf(2) [OF e] lows_chunk [of v S] by simp
qed

lemma contains_searched_correct:
  assumes "bitmap_ok S b"
  shows "fst (contains_searched ctx b v) \<longleftrightarrow> v \<in> S" "tracked 0 (snd (contains_searched ctx b v)) b"
proof -
  have "(fst (contains_searched ctx b v) \<longleftrightarrow> v \<in> S) \<and> tracked 0 (snd (contains_searched ctx b v)) b"
    using bitmap_okD(5) [OF assms]
  proof (cases rule: lower_bound_cases [where c = "chunk_key32 v"])
    case found
    then show ?thesis
      using contains_slot [OF assms found] by (simp add: contains_searched_def Let_def tracked_def stands_def)
  next
    case absent
    then have "v \<notin> S" using absent_chunk [OF assms absent(1)] lows_chunk [of v S] by simp
    then show ?thesis using absent(2) by (simp add: contains_searched_def Let_def tracked_def context_reset_def)
  qed
  then show "fst (contains_searched ctx b v) \<longleftrightarrow> v \<in> S" "tracked 0 (snd (contains_searched ctx b v)) b" by blast+
qed

lemma adjacent_stands:
  assumes "try_adjacent_chunk b c at = Some at'" "at < table_size (chunks b)"
  shows "at' < table_size (chunks b)" "key_at (chunks b) at' = c"
  using assms by (auto simp: try_adjacent_chunk_def Let_def split: if_splits)

theorem contains_bulk_correct:
  assumes "bitmap_ok S b" "usable ctx b" "tracked n ctx b"
  shows "\<exists>ctx'. contains_bulk ctx b v = Some (v \<in> S, ctx') \<and> (\<exists>m\<le>n + 1. tracked m ctx' b)"
proof (cases "ctx_slot ctx \<noteq> None \<and> ctx_generation ctx = generation (chunks b)")
  case False
  then show ?thesis using contains_searched_correct [OF assms(1), of ctx v] by (cases "contains_searched ctx b v") (auto simp: contains_bulk_def Let_def)
next
  case True
  then have st: "stands ctx (chunks b)" using assms(2) by (simp add: usable_def)
  note stands = st [unfolded stands_def, THEN conjunct2, THEN conjunct1] st [unfolded stands_def, THEN conjunct2, THEN conjunct2]
  show ?thesis
  proof (cases "ctx_chunk ctx = chunk_key32 v")
    case hit: True
    moreover have "\<exists>m\<le>n + 1. tracked m ctx b" using assms(3) by (intro exI [of _ n]) simp
    ultimately show ?thesis using True contains_slot [OF assms(1) stands(1), of v] stands(2)
      by (simp add: contains_bulk_def Let_def stands_pointed [OF st])
  next
    case other: False
    show ?thesis
    proof (cases "try_adjacent_chunk b (chunk_key32 v) (ctx_at ctx)")
      case None
      then show ?thesis using True other stands(1) contains_searched_correct [OF assms(1), of ctx v]
        by (cases "contains_searched ctx b v") (auto simp: contains_bulk_def Let_def)
    next
      case (Some at)
      note a = adjacent_stands [OF Some stands(1)]
      have "tracked 0 (ctx\<lparr>ctx_chunk := chunk_key32 v, ctx_at := at, ctx_slot := slot_address (chunks b) at, payload_private := False\<rparr>) b"
        using True a by (simp add: tracked_def stands_def)
      then show ?thesis using True other Some stands(1) contains_slot [OF assms(1) a] by (auto simp: contains_bulk_def Let_def)
    qed
  qed
qed

subsection \<open>Bulk insertion\<close>

text \<open>The lane of an in-order append is the one the insertion into an array takes.\<close>

lemma try_append_is_add:
  "holds_array h \<Longrightarrow> fst (array_try_append capacity v h) \<Longrightarrow> container_add capacity v h = (True, snd (array_try_append capacity v h))"
  by (auto simp: container_add_def kind_holds [symmetric] array_add_def split: prod.split)

lemma add_bulk_hit:
  assumes "ctx_generation ctx = generation (chunks b)" "ctx_chunk ctx = chunk_key32 v" "stands ctx (chunks b)"
  shows "add_bulk fits capacity ctx v b =
    (case container_add capacity (low_key32 v) (slot_at (chunks b) (ctx_at ctx)) of (added, slot) \<Rightarrow>
       if \<not> added then Some (False, ctx, b\<lparr>chunks := set_slot (ctx_at ctx) slot (chunks b)\<rparr>)
       else Some (True, ctx\<lparr>payload_private := True\<rparr>,
             b\<lparr>chunks := set_slot (ctx_at ctx) (promote_if_needed slot) (chunks b), total_size := total_size b + 1\<rparr>))"
proof -
  have "ctx_slot ctx \<noteq> None" using assms(3) by (simp add: stands_def slot_address_def)
  then show ?thesis
    using assms(1,2) stands_pointed [OF assms(3)] try_append_is_add [of "slot_at (chunks b) (ctx_at ctx)" capacity "low_key32 v"]
    by (auto simp: add_bulk_def Let_def)
qed

theorem add_bulk_correct:
  assumes "bitmap_ok S b" "usable ctx b" "tracked n ctx b"
  shows "\<exists>ctx' b'. add_bulk fits capacity ctx v b = Some (v \<notin> S, ctx', b') \<and> bitmap_ok (insert v S) b' \<and> (\<exists>m\<le>n + 1. tracked m ctx' b')"
proof -
  let ?r = "add_bulk fits capacity ctx v b" and ?c = "chunk_key32 v" and ?l = "low_key32 v"
  show ?thesis
  proof (cases "ctx_slot ctx \<noteq> None \<and> ctx_generation ctx = generation (chunks b) \<and> ctx_chunk ctx = ?c")
    case True
    then have st: "stands ctx (chunks b)" using assms(2) by (simp add: usable_def)
    then have stands: "ctx_at ctx < table_size (chunks b)" "key_at (chunks b) (ctx_at ctx) = ?c"
      using True by (auto simp: stands_def)
    note e = found_chunk(1) [OF assms(1) stands]
    note l = located_found [OF assms(1) stands]
    obtain added slot where a: "container_add capacity ?l (slot_at (chunks b) (ctx_at ctx)) = (added, slot)" by fastforce
    have s: "exact (insert (unat ?l) (lows S ?c)) slot" "added \<longleftrightarrow> v \<notin> S"
      using exact_add [OF e, where v = ?l and capacity = capacity] lows_chunk [of v S] by (simp_all add: a)
    have r: "?r = (if \<not> added then Some (False, ctx, b\<lparr>chunks := set_slot (ctx_at ctx) slot (chunks b)\<rparr>)
       else Some (True, ctx\<lparr>payload_private := True\<rparr>,
             b\<lparr>chunks := set_slot (ctx_at ctx) (promote_if_needed slot) (chunks b), total_size := total_size b + 1\<rparr>))"
      using add_bulk_hit [where fits = fits and capacity = capacity, OF _ _ st] True by (simp add: a)
    have t: "tracked 0 ctx' (b\<lparr>chunks := set_slot (ctx_at ctx) h (chunks b), total_size := k\<rparr>)"
      if "ctx' = ctx \<or> ctx' = ctx\<lparr>payload_private := True\<rparr>" for ctx' h k
      using that True stands st by (auto simp: tracked_def stands_def slot_address_def)
    show ?thesis
    proof (cases added)
      case new: True
      then show ?thesis
        using put_key [OF assms(1) l exact_promote [OF s(1)] _ refl, of "card S + 1"] s(2) r True t bitmap_okD(3) [OF assms(1)]
        by auto
    next
      case False
      have same: "b\<lparr>chunks := set_slot (ctx_at ctx) slot (chunks b), total_size := card S\<rparr> =
          b\<lparr>chunks := set_slot (ctx_at ctx) slot (chunks b)\<rparr>"
        using bitmap_okD(3) [OF assms(1)] by simp
      show ?thesis
        using put_key [OF assms(1) l s(1) _ refl, of "card S"] False s(2) r True t [where ctx' = ctx and h = slot and k = "card S"] by (auto simp: same)
    qed
  next
    case False
    obtain added ctx' b' where i: "add_impl fits capacity v (Some ctx) b = (added, ctx', b')" by (metis prod_cases3)
    obtain at new t where loc: "add_locate fits capacity v (chunks b) = (at, new, t)" by (metis prod_cases3)
    have l: "at < table_size t" "key_at t at = ?c" using add_locate_correct [OF assms(1) loc] by (simp_all add: located_def)
    have "tracked 0 (the ctx') b' \<and> ctx' \<noteq> None"
      using i l by (auto simp: add_impl_def loc Let_def tracked_def stands_def slot_address_def split: prod.splits if_splits)
    moreover have "?r = Some (added, the ctx', b')" using False i calculation by (auto simp: add_bulk_def Let_def)
    ultimately show ?thesis
      using add_impl_correct [OF assms(1), where fits = fits and capacity = capacity and v = v and ctx = "Some ctx"] by (auto simp: i)
  qed
qed

subsection \<open>Sessions agree with sets\<close>

lemma bulk_call_correct:
  assumes "bitmap_ok S b" "tracked n ctx b" "n < 2 ^ 32"
  shows "\<exists>ctx' b'. bulk_call fits capacity op ctx b = Some (fst (bulk_op_on_set op S), ctx', b') \<and>
    bitmap_ok (snd (bulk_op_on_set op S)) b' \<and> (\<exists>m\<le>n + 1. tracked m ctx' b')"
proof (cases op)
  case (Plain_add v)
  have "moves_on b (snd (bitmap_add fits capacity v b))"
    using add_impl_moves [of b fits capacity v None] by (simp add: bitmap_add_def case_prod_unfold)
  from moves_on_tracked [OF assms(2) this] show ?thesis
    using bitmap_add_correct [OF assms(1), where fits = fits and capacity = capacity and v = v] by (auto simp: Plain_add split: prod.split)
next
  case (Plain_remove v)
  from moves_on_tracked [OF assms(2) remove_moves [of b v]] show ?thesis
    using bitmap_remove_correct [OF assms(1), of v] by (auto simp: Plain_remove split: prod.split)
next
  case (Plain_contains v)
  moreover have "\<exists>m\<le>n + 1. tracked m ctx b" using assms(2) by (intro exI [of _ n]) simp
  ultimately show ?thesis using bitmap_contains_correct [OF assms(1), of v] assms(1) by simp
next
  case (Bulk_add v)
  then show ?thesis
    using add_bulk_correct [OF assms(1) tracked_usable [OF assms(2,3)] assms(2), where fits = fits and capacity = capacity and v = v] by simp
next
  case (Bulk_contains v)
  then show ?thesis
    using contains_bulk_correct [OF assms(1) tracked_usable [OF assms(2,3)] assms(2), of v] assms(1) by fastforce
qed

lemma bulk_session_tracked:
  assumes "bitmap_ok S b" "tracked n ctx b" "n + length ops < 2 ^ 32"
  shows "\<exists>ctx' b'. bulk_session fits capacity ops ctx b = Some (fst (bulk_ops_on_set ops S), ctx', b') \<and>
    bitmap_ok (snd (bulk_ops_on_set ops S)) b' \<and> usable ctx' b'"
  using assms
proof (induction ops arbitrary: S n ctx b)
  case Nil
  then show ?case using tracked_usable [OF Nil(2)] by simp
next
  case (Cons op ops)
  obtain r T where o: "bulk_op_on_set op S = (r, T)" by fastforce
  obtain ctx' b' m where c: "bulk_call fits capacity op ctx b = Some (r, ctx', b')" "bitmap_ok T b'" and m: "m \<le> n + 1" "tracked m ctx' b'"
    using bulk_call_correct [OF Cons.prems(1,2), where fits = fits and capacity = capacity and op = op] Cons.prems(3) by (auto simp: o)
  have "m + length ops < 2 ^ 32" using m(1) Cons.prems(3) by simp
  from Cons.IH [OF c(2) m(2) this] show ?case by (auto simp: c(1) o split: prod.splits)
qed

theorem bulk_session_correct:
  assumes "bitmap_ok S b" "length ops < 2 ^ 32"
  shows "\<exists>ctx b'. bulk_session fits capacity ops no_context b = Some (fst (bulk_ops_on_set ops S), ctx, b') \<and>
    bitmap_ok (snd (bulk_ops_on_set ops S)) b' \<and> usable ctx b'"
proof -
  have "tracked 0 no_context b" by (simp add: tracked_def no_context_def)
  from bulk_session_tracked [OF assms(1) this] assms(2) show ?thesis by simp
qed

end
