(* ===== verification/Bitmap_Batches.thy ===== *)
theory Bitmap_Batches
  imports Bitmap_Updates
begin

text \<open>
  Updates of many keys (\<open>bitmap.hpp\<close>, \<open>bitmap_definitions.hpp\<close>): the groups of the keys of each chunk, sorted batches
  added and removed, the append of sorted keys, unsorted batches (which are sorted first, or scattered into one bitset),
  and closed ranges, chunk by chunk. \<open>room\<close> is the capacity of a slot's payload, as the slots of a bitmap have it.
\<close>

subsection \<open>Deferred counts\<close>

definition size_deferred :: nat where
  "size_deferred = 2 ^ 63"

definition counts_deferred :: "bitmap \<Rightarrow> bool" where
  "counts_deferred b = (total_size b \<ge> size_deferred div 2)"

definition repair_slot :: "container \<Rightarrow> container" where
  "repair_slot slot =
    (if holds_bitset slot \<and> cardinality_stale slot
     then mark_endpoints_stale (set_cardinality (popcount_words (bitset_words slot)) slot) else slot)"

definition repair_cardinality :: "bitmap \<Rightarrow> bitmap" where
  "repair_cardinality b =
    (let slots = map (\<lambda>(key, slot). (key, repair_slot slot)) (entries (chunks b))
     in b\<lparr>chunks := (chunks b)\<lparr>entries := slots\<rparr>, total_size := fold (\<lambda>(_, slot) n. n + container_size slot) slots 0\<rparr>)"

definition settle_counts :: "bitmap \<Rightarrow> bitmap" where
  "settle_counts b = (if counts_deferred b then repair_cardinality b else b)"

subsection \<open>Groups\<close>

text \<open>The keys are ascending and may repeat; the low halves of a chunk are copied whole and compacted only when one
  repeats.\<close>

fun chunk_groups :: "key32 list \<Rightarrow> (16 word \<times> low list) list" where
  "chunk_groups [] = []"
| "chunk_groups (key # keys) =
    (let chunk = chunk_key32 key;
         same = takeWhile (\<lambda>k. chunk_key32 k = chunk) keys;
         g = key # same;
         out = map low_key32 g;
         repeats = fold (\<lambda>i n. n + of_bool (g ! i = g ! (i - 1))) [1..<length g] (0 :: nat)
     in (chunk, if repeats = 0 then out else remdups_adj out) # chunk_groups (drop (length same) keys))"

definition add_group :: "bool \<Rightarrow> (container \<Rightarrow> nat) \<Rightarrow> bool \<Rightarrow> 16 word \<times> low list \<Rightarrow> bitmap \<Rightarrow> bitmap" where
  "add_group eager room unshared g b =
    (case g of (chunk, vs) \<Rightarrow>
       let t = chunks b; at = lower_bound (keys_of t) chunk
       in if at = table_size t \<or> key_at t at \<noteq> chunk then
            b\<lparr>chunks := chunk_insert at chunk (make_container_from_sorted_values eager vs array_to_bitset_threshold) t,
              total_size := total_size b + length vs\<rparr>
          else case container_add_sorted (room (slot_at t at)) unshared vs (slot_at t at) of (n, slot) \<Rightarrow>
            b\<lparr>chunks := set_slot at (promote_if_needed slot) t, total_size := total_size b + n\<rparr>)"

definition add_many_sorted :: "bool \<Rightarrow> (container \<Rightarrow> nat) \<Rightarrow> bool \<Rightarrow> key32 list \<Rightarrow> bitmap \<Rightarrow> bitmap" where
  "add_many_sorted eager room unshared keys b = fold (add_group eager room unshared) (chunk_groups keys) (settle_counts b)"

definition remove_group :: "bool \<Rightarrow> 16 word \<times> low list \<Rightarrow> bitmap \<Rightarrow> bitmap" where
  "remove_group eager g b =
    (case g of (chunk, vs) \<Rightarrow>
       let t = chunks b; at = lower_bound (keys_of t) chunk
       in if at = table_size t \<or> key_at t at \<noteq> chunk then b
          else case container_remove_sorted vs array_to_bitset_threshold (slot_at t at) of (n, slot) \<Rightarrow>
            let t = set_slot at slot t
            in b\<lparr>total_size := total_size b - n,
                 chunks := (if container_size slot = 0 then chunk_erase at t
                            else if \<not> holds_run slot then set_slot at (optimize_container_for_storage eager slot array_to_bitset_threshold) t
                            else t)\<rparr>)"

definition remove_many_sorted :: "bool \<Rightarrow> key32 list \<Rightarrow> bitmap \<Rightarrow> bitmap" where
  "remove_many_sorted eager keys b = fold (remove_group eager) (chunk_groups keys) (settle_counts b)"

fun append_groups :: "bool \<Rightarrow> nat \<Rightarrow> key32 list \<Rightarrow> bitmap \<Rightarrow> bitmap" where
  "append_groups eager bitset_threshold [] b = b"
| "append_groups eager bitset_threshold (key # keys) b =
    (let chunk = chunk_key32 key;
         same = takeWhile (\<lambda>k. chunk_key32 k = chunk) keys;
         container = make_container_from_sorted_keys eager (key # same) bitset_threshold;
         count = container_size container
     in append_groups eager bitset_threshold (drop (length same) keys)
          (b\<lparr>chunks := chunk_push_back chunk container (chunks b), total_size := total_size b + count\<rparr>))"

definition add_sorted_many :: "bool \<Rightarrow> (container \<Rightarrow> nat) \<Rightarrow> bool \<Rightarrow> nat \<Rightarrow> key32 list \<Rightarrow> bitmap \<Rightarrow> bitmap" where
  "add_sorted_many eager room unshared bitset_threshold keys b =
    (if keys = [] then b
     else let b = settle_counts b; t = chunks b
          in if entries t \<noteq> [] \<and> chunk_key32 (hd keys) \<le> key_at t (table_size t - 1)
             then add_many_sorted eager room unshared keys b
             else append_groups eager bitset_threshold keys b)"

subsection \<open>Unsorted batches\<close>

text \<open>The scatter of keys that turn out to be of one chunk: the bitset and the least and greatest low half, or \<open>None\<close> at
  the first key of another chunk.\<close>

fun dense_loop :: "16 word \<Rightarrow> key32 list \<Rightarrow> container \<times> low \<times> low \<Rightarrow> (container \<times> low \<times> low) option" where
  "dense_loop chunk [] s = Some s"
| "dense_loop chunk (key # keys) (bitset, min_low, max_low) =
    (if chunk_key32 key \<noteq> chunk then None
     else let v = low_key32 key
          in dense_loop chunk keys (snd (bitset_add v bitset), min min_low v, max max_low v))"

definition try_add_many_single_chunk_dense :: "bool \<Rightarrow> key32 list \<Rightarrow> bitmap \<Rightarrow> bitmap option" where
  "try_add_many_single_chunk_dense eager keys b =
    (if entries (chunks b) \<noteq> [] then None
     else if length keys < array_to_bitset_threshold then None
     else if keys = [] then Some b
     else let chunk = chunk_key32 (hd keys); first_low = low_key32 (hd keys)
          in case dense_loop chunk keys (make_bitset_zeroed, first_low, first_low) of
               None \<Rightarrow> None
             | Some (bitset, min_low, max_low) \<Rightarrow>
                 let n = cardinality bitset; span = unat max_low - unat min_low + 1
                 in if n = 0 then Some b
                    else if n = span \<and> eager then
                      Some (b\<lparr>chunks := chunk_push_back chunk
                               (handle_from_run_container \<lparr>runs = [mk_run min_low max_low], rc_cardinality = n\<rparr>) (chunks b),
                             total_size := n\<rparr>)
                    else if n \<ge> array_to_bitset_threshold \<and> bitset_bytes \<le> n * 2 then
                      Some (b\<lparr>chunks := chunk_push_back chunk bitset (chunks b), total_size := n\<rparr>)
                    else None)"

definition add_many_unsorted :: "bool \<Rightarrow> (container \<Rightarrow> nat) \<Rightarrow> bool \<Rightarrow> key32 list \<Rightarrow> bitmap \<Rightarrow> bitmap" where
  "add_many_unsorted eager room unshared keys b =
    (case try_add_many_single_chunk_dense eager keys b of
       Some b \<Rightarrow> b
     | None \<Rightarrow>
         let sorted_values = sort keys
         in if bitmap_empty b then add_sorted_many eager room unshared array_to_bitset_threshold sorted_values b
            else add_many_sorted eager room unshared sorted_values b)"

definition remove_many_unsorted :: "bool \<Rightarrow> key32 list \<Rightarrow> bitmap \<Rightarrow> bitmap" where
  "remove_many_unsorted eager keys b = remove_many_sorted eager (sort keys) b"

subsection \<open>Closed ranges\<close>

definition apply_chunk_range_operation :: "bool \<Rightarrow> 16 word \<Rightarrow> low \<Rightarrow> low \<Rightarrow> range_operation \<Rightarrow> bitmap \<Rightarrow> bitmap" where
  "apply_chunk_range_operation eager chunk low_begin low_end op b =
    (let t = chunks b; at = lower_bound (keys_of t) chunk;
         absent = (at = table_size t \<or> key_at t at \<noteq> chunk)
     in if absent \<and> op = Range_remove then b
        else let t = (if absent then chunk_insert at chunk make_array t else t);
                 previous_size = container_size (slot_at t at);
                 slot = apply_range_to_container eager (slot_at t at) low_begin low_end op array_to_bitset_threshold;
                 updated_size = container_size slot;
                 t = set_slot at slot t
             in b\<lparr>total_size := (if updated_size > previous_size then total_size b + (updated_size - previous_size)
                                else total_size b - (previous_size - updated_size)),
                  chunks := (if updated_size = 0 then chunk_erase at t else t)\<rparr>)"

definition segment_end :: "key32 \<Rightarrow> key32 \<Rightarrow> key32" where
  "segment_end end_value current = min end_value (compose32 (chunk_key32 current) (- 1))"

lemma chunk_end_ge: "current \<le> compose32 (chunk_key32 current) (- 1)"
proof -
  let ?e = "compose32 (chunk_key32 current) (- 1)"
  have "unat (low_key32 current) < 65536" by simp
  then show ?thesis
    using unat_split32 [of current] unat_split32 [of ?e]
    by (simp add: split_compose32 word_le_nat_alt unsigned_minus_1_eq_mask mask_eq_exp_minus_1)
qed

lemma key_step: "v < w \<Longrightarrow> unat (v + 1) = unat v + 1" for v w :: key32
proof -
  assume "v < w"
  then have "unat v + unat (1 :: key32) < 2 ^ LENGTH(32)" using unsigned_less [of w, where 'a = nat] by (simp add: word_less_nat_alt)
  then show ?thesis by (subst unat_add_lem [THEN iffD1]) simp_all
qed

function closed_range_loop :: "bool \<Rightarrow> range_operation \<Rightarrow> key32 \<Rightarrow> key32 \<Rightarrow> bitmap \<Rightarrow> bitmap" where
  "closed_range_loop eager op end_value current b =
    (let seg = segment_end end_value current;
         b = apply_chunk_range_operation eager (chunk_key32 current) (low_key32 current) (low_key32 seg) op b
     in if seg = end_value \<or> seg = - 1 then b else closed_range_loop eager op end_value (seg + 1) b)"
  by pat_completeness auto
termination
proof (relation "measure (\<lambda>(_, _, end_value, current, _). unat end_value - unat current)", goal_cases)
  case (2 eager op end_value current b seg b')
  have s: "seg = compose32 (chunk_key32 current) (- 1)" "seg < end_value" "current \<le> seg"
    using 2 chunk_end_ge [of current] by (auto simp: segment_end_def min_def not_le split: if_splits)
  have "unat (seg + 1) = unat seg + 1" by (rule key_step [OF s(2)])
  then show ?case using s(2,3) by (auto simp: word_less_nat_alt word_le_nat_alt)
qed simp

declare closed_range_loop.simps [simp del]

definition apply_closed_range_operation :: "bool \<Rightarrow> key32 \<Rightarrow> key32 \<Rightarrow> range_operation \<Rightarrow> bitmap \<Rightarrow> bitmap" where
  "apply_closed_range_operation eager begin_value end_value op b =
    (let b = settle_counts b
     in if begin_value > end_value then b else closed_range_loop eager op end_value begin_value b)"

definition add_closed_range :: "bool \<Rightarrow> key32 \<Rightarrow> key32 \<Rightarrow> bitmap \<Rightarrow> bitmap" where
  "add_closed_range eager begin_value end_value b = apply_closed_range_operation eager begin_value end_value Range_add b"

definition remove_closed_range :: "bool \<Rightarrow> key32 \<Rightarrow> key32 \<Rightarrow> bitmap \<Rightarrow> bitmap" where
  "remove_closed_range eager begin_value end_value b = apply_closed_range_operation eager begin_value end_value Range_remove b"

definition flip_closed_range :: "bool \<Rightarrow> key32 \<Rightarrow> key32 \<Rightarrow> bitmap \<Rightarrow> bitmap" where
  "flip_closed_range eager begin_value end_value b = apply_closed_range_operation eager begin_value end_value Range_flip b"

end
