(* ===== verification/Batch_Sets.thy ===== *)
theory Batch_Sets
  imports Bitmap_Batches Bitmap_Contexts
begin

text \<open>
  The batch operations of a bitmap are set operations: a batch adds or removes exactly its keys, a closed range is
  added, removed or flipped, whatever the chunks they touch held, and the size is kept.
\<close>

subsection \<open>Counts of a finished bitmap are not deferred\<close>

lemma finished_not_deferred: "bitmap_ok S b \<Longrightarrow> \<not> counts_deferred b"
proof -
  assume "bitmap_ok S b"
  then have "total_size b = card S" by (rule bitmap_okD(3))
  moreover have "card S \<le> card (UNIV :: key32 set)" by (rule card_mono) simp_all
  then have "card S \<le> 2 ^ 32" by (simp add: card_word)
  ultimately show ?thesis by (simp add: counts_deferred_def size_deferred_def)
qed

lemma settle_finished [simp]: "bitmap_ok S b \<Longrightarrow> settle_counts b = b"
  by (simp add: settle_counts_def finished_not_deferred)

subsection \<open>The groups\<close>

definition chunk_part :: "16 word \<times> low list \<Rightarrow> key32 set" where
  "chunk_part g = compose32 (fst g) ` set (snd g)"

definition group_ok :: "16 word \<times> low list \<Rightarrow> bool" where
  "group_ok g \<longleftrightarrow> strict (snd g) \<and> snd g \<noteq> []"

lemma lows_chunk_part: "lows (chunk_part g) c = (if c = fst g then array_set (snd g) else {})"
proof -
  have part: "compose32 c l \<in> chunk_part g \<longleftrightarrow> c = fst g \<and> l \<in> set (snd g)" for l
    by (auto simp: chunk_part_def) (metis split_compose32)+
  have "unat l \<in> array_set (snd g) \<longleftrightarrow> l \<in> set (snd g)" for l
    by (auto simp: array_set_def dest!: low_eq_iff [THEN iffD2])
  then show ?thesis by (intro lows_eqI) (auto simp: part array_set_def)
qed

lemma sorted_takeWhile_drop: "sorted xs \<Longrightarrow> sorted (takeWhile P xs)" "sorted xs \<Longrightarrow> sorted (drop n xs)"
  by (simp_all add: sorted_takeWhile sorted_wrt_drop)

lemma one_chunk_group:
  assumes "sorted (key # keys)"
  shows "one_chunk (chunk_key32 key) (key # takeWhile (\<lambda>k. chunk_key32 k = chunk_key32 key) keys)"
  using assms sorted_takeWhile_drop(1) [of keys] by (auto simp: one_chunk_def dest: set_takeWhileD)

lemma group_keys:
  assumes "one_chunk c g"
  shows "chunk_part (c, remdups_adj (map low_key32 g)) = set g"
proof -
  have "compose32 c (low_key32 k) = k" if "k \<in> set g" for k
    using that assms compose_split32 [of k] by (auto simp: one_chunk_def)
  then show ?thesis by (force simp: chunk_part_def image_image)
qed

lemma chunk_groups_Cons:
  assumes "sorted (key # keys)"
  shows "chunk_groups (key # keys) =
    (chunk_key32 key, remdups_adj (map low_key32 (key # takeWhile (\<lambda>k. chunk_key32 k = chunk_key32 key) keys))) #
      chunk_groups (drop (length (takeWhile (\<lambda>k. chunk_key32 k = chunk_key32 key) keys)) keys)"
  using compacted_lows [OF one_chunk_group [OF assms]] unfolding chunk_groups.simps Let_def by (simp only:)

declare chunk_groups.simps [simp del]

lemma chunk_groups_Nil [simp]: "chunk_groups [] = []"
  by (simp add: chunk_groups.simps)

lemma chunk_groups_correct:
  "sorted keys \<Longrightarrow> (\<forall>g\<in>set (chunk_groups keys). group_ok g) \<and> (\<Union>g\<in>set (chunk_groups keys). chunk_part g) = set keys"
proof (induction keys rule: chunk_groups.induct)
  case (2 key keys)
  let ?same = "takeWhile (\<lambda>k. chunk_key32 k = chunk_key32 key) keys"
  have one: "one_chunk (chunk_key32 key) (key # ?same)" by (rule one_chunk_group [OF "2.prems"])
  have "sorted (drop (length ?same) keys)" using "2.prems" by (simp add: sorted_wrt_drop)
  note ih = "2.IH" [OF refl refl refl refl refl this]
  have ok: "group_ok (chunk_key32 key, remdups_adj (map low_key32 (key # ?same)))"
    using strict_remdups_adj [OF sorted_lows [OF one]] by (simp add: group_ok_def)
  have "set keys = set ?same \<union> set (drop (length ?same) keys)"
    by (metis append_take_drop_id set_append takeWhile_eq_take)
  then show ?case
    using ih ok group_keys [OF one] unfolding chunk_groups_Cons [OF "2.prems"] by auto
qed simp

subsection \<open>One group\<close>

lemma add_group_correct:
  assumes "bitmap_ok S b" "group_ok g" "\<And>h. length (run_list h) \<le> room h"
  shows "bitmap_ok (S \<union> chunk_part g) (add_group eager room unshared g b)"
proof -
  obtain c vs where g: "g = (c, vs)" by (cases g)
  have vs: "strict vs" "vs \<noteq> []" using assms(2) by (simp_all add: group_ok_def g)
  have lows_c: "lows (S \<union> chunk_part g) c = lows S c \<union> array_set vs" by (simp add: lows_set_ops lows_chunk_part g)
  have other: "lows (S \<union> chunk_part g) c' = lows S c'" if "c' \<noteq> c" for c' using that by (simp add: lows_set_ops lows_chunk_part g)
  let ?t = "chunks b"
  let ?at = "lower_bound (keys_of ?t) c"
  show ?thesis using bitmap_okD(5) [OF assms(1)]
  proof (cases rule: lower_bound_cases [where c = c])
    case found
    note slot = found_chunk(1) [OF assms(1) found]
    obtain n h where r: "container_add_sorted (room (slot_at ?t ?at)) unshared vs (slot_at ?t ?at) = (n, h)" by fastforce
    have h: "exact (lows S c \<union> array_set vs) (promote_if_needed h)" "n = card (array_set vs - lows S c)"
      using exact_promote exact_add_sorted [OF slot assms(3) vs(1), where unshared = unshared] by (simp_all add: r)
    have ok: "slot_ok (promote_if_needed h)" by (rule slot_ok_of_exact [OF h(1)]) (use vs(2) in \<open>simp add: array_set_def\<close>)
    note put = set_slot_ok [OF bitmap_okD(1) [OF assms(1)] found(1)]
    have fin: "finite (lows S c)" by (rule finite_subset [OF lows_bound]) simp
    have "card (lows S c \<union> array_set vs) = card (lows S c) + card (array_set vs - lows S c)"
      using fin by (subst card_Un_disjoint [symmetric]) (auto simp: array_set_def)
    then have size: "total_size b + n + card (lows S c) = card S + card (lows (S \<union> chunk_part g) c)"
      by (simp add: bitmap_okD(3) [OF assms(1)] lows_c h(2))
    have "bitmap_ok (S \<union> chunk_part g)
        (b\<lparr>chunks := set_slot ?at (promote_if_needed h) ?t, total_size := total_size b + n\<rparr>)"
      by (rule one_chunk_step [OF assms(1) put(1) [OF ok] _ other size])
        (simp_all add: put(2) found(2) slot_of_exact [OF h(1)] lows_c)
    then show ?thesis using found r by (simp add: add_group_def g Let_def)
  next
    case absent
    let ?h = "make_container_from_sorted_values eager vs array_to_bitset_threshold"
    have h: "exact (array_set vs) ?h" by (rule exact_sorted_values [OF vs(1)])
    have ok: "slot_ok ?h" by (rule slot_ok_of_exact [OF h]) (use vs(2) in \<open>simp add: array_set_def\<close>)
    note put = chunk_insert_ok [OF bitmap_okD(1) [OF assms(1)] absent(1) refl ok]
    have none: "lows S c = {}" by (rule absent_chunk [OF assms(1) absent(1)])
    have size: "total_size b + length vs + card (lows S c) = card S + card (lows (S \<union> chunk_part g) c)"
      using card_array_set [OF vs(1)] by (simp add: bitmap_okD(3) [OF assms(1)] lows_c none)
    have "bitmap_ok (S \<union> chunk_part g) (b\<lparr>chunks := chunk_insert ?at c ?h ?t, total_size := total_size b + length vs\<rparr>)"
      by (rule one_chunk_step [OF assms(1) put(1) _ other size]) (simp_all add: put(2) slot_of_exact [OF h] lows_c none)
    then show ?thesis using absent(2) by (simp add: add_group_def g Let_def)
  qed
qed

lemma fold_groups:
  assumes "\<And>S b g. bitmap_ok S b \<Longrightarrow> group_ok g \<Longrightarrow> bitmap_ok (f S (chunk_part g)) (step_g g b)" "\<forall>g\<in>set gs. group_ok g" "bitmap_ok S b"
  shows "bitmap_ok (fold (\<lambda>g S. f S (chunk_part g)) gs S) (fold step_g gs b)"
  using assms(2,3)
proof (induction gs arbitrary: S b)
  case (Cons g gs)
  then show ?case using assms(1) by simp
qed simp

lemma fold_union: "fold (\<lambda>g S. S \<union> f g) gs S = S \<union> (\<Union>g\<in>set gs. f g)"
  by (induction gs arbitrary: S) auto

lemma fold_difference: "fold (\<lambda>g S. S - f g) gs S = S - (\<Union>g\<in>set gs. f g)"
  by (induction gs arbitrary: S) auto

theorem add_many_sorted_correct:
  assumes "bitmap_ok S b" "sorted keys" "\<And>h. length (run_list h) \<le> room h"
  shows "bitmap_ok (S \<union> set keys) (add_many_sorted eager room unshared keys b)"
  using fold_groups [where f = "(\<union>)" and step_g = "add_group eager room unshared", OF add_group_correct [OF _ _ assms(3)], of "chunk_groups keys"]
    chunk_groups_correct [OF assms(2)] assms(1)
  by (simp add: add_many_sorted_def fold_union)

lemma remove_group_correct:
  assumes "bitmap_ok S b" "group_ok g"
  shows "bitmap_ok (S - chunk_part g) (remove_group eager g b)"
proof -
  obtain c vs where g: "g = (c, vs)" by (cases g)
  have vs: "strict vs" "vs \<noteq> []" using assms(2) by (simp_all add: group_ok_def g)
  have lows_c: "lows (S - chunk_part g) c = lows S c - array_set vs" by (simp add: lows_set_ops lows_chunk_part g)
  have other: "lows (S - chunk_part g) c' = lows S c'" if "c' \<noteq> c" for c' using that by (simp add: lows_set_ops lows_chunk_part g)
  let ?t = "chunks b"
  let ?at = "lower_bound (keys_of ?t) c"
  show ?thesis using bitmap_okD(5) [OF assms(1)]
  proof (cases rule: lower_bound_cases [where c = c])
    case absent
    then have "lows (S - chunk_part g) c' = lows S c'" for c' using other [of c'] lows_c absent_chunk [OF assms(1) absent(1)] by (cases "c' = c") simp_all
    then have "S - chunk_part g = S" by (rule set_of_lows)
    then show ?thesis using absent(2) assms(1) by (simp add: remove_group_def g Let_def)
  next
    case found
    note slot = found_chunk(1) [OF assms(1) found]
    obtain n h where r: "container_remove_sorted vs array_to_bitset_threshold (slot_at ?t ?at) = (n, h)" by fastforce
    have h: "exact (lows S c - array_set vs) h" "n = card (lows S c \<inter> array_set vs)"
      using exact_remove_sorted [OF slot vs, where threshold = array_to_bitset_threshold] by (simp_all add: r)
    define h' where "h' = (if \<not> holds_run h then optimize_container_for_storage eager h array_to_bitset_threshold else h)"
    have h': "exact (lows S c - array_set vs) h'" using h(1) exact_optimize by (simp add: h'_def)
    have fin: "finite (lows S c)" by (rule finite_subset [OF lows_bound]) simp
    have parts: "card (lows S c) = card (lows S c - array_set vs) + card (lows S c \<inter> array_set vs)"
      using card_Diff_subset_Int [of "lows S c" "array_set vs"] card_mono [OF fin, of "lows S c \<inter> array_set vs"] fin by simp
    have le: "card (lows S c) \<le> card S" using card_by_chunk [of S c] by simp
    have size: "total_size b - n + card (lows S c) = card S + card (lows (S - chunk_part g) c)"
      using parts le by (simp add: bitmap_okD(3) [OF assms(1)] lows_c h(2))
    define u where "u = (if container_size h = 0 then chunk_erase ?at (set_slot ?at h ?t) else set_slot ?at h' (set_slot ?at h ?t))"
    have twice: "set_slot ?at x (set_slot ?at h ?t) = set_slot ?at x ?t" for x
      using found(1) by (simp add: set_slot_def key_at_def table_size_def)
    have erased: "entries (chunk_erase ?at (set_slot ?at h ?t)) = entries (chunk_erase ?at ?t)"
      by (simp add: chunk_erase_def advance_def set_slot_def take_update_cancel drop_update_cancel)
    have u: "table_ok (entries u) \<and> (\<forall>c'. chunk_values (entries u) c' =
        (if c' = c then lows (S - chunk_part g) c else chunk_values (entries ?t) c'))"
    proof (cases "lows S c - array_set vs = {}")
      case True
      then have "container_size h = 0" using exact_size [OF h(1)] by (simp only: card.empty)
      then show ?thesis using chunk_erase_ok [OF bitmap_okD(1) [OF assms(1)] found(1)] found(2) lows_c True by (simp add: u_def erased)
    next
      case False
      then have "container_size h \<noteq> 0" using exact_size [OF h(1)] fin by simp
      then show ?thesis
        using set_slot_ok [OF bitmap_okD(1) [OF assms(1)] found(1), of h'] slot_ok_of_exact [OF h' False] found(2) slot_of_exact [OF h'] lows_c
        by (simp add: u_def twice)
    qed
    have "bitmap_ok (S - chunk_part g) (b\<lparr>chunks := u, total_size := total_size b - n\<rparr>)"
      by (rule one_chunk_step [OF assms(1) _ _ other size]) (use u in simp_all)
    moreover have "remove_group eager g b = b\<lparr>chunks := u, total_size := total_size b - n\<rparr>"
      using found by (cases "holds_run h") (simp_all add: remove_group_def g Let_def r u_def h'_def twice)
    ultimately show ?thesis by simp
  qed
qed

theorem remove_many_sorted_correct:
  assumes "bitmap_ok S b" "sorted keys"
  shows "bitmap_ok (S - set keys) (remove_many_sorted eager keys b)"
  using fold_groups [where f = "(-)" and step_g = "remove_group eager", OF remove_group_correct, of "chunk_groups keys"]
    chunk_groups_correct [OF assms(2)] assms(1)
  by (simp add: remove_many_sorted_def fold_difference)

subsection \<open>Appended groups\<close>

lemma append_groups_correct:
  assumes "bitmap_ok S b" "sorted keys" "\<forall>k\<in>set keys. \<forall>c\<in>set (keys_of (chunks b)). c < chunk_key32 k"
  shows "bitmap_ok (S \<union> set keys) (append_groups eager threshold keys b)"
  using assms
proof (induction eager threshold keys b arbitrary: S rule: append_groups.induct)
  case (2 eager threshold key keys b)
  let ?c = "chunk_key32 key"
  let ?same = "takeWhile (\<lambda>k. chunk_key32 k = ?c) keys" and ?rest = "dropWhile (\<lambda>k. chunk_key32 k = ?c) keys"
  let ?h = "make_container_from_sorted_keys eager (key # ?same) threshold"
  let ?b = "b\<lparr>chunks := chunk_push_back ?c ?h (chunks b), total_size := total_size b + container_size ?h\<rparr>"
  let ?S = "S \<union> set (key # ?same)"
  have one: "one_chunk ?c (key # ?same)" by (rule one_chunk_group [OF "2.prems"(2)])
  let ?vs = "remdups_adj (map low_key32 (key # ?same))"
  have h: "exact (array_set ?vs) ?h"
    unfolding make_container_from_sorted_keys_eq [OF one] by (rule exact_sorted_values [OF strict_remdups_adj [OF sorted_lows [OF one]]])
  have part: "chunk_part (?c, ?vs) = set (key # ?same)" by (rule group_keys [OF one])
  have lows_c: "lows (set (key # ?same)) c = (if c = ?c then array_set ?vs else {})" for c
    using lows_chunk_part [of "(?c, ?vs)" c] unfolding part by simp
  have ok: "slot_ok ?h" by (rule slot_ok_of_exact [OF h]) (simp add: array_set_def)
  have above: "\<forall>c\<in>set (keys_of (chunks b)). c < ?c" using "2.prems"(3) by simp
  then have "?c \<notin> set (keys_of (chunks b))" by blast
  then have none: "lows S ?c = {}" by (rule absent_chunk [OF "2.prems"(1)])
  note put = chunk_push_back_ok [OF bitmap_okD(1) [OF "2.prems"(1)] above]
  have b: "bitmap_ok ?S ?b"
  proof (rule one_chunk_step [OF "2.prems"(1) put(1) [OF ok]])
    show "chunk_values (entries (chunk_push_back ?c ?h (chunks b))) c' = (if c' = ?c then lows ?S ?c else chunk_values (entries (chunks b)) c')" for c'
      by (simp only: put(2) slot_of_exact [OF h] lows_set_ops lows_c none simp_thms if_True Un_empty_left)
    show "lows ?S c' = lows S c'" if "c' \<noteq> ?c" for c' using that by (simp only: lows_set_ops lows_c if_False Un_empty_right)
    show "total_size b + container_size ?h + card (lows S ?c) = card S + card (lows ?S ?c)"
      by (simp only: bitmap_okD(3) [OF "2.prems"(1)] exact_size [OF h] lows_set_ops lows_c none simp_thms if_True Un_empty_left card.empty)
  qed
  have drop: "drop (length ?same) keys = ?rest" by (rule sym [OF dropWhile_eq_drop])
  have sorted: "sorted ?rest" using "2.prems"(2) drop by (metis sorted_wrt.simps(2) sorted_wrt_drop)
  have next_chunks: "?c < chunk_key32 k" if k: "k \<in> set ?rest" for k
  proof -
    have ne: "?rest \<noteq> []"
    proof
      assume none: "?rest = []"
      show False using k unfolding none by simp
    qed
    have le: "hd ?rest \<le> k" using sorted k by (cases ?rest) auto
    have "hd ?rest \<in> set keys" by (rule set_dropWhileD [OF hd_in_set [OF ne]])
    then have "key \<le> hd ?rest" using "2.prems"(2) by simp
    then have "chunk_key32 key \<le> chunk_key32 (hd ?rest)" using key_order32 [of "hd ?rest" key] by (metis linorder_not_less)
    moreover have "chunk_key32 (hd ?rest) \<noteq> ?c" by (rule hd_dropWhile [OF ne])
    moreover have "chunk_key32 (hd ?rest) \<le> chunk_key32 k" using le key_order32 [of k "hd ?rest"] by (metis linorder_not_less)
    ultimately show ?thesis by simp
  qed
  have "\<forall>k\<in>set ?rest. \<forall>c\<in>set (keys_of (chunks ?b)). c < chunk_key32 k"
  proof (intro ballI)
    fix k c assume k: "k \<in> set ?rest" and c: "c \<in> set (keys_of (chunks ?b))"
    have "keys_of (chunks ?b) = keys_of (chunks b) @ [?c]" by (simp add: keys_of_def)
    then have "c \<le> ?c" using c above by (auto intro: less_imp_le)
    then show "c < chunk_key32 k" using next_chunks [OF k] by (rule le_less_trans)
  qed
  then have "bitmap_ok (?S \<union> set ?rest) (append_groups eager threshold ?rest ?b)"
    using "2.IH" [OF refl refl refl refl, unfolded drop, OF b sorted] by blast
  moreover have "?S \<union> set ?rest = S \<union> set (key # keys)"
  proof -
    have "set keys = set ?same \<union> set ?rest" unfolding set_append [symmetric] takeWhile_dropWhile_id by (rule refl)
    then show ?thesis unfolding list.set by blast
  qed
  moreover have "append_groups eager threshold (key # keys) b = append_groups eager threshold ?rest ?b"
    unfolding append_groups.simps Let_def drop by (rule refl)
  ultimately show ?case by (simp only:)
qed simp

theorem add_sorted_many_correct:
  assumes "bitmap_ok S b" "sorted keys" "\<And>h. length (run_list h) \<le> room h"
  shows "bitmap_ok (S \<union> set keys) (add_sorted_many eager room unshared threshold keys b)"
proof (cases "keys = []")
  case False
  let ?t = "chunks b"
  show ?thesis
  proof (cases "entries ?t \<noteq> [] \<and> chunk_key32 (hd keys) \<le> key_at ?t (table_size ?t - 1)")
    case True
    then show ?thesis using add_many_sorted_correct [OF assms, of eager unshared] False assms(1)
      by (simp add: add_sorted_many_def Let_def)
  next
    case tail: False
    have "c < chunk_key32 k" if k: "k \<in> set keys" and c: "c \<in> set (keys_of ?t)" for k c
    proof -
      obtain i where i: "i < table_size ?t" "c = keys_of ?t ! i" using c by (auto simp: in_set_conv_nth)
      have "c \<le> key_at ?t (table_size ?t - 1)"
        using sorted_wrt_nth_less [OF bitmap_okD(5) [OF assms(1)], of i "table_size ?t - 1"] i
        by (cases "i = table_size ?t - 1") (auto simp: key_at_nth less_imp_le)
      moreover have "key_at ?t (table_size ?t - 1) < chunk_key32 (hd keys)" using tail c by (auto simp: keys_of_def)
      moreover have "hd keys \<le> k" using assms(2) k by (cases keys) auto
      then have "chunk_key32 (hd keys) \<le> chunk_key32 k" using key_order32 [of k "hd keys"] by (metis linorder_not_less)
      ultimately show ?thesis by simp
    qed
    then have "bitmap_ok (S \<union> set keys) (append_groups eager threshold keys b)"
      using append_groups_correct [OF assms(1,2)] by blast
    then show ?thesis
      unfolding add_sorted_many_def Let_def settle_finished [OF assms(1)] if_not_P [OF False] if_not_P [OF tail] .
  qed
qed (simp add: add_sorted_many_def assms(1))

end
