(* ===== verification/Range_Sets.thy ===== *)
theory Range_Sets
  imports Batch_Sets
begin

text \<open>
  The closed ranges of a bitmap: a chunk's part of a range is added to, removed from or flipped in the chunk's slot, which
  is made when it is missing and erased when nothing is left in it, and the segments of a range are walked chunk by chunk
  until its last key.
\<close>

subsection \<open>Putting a slot back\<close>

lemma some_slot_ok: "\<exists>h. slot_ok h"
  using slot_ok_of_exact [OF exact_add(1) [OF exact_empty, where capacity = 1 and v = 0]] by blast

lemma located_erase:
  assumes "located S b c at new t w"
  shows "table_ok (entries (chunk_erase at (set_slot at h t)))"
    "chunk_values (entries (chunk_erase at (set_slot at h t))) c' = (if c' = c then {} else chunk_values (entries (chunks b)) c')"
proof -
  obtain h0 where h0: "slot_ok h0" using some_slot_ok by blast
  have at: "at < table_size t" "key_at t at = c" using assms by (simp_all add: located_def)
  have ok: "table_ok (entries (set_slot at h0 t))"
    and put: "chunk_values (entries (set_slot at h0 t)) c' = (if c' = c then values_of h0 else chunk_values (entries (chunks b)) c')"
    using assms h0 by (simp_all add: located_def)
  have e: "entries (chunk_erase at (set_slot at h t)) = entries (chunk_erase at (set_slot at h0 t))"
    by (simp add: chunk_erase_def advance_def set_slot_def take_update_cancel drop_update_cancel)
  have at': "at < table_size (set_slot at h0 t)" "key_at (set_slot at h0 t) at = c" using at by simp_all
  show "table_ok (entries (chunk_erase at (set_slot at h t)))" unfolding e by (rule chunk_erase_ok(1) [OF ok at'(1)])
  show "chunk_values (entries (chunk_erase at (set_slot at h t))) c' = (if c' = c then {} else chunk_values (entries (chunks b)) c')"
    unfolding e chunk_erase_ok(2) [OF ok at'(1)] at'(2) put by simp
qed

lemma located_update:
  assumes "bitmap_ok S b" "located S b c at new t w" "exact (lows S' c) h" "\<And>c'. c' \<noteq> c \<Longrightarrow> lows S' c' = lows S c'"
    and "n + card (lows S c) = card S + card (lows S' c)"
  shows "bitmap_ok S' (b\<lparr>chunks := (if container_size h = 0 then chunk_erase at (set_slot at h t) else set_slot at h t), total_size := n\<rparr>)"
proof -
  define u where "u = (if container_size h = 0 then chunk_erase at (set_slot at h t) else set_slot at h t)"
  have fin: "finite (lows S' c)" by (rule finite_subset [OF lows_bound]) simp
  have u: "table_ok (entries u) \<and> (\<forall>c'. chunk_values (entries u) c' = (if c' = c then lows S' c else chunk_values (entries (chunks b)) c'))"
  proof (cases "lows S' c = {}")
    case True
    then have "container_size h = 0" using exact_size [OF assms(3)] by (simp only: card.empty)
    then show ?thesis using located_erase [OF assms(2)] True by (simp add: u_def)
  next
    case False
    then have "container_size h \<noteq> 0" using exact_size [OF assms(3)] fin by simp
    then show ?thesis using assms(2) slot_ok_of_exact [OF assms(3) False] slot_of_exact [OF assms(3)] by (simp add: u_def located_def)
  qed
  have "bitmap_ok S' (b\<lparr>chunks := u, total_size := n\<rparr>)"
    by (rule one_chunk_step [OF assms(1) _ _ assms(4,5)]) (use u in simp_all)
  then show ?thesis by (simp only: u_def)
qed

subsection \<open>One chunk\<close>

definition keys_effect :: "range_operation \<Rightarrow> key32 set \<Rightarrow> key32 set \<Rightarrow> key32 set" where
  "keys_effect op S R = (case op of Range_add \<Rightarrow> S \<union> R | Range_remove \<Rightarrow> S - R | Range_flip \<Rightarrow> (S - R) \<union> (R - S))"

lemma lows_keys_effect: "lows (keys_effect op S R) c = range_effect op (lows S c) (lows R c)"
  by (simp add: keys_effect_def range_effect_def lows_set_ops split: range_operation.splits)

lemma keys_effect_empty [simp]: "keys_effect op S {} = S"
  by (simp add: keys_effect_def split: range_operation.splits)

lemma range_effect_empty [simp]: "range_effect op S {} = S"
  by (simp add: range_effect_def split: range_operation.splits)

lemma keys_effect_step: "A \<inter> R = {} \<Longrightarrow> keys_effect op (keys_effect op S A) R = keys_effect op S (A \<union> R)"
  by (auto simp: keys_effect_def split: range_operation.splits)

lemma lows_segment:
  assumes "chunk_key32 v = chunk_key32 w" "v \<le> w"
  shows "lows {v..w} c = (if c = chunk_key32 v then {unat (low_key32 v)..unat (low_key32 w)} else {})"
proof -
  have part: "compose32 c l \<in> {v..w} \<longleftrightarrow> c = chunk_key32 v \<and> low_key32 v \<le> l \<and> l \<le> low_key32 w" for l
    using assms key_order32 [of "compose32 c l" v] key_order32 [of w "compose32 c l"]
    by (auto simp: split_compose32 not_less [symmetric])
  have low_less: "unat (low_key32 w) < 65536" by simp
  show ?thesis
  proof (rule lows_eqI)
    show "compose32 c l \<in> {v..w} \<longleftrightarrow> unat l \<in> (if c = chunk_key32 v then {unat (low_key32 v)..unat (low_key32 w)} else {})" for l
      unfolding part by (auto simp: word_le_nat_alt)
  qed (auto intro: le_less_trans [OF _ low_less])
qed

lemma chunk_range_correct:
  assumes "bitmap_ok S b" "chunk_key32 v = chunk_key32 w" "v \<le> w"
  shows "bitmap_ok (keys_effect op S {v..w}) (apply_chunk_range_operation eager (chunk_key32 v) (low_key32 v) (low_key32 w) op b)"
proof -
  let ?c = "chunk_key32 v" and ?t = "chunks b" and ?S = "keys_effect op S {v..w}"
  let ?at = "lower_bound (keys_of ?t) ?c"
  let ?absent = "?at = table_size ?t \<or> key_at ?t ?at \<noteq> ?c"
  have le: "low_key32 v \<le> low_key32 w" using assms(2,3) key_order32 [of w v] by (simp add: not_less [symmetric])
  have lows_c: "lows ?S ?c = range_effect op (lows S ?c) {unat (low_key32 v)..unat (low_key32 w)}"
    by (simp add: lows_keys_effect lows_segment [OF assms(2,3)])
  have other: "lows ?S c' = lows S c'" if "c' \<noteq> ?c" for c' using that by (simp add: lows_keys_effect lows_segment [OF assms(2,3)])
  show ?thesis
  proof (cases "?absent \<and> op = Range_remove")
    case True
    have "lows ?S c' = lows S c'" for c'
    proof (cases "c' = ?c")
      case c: True
      have "lows S ?c = {}" using bitmap_okD(5) [OF assms(1)]
        by (cases rule: lower_bound_cases [where c = ?c]) (use True absent_chunk [OF assms(1)] in auto)
      then show ?thesis using c lows_c True by (simp add: range_effect_def)
    qed (rule other)
    then have "?S = S" by (rule set_of_lows)
    then show ?thesis using True assms(1) by (simp add: apply_chunk_range_operation_def Let_def)
  next
    case work: False
    define t where "t = (if ?absent then chunk_insert ?at ?c make_array ?t else ?t)"
    define h where "h = apply_range_to_container eager (slot_at t ?at) (low_key32 v) (low_key32 w) op array_to_bitset_threshold"
    have loc: "located S b ?c ?at ?absent t make_array" using bitmap_okD(5) [OF assms(1)]
    proof (cases rule: lower_bound_cases [where c = ?c])
      case absent
      then show ?thesis using located_inserted [OF assms(1) absent(1), of make_array] by (simp add: t_def)
    next
      case found
      then show ?thesis using located_found [OF assms(1) found] by (simp add: t_def)
    qed
    have slot: "exact (lows S ?c) (slot_at t ?at)"
    proof (cases ?absent)
      case True
      then show ?thesis using loc exact_empty by (simp add: located_def)
    next
      case False
      then have t: "t = ?t" by (simp add: t_def)
      moreover have "?at < table_size t" using loc by (simp add: located_def)
      ultimately have "t = ?t" "?at < table_size ?t" by simp_all
      then show ?thesis using found_chunk(1) [OF assms(1), of ?at] False by simp
    qed
    have h: "exact (lows ?S ?c) h" unfolding lows_c h_def by (rule exact_range [OF slot le])
    let ?n = "if container_size h > container_size (slot_at t ?at)
      then total_size b + (container_size h - container_size (slot_at t ?at))
      else total_size b - (container_size (slot_at t ?at) - container_size h)"
    have "card (lows S ?c) \<le> card S" using card_by_chunk [of S ?c] by simp
    then have n: "?n + card (lows S ?c) = card S + card (lows ?S ?c)"
      by (simp add: exact_size [OF h] exact_size [OF slot] bitmap_okD(3) [OF assms(1)])
    have "apply_chunk_range_operation eager ?c (low_key32 v) (low_key32 w) op b =
        b\<lparr>chunks := (if container_size h = 0 then chunk_erase ?at (set_slot ?at h t) else set_slot ?at h t), total_size := ?n\<rparr>"
      unfolding apply_chunk_range_operation_def Let_def if_not_P [OF work] t_def [symmetric] h_def [symmetric] by simp
    then show ?thesis using located_update [OF assms(1) loc h other n] by simp
  qed
qed

subsection \<open>All segments\<close>

lemma segment_facts:
  assumes "current \<le> end_value"
  shows "current \<le> segment_end end_value current" "segment_end end_value current \<le> end_value"
    "chunk_key32 (segment_end end_value current) = chunk_key32 current"
proof -
  show ge: "current \<le> segment_end end_value current" using assms chunk_end_ge [of current] by (simp add: segment_end_def)
  show "segment_end end_value current \<le> end_value" by (simp add: segment_end_def)
  have "segment_end end_value current \<le> compose32 (chunk_key32 current) (- 1)" by (simp add: segment_end_def)
  then show "chunk_key32 (segment_end end_value current) = chunk_key32 current"
    using ge key_order32 [of "segment_end end_value current" current] key_order32 [of "compose32 (chunk_key32 current) (- 1)" "segment_end end_value current"]
    by (simp add: split_compose32 not_less [symmetric])
qed

lemma closed_range_loop_correct:
  "bitmap_ok S b \<Longrightarrow> current \<le> end_value \<Longrightarrow>
    bitmap_ok (keys_effect op S {current..end_value}) (closed_range_loop eager op end_value current b)"
proof (induction eager op end_value current b arbitrary: S rule: closed_range_loop.induct)
  case (1 eager op end_value current b)
  let ?seg = "segment_end end_value current"
  let ?b = "apply_chunk_range_operation eager (chunk_key32 current) (low_key32 current) (low_key32 ?seg) op b"
  note seg = segment_facts [OF "1.prems"(2)]
  have b: "bitmap_ok (keys_effect op S {current..?seg}) ?b" by (rule chunk_range_correct [OF "1.prems"(1) seg(3) [symmetric] seg(1)])
  show ?case
  proof (cases "?seg = end_value \<or> ?seg = - 1")
    case True
    then have "?seg = end_value" using seg(2) by (metis word_order.extremum_uniqueI)
    then show ?thesis using b True by (simp add: closed_range_loop.simps [of eager op end_value current b] Let_def)
  next
    case False
    then have lt: "?seg < end_value" using seg(2) False by (simp add: order.strict_iff_order)
    have next_key: "unat (?seg + 1) = unat ?seg + 1" by (rule key_step [OF lt])
    then have le: "?seg + 1 \<le> end_value" using lt by (simp add: word_le_nat_alt word_less_nat_alt)
    have parts: "{current..?seg} \<inter> {?seg + 1..end_value} = {}" "{current..?seg} \<union> {?seg + 1..end_value} = {current..end_value}"
      using next_key seg(1) le by (auto simp: word_le_nat_alt)
    have "bitmap_ok (keys_effect op (keys_effect op S {current..?seg}) {?seg + 1..end_value}) (closed_range_loop eager op end_value (?seg + 1) ?b)"
      by (rule "1.IH" [OF refl refl False b le])
    then show ?thesis
      using False by (simp add: closed_range_loop.simps [of eager op end_value current b] Let_def keys_effect_step [OF parts(1)] parts(2))
  qed
qed

theorem apply_closed_range_correct:
  assumes "bitmap_ok S b"
  shows "bitmap_ok (keys_effect op S {begin_value..end_value}) (apply_closed_range_operation eager begin_value end_value op b)"
proof (cases "begin_value > end_value")
  case False
  then show ?thesis
    using closed_range_loop_correct [OF assms, of begin_value end_value] by (simp add: apply_closed_range_operation_def settle_finished [OF assms])
qed (simp add: apply_closed_range_operation_def settle_finished [OF assms] assms)

end
