(* ===== verification/Unsorted_Sets.thy ===== *)
theory Unsorted_Sets
  imports Batch_Sets
begin

text \<open>
  Unsorted batches are the same set operations: the keys are sorted first, or, when an empty bitmap receives many keys of
  one chunk, scattered into one bitset that becomes a run when it has no gap. The repair of deferred counts is here too.
\<close>

subsection \<open>Scattered keys\<close>

definition counted_bitset :: "nat set \<Rightarrow> container \<Rightarrow> bool" where
  "counted_bitset T h \<longleftrightarrow> exact T h \<and> holds_bitset h"

lemma counted_bitset_add: "counted_bitset T h \<Longrightarrow> counted_bitset (insert (unat v) T) (snd (bitset_add v h))"
proof -
  assume "counted_bitset T h"
  then have e: "exact T h" and b: "holds_bitset h" by (simp_all add: counted_bitset_def)
  note h = exact_wf [OF e]
  show ?thesis using bitset_add_correct(1,2,3) [OF h(1) b, of v] h(2,3) by (simp add: counted_bitset_def exact_def holds_set_def counted)
qed

lemma counted_bitset_zeroed: "counted_bitset {} make_bitset_zeroed"
proof -
  have "holds_bitset make_bitset_zeroed"
    by (simp add: make_bitset_zeroed_def make_bitset_uninitialized_def mark_endpoints_stale_def holds_bitset_def kind_def)
  then show ?thesis by (simp add: counted_bitset_def exact_def holds_set_def empty_factories counted)
qed

lemma dense_loop_correct:
  assumes "dense_loop c keys (h, lo, hi) = Some (h', lo', hi')" "counted_bitset T h" "\<forall>x\<in>T. unat lo \<le> x \<and> x \<le> unat hi"
    "lo \<le> hi"
  shows "\<forall>k\<in>set keys. chunk_key32 k = c" "counted_bitset (T \<union> array_set (map low_key32 keys)) h'"
    "\<forall>x\<in>T \<union> array_set (map low_key32 keys). unat lo' \<le> x \<and> x \<le> unat hi'" "lo' \<le> hi'"
proof -
  have "(\<forall>k\<in>set keys. chunk_key32 k = c) \<and> counted_bitset (T \<union> array_set (map low_key32 keys)) h' \<and>
      (\<forall>x\<in>T \<union> array_set (map low_key32 keys). unat lo' \<le> x \<and> x \<le> unat hi') \<and> lo' \<le> hi'"
    using assms
  proof (induction keys arbitrary: h lo hi T)
    case Nil
    then show ?case by (simp add: array_set_def)
  next
    case (Cons key keys)
    let ?v = "low_key32 key"
    have c: "chunk_key32 key = c" and r: "dense_loop c keys (snd (bitset_add ?v h), min lo ?v, max hi ?v) = Some (h', lo', hi')"
      using Cons.prems(1) by (simp_all add: Let_def split: if_splits)
    have b: "\<forall>x\<in>insert (unat ?v) T. unat (min lo ?v) \<le> x \<and> x \<le> unat (max hi ?v)"
    proof
      fix x assume x: "x \<in> insert (unat ?v) T"
      have m: "unat (min lo ?v) \<le> unat lo" "unat (min lo ?v) \<le> unat ?v" "unat hi \<le> unat (max hi ?v)" "unat ?v \<le> unat (max hi ?v)"
        by (simp_all add: word_le_nat_alt [symmetric])
      show "unat (min lo ?v) \<le> x \<and> x \<le> unat (max hi ?v)"
      proof (cases "x \<in> T")
        case True
        then have "unat lo \<le> x" "x \<le> unat hi" using Cons.prems(3) by blast+
        then show ?thesis using m(1,3) by (blast intro: order_trans)
      next
        case False
        then have "x = unat ?v" using x by blast
        then show ?thesis using m(2,4) by blast
      qed
    qed
    have le: "min lo ?v \<le> max hi ?v" by (simp add: min_le_iff_disj le_max_iff_disj)
    have e: "insert (unat ?v) T \<union> array_set (map low_key32 keys) = T \<union> array_set (map low_key32 (key # keys))"
      by (auto simp: array_set_def)
    show ?case using Cons.IH [OF r counted_bitset_add [OF Cons.prems(2)] b le] c unfolding e by simp
  qed
  then show "\<forall>k\<in>set keys. chunk_key32 k = c" "counted_bitset (T \<union> array_set (map low_key32 keys)) h'"
    "\<forall>x\<in>T \<union> array_set (map low_key32 keys). unat lo' \<le> x \<and> x \<le> unat hi'" "lo' \<le> hi'" by blast+
qed

lemma one_run_exact:
  assumes "lo \<le> hi"
  shows "exact {unat lo..unat hi} (handle_from_run_container \<lparr>runs = [mk_run lo hi], rc_cardinality = unat hi - unat lo + 1\<rparr>)"
proof -
  let ?c = "\<lparr>runs = [mk_run lo hi], rc_cardinality = unat hi - unat lo + 1\<rparr>"
  have set: "runs_set [mk_run lo hi] = {unat lo..unat hi}" by (simp add: runs_set_def run_set_def)
  have "wf_runs [mk_run lo hi]" using assms by (simp add: wf_runs_def run_ok_def)
  moreover have "unat lo \<le> unat hi" using assms by (simp add: word_le_nat_alt)
  ultimately have "wf_rc ?c" by (simp add: wf_rc_def run_set_def)
  from handle_from_run_container_correct(1) [OF this] show ?thesis by (simp add: exact_def rc_set_def run_set_def counted)
qed

lemma one_chunk_keys:
  assumes "\<forall>k\<in>set keys. chunk_key32 k = c"
  shows "lows (set keys) c' = (if c' = c then array_set (map low_key32 keys) else {})"
proof (rule lows_eqI)
  show "compose32 c' l \<in> set keys \<longleftrightarrow> unat l \<in> (if c' = c then array_set (map low_key32 keys) else {})" for l
  proof (cases "c' = c")
    case True
    have "compose32 c l \<in> set keys \<longleftrightarrow> l \<in> low_key32 ` set keys"
    proof
      assume "compose32 c l \<in> set keys"
      then show "l \<in> low_key32 ` set keys" by (rule rev_image_eqI) (simp add: split_compose32)
    next
      assume "l \<in> low_key32 ` set keys"
      then obtain k where k: "k \<in> set keys" "l = low_key32 k" by blast
      then have "compose32 c l = k" using assms compose_split32 [of k] by simp
      then show "compose32 c l \<in> set keys" using k(1) by simp
    qed
    then show ?thesis using True inj_image_mem_iff [OF inj_unat_low, of l "low_key32 ` set keys"] by (simp add: array_set_def)
  next
    case False
    then show ?thesis using assms by (auto simp: split_compose32)
  qed
qed (auto simp: array_set_def)

lemma first_chunk:
  assumes "bitmap_ok S b" "entries (chunks b) = []" "\<forall>k\<in>set keys. chunk_key32 k = c" "keys \<noteq> []"
    "exact (array_set (map low_key32 keys)) h" "n = container_size h"
  shows "bitmap_ok (S \<union> set keys) (b\<lparr>chunks := chunk_push_back c h (chunks b), total_size := n\<rparr>)"
proof -
  have none: "S = {}" using bitmap_okD(2) [OF assms(1)] assms(2) by (simp add: table_set_def chunk_values_def)
  let ?T = "array_set (map low_key32 keys)"
  have ok: "slot_ok h" by (rule slot_ok_of_exact [OF assms(5)]) (simp add: array_set_def assms(4))
  have above: "\<forall>k\<in>set (keys_of (chunks b)). k < c" by (simp add: keys_of_def assms(2))
  note put = chunk_push_back_ok [OF bitmap_okD(1) [OF assms(1)] above]
  note l = one_chunk_keys [OF assms(3)]
  show ?thesis unfolding none Un_empty_left
  proof (rule one_chunk_step [OF assms(1) put(1) [OF ok]])
    show "chunk_values (entries (chunk_push_back c h (chunks b))) c' = (if c' = c then lows (set keys) c else chunk_values (entries (chunks b)) c')" for c'
      by (simp only: put(2) slot_of_exact [OF assms(5)] l simp_thms if_True)
    show "lows (set keys) c' = lows S c'" if "c' \<noteq> c" for c' using that by (simp add: l none lows_set_ops)
    show "n + card (lows S c) = card S + card (lows (set keys) c)"
      by (simp add: none lows_set_ops l assms(6) exact_size [OF assms(5)])
  qed
qed

lemma dense_batch_correct:
  assumes "bitmap_ok S b" "try_add_many_single_chunk_dense eager keys b = Some b'"
  shows "bitmap_ok (S \<union> set keys) b'"
proof (cases "keys = []")
  case True
  then show ?thesis using assms by (simp add: try_add_many_single_chunk_dense_def array_to_bitset_threshold_def split: if_splits)
next
  case False
  let ?c = "chunk_key32 (hd keys)" and ?v = "low_key32 (hd keys)"
  have empty: "entries (chunks b) = []"
    using assms(2) by (simp add: try_add_many_single_chunk_dense_def split: if_splits)
  obtain h lo hi where d: "dense_loop ?c keys (make_bitset_zeroed, ?v, ?v) = Some (h, lo, hi)"
    using assms(2) False by (auto simp: try_add_many_single_chunk_dense_def Let_def split: if_splits option.splits)
  let ?T = "array_set (map low_key32 keys)"
  note loop = dense_loop_correct [OF d counted_bitset_zeroed, unfolded Un_empty_left]
  have one: "\<forall>k\<in>set keys. chunk_key32 k = ?c" and h: "counted_bitset ?T h" and bounds: "\<forall>x\<in>?T. unat lo \<le> x \<and> x \<le> unat hi"
    and le: "lo \<le> hi" using loop by simp_all
  have exact: "exact ?T h" using h by (simp add: counted_bitset_def)
  have n: "cardinality h = card ?T" using exact_size [OF exact] by (simp add: container_size_def)
  have ne: "?T \<noteq> {}" using False by (simp add: array_set_def)
  have fin: "finite ?T" by (simp add: array_set_def)
  then have pos: "cardinality h \<noteq> 0" using ne n by simp
  let ?r = "handle_from_run_container \<lparr>runs = [mk_run lo hi], rc_cardinality = cardinality h\<rparr>"
  show ?thesis
  proof (cases "cardinality h = unat hi - unat lo + 1 \<and> eager")
    case True
    have "?T \<subseteq> {unat lo..unat hi}" using bounds by auto
    moreover have "unat lo \<le> unat hi" using le by (simp add: word_le_nat_alt)
    then have "card ?T = card {unat lo..unat hi}" using True n by simp
    ultimately have "?T = {unat lo..unat hi}" by (intro card_subset_eq) simp_all
    then have r: "exact ?T ?r" using one_run_exact [OF le] True by simp
    have "b' = b\<lparr>chunks := chunk_push_back ?c ?r (chunks b), total_size := cardinality h\<rparr>"
      using assms(2) False empty d True pos by (simp add: try_add_many_single_chunk_dense_def Let_def split: if_splits)
    then show ?thesis using first_chunk [OF assms(1) empty one False r, of "cardinality h"] exact_size [OF r] n by simp
  next
    case gaps: False
    then have "b' = b\<lparr>chunks := chunk_push_back ?c h (chunks b), total_size := cardinality h\<rparr>"
      using assms(2) False empty d pos by (simp add: try_add_many_single_chunk_dense_def Let_def split: if_splits)
    then show ?thesis using first_chunk [OF assms(1) empty one False exact, of "cardinality h"] exact_size [OF exact] n by simp
  qed
qed

subsection \<open>Unsorted batches\<close>

theorem add_many_unsorted_correct:
  assumes "bitmap_ok S b" "\<And>h. length (run_list h) \<le> room h"
  shows "bitmap_ok (S \<union> set keys) (add_many_unsorted eager room unshared keys b)"
proof (cases "try_add_many_single_chunk_dense eager keys b")
  case None
  show ?thesis
    using add_sorted_many_correct [OF assms(1) sorted_sort assms(2), of keys eager unshared array_to_bitset_threshold]
      add_many_sorted_correct [OF assms(1) sorted_sort assms(2), of keys eager unshared]
    by (simp add: add_many_unsorted_def None Let_def)
next
  case (Some b')
  then show ?thesis using dense_batch_correct [OF assms(1) Some] by (simp add: add_many_unsorted_def)
qed

theorem remove_many_unsorted_correct:
  assumes "bitmap_ok S b"
  shows "bitmap_ok (S - set keys) (remove_many_unsorted eager keys b)"
  using remove_many_sorted_correct [OF assms sorted_sort, of keys eager] by (simp add: remove_many_unsorted_def)

subsection \<open>Deferred counts\<close>

text \<open>A bitmap whose counts are not settled: the slots may hold bitsets with stale counts, and the size says nothing.\<close>

definition unsettled_ok :: "key32 set \<Rightarrow> bitmap \<Rightarrow> bool" where
  "unsettled_ok S b \<longleftrightarrow> strict (keys_of (chunks b)) \<and> (\<forall>(_, h)\<in>set (entries (chunks b)). wf_container h \<and> values_of h \<noteq> {}) \<and>
    (\<forall>c. chunk_values (entries (chunks b)) c = lows S c)"

lemma repair_slot_correct:
  assumes "wf_container h" "values_of h \<noteq> {}"
  shows "slot_ok (repair_slot h)" "values_of (repair_slot h) = values_of h"
proof -
  show v: "values_of (repair_slot h) = values_of h"
    by (simp add: repair_slot_def mark_endpoints_stale_def set_cardinality_def values_of_def)
  have s: "wf_container (settle_cardinality h)" "\<not> cardinality_stale (settle_cardinality h)"
    using settle_cardinality_correct [OF assms(1)] by simp_all
  have "wf_container (repair_slot h) \<and> \<not> cardinality_stale (repair_slot h)"
  proof (cases "cardinality_stale h")
    case True
    then have b: "holds_bitset h" using count_stale_bitset [OF assms(1)] by blast
    then have "repair_slot h = mark_endpoints_stale (settle_cardinality h)" using True by (simp add: repair_slot_def settle_cardinality_def)
    then show ?thesis using s b by (simp add: wf_container_def mark_endpoints_stale_def settle_cardinality_def set_cardinality_def cardinality_ok_def
          endpoints_ok_def holds_bitset_def kind_def values_of_def)
  next
    case False
    then show ?thesis using assms(1) by (simp add: repair_slot_def)
  qed
  then show "slot_ok (repair_slot h)" using assms(2) v by (simp add: slot_ok_def)
qed

lemma fold_sizes: "fold (\<lambda>(_, h) n. n + container_size h) xs a = a + (\<Sum>(_, h)\<leftarrow>xs. container_size h)"
  by (induction xs arbitrary: a) (auto simp: case_prod_unfold)

lemma table_count: "table_ok slots \<Longrightarrow> (\<Sum>(_, h)\<leftarrow>slots. container_size h) = card (table_set slots)"
proof (induction slots)
  case Nil
  then show ?case by (simp add: table_set_def)
next
  case (Cons slot slots)
  obtain c h where s: "slot = (c, h)" by (cases slot)
  have ok: "slot_ok h" "table_ok slots" "c \<notin> fst ` set slots" using Cons.prems by (auto simp: s table_ok_Cons)
  note l = lows_table [OF Cons.prems] lows_table [OF ok(2)]
  have "card (table_set (slot # slots)) + card (lows (table_set slots) c) = card (table_set slots) + card (lows (table_set (slot # slots)) c)"
    by (rule card_change) (simp only: l, simp add: s chunk_values_Cons)
  then show ?case using Cons.IH [OF ok(2)] slot_ok_facts(5) [OF ok(1)] chunk_values_none [OF ok(3)]
    by (simp add: s l [unfolded s] chunk_values_Cons)
qed

theorem repair_cardinality_correct:
  assumes "unsettled_ok S b"
  shows "bitmap_ok S (repair_cardinality b)"
proof -
  let ?slots = "map (\<lambda>(c, h). (c, repair_slot h)) (entries (chunks b))"
  have keys: "map fst ?slots = keys_of (chunks b)" by (simp add: keys_of_def case_prod_unfold)
  have wf: "\<forall>(_, h)\<in>set (entries (chunks b)). wf_container h \<and> values_of h \<noteq> {}" using assms by (simp add: unsettled_ok_def)
  have "slot_ok h'" if "(c, h') \<in> set ?slots" for c h'
  proof -
    obtain h where h: "(c, h) \<in> set (entries (chunks b))" "h' = repair_slot h" using \<open>(c, h') \<in> set ?slots\<close> by auto
    then have "wf_container h" "values_of h \<noteq> {}" using wf by blast+
    then show ?thesis unfolding h(2) by (rule repair_slot_correct(1))
  qed
  then have "\<forall>(c, h)\<in>set ?slots. slot_ok h" by blast
  then have ok: "table_ok ?slots" using assms unfolding table_ok_def keys unsettled_ok_def by blast
  have "map_of ?slots c = map_option repair_slot (map_of (entries (chunks b)) c)" for c by (simp add: map_of_map)
  moreover have "values_of (repair_slot h) = values_of h" if "map_of (entries (chunks b)) c = Some h" for c h
    using wf map_of_SomeD [OF that] repair_slot_correct(2) [of h] by blast
  ultimately have "chunk_values ?slots c = chunk_values (entries (chunks b)) c" for c
    by (cases "map_of (entries (chunks b)) c") (simp_all add: chunk_values_def)
  then have vals: "chunk_values ?slots c = lows S c" for c using assms by (simp add: unsettled_ok_def)
  show ?thesis
    using ok vals table_count [OF ok] table_set_eqI [OF ok vals]
    by (intro bitmap_okI) (simp_all add: repair_cardinality_def Let_def fold_sizes)
qed

end
