(* ===== verification/Run_Bitset.thy ===== *)
theory Run_Bitset
  imports Container_Counts
begin

text \<open>
  A run list intersected with a bitset (\<open>bitset_ops.hpp\<close>): the masked fill into a block whose gaps are zeroed, the fill
  for many short runs, the clone that clears the gaps and recounts, the clone that subtracts what it clears, and the
  extraction into an array. \<open>out\<close> is what the block of the result, retired or uninitialized, holds before.
\<close>

subsection \<open>The masked fills\<close>

definition end_masks :: "nat \<Rightarrow> nat \<Rightarrow> (nat \<times> word64) list" where
  "end_masks b e =
    (let last_bit = e mod 64
     in range_masks (b div 64) (e div 64) (push_bit (b mod 64) (- 1))
          (if last_bit = 63 then - 1 else push_bit (last_bit + 1) 1 - 1))"

text \<open>The first word of a run is merged with what an earlier run has left in it or written as it is; the others are written.\<close>

definition place_run :: "bool \<Rightarrow> word64 list \<Rightarrow> (nat \<times> word64) list \<Rightarrow> word64 list \<times> nat \<Rightarrow> word64 list \<times> nat" where
  "place_run merge src masks s =
    (case masks of [] \<Rightarrow> s
     | (first_word, first_mask) # rest \<Rightarrow>
         (case s of (out, n) \<Rightarrow>
            let masked = src ! first_word AND first_mask;
                out = out[first_word := if merge then out ! first_word OR masked else masked]
            in fold (\<lambda>(i, mask) (out, n). let masked = src ! i AND mask in (out[i := masked], n + popcount masked))
                 rest (out, n + popcount masked)))"

definition fill_run_bitset_words_of_many_runs :: "run list \<Rightarrow> word64 list \<Rightarrow> word64 list \<Rightarrow> word64 list \<times> nat" where
  "fill_run_bitset_words_of_many_runs rs src out = fold (\<lambda>r. place_run True src (run_word_masks r)) rs (out, 0)"

definition zero_words :: "nat \<Rightarrow> nat \<Rightarrow> word64 list \<Rightarrow> word64 list" where
  "zero_words b e out = fold (\<lambda>i out. out[i := 0]) [b..<e] out"

fun fill_few_runs :: "run list \<Rightarrow> word64 list \<Rightarrow> nat \<Rightarrow> word64 list \<times> nat \<Rightarrow> word64 list \<times> nat" where
  "fill_few_runs [] src next_unwritten (out, n) =
    (if next_unwritten < length out then zero_words next_unwritten (length out) out else out, n)"
| "fill_few_runs (r # rs) src next_unwritten (out, n) =
    (let first_word = word_index (rbegin r);
         out = (if first_word > next_unwritten then zero_words next_unwritten first_word out else out)
     in fill_few_runs rs src (word_index (rend r) + 1)
          (place_run (first_word < next_unwritten) src (end_masks (unat (rbegin r)) (unat (rend r))) (out, n)))"

definition bitset_or_empty :: "word64 list \<Rightarrow> nat \<Rightarrow> container" where
  "bitset_or_empty words n = (if n = 0 then make_array else set_cardinality n (make_bitset_uninitialized words))"

definition intersect_run_bitset :: "run list \<Rightarrow> word64 list \<Rightarrow> word64 list \<Rightarrow> container" where
  "intersect_run_bitset rs src out =
    (case (if length rs > 32 then fill_run_bitset_words_of_many_runs rs src (replicate word_count 0)
           else fill_few_runs rs src 0 (out, 0)) of
       (words, n) \<Rightarrow> bitset_or_empty words n)"

subsection \<open>The clones\<close>

text \<open>The stretches no run covers, as the loops over the runs find them.\<close>

fun run_gaps :: "nat \<Rightarrow> run list \<Rightarrow> (nat \<times> nat) list" where
  "run_gaps next_v [] = (if next_v < low_domain_size then [(next_v, low_domain_size - 1)] else [])"
| "run_gaps next_v (r # rs) =
    (if unat (rbegin r) > next_v then [(next_v, unat (rbegin r) - 1)] else []) @ run_gaps (unat (rend r) + 1) rs"

definition clear_bits :: "nat \<times> nat \<Rightarrow> word64 list \<Rightarrow> word64 list" where
  "clear_bits stretch out = update_words (\<lambda>w m. w AND NOT m) (end_masks (fst stretch) (snd stretch)) out"

definition intersect_run_bitset_clone_and_recount :: "run list \<Rightarrow> word64 list \<Rightarrow> container" where
  "intersect_run_bitset_clone_and_recount rs src =
    (let words = fold clear_bits (run_gaps 0 rs) src in bitset_or_empty words (popcount_words words))"

definition clear_counted :: "nat \<times> nat \<Rightarrow> nat \<times> word64 list \<Rightarrow> nat \<times> word64 list" where
  "clear_counted stretch s =
    fold (\<lambda>(i, mask) (removed, out). (removed + popcount (out ! i AND mask), out[i := out ! i AND NOT mask]))
      (end_masks (fst stretch) (snd stretch)) s"

definition intersect_run_bitset_dense_runs :: "run list \<Rightarrow> word64 list \<Rightarrow> nat \<Rightarrow> container" where
  "intersect_run_bitset_dense_runs rs src bitset_cardinality =
    (case fold clear_counted (run_gaps 0 rs) (0, src) of
       (removed, words) \<Rightarrow> bitset_or_empty words (bitset_cardinality - removed))"

subsection \<open>The extraction\<close>

definition emit_words :: "run list \<Rightarrow> word64 list \<Rightarrow> low list" where
  "emit_words rs src =
    concat (map (\<lambda>r. concat (map (\<lambda>(i, mask). word_values (push_bit 6 i) (src ! i AND mask))
      (end_masks (unat (rbegin r)) (unat (rend r))))) rs)"

definition intersect_run_bitset_sparse :: "run list \<Rightarrow> word64 list \<Rightarrow> container" where
  "intersect_run_bitset_sparse rs src =
    (let written_values = emit_words rs src in if written_values = [] then make_array else make_array_from_sorted written_values)"

text \<open>The kernel the coverage of the runs calls for.\<close>

definition intersect_run_bitset_by_coverage :: "word64 list \<Rightarrow> nat \<Rightarrow> container \<Rightarrow> container \<Rightarrow> container" where
  "intersect_run_bitset_by_coverage fresh bitset_threshold run_side bitset_side =
    (let run_cardinality = container_size run_side; rs = run_list run_side; src = bitset_words bitset_side
     in if run_cardinality \<ge> low_domain_size div 2 then intersect_run_bitset_dense_runs rs src (container_size bitset_side)
        else if run_cardinality < bitset_threshold then intersect_run_bitset_sparse rs src
        else if length rs > 32 \<and> run_cardinality \<ge> low_domain_size * 3 div 16 \<and> run_cardinality < low_domain_size * 7 div 16
             then intersect_run_bitset_clone_and_recount rs src
        else intersect_run_bitset rs src fresh)"

subsection \<open>Masks\<close>

lemma covers_end_masks: "b \<le> e \<Longrightarrow> covers_range b e (end_masks b e)"
  unfolding end_masks_def Let_def
proof (rule covers_range_masks)
  fix j :: nat assume j: "j < 64"
  show "bit (push_bit (b mod 64) (- 1) :: word64) j \<longleftrightarrow> b mod 64 \<le> j" using bit_ones_from [of "b mod 64" j] j by blast
  show "bit (if e mod 64 = 63 then - 1 else push_bit (e mod 64 + 1) 1 - 1 :: word64) j \<longleftrightarrow> j \<le> e mod 64"
  proof (cases "e mod 64 = 63")
    case False
    have "push_bit (e mod 64 + 1) (1 :: word64) = push_bit (e mod 64) 2" by (simp add: push_bit_eq_mult power_add)
    then show ?thesis using False bit_two_exp_minus_1 [of "e mod 64" j] by simp
  qed (use j in simp)
qed

lemma end_masks_shape:
  "end_masks b e = (if b div 64 = e div 64 then [(b div 64, snd (hd (end_masks b e)))]
     else (b div 64, snd (hd (end_masks b e))) # tl (end_masks b e))"
  by (simp add: end_masks_def range_masks_def Let_def)

lemma fst_hd_end_masks: "end_masks b e = (b div 64, snd (hd (end_masks b e))) # tl (end_masks b e)"
  by (simp add: end_masks_def range_masks_def Let_def)

lemma fst_hd_run_masks: "run_word_masks r = (unat (rbegin r) div 64, snd (hd (run_word_masks r))) # tl (run_word_masks r)"
  by (simp add: run_word_masks_def range_masks_def word_index_div)

subsection \<open>What the fills leave\<close>

lemma place_rest:
  assumes "distinct (map fst ms)" "\<forall>i\<in>fst ` set ms. i < length out"
  shows "fold (\<lambda>(i, mask) (out, n). let masked = src ! i AND mask in (out[i := masked], n + popcount masked)) ms (out, n) =
    (map (\<lambda>i. case map_of ms i of None \<Rightarrow> out ! i | Some m \<Rightarrow> src ! i AND m) [0..<length out],
     n + sum_list (map (\<lambda>(i, m). popcount (src ! i AND m)) ms))"
  using assms
proof (induction ms arbitrary: out n)
  case Nil
  then show ?case by (simp add: map_nth)
next
  case (Cons p ms)
  obtain i m where p: "p = (i, m)" by (cases p)
  have "i \<notin> fst ` set ms" "i < length out" using Cons.prems by (simp_all add: p)
  then have none: "map_of ms i = None" by (simp add: map_of_eq_None_iff)
  have "fold (\<lambda>(i, mask) (out, n). let masked = src ! i AND mask in (out[i := masked], n + popcount masked)) ms
      (out[i := src ! i AND m], n + popcount (src ! i AND m)) =
      (map (\<lambda>k. case map_of ms k of None \<Rightarrow> out[i := src ! i AND m] ! k | Some m \<Rightarrow> src ! k AND m) [0..<length out],
       n + popcount (src ! i AND m) + sum_list (map (\<lambda>(i, m). popcount (src ! i AND m)) ms))"
    using Cons.IH [of "out[i := src ! i AND m]"] Cons.prems by (simp add: p)
  then show ?case using none by (auto simp: p Let_def nth_list_update split: option.split)
qed

definition filled :: "word64 list \<Rightarrow> nat set \<Rightarrow> nat \<Rightarrow> word64 list \<Rightarrow> bool" where
  "filled src D n out \<longleftrightarrow> length out = 1024 \<and> D \<subseteq> {..<64 * n} \<and>
    (\<forall>i<n. i < 1024 \<longrightarrow> (\<forall>j<64. bit (out ! i) j \<longleftrightarrow> bit (src ! i) j \<and> 64 * i + j \<in> D))"

lemma place_run_filled:
  assumes "covers_range b e ms" "ms = (b div 64, m0) # rest" "filled src D n out" "D \<subseteq> {..<b}" "e < 65536" "b \<le> e"
    and "if merge then b div 64 < n else n = b div 64"
    and "place_run merge src ms (out, c) = (out', c')"
  shows "filled src (D \<union> {b..e}) (max n (e div 64 + 1)) out'"
    "c' = c + sum_list (map (\<lambda>(i, m). popcount (src ! i AND m)) ms)"
proof -
  let ?f = "b div 64"
  have ms: "distinct (map fst ms)" "fst ` set ms = {?f..e div 64}"
    "\<And>i m j. (i, m) \<in> set ms \<Longrightarrow> j < 64 \<Longrightarrow> bit m j \<longleftrightarrow> b \<le> 64 * i + j \<and> 64 * i + j \<le> e"
    using assms(1) by (auto simp: covers_range_def)
  have len: "length out = 1024" using assms(3) by (simp add: filled_def)
  have e: "e div 64 < 1024" using assms(5) by (simp add: less_mult_imp_div_less)
  have below: "\<forall>i\<in>fst ` set rest. i < 1024"
  proof
    fix i assume "i \<in> fst ` set rest"
    then have "i \<in> fst ` set ms" by (simp add: assms(2))
    then have "i \<le> e div 64" by (simp only: ms(2) atLeastAtMost_iff)
    then show "i < 1024" using e by (rule le_less_trans)
  qed
  define v where "v = (if merge then out ! ?f OR (src ! ?f AND m0) else src ! ?f AND m0)"
  have f: "?f \<notin> fst ` set rest" "distinct (map fst rest)" using ms(1) by (simp_all add: assms(2))
  have r: "out' = map (\<lambda>i. case map_of rest i of None \<Rightarrow> out[?f := v] ! i | Some m \<Rightarrow> src ! i AND m) [0..<1024]"
    and c: "c' = c + popcount (src ! ?f AND m0) + sum_list (map (\<lambda>(i, m). popcount (src ! i AND m)) rest)"
    using assms(8) place_rest [OF f(2), of "out[?f := v]"] below by (simp_all add: place_run_def assms(2) Let_def v_def len)
  show "c' = c + sum_list (map (\<lambda>(i, m). popcount (src ! i AND m)) ms)" using c by (simp add: assms(2))
  have D: "64 * i + j \<notin> D" if "?f < i" for i j
  proof
    assume "64 * i + j \<in> D"
    then have "64 * i + j < b" using assms(4) by blast
    moreover have "b < 64 * (?f + 1)" using dividend_less_times_div [of 64 b] by simp
    moreover have "64 * (?f + 1) \<le> 64 * i" using that by simp
    ultimately show False by linarith
  qed
  show "filled src (D \<union> {b..e}) (max n (e div 64 + 1)) out'"
    unfolding filled_def
  proof (intro conjI allI impI)
    show "length out' = 1024" by (simp add: r)
    have "D \<subseteq> {..<64 * n}" using assms(3) by (simp add: filled_def)
    moreover have "64 * n \<le> 64 * max n (e div 64 + 1)" "e < 64 * max n (e div 64 + 1)"
      using dividend_less_times_div [of 64 e] by (auto simp: max_def)
    ultimately show "D \<union> {b..e} \<subseteq> {..<64 * max n (e div 64 + 1)}" by (auto intro: less_le_trans le_less_trans)
    fix i j :: nat
    assume i: "i < max n (e div 64 + 1)" "i < 1024" and j: "j < 64"
    have old: "bit (out ! i) j \<longleftrightarrow> bit (src ! i) j \<and> 64 * i + j \<in> D" if "i < n" using assms(3) that i j by (simp add: filled_def)
    show "bit (out' ! i) j \<longleftrightarrow> bit (src ! i) j \<and> 64 * i + j \<in> D \<union> {b..e}"
    proof (cases "map_of rest i")
      case (Some m)
      have mem: "(i, m) \<in> set rest" by (rule map_of_SomeD [OF Some])
      then have "i \<in> fst ` set rest" by (metis fst_conv imageI)
      then have "i \<in> fst ` set ms" "i \<noteq> ?f" using f(1) by (simp_all add: assms(2)) blast
      then have "?f < i" by (simp add: ms(2))
      then have "64 * i + j \<notin> D" by (rule D)
      moreover have "bit m j \<longleftrightarrow> b \<le> 64 * i + j \<and> 64 * i + j \<le> e" using ms(3) mem j by (simp add: assms(2))
      ultimately show ?thesis using i(2) by (simp add: r Some bit_and_iff)
    next
      case None
      then have out': "out' ! i = out[?f := v] ! i" using i(2) by (simp add: r)
      show ?thesis
      proof (cases "i = ?f")
        case True
        have m0: "bit m0 j \<longleftrightarrow> b \<le> 64 * i + j \<and> 64 * i + j \<le> e" using ms(3) [of ?f m0 j] j by (simp add: assms(2) True)
        have v: "out' ! i = v" by (rule trans [OF out']) (use i(2) True in \<open>simp add: len\<close>)
        show ?thesis
        proof (cases merge)
          case True
          then show ?thesis using old assms(7) m0 \<open>i = ?f\<close> i(2) unfolding v v_def by (auto simp: bit_or_iff bit_and_iff)
        next
          case False
          then have "n = ?f" using assms(7) by simp
          then have "D \<subseteq> {..<64 * i}" using assms(3) True by (simp add: filled_def)
          then have "64 * i + j \<notin> D" by auto
          then show ?thesis using False m0 \<open>i = ?f\<close> i(2) unfolding v v_def by (simp add: bit_and_iff)
        qed
      next
        case False
        have "i \<notin> fst ` set rest" using None by (simp add: map_of_eq_None_iff)
        moreover have "{?f..e div 64} = insert ?f (fst ` set rest)" using ms(2) by (simp add: assms(2))
        ultimately have "i \<notin> {?f..e div 64}" using False by blast
        then have outside: "64 * i + j \<notin> {b..e}"
          using assms(1) div_le_mono [of b "64 * i + j" 64] div_le_mono [of "64 * i + j" e 64] j by (auto simp: div_mult_self4)
        have "i < n" using \<open>i \<notin> {?f..e div 64}\<close> False i(1) assms(7) by (cases "i < n") (auto split: if_splits)
        then show ?thesis using old outside False by (auto simp: out')
      qed
    qed
  qed
qed

lemma masked_count:
  assumes "run_ok r" "length src = 1024" "covers_range (unat (rbegin r)) (unat (rend r)) ms"
  shows "sum_list (map (\<lambda>(i, m). popcount (src ! i AND m)) ms) = card (bits_set src \<inter> run_set r)"
  using popcount_masks [OF assms(3), of src] assms(2) unat_low_less [of "rend r"] by (simp add: run_set_def)

lemma one_more_run:
  assumes "wf_runs (r # rs)"
  shows "card (bits_set src \<inter> runs_set (r # rs)) = card (bits_set src \<inter> run_set r) + card (bits_set src \<inter> runs_set rs)"
proof -
  have "run_set r \<inter> runs_set rs = {}" using runs_set_Cons_gap [OF assms] by (fastforce simp: run_set_def)
  then show ?thesis by (subst runs_set_Cons, subst Int_Un_distrib, subst card_Un_disjoint) (auto simp: finite_runs_set)
qed

lemma later_runs:
  assumes "wf_runs (r # rs)" "D \<subseteq> {..<unat (rbegin r)}"
  shows "run_ok r" "wf_runs rs" "unat (rbegin r) \<le> unat (rend r)" "unat (rend r) < 65536"
    "\<forall>s\<in>set rs. D \<union> {unat (rbegin r)..unat (rend r)} \<subseteq> {..<unat (rbegin s)} \<and> unat (rend r) < unat (rbegin s)"
proof -
  show r: "run_ok r" "wf_runs rs" using assms(1) by (simp_all add: wf_runs_Cons)
  then show "unat (rbegin r) \<le> unat (rend r)" "unat (rend r) < 65536" using unat_low_less [of "rend r"] by (simp_all add: run_ok_unat)
  then show "\<forall>s\<in>set rs. D \<union> {unat (rbegin r)..unat (rend r)} \<subseteq> {..<unat (rbegin s)} \<and> unat (rend r) < unat (rbegin s)"
    using assms by (fastforce simp: wf_runs_Cons run_gap_def)
qed

lemma many_runs_filled:
  assumes "wf_runs rs" "filled src D 1024 out" "\<forall>r\<in>set rs. D \<subseteq> {..<unat (rbegin r)}" "length src = 1024"
    "fold (\<lambda>r. place_run True src (run_word_masks r)) rs (out, c) = (out', c')"
  shows "filled src (D \<union> runs_set rs) 1024 out' \<and> c' = c + card (bits_set src \<inter> runs_set rs)"
  using assms
proof (induction rs arbitrary: D out c)
  case (Cons r rs)
  have D: "D \<subseteq> {..<unat (rbegin r)}" using Cons.prems(3) by simp
  note r = later_runs [OF Cons.prems(1) D]
  let ?ms = "run_word_masks r"
  obtain out1 c1 where p: "place_run True src ?ms (out, c) = (out1, c1)" by fastforce
  have b: "if True then unat (rbegin r) div 64 < 1024 else 1024 = unat (rbegin r) div 64"
    using word_index_less [of "rbegin r"] by (simp add: word_index_div)
  note one = place_run_filled [OF run_word_masks_cover [OF r(1)] fst_hd_run_masks Cons.prems(2) D r(4,3) b p]
  have "max 1024 (unat (rend r) div 64 + 1) = 1024" using word_index_less [of "rend r"] by (simp add: word_index_div max_def)
  then have f: "filled src (D \<union> run_set r) 1024 out1" using one(1) by (simp add: run_set_def)
  have next_D: "\<forall>s\<in>set rs. D \<union> run_set r \<subseteq> {..<unat (rbegin s)}" using r(5) by (simp add: run_set_def)
  have "fold (\<lambda>r. place_run True src (run_word_masks r)) rs (out1, c1) = (out', c')" using Cons.prems(5) p by simp
  from Cons.IH [OF r(2) f next_D Cons.prems(4) this] show ?case
    using one(2) masked_count [OF r(1) Cons.prems(4) run_word_masks_cover [OF r(1)]] one_more_run [OF Cons.prems(1), of src]
    by (simp add: Un_assoc)
qed simp

lemma nth_zero_words: "e \<le> length out \<Longrightarrow> length (zero_words b e out) = length out \<and>
    (\<forall>i<length out. zero_words b e out ! i = (if b \<le> i \<and> i < e then 0 else out ! i))"
proof (induction e)
  case (Suc e)
  show ?case
  proof (cases "b \<le> e")
    case True
    then have "zero_words b (Suc e) out = (zero_words b e out)[e := 0]" by (simp add: zero_words_def)
    then show ?thesis using Suc True by (auto simp: nth_list_update less_Suc_eq)
  qed (use Suc in \<open>auto simp: zero_words_def\<close>)
qed (simp add: zero_words_def)

lemma zero_words_filled:
  assumes "filled src D n out" "n \<le> e" "e \<le> 1024"
  shows "filled src D e (zero_words n e out)"
proof -
  have len: "length out = 1024" and D: "D \<subseteq> {..<64 * n}" using assms(1) by (simp_all add: filled_def)
  note z = nth_zero_words [of e out n, unfolded len, OF assms(3)]
  show ?thesis unfolding filled_def
  proof (intro conjI allI impI)
    show "length (zero_words n e out) = 1024" using z by simp
    show "D \<subseteq> {..<64 * e}" using D assms(2) by force
    fix i j :: nat assume i: "i < e" "i < 1024" and j: "j < 64"
    show "bit (zero_words n e out ! i) j \<longleftrightarrow> bit (src ! i) j \<and> 64 * i + j \<in> D"
    proof (cases "n \<le> i")
      case True
      then have "64 * i + j \<notin> D" using D by force
      then show ?thesis using z i True by simp
    next
      case False
      then show ?thesis using z i j assms(1) by (simp add: filled_def)
    qed
  qed
qed

lemma few_runs_filled:
  assumes "wf_runs rs" "filled src D n out" "n \<le> 1024" "\<forall>r\<in>set rs. D \<subseteq> {..<unat (rbegin r)} \<and> n \<le> unat (rbegin r) div 64 + 1"
    "length src = 1024" "fill_few_runs rs src n (out, c) = (out', c')"
  shows "filled src (D \<union> runs_set rs) 1024 out' \<and> c' = c + card (bits_set src \<inter> runs_set rs)"
  using assms
proof (induction rs arbitrary: D n out c)
  case Nil
  have len: "length out = 1024" using Nil.prems(2) by (simp add: filled_def)
  then show ?case using zero_words_filled [OF Nil.prems(2,3) order_refl] Nil.prems(2,3,6) by (cases "n = 1024") auto
next
  case (Cons r rs)
  have D: "D \<subseteq> {..<unat (rbegin r)}" and n: "n \<le> unat (rbegin r) div 64 + 1" using Cons.prems(4) by simp_all
  note r = later_runs [OF Cons.prems(1) D]
  let ?f = "unat (rbegin r) div 64"
  have f: "?f < 1024" using word_index_less [of "rbegin r"] by (simp add: word_index_div)
  define z where "z = (if ?f > n then zero_words n ?f out else out)"
  have z: "filled src D (max n ?f) z"
    using zero_words_filled [OF Cons.prems(2), of ?f] Cons.prems(2) f by (cases "?f > n") (simp_all add: z_def)
  let ?ms = "end_masks (unat (rbegin r)) (unat (rend r))"
  obtain out1 c1 where p: "place_run (?f < n) src ?ms (z, c) = (out1, c1)" by fastforce
  have b: "if ?f < n then ?f < max n ?f else max n ?f = ?f" by auto
  note cov = covers_end_masks [OF r(3)]
  note one = place_run_filled [OF cov fst_hd_end_masks z D r(4,3) b p]
  have le: "?f \<le> unat (rend r) div 64" using r(3) by (rule div_le_mono)
  then have "max (max n ?f) (unat (rend r) div 64 + 1) = unat (rend r) div 64 + 1" using n by simp
  then have f1: "filled src (D \<union> run_set r) (unat (rend r) div 64 + 1) out1" using one(1) by (simp add: run_set_def)
  have next_D: "\<forall>s\<in>set rs. D \<union> run_set r \<subseteq> {..<unat (rbegin s)} \<and> unat (rend r) div 64 + 1 \<le> unat (rbegin s) div 64 + 1"
    using r(5) div_le_mono less_imp_le by (simp add: run_set_def) blast
  have "fill_few_runs rs src (unat (rend r) div 64 + 1) (out1, c1) = (out', c')"
    using Cons.prems(6) p by (simp add: Let_def word_index_div z_def)
  moreover have "unat (rend r) div 64 + 1 \<le> 1024" using word_index_less [of "rend r"] by (simp add: word_index_div)
  ultimately show ?case
    using Cons.IH [where c = c1, OF r(2) f1 _ next_D Cons.prems(5)] one(2) masked_count [OF r(1) Cons.prems(5) cov] one_more_run [OF Cons.prems(1), of src]
    by (simp add: Un_assoc)
qed

lemma filled_all: "filled src D 1024 out \<Longrightarrow> length src = 1024 \<Longrightarrow> bits_set out = bits_set src \<inter> D"
proof -
  assume f: "filled src D 1024 out" and len: "length src = 1024"
  have D: "v div 64 < 1024" if "v \<in> D" for v
  proof -
    have "v < 64 * 1024" using f that by (auto simp: filled_def)
    then show ?thesis by (simp add: less_mult_imp_div_less)
  qed
  have "bit (out ! (v div 64)) (v mod 64) \<longleftrightarrow> bit (src ! (v div 64)) (v mod 64) \<and> v \<in> D" if "v div 64 < 1024" for v
  proof -
    have "bit (out ! (v div 64)) (v mod 64) \<longleftrightarrow> bit (src ! (v div 64)) (v mod 64) \<and> 64 * (v div 64) + v mod 64 \<in> D"
      using f that unfolding filled_def by (meson mod_less_divisor zero_less_numeral)
    then show ?thesis by simp
  qed
  moreover have "length out = 1024" using f by (simp add: filled_def)
  ultimately show ?thesis using len D by (auto simp: mem_bits_set)
qed

lemma bitset_or_empty_exact:
  assumes "length words = 1024" "n = card (bits_set words)"
  shows "exact (bits_set words) (bitset_or_empty words n)"
proof (cases "n = 0")
  case True
  then have "bits_set words = {}" using assms(2) by simp
  then show ?thesis using True by (simp add: bitset_or_empty_def exact_def holds_set_def empty_factories counted)
next
  case False
  have "set_cardinality n (make_bitset_uninitialized words) =
      mark_endpoints_stale (set_cardinality n (make_bitset_uninitialized words))"
    by (simp add: make_bitset_uninitialized_def set_cardinality_def mark_endpoints_stale_def)
  moreover have "payload (make_bitset_uninitialized words) = Bitset_payload words" by (simp add: make_bitset_uninitialized_def)
  ultimately show ?thesis
    using counted_bitset [of "make_bitset_uninitialized words" words] assms False by (simp add: bitset_or_empty_def exact_def)
qed

theorem intersect_run_bitset_correct:
  assumes "wf_runs rs" "length src = 1024" "length out = 1024"
  shows "exact (runs_set rs \<inter> bits_set src) (intersect_run_bitset rs src out)"
proof -
  obtain words n where r: "(if length rs > 32 then fill_run_bitset_words_of_many_runs rs src (replicate word_count 0)
           else fill_few_runs rs src 0 (out, 0)) = (words, n)" by fastforce
  have "filled src ({} \<union> runs_set rs) 1024 words \<and> n = 0 + card (bits_set src \<inter> runs_set rs)"
  proof (cases "length rs > 32")
    case True
    have "filled src {} 1024 (replicate word_count 0)" by (simp add: filled_def)
    then show ?thesis using many_runs_filled [OF assms(1), where D = "{}" and out = "replicate word_count 0" and c = 0 and out' = words and c' = n, OF _ _ assms(2)] r True by (simp add: fill_run_bitset_words_of_many_runs_def)
  next
    case False
    have "filled src {} 0 out" using assms(3) by (simp add: filled_def)
    then show ?thesis using few_runs_filled [OF assms(1), where D = "{}" and n = 0 and out = out and c = 0 and out' = words and c' = n, OF _ _ _ assms(2)] r False by simp
  qed
  then have f: "filled src (runs_set rs) 1024 words" and n: "n = card (bits_set src \<inter> runs_set rs)" by simp_all
  have "length words = 1024" using f by (simp add: filled_def)
  then show ?thesis using bitset_or_empty_exact [of words n] filled_all [OF f assms(2)] n r by (simp add: intersect_run_bitset_def Int_commute)
qed

subsection \<open>What the clones leave\<close>

lemma run_gaps_correct:
  assumes "wf_runs rs" "\<forall>r\<in>set rs. n \<le> unat (rbegin r)"
  shows "(\<Union>g\<in>set (run_gaps n rs). {fst g..snd g}) = {n..<65536} - runs_set rs"
    "\<forall>g\<in>set (run_gaps n rs). fst g \<le> snd g \<and> snd g < 65536"
proof -
  have "(\<Union>g\<in>set (run_gaps n rs). {fst g..snd g}) = {n..<65536} - runs_set rs \<and>
      (\<forall>g\<in>set (run_gaps n rs). fst g \<le> snd g \<and> snd g < 65536)"
    using assms
  proof (induction rs arbitrary: n)
    case Nil
    then show ?case by (auto simp: low_domain_size_def)
  next
    case (Cons r rs)
    let ?b = "unat (rbegin r)" and ?e = "unat (rend r)"
    have n: "n \<le> ?b" using Cons.prems(2) by simp
    have r: "wf_runs rs" "?b \<le> ?e" "?e < 65536" using Cons.prems(1) unat_low_less [of "rend r"] by (simp_all add: wf_runs_Cons run_ok_unat)
    have later: "\<forall>s\<in>set rs. ?e + 1 \<le> unat (rbegin s)" using Cons.prems(1) by (auto simp: wf_runs_Cons run_gap_def)
    note ih = Cons.IH [OF r(1) later]
    have above: "\<forall>v\<in>runs_set rs. ?e < v" using runs_set_Cons_gap [OF Cons.prems(1)] by fastforce
    have gap: "(\<Union>g\<in>set (if ?b > n then [(n, ?b - 1)] else []). {fst g..snd g}) = {n..<?b}" by auto
    have small: "x < 65536" if "x < ?b" for x using that unat_low_less [of "rbegin r"] by (rule less_trans)
    have "{n..<65536} - runs_set (r # rs) = {n..<?b} \<union> ({?e + 1..<65536} - runs_set rs)"
      using n r(2,3) above by (auto simp: run_set_def intro: small)
    then show ?case using ih gap r(2,3) by (auto simp: UN_Un)
  qed
  then show "(\<Union>g\<in>set (run_gaps n rs). {fst g..snd g}) = {n..<65536} - runs_set rs"
    "\<forall>g\<in>set (run_gaps n rs). fst g \<le> snd g \<and> snd g < 65536" by blast+
qed

lemma bits_set_clear_bits:
  assumes "fst g \<le> snd g" "snd g < 65536" "length ws = 1024"
  shows "bits_set (clear_bits g ws) = bits_set ws - {fst g..snd g}" "length (clear_bits g ws) = 1024"
proof -
  have e: "snd g < 64 * length ws" using assms(2,3) by simp
  have "v \<in> bits_set (clear_bits g ws) \<longleftrightarrow>
      v div 64 < length ws \<and> ((v \<in> bits_set ws) \<and> \<not> (fst g \<le> v \<and> v \<le> snd g))" for v
    unfolding clear_bits_def
    by (rule bits_set_update_words [OF covers_end_masks [OF assms(1)] e, where F = "\<lambda>x y. x \<and> \<not> y"])
      (auto simp: bit_and_iff bit_not_iff dest: bit_less_64)
  then show "bits_set (clear_bits g ws) = bits_set ws - {fst g..snd g}" by (auto simp: mem_bits_set)
  show "length (clear_bits g ws) = 1024" by (simp add: clear_bits_def assms(3))
qed

lemma clear_all:
  assumes "\<forall>g\<in>set gs. fst g \<le> snd g \<and> snd g < 65536" "length ws = 1024"
  shows "length (fold clear_bits gs ws) = 1024 \<and> bits_set (fold clear_bits gs ws) = bits_set ws - (\<Union>g\<in>set gs. {fst g..snd g})"
  using assms by (induction gs arbitrary: ws) (auto simp: bits_set_clear_bits)

lemma clear_counted_all:
  assumes "\<forall>g\<in>set gs. fst g \<le> snd g \<and> snd g < 65536" "length ws = 1024" "fold clear_counted gs (c, ws) = (c', ws')"
  shows "ws' = fold clear_bits gs ws \<and> card (bits_set ws') + c' = card (bits_set ws) + c"
  using assms
proof (induction gs arbitrary: c ws)
  case (Cons g gs)
  have g: "fst g \<le> snd g" "snd g < 65536" using Cons.prems(1) by simp_all
  obtain c1 ws1 where s: "clear_counted g (c, ws) = (c1, ws1)" by fastforce
  have below: "\<forall>i\<in>fst ` set (end_masks (fst g) (snd g)). i < length ws"
    using covers_end_masks [OF g(1)] g(2) Cons.prems(2) by (auto simp: covers_range_def)
  have "int (popcount (w AND NOT m)) = int (popcount w) + - 1 * int (popcount (w AND m))" for w m :: word64
    using popcount_andnot [of w m] by (simp add: and.commute)
  note counted_words [where f = "\<lambda>w m. w AND NOT m" and g = "\<lambda>w m. popcount (w AND m)", OF this below s [unfolded clear_counted_def]]
  then have one: "ws1 = clear_bits g ws" "int (card (bits_set ws1)) = int (card (bits_set ws)) + - 1 * (int c1 - int c)"
    unfolding clear_bits_def by blast+
  from one(2) have "int (card (bits_set ws1) + c1) = int (card (bits_set ws) + c)" by simp
  then have one': "card (bits_set ws1) + c1 = card (bits_set ws) + c" by (simp only: of_nat_eq_iff)
  have "fold clear_counted gs (c1, ws1) = (c', ws')" using Cons.prems(3) s by simp
  then show ?case using Cons.IH [of ws1 c1] Cons.prems(1) one(1) one' bits_set_clear_bits [OF g Cons.prems(2)] by auto
qed simp

lemma uncovered: "length src = 1024 \<Longrightarrow> bits_set src - ({0..<65536} - R) = R \<inter> bits_set src"
  using bits_set_bound [of _ src] by fastforce

theorem clone_intersections_correct:
  assumes "wf_runs rs" "length src = 1024"
  shows "exact (runs_set rs \<inter> bits_set src) (intersect_run_bitset_clone_and_recount rs src)"
    "exact (runs_set rs \<inter> bits_set src) (intersect_run_bitset_dense_runs rs src (card (bits_set src)))"
proof -
  have z: "\<forall>r\<in>set rs. 0 \<le> unat (rbegin r)" by simp
  note g = run_gaps_correct [OF assms(1) z]
  let ?ws = "fold clear_bits (run_gaps 0 rs) src"
  have ws: "length ?ws = 1024" "bits_set ?ws = runs_set rs \<inter> bits_set src"
    using clear_all [OF g(2) assms(2)] uncovered [OF assms(2)] unfolding g(1) by simp_all
  show "exact (runs_set rs \<inter> bits_set src) (intersect_run_bitset_clone_and_recount rs src)"
    using bitset_or_empty_exact [OF ws(1) popcount_words_card] by (simp add: intersect_run_bitset_clone_and_recount_def Let_def ws(2))
  obtain c ws' where r: "fold clear_counted (run_gaps 0 rs) (0, src) = (c, ws')" by fastforce
  have "ws' = ?ws \<and> card (bits_set ws') + c = card (bits_set src) + 0" by (rule clear_counted_all [OF g(2) assms(2) r])
  then have "ws' = ?ws" "card (bits_set src) - c = card (bits_set ?ws)" by auto
  then show "exact (runs_set rs \<inter> bits_set src) (intersect_run_bitset_dense_runs rs src (card (bits_set src)))"
    using bitset_or_empty_exact [OF ws(1) refl] ws(2) by (simp add: intersect_run_bitset_dense_runs_def r)
qed

subsection \<open>What the extraction lists\<close>

lemma emitted_masks:
  assumes "covers_range b e ms" "strict (map fst ms)" "length src = 1024" "e < 65536"
  shows "strict (concat (map (\<lambda>(i, m). word_values (push_bit 6 i) (src ! i AND m)) ms))"
    "array_set (concat (map (\<lambda>(i, m). word_values (push_bit 6 i) (src ! i AND m)) ms)) = bits_set src \<inter> {b..e}"
proof -
  let ?vs = "\<lambda>(i, m). word_values (push_bit 6 i) (src ! i AND m)"
  have ms: "fst ` set ms = {b div 64..e div 64}" "distinct (map fst ms)"
    "\<And>i m j. (i, m) \<in> set ms \<Longrightarrow> j < 64 \<Longrightarrow> bit m j \<longleftrightarrow> b \<le> 64 * i + j \<and> 64 * i + j \<le> e"
    using assms(1) by (auto simp: covers_range_def)
  have below: "i < 1024" if "(i, m) \<in> set ms" for i m
  proof -
    have "i \<in> {b div 64..e div 64}" using that ms(1) by (metis fst_conv imageI)
    then show ?thesis using assms(4) by (auto simp: less_mult_imp_div_less intro: le_less_trans)
  qed
  have vals: "map unat (?vs (i, m)) = map ((+) (64 * i)) (bit_positions (src ! i AND m))" if "(i, m) \<in> set ms" for i m
  proof -
    have "unat (of_nat (push_bit 6 i + j) :: low) = 64 * i + j" if "j \<in> set (bit_positions (src ! i AND m))" for j
    proof -
      have "j < 64" using that by (auto simp: set_bit_positions dest: bit_less_64)
      then have "64 * i + j < 65536" using below [OF \<open>(i, m) \<in> set ms\<close>] by simp
      moreover have "push_bit 6 i + j = 64 * i + j" by (simp add: push_bit_eq_mult)
      ultimately show ?thesis by (simp only: unsigned_of_nat) (simp add: take_bit_nat_eq_self)
    qed
    then show ?thesis by (simp add: word_values_eq)
  qed
  have strict_nat: "strict (concat (map (\<lambda>(i, m). map ((+) (64 * i)) (bit_positions (src ! i AND m))) ms))"
    using assms(2)
  proof (induction ms)
    case (Cons p ms)
    obtain i m where p: "p = (i, m)" by (cases p)
    have "64 * i + x < 64 * k + y" if "(k, n) \<in> set ms" "x < 64" for k n x y
    proof -
      have "i < k" using Cons.prems that(1) by (auto simp: p)
      then show ?thesis using that(2) by linarith
    qed
    then show ?case using Cons strict_bit_positions [of "src ! i AND m"]
      by (auto simp: p sorted_wrt_append sorted_wrt_map set_bit_positions dest: bit_less_64)
  qed simp
  have e: "map unat (concat (map ?vs ms)) = concat (map (\<lambda>(i, m). map ((+) (64 * i)) (bit_positions (src ! i AND m))) ms)"
    unfolding map_concat map_map comp_def by (rule arg_cong [where f = concat], rule map_cong [OF refl]) (use vals in auto)
  then have "strict (map unat (concat (map ?vs ms)))" using strict_nat by (simp only:)
  then show "strict (concat (map ?vs ms))" by (simp only: sorted_wrt_map word_less_nat_alt [symmetric])
  have "array_set (concat (map ?vs ms)) = set (map unat (concat (map ?vs ms)))" by (simp only: array_set_def set_map)
  also have "\<dots> = (\<Union>(i, m)\<in>set ms. {64 * i + j |j. bit (src ! i AND m) j})"
    unfolding e by (auto simp: set_bit_positions)
  also have "\<dots> = bits_set src \<inter> {b..e}"
  proof (intro set_eqI iffI)
    fix v assume "v \<in> (\<Union>(i, m)\<in>set ms. {64 * i + j |j. bit (src ! i AND m) j})"
    then obtain i m j where v: "(i, m) \<in> set ms" "v = 64 * i + j" "bit (src ! i AND m) j" by auto
    have j: "j < 64" using v(3) by (rule bit_less_64)
    then show "v \<in> bits_set src \<inter> {b..e}" using v ms(3) [OF v(1) j] below [OF v(1)] assms(3) by (simp add: mem_bits_set bit_and_iff)
  next
    fix v assume v: "v \<in> bits_set src \<inter> {b..e}"
    then have "v div 64 \<in> fst ` set ms" unfolding ms(1) by (simp add: div_le_mono)
    then obtain m where m: "(v div 64, m) \<in> set ms" by auto
    have "bit m (v mod 64)" using ms(3) [OF m, of "v mod 64"] v by simp
    then have "bit (src ! (v div 64) AND m) (v mod 64)" using v by (simp add: mem_bits_set bit_and_iff)
    then show "v \<in> (\<Union>(i, m)\<in>set ms. {64 * i + j |j. bit (src ! i AND m) j})" using m by (intro UN_I [OF m]) (auto intro: exI [of _ "v mod 64"])
  qed
  finally show "array_set (concat (map ?vs ms)) = bits_set src \<inter> {b..e}" .
qed

lemma strict_end_masks: "b \<le> e \<Longrightarrow> strict (map fst (end_masks b e))"
  using div_le_mono [of b e 64] by (auto simp: end_masks_def range_masks_def Let_def sorted_wrt_append comp_def)

theorem emit_words_correct:
  assumes "wf_runs rs" "length src = 1024"
  shows "strict (emit_words rs src)" "array_set (emit_words rs src) = runs_set rs \<inter> bits_set src"
proof -
  have "strict (emit_words rs src) \<and> array_set (emit_words rs src) = runs_set rs \<inter> bits_set src"
    using assms(1)
  proof (induction rs)
    case Nil
    then show ?case by (simp add: emit_words_def array_set_def)
  next
    case (Cons r rs)
    let ?b = "unat (rbegin r)" and ?e = "unat (rend r)"
    have r: "wf_runs rs" "?b \<le> ?e" "?e < 65536" using Cons.prems(1) unat_low_less [of "rend r"] by (simp_all add: wf_runs_Cons run_ok_unat)
    let ?one = "concat (map (\<lambda>(i, mask). word_values (push_bit 6 i) (src ! i AND mask)) (end_masks ?b ?e))"
    note one = emitted_masks [OF covers_end_masks [OF r(2)] strict_end_masks [OF r(2)] assms(2) r(3)]
    have split: "emit_words (r # rs) src = ?one @ emit_words rs src" by (simp add: emit_words_def)
    have ih: "strict (emit_words rs src)" "array_set (emit_words rs src) = runs_set rs \<inter> bits_set src" using Cons.IH [OF r(1)] by simp_all
    have "x < y" if "x \<in> set ?one" "y \<in> set (emit_words rs src)" for x y
    proof -
      have "unat x \<in> array_set ?one" "unat y \<in> array_set (emit_words rs src)" using that by (auto simp: array_set_def)
      then have "unat x \<le> ?e" "?e < unat y" using one(2) ih(2) runs_set_Cons_gap [OF Cons.prems(1), of "unat y"] by auto
      then show ?thesis by (simp add: word_less_nat_alt)
    qed
    moreover have "array_set (?one @ emit_words rs src) = array_set ?one \<union> array_set (emit_words rs src)" by (auto simp: array_set_def)
    ultimately show ?case unfolding split using one ih by (auto simp: sorted_wrt_append run_set_def)
  qed
  then show "strict (emit_words rs src)" "array_set (emit_words rs src) = runs_set rs \<inter> bits_set src" by blast+
qed

theorem intersect_run_bitset_sparse_correct:
  assumes "wf_runs rs" "length src = 1024"
  shows "exact (runs_set rs \<inter> bits_set src) (intersect_run_bitset_sparse rs src)"
    "length (emit_words rs src) \<le> min (card (runs_set rs)) (card (bits_set src))"
proof -
  note e = emit_words_correct [OF assms]
  show "exact (runs_set rs \<inter> bits_set src) (intersect_run_bitset_sparse rs src)"
  proof (cases "emit_words rs src = []")
    case True
    then have "runs_set rs \<inter> bits_set src = {}" using e(2) by (simp add: array_set_def)
    then show ?thesis using True by (simp add: intersect_run_bitset_sparse_def exact_def holds_set_def empty_factories counted)
  next
    case False
    then show ?thesis using holds_make_array_from_sorted [OF e(1)] e(2) by (simp add: intersect_run_bitset_sparse_def exact_def counted)
  qed
  have "length (emit_words rs src) = card (runs_set rs \<inter> bits_set src)" using card_array_set [OF e(1)] e(2) by simp
  then show "length (emit_words rs src) \<le> min (card (runs_set rs)) (card (bits_set src))"
    by (simp add: card_mono finite_runs_set)
qed

theorem intersect_run_bitset_by_coverage_correct:
  assumes "exact A run_side" "holds_run run_side" "exact B bitset_side" "holds_bitset bitset_side" "length fresh = 1024"
  shows "exact (A \<inter> B) (intersect_run_bitset_by_coverage fresh bitset_threshold run_side bitset_side)"
proof -
  obtain rs where rs: "payload run_side = Run_payload rs" using assms(2) by (auto simp: holds_payload)
  have "wf_runs rs" "A = runs_set rs" using exact_wf [OF assms(1)] by (auto simp: rs wf_container_def values_of_def)
  moreover have "length (bitset_words bitset_side) = 1024" "B = bits_set (bitset_words bitset_side)"
    using wf_bitset_words [OF exact_wf(1) [OF assms(3)] assms(4)] exact_wf(2) [OF assms(3)] by simp_all
  moreover have "run_list run_side = rs" by (simp add: rs run_list_def)
  ultimately show ?thesis
    using intersect_run_bitset_correct [of rs "bitset_words bitset_side" fresh] assms(5) exact_size [OF assms(3)]
      clone_intersections_correct [of rs "bitset_words bitset_side"] intersect_run_bitset_sparse_correct(1) [of rs "bitset_words bitset_side"]
    by (simp add: intersect_run_bitset_by_coverage_def Let_def)
qed

end
