(* ===== verification/Set_Pairs.thy ===== *)
theory Set_Pairs
  imports Run_Bitset Bitmap_Updates
begin

text \<open>
  What the set operations of two bitmaps do with the two slots of one chunk (\<open>bitmap.hpp\<close>, \<open>bitmap_definitions.hpp\<close>): the
  slot of the union, the difference or the exclusive-or built aside, the union and the exclusive-or into the left slot,
  and the arms of \<open>combine\<close>, which intersect or subtract into the left slot or aside. \<open>garbage\<close> is what unwritten memory
  holds, \<open>unshared\<close> whether the left slot is the only holder of its payload. The operands are distinct bitmaps.
\<close>

definition fresh_words :: "(nat \<Rightarrow> word64) \<Rightarrow> word64 list" where
  "fresh_words garbage = map garbage [0..<word_count]"

definition fresh_values :: "(nat \<Rightarrow> word64) \<Rightarrow> nat \<Rightarrow> low list" where
  "fresh_values garbage n = map (\<lambda>i. ucast (garbage i)) [0..<n]"

subsection \<open>Slots built aside\<close>

definition filled_array :: "low list \<Rightarrow> container" where
  "filled_array vs = array_sync_header (set_array_values vs make_array)"

definition demote_sparse_bitset :: "container \<Rightarrow> container" where
  "demote_sparse_bitset container =
    (if holds_bitset container \<and> cardinality container < array_to_bitset_threshold
     then array_from_bitset (bitset_words container) (cardinality container) else container)"

definition make_fast_container :: "container \<Rightarrow> container" where
  "make_fast_container array_handle =
    (if length (array_values array_handle) \<ge> array_to_bitset_threshold
     then bitset_handle_from_sorted_values (array_values array_handle) make_array else array_handle)"

definition make_array_union_container_reusing :: "low list \<Rightarrow> low list \<Rightarrow> container" where
  "make_array_union_container_reusing lhs rhs =
    (if length lhs + length rhs < array_to_bitset_threshold then filled_array (union_array_array_to_vector lhs rhs)
     else demote_sparse_bitset (bitset_handle_from_array_union lhs rhs make_array))"

definition combine_containers_for_policy ::
  "bool \<Rightarrow> (nat \<Rightarrow> word64) \<Rightarrow> container \<Rightarrow> container \<Rightarrow> set_operation \<Rightarrow> container option" where
  "combine_containers_for_policy eager garbage lhs rhs op =
    combine_containers eager (fresh_words garbage) lhs rhs array_to_bitset_threshold op"

definition union_pair :: "bool \<Rightarrow> (nat \<Rightarrow> word64) \<Rightarrow> container \<Rightarrow> container \<Rightarrow> container option" where
  "union_pair eager garbage l r =
    (if holds_array l \<and> holds_array r then Some (make_array_union_container_reusing (array_values l) (array_values r))
     else if holds_bitset l \<and> holds_bitset r then
       Some (combine_bitset_bitset (bitset_words l) (bitset_words r) Bit_or (fresh_words garbage))
     else combine_containers_for_policy eager garbage l r Bit_or)"

definition difference_pair :: "bool \<Rightarrow> (nat \<Rightarrow> word64) \<Rightarrow> container \<Rightarrow> container \<Rightarrow> container option" where
  "difference_pair eager garbage l r =
    (if holds_array l \<and> holds_array r then Some (filled_array (difference_array_array_to_vector (array_values l) (array_values r)))
     else if holds_bitset l \<and> holds_bitset r then
       Some (demote_sparse_bitset (combine_bitset_bitset (bitset_words l) (bitset_words r) Bit_andnot (fresh_words garbage)))
     else if holds_array l \<and> holds_bitset r then Some (filled_array (filter_array_bitset (array_values l) (bitset_words r) False))
     else combine_containers_for_policy eager garbage l r Bit_andnot)"

definition xor_pair :: "(nat \<Rightarrow> word64) \<Rightarrow> container \<Rightarrow> container \<Rightarrow> container" where
  "xor_pair garbage l r =
    (if holds_array l \<and> holds_array r then xor_array_array (array_values l) (array_values r) array_to_bitset_threshold
     else if holds_bitset l \<and> holds_bitset r then
       settle_xor_bitset (combine_bitset_bitset (bitset_words l) (bitset_words r) Bit_xor (fresh_words garbage)) array_to_bitset_threshold
     else xor_containers (fresh_words garbage) l r array_to_bitset_threshold)"

subsection \<open>The left slot changed\<close>

definition union_same_key :: "bool \<Rightarrow> (nat \<Rightarrow> word64) \<Rightarrow> bool \<Rightarrow> bool \<Rightarrow> container \<Rightarrow> container \<Rightarrow> container option" where
  "union_same_key eager garbage lazy mutate_left l r =
    (if holds_array l \<and> holds_array r then
       Some (if mutate_left then
               make_fast_container (array_sync_header (set_array_values
                 (union_array_array_inplace False (fresh_values garbage (length (array_values r))) (array_values l) (array_values r)) l))
             else make_array_union_container_reusing (array_values l) (array_values r))
     else if holds_bitset l \<and> holds_bitset r then
       Some (if \<not> mutate_left then
               (if cardinality l \<noteq> word_count * 64
                then combine_bitset_bitset (bitset_words l) (bitset_words r) Bit_or (fresh_words garbage) else l)
             else if lazy then or_bitset_bitset_inplace_lazy l (bitset_words r)
             else combine_bitset_bitset_inplace l (bitset_words r) Bit_or)
     else if \<not> lazy \<and> mutate_left \<and> holds_bitset l \<and> holds_array r then
       Some (or_array_into_bitset_inplace False l (array_values r))
     else if \<not> lazy \<and> mutate_left \<and> holds_bitset l \<and> holds_run r then
       Some (apply_runs_to_bitset_inplace True l (run_list r))
     else if lazy \<and> (holds_bitset l \<or> holds_array l) \<and> (holds_bitset r \<or> holds_array r) then
       (let l = (if \<not> holds_bitset l then bitset_handle_from_sorted_values (array_values l) make_array else l)
        in Some (if holds_bitset r then or_bitset_bitset_inplace_lazy l (bitset_words r)
                 else or_array_into_bitset_inplace True l (array_values r)))
     else combine_containers_for_policy eager garbage l r Bit_or)"

definition xor_same_key :: "(nat \<Rightarrow> word64) \<Rightarrow> bool \<Rightarrow> container \<Rightarrow> container \<Rightarrow> container" where
  "xor_same_key garbage unshared l r =
    (if holds_bitset l \<and> unshared then
       settle_xor_bitset
         (if holds_bitset r then combine_bitset_bitset_inplace l (bitset_words r) Bit_xor
          else if holds_array r then xor_array_into_bitset_inplace False l (array_values r)
          else xor_runs_into_bitset_inplace False l (run_list r)) array_to_bitset_threshold
     else xor_pair garbage l r)"

subsection \<open>The arms of \<open>combine\<close>\<close>

datatype outcome = Dropped | Kept container | Emitted container

definition emitted :: "container \<Rightarrow> outcome" where
  "emitted container = (if container_size container \<noteq> 0 then Emitted container else Dropped)"

definition kept :: "container \<Rightarrow> outcome" where
  "kept container = (if container_size container \<noteq> 0 then Kept container else Dropped)"

definition committed :: "low list \<Rightarrow> outcome" where
  "committed values = (if values \<noteq> [] then Emitted (filled_array values) else Dropped)"

definition kInplaceIntersectMaxElements :: nat where
  "kInplaceIntersectMaxElements = 256"

definition combine_arrays :: "set_operation \<Rightarrow> bool \<Rightarrow> nat \<Rightarrow> container \<Rightarrow> container \<Rightarrow> outcome" where
  "combine_arrays op mutate_left retired_capacity l r =
    (let lv = array_values l; rv = array_values r; intersect_result_count = min (length lv) (length rv)
     in if op = Bit_and \<and> mutate_left \<and> intersect_result_count \<le> kInplaceIntersectMaxElements \<and>
           retired_capacity < intersect_result_count + 8
        then kept (array_sync_header (set_array_values (intersect_array_array_inplace lv rv) l))
        else if op = Bit_and then committed (combine_array_array lv rv Bit_and)
        else if mutate_left then
          (let l = array_sync_header (set_array_values (difference_array_array_inplace lv rv) l)
           in if array_values l \<noteq> [] then Emitted (make_fast_container l) else Dropped)
        else committed (difference_array_array_to_vector lv rv))"

definition combine_bitsets :: "set_operation \<Rightarrow> bool \<Rightarrow> (nat \<Rightarrow> word64) \<Rightarrow> container \<Rightarrow> container \<Rightarrow> outcome" where
  "combine_bitsets op mutate_left garbage l r =
    (if mutate_left then kept (combine_bitset_bitset_inplace l (bitset_words r) op)
     else let container = combine_bitset_bitset (bitset_words l) (bitset_words r) op (fresh_words garbage)
          in emitted (if op = Bit_andnot then demote_sparse_bitset container else container))"

definition filtered_in_place :: "container \<Rightarrow> low list \<Rightarrow> outcome" where
  "filtered_in_place l values =
    (if values \<noteq> [] then
       Kept (if length values \<noteq> length (array_values l) then array_sync_header (set_array_values values l) else set_array_values values l)
     else Dropped)"

definition combine_array_bitset_aside :: "set_operation \<Rightarrow> container \<Rightarrow> container \<Rightarrow> outcome" where
  "combine_array_bitset_aside op array_side bitset_side =
    (if op = Bit_and \<and> container_is_known_full bitset_side then
       (if array_values array_side \<noteq> [] then Emitted array_side else Dropped)
     else committed (filter_array_bitset (array_values array_side) (bitset_words bitset_side) (op = Bit_and)))"

definition intersect_array_run_aside :: "container \<Rightarrow> container \<Rightarrow> outcome option" where
  "intersect_array_run_aside array_side run_side =
    (if container_is_known_full run_side then Some (if array_values array_side \<noteq> [] then Emitted array_side else Dropped)
     else map_option committed (filter_array_run_into True (array_values array_side) (run_list run_side)))"

definition intersect_runs_aside :: "container \<Rightarrow> container \<Rightarrow> outcome" where
  "intersect_runs_aside l r =
    (if container_is_known_full l then emitted r
     else if container_is_known_full r then emitted l
     else case intersect_run_run_into (run_list l) (run_list r) of (n, rs) \<Rightarrow>
       if n = 0 then Dropped
       else let run_bytes = length rs * 4; array_bytes = n * 2
            in if run_bytes \<le> array_bytes \<and> \<not> (n \<ge> array_to_bitset_threshold \<and> bitset_bytes \<le> run_bytes)
               then Emitted (set_endpoints (rbegin (hd rs)) (rend (last rs)) (set_cardinality n (set_run_list rs make_run)))
               else Emitted (make_container_from_runs \<lparr>runs = rs, rc_cardinality = n\<rparr> array_to_bitset_threshold))"

definition combine_pair ::
  "bool \<Rightarrow> (nat \<Rightarrow> word64) \<Rightarrow> nat \<Rightarrow> set_operation \<Rightarrow> bool \<Rightarrow> container \<Rightarrow> container \<Rightarrow> outcome option" where
  "combine_pair eager garbage retired_capacity op mutate_left l r =
    (if holds_array l \<and> holds_array r then Some (combine_arrays op mutate_left retired_capacity l r)
     else if holds_bitset l \<and> holds_bitset r then Some (combine_bitsets op mutate_left garbage l r)
     else if mutate_left \<and> holds_array l \<and> holds_bitset r then
       Some (filtered_in_place l (filter_array_bitset_inplace (array_values l) (bitset_words r) (op = Bit_and)))
     else if mutate_left \<and> holds_array l \<and> holds_run r then
       map_option (\<lambda>vs. if vs \<noteq> [] then Kept (array_sync_header (set_array_values vs l)) else Dropped)
         (filter_array_run_inplace (op = Bit_and) (array_values l) (run_list r))
     else if (op = Bit_and \<and> (holds_array l \<and> holds_bitset r \<or> holds_bitset l \<and> holds_array r)) \<or>
             (op = Bit_andnot \<and> holds_array l \<and> holds_bitset r) then
       Some (if holds_array l then combine_array_bitset_aside op l r else combine_array_bitset_aside op r l)
     else if op = Bit_and \<and> (holds_run l \<and> holds_array r \<or> holds_array l \<and> holds_run r) then
       (if holds_array l then intersect_array_run_aside l r else intersect_array_run_aside r l)
     else if op = Bit_and \<and> holds_run l \<and> holds_run r then Some (intersect_runs_aside l r)
     else if op = Bit_and \<and> (holds_run l \<and> holds_bitset r \<or> holds_bitset l \<and> holds_run r) then
       Some (emitted (intersect_run_bitset_by_coverage (fresh_words garbage) array_to_bitset_threshold
         (if holds_run l then l else r) (if holds_run l then r else l)))
     else if mutate_left \<and> op = Bit_andnot \<and> holds_bitset l \<and> holds_array r then
       Some (kept (difference_bitset_array_inplace l (array_values r)))
     else map_option emitted (combine_containers_for_policy eager garbage l r op))"

end
