(* ===== verification/Set_Pairs_Exact.thy ===== *)
theory Set_Pairs_Exact
  imports Set_Pairs
begin

text \<open>
  Every slot a set operation makes of the two slots of a chunk holds the set operation of their values, counted exactly;
  an outcome of \<open>combine\<close> is dropped only when nothing is left. The lazy unions keep the values and leave the count open.
\<close>

subsection \<open>What a finished slot holds\<close>

lemma exact_array:
  assumes "exact S h" "holds_array h"
  shows "payload h = Array_payload (array_values h)" "strict (array_values h)" "S = array_set (array_values h)" "\<not> endpoints_stale h"
    "container_size h = length (array_values h)"
proof -
  obtain vs where p: "payload h = Array_payload vs" using assms(2) holds_payload(1) by blast
  have wf: "wf_container h" "values_of h = S" using exact_wf [OF assms(1)] by simp_all
  have facts: "strict vs \<and> \<not> endpoints_stale h \<and> cardinality h = length vs" using wf(1) by (simp add: wf_container_array [OF p])
  show "payload h = Array_payload (array_values h)" "strict (array_values h)" "S = array_set (array_values h)" "\<not> endpoints_stale h"
    "container_size h = length (array_values h)"
    using facts p wf(2) by (simp_all add: values_of_def container_size_def)
qed

lemma exact_bitset:
  assumes "exact S h" "holds_bitset h"
  shows "length (bitset_words h) = 1024" "S = bits_set (bitset_words h)"
  using wf_bitset_words [OF exact_wf(1) [OF assms(1)] assms(2)] exact_wf(2) [OF assms(1)] by simp_all

lemma exact_run:
  assumes "exact S h" "holds_run h"
  shows "wf_runs (run_list h)" "S = runs_set (run_list h)"
proof -
  obtain rs where p: "payload h = Run_payload rs" using assms(2) holds_payload(2) by blast
  then show "wf_runs (run_list h)" "S = runs_set (run_list h)"
    using exact_wf [OF assms(1)] by (auto simp: wf_container_def values_of_def)
qed

lemma length_fresh [simp]: "length (fresh_words garbage) = 1024" "length (fresh_values garbage n) = n"
  by (simp_all add: fresh_words_def fresh_values_def)

lemma exact_filled: "strict vs \<Longrightarrow> exact (array_set vs) (filled_array vs)"
  using holds_filled_array by (simp add: filled_array_def exact_def counted)

lemma exact_resynced:
  assumes "exact S h" "holds_array h" "strict vs"
  shows "exact (array_set vs) (array_sync_header (set_array_values vs h))"
    "holds_array (array_sync_header (set_array_values vs h))" "array_values (array_sync_header (set_array_values vs h)) = vs"
proof -
  let ?h = "set_array_values vs h"
  have p: "payload ?h = Array_payload vs" "\<not> endpoints_stale ?h" using exact_array(4) [OF assms(1,2)] by (simp_all add: set_array_values_def)
  have wf: "wf_container (array_sync_header ?h)" by (rule wf_array_sync_header [OF p(1) assms(3) p(2)])
  moreover have "payload (array_sync_header ?h) = Array_payload vs" using p(1) by simp
  ultimately show "exact (array_set vs) (array_sync_header ?h)" "holds_array (array_sync_header ?h)" "array_values (array_sync_header ?h) = vs"
    by (simp_all add: exact_def holds_set_def values_of_def counted)
qed

lemma exact_from_bitset: "exact S h \<Longrightarrow> holds_bitset h \<Longrightarrow> exact S (array_from_bitset (bitset_words h) (cardinality h))"
  using array_from_bitset_correct(1) [of "bitset_words h" "cardinality h"] exact_bitset [of S h] exact_count [of S h]
  by (simp add: exact_def counted)

lemma exact_demoted: "exact S h \<Longrightarrow> exact S (demote_sparse_bitset h)"
  using exact_from_bitset by (simp add: demote_sparse_bitset_def)

lemma exact_fast:
  assumes "exact S h" "holds_array h"
  shows "exact S (make_fast_container h)"
proof -
  note a = exact_array [OF assms]
  show ?thesis using assms(1) exact_bitset_of_values [OF a(2), of make_array] a(3) by (simp add: make_fast_container_def)
qed

lemma exact_of_bitset: "leaves_bitset S h \<Longrightarrow> \<not> cardinality_stale h \<Longrightarrow> exact S h"
  by (simp add: leaves_bitset_def exact_def)

lemma exact_array_union:
  assumes "strict ls" "strict rs" "ls \<noteq> []" "rs \<noteq> []"
  shows "exact (array_set ls \<union> array_set rs) (make_array_union_container_reusing ls rs)"
proof -
  have "exact (array_set ls \<union> array_set rs) (bitset_handle_from_array_union ls rs make_array)"
    using bitset_handle_from_array_union_correct(1) [OF assms]
    by (simp add: exact_def bitset_handle_from_array_union_def Let_def counted split: prod.split)
  moreover have "exact (array_set ls \<union> array_set rs) (filled_array (union_array_array_to_vector ls rs))"
    using exact_filled [of "union_array_array_to_vector ls rs"] assms(1,2) by (simp add: wf_results value_sets)
  ultimately show ?thesis using exact_demoted by (simp add: make_array_union_container_reusing_def)
qed

lemma exact_combined:
  assumes "exact A l" "exact B r" "op \<noteq> Bit_xor"
  shows "\<exists>h. combine_containers_for_policy eager garbage l r op = Some h \<and> exact (set_op op A B) h"
  using combine_containers_correct [OF exact_wf(1) [OF assms(1)] exact_wf(1) [OF assms(2)] _ assms(3), of "fresh_words garbage" eager array_to_bitset_threshold]
    exact_wf(2) [OF assms(1)] exact_wf(2) [OF assms(2)]
  by (simp add: combine_containers_for_policy_def)

lemma exact_two_bitsets:
  assumes "exact A l" "holds_bitset l" "exact B r" "holds_bitset r"
  shows "exact (set_op op A B) (combine_bitset_bitset (bitset_words l) (bitset_words r) op (fresh_words garbage))"
    "leaves_bitset (set_op op A B) (combine_bitset_bitset_inplace l (bitset_words r) op)"
  using combine_bitset_bitset_correct [of "bitset_words l" "bitset_words r" "fresh_words garbage" op] exact_bitset [OF assms(1,2)]
    exact_bitset [OF assms(3,4)] combine_bitset_bitset_inplace_correct [OF exact_wf(1) [OF assms(1)] assms(2), of "bitset_words r" op] exact_wf(2) [OF assms(1)]
  by (simp_all add: exact_def)

lemma counted_bitset_inplace [counted]: "\<not> cardinality_stale h \<Longrightarrow> \<not> cardinality_stale (combine_bitset_bitset_inplace h b op)"
  by (simp add: combine_bitset_bitset_inplace_def Let_def counted)

lemma exact_bitsets_inplace:
  assumes "exact A l" "holds_bitset l" "exact B r" "holds_bitset r"
  shows "exact (set_op op A B) (combine_bitset_bitset_inplace l (bitset_words r) op)"
  using exact_two_bitsets(2) [OF assms, of op] exact_wf(3) [OF assms(1)] by (intro exact_of_bitset) (simp_all add: counted)

lemma one_form:
  "holds_array h \<Longrightarrow> \<not> holds_bitset h \<and> \<not> holds_run h" "holds_bitset h \<Longrightarrow> \<not> holds_array h \<and> \<not> holds_run h"
  "holds_run h \<Longrightarrow> \<not> holds_array h \<and> \<not> holds_bitset h" "\<not> holds_array h \<Longrightarrow> \<not> holds_bitset h \<Longrightarrow> holds_run h"
  by (cases "payload h"; simp add: holds_payload)+

subsection \<open>Built aside\<close>

lemma union_pair_exact:
  assumes "exact A l" "exact B r" "A \<noteq> {}" "B \<noteq> {}"
  shows "\<exists>h. union_pair eager garbage l r = Some h \<and> exact (A \<union> B) h"
proof -
  consider "holds_array l \<and> holds_array r" | "\<not> (holds_array l \<and> holds_array r)" "holds_bitset l \<and> holds_bitset r"
    | "\<not> (holds_array l \<and> holds_array r)" "\<not> (holds_bitset l \<and> holds_bitset r)" by blast
  then show ?thesis
  proof cases
    case 1
    note a = exact_array [OF assms(1) conjunct1 [OF 1]] exact_array [OF assms(2) conjunct2 [OF 1]]
    have "array_values l \<noteq> []" "array_values r \<noteq> []" using a(3,8) assms(3,4) by (auto simp: array_set_def)
    then show ?thesis using exact_array_union [OF a(2,7)] a(3,8) 1 by (simp add: union_pair_def)
  next
    case 2
    then show ?thesis using exact_two_bitsets(1) [OF assms(1) conjunct1 [OF 2(2)] assms(2) conjunct2 [OF 2(2)], of Bit_or garbage]
      unfolding union_pair_def if_not_P [OF 2(1)] if_P [OF 2(2)] by (simp add: set_op_def)
  next
    case 3
    show ?thesis using exact_combined [OF assms(1,2), of Bit_or eager garbage]
      unfolding union_pair_def if_not_P [OF 3(1)] if_not_P [OF 3(2)] by (simp add: set_op_def)
  qed
qed

lemma difference_pair_exact:
  assumes "exact A l" "exact B r"
  shows "\<exists>h. difference_pair eager garbage l r = Some h \<and> exact (A - B) h"
proof -
  consider "holds_array l \<and> holds_array r" | "\<not> (holds_array l \<and> holds_array r)" "holds_bitset l \<and> holds_bitset r"
    | "\<not> (holds_array l \<and> holds_array r)" "\<not> (holds_bitset l \<and> holds_bitset r)" "holds_array l \<and> holds_bitset r"
    | "\<not> (holds_array l \<and> holds_array r)" "\<not> (holds_bitset l \<and> holds_bitset r)" "\<not> (holds_array l \<and> holds_bitset r)" by blast
  then show ?thesis
  proof cases
    case 1
    note a = exact_array [OF assms(1) conjunct1 [OF 1]] exact_array [OF assms(2) conjunct2 [OF 1]]
    have "strict (difference_array_array_to_vector (array_values l) (array_values r))" by (rule to_vector_correct) (rule a)+
    from exact_filled [OF this] show ?thesis
      unfolding difference_pair_def if_P [OF 1] using array_set_to_vector [OF a(2,7)] a(3,8) by simp
  next
    case 2
    show ?thesis using exact_demoted [OF exact_two_bitsets(1) [OF assms(1) conjunct1 [OF 2(2)] assms(2) conjunct2 [OF 2(2)], of Bit_andnot garbage]]
      unfolding difference_pair_def if_not_P [OF 2(1)] if_P [OF 2(2)] by (simp add: set_op_def)
  next
    case 3
    note a = exact_array [OF assms(1) conjunct1 [OF 3(3)]] exact_bitset [OF assms(2) conjunct2 [OF 3(3)]]
    have "strict (filter (\<lambda>v. (unat v \<in> bits_set (bitset_words r)) = False) (array_values l))" using a(2) by (rule strict_filter)
    from exact_filled [OF this] show ?thesis
      unfolding difference_pair_def if_not_P [OF 3(1)] if_not_P [OF 3(2)] if_P [OF 3(3)] filter_array_bitset_correct [OF a(6)] array_set_filter
      using a(3,7) by simp
  next
    case 4
    show ?thesis using exact_combined [OF assms(1,2), of Bit_andnot eager garbage]
      unfolding difference_pair_def if_not_P [OF 4(1)] if_not_P [OF 4(2)] if_not_P [OF 4(3)] by (simp add: set_op_def)
  qed
qed

lemma sym_diff_op: "set_op Bit_xor A B = sym_diff A B"
  by (simp add: set_op_def sym_diff_def)

lemma bitset_or_none: "length a = 1024 \<Longrightarrow> length b = 1024 \<Longrightarrow>
  holds_bitset (combine_bitset_bitset a b op (fresh_words garbage)) \<or> set_op op (bits_set a) (bits_set b) = {}"
proof -
  assume len: "length a = 1024" "length b = 1024"
  note c = combine_bitset_bitset_correct [OF len, of "fresh_words garbage" op, OF length_fresh(1)]
  show ?thesis
  proof (cases "holds_bitset (combine_bitset_bitset a b op (fresh_words garbage))")
    case False
    then have "combine_bitset_bitset a b op (fresh_words garbage) = make_array"
      by (auto simp: combine_bitset_bitset_def Let_def make_bitset_uninitialized_def set_cardinality_def mark_endpoints_stale_def
          holds_bitset_def kind_def split: if_splits)
    then show ?thesis using c(1) by (simp add: holds_set_def empty_factories)
  qed simp
qed

lemma xor_pair_exact:
  assumes "exact A l" "exact B r"
  shows "exact (sym_diff A B) (xor_pair garbage l r)"
proof -
  consider "holds_array l \<and> holds_array r" | "\<not> (holds_array l \<and> holds_array r)" "holds_bitset l \<and> holds_bitset r"
    | "\<not> (holds_array l \<and> holds_array r)" "\<not> (holds_bitset l \<and> holds_bitset r)" by blast
  then show ?thesis
  proof cases
    case 1
    note a = exact_array [OF assms(1) conjunct1 [OF 1]] exact_array [OF assms(2) conjunct2 [OF 1]]
    show ?thesis using xor_array_array_correct [OF a(2,7)] a(3,8) 1 by (simp add: xor_pair_def)
  next
    case 2
    note a = exact_bitset [OF assms(1) conjunct1 [OF 2(2)]] exact_bitset [OF assms(2) conjunct2 [OF 2(2)]]
    show ?thesis
      using settle_xor_bitset_correct [OF exact_two_bitsets(1) [OF assms(1) conjunct1 [OF 2(2)] assms(2) conjunct2 [OF 2(2)], of Bit_xor garbage]]
        bitset_or_none [OF a(1,3), of Bit_xor garbage] a(2,4)
      unfolding xor_pair_def if_not_P [OF 2(1)] if_P [OF 2(2)] sym_diff_op by simp
  next
    case 3
    have "exact (sym_diff A B) (xor_containers (fresh_words garbage) l r array_to_bitset_threshold)"
      using xor_containers_correct [OF exact_wf(1) [OF assms(1)] exact_wf(1) [OF assms(2)] exact_wf(3) [OF assms(1)] exact_wf(3) [OF assms(2)] length_fresh(1)]
      by (simp only: exact_wf(2) [OF assms(1)] exact_wf(2) [OF assms(2)])
    then show ?thesis unfolding xor_pair_def if_not_P [OF 3(1)] if_not_P [OF 3(2)] .
  qed
qed

subsection \<open>The left slot changed\<close>

lemma full_values: "values_of h \<subseteq> {..<65536}" if "wf_container h"
  using that values_of_bound by blast

lemma union_same_key_exact:
  assumes "exact A l" "exact B r" "A \<noteq> {}" "B \<noteq> {}"
  shows "\<exists>h. union_same_key eager garbage False mutate_left l r = Some h \<and> exact (A \<union> B) h"
proof -
  consider (arrays) "holds_array l \<and> holds_array r" | (bitsets) "\<not> (holds_array l \<and> holds_array r)" "holds_bitset l \<and> holds_bitset r"
    | (scatter) "\<not> (holds_array l \<and> holds_array r)" "\<not> (holds_bitset l \<and> holds_bitset r)" "\<not> False \<and> mutate_left \<and> holds_bitset l \<and> holds_array r"
    | (runs) "\<not> (holds_array l \<and> holds_array r)" "\<not> (holds_bitset l \<and> holds_bitset r)" "\<not> (\<not> False \<and> mutate_left \<and> holds_bitset l \<and> holds_array r)"
        "\<not> False \<and> mutate_left \<and> holds_bitset l \<and> holds_run r"
    | (general) "\<not> (holds_array l \<and> holds_array r)" "\<not> (holds_bitset l \<and> holds_bitset r)" "\<not> (\<not> False \<and> mutate_left \<and> holds_bitset l \<and> holds_array r)"
        "\<not> (\<not> False \<and> mutate_left \<and> holds_bitset l \<and> holds_run r)" by blast
  then show ?thesis
  proof cases
    case arrays
    note a = exact_array [OF assms(1) conjunct1 [OF arrays]] exact_array [OF assms(2) conjunct2 [OF arrays]]
    have ne: "array_values l \<noteq> []" "array_values r \<noteq> []" using a(3,8) assms(3,4) by (auto simp: array_set_def)
    let ?vs = "union_array_array_inplace False (fresh_values garbage (length (array_values r))) (array_values l) (array_values r)"
    have vs: "?vs = union_sorted_scalar (array_values l) (array_values r)" by (rule union_array_array_inplace_eq [OF a(2,7)]) simp
    have "strict ?vs" "array_set ?vs = A \<union> B" unfolding vs using a(2,3,7,8) by (simp_all add: wf_results value_sets)
    then have "exact (A \<union> B) (make_fast_container (array_sync_header (set_array_values ?vs l)))"
      using exact_fast [OF exact_resynced(1,2) [OF assms(1) conjunct1 [OF arrays]]] by metis
    then show ?thesis unfolding union_same_key_def if_P [OF arrays] using exact_array_union [OF a(2,7) ne] a(3,8) by simp
  next
    case bitsets
    note e = exact_two_bitsets(1) [OF assms(1) conjunct1 [OF bitsets(2)] assms(2) conjunct2 [OF bitsets(2)], of Bit_or garbage]
      exact_bitsets_inplace [OF assms(1) conjunct1 [OF bitsets(2)] assms(2) conjunct2 [OF bitsets(2)], of Bit_or]
    have "A \<union> B = A" if "cardinality l = word_count * 64"
    proof -
      have "card A = 65536" using that exact_count [OF assms(1)] by (simp add: word_count_def)
      moreover have "A \<subseteq> {..<65536}" "B \<subseteq> {..<65536}"
        using full_values [OF exact_wf(1) [OF assms(1)]] full_values [OF exact_wf(1) [OF assms(2)]] exact_wf(2) [OF assms(1)] exact_wf(2) [OF assms(2)] by simp_all
      ultimately have "A = {..<65536}" by (intro card_subset_eq) simp_all
      then show ?thesis using \<open>B \<subseteq> _\<close> by blast
    qed
    then have "cardinality l = word_count * 64 \<Longrightarrow> exact (A \<union> B) l" using assms(1) by simp
    then show ?thesis unfolding union_same_key_def if_not_P [OF bitsets(1)] if_P [OF bitsets(2)] using e by (simp add: set_op_def)
  next
    case scatter
    have l: "holds_bitset l" and r: "holds_array r" using scatter(3) by simp_all
    note a = exact_array [OF assms(2) r]
    have "array_values r \<noteq> []" using a(3) assms(4) by (auto simp: array_set_def)
    then have "exact (A \<union> B) (or_array_into_bitset_inplace False l (array_values r))"
      using or_array_into_bitset_inplace_correct [OF exact_wf(1) [OF assms(1)] l] exact_wf(2) [OF assms(1)] a(3)
      by (intro exact_of_bitset) simp_all
    then show ?thesis unfolding union_same_key_def if_not_P [OF scatter(1)] if_not_P [OF scatter(2)] if_P [OF scatter(3)] by simp
  next
    case runs
    have l: "holds_bitset l" and r: "holds_run r" using runs(4) by simp_all
    note a = exact_run [OF assms(2) r]
    have "exact (A \<union> B) (apply_runs_to_bitset_inplace True l (run_list r))"
      using apply_runs_to_bitset_inplace_correct [OF exact_wf(1) [OF assms(1)] l a(1), of True] exact_wf(2) [OF assms(1)] a(2)
      by (intro exact_of_bitset) simp_all
    then show ?thesis
      unfolding union_same_key_def if_not_P [OF runs(1)] if_not_P [OF runs(2)] if_not_P [OF runs(3)] if_P [OF runs(4)] by simp
  next
    case general
    show ?thesis
      unfolding union_same_key_def if_not_P [OF general(1)] if_not_P [OF general(2)] if_not_P [OF general(3)] if_not_P [OF general(4)]
      using exact_combined [OF assms(1,2), of Bit_or eager garbage] by (simp add: set_op_def)
  qed
qed

lemma xor_same_key_exact:
  assumes "exact A l" "exact B r"
  shows "exact (sym_diff A B) (xor_same_key garbage unshared l r)"
proof (cases "holds_bitset l \<and> unshared")
  case True
  note l = exact_wf [OF assms(1)] exact_wf(2) [OF assms(2)]
  let ?h = "if holds_bitset r then combine_bitset_bitset_inplace l (bitset_words r) Bit_xor
     else if holds_array r then xor_array_into_bitset_inplace False l (array_values r) else xor_runs_into_bitset_inplace False l (run_list r)"
  have "leaves_bitset (sym_diff A B) ?h \<and> \<not> cardinality_stale ?h"
  proof -
    consider "holds_bitset r" | "\<not> holds_bitset r" "holds_array r" | "\<not> holds_bitset r" "\<not> holds_array r" "holds_run r" using one_form(4) by blast
    then show ?thesis
    proof cases
      case 1
      then show ?thesis using exact_two_bitsets(2) [OF assms(1) conjunct1 [OF True] assms(2) 1, of Bit_xor] l(3) by (simp add: sym_diff_op counted)
    next
      case 2
      then show ?thesis using xor_array_into_bitset_inplace_correct [OF l(1) conjunct1 [OF True], of "array_values r" False] l(2)
          exact_array(2,3) [OF assms(2) 2(2)] by simp
    next
      case 3
      then show ?thesis using xor_runs_into_bitset_inplace_correct [OF l(1) conjunct1 [OF True] exact_run(1) [OF assms(2) 3(3)], of False] l(2)
          exact_run(2) [OF assms(2) 3(3)] by simp
    qed
  qed
  then have "exact (sym_diff A B) (settle_xor_bitset ?h array_to_bitset_threshold)"
    by (intro settle_xor_bitset_correct) (simp_all add: exact_of_bitset leaves_bitset_def)
  then show ?thesis unfolding xor_same_key_def if_P [OF True] .
next
  case False
  show ?thesis unfolding xor_same_key_def if_not_P [OF False] by (rule xor_pair_exact [OF assms])
qed

subsection \<open>The arms of \<open>combine\<close>\<close>

definition outcome_ok :: "nat set \<Rightarrow> outcome \<Rightarrow> bool" where
  "outcome_ok T result = (case result of Dropped \<Rightarrow> T = {} | Kept h \<Rightarrow> T \<noteq> {} \<and> exact T h | Emitted h \<Rightarrow> T \<noteq> {} \<and> exact T h)"

lemma exact_none: "exact T h \<Longrightarrow> container_size h = 0 \<longleftrightarrow> T = {}"
  using exact_size [of T h] exact_wf(2) [of T h] finite_values_of [of h] by (auto simp: card_eq_0_iff)

lemma array_set_none: "array_set vs = {} \<longleftrightarrow> vs = []"
  by (simp add: array_set_def)

lemma emitted_ok: "exact T h \<Longrightarrow> outcome_ok T (emitted h)" and kept_ok: "exact T h \<Longrightarrow> outcome_ok T (kept h)"
  using exact_none [of T h] by (simp_all add: emitted_def kept_def outcome_ok_def)

lemma committed_ok: "strict vs \<Longrightarrow> outcome_ok (array_set vs) (committed vs)"
  using exact_filled [of vs] by (simp add: committed_def outcome_ok_def array_set_none)

lemma put_ok:
  assumes "exact S h" "holds_array h" "strict vs"
  shows "outcome_ok (array_set vs) (if vs \<noteq> [] then Kept (array_sync_header (set_array_values vs h)) else Dropped)"
  using exact_resynced(1) [OF assms] by (simp add: outcome_ok_def array_set_none)

lemma combine_arrays_ok:
  assumes "exact A l" "holds_array l" "exact B r" "holds_array r" "op = Bit_and \<or> op = Bit_andnot"
  shows "outcome_ok (set_op op A B) (combine_arrays op mutate_left room l r)"
proof -
  let ?lv = "array_values l" and ?rv = "array_values r"
  note a = exact_array [OF assms(1,2)] exact_array [OF assms(3,4)]
  have inter: "outcome_ok (A \<inter> B) (kept (array_sync_header (set_array_values (intersect_array_array_inplace ?lv ?rv) l)))"
  proof -
    have "strict (intersect_sorted_scalar ?lv ?rv)" "array_set (intersect_sorted_scalar ?lv ?rv) = A \<inter> B"
      using a(2,3,7,8) by (simp_all add: wf_results value_sets)
    then show ?thesis using kept_ok [OF exact_resynced(1) [OF assms(1,2)]] unfolding intersect_array_array_inplace_eq [OF a(2,7)] by metis
  qed
  have fresh: "outcome_ok (A \<inter> B) (committed (combine_array_array ?lv ?rv Bit_and))"
    using committed_ok [OF combine_array_array_correct(1) [OF a(2,7), of Bit_and]] combine_array_array_correct(2) [OF a(2,7), of Bit_and] a(3,8)
    by (simp add: set_op_def)
  have vs: "strict (difference_array_array_to_vector ?lv ?rv)" "array_set (difference_array_array_to_vector ?lv ?rv) = A - B"
    using to_vector_correct(2) [OF a(2,7)] array_set_to_vector(2) [OF a(2,7)] a(3,8) by simp_all
  have inplace: "difference_array_array_inplace ?lv ?rv = difference_array_array_to_vector ?lv ?rv"
    by (simp add: difference_array_array_inplace_eq difference_array_array_to_vector_def)
  note s = exact_resynced [OF assms(1,2) vs(1)]
  have "outcome_ok (A - B) (if array_values (array_sync_header (set_array_values (difference_array_array_inplace ?lv ?rv) l)) \<noteq> []
      then Emitted (make_fast_container (array_sync_header (set_array_values (difference_array_array_inplace ?lv ?rv) l))) else Dropped)"
    unfolding inplace s(3) using exact_fast [OF s(1,2)] unfolding vs(2) [symmetric] by (simp add: outcome_ok_def array_set_none)
  then show ?thesis
    using inter fresh committed_ok [OF vs(1)] vs(2) assms(5) by (auto simp: combine_arrays_def Let_def set_op_def)
qed

lemma combine_bitsets_ok:
  assumes "exact A l" "holds_bitset l" "exact B r" "holds_bitset r"
  shows "outcome_ok (set_op op A B) (combine_bitsets op mutate_left garbage l r)"
  using kept_ok [OF exact_bitsets_inplace [OF assms, of op]] emitted_ok [OF exact_two_bitsets(1) [OF assms, of op garbage]]
    emitted_ok [OF exact_demoted [OF exact_two_bitsets(1) [OF assms, of op garbage]]]
  by (cases "op = Bit_andnot") (simp_all add: combine_bitsets_def Let_def)

lemma filter_all_kept: "length (filter P xs) = length xs \<Longrightarrow> filter P xs = xs"
  by (metis filter_True length_filter_less less_irrefl)

lemma filtered_values:
  assumes "exact A l" "holds_array l"
  shows "strict (filter (\<lambda>v. (unat v \<in> S) = keep) (array_values l))"
    "array_set (filter (\<lambda>v. (unat v \<in> S) = keep) (array_values l)) = (if keep then A \<inter> S else A - S)"
  using strict_filter [OF exact_array(2) [OF assms]] array_set_filter [of S keep "array_values l"] exact_array(3) [OF assms] by simp_all

lemma filtered_ok:
  assumes "exact A l" "holds_array l"
  shows "outcome_ok (if keep then A \<inter> S else A - S) (filtered_in_place l (filter (\<lambda>v. (unat v \<in> S) = keep) (array_values l)))"
proof -
  obtain vs where vs: "vs = filter (\<lambda>v. (unat v \<in> S) = keep) (array_values l)" by blast
  have f: "strict vs" "array_set vs = (if keep then A \<inter> S else A - S)" using filtered_values [OF assms, of S keep] by (simp_all only: vs)
  have same: "set_array_values (array_values l) l = l" unfolding set_array_values_def exact_array(1) [OF assms, symmetric] by simp
  have all: "exact (array_set vs) (set_array_values vs l)" if "length vs = length (array_values l)"
  proof -
    have "vs = array_values l" using that unfolding vs by (rule filter_all_kept)
    then show ?thesis unfolding \<open>vs = array_values l\<close> same exact_array(3) [OF assms, symmetric] using assms(1) by simp
  qed
  have "outcome_ok (array_set vs) (filtered_in_place l vs)"
  proof (cases "vs = []")
    case False
    then show ?thesis
      using exact_resynced(1) [OF assms f(1)] all unfolding filtered_in_place_def outcome_ok_def by (simp add: array_set_none)
  qed (simp add: filtered_in_place_def outcome_ok_def array_set_none)
  then show ?thesis using f(2) by (simp only: vs)
qed

lemma known_full_other:
  assumes "exact F h" "container_is_known_full h" "exact A l"
  shows "F \<inter> A = A" "A \<inter> F = A"
  using container_is_known_full_correct(1) [OF exact_wf(1) [OF assms(1)] assms(2)] exact_wf(2) [OF assms(1)]
    full_values [OF exact_wf(1) [OF assms(3)]] exact_wf(2) [OF assms(3)] by auto

lemma array_shared_ok:
  assumes "exact A l" "holds_array l"
  shows "outcome_ok A (if array_values l \<noteq> [] then Emitted l else Dropped)"
  using exact_array(3) [OF assms] assms(1) by (auto simp: outcome_ok_def array_set_def)

lemma array_bitset_aside_ok:
  assumes "exact A l" "holds_array l" "exact B r" "holds_bitset r" "op = Bit_and \<or> op = Bit_andnot"
  shows "outcome_ok (set_op op A B) (combine_array_bitset_aside op l r)"
proof (cases "op = Bit_and \<and> container_is_known_full r")
  case True
  then show ?thesis unfolding combine_array_bitset_aside_def if_P [OF True]
    using array_shared_ok [OF assms(1,2)] known_full_other(2) [OF assms(3) conjunct2 [OF True] assms(1)] by (simp add: set_op_def)
next
  case False
  note a = exact_array [OF assms(1,2)] exact_bitset [OF assms(3,4)]
  have "strict (filter (\<lambda>v. (unat v \<in> bits_set (bitset_words r)) = (op = Bit_and)) (array_values l))" using a(2) by (rule strict_filter)
  from committed_ok [OF this] show ?thesis
    unfolding combine_array_bitset_aside_def if_not_P [OF False] filter_array_bitset_correct [OF a(6)] array_set_filter
    using a(3,7) assms(5) by (auto simp: set_op_def)
qed

lemma array_run_aside_ok:
  assumes "exact A l" "holds_array l" "exact B r" "holds_run r"
  shows "\<exists>out. intersect_array_run_aside l r = Some out \<and> outcome_ok (A \<inter> B) out"
proof (cases "container_is_known_full r")
  case True
  then show ?thesis using array_shared_ok [OF assms(1,2)] known_full_other(2) [OF assms(3) True assms(1)] by (simp add: intersect_array_run_aside_def)
next
  case False
  note a = exact_array [OF assms(1,2)] exact_run [OF assms(3,4)]
  have "strict (filter (\<lambda>v. (unat v \<in> runs_set (run_list r)) = True) (array_values l))" using a(2) by (rule strict_filter)
  from committed_ok [OF this] show ?thesis
    unfolding intersect_array_run_aside_def if_not_P [OF False] filter_array_run_into_correct [OF a(6,2)] array_set_filter
    using a(3,7) by simp
qed

lemma runs_aside_ok:
  assumes "exact A l" "holds_run l" "exact B r" "holds_run r"
  shows "outcome_ok (A \<inter> B) (intersect_runs_aside l r)"
proof -
  note a = exact_run [OF assms(1,2)] exact_run [OF assms(3,4)]
  obtain rs n where i: "intersect_runs (run_list l) (run_list r) = (rs, n)" by fastforce
  have rs: "wf_runs rs" "runs_set rs = A \<inter> B" "n = card (A \<inter> B)" using intersect_runs_correct(1,2,3) [OF a(1,3)] a(2,4) by (simp_all add: i)
  have fin: "finite (A \<inter> B)" unfolding rs(2) [symmetric] by (rule finite_runs_set)
  have c: "wf_rc \<lparr>runs = rs, rc_cardinality = n\<rparr>" using rs by (simp add: wf_rc_def)
  let ?h = "set_endpoints (rbegin (hd rs)) (rend (last rs)) (set_cardinality n (set_run_list rs make_run))"
  have built: "exact (A \<inter> B) (make_container_from_runs \<lparr>runs = rs, rc_cardinality = n\<rparr> array_to_bitset_threshold)"
    using make_container_from_runs_correct [OF c] rs(2) by (simp add: exact_def rc_set_def counted)
  have direct: "exact (A \<inter> B) ?h" if "n \<noteq> 0"
  proof -
    have "rs \<noteq> []" using that rs(2,3) by auto
    then have "?h = handle_from_run_container \<lparr>runs = rs, rc_cardinality = n\<rparr>"
      by (simp add: handle_from_run_container_def Let_def set_run_list_def)
    then show ?thesis using handle_from_run_container_correct(1) [OF c] rs(2) by (simp add: exact_def rc_set_def counted)
  qed
  have "outcome_ok (A \<inter> B) (emitted r)" if "container_is_known_full l"
    using emitted_ok [OF assms(3)] known_full_other(1) [OF assms(1) that assms(3)] by simp
  moreover have "outcome_ok (A \<inter> B) (emitted l)" if "container_is_known_full r"
    using emitted_ok [OF assms(1)] known_full_other(2) [OF assms(3) that assms(1)] by simp
  ultimately show ?thesis
    using direct built rs(3) fin by (auto simp: intersect_runs_aside_def intersect_run_run_into_def i outcome_ok_def Let_def)
qed

lemma combined_ok:
  assumes "exact A l" "exact B r" "op \<noteq> Bit_xor"
  shows "\<exists>result. map_option emitted (combine_containers_for_policy eager garbage l r op) = Some result \<and> outcome_ok (set_op op A B) result"
  using exact_combined [OF assms, of eager garbage] emitted_ok by auto

lemma subtracted_ok:
  assumes "exact A l" "holds_bitset l" "exact B r" "holds_array r"
  shows "outcome_ok (A - B) (kept (difference_bitset_array_inplace l (array_values r)))"
proof -
  note d = difference_bitset_array_inplace_correct [OF exact_wf(1) [OF assms(1)] assms(2), of "array_values r"]
  have "leaves_bitset (A - B) (difference_bitset_array_inplace l (array_values r))"
    using d exact_wf(2) [OF assms(1)] exact_array(3) [OF assms(3,4)] by simp
  moreover have "\<not> cardinality_stale (difference_bitset_array_inplace l (array_values r))"
    using exact_wf(3) [OF assms(1)] by (simp add: difference_bitset_array_inplace_def settle_stale_cardinality_def Let_def counted split: prod.split)
  ultimately show ?thesis by (intro kept_ok exact_of_bitset)
qed

lemma covered_ok:
  assumes "exact A l" "holds_run l" "exact B r" "holds_bitset r"
  shows "outcome_ok (A \<inter> B) (emitted (intersect_run_bitset_by_coverage (fresh_words garbage) array_to_bitset_threshold l r))"
  by (intro emitted_ok intersect_run_bitset_by_coverage_correct assms) simp

lemma refiltered_ok:
  assumes "exact A l" "holds_array l" "exact B r" "holds_run r" "op = Bit_and \<or> op = Bit_andnot"
  shows "\<exists>result. map_option (\<lambda>vs. if vs \<noteq> [] then Kept (array_sync_header (set_array_values vs l)) else Dropped)
      (filter_array_run_inplace (op = Bit_and) (array_values l) (run_list r)) = Some result \<and> outcome_ok (set_op op A B) result"
proof -
  note f = filtered_values [OF assms(1,2), of "runs_set (run_list r)" "op = Bit_and"]
  have "set_op op A B = (if op = Bit_and then A \<inter> runs_set (run_list r) else A - runs_set (run_list r))"
    using assms(5) exact_run(2) [OF assms(3,4)] by (auto simp: set_op_def)
  then show ?thesis
    unfolding filter_array_run_inplace_correct [OF exact_run(1) [OF assms(3,4)] exact_array(2) [OF assms(1,2)]]
    using put_ok [OF assms(1,2) f(1)] f(2) by (simp only: option.map option.inject) blast
qed

lemma refiltered_bits_ok:
  assumes "exact A l" "holds_array l" "exact B r" "holds_bitset r" "op = Bit_and \<or> op = Bit_andnot"
  shows "outcome_ok (set_op op A B) (filtered_in_place l (filter_array_bitset_inplace (array_values l) (bitset_words r) (op = Bit_and)))"
proof -
  have "set_op op A B = (if op = Bit_and then A \<inter> bits_set (bitset_words r) else A - bits_set (bitset_words r))"
    using assms(5) exact_bitset(2) [OF assms(3,4)] by (auto simp: set_op_def)
  then show ?thesis
    unfolding filter_array_bitset_inplace_correct [OF exact_bitset(1) [OF assms(3,4)]]
    using filtered_ok [OF assms(1,2), of "op = Bit_and" "bits_set (bitset_words r)"] by (simp only:)
qed

lemma set_op_swap: "set_op Bit_and B A = set_op Bit_and A B"
  by (simp add: set_op_def Int_commute)

lemma combine_pair_same_form:
  assumes "exact A l" "exact B r" "op = Bit_and \<or> op = Bit_andnot"
    and "holds_array l \<and> holds_array r \<or> holds_bitset l \<and> holds_bitset r \<or> holds_run l \<and> holds_run r"
  shows "\<exists>result. combine_pair eager garbage retired op mutate_left l r = Some result \<and> outcome_ok (set_op op A B) result"
proof -
  have x: "op \<noteq> Bit_xor" using assms(3) by auto
  consider (aa) "holds_array l" "holds_array r" | (bb) "holds_bitset l" "holds_bitset r" | (rr) "holds_run l" "holds_run r" using assms(4) by blast
  then show ?thesis
  proof cases
    case aa
    show ?thesis unfolding combine_pair_def using aa combine_arrays_ok [OF assms(1) aa(1) assms(2) aa(2) assms(3)] by simp
  next
    case bb
    show ?thesis unfolding combine_pair_def
      using bb one_form(2) [OF bb(1)] combine_bitsets_ok [OF assms(1) bb(1) assms(2) bb(2)] by simp
  next
    case rr
    show ?thesis unfolding combine_pair_def
      using rr one_form(3) [OF rr(1)] one_form(3) [OF rr(2)] runs_aside_ok [OF assms(1) rr(1) assms(2) rr(2)]
        combined_ok [OF assms(1,2) x, of eager garbage] assms(3) by (auto simp: set_op_def)
  qed
qed

lemma combine_pair_array:
  assumes "exact A l" "exact B r" "op = Bit_and \<or> op = Bit_andnot" "holds_array l" "\<not> holds_array r"
  shows "\<exists>result. combine_pair eager garbage retired op mutate_left l r = Some result \<and> outcome_ok (set_op op A B) result"
proof (cases "holds_bitset r")
  case True
  note f = one_form(1) [OF assms(4)] one_form(2) [OF True]
  show ?thesis unfolding combine_pair_def
    using True f assms(3,4) refiltered_bits_ok [OF assms(1,4,2) True assms(3)] array_bitset_aside_ok [OF assms(1,4,2) True assms(3)] by auto
next
  case False
  then have r: "holds_run r" using assms(5) one_form(4) by blast
  note f = one_form(1) [OF assms(4)] one_form(3) [OF r]
  have x: "op \<noteq> Bit_xor" using assms(3) by auto
  show ?thesis unfolding combine_pair_def
    using r f assms(3,4) refiltered_ok [OF assms(1,4,2) r assms(3)] array_run_aside_ok [OF assms(1,4,2) r]
      combined_ok [OF assms(1,2) x, of eager garbage] by (auto simp: set_op_def)
qed

lemma combine_pair_bitset:
  assumes "exact A l" "exact B r" "op = Bit_and \<or> op = Bit_andnot" "holds_bitset l" "\<not> holds_bitset r"
  shows "\<exists>result. combine_pair eager garbage retired op mutate_left l r = Some result \<and> outcome_ok (set_op op A B) result"
proof (cases "holds_array r")
  case True
  note f = one_form(2) [OF assms(4)] one_form(1) [OF True]
  have x: "op \<noteq> Bit_xor" using assms(3) by auto
  show ?thesis unfolding combine_pair_def
    using True f assms(3,4) array_bitset_aside_ok [OF assms(2) True assms(1,4), of Bit_and] subtracted_ok [OF assms(1,4,2) True]
      combined_ok [OF assms(1,2) x, of eager garbage] by (auto simp: set_op_def Int_commute)
next
  case False
  then have r: "holds_run r" using assms(5) one_form(4) by blast
  note f = one_form(2) [OF assms(4)] one_form(3) [OF r]
  have x: "op \<noteq> Bit_xor" using assms(3) by auto
  show ?thesis unfolding combine_pair_def
    using r f assms(3,4) covered_ok [OF assms(2) r assms(1,4), of garbage] combined_ok [OF assms(1,2) x, of eager garbage]
    by (auto simp: set_op_def Int_commute)
qed

lemma combine_pair_run:
  assumes "exact A l" "exact B r" "op = Bit_and \<or> op = Bit_andnot" "holds_run l" "\<not> holds_run r"
  shows "\<exists>result. combine_pair eager garbage retired op mutate_left l r = Some result \<and> outcome_ok (set_op op A B) result"
proof (cases "holds_array r")
  case True
  note f = one_form(3) [OF assms(4)] one_form(1) [OF True]
  have x: "op \<noteq> Bit_xor" using assms(3) by auto
  show ?thesis unfolding combine_pair_def
    using True f assms(3,4) array_run_aside_ok [OF assms(2) True assms(1,4)] combined_ok [OF assms(1,2) x, of eager garbage]
    by (auto simp: set_op_def Int_commute)
next
  case False
  then have r: "holds_bitset r" using assms(5) one_form(4) by blast
  note f = one_form(3) [OF assms(4)] one_form(2) [OF r]
  have x: "op \<noteq> Bit_xor" using assms(3) by auto
  show ?thesis unfolding combine_pair_def
    using r f assms(3,4) covered_ok [OF assms(1,4,2) r, of garbage] combined_ok [OF assms(1,2) x, of eager garbage]
    by (auto simp: set_op_def)
qed

lemma combine_pair_ok:
  assumes "exact A l" "exact B r" "op = Bit_and \<or> op = Bit_andnot"
  shows "\<exists>result. combine_pair eager garbage retired op mutate_left l r = Some result \<and> outcome_ok (set_op op A B) result"
  using combine_pair_same_form [OF assms] combine_pair_array [OF assms] combine_pair_bitset [OF assms] combine_pair_run [OF assms]
    one_form(4) [of l] by blast

end
