(* ===== verification/Set_Walks.thy ===== *)
theory Set_Walks
  imports Set_Pairs_Exact Unsorted_Sets
begin

text \<open>
  The walks of the set operations over the two chunk tables of two distinct bitmaps (\<open>bitmap_definitions.hpp\<close>): aside into
  a scratch bitmap, or into the left bitmap. A table is walked as the list of the entries its cursor has not reached. What
  the walk cannot know is a parameter per chunk: \<open>garbage\<close> is the memory a fresh payload starts from, \<open>unshared\<close> says
  that the left slot is the only holder of its payload, \<open>retired\<close> is the room of the parked array on offer and
  \<open>pool_capacity\<close> the room of the pool that a cleared scratch table is swapped with.
\<close>

type_synonym slots = "(16 word \<times> container) list"
type_synonym pairing = "16 word \<Rightarrow> container \<Rightarrow> container \<Rightarrow> container option"

definition bitmap_slots :: "bitmap \<Rightarrow> slots" where
  "bitmap_slots b = entries (chunks b)"

fun bitmap_intersects_walk :: "slots \<Rightarrow> slots \<Rightarrow> bool" where
  "bitmap_intersects_walk ((left_key, l) # ls) ((right_key, r) # rs) =
    (if left_key < right_key then bitmap_intersects_walk ls ((right_key, r) # rs)
     else if right_key < left_key then bitmap_intersects_walk ((left_key, l) # ls) rs
     else if container_intersects l r then True
     else bitmap_intersects_walk ls rs)"
| "bitmap_intersects_walk _ _ = False"

definition bitmap_intersects :: "bitmap \<Rightarrow> bitmap \<Rightarrow> bool" where
  "bitmap_intersects b other = bitmap_intersects_walk (bitmap_slots b) (bitmap_slots other)"

subsection \<open>Aside\<close>

definition clear_keep_capacity :: "nat \<Rightarrow> bitmap \<Rightarrow> bitmap" where
  "clear_keep_capacity pool_capacity b =
    (let t = chunks b
     in b\<lparr>chunks := advance ((if table_size t \<noteq> 0 then relocate pool_capacity t else t)\<lparr>entries := []\<rparr>),
          total_size := 0\<rparr>)"

definition push_counted :: "16 word \<Rightarrow> container \<Rightarrow> bitmap \<Rightarrow> bitmap" where
  "push_counted key h scratch = scratch\<lparr>chunks := chunk_push_back key h (chunks scratch), total_size := total_size scratch + container_size h\<rparr>"

definition push_alone :: "16 word \<Rightarrow> container \<Rightarrow> bitmap \<Rightarrow> bitmap" where
  "push_alone key h scratch = (if container_size h \<noteq> 0 then push_counted key h scratch else scratch)"

definition push_rest :: "slots \<Rightarrow> bitmap \<Rightarrow> bitmap" where
  "push_rest = fold (\<lambda>(key, h). push_alone key h)"

text \<open>The union pushes what it made of a shared chunk unseen, the exclusive-or tests it (\<open>checked\<close>).\<close>

fun both_walk :: "bool \<Rightarrow> pairing \<Rightarrow> slots \<Rightarrow> slots \<Rightarrow> bitmap \<Rightarrow> bitmap option" where
  "both_walk checked pair ((left_key, l) # ls) ((right_key, r) # rs) scratch =
    (if left_key < right_key then both_walk checked pair ls ((right_key, r) # rs) (push_alone left_key l scratch)
     else if right_key < left_key then both_walk checked pair ((left_key, l) # ls) rs (push_alone right_key r scratch)
     else case pair left_key l r of None \<Rightarrow> None
       | Some h \<Rightarrow> both_walk checked pair ls rs (if checked then push_alone left_key h scratch else push_counted left_key h scratch))"
| "both_walk checked pair ls rs scratch = Some (push_rest rs (push_rest ls scratch))"

definition with_room :: "nat \<Rightarrow> bitmap \<Rightarrow> bitmap" where
  "with_room count b = b\<lparr>chunks := chunk_reserve count (chunks b)\<rparr>"

definition union_into :: "bool \<Rightarrow> (16 word \<Rightarrow> nat \<Rightarrow> word64) \<Rightarrow> nat \<Rightarrow> bitmap \<Rightarrow> bitmap \<Rightarrow> bitmap \<Rightarrow> bitmap option" where
  "union_into eager garbage pool_capacity b other scratch =
    both_walk False (\<lambda>key. union_pair eager (garbage key)) (bitmap_slots b) (bitmap_slots other)
      (with_room (table_size (chunks b) + table_size (chunks other)) (clear_keep_capacity pool_capacity scratch))"

definition xor_into :: "(16 word \<Rightarrow> nat \<Rightarrow> word64) \<Rightarrow> nat \<Rightarrow> bitmap \<Rightarrow> bitmap \<Rightarrow> bitmap \<Rightarrow> bitmap option" where
  "xor_into garbage pool_capacity b other scratch =
    both_walk True (\<lambda>key l r. Some (xor_pair (garbage key) l r)) (bitmap_slots b) (bitmap_slots other)
      (with_room (table_size (chunks b) + table_size (chunks other)) (clear_keep_capacity pool_capacity scratch))"

fun difference_walk :: "pairing \<Rightarrow> slots \<Rightarrow> slots \<Rightarrow> bitmap \<Rightarrow> bitmap option" where
  "difference_walk pair [] rs scratch = Some scratch"
| "difference_walk pair ((left_key, l) # ls) rs scratch =
    (let rs = dropWhile (\<lambda>(key, _). key < left_key) rs
     in if rs = [] \<or> left_key < fst (hd rs) then difference_walk pair ls rs (push_alone left_key l scratch)
        else case pair left_key l (snd (hd rs)) of None \<Rightarrow> None
          | Some h \<Rightarrow> difference_walk pair ls rs (push_alone left_key h scratch))"

definition difference_into :: "bool \<Rightarrow> (16 word \<Rightarrow> nat \<Rightarrow> word64) \<Rightarrow> nat \<Rightarrow> bitmap \<Rightarrow> bitmap \<Rightarrow> bitmap \<Rightarrow> bitmap option" where
  "difference_into eager garbage pool_capacity b other scratch =
    difference_walk (\<lambda>key. difference_pair eager (garbage key)) (bitmap_slots b) (bitmap_slots other)
      (with_room (table_size (chunks b)) (clear_keep_capacity pool_capacity scratch))"

subsection \<open>\<open>combine\<close>\<close>

type_synonym combining = "16 word \<Rightarrow> container \<Rightarrow> container \<Rightarrow> outcome option"

text \<open>Into a bitmap aside: only the intersection is taken so, and an unmatched left chunk is dropped.\<close>

fun combine_aside_walk :: "combining \<Rightarrow> slots \<Rightarrow> slots \<Rightarrow> bitmap \<Rightarrow> bitmap option" where
  "combine_aside_walk arm [] rs out = Some out"
| "combine_aside_walk arm ((left_key, l) # ls) rs out =
    (let rs = dropWhile (\<lambda>(key, _). key < left_key) rs
     in if rs = [] then Some out
        else if left_key < fst (hd rs) then combine_aside_walk arm ls rs out
        else case arm left_key l (snd (hd rs)) of None \<Rightarrow> None
          | Some result \<Rightarrow> combine_aside_walk arm ls rs
              (case result of Dropped \<Rightarrow> out | Kept h \<Rightarrow> push_counted left_key h out | Emitted h \<Rightarrow> push_counted left_key h out))"

definition intersect_into ::
  "bool \<Rightarrow> (16 word \<Rightarrow> nat \<Rightarrow> word64) \<Rightarrow> (16 word \<Rightarrow> nat) \<Rightarrow> nat \<Rightarrow> bitmap \<Rightarrow> bitmap \<Rightarrow> bitmap \<Rightarrow> bitmap option" where
  "intersect_into eager garbage retired pool_capacity b other scratch =
    combine_aside_walk (\<lambda>key. combine_pair eager (garbage key) (retired key) Bit_and False) (bitmap_slots b) (bitmap_slots other)
      (with_room (min (table_size (chunks b)) (table_size (chunks other))) (clear_keep_capacity pool_capacity scratch))"

text \<open>Into the left table, which is rewritten behind the walk: the count, and how many entries of the table are written.\<close>

lemma rewritten_length [simp]: "length (snd (rewrite_keep from s)) = length (snd s)" "length (snd (rewrite_put key h s)) = length (snd s)"
  by (simp_all add: rewrite_keep_def rewrite_put_def split: prod.split)

function combine_in_place_walk ::
  "bool \<Rightarrow> combining \<Rightarrow> nat \<Rightarrow> slots \<Rightarrow> nat \<Rightarrow> nat \<times> slots \<Rightarrow> (nat \<times> nat \<times> slots) option" where
  "combine_in_place_walk keep_unmatched_left arm left rs tally (write_i, table) =
    (if left < length table then
       let (left_key, l) = table ! left; rs = dropWhile (\<lambda>(key, _). key < left_key) rs
       in if rs = [] \<or> left_key < fst (hd rs) then
            (if \<not> keep_unmatched_left then
               (if rs = [] then Some (tally, write_i, table)
                else combine_in_place_walk keep_unmatched_left arm (left + 1) rs tally (write_i, table))
             else combine_in_place_walk keep_unmatched_left arm (left + 1) rs (tally + container_size l) (rewrite_keep left (write_i, table)))
          else case arm left_key l (snd (hd rs)) of None \<Rightarrow> None
            | Some Dropped \<Rightarrow> combine_in_place_walk keep_unmatched_left arm (left + 1) rs tally (write_i, table)
            | Some (Kept h) \<Rightarrow> combine_in_place_walk keep_unmatched_left arm (left + 1) rs (tally + container_size h)
                (rewrite_keep left (write_i, table[left := (left_key, h)]))
            | Some (Emitted h) \<Rightarrow> combine_in_place_walk keep_unmatched_left arm (left + 1) rs (tally + container_size h)
                (rewrite_put left_key h (write_i, table))
     else Some (tally, write_i, table))"
  by pat_completeness auto
termination by (relation "measure (\<lambda>(_, _, left, _, _, s). length (snd s) - left)") auto

declare combine_in_place_walk.simps [simp del]

definition combine_in_place ::
  "bool \<Rightarrow> (16 word \<Rightarrow> nat \<Rightarrow> word64) \<Rightarrow> (16 word \<Rightarrow> nat) \<Rightarrow> (16 word \<Rightarrow> bool) \<Rightarrow> set_operation \<Rightarrow> bitmap \<Rightarrow> bitmap \<Rightarrow> bitmap option" where
  "combine_in_place eager garbage retired unshared op b other =
    map_option (\<lambda>(tally, s). b\<lparr>chunks := rewrite_finish s (chunks b), total_size := tally\<rparr>)
      (combine_in_place_walk (op = Bit_andnot) (\<lambda>key. combine_pair eager (garbage key) (retired key) op (unshared key))
        0 (bitmap_slots other) 0 (0, bitmap_slots b))"

end
