(* ===== verification/Set_Merges.thy ===== *)
theory Set_Merges
  imports Set_Walks
begin

text \<open>
  The set operations that grow the left bitmap (\<open>bitmap_definitions.hpp\<close>): the union of a bitmap with far fewer chunks, the
  merge of the union and of the exclusive-or, which rebuilds the table from the first key that is new or cancelled, the
  operators over them, and the lazy fold of a union, which leaves the counts to be repaired.
\<close>

text \<open>The slots of shared keys change in place until a key comes up that only the other table has (or, \<open>checked\<close>, until a slot is
  emptied). The result is the entries walked over, the rest of both tables, the count, and whether a slot was emptied.\<close>

fun merge_prefix :: "bool \<Rightarrow> pairing \<Rightarrow> slots \<Rightarrow> slots \<Rightarrow> nat \<Rightarrow> (slots \<times> slots \<times> slots \<times> nat \<times> bool) option" where
  "merge_prefix checked pair ((left_key, l) # ls) ((right_key, r) # rs) count =
    (if left_key < right_key then
       map_option (\<lambda>(walked, rest). ((left_key, l) # walked, rest)) (merge_prefix checked pair ls ((right_key, r) # rs) count)
     else if right_key < left_key then Some ([], (left_key, l) # ls, (right_key, r) # rs, count, False)
     else case pair left_key l r of None \<Rightarrow> None
       | Some h \<Rightarrow> (let count = count - container_size l + container_size h
           in if checked \<and> container_size h = 0 then Some ([], (left_key, h) # ls, rs, count, True)
              else map_option (\<lambda>(walked, rest). ((left_key, h) # walked, rest)) (merge_prefix checked pair ls rs count)))"
| "merge_prefix checked pair ls rs count = Some ([], ls, rs, count, False)"

definition keep_left :: "bool \<Rightarrow> 16 word \<Rightarrow> container \<Rightarrow> 16 word chunk_store \<Rightarrow> 16 word chunk_store" where
  "keep_left checked key h rebuilt = (if \<not> checked \<or> container_size h \<noteq> 0 then chunk_push_back key h rebuilt else rebuilt)"

definition take_right :: "16 word \<Rightarrow> container \<Rightarrow> 16 word chunk_store \<times> nat \<Rightarrow> 16 word chunk_store \<times> nat" where
  "take_right key r s = (case s of (rebuilt, count) \<Rightarrow>
    if container_size r \<noteq> 0 then (chunk_push_back key r rebuilt, count + container_size r) else (rebuilt, count))"

fun merge_rest :: "bool \<Rightarrow> pairing \<Rightarrow> slots \<Rightarrow> slots \<Rightarrow> 16 word chunk_store \<times> nat \<Rightarrow> (16 word chunk_store \<times> nat) option" where
  "merge_rest checked pair ((left_key, l) # ls) ((right_key, r) # rs) (rebuilt, count) =
    (if left_key < right_key then merge_rest checked pair ls ((right_key, r) # rs) (keep_left checked left_key l rebuilt, count)
     else if right_key < left_key then merge_rest checked pair ((left_key, l) # ls) rs (take_right right_key r (rebuilt, count))
     else case pair left_key l r of None \<Rightarrow> None
       | Some h \<Rightarrow> merge_rest checked pair ls rs (keep_left checked left_key h rebuilt, count - container_size l + container_size h))"
| "merge_rest checked pair ls rs (rebuilt, count) =
    Some (fold (\<lambda>(key, r). take_right key r) rs (fold (\<lambda>(key, l). keep_left checked key l) ls rebuilt, count))"

text \<open>\<open>chunks_ = std::move( merged )\<close>: the generation stays this table's and advances.\<close>

definition adopt_table :: "16 word chunk_store \<Rightarrow> 16 word chunk_store \<Rightarrow> 16 word chunk_store" where
  "adopt_table rebuilt t = advance (rebuilt\<lparr>generation := generation t, slots_block := slots_block t + 1\<rparr>)"

definition merge_tables :: "bool \<Rightarrow> pairing \<Rightarrow> bitmap \<Rightarrow> bitmap \<Rightarrow> bitmap option" where
  "merge_tables checked pair b other =
    (case merge_prefix checked pair (bitmap_slots b) (bitmap_slots other) (total_size b) of None \<Rightarrow> None
     | Some (walked, ls, rs, count, cancelled) \<Rightarrow>
         if rs = [] \<and> \<not> cancelled then Some (b\<lparr>chunks := (chunks b)\<lparr>entries := walked @ ls\<rparr>, total_size := count\<rparr>)
         else let rebuilt = chunk_reserve (table_size (chunks b) + table_size (chunks other)) empty_store
              in map_option (\<lambda>(rebuilt, count). b\<lparr>chunks := adopt_table rebuilt (chunks b), total_size := count\<rparr>)
                   (merge_rest checked pair ls rs (fold (\<lambda>(key, h). chunk_push_back key h) walked rebuilt, count)))"

subsection \<open>The union\<close>

text \<open>The keys of the other bitmap are searched from where the last was found; the absent ones are counted.\<close>

fun union_few_walk :: "pairing \<Rightarrow> slots \<Rightarrow> nat \<times> nat \<times> nat \<times> bitmap \<Rightarrow> (nat \<times> nat \<times> bitmap) option" where
  "union_few_walk pair [] (at, added, added_size, b) = Some (added, added_size, b)"
| "union_few_walk pair ((key, r) # rs) (at, added, added_size, b) =
    (let at = lower_bound_from (keys_of (chunks b)) key at
     in if at = table_size (chunks b) \<or> key_at (chunks b) at \<noteq> key then
          union_few_walk pair rs
            (if container_size r \<noteq> 0 then (at, added + 1, added_size + container_size r, b) else (at, added, added_size, b))
        else case pair key (slot_at (chunks b) at) r of None \<Rightarrow> None
          | Some h \<Rightarrow> union_few_walk pair rs (at, added, added_size,
              b\<lparr>chunks := set_slot at h (chunks b), total_size := total_size b - container_size (slot_at (chunks b) at) + container_size h\<rparr>))"

definition union_few :: "pairing \<Rightarrow> bitmap \<Rightarrow> bitmap \<Rightarrow> bitmap option" where
  "union_few pair b other =
    (case union_few_walk pair (bitmap_slots other) (0, 0, 0, b) of None \<Rightarrow> None
     | Some (added, added_size, b) \<Rightarrow>
         Some (if added \<noteq> 0 then b\<lparr>chunks := insert_absent_from (bitmap_slots other) added (\<lambda>h. container_size h \<noteq> 0) (chunks b),
                                   total_size := total_size b + added_size\<rparr>
               else b))"

definition union_merge :: "bool \<Rightarrow> (16 word \<Rightarrow> nat \<Rightarrow> word64) \<Rightarrow> (16 word \<Rightarrow> bool) \<Rightarrow> bitmap \<Rightarrow> bitmap \<Rightarrow> bitmap option" where
  "union_merge eager garbage unshared b other =
    (let pair = \<lambda>key. union_same_key eager (garbage key) False (unshared key)
     in if table_size (chunks other) * 8 < table_size (chunks b) then union_few pair b other else merge_tables False pair b other)"

subsection \<open>The exclusive-or\<close>

definition xor_merge :: "(16 word \<Rightarrow> nat \<Rightarrow> word64) \<Rightarrow> (16 word \<Rightarrow> bool) \<Rightarrow> bitmap \<Rightarrow> bitmap \<Rightarrow> bitmap option" where
  "xor_merge garbage unshared b other =
    (if bitmap_slots other = [] then Some b
     else if bitmap_slots b = [] then
       Some (b\<lparr>chunks := \<lparr>entries = bitmap_slots other, table_capacity = table_size (chunks other), generation = generation (chunks b) + 1,
                          slots_block = slots_block (chunks b) + 1\<rparr>,
               total_size := total_size other\<rparr>)
     else merge_tables True (\<lambda>key l r. Some (xor_same_key (garbage key) (unshared key) l r)) b other)"

subsection \<open>The lazy fold of a union\<close>

definition lazy_union_array_bound :: nat where
  "lazy_union_array_bound = 64"

definition lazy_union_slot :: "bool \<Rightarrow> (nat \<Rightarrow> word64) \<Rightarrow> container \<Rightarrow> container \<Rightarrow> container option" where
  "lazy_union_slot eager garbage l r =
    (if container_is_known_full l then Some l
     else if holds_array l \<and> holds_array r \<and> length (array_values l) + length (array_values r) \<le> lazy_union_array_bound then
       Some (array_sync_header (set_array_values
         (union_array_array_inplace False (fresh_values garbage (length (array_values r))) (array_values l) (array_values r)) l))
     else if holds_bitset l \<and> holds_bitset r then Some (or_bitset_bitset_inplace_bulk l (bitset_words r))
     else if (holds_bitset l \<or> holds_array l) \<and> (holds_bitset r \<or> holds_array r) then
       (let l = (if \<not> holds_bitset l then bitset_handle_from_sorted_values (array_values l) make_array else l)
        in Some (if holds_bitset r then or_bitset_bitset_inplace_bulk l (bitset_words r)
                 else or_array_into_bitset_inplace True l (array_values r)))
     else combine_containers_for_policy eager garbage (settle_cardinality l) r Bit_or)"

definition append_filled :: "slots \<Rightarrow> 16 word chunk_store \<Rightarrow> 16 word chunk_store" where
  "append_filled = fold (\<lambda>(key, r) t. if container_size r \<noteq> 0 then chunk_push_back key r t else t)"

lemma inserted_size [simp]: "at < table_size t \<Longrightarrow> table_size (chunk_insert at key h t) = Suc (table_size t)"
  by (simp add: chunk_insert_def table_size_def advance_def)

function lazy_union_walk :: "pairing \<Rightarrow> nat \<Rightarrow> slots \<Rightarrow> 16 word chunk_store \<Rightarrow> 16 word chunk_store option" where
  "lazy_union_walk pair at rs t =
    (if rs = [] \<or> at \<ge> table_size t then Some (append_filled rs t)
     else let left_key = key_at t at; (right_key, r) = hd rs
       in if left_key < right_key then lazy_union_walk pair (at + 1) rs t
          else if right_key < left_key then
            (if container_size r \<noteq> 0 then lazy_union_walk pair (at + 1) (tl rs) (chunk_insert at right_key r t)
             else lazy_union_walk pair at (tl rs) t)
          else case pair left_key (slot_at t at) r of None \<Rightarrow> None
            | Some h \<Rightarrow> lazy_union_walk pair (at + 1) (tl rs) (set_slot at h t))"
  by pat_completeness auto
termination by (relation "measure (\<lambda>(_, at, rs, t). (table_size t - at) + length rs)") (auto simp: neq_Nil_conv)

declare lazy_union_walk.simps [simp del]

definition bulk_or_inplace :: "bool \<Rightarrow> (16 word \<Rightarrow> nat \<Rightarrow> word64) \<Rightarrow> bitmap \<Rightarrow> bitmap \<Rightarrow> bitmap option" where
  "bulk_or_inplace eager garbage b other =
    map_option (\<lambda>t. b\<lparr>chunks := t, total_size := size_deferred\<rparr>)
      (lazy_union_walk (\<lambda>key. lazy_union_slot eager (garbage key)) 0 (bitmap_slots other) (chunks b))"

subsection \<open>The operators\<close>

definition or_assign :: "bool \<Rightarrow> (16 word \<Rightarrow> nat \<Rightarrow> word64) \<Rightarrow> (16 word \<Rightarrow> bool) \<Rightarrow> bitmap \<Rightarrow> bitmap \<Rightarrow> bitmap option" where
  "or_assign eager garbage unshared b other = union_merge eager garbage unshared (settle_counts b) other"

definition xor_assign :: "(16 word \<Rightarrow> nat \<Rightarrow> word64) \<Rightarrow> (16 word \<Rightarrow> bool) \<Rightarrow> bitmap \<Rightarrow> bitmap \<Rightarrow> bitmap option" where
  "xor_assign garbage unshared b other = xor_merge garbage unshared (settle_counts b) other"

definition and_assign ::
  "bool \<Rightarrow> (16 word \<Rightarrow> nat \<Rightarrow> word64) \<Rightarrow> (16 word \<Rightarrow> nat) \<Rightarrow> (16 word \<Rightarrow> bool) \<Rightarrow> bitmap \<Rightarrow> bitmap \<Rightarrow> bitmap option" where
  "and_assign eager garbage retired unshared b other = combine_in_place eager garbage retired unshared Bit_and (settle_counts b) other"

definition andnot_assign ::
  "bool \<Rightarrow> (16 word \<Rightarrow> nat \<Rightarrow> word64) \<Rightarrow> (16 word \<Rightarrow> nat) \<Rightarrow> (16 word \<Rightarrow> bool) \<Rightarrow> bitmap \<Rightarrow> bitmap \<Rightarrow> bitmap option" where
  "andnot_assign eager garbage retired unshared b other = combine_in_place eager garbage retired unshared Bit_andnot (settle_counts b) other"

end
