(* ===== verification/Walk_Sets.thy ===== *)
theory Walk_Sets
  imports Set_Merges
begin

text \<open>
  What a walk over two chunk tables leaves, as the list of the entries it writes: a reference for the walks that keep every
  key of either table (\<open>both_entries\<close>) and for those that keep keys of the left one only (\<open>left_entries\<close>). Given what
  happens to the two slots of a shared chunk, the values of each chunk of the result are the set operation of its values in
  the operands.
\<close>

definition chosen :: "nat set \<Rightarrow> container list \<Rightarrow> bool" where
  "chosen T hs \<longleftrightarrow> (if T = {} then hs = [] else \<exists>h. hs = [h] \<and> exact T h)"

fun left_entries :: "bool \<Rightarrow> ('k::linorder \<Rightarrow> container \<Rightarrow> container \<Rightarrow> container list option) \<Rightarrow> ('k \<times> container) list \<Rightarrow> ('k \<times> container) list
    \<Rightarrow> ('k \<times> container) list option" where
  "left_entries keep both [] rs = Some []"
| "left_entries keep both ((k, l) # ls) rs =
    (let rs = dropWhile (\<lambda>(key, _). key < k) rs
     in if rs = [] \<or> k < fst (hd rs) then map_option (\<lambda>es. (if keep then [(k, l)] else []) @ es) (left_entries keep both ls rs)
        else case both k l (snd (hd rs)) of None \<Rightarrow> None
          | Some hs \<Rightarrow> map_option (\<lambda>es. map (Pair k) hs @ es) (left_entries keep both ls rs))"

fun both_entries :: "bool \<Rightarrow> ('k::linorder \<Rightarrow> container \<Rightarrow> container \<Rightarrow> container option) \<Rightarrow> ('k \<times> container) list \<Rightarrow> ('k \<times> container) list
    \<Rightarrow> ('k \<times> container) list option" where
  "both_entries checked pair ((k, l) # ls) ((k', r) # rs) =
    (if k < k' then map_option ((@) (if checked \<and> container_size l = 0 then [] else [(k, l)])) (both_entries checked pair ls ((k', r) # rs))
     else if k' < k then map_option ((#) (k', r)) (both_entries checked pair ((k, l) # ls) rs)
     else case pair k l r of None \<Rightarrow> None
       | Some h \<Rightarrow> map_option ((@) (if checked \<and> container_size h = 0 then [] else [(k, h)])) (both_entries checked pair ls rs))"
| "both_entries checked pair ls rs = Some (filter (\<lambda>(_, l). \<not> (checked \<and> container_size l = 0)) ls @ rs)"

subsection \<open>Tables of a walk\<close>

definition joined :: "(nat set \<Rightarrow> nat set \<Rightarrow> nat set) \<Rightarrow> ('k::linorder \<times> container) list \<Rightarrow> ('k \<times> container) list \<Rightarrow> ('k \<times> container) list \<Rightarrow> bool" where
  "joined op ls rs es \<longleftrightarrow> table_ok es \<and> (\<forall>c. chunk_values es c = op (chunk_values ls c) (chunk_values rs c))"

lemma table_keys: "table_ok es \<Longrightarrow> c \<in> fst ` set es \<longleftrightarrow> chunk_values es c \<noteq> {}"
  using chunk_values_empty by blast

lemma chosen_table:
  assumes "chosen T hs" "table_ok es" "\<forall>c. chunk_values es c \<noteq> {} \<longrightarrow> k < c"
  shows "table_ok (map (Pair k) hs @ es)" "chunk_values (map (Pair k) hs @ es) c = (if c = k then T else chunk_values es c)"
proof -
  have k: "\<forall>c\<in>fst ` set es. k < c" using assms(2,3) table_keys by blast
  then have "k \<notin> fst ` set es" by blast
  then have "chunk_values es k = {}" by (rule chunk_values_none)
  moreover have "T = {} \<and> hs = [] \<or> (\<exists>h. hs = [h] \<and> slot_ok h \<and> values_of h = T)"
    using assms(1) slot_ok_of_exact [of T] slot_of_exact [of T] by (auto simp: chosen_def split: if_splits)
  ultimately show "table_ok (map (Pair k) hs @ es)" "chunk_values (map (Pair k) hs @ es) c = (if c = k then T else chunk_values es c)"
    using assms(2) k by (auto simp: table_ok_Cons chunk_values_Cons)
qed

lemma chosen_slot: "slot_ok h \<Longrightarrow> chosen (values_of h) [h]"
  by (simp add: chosen_def slot_ok_exact)

lemma below_table: "table_ok ((k, l) # ls) \<Longrightarrow> chunk_values ls c \<noteq> {} \<Longrightarrow> k < c"
  using table_keys [of ls c] by (auto simp: table_ok_Cons)

lemma drop_below:
  assumes "table_ok (rs :: ('k::linorder \<times> container) list)"
  shows "table_ok (dropWhile (\<lambda>(key, _). key < k) rs)" "k \<le> c \<Longrightarrow> chunk_values (dropWhile (\<lambda>(key, _). key < k) rs) c = chunk_values rs c"
proof -
  have "table_ok (dropWhile (\<lambda>(key, _). key < k) rs) \<and>
    (k \<le> c \<longrightarrow> chunk_values (dropWhile (\<lambda>(key, _). key < k) rs) c = chunk_values rs c)"
    using assms
  proof (induction rs)
    case (Cons slot rs)
    obtain a h where s: "slot = (a, h)" by (cases slot)
    show ?case using Cons by (auto simp: s table_ok_Cons chunk_values_Cons)
  qed simp
  then show "table_ok (dropWhile (\<lambda>(key, _). key < k) rs)" "k \<le> c \<Longrightarrow> chunk_values (dropWhile (\<lambda>(key, _). key < k) rs) c = chunk_values rs c"
    by blast+
qed

lemma drop_below_head: "dropWhile (\<lambda>(key, _). key < k) rs = (k', r) # rs' \<Longrightarrow> \<not> k' < (k :: 'k::linorder)"
  by (induction rs) (auto split: if_splits)

lemma head_above: "table_ok ds \<Longrightarrow> ds = [] \<or> k < fst (hd ds) \<Longrightarrow> k \<notin> fst ` set ds"
  by (cases ds) (force simp: table_ok_Cons)+

subsection \<open>Walks that keep left keys only\<close>

locale left_table_walk =
  fixes keep :: bool
    and both :: "'k::linorder \<Rightarrow> container \<Rightarrow> container \<Rightarrow> container list option"
    and op :: "nat set \<Rightarrow> nat set \<Rightarrow> nat set"
  assumes pair: "exact A l \<Longrightarrow> exact B r \<Longrightarrow> A \<noteq> {} \<Longrightarrow> B \<noteq> {} \<Longrightarrow> \<exists>hs. both k l r = Some hs \<and> chosen (op A B) hs"
    and alone: "op A {} = (if keep then A else {})"
    and none: "op {} B = {}"
begin

lemma left_step:
  assumes "table_ok ((k, l) # ls)" "table_ok rs" "joined op ls (dropWhile (\<lambda>(key, _). key < k) rs) es"
    "chosen (op (values_of l) (chunk_values rs k)) hs"
  shows "joined op ((k, l) # ls) rs (map (Pair k) hs @ es)"
proof -
  have es: "table_ok es" "chunk_values es c = op (chunk_values ls c) (chunk_values (dropWhile (\<lambda>(key, _). key < k) rs) c)" for c
    using assms(3) by (simp_all add: joined_def)
  have above: "\<forall>c. chunk_values es c \<noteq> {} \<longrightarrow> k < c" using es(2) below_table [OF assms(1)] none by metis
  have "chunk_values es c = op (chunk_values ls c) (chunk_values rs c)" if "c \<noteq> k" for c
  proof (cases "k < c")
    case True
    then show ?thesis using es(2) drop_below(2) [OF assms(2), of k c] by simp
  next
    case False
    then have "chunk_values ls c = {}" using below_table [OF assms(1), of c] by blast
    then show ?thesis using es(2) none by simp
  qed
  then show ?thesis using chosen_table [OF assms(4) es(1) above] by (simp add: joined_def chunk_values_Cons)
qed

lemma left_entries_joined:
  assumes "table_ok ls" "table_ok rs"
  shows "\<exists>es. left_entries keep both ls rs = Some es \<and> joined op ls rs es"
  using assms
proof (induction ls arbitrary: rs)
  case Nil
  then show ?case using none by (simp add: joined_def)
next
  case (Cons slot ls)
  obtain k l where s: "slot = (k, l)" by (cases slot)
  let ?rs = "dropWhile (\<lambda>(key, _). key < k) rs"
  have ok: "table_ok ((k, l) # ls)" "slot_ok l" "table_ok ls" using Cons.prems(1) by (simp_all add: s table_ok_Cons)
  note d = drop_below [OF Cons.prems(2), of k]
  from Cons.IH [OF ok(3) d(1)] obtain es where es: "left_entries keep both ls ?rs = Some es" "joined op ls ?rs es" by blast
  note step = left_step [OF ok(1) Cons.prems(2) es(2)]
  show ?case
  proof (cases "?rs = [] \<or> k < fst (hd ?rs)")
    case True
    have "chunk_values ?rs k = {}" by (rule chunk_values_none [OF head_above [OF d(1) True]])
    then have "chunk_values rs k = {}" using d(2) [of k] by simp
    then have "chosen (op (values_of l) (chunk_values rs k)) (if keep then [l] else [])"
      using chosen_slot [OF ok(2)] alone [of "values_of l"] by (simp add: chosen_def split: if_splits)
    from step [OF this] show ?thesis using True es(1) by (cases keep) (simp_all add: s)
  next
    case False
    then obtain k' r rs' where r: "?rs = (k', r) # rs'" by (cases ?rs) auto
    then have "k' = k" using False drop_below_head [OF r] by auto
    then have "chunk_values rs k = values_of r" "slot_ok r" using d(1) d(2) [of k] by (simp_all add: r chunk_values_Cons table_ok_Cons)
    then obtain hs where "both k l r = Some hs" "chosen (op (values_of l) (chunk_values rs k)) hs"
      using pair [of "values_of l" l "values_of r" r k] ok(2) by (auto simp: slot_ok_exact)
    then show ?thesis using step False es(1) r by (simp add: s)
  qed
qed

end

subsection \<open>Walks that keep the keys of both tables\<close>

locale both_table_walk =
  fixes checked :: bool
    and pair :: "'k::linorder \<Rightarrow> container \<Rightarrow> container \<Rightarrow> container option"
    and op :: "nat set \<Rightarrow> nat set \<Rightarrow> nat set"
  assumes pair_exact: "exact A l \<Longrightarrow> exact B r \<Longrightarrow> A \<noteq> {} \<Longrightarrow> B \<noteq> {} \<Longrightarrow> \<exists>h. pair k l r = Some h \<and> exact (op A B) h"
    and left_alone: "op A {} = A"
    and right_alone: "op {} B = B"
    and unseen: "\<not> checked \<Longrightarrow> A \<noteq> {} \<Longrightarrow> op A B \<noteq> {}"
begin

lemma step:
  assumes "joined op ls rs es" "\<forall>c. chunk_values ls c \<noteq> {} \<or> chunk_values rs c \<noteq> {} \<longrightarrow> k < c" "chosen T hs"
    "T = op A B" "\<And>c. chunk_values ls' c = (if c = k then A else chunk_values ls c)"
    "\<And>c. chunk_values rs' c = (if c = k then B else chunk_values rs c)"
  shows "joined op ls' rs' (map (Pair k) hs @ es)"
proof -
  have es: "table_ok es" "chunk_values es c = op (chunk_values ls c) (chunk_values rs c)" for c using assms(1) by (simp_all add: joined_def)
  have "\<forall>c. chunk_values es c \<noteq> {} \<longrightarrow> k < c" using assms(2) es(2) left_alone [of "{}"] by metis
  from chosen_table [OF assms(3) es(1) this] show ?thesis by (simp add: joined_def assms(4-6) es(2))
qed

lemma filled_kept: "table_ok ls \<Longrightarrow> filter (\<lambda>(_, l). \<not> (checked \<and> container_size l = 0)) ls = ls"
  by (auto simp: filter_id_conv dest!: table_okD slot_ok_facts(6))

lemma both_entries_joined:
  assumes "table_ok ls" "table_ok rs"
  shows "\<exists>es. both_entries checked pair ls rs = Some es \<and> joined op ls rs es"
  using assms
proof (induction ls arbitrary: rs)
  case Nil
  then show ?case by (simp add: joined_def right_alone)
next
  case (Cons slot ls)
  note outer = Cons.IH
  obtain k l where s: "slot = (k, l)" by (cases slot)
  have ls: "table_ok ((k, l) # ls)" "slot_ok l" "table_ok ls" using Cons.prems(1) by (simp_all add: s table_ok_Cons)
  note below = below_table [OF ls(1)]
  have l: "container_size l \<noteq> 0" using slot_ok_facts(6) [OF ls(2)] by simp
  show ?case using Cons.prems(2)
  proof (induction rs)
    case Nil
    show ?case using filled_kept [OF Cons.prems(1)] Cons.prems(1) by (simp add: joined_def left_alone s)
  next
    case (Cons slot' rs)
    obtain k' r where s': "slot' = (k', r)" by (cases slot')
    have rs: "table_ok ((k', r) # rs)" "slot_ok r" "table_ok rs" using Cons.prems by (simp_all add: s' table_ok_Cons)
    note below' = below_table [OF rs(1)]
    consider "k < k'" | "k' < k" | "k = k'" by (rule linorder_cases)
    then show ?case
    proof cases
      case 1
      obtain es where es: "both_entries checked pair ls ((k', r) # rs) = Some es" "joined op ls ((k', r) # rs) es" using outer [OF ls(3) rs(1)] by blast
      have above: "\<forall>c. chunk_values ls c \<noteq> {} \<or> chunk_values ((k', r) # rs) c \<noteq> {} \<longrightarrow> k < c"
        using 1 below below' less_trans [of k k'] by (simp add: chunk_values_Cons) metis
      then have none: "chunk_values ((k', r) # rs) k = {}" using less_irrefl by blast
      have "joined op ((k, l) # ls) ((k', r) # rs) (map (Pair k) [l] @ es)"
        by (rule step [where A = "values_of l" and B = "{}", OF es(2) above chosen_slot [OF ls(2)] left_alone [symmetric]])
          (simp_all add: none chunk_values_Cons [of k l ls])
      then show ?thesis using 1 es(1) l by (simp add: s s')
    next
      case 2
      obtain es where es: "both_entries checked pair ((k, l) # ls) rs = Some es" "joined op ((k, l) # ls) rs es"
        using Cons.IH [OF rs(3)] s by auto
      have above: "\<forall>c. chunk_values ((k, l) # ls) c \<noteq> {} \<or> chunk_values rs c \<noteq> {} \<longrightarrow> k' < c"
        using 2 below below' less_trans [of k' k] by (simp add: chunk_values_Cons) metis
      then have none: "chunk_values ((k, l) # ls) k' = {}" using less_irrefl by blast
      have "joined op ((k, l) # ls) ((k', r) # rs) (map (Pair k') [r] @ es)"
        by (rule step [where A = "{}" and B = "values_of r", OF es(2) above chosen_slot [OF rs(2)] right_alone [symmetric]])
          (simp_all add: none chunk_values_Cons [of k' r rs])
      then show ?thesis using 2 less_not_sym [OF 2] es(1) by (simp add: s s')
    next
      case 3
      obtain es where es: "both_entries checked pair ls rs = Some es" "joined op ls rs es" using outer [OF ls(3) rs(3)] by blast
      let ?T = "op (values_of l) (values_of r)"
      obtain h where h: "pair k l r = Some h" "exact ?T h" 
        using pair_exact [of "values_of l" l "values_of r" r k] ls(2) rs(2) by (auto simp: slot_ok_exact)
      let ?hs = "if checked \<and> container_size h = 0 then [] else [h]"
      have "chosen ?T ?hs" using exact_none [OF h(2)] h(2) unseen [of "values_of l" "values_of r"] slot_ok_facts(3) [OF ls(2)] by (auto simp: chosen_def)
      moreover have "\<forall>c. chunk_values ls c \<noteq> {} \<or> chunk_values rs c \<noteq> {} \<longrightarrow> k < c" using 3 below below' by blast
      ultimately have "joined op ((k, l) # ls) ((k', r) # rs) (map (Pair k) ?hs @ es)"
        using 3 by (intro step [where A = "values_of l" and B = "values_of r" and T = ?T, OF es(2)]) (simp_all add: chunk_values_Cons)
      then show ?thesis using 3 es(1) h(1) by (auto simp: s s' split: if_splits)
    qed
  qed
qed

end

end
