(* ===== verification/Set_Algebra.thy ===== *)
theory Set_Algebra
  imports Walk_Sets
begin

text \<open>
  The set operations of two bitmaps, aside and into the left one, are the set operations of the keys they hold: every walk
  of the code leaves the entries its reference lists, and the count kept beside the table is their total.
\<close>

subsection \<open>The two slots of a chunk\<close>

definition slot_if_filled :: "container \<Rightarrow> container list" where
  "slot_if_filled h = (if container_size h = 0 then [] else [h])"

definition outcome_slots :: "outcome \<Rightarrow> container list" where
  "outcome_slots result = (case result of Dropped \<Rightarrow> [] | Kept h \<Rightarrow> [h] | Emitted h \<Rightarrow> [h])"

lemma chosen_filled: "exact T h \<Longrightarrow> chosen T (slot_if_filled h)"
  using exact_none [of T h] by (simp add: chosen_def slot_if_filled_def)

lemma chosen_outcome: "outcome_ok T result \<Longrightarrow> chosen T (outcome_slots result)"
  by (auto simp: outcome_ok_def chosen_def outcome_slots_def split: outcome.splits)

interpretation union_aside: both_table_walk False "\<lambda>key. union_pair eager (garbage key)" "(\<union>)"
  for eager :: bool and garbage :: "'k::linorder \<Rightarrow> nat \<Rightarrow> word64"
  by unfold_locales (simp_all add: union_pair_exact)

interpretation union_in_place: both_table_walk False "\<lambda>key. union_same_key eager (garbage key) False (unshared key)" "(\<union>)"
  for eager :: bool and garbage :: "'k::linorder \<Rightarrow> nat \<Rightarrow> word64" and unshared :: "'k \<Rightarrow> bool"
  by unfold_locales (simp_all add: union_same_key_exact)

interpretation xor_aside: both_table_walk True "\<lambda>key l r. Some (xor_pair (garbage key) l r)" sym_diff
  for garbage :: "'k::linorder \<Rightarrow> nat \<Rightarrow> word64"
  by unfold_locales (simp_all add: xor_pair_exact, simp_all add: sym_diff_def)

interpretation xor_in_place: both_table_walk True "\<lambda>key l r. Some (xor_same_key (garbage key) (unshared key) l r)" sym_diff
  for garbage :: "'k::linorder \<Rightarrow> nat \<Rightarrow> word64" and unshared :: "'k \<Rightarrow> bool"
  by unfold_locales (simp_all add: xor_same_key_exact, simp_all add: sym_diff_def)

interpretation difference_aside:
  left_table_walk True "\<lambda>key l r. map_option slot_if_filled (difference_pair eager (garbage key) l r)" "(-)"
  for eager :: bool and garbage :: "'k::linorder \<Rightarrow> nat \<Rightarrow> word64"
proof unfold_locales
  fix A B :: "nat set" and l r key
  assume "exact A l" "exact B r"
  from difference_pair_exact [OF this, of eager "garbage key"]
  show "\<exists>hs. map_option slot_if_filled (difference_pair eager (garbage key) l r) = Some hs \<and> chosen (A - B) hs"
    using chosen_filled by auto
qed simp_all

interpretation combine_and:
  left_table_walk False "\<lambda>key l r. map_option outcome_slots (combine_pair eager (garbage key) (retired key) Bit_and (unshared key) l r)" "(\<inter>)"
  for eager :: bool and garbage :: "'k::linorder \<Rightarrow> nat \<Rightarrow> word64" and retired :: "'k \<Rightarrow> nat" and unshared :: "'k \<Rightarrow> bool"
proof unfold_locales
  fix A B :: "nat set" and l r key
  assume "exact A l" "exact B r"
  from combine_pair_ok [OF this, of Bit_and eager "garbage key" "retired key" "unshared key"]
  show "\<exists>hs. map_option outcome_slots (combine_pair eager (garbage key) (retired key) Bit_and (unshared key) l r) = Some hs \<and> chosen (A \<inter> B) hs"
    using chosen_outcome by (auto simp: set_op_def)
qed simp_all

interpretation combine_andnot:
  left_table_walk True "\<lambda>key l r. map_option outcome_slots (combine_pair eager (garbage key) (retired key) Bit_andnot (unshared key) l r)" "(-)"
  for eager :: bool and garbage :: "'k::linorder \<Rightarrow> nat \<Rightarrow> word64" and retired :: "'k \<Rightarrow> nat" and unshared :: "'k \<Rightarrow> bool"
proof unfold_locales
  fix A B :: "nat set" and l r key
  assume "exact A l" "exact B r"
  from combine_pair_ok [OF this, of Bit_andnot eager "garbage key" "retired key" "unshared key"]
  show "\<exists>hs. map_option outcome_slots (combine_pair eager (garbage key) (retired key) Bit_andnot (unshared key) l r) = Some hs \<and> chosen (A - B) hs"
    using chosen_outcome by (auto simp: set_op_def)
qed simp_all

subsection \<open>Appending\<close>

definition slots_total :: "slots \<Rightarrow> nat" where
  "slots_total es = (\<Sum>(_, h)\<leftarrow>es. container_size h)"

lemma slots_total_simps [simp]:
  "slots_total [] = 0" "slots_total ((k, h) # es) = container_size h + slots_total es" "slots_total (es @ fs) = slots_total es + slots_total fs"
  by (simp_all add: slots_total_def)

definition all_filled :: "slots \<Rightarrow> bool" where
  "all_filled es \<longleftrightarrow> (\<forall>(_, h)\<in>set es. container_size h \<noteq> 0)"

lemma all_filled_simps [simp]: "all_filled []" "all_filled ((k, h) # es) \<longleftrightarrow> container_size h \<noteq> 0 \<and> all_filled es"
  by (simp_all add: all_filled_def)

lemma table_all_filled: "table_ok es \<Longrightarrow> all_filled es"
  by (induction es) (auto simp: table_ok_Cons dest: slot_ok_facts(6))

text \<open>\<open>s'\<close> is \<open>s\<close> with the entries \<open>es\<close> appended and counted.\<close>

definition extended :: "slots \<Rightarrow> bitmap \<Rightarrow> bitmap \<Rightarrow> bool" where
  "extended es s s' \<longleftrightarrow> bitmap_slots s' = bitmap_slots s @ es \<and> total_size s' = total_size s + slots_total es"

lemma extended_push: "extended es (push_counted k h s) s' \<Longrightarrow> extended ((k, h) # es) s s'"
  by (simp add: extended_def push_counted_def bitmap_slots_def)

lemma extended_push_alone: "extended es (push_alone k h s) s' \<Longrightarrow> extended ((if container_size h = 0 then [] else [(k, h)]) @ es) s s'"
  by (auto simp: push_alone_def extended_push split: if_splits)

lemma extended_alone: "container_size h \<noteq> 0 \<Longrightarrow> extended es (push_alone k h s) s' \<Longrightarrow> extended ((k, h) # es) s s'"
  by (simp add: push_alone_def extended_push)

lemma extended_rest: "all_filled es \<Longrightarrow> extended fs (push_rest es s) s' \<Longrightarrow> extended (es @ fs) s s'"
  by (induction es arbitrary: s) (auto simp: push_rest_def intro: extended_alone)

lemma extended_none: "extended [] s s"
  by (simp add: extended_def)

lemma both_walk_entries:
  assumes "all_filled ls" "all_filled rs" "both_entries checked pair ls rs = Some es"
  shows "\<exists>s'. both_walk checked pair ls rs s = Some s' \<and> extended es s s'"
  using assms
proof (induction checked pair ls rs s arbitrary: es rule: both_walk.induct [case_names both rights lefts])
  case (both checked pair k l ls k' r rs s)
  consider "k < k'" | "k' < k" | "k = k'" by (rule linorder_cases)
  then show ?case
  proof cases
    case 1
    then obtain fs where fs: "both_entries checked pair ls ((k', r) # rs) = Some fs" "es = (k, l) # fs" using both.prems by auto
    then show ?thesis using both.IH(1) [OF 1 _ both.prems(2) fs(1)] both.prems(1) 1 by (auto intro: extended_alone)
  next
    case 2
    then obtain fs where fs: "both_entries checked pair ((k, l) # ls) rs = Some fs" "es = (k', r) # fs" using both.prems less_not_sym [OF 2] by auto
    then show ?thesis using both.IH(2) [OF less_not_sym [OF 2] 2 both.prems(1) _ fs(1)] both.prems(2) 2 less_not_sym [OF 2] by (auto intro: extended_alone)
  next
    case 3
    then obtain h fs where h: "pair k l r = Some h" "both_entries checked pair ls rs = Some fs"
      "es = (if checked \<and> container_size h = 0 then [] else [(k, h)]) @ fs" using both.prems(3) by (auto split: option.splits)
    obtain s' where s': "both_walk checked pair ls rs (if checked then push_alone k h s else push_counted k h s) = Some s'"
      "extended fs (if checked then push_alone k h s else push_counted k h s) s'"
      using both.IH(3) [OF _ _ h(1) _ _ h(2)] 3 both.prems(1,2) by auto
    have "extended es s s'" using s'(2) extended_push [of fs k h s s'] extended_push_alone [of fs k h s s'] by (auto simp: h(3) split: if_splits)
    then show ?thesis using 3 s'(1) h(1) by auto
  qed
next
  case (rights checked pair rs s)
  then show ?case using extended_rest [of rs "[]" s] extended_none by (simp add: push_rest_def)
next
  case (lefts checked pair ls s)
  have "filter (\<lambda>(_, l). \<not> (checked \<and> container_size l = 0)) ls = ls" using lefts(1) by (auto simp: filter_id_conv all_filled_def)
  then show ?case using lefts extended_rest [of ls "[]" s] extended_none by (simp add: push_rest_def)
qed

lemma difference_walk_entries:
  assumes "all_filled ls" "left_entries True (\<lambda>k l r. map_option slot_if_filled (pair k l r)) ls rs = Some es"
  shows "\<exists>s'. difference_walk pair ls rs s = Some s' \<and> extended es s s'"
  using assms
proof (induction ls arbitrary: rs s es)
  case (Cons slot ls)
  obtain k l where slot: "slot = (k, l)" by (cases slot)
  let ?rs = "dropWhile (\<lambda>(key, _). key < k) rs"
  show ?case
  proof (cases "?rs = [] \<or> k < fst (hd ?rs)")
    case True
    obtain fs where "left_entries True (\<lambda>k l r. map_option slot_if_filled (pair k l r)) ls ?rs = Some fs" "es = (k, l) # fs"
      using Cons.prems(2) True by (auto simp: slot)
    then show ?thesis using Cons.IH [of ?rs fs "push_alone k l s"] Cons.prems(1) True by (auto simp: slot Let_def intro: extended_alone)
  next
    case False
    obtain h fs where h: "pair k l (snd (hd ?rs)) = Some h"
      "left_entries True (\<lambda>k l r. map_option slot_if_filled (pair k l r)) ls ?rs = Some fs" "es = map (Pair k) (slot_if_filled h) @ fs"
      using Cons.prems(2) False by (auto simp: slot Let_def simp del: dropWhile_eq_Nil_conv split: option.splits)
    obtain s' where s': "difference_walk pair ls ?rs (push_alone k h s) = Some s'" "extended fs (push_alone k h s) s'"
      using Cons.IH [OF _ h(2)] Cons.prems(1) by (auto simp: slot)
    have "extended es s s'" using extended_push_alone [OF s'(2)] by (simp add: h(3) slot_if_filled_def split: if_splits)
    then show ?thesis using False s'(1) h(1) by (simp add: slot Let_def del: dropWhile_eq_Nil_conv)
  qed
qed (simp add: extended_none)

lemma left_entries_none: "left_entries False both ls [] = Some []"
  by (induction ls) auto

lemma combine_aside_entries:
  assumes "left_entries False (\<lambda>k l r. map_option outcome_slots (arm k l r)) ls rs = Some es"
  shows "\<exists>s'. combine_aside_walk arm ls rs s = Some s' \<and> extended es s s'"
  using assms
proof (induction ls arbitrary: rs s es)
  case (Cons slot ls)
  obtain k l where slot: "slot = (k, l)" by (cases slot)
  let ?rs = "dropWhile (\<lambda>(key, _). key < k) rs"
  consider "?rs = []" | "?rs \<noteq> []" "k < fst (hd ?rs)" | "?rs \<noteq> []" "\<not> k < fst (hd ?rs)" by blast
  then show ?case
  proof cases
    case 1
    then show ?thesis using Cons.prems by (simp add: slot left_entries_none extended_none del: dropWhile_eq_Nil_conv)
  next
    case 2
    then show ?thesis using Cons.prems Cons.IH [of ?rs es s] by (simp add: slot Let_def option.map_id0 del: dropWhile_eq_Nil_conv)
  next
    case 3
    obtain result fs where h: "arm k l (snd (hd ?rs)) = Some result"
      "left_entries False (\<lambda>k l r. map_option outcome_slots (arm k l r)) ls ?rs = Some fs" "es = map (Pair k) (outcome_slots result) @ fs"
      using Cons.prems 3 by (auto simp: slot Let_def simp del: dropWhile_eq_Nil_conv split: option.splits)
    let ?s = "case result of Dropped \<Rightarrow> s | Kept h \<Rightarrow> push_counted k h s | Emitted h \<Rightarrow> push_counted k h s"
    obtain s' where s': "combine_aside_walk arm ls ?rs ?s = Some s'" "extended fs ?s s'" using Cons.IH [OF h(2)] by blast
    have "extended es s s'" using s'(2) extended_push [of fs k _ s s'] by (cases result) (simp_all add: h(3) outcome_slots_def)
    then show ?thesis using 3 s'(1) h(1) by (simp add: slot Let_def del: dropWhile_eq_Nil_conv)
  qed
qed (simp add: extended_none)

text \<open>The table in place: what is written stays behind the walk, and what is not yet read is untouched.\<close>

lemma write_behind:
  assumes "w \<le> left" "left < length t"
  shows "take (Suc w) (t[w := e]) = take w t @ [e]" "drop (Suc left) (t[w := e]) = drop (Suc left) t"
proof -
  have "w < length t" using assms by simp
  then show "take (Suc w) (t[w := e]) = take w t @ [e]" "drop (Suc left) (t[w := e]) = drop (Suc left) t"
    using assms(1) by (simp_all add: take_Suc_conv_app_nth drop_update_cancel)
qed

lemma keep_writes: "left < length t \<Longrightarrow> rewrite_keep left (w, t) = (Suc w, t[w := t ! left])"
  by (simp add: rewrite_keep_def)

lemma combine_in_place_entries:
  assumes "left_entries keep (\<lambda>k l r. map_option outcome_slots (arm k l r)) ls rs = Some es" "drop left t = ls" "w \<le> left" "left \<le> length t"
  shows "\<exists>w' t'. combine_in_place_walk keep arm left rs n (w, t) = Some (n + slots_total es, w', t') \<and> take w' t' = take w t @ es"
  using assms
proof (induction ls arbitrary: left rs es n w t)
  case Nil
  then show ?case by (subst combine_in_place_walk.simps) auto
next
  case (Cons slot ls)
  obtain k l where slot: "slot = (k, l)" by (cases slot)
  let ?rs = "dropWhile (\<lambda>(key, _). key < k) rs" and ?both = "\<lambda>k l r. map_option outcome_slots (arm k l r)"
  have lt: "left < length t" using Cons.prems(2,4) by (cases "left < length t") auto
  have at: "t ! left = (k, l)" and rest: "drop (Suc left) t = ls"
    using Cons.prems(2) Cons_nth_drop_Suc [OF lt] by (simp_all add: slot)
  note unfold = combine_in_place_walk.simps [of _ arm left rs n w t] lt at
  have IH: "\<exists>w' t'. combine_in_place_walk keep arm (Suc left) ?rs m (v, u) = Some (m + slots_total fs, w', t') \<and> take w' t' = take v u @ fs"
    if "left_entries keep ?both ls ?rs = Some fs" "drop (Suc left) u = ls" "v \<le> Suc left" "length u = length t" for fs m v u
    by (rule Cons.IH [OF that(1,2,3)]) (use lt that(4) in simp)
  have written: "\<exists>w' t'. combine_in_place_walk keep arm (Suc left) ?rs (n + container_size h) (Suc w, u[w := (k, h)])
      = Some (n + (container_size h + slots_total fs), w', t') \<and> take w' t' = take w t @ (k, h) # fs"
    if "left_entries keep ?both ls ?rs = Some fs" "drop (Suc left) u = ls" "take w u = take w t" "length u = length t" for fs h u
  proof -
    have "left < length u" using lt that(4) by simp
    note b = write_behind [OF Cons.prems(3) this, of "(k, h)"]
    show ?thesis using IH [OF that(1), of "u[w := (k, h)]" "Suc w" "n + container_size h"] b that Cons.prems(3) by (simp add: add.assoc)
  qed
  have kept: "\<exists>w' t'. combine_in_place_walk keep arm (Suc left) ?rs (n + container_size h) (rewrite_keep left (w, t[left := (k, h)]))
      = Some (n + (container_size h + slots_total fs), w', t') \<and> take w' t' = take w t @ (k, h) # fs"
    if "left_entries keep ?both ls ?rs = Some fs" for fs h
    using written [OF that, of "t[left := (k, h)]" h] lt rest Cons.prems(3) by (simp add: keep_writes)
  have alone: ?case if unmatched: "?rs = [] \<or> k < fst (hd ?rs)"
  proof -
  have e: "left_entries keep ?both (slot # ls) rs = map_option (\<lambda>es. (if keep then [(k, l)] else []) @ es) (left_entries keep ?both ls ?rs)"
    by (simp only: slot left_entries.simps Let_def if_P [OF unmatched])
  show ?thesis
  proof (cases keep)
    case True
    obtain fs where fs: "left_entries keep ?both ls ?rs = Some fs" "es = (k, l) # fs"
      using Cons.prems(1) True unfolding e by auto
    show ?thesis using written [OF fs(1) rest, of l] that True lt by (simp add: unfold fs(2) keep_writes Let_def del: dropWhile_eq_Nil_conv)
  next
    case False
    have fs: "left_entries keep ?both ls ?rs = Some es"
      using Cons.prems(1) False unfolding e by (simp add: option.map_id0)
    show ?thesis
    proof (cases "?rs = []")
      case True
      then have "es = []" using fs \<open>\<not> keep\<close> unfolding True by (simp add: left_entries_none)
      then show ?thesis using True False by (simp add: unfold Let_def del: dropWhile_eq_Nil_conv)
    next
      case False
      then show ?thesis using IH [OF fs rest, of w n] Cons.prems(3) that \<open>\<not> keep\<close> by (simp add: unfold Let_def del: dropWhile_eq_Nil_conv)
    qed
  qed
  qed
  have paired: ?case if ne: "\<not> (?rs = [] \<or> k < fst (hd ?rs))"
  proof -
    obtain result fs where h: "arm k l (snd (hd ?rs)) = Some result" "left_entries keep ?both ls ?rs = Some fs"
      "es = map (Pair k) (outcome_slots result) @ fs"
      using Cons.prems(1) ne by (auto simp: slot Let_def simp del: dropWhile_eq_Nil_conv split: option.splits)
    show ?thesis
    proof (cases result)
      case Dropped
      then show ?thesis using IH [OF h(2) rest, of w n] Cons.prems(3) ne h(1,3) by (simp add: unfold Let_def outcome_slots_def del: dropWhile_eq_Nil_conv)
    next
      case (Kept x)
      then show ?thesis using kept [OF h(2), of x] ne h(1,3) by (simp add: unfold Let_def outcome_slots_def del: dropWhile_eq_Nil_conv)
    next
      case (Emitted x)
      then show ?thesis using written [OF h(2) rest, of x] ne h(1,3)
        by (simp add: unfold Let_def outcome_slots_def rewrite_put_def del: dropWhile_eq_Nil_conv)
    qed
  qed
  show ?case using alone paired by blast
qed

subsection \<open>The bitmaps\<close>

lemma finished_by_slots:
  assumes "joined op (bitmap_slots b) (bitmap_slots other) es" "bitmap_ok A b" "bitmap_ok B other"
    "\<And>c. lows T c = op (lows A c) (lows B c)" "bitmap_slots s = es" "total_size s = slots_total es"
  shows "bitmap_ok T s"
proof -
  have ok: "table_ok es" "chunk_values es c = lows T c" for c
    using assms(1) bitmap_okD(4) [OF assms(2), of c] bitmap_okD(4) [OF assms(3), of c] assms(4) [of c]
    by (simp_all add: joined_def bitmap_slots_def)
  show ?thesis
    using ok table_count [OF ok(1)] table_set_eqI [OF ok] assms(5,6) by (intro bitmap_okI) (simp_all add: bitmap_slots_def slots_total_def)
qed

lemma cleared_scratch: "bitmap_slots (with_room n (clear_keep_capacity p s)) = []" "total_size (with_room n (clear_keep_capacity p s)) = 0"
  by (simp_all add: with_room_def clear_keep_capacity_def Let_def bitmap_slots_def chunk_reserve_def advance_def)

lemma bitmap_slots_ok: "bitmap_ok S b \<Longrightarrow> table_ok (bitmap_slots b)" "bitmap_ok S b \<Longrightarrow> all_filled (bitmap_slots b)"
  using bitmap_okD(1) [of S b] table_all_filled by (simp_all add: bitmap_slots_def)

lemma extended_scratch:
  assumes "extended es (with_room n (clear_keep_capacity p scratch)) s" "joined op (bitmap_slots b) (bitmap_slots other) es"
    "bitmap_ok A b" "bitmap_ok B other" "\<And>c. lows T c = op (lows A c) (lows B c)"
  shows "bitmap_ok T s"
  using finished_by_slots [OF assms(2-5)] assms(1) by (simp add: extended_def cleared_scratch)

lemma lows_sym_diff: "lows (sym_diff A B) c = sym_diff (lows A c) (lows B c)"
  by (simp add: sym_diff_def lows_set_ops)

lemma union_into_set:
  assumes "bitmap_ok A b" "bitmap_ok B other"
  shows "\<exists>s. union_into eager garbage pool_capacity b other scratch = Some s \<and> bitmap_ok (A \<union> B) s"
proof -
  obtain es where es: "both_entries False (\<lambda>key. union_pair eager (garbage key)) (bitmap_slots b) (bitmap_slots other) = Some es"
    "joined (\<union>) (bitmap_slots b) (bitmap_slots other) es"
    using union_aside.both_entries_joined [OF bitmap_slots_ok(1) bitmap_slots_ok(1), OF assms] by blast
  show ?thesis
    using both_walk_entries [OF bitmap_slots_ok(2) bitmap_slots_ok(2) es(1), OF assms] extended_scratch [OF _ es(2) assms lows_set_ops(1)]
    unfolding union_into_def by blast
qed

lemma xor_into_set:
  assumes "bitmap_ok A b" "bitmap_ok B other"
  shows "\<exists>s. xor_into garbage pool_capacity b other scratch = Some s \<and> bitmap_ok (sym_diff A B) s"
proof -
  obtain es where es: "both_entries True (\<lambda>key l r. Some (xor_pair (garbage key) l r)) (bitmap_slots b) (bitmap_slots other) = Some es"
    "joined sym_diff (bitmap_slots b) (bitmap_slots other) es"
    using xor_aside.both_entries_joined [OF bitmap_slots_ok(1) bitmap_slots_ok(1), OF assms] by blast
  show ?thesis
    using both_walk_entries [OF bitmap_slots_ok(2) bitmap_slots_ok(2) es(1), OF assms] extended_scratch [OF _ es(2) assms lows_sym_diff]
    unfolding xor_into_def by blast
qed

lemma difference_into_set:
  assumes "bitmap_ok A b" "bitmap_ok B other"
  shows "\<exists>s. difference_into eager garbage pool_capacity b other scratch = Some s \<and> bitmap_ok (A - B) s"
proof -
  obtain es where es: "left_entries True (\<lambda>key l r. map_option slot_if_filled (difference_pair eager (garbage key) l r)) (bitmap_slots b) (bitmap_slots other) = Some es"
    "joined (-) (bitmap_slots b) (bitmap_slots other) es"
    using difference_aside.left_entries_joined [OF bitmap_slots_ok(1) bitmap_slots_ok(1), OF assms] by blast
  show ?thesis
    using difference_walk_entries [OF bitmap_slots_ok(2) [OF assms(1)] es(1)] extended_scratch [OF _ es(2) assms lows_set_ops(3)]
    unfolding difference_into_def by blast
qed

lemma intersect_into_set:
  assumes "bitmap_ok A b" "bitmap_ok B other"
  shows "\<exists>s. intersect_into eager garbage retired pool_capacity b other scratch = Some s \<and> bitmap_ok (A \<inter> B) s"
proof -
  obtain es where es: "left_entries False (\<lambda>key l r. map_option outcome_slots (combine_pair eager (garbage key) (retired key) Bit_and False l r))
      (bitmap_slots b) (bitmap_slots other) = Some es" "joined (\<inter>) (bitmap_slots b) (bitmap_slots other) es"
    using combine_and.left_entries_joined [where unshared = "\<lambda>_. False", OF bitmap_slots_ok(1) bitmap_slots_ok(1), OF assms] by blast
  show ?thesis
    using combine_aside_entries [OF es(1)] extended_scratch [OF _ es(2) assms lows_set_ops(2)]
    unfolding intersect_into_def by blast
qed

lemma rewritten_bitmap:
  assumes "left_entries (op = Bit_andnot) (\<lambda>key l r. map_option outcome_slots (combine_pair eager (garbage key) (retired key) op (unshared key) l r))
      (bitmap_slots b) (bitmap_slots other) = Some es"
  shows "\<exists>s. combine_in_place eager garbage retired unshared op b other = Some s \<and> bitmap_slots s = es \<and> total_size s = slots_total es"
  using combine_in_place_entries [OF assms, of 0 "bitmap_slots b" 0 0]
  by (auto simp: combine_in_place_def rewrite_finish_def bitmap_slots_def advance_def)

lemma combine_in_place_set:
  assumes "bitmap_ok A b" "bitmap_ok B other"
  shows "\<exists>s. combine_in_place eager garbage retired unshared Bit_and b other = Some s \<and> bitmap_ok (A \<inter> B) s"
    "\<exists>s. combine_in_place eager garbage retired unshared Bit_andnot b other = Some s \<and> bitmap_ok (A - B) s"
proof -
  let ?both = "\<lambda>op key l r. map_option outcome_slots (combine_pair eager (garbage key) (retired key) op (unshared key) l r)"
  obtain es where es: "left_entries False (?both Bit_and) (bitmap_slots b) (bitmap_slots other) = Some es" "joined (\<inter>) (bitmap_slots b) (bitmap_slots other) es"
    using combine_and.left_entries_joined [OF bitmap_slots_ok(1) bitmap_slots_ok(1), OF assms] by blast
  show "\<exists>s. combine_in_place eager garbage retired unshared Bit_and b other = Some s \<and> bitmap_ok (A \<inter> B) s"
    using rewritten_bitmap [of Bit_and] es(1) finished_by_slots [OF es(2) assms lows_set_ops(2)] by fastforce
  obtain fs where fs: "left_entries True (?both Bit_andnot) (bitmap_slots b) (bitmap_slots other) = Some fs" "joined (-) (bitmap_slots b) (bitmap_slots other) fs"
    using combine_andnot.left_entries_joined [OF bitmap_slots_ok(1) bitmap_slots_ok(1), OF assms] by blast
  show "\<exists>s. combine_in_place eager garbage retired unshared Bit_andnot b other = Some s \<and> bitmap_ok (A - B) s"
    using rewritten_bitmap [of Bit_andnot] fs(1) finished_by_slots [OF fs(2) assms lows_set_ops(3)] by fastforce
qed

end
