(* ===== verification/Set_Growth.thy ===== *)
theory Set_Growth
  imports Set_Algebra
begin

text \<open>
  The union and the exclusive-or into the left bitmap, in every way the code takes: no table rebuilt, the rest of the
  tables merged into a new one, a few chunks searched for and inserted, and the lazy fold, whose counts are repaired later.
\<close>

subsection \<open>The merge\<close>

lemma kept_all: "all_filled ls \<Longrightarrow> filter (\<lambda>(_, l). \<not> (checked \<and> container_size l = 0)) ls = ls"
  by (auto simp: filter_id_conv all_filled_def)

lemma map_nothing [simp]: "map_option ((@) []) x = x"
  by (cases x) simp_all

lemma cancelled_head:
  assumes "table_ok ((k, r) # rs)" "container_size h = 0"
  shows "both_entries True pair ((k, h) # ls) rs = both_entries True pair ls rs"
proof (cases rs)
  case Nil
  then show ?thesis using assms(2) by (cases ls) simp_all
next
  case (Cons slot rs')
  then show ?thesis using assms by (cases slot) (simp add: table_ok_Cons)
qed

lemma merge_prefix_entries:
  assumes "table_ok ls" "table_ok rs" "both_entries checked pair ls rs = Some es" "n0 = n + slots_total ls"
  shows "\<exists>walked ls' rs' fs cancelled. merge_prefix checked pair ls rs n0 = Some (walked, ls', rs', n + slots_total walked + slots_total ls', cancelled) \<and>
    both_entries checked pair ls' rs' = Some fs \<and> es = walked @ fs \<and> all_filled rs' \<and> (\<not> cancelled \<longrightarrow> rs' = [] \<longrightarrow> fs = ls')"
  using assms
proof (induction checked pair ls rs n0 arbitrary: es n rule: merge_prefix.induct [case_names both rights lefts])
  case (both checked pair k l ls k' r rs n0)
  have ok: "table_ok ls" "table_ok rs" "container_size l \<noteq> 0" "all_filled ((k', r) # rs)"
    using both.prems(1,2) slot_ok_facts(6) [of l] table_all_filled [OF both.prems(2)] by (auto simp: table_ok_Cons)
  consider "k < k'" | "k' < k" | "k = k'" by (rule linorder_cases)
  then show ?case
  proof cases
    case 1
    then obtain fs where fs: "both_entries checked pair ls ((k', r) # rs) = Some fs" "es = (k, l) # fs" using both.prems(3) ok(3) by auto
    show ?thesis using both.IH(1) [OF 1 ok(1) both.prems(2) fs(1), of "n + container_size l"] both.prems(4) 1 fs(2) by (fastforce simp: algebra_simps)
  next
    case 2
    then have "merge_prefix checked pair ((k, l) # ls) ((k', r) # rs) n0 = Some ([], (k, l) # ls, (k', r) # rs, n0, False)"
      using less_not_sym [OF 2] by simp
    then show ?thesis using both.prems(3,4) ok(4) by fastforce
  next
    case 3
    then obtain h fs where h: "pair k l r = Some h" "both_entries checked pair ls rs = Some fs"
      "es = (if checked \<and> container_size h = 0 then [] else [(k, h)]) @ fs" using both.prems(3) by (auto split: option.splits)
    let ?n = "n0 - container_size l + container_size h"
    show ?thesis
    proof (cases "checked \<and> container_size h = 0")
      case True
      have "both_entries checked pair ((k, h) # ls) rs = Some fs" using cancelled_head [of k r rs h pair ls] both.prems(2) True 3 h(2) by simp
      moreover have "merge_prefix checked pair ((k, l) # ls) ((k', r) # rs) n0 = Some ([], (k, h) # ls, rs, ?n, True)"
        using 3 h(1) True by (simp add: Let_def)
      moreover have "?n = n + slots_total [] + slots_total ((k, h) # ls)" using both.prems(4) by simp
      moreover have "es = [] @ fs" using h(3) True by simp
      moreover have "all_filled rs" using ok(4) by simp
      ultimately show ?thesis by (metis (no_types))
    next
      case False
      have n: "?n = n + container_size h + slots_total ls" using both.prems(4) by simp
      obtain walked ls' rs' gs cancelled where i: "merge_prefix checked pair ls rs ?n = Some (walked, ls', rs', n + container_size h + slots_total walked + slots_total ls', cancelled)"
        "both_entries checked pair ls' rs' = Some gs" "fs = walked @ gs" "all_filled rs'" "\<not> cancelled \<longrightarrow> rs' = [] \<longrightarrow> gs = ls'"
        using both.IH(2) [OF _ _ h(1) refl False ok(1,2) h(2) n] 3 less_irrefl by blast
      have "merge_prefix checked pair ((k, l) # ls) ((k', r) # rs) n0
          = Some ((k, h) # walked, ls', rs', n + slots_total ((k, h) # walked) + slots_total ls', cancelled)"
        using 3 h(1) False i(1) by (simp add: Let_def add.assoc)
      moreover have "es = ((k, h) # walked) @ gs" using False h(3) i(3) by simp
      ultimately show ?thesis using i(2,4,5) by blast
    qed
  qed
next
  case (rights checked pair rs n0)
  then show ?case using table_all_filled by fastforce
next
  case (lefts checked pair ls n0)
  then show ?case using table_all_filled kept_all by fastforce
qed

lemma entries_kept: "entries (keep_left checked k h t) = entries t @ (if checked \<and> container_size h = 0 then [] else [(k, h)])"
  by (simp add: keep_left_def)

lemma entries_all_kept: "entries (fold (\<lambda>(key, l). keep_left checked key l) ls t) = entries t @ filter (\<lambda>(_, l). \<not> (checked \<and> container_size l = 0)) ls"
  by (induction ls arbitrary: t) (auto simp: entries_kept split: if_splits)

lemma all_taken: "all_filled rs \<Longrightarrow>
    \<exists>t'. fold (\<lambda>(key, r). take_right key r) rs (t, n) = (t', n + slots_total rs) \<and> entries t' = entries t @ rs"
proof (induction rs arbitrary: t n)
  case (Cons slot rs)
  obtain k r where s: "slot = (k, r)" by (cases slot)
  show ?case using Cons.IH [of "chunk_push_back k r t" "n + container_size r"] Cons.prems by (auto simp: s take_right_def add.assoc)
qed simp

lemma filtered_total: "slots_total (filter (\<lambda>(_, l). \<not> (checked \<and> container_size l = 0)) ls) = slots_total ls"
  by (induction ls) auto

lemma merge_rest_entries:
  assumes "all_filled rs" "both_entries checked pair ls rs = Some fs" "n0 = n + slots_total ls" "s = (t, n0)"
  shows "\<exists>t'. merge_rest checked pair ls rs s = Some (t', n + slots_total fs) \<and> entries t' = entries t @ fs"
  using assms
proof (induction checked pair ls rs s arbitrary: fs n n0 t rule: merge_rest.induct [case_names both rights lefts])
  case (both checked pair k l ls k' r rs m c)
  have n0: "c = n + container_size l + slots_total ls" "m = t" using both.prems(3,4) by simp_all
  have r: "container_size r \<noteq> 0" "all_filled rs" using both.prems(1) by simp_all
  consider "k < k'" | "k' < k" | "k = k'" by (rule linorder_cases)
  then show ?case
  proof cases
    case 1
    then obtain es where es: "both_entries checked pair ls ((k', r) # rs) = Some es" "fs = (if checked \<and> container_size l = 0 then [] else [(k, l)]) @ es"
      using both.prems(2) by auto
    show ?thesis using both.IH(1) [OF 1 both.prems(1) es(1) n0(1) refl] 1 es(2) n0(2) by (auto simp: entries_kept)
  next
    case 2
    then obtain es where es: "both_entries checked pair ((k, l) # ls) rs = Some es" "fs = (k', r) # es"
      using both.prems(2) less_not_sym [OF 2] by auto
    have "take_right k' r (m, c) = (chunk_push_back k' r m, c + container_size r)" using r(1) by (simp add: take_right_def)
    moreover have "c + container_size r = (n + container_size r) + slots_total ((k, l) # ls)" using n0(1) by simp
    ultimately show ?thesis
      using both.IH(2) [OF less_not_sym [OF 2] 2 r(2) es(1), of "c + container_size r" "n + container_size r" "chunk_push_back k' r m"]
        2 less_not_sym [OF 2] es(2) n0(2) by (auto simp: ac_simps)
  next
    case 3
    then obtain h es where h: "pair k l r = Some h" "both_entries checked pair ls rs = Some es"
      "fs = (if checked \<and> container_size h = 0 then [] else [(k, h)]) @ es" using both.prems(2) by (auto split: option.splits)
    have n: "c - container_size l + container_size h = n + container_size h + slots_total ls" using n0(1) by simp
    show ?thesis using both.IH(3) [OF _ _ h(1) r(2) h(2) n refl] 3 h(1,3) n0(2) by (auto simp: entries_kept)
  qed
next
  case (rights checked pair rs m c)
  then show ?case using all_taken [of rs m c] by auto
next
  case (lefts checked pair ls m c)
  then show ?case using filtered_total [of checked ls] by (auto simp: entries_all_kept)
qed

lemma table_total: "bitmap_ok S b \<Longrightarrow> total_size b = slots_total (bitmap_slots b)"
  using bitmap_okD(1-3) [of S b] table_count [of "bitmap_slots b"] by (simp add: bitmap_slots_def slots_total_def)

lemma all_pushed: "entries (fold (\<lambda>(key, h). chunk_push_back key h) es t) = entries t @ es"
  by (induction es arbitrary: t) auto

lemma merge_tables_entries:
  assumes "bitmap_ok A b" "bitmap_ok B other" "both_entries checked pair (bitmap_slots b) (bitmap_slots other) = Some es"
  shows "\<exists>s. merge_tables checked pair b other = Some s \<and> bitmap_slots s = es \<and> total_size s = slots_total es"
proof -
  have count: "total_size b = 0 + slots_total (bitmap_slots b)" using table_total [OF assms(1)] by simp
  obtain walked ls rs fs cancelled where p: "merge_prefix checked pair (bitmap_slots b) (bitmap_slots other) (total_size b)
      = Some (walked, ls, rs, 0 + slots_total walked + slots_total ls, cancelled)"
    "both_entries checked pair ls rs = Some fs" "es = walked @ fs" "all_filled rs" "\<not> cancelled \<longrightarrow> rs = [] \<longrightarrow> fs = ls"
    using merge_prefix_entries [OF bitmap_slots_ok(1) [OF assms(1)] bitmap_slots_ok(1) [OF assms(2)] assms(3) count] by blast
  show ?thesis
  proof (cases "rs = [] \<and> \<not> cancelled")
    case True
    then show ?thesis using p by (auto simp: merge_tables_def bitmap_slots_def)
  next
    case False
    let ?t = "fold (\<lambda>(key, h). chunk_push_back key h) walked (chunk_reserve (table_size (chunks b) + table_size (chunks other)) empty_store)"
    have t: "entries ?t = walked" by (simp add: all_pushed chunk_reserve_def empty_store_def advance_def)
    obtain t' where "merge_rest checked pair ls rs (?t, slots_total walked + slots_total ls) = Some (t', slots_total walked + slots_total fs)"
      "entries t' = walked @ fs" using merge_rest_entries [OF p(4,2) refl refl, where n = "slots_total walked" and t = ?t] t by auto
    then show ?thesis using False p(1,3) unfolding merge_tables_def p(1) by (auto simp: bitmap_slots_def adopt_table_def advance_def Let_def)
  qed
qed

theorem union_by_merge:
  assumes "bitmap_ok A b" "bitmap_ok B other"
  shows "\<exists>s. merge_tables False (\<lambda>key. union_same_key eager (garbage key) False (unshared key)) b other = Some s \<and> bitmap_ok (A \<union> B) s"
proof -
  obtain es where es: "both_entries False (\<lambda>key. union_same_key eager (garbage key) False (unshared key)) (bitmap_slots b) (bitmap_slots other) = Some es"
    "joined (\<union>) (bitmap_slots b) (bitmap_slots other) es"
    using union_in_place.both_entries_joined [OF bitmap_slots_ok(1) bitmap_slots_ok(1), OF assms] by blast
  show ?thesis using merge_tables_entries [OF assms es(1)] finished_by_slots [OF es(2) assms lows_set_ops(1)] by blast
qed

lemma no_slots: "bitmap_ok S b \<Longrightarrow> bitmap_slots b = [] \<longleftrightarrow> S = {}"
proof -
  assume ok: "bitmap_ok S b"
  show "bitmap_slots b = [] \<longleftrightarrow> S = {}"
  proof
    assume "bitmap_slots b = []"
    then show "S = {}" using bitmap_okD(2) [OF ok] by (simp add: bitmap_slots_def table_set_def)
  next
    assume "S = {}"
    then have "slots_total (bitmap_slots b) = 0" using table_total [OF ok] bitmap_okD(3) [OF ok] by simp
    then show "bitmap_slots b = []" using bitmap_slots_ok(2) [OF ok] by (cases "bitmap_slots b") auto
  qed
qed

lemma copied_table: "bitmap_ok B other \<Longrightarrow> bitmap_slots s = bitmap_slots other \<Longrightarrow> total_size s = total_size other \<Longrightarrow> bitmap_ok B s"
  by (simp add: bitmap_ok_def bitmap_slots_def)

theorem xor_operator_correct:
  assumes "bitmap_ok A b" "bitmap_ok B other"
  shows "\<exists>s. xor_merge garbage unshared b other = Some s \<and> bitmap_ok (sym_diff A B) s"
proof -
  consider "bitmap_slots other = []" | "bitmap_slots other \<noteq> []" "bitmap_slots b = []" | "bitmap_slots other \<noteq> []" "bitmap_slots b \<noteq> []" by blast
  then show ?thesis
  proof cases
    case 1
    then have "sym_diff A B = A" using no_slots [OF assms(2)] by (simp add: sym_diff_def)
    then show ?thesis using 1 assms(1) by (simp add: xor_merge_def)
  next
    case 2
    then have "sym_diff A B = B" using no_slots [OF assms(1)] by (simp add: sym_diff_def)
    then show ?thesis using 2 copied_table [OF assms(2)] by (simp add: xor_merge_def bitmap_slots_def)
  next
    case 3
    obtain es where es: "both_entries True (\<lambda>key l r. Some (xor_same_key (garbage key) (unshared key) l r)) (bitmap_slots b) (bitmap_slots other) = Some es"
      "joined sym_diff (bitmap_slots b) (bitmap_slots other) es"
      using xor_in_place.both_entries_joined [OF bitmap_slots_ok(1) bitmap_slots_ok(1), OF assms] by blast
    show ?thesis using 3 merge_tables_entries [OF assms es(1)] finished_by_slots [OF es(2) assms lows_sym_diff] by (simp add: xor_merge_def) blast
  qed
qed

subsection \<open>A few chunks\<close>

lemma set_slot_total:
  assumes "at < table_size t"
  shows "slots_total (entries (set_slot at h t)) + container_size (slot_at t at) = slots_total (entries t) + container_size h"
    "container_size (slot_at t at) \<le> slots_total (entries t)"
proof -
  have "entries (set_slot at h t) = take at (entries t) @ (key_at t at, h) # drop (Suc at) (entries t)"
    using assms by (simp add: set_slot_def table_size_def upd_conv_take_nth_drop)
  moreover have "slots_total (entries t) = slots_total (take at (entries t)) + (container_size (slot_at t at) + slots_total (drop (Suc at) (entries t)))"
    using arg_cong [OF entry_split [OF assms], of slots_total] by simp
  ultimately show "slots_total (entries (set_slot at h t)) + container_size (slot_at t at) = slots_total (entries t) + container_size h"
    "container_size (slot_at t at) \<le> slots_total (entries t)" by simp_all
qed

lemma lower_bound_mono: "a \<le> b \<Longrightarrow> lower_bound xs a \<le> lower_bound xs (b :: 'a::linorder)"
  unfolding lower_bound_def partition_point_def by (induction xs) auto

lemma absent_cong: "fst ` set es = fst ` set fs \<Longrightarrow> absent_in es w other = absent_in fs w other"
  by (simp add: absent_in_def)

lemma total_by_set: "distinct (map fst es) \<Longrightarrow> slots_total es = (\<Sum>(_, h)\<in>set es. container_size h)"
  by (simp add: slots_total_def sum_list_distinct_conv_sum_set distinct_map)

text \<open>The entries of a table with those of another whose keys it lacks.\<close>

lemma added_table:
  assumes "table_ok ms" "table_ok os" "strict (map fst es)" "set es = set ms \<union> set (absent_in ms (\<lambda>h. container_size h \<noteq> 0) os)"
  shows "table_ok es" "chunk_values es c = (if c \<in> fst ` set ms then chunk_values ms c else chunk_values os c)"
    "slots_total es = slots_total ms + slots_total (absent_in ms (\<lambda>h. container_size h \<noteq> 0) os)"
proof -
  let ?abs = "absent_in ms (\<lambda>h. container_size h \<noteq> 0) os"
  have sub: "set ?abs = {(k, h) \<in> set os. k \<notin> fst ` set ms}"
    using table_all_filled [OF assms(2)] by (auto simp: absent_in_def all_filled_def)
  show ok: "table_ok es" using assms sub by (auto simp: table_ok_def)
  show "chunk_values es c = (if c \<in> fst ` set ms then chunk_values ms c else chunk_values os c)"
  proof (cases "c \<in> fst ` set ms")
    case True
    then obtain h where "(c, h) \<in> set ms" by auto
    then show ?thesis using True chunk_values_mem [OF ok, of c h] chunk_values_mem [OF assms(1), of c h] assms(4) by simp
  next
    case out: False
    show ?thesis
    proof (cases "c \<in> fst ` set os")
      case True
      then obtain h where "(c, h) \<in> set os" by auto
      moreover then have "(c, h) \<in> set es" using assms(4) sub out by blast
      ultimately show ?thesis using out chunk_values_mem [OF ok, of c h] chunk_values_mem [OF assms(2), of c h] by simp
    next
      case False
      have "set ?abs \<subseteq> set os" by (auto simp: absent_in_def)
      then have "fst ` set es \<subseteq> fst ` set ms \<union> fst ` set os" unfolding assms(4) by (simp add: image_Un) blast
      then have "c \<notin> fst ` set es" using out False by blast
      then show ?thesis using out False by (simp add: chunk_values_none)
    qed
  qed
  have d: "distinct (map fst es)" "distinct (map fst ms)" "distinct (map fst ?abs)"
    using table_distinct [OF ok] table_distinct [OF assms(1)] table_distinct [OF assms(2)] by (simp_all add: absent_in_def distinct_map_filter)
  have "set ms \<inter> set ?abs = {}" using sub by force
  then show "slots_total es = slots_total ms + slots_total ?abs"
    unfolding total_by_set [OF d(1)] total_by_set [OF d(2)] total_by_set [OF d(3)] assms(4) by (intro sum.union_disjoint) simp_all
qed

locale uniting_walk = both_table_walk False pair "(\<union>)" for pair :: pairing
begin

lemma union_few_walk_correct:
  assumes "table_ok (bitmap_slots b)" "table_ok rs" "total_size b = n + slots_total (bitmap_slots b)"
    "\<forall>(key, _)\<in>set rs. at \<le> lower_bound (keys_of (chunks b)) key"
  shows "\<exists>s. union_few_walk pair rs (at, added, added_size, b)
      = Some (added + length (absent_in (bitmap_slots b) (\<lambda>h. container_size h \<noteq> 0) rs),
          added_size + slots_total (absent_in (bitmap_slots b) (\<lambda>h. container_size h \<noteq> 0) rs), s) \<and>
    table_ok (bitmap_slots s) \<and> keys_of (chunks s) = keys_of (chunks b) \<and> total_size s = n + slots_total (bitmap_slots s) \<and>
    (\<forall>c. chunk_values (bitmap_slots s) c = chunk_values (bitmap_slots b) c \<union>
      (if c \<in> set (keys_of (chunks b)) then chunk_values rs c else {}))"
  using assms
proof (induction rs arbitrary: at added added_size b)
  case (Cons slot rs)
  obtain key r where slot: "slot = (key, r)" by (cases slot)
  let ?t = "chunks b" and ?at = "lower_bound (keys_of (chunks b)) key"
  have rs: "slot_ok r" "table_ok rs" "container_size r \<noteq> 0" "\<forall>k\<in>fst ` set rs. key < k"
    using Cons.prems(2) slot_ok_facts(6) [of r] by (simp_all add: slot table_ok_Cons)
  have keys: "strict (keys_of ?t)" using Cons.prems(1) by (simp add: bitmap_slots_def table_ok_def keys_of_def)
  have at: "lower_bound_from (keys_of ?t) key at = ?at"
    using lower_bound_from_correct [OF keys, of key at] Cons.prems(4) lower_bound_le [of "keys_of ?t" key] by (simp add: slot)
  have next_at: "\<forall>(k, _)\<in>set rs. ?at \<le> lower_bound (keys_of ?t) k" using rs(4) lower_bound_mono [of key] by fastforce
  have mine: "fst ` set (bitmap_slots b) = set (keys_of ?t)" by (simp add: bitmap_slots_def keys_of_def)
  show ?case using keys
  proof (cases rule: lower_bound_cases [where c = key])
    case absent
    have "chunk_values rs key = {}" using rs(4) by (intro chunk_values_none) blast
    then show ?thesis
      using Cons.IH [OF Cons.prems(1) rs(2) Cons.prems(3) next_at, of "added + 1" "added_size + container_size r"] absent rs(3)
      by (auto simp: slot at mine Let_def chunk_values_Cons add.assoc)
  next
    case found
    let ?l = "slot_at ?t ?at"
    have t: "table_ok (entries ?t)" using Cons.prems(1) by (simp add: bitmap_slots_def)
    have l: "slot_ok ?l" "chunk_values (entries ?t) key = values_of ?l" using slot_at_ok [OF t found(1)] found(2) by simp_all
    obtain h where h: "pair key ?l r = Some h" "exact (values_of ?l \<union> values_of r) h"
      using pair_exact [of "values_of ?l" ?l "values_of r" r key] l(1) rs(1) by (auto simp: slot_ok_exact)
    have ok: "slot_ok h" "values_of h = values_of ?l \<union> values_of r"
      using slot_ok_of_exact [OF h(2)] slot_of_exact [OF h(2)] slot_ok_facts(3) [OF l(1)] by auto
    let ?b = "b\<lparr>chunks := set_slot ?at h ?t, total_size := total_size b - container_size ?l + container_size h\<rparr>"
    have tab: "table_ok (bitmap_slots ?b)"
      "chunk_values (bitmap_slots ?b) c = (if c = key then values_of h else chunk_values (bitmap_slots b) c)" for c
      using set_slot_ok [OF t found(1)] ok(1) found(2) by (simp_all add: bitmap_slots_def)
    have tot: "total_size ?b = n + slots_total (bitmap_slots ?b)"
      using set_slot_total(1) [OF found(1), of h] set_slot_total(2) [OF found(1)] Cons.prems(3) by (simp add: bitmap_slots_def)
    have same: "keys_of (chunks ?b) = keys_of ?t" by simp
    have key: "key \<in> set (keys_of ?t)" using found by (metis key_at_nth length_keys nth_mem)
    have ab: "absent_in (bitmap_slots ?b) w rs = absent_in (bitmap_slots b) w (slot # rs)" for w
    proof -
      have "absent_in (bitmap_slots ?b) w rs = absent_in (bitmap_slots b) w rs"
        by (rule absent_cong) (use same in \<open>simp add: bitmap_slots_def keys_of_def flip: set_map\<close>)
      then show ?thesis using key mine by (simp add: slot)
    qed
    have none: "chunk_values rs key = {}" using rs(4) by (intro chunk_values_none) blast
    have step: "union_few_walk pair (slot # rs) (at, added, added_size, b) = union_few_walk pair rs (?at, added, added_size, ?b)"
      using found h(1) by (simp add: slot at Let_def)
    have vals: "chunk_values (bitmap_slots ?b) c \<union> (if c \<in> set (keys_of ?t) then chunk_values rs c else {})
        = chunk_values (bitmap_slots b) c \<union> (if c \<in> set (keys_of ?t) then chunk_values (slot # rs) c else {})" for c
      unfolding tab(2) slot chunk_values_Cons using key l(2) ok(2) by (auto simp: bitmap_slots_def none)
    show ?thesis
      unfolding step using Cons.IH [OF tab(1) rs(2) tot, of ?at added added_size] next_at same by (simp only: ab vals same)
  qed
qed simp

lemma union_few_correct:
  assumes "bitmap_ok A b" "bitmap_ok B other"
  shows "\<exists>s. union_few pair b other = Some s \<and> bitmap_ok (A \<union> B) s"
proof -
  let ?w = "\<lambda>h. container_size h \<noteq> 0" and ?bs = "bitmap_slots b" and ?os = "bitmap_slots other"
  let ?abs = "absent_in ?bs ?w ?os"
  have ok: "table_ok ?bs" "table_ok ?os" using bitmap_slots_ok(1) [OF assms(1)] bitmap_slots_ok(1) [OF assms(2)] .
  have tot: "total_size b = 0 + slots_total ?bs" using table_total [OF assms(1)] by simp
  obtain s where walk: "union_few_walk pair ?os (0, 0, 0, b) = Some (0 + length ?abs, 0 + slots_total ?abs, s)"
    and s: "table_ok (bitmap_slots s)" "keys_of (chunks s) = keys_of (chunks b)" "total_size s = 0 + slots_total (bitmap_slots s)"
      "\<forall>c. chunk_values (bitmap_slots s) c = chunk_values ?bs c \<union> (if c \<in> set (keys_of (chunks b)) then chunk_values ?os c else {})"
    using union_few_walk_correct [OF ok tot, of 0 0 0] by auto
  have keys: "fst ` set (bitmap_slots s) = fst ` set ?bs" "strict (keys_of (chunks s))" "strict (map fst ?os)"
    using s(1,2) ok(2) by (simp_all add: bitmap_slots_def keys_of_def table_ok_def flip: set_map)
  have abs: "absent_in (entries (chunks s)) ?w ?os = ?abs" using absent_cong [OF keys(1)] by (simp add: bitmap_slots_def)
  let ?r = "if length ?abs \<noteq> 0 then s\<lparr>chunks := insert_absent_from ?os (length ?abs) ?w (chunks s), total_size := total_size s + slots_total ?abs\<rparr> else s"
  have r: "union_few pair b other = Some ?r" using walk by (simp add: union_few_def)
  note ins = insert_absent_correct [OF keys(2,3), of "length ?abs" ?w, unfolded abs, OF refl]
  have es: "strict (map fst (bitmap_slots ?r))" "set (bitmap_slots ?r) = set (bitmap_slots s) \<union> set (absent_in (bitmap_slots s) ?w ?os)"
    using ins keys(2) abs by (auto simp: bitmap_slots_def keys_of_def)
  note t = added_table [OF s(1) ok(2) es]
  have vals: "chunk_values (bitmap_slots ?r) c = lows (A \<union> B) c" for c
  proof (cases "c \<in> fst ` set ?bs")
    case True
    then show ?thesis using t(2) [of c] s(4) keys(1) bitmap_okD(4) [OF assms(1), of c] bitmap_okD(4) [OF assms(2), of c]
      by (simp add: lows_set_ops bitmap_slots_def keys_of_def)
  next
    case False
    then show ?thesis using t(2) [of c] keys(1) chunk_values_none [OF False] bitmap_okD(4) [OF assms(1), of c] bitmap_okD(4) [OF assms(2), of c]
      by (simp add: lows_set_ops bitmap_slots_def)
  qed
  have "total_size ?r = slots_total (bitmap_slots ?r)" using t(3) s(3) abs by (simp add: bitmap_slots_def)
  then have "bitmap_ok (A \<union> B) ?r"
    using t(1) vals table_count [OF t(1)] table_set_eqI [OF t(1) vals]
    by (intro bitmap_okI) (simp_all only: bitmap_slots_def slots_total_def)
  then show ?thesis using r by blast
qed

end

interpretation few: uniting_walk "\<lambda>key. union_same_key eager (garbage key) False (unshared key)"
  for eager :: bool and garbage :: "16 word \<Rightarrow> nat \<Rightarrow> word64" and unshared :: "16 word \<Rightarrow> bool"
  by (rule uniting_walk.intro) (rule union_in_place.both_table_walk_axioms)

theorem union_operator_correct:
  assumes "bitmap_ok A b" "bitmap_ok B other"
  shows "\<exists>s. union_merge eager garbage unshared b other = Some s \<and> bitmap_ok (A \<union> B) s"
  using few.union_few_correct [OF assms] union_by_merge [OF assms] by (simp add: union_merge_def Let_def)

end
