(* ===== verification/Lazy_Union.thy ===== *)
theory Lazy_Union
  imports Set_Growth
begin

text \<open>
  The lazy fold of a union (\<open>bulk_or_inplace\<close>, \<open>docs/lazy-folds.md\<close>): any number of bitmaps are folded in while the counts
  are left open, and the repair, or the next operation that settles the counts, finds exactly the union.
\<close>

lemma known_count_exact:
  assumes "wf_container h" "\<not> holds_bitset h"
  shows "exact (values_of h) h"
  using count_stale_bitset [OF assms(1)] assms by (auto simp: exact_def holds_set_def)

lemma lazy_union_slot_correct:
  assumes "wf_container l" "exact B r" "B \<noteq> {}"
  shows "\<exists>h. lazy_union_slot eager garbage l r = Some h \<and> wf_container h \<and> values_of h = values_of l \<union> B"
proof -
  have b: "B \<subseteq> {..<65536}" using full_values [OF exact_wf(1) [OF assms(2)]] exact_wf(2) [OF assms(2)] by simp
  consider (full) "container_is_known_full l"
    | (arrays) "\<not> container_is_known_full l" "holds_array l \<and> holds_array r \<and> length (array_values l) + length (array_values r) \<le> lazy_union_array_bound"
    | (bitsets) "\<not> container_is_known_full l"
        "\<not> (holds_array l \<and> holds_array r \<and> length (array_values l) + length (array_values r) \<le> lazy_union_array_bound)" "holds_bitset l \<and> holds_bitset r"
    | (mixed) "\<not> container_is_known_full l"
        "\<not> (holds_array l \<and> holds_array r \<and> length (array_values l) + length (array_values r) \<le> lazy_union_array_bound)"
        "\<not> (holds_bitset l \<and> holds_bitset r)" "(holds_bitset l \<or> holds_array l) \<and> (holds_bitset r \<or> holds_array r)"
    | (general) "\<not> container_is_known_full l"
        "\<not> (holds_array l \<and> holds_array r \<and> length (array_values l) + length (array_values r) \<le> lazy_union_array_bound)"
        "\<not> (holds_bitset l \<and> holds_bitset r)" "\<not> ((holds_bitset l \<or> holds_array l) \<and> (holds_bitset r \<or> holds_array r))"
    by blast
  then show ?thesis
  proof cases
    case full
    then show ?thesis using container_is_known_full_correct(1) [OF assms(1) full] assms(1) b by (simp add: lazy_union_slot_def sup_absorb1)
  next
    case arrays
    have l: "exact (values_of l) l" "holds_array l" and r: "holds_array r"
      using arrays(2) one_form(1) [of l] known_count_exact [OF assms(1)] by blast+
    note a = exact_array [OF l] exact_array [OF assms(2) r]
    let ?vs = "union_array_array_inplace False (fresh_values garbage (length (array_values r))) (array_values l) (array_values r)"
    have vs: "?vs = union_sorted_scalar (array_values l) (array_values r)" by (rule union_array_array_inplace_eq [OF a(2,7)]) simp
    have "strict ?vs" "array_set ?vs = values_of l \<union> B" unfolding vs using a(2,3,7,8) by (simp_all add: wf_results value_sets)
    then have "exact (values_of l \<union> B) (array_sync_header (set_array_values ?vs l))" using exact_resynced(1) [OF l] by metis
    then show ?thesis unfolding lazy_union_slot_def if_not_P [OF arrays(1)] if_P [OF arrays(2)] using exact_wf(1,2) by blast
  next
    case bitsets
    note a = exact_bitset [OF assms(2) conjunct2 [OF bitsets(3)]]
    show ?thesis
      unfolding lazy_union_slot_def if_not_P [OF bitsets(1)] if_not_P [OF bitsets(2)] if_P [OF bitsets(3)]
      using or_bitset_bitset_inplace_bulk_correct [OF assms(1) conjunct1 [OF bitsets(3)] a(1)] a(2) by (simp add: leaves_bitset_def holds_set_def)
  next
    case mixed
    let ?l = "if \<not> holds_bitset l then bitset_handle_from_sorted_values (array_values l) make_array else l"
    have l: "wf_container ?l \<and> values_of ?l = values_of l \<and> holds_bitset ?l"
    proof (cases "holds_bitset l")
      case False
      then have l: "exact (values_of l) l" "holds_array l" using mixed(4) known_count_exact [OF assms(1)] by blast+
      note v = bitset_handle_from_sorted_values_correct [OF exact_array(2) [OF l], of make_array]
      show ?thesis using False v exact_array(3) [OF l] by (simp add: holds_set_def holds_bitset_def kind_def)
    qed (use assms(1) in simp)
    show ?thesis
    proof (cases "holds_bitset r")
      case True
      note a = exact_bitset [OF assms(2) True]
      show ?thesis
        unfolding lazy_union_slot_def if_not_P [OF mixed(1)] if_not_P [OF mixed(2)] if_not_P [OF mixed(3)] if_P [OF mixed(4)] Let_def if_P [OF True]
        using or_bitset_bitset_inplace_bulk_correct [of ?l, OF _ _ a(1)] l a(2) by (simp add: leaves_bitset_def holds_set_def)
    next
      case False
      then have r: "holds_array r" using mixed(4) by blast
      show ?thesis
        unfolding lazy_union_slot_def if_not_P [OF mixed(1)] if_not_P [OF mixed(2)] if_not_P [OF mixed(3)] if_P [OF mixed(4)] Let_def if_not_P [OF False]
        using or_array_into_bitset_inplace_correct(1) [of ?l "array_values r" True] l exact_array(3) [OF assms(2) r]
        by (simp add: leaves_bitset_def holds_set_def)
    qed
  next
    case general
    have s: "wf_container (settle_cardinality l)" "values_of (settle_cardinality l) = values_of l"
      using settle_cardinality_correct(1) [OF assms(1)] by (simp_all add: settle_cardinality_def set_cardinality_def values_of_def)
    obtain h where h: "combine_containers_for_policy eager garbage (settle_cardinality l) r Bit_or = Some h" "exact (values_of l \<union> B) h"
      using combine_containers_correct [OF s(1) exact_wf(1) [OF assms(2)] length_fresh(1), of Bit_or eager garbage array_to_bitset_threshold]
        s(2) exact_wf(2) [OF assms(2)] by (auto simp: combine_containers_for_policy_def set_op_def)
    show ?thesis
      unfolding lazy_union_slot_def if_not_P [OF general(1)] if_not_P [OF general(2)] if_not_P [OF general(3)] if_not_P [OF general(4)]
      using h(1) exact_wf(1,2) [OF h(2)] by simp
  qed
qed

subsection \<open>The table of a fold\<close>

text \<open>A table whose slots are well formed and not empty, their counts open.\<close>

definition loose_ok :: "('k::linorder \<times> container) list \<Rightarrow> bool" where
  "loose_ok es \<longleftrightarrow> strict (map fst es) \<and> (\<forall>(_, h)\<in>set es. wf_container h \<and> values_of h \<noteq> {})"

definition repaired :: "('k \<times> container) list \<Rightarrow> ('k \<times> container) list" where
  "repaired = map (apsnd repair_slot)"

definition repaired_table :: "'k chunk_store \<Rightarrow> 'k chunk_store" where
  "repaired_table t = t\<lparr>entries := repaired (entries t)\<rparr>"

lemma repaired_keys [simp]: "map fst (repaired es) = map fst es" "fst ` set (repaired es) = fst ` set es" "length (repaired es) = length es"
  by (simp_all add: repaired_def image_image comp_def)

lemma repaired_values [simp]: "chunk_values (repaired es) c = chunk_values es c"
proof -
  have "map_of (repaired es) c = map_option repair_slot (map_of es c)" by (induction es) (auto simp: repaired_def)
  then show ?thesis
    by (cases "map_of es c") (simp_all add: chunk_values_def repair_slot_def mark_endpoints_stale_def set_cardinality_def values_of_def)
qed

lemma loose_ok_iff: "loose_ok es \<longleftrightarrow> table_ok (repaired es) \<and> (\<forall>(_, h)\<in>set es. wf_container h)"
proof -
  have "values_of (repair_slot h) = values_of h" for h
    by (simp add: repair_slot_def mark_endpoints_stale_def set_cardinality_def values_of_def)
  moreover have "slot_ok (repair_slot h) \<longleftrightarrow> values_of h \<noteq> {}" if "wf_container h" for h
    using repair_slot_correct(1) [OF that] slot_ok_facts(3) [of "repair_slot h"] calculation by metis
  ultimately show ?thesis unfolding loose_ok_def table_ok_def by (fastforce simp: repaired_def)
qed

lemma repaired_table_keys [simp]: "keys_of (repaired_table t) = keys_of t" "table_size (repaired_table t) = table_size t"
  "at < table_size t \<Longrightarrow> key_at (repaired_table t) at = key_at t at"
  by (simp_all add: repaired_table_def keys_of_def table_size_def key_at_def repaired_def)

lemma repaired_set_slot: "at < table_size t \<Longrightarrow>
    repaired (entries (set_slot at h t)) = entries (set_slot at (repair_slot h) (repaired_table t))"
  by (simp add: set_slot_def repaired_table_def repaired_def map_update key_at_def table_size_def)

lemma repaired_insert: "repaired (entries (chunk_insert at key h t)) = entries (chunk_insert at key (repair_slot h) (repaired_table t))"
  by (simp add: chunk_insert_def repaired_table_def repaired_def take_map drop_map advance_def)

lemma loose_set_slot:
  assumes "loose_ok (entries t)" "at < table_size t" "wf_container h" "values_of h \<noteq> {}"
  shows "loose_ok (entries (set_slot at h t))"
    "chunk_values (entries (set_slot at h t)) c = (if c = key_at t at then values_of h else chunk_values (entries t) c)"
proof -
  note r = repaired_set_slot [OF assms(2), of h] repair_slot_correct [OF assms(3,4)]
  have t: "table_ok (entries (repaired_table t))" "at < table_size (repaired_table t)"
    using assms(1,2) by (simp_all add: loose_ok_iff repaired_table_def table_size_def)
  have "\<forall>(_, h)\<in>set (entries (set_slot at h t)). wf_container h"
    using assms(1,3) set_update_subset_insert [of "entries t" at "(key_at t at, h)"] by (auto simp: loose_ok_iff set_slot_def)
  then show "loose_ok (entries (set_slot at h t))" using set_slot_ok(1) [OF t r(2)] r(1) by (simp add: loose_ok_iff)
  have "chunk_values (repaired (entries (set_slot at h t))) c = (if c = key_at t at then values_of h else chunk_values (repaired (entries t)) c)"
    unfolding r(1) set_slot_ok(2) [OF t] using r(3) assms(2) by (simp add: repaired_table_def key_at_def repaired_def table_size_def)
  then show "chunk_values (entries (set_slot at h t)) c = (if c = key_at t at then values_of h else chunk_values (entries t) c)" by simp
qed

lemma loose_insert:
  assumes "loose_ok (entries t)" "key \<notin> set (keys_of t)" "at = lower_bound (keys_of t) key" "slot_ok h"
  shows "loose_ok (entries (chunk_insert at key h t))"
    "chunk_values (entries (chunk_insert at key h t)) c = (if c = key then values_of h else chunk_values (entries t) c)"
proof -
  note r = repaired_insert [of at key h t] repair_slot_correct [OF slot_ok_facts(1,3) [OF assms(4)]]
  have t: "table_ok (entries (repaired_table t))" "key \<notin> set (keys_of (repaired_table t))" "at = lower_bound (keys_of (repaired_table t)) key"
    using assms(1-3) by (simp_all add: loose_ok_iff, simp add: repaired_table_def)
  have "\<forall>(_, h)\<in>set (entries (chunk_insert at key h t)). wf_container h"
    using assms(1) slot_ok_facts(1) [OF assms(4)] set_take_subset [of at "entries t"] set_drop_subset [of at "entries t"]
    by (auto simp: loose_ok_iff chunk_insert_def advance_def)
  then show "loose_ok (entries (chunk_insert at key h t))" using chunk_insert_ok(1) [OF t r(2)] r(1) by (simp add: loose_ok_iff)
  have "chunk_values (repaired (entries (chunk_insert at key h t))) c = (if c = key then values_of h else chunk_values (repaired (entries t)) c)"
    unfolding r(1) chunk_insert_ok(2) [OF t r(2)] using r(3) by (simp add: repaired_table_def)
  then show "chunk_values (entries (chunk_insert at key h t)) c = (if c = key then values_of h else chunk_values (entries t) c)" by simp
qed

lemma append_filled_entries: "all_filled rs \<Longrightarrow> entries (append_filled rs t) = entries t @ rs"
  by (induction rs arbitrary: t) (auto simp: append_filled_def)

lemma loose_append:
  assumes "loose_ok es" "table_ok rs" "\<forall>key\<in>fst ` set rs. \<forall>k\<in>fst ` set es. k < key"
  shows "loose_ok (es @ rs)" "chunk_values (es @ rs) c = chunk_values es c \<union> chunk_values rs c"
proof -
  show "loose_ok (es @ rs)"
    using assms slot_ok_facts(1,3) by (fastforce simp: loose_ok_def table_ok_def sorted_wrt_append)
  show "chunk_values (es @ rs) c = chunk_values es c \<union> chunk_values rs c"
  proof (cases "c \<in> fst ` set es")
    case True
    then have "c \<notin> fst ` set rs" using assms(3) by blast
    then show ?thesis using True by (simp add: chunk_values_append chunk_values_none)
  next
    case False
    then show ?thesis by (simp add: chunk_values_append chunk_values_none)
  qed
qed

lemma lower_bound_at:
  assumes "strict keys" "\<forall>i<n. keys ! i < key" "n < length keys" "key < keys ! n"
  shows "lower_bound keys key = n" "key \<notin> set keys"
proof -
  have "takeWhile (\<lambda>x. x < key) keys = take n keys" using assms by (intro takeWhile_eq_take_P_nth) auto
  then show n: "lower_bound keys key = n" using assms(3) by (simp add: lower_bound_def partition_point_def)
  then show "key \<notin> set keys" using lower_bound_mem [OF assms(1), of key] assms(4) by auto
qed

text \<open>The keys in front of the walk are below the keys still to come.\<close>

definition behind :: "nat \<Rightarrow> slots \<Rightarrow> 16 word chunk_store \<Rightarrow> bool" where
  "behind at rs t \<longleftrightarrow> (\<forall>key\<in>fst ` set rs. \<forall>i<at. i < table_size t \<longrightarrow> key_at t i < key)"

lemma behind_all:
  assumes "behind at rs t" "rs = [] \<or> table_size t \<le> at"
  shows "\<forall>key\<in>fst ` set rs. \<forall>k\<in>fst ` set (entries t). k < key"
proof (cases "rs = []")
  case False
  then have size: "table_size t \<le> at" using assms(2) by simp
  show ?thesis
  proof (intro ballI)
    fix key k
    assume key: "key \<in> fst ` set rs" and "k \<in> fst ` set (entries t)"
    then obtain e where e: "e \<in> set (entries t)" "k = fst e" by blast
    obtain i where i: "i < length (entries t)" "entries t ! i = e" using e(1) by (auto simp: in_set_conv_nth)
    then have "key_at t i = k" "i < table_size t" using e(2) by (simp_all add: key_at_def table_size_def)
    then show "k < key" using assms(1) key size unfolding behind_def by fastforce
  qed
qed simp

lemma lazy_union_walk_correct:
  assumes "loose_ok (entries t)" "table_ok rs" "behind at rs t"
  shows "\<exists>t'. lazy_union_walk (\<lambda>key. lazy_union_slot eager (garbage key)) at rs t = Some t' \<and> loose_ok (entries t') \<and>
    (\<forall>c. chunk_values (entries t') c = chunk_values (entries t) c \<union> chunk_values rs c)"
  using assms
proof (induction "\<lambda>key. lazy_union_slot eager (garbage key)" at rs t rule: lazy_union_walk.induct)
  case (1 at rs t)
  note unfold = lazy_union_walk.simps [of _ at rs t]
  show ?case
  proof (cases "rs = [] \<or> table_size t \<le> at")
    case True
    then show ?thesis
      using loose_append [OF "1.prems"(1,2) behind_all [OF "1.prems"(3) True]] append_filled_entries [OF table_all_filled [OF "1.prems"(2)], of t]
      by (simp add: unfold)
  next
    case False
    then obtain k r rs' where rs: "rs = (k, r) # rs'" by (cases rs) auto
    note unfold = lazy_union_walk.simps [of _ at "(k, r) # rs'" t]
    have lt: "at < table_size t" using False by simp
    have ok: "slot_ok r" "table_ok rs'" "\<forall>key\<in>fst ` set rs'. k < key" "container_size r \<noteq> 0"
      using "1.prems"(2) slot_ok_facts(6) [of r] by (simp_all add: rs table_ok_Cons)
    have keys: "strict (keys_of t)" using "1.prems"(1) by (simp add: loose_ok_def keys_of_def)
    have before: "key_at t i < k" if "i < at" for i using "1.prems"(3) that lt by (simp add: behind_def rs)
    have later: "chunk_values rs' k = {}" using ok(3) by (intro chunk_values_none) blast
    consider "key_at t at < k" | "k < key_at t at" | "key_at t at = k" by (rule linorder_cases)
    then show ?thesis
    proof cases
      case 1
      then have "behind (at + 1) rs t" using "1.prems"(3) ok(3) by (fastforce simp: behind_def rs less_Suc_eq)
      from "1.hyps"(1) [OF False refl refl _ 1 "1.prems"(1,2) this] show ?thesis using False 1 by (simp add: unfold rs Let_def)
    next
      case 2
      have at: "lower_bound (keys_of t) k = at" "k \<notin> set (keys_of t)"
        using lower_bound_at [OF keys, of at k] before lt 2 by (simp_all add: key_at_nth)
      note ins = loose_insert [OF "1.prems"(1) at(2) at(1) [symmetric] ok(1)]
      have "key_at (chunk_insert at k r t) i \<le> k" if "i < at + 1" for i
        using before [of i] that lt by (auto simp: chunk_insert_def key_at_def advance_def nth_append table_size_def less_Suc_eq)
      then have "behind (at + 1) (tl rs) (chunk_insert at k r t)" using ok(3) le_less_trans unfolding behind_def rs list.sel by blast
      from "1.hyps"(2) [OF False refl _ _ less_not_sym [OF 2] 2 ok(4) ins(1) _ this] obtain t'
        where t': "lazy_union_walk (\<lambda>key. lazy_union_slot eager (garbage key)) (at + 1) rs' (chunk_insert at k r t) = Some t'"
          "loose_ok (entries t')" "\<forall>c. chunk_values (entries t') c = chunk_values (entries (chunk_insert at k r t)) c \<union> chunk_values rs' c"
        using ok(2) by (auto simp: rs)
      have "chunk_values (entries t) k = {}" using at(2) by (intro chunk_values_none) (simp add: keys_of_def)
      then have "\<forall>c. chunk_values (entries t') c = chunk_values (entries t) c \<union> chunk_values rs c"
        using t'(3) ins(2) later by (simp add: rs chunk_values_Cons)
      then show ?thesis using t'(1,2) False 2 less_not_sym [OF 2] ok(4) by (simp add: unfold rs Let_def)
    next
      case 3
      have l: "wf_container (slot_at t at)" "values_of (slot_at t at) \<noteq> {}"
        using "1.prems"(1) nth_mem [of at "entries t"] lt by (auto simp: loose_ok_def slot_at_def table_size_def case_prod_unfold)
      obtain h where h: "lazy_union_slot eager (garbage (key_at t at)) (slot_at t at) r = Some h" "wf_container h"
        "values_of h = values_of (slot_at t at) \<union> values_of r"
        using lazy_union_slot_correct [OF l(1), of "values_of r" r eager "garbage (key_at t at)"] ok(1) by (auto simp: slot_ok_exact)
      have "values_of h \<noteq> {}" using h(3) l(2) by simp
      note put = loose_set_slot [OF "1.prems"(1) lt h(2) this]
      have "key_at t i \<le> k" if "i < at + 1" for i using before [of i] 3 that by (cases "i = at") simp_all
      then have "behind (at + 1) (tl rs) (set_slot at h t)" using ok(3) le_less_trans unfolding behind_def rs list.sel set_slot_key_at by blast
      from "1.hyps"(4) [OF False refl refl _ _ _ h(1) put(1) _ this, of k] obtain t'
        where t': "lazy_union_walk (\<lambda>key. lazy_union_slot eager (garbage key)) (at + 1) rs' (set_slot at h t) = Some t'"
          "loose_ok (entries t')" "\<forall>c. chunk_values (entries t') c = chunk_values (entries (set_slot at h t)) c \<union> chunk_values rs' c"
        using ok(2) 3 by (auto simp: rs)
      have "(k, slot_at t at) \<in> set (entries t)" 
        using 3 lt nth_mem [of at "entries t"] by (cases "entries t ! at") (simp add: key_at_def slot_at_def table_size_def)
      then have "chunk_values (entries t) k = values_of (slot_at t at)"
        using "1.prems"(1) by (simp add: chunk_values_def loose_ok_def strict_distinct)
      then have "\<forall>c. chunk_values (entries t') c = chunk_values (entries t) c \<union> chunk_values rs c"
        using t'(3) put(2) later 3 h(3) by (auto simp: rs chunk_values_Cons)
      then show ?thesis using t'(1,2) False 3 h(1) by (simp add: unfold rs Let_def)
    qed
  qed
qed

subsection \<open>The bitmap\<close>

text \<open>A bitmap that holds the keys \<open>S\<close>: a finished one, or one whose counts are deferred.\<close>

definition holds_keys :: "key32 set \<Rightarrow> bitmap \<Rightarrow> bool" where
  "holds_keys S b \<longleftrightarrow> bitmap_ok S b \<or> unsettled_ok S b \<and> counts_deferred b"

lemma unsettled_loose: "unsettled_ok S b \<longleftrightarrow> loose_ok (bitmap_slots b) \<and> (\<forall>c. chunk_values (bitmap_slots b) c = lows S c)"
  by (simp add: unsettled_ok_def loose_ok_def bitmap_slots_def keys_of_def)

lemma finished_unsettled: "bitmap_ok S b \<Longrightarrow> unsettled_ok S b"
  using bitmap_slots_ok(1) [of S b] bitmap_okD(4) [of S b] slot_ok_facts(1,3)
  by (auto simp: unsettled_loose loose_ok_def table_ok_def bitmap_slots_def)

lemma holds_keys_unsettled: "holds_keys S b \<Longrightarrow> unsettled_ok S b"
  using finished_unsettled by (auto simp: holds_keys_def)

lemma settle_counts_correct: "holds_keys S b \<Longrightarrow> bitmap_ok S (settle_counts b)"
  using repair_cardinality_correct [of S b] by (auto simp: holds_keys_def settle_counts_def finished_not_deferred)

theorem bulk_or_inplace_correct:
  assumes "holds_keys S b" "bitmap_ok B other"
  shows "\<exists>s. bulk_or_inplace eager garbage b other = Some s \<and> holds_keys (S \<union> B) s \<and> bitmap_ok (S \<union> B) (repair_cardinality s)"
proof -
  have l: "loose_ok (entries (chunks b))" "chunk_values (entries (chunks b)) c = lows S c" for c
    using holds_keys_unsettled [OF assms(1)] by (simp_all add: unsettled_loose bitmap_slots_def)
  obtain t where t: "lazy_union_walk (\<lambda>key. lazy_union_slot eager (garbage key)) 0 (bitmap_slots other) (chunks b) = Some t" "loose_ok (entries t)"
    "\<forall>c. chunk_values (entries t) c = lows S c \<union> chunk_values (bitmap_slots other) c"
    using lazy_union_walk_correct [OF l(1) bitmap_slots_ok(1) [OF assms(2)], of 0 eager garbage] l(2) by (auto simp: behind_def)
  let ?s = "b\<lparr>chunks := t, total_size := size_deferred\<rparr>"
  have u: "unsettled_ok (S \<union> B) ?s"
    using t(2,3) bitmap_okD(4) [OF assms(2)] by (simp add: unsettled_loose bitmap_slots_def lows_set_ops)
  have "counts_deferred ?s" by (simp add: counts_deferred_def)
  then show ?thesis using t(1) u repair_cardinality_correct [OF u] by (simp add: bulk_or_inplace_def holds_keys_def)
qed

text \<open>Any number of folds.\<close>

fun bulk_or_all :: "bool \<Rightarrow> (16 word \<Rightarrow> nat \<Rightarrow> word64) \<Rightarrow> bitmap list \<Rightarrow> bitmap \<Rightarrow> bitmap option" where
  "bulk_or_all eager garbage [] b = Some b"
| "bulk_or_all eager garbage (other # others) b = Option.bind (bulk_or_inplace eager garbage b other) (bulk_or_all eager garbage others)"

lemma bulk_or_all_correct:
  assumes "holds_keys S b" "list_all2 bitmap_ok Bs others"
  shows "\<exists>s. bulk_or_all eager garbage others b = Some s \<and> holds_keys (S \<union> \<Union> (set Bs)) s"
  using assms(2,1)
proof (induction Bs others arbitrary: S b rule: list_all2_induct)
  case (Cons B Bs other others)
  obtain s where "bulk_or_inplace eager garbage b other = Some s" "holds_keys (S \<union> B) s"
    using bulk_or_inplace_correct [OF Cons.prems Cons.hyps(1)] by blast
  then show ?case using Cons.IH [of "S \<union> B" s] by (simp add: Un_assoc)
qed simp

subsection \<open>The operators\<close>

theorem assignment_operators:
  assumes "holds_keys A b" "bitmap_ok B other"
  shows "(\<exists>s. or_assign eager garbage unshared b other = Some s \<and> bitmap_ok (A \<union> B) s) \<and>
    (\<exists>s. and_assign eager garbage retired unshared b other = Some s \<and> bitmap_ok (A \<inter> B) s) \<and>
    (\<exists>s. andnot_assign eager garbage retired unshared b other = Some s \<and> bitmap_ok (A - B) s) \<and>
    (\<exists>s. xor_assign garbage unshared b other = Some s \<and> bitmap_ok (sym_diff A B) s)"
  using union_operator_correct [OF settle_counts_correct [OF assms(1)] assms(2)] combine_in_place_set [OF settle_counts_correct [OF assms(1)] assms(2)]
    xor_operator_correct [OF settle_counts_correct [OF assms(1)] assms(2)]
  unfolding or_assign_def and_assign_def andnot_assign_def xor_assign_def by blast

subsection \<open>Whether two bitmaps meet\<close>

lemma head_apart:
  assumes "table_ok ((k', r) # rs)" "k < k'"
  shows "chunk_values ((k', r) # rs) k = {}"
  using assms by (intro chunk_values_none) (auto simp: table_ok_Cons)

lemma bitmap_intersects_walk_correct:
  assumes "table_ok ls" "table_ok rs"
  shows "bitmap_intersects_walk ls rs \<longleftrightarrow> (\<exists>c. chunk_values ls c \<inter> chunk_values rs c \<noteq> {})"
  using assms
proof (induction ls rs rule: bitmap_intersects_walk.induct)
  case (1 k l ls k' r rs)
  have ok: "slot_ok l" "slot_ok r" "table_ok ls" "table_ok rs" using "1.prems" by (simp_all add: table_ok_Cons)
  consider "k < k'" | "k' < k" | "k = k'" by (rule linorder_cases)
  then show ?case
  proof cases
    case 1
    have "chunk_values ((k, l) # ls) c \<inter> chunk_values ((k', r) # rs) c = chunk_values ls c \<inter> chunk_values ((k', r) # rs) c" for c
      using head_apart [OF "1.prems"(2) 1] by (simp add: chunk_values_Cons [of k l ls])
    then show ?thesis using "1.IH"(1) [OF 1 ok(3) "1.prems"(2)] 1 by simp
  next
    case 2
    have "chunk_values ((k, l) # ls) c \<inter> chunk_values ((k', r) # rs) c = chunk_values ((k, l) # ls) c \<inter> chunk_values rs c" for c
      using head_apart [OF "1.prems"(1) 2] by (simp add: chunk_values_Cons [of k' r rs])
    then show ?thesis using "1.IH"(2) [OF less_not_sym [OF 2] 2 "1.prems"(1) ok(4)] 2 less_not_sym [OF 2] by simp
  next
    case 3
    have "container_intersects l r \<longleftrightarrow> values_of l \<inter> values_of r \<noteq> {}"
      using container_intersects_correct slot_ok_facts(1) ok(1,2) by blast
    moreover have none: "chunk_values ls k = {}"
      using below_table [OF "1.prems"(1), of k] by auto
    have both: "chunk_values ((k, l) # ls) c \<inter> chunk_values ((k', r) # rs) c
        = (if c = k then values_of l \<inter> values_of r else chunk_values ls c \<inter> chunk_values rs c)" for c
      using 3 by (simp add: chunk_values_Cons)
    show ?thesis
    proof (cases "container_intersects l r")
      case True
      then show ?thesis using 3 calculation both [of k] by (simp del: Int_iff) metis
    next
      case False
      then have "chunk_values ((k, l) # ls) c \<inter> chunk_values ((k', r) # rs) c = chunk_values ls c \<inter> chunk_values rs c" for c
        using both [of c] calculation none by (cases "c = k") simp_all
      then show ?thesis using "1.IH"(3) [OF _ _ False ok(3,4)] 3 False by simp
    qed
  qed
qed simp_all

theorem bitmap_intersects_correct:
  assumes "bitmap_ok A b" "bitmap_ok B other"
  shows "bitmap_intersects b other \<longleftrightarrow> A \<inter> B \<noteq> {}"
proof -
  have "bitmap_intersects b other \<longleftrightarrow> (\<exists>c. lows (A \<inter> B) c \<noteq> {})"
    using bitmap_intersects_walk_correct [OF bitmap_slots_ok(1) bitmap_slots_ok(1), OF assms] bitmap_okD(4) [OF assms(1)] bitmap_okD(4) [OF assms(2)]
    by (simp add: bitmap_intersects_def bitmap_slots_def lows_set_ops)
  then show ?thesis by (auto simp: lows_def)
qed

end
