(* ===== verification/Bitmap_Upkeep.thy ===== *)
theory Bitmap_Upkeep
  imports Lazy_Union
begin

text \<open>
  The upkeep of a bitmap (\<open>bitmap_definitions.hpp\<close>): the finishers of lazy folds, the compactions the caller asks for, and
  the structural check. The finishers and compactions rewrite every slot in place; the check returns the text of the first
  invariant that does not hold. Parking of replaced payloads is not modelled.
\<close>

subsection \<open>The operations\<close>

definition each_slot :: "(container \<Rightarrow> container) \<Rightarrow> bitmap \<Rightarrow> bitmap" where
  "each_slot f b = b\<lparr>chunks := (chunks b)\<lparr>entries := map (\<lambda>(key, slot). (key, f slot)) (entries (chunks b))\<rparr>\<rparr>"

definition optimize_container_for_policy :: "bool \<Rightarrow> container \<Rightarrow> container" where
  "optimize_container_for_policy eager h = optimize_container_for_storage eager h array_to_bitset_threshold"

definition optimize_container_keep_bitsets_for_policy :: "bool \<Rightarrow> container \<Rightarrow> container" where
  "optimize_container_keep_bitsets_for_policy eager h = optimize_container_keep_bitsets eager h array_to_bitset_threshold"

definition bulk_or_finish :: "bool \<Rightarrow> bitmap \<Rightarrow> bitmap" where
  "bulk_or_finish eager b = each_slot (optimize_container_for_policy eager) (repair_cardinality b)"

definition bulk_or_finish_keep_bitsets :: "bitmap \<Rightarrow> bitmap" where
  "bulk_or_finish_keep_bitsets b = each_slot (optimize_container_keep_bitsets_for_policy True) (repair_cardinality b)"

definition bulk_or_repair_after_lazy :: "bitmap \<Rightarrow> bitmap" where
  "bulk_or_repair_after_lazy b =
    each_slot (\<lambda>slot.
      if holds_bitset slot \<and> cardinality slot \<le> array_to_bitset_threshold then array_from_bitset (bitset_words slot) (cardinality slot)
      else if holds_run slot then optimize_container_for_policy True slot
      else slot) (repair_cardinality b)"

text \<open>The operands are pointers, and a null one is passed over.\<close>

fun or_many_walk :: "bool \<Rightarrow> (16 word \<Rightarrow> nat \<Rightarrow> word64) \<Rightarrow> bitmap option list \<Rightarrow> bitmap \<Rightarrow> bitmap option" where
  "or_many_walk eager garbage [] b = Some b"
| "or_many_walk eager garbage (None # others) b = or_many_walk eager garbage others b"
| "or_many_walk eager garbage (Some other # others) b =
    Option.bind (bulk_or_inplace eager garbage b other) (or_many_walk eager garbage others)"

definition or_many_in_place :: "bool \<Rightarrow> (16 word \<Rightarrow> nat \<Rightarrow> word64) \<Rightarrow> bitmap option list \<Rightarrow> bitmap \<Rightarrow> bitmap option" where
  "or_many_in_place eager garbage others b = map_option bulk_or_repair_after_lazy (or_many_walk eager garbage others b)"

definition bitmap_optimize :: "bitmap \<Rightarrow> bitmap" where
  "bitmap_optimize b = each_slot (optimize_container_for_policy True) (settle_counts b)"

definition bitmap_optimize_keep_bitsets :: "bitmap \<Rightarrow> bitmap" where
  "bitmap_optimize_keep_bitsets b =
    each_slot (\<lambda>slot. if holds_bitset slot then optimize_bitset_run_only slot
                      else optimize_container_keep_bitsets_for_policy True slot) (settle_counts b)"

definition promote_large_arrays :: "nat \<Rightarrow> bitmap \<Rightarrow> bitmap" where
  "promote_large_arrays threshold b =
    each_slot (\<lambda>slot. if holds_array slot \<and> length (array_values slot) \<ge> threshold
                      then bitset_handle_from_sorted_values (array_values slot) make_array else slot) b"

definition run_shaped_run_count :: "container \<Rightarrow> nat \<Rightarrow> nat" where
  "run_shaped_run_count chunk min_mean_run_length =
    (if holds_run chunk then 0
     else let n = container_size chunk
          in if n = 0 then 0
             else let max_runs = n div min_mean_run_length;
                      counted_runs = (if holds_array chunk then run_count_from_sorted_values (array_values chunk) (max_runs + 1)
                                      else run_count_from_bitset_words (bitset_words chunk) (max_runs + 1))
                  in if counted_runs \<le> max_runs then counted_runs else 0)"

definition run_encode_if_run_shaped :: "nat \<Rightarrow> container \<Rightarrow> container" where
  "run_encode_if_run_shaped min_mean_run_length chunk =
    (let run_count = run_shaped_run_count chunk min_mean_run_length
     in if run_count = 0 then chunk
        else if holds_array chunk then run_handle_from_counted_values (array_values chunk) run_count
        else run_handle_from_counted_words (bitset_words chunk) run_count (container_size chunk))"

definition optimize_run_shaped :: "nat \<Rightarrow> bitmap \<Rightarrow> bitmap" where
  "optimize_run_shaped min_mean_run_length b = each_slot (run_encode_if_run_shaped min_mean_run_length) (settle_counts b)"

definition bitmap_back :: "bitmap \<Rightarrow> key32" where
  "bitmap_back b =
    (if bitmap_empty b then 0
     else let t = chunks b; last_i = table_size t - 1 in compose32 (key_at t last_i) (container_last (slot_at t last_i)))"

subsection \<open>The structural check\<close>

fun validate_runs :: "low option \<Rightarrow> run list \<Rightarrow> nat \<Rightarrow> string + nat" where
  "validate_runs previous_end [] counted_values = Inr counted_values"
| "validate_runs previous_end (r # rs) counted_values =
    (if rend r < rbegin r then Inl ''a run ends before it begins''
     else if (case previous_end of None \<Rightarrow> False | Some e \<Rightarrow> \<not> e < rbegin r) then Inl ''runs overlap or are out of order''
     else validate_runs (Some (rend r)) rs (counted_values + (unat (rend r) - unat (rbegin r)) + 1))"

definition validate_slot :: "bool \<Rightarrow> container \<Rightarrow> string option" where
  "validate_slot canonical_kinds slot =
    (let n = cardinality slot
     in case kind slot of
          Array_kind \<Rightarrow>
            (let vs = array_values slot
             in if length vs \<noteq> n then Some ''an array's cardinality header differs from its length''
                else if n > array_to_bitset_threshold then Some ''an array holds more values than the array limit''
                else if \<not> list_all (\<lambda>i. vs ! (i - 1) < vs ! i) [1..<n] then Some ''an array's values are not strictly ascending''
                else None)
        | Bitset_kind \<Rightarrow>
            (if popcount_words (bitset_words slot) \<noteq> n then Some ''a bitset's cardinality header differs from its popcount''
             else if canonical_kinds \<and> n \<le> array_to_bitset_threshold then Some ''a bitset holds no more values than the array limit''
             else None)
        | Run_kind \<Rightarrow>
            (case validate_runs None (run_list slot) 0 of
               Inl problem \<Rightarrow> Some problem
             | Inr counted_values \<Rightarrow> if counted_values \<noteq> n then Some ''a run container's cardinality header differs from its runs'' else None))"

fun validate_slots :: "bool \<Rightarrow> 16 word option \<Rightarrow> slots \<Rightarrow> nat \<Rightarrow> string + nat" where
  "validate_slots canonical_kinds previous [] total_n = Inr total_n"
| "validate_slots canonical_kinds previous ((key, slot) # rest) total_n =
    (if (case previous of None \<Rightarrow> False | Some k \<Rightarrow> \<not> k < key) then Inl ''chunk keys are not strictly ascending''
     else if cardinality slot = 0 then Inl ''a chunk holds an empty container''
     else case validate_slot canonical_kinds slot of
            Some problem \<Rightarrow> Inl problem
          | None \<Rightarrow> validate_slots canonical_kinds (Some key) rest (total_n + cardinality slot))"

definition bitmap_validate :: "bool \<Rightarrow> bitmap \<Rightarrow> string option" where
  "bitmap_validate canonical_kinds b =
    (case chunk_validate (chunks b) of
       Some problem \<Rightarrow> Some problem
     | None \<Rightarrow>
         (case validate_slots canonical_kinds None (bitmap_slots b) 0 of
            Inl problem \<Rightarrow> Some problem
          | Inr total_n \<Rightarrow> if total_n \<noteq> total_size b then Some ''the size differs from the sum of the container cardinalities'' else None))"

subsection \<open>Every slot keeps its values\<close>

lemma each_slot_fields [simp]:
  "total_size (each_slot f b) = total_size b" "keys_of (chunks (each_slot f b)) = keys_of (chunks b)"
  "set (entries (chunks (each_slot f b))) = (\<lambda>(key, h). (key, f h)) ` set (entries (chunks b))"
  by (simp_all add: each_slot_def keys_of_def case_prod_unfold comp_def)

lemma each_slot_values:
  assumes "\<And>h. h \<in> snd ` set (entries (chunks b)) \<Longrightarrow> values_of (f h) = values_of h"
  shows "chunk_values (entries (chunks (each_slot f b))) c = chunk_values (entries (chunks b)) c"
proof -
  have "map_of (map (\<lambda>(key, h). (key, f h)) es) c = map_option f (map_of es c)" for es :: slots
    by (induction es) auto
  then show ?thesis
    using assms by (cases "map_of (entries (chunks b)) c") (force simp: each_slot_def chunk_values_def dest: map_of_SomeD)+
qed

lemma each_slot_ok:
  assumes "bitmap_ok S b" "\<And>T h. exact T h \<Longrightarrow> T \<noteq> {} \<Longrightarrow> exact T (f h)"
  shows "bitmap_ok S (each_slot f b)"
proof (rule bitmap_okI)
  have ok: "slot_ok (f h) \<and> values_of (f h) = values_of h" if m: "(key, h) \<in> set (entries (chunks b))" for key h
  proof -
    have h: "exact (values_of h) h" "values_of h \<noteq> {}" using table_okD [OF bitmap_okD(1) [OF assms(1)] m] by (simp_all add: slot_ok_exact)
    from assms(2) [OF h] slot_okI [OF assms(2) [OF h] h(2)] exact_wf(2) show ?thesis by blast
  qed
  have "strict (keys_of (chunks (each_slot f b)))" using bitmap_okD(5) [OF assms(1)] by simp
  moreover have "\<forall>(_, h)\<in>set (entries (chunks (each_slot f b))). slot_ok h" unfolding each_slot_fields(3) using ok by auto
  ultimately show "table_ok (entries (chunks (each_slot f b)))" by (simp add: table_ok_def keys_of_def)
  have "values_of (f h) = values_of h" if "h \<in> snd ` set (entries (chunks b))" for h using that ok by auto
  from each_slot_values [OF this] bitmap_okD(4) [OF assms(1)]
  show "chunk_values (entries (chunks (each_slot f b))) c = lows S c" for c by simp
  show "total_size (each_slot f b) = card S" using bitmap_okD(3) [OF assms(1)] by simp
qed

lemma each_slot_unsettled:
  assumes "unsettled_ok S b" "\<And>h. wf_container h \<Longrightarrow> wf_container (f h) \<and> values_of (f h) = values_of h"
  shows "unsettled_ok S (each_slot f b)"
  using assms each_slot_values [of b f] by (fastforce simp: unsettled_ok_def)

text \<open>The slots of a finished bitmap after the rewrite.\<close>

lemma each_slot_all:
  assumes "bitmap_ok S b" "\<And>T h. exact T h \<Longrightarrow> T \<noteq> {} \<Longrightarrow> P (f h)"
  shows "\<forall>(_, h)\<in>set (entries (chunks (each_slot f b))). P h"
  using assms table_okD [OF bitmap_okD(1) [OF assms(1)]] by (fastforce simp: slot_ok_exact)

subsection \<open>The finishers and the compactions\<close>

lemma threshold_4096: "array_to_bitset_threshold = 4096"
  by (simp add: array_to_bitset_threshold_def low_domain_size_def)

lemma exact_keep_bitsets: "exact T h \<Longrightarrow> exact T (optimize_container_keep_bitsets eager h threshold)"
  using exact_optimize by (simp add: optimize_container_keep_bitsets_def)

lemma exact_run_only:
  assumes "exact T h" "holds_bitset h"
  shows "exact T (optimize_bitset_run_only h)"
proof -
  note h = exact_wf [OF assms(1)]
  have "\<not> cardinality_stale (optimize_bitset_run_only h)" using h(3) by (simp add: optimize_bitset_run_only_def Let_def counted)
  then show ?thesis using optimize_bitset_run_only_correct(1) [OF h(1) assms(2) h(3)] h(2) by (simp add: exact_def)
qed

lemma run_shaped_count:
  assumes "exact T h" "T \<noteq> {}"
  shows "run_shaped_run_count h n =
    (if holds_run h \<or> card T div n < card (run_starts T) then 0 else card (run_starts T))"
proof -
  have T: "container_size h = card T" "card T \<noteq> 0" "values_of h = T"
    using exact_size [OF assms(1)] exact_wf(2) [OF assms(1)] finite_values_of [of h] assms(2) by auto
  show ?thesis
  proof (cases h rule: form_cases)
    case run
    then show ?thesis by (simp add: run_shaped_run_count_def)
  next
    case array
    note a = exact_array [OF assms(1) array(1)]
    have "run_count_from_sorted_values (array_values h) (card T div n + 1) = min (card T div n + 1) (card (run_starts T))"
      using run_count_from_sorted_values_eq [OF a(2)] a(3) by simp
    then show ?thesis using T array forms_distinct(1) [OF array(1)] by (auto simp: run_shaped_run_count_def Let_def)
  next
    case bitset
    note b = exact_bitset [OF assms(1) bitset(1)]
    have "run_count_from_bitset_words (bitset_words h) (card T div n + 1) = min (card T div n + 1) (card (run_starts T))"
      using run_count_from_bitset_words_eq [of "bitset_words h"] b(2) by simp
    then show ?thesis using T bitset forms_distinct [of h] by (auto simp: run_shaped_run_count_def Let_def)
  qed
qed

lemma exact_run_shaped:
  assumes "exact T h" "T \<noteq> {}"
  shows "exact T (run_encode_if_run_shaped n h)"
    "0 < n \<Longrightarrow> holds_run (run_encode_if_run_shaped n h) \<or> card T < n * card (run_starts T)"
proof -
  define r where "r = card (run_starts T)"
  note count = run_shaped_count [OF assms, of n, folded r_def]
  have size: "container_size h = card T" by (rule exact_size [OF assms(1)])
  have both: "exact T (run_encode_if_run_shaped n h) \<and> (run_shaped_run_count h n \<noteq> 0 \<longrightarrow> holds_run (run_encode_if_run_shaped n h))"
  proof (cases "run_shaped_run_count h n = 0")
    case True
    then show ?thesis using assms(1) by (simp add: run_encode_if_run_shaped_def)
  next
    case False
    then have n: "run_shaped_run_count h n = r" "\<not> holds_run h" "r \<noteq> 0" unfolding count by (auto split: if_splits)
    show ?thesis
    proof (cases "holds_array h")
      case True
      note a = exact_array [OF assms(1) True]
      have "array_values h \<noteq> []" using a(3) assms(2) by auto
      from run_handle_from_counted_values_correct [OF a(2) this] a(3)
      show ?thesis using True n by (simp add: run_encode_if_run_shaped_def exact_def counted r_def)
    next
      case False
      then have "holds_bitset h" using n(2) by (cases h rule: form_cases) auto
      note b = exact_bitset [OF assms(1) this]
      from run_handle_from_counted_words_correct [OF b(1)] b(2) assms(2)
      show ?thesis using False n by (simp add: run_encode_if_run_shaped_def exact_def counted r_def size)
    qed
  qed
  then show "exact T (run_encode_if_run_shaped n h)" by blast
  show "holds_run (run_encode_if_run_shaped n h) \<or> card T < n * card (run_starts T)" if "0 < n"
  proof (cases "run_shaped_run_count h n = 0")
    case True
    have "finite T" using finite_values_of [of h] exact_wf(2) [OF assms(1)] by simp
    then have "Min T \<in> T" "\<forall>x\<in>T. Min T \<le> x" using assms(2) by simp_all
    then have "Min T \<in> run_starts T" by (fastforce simp: run_starts_def)
    moreover have "finite (run_starts T)" using \<open>finite T\<close> by (rule rev_finite_subset) (auto simp: run_starts_def)
    ultimately have "r \<noteq> 0" unfolding r_def by auto
    then have "holds_run h \<or> card T div n < r" using True unfolding count by (auto split: if_splits)
    then show ?thesis using True that by (auto simp: run_encode_if_run_shaped_def r_def div_less_iff_less_mult mult.commute)
  qed (use both in blast)
qed

theorem upkeep_correct:
  assumes "holds_keys S b"
  shows "bitmap_ok S (bulk_or_finish eager b)" "bitmap_ok S (bulk_or_finish_keep_bitsets b)" "bitmap_ok S (bulk_or_repair_after_lazy b)"
    "bitmap_ok S (bitmap_optimize b)" "bitmap_ok S (bitmap_optimize_keep_bitsets b)" "bitmap_ok S (optimize_run_shaped n b)"
proof -
  note r = repair_cardinality_correct [OF holds_keys_unsettled [OF assms]]
  note s = settle_counts_correct [OF assms]
  have o: "exact T (optimize_container_for_policy eager h)" if "exact T h" for T h eager
    unfolding optimize_container_for_policy_def by (rule exact_optimize [OF that])
  have k: "exact T (optimize_container_keep_bitsets_for_policy eager h)" if "exact T h" for T h eager
    unfolding optimize_container_keep_bitsets_for_policy_def by (rule exact_keep_bitsets [OF that])
  show "bitmap_ok S (bulk_or_finish eager b)" unfolding bulk_or_finish_def by (rule each_slot_ok [OF r o])
  show "bitmap_ok S (bulk_or_finish_keep_bitsets b)" unfolding bulk_or_finish_keep_bitsets_def by (rule each_slot_ok [OF r k])
  show "bitmap_ok S (bulk_or_repair_after_lazy b)"
    unfolding bulk_or_repair_after_lazy_def by (rule each_slot_ok [OF r]) (simp add: exact_from_bitset o)
  show "bitmap_ok S (bitmap_optimize b)" unfolding bitmap_optimize_def by (rule each_slot_ok [OF s o])
  show "bitmap_ok S (bitmap_optimize_keep_bitsets b)"
    unfolding bitmap_optimize_keep_bitsets_def by (rule each_slot_ok [OF s]) (simp add: exact_run_only k)
  show "bitmap_ok S (optimize_run_shaped n b)" unfolding optimize_run_shaped_def by (rule each_slot_ok [OF s exact_run_shaped(1)])
qed

lemma optimize_run_form:
  assumes "wf_container h" "holds_run h" "holds_bitset (optimize_container_for_storage True h threshold)"
  shows "threshold \<le> card (values_of h)"
proof (rule ccontr)
  assume less: "\<not> threshold \<le> card (values_of h)"
  obtain rs where rs: "run_list h = rs" "\<not> cardinality_stale h" using assms(1,2) by (rule wf_runE)
  have "cardinality h = card (values_of h)" by (rule exact_cardinality [OF assms(1) rs(2)])
  then have "choose_run_container_kind (cardinality h) (length rs) threshold \<noteq> Bitset_kind"
    using less by (auto simp: choose_run_container_kind_def is_bitset_cardinality_def Let_def)
  then show False
    using assms(2,3) array_handle_from_container_correct(2) [OF assms(1) rs(2)] forms_distinct(2) [OF assms(2)]
    by (auto simp: optimize_run [OF assms(1,2)] settle_run_result_def Let_def rs(1) make_array_def holds_payload split: if_splits container_kind.splits)
qed

text \<open>What the passes leave: no small bitset, the least forms, no run-shaped chunk in another form.\<close>

theorem upkeep_forms:
  assumes "holds_keys S b"
  shows "\<forall>(_, h)\<in>set (entries (chunks (bulk_or_repair_after_lazy b))). holds_bitset h \<longrightarrow> 4096 \<le> card (values_of h)"
    "\<forall>(_, h)\<in>set (entries (chunks (bitmap_optimize b))). serialized_bytes h = least_bytes 4096 (values_of h)"
    "0 < n \<Longrightarrow> \<forall>(_, h)\<in>set (entries (chunks (optimize_run_shaped n b))). holds_run h \<or> card (values_of h) < n * card (run_starts (values_of h))"
proof -
  note r = repair_cardinality_correct [OF holds_keys_unsettled [OF assms]]
  note s = settle_counts_correct [OF assms]
  show "\<forall>(_, h)\<in>set (entries (chunks (bitmap_optimize b))). serialized_bytes h = least_bytes 4096 (values_of h)"
    unfolding bitmap_optimize_def
  proof (rule each_slot_all [OF s])
    fix T h assume e: "exact T h" "T \<noteq> {}"
    have "values_of (optimize_container_for_policy True h) = T"
      using exact_wf(2) [OF exact_optimize [OF e(1)]] by (simp add: optimize_container_for_policy_def)
    then show "serialized_bytes (optimize_container_for_policy True h) = least_bytes 4096 (values_of (optimize_container_for_policy True h))"
      using optimize_container_for_storage_least [of h 4096] exact_wf [OF e(1)] e(2) by (simp add: optimize_container_for_policy_def threshold_4096)
  qed
  show "\<forall>(_, h)\<in>set (entries (chunks (bulk_or_repair_after_lazy b))). holds_bitset h \<longrightarrow> 4096 \<le> card (values_of h)"
    unfolding bulk_or_repair_after_lazy_def
  proof (rule each_slot_all [OF r])
    fix T h assume e: "exact T h" "T \<noteq> {}"
    let ?f = "if holds_bitset h \<and> cardinality h \<le> array_to_bitset_threshold then array_from_bitset (bitset_words h) (cardinality h)
      else if holds_run h then optimize_container_for_policy True h else h"
    note h = exact_wf [OF e(1)]
    show "holds_bitset ?f \<longrightarrow> 4096 \<le> card (values_of ?f)"
    proof (cases h rule: form_cases)
      case run
      then show ?thesis
        using forms_distinct [of h] optimize_run_form [OF h(1) run(1)] exact_wf(2) [OF exact_optimize [OF e(1)]] h(2)
        by (auto simp: optimize_container_for_policy_def threshold_4096)
    next
      case array
      then show ?thesis using forms_distinct [of h] by simp
    next
      case bitset
      have "payload (array_from_bitset (bitset_words h) (cardinality h)) = Array_payload (values_from_words (bitset_words h))"
        using exact_bitset [OF e(1) bitset(1)] exact_count [OF e(1)] by (intro array_from_bitset_correct(2)) simp_all
      then have "\<not> holds_bitset (array_from_bitset (bitset_words h) (cardinality h))" by (simp add: holds_payload)
      then show ?thesis using bitset exact_count [OF e(1)] h(2) forms_distinct(2) [of h] by (auto simp: threshold_4096)
    qed
  qed
  show "\<forall>(_, h)\<in>set (entries (chunks (optimize_run_shaped n b))). holds_run h \<or> card (values_of h) < n * card (run_starts (values_of h))"
    if n: "0 < n" unfolding optimize_run_shaped_def
  proof (rule each_slot_all [OF s])
    fix T h assume e: "exact T h" "T \<noteq> {}"
    show "holds_run (run_encode_if_run_shaped n h) \<or>
        card (values_of (run_encode_if_run_shaped n h)) < n * card (run_starts (values_of (run_encode_if_run_shaped n h)))"
      using exact_run_shaped(2) [OF e n] exact_wf(2) [OF exact_run_shaped(1) [OF e]] by simp
  qed
qed

theorem promote_large_arrays_correct:
  assumes "holds_keys S b"
  shows "holds_keys S (promote_large_arrays threshold b)"
proof -
  let ?f = "\<lambda>slot. if holds_array slot \<and> length (array_values slot) \<ge> threshold
    then bitset_handle_from_sorted_values (array_values slot) make_array else slot"
  have e: "exact T (?f h)" if "exact T h" for T h
    using that exact_array(2,3) [OF that] exact_bitset_of_values [of "array_values h" make_array] by auto
  have "wf_container (?f h) \<and> values_of (?f h) = values_of h" if w: "wf_container h" for h
  proof (cases "holds_array h")
    case True
    obtain vs where "\<not> cardinality_stale h" using w True by (rule wf_arrayE)
    then have "exact (values_of h) h" using w by (auto simp: exact_def holds_set_def)
    from exact_wf(1,2) [OF e [OF this]] show ?thesis by blast
  qed (use w in simp)
  then have "unsettled_ok S (promote_large_arrays threshold b)" if "unsettled_ok S b"
    unfolding promote_large_arrays_def by (intro each_slot_unsettled [OF that])
  moreover have "bitmap_ok S (promote_large_arrays threshold b)" if "bitmap_ok S b"
    unfolding promote_large_arrays_def by (rule each_slot_ok [OF that e])
  ultimately show ?thesis using assms by (auto simp: holds_keys_def counts_deferred_def promote_large_arrays_def)
qed

theorem or_many_in_place_correct:
  assumes "holds_keys S b" "list_all2 (\<lambda>B other. case other of None \<Rightarrow> B = {} | Some other \<Rightarrow> bitmap_ok B other) Bs others"
  shows "\<exists>s. or_many_in_place eager garbage others b = Some s \<and> bitmap_ok (S \<union> \<Union> (set Bs)) s"
proof -
  have "\<exists>s. or_many_walk eager garbage others b = Some s \<and> holds_keys (S \<union> \<Union> (set Bs)) s"
    using assms(2,1)
  proof (induction Bs others arbitrary: S b rule: list_all2_induct)
    case (Cons B Bs other others)
    show ?case
    proof (cases other)
      case None
      then show ?thesis using Cons by simp
    next
      case (Some o')
      obtain s where "bulk_or_inplace eager garbage b o' = Some s" "holds_keys (S \<union> B) s"
        using bulk_or_inplace_correct [OF Cons.prems] Cons.hyps(1) Some by fastforce
      then show ?thesis using Cons.IH [of "S \<union> B" s] Some by (simp add: Un_assoc)
    qed
  qed simp
  then show ?thesis using upkeep_correct(3) by (fastforce simp: or_many_in_place_def)
qed

subsection \<open>The last key\<close>

theorem bitmap_back_correct:
  assumes "bitmap_ok S b" "S \<noteq> {}"
  shows "bitmap_back b = Max S"
proof -
  let ?t = "chunks b" and ?l = "table_size (chunks b) - 1"
  have ne: "entries ?t \<noteq> []" using assms bitmap_okD(2) [OF assms(1)] by (auto simp: table_set_def)
  then have l: "?l < table_size ?t" by (simp add: table_size_def)
  have "finite S" by simp
  then have "\<not> bitmap_empty b" using bitmap_okD(3) [OF assms(1)] assms(2) by (simp add: bitmap_empty_def)
  define c where "c = key_at ?t ?l"
  note slot = slot_at_ok [OF bitmap_okD(1) [OF assms(1)] l, folded c_def]
  have lows: "lows S c = values_of (slot_at ?t ?l)" using slot(2) bitmap_okD(4) [OF assms(1)] by simp
  note ok = slot_ok_facts(1,3) [OF slot(1)]
  define m where "m = container_last (slot_at ?t ?l)"
  have m: "unat m = Max (values_of (slot_at ?t ?l))" unfolding m_def by (rule container_first_last_correct(2) [OF ok])
  have "unat m \<in> lows S c" using Max_in [OF finite_values_of ok(2)] m lows by simp
  then have mem: "compose32 c m \<in> S" by (simp add: in_lows)
  have "v \<le> compose32 c m" if v: "v \<in> S" for v
  proof -
    have "chunk_key32 v \<in> set (keys_of ?t)"
      using absent_chunk [OF assms(1), of "chunk_key32 v"] lows_chunk [of v S] v by auto
    then obtain i where i: "i < table_size ?t" "keys_of ?t ! i = chunk_key32 v"
      by (auto simp: in_set_conv_nth keys_of_def table_size_def)
    have "chunk_key32 v < c \<or> chunk_key32 v = c"
    proof (cases "i = ?l")
      case False
      then have "keys_of ?t ! i < keys_of ?t ! ?l"
        using i(1) l by (intro sorted_wrt_nth_less [OF bitmap_okD(5) [OF assms(1)]]) (auto simp: keys_of_def table_size_def)
      then show ?thesis using i l by (simp add: c_def key_at_nth)
    qed (use i l in \<open>simp add: c_def key_at_nth\<close>)
    moreover have "low_key32 v \<le> m" if "chunk_key32 v = c"
    proof -
      have "unat (low_key32 v) \<in> values_of (slot_at ?t ?l)" using lows_chunk [of v S] v that lows by simp
      then show ?thesis using m Max_ge [OF finite_values_of] by (simp add: word_le_nat_alt)
    qed
    ultimately show ?thesis using key_order32 [of "compose32 c m" v] by (auto simp: split_compose32)
  qed
  then have "Max S = compose32 c m" using mem by (intro Max_eqI) simp_all
  then show ?thesis using \<open>\<not> bitmap_empty b\<close> by (simp add: bitmap_back_def Let_def c_def m_def)
qed

subsection \<open>The check accepts exactly the sound bitmaps\<close>

lemma ascending_scan: "list_all (\<lambda>i. xs ! (i - 1) < xs ! i) [1..<length xs] \<longleftrightarrow> strict (xs :: 'a :: linorder list)"
proof -
  have "list_all (\<lambda>i. xs ! (i - 1) < xs ! i) [1..<length xs] \<longleftrightarrow> (\<forall>i. Suc i < length xs \<longrightarrow> xs ! i < xs ! Suc i)" (is "?l \<longleftrightarrow> ?r")
  proof
    assume l: ?l
    show ?r
    proof (intro allI impI)
      fix i assume "Suc i < length xs"
      then have "Suc i \<in> set [1..<length xs]" by simp
      with l have "xs ! (Suc i - 1) < xs ! Suc i" unfolding list_all_iff by blast
      then show "xs ! i < xs ! Suc i" by simp
    qed
  next
    assume r: ?r
    have "xs ! (i - 1) < xs ! i" if "i \<in> set [1..<length xs]" for i
      using r [rule_format, of "i - 1"] that by simp
    then show ?l unfolding list_all_iff by blast
  qed
  then show ?thesis by (simp add: sorted_wrt_iff_nth_Suc_transp)
qed

lemma chunk_validate_iff: "chunk_validate t = None \<longleftrightarrow> strict (keys_of t) \<and> table_size t \<le> table_capacity t"
  using ascending_scan [of "keys_of t"] by (simp add: chunk_validate_def table_size_def keys_of_def)

text \<open>Runs may touch, which the updates never leave but the check does not mind.\<close>

definition runs_apart :: "run list \<Rightarrow> bool" where
  "runs_apart rs \<longleftrightarrow> sorted_wrt (\<lambda>r s. rend r < rbegin s) rs \<and> (\<forall>r\<in>set rs. run_ok r)"

lemma runs_apart_Cons: "runs_apart (r # rs) \<longleftrightarrow> run_ok r \<and> (\<forall>s\<in>set rs. rend r < rbegin s) \<and> runs_apart rs"
  by (auto simp: runs_apart_def)

lemma card_runs_apart: "runs_apart rs \<Longrightarrow> card (runs_set rs) = sum_list (map run_len rs)"
proof (induction rs)
  case (Cons r rs)
  have "run_set r \<inter> runs_set rs = {}"
    using Cons.prems by (fastforce simp: runs_apart_Cons runs_set_def run_set_def word_less_nat_alt)
  moreover have "runs_set (r # rs) = run_set r \<union> runs_set rs" "finite (run_set r)" "finite (runs_set rs)"
    by (simp_all add: runs_set_def run_set_def)
  moreover have "card (run_set r) = run_len r" using Cons.prems by (simp add: runs_apart_Cons run_set_def run_len_def run_ok_unat Suc_diff_le)
  ultimately show ?case using Cons by (simp add: card_Un_disjoint runs_apart_Cons)
qed (simp add: runs_set_def)

lemma validate_runs_iff:
  "validate_runs p rs n = Inr m \<longleftrightarrow>
    runs_apart rs \<and> (\<forall>e. p = Some e \<longrightarrow> (\<forall>r\<in>set rs. e < rbegin r)) \<and> m = n + sum_list (map run_len rs)"
proof (induction rs arbitrary: p n)
  case (Cons r rs)
  show ?case
  proof (cases "rend r < rbegin r \<or> (\<exists>e. p = Some e \<and> \<not> e < rbegin r)")
    case True
    then show ?thesis by (auto simp: runs_apart_Cons run_ok_def)
  next
    case False
    then have "run_ok r" "\<forall>e. p = Some e \<longrightarrow> e < rbegin r" by (auto simp: run_ok_def)
    moreover have "\<forall>s\<in>set rs. e < rbegin s" if "e < rbegin r" "\<forall>s\<in>set rs. rend r < rbegin s" for e
      using that \<open>run_ok r\<close> by (fastforce simp: run_ok_def)
    ultimately show ?thesis using False Cons.IH [of "Some (rend r)" "n + (unat (rend r) - unat (rbegin r)) + 1"]
      by (auto simp: runs_apart_Cons run_len_def split: option.splits)
  qed
qed (auto simp: runs_apart_def)

text \<open>What the check wants of a slot: an ordered payload within its limit, and the exact count in the header.\<close>

fun ordered_payload :: "payload \<Rightarrow> bool" where
  "ordered_payload (Array_payload vs) = strict vs"
| "ordered_payload (Run_payload rs) = runs_apart rs"
| "ordered_payload (Bitset_payload ws) = True"

definition sound_slot :: "bool \<Rightarrow> container \<Rightarrow> bool" where
  "sound_slot canonical_kinds h \<longleftrightarrow> ordered_payload (payload h) \<and> cardinality h = card (values_of h) \<and>
    (holds_array h \<longrightarrow> card (values_of h) \<le> 4096) \<and> (canonical_kinds \<and> holds_bitset h \<longrightarrow> 4096 < card (values_of h))"

lemma validate_slot_iff: "validate_slot canonical_kinds h = None \<longleftrightarrow> sound_slot canonical_kinds h"
proof (cases h rule: form_cases)
  case array
  then obtain vs where vs: "payload h = Array_payload vs" using holds_payload(1) by blast
  then have v: "array_values h = vs" by (simp add: array_values_def)
  have "card (array_set vs) = length vs" if "strict vs" using card_array_set [OF that] by simp
  then show ?thesis
    using array vs forms_distinct [of h] ascending_scan [of vs]
    by (auto simp: validate_slot_def Let_def v sound_slot_def threshold_4096)
next
  case run
  then obtain rs where rs: "payload h = Run_payload rs" using holds_payload(2) by blast
  then have r: "run_list h = rs" by (simp add: run_list_def)
  have "\<not> holds_array h" "\<not> holds_bitset h" using forms_distinct [of h] run(1) by auto
  then show ?thesis
    using run rs validate_runs_iff [of None rs 0] card_runs_apart [of rs]
    by (cases "validate_runs None rs 0") (auto simp: validate_slot_def Let_def r sound_slot_def)
next
  case bitset
  then obtain ws where ws: "payload h = Bitset_payload ws" using holds_payload(3) by blast
  then have w: "bitset_words h = ws" by (simp add: bitset_words_def)
  have "\<not> holds_array h" using forms_distinct [of h] bitset(1) by auto
  then show ?thesis
    using bitset ws by (auto simp: validate_slot_def Let_def w sound_slot_def popcount_words_card threshold_4096)
qed

lemma validate_slots_iff:
  "validate_slots canonical_kinds p es n = Inr m \<longleftrightarrow>
    strict (map fst es) \<and> (\<forall>k. p = Some k \<longrightarrow> (\<forall>key\<in>fst ` set es. k < key)) \<and>
    (\<forall>(_, h)\<in>set es. sound_slot canonical_kinds h \<and> values_of h \<noteq> {}) \<and> m = n + (\<Sum>(_, h)\<leftarrow>es. card (values_of h))"
proof (induction es arbitrary: p n)
  case (Cons e es)
  obtain key h where e: "e = (key, h)" by fastforce
  show ?case
  proof (cases "(\<exists>k. p = Some k \<and> \<not> k < key) \<or> cardinality h = 0 \<or> \<not> sound_slot canonical_kinds h")
    case True
    then have "validate_slots canonical_kinds p (e # es) n \<noteq> Inr m"
      using validate_slot_iff [of canonical_kinds h] by (auto simp: e split: option.splits)
    moreover have "\<not> (\<forall>k. p = Some k \<longrightarrow> k < key) \<or> values_of h = {} \<or> \<not> sound_slot canonical_kinds h"
      using True by (auto simp: sound_slot_def)
    ultimately show ?thesis by (auto simp: e)
  next
    case False
    then have "validate_slot canonical_kinds h = None" using validate_slot_iff [of canonical_kinds h] by blast
    then have step: "validate_slots canonical_kinds p (e # es) n = validate_slots canonical_kinds (Some key) es (n + cardinality h)"
      using False by (auto simp: e split: option.splits)
    have h: "cardinality h = card (values_of h)" "values_of h \<noteq> {}" "sound_slot canonical_kinds h" "\<And>k. p = Some k \<Longrightarrow> k < key"
      using False by (auto simp: sound_slot_def)
    have below: "(\<forall>k. p = Some k \<longrightarrow> (\<forall>k'\<in>fst ` set (e # es). k < k')) \<longleftrightarrow> True" if "\<forall>k'\<in>fst ` set es. key < k'"
      using that h(4) by (auto simp: e dest: less_trans)
    show ?thesis
      unfolding step Cons.IH h(1) using below h(2,3) by (auto simp: e)
  qed
qed auto

lemma card_table_set:
  assumes "distinct (map fst es)" "\<forall>(_, h)\<in>set es. values_of h \<subseteq> {..<65536}"
  shows "card (table_set es) = (\<Sum>(_, h)\<leftarrow>es. card (values_of h))"
  using assms
proof (induction es)
  case Nil
  show ?case by (simp add: table_set_def)
next
  case (Cons e es)
  obtain c h where e: "e = (c, h)" by fastforce
  have bound: "chunk_values fs c' \<subseteq> {..<65536}" if "set fs \<subseteq> set (e # es)" for c' fs
    using Cons.prems(2) that by (cases "map_of fs c'") (fastforce simp: chunk_values_def dest: map_of_SomeD)+
  have lows: "lows (table_set fs) c' = chunk_values fs c'" if "set fs \<subseteq> set (e # es)" for c' fs
    by (rule lows_eqI) (simp_all add: table_set_def split_compose32 bound [OF that])
  have none: "chunk_values es c = {}" using Cons.prems(1) by (intro chunk_values_none) (auto simp: e)
  have l: "lows (table_set es) c' = chunk_values es c'" for c' by (rule lows) auto
  have l': "lows (table_set (e # es)) c' = chunk_values (e # es) c'" for c' by (rule lows) simp
  have "card (table_set (e # es)) + card (lows (table_set es) c) = card (table_set es) + card (lows (table_set (e # es)) c)"
    by (rule card_change) (simp only: l l', simp add: e chunk_values_Cons)
  then have "card (table_set (e # es)) = card (table_set es) + card (values_of h)"
    unfolding l l' none by (simp add: e chunk_values_Cons)
  then show ?case using Cons by (simp add: e)
qed

theorem bitmap_validate_iff:
  assumes "\<forall>h\<in>snd ` set (bitmap_slots b). \<forall>ws. payload h = Bitset_payload ws \<longrightarrow> length ws = 1024"
  shows "bitmap_validate canonical_kinds b = None \<longleftrightarrow>
    strict (keys_of (chunks b)) \<and> table_size (chunks b) \<le> table_capacity (chunks b) \<and>
    (\<forall>(_, h)\<in>set (bitmap_slots b). sound_slot canonical_kinds h \<and> values_of h \<noteq> {}) \<and>
    total_size b = card (table_set (bitmap_slots b))"
proof -
  have bound: "values_of h \<subseteq> {..<65536}" if "(c, h) \<in> set (bitmap_slots b)" for c h
  proof (cases "payload h")
    case (Bitset_payload ws)
    then have "length ws = 1024" using assms that by force
    then show ?thesis using Bitset_payload bits_set_65536 [of ws] by auto
  qed (auto simp: array_set_def runs_set_def run_set_def intro: le_less_trans [OF _ unat_low_less])
  have card: "card (table_set (bitmap_slots b)) = (\<Sum>(_, h)\<leftarrow>bitmap_slots b. card (values_of h))" if "strict (keys_of (chunks b))"
    using bound that by (intro card_table_set) (auto simp: keys_of_def bitmap_slots_def strict_distinct)
  have "bitmap_validate canonical_kinds b = None \<longleftrightarrow>
      chunk_validate (chunks b) = None \<and> validate_slots canonical_kinds None (bitmap_slots b) 0 = Inr (total_size b)"
    by (auto simp: bitmap_validate_def split: option.splits sum.splits)
  also have "\<dots> \<longleftrightarrow> strict (keys_of (chunks b)) \<and> table_size (chunks b) \<le> table_capacity (chunks b) \<and>
    (\<forall>(_, h)\<in>set (bitmap_slots b). sound_slot canonical_kinds h \<and> values_of h \<noteq> {}) \<and>
    total_size b = (\<Sum>(_, h)\<leftarrow>bitmap_slots b. card (values_of h))"
    unfolding chunk_validate_iff validate_slots_iff by (auto simp: keys_of_def bitmap_slots_def)
  also have "\<dots> \<longleftrightarrow> strict (keys_of (chunks b)) \<and> table_size (chunks b) \<le> table_capacity (chunks b) \<and>
    (\<forall>(_, h)\<in>set (bitmap_slots b). sound_slot canonical_kinds h \<and> values_of h \<noteq> {}) \<and>
    total_size b = card (table_set (bitmap_slots b))"
    using card by (intro conj_cong refl) auto
  finally show ?thesis .
qed

end
