(* ===== verification/Spec2Isabelle.thy ===== *)
theory Spec2Isabelle
  imports Container_Steps Container_Forms Run_Batch Arrays_Inplace Layout Array_Bitset Survivor_Sinks
    Container_Counts Container_Decode Portable64 Bitmap_Contexts Range_Sets Unsorted_Sets Bitmap_Upkeep
begin

text \<open>
  A verification of the roaring bitmap library under \<open>src/include/frsr/roaring\<close>. A bitmap is a set of 32-bit keys. Its
  keys are grouped by their high half, the chunk; a table sorted by chunk holds one container per chunk, and a container
  holds the low halves in one of three forms: a sorted array, a list of disjoint runs, or a bitset of 1024 words. Every
  operation of a bitmap is a search or a walk over tables that calls an operation of one or two containers, which is
  dispatched on their forms to a kernel over arrays, runs or words. This file imports all theories and holds the
  properties (C1 to C40) of the whole; each other theory says in its first block what it holds.

  \<^bold>\<open>The parts, the code they model and where they are.\<close>

  \<^item> Values and words: \<open>Roaring_Prelude\<close> (types, lists, sets of low values), \<open>Bit_Words\<close> and \<open>Word_Blocks\<close> (the
    functions of the standard header \<open>bit\<close>, and the block primitives of \<open>bitset_ops.hpp\<close> and \<open>operations.hpp\<close>).
  \<^item> Kernels: \<open>Arrays\<close> and \<open>Arrays_Inplace\<close> (two sorted arrays, \<open>array_ops.hpp\<close>), \<open>Gallop\<close>, \<open>Array_Filters\<close> and
    \<open>Array_Bitset\<close> (an array against runs or a bitset, same file), \<open>Runs\<close> (\<open>run.hpp\<close>, \<open>run_container.hpp\<close>),
    \<open>Run_Intersect\<close>, \<open>Run_Merge\<close>, \<open>Run_Difference\<close>, \<open>Survivor_Scan\<close> and \<open>Survivor_Sinks\<close> (\<open>run_ops.hpp\<close>), \<open>Bitset_Ops\<close>
    and \<open>Run_Bitset\<close> (\<open>bitset_ops.hpp\<close>).
  \<^item> One container: \<open>Handle\<close> (\<open>container_handle.hpp\<close>: the payload and the header that caches its count and endpoints,
    which may be stale for a bitset), \<open>Array_Refs\<close>, \<open>Bitset_Refs\<close>, \<open>Run_Refs\<close> and \<open>Run_Batch\<close> (the views of a handle),
    \<open>Containers\<close>, \<open>Container_Forms\<close>, \<open>Counted_Runs\<close>, \<open>Container_Optimize\<close> and \<open>Container_Ranges\<close> (\<open>containers.hpp\<close>:
    dispatch, builders, compaction, ranges), \<open>Layout\<close> (\<open>container_layout.hpp\<close>). \<open>Container_Steps\<close> is the life of a
    container as a labelled step relation over those operations.
  \<^item> Two containers: \<open>Exact_Counts\<close>, \<open>Container_Ops\<close>, \<open>Container_Counts\<close> and \<open>Container_Decode\<close> (\<open>container_ops.hpp\<close>),
    \<open>Exact_Updates\<close>.
  \<^item> The chunk table: \<open>Chunk_Store\<close> (\<open>chunk_array.hpp\<close>, \<open>chunk_store.hpp\<close>) and \<open>Key_Sets\<close>, the set a table stands for.
  \<^item> The bitmap (\<open>bitmap.hpp\<close>, \<open>bitmap_definitions.hpp\<close>): \<open>Bitmap\<close>, \<open>Bitmap_Updates\<close> (single updates),
    \<open>Bitmap_Contexts\<close> (sessions with a bulk context), \<open>Bitmap_Batches\<close>, \<open>Batch_Sets\<close>, \<open>Range_Sets\<close> and \<open>Unsorted_Sets\<close>
    (batches and ranges), \<open>Set_Pairs\<close>, \<open>Set_Walks\<close> and \<open>Set_Merges\<close> (what the set operations do with the slots of one
    chunk, and the walks over two tables), \<open>Set_Pairs_Exact\<close>, \<open>Walk_Sets\<close>, \<open>Set_Algebra\<close> and \<open>Set_Growth\<close> (that they are
    the set operations), \<open>Lazy_Union\<close> (folds that leave counts open), \<open>Bitmap_Upkeep\<close> (finishers, compactions, the check).
  \<^item> The portable format (\<open>serialization.hpp\<close>): \<open>Wire\<close>, \<open>Portable\<close>, \<open>Portable_Read\<close>, \<open>Portable_Roundtrip\<close>, \<open>Portable64\<close>.

  \<^bold>\<open>How the code is rendered.\<close> A low value is a 16-bit word, a key a 32-bit or 64-bit word, a block a list of 64-bit
  words; counts and positions are \<open>nat\<close>, except where the code relies on wrapping. A handle is a record and a value: an
  operation returns the new handle. The table is a record of the entries (keys and handles, which the code keeps in two
  parallel arrays of one memory block), its capacity, its generation and the number of the block it lives in; a cursor is
  an index. An address of a slot, which only a bulk context keeps, is a block number and an index. A loop is a recursive
  function with its termination proof, or a partial function into an option where its end depends on the data. \<open>None\<close> stands for what must not
  happen: a store outside a buffer, a walk that does not return, an address that points at no slot; the theorems show
  \<open>Some\<close>. The readers return \<open>None\<close> where the code reports a format error.

  What the code leaves to its environment is an argument of the definitions and every theorem holds for all of them:
  \<open>capacity\<close> and \<open>room\<close> (the room of a payload; the room of a run list must hold its runs), \<open>fits\<close> (whether a handle has an
  inline buffer), \<open>eager\<close> (the run selection policy), \<open>threshold\<close>, \<open>garbage\<close>, \<open>fresh\<close> and \<open>uninitialized\<close> (what fresh or
  recycled memory holds), \<open>unshared\<close> (whether a slot is the only holder of its payload), \<open>retired\<close> and \<open>pool_capacity\<close>
  (the room of parked payloads).

  \<^bold>\<open>What is shown.\<close> Of one container: \<open>wf_container\<close> is kept by every operation, which acts as its counterpart on the set
  \<open>values_of\<close> in all forms, with the reply (C13 to C31). Of the kernels: each equals a reference on lists or sets (C28 to
  C30, C32 to C36). Of the table: the searches and the merge of absent entries (C9, C10), and that every change of a table
  advances the generation or leaves all slot addresses good (\<open>guards_addresses\<close> in \<open>Chunk_Store\<close>). Of the bitmap:
  \<open>bitmap_ok S b\<close> says that the table ascends, that its slots are well formed, not empty and exactly counted, that the keys
  are \<open>S\<close> and the size is that of \<open>S\<close>; \<open>holds_keys S b\<close> allows open counts. Each operation keeps it with the set changed as
  it says (C1 to C8, C11), and the structural check accepts exactly the sound bitmaps (C12). Of the format: the round
  trips, soundness on any bytes and the rejection of cut input (C37 to C40). The locales are the interfaces: \<open>value_set\<close>
  and \<open>batch_value_set\<close> (what a form promises its callers), \<open>merge_kernel\<close> and \<open>ordered_search\<close> (what the array and run
  kernels share), \<open>left_table_walk\<close>, \<open>both_table_walk\<close> and \<open>uniting_walk\<close> (what a walk over tables needs of the operation
  on one chunk); each is interpreted on the model's definitions.

  \<^bold>\<open>Bounds.\<close> A session with a bulk context has fewer than \<open>2 ^ 32\<close> operations, since the generation is a 32-bit counter
  and an operation advances it at most once. Chunk keys of 64-bit tables are below \<open>2 ^ 48\<close>, and such a table has at most
  \<open>2 ^ 32 - 1\<close> buckets, as the reader checks. A compaction is least for thresholds from 4096, where an array is as large as
  a bitset.

  \<^bold>\<open>Not modelled.\<close> The vector arms (SSE, AVX, NEON) of the kernels, of the array probe and of the table search: only the
  portable arms are. Reference counts, copies that share a payload or a table and the early returns for them, and failing
  allocation: a handle and a table are values. The pool of parked payloads: only the memory it hands out, as arbitrary
  contents. Operands that are the left bitmap itself. The opt-in arm \<open>kAndDemotesSparseBitsets\<close>, off by default. Lazy
  exclusive-or folds, the many-operand intersections and the sorted and heap orders of the many-operand union. Iterators.
  The tree of wide chunk keys (\<open>chunk_tree.hpp\<close>): tables of 64-bit keys appear in the portable format only. Views, shared and persistent
  bitmaps, the replay and frozen formats, the operations on foreign operands (\<open>interop.hpp\<close>), and container sets other than
  the default one.
\<close>

section \<open>The bitmap\<close>

text \<open>Two small bitmaps over the same chunks.\<close>

definition left_sample :: bitmap where
  "left_sample = snd (bitmap_add True 8 70000 (snd (bitmap_add True 8 3 empty_bitmap)))"

definition right_sample :: bitmap where
  "right_sample = snd (bitmap_add True 8 70000 (snd (bitmap_add True 8 5 empty_bitmap)))"

lemma samples_ok: "bitmap_ok {3, 70000} left_sample" "bitmap_ok {5, 70000} right_sample"
  unfolding left_sample_def right_sample_def insert_commute [of 3] insert_commute [of 5]
  by (rule bitmap_add_correct(2) [OF bitmap_add_correct(2) [OF empty_bitmap_ok]])+

lemma sample_holds: "holds_keys {3, 70000} left_sample"
  using samples_ok(1) by (simp add: holds_keys_def)

text \<open>C1: the assignment operators: the union, the intersection, the difference and the exclusive-or of a bitmap with a
  finished one return and leave a finished bitmap of exactly the keys of the set operation. The left bitmap may come out
  of lazy folds, its counts open; either of its tables may be rewritten, merged or left in place, and each slot may or may
  not share its payload.\<close>

theorem assignment_operators_are_set_operations:
  assumes "holds_keys A b" "bitmap_ok B other"
  shows "(\<exists>s. or_assign eager garbage unshared b other = Some s \<and> bitmap_ok (A \<union> B) s) \<and>
    (\<exists>s. and_assign eager garbage retired unshared b other = Some s \<and> bitmap_ok (A \<inter> B) s) \<and>
    (\<exists>s. andnot_assign eager garbage retired unshared b other = Some s \<and> bitmap_ok (A - B) s) \<and>
    (\<exists>s. xor_assign garbage unshared b other = Some s \<and> bitmap_ok (sym_diff A B) s)"
  by (rule assignment_operators [OF assms])

theorem assignment_operators_are_set_operations_witness:
  "\<exists>s. and_assign True (\<lambda>_ _. 7) (\<lambda>_. 0) (\<lambda>_. True) left_sample right_sample = Some s \<and> bitmap_ok {70000} s"
  using assignment_operators_are_set_operations [OF sample_holds samples_ok(2), of True "\<lambda>_ _. 7" "\<lambda>_. True" "\<lambda>_. 0"]
  by (simp add: insert_Diff_if)

text \<open>C2: the same operations into a scratch bitmap, whatever it held and whatever its parked payloads hold.\<close>

theorem operations_aside_are_set_operations:
  assumes "bitmap_ok A b" "bitmap_ok B other"
  shows "(\<exists>s. union_into eager garbage pool_capacity b other scratch = Some s \<and> bitmap_ok (A \<union> B) s) \<and>
    (\<exists>s. intersect_into eager garbage retired pool_capacity b other scratch = Some s \<and> bitmap_ok (A \<inter> B) s) \<and>
    (\<exists>s. difference_into eager garbage pool_capacity b other scratch = Some s \<and> bitmap_ok (A - B) s) \<and>
    (\<exists>s. xor_into garbage pool_capacity b other scratch = Some s \<and> bitmap_ok (sym_diff A B) s)"
  using union_into_set [OF assms] intersect_into_set [OF assms] difference_into_set [OF assms] xor_into_set [OF assms] by blast

theorem operations_aside_are_set_operations_witness:
  "\<exists>s. union_into True (\<lambda>_ _. 7) 4 left_sample right_sample empty_bitmap = Some s \<and> bitmap_ok {3, 5, 70000} s"
  using conjunct1 [OF operations_aside_are_set_operations [OF samples_ok]] by (simp add: insert_commute)

text \<open>C3: any number of finished bitmaps folded lazily into a bitmap return; the bitmap then holds their union with its
  counts open, and the repair makes it a finished bitmap of that union.\<close>

theorem lazy_folds_hold_the_union:
  assumes "holds_keys S b" "list_all2 bitmap_ok Bs others"
  shows "\<exists>s. bulk_or_all eager garbage others b = Some s \<and> holds_keys (S \<union> \<Union> (set Bs)) s \<and> bitmap_ok (S \<union> \<Union> (set Bs)) (repair_cardinality s)"
  using bulk_or_all_correct [OF assms, of eager garbage] holds_keys_unsettled repair_cardinality_correct by blast

theorem lazy_folds_hold_the_union_witness:
  "\<exists>s. bulk_or_all True (\<lambda>_ _. 7) [right_sample, right_sample] left_sample = Some s \<and> bitmap_ok {3, 5, 70000} (repair_cardinality s)"
  using lazy_folds_hold_the_union [OF sample_holds, of "[{5, 70000}, {5, 70000}]" "[right_sample, right_sample]" True "\<lambda>_ _. 7"] samples_ok(2)
  by (auto simp: insert_commute)

text \<open>C4: two bitmaps are found to meet exactly when they share a key.\<close>

theorem meeting_bitmaps_share_a_key:
  assumes "bitmap_ok A b" "bitmap_ok B other"
  shows "bitmap_intersects b other \<longleftrightarrow> A \<inter> B \<noteq> {}"
  by (rule bitmap_intersects_correct [OF assms])

theorem meeting_bitmaps_share_a_key_witness: "bitmap_intersects left_sample right_sample"
  by (simp add: meeting_bitmaps_share_a_key [OF samples_ok])

text \<open>C5: any sequence of fewer than \<open>2 ^ 32\<close> single additions, removals and membership tests of a bitmap, the plain
  ones and those that go through a bulk context mixed in any order, runs to its end: no slot address that the context
  keeps is followed after the table has left its block or dropped the slot. It replies as the same operations on a set
  of keys do, the bitmap ends as that set with ascending chunks, no empty slot and the exact size, and the context, if
  the table is still of its generation, then holds the address and the position of the slot of its chunk.\<close>

theorem bulk_session_refines_set:
  assumes "bitmap_ok S b" "length ops < 2 ^ 32"
  shows "\<exists>ctx b'. bulk_session fits capacity ops no_context b = Some (fst (bulk_ops_on_set ops S), ctx, b') \<and>
    bitmap_ok (snd (bulk_ops_on_set ops S)) b' \<and> usable ctx b'"
  by (rule bulk_session_correct [OF assms])

text \<open>The table outgrows its first block between two bulk calls on one chunk.\<close>

theorem bulk_session_refines_set_witness:
  "\<exists>ctx b'. bulk_session True 8 [Bulk_add 5, Plain_add 70000, Plain_add 140000, Plain_add 210000, Plain_add 280000,
        Bulk_add 6, Bulk_contains 5, Plain_remove 6, Bulk_contains 6] no_context empty_bitmap =
      Some ([True, True, True, True, True, True, True, True, False], ctx, b') \<and>
    bitmap_ok {5, 70000, 140000, 210000, 280000} b' \<and> usable ctx b'"
  using bulk_session_refines_set [OF empty_bitmap_ok, where fits = True and capacity = 8 and
      ops = "[Bulk_add 5, Plain_add 70000, Plain_add 140000, Plain_add 210000, Plain_add 280000,
        Bulk_add 6, Bulk_contains 5, Plain_remove 6, Bulk_contains 6]"]
  by (simp add: insert_commute insert_Diff_if)

text \<open>C6: a closed range of keys added to, removed from or flipped in a bitmap gives that operation on its set, over every
  chunk the range crosses up to the last key there is, and the walk over the chunks ends.\<close>

theorem closed_range_is_set_operation:
  assumes "bitmap_ok S b"
  shows "bitmap_ok (S \<union> {v..w}) (add_closed_range eager v w b) \<and>
    bitmap_ok (S - {v..w}) (remove_closed_range eager v w b) \<and>
    bitmap_ok ((S - {v..w}) \<union> ({v..w} - S)) (flip_closed_range eager v w b)"
  using apply_closed_range_correct [OF assms, where op = Range_add and eager = eager and begin_value = v and end_value = w]
    apply_closed_range_correct [OF assms, where op = Range_remove and eager = eager and begin_value = v and end_value = w]
    apply_closed_range_correct [OF assms, where op = Range_flip and eager = eager and begin_value = v and end_value = w]
  by (simp_all add: add_closed_range_def remove_closed_range_def flip_closed_range_def keys_effect_def)

theorem closed_range_is_set_operation_witness:
  "bitmap_ok ({} \<union> {65530..- 1}) (add_closed_range True 65530 (- 1) empty_bitmap)"
  by (rule conjunct1 [OF closed_range_is_set_operation [OF empty_bitmap_ok]])

text \<open>C7: a batch of keys in any order and with repetitions is added to or removed from a bitmap as a set, whether it is
  scattered into one bitset, appended behind the chunks held, or merged into them.\<close>

theorem unsorted_batches_are_set_operations:
  assumes "bitmap_ok S b" "\<And>h. length (run_list h) \<le> room h"
  shows "bitmap_ok (S \<union> set keys) (add_many_unsorted eager room unshared keys b) \<and>
    bitmap_ok (S - set keys) (remove_many_unsorted eager keys b)"
  using add_many_unsorted_correct [OF assms] remove_many_unsorted_correct [OF assms(1)] by blast+

theorem unsorted_batches_are_set_operations_witness:
  "bitmap_ok ({} \<union> set [70000, 3, 70000, 5]) (add_many_unsorted True (\<lambda>h. length (run_list h)) False [70000, 3, 70000, 5] empty_bitmap)"
  by (rule conjunct1 [OF unsorted_batches_are_set_operations [OF empty_bitmap_ok order_refl]])

text \<open>C8: an ascending batch, appended or merged as its first key asks, and an ascending batch removed, are set operations
  too, with any threshold from which a new chunk becomes a bitset.\<close>

theorem sorted_batches_are_set_operations:
  assumes "bitmap_ok S b" "sorted keys" "\<And>h. length (run_list h) \<le> room h"
  shows "bitmap_ok (S \<union> set keys) (add_sorted_many eager room unshared threshold keys b) \<and>
    bitmap_ok (S \<union> set keys) (add_many_sorted eager room unshared keys b) \<and>
    bitmap_ok (S - set keys) (remove_many_sorted eager keys b)"
  using add_sorted_many_correct [OF assms] add_many_sorted_correct [OF assms] remove_many_sorted_correct [OF assms(1,2)] by blast+

theorem sorted_batches_are_set_operations_witness:
  "bitmap_ok ({} \<union> set [3, 5, 5, 70000]) (add_sorted_many True (\<lambda>h. length (run_list h)) False 4096 [3, 5, 5, 70000] empty_bitmap)"
  by (rule conjunct1 [OF sorted_batches_are_set_operations [OF empty_bitmap_ok _ order_refl]]) simp

text \<open>C9: a key is found in the chunk table where it is, whichever of the searches its size selects, and not found when
  it is absent; the search that only moves forward agrees with the search of the whole table.\<close>

theorem table_searches_find_the_key:
  assumes "strict keys"
  shows "(if key \<in> set keys then table_find key_bytes keys key < length keys \<and> keys ! table_find key_bytes keys key = key
      else table_find key_bytes keys key = length keys) \<and>
    lower_bound_from keys key start = max (min start (length keys)) (lower_bound keys key)"
  using table_find_correct [OF assms, of key key_bytes] lower_bound_from_correct [OF assms] by blast+

theorem table_searches_find_the_key_witness:
  "table_find 2 [1, 4, 6, 7, 9, 12 :: nat] 8 = length [1, 4, 6, 7, 9, 12 :: nat] \<and>
   lower_bound_from [1, 4, 6, 7, 9, 12 :: nat] 8 1 = max 1 (lower_bound [1, 4, 6, 7, 9, 12 :: nat] 8)"
proof -
  have s: "strict [1, 4, 6, 7, 9, 12 :: nat]" by simp
  show ?thesis using table_searches_find_the_key [OF s, where key = 8 and key_bytes = 2 and start = 1] by simp
qed

text \<open>C10: the wanted entries of another table whose keys are absent are all placed, each in its place, whatever the
  interleaving of the keys and whether the table has to grow.\<close>

theorem absent_chunks_are_inserted:
  assumes "strict (keys_of t)" "strict (map fst other)" "count = length (absent_in (entries t) wanted other)"
  shows "strict (keys_of (insert_absent_from other count wanted t)) \<and>
    set (entries (insert_absent_from other count wanted t)) = set (entries t) \<union> set (absent_in (entries t) wanted other)"
  by (rule insert_absent_correct [OF assms])

theorem absent_chunks_are_inserted_witness:
  "strict (keys_of (insert_absent_from [(2 :: nat, make_array), (5, make_array)] 2 (\<lambda>_. True) empty_store))"
  by (rule conjunct1 [OF absent_chunks_are_inserted]) (simp_all add: empty_store_def keys_of_def absent_in_def)





section \<open>The life of a container\<close>

text \<open>C13: whatever operations a container goes through from the empty one (single values in and out, sorted
  batches, whole ranges, compaction, under every capacity, sharing state, policy and threshold), it stays well
  formed, and its values and its replies are those of the same operations on a set of values.\<close>

theorem container_life_refines_set:
  assumes "trace make_array es h"
  shows "wf_container h \<and> events_on_set es {} = (map snd es, values_of h)"
  using trace_refines [OF assms] empty_factories by simp

theorem container_life_refines_set_witness:
  "wf_container (snd (container_add 8 3 make_array)) \<and>
   events_on_set [(Insert 3, of_bool (fst (container_add 8 3 make_array)))] {} =
     ([of_bool (fst (container_add 8 3 make_array))], values_of (snd (container_add 8 3 make_array)))"
proof -
  have "step make_array (Insert 3) (of_bool (fst (container_add 8 3 make_array))) (snd (container_add 8 3 make_array))"
    by (rule insert_step [where capacity = 8]) (rule prod.collapse [symmetric])
  from container_life_refines_set [OF trace_step [OF this trace_stop]] show ?thesis
    by (simp only: list.map snd_conv)
qed

text \<open>C14: a closed range added to, removed from or flipped in a container of any form gives that set operation,
  in a well-formed container, whatever form it settles in.\<close>

theorem range_operation_is_set_operation:
  assumes "wf_container h" "\<not> cardinality_stale h" "b \<le> e"
  shows "holds_set (range_effect op (values_of h) {unat b..unat e}) (apply_range_to_container eager h b e op threshold)"
  by (rule apply_range_to_container_correct [OF assms])

theorem range_operation_is_set_operation_witness:
  "holds_set (range_effect Range_flip (values_of make_array) {unat (2 :: low)..unat (9 :: low)})
     (apply_range_to_container True make_array 2 9 Range_flip 4096)"
  by (rule range_operation_is_set_operation) (rule empty_factories, simp_all add: make_array_def)

text \<open>C15: a container compacted under the eager policy, with a bitset threshold of 4096 or more as the bitmap passes it,
  has the least serialized size among the forms its number of values allows.\<close>

theorem compaction_is_least:
  assumes "wf_container h" "\<not> cardinality_stale h" "values_of h \<noteq> {}" "4096 \<le> threshold"
  shows "serialized_bytes (optimize_container_for_storage True h threshold) = least_bytes threshold (values_of h)"
  by (rule optimize_container_for_storage_least [OF assms])

lemma one_value_container:
  "wf_container (snd (array_add 8 3 make_array))" "values_of (snd (array_add 8 3 make_array)) = {3}"
  "\<not> cardinality_stale (snd (array_add 8 3 make_array))" "holds_array (snd (array_add 8 3 make_array))"
proof -
  have a: "holds_array make_array" by (simp add: make_array_def holds_array_def kind_def)
  note c = array_add_correct [OF empty_factories(1) a, of 8 3]
  show "wf_container (snd (array_add 8 3 make_array))" "holds_array (snd (array_add 8 3 make_array))" by (fact c)+
  show "values_of (snd (array_add 8 3 make_array)) = {3}" using c(3) by (simp add: empty_factories)
  show "\<not> cardinality_stale (snd (array_add 8 3 make_array))" using wf_arrayE [OF c(1,2)] by blast
qed

theorem compaction_is_least_witness:
  "serialized_bytes (optimize_container_for_storage True (snd (array_add 8 3 make_array)) 4096) = least_bytes 4096 {3}"
  using compaction_is_least [OF one_value_container(1,3), of 4096] one_value_container(2) by simp

text \<open>C16: compaction keeps the values, for either policy and every threshold.\<close>

theorem compaction_keeps_values:
  assumes "wf_container h" "\<not> cardinality_stale h"
  shows "wf_container (optimize_container_for_storage eager h threshold) \<and>
    values_of (optimize_container_for_storage eager h threshold) = values_of h"
  using optimize_container_for_storage_correct [OF assms] by (simp add: holds_set_def)

theorem compaction_keeps_values_witness:
  "wf_container (optimize_container_for_storage False (snd (array_add 8 3 make_array)) 4096) \<and>
    values_of (optimize_container_for_storage False (snd (array_add 8 3 make_array)) 4096) =
    values_of (snd (array_add 8 3 make_array))"
  by (rule compaction_keeps_values [OF one_value_container(1,3)])

text \<open>C17: a batch of sorted values merged into a container of any form adds exactly its new values, keeps the form
  and replies with their number, whether the run list has room in place or not.\<close>

theorem batch_insert_functional:
  assumes "batch_ready capacity h" "strict vs"
  shows "wf_container (snd (container_add_sorted capacity unshared vs h)) \<and>
    values_of (snd (container_add_sorted capacity unshared vs h)) = values_of h \<union> array_set vs \<and>
    fst (container_add_sorted capacity unshared vs h) = card (array_set vs - values_of h) \<and>
    kind (snd (container_add_sorted capacity unshared vs h)) = kind h"
  using container_add_sorted_correct [OF assms] by blast

theorem batch_insert_functional_witness:
  "wf_container (snd (container_add_sorted 8 True [2, 5] make_run)) \<and>
    values_of (snd (container_add_sorted 8 True [2, 5] make_run)) = values_of make_run \<union> array_set [2, 5] \<and>
    fst (container_add_sorted 8 True [2, 5] make_run) = card (array_set [2, 5] - values_of make_run) \<and>
    kind (snd (container_add_sorted 8 True [2, 5] make_run)) = kind make_run"
proof (rule batch_insert_functional)
  show "batch_ready 8 make_run" using empty_factories by (simp add: batch_ready_def make_run_def run_list_def)
qed simp

text \<open>C18: stepping a cursor visits the least value above the current one, reports the end when there is none, and
  leaves the cursor at the value it returned, in every form.\<close>

theorem cursor_walks_in_order:
  assumes "wf_container h" "cursor_at h v position"
  shows "is_next (values_of h) v (fst (container_next_after h v position)) \<and>
    (\<forall>w. fst (container_next_after h v position) = Some w \<longrightarrow> cursor_at h w (snd (container_next_after h v position)))"
  using container_next_after_correct [OF assms] by blast

theorem cursor_walks_in_order_witness:
  "is_next (values_of make_bitset_zeroed) 7 (fst (container_next_after make_bitset_zeroed 7 0))"
  by (rule cursor_walks_in_order [THEN conjunct1], rule empty_factories)
    (simp add: cursor_at_def kind_def make_bitset_zeroed_def make_bitset_uninitialized_def
      mark_endpoints_stale_def)

text \<open>The walk over a container's values lists each of them once, in ascending order, in every form.\<close>

lemma walk_lists_values:
  assumes "wf_container h"
  shows "strict (container_values h) \<and> array_set (container_values h) = values_of h"
  using container_values_correct [OF assms] by blast

lemma walk_lists_values_witness:
  "strict (container_values make_run) \<and> array_set (container_values make_run) = values_of make_run"
  by (rule walk_lists_values) (rule empty_factories)

text \<open>C19: the endpoints of a non-empty container are read exactly even when the header's copies are stale: the
  refresh stores the least and the greatest value.\<close>

theorem endpoints_recovered:
  assumes "wf_container h" "values_of h \<noteq> {}"
  shows "wf_container (ensure_endpoints h) \<and> \<not> endpoints_stale (ensure_endpoints h) \<and>
    unat (min_value h) = Min (values_of h) \<and> unat (max_value h) = Max (values_of h)"
  using ensure_endpoints_correct [OF assms(1)] assms(2) by blast

theorem endpoints_recovered_witness:
  "wf_container (ensure_endpoints (snd (array_add 8 3 make_array))) \<and>
    \<not> endpoints_stale (ensure_endpoints (snd (array_add 8 3 make_array))) \<and>
    unat (min_value (snd (array_add 8 3 make_array))) = Min (values_of (snd (array_add 8 3 make_array))) \<and>
    unat (max_value (snd (array_add 8 3 make_array))) = Max (values_of (snd (array_add 8 3 make_array)))"
  by (rule endpoints_recovered) (simp_all add: one_value_container)

text \<open>C20: the fullness test says yes of exactly the containers that hold every low value and whose header knows it: of
  a container with a settled count, when it is full; of a bitset with a stale count, which is at most the true one, when
  that count is already the whole domain. So the shortcuts that skip a full container are taken on full ones only.\<close>

theorem known_full_is_full:
  assumes "wf_container h"
  shows "container_is_known_full h \<longleftrightarrow> values_of h = {..<65536} \<and> (cardinality_stale h \<longrightarrow> cardinality h = 65536)"
  by (rule container_is_known_full_iff [OF assms])

theorem known_full_is_full_witness:
  "container_is_known_full (run_add_closed_range 0 (- 1) make_run)"
proof -
  have r: "wf_container make_run" "holds_run make_run" using empty_factories by (simp_all add: make_run_def)
  note full = run_add_closed_range_correct [OF r, of 0 "- 1"]
  obtain rs where "\<not> cardinality_stale (run_add_closed_range 0 (- 1) make_run)" using full(1,2) by (rule wf_runE)
  moreover have "unat (- 1 :: low) = 65535" by (simp add: unsigned_minus_1_eq_mask mask_eq_exp_minus_1)
  ultimately show ?thesis using known_full_is_full [OF full(1)] full(3) empty_factories by auto
qed

text \<open>C21: an array container replies to any sequence of requests as a set of values does.\<close>

theorem array_container_serves_as_set:
  assumes "wf_container h" "holds_array h" "list_all request_ok rs"
  shows "fst (serve_all (serve_with array_contains (array_add capacity) array_remove array_add_sorted array_remove_sorted) rs h)
    = fst (serve_all serve_set rs (values_of h))"
  using array_form.serve_all_refines [of h rs capacity] assms by (metis fst_conv)

theorem array_container_serves_as_set_witness:
  "fst (serve_all (serve_with array_contains (array_add 8) array_remove array_add_sorted array_remove_sorted)
      [Add 3, Contains 3, Add 3, Remove 3] make_array)
    = fst (serve_all serve_set [Add 3, Contains 3, Add 3, Remove 3] (values_of make_array))"
  by (rule array_container_serves_as_set) (simp_all add: empty_factories)

text \<open>C22: a bitset container whose count is settled (or which holds a value) does too, its counts and its
  endpoints kept lazily behind the replies.\<close>

theorem bitset_container_serves_as_set:
  assumes "settled_bitset h" "list_all request_ok rs"
  shows "fst (serve_all (serve_with bitset_contains bitset_add bitset_remove bitset_add_sorted bitset_remove_sorted) rs h)
    = fst (serve_all serve_set rs (values_of h))"
  using bitset_form.serve_all_refines [of h rs] assms by (metis fst_conv)

theorem bitset_container_serves_as_set_witness:
  "fst (serve_all (serve_with bitset_contains bitset_add bitset_remove bitset_add_sorted bitset_remove_sorted)
      [Add 3, Contains 3, Add 3, Remove 3] make_bitset_zeroed)
    = fst (serve_all serve_set [Add 3, Contains 3, Add 3, Remove 3] (values_of make_bitset_zeroed))"
proof (rule bitset_container_serves_as_set)
  show "settled_bitset make_bitset_zeroed"
    using empty_factories
    by (simp add: settled_bitset_def holds_bitset_def kind_def make_bitset_zeroed_def make_bitset_uninitialized_def
        mark_endpoints_stale_def)
qed simp

section \<open>Two containers\<close>

text \<open>C23: union, intersection and difference of two well-formed containers return in every pair of forms, under every
  policy and threshold, and the result is a well-formed container of exactly the set operation's values, counted.\<close>

theorem combination_is_set_operation:
  assumes "wf_container lhs" "wf_container rhs" "length fresh = 1024" "op \<noteq> Bit_xor"
  shows "\<exists>h. combine_containers eager fresh lhs rhs threshold op = Some h \<and> wf_container h \<and>
    values_of h = set_op op (values_of lhs) (values_of rhs) \<and> container_size h = card (values_of h)"
proof -
  obtain h where "combine_containers eager fresh lhs rhs threshold op = Some h"
    "exact (set_op op (values_of lhs) (values_of rhs)) h" using combine_containers_correct [OF assms] by blast
  then show ?thesis using exact_wf [of _ h] exact_size [of _ h] by auto
qed

theorem combination_is_set_operation_witness:
  "\<exists>h. combine_containers True (replicate 1024 7) (make_array_from_sorted [1, 5, 9]) (make_array_from_sorted [5, 9, 11])
     4096 Bit_andnot = Some h \<and> wf_container h \<and>
   values_of h = set_op Bit_andnot (values_of (make_array_from_sorted [1, 5, 9])) (values_of (make_array_from_sorted [5, 9, 11])) \<and>
   container_size h = card (values_of h)"
  by (rule combination_is_set_operation) (simp_all add: make_array_from_sorted_correct)

text \<open>C24: exclusive-or of two settled containers is the symmetric difference, in every pair of forms.\<close>

theorem exclusive_or_is_symmetric_difference:
  assumes "wf_container lhs" "wf_container rhs" "\<not> cardinality_stale lhs" "\<not> cardinality_stale rhs" "length fresh = 1024"
  shows "wf_container (xor_containers fresh lhs rhs limit) \<and>
    values_of (xor_containers fresh lhs rhs limit) = (values_of lhs - values_of rhs) \<union> (values_of rhs - values_of lhs) \<and>
    container_size (xor_containers fresh lhs rhs limit) = card (values_of (xor_containers fresh lhs rhs limit))"
proof -
  have e: "exact (sym_diff (values_of lhs) (values_of rhs)) (xor_containers fresh lhs rhs limit)"
    by (rule xor_containers_correct [OF assms])
  then show ?thesis using exact_wf [OF e] exact_size [OF e] by (simp add: sym_diff_def)
qed

theorem exclusive_or_is_symmetric_difference_witness:
  "values_of (xor_containers (replicate 1024 7) (make_array_from_sorted [1, 5, 9]) (make_array_from_sorted [5, 9, 11]) 4096) =
     {1, 11}"
proof -
  have w: "wf_container (make_array_from_sorted [1, 5, 9])" "wf_container (make_array_from_sorted [5, 9, 11])"
    "values_of (make_array_from_sorted [1, 5, 9]) = {1, 5, 9}" "values_of (make_array_from_sorted [5, 9, 11]) = {5, 9, 11}"
    by (simp_all add: make_array_from_sorted_correct)
  show ?thesis
    using exclusive_or_is_symmetric_difference [OF w(1,2), of "replicate 1024 7" 4096] w(3,4)
    by (simp add: counted) auto
qed

text \<open>C25: a sorted batch removed from a container leaves the other values and replies with the number it took out.\<close>

theorem batch_removal_functional:
  assumes "wf_container h" "strict vs" "vs \<noteq> []"
  shows "wf_container (snd (container_remove_sorted vs threshold h)) \<and>
    values_of (snd (container_remove_sorted vs threshold h)) = values_of h - array_set vs \<and>
    fst (container_remove_sorted vs threshold h) = card (values_of h \<inter> array_set vs)"
  using assms by (rule container_remove_sorted_correct)

theorem batch_removal_functional_witness:
  "values_of (snd (container_remove_sorted [5, 7] 4096 (make_array_from_sorted [1, 5, 9]))) = {1, 9}"
proof -
  have "wf_container (make_array_from_sorted [1, 5, 9])" "values_of (make_array_from_sorted [1, 5, 9]) = {1, 5, 9}"
    by (simp_all add: make_array_from_sorted_correct)
  then show ?thesis using batch_removal_functional [of "make_array_from_sorted [1, 5, 9]" "[5, 7]" 4096] by auto
qed

text \<open>C26: two containers are reported to meet exactly when they have a value in common. How many they share is counted
  exactly in every pair of forms but two arrays, for which the dispatcher returns zero (its callers count that pair
  themselves); the walks return.\<close>

theorem meeting_and_counting_agree_with_sets:
  assumes "wf_container lhs" "wf_container rhs"
  shows "(container_intersects lhs rhs \<longleftrightarrow> values_of lhs \<inter> values_of rhs \<noteq> {}) \<and>
    container_intersect_cardinality lhs rhs =
      Some (if holds_array lhs \<and> holds_array rhs then 0 else card (values_of lhs \<inter> values_of rhs))"
  using container_intersects_correct [OF assms] container_intersect_cardinality_correct [OF assms] by blast

theorem meeting_and_counting_agree_with_sets_witness:
  "container_intersects (make_array_from_sorted [1, 5, 9]) (make_array_from_sorted [5, 9, 11]) \<longleftrightarrow>
   values_of (make_array_from_sorted [1, 5, 9]) \<inter> values_of (make_array_from_sorted [5, 9, 11]) \<noteq> {}"
  by (rule meeting_and_counting_agree_with_sets [THEN conjunct1]) (simp_all add: make_array_from_sorted_correct)

text \<open>C27: decoding writes the container's values as full keys, in ascending order, from the output pointer on, and leaves
  what stood before it; every store, the wide ones included, stays inside a buffer with just enough room.\<close>

theorem decoding_is_safe_and_complete:
  assumes "wf_container h" "out + card (values_of h) \<le> length buf"
  shows "\<exists>buf'. container_decode_into h chunk buf out = Some (buf', out + card (values_of h)) \<and>
    length buf' = length buf \<and>
    take (out + card (values_of h)) buf' = take out buf @ map (compose32 chunk) (container_values h)"
  using container_decode_into_correct [OF assms, of chunk] card_array_set container_values_correct [OF assms(1)]
  unfolding writes_def by (metis length_map)

theorem decoding_is_safe_and_complete_witness:
  "\<exists>buf'. container_decode_into (make_array_from_sorted [1, 5, 9]) 2 [0, 0, 0, 0] 1 =
      Some (buf', 1 + card (values_of (make_array_from_sorted [1, 5, 9]))) \<and>
    length buf' = length [0, 0, 0, 0 :: key32] \<and>
    take (1 + card (values_of (make_array_from_sorted [1, 5, 9]))) buf' =
      take 1 [0, 0, 0, 0] @ map (compose32 2) (container_values (make_array_from_sorted [1, 5, 9]))"
  by (rule decoding_is_safe_and_complete) (simp_all add: make_array_from_sorted_correct)

section \<open>The choice of a form\<close>

text \<open>A container built from a block of words, in whatever form the policy and the threshold pick, exports
  the same block again.\<close>

lemma words_round_trip:
  assumes "length ws = 1024"
  shows "words_from_container (make_container_from_words eager ws threshold) = ws"
proof -
  have b: "wf_container (make_container_from_words eager ws threshold)"
    "values_of (make_container_from_words eager ws threshold) = bits_set ws"
    using make_container_from_words_correct [OF assms, of eager threshold] by (simp_all add: holds_set_def)
  show ?thesis
    by (rule bits_set_inject) (simp_all add: words_from_container_correct [OF b(1)] b(2) assms)
qed

lemma words_round_trip_witness:
  "words_from_container (make_container_from_words True (5 # replicate 1023 0) 4096) = 5 # replicate 1023 0"
  by (rule words_round_trip) simp

text \<open>The form chosen for sorted values depends on their number and their number of runs only; the count of
  runs, which stops at the cap from which runs can no longer win, decides as the full count does.\<close>

lemma capped_count_decides:
  assumes "strict vs"
  shows "choose_sorted_container_kind eager vs threshold =
    choose_container_kind eager (card (array_set vs)) threshold (\<lambda>_. card (run_starts (array_set vs)))"
  using choose_sorted_container_kind_eq [OF assms, of eager threshold] card_array_set [OF assms] by simp

lemma capped_count_decides_witness:
  "choose_sorted_container_kind True [3, 4, 9] 4096 =
    choose_container_kind True (card (array_set [3, 4, 9])) 4096 (\<lambda>_. card (run_starts (array_set [3, 4, 9])))"
  by (rule capped_count_decides) simp

text \<open>The run count read from a bitset's words, a word at a time with the top bit carried over, is the number
  of maximal runs of the set, up to the cap.\<close>

lemma bitset_run_count_exact:
  "run_count_from_bitset_words ws cap = min cap (card (run_starts (bits_set ws)))"
  by (rule run_count_from_bitset_words_eq)

text \<open>Two containers with the same values compact to the same serialized size, whatever their forms.\<close>

lemma compaction_size_depends_on_values:
  assumes "wf_container g" "\<not> cardinality_stale g" "wf_container h" "\<not> cardinality_stale h"
    and "values_of g = values_of h" "values_of h \<noteq> {}" "4096 \<le> threshold"
  shows "serialized_bytes (optimize_container_for_storage True g threshold) =
    serialized_bytes (optimize_container_for_storage True h threshold)"
  using optimize_container_for_storage_least [OF assms(1,2) _ assms(7)]
    optimize_container_for_storage_least [OF assms(3,4,6,7)] assms(5,6) by simp

lemma one_value_bitset:
  "wf_container (snd (bitset_add 3 make_bitset_zeroed))" "values_of (snd (bitset_add 3 make_bitset_zeroed)) = {3}"
  "holds_bitset (snd (bitset_add 3 make_bitset_zeroed))"
proof -
  have b: "holds_bitset make_bitset_zeroed"
    by (simp add: holds_bitset_def kind_def make_bitset_zeroed_def make_bitset_uninitialized_def mark_endpoints_stale_def)
  note c = bitset_add_correct [OF empty_factories(5) b, of 3]
  show "wf_container (snd (bitset_add 3 make_bitset_zeroed))" "holds_bitset (snd (bitset_add 3 make_bitset_zeroed))" by (fact c)+
  show "values_of (snd (bitset_add 3 make_bitset_zeroed)) = {3}" using c(3) by (simp add: empty_factories)
qed

lemma compaction_size_depends_on_values_witness:
  "serialized_bytes (optimize_container_for_storage True (settle_cardinality (snd (bitset_add 3 make_bitset_zeroed))) 4096) =
    serialized_bytes (optimize_container_for_storage True (snd (array_add 8 3 make_array)) 4096)"
  by (rule compaction_size_depends_on_values)
    (simp_all add: one_value_container one_value_bitset settle_cardinality_correct)

text \<open>Building the container of one chunk from its sorted 32-bit keys, repeats included, is building it from
  the distinct low halves.\<close>

lemma chunk_from_keys_equivalence:
  assumes "one_chunk c keys"
  shows "make_container_from_sorted_keys eager keys threshold =
    make_container_from_sorted_values eager (remdups_adj (map low_key32 keys)) threshold"
  by (rule make_container_from_sorted_keys_eq [OF assms])

lemma chunk_from_keys_equivalence_witness:
  "make_container_from_sorted_keys True [5, 5, 9] 4096 =
    make_container_from_sorted_values True (remdups_adj (map low_key32 [5, 5, 9])) 4096"
proof (rule chunk_from_keys_equivalence)
  show "one_chunk 0 [5, 5, 9]" by (simp add: one_chunk_def chunk_key32_def low_bits_def)
qed

text \<open>A key splits into its chunk key and its low half and is composed from them again, at both widths; the
  chunk of a 64-bit key has 48 bits.\<close>

lemma key_split_round_trip:
  assumes "c64 < 2 ^ 48"
  shows "compose32 (chunk_key32 v) (low_key32 v) = v \<and> chunk_key32 (compose32 c l) = c \<and> low_key32 (compose32 c l) = l \<and>
    compose64 (chunk_key64 w) (low_key64 w) = w \<and> chunk_key64 (compose64 c64 l) = c64 \<and> low_key64 (compose64 c64 l) = l"
  using compose_split32 split_compose32 compose_split64 split_compose64(1) split_compose64(2) [OF assms] by blast

lemma key_split_round_trip_witness:
  "compose32 (chunk_key32 70000) (low_key32 70000) = 70000 \<and> chunk_key32 (compose32 1 4464) = 1 \<and>
    low_key32 (compose32 1 4464) = 4464 \<and> compose64 (chunk_key64 70000) (low_key64 70000) = 70000 \<and>
    chunk_key64 (compose64 1 4464) = 1 \<and> low_key64 (compose64 1 4464) = 4464"
  by (rule key_split_round_trip) simp

text \<open>Keys are ordered by their chunk and then by their low half, so chunk by chunk is ascending order.\<close>

lemma keys_in_chunk_order:
  "v < w \<longleftrightarrow> chunk_key32 v < chunk_key32 w \<or> chunk_key32 v = chunk_key32 w \<and> low_key32 v < low_key32 w"
  by (rule key_order32)

text \<open>The capped run builder gives up exactly when the runs reach the byte limit; otherwise it returns the
  maximal runs of the values with their number.\<close>

lemma capped_run_builder:
  assumes "sorted vs" "vs \<noteq> []"
  shows "(try_make_run_from_sorted_values_capped vs limit = None \<longleftrightarrow> limit \<le> length (runs_from_sorted_values vs) * 4) \<and>
    (\<forall>c. try_make_run_from_sorted_values_capped vs limit = Some c \<longrightarrow> wf_rc c \<and> rc_set c = array_set vs)"
  using try_make_run_from_sorted_values_capped_correct [OF assms(1), of limit] runs_from_sorted_values_correct [OF assms(1)] assms(2)
  by (auto simp: Let_def wf_rc_def rc_set_def split: if_splits)

lemma capped_run_builder_witness:
  "try_make_run_from_sorted_values_capped [3, 4, 9] 8 = None \<longleftrightarrow> 8 \<le> length (runs_from_sorted_values [3, 4, 9 :: low]) * 4"
  by (rule capped_run_builder [THEN conjunct1]) simp_all

section \<open>The kernels\<close>

text \<open>C28: the set operations on two sorted arrays (the blocked merges and the skewed intersection by binary
  searches) give the sorted array of the set operation.\<close>

theorem array_kernels_are_set_operations:
  assumes "strict lhs" "strict rhs" "op \<noteq> Bit_xor"
  shows "strict (combine_array_array lhs rhs op) \<and>
    array_set (combine_array_array lhs rhs op) = set_op op (array_set lhs) (array_set rhs)"
  using combine_array_array_correct [OF assms] by blast

theorem array_kernels_are_set_operations_witness:
  "strict (combine_array_array [1, 4] [4, 6] Bit_and) \<and>
    array_set (combine_array_array [1, 4] [4, 6] Bit_and) = set_op Bit_and (array_set [1, 4]) (array_set [4, 6])"
  by (rule array_kernels_are_set_operations) simp_all

text \<open>The intersection that compacts into its left operand's own buffer gives what the intersection into a
  fresh buffer gives, though it overwrites what it reads.\<close>

lemma inplace_intersection_equivalence:
  assumes "strict a" "strict b"
  shows "intersect_array_array_inplace a b = intersect_sorted_scalar a b"
  by (rule intersect_array_array_inplace_eq [OF assms])

lemma inplace_intersection_equivalence_witness:
  "intersect_array_array_inplace [1, 4] [4, 6] = intersect_sorted_scalar [1, 4] [4, 6]"
  by (rule inplace_intersection_equivalence) simp_all

text \<open>The union merged from the back of the left operand's grown buffer is the union into a fresh buffer.\<close>

lemma inplace_union_equivalence:
  assumes "strict lhs" "strict rhs" "length fresh = length rhs"
  shows "union_array_array_inplace False fresh lhs rhs = union_sorted_scalar lhs rhs"
  by (rule union_array_array_inplace_eq [OF assms])

lemma inplace_union_equivalence_witness:
  "union_array_array_inplace False [0, 0] [1, 4] [4, 6] = union_sorted_scalar [1, 4] [4, 6]"
  by (rule inplace_union_equivalence) simp_all

text \<open>C29: the galloping search returns the position the step-by-step scan from the same start returns.\<close>

theorem gallop_is_scan:
  assumes "strict keys" "lo \<le> length keys"
  shows "gallop_forward (\<lambda>x. x < v) keys lo = lo + length (takeWhile (\<lambda>x. x < v) (drop lo keys)) \<and>
    gallop_forward (\<lambda>x. x \<le> v) keys lo = lo + length (takeWhile (\<lambda>x. x \<le> v) (drop lo keys))"
  using array_from.gallop_forward_seek [OF assms, of v] array_past.gallop_forward_seek [OF assms, of v]
  by (simp add: seek_def partition_point_def)

theorem gallop_is_scan_witness:
  "gallop_forward (\<lambda>x. x < 5) [1, 4, 6 :: low] 1 = 1 + length (takeWhile (\<lambda>x. x < 5) (drop 1 [1, 4, 6 :: low])) \<and>
    gallop_forward (\<lambda>x. x \<le> 5) [1, 4, 6 :: low] 1 = 1 + length (takeWhile (\<lambda>x. x \<le> 5) (drop 1 [1, 4, 6 :: low]))"
  by (rule gallop_is_scan) simp_all

text \<open>The run cursor (a few linear steps, then strides, then doubling steps and a binary search) stops at the
  first run that reaches the value.\<close>

lemma run_cursor_is_scan:
  assumes "wf_runs rs" "i \<le> length rs"
  shows "run_reaching (\<lambda>r. rend r < v) rs i = i + length (takeWhile (\<lambda>r. rend r < v) (drop i rs))"
  using run_ends.run_reaching_seek [OF assms, of v] by (simp add: seek_def partition_point_def)

lemma run_cursor_is_scan_witness:
  "run_reaching (\<lambda>r. rend r < 5) [mk_run 1 3, mk_run 5 9] 0 =
    0 + length (takeWhile (\<lambda>r. rend r < 5) (drop 0 [mk_run 1 3, mk_run 5 9]))"
  by (rule run_cursor_is_scan) (simp_all add: wf_runs_Cons run_ok_def run_gap_def)

text \<open>C30: the filter of an array by runs always returns, in each of its forms, and keeps exactly the values the
  runs hold (the intersection) or do not hold (the difference).\<close>

theorem run_filter_returns:
  assumes "wf_runs rs" "strict keys"
  shows "filter_array_run_into_with keep form keys rs = Some (filter (\<lambda>v. (unat v \<in> runs_set rs) = keep) keys)"
  by (rule filter_array_run_into_with_correct [OF assms])

theorem run_filter_returns_witness:
  "filter_array_run_into_with False Stepped [2, 4, 7] [mk_run 1 3, mk_run 5 9] =
    Some (filter (\<lambda>v. (unat v \<in> runs_set [mk_run 1 3, mk_run 5 9]) = False) [2, 4, 7])"
  by (rule run_filter_returns) (simp_all add: wf_runs_Cons run_ok_def run_gap_def)

text \<open>The filter that compacts the array in its own buffer returns too, and gives the same values.\<close>

lemma inplace_run_filter_equivalence:
  assumes "wf_runs rs" "strict keys"
  shows "filter_array_run_inplace keep keys rs = filter_array_run_into keep keys rs \<and>
    filter_array_run_inplace keep keys rs \<noteq> None"
  unfolding filter_array_run_inplace_correct [OF assms] filter_array_run_into_correct [OF assms] by simp

lemma inplace_run_filter_equivalence_witness:
  "filter_array_run_inplace True [2, 4, 7] [mk_run 1 3, mk_run 5 9] =
      filter_array_run_into True [2, 4, 7] [mk_run 1 3, mk_run 5 9] \<and>
    filter_array_run_inplace True [2, 4, 7] [mk_run 1 3, mk_run 5 9] \<noteq> None"
  by (rule inplace_run_filter_equivalence) (simp_all add: wf_runs_Cons run_ok_def run_gap_def)

text \<open>An array combined with a bitset's words, value by value, gives the words of the set operation.\<close>

lemma bitset_array_combination:
  assumes "length bitset = 1024" "strict vs"
  shows "bits_set (combine_bitset_array_words bitset vs op) = set_op op (bits_set bitset) (array_set vs)"
  by (rule combine_bitset_array_words_correct(1) [OF assms])

lemma bitset_array_combination_witness:
  "bits_set (combine_bitset_array_words (replicate 1024 7) [1, 4] Bit_xor) =
    set_op Bit_xor (bits_set (replicate 1024 7)) (array_set [1, 4])"
  by (rule bitset_array_combination) simp_all

text \<open>The walk over word spans (all dropped, all kept or tested) and the flat probe keep the same values, and
  compacting in place does too.\<close>

lemma span_walk_equivalence:
  assumes "length words = 1024" "strict keys"
  shows "span_walk words keys 0 [] = filter_array_bitset keys words True \<and>
    filter_array_bitset_inplace keys words True = filter_array_bitset keys words True"
  using span_walk_eq_probe [OF assms] filter_array_bitset_inplace_correct [OF assms(1)] filter_array_bitset_correct [OF assms(1)]
  by simp

lemma span_walk_equivalence_witness:
  "span_walk (replicate 1024 7) [1, 4, 64] 0 [] = filter_array_bitset [1, 4, 64] (replicate 1024 7) True \<and>
    filter_array_bitset_inplace [1, 4, 64] (replicate 1024 7) True = filter_array_bitset [1, 4, 64] (replicate 1024 7) True"
  by (rule span_walk_equivalence) simp_all

text \<open>C31: single insertions and removals never change a container's form, and a settled count is at most 65536.\<close>

theorem form_and_count_type:
  assumes "wf_container h"
  shows "kind (snd (container_add capacity v h)) = kind h \<and> kind (snd (container_remove v h)) = kind h \<and>
    cardinality (settle_cardinality h) \<le> low_domain_size"
proof -
  have "values_of h \<subseteq> {..<65536}" using values_of_bound [OF assms] by blast
  then have "card (values_of h) \<le> 65536" using card_mono [of "{..<65536 :: nat}" "values_of h"] by simp
  then show ?thesis
    using container_add_correct(4) [OF assms] container_remove_correct(4) [OF assms] settle_cardinality_correct(3) [OF assms]
    by (simp add: low_domain_size_def)
qed

theorem form_and_count_type_witness:
  "kind (snd (container_add 8 3 make_run)) = kind make_run \<and> kind (snd (container_remove 3 make_run)) = kind make_run \<and>
    cardinality (settle_cardinality make_run) \<le> low_domain_size"
  by (rule form_and_count_type) (rule empty_factories)

section \<open>The run kernels\<close>

text \<open>C32: the merge of two run lists gives their intersection in runs that do not touch, with its number of values,
  and the merge that only counts gives the same number; the runs written are fewer than the two lists have together,
  so the buffer the code allots is never overrun.\<close>

theorem run_intersection_functional:
  assumes "wf_runs ls" "wf_runs rs"
  shows "wf_runs (fst (intersect_runs ls rs)) \<and> runs_set (fst (intersect_runs ls rs)) = runs_set ls \<inter> runs_set rs \<and>
    snd (intersect_runs ls rs) = card (runs_set ls \<inter> runs_set rs) \<and>
    intersect_runs_cardinality ls rs = snd (intersect_runs ls rs) \<and>
    (fst (intersect_runs ls rs) = [] \<or> length (fst (intersect_runs ls rs)) < length ls + length rs)"
  using intersect_runs_correct [OF assms] intersect_runs_cardinality_correct [OF assms] by auto

lemma sample_runs: "wf_runs [mk_run 2 9, mk_run 20 30]" "wf_runs [mk_run 5 25]"
  by (simp_all add: wf_runs_Cons run_ok_def run_gap_def)

theorem run_intersection_functional_witness:
  "runs_set (fst (intersect_runs [mk_run 2 9, mk_run 20 30] [mk_run 5 25])) =
     runs_set [mk_run 2 9, mk_run 20 30] \<inter> runs_set [mk_run 5 25]"
  using run_intersection_functional [OF sample_runs] by (elim conjE)

text \<open>C33: the unions of a run list with a run list and with an array, and the symmetric differences, are those of the
  sets, with no run touching the next and the count kept; the symmetric differences fit the lengths together.\<close>

theorem run_merges_functional:
  assumes "wf_runs ls" "wf_runs rs" "strict vs"
  shows "wf_rc (union_run_run ls rs) \<and> rc_set (union_run_run ls rs) = runs_set ls \<union> runs_set rs \<and>
    wf_rc (union_run_array ls vs) \<and> rc_set (union_run_array ls vs) = runs_set ls \<union> array_set vs \<and>
    wf_runs (xor_runs ls rs) \<and> runs_set (xor_runs ls rs) = sym_diff (runs_set ls) (runs_set rs) \<and>
    length (xor_runs ls rs) \<le> length ls + length rs \<and>
    wf_runs (xor_values_runs vs rs) \<and> runs_set (xor_values_runs vs rs) = sym_diff (array_set vs) (runs_set rs) \<and>
    length (xor_values_runs vs rs) \<le> length vs + length rs"
  using union_run_run_correct [OF assms(1,2)] union_run_array_correct [OF assms(1,3)] xor_runs_correct [OF assms(1,2)]
    xor_values_runs_correct [OF assms(3,2)] by blast

theorem run_merges_functional_witness:
  "rc_set (union_run_run [mk_run 2 9, mk_run 20 30] [mk_run 5 25]) = runs_set [mk_run 2 9, mk_run 20 30] \<union> runs_set [mk_run 5 25]"
proof -
  have "strict [3, 7 :: low]" by simp
  from run_merges_functional [OF sample_runs this] show ?thesis by (elim conjE)
qed

text \<open>C34: a run container minus a run container, minus sorted values and minus a bitset is the difference of the sets,
  in a well-formed container of whichever form is smallest; whatever the uninitialized words of the bitset
  arm hold at first does not show.\<close>

theorem run_differences_functional:
  assumes "wf_runs ls" "wf_runs rs" "strict vs" "length bits = 1024" "length uninitialized = 1024"
  shows "holds_set (runs_set ls - runs_set rs) (difference_run_run ls rs threshold) \<and>
    holds_set (runs_set ls - array_set vs) (difference_run_array ls vs threshold) \<and>
    holds_set (runs_set ls - bits_set bits) (difference_run_bitset ls bits threshold uninitialized)"
  using difference_run_run_correct [OF assms(1,2)] difference_run_values_correct [OF assms(1,3)]
    difference_run_bitset_correct [OF assms(1,4,5)] by (simp add: difference_run_array_def)

theorem run_differences_functional_witness:
  "holds_set (runs_set [mk_run 2 9, mk_run 20 30] - bits_set (replicate 1024 0))
     (difference_run_bitset [mk_run 2 9, mk_run 20 30] (replicate 1024 0) 4096 (replicate 1024 7))"
proof -
  have "strict [3, 7 :: low]" "length (replicate 1024 (0 :: word64)) = 1024" "length (replicate 1024 (7 :: word64)) = 1024"
    by simp_all
  from run_differences_functional [OF sample_runs this] show ?thesis by blast
qed

text \<open>C35: the intersections of a run list with a bitset (the words of the runs filled into a zeroed or into a used block,
  the gaps cleared from a copy, the values of a sparse result written out) hold the same values, counted exactly, and the
  choice between them by coverage does too.\<close>

theorem run_bitset_intersections_agree:
  assumes "wf_runs rs" "length src = 1024" "length out = 1024"
    and "exact A run_side" "holds_run run_side" "exact B bitset_side" "holds_bitset bitset_side"
  shows "exact (runs_set rs \<inter> bits_set src) (intersect_run_bitset rs src out) \<and>
    exact (runs_set rs \<inter> bits_set src) (intersect_run_bitset_clone_and_recount rs src) \<and>
    exact (runs_set rs \<inter> bits_set src) (intersect_run_bitset_dense_runs rs src (card (bits_set src))) \<and>
    exact (runs_set rs \<inter> bits_set src) (intersect_run_bitset_sparse rs src) \<and>
    exact (A \<inter> B) (intersect_run_bitset_by_coverage out threshold run_side bitset_side)"
  using intersect_run_bitset_correct [OF assms(1-3)] clone_intersections_correct [OF assms(1,2)] intersect_run_bitset_sparse_correct(1) [OF assms(1,2)]
    intersect_run_bitset_by_coverage_correct [OF assms(4-7,3)] by blast

theorem run_bitset_intersections_agree_witness:
  "exact ({1..9} \<inter> {3, 5}) (intersect_run_bitset_by_coverage (replicate 1024 0) 4096
    (handle_from_run_container \<lparr>runs = [mk_run 1 9], rc_cardinality = 9\<rparr>) (bitset_handle_from_sorted_values [3, 5] make_array))"
proof -
  let ?run = "handle_from_run_container \<lparr>runs = [mk_run 1 9], rc_cardinality = 9\<rparr>"
  let ?bits = "bitset_handle_from_sorted_values [3, 5] make_array"
  have "wf_rc \<lparr>runs = [mk_run 1 9], rc_cardinality = 9\<rparr>" "rc_set \<lparr>runs = [mk_run 1 9], rc_cardinality = 9\<rparr> = {1..9}"
    by (simp_all add: wf_rc_def rc_set_def wf_runs_Cons run_ok_def runs_set_def run_set_def)
  note run = handle_from_run_container_correct(1) [OF this(1), unfolded this(2)]
  have "exact {1..9} ?run" "holds_run ?run" using run by (simp_all add: exact_def counted handle_from_run_container_def Let_def)
  moreover have "exact {3, 5} ?bits" "holds_bitset ?bits"
    using exact_bitset_of_values [of "[3, 5]" make_array] bitset_handle_from_sorted_values_correct(2) [of "[3, 5]" make_array]
    by (simp_all add: holds_bitset_def kind_def array_set_def)
  ultimately show ?thesis
    using run_bitset_intersections_agree [of "[]" "replicate 1024 0" "replicate 1024 0" "{1..9}" ?run "{3, 5}" ?bits 4096] by simp
qed

text \<open>C36: the scan under the bitset reports the survivors of the runs in words and stretches of full words that
  follow one another, and the counter fed with it finds their number and the number of their runs, giving up
  exactly when the runs are more than the limit.\<close>

theorem survivor_count_exact:
  assumes "wf_runs lhs" "length bits = 1024"
    "feed counter_sink (scan_run_bitset_difference lhs bits)
       \<lparr>run_limit = limit, survivors = 0, survivor_runs = 0, last_index = - 1, last_top = 0\<rparr> = (counted, counter)"
  shows "(counted \<longleftrightarrow> card (run_starts (runs_set lhs - bits_set bits)) \<le> limit) \<and>
    (\<not> counted \<or> survivors counter = card (runs_set lhs - bits_set bits) \<and>
      survivor_runs counter = card (run_starts (runs_set lhs - bits_set bits)))"
  using run_survivor_count [OF assms] by blast

theorem survivor_count_exact_witness:
  "fst (feed counter_sink (scan_run_bitset_difference [mk_run 2 9, mk_run 20 30] (replicate 1024 0))
       \<lparr>run_limit = 2, survivors = 0, survivor_runs = 0, last_index = - 1, last_top = 0\<rparr>) \<longleftrightarrow>
   card (run_starts (runs_set [mk_run 2 9, mk_run 20 30] - bits_set (replicate 1024 0))) \<le> 2"
  by (rule survivor_count_exact [THEN conjunct1, OF sample_runs(1) _ prod.collapse [symmetric]]) simp

section \<open>The portable format\<close>

text \<open>One small table in the memory form, with an array, a run and a chunk that the format re-encodes.\<close>

definition sample_slots :: "(16 word \<times> container) list" where
  "sample_slots = [(3, make_array_from_sorted [1, 5]), (9, make_array_from_sorted [7])]"

lemma sample_array: "strict vs \<Longrightarrow> vs \<noteq> [] \<Longrightarrow> slot_ok (make_array_from_sorted vs)"
  by (rule slot_okI [of "array_set vs"])
    (simp_all add: exact_def holds_set_def make_array_from_sorted_correct, simp_all add: counted array_set_def)

definition wide_slots :: "(key64 \<times> container) list" where
  "wide_slots = [(0x70003, make_array_from_sorted [1, 5]), (0x90000, make_array_from_sorted [7])]"

lemma sample_slots_ok: "table_ok sample_slots"
  by (simp add: table_ok_def sample_slots_def sample_array)

lemma wide_slots_ok:
  "table_ok wide_slots" "\<forall>(key, _)\<in>set wide_slots. unat key < 2 ^ 48" "length (portable_buckets wide_slots) \<le> 2 ^ 32 - 1"
  by (simp_all add: table_ok_def wide_slots_def sample_array Let_def)

text \<open>C37: a 32-bit bitmap written in the portable format is read back, whatever follows it, as the same keys with the
  same values in well-formed containers, runs again as runs, and the announced size is the size written.\<close>

theorem portable_table_round_trip:
  assumes "table_ok slots"
  shows "length (portable_serialize slots) = portable_size_in_bytes slots \<and>
    (\<exists>slots'. portable_read_32 (portable_serialize slots @ rest) = Some (slots', rest) \<and> table_ok slots' \<and>
      map (\<lambda>(key, h). (key, values_of h, holds_run h)) slots' = map (\<lambda>(key, h). (key, values_of h, holds_run h)) slots)"
proof -
  obtain slots' where s: "portable_read_32 (portable_write_32 slots @ rest) = Some (slots', rest)" "same_table slots slots'"
    using portable_roundtrip [OF assms, of rest] by blast
  from portable_size_is_written [OF assms] portable_read_32_ok [OF s(1)] same_table_forms [OF s(2)] s(1)
  show ?thesis unfolding portable_serialize_def by blast
qed

theorem portable_table_round_trip_witness:
  "length (portable_serialize sample_slots) = portable_size_in_bytes sample_slots \<and>
    (\<exists>slots'. portable_read_32 (portable_serialize sample_slots @ [7]) = Some (slots', [7]) \<and> table_ok slots' \<and>
      map (\<lambda>(key, h). (key, values_of h, holds_run h)) slots' =
        map (\<lambda>(key, h). (key, values_of h, holds_run h)) sample_slots)"
  by (rule portable_table_round_trip [OF sample_slots_ok])

text \<open>C38: the same for 64-bit keys, whose chunks are written in buckets of the high halves, as long as the number of
  buckets fits the bound the reader checks.\<close>

theorem portable_table_round_trip_64:
  assumes "table_ok slots" "\<forall>(key, _)\<in>set slots. unat key < 2 ^ 48" "length (portable_buckets slots) \<le> 2 ^ 32 - 1"
  shows "length (portable_serialize_64 slots) = portable_size_in_bytes_64 slots \<and>
    (\<exists>slots'. portable_read_64 (portable_serialize_64 slots @ rest) = Some (slots', rest) \<and> table_ok slots' \<and>
      map (\<lambda>(key, h). (key, values_of h, holds_run h)) slots' = map (\<lambda>(key, h). (key, values_of h, holds_run h)) slots)"
proof -
  obtain slots' where s: "portable_read_64 (portable_serialize_64 slots @ rest) = Some (slots', rest)" "same_table slots slots'"
    using portable_roundtrip_64 [OF assms, of rest] by blast
  from portable_size_is_written_64 [OF assms(1,2)] portable_read_64_ok [OF s(1)] same_table_forms [OF s(2)] s(1)
  show ?thesis by blast
qed

theorem portable_table_round_trip_64_witness:
  "length (portable_serialize_64 wide_slots) = portable_size_in_bytes_64 wide_slots \<and>
    (\<exists>slots'. portable_read_64 (portable_serialize_64 wide_slots @ [7]) = Some (slots', [7]) \<and> table_ok slots' \<and>
      map (\<lambda>(key, h). (key, values_of h, holds_run h)) slots' = map (\<lambda>(key, h). (key, values_of h, holds_run h)) wide_slots)"
  by (rule portable_table_round_trip_64 [OF wide_slots_ok])

text \<open>C39: whatever bytes the readers accept, the table they build is sound: its keys ascend strictly and each container
  is well formed, counted exactly and not empty, no run overlapping, no value out of order, no count taken on trust.\<close>

theorem portable_reader_is_sound:
  "(case portable_deserialize bytes of None \<Rightarrow> True
    | Some (slots, amount) \<Rightarrow> table_ok slots \<and> length slots \<le> 65536 \<and> amount = (\<Sum>(_, h)\<leftarrow>slots. card (values_of h))) \<and>
   (case portable_deserialize_64 bytes of None \<Rightarrow> True
    | Some (slots, amount) \<Rightarrow> table_ok slots \<and> (list_all (\<lambda>(key, _). unat key < 2 ^ 48) slots) \<and>
        amount = (\<Sum>(_, h)\<leftarrow>slots. card (values_of h)))"
  using portable_read_32_ok portable_read_64_ok
  by (auto simp: portable_deserialize_def portable_deserialize_64_def total_of_slots list_all_iff split: option.splits)

text \<open>C40: a bitmap cut short anywhere is rejected, at both widths.\<close>

theorem portable_truncation:
  assumes "table_ok slots" "table_ok wide" "\<forall>(key, _)\<in>set wide. unat key < 2 ^ 48"
    "length (portable_buckets wide) \<le> 2 ^ 32 - 1"
    and "n < length (portable_serialize slots)" "m < length (portable_serialize_64 wide)"
  shows "portable_deserialize (take n (portable_serialize slots)) = None \<and>
    portable_deserialize_64 (take m (portable_serialize_64 wide)) = None"
  using portable_truncation_rejected [OF assms(1), of "take n (portable_write_32 slots)" "drop n (portable_write_32 slots)"]
    portable_truncation_rejected_64 [OF assms(2-4), of "take m (portable_serialize_64 wide)" "drop m (portable_serialize_64 wide)"]
    assms(5,6)
  by (simp add: portable_deserialize_def portable_deserialize_64_def portable_serialize_def)

theorem portable_truncation_witness:
  "portable_deserialize (take 5 (portable_serialize sample_slots)) = None \<and>
    portable_deserialize_64 (take 3 (portable_serialize_64 wide_slots)) = None"
proof (rule portable_truncation [OF sample_slots_ok wide_slots_ok])
  show "3 < length (portable_serialize_64 wide_slots)"
    by (simp add: portable_serialize_64_def portable_put64_def)
  show "5 < length (portable_serialize sample_slots)"
    using portable_size_is_written [OF sample_slots_ok]
    by (simp add: portable_serialize_def portable_size_in_bytes_def plan_of_slots sample_slots_def Let_def)
qed

end
